(* ===== verification/Prelude.thy ===== *)
theory Prelude
  imports Main "HOL-Library.Word"
begin

unbundle bit_operations_syntax

text \<open>
  What the theories of this development share: the names of the machine types, the
  status codes every operation returns, the reading of a C buffer as a list of
  bytes, and the generic lemmas on lists and words that the component proofs use.

  Conventions. A byte buffer is a \<open>u8 list\<close>; a pointer into it is an offset, so
  \<open>p + k\<close> is \<open>drop k\<close>. An argument the C code compares with \<open>NULL\<close> is an option
  (\<open>None\<close> is \<open>NULL\<close>), and an output pointer that may be \<open>NULL\<close> is a flag
  (\<open>True\<close>: the caller passed a place to write to). A function that writes through
  an output pointer returns the status and an option: \<open>None\<close> when nothing was
  written. The object a function works on (its first argument, a state record) is passed
  by value and returned updated; the test that its pointer is not \<open>NULL\<close>, which every
  function of the code makes first, has no counterpart where the record is there by
  construction. \<open>size_t\<close> values that only count bytes of such a buffer are \<open>nat\<close>.
\<close>

section \<open>Machine types\<close>

type_synonym u8 = "8 word"
type_synonym u16 = "16 word"
type_synonym u32 = "32 word"
type_synonym u64 = "64 word"
type_synonym bytes = "u8 list"

text \<open>A flag that says whether an output pointer is not \<open>NULL\<close>.\<close>

type_synonym out_ptr = bool

section \<open>Status codes\<close>

text \<open>
  \<open>hal_status_t\<close> is declared in the jhbase library, which \<open>src/hal/core/hal_status.h\<close>
  includes; its codes are the ones \<open>doc/api/en/01_status_api.md\<close> lists. Success is
  positive, \<open>HAL_NONE\<close> is zero and an error is negative.
\<close>

datatype hal_status =
    HAL_OK | HAL_NONE | HAL_EINVAL | HAL_EBUSY | HAL_ETIMEOUT | HAL_EIO
  | HAL_EUNSUPPORTED | HAL_ENOENT | HAL_EAGAIN | HAL_EOVERFLOW | HAL_ENOMEM
  | HAL_EEXIST | HAL_EPERM | HAL_EINTERNAL | HAL_ECANCELED | HAL_EPROTO
  | HAL_EAUTH | HAL_EBUS | HAL_EHW | HAL_ECONFIG | HAL_ESTATE | HAL_EUNINIT
  | HAL_EDEPRECATED | HAL_EUNKNOWN | HAL_ETYPE

definition hal_status_is_error :: "hal_status \<Rightarrow> bool" where
  "hal_status_is_error s \<longleftrightarrow> s \<noteq> HAL_OK \<and> s \<noteq> HAL_NONE"

section \<open>Collections of lemmas\<close>

named_theorems wire_lengths \<open>lengths of the byte strings the codecs build\<close>
named_theorems frame_facts \<open>fields an operation leaves alone\<close>

section \<open>Lists as C arrays\<close>

text \<open>\<open>memcpy(buf + off, src, length src)\<close> and \<open>memset(buf + off, v, n)\<close>.\<close>

definition blit :: "'a list \<Rightarrow> nat \<Rightarrow> 'a list \<Rightarrow> 'a list" where
  "blit buf off src = take off buf @ src @ drop (off + length src) buf"

text \<open>\<open>n\<close> bytes read from \<open>buf + off\<close>.\<close>

definition subarr :: "nat \<Rightarrow> nat \<Rightarrow> 'a list \<Rightarrow> 'a list" where
  "subarr off n buf = take n (drop off buf)"

lemma length_blit [simp]:
  "off + length src \<le> length buf \<Longrightarrow> length (blit buf off src) = length buf"
  by (simp add: blit_def)

lemma length_subarr [simp]: "off + n \<le> length buf \<Longrightarrow> length (subarr off n buf) = n"
  by (simp add: subarr_def)

lemma subarr_blit_same [simp]:
  "off + length src \<le> length buf \<Longrightarrow> n = length src \<Longrightarrow> subarr off n (blit buf off src) = src"
  by (simp add: subarr_def blit_def)

lemma nth_blit:
  "off + length src \<le> length buf \<Longrightarrow> i < length buf \<Longrightarrow>
   blit buf off src ! i =
     (if off \<le> i \<and> i < off + length src then src ! (i - off) else buf ! i)"
  by (auto simp: blit_def nth_append)

lemma nth_subarr: "i < n \<Longrightarrow> off + n \<le> length buf \<Longrightarrow> subarr off n buf ! i = buf ! (off + i)"
  by (simp add: subarr_def)

lemma subarr_blit_disjoint:
  assumes "off + length src \<le> length buf" "o2 + n \<le> length buf"
    and "o2 + n \<le> off \<or> off + length src \<le> o2"
  shows "subarr o2 n (blit buf off src) = subarr o2 n buf"
  using assms by (intro nth_equalityI) (auto simp: nth_subarr nth_blit)

lemma subarr_0 [simp]: "subarr 0 n buf = take n buf"
  by (simp add: subarr_def)

lemma subarr_append_left: "off + n \<le> length xs \<Longrightarrow> subarr off n (xs @ ys) = subarr off n xs"
  by (simp add: subarr_def)

lemma subarr_append_right:
  "length xs \<le> off \<Longrightarrow> subarr off n (xs @ ys) = subarr (off - length xs) n ys"
  by (simp add: subarr_def)

text \<open>The \<open>n\<close> bytes behind an input pointer (none when it is \<open>NULL\<close>).\<close>

definition at_ptr :: "'a list option \<Rightarrow> nat \<Rightarrow> 'a list" where
  "at_ptr p n = (case p of None \<Rightarrow> [] | Some b \<Rightarrow> take n b)"

lemma at_ptr_simps [simp]: "at_ptr None n = []" "at_ptr (Some b) n = take n b"
  by (simp_all add: at_ptr_def)

text \<open>A buffer cut into pieces of \<open>n\<close>, the last one shorter when \<open>n\<close> does not divide its length.\<close>

function chunks :: "nat \<Rightarrow> 'a list \<Rightarrow> 'a list list" where
  "chunks n xs = (if n = 0 \<or> xs = [] then [] else take n xs # chunks n (drop n xs))"
  by pat_completeness auto
termination by (relation "measure (\<lambda>(n, xs). length xs)") auto

declare chunks.simps [simp del]

lemma chunks_Nil [simp]: "chunks n [] = []"
  by (subst chunks.simps) simp

lemma chunks_step: "0 < n \<Longrightarrow> n \<le> length xs \<Longrightarrow> chunks n xs = take n xs # chunks n (drop n xs)"
  by (subst chunks.simps) auto

lemma chunks_append:
  assumes "n dvd length xs" "0 < n"
  shows "chunks n (xs @ ys) = chunks n xs @ chunks n ys"
  using assms
proof (induction n xs rule: chunks.induct)
  case (1 n xs)
  show ?case
  proof (cases "xs = []")
    case False
    then have "n \<le> length xs" using 1 by (auto dest: dvd_imp_le)
    then show ?thesis using 1 False by (simp add: chunks_step)
  qed simp
qed

lemma chunks_single [simp]: "length xs = n \<Longrightarrow> 0 < n \<Longrightarrow> chunks n xs = [xs]"
  by (simp add: chunks_step)

section \<open>Words\<close>

lemma unat_ucast_u8 [simp]:
  "unat (ucast (b :: u8) :: u16) = unat b"
  "unat (ucast (b :: u8) :: u32) = unat b"
  "unat (ucast (b :: u8) :: u64) = unat b"
  by (simp_all add: unsigned_ucast_eq take_bit_nat_eq_self unsigned_less [THEN less_le_trans])

lemma unat_u8_less [simp]: "unat (b :: u8) < 256"
  using unsigned_less [where w = b] by simp

lemma unat_u16_less [simp]: "unat (b :: u16) < 65536"
  using unsigned_less [where w = b] by simp

lemma unat_u32_less [simp]: "unat (b :: u32) < 4294967296"
  using unsigned_less [where w = b] by simp

lemma unat_u64_less [simp]: "unat (b :: u64) < 18446744073709551616"
  using unsigned_less [where w = b] by simp

lemma unat_ucast_wider [simp]:
  "unat (ucast (w :: u16) :: u32) = unat w"
  "unat (ucast (w :: u16) :: u64) = unat w"
  "unat (ucast (x :: u32) :: u64) = unat x"
  by (simp_all add: unsigned_ucast_eq take_bit_nat_eq_self unsigned_less [THEN less_le_trans])

lemma unat_of_nat_less: "n < 2 ^ LENGTH('a) \<Longrightarrow> unat (of_nat n :: 'a::len word) = n"
  by (simp add: unat_of_nat take_bit_nat_eq_self)

lemma ucast_of_unat: "(of_nat (unat w) :: 'b::len word) = ucast w" for w :: "'a::len word"
  by simp

lemma word_dec: "1 \<le> unat w \<Longrightarrow> unat (w - 1) = unat w - 1" for w :: "'a::len word"
  by (simp add: unat_sub word_le_nat_alt)

lemma unat_u16_le: "unat (w :: u16) \<le> 65535"
  using unat_u16_less [of w] by linarith

lemma word_inc_less:
  fixes w :: "'a::len word"
  assumes "w \<le> v" "unat v < 2 ^ LENGTH('a) - 1"
  shows "unat (w + 1) = unat w + 1"
proof -
  have "unat w + 1 < 2 ^ LENGTH('a)" using assms by (simp add: word_le_nat_alt)
  then show ?thesis by (subst unat_word_ariths) (simp add: unat_word_ariths)
qed

end
