(* ===== verification/Fifo.thy ===== *)
theory Fifo
  imports Prelude
begin

text \<open>
  The interface of a bounded first-in first-out queue and what every client of it may
  rely on. \<open>fifo_run\<close> runs a sequence of operations on an implementation and
  collects what they return, \<open>spec_run\<close> runs it on a plain list with a limit; the
  locale shows that the two give the same answers on every sequence. The theory
  Spsc_Ring interprets the locale on the ring buffer of
  \<open>src/hal/core/jh_spsc_ring.h\<close>.
\<close>

datatype 'a fifo_op = Push 'a | Pop

datatype 'a fifo_out = Pushed bool | Popped "'a option"

fun fifo_step :: "('q \<Rightarrow> 'a \<Rightarrow> 'q \<times> bool) \<Rightarrow> ('q \<Rightarrow> 'q \<times> 'a option) \<Rightarrow> 'q \<Rightarrow> 'a fifo_op \<Rightarrow>
    'q \<times> 'a fifo_out" where
  "fifo_step push pop q (Push x) = map_prod id Pushed (push q x)"
| "fifo_step push pop q Pop = map_prod id Popped (pop q)"

fun fifo_run :: "('q \<Rightarrow> 'a \<Rightarrow> 'q \<times> bool) \<Rightarrow> ('q \<Rightarrow> 'q \<times> 'a option) \<Rightarrow> 'q \<Rightarrow> 'a fifo_op list \<Rightarrow>
    'q \<times> 'a fifo_out list" where
  "fifo_run push pop q [] = (q, [])"
| "fifo_run push pop q (c # cs) =
     (let (q', y) = fifo_step push pop q c; (q'', ys) = fifo_run push pop q' cs in (q'', y # ys))"

definition spec_push :: "nat \<Rightarrow> 'a list \<Rightarrow> 'a \<Rightarrow> 'a list \<times> bool" where
  "spec_push n xs x = (if length xs < n then (xs @ [x], True) else (xs, False))"

fun spec_pop :: "'a list \<Rightarrow> 'a list \<times> 'a option" where
  "spec_pop [] = ([], None)"
| "spec_pop (x # xs) = (xs, Some x)"

abbreviation spec_run :: "nat \<Rightarrow> 'a list \<Rightarrow> 'a fifo_op list \<Rightarrow> 'a list \<times> 'a fifo_out list" where
  "spec_run n \<equiv> fifo_run (spec_push n) spec_pop"

locale bounded_fifo =
  fixes push :: "'q \<Rightarrow> 'a \<Rightarrow> 'q \<times> bool"
    and pop :: "'q \<Rightarrow> 'q \<times> 'a option"
    and contents :: "'q \<Rightarrow> 'a list"
    and limit :: "'q \<Rightarrow> nat"
    and invar :: "'q \<Rightarrow> bool"
    and fits :: "'q \<Rightarrow> 'a \<Rightarrow> bool"
  assumes push_contents:
      "invar q \<Longrightarrow> fits q x \<Longrightarrow> push q x = (q', ok) \<Longrightarrow> (contents q', ok) = spec_push (limit q) (contents q) x"
    and pop_contents: "invar q \<Longrightarrow> pop q = (q', r) \<Longrightarrow> (contents q', r) = spec_pop (contents q)"
    and push_frame: "invar q \<Longrightarrow> fits q x \<Longrightarrow> push q x = (q', ok) \<Longrightarrow> invar q' \<and> limit q' = limit q \<and> fits q' = fits q"
    and pop_frame: "invar q \<Longrightarrow> pop q = (q', r) \<Longrightarrow> invar q' \<and> limit q' = limit q \<and> fits q' = fits q"
    and within_limit: "invar q \<Longrightarrow> length (contents q) \<le> limit q"
begin

lemma step_refines:
  assumes "invar q" "\<And>x. c = Push x \<Longrightarrow> fits q x" "fifo_step push pop q c = (q', y)"
  shows "fifo_step (spec_push (limit q)) spec_pop (contents q) c = (contents q', y) \<and>
         invar q' \<and> limit q' = limit q \<and> fits q' = fits q"
proof (cases c)
  case (Push x)
  then obtain ok where ok: "push q x = (q', ok)" "y = Pushed ok"
    using assms(3) by (cases "push q x") auto
  have fits: "fits q x" using assms(2) Push by simp
  have "spec_push (limit q) (contents q) x = (contents q', ok)"
    using push_contents [OF assms(1) fits ok(1)] by simp
  then show ?thesis
    using Push ok push_frame [OF assms(1) fits ok(1)] by simp
next
  case Pop
  then obtain r where r: "pop q = (q', r)" "y = Popped r"
    using assms(3) by (cases "pop q") auto
  have "spec_pop (contents q) = (contents q', r)"
    using pop_contents [OF assms(1) r(1)] by simp
  then show ?thesis
    using Pop r pop_frame [OF assms(1) r(1)] by simp
qed

lemma run_refines:
  assumes "invar q" "\<And>x. Push x \<in> set cs \<Longrightarrow> fits q x" "fifo_run push pop q cs = (q', ys)"
  shows "spec_run (limit q) (contents q) cs = (contents q', ys) \<and> invar q' \<and> limit q' = limit q"
  using assms
proof (induction cs arbitrary: q ys)
  case Nil
  then show ?case by simp
next
  case (Cons c cs)
  obtain q1 y where one: "fifo_step push pop q c = (q1, y)" by fastforce
  obtain zs where rest: "fifo_run push pop q1 cs = (q', zs)" "ys = y # zs"
    using Cons.prems(3) one by (auto split: prod.splits)
  have "fifo_step (spec_push (limit q)) spec_pop (contents q) c = (contents q1, y) \<and>
        invar q1 \<and> limit q1 = limit q \<and> fits q1 = fits q"
    using Cons.prems one by (intro step_refines) auto
  moreover from this have "spec_run (limit q1) (contents q1) cs = (contents q', zs) \<and>
        invar q' \<and> limit q' = limit q1"
    using Cons.prems(2) rest by (intro Cons.IH) auto
  ultimately show ?case by (simp add: rest)
qed

lemma never_overflows:
  assumes "invar q" "\<And>x. Push x \<in> set cs \<Longrightarrow> fits q x"
  shows "length (contents (fst (fifo_run push pop q cs))) \<le> limit q"
proof -
  obtain q' ys where run: "fifo_run push pop q cs = (q', ys)" by fastforce
  then have "invar q' \<and> limit q' = limit q"
    using run_refines [OF assms run] by simp
  then show ?thesis using within_limit [of q'] run by simp
qed

end

end
