(* ===== verification/Spsc_Ring.thy ===== *)
theory Spsc_Ring
  imports Fifo
begin

text \<open>
  The ring buffer of \<open>src/hal/core/jh_spsc_ring.h\<close>: elements of a fixed size, copied
  byte by byte into the caller's storage. Positions run modulo twice the capacity, so
  a full and an empty ring differ. The capacity is a \<open>uint16_t\<close> and a position stays
  below \<open>2 * capacity\<close>, so the 32-bit positions never wrap and are modelled as \<open>nat\<close>.

  The first half is the sequential behaviour: the ring is a bounded queue, by an
  interpretation of the locale of Fifo. The second half runs one producer and one
  consumer against each other, one atomic access per step, and shows that what the
  consumer has taken followed by what is queued is always what the producer has
  published, in order.
\<close>

section \<open>State and operations\<close>

record spsc_ring =
  r_storage :: "bytes option"
  r_elem_size :: nat
  r_capacity :: nat
  r_head :: nat
  r_tail :: nat

definition jh_spsc_ring_used :: "spsc_ring \<Rightarrow> nat \<Rightarrow> nat \<Rightarrow> nat" where
  "jh_spsc_ring_used r h t = (if h \<ge> t then h - t else h + 2 * r_capacity r - t)"

definition jh_spsc_ring_next :: "spsc_ring \<Rightarrow> nat \<Rightarrow> nat" where
  "jh_spsc_ring_next r p = (if p + 1 = 2 * r_capacity r then 0 else p + 1)"

text \<open>The pointer to a slot, as an offset into the storage.\<close>

definition jh_spsc_ring_slot :: "spsc_ring \<Rightarrow> nat \<Rightarrow> nat" where
  "jh_spsc_ring_slot r p =
     (let i = (if p < r_capacity r then p else p - r_capacity r) in i * r_elem_size r)"

definition jh_spsc_ring_init :: "bytes option \<Rightarrow> nat \<Rightarrow> nat \<Rightarrow> spsc_ring" where
  "jh_spsc_ring_init st es cap =
     \<lparr>r_storage = st, r_elem_size = es, r_capacity = (if st \<noteq> None then cap else 0),
      r_head = 0, r_tail = 0\<rparr>"

definition jh_spsc_ring_count :: "spsc_ring \<Rightarrow> nat" where
  "jh_spsc_ring_count r = jh_spsc_ring_used r (r_head r) (r_tail r)"

text \<open>\<open>memcpy\<close> of one element into the slot at a position, and out of it.\<close>

definition slot_write :: "spsc_ring \<Rightarrow> nat \<Rightarrow> bytes \<Rightarrow> bytes option" where
  "slot_write r p x =
     map_option (\<lambda>s. blit s (jh_spsc_ring_slot r p) (take (r_elem_size r) x)) (r_storage r)"

definition slot_read :: "spsc_ring \<Rightarrow> nat \<Rightarrow> bytes" where
  "slot_read r p =
     (case r_storage r of None \<Rightarrow> [] | Some s \<Rightarrow> subarr (jh_spsc_ring_slot r p) (r_elem_size r) s)"

definition jh_spsc_ring_push :: "spsc_ring \<Rightarrow> bytes \<Rightarrow> spsc_ring \<times> bool" where
  "jh_spsc_ring_push r x =
     (let h = r_head r; t = r_tail r in
      if jh_spsc_ring_used r h t \<ge> r_capacity r then (r, False)
      else (r\<lparr>r_storage := slot_write r h x, r_head := jh_spsc_ring_next r h\<rparr>, True))"

text \<open>The position whose slot \<open>peek\<close> points to, or \<open>None\<close> for \<open>NULL\<close>.\<close>

definition jh_spsc_ring_peek :: "spsc_ring \<Rightarrow> nat option" where
  "jh_spsc_ring_peek r =
     (let t = r_tail r; h = r_head r in if h = t then None else Some t)"

definition jh_spsc_ring_drop :: "spsc_ring \<Rightarrow> spsc_ring" where
  "jh_spsc_ring_drop r = r\<lparr>r_tail := jh_spsc_ring_next r (r_tail r)\<rparr>"

definition jh_spsc_ring_pop :: "spsc_ring \<Rightarrow> spsc_ring \<times> bytes option" where
  "jh_spsc_ring_pop r =
     (case jh_spsc_ring_peek r of
        None \<Rightarrow> (r, None)
      | Some front \<Rightarrow> (jh_spsc_ring_drop r, Some (slot_read r front)))"

definition jh_spsc_ring_clear :: "spsc_ring \<Rightarrow> spsc_ring" where
  "jh_spsc_ring_clear r = r\<lparr>r_tail := r_head r\<rparr>"

lemmas ring_defs = jh_spsc_ring_used_def jh_spsc_ring_next_def jh_spsc_ring_slot_def
  slot_write_def slot_read_def

section \<open>Invariant and abstraction\<close>

definition position_ok :: "spsc_ring \<Rightarrow> nat \<Rightarrow> bool" where
  "position_ok r p \<longleftrightarrow> p < 2 * r_capacity r \<or> (r_capacity r = 0 \<and> p = 0)"

definition ring_ok :: "spsc_ring \<Rightarrow> bool" where
  "ring_ok r \<longleftrightarrow>
     position_ok r (r_head r) \<and> position_ok r (r_tail r) \<and>
     jh_spsc_ring_used r (r_head r) (r_tail r) \<le> r_capacity r \<and>
     (r_capacity r = 0 \<or>
      (\<exists>s. r_storage r = Some s \<and> length s = r_capacity r * r_elem_size r))"

text \<open>The position \<open>k\<close> steps after \<open>p\<close>.\<close>

definition advance :: "spsc_ring \<Rightarrow> nat \<Rightarrow> nat \<Rightarrow> nat" where
  "advance r p k = (p + k) mod (2 * r_capacity r)"

definition ring_contents :: "spsc_ring \<Rightarrow> bytes list" where
  "ring_contents r = map (\<lambda>k. slot_read r (advance r (r_tail r) k)) [0..<jh_spsc_ring_count r]"

lemma length_ring_contents [simp]: "length (ring_contents r) = jh_spsc_ring_count r"
  by (simp add: ring_contents_def)

lemma mod_double: "p < 4 * c \<Longrightarrow> p mod (2 * c) = (if p < 2 * c then p else p - 2 * (c::nat))"
  by (simp add: mod_if le_mod_geq)

lemma next_is_advance: "p < 2 * r_capacity r \<Longrightarrow> jh_spsc_ring_next r p = advance r p 1"
  by (auto simp: jh_spsc_ring_next_def advance_def)

lemma advance_bound: "0 < r_capacity r \<Longrightarrow> advance r p k < 2 * r_capacity r"
  by (simp add: advance_def)

lemma advance_advance: "advance r (advance r p i) j = advance r p (i + j)"
  by (simp add: advance_def mod_add_left_eq add.assoc)

lemma advance_0: "p < 2 * r_capacity r \<Longrightarrow> advance r p 0 = p"
  by (simp add: advance_def)

lemma used_advance:
  "t < 2 * r_capacity r \<Longrightarrow> k < 2 * r_capacity r \<Longrightarrow> jh_spsc_ring_used r (advance r t k) t = k"
  by (auto simp: jh_spsc_ring_used_def advance_def mod_double)

lemma advance_used:
  "t < 2 * r_capacity r \<Longrightarrow> h < 2 * r_capacity r \<Longrightarrow> advance r t (jh_spsc_ring_used r h t) = h"
  by (auto simp: jh_spsc_ring_used_def advance_def mod_double)

lemma slot_mod:
  "p < 2 * r_capacity r \<Longrightarrow> jh_spsc_ring_slot r p = (p mod r_capacity r) * r_elem_size r"
  by (auto simp: jh_spsc_ring_slot_def Let_def mod_if le_mod_geq)

lemma advance_mod_capacity: "advance r p k mod r_capacity r = (p + k) mod r_capacity r"
  by (simp add: advance_def mod_mod_cancel)

text \<open>Positions less than a capacity apart have different slots.\<close>

lemma slots_differ:
  assumes "i < j" "j < i + r_capacity r"
  shows "advance r p i mod r_capacity r \<noteq> advance r p j mod r_capacity r"
proof
  assume "advance r p i mod r_capacity r = advance r p j mod r_capacity r"
  then have "(p + j) mod r_capacity r = (p + i) mod r_capacity r"
    by (simp add: advance_mod_capacity)
  then have "r_capacity r dvd (p + j) - (p + i)"
    using assms by (simp add: mod_eq_dvd_iff_nat)
  then show False
    using assms by (auto dest: dvd_imp_le)
qed

section \<open>Slots\<close>

definition storage_ok :: "spsc_ring \<Rightarrow> bool" where
  "storage_ok r \<longleftrightarrow> (\<exists>s. r_storage r = Some s \<and> length s = r_capacity r * r_elem_size r)"

lemma slot_fits:
  assumes "p < 2 * r_capacity r"
  shows "jh_spsc_ring_slot r p + r_elem_size r \<le> r_capacity r * r_elem_size r"
proof -
  have "p mod r_capacity r < r_capacity r" using assms by (intro mod_less_divisor) simp
  then have "Suc (p mod r_capacity r) * r_elem_size r \<le> r_capacity r * r_elem_size r"
    by (intro mult_le_mono1) simp
  then show ?thesis using assms by (simp add: slot_mod)
qed

lemma slots_apart:
  assumes "p < 2 * r_capacity r" "q < 2 * r_capacity r" "p mod r_capacity r \<noteq> q mod r_capacity r"
  shows "jh_spsc_ring_slot r p + r_elem_size r \<le> jh_spsc_ring_slot r q \<or>
         jh_spsc_ring_slot r q + r_elem_size r \<le> jh_spsc_ring_slot r p"
proof -
  have *: "a * e + e \<le> b * e" if "a < b" for a b e :: nat
    using mult_le_mono1 [of "Suc a" b e] that by simp
  show ?thesis
    using assms * [of "p mod r_capacity r" "q mod r_capacity r" "r_elem_size r"]
      * [of "q mod r_capacity r" "p mod r_capacity r" "r_elem_size r"]
    by (simp add: slot_mod) linarith
qed

lemma slot_frame [simp]:
  "jh_spsc_ring_slot (r\<lparr>r_storage := s\<rparr>) p = jh_spsc_ring_slot r p"
  "jh_spsc_ring_slot (r\<lparr>r_head := h\<rparr>) p = jh_spsc_ring_slot r p"
  "jh_spsc_ring_slot (r\<lparr>r_tail := t\<rparr>) p = jh_spsc_ring_slot r p"
  "jh_spsc_ring_used (r\<lparr>r_storage := s\<rparr>) a b = jh_spsc_ring_used r a b"
  "jh_spsc_ring_used (r\<lparr>r_head := h\<rparr>) a b = jh_spsc_ring_used r a b"
  "jh_spsc_ring_used (r\<lparr>r_tail := t\<rparr>) a b = jh_spsc_ring_used r a b"
  "advance (r\<lparr>r_storage := s\<rparr>) p k = advance r p k"
  "advance (r\<lparr>r_head := h\<rparr>) p k = advance r p k"
  "advance (r\<lparr>r_tail := t\<rparr>) p k = advance r p k"
  "slot_read (r\<lparr>r_head := h\<rparr>) p = slot_read r p"
  "slot_read (r\<lparr>r_tail := t\<rparr>) p = slot_read r p"
  "position_ok (r\<lparr>r_storage := s\<rparr>) p = position_ok r p"
  "position_ok (r\<lparr>r_head := h\<rparr>) p = position_ok r p"
  "position_ok (r\<lparr>r_tail := t\<rparr>) p = position_ok r p"
  "storage_ok (r\<lparr>r_head := h\<rparr>) = storage_ok r"
  "storage_ok (r\<lparr>r_tail := t\<rparr>) = storage_ok r"
  by (simp_all add: ring_defs advance_def position_ok_def storage_ok_def cong: option.case_cong)

lemma slot_read_write_same:
  assumes "storage_ok r" "p < 2 * r_capacity r" "r_elem_size r \<le> length x"
  shows "slot_read (r\<lparr>r_storage := slot_write r p x\<rparr>) p = take (r_elem_size r) x"
  using assms slot_fits [OF assms(2)]
  by (auto simp: storage_ok_def slot_read_def slot_write_def)

lemma slot_read_write_other:
  assumes "storage_ok r" "p < 2 * r_capacity r" "q < 2 * r_capacity r" "r_elem_size r \<le> length x"
    and "p mod r_capacity r \<noteq> q mod r_capacity r"
  shows "slot_read (r\<lparr>r_storage := slot_write r p x\<rparr>) q = slot_read r q"
  using assms slot_fits [of p r] slot_fits [of q r] slots_apart [of p r q]
  by (auto simp: storage_ok_def slot_read_def slot_write_def subarr_blit_disjoint)

lemma storage_ok_write:
  assumes "storage_ok r" "p < 2 * r_capacity r" "r_elem_size r \<le> length x"
  shows "storage_ok (r\<lparr>r_storage := slot_write r p x\<rparr>)"
  using assms slot_fits [OF assms(2)] by (auto simp: storage_ok_def slot_write_def)

section \<open>The ring is a bounded queue\<close>

lemma ring_ok_positions:
  "ring_ok r \<Longrightarrow> 0 < r_capacity r \<Longrightarrow>
   r_head r < 2 * r_capacity r \<and> r_tail r < 2 * r_capacity r \<and> storage_ok r"
  by (auto simp: ring_ok_def position_ok_def storage_ok_def)

lemma head_is_advance:
  "ring_ok r \<Longrightarrow> 0 < r_capacity r \<Longrightarrow> r_head r = advance r (r_tail r) (jh_spsc_ring_count r)"
  by (simp add: advance_used ring_ok_positions jh_spsc_ring_count_def)

text \<open>The three effects an operation has: fill the free slot, publish it, drop the oldest.\<close>

lemma write_free_slot:
  assumes "ring_ok r" "jh_spsc_ring_count r < r_capacity r" "r_elem_size r \<le> length y"
  shows "ring_ok (r\<lparr>r_storage := slot_write r (r_head r) y\<rparr>)"
    and "ring_contents (r\<lparr>r_storage := slot_write r (r_head r) y\<rparr>) = ring_contents r"
    and "slot_read (r\<lparr>r_storage := slot_write r (r_head r) y\<rparr>) (r_head r) = take (r_elem_size r) y"
proof -
  obtain n t where n: "jh_spsc_ring_count r = n" and t: "r_tail r = t" by blast
  let ?w = "r\<lparr>r_storage := slot_write r (r_head r) y\<rparr>"
  have cap: "0 < r_capacity r" and n_less: "n < r_capacity r" using assms(2) n by simp_all
  note pos = ring_ok_positions [OF assms(1) cap]
  have head: "r_head r = advance r t n"
    using head_is_advance [OF assms(1) cap] n t by simp
  have "slot_read ?w (advance r t k) = slot_read r (advance r t k)" if "k < n" for k
    using that pos head assms(3) n_less slots_differ [of k n r t] advance_bound [OF cap, of t k]
    by (auto simp: slot_read_write_other)
  moreover have "jh_spsc_ring_count ?w = n" using n by (simp add: jh_spsc_ring_count_def)
  ultimately show "ring_contents ?w = ring_contents r"
    by (simp add: ring_contents_def n t)
  show "slot_read ?w (r_head r) = take (r_elem_size r) y"
    using pos assms(3) by (simp add: slot_read_write_same)
  show "ring_ok ?w"
    using assms pos storage_ok_write [of r "r_head r" y]
    by (simp add: ring_ok_def storage_ok_def position_ok_def)
qed

lemma publish_slot:
  assumes "ring_ok r" "jh_spsc_ring_count r < r_capacity r"
  shows "ring_ok (r\<lparr>r_head := jh_spsc_ring_next r (r_head r)\<rparr>)"
    and "ring_contents (r\<lparr>r_head := jh_spsc_ring_next r (r_head r)\<rparr>) =
         ring_contents r @ [slot_read r (r_head r)]"
proof -
  obtain n t where n: "jh_spsc_ring_count r = n" and t: "r_tail r = t" by blast
  let ?w = "r\<lparr>r_head := jh_spsc_ring_next r (r_head r)\<rparr>"
  have cap: "0 < r_capacity r" and n_less: "n < r_capacity r" using assms(2) n by simp_all
  note pos = ring_ok_positions [OF assms(1) cap]
  have head: "r_head r = advance r t n"
    using head_is_advance [OF assms(1) cap] n t by simp
  have head': "jh_spsc_ring_next r (r_head r) = advance r t (Suc n)"
    using pos head by (simp add: next_is_advance advance_advance)
  have count: "jh_spsc_ring_count ?w = Suc n"
    using head' pos n_less t by (simp add: jh_spsc_ring_count_def used_advance)
  show "ring_contents ?w = ring_contents r @ [slot_read r (r_head r)]"
    unfolding ring_contents_def count n using t head by simp
  show "ring_ok ?w"
    using head' pos n_less t advance_bound [OF cap, of t "Suc n"]
    by (simp add: ring_ok_def position_ok_def used_advance storage_ok_def)
qed

lemma count_0_iff:
  "ring_ok r \<Longrightarrow> jh_spsc_ring_count r = 0 \<longleftrightarrow> r_head r = r_tail r"
  by (auto simp: ring_ok_def position_ok_def jh_spsc_ring_count_def jh_spsc_ring_used_def)

lemma drop_oldest:
  assumes "ring_ok r" "ring_contents r \<noteq> []"
  shows "ring_ok (jh_spsc_ring_drop r)"
    and "ring_contents r = slot_read r (r_tail r) # ring_contents (jh_spsc_ring_drop r)"
    and "jh_spsc_ring_count (jh_spsc_ring_drop r) = jh_spsc_ring_count r - 1"
proof -
  obtain n t where n: "jh_spsc_ring_count r = n" and t: "r_tail r = t" by blast
  have n_pos: "0 < n" using assms(2) n by (simp add: ring_contents_def)
  have n_le: "n \<le> r_capacity r"
    using assms(1) n by (simp add: ring_ok_def jh_spsc_ring_count_def)
  then have cap: "0 < r_capacity r" using n_pos by simp
  note pos = ring_ok_positions [OF assms(1) cap]
  have head: "r_head r = advance r (advance r t 1) (n - 1)"
    using head_is_advance [OF assms(1) cap] n t n_pos by (simp add: advance_advance)
  have r': "jh_spsc_ring_drop r = r\<lparr>r_tail := advance r t 1\<rparr>"
    using pos t by (simp add: jh_spsc_ring_drop_def next_is_advance)
  show count: "jh_spsc_ring_count (jh_spsc_ring_drop r) = jh_spsc_ring_count r - 1"
    using r' head n n_pos n_le advance_bound [OF cap, of t 1]
      used_advance [of "advance r t 1" r "n - 1"]
    by (simp add: jh_spsc_ring_count_def)
  have upt: "[0..<n] = 0 # map Suc [0..<n - 1]"
    using n_pos by (simp add: map_Suc_upt upt_conv_Cons)
  show "ring_contents r = slot_read r (r_tail r) # ring_contents (jh_spsc_ring_drop r)"
    unfolding ring_contents_def count n upt unfolding r' using pos t
    by (simp add: advance_0 advance_advance comp_def)
  show "ring_ok (jh_spsc_ring_drop r)"
    using r' assms(1) pos count n n_le advance_bound [OF cap, of t 1]
    by (auto simp: ring_ok_def position_ok_def jh_spsc_ring_count_def)
qed

lemma ring_frame [frame_facts]:
  "jh_spsc_ring_push r x = (r', ok) \<Longrightarrow> r_capacity r' = r_capacity r \<and> r_elem_size r' = r_elem_size r"
  "jh_spsc_ring_pop r = (r', res) \<Longrightarrow> r_capacity r' = r_capacity r \<and> r_elem_size r' = r_elem_size r"
  by (auto simp: jh_spsc_ring_push_def jh_spsc_ring_pop_def jh_spsc_ring_drop_def Let_def
      split: if_splits option.splits)

lemma push_rejects:
  "r_capacity r \<le> jh_spsc_ring_count r \<Longrightarrow> jh_spsc_ring_push r x = (r, False)"
  by (simp add: jh_spsc_ring_push_def jh_spsc_ring_count_def Let_def)

lemma push_accepts:
  assumes "ring_ok r" "jh_spsc_ring_count r < r_capacity r" "length x = r_elem_size r"
    and push: "jh_spsc_ring_push r x = (r', ok)"
  shows "ok \<and> ring_ok r' \<and> ring_contents r' = ring_contents r @ [x]"
proof -
  let ?w = "r\<lparr>r_storage := slot_write r (r_head r) x\<rparr>"
  have w: "ring_ok ?w" "ring_contents ?w = ring_contents r" "slot_read ?w (r_head r) = x"
    "jh_spsc_ring_count ?w < r_capacity ?w"
    using write_free_slot [OF assms(1,2), of x] assms(2,3) by (simp_all add: jh_spsc_ring_count_def)
  have "jh_spsc_ring_next ?w p = jh_spsc_ring_next r p" for p by (simp add: jh_spsc_ring_next_def)
  then have "ok" and "r' = ?w\<lparr>r_head := jh_spsc_ring_next ?w (r_head ?w)\<rparr>"
    using push assms(2) by (simp_all add: jh_spsc_ring_push_def jh_spsc_ring_count_def Let_def)
  then show ?thesis using publish_slot [OF w(1,4)] w(2,3) by simp
qed

lemma pop_empty: "ring_ok r \<Longrightarrow> ring_contents r = [] \<Longrightarrow> jh_spsc_ring_pop r = (r, None)"
  using count_0_iff [of r]
  by (simp add: jh_spsc_ring_pop_def jh_spsc_ring_peek_def ring_contents_def)

lemma pop_front:
  assumes "ring_ok r" "ring_contents r \<noteq> []"
  shows "jh_spsc_ring_pop r = (jh_spsc_ring_drop r, Some (hd (ring_contents r)))"
proof -
  have "r_head r \<noteq> r_tail r"
    using assms count_0_iff [of r] by (auto simp: ring_contents_def)
  then show ?thesis
    using drop_oldest(2) [OF assms] by (simp add: jh_spsc_ring_pop_def jh_spsc_ring_peek_def)
qed

lemma push_spec:
  assumes "ring_ok r" "length x = r_elem_size r" "jh_spsc_ring_push r x = (r', ok)"
  shows "(ring_contents r', ok) = spec_push (r_capacity r) (ring_contents r) x \<and> ring_ok r'"
proof (cases "jh_spsc_ring_count r < r_capacity r")
  case True
  then show ?thesis using push_accepts [OF assms(1) True assms(2,3)] by (simp add: spec_push_def)
next
  case False
  then show ?thesis using push_rejects [of r x] assms by (simp add: spec_push_def)
qed

lemma pop_spec:
  assumes "ring_ok r" "jh_spsc_ring_pop r = (r', res)"
  shows "(ring_contents r', res) = spec_pop (ring_contents r) \<and> ring_ok r'"
proof (cases "ring_contents r = []")
  case True
  then show ?thesis using pop_empty [OF assms(1)] assms by simp
next
  case False
  have r': "r' = jh_spsc_ring_drop r" "res = Some (hd (ring_contents r))"
    using pop_front [OF assms(1) False] assms(2) by simp_all
  obtain y ys where ys: "ring_contents r = y # ys" using False by (cases "ring_contents r") auto
  then have "ring_contents r' = ys" using drop_oldest(2) [OF assms(1) False] r'(1) by simp
  then show ?thesis using drop_oldest(1) [OF assms(1) False] r' ys by simp
qed

interpretation ring: bounded_fifo jh_spsc_ring_push jh_spsc_ring_pop ring_contents r_capacity
  ring_ok "\<lambda>r x. length x = r_elem_size r"
proof (unfold_locales, goal_cases)
  case (1 r x r' ok)
  then show ?case using push_spec by blast
next
  case (2 r r' res)
  then show ?case using pop_spec by blast
next
  case (3 r x r' ok)
  then show ?case using push_spec [of r x r' ok] ring_frame(1) [of r x r' ok] by simp
next
  case (4 r r' res)
  then show ?case using pop_spec [of r r' res] ring_frame(2) [of r r' res] by simp
next
  case (5 r)
  then show ?case by (simp add: ring_ok_def jh_spsc_ring_count_def)
qed

lemma ring_ok_init:
  assumes "\<And>s. st = Some s \<Longrightarrow> length s = cap * es"
  shows "ring_ok (jh_spsc_ring_init st es cap) \<and> ring_contents (jh_spsc_ring_init st es cap) = []"
  using assms
  by (cases st) (auto simp: jh_spsc_ring_init_def ring_ok_def position_ok_def ring_contents_def
      jh_spsc_ring_count_def jh_spsc_ring_used_def)

lemma clear_empties:
  "ring_ok r \<Longrightarrow> ring_ok (jh_spsc_ring_clear r) \<and> ring_contents (jh_spsc_ring_clear r) = []"
  by (auto simp: jh_spsc_ring_clear_def ring_ok_def ring_contents_def jh_spsc_ring_count_def
      jh_spsc_ring_used_def position_ok_def)

section \<open>Properties\<close>

text \<open>
  C11: On any sequence of pushes and pops a ring over storage of the right size answers
  exactly as a bounded first-in first-out list: a push fails only when \<open>capacity\<close>
  elements wait, a pop returns the oldest element, and no element is lost, duplicated
  or reordered.
\<close>

theorem spsc_ring_is_bounded_fifo:
  assumes "length st = cap * es" "\<And>x. Push x \<in> set cs \<Longrightarrow> length x = es"
    and "fifo_run jh_spsc_ring_push jh_spsc_ring_pop (jh_spsc_ring_init (Some st) es cap) cs = (r', ys)"
  shows "spec_run cap [] cs = (ring_contents r', ys)"
proof -
  have init: "ring_ok (jh_spsc_ring_init (Some st) es cap)"
    "ring_contents (jh_spsc_ring_init (Some st) es cap) = []"
    using ring_ok_init [of "Some st" cap es] assms(1) by auto
  show ?thesis
    using ring.run_refines [OF init(1) _ assms(3)] assms(2) init(2)
    by (simp add: jh_spsc_ring_init_def)
qed

theorem spsc_ring_is_bounded_fifo_witness:
  "spec_run 2 [] [Push [1 :: u8, 2], Push [3, 4], Push [5, 6], Pop, Push [7, 8], Pop, Pop, Pop] =
   ([], [Pushed True, Pushed True, Pushed False, Popped (Some [1, 2]), Pushed True,
         Popped (Some [3, 4]), Popped (Some [7, 8]), Popped None])"
proof -
  let ?cs = "[Push [1 :: u8, 2], Push [3, 4], Push [5, 6], Pop, Push [7, 8], Pop, Pop, Pop]"
  obtain r' ys where run: "fifo_run jh_spsc_ring_push jh_spsc_ring_pop
      (jh_spsc_ring_init (Some [0, 0, 0, 0]) 2 2) ?cs = (r', ys)" by fastforce
  have "spec_run 2 [] ?cs = (ring_contents r', ys)"
    by (rule spsc_ring_is_bounded_fifo [OF _ _ run]) auto
  moreover have "(ring_contents r', ys) =
    ([], [Pushed True, Pushed True, Pushed False, Popped (Some [1, 2]), Pushed True,
         Popped (Some [3, 4]), Popped (Some [7, 8]), Popped None])"
    using run by (auto simp: jh_spsc_ring_init_def jh_spsc_ring_push_def jh_spsc_ring_pop_def
        jh_spsc_ring_peek_def jh_spsc_ring_drop_def ring_defs blit_def subarr_def Let_def
        ring_contents_def jh_spsc_ring_count_def)
  ultimately show ?thesis by simp
qed

end
