(* ===== verification/Spsc_Concurrent.thy ===== *)
theory Spsc_Concurrent
  imports Spsc_Ring
begin

text \<open>
  One producer and one consumer of the ring of \<open>src/hal/core/jh_spsc_ring.h\<close>, running
  against each other. Each access to a shared position is a step of its own, as are
  the two halves of the producer's copy: between its start and its end the slot holds
  any bytes (\<open>copy_torn\<close>), so a consumer that could look at it would see a torn
  element. The acquire and release orders of the code make the accesses sequentially
  consistent, which is the interleaving of this relation. The elements the producer
  has published and the consumer has taken are recorded beside the ring.
\<close>

datatype producer =
    P_Idle
  | P_Loaded bytes nat nat \<comment> \<open>element, loaded head and tail\<close>
  | P_Copying bytes nat    \<comment> \<open>element, head: inside \<open>memcpy\<close>\<close>
  | P_Copied bytes nat     \<comment> \<open>element, head: before the release store\<close>

datatype consumer =
    C_Idle
  | C_Loaded nat nat       \<comment> \<open>loaded tail and head\<close>
  | C_Copied bytes nat     \<comment> \<open>element copied out, tail: before the release store\<close>

record spsc_sys =
  ring_of :: spsc_ring
  producer_of :: producer
  consumer_of :: consumer
  published :: "bytes list"
  consumed :: "bytes list"

definition spsc_start :: "spsc_ring \<Rightarrow> spsc_sys" where
  "spsc_start r = \<lparr>ring_of = r, producer_of = P_Idle, consumer_of = C_Idle, published = [], consumed = []\<rparr>"

inductive spsc_step :: "spsc_sys \<Rightarrow> spsc_sys \<Rightarrow> bool" where
  push_load:
    "producer_of s = P_Idle \<Longrightarrow> length x = r_elem_size (ring_of s) \<Longrightarrow>
     spsc_step s (s\<lparr>producer_of := P_Loaded x (r_head (ring_of s)) (r_tail (ring_of s))\<rparr>)"
| push_full:
    "producer_of s = P_Loaded x h t \<Longrightarrow> jh_spsc_ring_used (ring_of s) h t \<ge> r_capacity (ring_of s) \<Longrightarrow>
     spsc_step s (s\<lparr>producer_of := P_Idle\<rparr>)"
| push_begin:
    "producer_of s = P_Loaded x h t \<Longrightarrow> jh_spsc_ring_used (ring_of s) h t < r_capacity (ring_of s) \<Longrightarrow>
     spsc_step s (s\<lparr>producer_of := P_Copying x h\<rparr>)"
| copy_torn:
    "producer_of s = P_Copying x h \<Longrightarrow> length y = r_elem_size (ring_of s) \<Longrightarrow>
     spsc_step s (s\<lparr>ring_of := (ring_of s)\<lparr>r_storage := slot_write (ring_of s) h y\<rparr>\<rparr>)"
| copy_done:
    "producer_of s = P_Copying x h \<Longrightarrow>
     spsc_step s (s\<lparr>ring_of := (ring_of s)\<lparr>r_storage := slot_write (ring_of s) h x\<rparr>,
                    producer_of := P_Copied x h\<rparr>)"
| push_publish:
    "producer_of s = P_Copied x h \<Longrightarrow>
     spsc_step s (s\<lparr>ring_of := (ring_of s)\<lparr>r_head := jh_spsc_ring_next (ring_of s) h\<rparr>,
                    producer_of := P_Idle, published := published s @ [x]\<rparr>)"
| pop_load:
    "consumer_of s = C_Idle \<Longrightarrow>
     spsc_step s (s\<lparr>consumer_of := C_Loaded (r_tail (ring_of s)) (r_head (ring_of s))\<rparr>)"
| pop_none:
    "consumer_of s = C_Loaded t h \<Longrightarrow> h = t \<Longrightarrow> spsc_step s (s\<lparr>consumer_of := C_Idle\<rparr>)"
| pop_copy:
    "consumer_of s = C_Loaded t h \<Longrightarrow> h \<noteq> t \<Longrightarrow>
     spsc_step s (s\<lparr>consumer_of := C_Copied (slot_read (ring_of s) t) t\<rparr>)"
| pop_drop:
    "consumer_of s = C_Copied y t \<Longrightarrow>
     spsc_step s (s\<lparr>ring_of := (ring_of s)\<lparr>r_tail := jh_spsc_ring_next (ring_of s) t\<rparr>,
                    consumer_of := C_Idle, consumed := consumed s @ [y]\<rparr>)"

inductive spsc_reachable :: "spsc_ring \<Rightarrow> spsc_sys \<Rightarrow> bool" for r where
  start: "spsc_reachable r (spsc_start r)"
| step: "spsc_reachable r s \<Longrightarrow> spsc_step s s' \<Longrightarrow> spsc_reachable r s'"

section \<open>The invariant\<close>

text \<open>
  What each side knows between its accesses. The producer's view of the tail may be
  old, so it over-estimates how full the ring is; the consumer's view of the head may
  be old, so it under-estimates it.
\<close>

fun producer_ok :: "spsc_ring \<Rightarrow> producer \<Rightarrow> bool" where
  "producer_ok r P_Idle = True"
| "producer_ok r (P_Loaded x h t) =
     (length x = r_elem_size r \<and> h = r_head r \<and> jh_spsc_ring_count r \<le> jh_spsc_ring_used r h t)"
| "producer_ok r (P_Copying x h) =
     (length x = r_elem_size r \<and> h = r_head r \<and> jh_spsc_ring_count r < r_capacity r)"
| "producer_ok r (P_Copied x h) =
     (h = r_head r \<and> jh_spsc_ring_count r < r_capacity r \<and> slot_read r h = x)"

fun consumer_ok :: "spsc_ring \<Rightarrow> consumer \<Rightarrow> bool" where
  "consumer_ok r C_Idle = True"
| "consumer_ok r (C_Loaded t h) = (t = r_tail r \<and> (h \<noteq> t \<longrightarrow> ring_contents r \<noteq> []))"
| "consumer_ok r (C_Copied y t) = (t = r_tail r \<and> ring_contents r \<noteq> [] \<and> y = hd (ring_contents r))"

definition spsc_inv :: "spsc_sys \<Rightarrow> bool" where
  "spsc_inv s \<longleftrightarrow>
     ring_ok (ring_of s) \<and> producer_ok (ring_of s) (producer_of s) \<and>
     consumer_ok (ring_of s) (consumer_of s) \<and>
     published s = consumed s @ ring_contents (ring_of s)"

text \<open>How an effect of one side changes what the other side knows.\<close>

lemma consumer_ok_keep:
  assumes "consumer_ok r c" "r_tail r' = r_tail r" "ring_contents r' = ring_contents r @ zs"
  shows "consumer_ok r' c"
  using assms by (cases c) auto

lemma producer_ok_drop:
  assumes "ring_ok r" "ring_contents r \<noteq> []" "producer_ok r p"
  shows "producer_ok (jh_spsc_ring_drop r) p"
proof -
  have "jh_spsc_ring_count (jh_spsc_ring_drop r) = jh_spsc_ring_count r - 1"
    using drop_oldest(3) [OF assms(1,2)] .
  moreover have "r_head (jh_spsc_ring_drop r) = r_head r" "r_capacity (jh_spsc_ring_drop r) = r_capacity r"
    "r_elem_size (jh_spsc_ring_drop r) = r_elem_size r" "slot_read (jh_spsc_ring_drop r) = slot_read r"
    "jh_spsc_ring_used (jh_spsc_ring_drop r) = jh_spsc_ring_used r"
    by (simp_all add: jh_spsc_ring_drop_def fun_eq_iff)
  ultimately show ?thesis using assms(3) by (cases p) auto
qed

lemma slot_write_inv:
  assumes "spsc_inv s" "producer_of s = P_Copying x h" "length y = r_elem_size (ring_of s)"
    and "r' = (ring_of s)\<lparr>r_storage := slot_write (ring_of s) h y\<rparr>"
  shows "ring_ok r' \<and> ring_contents r' = ring_contents (ring_of s) \<and>
         consumer_ok r' (consumer_of s) \<and> slot_read r' h = y \<and>
         jh_spsc_ring_count r' = jh_spsc_ring_count (ring_of s)"
proof -
  let ?r = "ring_of s"
  have r: "ring_ok ?r" "jh_spsc_ring_count ?r < r_capacity ?r" "h = r_head ?r"
    "consumer_ok ?r (consumer_of s)"
    using assms(1,2) by (simp_all add: spsc_inv_def)
  note w = write_free_slot [OF r(1,2), of y]
  have "ring_ok r'" "ring_contents r' = ring_contents ?r" "slot_read r' h = y"
    using w assms(3,4) r(3) by simp_all
  moreover have "consumer_ok r' (consumer_of s)"
    using calculation(2) r(4) assms(4) by (intro consumer_ok_keep [of ?r _ r' "[]"]) simp_all
  ultimately show ?thesis using assms(4) by (simp add: jh_spsc_ring_count_def)
qed

lemma spsc_step_inv: "spsc_step s s' \<Longrightarrow> spsc_inv s \<Longrightarrow> spsc_inv s'"
proof (induction rule: spsc_step.induct)
  case (push_load s x)
  then show ?case by (simp add: spsc_inv_def jh_spsc_ring_count_def)
next
  case (push_full s x h t)
  then show ?case by (simp add: spsc_inv_def)
next
  case (push_begin s x h t)
  then show ?case by (auto simp: spsc_inv_def)
next
  case (copy_torn s x h y)
  then show ?case
    using slot_write_inv [OF copy_torn.prems copy_torn.hyps(1,2) refl]
    by (simp add: spsc_inv_def)
next
  case (copy_done s x h)
  then have "length x = r_elem_size (ring_of s)" by (simp add: spsc_inv_def)
  then show ?case
    using slot_write_inv [OF copy_done.prems copy_done.hyps _ refl] copy_done
    by (simp add: spsc_inv_def)
next
  case (push_publish s x h)
  let ?r = "ring_of s" and ?r' = "(ring_of s)\<lparr>r_head := jh_spsc_ring_next (ring_of s) h\<rparr>"
  have r: "ring_ok ?r" "jh_spsc_ring_count ?r < r_capacity ?r" "h = r_head ?r"
    "consumer_ok ?r (consumer_of s)" "slot_read ?r h = x" "published s = consumed s @ ring_contents ?r"
    using push_publish by (auto simp: spsc_inv_def)
  have "ring_contents ?r' = ring_contents ?r @ [x]" and "ring_ok ?r'"
    using publish_slot [OF r(1,2)] r(3,5) by simp_all
  moreover have "consumer_ok ?r' (consumer_of s)"
    using r(4) calculation(1) by (intro consumer_ok_keep [of ?r _ ?r' "[x]"]) simp_all
  ultimately show ?case using r(6) by (simp add: spsc_inv_def)
next
  case (pop_load s)
  then have "r_head (ring_of s) \<noteq> r_tail (ring_of s) \<Longrightarrow> ring_contents (ring_of s) \<noteq> []"
    using count_0_iff [of "ring_of s"] by (auto simp: spsc_inv_def ring_contents_def)
  with pop_load show ?case by (simp add: spsc_inv_def)
next
  case (pop_none s t h)
  then show ?case by (simp add: spsc_inv_def)
next
  case (pop_copy s t h)
  then have "ring_ok (ring_of s)" "ring_contents (ring_of s) \<noteq> []" "t = r_tail (ring_of s)"
    by (simp_all add: spsc_inv_def)
  then show ?case
    using drop_oldest(2) [of "ring_of s"] pop_copy by (auto simp: spsc_inv_def)
next
  case (pop_drop s y t)
  let ?r = "ring_of s"
  have r: "ring_ok ?r" "ring_contents ?r \<noteq> []" "t = r_tail ?r" "y = hd (ring_contents ?r)"
    "producer_ok ?r (producer_of s)" "published s = consumed s @ ring_contents ?r"
    using pop_drop by (simp_all add: spsc_inv_def)
  have drop: "?r\<lparr>r_tail := jh_spsc_ring_next ?r t\<rparr> = jh_spsc_ring_drop ?r"
    using r(3) by (simp add: jh_spsc_ring_drop_def)
  show ?case
    using drop_oldest(1,2) [OF r(1,2)] producer_ok_drop [OF r(1,2,5)] r(4,6)
    by (simp add: spsc_inv_def drop)
qed

lemma spsc_reachable_inv:
  "spsc_reachable r s \<Longrightarrow> ring_ok r \<Longrightarrow> ring_contents r = [] \<Longrightarrow> spsc_inv s"
proof (induction rule: spsc_reachable.induct)
  case start
  then show ?case by (simp add: spsc_inv_def spsc_start_def)
next
  case (step s s')
  then show ?case using spsc_step_inv by blast
qed

section \<open>Properties\<close>

text \<open>
  C12: However one producer and one consumer interleave, starting from a fresh ring, the
  elements the consumer has taken are the first ones the producer has published, in
  the same order; the rest are exactly what is queued, never more than the capacity.
\<close>

theorem spsc_concurrent_fifo:
  assumes "length st = cap * es" "spsc_reachable (jh_spsc_ring_init (Some st) es cap) s"
  shows "published s = consumed s @ ring_contents (ring_of s) \<and>
         length (ring_contents (ring_of s)) \<le> r_capacity (ring_of s)"
proof -
  have "ring_ok (jh_spsc_ring_init (Some st) es cap) \<and> ring_contents (jh_spsc_ring_init (Some st) es cap) = []"
    using ring_ok_init [of "Some st" cap es] assms(1) by simp
  then have "spsc_inv s" using spsc_reachable_inv [OF assms(2)] by simp
  then show ?thesis using ring.within_limit [of "ring_of s"] by (simp add: spsc_inv_def)
qed

text \<open>A push or a pop that runs without interruption, as a run of the relation.\<close>

lemma run_push:
  assumes "spsc_reachable r s" "producer_of s = P_Idle" "length x = r_elem_size (ring_of s)"
    and "jh_spsc_ring_count (ring_of s) < r_capacity (ring_of s)"
  shows "spsc_reachable r (s\<lparr>ring_of := fst (jh_spsc_ring_push (ring_of s) x),
                              published := published s @ [x]\<rparr>)"
proof -
  let ?h = "r_head (ring_of s)"
  let ?w = "(ring_of s)\<lparr>r_storage := slot_write (ring_of s) ?h x\<rparr>"
  let ?s1 = "s\<lparr>producer_of := P_Loaded x ?h (r_tail (ring_of s))\<rparr>"
  let ?s2 = "?s1\<lparr>producer_of := P_Copying x ?h\<rparr>"
  let ?s3 = "?s2\<lparr>ring_of := ?w, producer_of := P_Copied x ?h\<rparr>"
  have used: "jh_spsc_ring_used (ring_of s) ?h (r_tail (ring_of s)) < r_capacity (ring_of s)"
    using assms(4) by (simp add: jh_spsc_ring_count_def)
  have "spsc_reachable r ?s1"
    by (rule spsc_reachable.step [OF assms(1) spsc_step.push_load [OF assms(2,3)]])
  moreover have "spsc_step ?s1 ?s2"
    using used by (intro spsc_step.push_begin) auto
  moreover have "spsc_step ?s2 ?s3"
    using spsc_step.copy_done [of ?s2 x ?h] by simp
  moreover have "spsc_step ?s3 (?s3\<lparr>ring_of := (ring_of ?s3)\<lparr>r_head := jh_spsc_ring_next (ring_of ?s3) ?h\<rparr>,
      producer_of := P_Idle, published := published ?s3 @ [x]\<rparr>)"
    by (rule spsc_step.push_publish) simp
  ultimately have "spsc_reachable r (?s3\<lparr>ring_of := (ring_of ?s3)\<lparr>r_head := jh_spsc_ring_next (ring_of ?s3) ?h\<rparr>,
      producer_of := P_Idle, published := published ?s3 @ [x]\<rparr>)"
    by (blast intro: spsc_reachable.step)
  moreover have "fst (jh_spsc_ring_push (ring_of s) x) =
      ?w\<lparr>r_head := jh_spsc_ring_next (ring_of s) ?h\<rparr>"
    using used by (simp add: jh_spsc_ring_push_def Let_def)
  moreover have "jh_spsc_ring_next ?w ?h = jh_spsc_ring_next (ring_of s) ?h"
    by (simp add: jh_spsc_ring_next_def)
  moreover have "s\<lparr>producer_of := P_Idle\<rparr> = s" using assms(2) by (cases s) simp
  ultimately show ?thesis by (cases s) simp
qed

theorem spsc_concurrent_fifo_witness:
  "\<exists>s. spsc_reachable (jh_spsc_ring_init (Some [0, 0]) 1 2) s \<and> published s = [[7], [9]] \<and>
       published s = consumed s @ ring_contents (ring_of s)"
proof -
  let ?r = "jh_spsc_ring_init (Some [0, 0]) 1 2"
  let ?s0 = "spsc_start ?r"
  let ?s1 = "?s0\<lparr>ring_of := fst (jh_spsc_ring_push ?r [7]), published := [[7]]\<rparr>"
  let ?s2 = "?s1\<lparr>ring_of := fst (jh_spsc_ring_push (ring_of ?s1) [9]), published := [[7], [9]]\<rparr>"
  have "spsc_reachable ?r ?s1"
    using run_push [OF spsc_reachable.start [of ?r], of "[7]"]
    by (simp add: spsc_start_def jh_spsc_ring_init_def jh_spsc_ring_count_def jh_spsc_ring_used_def)
  then have s2: "spsc_reachable ?r ?s2"
    using run_push [of ?r ?s1 "[9]"]
    by (simp add: spsc_start_def jh_spsc_ring_init_def jh_spsc_ring_count_def jh_spsc_ring_push_def
        ring_defs Let_def)
  have "published ?s2 = consumed ?s2 @ ring_contents (ring_of ?s2)"
    using spsc_concurrent_fifo [OF _ s2] by simp
  then show ?thesis using s2 by (intro exI [of _ ?s2]) simp
qed

end
