(* ===== verification/Wg_Replay.thy ===== *)
theory Wg_Replay
  imports Prelude
begin

text \<open>
  The anti-replay window of WireGuard data packets,
  \<open>src/hal/network/wireguard/core/wireguard_replay.h\<close>: a bitmap of 256 words used as
  a ring, and the highest counter received so far (stored plus one, so that the zeroed
  state can accept sequence zero). The specification keeps the whole history of
  accepted sequences; the lemmas show that the bitmap, which forgets, gives the same
  answers as the history, which does not.
\<close>

section \<open>State and operations\<close>

definition WIREGUARD_REPLAY_WORD_COUNT :: nat where
  "WIREGUARD_REPLAY_WORD_COUNT = 8192 div 32"

definition WIREGUARD_REPLAY_WINDOW_BITS :: u64 where
  "WIREGUARD_REPLAY_WINDOW_BITS = 8192 - 32"

definition WIREGUARD_REPLAY_REJECT_AFTER_MESSAGES :: u64 where
  "WIREGUARD_REPLAY_REJECT_AFTER_MESSAGES = (- 1) - push_bit 13 1"

record wireguard_replay_state =
  wg_bitmap :: "u32 list"
  wg_counter :: u64

definition wireguard_replay_reset :: wireguard_replay_state where
  "wireguard_replay_reset =
     \<lparr>wg_bitmap = replicate WIREGUARD_REPLAY_WORD_COUNT 0, wg_counter = 0\<rparr>"

text \<open>The clearing loop: words \<open>current + 1 \<dots> current + n\<close> of the ring become zero.\<close>

fun clear_words :: "u32 list \<Rightarrow> u64 \<Rightarrow> nat \<Rightarrow> u32 list" where
  "clear_words bm current 0 = bm"
| "clear_words bm current (Suc n) =
     (clear_words bm current n)[unat ((current + of_nat (Suc n)) AND 255) := 0]"

definition advance_counter :: "wireguard_replay_state \<Rightarrow> u64 \<Rightarrow> wireguard_replay_state" where
  "advance_counter st received =
     (let word_index = received div 32; current_word = wg_counter st div 32;
          words = word_index - current_word;
          n = (if words > 256 then 256 else unat words)
      in \<lparr>wg_bitmap = clear_words (wg_bitmap st) current_word n, wg_counter = received\<rparr>)"

definition wireguard_replay_check :: "wireguard_replay_state \<Rightarrow> u64 \<Rightarrow> wireguard_replay_state \<times> bool" where
  "wireguard_replay_check st sequence =
     (if sequence \<ge> WIREGUARD_REPLAY_REJECT_AFTER_MESSAGES \<or>
         wg_counter st \<ge> WIREGUARD_REPLAY_REJECT_AFTER_MESSAGES + 1 then (st, False)
      else
        let received = sequence + 1 in
        if received + WIREGUARD_REPLAY_WINDOW_BITS < wg_counter st then (st, False)
        else
          let st1 = (if received > wg_counter st then advance_counter st received else st);
              i = unat ((received div 32) AND 255);
              b = push_bit (unat (received AND 31)) (1 :: u32)
          in if (wg_bitmap st1 ! i) AND b \<noteq> 0 then (st1, False)
             else (st1\<lparr>wg_bitmap := (wg_bitmap st1)[i := (wg_bitmap st1 ! i) OR b]\<rparr>, True))"

section \<open>Specification\<close>

text \<open>
  A packet is accepted when its sequence is below the limit, not older than the window
  behind the newest accepted one, and was never accepted before.
\<close>

definition newest :: "u64 list \<Rightarrow> nat" where
  "newest acc = Max (insert 0 ((\<lambda>s. unat s + 1) ` set acc))"

definition replay_acceptable :: "u64 list \<Rightarrow> u64 \<Rightarrow> bool" where
  "replay_acceptable acc s \<longleftrightarrow>
     s < WIREGUARD_REPLAY_REJECT_AFTER_MESSAGES \<and> newest acc \<le> unat s + 1 + 8160 \<and> s \<notin> set acc"

fun replay_run :: "wireguard_replay_state \<Rightarrow> u64 list \<Rightarrow> bool list" where
  "replay_run st [] = []"
| "replay_run st (s # ss) = (let (st', ok) = wireguard_replay_check st s in ok # replay_run st' ss)"

fun replay_spec_run :: "u64 list \<Rightarrow> u64 list \<Rightarrow> bool list" where
  "replay_spec_run acc [] = []"
| "replay_spec_run acc (s # ss) =
     (let ok = replay_acceptable acc s in ok # replay_spec_run (if ok then s # acc else acc) ss)"

section \<open>The bitmap as a set of counters\<close>

lemma and_255: "unat (w AND 255 :: u64) = unat w mod 256"
proof -
  have "w AND 255 = take_bit 8 w" by (simp add: take_bit_eq_mask mask_eq_exp_minus_1)
  then show ?thesis by (simp only: unsigned_take_bit_eq) (simp add: take_bit_eq_mod)
qed

lemma and_31: "unat (w AND 31 :: u64) = unat w mod 32"
proof -
  have "w AND 31 = take_bit 5 w" by (simp add: take_bit_eq_mask mask_eq_exp_minus_1)
  then show ?thesis by (simp only: unsigned_take_bit_eq) (simp add: take_bit_eq_mod)
qed

text \<open>The bit of a counter value in the ring of words.\<close>

definition counter_bit :: "u32 list \<Rightarrow> nat \<Rightarrow> bool" where
  "counter_bit bm c = bit (bm ! (c div 32 mod 256)) (c mod 32)"

lemma length_clear_words [simp]: "length (clear_words bm cw n) = length bm"
  by (induction n) auto

lemma clear_words_nth:
  assumes "unat cw + n < 2 ^ 64" "length bm = 256" "i < 256"
  shows "clear_words bm cw n ! i =
         (if \<exists>k \<in> {1..n}. i = (unat cw + k) mod 256 then 0 else bm ! i)"
  using assms(1)
proof (induction n)
  case 0
  then show ?case by simp
next
  case (Suc n)
  have "unat (of_nat (Suc n) :: u64) = Suc n"
    using Suc.prems by (simp only: unat_of_nat) simp
  then have "unat (cw + of_nat (Suc n)) = unat cw + Suc n"
    using Suc.prems by (simp only: unat_word_ariths) simp
  then have idx: "unat ((cw + of_nat (Suc n)) AND 255) = (unat cw + Suc n) mod 256"
    by (simp only: and_255)
  show ?case
    using Suc assms(2,3) by (auto simp: idx nth_list_update atLeastAtMostSuc_conv simp del: of_nat_Suc)
qed

text \<open>
  The invariant ties the two together. Only the 256 words that end at the newest
  counter's word are meaningful; there a bit is set exactly for an accepted counter.
\<close>

definition replay_inv :: "wireguard_replay_state \<Rightarrow> u64 list \<Rightarrow> bool" where
  "replay_inv st acc \<longleftrightarrow>
     length (wg_bitmap st) = 256 \<and> unat (wg_counter st) = newest acc \<and>
     (\<forall>s \<in> set acc. s < WIREGUARD_REPLAY_REJECT_AFTER_MESSAGES) \<and>
     (\<forall>c. c div 32 \<le> newest acc div 32 \<and> newest acc div 32 < c div 32 + 256 \<longrightarrow>
        counter_bit (wg_bitmap st) c = (\<exists>s \<in> set acc. c = unat s + 1))"

lemma limit_value: "unat WIREGUARD_REPLAY_REJECT_AFTER_MESSAGES = 2 ^ 64 - 1 - 2 ^ 13"
  by (simp add: WIREGUARD_REPLAY_REJECT_AFTER_MESSAGES_def)

lemma below_limit: "s < WIREGUARD_REPLAY_REJECT_AFTER_MESSAGES \<longleftrightarrow> unat s < 2 ^ 64 - 1 - 2 ^ 13"
  by (simp only: word_less_nat_alt limit_value)

lemma newest_Nil [simp]: "newest [] = 0"
  by (simp add: newest_def)

lemma newest_Cons [simp]: "newest (s # acc) = max (unat s + 1) (newest acc)"
proof -
  have "insert 0 ((\<lambda>s. unat s + 1) ` set (s # acc)) =
        insert (unat s + 1) (insert 0 ((\<lambda>s. unat s + 1) ` set acc))" by auto
  then show ?thesis by (simp add: newest_def)
qed

lemma newest_ge: "s \<in> set acc \<Longrightarrow> unat s + 1 \<le> newest acc"
  by (induction acc) auto

lemma newest_le_limit:
  "\<forall>s \<in> set acc. s < WIREGUARD_REPLAY_REJECT_AFTER_MESSAGES \<Longrightarrow> newest acc \<le> 2 ^ 64 - 1 - 2 ^ 13"
  by (induction acc) (auto simp: below_limit)

lemma replay_inv_reset: "replay_inv wireguard_replay_reset []"
  by (simp add: replay_inv_def wireguard_replay_reset_def WIREGUARD_REPLAY_WORD_COUNT_def
      counter_bit_def)

section \<open>Advancing the window\<close>

text \<open>A ring of 256 words: congruent positions less than 256 apart are equal.\<close>

lemma cong_256:
  assumes "(a::nat) mod 256 = b mod 256" "a < b + 256" "b < a + 256"
  shows "a = b"
proof -
  have le: "x = y" if "x \<le> y" "x mod 256 = y mod 256" "y < x + 256" for x y :: nat
  proof -
    have "256 dvd y - x" using that mod_eq_dvd_iff_nat [of x y 256] by simp
    then show ?thesis using that by (auto dest: dvd_imp_le)
  qed
  show ?thesis using le [of a b] le [of b a] assms by (cases "a \<le> b") auto
qed

lemma all_cleared: "\<exists>k \<in> {1..256}. (i::nat) mod 256 = (a + k) mod 256"
proof -
  let ?k = "(i + 255 * a + 255) mod 256 + 1"
  have "(a + ?k) mod 256 = (a + 1 + (i + 255 * a + 255) mod 256) mod 256" by (simp add: ac_simps)
  also have "\<dots> = (a + 1 + (i + 255 * a + 255)) mod 256" by (rule mod_add_right_eq)
  also have "a + 1 + (i + 255 * a + 255) = i + 256 * (a + 1)" by simp
  also have "(i + 256 * (a + 1)) mod 256 = i mod 256" by (rule mod_mult_self2)
  finally have "i mod 256 = (a + ?k) mod 256" ..
  moreover have "?k \<in> {1..256}" by (simp add: Suc_leI)
  ultimately show ?thesis by blast
qed

text \<open>Clearing the words after \<open>c\<close> up to \<open>r\<close> reaches, of the 256 last ones, exactly those after \<open>c\<close>.\<close>

lemma cleared_iff:
  fixes c r w :: nat
  assumes "c \<le> r" "w \<le> r" "r < w + 256"
  shows "(\<exists>k \<in> {1..min 256 (r - c)}. w mod 256 = (c + k) mod 256) \<longleftrightarrow> c < w"
proof
  assume "\<exists>k \<in> {1..min 256 (r - c)}. w mod 256 = (c + k) mod 256"
  then obtain k where "k \<in> {1..min 256 (r - c)}" and cong: "w mod 256 = (c + k) mod 256" ..
  then have k: "1 \<le> k" "k \<le> r - c" by (simp_all only: atLeastAtMost_iff min.bounded_iff)
  show "c < w"
  proof (rule ccontr)
    assume "\<not> c < w"
    then have "w < c + k + 256" by simp
    moreover have "c + k < w + 256" using k(2) assms(1,3) by simp
    ultimately have "w = c + k" by (rule cong_256 [OF cong])
    then show False using k(1) \<open>\<not> c < w\<close> by simp
  qed
next
  assume "c < w"
  show "\<exists>k \<in> {1..min 256 (r - c)}. w mod 256 = (c + k) mod 256"
  proof (cases "256 \<le> r - c")
    case True
    then have "min 256 (r - c) = 256" by simp
    then show ?thesis using all_cleared [of w c] by (simp only:)
  next
    case False
    then have "w - c \<in> {1..min 256 (r - c)}" using assms \<open>c < w\<close> by auto
    moreover have "c + (w - c) = w" using \<open>c < w\<close> by simp
    ultimately show ?thesis by (intro bexI [of _ "w - c"]) (simp_all only:)
  qed
qed

lemma advance_bits:
  assumes inv: "replay_inv st acc" and r: "newest acc < unat received"
  defines "st1 \<equiv> advance_counter st received"
  shows "length (wg_bitmap st1) = 256" "wg_counter st1 = received"
    and "c div 32 \<le> unat received div 32 \<Longrightarrow> unat received div 32 < c div 32 + 256 \<Longrightarrow>
         counter_bit (wg_bitmap st1) c = (\<exists>s \<in> set acc. c = unat s + 1)"
proof -
  let ?cw = "newest acc div 32" and ?rw = "unat received div 32" and ?w = "c div 32"
  let ?n = "min 256 (?rw - ?cw)"
  have len: "length (wg_bitmap st) = 256" and cnt: "unat (wg_counter st) = newest acc"
    using inv by (simp_all add: replay_inv_def)
  have le: "?cw \<le> ?rw" using r by (simp add: div_le_mono)
  have cw: "unat (wg_counter st div 32) = ?cw" by (simp add: unat_div cnt)
  have words: "unat (received div 32 - wg_counter st div 32) = ?rw - ?cw"
    using le by (subst unat_sub) (simp_all add: word_le_nat_alt unat_div cnt)
  have st1: "wg_bitmap st1 = clear_words (wg_bitmap st) (wg_counter st div 32) ?n"
    "wg_counter st1 = received"
    by (simp_all add: st1_def advance_counter_def Let_def words word_less_nat_alt min_def)
  show "length (wg_bitmap st1) = 256" "wg_counter st1 = received" using st1 len by simp_all
  assume w: "?w \<le> ?rw" "?rw < ?w + 256"
  have "unat received < 2 ^ 64" using unat_u64_less [of received] by simp
  then have "?cw + ?n < 2 ^ 64" using le by linarith
  then have nth: "wg_bitmap st1 ! (?w mod 256) =
      (if \<exists>k \<in> {1..?n}. ?w mod 256 = (?cw + k) mod 256 then 0 else wg_bitmap st ! (?w mod 256))"
    using clear_words_nth [of "wg_counter st div 32" ?n "wg_bitmap st" "?w mod 256"] len
    by (simp add: st1 cw)
  then have nth': "wg_bitmap st1 ! (?w mod 256) =
      (if ?cw < ?w then 0 else wg_bitmap st ! (?w mod 256))"
    unfolding cleared_iff [OF le w] .
  have none: "c \<noteq> unat s + 1" if "?cw < ?w" "s \<in> set acc" for s
  proof
    assume "c = unat s + 1"
    then have "c \<le> newest acc" using newest_ge [OF that(2)] by simp
    then show False using that(1) div_le_mono [of c "newest acc" 32] by simp
  qed
  have "?cw < ?w \<or> ?w \<le> ?cw \<and> ?cw < ?w + 256" using w(2) le by (cases "?cw < ?w") simp_all
  then show "counter_bit (wg_bitmap st1) c = (\<exists>s \<in> set acc. c = unat s + 1)"
    using inv none by (auto simp: counter_bit_def nth' replay_inv_def)
qed

section \<open>One packet\<close>

lemma test_bit_mask: "(x AND push_bit k (1 :: u32) \<noteq> 0) = (k < 32 \<and> bit x k)"
proof -
  have "bit (x AND push_bit k 1) n = (n = k \<and> k < 32 \<and> bit x k)" for n
    by (auto simp: bit_simps bit_1_iff dest: bit_imp_le_length)
  then show ?thesis by (metis bit_0_eq bit_word_eqI bot_apply bot_bool_def)
qed

lemma counter_bit_set:
  assumes "length bm = 256"
    and "c div 32 < r div 32 + 256" "r div 32 < c div 32 + 256"
  shows "counter_bit (bm[r div 32 mod 256 := (bm ! (r div 32 mod 256)) OR push_bit (r mod 32) 1]) c =
         (counter_bit bm c \<or> c = r)"
proof (cases "c div 32 mod 256 = r div 32 mod 256")
  case True
  then have same: "c div 32 = r div 32" using assms cong_256 by simp
  then have "c = r \<longleftrightarrow> c mod 32 = r mod 32" by (metis div_mult_mod_eq)
  then show ?thesis using assms(1) same
    by (auto simp: counter_bit_def bit_simps bit_1_iff)
next
  case False
  then show ?thesis using assms(1) by (auto simp: counter_bit_def)
qed

text \<open>The state whose bitmap the check consults.\<close>

definition replay_view :: "wireguard_replay_state \<Rightarrow> u64 \<Rightarrow> wireguard_replay_state" where
  "replay_view st received =
     (if received > wg_counter st then advance_counter st received else st)"

lemma replay_view_bits:
  fixes received :: u64
  assumes inv: "replay_inv st acc"
  defines "n \<equiv> max (unat received) (newest acc)"
  shows "length (wg_bitmap (replay_view st received)) = 256"
    and "unat (wg_counter (replay_view st received)) = n"
    and "c div 32 \<le> n div 32 \<Longrightarrow> n div 32 < c div 32 + 256 \<Longrightarrow>
         counter_bit (wg_bitmap (replay_view st received)) c = (\<exists>s \<in> set acc. c = unat s + 1)"
proof -
  have st: "length (wg_bitmap st) = 256" "unat (wg_counter st) = newest acc"
    using inv by (simp_all add: replay_inv_def)
  have newer: "received > wg_counter st \<longleftrightarrow> newest acc < unat received"
    by (simp add: word_less_nat_alt st)
  show "length (wg_bitmap (replay_view st received)) = 256"
    "unat (wg_counter (replay_view st received)) = n"
    using newer st advance_bits(1,2) [OF inv, of received]
    by (auto simp: replay_view_def n_def)
  assume "c div 32 \<le> n div 32" "n div 32 < c div 32 + 256"
  then show "counter_bit (wg_bitmap (replay_view st received)) c = (\<exists>s \<in> set acc. c = unat s + 1)"
    using newer inv advance_bits(3) [OF inv, of received c]
    by (cases "newest acc < unat received") (auto simp: replay_view_def n_def replay_inv_def max_def)
qed

lemma accept_inv:
  fixes s :: u64
  assumes inv: "replay_inv st acc" and s: "s < WIREGUARD_REPLAY_REJECT_AFTER_MESSAGES"
    and window: "newest acc \<le> unat s + 1 + 8160" and r: "r = unat s + 1" "unat received = r"
  defines "st1 \<equiv> replay_view st received"
  shows "replay_inv (st1\<lparr>wg_bitmap := (wg_bitmap st1)[r div 32 mod 256 :=
           (wg_bitmap st1 ! (r div 32 mod 256)) OR push_bit (r mod 32) 1]\<rparr>) (s # acc)"
proof -
  let ?n = "max r (newest acc)"
  have len: "length (wg_bitmap st1) = 256" and cnt: "unat (wg_counter st1) = ?n"
    using replay_view_bits(1,2) [OF inv, of received] r by (simp_all add: st1_def)
  have "newest acc div 32 \<le> (r + 8160) div 32" using window r by (intro div_le_mono) simp
  then have n_window: "?n div 32 < r div 32 + 256" "r div 32 \<le> ?n div 32"
    by (auto simp: max_def div_le_mono)
  have old: "counter_bit (wg_bitmap st1) c = (\<exists>s \<in> set acc. c = unat s + 1)"
    if "c div 32 \<le> ?n div 32" "?n div 32 < c div 32 + 256" for c
    using replay_view_bits(3) [OF inv, of c received] that r by (simp add: st1_def)
  have new: "counter_bit ((wg_bitmap st1)[r div 32 mod 256 :=
      (wg_bitmap st1 ! (r div 32 mod 256)) OR push_bit (r mod 32) 1]) c =
      (\<exists>s' \<in> set (s # acc). c = unat s' + 1)"
    if "c div 32 \<le> ?n div 32" "?n div 32 < c div 32 + 256" for c
    using that n_window len old [OF that] counter_bit_set [of "wg_bitmap st1" c r] r by auto
  show ?thesis
    using inv s len cnt new r(1) by (simp add: replay_inv_def)
qed

lemma replay_check_step:
  assumes inv: "replay_inv st acc" and check: "wireguard_replay_check st s = (st', ok)"
  shows "ok = replay_acceptable acc s \<and> replay_inv st' (if ok then s # acc else acc)"
proof (cases "s < WIREGUARD_REPLAY_REJECT_AFTER_MESSAGES")
  case False
  then have "wireguard_replay_check st s = (st, False)"
    by (simp add: wireguard_replay_check_def not_less)
  then show ?thesis using False inv check by (simp add: replay_acceptable_def)
next
  case True
  define received where "received = s + 1"
  define r where "r = unat s + 1"
  have s_nat: "unat s < 2 ^ 64 - 1 - 2 ^ 13" using True by (simp add: below_limit)
  have received: "unat received = r"
    using s_nat by (simp add: received_def r_def unat_word_ariths)
  have cnt: "unat (wg_counter st) = newest acc" using inv by (simp add: replay_inv_def)
  have limit: "\<not> wg_counter st \<ge> WIREGUARD_REPLAY_REJECT_AFTER_MESSAGES + 1"
  proof -
    have "unat (WIREGUARD_REPLAY_REJECT_AFTER_MESSAGES + 1) = 2 ^ 64 - 2 ^ 13"
      by (simp add: WIREGUARD_REPLAY_REJECT_AFTER_MESSAGES_def)
    then show ?thesis
      using newest_le_limit [of acc] inv cnt by (simp add: replay_inv_def word_le_nat_alt)
  qed
  have "unat (received + WIREGUARD_REPLAY_WINDOW_BITS) = r + 8160"
    using s_nat received by (simp add: WIREGUARD_REPLAY_WINDOW_BITS_def unat_word_ariths r_def)
  then have old: "received + WIREGUARD_REPLAY_WINDOW_BITS < wg_counter st \<longleftrightarrow> r + 8160 < newest acc"
    by (simp add: word_less_nat_alt cnt)
  let ?st1 = "replay_view st received" and ?i = "r div 32 mod 256"
  have idx: "unat ((received div 32) AND 255) = ?i" "unat (received AND 31) = r mod 32"
    by (simp_all only: and_255 and_31 unat_div received) (simp_all add: received)
  have guard: "(s \<ge> WIREGUARD_REPLAY_REJECT_AFTER_MESSAGES \<or>
      wg_counter st \<ge> WIREGUARD_REPLAY_REJECT_AFTER_MESSAGES + 1) = False"
    using True limit by (simp add: not_le)
  have check': "wireguard_replay_check st s =
    (if r + 8160 < newest acc then (st, False)
     else if (wg_bitmap ?st1 ! ?i) AND push_bit (r mod 32) 1 \<noteq> 0 then (?st1, False)
     else (?st1\<lparr>wg_bitmap := (wg_bitmap ?st1)[?i := (wg_bitmap ?st1 ! ?i) OR push_bit (r mod 32) 1]\<rparr>, True))"
    unfolding wireguard_replay_check_def guard if_False Let_def old [symmetric]
      replay_view_def [symmetric] received_def [symmetric] idx
    by (rule refl)
  show ?thesis
  proof (cases "r + 8160 < newest acc")
    case True
    then show ?thesis using inv check check' by (auto simp: replay_acceptable_def r_def)
  next
    case False
    have "newest acc div 32 \<le> (r + 8160) div 32" using False by (intro div_le_mono) simp
    then have win: "r div 32 \<le> max r (newest acc) div 32" "max r (newest acc) div 32 < r div 32 + 256"
      by (auto simp: max_def div_le_mono)
    have seen: "(wg_bitmap ?st1 ! ?i) AND push_bit (r mod 32) 1 \<noteq> 0 \<longleftrightarrow> s \<in> set acc"
    proof -
      have "(\<exists>s' \<in> set acc. r = unat s' + 1) \<longleftrightarrow> s \<in> set acc"
        by (auto simp: r_def dest: unsigned_word_eqI)
      then show ?thesis
        using replay_view_bits(3) [OF inv, of r received] win received
        unfolding test_bit_mask counter_bit_def by simp
    qed
    show ?thesis
    proof (cases "s \<in> set acc")
      case True
      then have "\<not> received > wg_counter st"
        using newest_ge [OF True] received cnt by (simp add: word_less_nat_alt r_def)
      then have "?st1 = st" by (simp add: replay_view_def)
      then show ?thesis
        using True False seen inv check check' by (auto simp: replay_acceptable_def)
    next
      case fresh: False
      then have "ok" and st': "st' = ?st1\<lparr>wg_bitmap := (wg_bitmap ?st1)[?i :=
          (wg_bitmap ?st1 ! ?i) OR push_bit (r mod 32) 1]\<rparr>"
        using False seen check check' by auto
      moreover have "replay_inv st' (s # acc)"
        unfolding st' using False by (intro accept_inv [OF inv True]) (simp_all add: r_def received)
      ultimately show ?thesis
        using True False fresh by (simp add: replay_acceptable_def r_def)
    qed
  qed
qed

section \<open>A run of packets\<close>

lemma replay_run_refines:
  "replay_inv st acc \<Longrightarrow> replay_run st ss = replay_spec_run acc ss"
proof (induction ss arbitrary: st acc)
  case (Cons s ss)
  obtain st' ok where check: "wireguard_replay_check st s = (st', ok)" by fastforce
  show ?case
    using replay_check_step [OF Cons.prems check] Cons.IH check by (auto simp: Let_def)
qed simp

text \<open>
  C13: from the reset state, the bitmap answers every sequence of packets exactly as the
  specification that remembers all accepted packets: a packet is accepted when its
  number is below the limit, at most 8160 behind the newest accepted one, and was never
  accepted before. The bitmap ring forgets, by overwriting words, only what the window
  makes irrelevant.
\<close>

theorem wireguard_replay_matches_history:
  "replay_run wireguard_replay_reset ss = replay_spec_run [] ss"
  by (rule replay_run_refines [OF replay_inv_reset])

text \<open>The packets a run accepts, in order.\<close>

fun accepted :: "wireguard_replay_state \<Rightarrow> u64 list \<Rightarrow> u64 list" where
  "accepted st [] = []"
| "accepted st (s # ss) =
     (let (st', ok) = wireguard_replay_check st s in (if ok then [s] else []) @ accepted st' ss)"

lemma accepted_distinct_from:
  "replay_inv st acc \<Longrightarrow> distinct (accepted st ss) \<and> set (accepted st ss) \<inter> set acc = {}"
proof (induction ss arbitrary: st acc)
  case (Cons s ss)
  obtain st' ok where check: "wireguard_replay_check st s = (st', ok)" by fastforce
  show ?case
    using replay_check_step [OF Cons.prems check] Cons.IH [of st' "if ok then s # acc else acc"] check
    by (cases ok) (auto simp: replay_acceptable_def)
qed simp

text \<open>
  No packet number is accepted twice, whatever packets arrive in whatever order:
  the numbers accepted from the reset state are distinct.
\<close>

theorem wireguard_replay_rejects_replays:
  "distinct (accepted wireguard_replay_reset ss)"
  using accepted_distinct_from [OF replay_inv_reset] by blast

end
