(* ===== verification/Endian.thy ===== *)
theory Endian
  imports Prelude
begin

text \<open>
  The byte-order helpers of \<open>src/hal/core/jh_endian.h\<close>. A load reads the bytes at
  the head of a list (a pointer is the list from that byte on); a store writes at an
  offset of a buffer and returns the buffer. The lemmas show that a store is read
  back by the load of the same order, that the two orders are byte swaps of each
  other, and that a store leaves the bytes around it alone.
\<close>

section \<open>Byte swaps\<close>

definition jh_bswap16 :: "u16 \<Rightarrow> u16" where
  "jh_bswap16 v = push_bit 8 v OR drop_bit 8 v"

definition jh_bswap32 :: "u32 \<Rightarrow> u32" where
  "jh_bswap32 v =
     push_bit 24 (v AND 0x000000FF) OR push_bit 8 (v AND 0x0000FF00) OR
     drop_bit 8 (v AND 0x00FF0000) OR drop_bit 24 (v AND 0xFF000000)"

definition jh_bswap64 :: "u64 \<Rightarrow> u64" where
  "jh_bswap64 v =
     push_bit 56 (v AND 0x00000000000000FF) OR push_bit 40 (v AND 0x000000000000FF00) OR
     push_bit 24 (v AND 0x0000000000FF0000) OR push_bit 8 (v AND 0x00000000FF000000) OR
     drop_bit 8 (v AND 0x000000FF00000000) OR drop_bit 24 (v AND 0x0000FF0000000000) OR
     drop_bit 40 (v AND 0x00FF000000000000) OR drop_bit 56 (v AND 0xFF00000000000000)"

definition jh_u16_msb :: "u16 \<Rightarrow> u8" where
  "jh_u16_msb v = ucast (drop_bit 8 v)"

definition jh_u16_lsb :: "u16 \<Rightarrow> u8" where
  "jh_u16_lsb v = ucast v"

section \<open>Little endian\<close>

definition jh_load_le16 :: "bytes \<Rightarrow> u16" where
  "jh_load_le16 p = ucast (p ! 0) OR push_bit 8 (ucast (p ! 1))"

definition jh_load_le32 :: "bytes \<Rightarrow> u32" where
  "jh_load_le32 p =
     ucast (p ! 0) OR push_bit 8 (ucast (p ! 1)) OR push_bit 16 (ucast (p ! 2)) OR
     push_bit 24 (ucast (p ! 3))"

definition jh_load_le64 :: "bytes \<Rightarrow> u64" where
  "jh_load_le64 p = ucast (jh_load_le32 p) OR push_bit 32 (ucast (jh_load_le32 (drop 4 p)))"

definition jh_store_le16 :: "bytes \<Rightarrow> nat \<Rightarrow> u16 \<Rightarrow> bytes" where
  "jh_store_le16 out off v = out[off := ucast v, off + 1 := ucast (drop_bit 8 v)]"

definition jh_store_le32 :: "bytes \<Rightarrow> nat \<Rightarrow> u32 \<Rightarrow> bytes" where
  "jh_store_le32 out off v =
     out[off := ucast v, off + 1 := ucast (drop_bit 8 v), off + 2 := ucast (drop_bit 16 v),
         off + 3 := ucast (drop_bit 24 v)]"

definition jh_store_le64 :: "bytes \<Rightarrow> nat \<Rightarrow> u64 \<Rightarrow> bytes" where
  "jh_store_le64 out off v =
     jh_store_le32 (jh_store_le32 out off (ucast v)) (off + 4) (ucast (drop_bit 32 v))"

section \<open>Big endian\<close>

definition jh_load_be16 :: "bytes \<Rightarrow> u16" where
  "jh_load_be16 p = push_bit 8 (ucast (p ! 0)) OR ucast (p ! 1)"

definition jh_u16_from_bytes :: "u8 \<Rightarrow> u8 \<Rightarrow> u16" where
  "jh_u16_from_bytes msb lsb = jh_load_be16 [msb, lsb]"

definition jh_load_be32 :: "bytes \<Rightarrow> u32" where
  "jh_load_be32 p =
     push_bit 24 (ucast (p ! 0)) OR push_bit 16 (ucast (p ! 1)) OR push_bit 8 (ucast (p ! 2)) OR
     ucast (p ! 3)"

definition jh_load_be64 :: "bytes \<Rightarrow> u64" where
  "jh_load_be64 p = push_bit 32 (ucast (jh_load_be32 p)) OR ucast (jh_load_be32 (drop 4 p))"

definition jh_store_be16 :: "bytes \<Rightarrow> nat \<Rightarrow> u16 \<Rightarrow> bytes" where
  "jh_store_be16 out off v = out[off := ucast (drop_bit 8 v), off + 1 := ucast v]"

definition jh_store_be32 :: "bytes \<Rightarrow> nat \<Rightarrow> u32 \<Rightarrow> bytes" where
  "jh_store_be32 out off v =
     out[off := ucast (drop_bit 24 v), off + 1 := ucast (drop_bit 16 v),
         off + 2 := ucast (drop_bit 8 v), off + 3 := ucast v]"

definition jh_store_be64 :: "bytes \<Rightarrow> nat \<Rightarrow> u64 \<Rightarrow> bytes" where
  "jh_store_be64 out off v =
     jh_store_be32 (jh_store_be32 out off (ucast (drop_bit 32 v))) (off + 4) (ucast v)"

section \<open>Round trips\<close>

text \<open>A word is the sum of its bytes: one lemma per width, on the bits.\<close>

lemma join_16: "ucast (ucast v :: u8) OR push_bit 8 (ucast (ucast (drop_bit 8 v) :: u8)) = (v :: u16)"
  by (rule bit_word_eqI) (auto simp: bit_simps)

lemma join_32:
  "ucast (ucast v :: u8) OR push_bit 8 (ucast (ucast (drop_bit 8 v) :: u8)) OR
   push_bit 16 (ucast (ucast (drop_bit 16 v) :: u8)) OR
   push_bit 24 (ucast (ucast (drop_bit 24 v) :: u8)) = (v :: u32)"
proof (rule bit_word_eqI)
  fix n assume "n < LENGTH(32)"
  then consider "n < 8" | "8 \<le> n \<and> n < 16" | "16 \<le> n \<and> n < 24" | "24 \<le> n \<and> n < 32"
    by fastforce
  then show "bit (ucast (ucast v :: u8) OR push_bit 8 (ucast (ucast (drop_bit 8 v) :: u8)) OR
       push_bit 16 (ucast (ucast (drop_bit 16 v) :: u8)) OR
       push_bit 24 (ucast (ucast (drop_bit 24 v) :: u8)) :: u32) n = bit v n"
    by cases (auto simp: bit_simps)
qed

lemma join_64: "ucast (ucast v :: u32) OR push_bit 32 (ucast (ucast (drop_bit 32 v) :: u32)) = (v :: u64)"
  by (rule bit_word_eqI) (auto simp: bit_simps)

lemma length_stores [simp]:
  "length (jh_store_le16 out off v) = length out"
  "length (jh_store_le32 out off w) = length out"
  "length (jh_store_le64 out off x) = length out"
  "length (jh_store_be16 out off v) = length out"
  "length (jh_store_be32 out off w) = length out"
  "length (jh_store_be64 out off x) = length out"
  by (simp_all add: jh_store_le16_def jh_store_le32_def jh_store_le64_def jh_store_be16_def
      jh_store_be32_def jh_store_be64_def)

lemma load_store_le16 [simp]:
  "off + 2 \<le> length out \<Longrightarrow> jh_load_le16 (drop off (jh_store_le16 out off v)) = v"
  by (simp add: jh_load_le16_def jh_store_le16_def join_16)

lemma load_store_le32 [simp]:
  "off + 4 \<le> length out \<Longrightarrow> jh_load_le32 (drop off (jh_store_le32 out off v)) = v"
  by (simp add: jh_load_le32_def jh_store_le32_def join_32)

lemma load_store_be16 [simp]:
  "off + 2 \<le> length out \<Longrightarrow> jh_load_be16 (drop off (jh_store_be16 out off v)) = v"
  by (simp add: jh_load_be16_def jh_store_be16_def join_16 or.commute)

lemma load_store_be32 [simp]:
  "off + 4 \<le> length out \<Longrightarrow> jh_load_be32 (drop off (jh_store_be32 out off v)) = v"
  using join_32 [of v]
  by (simp add: jh_load_be32_def jh_store_be32_def or.commute or.left_commute)

text \<open>A store leaves the bytes before and after its own alone.\<close>

lemma nth_store_le16:
  "i < length out \<Longrightarrow> i < off \<or> off + 2 \<le> i \<Longrightarrow> jh_store_le16 out off v ! i = out ! i"
  by (auto simp: jh_store_le16_def)

lemma nth_store_le32:
  "i < length out \<Longrightarrow> i < off \<or> off + 4 \<le> i \<Longrightarrow> jh_store_le32 out off v ! i = out ! i"
  by (auto simp: jh_store_le32_def)

lemma nth_store_be32:
  "i < length out \<Longrightarrow> i < off \<or> off + 4 \<le> i \<Longrightarrow> jh_store_be32 out off v ! i = out ! i"
  by (auto simp: jh_store_be32_def)

lemma load_le32_cong:
  "(\<And>i. i < 4 \<Longrightarrow> p ! i = q ! i) \<Longrightarrow> jh_load_le32 p = jh_load_le32 q"
  by (simp add: jh_load_le32_def)

lemma load_be32_cong:
  "(\<And>i. i < 4 \<Longrightarrow> p ! i = q ! i) \<Longrightarrow> jh_load_be32 p = jh_load_be32 q"
  by (simp add: jh_load_be32_def)

lemma load_store_le64 [simp]:
  assumes "off + 8 \<le> length out"
  shows "jh_load_le64 (drop off (jh_store_le64 out off v)) = v"
proof -
  let ?lo = "jh_store_le32 out off (ucast v)"
  have "jh_load_le32 (drop off (jh_store_le64 out off v)) = jh_load_le32 (drop off ?lo)"
    using assms by (intro load_le32_cong) (simp add: jh_store_le64_def nth_store_le32)
  then show ?thesis
    using assms by (simp add: jh_load_le64_def jh_store_le64_def join_64 add.commute)
qed

lemma load_store_be64 [simp]:
  assumes "off + 8 \<le> length out"
  shows "jh_load_be64 (drop off (jh_store_be64 out off v)) = v"
proof -
  let ?hi = "jh_store_be32 out off (ucast (drop_bit 32 v))"
  have "jh_load_be32 (drop off (jh_store_be64 out off v)) = jh_load_be32 (drop off ?hi)"
    using assms by (intro load_be32_cong) (simp add: jh_store_be64_def nth_store_be32)
  then show ?thesis
    using assms by (simp add: jh_load_be64_def jh_store_be64_def join_64 or.commute add.commute)
qed

text \<open>The other way round: the bytes of a loaded word are the bytes it was loaded from.\<close>

lemma bytes_of_load_le32:
  "ucast (jh_load_le32 p) = p ! 0" "ucast (drop_bit 8 (jh_load_le32 p)) = p ! 1"
  "ucast (drop_bit 16 (jh_load_le32 p)) = p ! 2" "ucast (drop_bit 24 (jh_load_le32 p)) = p ! 3"
  by (rule bit_word_eqI; auto simp: jh_load_le32_def bit_simps dest: bit_imp_le_length)+

lemma halves_of_load_le64:
  "ucast (jh_load_le64 p) = jh_load_le32 p" "ucast (drop_bit 32 (jh_load_le64 p)) = jh_load_le32 (drop 4 p)"
  by (rule bit_word_eqI; auto simp: jh_load_le64_def bit_simps dest: bit_imp_le_length)+

lemma store_load_le64:
  assumes "length p = 8" "length out = 8"
  shows "jh_store_le64 out 0 (jh_load_le64 p) = p"
proof (rule nth_equalityI)
  fix i assume "i < length (jh_store_le64 out 0 (jh_load_le64 p))"
  then have "i < 8" using assms by simp
  then have "i = 0 \<or> i = 1 \<or> i = 2 \<or> i = 3 \<or> i = 4 \<or> i = 5 \<or> i = 6 \<or> i = 7" by linarith
  then show "jh_store_le64 out 0 (jh_load_le64 p) ! i = p ! i"
    using assms
    by (elim disjE) (simp_all add: jh_store_le64_def jh_store_le32_def halves_of_load_le64
        bytes_of_load_le32 numeral_2_eq_2)
qed (use assms in simp)

section \<open>The two orders\<close>

lemma bswap16_involution [simp]: "jh_bswap16 (jh_bswap16 v) = v"
  by (rule bit_word_eqI) (auto simp: jh_bswap16_def bit_simps)

lemma load_be16_bswap: "jh_load_be16 p = jh_bswap16 (jh_load_le16 p)"
  by (rule bit_word_eqI) (auto simp: jh_bswap16_def jh_load_be16_def jh_load_le16_def bit_simps
      dest: bit_imp_le_length)

end
