(* ===== verification/Sha256.thy ===== *)
theory Sha256
  imports Endian
begin

text \<open>
  SHA-256 as \<open>src/hal/security/jh_sha256.c\<close> computes it: a context that buffers input
  until a block of 64 bytes is full. The specification pads the whole message at once
  (FIPS 180-4) and folds the compression function over its blocks; the main result is
  that feeding a message in any pieces gives the specified digest. On top of it stands
  \<open>hal_hmac_sha256\<close> of \<open>src/hal/security/hal_crypto.cpp\<close>.
\<close>

section \<open>The compression function\<close>

definition jh_sha256_k :: "u32 list" where
  "jh_sha256_k = concat
    [[0x428a2f98, 0x71374491, 0xb5c0fbcf, 0xe9b5dba5, 0x3956c25b],
     [0x59f111f1, 0x923f82a4, 0xab1c5ed5, 0xd807aa98, 0x12835b01],
     [0x243185be, 0x550c7dc3, 0x72be5d74, 0x80deb1fe, 0x9bdc06a7],
     [0xc19bf174, 0xe49b69c1, 0xefbe4786, 0x0fc19dc6, 0x240ca1cc],
     [0x2de92c6f, 0x4a7484aa, 0x5cb0a9dc, 0x76f988da, 0x983e5152],
     [0xa831c66d, 0xb00327c8, 0xbf597fc7, 0xc6e00bf3, 0xd5a79147],
     [0x06ca6351, 0x14292967, 0x27b70a85, 0x2e1b2138, 0x4d2c6dfc],
     [0x53380d13, 0x650a7354, 0x766a0abb, 0x81c2c92e, 0x92722c85],
     [0xa2bfe8a1, 0xa81a664b, 0xc24b8b70, 0xc76c51a3, 0xd192e819],
     [0xd6990624, 0xf40e3585, 0x106aa070, 0x19a4c116, 0x1e376c08],
     [0x2748774c, 0x34b0bcb5, 0x391c0cb3, 0x4ed8aa4a, 0x5b9cca4f],
     [0x682e6ff3, 0x748f82ee, 0x78a5636f, 0x84c87814, 0x8cc70208],
     [0x90befffa, 0xa4506ceb, 0xbef9a3f7, 0xc67178f2]]"

definition jh_sha256_rotr :: "u32 \<Rightarrow> nat \<Rightarrow> u32" where
  "jh_sha256_rotr x n = drop_bit n x OR push_bit (32 - n) x"

text \<open>The message schedule: the array \<open>w\<close>, grown by one word per step.\<close>

fun sha256_expand :: "nat \<Rightarrow> u32 list \<Rightarrow> u32 list" where
  "sha256_expand 0 w = w"
| "sha256_expand (Suc n) w =
     (let i = length w;
          s0 = jh_sha256_rotr (w ! (i - 15)) 7 XOR jh_sha256_rotr (w ! (i - 15)) 18 XOR
               drop_bit 3 (w ! (i - 15));
          s1 = jh_sha256_rotr (w ! (i - 2)) 17 XOR jh_sha256_rotr (w ! (i - 2)) 19 XOR
               drop_bit 10 (w ! (i - 2))
      in sha256_expand n (w @ [w ! (i - 16) + s0 + w ! (i - 7) + s1]))"

definition sha256_schedule :: "bytes \<Rightarrow> u32 list" where
  "sha256_schedule block =
     sha256_expand 48 (map (\<lambda>i. jh_load_be32 (drop (i * 4) block)) [0..<16])"

fun sha256_rounds :: "(u32 \<times> u32) list \<Rightarrow> u32 list \<Rightarrow> u32 list" where
  "sha256_rounds ((k, w) # kws) [a, b, c, d, e, f, g, h] =
     (let S1 = jh_sha256_rotr e 6 XOR jh_sha256_rotr e 11 XOR jh_sha256_rotr e 25;
          ch = (e AND f) XOR (NOT e AND g);
          temp1 = h + S1 + ch + k + w;
          S0 = jh_sha256_rotr a 2 XOR jh_sha256_rotr a 13 XOR jh_sha256_rotr a 22;
          maj = (a AND b) XOR (a AND c) XOR (b AND c);
          temp2 = S0 + maj
      in sha256_rounds kws [temp1 + temp2, a, b, c, d + temp1, e, f, g])"
| "sha256_rounds _ st = st"

definition sha256_block :: "u32 list \<Rightarrow> bytes \<Rightarrow> u32 list" where
  "sha256_block st block =
     map2 (+) st (sha256_rounds (zip jh_sha256_k (sha256_schedule block)) st)"

section \<open>The context\<close>

record sha256_context =
  s_state :: "u32 list"
  s_bit_count :: u64
  s_buffer :: bytes
  s_buffer_len :: nat
  s_initialized :: bool

definition jh_sha256_compress :: "sha256_context \<Rightarrow> bytes \<Rightarrow> sha256_context" where
  "jh_sha256_compress ctx block = ctx\<lparr>s_state := sha256_block (s_state ctx) block\<rparr>"

definition sha256_iv :: "u32 list" where
  "sha256_iv = [0x6a09e667, 0xbb67ae85, 0x3c6ef372, 0xa54ff53a,
                0x510e527f, 0x9b05688c, 0x1f83d9ab, 0x5be0cd19]"

definition jh_sha256_init :: "sha256_context \<Rightarrow> sha256_context" where
  "jh_sha256_init ctx =
     ctx\<lparr>s_state := sha256_iv, s_bit_count := 0, s_buffer_len := 0, s_initialized := True\<rparr>"

text \<open>The three parts of \<open>jh_sha256_update\<close>: top up the buffer, whole blocks, the rest.\<close>

definition sha256_top_up :: "sha256_context \<Rightarrow> bytes \<Rightarrow> sha256_context \<times> bytes" where
  "sha256_top_up ctx data =
     (if s_buffer_len ctx > 0 then
        let needed = 64 - s_buffer_len ctx;
            n = (if length data < needed then length data else needed);
            ctx1 = ctx\<lparr>s_buffer := blit (s_buffer ctx) (s_buffer_len ctx) (take n data),
                       s_buffer_len := s_buffer_len ctx + n\<rparr>
        in (if s_buffer_len ctx1 = 64
            then (jh_sha256_compress ctx1 (s_buffer ctx1))\<lparr>s_buffer_len := 0\<rparr> else ctx1,
            drop n data)
      else (ctx, data))"

function sha256_whole_blocks :: "sha256_context \<Rightarrow> bytes \<Rightarrow> sha256_context \<times> bytes" where
  "sha256_whole_blocks ctx data =
     (if length data \<ge> 64
      then sha256_whole_blocks (jh_sha256_compress ctx (take 64 data)) (drop 64 data)
      else (ctx, data))"
  by pat_completeness auto
termination by (relation "measure (\<lambda>(ctx, data). length data)") auto

declare sha256_whole_blocks.simps [simp del]

definition jh_sha256_update :: "sha256_context \<Rightarrow> bytes \<Rightarrow> sha256_context" where
  "jh_sha256_update ctx data =
     (if data = [] then ctx
      else
        let ctx0 = ctx\<lparr>s_bit_count := s_bit_count ctx + of_nat (length data) * 8\<rparr>;
            (ctx1, data1) = sha256_top_up ctx0 data;
            (ctx2, rest) = sha256_whole_blocks ctx1 data1
        in if rest \<noteq> []
           then ctx2\<lparr>s_buffer := blit (s_buffer ctx2) 0 rest, s_buffer_len := length rest\<rparr>
           else ctx2)"

partial_function (option) sha256_zero_pad :: "sha256_context \<Rightarrow> sha256_context option" where
  "sha256_zero_pad ctx =
     (if s_buffer_len ctx = 56 then Some ctx else sha256_zero_pad (jh_sha256_update ctx [0]))"

definition sha256_output :: "u32 list \<Rightarrow> bytes" where
  "sha256_output st =
     fold (\<lambda>i digest. jh_store_be32 digest (i * 4) (st ! i)) [0..<8] (replicate 32 0)"

definition jh_sha256_final :: "sha256_context \<Rightarrow> (sha256_context \<times> bytes) option" where
  "jh_sha256_final ctx =
     (let bit_count = s_bit_count ctx;
          ctx1 = jh_sha256_update ctx [0x80]
      in case sha256_zero_pad ctx1 of
           None \<Rightarrow> None
         | Some ctx2 \<Rightarrow>
             let length_be = jh_store_be64 (replicate 8 0) 0 bit_count;
                 ctx3 = jh_sha256_update ctx2 length_be
             in Some (ctx3\<lparr>s_initialized := False\<rparr>, sha256_output (s_state ctx3)))"

section \<open>Specification\<close>

definition absorb :: "u32 list \<Rightarrow> bytes \<Rightarrow> u32 list" where
  "absorb st msg = fold (\<lambda>b st. sha256_block st b) (chunks 64 msg) st"

definition sha256_pad :: "bytes \<Rightarrow> bytes" where
  "sha256_pad msg =
     msg @ [0x80] @ replicate ((119 - length msg mod 64) mod 64) 0 @
     jh_store_be64 (replicate 8 0) 0 (8 * of_nat (length msg))"

definition sha256 :: "bytes \<Rightarrow> bytes" where
  "sha256 msg = sha256_output (absorb sha256_iv (sha256_pad msg))"

section \<open>The context holds the message\<close>

definition buffered :: "sha256_context \<Rightarrow> bytes \<Rightarrow> bool" where
  "buffered ctx msg \<longleftrightarrow>
     length (s_buffer ctx) = 64 \<and>
     (\<exists>full rest. msg = full @ rest \<and> 64 dvd length full \<and> length rest < 64 \<and>
        s_buffer_len ctx = length rest \<and> take (length rest) (s_buffer ctx) = rest \<and>
        s_state ctx = absorb sha256_iv full)"

definition ctx_holds :: "sha256_context \<Rightarrow> bytes \<Rightarrow> bool" where
  "ctx_holds ctx msg \<longleftrightarrow> s_bit_count ctx = 8 * of_nat (length msg) \<and> buffered ctx msg"

lemma absorb_Nil [simp]: "absorb st [] = st"
  by (simp add: absorb_def)

lemma absorb_append: "64 dvd length xs \<Longrightarrow> absorb st (xs @ ys) = absorb (absorb st xs) ys"
  by (simp add: absorb_def chunks_append)

lemma absorb_block: "length b = 64 \<Longrightarrow> absorb st b = sha256_block st b"
  by (simp add: absorb_def)

lemma ctx_holds_init: "length (s_buffer ctx) = 64 \<Longrightarrow> ctx_holds (jh_sha256_init ctx) []"
  by (simp add: ctx_holds_def buffered_def jh_sha256_init_def)

lemma whole_blocks:
  "sha256_whole_blocks ctx data = (ctx', rest) \<Longrightarrow>
   \<exists>full. data = full @ rest \<and> 64 dvd length full \<and> length rest < 64 \<and>
     ctx' = ctx\<lparr>s_state := absorb (s_state ctx) full\<rparr>"
proof (induction ctx data rule: sha256_whole_blocks.induct)
  case (1 ctx data)
  show ?case
  proof (cases "64 \<le> length data")
    case True
    then obtain full where full: "drop 64 data = full @ rest" "64 dvd length full" "length rest < 64"
      "ctx' = ctx\<lparr>s_state := absorb (sha256_block (s_state ctx) (take 64 data)) full\<rparr>"
      using 1 by (subst (asm) (2) sha256_whole_blocks.simps) (auto simp: jh_sha256_compress_def)
    have "data = (take 64 data @ full) @ rest"
      using full(1) by (metis append_assoc append_take_drop_id)
    moreover have "absorb (s_state ctx) (take 64 data @ full) =
        absorb (sha256_block (s_state ctx) (take 64 data)) full"
      using True by (simp add: absorb_append absorb_block)
    ultimately show ?thesis
      using full True by (intro exI [of _ "take 64 data @ full"]) simp
  next
    case False
    then show ?thesis using 1(2) by (subst (asm) sha256_whole_blocks.simps) simp
  qed
qed

lemma buffered_len: "buffered ctx msg \<Longrightarrow> s_buffer_len ctx = length msg mod 64"
  by (auto simp: buffered_def)

lemma buffered_whole:
  assumes "buffered ctx msg" "length msg mod 64 = 0"
  shows "s_state ctx = absorb sha256_iv msg"
proof -
  obtain full rest where "msg = full @ rest" "64 dvd length full" "length rest < 64"
    "s_state ctx = absorb sha256_iv full"
    using assms(1) by (auto simp: buffered_def)
  moreover from this have "(length full + length rest) mod 64 = length rest"
    by (subst mod_add_left_eq [symmetric]) (simp add: dvd_eq_mod_eq_0)
  ultimately have "rest = []" using assms(2) by simp
  then show ?thesis using \<open>msg = full @ rest\<close> \<open>s_state ctx = absorb sha256_iv full\<close> by simp
qed

lemma buffered_frame: "buffered (ctx\<lparr>s_bit_count := n\<rparr>) msg = buffered ctx msg"
  by (simp add: buffered_def)

lemma top_up:
  assumes ctx: "buffered ctx msg" and run: "sha256_top_up ctx data = (ctx1, data1)"
  shows "\<exists>d0. data = d0 @ data1 \<and> buffered ctx1 (msg @ d0) \<and>
           (data1 \<noteq> [] \<longrightarrow> s_buffer_len ctx1 = 0) \<and> s_bit_count ctx1 = s_bit_count ctx"
proof -
  obtain full rest where msg: "msg = full @ rest" "64 dvd length full" "length rest < 64"
    "s_buffer_len ctx = length rest" "take (length rest) (s_buffer ctx) = rest"
    "s_state ctx = absorb sha256_iv full" and len: "length (s_buffer ctx) = 64"
    using ctx by (auto simp: buffered_def)
  show ?thesis
  proof (cases "length rest = 0")
    case True
    then show ?thesis using ctx run msg by (auto simp: sha256_top_up_def)
  next
    case False
    define n where "n = min (length data) (64 - length rest)"
    let ?buf = "blit (s_buffer ctx) (length rest) (take n data)"
    have n: "n \<le> length data" "length rest + n \<le> 64"
      using msg(3) by (simp_all add: n_def)
    have buf: "length ?buf = 64" "take (length rest + n) ?buf = rest @ take n data"
      using n len msg(5) by (simp_all add: blit_def min_def)
    have run': "ctx1 = (if length rest + n = 64
        then (jh_sha256_compress (ctx\<lparr>s_buffer := ?buf, s_buffer_len := 64\<rparr>) ?buf)\<lparr>s_buffer_len := 0\<rparr>
        else ctx\<lparr>s_buffer := ?buf, s_buffer_len := length rest + n\<rparr>)" "data1 = drop n data"
      using run False by (auto simp: sha256_top_up_def Let_def msg(4) n_def min_def split: if_splits)
    have "buffered ctx1 (msg @ take n data)"
    proof (cases "length rest + n = 64")
      case True
      then have "?buf = rest @ take n data" using buf by simp
      moreover have "absorb sha256_iv (full @ rest @ take n data) =
          sha256_block (absorb sha256_iv full) (rest @ take n data)"
        using True n msg(2) by (simp add: absorb_append absorb_block)
      ultimately show ?thesis
        using True n msg buf(1) unfolding buffered_def
        by (intro conjI exI [of _ "full @ rest @ take n data"] exI [of _ "[]"])
          (simp_all add: run'(1) jh_sha256_compress_def)
    next
      case False
      then show ?thesis
        using n msg buf unfolding buffered_def
        by (intro conjI exI [of _ full] exI [of _ "rest @ take n data"]) (simp_all add: run'(1))
    qed
    moreover have "data1 \<noteq> [] \<Longrightarrow> length rest + n = 64"
      using msg(3) by (simp add: run'(2) n_def min_def split: if_splits)
    ultimately show ?thesis
      by (intro exI [of _ "take n data"]) (auto simp: run' jh_sha256_compress_def)
  qed
qed

lemma whole_blocks_buffered:
  assumes "buffered ctx msg" "s_buffer_len ctx = 0" "sha256_whole_blocks ctx data = (ctx', rest)"
  defines "ctx'' \<equiv> (if rest \<noteq> [] then ctx'\<lparr>s_buffer := blit (s_buffer ctx') 0 rest, s_buffer_len := length rest\<rparr>
                   else ctx')"
  shows "buffered ctx'' (msg @ data) \<and> s_bit_count ctx'' = s_bit_count ctx"
proof -
  obtain full where full: "data = full @ rest" "64 dvd length full" "length rest < 64"
    "ctx' = ctx\<lparr>s_state := absorb (s_state ctx) full\<rparr>"
    using whole_blocks [OF assms(3)] by blast
  have msg: "64 dvd length msg" "s_state ctx = absorb sha256_iv msg" "length (s_buffer ctx) = 64"
    using assms(1,2) by (auto simp: buffered_def)
  have "take (length rest) (blit (s_buffer ctx) 0 rest) = rest"
    using full(3) msg(3) by (simp add: blit_def)
  then have "rest \<noteq> [] \<Longrightarrow> ?thesis"
    using full msg assms(2) unfolding buffered_def ctx''_def
    by (intro conjI exI [of _ "msg @ full"] exI [of _ rest]) (simp_all add: absorb_append)
  moreover have "rest = [] \<Longrightarrow> ?thesis"
    using full msg assms(2) unfolding buffered_def ctx''_def
    by (intro conjI exI [of _ "msg @ full"] exI [of _ "[]"]) (simp_all add: absorb_append)
  ultimately show ?thesis by blast
qed

lemma update_holds: "ctx_holds ctx msg \<Longrightarrow> ctx_holds (jh_sha256_update ctx data) (msg @ data)"
proof (cases "data = []")
  case False
  assume ctx: "ctx_holds ctx msg"
  let ?ctx0 = "ctx\<lparr>s_bit_count := s_bit_count ctx + of_nat (length data) * 8\<rparr>"
  obtain ctx1 data1 where top: "sha256_top_up ?ctx0 data = (ctx1, data1)" by fastforce
  obtain ctx2 rest where blocks: "sha256_whole_blocks ctx1 data1 = (ctx2, rest)" by fastforce
  have "buffered ?ctx0 msg" using ctx by (simp add: ctx_holds_def buffered_frame)
  from top_up [OF this top] obtain d0 where d0: "data = d0 @ data1" "buffered ctx1 (msg @ d0)"
    "data1 \<noteq> [] \<longrightarrow> s_buffer_len ctx1 = 0" "s_bit_count ctx1 = s_bit_count ?ctx0" by blast
  have "buffered (jh_sha256_update ctx data) (msg @ data) \<and>
      s_bit_count (jh_sha256_update ctx data) = s_bit_count ctx1"
  proof (cases "data1 = []")
    case True
    then have "rest = []" "ctx2 = ctx1" using blocks by (simp_all add: sha256_whole_blocks.simps)
    then show ?thesis
      using d0 True False top blocks by (simp add: jh_sha256_update_def)
  next
    case more: False
    then show ?thesis
      using whole_blocks_buffered [OF d0(2) _ blocks] d0 False top blocks
      by (simp add: jh_sha256_update_def)
  qed
  then show ?thesis
    using ctx d0(4) by (simp add: ctx_holds_def algebra_simps)
qed (simp add: jh_sha256_update_def)

lemma updates_hold:
  "ctx_holds ctx msg \<Longrightarrow> ctx_holds (fold (\<lambda>d c. jh_sha256_update c d) ds ctx) (msg @ concat ds)"
  by (induction ds arbitrary: ctx msg) (force dest: update_holds)+

section \<open>Padding\<close>

text \<open>The number of zero bytes after the marker, by the length modulo the block size.\<close>

lemma pad_count_120: "r < 64 \<Longrightarrow> (120 - r) mod 64 = (if r \<le> 56 then 56 - r else 120 - (r::nat))"
  by (simp add: mod_if)

lemma pad_count_119: "r < 64 \<Longrightarrow> (119 - r) mod 64 = (if r \<le> (55::nat) then 55 - r else 119 - (r::nat))"
  by (simp add: mod_if)

lemma pad_step: "Suc k = (120 - m mod 64) mod 64 \<Longrightarrow> k = (120 - Suc m mod 64) mod 64"
proof -
  obtain r where r: "m mod 64 = r" "r < 64" by simp
  then have "Suc m mod 64 = (if r = 63 then 0 else Suc r)" by (simp add: mod_Suc)
  then show "Suc k = (120 - m mod 64) mod 64 \<Longrightarrow> k = (120 - Suc m mod 64) mod 64"
    using r(2) by (auto simp: r(1) pad_count_120 split: if_splits)
qed

lemma pad_start: "(119 - m mod 64) mod 64 = (120 - Suc m mod 64) mod (64::nat)"
proof -
  obtain r where r: "m mod 64 = r" "r < 64" by simp
  then have "Suc m mod 64 = (if r = 63 then 0 else Suc r)" by (simp add: mod_Suc)
  then show ?thesis
    using r(2) by (auto simp: r(1) pad_count_120 pad_count_119 split: if_splits)
qed

lemma pad_total: "(m + 1 + (119 - m mod 64) mod 64 + 8) mod 64 = (0::nat)"
proof -
  obtain q r where m: "m = 64 * q + r" "r < 64" "m mod 64 = r"
    by (metis mod_less_divisor mult_div_mod_eq zero_less_numeral)
  have "m + 1 + (119 - r) mod 64 + 8 = (if r \<le> 55 then 64 * (q + 1) else 64 * (q + 2))"
    using m(1,2) by (simp add: pad_count_119)
  then have "\<exists>k. m + 1 + (119 - r) mod 64 + 8 = 64 * k" by metis
  then show ?thesis unfolding m(3) by (elim exE) (simp only: mod_mult_self1_is_0)
qed

lemma zero_pad_holds:
  assumes "ctx_holds ctx msg" "k = (120 - length msg mod 64) mod 64"
  shows "\<exists>ctx'. sha256_zero_pad ctx = Some ctx' \<and> ctx_holds ctx' (msg @ replicate k 0)"
  using assms
proof (induction k arbitrary: ctx msg)
  case 0
  have "length msg mod 64 = 56"
    using 0(2) by (simp add: pad_count_120 split: if_splits)
  then have "s_buffer_len ctx = 56" using 0(1) buffered_len by (auto simp: ctx_holds_def)
  then show ?case using 0 by (subst sha256_zero_pad.simps) simp
next
  case (Suc k)
  let ?ctx = "jh_sha256_update ctx [0]"
  have "length msg mod 64 \<noteq> 56" using Suc.prems(2) by (auto simp: pad_count_120)
  then have "s_buffer_len ctx \<noteq> 56" using Suc.prems(1) buffered_len by (auto simp: ctx_holds_def)
  moreover have "k = (120 - length (msg @ [0 :: u8]) mod 64) mod 64"
    using pad_step [OF Suc.prems(2)] by simp
  ultimately show ?case
    using Suc.IH [OF update_holds [OF Suc.prems(1)], of "[0]"]
    by (subst sha256_zero_pad.simps) simp
qed

lemma final_digest:
  assumes ctx: "ctx_holds ctx msg"
  shows "\<exists>ctx'. jh_sha256_final ctx = Some (ctx', sha256 msg)"
proof -
  let ?one = "msg @ [0x80 :: u8]" and ?k = "(119 - length msg mod 64) mod 64"
  let ?len = "jh_store_be64 (replicate 8 0) 0 (s_bit_count ctx)"
  have k: "?k = (120 - length ?one mod 64) mod 64"
    using pad_start [of "length msg"] by simp
  obtain ctx2 where pad: "sha256_zero_pad (jh_sha256_update ctx [0x80]) = Some ctx2"
    and held: "ctx_holds ctx2 (?one @ replicate ?k 0)"
    using zero_pad_holds [OF update_holds [OF ctx] k] by blast
  have bits: "s_bit_count ctx = 8 * of_nat (length msg)" using ctx by (simp add: ctx_holds_def)
  have whole: "(?one @ replicate ?k 0) @ ?len = sha256_pad msg" by (simp add: sha256_pad_def bits)
  have "length (sha256_pad msg) = length msg + 1 + ?k + 8" by (simp add: sha256_pad_def)
  then have "length (sha256_pad msg) mod 64 = 0" by (simp only: pad_total)
  moreover have "ctx_holds (jh_sha256_update ctx2 ?len) (sha256_pad msg)"
    using update_holds [OF held, of ?len] unfolding whole .
  ultimately have "s_state (jh_sha256_update ctx2 ?len) = absorb sha256_iv (sha256_pad msg)"
    by (auto simp: ctx_holds_def dest: buffered_whole)
  then show ?thesis using pad by (simp add: jh_sha256_final_def Let_def sha256_def)
qed

section \<open>Streaming\<close>

lemma sha256_streaming_pieces:
  assumes "length (s_buffer ctx) = 64"
  shows "map_option snd (jh_sha256_final (fold (\<lambda>d c. jh_sha256_update c d) pieces (jh_sha256_init ctx))) =
         Some (sha256 (concat pieces))"
  using final_digest [OF updates_hold [OF ctx_holds_init [OF assms], of pieces]] by auto

lemma initialized_blocks:
  "sha256_whole_blocks ctx data = (ctx', rest) \<Longrightarrow> s_initialized ctx' = s_initialized ctx"
  using whole_blocks [of ctx data ctx' rest] by auto

lemma initialized_top_up:
  "sha256_top_up ctx data = (ctx', rest) \<Longrightarrow> s_initialized ctx' = s_initialized ctx"
  by (simp add: sha256_top_up_def jh_sha256_compress_def Let_def split: if_splits) auto

lemma initialized_update [simp]: "s_initialized (jh_sha256_update ctx data) = s_initialized ctx"
proof (cases "data = []")
  case False
  let ?ctx0 = "ctx\<lparr>s_bit_count := s_bit_count ctx + of_nat (length data) * 8\<rparr>"
  obtain ctx1 data1 where top: "sha256_top_up ?ctx0 data = (ctx1, data1)" by fastforce
  obtain ctx2 rest where blocks: "sha256_whole_blocks ctx1 data1 = (ctx2, rest)" by fastforce
  show ?thesis
    using initialized_top_up [OF top] initialized_blocks [OF blocks] False top blocks
    by (simp add: jh_sha256_update_def)
qed (simp add: jh_sha256_update_def)

text \<open>
  C17: a digest does not depend on how the message is cut up. Starting from any context
  storage, initialising it, feeding any list of pieces and finishing never loops and
  writes the SHA-256 digest of the concatenation, as padded and folded by the
  specification.
\<close>

theorem jh_sha256_streaming:
  assumes "length (s_buffer ctx) = 64"
  shows "map_option snd (jh_sha256_final (fold (\<lambda>d c. jh_sha256_update c d) pieces (jh_sha256_init ctx))) =
         Some (sha256 (concat pieces))"
  by (rule sha256_streaming_pieces [OF assms])

theorem jh_sha256_streaming_witness:
  "map_option snd (jh_sha256_final (jh_sha256_update (jh_sha256_update (jh_sha256_init
     \<lparr>s_state = [], s_bit_count = 0, s_buffer = replicate 64 7, s_buffer_len = 3,
      s_initialized = False\<rparr>) [1, 2]) [3])) = Some (sha256 [1, 2, 3])"
  using jh_sha256_streaming [of "\<lparr>s_state = [], s_bit_count = 0, s_buffer = replicate 64 7,
    s_buffer_len = 3, s_initialized = False\<rparr>" "[[1, 2], [3]]"] by simp

section \<open>The public functions\<close>

text \<open>
  The storage a caller declares on the stack; \<open>jh_sha256_init\<close> replaces every field the
  digest depends on.
\<close>

definition stack_context :: sha256_context where
  "stack_context = \<lparr>s_state = replicate 8 0, s_bit_count = 0, s_buffer = replicate 64 0,
                    s_buffer_len = 0, s_initialized = False\<rparr>"

definition hal_sha256_init_ex :: "sha256_context option \<Rightarrow> sha256_context option \<times> hal_status" where
  "hal_sha256_init_ex context =
     (case context of
        None \<Rightarrow> (None, HAL_EINVAL)
      | Some ctx \<Rightarrow> (Some (jh_sha256_init ctx), HAL_OK))"

text \<open>An input pointer with its length: \<open>None\<close> is \<open>NULL\<close>.\<close>

definition hal_sha256_update_ex ::
  "sha256_context option \<Rightarrow> bytes option \<Rightarrow> nat \<Rightarrow> sha256_context option \<times> hal_status" where
  "hal_sha256_update_ex context input input_len =
     (case context of
        None \<Rightarrow> (context, HAL_EINVAL)
      | Some ctx \<Rightarrow>
          if \<not> s_initialized ctx \<or> (input = None \<and> input_len > 0) then (context, HAL_EINVAL)
          else (Some (jh_sha256_update ctx
                  (at_ptr input input_len)), HAL_OK))"

definition hal_sha256_final_ex ::
  "sha256_context option \<Rightarrow> out_ptr \<Rightarrow> (sha256_context option \<times> bytes option \<times> hal_status) option" where
  "hal_sha256_final_ex context out_digest =
     (case context of
        None \<Rightarrow> Some (context, None, HAL_EINVAL)
      | Some ctx \<Rightarrow>
          if \<not> s_initialized ctx \<or> \<not> out_digest then Some (context, None, HAL_EINVAL)
          else map_option (\<lambda>(c, d). (Some c, Some d, HAL_OK)) (jh_sha256_final ctx))"

text \<open>
  The outer option says whether the call returns; the flag is its result and the inner
  option the digest it wrote.
\<close>

definition hal_sha256 :: "bytes option \<Rightarrow> nat \<Rightarrow> out_ptr \<Rightarrow> (bool \<times> bytes option) option" where
  "hal_sha256 input input_len out_digest =
     (let (c1, st1) = hal_sha256_init_ex (Some stack_context) in
      if st1 \<noteq> HAL_OK then Some (False, None)
      else let (c2, st2) = hal_sha256_update_ex c1 input input_len in
      if st2 \<noteq> HAL_OK then Some (False, None)
      else map_option (\<lambda>(_, digest, st3). (st3 = HAL_OK, digest))
             (hal_sha256_final_ex c2 out_digest))"

definition hmac_digest :: "bytes \<Rightarrow> bytes \<Rightarrow> bytes option" where
  "hmac_digest first second =
     map_option snd (jh_sha256_final
       (jh_sha256_update (jh_sha256_update (jh_sha256_init stack_context) first) second))"

definition hal_hmac_sha256 ::
  "bytes option \<Rightarrow> nat \<Rightarrow> bytes option \<Rightarrow> nat \<Rightarrow> out_ptr \<Rightarrow> (bool \<times> bytes option) option" where
  "hal_hmac_sha256 key key_len msg msg_len out_mac =
     (if \<not> out_mac then Some (False, None)
      else if key = None \<and> key_len > 0 then Some (False, None)
      else if msg = None \<and> msg_len > 0 then Some (False, None)
      else
        let zero_block = replicate 64 0;
            key_bytes = at_ptr key key_len;
            msg_bytes = at_ptr msg msg_len in
        case (if key_len > 64 then
                (case hal_sha256 key key_len True of
                   Some (True, Some digest) \<Rightarrow> Some (Some (blit zero_block 0 digest))
                 | Some _ \<Rightarrow> Some None
                 | None \<Rightarrow> None)
              else Some (Some (blit zero_block 0 key_bytes))) of
          None \<Rightarrow> None
        | Some None \<Rightarrow> Some (False, None)
        | Some (Some key_block) \<Rightarrow>
            let inner_pad = map (\<lambda>b. b XOR 0x36) key_block;
                outer_pad = map (\<lambda>b. b XOR 0x5c) key_block in
            case hmac_digest inner_pad msg_bytes of
              None \<Rightarrow> None
            | Some inner_digest \<Rightarrow>
                map_option (\<lambda>mac. (True, Some mac)) (hmac_digest outer_pad inner_digest))"

text \<open>The keyed hash of RFC 2104, over the specification of SHA-256.\<close>

definition hmac_key_block :: "bytes \<Rightarrow> bytes" where
  "hmac_key_block key =
     (let k = (if length key > 64 then sha256 key else key) in k @ replicate (64 - length k) 0)"

definition hmac :: "bytes \<Rightarrow> bytes \<Rightarrow> bytes" where
  "hmac key msg =
     sha256 (map (\<lambda>b. b XOR 0x5c) (hmac_key_block key) @
       sha256 (map (\<lambda>b. b XOR 0x36) (hmac_key_block key) @ msg))"

lemma length_sha256_output [simp]: "length (sha256_output st) = 32"
proof -
  have "length (fold (\<lambda>i digest. jh_store_be32 digest (i * 4) (st ! i)) is d) = length d" for "is" d
    by (induction "is" arbitrary: d) simp_all
  then show ?thesis by (simp add: sha256_output_def)
qed

lemma length_sha256 [simp, wire_lengths]: "length (sha256 msg) = 32"
  by (simp add: sha256_def)

lemma length_hmac [simp, wire_lengths]: "length (hmac key msg) = 32"
  by (simp add: hmac_def)

lemma length_stack_buffer [simp]: "length (s_buffer stack_context) = 64"
  by (simp add: stack_context_def)

lemma hmac_digest_value: "hmac_digest a b = Some (sha256 (a @ b))"
  using sha256_streaming_pieces [of stack_context "[a, b]"] by (simp add: hmac_digest_def)

lemma hal_sha256_value: "n \<le> length p \<Longrightarrow> hal_sha256 (Some p) n True = Some (True, Some (sha256 (take n p)))"
proof -
  obtain c where "jh_sha256_final (jh_sha256_update (jh_sha256_init stack_context) (take n p)) =
      Some (c, sha256 (take n p))"
    using final_digest [OF update_holds [OF ctx_holds_init]] by fastforce
  moreover have "s_initialized (jh_sha256_init stack_context)" by (simp add: jh_sha256_init_def)
  ultimately show ?thesis
    by (simp add: hal_sha256_def hal_sha256_init_ex_def hal_sha256_update_ex_def
        hal_sha256_final_ex_def)
qed

lemma hal_hmac_sha256_ptr:
  assumes "n \<le> length key"
  shows "hal_hmac_sha256 (Some key) n (Some msg) (length msg) True = Some (True, Some (hmac (take n key) msg))"
  using assms by (simp add: hal_hmac_sha256_def hmac_def hmac_key_block_def hmac_digest_value
      hal_sha256_value blit_def Let_def)

text \<open>
  C18: for every key and message the code's HMAC returns, reports success and writes the
  RFC 2104 value: the key hashed when it is longer than a block and padded with zeros
  when shorter.
\<close>

theorem hal_hmac_sha256_value:
  "hal_hmac_sha256 (Some key) (length key) (Some msg) (length msg) True = Some (True, Some (hmac key msg))"
  using hal_hmac_sha256_ptr [of "length key" key msg] by simp

end
