(* ===== verification/Chacha20.thy ===== *)
theory Chacha20
  imports Endian
begin

text \<open>
  ChaCha20 of \<open>src/hal/network/wireguard/core/crypto/chacha20.c\<close> (RFC 7539): the block
  function, the stream loop, the two initialisers and HChaCha20, with the byte-order
  macros of \<open>crypto.h\<close> it uses. The main result gives every output byte by its position:
  byte \<open>i\<close> is input byte \<open>i\<close> exclusive-or byte \<open>i mod 64\<close> of the block with counter
  \<open>start + i div 64\<close>.
\<close>

section \<open>Byte-order macros\<close>

definition U8TO32_LITTLE :: "bytes \<Rightarrow> u32" where
  "U8TO32_LITTLE p =
     ucast (p ! 0) OR push_bit 8 (ucast (p ! 1)) OR push_bit 16 (ucast (p ! 2)) OR
     push_bit 24 (ucast (p ! 3))"

definition U8TO64_LITTLE :: "bytes \<Rightarrow> u64" where
  "U8TO64_LITTLE p =
     ucast (p ! 0) OR push_bit 8 (ucast (p ! 1)) OR push_bit 16 (ucast (p ! 2)) OR
     push_bit 24 (ucast (p ! 3)) OR push_bit 32 (ucast (p ! 4)) OR
     push_bit 40 (ucast (p ! 5)) OR push_bit 48 (ucast (p ! 6)) OR push_bit 56 (ucast (p ! 7))"

definition U32TO8_LITTLE :: "bytes \<Rightarrow> nat \<Rightarrow> u32 \<Rightarrow> bytes" where
  "U32TO8_LITTLE p off v =
     p[off := ucast v, off + 1 := ucast (drop_bit 8 v), off + 2 := ucast (drop_bit 16 v),
       off + 3 := ucast (drop_bit 24 v)]"

definition U64TO8_LITTLE :: "bytes \<Rightarrow> nat \<Rightarrow> u64 \<Rightarrow> bytes" where
  "U64TO8_LITTLE p off v =
     p[off := ucast v, off + 1 := ucast (drop_bit 8 v), off + 2 := ucast (drop_bit 16 v),
       off + 3 := ucast (drop_bit 24 v), off + 4 := ucast (drop_bit 32 v),
       off + 5 := ucast (drop_bit 40 v), off + 6 := ucast (drop_bit 48 v),
       off + 7 := ucast (drop_bit 56 v)]"

lemma length_U32TO8 [simp]: "length (U32TO8_LITTLE p off v) = length p"
  by (simp add: U32TO8_LITTLE_def)

lemma length_U64TO8 [simp]: "length (U64TO8_LITTLE p off v) = length p"
  by (simp add: U64TO8_LITTLE_def)

section \<open>The block function\<close>

definition ROTL32 :: "u32 \<Rightarrow> nat \<Rightarrow> u32" where
  "ROTL32 v n = push_bit n v OR drop_bit (32 - n) v"

definition CHACHA20_CONSTANTS :: "u32 list" where
  "CHACHA20_CONSTANTS = [0x61707865, 0x3320646e, 0x79622d32, 0x6b206574]"

text \<open>The four words of a quarter round; each line of the macro is one \<open>let\<close>.\<close>

definition quarter_words :: "u32 \<Rightarrow> u32 \<Rightarrow> u32 \<Rightarrow> u32 \<Rightarrow> u32 \<times> u32 \<times> u32 \<times> u32" where
  "quarter_words a b c d =
     (let a = a + b; d = ROTL32 (d XOR a) 16;
          c = c + d; b = ROTL32 (b XOR c) 12;
          a = a + b; d = ROTL32 (d XOR a) 8;
          c = c + d; b = ROTL32 (b XOR c) 7
      in (a, b, c, d))"

definition QUARTERROUND :: "nat \<Rightarrow> nat \<Rightarrow> nat \<Rightarrow> nat \<Rightarrow> u32 list \<Rightarrow> u32 list" where
  "QUARTERROUND i j k l block =
     (let (a, b, c, d) = quarter_words (block ! i) (block ! j) (block ! k) (block ! l)
      in block[i := a, j := b, k := c, l := d])"

definition INNER_BLOCK :: "u32 list \<Rightarrow> u32 list" where
  "INNER_BLOCK block =
     (QUARTERROUND 3 4 9 14 \<circ> QUARTERROUND 2 7 8 13 \<circ> QUARTERROUND 1 6 11 12 \<circ>
      QUARTERROUND 0 5 10 15 \<circ> QUARTERROUND 3 7 11 15 \<circ> QUARTERROUND 2 6 10 14 \<circ>
      QUARTERROUND 1 5 9 13 \<circ> QUARTERROUND 0 4 8 12) block"

definition TWENTY_ROUNDS :: "u32 list \<Rightarrow> u32 list" where
  "TWENTY_ROUNDS x = (INNER_BLOCK ^^ 10) x"

record chacha20_ctx =
  ch_state :: "u32 list"

definition chacha20_block :: "chacha20_ctx \<Rightarrow> bytes" where
  "chacha20_block ctx =
     (let working_state = TWENTY_ROUNDS (ch_state ctx) in
      fold (\<lambda>i stream. U32TO8_LITTLE stream (4 * i) (working_state ! i + ch_state ctx ! i))
        [0..<16] (replicate 64 0))"

section \<open>The stream\<close>

text \<open>Word 12 is the block counter.\<close>

definition next_block :: "chacha20_ctx \<Rightarrow> chacha20_ctx" where
  "next_block ctx = ctx\<lparr>ch_state := (ch_state ctx)[12 := ch_state ctx ! 12 + 1]\<rparr>"

function chacha20_loop :: "chacha20_ctx \<Rightarrow> bytes \<Rightarrow> chacha20_ctx \<times> bytes" where
  "chacha20_loop ctx inp =
     (let output = chacha20_block ctx; ctx1 = next_block ctx in
      if length inp \<le> 64 then (ctx1, map2 (XOR) inp output)
      else let (ctx2, rest) = chacha20_loop ctx1 (drop 64 inp)
           in (ctx2, map2 (XOR) (take 64 inp) output @ rest))"
  by pat_completeness auto
termination by (relation "measure (\<lambda>(ctx, inp). length inp)") auto

declare chacha20_loop.simps [simp del]

definition chacha20 :: "chacha20_ctx \<Rightarrow> bytes \<Rightarrow> chacha20_ctx \<times> bytes" where
  "chacha20 ctx inp = (if length inp \<noteq> 0 then chacha20_loop ctx inp else (ctx, []))"

definition key_words :: "bytes \<Rightarrow> u32 list" where
  "key_words key = map (\<lambda>i. U8TO32_LITTLE (drop (4 * i) key)) [0..<8]"

definition chacha20_init :: "bytes \<Rightarrow> u64 \<Rightarrow> chacha20_ctx" where
  "chacha20_init key nonce =
     \<lparr>ch_state = CHACHA20_CONSTANTS @ key_words key @
        [0, 0, ucast (nonce AND 0xFFFFFFFF), ucast (drop_bit 32 nonce)]\<rparr>"

definition chacha20_init_ietf :: "bytes \<Rightarrow> u32 \<Rightarrow> bytes \<Rightarrow> chacha20_ctx" where
  "chacha20_init_ietf key counter nonce =
     \<lparr>ch_state = CHACHA20_CONSTANTS @ key_words key @
        [counter, U8TO32_LITTLE nonce, U8TO32_LITTLE (drop 4 nonce), U8TO32_LITTLE (drop 8 nonce)]\<rparr>"

definition hchacha20 :: "bytes \<Rightarrow> bytes \<Rightarrow> bytes" where
  "hchacha20 nonce key =
     (let state = TWENTY_ROUNDS (CHACHA20_CONSTANTS @ key_words key @
            map (\<lambda>i. U8TO32_LITTLE (drop (4 * i) nonce)) [0..<4])
      in fold (\<lambda>(off, i) out. U32TO8_LITTLE out off (state ! i))
           [(0, 0), (4, 1), (8, 2), (12, 3), (16, 12), (20, 13), (24, 14), (28, 15)]
           (replicate 32 0))"

section \<open>Positions\<close>

lemma length_fold_stores:
  "(\<And>x out. length (f x out) = length out) \<Longrightarrow> length (fold f xs out) = length out"
  by (induction xs arbitrary: out) simp_all

lemma length_chacha20_block [simp]: "length (chacha20_block ctx) = 64"
  by (simp add: chacha20_block_def Let_def length_fold_stores)

lemma length_hchacha20 [simp, wire_lengths]: "length (hchacha20 nonce key) = 32"
  by (simp add: hchacha20_def Let_def length_fold_stores case_prod_unfold)

text \<open>The context \<open>j\<close> blocks on.\<close>

definition at_block :: "chacha20_ctx \<Rightarrow> nat \<Rightarrow> chacha20_ctx" where
  "at_block ctx j = ctx\<lparr>ch_state := (ch_state ctx)[12 := ch_state ctx ! 12 + of_nat j]\<rparr>"

definition keystream :: "chacha20_ctx \<Rightarrow> nat \<Rightarrow> u8" where
  "keystream ctx i = chacha20_block (at_block ctx (i div 64)) ! (i mod 64)"

lemma at_block_0 [simp]: "at_block ctx 0 = ctx"
  by (simp add: at_block_def)

lemma at_block_next: "at_block (next_block ctx) j = at_block ctx (Suc j)"
  by (cases "12 < length (ch_state ctx)") (simp_all add: at_block_def next_block_def add.assoc list_update_beyond)

lemma keystream_next: "64 \<le> i \<Longrightarrow> keystream (next_block ctx) (i - 64) = keystream ctx i"
  by (simp add: keystream_def at_block_next le_div_geq le_mod_geq)

lemma length_chacha20_loop: "length (snd (chacha20_loop ctx inp)) = length inp"
proof (induction ctx inp rule: chacha20_loop.induct)
  case (1 ctx inp)
  then show ?case
    by (subst chacha20_loop.simps) (simp add: Let_def case_prod_unfold)
qed

lemma length_chacha20 [simp]: "length (snd (chacha20 ctx inp)) = length inp"
  by (simp add: chacha20_def length_chacha20_loop)

lemma chacha20_loop_nth:
  "i < length inp \<Longrightarrow> snd (chacha20_loop ctx inp) ! i = inp ! i XOR keystream ctx i"
proof (induction ctx inp arbitrary: i rule: chacha20_loop.induct)
  case (1 ctx inp)
  show ?case
  proof (cases "i < 64")
    case True
    then have "keystream ctx i = chacha20_block ctx ! i" by (simp add: keystream_def)
    then show ?thesis
      using 1(2) True by (subst chacha20_loop.simps) (simp add: Let_def nth_append case_prod_unfold)
  next
    case False
    then have "snd (chacha20_loop (next_block ctx) (drop 64 inp)) ! (i - 64) =
        inp ! i XOR keystream ctx i"
      using 1 by (simp add: keystream_next)
    then show ?thesis
      using 1(2) False by (subst chacha20_loop.simps) (simp add: Let_def nth_append case_prod_unfold)
  qed
qed

lemma chacha20_nth:
  "i < length inp \<Longrightarrow> snd (chacha20 ctx inp) ! i = inp ! i XOR keystream ctx i"
  by (auto simp: chacha20_def chacha20_loop_nth)

lemma chacha20_involution [simp]: "snd (chacha20 ctx (snd (chacha20 ctx inp))) = inp"
  by (rule nth_equalityI) (simp_all add: chacha20_nth xor.assoc)

text \<open>
  C19: the stream cipher is positional. Whatever its length, the output has the length of
  the input, and byte \<open>i\<close> is the input byte exclusive-or byte \<open>i mod 64\<close> of the block
  whose counter is the initial one plus \<open>i div 64\<close>, modulo \<open>2 ^ 32\<close>; the loop carries
  nothing else from block to block.
\<close>

theorem chacha20_positional:
  "snd (chacha20 ctx inp) =
   map (\<lambda>i. inp ! i XOR
        chacha20_block (ctx\<lparr>ch_state := (ch_state ctx)[12 := ch_state ctx ! 12 + of_nat (i div 64)]\<rparr>)
          ! (i mod 64)) [0..<length inp]"
  by (rule nth_equalityI) (simp_all add: chacha20_nth keystream_def at_block_def)

end
