(* ===== verification/Le_Num.thy ===== *)
theory Le_Num
  imports Endian
begin

text \<open>
  Byte strings as little-endian numbers, the reading of keys, messages and tags the
  cryptographic specifications use, and its bits.
\<close>

fun le_num :: "bytes \<Rightarrow> nat" where
  "le_num [] = 0"
| "le_num (b # bs) = unat b + 256 * le_num bs"

definition le_bytes :: "nat \<Rightarrow> nat \<Rightarrow> bytes" where
  "le_bytes k n = map (\<lambda>i. word_of_nat (drop_bit (8 * i) n)) [0..<k]"

lemma length_le_bytes [simp, wire_lengths]: "length (le_bytes k n) = k"
  by (simp add: le_bytes_def)

lemma le_num_less: "le_num bs < 2 ^ (8 * length bs)"
proof (induction bs)
  case (Cons b bs)
  have "unat b + 256 * le_num bs < 256 * (le_num bs + 1)" using unat_u8_less [of b] by simp
  also have "\<dots> \<le> 256 * 2 ^ (8 * length bs)" using Cons by (intro mult_le_mono2) simp
  finally show ?case by (simp add: power_add)
qed simp

text \<open>A number below \<open>2 ^ n\<close> and one above it keep their own bits.\<close>

lemma bit_below: "(a::nat) < 2 ^ n \<Longrightarrow> n \<le> j \<Longrightarrow> \<not> bit a j"
  by (metis bit_take_bit_iff leD take_bit_nat_eq_self)

lemma add_push_or: "(a::nat) < 2 ^ n \<Longrightarrow> a + push_bit n b = a OR push_bit n b"
  using bit_below [of a n] by (intro disjunctive_add) (auto simp: bit_push_bit_iff not_le)

lemma bit_add_push:
  assumes "(a::nat) < 2 ^ n"
  shows "bit (a + 2 ^ n * b) k = (if k < n then bit a k else bit b (k - n))"
proof -
  have "a + 2 ^ n * b = a OR push_bit n b"
    using add_push_or [OF assms, of b] by (simp add: push_bit_eq_mult mult.commute)
  then show ?thesis using bit_below [OF assms] by (auto simp: bit_simps)
qed

lemma bit_le_num: "bit (le_num bs) k = (k div 8 < length bs \<and> bit (bs ! (k div 8)) (k mod 8))"
proof (induction bs arbitrary: k)
  case (Cons b bs)
  have "unat b < 2 ^ 8" by simp
  from bit_add_push [OF this, of "le_num bs" k]
  have step: "bit (le_num (b # bs)) k = (if k < 8 then bit (unat b) k else bit (le_num bs) (k - 8))"
    by simp
  show ?case
  proof (cases "k < 8")
    case True
    then show ?thesis unfolding step by (simp add: bit_unsigned_iff)
  next
    case False
    then have "k div 8 = Suc ((k - 8) div 8)" "k mod 8 = (k - 8) mod 8"
      by (simp_all add: le_div_geq le_mod_geq)
    then show ?thesis unfolding step using False Cons by simp
  qed
qed simp

lemma le_num_append: "le_num (xs @ ys) = le_num xs + 2 ^ (8 * length xs) * le_num ys"
  by (induction xs) (simp_all add: power_add algebra_simps)

lemma le_num_replicate_0 [simp]: "le_num (replicate n 0) = 0"
  by (induction n) simp_all

lemma le_num_drop: "le_num (drop n bs) = drop_bit (8 * n) (le_num bs)"
proof (cases "n \<le> length bs")
  case True
  have "le_num bs = le_num (take n bs) + 2 ^ (8 * n) * le_num (drop n bs)"
    using True le_num_append [of "take n bs" "drop n bs"] by simp
  moreover have "le_num (take n bs) < 2 ^ (8 * n)"
    using le_num_less [of "take n bs"] True by simp
  ultimately show ?thesis by (simp add: drop_bit_eq_div)
next
  case False
  then have "le_num bs < 2 ^ (8 * n)"
    using le_num_less [of bs] by (auto elim!: less_le_trans)
  then show ?thesis using False by (simp add: drop_bit_eq_div)
qed

lemma le_num_take: "n \<le> length bs \<Longrightarrow> le_num (take n bs) = take_bit (8 * n) (le_num bs)"
proof -
  assume "n \<le> length bs"
  then have "le_num bs = le_num (take n bs) + 2 ^ (8 * n) * le_num (drop n bs)"
    using le_num_append [of "take n bs" "drop n bs"] by simp
  moreover have "le_num (take n bs) < 2 ^ (8 * n)"
    using le_num_less [of "take n bs"] \<open>n \<le> length bs\<close> by simp
  ultimately show ?thesis by (simp add: take_bit_eq_mod)
qed

lemma unat_load_le32: "4 \<le> length p \<Longrightarrow> unat (jh_load_le32 p) = take_bit 32 (le_num p)"
proof (rule bit_eqI)
  fix k :: nat assume p: "4 \<le> length p"
  define j where "j = k mod (8 :: nat)"
  have j: "j < 8" "k = 8 * (k div 8) + j" by (simp_all add: j_def)
  show "bit (unat (jh_load_le32 p)) k = bit (take_bit 32 (le_num p)) k"
  proof (cases "k < 32")
    case True
    then have "k div 8 < 4" by simp
    then have "k div 8 = 0 \<or> k div 8 = 1 \<or> k div 8 = 2 \<or> k div 8 = 3" by linarith
    with j(2) have k: "k = j \<or> k = 8 + j \<or> k = 16 + j \<or> k = 24 + j" by auto
    have at: "(8 * c + j) div 8 = c" "(8 * c + j) mod 8 = j" for c using j(1) by simp_all
    have "(8 + j) div 8 = 1" "(16 + j) div 8 = 2" "(24 + j) div 8 = 3"
      "(8 + j) mod 8 = j" "(16 + j) mod 8 = j" "(24 + j) mod 8 = j"
      using at [of 1] at [of 2] at [of 3] by simp_all
    with k p j(1) show ?thesis
      by (elim disjE) (auto simp: jh_load_le32_def bit_simps bit_le_num dest: bit_imp_le_length)
  qed (auto simp: bit_simps dest: bit_imp_le_length)
qed

lemma le_bytes_le_num [simp]: "le_bytes (length bs) (le_num bs) = bs"
proof (rule nth_equalityI)
  fix i assume i: "i < length (le_bytes (length bs) (le_num bs))"
  have "bit (word_of_nat (drop_bit (8 * i) (le_num bs)) :: u8) k = bit (bs ! i) k" if "k < 8" for k
    using i that by (simp add: bit_simps bit_le_num)
  then show "le_bytes (length bs) (le_num bs) ! i = bs ! i"
    using i by (intro bit_word_eqI) (simp add: le_bytes_def)
qed simp

lemma le_bytes_eqI: "length bs = k \<Longrightarrow> le_num bs = n \<Longrightarrow> bs = le_bytes k n"
  by (metis le_bytes_le_num)

end
