(* ===== verification/Poly1305_Proof.thy ===== *)
theory Poly1305_Proof
  imports Poly1305
begin

text \<open>
  Poly1305 computes the polynomial of RFC 7539: the limbs of Poly1305.thy are read as
  numbers, one block step is multiplication modulo \<open>2 ^ 130 - 5\<close>, the final carries and
  the selection reduce fully, and feeding the message in any pieces gives the tag of
  the specification.
\<close>

section \<open>Limbs as numbers\<close>

definition P1305 :: nat where
  "P1305 = 2 ^ 130 - 5"

definition limbs_val :: "limbs \<Rightarrow> nat" where
  "limbs_val = (\<lambda>(h0, h1, h2, h3, h4).
     unat h0 + 2 ^ 26 * unat h1 + 2 ^ 52 * unat h2 + 2 ^ 78 * unat h3 + 2 ^ 104 * unat h4)"

lemma limbs_val_tuple:
  "limbs_val (h0, h1, h2, h3, h4) =
   unat h0 + 2 ^ 26 * unat h1 + 2 ^ 52 * unat h2 + 2 ^ 78 * unat h3 + 2 ^ 104 * unat h4"
  by (simp add: limbs_val_def)

lemma split_limbs:
  "(N::nat) = take_bit 26 N + 2 ^ 26 * take_bit 26 (drop_bit 26 N) +
     2 ^ 52 * take_bit 26 (drop_bit 52 N) + 2 ^ 78 * take_bit 26 (drop_bit 78 N) +
     2 ^ 104 * drop_bit 104 N"
proof -
  have cut: "x = take_bit 26 x + 2 ^ 26 * drop_bit 26 x" for x :: nat
    by (simp add: take_bit_eq_mod drop_bit_eq_div)
  have "N = take_bit 26 N + 2 ^ 26 * drop_bit 26 N" by (rule cut)
  also have "drop_bit 26 N = take_bit 26 (drop_bit 26 N) + 2 ^ 26 * drop_bit 52 N"
    using cut [of "drop_bit 26 N"] by simp
  also have "drop_bit 52 N = take_bit 26 (drop_bit 52 N) + 2 ^ 26 * drop_bit 78 N"
    using cut [of "drop_bit 52 N"] by simp
  also have "drop_bit 78 N = take_bit 26 (drop_bit 78 N) + 2 ^ 26 * drop_bit 104 N"
    using cut [of "drop_bit 78 N"] by simp
  finally show ?thesis by (simp add: algebra_simps)
qed

lemma mask26: "(0x3ffffff :: u32) = mask 26"
  by (simp add: mask_eq_exp_minus_1)

lemma U8TO32_load: "poly1305_U8TO32 p = jh_load_le32 p"
proof -
  have "b AND 0xff = b" for b :: u8
  proof -
    have "(0xff :: u8) = - 1" by simp
    then show ?thesis by (simp only: and.right_neutral)
  qed
  then show ?thesis by (simp add: poly1305_U8TO32_def jh_load_le32_def)
qed

lemma unat_load_at:
  "k + 4 \<le> length m \<Longrightarrow> unat (poly1305_U8TO32 (drop k m)) = take_bit 32 (drop_bit (8 * k) (le_num m))"
  by (simp add: U8TO32_load unat_load_le32 le_num_drop)

lemma unat_drop_bit_u32: "unat (drop_bit s w :: u32) = drop_bit s (unat w)"
  by (rule bit_eqI) (auto simp: bit_simps dest: bit_imp_le_length)

lemma limb_at:
  assumes "k + 4 \<le> length m" "s \<le> 6"
  shows "unat (drop_bit s (poly1305_U8TO32 (drop k m)) AND 0x3ffffff) =
         take_bit 26 (drop_bit (8 * k + s) (le_num m))"
proof -
  have "unat (drop_bit s (poly1305_U8TO32 (drop k m)) AND 0x3ffffff) =
      take_bit 26 (drop_bit s (take_bit 32 (drop_bit (8 * k) (le_num m))))"
    unfolding mask26 take_bit_eq_mask [symmetric]
    by (simp only: unsigned_take_bit_eq unat_drop_bit_u32 unat_load_at [OF assms(1)])
  also have "\<dots> = take_bit 26 (drop_bit (8 * k + s) (le_num m))"
    using assms(2) by (intro bit_eqI) (auto simp: bit_simps ac_simps)
  finally show ?thesis .
qed

lemma top_limb_at:
  assumes "length m = 16" "hibit = 0 \<or> hibit = push_bit 24 1"
  shows "unat (drop_bit 8 (poly1305_U8TO32 (drop 12 m)) OR hibit) = drop_bit 104 (le_num m) + unat hibit"
    and "drop_bit 104 (le_num m) < 2 ^ 24"
proof -
  have N: "le_num m < 2 ^ 128" using le_num_less [of m] assms(1) by simp
  then show less: "drop_bit 104 (le_num m) < 2 ^ 24"
    by (simp add: drop_bit_eq_div less_mult_imp_div_less)
  have "take_bit 32 (drop_bit 96 (le_num m)) = drop_bit 96 (le_num m)"
    using N by (simp add: take_bit_nat_eq_self_iff drop_bit_eq_div less_mult_imp_div_less)
  then have u: "unat (drop_bit 8 (poly1305_U8TO32 (drop 12 m))) = drop_bit 104 (le_num m)"
    using assms(1) by (simp add: unat_drop_bit_u32 unat_load_at)
  show "unat (drop_bit 8 (poly1305_U8TO32 (drop 12 m)) OR hibit) = drop_bit 104 (le_num m) + unat hibit"
    using assms(2) u add_push_or [OF less, of 1] by (auto simp: unsigned_or_eq unsigned_push_bit_eq)
qed

section \<open>Adding a block\<close>

definition h_ok :: "limbs \<Rightarrow> bool" where
  "h_ok = (\<lambda>(h0, h1, h2, h3, h4). unat h0 < 2 ^ 26 \<and> unat h1 < 2 ^ 26 + 64 \<and> unat h2 < 2 ^ 26 \<and>
     unat h3 < 2 ^ 26 \<and> unat h4 < 2 ^ 26)"

definition limbs_below :: "nat \<Rightarrow> limbs \<Rightarrow> bool" where
  "limbs_below B = (\<lambda>(h0, h1, h2, h3, h4). unat h0 < B \<and> unat h1 < B \<and> unat h2 < B \<and>
     unat h3 < B \<and> unat h4 < B)"

lemma unat_add_u32: "unat a + unat b < 2 ^ 32 \<Longrightarrow> unat (a + b :: u32) = unat a + unat b"
  by (simp add: unat_word_ariths)

lemma add_block_val:
  assumes "h_ok h" "length m = 16" "hibit = 0 \<or> hibit = push_bit 24 1"
  shows "limbs_below (2 ^ 27 + 64) (add_block hibit m h)"
    and "limbs_val (add_block hibit m h) = limbs_val h + le_num m + 2 ^ 104 * unat hibit"
proof -
  obtain h0 h1 h2 h3 h4 where h: "h = (h0, h1, h2, h3, h4)" by (cases h)
  let ?N = "le_num m"
  have m0: "unat (poly1305_U8TO32 m AND 0x3ffffff) = take_bit 26 ?N"
    using limb_at [of 0 m 0] assms(2) by simp
  have m1: "unat (drop_bit 2 (poly1305_U8TO32 (drop 3 m)) AND 0x3ffffff) = take_bit 26 (drop_bit 26 ?N)"
    using limb_at [of 3 m 2] assms(2) by simp
  have m2: "unat (drop_bit 4 (poly1305_U8TO32 (drop 6 m)) AND 0x3ffffff) = take_bit 26 (drop_bit 52 ?N)"
    using limb_at [of 6 m 4] assms(2) by simp
  have m3: "unat (drop_bit 6 (poly1305_U8TO32 (drop 9 m)) AND 0x3ffffff) = take_bit 26 (drop_bit 78 ?N)"
    using limb_at [of 9 m 6] assms(2) by simp
  note m4 = top_limb_at [OF assms(2,3)]
  have small: "take_bit 26 x < 2 ^ 26" for x :: nat by (simp add: take_bit_eq_mod)
  have hib: "unat hibit \<le> 2 ^ 24" using assms(3) by (auto simp: push_bit_eq_mult)
  have b: "unat h0 < 2 ^ 26" "unat h1 < 2 ^ 26 + 64" "unat h2 < 2 ^ 26" "unat h3 < 2 ^ 26" "unat h4 < 2 ^ 26"
    using assms(1) by (simp_all add: h h_ok_def)
  have a0: "unat (h0 + (poly1305_U8TO32 m AND 0x3ffffff)) = unat h0 + take_bit 26 ?N"
    using b(1) small [of ?N] by (subst unat_add_u32) (simp_all add: m0)
  have a1: "unat (h1 + (drop_bit 2 (poly1305_U8TO32 (drop 3 m)) AND 0x3ffffff)) =
      unat h1 + take_bit 26 (drop_bit 26 ?N)"
    using b(2) small [of "drop_bit 26 ?N"] by (subst unat_add_u32) (simp_all add: m1)
  have a2: "unat (h2 + (drop_bit 4 (poly1305_U8TO32 (drop 6 m)) AND 0x3ffffff)) =
      unat h2 + take_bit 26 (drop_bit 52 ?N)"
    using b(3) small [of "drop_bit 52 ?N"] by (subst unat_add_u32) (simp_all add: m2)
  have a3: "unat (h3 + (drop_bit 6 (poly1305_U8TO32 (drop 9 m)) AND 0x3ffffff)) =
      unat h3 + take_bit 26 (drop_bit 78 ?N)"
    using b(4) small [of "drop_bit 78 ?N"] by (subst unat_add_u32) (simp_all add: m3)
  have a4: "unat (h4 + (drop_bit 8 (poly1305_U8TO32 (drop 12 m)) OR hibit)) =
      unat h4 + (drop_bit 104 ?N + unat hibit)"
    using b(5) m4(2) hib by (subst unat_add_u32) (simp_all add: m4(1))
  show "limbs_below (2 ^ 27 + 64) (add_block hibit m h)"
    using b small [of ?N] small [of "drop_bit 26 ?N"] small [of "drop_bit 52 ?N"]
      small [of "drop_bit 78 ?N"] m4(2) hib
    by (simp add: h add_block_def limbs_below_def a0 a1 a2 a3 a4)
  show "limbs_val (add_block hibit m h) = limbs_val h + le_num m + 2 ^ 104 * unat hibit"
    using split_limbs [of ?N]
    by (simp add: h add_block_def limbs_val_def a0 a1 a2 a3 a4 algebra_simps)
qed

section \<open>Multiplying\<close>

lemma unat_add_u64: "unat a + unat b < 2 ^ 64 \<Longrightarrow> unat (a + b :: u64) = unat a + unat b"
  by (simp add: unat_word_ariths)

lemma unat_mul_u64: "unat (ucast (a :: u32) * ucast (b :: u32) :: u64) = unat a * unat b"
proof -
  have "unat a * unat b \<le> 4294967295 * 4294967295"
    using unat_u32_less [of a] unat_u32_less [of b] by (intro mult_le_mono) linarith+
  then have "unat a * unat b < 2 ^ 64" by simp
  then show ?thesis by (simp add: unat_word_ariths)
qed

fun dot :: "limbs \<Rightarrow> limbs \<Rightarrow> nat" where
  "dot (h0, h1, h2, h3, h4) (a0, a1, a2, a3, a4) =
     unat h0 * unat a0 + unat h1 * unat a1 + unat h2 * unat a2 + unat h3 * unat a3 + unat h4 * unat a4"

lemma dot_bound:
  assumes "limbs_below B h" "limbs_below A a"
  shows "dot h a \<le> 5 * (B * A)"
proof -
  obtain h0 h1 h2 h3 h4 a0 a1 a2 a3 a4 where "h = (h0, h1, h2, h3, h4)" "a = (a0, a1, a2, a3, a4)"
    by (cases h; cases a)
  moreover from this have "unat h0 * unat a0 \<le> B * A" "unat h1 * unat a1 \<le> B * A"
    "unat h2 * unat a2 \<le> B * A" "unat h3 * unat a3 \<le> B * A" "unat h4 * unat a4 \<le> B * A"
    using assms by (auto intro!: mult_le_mono simp: limbs_below_def)
  ultimately show ?thesis by simp
qed

lemma unat_dot5:
  assumes "limbs_below (2 ^ 27 + 64) h" "limbs_below (5 * 2 ^ 26) a"
  shows "unat (dot5 h a) = dot h a"
proof -
  obtain h0 h1 h2 h3 h4 a0 a1 a2 a3 a4 where ha: "h = (h0, h1, h2, h3, h4)" "a = (a0, a1, a2, a3, a4)"
    by (cases h; cases a)
  have "dot h a < 2 ^ 64" using dot_bound [OF assms] by simp
  then have sums: "unat h0 * unat a0 + unat h1 * unat a1 < 2 ^ 64"
    "unat h0 * unat a0 + unat h1 * unat a1 + unat h2 * unat a2 < 2 ^ 64"
    "unat h0 * unat a0 + unat h1 * unat a1 + unat h2 * unat a2 + unat h3 * unat a3 < 2 ^ 64"
    "unat h0 * unat a0 + unat h1 * unat a1 + unat h2 * unat a2 + unat h3 * unat a3 + unat h4 * unat a4 < 2 ^ 64"
    by (simp_all add: ha)
  then show ?thesis
    unfolding ha dot5_def by (simp add: unat_add_u64 unat_mul_u64)
qed

text \<open>
  The identity behind the code's \<open>s\<close> limbs: at \<open>x = 2 ^ 26\<close> a limb five places up counts
  five times, because \<open>x ^ 5 - 5\<close> is the modulus.
\<close>

lemma product_identity:
  fixes x :: nat
  shows "(h0 * r0 + h1 * (5 * r4) + h2 * (5 * r3) + h3 * (5 * r2) + h4 * (5 * r1)) +
    x * (h0 * r1 + h1 * r0 + h2 * (5 * r4) + h3 * (5 * r3) + h4 * (5 * r2)) +
    x ^ 2 * (h0 * r2 + h1 * r1 + h2 * r0 + h3 * (5 * r4) + h4 * (5 * r3)) +
    x ^ 3 * (h0 * r3 + h1 * r2 + h2 * r1 + h3 * r0 + h4 * (5 * r4)) +
    x ^ 4 * (h0 * r4 + h1 * r3 + h2 * r2 + h3 * r1 + h4 * r0) +
    x ^ 5 * ((h1 * r4 + h2 * r3 + h3 * r2 + h4 * r1) + x * (h2 * r4 + h3 * r3 + h4 * r2) +
      x ^ 2 * (h3 * r4 + h4 * r3) + x ^ 3 * (h4 * r4)) =
    (h0 + x * h1 + x ^ 2 * h2 + x ^ 3 * h3 + x ^ 4 * h4) *
    (r0 + x * r1 + x ^ 2 * r2 + x ^ 3 * r3 + x ^ 4 * r4) +
    5 * ((h1 * r4 + h2 * r3 + h3 * r2 + h4 * r1) + x * (h2 * r4 + h3 * r3 + h4 * r2) +
      x ^ 2 * (h3 * r4 + h4 * r3) + x ^ 3 * (h4 * r4))"
  by (simp add: algebra_simps eval_nat_numeral)

definition wide_val :: "u64 \<times> u64 \<times> u64 \<times> u64 \<times> u64 \<Rightarrow> nat" where
  "wide_val = (\<lambda>(d0, d1, d2, d3, d4).
     unat d0 + 2 ^ 26 * unat d1 + 2 ^ 52 * unat d2 + 2 ^ 78 * unat d3 + 2 ^ 104 * unat d4)"

definition wide_ok :: "u64 \<times> u64 \<times> u64 \<times> u64 \<times> u64 \<Rightarrow> bool" where
  "wide_ok = (\<lambda>(d0, d1, d2, d3, d4).
     unat d0 \<le> 5 * ((2 ^ 27 + 64) * (5 * 2 ^ 26)) \<and> unat d1 \<le> 5 * ((2 ^ 27 + 64) * (5 * 2 ^ 26)) \<and>
     unat d2 \<le> 5 * ((2 ^ 27 + 64) * (5 * 2 ^ 26)) \<and> unat d3 \<le> 5 * ((2 ^ 27 + 64) * (5 * 2 ^ 26)) \<and>
     unat d4 \<le> 5 * ((2 ^ 27 + 64) * 2 ^ 26))"

lemma cong_by_multiples:
  "(a::nat) + p * k + 5 * l = b + 5 * l \<Longrightarrow> a mod p = b mod p"
  by (metis add_right_cancel mod_mult_self2)

lemma mul_limbs_val:
  assumes h: "limbs_below (2 ^ 27 + 64) h" and r: "limbs_below (2 ^ 26) r"
  shows "wide_ok (mul_limbs h r)"
    and "wide_val (mul_limbs h r) mod P1305 = (limbs_val h * limbs_val r) mod P1305"
proof -
  obtain h0 h1 h2 h3 h4 r0 r1 r2 r3 r4 where hr: "h = (h0, h1, h2, h3, h4)" "r = (r0, r1, r2, r3, r4)"
    by (cases h; cases r)
  have b: "unat r0 < 2 ^ 26" "unat r1 < 2 ^ 26" "unat r2 < 2 ^ 26" "unat r3 < 2 ^ 26" "unat r4 < 2 ^ 26"
    using r by (simp_all add: hr limbs_below_def)
  have s: "unat (r1 * 5) = 5 * unat r1" "unat (r2 * 5) = 5 * unat r2" "unat (r3 * 5) = 5 * unat r3"
    "unat (r4 * 5) = 5 * unat r4"
    using b by (simp_all add: unat_word_ariths)
  have below: "limbs_below (5 * 2 ^ 26) (r0, r4 * 5, r3 * 5, r2 * 5, r1 * 5)"
    "limbs_below (5 * 2 ^ 26) (r1, r0, r4 * 5, r3 * 5, r2 * 5)"
    "limbs_below (5 * 2 ^ 26) (r2, r1, r0, r4 * 5, r3 * 5)"
    "limbs_below (5 * 2 ^ 26) (r3, r2, r1, r0, r4 * 5)"
    "limbs_below (5 * 2 ^ 26) (r4, r3, r2, r1, r0)" "limbs_below (2 ^ 26) (r4, r3, r2, r1, r0)"
    using b by (simp_all add: limbs_below_def s)
  note dots = unat_dot5 [OF h below(1)] unat_dot5 [OF h below(2)] unat_dot5 [OF h below(3)]
    unat_dot5 [OF h below(4)] unat_dot5 [OF h below(5)]
  show "wide_ok (mul_limbs h r)"
    using dot_bound [OF h below(1)] dot_bound [OF h below(2)] dot_bound [OF h below(3)]
      dot_bound [OF h below(4)] dot_bound [OF h below(6)]
    unfolding wide_ok_def mul_limbs_def hr(2) Let_def prod.case by (simp only: dots)
  let ?K = "(unat h1 * unat r4 + unat h2 * unat r3 + unat h3 * unat r2 + unat h4 * unat r1) +
    2 ^ 26 * (unat h2 * unat r4 + unat h3 * unat r3 + unat h4 * unat r2) +
    (2 ^ 26) ^ 2 * (unat h3 * unat r4 + unat h4 * unat r3) + (2 ^ 26) ^ 3 * (unat h4 * unat r4)"
  have "wide_val (mul_limbs h r) + (2 ^ 26) ^ 5 * ?K = limbs_val h * limbs_val r + 5 * ?K"
    using product_identity [of "unat h0" "unat r0" "unat h1" "unat r4" "unat h2" "unat r3" "unat h3"
        "unat r2" "unat h4" "unat r1" "2 ^ 26"]
    unfolding wide_val_def mul_limbs_def hr(2) Let_def prod.case dots
    by (simp only: hr dot.simps s limbs_val_def prod.case power_mult [symmetric]) simp
  moreover have "(2 ^ 26) ^ 5 * ?K = P1305 * ?K + 5 * ?K" by (simp add: P1305_def)
  ultimately show "wide_val (mul_limbs h r) mod P1305 = (limbs_val h * limbs_val r) mod P1305"
    by (intro cong_by_multiples [of _ _ ?K ?K]) (simp only: add.assoc)
qed

section \<open>Carrying\<close>

lemma unat_low26: "unat (ucast (d :: u64) AND 0x3ffffff :: u32) = unat d mod 2 ^ 26"
proof -
  have "unat (ucast d AND 0x3ffffff :: u32) = take_bit 26 (take_bit 32 (unat d))"
    unfolding mask26 take_bit_eq_mask [symmetric] by (simp only: unsigned_take_bit_eq unsigned_ucast_eq) simp
  then have "unat (ucast d AND 0x3ffffff :: u32) = take_bit 26 (unat d)" by simp
  then show ?thesis by (simp only: take_bit_eq_mod)
qed

lemma unat_carry26: "unat d < 2 ^ 58 \<Longrightarrow> unat (ucast (drop_bit 26 (d :: u64)) :: u32) = unat d div 2 ^ 26"
  by (simp add: unsigned_ucast_eq drop_bit_eq_div unat_div take_bit_nat_eq_self less_mult_imp_div_less)

lemma unat_low26': "unat (w AND 0x3ffffff :: u32) = unat w mod 2 ^ 26"
  unfolding mask26 take_bit_eq_mask [symmetric]
  by (simp only: unsigned_take_bit_eq) (simp add: take_bit_eq_mod)

lemma unat_carry26': "unat (drop_bit 26 (w :: u32)) = unat w div 2 ^ 26"
  by (simp add: drop_bit_eq_div unat_div)

text \<open>The carries on numbers, with the quotients and remainders named.\<close>

lemma div_mod_26:
  obtains q m where "(n::nat) div 2 ^ 26 = q" "n mod 2 ^ 26 = m" "n = 67108864 * q + m" "m < 67108864"
proof
  show "n = 67108864 * (n div 2 ^ 26) + n mod 2 ^ 26" by simp
qed simp_all

lemma partial_reduce_val:
  assumes "wide_ok d"
  shows "h_ok (partial_reduce d)" and "limbs_val (partial_reduce d) mod P1305 = wide_val d mod P1305"
proof -
  obtain d0 d1 d2 d3 d4 where d: "d = (d0, d1, d2, d3, d4)" by (cases d)
  let ?B = "225180088742707200 :: nat"
  have b: "unat d0 \<le> ?B" "unat d1 \<le> ?B" "unat d2 \<le> ?B" "unat d3 \<le> ?B" "unat d4 \<le> 45036017748541440"
    using assms by (simp_all add: d wide_ok_def)
  obtain q0 m0 where 0: "unat d0 div 2 ^ 26 = q0" "unat d0 mod 2 ^ 26 = m0"
    "unat d0 = 67108864 * q0 + m0" "m0 < 67108864" by (rule div_mod_26)
  define c0 where "c0 = (ucast (drop_bit 26 d0) :: u32)"
  have c0: "unat c0 = q0" using b(1) 0 by (simp add: c0_def unat_carry26)
  have e1: "unat (d1 + ucast c0) = unat d1 + q0"
    using b(1,2) 0(3) by (subst unat_add_u64) (simp_all add: c0)
  obtain q1 m1 where 1: "unat (d1 + ucast c0) div 2 ^ 26 = q1" "unat (d1 + ucast c0) mod 2 ^ 26 = m1"
    "unat (d1 + ucast c0) = 67108864 * q1 + m1" "m1 < 67108864" by (rule div_mod_26)
  define c1 where "c1 = (ucast (drop_bit 26 (d1 + ucast c0)) :: u32)"
  have c1: "unat c1 = q1" using b(1,2) 0(3) 1 e1 by (simp add: c1_def unat_carry26)
  have e2: "unat (d2 + ucast c1) = unat d2 + q1"
    using b(1,2,3) 0(3) 1(3) e1 by (subst unat_add_u64) (simp_all add: c1)
  obtain q2 m2 where 2: "unat (d2 + ucast c1) div 2 ^ 26 = q2" "unat (d2 + ucast c1) mod 2 ^ 26 = m2"
    "unat (d2 + ucast c1) = 67108864 * q2 + m2" "m2 < 67108864" by (rule div_mod_26)
  define c2 where "c2 = (ucast (drop_bit 26 (d2 + ucast c1)) :: u32)"
  have c2: "unat c2 = q2" using b(1,2,3) 0(3) 1(3) 2 e1 e2 by (simp add: c2_def unat_carry26)
  have e3: "unat (d3 + ucast c2) = unat d3 + q2"
    using b 0(3) 1(3) 2(3) e1 e2 by (subst unat_add_u64) (simp_all add: c2)
  obtain q3 m3 where 3: "unat (d3 + ucast c2) div 2 ^ 26 = q3" "unat (d3 + ucast c2) mod 2 ^ 26 = m3"
    "unat (d3 + ucast c2) = 67108864 * q3 + m3" "m3 < 67108864" by (rule div_mod_26)
  define c3 where "c3 = (ucast (drop_bit 26 (d3 + ucast c2)) :: u32)"
  have c3: "unat c3 = q3" using b 0(3) 1(3) 2(3) 3 e1 e2 e3 by (simp add: c3_def unat_carry26)
  have e4: "unat (d4 + ucast c3) = unat d4 + q3"
    using b 0(3) 1(3) 2(3) 3(3) e1 e2 e3 by (subst unat_add_u64) (simp_all add: c3)
  obtain q4 m4 where 4: "unat (d4 + ucast c3) div 2 ^ 26 = q4" "unat (d4 + ucast c3) mod 2 ^ 26 = m4"
    "unat (d4 + ucast c3) = 67108864 * q4 + m4" "m4 < 67108864" by (rule div_mod_26)
  define c4 where "c4 = (ucast (drop_bit 26 (d4 + ucast c3)) :: u32)"
  have small: "q3 \<le> 3355444900" using b 0(3) 1(3) 2(3) 3(3) e1 e2 e3 by linarith
  have c4: "unat c4 = q4" using b(5) small 4 e4 by (simp add: c4_def unat_carry26)
  have q4: "q4 \<le> 671089100" using b(5) small 4(3) e4 by linarith
  have c5: "unat (c4 * 5) = 5 * q4" using q4 by (simp add: unat_word_ariths c4)
  define h0 where "h0 = (ucast d0 AND 0x3ffffff :: u32) + c4 * 5"
  have h0: "unat h0 = m0 + 5 * q4"
    unfolding h0_def using q4 0 by (subst unat_add_u32) (simp_all add: unat_low26 c5)
  obtain q m where 5: "unat h0 div 2 ^ 26 = q" "unat h0 mod 2 ^ 26 = m"
    "unat h0 = 67108864 * q + m" "m < 67108864" by (rule div_mod_26)
  have q: "q < 64" using 5(3) h0 q4 0(4) by linarith
  define h1 where "h1 = (ucast (d1 + ucast c0) AND 0x3ffffff :: u32) + drop_bit 26 h0"
  have h1: "unat h1 = m1 + q"
    unfolding h1_def using q 1 5 by (subst unat_add_u32) (simp_all add: unat_low26 unat_carry26')
  have run: "partial_reduce d = (h0 AND 0x3ffffff, h1, ucast (d2 + ucast c1) AND 0x3ffffff,
      ucast (d3 + ucast c2) AND 0x3ffffff, ucast (d4 + ucast c3) AND 0x3ffffff)"
    unfolding d partial_reduce_def prod.case Let_def h1_def h0_def c4_def c3_def c2_def c1_def c0_def
    by (rule refl)
  have h0': "unat (h0 AND 0x3ffffff) = m" by (simp only: unat_low26' 5(2))
  have limbs: "unat (ucast (d2 + ucast c1) AND 0x3ffffff :: u32) = m2"
    "unat (ucast (d3 + ucast c2) AND 0x3ffffff :: u32) = m3"
    "unat (ucast (d4 + ucast c3) AND 0x3ffffff :: u32) = m4"
    by (simp_all only: unat_low26 2(2) 3(2) 4(2))
  show "h_ok (partial_reduce d)"
    unfolding run h_ok_def prod.case limbs h0' h1 using 1(4) 2(4) 3(4) 4(4) 5(4) q by simp
  have "wide_val d = limbs_val (partial_reduce d) + P1305 * q4"
    unfolding run unfolding limbs_val_def wide_val_def d prod.case limbs h0' h1 P1305_def
    using 0(3) 1(3) 2(3) 3(3) 4(3) 5(3) e1 e2 e3 e4 h0 by simp
  then show "limbs_val (partial_reduce d) mod P1305 = wide_val d mod P1305" by simp
qed

lemma poly1305_block_val:
  assumes "h_ok h" "limbs_below (2 ^ 26) r" "length m = 16" "hibit = 0 \<or> hibit = push_bit 24 1"
  shows "h_ok (poly1305_block r hibit m h)"
    and "limbs_val (poly1305_block r hibit m h) mod P1305 =
         (limbs_val h + le_num m + 2 ^ 104 * unat hibit) * limbs_val r mod P1305"
proof -
  note add = add_block_val [OF assms(1,3,4)]
  note mul = mul_limbs_val [OF add(1) assms(2)]
  show "h_ok (poly1305_block r hibit m h)"
    unfolding poly1305_block_def by (rule partial_reduce_val(1) [OF mul(1)])
  show "limbs_val (poly1305_block r hibit m h) mod P1305 =
      (limbs_val h + le_num m + 2 ^ 104 * unat hibit) * limbs_val r mod P1305"
    unfolding poly1305_block_def partial_reduce_val(2) [OF mul(1)] mul(2) add(2) by (rule refl)
qed

section \<open>Specification\<close>

text \<open>RFC 7539, section 2.5.\<close>

definition poly_step :: "nat \<Rightarrow> nat \<Rightarrow> bytes \<Rightarrow> nat" where
  "poly_step r acc block = (acc + le_num block + 2 ^ (8 * length block)) * r mod P1305"

definition poly_acc :: "nat \<Rightarrow> bytes \<Rightarrow> nat" where
  "poly_acc r msg = fold (\<lambda>b acc. poly_step r acc b) (chunks 16 msg) 0"

definition clamp :: "nat \<Rightarrow> nat" where
  "clamp n = n AND 0x0ffffffc0ffffffc0ffffffc0fffffff"

definition poly1305 :: "bytes \<Rightarrow> bytes \<Rightarrow> bytes" where
  "poly1305 key msg =
     le_bytes 16 ((poly_acc (clamp (le_num (take 16 key))) msg + le_num (take 16 (drop 16 key))) mod 2 ^ 128)"

lemma poly_step_mod: "poly_step r (acc mod P1305) b = poly_step r acc b"
proof -
  have "(acc mod P1305 + (le_num b + 2 ^ (8 * length b))) * r mod P1305 =
      (acc + (le_num b + 2 ^ (8 * length b))) * r mod P1305"
    by (metis mod_add_left_eq mod_mult_left_eq)
  then show ?thesis by (simp only: poly_step_def add.assoc)
qed

lemma poly_acc_append_block:
  "16 dvd length full \<Longrightarrow> b \<noteq> [] \<Longrightarrow> length b \<le> 16 \<Longrightarrow>
   poly_acc r (full @ b) = poly_step r (poly_acc r full) b"
proof -
  assume "16 dvd length full" "b \<noteq> []" "length b \<le> 16"
  moreover from this have "chunks 16 b = [b]" by (subst chunks.simps) simp
  ultimately show ?thesis by (simp add: poly_acc_def chunks_append)
qed

lemma poly_acc_Nil [simp]: "poly_acc r [] = 0"
  by (simp add: poly_acc_def)

section \<open>The key\<close>

lemma U8TO32_take: "k + 4 \<le> n \<Longrightarrow> n \<le> length key \<Longrightarrow>
   poly1305_U8TO32 (drop k (take n key)) = poly1305_U8TO32 (drop k key)"
  by (simp add: poly1305_U8TO32_def)

lemma clamped_limb:
  assumes "16 \<le> length key" "k \<le> 12" "s \<le> 6" "unat C < 2 ^ 26"
  shows "unat (drop_bit s (poly1305_U8TO32 (drop k key)) AND C) =
         take_bit 26 (drop_bit (8 * k + s) (le_num (take 16 key))) AND unat C"
proof -
  have "take_bit 26 C = C"
    using assms(4) by (simp add: word_unat_eq_iff unsigned_take_bit_eq take_bit_nat_eq_self)
  then have C: "0x3ffffff AND C = C"
    unfolding mask26 by (simp only: take_bit_eq_mask and.commute)
  have U: "poly1305_U8TO32 (drop k key) = poly1305_U8TO32 (drop k (take 16 key))"
    using U8TO32_take [of k 16 key] assms(1,2) by simp
  have "drop_bit s (poly1305_U8TO32 (drop k key)) AND C =
      (drop_bit s (poly1305_U8TO32 (drop k (take 16 key))) AND 0x3ffffff) AND C"
    by (simp only: U and.assoc C)
  then show ?thesis
    using limb_at [of k "take 16 key" s] assms(1,2,3) by (simp only: unsigned_and_eq) simp
qed

lemma clamp_limbs:
  fixes N :: nat
  shows "take_bit 26 (clamp N) = take_bit 26 N AND 0x3ffffff"
    "take_bit 26 (drop_bit 26 (clamp N)) = take_bit 26 (drop_bit 26 N) AND 0x3ffff03"
    "take_bit 26 (drop_bit 52 (clamp N)) = take_bit 26 (drop_bit 52 N) AND 0x3ffc0ff"
    "take_bit 26 (drop_bit 78 (clamp N)) = take_bit 26 (drop_bit 78 N) AND 0x3f03fff"
    "drop_bit 104 (clamp N) = drop_bit 104 N AND 0xfffff"
proof -
  have split: "take_bit 26 (drop_bit i (clamp N)) = take_bit 26 (drop_bit i N) AND
      take_bit 26 (drop_bit i 0x0ffffffc0ffffffc0ffffffc0fffffff)" for i
    by (simp only: clamp_def take_bit_and drop_bit_and)
  show "take_bit 26 (clamp N) = take_bit 26 N AND 0x3ffffff"
    using split [of 0] by (simp add: take_bit_eq_mod)
  show "take_bit 26 (drop_bit 26 (clamp N)) = take_bit 26 (drop_bit 26 N) AND 0x3ffff03"
    unfolding split [of 26] by (simp add: take_bit_eq_mod drop_bit_eq_div)
  show "take_bit 26 (drop_bit 52 (clamp N)) = take_bit 26 (drop_bit 52 N) AND 0x3ffc0ff"
    unfolding split [of 52] by (simp add: take_bit_eq_mod drop_bit_eq_div)
  show "take_bit 26 (drop_bit 78 (clamp N)) = take_bit 26 (drop_bit 78 N) AND 0x3f03fff"
    unfolding split [of 78] by (simp add: take_bit_eq_mod drop_bit_eq_div)
  have "drop_bit 104 (clamp N) = drop_bit 104 N AND drop_bit 104 0x0ffffffc0ffffffc0ffffffc0fffffff"
    by (simp only: clamp_def drop_bit_and)
  then show "drop_bit 104 (clamp N) = drop_bit 104 N AND 0xfffff" by (simp add: drop_bit_eq_div)
qed

lemma and_le_nat: "(a::nat) AND b \<le> b"
  by (metis and_nat_def nat_int nat_mono AND_upper2 of_nat_0_le_iff)

lemma init_r:
  assumes "16 \<le> length key"
  shows "limbs_val (p_r (poly1305_init st key)) = clamp (le_num (take 16 key))"
    and "limbs_below (2 ^ 26) (p_r (poly1305_init st key))"
proof -
  let ?N = "le_num (take 16 key)"
  have r0: "unat (poly1305_U8TO32 key AND 0x3ffffff) = take_bit 26 ?N AND 0x3ffffff"
    using clamped_limb [of key 0 0 "0x3ffffff"] assms by simp
  have r1: "unat (drop_bit 2 (poly1305_U8TO32 (drop 3 key)) AND 0x3ffff03) =
      take_bit 26 (drop_bit 26 ?N) AND 0x3ffff03"
    using clamped_limb [of key 3 2 "0x3ffff03"] assms by simp
  have r2: "unat (drop_bit 4 (poly1305_U8TO32 (drop 6 key)) AND 0x3ffc0ff) =
      take_bit 26 (drop_bit 52 ?N) AND 0x3ffc0ff"
    using clamped_limb [of key 6 4 "0x3ffc0ff"] assms by simp
  have r3: "unat (drop_bit 6 (poly1305_U8TO32 (drop 9 key)) AND 0x3f03fff) =
      take_bit 26 (drop_bit 78 ?N) AND 0x3f03fff"
    using clamped_limb [of key 9 6 "0x3f03fff"] assms by simp
  have "poly1305_U8TO32 (drop 12 key) = poly1305_U8TO32 (drop 12 (take 16 key))"
    using U8TO32_take [of 12 16 key] assms by simp
  then have r4: "unat (drop_bit 8 (poly1305_U8TO32 (drop 12 key)) AND 0x00fffff) =
      drop_bit 104 ?N AND 0xfffff"
    using top_limb_at(1) [of "take 16 key" 0] assms by (simp add: unsigned_and_eq)
  show "limbs_val (p_r (poly1305_init st key)) = clamp ?N"
    by (subst split_limbs) (simp add: poly1305_init_def limbs_val_def r0 r1 r2 r3 r4 clamp_limbs)
  show "limbs_below (2 ^ 26) (p_r (poly1305_init st key))"
    unfolding poly1305_init_def limbs_below_def
    by (simp add: r0 r1 r2 r3 r4 le_less_trans [OF and_le_nat])
qed

section \<open>Feeding\<close>

definition poly_key :: "poly1305_state \<Rightarrow> nat \<Rightarrow> bool" where
  "poly_key st R \<longleftrightarrow> limbs_below (2 ^ 26) (p_r st) \<and> limbs_val (p_r st) = R"

definition poly_held :: "poly1305_state \<Rightarrow> nat \<Rightarrow> bytes \<Rightarrow> bool" where
  "poly_held st R msg \<longleftrightarrow>
     poly_key st R \<and> p_final st = 0 \<and> length (p_buffer st) = 16 \<and> h_ok (p_h st) \<and>
     (\<exists>full rest. msg = full @ rest \<and> 16 dvd length full \<and> length rest < 16 \<and>
        p_leftover st = length rest \<and> take (length rest) (p_buffer st) = rest \<and>
        limbs_val (p_h st) mod P1305 = poly_acc R full)"

lemma poly_key_frame [simp]: "poly_key (st\<lparr>p_h := h\<rparr>) R = poly_key st R"
  by (simp add: poly_key_def)

lemma poly_step_block:
  assumes "poly_key st R" "h_ok (p_h st)" "length m = 16"
    "limbs_val (p_h st) mod P1305 = poly_acc R full" "16 dvd length full"
  shows "h_ok (poly1305_block (p_r st) (push_bit 24 1) m (p_h st))"
    and "limbs_val (poly1305_block (p_r st) (push_bit 24 1) m (p_h st)) mod P1305 = poly_acc R (full @ m)"
proof -
  have r: "limbs_below (2 ^ 26) (p_r st)" "limbs_val (p_r st) = R"
    using assms(1) by (simp_all add: poly_key_def)
  note b = poly1305_block_val [OF assms(2) r(1) assms(3), of "push_bit 24 1"]
  show "h_ok (poly1305_block (p_r st) (push_bit 24 1) m (p_h st))" using b(1) by simp
  have "limbs_val (poly1305_block (p_r st) (push_bit 24 1) m (p_h st)) mod P1305 =
      poly_step R (limbs_val (p_h st)) m"
    using b(2) assms(3) by (simp add: r(2) poly_step_def push_bit_eq_mult)
  also have "\<dots> = poly_step R (poly_acc R full) m"
    by (subst poly_step_mod [symmetric]) (simp only: assms(4))
  also have "\<dots> = poly_acc R (full @ m)"
    using assms(3,5) by (subst poly_acc_append_block) auto
  finally show "limbs_val (poly1305_block (p_r st) (push_bit 24 1) m (p_h st)) mod P1305 =
      poly_acc R (full @ m)" .
qed

lemma blocks_val:
  "poly_key st R \<Longrightarrow> p_final st = 0 \<Longrightarrow> h_ok (p_h st) \<Longrightarrow> 16 dvd length m \<Longrightarrow>
   limbs_val (p_h st) mod P1305 = poly_acc R full \<Longrightarrow> 16 dvd length full \<Longrightarrow>
   \<exists>h. poly1305_blocks st m = st\<lparr>p_h := h\<rparr> \<and> h_ok h \<and> limbs_val h mod P1305 = poly_acc R (full @ m)"
proof (induction st m arbitrary: full rule: poly1305_blocks.induct)
  case (1 st m)
  show ?case
  proof (cases "16 \<le> length m")
    case True
    let ?st = "st\<lparr>p_h := poly1305_block (p_r st) (push_bit 24 1) (take 16 m) (p_h st)\<rparr>"
    have step: "poly1305_blocks st m = poly1305_blocks ?st (drop 16 m)"
      using True 1(3) by (subst poly1305_blocks.simps) (simp add: Let_def)
    note b = poly_step_block [OF 1(2) 1(4) _ 1(6) 1(7), of "take 16 m"]
    have "16 dvd length (drop 16 m)" using 1(5) True by (simp add: dvd_minus_self)
    moreover have "16 dvd length (full @ take 16 m)" using 1(7) True by simp
    ultimately obtain h where "poly1305_blocks ?st (drop 16 m) = ?st\<lparr>p_h := h\<rparr>" "h_ok h"
      "limbs_val h mod P1305 = poly_acc R ((full @ take 16 m) @ drop 16 m)"
      using 1(1) [of "push_bit 24 1" "full @ take 16 m"] 1(2,3) b True by (auto simp: min_def)
    then show ?thesis unfolding step by (intro exI [of _ h]) simp
  next
    case False
    then have "m = []" using 1(5) by (auto dest: dvd_imp_le)
    moreover from this have "poly1305_blocks st m = st\<lparr>p_h := p_h st\<rparr>"
      by (subst poly1305_blocks.simps) simp
    ultimately show ?thesis using 1 by (intro exI [of _ "p_h st"]) simp
  qed
qed

lemma absorb_held:
  assumes st: "poly_held st R msg" and empty: "p_leftover st = 0"
  shows "poly_held (poly1305_absorb st m) R (msg @ m) \<and> p_pad (poly1305_absorb st m) = p_pad st"
proof -
  have held: "poly_key st R" "p_final st = 0" "length (p_buffer st) = 16" "h_ok (p_h st)"
    "16 dvd length msg" "limbs_val (p_h st) mod P1305 = poly_acc R msg"
    using st empty by (auto simp: poly_held_def)
  define want where "want = length m - length m mod 16"
  define pre where "pre = take want m"
  define rest where "rest = drop want m"
  have m: "m = pre @ rest" by (simp add: pre_def rest_def)
  have part: "16 dvd length pre" by (simp add: pre_def want_def dvd_minus_mod)
  have rest: "length rest < 16" by (simp add: rest_def want_def)
  have short: "pre = []" if "\<not> length m \<ge> 16" using that by (simp add: pre_def want_def)
  obtain h where blocks: "poly1305_blocks st pre = st\<lparr>p_h := h\<rparr>" "h_ok h"
    "limbs_val h mod P1305 = poly_acc R (msg @ pre)"
    using blocks_val [OF held(1,2,4) part held(6,5)] by blast
  define h' where "h' = (if length m \<ge> 16 then h else p_h st)"
  have h': "h_ok h'" "limbs_val h' mod P1305 = poly_acc R (msg @ pre)"
    using blocks(2,3) held(4,6) short by (auto simp: h'_def)
  define st1 where "st1 = st\<lparr>p_h := h'\<rparr>"
  have pair: "(if length m \<ge> 16 then (poly1305_blocks st pre, rest) else (st, m)) = (st1, rest)"
    using short m blocks(1) by (auto simp: h'_def st1_def)
  have run: "poly1305_absorb st m =
      (if rest \<noteq> [] then st1\<lparr>p_buffer := blit (p_buffer st) 0 rest, p_leftover := length rest\<rparr> else st1)"
    unfolding poly1305_absorb_def Let_def want_def [symmetric] pre_def [symmetric]
      rest_def [symmetric] pair prod.case
    by (simp add: st1_def empty)
  have whole: "16 dvd length (msg @ pre)"
    unfolding length_append using held(5) part by (rule dvd_add)
  have buf: "take (length rest) (blit (p_buffer st) 0 rest) = rest" "length (blit (p_buffer st) 0 rest) = 16"
    using rest held(3) by (simp_all add: blit_def)
  show ?thesis
  proof (cases "rest = []")
    case True
    then show ?thesis
      using held h' empty whole unfolding run poly_held_def
      by (simp add: st1_def poly_key_def m)
  next
    case False
    then show ?thesis
      using held h' rest whole buf unfolding run poly_held_def
      by (simp add: st1_def poly_key_def m) (intro exI [of _ "msg @ pre"] exI [of _ rest]; simp)
  qed
qed

lemma poly_update_held:
  assumes st: "poly_held st R msg"
  shows "poly_held (poly1305_update st m) R (msg @ m) \<and> p_pad (poly1305_update st m) = p_pad st"
proof (cases "p_leftover st = 0")
  case True
  then show ?thesis using absorb_held [OF st] by (simp add: poly1305_update_def)
next
  case False
  obtain full rest where msg: "msg = full @ rest" "16 dvd length full" "length rest < 16"
    "p_leftover st = length rest" "take (length rest) (p_buffer st) = rest"
    "limbs_val (p_h st) mod P1305 = poly_acc R full"
    and held: "poly_key st R" "p_final st = 0" "length (p_buffer st) = 16" "h_ok (p_h st)"
    using st by (auto simp: poly_held_def)
  define n where "n = min (length m) (16 - length rest)"
  define buf where "buf = blit (p_buffer st) (length rest) (take n m)"
  define st1 where "st1 = st\<lparr>p_buffer := buf, p_leftover := length rest + n\<rparr>"
  have n: "n \<le> length m" "length rest + n \<le> 16" using msg(3) by (simp_all add: n_def)
  have buf: "length buf = 16" "take (length rest + n) buf = rest @ take n m"
    using n held(3) msg(5) by (simp_all add: buf_def blit_def min_def)
  have run: "poly1305_update st m = (if length rest + n < 16 then st1
      else poly1305_absorb ((poly1305_blocks st1 buf)\<lparr>p_leftover := 0\<rparr>) (drop n m))"
    using False by (auto simp: poly1305_update_def Let_def msg(4) n_def min_def st1_def buf_def)
  show ?thesis
  proof (cases "length rest + n < 16")
    case True
    then have "n = length m" using msg(3) by (auto simp: n_def min_def split: if_splits)
    then have "poly_held st1 R (msg @ m)"
      using True msg held buf unfolding poly_held_def st1_def
      by (intro conjI exI [of _ full] exI [of _ "rest @ m"]) (auto simp: poly_key_def)
    then show ?thesis using True by (simp add: run) (simp add: st1_def)
  next
    case full_block: False
    have b: "buf = rest @ take n m" using full_block n buf by simp
    have key: "poly_key st1 R" "p_final st1 = 0" "h_ok (p_h st1)" "16 dvd length buf"
      "limbs_val (p_h st1) mod P1305 = poly_acc R full"
      using held msg buf by (simp_all add: st1_def poly_key_def)
    obtain h where h: "poly1305_blocks st1 buf = st1\<lparr>p_h := h\<rparr>" "h_ok h"
      "limbs_val h mod P1305 = poly_acc R (full @ buf)"
      using blocks_val [OF key msg(2)] by blast
    let ?st2 = "(poly1305_blocks st1 buf)\<lparr>p_leftover := 0\<rparr>"
    have "poly_held ?st2 R (full @ buf)"
      using key h msg(2) buf(1) unfolding poly_held_def
      by (intro conjI exI [of _ "full @ buf"] exI [of _ "[]"]) (auto simp: st1_def poly_key_def)
    moreover have "p_pad ?st2 = p_pad st" unfolding h(1) by (simp add: st1_def)
    moreover have "(full @ buf) @ drop n m = msg @ m" by (simp add: b msg(1))
    ultimately show ?thesis
      using absorb_held [of ?st2 R "full @ buf" "drop n m"] full_block by (simp only: run) simp
  qed
qed

section \<open>Finishing\<close>

lemma last_block_val:
  assumes "poly_held st R msg"
  shows "h_ok (p_h (poly1305_last_block st))"
    and "limbs_val (p_h (poly1305_last_block st)) mod P1305 = poly_acc R msg"
    and "p_pad (poly1305_last_block st) = p_pad st"
proof -
  obtain full rest where msg: "msg = full @ rest" "16 dvd length full" "length rest < 16"
    "p_leftover st = length rest" "take (length rest) (p_buffer st) = rest"
    "limbs_val (p_h st) mod P1305 = poly_acc R full"
    and held: "poly_key st R" "p_final st = 0" "length (p_buffer st) = 16" "h_ok (p_h st)"
    using assms by (auto simp: poly_held_def)
  have "h_ok (p_h (poly1305_last_block st)) \<and>
      limbs_val (p_h (poly1305_last_block st)) mod P1305 = poly_acc R msg \<and>
      p_pad (poly1305_last_block st) = p_pad st"
  proof (cases "rest = []")
    case True
    then show ?thesis using msg held by (simp add: poly1305_last_block_def)
  next
    case False
    define buf where "buf = rest @ 1 # replicate (15 - length rest) (0 :: u8)"
    have len: "length buf = 16" using msg(3) by (simp add: buf_def)
    have "blit (p_buffer st) (length rest) (1 # replicate (16 - (length rest + 1)) 0) = buf"
      using msg(3,5) held(3) by (simp add: blit_def buf_def)
    then have "poly1305_last_block st =
        poly1305_blocks (st\<lparr>p_buffer := buf, p_final := 1\<rparr>) buf"
      using False by (simp add: poly1305_last_block_def msg(4) Let_def)
    also have "\<dots> = st\<lparr>p_buffer := buf, p_final := 1, p_h := poly1305_block (p_r st) 0 buf (p_h st)\<rparr>"
      using len by (subst poly1305_blocks.simps, subst poly1305_blocks.simps) simp
    finally have run: "poly1305_last_block st =
        st\<lparr>p_buffer := buf, p_final := 1, p_h := poly1305_block (p_r st) 0 buf (p_h st)\<rparr>" .
    have r: "limbs_below (2 ^ 26) (p_r st)" "limbs_val (p_r st) = R"
      using held(1) by (simp_all add: poly_key_def)
    note b = poly1305_block_val [OF held(4) r(1) len, of 0]
    have "le_num buf = le_num rest + 2 ^ (8 * length rest)" by (simp add: buf_def le_num_append)
    then have "limbs_val (poly1305_block (p_r st) 0 buf (p_h st)) mod P1305 =
        poly_step R (limbs_val (p_h st)) rest"
      using b(2) by (simp add: r(2) poly_step_def add.assoc)
    also have "\<dots> = poly_step R (poly_acc R full) rest"
      by (subst poly_step_mod [symmetric]) (simp only: msg(6))
    also have "\<dots> = poly_acc R msg"
      using msg(1,2,3) False by (simp add: poly_acc_append_block)
    finally show ?thesis using b(1) by (simp add: run)
  qed
  then show "h_ok (p_h (poly1305_last_block st))"
    and "limbs_val (p_h (poly1305_last_block st)) mod P1305 = poly_acc R msg"
    and "p_pad (poly1305_last_block st) = p_pad st" by blast+
qed

lemma full_carry_val:
  assumes "h_ok h"
  shows "limbs_below (2 ^ 26) (full_carry h)" "limbs_val (full_carry h) mod P1305 = limbs_val h mod P1305"
proof -
  obtain h0 h1 h2 h3 h4 where h: "h = (h0, h1, h2, h3, h4)" by (cases h)
  have b: "unat h0 < 67108864" "unat h1 < 67108928" "unat h2 < 67108864" "unat h3 < 67108864"
    "unat h4 < 67108864"
    using assms by (simp_all add: h h_ok_def)
  obtain q1 m1 where 1: "unat h1 div 2 ^ 26 = q1" "unat h1 mod 2 ^ 26 = m1"
    "unat h1 = 67108864 * q1 + m1" "m1 < 67108864" by (rule div_mod_26)
  define x2 where "x2 = h2 + drop_bit 26 h1"
  have x2: "unat x2 = unat h2 + q1"
    unfolding x2_def using b 1 by (subst unat_add_u32) (simp_all add: unat_carry26')
  obtain q2 m2 where 2: "unat x2 div 2 ^ 26 = q2" "unat x2 mod 2 ^ 26 = m2"
    "unat x2 = 67108864 * q2 + m2" "m2 < 67108864" by (rule div_mod_26)
  define x3 where "x3 = h3 + drop_bit 26 x2"
  have x3: "unat x3 = unat h3 + q2"
    unfolding x3_def using b 1 2 x2 by (subst unat_add_u32) (simp_all add: unat_carry26')
  obtain q3 m3 where 3: "unat x3 div 2 ^ 26 = q3" "unat x3 mod 2 ^ 26 = m3"
    "unat x3 = 67108864 * q3 + m3" "m3 < 67108864" by (rule div_mod_26)
  define x4 where "x4 = h4 + drop_bit 26 x3"
  have x4: "unat x4 = unat h4 + q3"
    unfolding x4_def using b 1 2 3 x2 x3 by (subst unat_add_u32) (simp_all add: unat_carry26')
  obtain q4 m4 where 4: "unat x4 div 2 ^ 26 = q4" "unat x4 mod 2 ^ 26 = m4"
    "unat x4 = 67108864 * q4 + m4" "m4 < 67108864" by (rule div_mod_26)
  have q: "q1 \<le> 1" "q2 \<le> 1" "q3 \<le> 1" "q4 \<le> 1"
    using b 1(3) 2(3) 3(3) 4(3) x2 x3 x4 by linarith+
  define x0 where "x0 = h0 + drop_bit 26 x4 * 5"
  have "unat (drop_bit 26 x4 * 5) = 5 * q4"
    using q(4) 4(1) by (simp add: unat_word_ariths unat_carry26')
  then have x0: "unat x0 = unat h0 + 5 * q4"
    unfolding x0_def using b(1) q(4) by (subst unat_add_u32) simp_all
  obtain q0 m0 where 0: "unat x0 div 2 ^ 26 = q0" "unat x0 mod 2 ^ 26 = m0"
    "unat x0 = 67108864 * q0 + m0" "m0 < 67108864" by (rule div_mod_26)
  text \<open>A carry out of the lowest limb needs one out of every other, which leaves \<open>h1\<close> small.\<close>
  have "m1 + q0 < 67108864"
  proof (cases "q0 = 0")
    case False
    then have "q4 = 1" using 0(3) x0 b(1) q(4) by linarith
    then have "q3 = 1" using 4(3) x4 b(5) q(3) by linarith
    then have "q2 = 1" using 3(3) x3 b(4) q(2) by linarith
    then have "q1 = 1" using 2(3) x2 b(3) q(1) by linarith
    then show ?thesis using 1(3) b(2) 0(3) x0 b(1) q(4) by linarith
  qed (use 1 in simp)
  moreover have "unat ((h1 AND 0x3ffffff) + drop_bit 26 x0) = m1 + q0"
    using 1 0 calculation by (subst unat_add_u32) (simp_all add: unat_low26' unat_carry26')
  moreover have "full_carry h = (x0 AND 0x3ffffff, (h1 AND 0x3ffffff) + drop_bit 26 x0,
      x2 AND 0x3ffffff, x3 AND 0x3ffffff, x4 AND 0x3ffffff)"
    unfolding h full_carry_def prod.case Let_def x0_def x4_def x3_def x2_def by (rule refl)
  moreover have "unat (x0 AND 0x3ffffff) = m0" "unat (x2 AND 0x3ffffff) = m2"
    "unat (x3 AND 0x3ffffff) = m3" "unat (x4 AND 0x3ffffff) = m4"
    by (simp_all only: unat_low26' 0(2) 2(2) 3(2) 4(2))
  ultimately have run: "limbs_below (2 ^ 26) (full_carry h)"
    "limbs_val (full_carry h) = m0 + 67108864 * (m1 + q0) + 2 ^ 52 * m2 + 2 ^ 78 * m3 + 2 ^ 104 * m4"
    using 0(4) 2(4) 3(4) 4(4) by (simp_all add: limbs_below_def limbs_val_def)
  show "limbs_below (2 ^ 26) (full_carry h)" by (rule run(1))
  have "limbs_val h = limbs_val (full_carry h) + P1305 * q4"
    unfolding run(2) unfolding limbs_val_def P1305_def h prod.case
    using 0(3) 1(3) 2(3) 3(3) 4(3) x0 x2 x3 x4 by simp
  then show "limbs_val (full_carry h) mod P1305 = limbs_val h mod P1305" by simp
qed

lemma select_val:
  assumes "limbs_below (2 ^ 26) h"
  shows "limbs_below (2 ^ 26) (select_limbs h (minus_p h))"
    "limbs_val (select_limbs h (minus_p h)) = limbs_val h mod P1305"
proof -
  obtain h0 h1 h2 h3 h4 where h: "h = (h0, h1, h2, h3, h4)" by (cases h)
  have b: "unat h0 < 67108864" "unat h1 < 67108864" "unat h2 < 67108864" "unat h3 < 67108864"
    "unat h4 < 67108864"
    using assms by (simp_all add: h limbs_below_def)
  have x0: "unat (h0 + 5) = unat h0 + 5" using b by (subst unat_add_u32) simp_all
  obtain q0 m0 where 0: "unat (h0 + 5) div 2 ^ 26 = q0" "unat (h0 + 5) mod 2 ^ 26 = m0"
    "unat (h0 + 5) = 67108864 * q0 + m0" "m0 < 67108864" by (rule div_mod_26)
  define x1 where "x1 = h1 + drop_bit 26 (h0 + 5)"
  have x1: "unat x1 = unat h1 + q0"
    unfolding x1_def using b 0 x0 by (subst unat_add_u32) (simp_all add: unat_carry26')
  obtain q1 m1 where 1: "unat x1 div 2 ^ 26 = q1" "unat x1 mod 2 ^ 26 = m1"
    "unat x1 = 67108864 * q1 + m1" "m1 < 67108864" by (rule div_mod_26)
  define x2 where "x2 = h2 + drop_bit 26 x1"
  have x2: "unat x2 = unat h2 + q1"
    unfolding x2_def using b 0 1 x0 x1 by (subst unat_add_u32) (simp_all add: unat_carry26')
  obtain q2 m2 where 2: "unat x2 div 2 ^ 26 = q2" "unat x2 mod 2 ^ 26 = m2"
    "unat x2 = 67108864 * q2 + m2" "m2 < 67108864" by (rule div_mod_26)
  define x3 where "x3 = h3 + drop_bit 26 x2"
  have x3: "unat x3 = unat h3 + q2"
    unfolding x3_def using b 0 1 2 x0 x1 x2 by (subst unat_add_u32) (simp_all add: unat_carry26')
  obtain q3 m3 where 3: "unat x3 div 2 ^ 26 = q3" "unat x3 mod 2 ^ 26 = m3"
    "unat x3 = 67108864 * q3 + m3" "m3 < 67108864" by (rule div_mod_26)
  have q: "q0 \<le> 1" "q1 \<le> 1" "q2 \<le> 1" "q3 \<le> 1" using b x0 x1 x2 x3 0(3) 1(3) 2(3) 3(3) by linarith+
  define x4 where "x4 = h4 + drop_bit 26 x3"
  have x4: "unat x4 = unat h4 + q3"
    unfolding x4_def using b q 3 by (subst unat_add_u32) (simp_all add: unat_carry26')
  have g: "minus_p h = (h0 + 5 AND 0x3ffffff, x1 AND 0x3ffffff, x2 AND 0x3ffffff, x3 AND 0x3ffffff,
      x4 - push_bit 26 1)"
    unfolding h minus_p_def prod.case Let_def x4_def x3_def x2_def x1_def by (rule refl)
  have m: "unat (h0 + 5 AND 0x3ffffff) = m0" "unat (x1 AND 0x3ffffff) = m1"
    "unat (x2 AND 0x3ffffff) = m2" "unat (x3 AND 0x3ffffff) = m3"
    by (simp_all only: unat_low26' 0(2) 1(2) 2(2) 3(2))
  have total: "limbs_val h + 5 = m0 + 67108864 * m1 + 4503599627370496 * m2 +
      302231454903657293676544 * m3 + 20282409603651670423947251286016 * unat x4"
    unfolding limbs_val_def h prod.case
    using 0(3) 1(3) 2(3) 3(3) x0 x1 x2 x3 x4 by simp
  have top: "unat (push_bit 26 1 :: u32) = 67108864" by simp
  have V: "limbs_val h < 2 ^ 130"
    unfolding limbs_val_def h prod.case using b by simp
  have "limbs_below (2 ^ 26) (select_limbs h (minus_p h)) \<and>
      limbs_val (select_limbs h (minus_p h)) = limbs_val h mod P1305"
  proof (cases "unat x4 < 67108864")
    case True
    have "unat (x4 - push_bit 26 1) = unat x4 + 4294967296 - 67108864"
      using True by (simp add: unat_sub_if_size word_size top)
    moreover have "(unat x4 + 4294967296 - 67108864) div 2147483648 = 1"
      using True by (intro div_nat_eqI) simp_all
    ultimately have "unat (drop_bit 31 (x4 - push_bit 26 1)) = 1"
      by (simp add: drop_bit_eq_div unat_div)
    then have "drop_bit 31 (x4 - push_bit 26 1) = 1" by (simp add: word_unat_eq_iff)
    then have "select_limbs h (minus_p h) = h"
      unfolding g unfolding h select_limbs_def prod.case Let_def by simp
    moreover have "limbs_val h < P1305"
      using total True 0(4) 1(4) 2(4) 3(4) by (simp add: P1305_def)
    ultimately show ?thesis using assms by simp
  next
    case False
    then have "unat x4 = 67108864" using x4 b(5) q(4) by linarith
    then have x4': "x4 = push_bit 26 1" by (simp add: word_unat_eq_iff)
    have "select_limbs h (minus_p h) =
        (h0 + 5 AND 0x3ffffff, x1 AND 0x3ffffff, x2 AND 0x3ffffff, x3 AND 0x3ffffff, 0)"
      unfolding g unfolding h select_limbs_def prod.case Let_def x4' by simp
    moreover let ?S = "limbs_val (h0 + 5 AND 0x3ffffff, x1 AND 0x3ffffff, x2 AND 0x3ffffff,
        x3 AND 0x3ffffff, 0)"
    have sum: "limbs_val h = ?S + P1305"
      unfolding limbs_val_tuple m
      using total \<open>unat x4 = 67108864\<close> by (simp add: P1305_def)
    moreover have "?S < P1305" using V unfolding sum by (simp add: P1305_def)
    ultimately show ?thesis
      using 0(4) 1(4) 2(4) 3(4) by (simp add: limbs_below_def m)
  qed
  then show "limbs_below (2 ^ 26) (select_limbs h (minus_p h))"
    "limbs_val (select_limbs h (minus_p h)) = limbs_val h mod P1305" by blast+
qed

section \<open>The tag\<close>

definition words_val :: "u32 \<times> u32 \<times> u32 \<times> u32 \<Rightarrow> nat" where
  "words_val = (\<lambda>(w0, w1, w2, w3).
     unat w0 + 2 ^ 32 * unat w1 + 2 ^ 64 * unat w2 + 2 ^ 96 * unat w3)"

lemma bit_unat: "bit (unat (w :: u32)) k = bit w k"
  by (auto simp: bit_unsigned_iff dest: bit_imp_le_length)

lemma bit_limbs_val:
  assumes "limbs_below (2 ^ 26) (h0, h1, h2, h3, h4)"
  shows "bit (limbs_val (h0, h1, h2, h3, h4)) k =
    (if k < 26 then bit h0 k else if k < 52 then bit h1 (k - 26) else if k < 78 then bit h2 (k - 52)
     else if k < 104 then bit h3 (k - 78) else bit h4 (k - 104))"
proof -
  have b: "unat h0 < 2 ^ 26" "unat h1 < 2 ^ 26" "unat h2 < 2 ^ 26" "unat h3 < 2 ^ 26"
    using assms by (simp_all add: limbs_below_def)
  have "limbs_val (h0, h1, h2, h3, h4) =
      unat h0 + 2 ^ 26 * (unat h1 + 2 ^ 26 * (unat h2 + 2 ^ 26 * (unat h3 + 2 ^ 26 * unat h4)))"
    by (simp add: limbs_val_tuple algebra_simps)
  then have "bit (limbs_val (h0, h1, h2, h3, h4)) k =
    (if k < 26 then bit h0 k else if k - 26 < 26 then bit h1 (k - 26)
     else if k - 26 - 26 < 26 then bit h2 (k - 26 - 26)
     else if k - 26 - 26 - 26 < 26 then bit h3 (k - 26 - 26 - 26) else bit h4 (k - 26 - 26 - 26 - 26))"
    by (simp only: bit_add_push [OF b(1)] bit_add_push [OF b(2)] bit_add_push [OF b(3)]
        bit_add_push [OF b(4)] bit_unat)
  then show ?thesis by (auto simp: diff_diff_left)
qed

lemma limb_bits:
  assumes "unat (w :: u32) < 2 ^ 26" "26 \<le> k"
  shows "\<not> bit w k"
  using bit_below [OF assms] by (auto simp: bit_unsigned_iff dest: bit_imp_le_length)

lemma pack_word:
  assumes "limbs_below (2 ^ 26) h"
  shows "pack_words h = (word_of_nat (limbs_val h), word_of_nat (drop_bit 32 (limbs_val h)),
    word_of_nat (drop_bit 64 (limbs_val h)), word_of_nat (drop_bit 96 (limbs_val h)))"
proof -
  obtain h0 h1 h2 h3 h4 where h: "h = (h0, h1, h2, h3, h4)" by (cases h)
  have ones: "(0xffffffff :: u32) = - 1" by simp
  have off: "\<not> bit h0 k" "\<not> bit h1 k" "\<not> bit h2 k" "\<not> bit h3 k" if "26 \<le> k" for k
    using assms limb_bits [of h0 k] limb_bits [of h1 k] limb_bits [of h2 k] limb_bits [of h3 k] that
    by (simp_all add: h limbs_below_def)
  note bits = bit_limbs_val [OF assms [unfolded h]]
  have "h0 OR push_bit 26 h1 = word_of_nat (limbs_val h)"
    by (rule bit_word_eqI) (auto simp: h bits bit_simps off)
  moreover have "drop_bit 6 h1 OR push_bit 20 h2 = word_of_nat (drop_bit 32 (limbs_val h))"
    by (rule bit_word_eqI) (auto simp: h bits bit_simps off)
  moreover have "drop_bit 12 h2 OR push_bit 14 h3 = word_of_nat (drop_bit 64 (limbs_val h))"
    by (rule bit_word_eqI) (auto simp: h bits bit_simps off)
  moreover have "drop_bit 18 h3 OR push_bit 8 h4 = word_of_nat (drop_bit 96 (limbs_val h))"
    by (rule bit_word_eqI) (auto simp: h bits bit_simps off)
  ultimately show ?thesis
    unfolding pack_words_def ones by (simp only: h prod.case and.right_neutral)
qed

lemma split_words:
  "take_bit 32 (V::nat) + 2 ^ 32 * take_bit 32 (drop_bit 32 V) + 2 ^ 64 * take_bit 32 (drop_bit 64 V) +
   2 ^ 96 * take_bit 32 (drop_bit 96 V) = V mod 2 ^ 128"
proof -
  have cut: "x = take_bit 32 x + 2 ^ 32 * drop_bit 32 x" for x :: nat
    by (simp add: take_bit_eq_mod drop_bit_eq_div)
  let ?s = "take_bit 32 V + 2 ^ 32 * take_bit 32 (drop_bit 32 V) + 2 ^ 64 * take_bit 32 (drop_bit 64 V) +
    2 ^ 96 * take_bit 32 (drop_bit 96 V)"
  have "V = take_bit 32 V + 2 ^ 32 * drop_bit 32 V" by (rule cut)
  also have "drop_bit 32 V = take_bit 32 (drop_bit 32 V) + 2 ^ 32 * drop_bit 64 V"
    using cut [of "drop_bit 32 V"] by simp
  also have "drop_bit 64 V = take_bit 32 (drop_bit 64 V) + 2 ^ 32 * drop_bit 96 V"
    using cut [of "drop_bit 64 V"] by simp
  also have "drop_bit 96 V = take_bit 32 (drop_bit 96 V) + 2 ^ 32 * drop_bit 128 V"
    using cut [of "drop_bit 96 V"] by simp
  finally have "V = ?s + 2 ^ 128 * drop_bit 128 V" by (simp add: algebra_simps)
  moreover have small: "take_bit 32 x < 2 ^ 32" for x :: nat by (simp add: take_bit_eq_mod)
  have "?s < 2 ^ 128"
    using small [of V] small [of "drop_bit 32 V"] small [of "drop_bit 64 V"] small [of "drop_bit 96 V"]
    by simp
  ultimately show ?thesis by (metis mod_less mod_mult_self2)
qed

lemma pack_words_val: "limbs_below (2 ^ 26) h \<Longrightarrow> words_val (pack_words h) = limbs_val h mod 2 ^ 128"
  by (simp only: pack_word words_val_def prod.case unsigned_of_nat split_words [symmetric]) simp

lemma add_pad_val:
  "words_val (add_pad w pad) =
   (words_val w + words_val (pad ! 0, pad ! 1, pad ! 2, pad ! 3)) mod 2 ^ 128"
proof -
  obtain h0 h1 h2 h3 where w: "w = (h0, h1, h2, h3)" by (cases w)
  have lo: "unat (ucast f :: u32) = unat f mod 2 ^ 32" for f :: u64
    by (simp add: unsigned_ucast_eq take_bit_eq_mod)
  have hi: "unat (drop_bit 32 f) = unat f div 2 ^ 32" for f :: u64
    by (simp add: drop_bit_eq_div unat_div)
  have dm: "\<exists>q m. n div 2 ^ 32 = q \<and> n mod 2 ^ 32 = m \<and> n = 4294967296 * q + m \<and> m < 4294967296"
    for n :: nat by simp
  have less: "unat x < 4294967296" for x :: u32 by (rule unat_u32_less)
  define f0 :: u64 where "f0 = ucast h0 + ucast (pad ! 0)"
  have f0: "unat f0 = unat h0 + unat (pad ! 0)"
    unfolding f0_def using less [of h0] less [of "pad ! 0"] by (subst unat_add_u64) (simp_all del: unat_u32_less)
  obtain q0 m0 where 0: "unat f0 div 2 ^ 32 = q0" "unat f0 mod 2 ^ 32 = m0"
    "unat f0 = 4294967296 * q0 + m0" "m0 < 4294967296" using dm [of "unat f0"] by blast
  have q0: "q0 \<le> 1" using 0(3) f0 less [of h0] less [of "pad ! 0"] by linarith
  define f1 where "f1 = ucast h1 + ucast (pad ! 1) + drop_bit 32 f0"
  have f1: "unat f1 = unat h1 + unat (pad ! 1) + q0"
    unfolding f1_def using less [of h1] less [of "pad ! 1"] q0 0(1)
    by (simp add: unat_add_u64 hi del: unat_u32_less)
  obtain q1 m1 where 1: "unat f1 div 2 ^ 32 = q1" "unat f1 mod 2 ^ 32 = m1"
    "unat f1 = 4294967296 * q1 + m1" "m1 < 4294967296" using dm [of "unat f1"] by blast
  have q1: "q1 \<le> 1" using 1(3) f1 q0 less [of h1] less [of "pad ! 1"] by linarith
  define f2 where "f2 = ucast h2 + ucast (pad ! 2) + drop_bit 32 f1"
  have f2: "unat f2 = unat h2 + unat (pad ! 2) + q1"
    unfolding f2_def using less [of h2] less [of "pad ! 2"] q1 1(1)
    by (simp add: unat_add_u64 hi del: unat_u32_less)
  obtain q2 m2 where 2: "unat f2 div 2 ^ 32 = q2" "unat f2 mod 2 ^ 32 = m2"
    "unat f2 = 4294967296 * q2 + m2" "m2 < 4294967296" using dm [of "unat f2"] by blast
  have q2: "q2 \<le> 1" using 2(3) f2 q1 less [of h2] less [of "pad ! 2"] by linarith
  define f3 where "f3 = ucast h3 + ucast (pad ! 3) + drop_bit 32 f2"
  have f3: "unat f3 = unat h3 + unat (pad ! 3) + q2"
    unfolding f3_def using less [of h3] less [of "pad ! 3"] q2 2(1)
    by (simp add: unat_add_u64 hi del: unat_u32_less)
  obtain q3 m3 where 3: "unat f3 div 2 ^ 32 = q3" "unat f3 mod 2 ^ 32 = m3"
    "unat f3 = 4294967296 * q3 + m3" "m3 < 4294967296" using dm [of "unat f3"] by blast
  have "add_pad w pad = (ucast f0, ucast f1, ucast f2, ucast f3)"
    unfolding w add_pad_def prod.case Let_def f3_def f2_def f1_def f0_def by (rule refl)
  then have val: "words_val (add_pad w pad) = m0 + 2 ^ 32 * m1 + 2 ^ 64 * m2 + 2 ^ 96 * m3"
    by (simp only: words_val_def prod.case lo 0(2) 1(2) 2(2) 3(2))
  have "words_val w + words_val (pad ! 0, pad ! 1, pad ! 2, pad ! 3) =
      words_val (add_pad w pad) + 2 ^ 128 * q3"
    unfolding val unfolding words_val_def w prod.case
    using 0(3) 1(3) 2(3) 3(3) f0 f1 f2 f3 by simp
  moreover have "words_val (add_pad w pad) < 2 ^ 128"
    unfolding val using 0(4) 1(4) 2(4) 3(4) by simp
  ultimately show ?thesis by (metis mod_less mod_mult_self2)
qed

lemma word_bytes:
  "le_num [ucast (v AND 0xff), ucast (drop_bit 8 v AND 0xff), ucast (drop_bit 16 v AND 0xff),
     ucast (drop_bit 24 v AND 0xff)] = unat (v :: u32)"
proof -
  have ff: "(0xff :: u32) = mask 8" by (simp add: mask_eq_exp_minus_1)
  have byte: "unat (ucast (w AND 0xff :: u32) :: u8) = unat w mod 256" for w
    unfolding ff take_bit_eq_mask [symmetric]
    by (simp only: unsigned_ucast_eq unsigned_take_bit_eq) (simp add: take_bit_eq_mod)
  have shift: "unat (drop_bit k v) = unat v div 2 ^ k" for k
    by (subst unat_drop_bit_u32) (simp only: drop_bit_eq_div)
  define n where "n = unat v"
  have n: "n < 4294967296" by (simp add: n_def)
  have "n = n mod 256 + 256 * (n div 256)" by simp
  also have "n div 256 = n div 256 mod 256 + 256 * (n div 65536)"
    using mod_mult_div_eq [of "n div 256" 256] by (simp add: div_mult2_eq [symmetric])
  also have "n div 65536 = n div 65536 mod 256 + 256 * (n div 16777216)"
    using mod_mult_div_eq [of "n div 65536" 256] by (simp add: div_mult2_eq [symmetric])
  finally have sum: "n = n mod 256 + 256 * (n div 256 mod 256 + 256 * (n div 65536 mod 256 +
      256 * (n div 16777216)))" .
  have top: "n div 16777216 mod 256 = n div 16777216" using n by (simp add: less_mult_imp_div_less)
  have "le_num [ucast (v AND 0xff), ucast (drop_bit 8 v AND 0xff), ucast (drop_bit 16 v AND 0xff),
     ucast (drop_bit 24 v AND 0xff)] = n mod 256 + 256 * (n div 256 mod 256 + 256 * (n div 65536 mod 256 +
      256 * (n div 16777216 mod 256)))"
    by (simp only: le_num.simps byte shift n_def [symmetric]) simp
  then show ?thesis unfolding top using sum by (simp only: n_def [symmetric])
qed

lemma mac_bytes: "length (poly1305_mac w) = 16" "le_num (poly1305_mac w) = words_val w"
proof -
  obtain w0 w1 w2 w3 where w: "w = (w0, w1, w2, w3)" by (cases w)
  let ?b = "\<lambda>v. [ucast (v AND 0xff), ucast (drop_bit 8 v AND 0xff), ucast (drop_bit 16 v AND 0xff),
     ucast (drop_bit 24 v AND 0xff)] :: bytes"
  have "replicate 16 (0::u8) = [0, 0, 0, 0, 0, 0, 0, 0, 0, 0, 0, 0, 0, 0, 0, 0]"
    by (simp add: numeral_eq_Suc)
  then have mac: "poly1305_mac w = ?b w0 @ ?b w1 @ ?b w2 @ ?b w3"
    by (simp add: poly1305_mac_def w poly1305_U32TO8_def)
  show "length (poly1305_mac w) = 16" unfolding mac by simp
  have "le_num (poly1305_mac w) = le_num (?b w0) + 2 ^ 32 * (le_num (?b w1) + 2 ^ 32 * (le_num (?b w2) +
      2 ^ 32 * le_num (?b w3)))"
    unfolding mac by (simp only: le_num_append) simp
  then show "le_num (poly1305_mac w) = words_val w"
    unfolding word_bytes w words_val_def prod.case by simp
qed

lemma init_held: "length (p_buffer st) = 16 \<Longrightarrow> 16 \<le> length key \<Longrightarrow>
   poly_held (poly1305_init st key) (clamp (le_num (take 16 key))) []"
  unfolding poly_held_def poly_key_def
  using init_r [of key st] by (simp add: poly1305_init_def h_ok_def limbs_val_tuple)

lemma init_pad:
  assumes "length key = 32"
  shows "words_val (p_pad (poly1305_init st key) ! 0, p_pad (poly1305_init st key) ! 1,
      p_pad (poly1305_init st key) ! 2, p_pad (poly1305_init st key) ! 3) =
    le_num (take 16 (drop 16 key))"
proof -
  have load: "unat (poly1305_U8TO32 (drop (16 + 4 * i) key)) =
      take_bit 32 (drop_bit (32 * i) (le_num (drop 16 key)))" if "i < 4" for i
    using that assms by (subst unat_load_at) (simp_all add: le_num_drop mult.commute add.commute)
  have "le_num (drop 16 key) < 2 ^ 128" using le_num_less [of "drop 16 key"] assms by simp
  then show ?thesis
    using load [of 0] load [of 1] load [of 2] load [of 3] split_words [of "le_num (drop 16 key)"] assms
    by (simp add: words_val_def poly1305_init_def)
qed

lemma finish_tag:
  assumes "poly_held st R msg"
  shows "snd (poly1305_finish st) = le_bytes 16 ((poly_acc R msg +
      words_val (p_pad st ! 0, p_pad st ! 1, p_pad st ! 2, p_pad st ! 3)) mod 2 ^ 128)"
proof (rule le_bytes_eqI)
  let ?st = "poly1305_last_block st"
  let ?h = "full_carry (p_h ?st)"
  let ?s = "select_limbs ?h (minus_p ?h)"
  note last = last_block_val [OF assms]
  note carry = full_carry_val [OF last(1)]
  note select = select_val [OF carry(1)]
  have acc: "limbs_val ?s = poly_acc R msg" using select(2) carry(2) last(2) by simp
  show "length (snd (poly1305_finish st)) = 16"
    by (simp add: poly1305_finish_def Let_def mac_bytes)
  show "le_num (snd (poly1305_finish st)) = (poly_acc R msg +
      words_val (p_pad st ! 0, p_pad st ! 1, p_pad st ! 2, p_pad st ! 3)) mod 2 ^ 128"
    by (simp add: poly1305_finish_def Let_def mac_bytes add_pad_val pack_words_val [OF select(1)] acc
        last(3) mod_add_left_eq)
qed

lemma poly_updates_held:
  "poly_held st R msg \<Longrightarrow>
   poly_held (fold (\<lambda>m st. poly1305_update st m) ms st) R (msg @ concat ms) \<and>
   p_pad (fold (\<lambda>m st. poly1305_update st m) ms st) = p_pad st"
proof (induction ms arbitrary: st msg)
  case (Cons m ms)
  from poly_update_held [OF Cons.prems, of m] Cons.IH [of "poly1305_update st m" "msg @ m"]
  show ?case by simp
qed simp

lemma poly1305_tag:
  assumes "length (p_buffer st) = 16" "length key = 32"
  shows "snd (poly1305_finish (fold (\<lambda>m st. poly1305_update st m) ms (poly1305_init st key))) =
         poly1305 key (concat ms)"
proof -
  have "16 \<le> length key" using assms(2) by simp
  from poly_updates_held [OF init_held [OF assms(1) this], of ms]
  show ?thesis
    using finish_tag [of "fold (\<lambda>m st. poly1305_update st m) ms (poly1305_init st key)"
        "clamp (le_num (take 16 key))" "concat ms"] init_pad [OF assms(2), of st]
    by (simp add: poly1305_def)
qed

text \<open>
  C14: the limb arithmetic computes Poly1305. For any context storage, any 32-byte key and
  any cutting of a message into pieces, initialising, feeding the pieces and finishing
  writes the tag of RFC 7539: the polynomial in the clamped key over the blocks, modulo
  \<open>2 ^ 130 - 5\<close>, plus the second half of the key, modulo \<open>2 ^ 128\<close>. No product, carry or
  subtraction of the 32-bit code overflows in a way that changes the result.
\<close>

theorem poly1305_computes_rfc7539:
  assumes "length (p_buffer st) = 16" "length key = 32"
  shows "snd (poly1305_finish (fold (\<lambda>m st. poly1305_update st m) pieces (poly1305_init st key))) =
         poly1305 key (concat pieces)"
  by (rule poly1305_tag [OF assms])

theorem poly1305_computes_rfc7539_witness:
  "snd (poly1305_finish (poly1305_update (poly1305_update (poly1305_init
     \<lparr>p_r = (0, 0, 0, 0, 0), p_h = (9, 9, 9, 9, 9), p_pad = [], p_leftover = 5,
      p_buffer = replicate 16 1, p_final = 1\<rparr> (replicate 32 255)) [1, 2]) [3])) =
   poly1305 (replicate 32 255) [1, 2, 3]"
  using poly1305_computes_rfc7539 [of "\<lparr>p_r = (0, 0, 0, 0, 0), p_h = (9, 9, 9, 9, 9), p_pad = [],
    p_leftover = 5, p_buffer = replicate 16 1, p_final = 1\<rparr>" "replicate 32 255" "[[1, 2], [3]]"]
  by simp

end
