(* ===== verification/Secure.thy ===== *)
theory Secure
  imports Prelude
begin

text \<open>
  Zeroing and comparing secrets: \<open>crypto_zero\<close> and \<open>crypto_equal\<close> of
  \<open>src/hal/network/wireguard/core/crypto/crypto.c\<close>, \<open>jh_secure_zeroize\<close> and
  \<open>jh_constant_time_compare\<close> of \<open>src/hal/security/jh_secure_random.cpp\<close>. The comparisons
  read every byte and accumulate the differences; the lemmas show that they decide
  equality.
\<close>

definition crypto_zero :: "bytes \<Rightarrow> nat \<Rightarrow> bytes" where
  "crypto_zero dest len = blit dest 0 (replicate len 0)"

definition crypto_equal :: "bytes \<Rightarrow> bytes \<Rightarrow> nat \<Rightarrow> bool" where
  "crypto_equal a b n =
     (let neq = fold (\<lambda>i neq. neq OR (a ! i XOR b ! i)) [0..<n] 0 in if neq \<noteq> 0 then False else True)"

definition jh_secure_zeroize :: "bytes option \<Rightarrow> nat \<Rightarrow> bytes option" where
  "jh_secure_zeroize buffer len = map_option (\<lambda>b. blit b 0 (replicate len 0)) buffer"

definition jh_constant_time_compare :: "bytes option \<Rightarrow> bytes option \<Rightarrow> nat \<Rightarrow> bool" where
  "jh_constant_time_compare left right len =
     (case (left, right) of
        (Some l, Some r) \<Rightarrow> fold (\<lambda>i difference. difference OR (l ! i XOR r ! i)) [0..<len] 0 = 0
      | _ \<Rightarrow> False)"

lemma or_eq_0: "(x OR y = 0) = (x = 0 \<and> y = (0 :: u8))"
  by (auto simp: bit_eq_iff bit_simps)

lemma xor_eq_0: "(x XOR y = 0) = (x = (y :: u8))"
  by (auto simp: bit_eq_iff bit_simps)

lemma difference_0:
  "(fold (\<lambda>i d. d OR (a ! i XOR b ! i)) is d0 = 0) = (d0 = (0 :: u8) \<and> (\<forall>i \<in> set is. a ! i = b ! i))"
  by (induction "is" arbitrary: d0) (auto simp: or_eq_0 xor_eq_0)

lemma take_eq_iff_nth:
  "n \<le> length a \<Longrightarrow> n \<le> length b \<Longrightarrow> (take n a = take n b) = (\<forall>i \<in> {0..<n}. a ! i = b ! i)"
  by (auto simp: list_eq_iff_nth_eq)

lemma crypto_equal_iff:
  "n \<le> length a \<Longrightarrow> n \<le> length b \<Longrightarrow> crypto_equal a b n = (take n a = take n b)"
  by (simp add: crypto_equal_def difference_0 take_eq_iff_nth)

lemma constant_time_compare_iff:
  "n \<le> length a \<Longrightarrow> n \<le> length b \<Longrightarrow>
   jh_constant_time_compare (Some a) (Some b) n = (take n a = take n b)"
  by (simp add: jh_constant_time_compare_def difference_0 take_eq_iff_nth)

end
