(* ===== verification/Aead.thy ===== *)
theory Aead
  imports Chacha20 Poly1305_Proof Secure
begin

text \<open>
  Authenticated encryption: \<open>src/hal/network/wireguard/core/crypto/chacha20poly1305.c\<close>
  (the WireGuard form with a 64-bit nonce, the detached IETF form, and the extended
  nonce form) and the checks of \<open>hal_chacha20_poly1305_encrypt\<close> and \<open>_decrypt\<close> of
  \<open>src/hal/security/hal_crypto.cpp\<close>. The specification is RFC 8439, over the Poly1305 of
  Poly1305_Proof.thy; the lemmas show that the code computes it and that decryption
  accepts exactly what encryption produces. The last part states this as the interface
  the session layer relies on, a locale interpreted on these functions.
\<close>

section \<open>Operations\<close>

text \<open>The Poly1305 context a function declares on its stack.\<close>

definition stack_poly1305 :: poly1305_state where
  "stack_poly1305 = \<lparr>p_r = (0, 0, 0, 0, 0), p_h = (0, 0, 0, 0, 0), p_pad = replicate 4 0,
                     p_leftover = 0, p_buffer = replicate 16 0, p_final = 0\<rparr>"

definition generate_poly1305_key :: "bytes \<Rightarrow> u64 \<Rightarrow> poly1305_state \<times> chacha20_ctx" where
  "generate_poly1305_key key nonce =
     (let (chacha20_state, block) = chacha20 (chacha20_init key nonce) (replicate 32 0)
      in (poly1305_init stack_poly1305 block, chacha20_state))"

definition generate_poly1305_key_ietf :: "bytes \<Rightarrow> bytes \<Rightarrow> poly1305_state \<times> chacha20_ctx" where
  "generate_poly1305_key_ietf key nonce =
     (let (chacha20_state, block) = chacha20 (chacha20_init_ietf key 0 nonce) (replicate 32 0)
      in (poly1305_init stack_poly1305 block, chacha20_state))"

definition poly1305_pad16 :: "poly1305_state \<Rightarrow> nat \<Rightarrow> poly1305_state" where
  "poly1305_pad16 st len =
     (let rem = len mod 16 in
      if rem \<noteq> 0 then poly1305_update st (take (16 - rem) (replicate 64 0)) else st)"

definition le64_block :: "nat \<Rightarrow> bytes" where
  "le64_block n = U64TO8_LITTLE (replicate 8 0) 0 (of_nat n)"

text \<open>The sequence of updates all four functions share.\<close>

definition aead_feed :: "poly1305_state \<Rightarrow> bytes \<Rightarrow> bytes \<Rightarrow> poly1305_state" where
  "aead_feed st ad ct =
     (let st = poly1305_update st ad;
          st = poly1305_pad16 st (length ad);
          st = poly1305_update st ct;
          st = poly1305_pad16 st (length ct);
          st = poly1305_update st (le64_block (length ad))
      in poly1305_update st (le64_block (length ct)))"

text \<open>The ciphertext followed by the tag.\<close>

definition chacha20poly1305_encrypt :: "bytes \<Rightarrow> bytes \<Rightarrow> u64 \<Rightarrow> bytes \<Rightarrow> bytes" where
  "chacha20poly1305_encrypt src ad nonce key =
     (let (poly1305_state, chacha20_state) = generate_poly1305_key key nonce;
          (_, dst) = chacha20 chacha20_state src
      in dst @ snd (poly1305_finish (aead_feed poly1305_state ad dst)))"

definition chacha20poly1305_decrypt :: "bytes \<Rightarrow> bytes \<Rightarrow> u64 \<Rightarrow> bytes \<Rightarrow> bytes option" where
  "chacha20poly1305_decrypt src ad nonce key =
     (if length src \<ge> 16 then
        let dst_len = length src - 16;
            (poly1305_state, chacha20_state) = generate_poly1305_key key nonce;
            (_, mac) = poly1305_finish (aead_feed poly1305_state ad (take dst_len src))
        in if crypto_equal mac (drop dst_len src) 16
           then Some (snd (chacha20 chacha20_state (take dst_len src))) else None
      else None)"

text \<open>
  The detached form guards its empty parts. \<open>None\<close> is the result \<open>false\<close>, which writes
  nothing.
\<close>

definition aead_feed_ietf :: "poly1305_state \<Rightarrow> bytes \<Rightarrow> nat \<Rightarrow> bytes \<Rightarrow> nat \<Rightarrow> poly1305_state" where
  "aead_feed_ietf st ad ad_len ct text_len =
     (let st = (if ad_len > 0 then poly1305_update st ad else st);
          st = poly1305_pad16 st ad_len;
          st = (if text_len > 0 then poly1305_update st ct else st);
          st = poly1305_pad16 st text_len;
          st = poly1305_update st (le64_block ad_len)
      in poly1305_update st (le64_block text_len))"

definition chacha20poly1305_encrypt_ietf_detached ::
  "out_ptr \<Rightarrow> out_ptr \<Rightarrow> bytes option \<Rightarrow> nat \<Rightarrow> bytes option \<Rightarrow> nat \<Rightarrow> bytes option \<Rightarrow> bytes option
   \<Rightarrow> (bytes \<times> bytes) option" where
  "chacha20poly1305_encrypt_ietf_detached ciphertext tag plaintext text_len ad ad_len nonce key =
     (if \<not> ciphertext \<and> text_len > 0 then None
      else if plaintext = None \<and> text_len > 0 then None
      else if ad = None \<and> ad_len > 0 then None
      else if \<not> tag \<or> nonce = None \<or> key = None then None
      else
        let (poly1305_state, chacha20_state) = generate_poly1305_key_ietf (the key) (the nonce);
            ct = (if text_len > 0 then snd (chacha20 chacha20_state (at_ptr plaintext text_len)) else []);
            st = aead_feed_ietf poly1305_state (at_ptr ad ad_len) ad_len ct text_len
        in Some (ct, snd (poly1305_finish st)))"

definition chacha20poly1305_decrypt_ietf_detached ::
  "out_ptr \<Rightarrow> bytes option \<Rightarrow> nat \<Rightarrow> bytes option \<Rightarrow> bytes option \<Rightarrow> nat \<Rightarrow> bytes option \<Rightarrow> bytes option
   \<Rightarrow> bytes option" where
  "chacha20poly1305_decrypt_ietf_detached plaintext ciphertext text_len tag ad ad_len nonce key =
     (if \<not> plaintext \<and> text_len > 0 then None
      else if ciphertext = None \<and> text_len > 0 then None
      else if ad = None \<and> ad_len > 0 then None
      else if tag = None \<or> nonce = None \<or> key = None then None
      else
        let (poly1305_state, chacha20_state) = generate_poly1305_key_ietf (the key) (the nonce);
            st = aead_feed_ietf poly1305_state (at_ptr ad ad_len) ad_len (at_ptr ciphertext text_len) text_len;
            mac = snd (poly1305_finish st)
        in if crypto_equal mac (the tag) 16
           then Some (if text_len > 0 then snd (chacha20 chacha20_state (at_ptr ciphertext text_len)) else [])
           else None)"

text \<open>The extended nonce: the first 16 bytes choose a subkey.\<close>

definition xchacha20poly1305_encrypt :: "bytes \<Rightarrow> bytes \<Rightarrow> bytes \<Rightarrow> bytes \<Rightarrow> bytes" where
  "xchacha20poly1305_encrypt src ad nonce key =
     (let new_nonce = U8TO64_LITTLE (drop 16 nonce); subkey = hchacha20 nonce key
      in chacha20poly1305_encrypt src ad new_nonce subkey)"

definition xchacha20poly1305_decrypt :: "bytes \<Rightarrow> bytes \<Rightarrow> bytes \<Rightarrow> bytes \<Rightarrow> bytes option" where
  "xchacha20poly1305_decrypt src ad nonce key =
     (let new_nonce = U8TO64_LITTLE (drop 16 nonce); subkey = hchacha20 nonce key
      in chacha20poly1305_decrypt src ad new_nonce subkey)"

definition chacha20_counter_will_overflow :: "u32 \<Rightarrow> nat \<Rightarrow> bool" where
  "chacha20_counter_will_overflow counter input_len \<longleftrightarrow>
     (let blocks_needed = (of_nat (input_len div 64) :: u64) + (if input_len mod 64 \<noteq> 0 then 1 else 0)
      in (ucast counter :: u64) + blocks_needed > 0x100000000)"

definition hal_chacha20_xor ::
  "bytes option \<Rightarrow> u32 \<Rightarrow> bytes option \<Rightarrow> bytes option \<Rightarrow> nat \<Rightarrow> out_ptr \<Rightarrow> bool \<times> bytes option" where
  "hal_chacha20_xor key counter nonce input input_len output =
     (if key = None \<or> nonce = None then (False, None)
      else if input_len = 0 then (True, None)
      else if input = None \<or> \<not> output then (False, None)
      else if chacha20_counter_will_overflow counter input_len then (False, None)
      else (True, Some (snd (chacha20 (chacha20_init_ietf (the key) counter (the nonce))
              (at_ptr input input_len)))))"

definition hal_chacha20_block ::
  "bytes option \<Rightarrow> u32 \<Rightarrow> bytes option \<Rightarrow> out_ptr \<Rightarrow> bytes option" where
  "hal_chacha20_block key counter nonce out_block =
     (if key = None \<or> nonce = None \<or> \<not> out_block then None
      else Some (snd (chacha20 (chacha20_init_ietf (the key) counter (the nonce)) (replicate 64 0))))"

definition hal_chacha20_poly1305_encrypt ::
  "bytes option \<Rightarrow> bytes option \<Rightarrow> bytes option \<Rightarrow> nat \<Rightarrow> bytes option \<Rightarrow> nat \<Rightarrow> out_ptr \<Rightarrow> out_ptr
   \<Rightarrow> (bytes \<times> bytes) option" where
  "hal_chacha20_poly1305_encrypt key nonce aad aad_len plaintext text_len ciphertext tag =
     (if key = None \<or> nonce = None \<or> \<not> tag then None
      else if aad_len > 0 \<and> aad = None then None
      else if text_len > 0 \<and> (plaintext = None \<or> \<not> ciphertext) then None
      else if chacha20_counter_will_overflow 1 text_len then None
      else chacha20poly1305_encrypt_ietf_detached ciphertext tag plaintext text_len aad aad_len nonce key)"

definition hal_chacha20_poly1305_decrypt ::
  "bytes option \<Rightarrow> bytes option \<Rightarrow> bytes option \<Rightarrow> nat \<Rightarrow> bytes option \<Rightarrow> nat \<Rightarrow> bytes option \<Rightarrow> out_ptr
   \<Rightarrow> bytes option" where
  "hal_chacha20_poly1305_decrypt key nonce aad aad_len ciphertext text_len tag plaintext =
     (if key = None \<or> nonce = None \<or> tag = None then None
      else if aad_len > 0 \<and> aad = None then None
      else if text_len > 0 \<and> (ciphertext = None \<or> \<not> plaintext) then None
      else if chacha20_counter_will_overflow 1 text_len then None
      else chacha20poly1305_decrypt_ietf_detached plaintext ciphertext text_len tag aad aad_len nonce key)"

section \<open>Specification\<close>

text \<open>RFC 8439, section 2.8, over the context with block counter zero.\<close>

definition pad16 :: "bytes \<Rightarrow> bytes" where
  "pad16 xs = xs @ replicate ((16 - length xs mod 16) mod 16) 0"

definition aead_text :: "bytes \<Rightarrow> bytes \<Rightarrow> bytes" where
  "aead_text ad ct = pad16 ad @ pad16 ct @ le_bytes 8 (length ad) @ le_bytes 8 (length ct)"

definition aead_tag :: "chacha20_ctx \<Rightarrow> bytes \<Rightarrow> bytes \<Rightarrow> bytes" where
  "aead_tag c0 ad ct = poly1305 (take 32 (chacha20_block c0)) (aead_text ad ct)"

definition aead_stream :: "chacha20_ctx \<Rightarrow> bytes \<Rightarrow> bytes" where
  "aead_stream c0 xs = snd (chacha20 (next_block c0) xs)"

lemma length_poly1305 [simp, wire_lengths]: "length (poly1305 key msg) = 16"
  by (simp add: poly1305_def)

lemma length_aead [simp, wire_lengths]:
  "length (aead_tag c0 ad ct) = 16" "length (aead_stream c0 xs) = length xs"
  by (simp_all add: aead_tag_def aead_stream_def)

lemma aead_stream_involution [simp]: "aead_stream c0 (aead_stream c0 xs) = xs"
  by (simp add: aead_stream_def)

lemma aead_stream_Nil [simp]: "aead_stream c0 [] = []"
  by (simp add: aead_stream_def chacha20_def)

lemma next_block_ietf: "next_block (chacha20_init_ietf key n nonce) = chacha20_init_ietf key (n + 1) nonce"
  by (simp add: next_block_def chacha20_init_ietf_def CHACHA20_CONSTANTS_def key_words_def upt_rec)

section \<open>The code computes it\<close>

definition mac_holds :: "poly1305_state \<Rightarrow> bytes \<Rightarrow> bytes \<Rightarrow> bool" where
  "mac_holds st key msg \<longleftrightarrow>
     poly_held st (clamp (le_num (take 16 key))) msg \<and>
     words_val (p_pad st ! 0, p_pad st ! 1, p_pad st ! 2, p_pad st ! 3) = le_num (take 16 (drop 16 key))"

lemma mac_holds_init: "length key = 32 \<Longrightarrow> mac_holds (poly1305_init stack_poly1305 key) key []"
  using init_held [of stack_poly1305 key] init_pad [of key stack_poly1305]
  by (simp add: mac_holds_def stack_poly1305_def)

lemma mac_holds_update: "mac_holds st key msg \<Longrightarrow> mac_holds (poly1305_update st m) key (msg @ m)"
  using poly_update_held [of st "clamp (le_num (take 16 key))" msg m] by (simp add: mac_holds_def)

lemma mac_holds_finish: "mac_holds st key msg \<Longrightarrow> snd (poly1305_finish st) = poly1305 key msg"
  using finish_tag [of st "clamp (le_num (take 16 key))" msg] by (simp add: mac_holds_def poly1305_def)

lemma mac_holds_pad16:
  assumes "mac_holds st key msg"
  shows "mac_holds (poly1305_pad16 st n) key (msg @ replicate ((16 - n mod 16) mod 16) 0)"
proof (cases "n mod 16 = 0")
  case True
  then show ?thesis using assms by (simp add: poly1305_pad16_def)
next
  case False
  then have "(16 - n mod 16) mod 16 = 16 - n mod 16" by simp
  then show ?thesis
    using mac_holds_update [OF assms, of "replicate (16 - n mod 16) 0"] False
    by (simp add: poly1305_pad16_def)
qed

lemma le64_block_bytes: "le64_block n = le_bytes 8 n"
proof -
  have "replicate 8 (0::u8) = [0, 0, 0, 0, 0, 0, 0, 0]" by (simp add: numeral_eq_Suc)
  moreover have "ucast (drop_bit k (of_nat n :: u64)) = (of_nat (drop_bit k n) :: u8)" if "k + 8 \<le> 64" for k
    using that by (intro bit_word_eqI) (auto simp: bit_simps)
  moreover have "ucast (of_nat n :: u64) = (of_nat n :: u8)"
    by (rule bit_word_eqI) (auto simp: bit_simps)
  ultimately show ?thesis
    by (simp add: le64_block_def U64TO8_LITTLE_def le_bytes_def upt_rec)
qed

lemma mac_holds_feed:
  assumes "mac_holds st key []"
  shows "mac_holds (aead_feed st ad ct) key (aead_text ad ct)"
proof -
  let ?st2 = "poly1305_pad16 (poly1305_update st ad) (length ad)"
  let ?st4 = "poly1305_pad16 (poly1305_update ?st2 ct) (length ct)"
  have "mac_holds ?st2 key (pad16 ad)"
    using mac_holds_pad16 [OF mac_holds_update [OF assms, of ad], of "length ad"] by (simp add: pad16_def)
  then have "mac_holds ?st4 key (pad16 ad @ pad16 ct)"
    using mac_holds_pad16 [OF mac_holds_update [of ?st2 key "pad16 ad" ct], of "length ct"]
    by (simp add: pad16_def)
  then have "mac_holds (poly1305_update (poly1305_update ?st4 (le64_block (length ad))) (le64_block (length ct)))
      key (((pad16 ad @ pad16 ct) @ le64_block (length ad)) @ le64_block (length ct))"
    by (intro mac_holds_update)
  then show ?thesis by (simp add: aead_feed_def Let_def aead_text_def le64_block_bytes)
qed

lemma poly1305_update_Nil: "mac_holds st key msg \<Longrightarrow> poly1305_update st [] = st"
  by (auto simp: mac_holds_def poly_held_def poly1305_update_def poly1305_absorb_def blit_def Let_def)

lemma feed_ietf:
  assumes "mac_holds st key []" "ad_len = length ad" "text_len = length ct"
  shows "aead_feed_ietf st ad ad_len ct text_len = aead_feed st ad ct"
proof -
  have ad: "(if ad_len > 0 then poly1305_update st ad else st) = poly1305_update st ad"
    using assms poly1305_update_Nil [OF assms(1)] by simp
  let ?st2 = "poly1305_pad16 (poly1305_update st ad) ad_len"
  have "mac_holds ?st2 key ((ad) @ replicate ((16 - ad_len mod 16) mod 16) 0)"
    using mac_holds_pad16 [OF mac_holds_update [OF assms(1), of ad], of ad_len] by simp
  then have "(if text_len > 0 then poly1305_update ?st2 ct else ?st2) = poly1305_update ?st2 ct"
    using assms(3) poly1305_update_Nil by simp
  then show ?thesis unfolding aead_feed_ietf_def aead_feed_def Let_def ad by (simp add: assms(2,3))
qed

lemma chacha20_first: "inp \<noteq> [] \<Longrightarrow> length inp \<le> 64 \<Longrightarrow>
  chacha20 c inp = (next_block c, map2 (XOR) inp (chacha20_block c))"
  by (simp add: chacha20_def chacha20_loop.simps Let_def)

lemma otk_value: "chacha20 c (replicate 32 0) = (next_block c, take 32 (chacha20_block c))"
  by (simp add: chacha20_first) (rule nth_equalityI, simp_all)

lemma key_state: "mac_holds (poly1305_init stack_poly1305 (take 32 (chacha20_block c)))
   (take 32 (chacha20_block c)) []"
  by (rule mac_holds_init) simp

lemma aead_mac: "snd (poly1305_finish (aead_feed (poly1305_init stack_poly1305 (take 32 (chacha20_block c))) ad ct)) =
   aead_tag c ad ct"
  using mac_holds_finish [OF mac_holds_feed [OF key_state]] by (simp add: aead_tag_def)

lemma encrypt_value:
  "chacha20poly1305_encrypt src ad nonce key =
   (let c0 = chacha20_init key nonce; ct = aead_stream c0 src in ct @ aead_tag c0 ad ct)"
  by (simp add: chacha20poly1305_encrypt_def generate_poly1305_key_def otk_value aead_mac
      aead_stream_def Let_def case_prod_unfold)

lemma decrypt_value:
  "chacha20poly1305_decrypt src ad nonce key =
   (let c0 = chacha20_init key nonce; n = length src - 16 in
    if 16 \<le> length src \<and> drop n src = aead_tag c0 ad (take n src)
    then Some (aead_stream c0 (take n src)) else None)"
  by (auto simp: chacha20poly1305_decrypt_def generate_poly1305_key_def otk_value aead_mac
      aead_stream_def Let_def case_prod_unfold crypto_equal_iff)

text \<open>Decryption accepts exactly the packets encryption makes.\<close>

lemma decrypt_iff_encrypt:
  "chacha20poly1305_decrypt src ad nonce key = Some pt \<longleftrightarrow>
   src = chacha20poly1305_encrypt pt ad nonce key"
proof -
  let ?c = "chacha20_init key nonce" and ?n = "length src - 16"
  have "src = take ?n src @ aead_tag ?c ad (take ?n src)"
    if "drop ?n src = aead_tag ?c ad (take ?n src)"
    unfolding that [symmetric] by simp
  then show ?thesis
    unfolding decrypt_value encrypt_value Let_def by auto
qed

section \<open>The public functions\<close>

lemma generate_ietf:
  "generate_poly1305_key_ietf key nonce =
   (poly1305_init stack_poly1305 (take 32 (chacha20_block (chacha20_init_ietf key 0 nonce))),
    next_block (chacha20_init_ietf key 0 nonce))"
  by (simp add: generate_poly1305_key_ietf_def otk_value)

lemma guarded_stream:
  "(if length xs > 0 then snd (chacha20 (next_block c) xs) else []) = aead_stream c xs"
  by (auto simp: aead_stream_def chacha20_def)

lemma ietf_mac:
  "snd (poly1305_finish (aead_feed_ietf (poly1305_init stack_poly1305 (take 32 (chacha20_block c)))
     ad (length ad) ct (length ct))) = aead_tag c ad ct"
  by (simp add: feed_ietf [OF key_state refl refl] aead_mac)

lemma ptr_all: "at_ptr (Some xs) (length xs) = xs"
  by simp

lemma ietf_encrypt_value:
  "chacha20poly1305_encrypt_ietf_detached True True (Some pt) (length pt) (Some ad) (length ad)
     (Some nonce) (Some key) =
   (let c0 = chacha20_init_ietf key 0 nonce; ct = aead_stream c0 pt in Some (ct, aead_tag c0 ad ct))"
  using ietf_mac [of "chacha20_init_ietf key 0 nonce" ad "aead_stream (chacha20_init_ietf key 0 nonce) pt"]
  unfolding chacha20poly1305_encrypt_ietf_detached_def option.sel generate_ietf Let_def prod.case
    ptr_all guarded_stream
  by simp

lemma ietf_decrypt_value:
  assumes "16 \<le> length tag"
  shows "chacha20poly1305_decrypt_ietf_detached True (Some ct) (length ct) (Some tag) (Some ad) (length ad)
     (Some nonce) (Some key) =
   (let c0 = chacha20_init_ietf key 0 nonce in
    if take 16 tag = aead_tag c0 ad ct then Some (aead_stream c0 ct) else None)"
  using assms
  unfolding chacha20poly1305_decrypt_ietf_detached_def option.sel generate_ietf Let_def prod.case
    ptr_all guarded_stream ietf_mac
  by (auto simp: crypto_equal_iff)

definition hal_encrypt :: "bytes \<Rightarrow> bytes \<Rightarrow> bytes \<Rightarrow> bytes \<Rightarrow> (bytes \<times> bytes) option" where
  "hal_encrypt key nonce ad pt =
     hal_chacha20_poly1305_encrypt (Some key) (Some nonce) (Some ad) (length ad) (Some pt) (length pt) True True"

definition hal_decrypt :: "bytes \<Rightarrow> bytes \<Rightarrow> bytes \<Rightarrow> bytes \<Rightarrow> bytes \<Rightarrow> bytes option" where
  "hal_decrypt key nonce ad ct tag =
     hal_chacha20_poly1305_decrypt (Some key) (Some nonce) (Some ad) (length ad) (Some ct) (length ct) (Some tag) True"

lemma hal_decrypt_iff:
  assumes "length tag = 16"
  shows "hal_decrypt key nonce ad ct tag = Some pt \<longleftrightarrow> hal_encrypt key nonce ad pt = Some (ct, tag)"
  using assms
  by (auto simp: hal_decrypt_def hal_encrypt_def hal_chacha20_poly1305_decrypt_def
      hal_chacha20_poly1305_encrypt_def ietf_decrypt_value ietf_encrypt_value Let_def split: if_splits)

lemma hal_aead_length: "hal_encrypt key nonce ad pt = Some (ct, tag) \<Longrightarrow> length ct = length pt"
  by (auto simp: hal_encrypt_def hal_chacha20_poly1305_encrypt_def ietf_encrypt_value Let_def
      split: if_splits)

text \<open>The block counter starts at one and has 32 bits.\<close>

lemma counter_fits: "n \<le> 64 * (2 ^ 32 - 1) \<Longrightarrow> \<not> chacha20_counter_will_overflow 1 n"
proof -
  assume n: "n \<le> 64 * (2 ^ 32 - 1)"
  define b where "b = n div 64 + (if n mod 64 \<noteq> 0 then 1 else 0)"
  obtain q r where "n div 64 = q" "n mod 64 = r" "n = 64 * q + r" by (metis mult_div_mod_eq)
  then have b: "b \<le> 2 ^ 32 - 1" using n by (auto simp: b_def)
  have "(of_nat (n div 64) :: u64) + (if n mod 64 \<noteq> 0 then 1 else 0) = of_nat b"
    by (simp add: b_def)
  moreover have "unat ((ucast (1 :: u32) :: u64) + of_nat b) = 1 + b"
    using b by (simp add: unat_word_ariths unsigned_of_nat take_bit_nat_eq_self)
  ultimately show ?thesis
    using b by (simp add: chacha20_counter_will_overflow_def Let_def word_less_nat_alt)
qed

lemma hal_encrypt_value:
  "length pt \<le> 64 * (2 ^ 32 - 1) \<Longrightarrow> hal_encrypt key nonce ad pt =
   (let c0 = chacha20_init_ietf key 0 nonce; ct = aead_stream c0 pt in Some (ct, aead_tag c0 ad ct))"
  by (simp add: hal_encrypt_def hal_chacha20_poly1305_encrypt_def ietf_encrypt_value counter_fits)

section \<open>The interface\<close>

text \<open>
  What a client of the authenticated cipher relies on: encryption of a short enough text
  succeeds and keeps its length, and decryption accepts a ciphertext and tag exactly
  when encryption makes them from the text it returns.
\<close>

locale aead =
  fixes enc :: "bytes \<Rightarrow> bytes \<Rightarrow> bytes \<Rightarrow> bytes \<Rightarrow> (bytes \<times> bytes) option"
    and dec :: "bytes \<Rightarrow> bytes \<Rightarrow> bytes \<Rightarrow> bytes \<Rightarrow> bytes \<Rightarrow> bytes option"
    and limit :: nat
  assumes enc_short: "length pt \<le> limit \<Longrightarrow>
      \<exists>ct tag. enc key nonce ad pt = Some (ct, tag) \<and> length ct = length pt \<and> length tag = 16"
    and dec_iff: "length tag = 16 \<Longrightarrow>
      dec key nonce ad ct tag = Some pt \<longleftrightarrow> enc key nonce ad pt = Some (ct, tag)"
begin

lemma dec_enc:
  "length pt \<le> limit \<Longrightarrow> enc key nonce ad pt = Some (ct, tag) \<Longrightarrow> dec key nonce ad ct tag = Some pt"
  using enc_short [of pt key nonce ad] dec_iff [of tag key nonce ad ct pt] by auto

text \<open>Under one key, nonce and header a ciphertext with its tag has one plaintext.\<close>

lemma enc_inj:
  "length pt \<le> limit \<Longrightarrow> length pt' \<le> limit \<Longrightarrow>
   enc key nonce ad pt = Some x \<Longrightarrow> enc key nonce ad pt' = Some x \<Longrightarrow> pt = pt'"
  by (metis dec_enc option.inject surj_pair)

end

interpretation hal_aead: aead hal_encrypt hal_decrypt "64 * (2 ^ 32 - 1)"
proof unfold_locales
  fix pt key nonce ad :: bytes
  assume "length pt \<le> 64 * (2 ^ 32 - 1)"
  then show "\<exists>ct tag. hal_encrypt key nonce ad pt = Some (ct, tag) \<and> length ct = length pt \<and> length tag = 16"
    by (simp add: hal_encrypt_value Let_def)
next
  fix key nonce ad ct tag pt :: bytes
  assume "length tag = 16"
  then show "hal_decrypt key nonce ad ct tag = Some pt \<longleftrightarrow> hal_encrypt key nonce ad pt = Some (ct, tag)"
    by (rule hal_decrypt_iff)
qed

section \<open>Properties\<close>

text \<open>
  C15: WireGuard's packet cipher is exact. Decryption returns a plaintext if and only if
  the packet is the one encryption makes from that plaintext under the same key, counter
  and associated data; so every encrypted packet decrypts to its plaintext, and a packet
  that differs from it in any byte of ciphertext or tag is rejected.
\<close>

theorem chacha20poly1305_decrypt_iff:
  "chacha20poly1305_decrypt src ad nonce key = Some pt \<longleftrightarrow>
   src = chacha20poly1305_encrypt pt ad nonce key"
  by (rule decrypt_iff_encrypt)

text \<open>
  The same for the extended-nonce form, which derives a subkey from the first 16
  nonce bytes.
\<close>

theorem xchacha20poly1305_decrypt_iff:
  "xchacha20poly1305_decrypt src ad nonce key = Some pt \<longleftrightarrow>
   src = xchacha20poly1305_encrypt pt ad nonce key"
  by (simp add: xchacha20poly1305_decrypt_def xchacha20poly1305_encrypt_def decrypt_iff_encrypt)

text \<open>
  C16: \<open>hal_chacha20_poly1305_encrypt\<close> computes RFC 8439: the ciphertext is the plaintext
  exclusive-or the key stream from block one, and the tag is Poly1305, under the first
  half of block zero, of the padded associated data, the padded ciphertext and their
  lengths. The hypothesis is the 32-bit block counter not wrapping.
\<close>

theorem hal_chacha20_poly1305_is_rfc8439:
  assumes "length pt \<le> 64 * (2 ^ 32 - 1)"
  shows "hal_chacha20_poly1305_encrypt (Some key) (Some nonce) (Some ad) (length ad) (Some pt) (length pt) True True =
    (let ct = snd (chacha20 (chacha20_init_ietf key 1 nonce) pt);
         otk = take 32 (chacha20_block (chacha20_init_ietf key 0 nonce));
         pad = (\<lambda>xs. replicate ((16 - length xs mod 16) mod 16) 0)
     in Some (ct, poly1305 otk (ad @ pad ad @ ct @ pad ct @ le_bytes 8 (length ad) @ le_bytes 8 (length ct))))"
  using hal_encrypt_value [OF assms]
  by (simp add: hal_encrypt_def Let_def aead_stream_def aead_tag_def aead_text_def pad16_def next_block_ietf)

theorem hal_chacha20_poly1305_is_rfc8439_witness:
  "fst (the (hal_chacha20_poly1305_encrypt (Some (replicate 32 1)) (Some (replicate 12 2)) (Some [3]) 1
     (Some [4]) 1 True True)) =
   snd (chacha20 (chacha20_init_ietf (replicate 32 1) 1 (replicate 12 2)) [4])"
  using hal_chacha20_poly1305_is_rfc8439 [of "[4]" "replicate 32 1" "replicate 12 2" "[3]"]
  by (simp add: Let_def)

end
