(* ===== verification/Ble_Session.thy ===== *)
theory Ble_Session
  imports Sha256 Aead
begin

text \<open>
  The authenticated session of the BLE stream profile,
  \<open>src/hal/bluetooth/jh_ble_stream_session.c\<close>: a handshake that proves knowledge of a
  per-device secret, keys derived from its transcript, and data frames sealed under
  consecutive counters. Proofs, keys and frames use the HMAC of Sha256.thy and the
  cipher of Aead.thy. The entropy source \<open>jh_secure_random_bytes\<close> is platform code: an
  argument that gives, for a requested length, the status and the bytes left in the
  buffer. A frame pointer with its length is one byte list, \<open>None\<close> for \<open>NULL\<close>.
\<close>

section \<open>Constants and state\<close>

definition HAL_BLE_STREAM_PROFILE_NAME :: bytes where
  "HAL_BLE_STREAM_PROFILE_NAME =
     [0x4A, 0x48, 0x20, 0x42, 0x4C, 0x45, 0x20, 0x53, 0x74, 0x72, 0x65, 0x61, 0x6D]"

definition HAL_BLE_STREAM_PROTOCOL_VERSION :: u8 where "HAL_BLE_STREAM_PROTOCOL_VERSION = 1"
definition HAL_BLE_STREAM_FRAME_HEADER_LEN :: nat where "HAL_BLE_STREAM_FRAME_HEADER_LEN = 4"
definition HAL_BLE_STREAM_SECRET_MIN_LEN :: nat where "HAL_BLE_STREAM_SECRET_MIN_LEN = 32"
definition HAL_BLE_STREAM_SECRET_MAX_LEN :: nat where "HAL_BLE_STREAM_SECRET_MAX_LEN = 64"
definition HAL_BLE_STREAM_NONCE_LEN :: nat where "HAL_BLE_STREAM_NONCE_LEN = 32"
definition HAL_BLE_STREAM_SESSION_ID_LEN :: nat where "HAL_BLE_STREAM_SESSION_ID_LEN = 8"
definition HAL_BLE_STREAM_PROOF_LEN :: nat where "HAL_BLE_STREAM_PROOF_LEN = 32"
definition HAL_BLE_STREAM_SESSION_KEY_LEN :: nat where "HAL_BLE_STREAM_SESSION_KEY_LEN = 32"
definition HAL_BLE_STREAM_AEAD_TAG_LEN :: nat where "HAL_BLE_STREAM_AEAD_TAG_LEN = 16"
definition HAL_BLE_STREAM_AEAD_COUNTER_LEN :: nat where "HAL_BLE_STREAM_AEAD_COUNTER_LEN = 8"
definition HAL_BLE_STREAM_MAX_PAYLOAD :: nat where "HAL_BLE_STREAM_MAX_PAYLOAD = 128"

definition HAL_BLE_STREAM_MAX_FRAME_BODY :: nat where
  "HAL_BLE_STREAM_MAX_FRAME_BODY =
     HAL_BLE_STREAM_AEAD_COUNTER_LEN + HAL_BLE_STREAM_MAX_PAYLOAD + HAL_BLE_STREAM_AEAD_TAG_LEN"

definition HAL_BLE_STREAM_MAX_FRAME_LEN :: nat where
  "HAL_BLE_STREAM_MAX_FRAME_LEN = HAL_BLE_STREAM_FRAME_HEADER_LEN + HAL_BLE_STREAM_MAX_FRAME_BODY"

lemmas ble_lengths = HAL_BLE_STREAM_FRAME_HEADER_LEN_def HAL_BLE_STREAM_SECRET_MIN_LEN_def
  HAL_BLE_STREAM_SECRET_MAX_LEN_def HAL_BLE_STREAM_NONCE_LEN_def HAL_BLE_STREAM_SESSION_ID_LEN_def
  HAL_BLE_STREAM_PROOF_LEN_def HAL_BLE_STREAM_SESSION_KEY_LEN_def HAL_BLE_STREAM_AEAD_TAG_LEN_def
  HAL_BLE_STREAM_AEAD_COUNTER_LEN_def HAL_BLE_STREAM_MAX_PAYLOAD_def
  HAL_BLE_STREAM_MAX_FRAME_BODY_def HAL_BLE_STREAM_MAX_FRAME_LEN_def

definition JH_BLE_STREAM_FRAME_HELLO :: u8 where "JH_BLE_STREAM_FRAME_HELLO = 0x01"
definition JH_BLE_STREAM_FRAME_HELLO_ACK :: u8 where "JH_BLE_STREAM_FRAME_HELLO_ACK = 0x02"
definition JH_BLE_STREAM_FRAME_AUTH :: u8 where "JH_BLE_STREAM_FRAME_AUTH = 0x03"
definition JH_BLE_STREAM_FRAME_AUTH_ACK :: u8 where "JH_BLE_STREAM_FRAME_AUTH_ACK = 0x04"
definition JH_BLE_STREAM_FRAME_DATA :: u8 where "JH_BLE_STREAM_FRAME_DATA = 0x05"
definition JH_BLE_STREAM_FRAME_CLOSE :: u8 where "JH_BLE_STREAM_FRAME_CLOSE = 0x06"

lemmas ble_types = JH_BLE_STREAM_FRAME_HELLO_def JH_BLE_STREAM_FRAME_HELLO_ACK_def
  JH_BLE_STREAM_FRAME_AUTH_def JH_BLE_STREAM_FRAME_AUTH_ACK_def JH_BLE_STREAM_FRAME_DATA_def
  JH_BLE_STREAM_FRAME_CLOSE_def

definition JH_BLE_STREAM_DIR_DEVICE_TO_CLIENT :: u8 where "JH_BLE_STREAM_DIR_DEVICE_TO_CLIENT = 0x01"
definition JH_BLE_STREAM_DIR_CLIENT_TO_DEVICE :: u8 where "JH_BLE_STREAM_DIR_CLIENT_TO_DEVICE = 0x02"

definition JH_BLE_STREAM_DOMAIN_DEVICE_PROOF :: u8 where "JH_BLE_STREAM_DOMAIN_DEVICE_PROOF = 0x01"
definition JH_BLE_STREAM_DOMAIN_CLIENT_PROOF :: u8 where "JH_BLE_STREAM_DOMAIN_CLIENT_PROOF = 0x02"
definition JH_BLE_STREAM_DOMAIN_KEY_D2C :: u8 where "JH_BLE_STREAM_DOMAIN_KEY_D2C = 0x03"
definition JH_BLE_STREAM_DOMAIN_KEY_C2D :: u8 where "JH_BLE_STREAM_DOMAIN_KEY_C2D = 0x04"

datatype ble_state = SESSION_IDLE | SESSION_HANDSHAKING | SESSION_AUTHENTICATED

datatype close_reason =
    CLOSE_CLIENT_REQUEST | CLOSE_DISCONNECTED | CLOSE_IDLE_TIMEOUT | CLOSE_GENERATION_CHANGED
  | CLOSE_PROTOCOL_ERROR | CLOSE_AUTH_FAILED | CLOSE_REPLAY_DETECTED | CLOSE_COUNTER_EXHAUSTED
  | CLOSE_LOCAL_REQUEST

record ble_session =
  bs_secret :: bytes
  bs_secret_length :: nat
  bs_local_capabilities :: u16
  bs_peer_capabilities :: u16
  bs_session_id :: bytes
  bs_client_nonce :: bytes
  bs_device_nonce :: bytes
  bs_key_d2c :: bytes
  bs_key_c2d :: bytes
  bs_tx_counter :: u64
  bs_rx_counter :: u64
  bs_state :: ble_state

record ble_result =
  br_response :: bytes
  br_response_length :: nat
  br_payload :: bytes
  br_payload_length :: nat
  br_close_session :: bool
  br_close_reason :: close_reason

text \<open>\<open>memset(out_result, 0, sizeof(*out_result))\<close>\<close>

definition empty_result :: ble_result where
  "empty_result =
     \<lparr>br_response = replicate HAL_BLE_STREAM_MAX_FRAME_LEN 0, br_response_length = 0,
      br_payload = replicate HAL_BLE_STREAM_MAX_PAYLOAD 0, br_payload_length = 0,
      br_close_session = False, br_close_reason = CLOSE_CLIENT_REQUEST\<rparr>"

section \<open>Transcript, nonce and header\<close>

definition bytes_are_all_zero :: "bytes \<Rightarrow> nat \<Rightarrow> bool" where
  "bytes_are_all_zero data len = (fold (\<lambda>i combined. combined OR data ! i) [0..<len] 0 = 0)"

definition build_transcript :: "ble_session \<Rightarrow> u8 \<Rightarrow> bytes" where
  "build_transcript s domain =
     [domain] @ HAL_BLE_STREAM_PROFILE_NAME @ [HAL_BLE_STREAM_PROTOCOL_VERSION] @
     jh_store_le16 (replicate 2 0) 0 (bs_local_capabilities s) @
     jh_store_le16 (replicate 2 0) 0 (bs_peer_capabilities s) @
     take HAL_BLE_STREAM_SESSION_ID_LEN (bs_session_id s) @
     take HAL_BLE_STREAM_NONCE_LEN (bs_client_nonce s) @
     take HAL_BLE_STREAM_NONCE_LEN (bs_device_nonce s)"

text \<open>\<open>None\<close> is the result \<open>false\<close>.\<close>

definition derive :: "ble_session \<Rightarrow> u8 \<Rightarrow> bytes option" where
  "derive s domain =
     (let transcript = build_transcript s domain in
      case hal_hmac_sha256 (Some (bs_secret s)) (bs_secret_length s) (Some transcript)
             (length transcript) True of
        Some (True, Some out) \<Rightarrow> Some out
      | _ \<Rightarrow> None)"

definition build_nonce :: "u8 \<Rightarrow> u64 \<Rightarrow> bytes" where
  "build_nonce direction counter =
     jh_store_le64 (direction # HAL_BLE_STREAM_PROTOCOL_VERSION # replicate 10 0) 4 counter"

definition build_aad :: "u8 \<Rightarrow> u8 \<Rightarrow> u8 \<Rightarrow> u64 \<Rightarrow> bytes" where
  "build_aad frame_type flags direction counter =
     jh_store_le64 (HAL_BLE_STREAM_PROTOCOL_VERSION # frame_type # direction # flags # replicate 8 0)
       4 counter"

definition write_header :: "u8 \<Rightarrow> u8 \<Rightarrow> nat \<Rightarrow> bytes" where
  "write_header frame_type flags body_length =
     [HAL_BLE_STREAM_PROTOCOL_VERSION, frame_type, flags, of_nat body_length]"

definition close_with :: "ble_result \<Rightarrow> close_reason \<Rightarrow> ble_result" where
  "close_with result reason = result\<lparr>br_close_session := True, br_close_reason := reason\<rparr>"

text \<open>A response written from the start of the buffer.\<close>

definition respond :: "ble_result \<Rightarrow> bytes \<Rightarrow> ble_result" where
  "respond result frame =
     result\<lparr>br_response := blit (br_response result) 0 frame, br_response_length := length frame\<rparr>"

section \<open>Operations\<close>

definition jh_ble_stream_session_reset :: "ble_session \<Rightarrow> ble_session" where
  "jh_ble_stream_session_reset s =
     s\<lparr>bs_session_id := replicate HAL_BLE_STREAM_SESSION_ID_LEN 0,
       bs_client_nonce := replicate HAL_BLE_STREAM_NONCE_LEN 0,
       bs_device_nonce := replicate HAL_BLE_STREAM_NONCE_LEN 0,
       bs_key_d2c := replicate HAL_BLE_STREAM_SESSION_KEY_LEN 0,
       bs_key_c2d := replicate HAL_BLE_STREAM_SESSION_KEY_LEN 0,
       bs_peer_capabilities := 0, bs_tx_counter := 0, bs_rx_counter := 0, bs_state := SESSION_IDLE\<rparr>"

definition jh_ble_stream_session_clear :: "ble_session \<Rightarrow> ble_session" where
  "jh_ble_stream_session_clear s =
     (jh_ble_stream_session_reset s)
       \<lparr>bs_secret := replicate HAL_BLE_STREAM_SECRET_MAX_LEN 0, bs_secret_length := 0,
        bs_local_capabilities := 0\<rparr>"

definition jh_ble_stream_session_set_secret ::
  "ble_session \<Rightarrow> bytes option \<Rightarrow> nat \<Rightarrow> ble_session \<times> hal_status" where
  "jh_ble_stream_session_set_secret s secret len =
     (if secret = None \<or> len < HAL_BLE_STREAM_SECRET_MIN_LEN \<or> len > HAL_BLE_STREAM_SECRET_MAX_LEN
      then (s, HAL_EINVAL)
      else ((jh_ble_stream_session_reset s)
              \<lparr>bs_secret := blit (replicate HAL_BLE_STREAM_SECRET_MAX_LEN 0) 0 (at_ptr secret len),
               bs_secret_length := len\<rparr>, HAL_OK))"

definition handle_hello ::
  "(nat \<Rightarrow> hal_status \<times> bytes) \<Rightarrow> ble_session \<Rightarrow> bytes \<Rightarrow> ble_result \<Rightarrow>
   ble_session \<times> ble_result \<times> hal_status" where
  "handle_hello entropy s body result =
     (if length body \<noteq> 2 + HAL_BLE_STREAM_NONCE_LEN
      then (s, close_with result CLOSE_PROTOCOL_ERROR, HAL_EPROTO)
      else if bs_secret_length s = 0 then (s, close_with result CLOSE_AUTH_FAILED, HAL_EAUTH)
      else
        let s1 = (jh_ble_stream_session_reset s)
                   \<lparr>bs_peer_capabilities := jh_load_le16 body,
                    bs_client_nonce := subarr 2 HAL_BLE_STREAM_NONCE_LEN body\<rparr>;
            (st1, dn) = entropy HAL_BLE_STREAM_NONCE_LEN;
            (st2, sid) = entropy HAL_BLE_STREAM_SESSION_ID_LEN;
            s2 = s1\<lparr>bs_device_nonce := dn, bs_session_id := sid\<rparr> in
        if st1 \<noteq> HAL_OK \<or> bytes_are_all_zero dn HAL_BLE_STREAM_NONCE_LEN \<or>
           st2 \<noteq> HAL_OK \<or> bytes_are_all_zero sid HAL_BLE_STREAM_SESSION_ID_LEN
        then (jh_ble_stream_session_reset s2, close_with result CLOSE_PROTOCOL_ERROR, HAL_EINTERNAL)
        else case derive s2 JH_BLE_STREAM_DOMAIN_DEVICE_PROOF of
               None \<Rightarrow> (jh_ble_stream_session_reset s2, close_with result CLOSE_PROTOCOL_ERROR, HAL_EINTERNAL)
             | Some device_proof \<Rightarrow>
                 (s2\<lparr>bs_state := SESSION_HANDSHAKING\<rparr>,
                  respond result
                    (write_header JH_BLE_STREAM_FRAME_HELLO_ACK 0
                       (2 + HAL_BLE_STREAM_SESSION_ID_LEN + HAL_BLE_STREAM_NONCE_LEN + HAL_BLE_STREAM_PROOF_LEN) @
                     jh_store_le16 (replicate 2 0) 0 (bs_local_capabilities s2) @
                     take HAL_BLE_STREAM_SESSION_ID_LEN (bs_session_id s2) @
                     take HAL_BLE_STREAM_NONCE_LEN (bs_device_nonce s2) @
                     take HAL_BLE_STREAM_PROOF_LEN device_proof),
                  HAL_OK))"

definition handle_auth ::
  "ble_session \<Rightarrow> bytes \<Rightarrow> ble_result \<Rightarrow> ble_session \<times> ble_result \<times> hal_status" where
  "handle_auth s body result =
     (if bs_state s \<noteq> SESSION_HANDSHAKING
      then (s, close_with result CLOSE_PROTOCOL_ERROR, HAL_ESTATE)
      else if length body \<noteq> HAL_BLE_STREAM_PROOF_LEN
      then (s, close_with result CLOSE_PROTOCOL_ERROR, HAL_EPROTO)
      else case derive s JH_BLE_STREAM_DOMAIN_CLIENT_PROOF of
        None \<Rightarrow> (jh_ble_stream_session_reset s, close_with result CLOSE_PROTOCOL_ERROR, HAL_EINTERNAL)
      | Some expected \<Rightarrow>
          if \<not> jh_constant_time_compare (Some expected) (Some body) HAL_BLE_STREAM_PROOF_LEN
          then (s, close_with result CLOSE_AUTH_FAILED, HAL_EAUTH)
          else case derive s JH_BLE_STREAM_DOMAIN_KEY_D2C of
            None \<Rightarrow> (jh_ble_stream_session_reset s, close_with result CLOSE_PROTOCOL_ERROR, HAL_EINTERNAL)
          | Some d2c \<Rightarrow>
              let s1 = s\<lparr>bs_key_d2c := d2c\<rparr> in
              case derive s1 JH_BLE_STREAM_DOMAIN_KEY_C2D of
                None \<Rightarrow> (jh_ble_stream_session_reset s1, close_with result CLOSE_PROTOCOL_ERROR, HAL_EINTERNAL)
              | Some c2d \<Rightarrow>
                  (s1\<lparr>bs_key_c2d := c2d, bs_tx_counter := 0, bs_rx_counter := 0,
                      bs_state := SESSION_AUTHENTICATED\<rparr>,
                   respond result (write_header JH_BLE_STREAM_FRAME_AUTH_ACK 0 1 @ [0]), HAL_OK))"

definition handle_data ::
  "ble_session \<Rightarrow> u8 \<Rightarrow> bytes \<Rightarrow> ble_result \<Rightarrow> ble_session \<times> ble_result \<times> hal_status" where
  "handle_data s flags body result =
     (if bs_state s \<noteq> SESSION_AUTHENTICATED then (s, close_with result CLOSE_AUTH_FAILED, HAL_EAUTH)
      else
        let overhead = HAL_BLE_STREAM_AEAD_COUNTER_LEN + HAL_BLE_STREAM_AEAD_TAG_LEN in
        if length body \<le> overhead \<or> length body - overhead > HAL_BLE_STREAM_MAX_PAYLOAD
        then (s, close_with result CLOSE_PROTOCOL_ERROR, HAL_EPROTO)
        else
          let counter = jh_load_le64 body in
          if counter = - 1 \<or> bs_rx_counter s = - 1 - 1
          then (s, close_with result CLOSE_COUNTER_EXHAUSTED, HAL_EPROTO)
          else if counter \<noteq> bs_rx_counter s + 1
          then (s, close_with result CLOSE_REPLAY_DETECTED, HAL_EPROTO)
          else
            let text_length = length body - overhead;
                ciphertext = drop HAL_BLE_STREAM_AEAD_COUNTER_LEN body;
                tag = drop (HAL_BLE_STREAM_AEAD_COUNTER_LEN + text_length) body;
                nonce = build_nonce JH_BLE_STREAM_DIR_CLIENT_TO_DEVICE counter;
                aad = build_aad JH_BLE_STREAM_FRAME_DATA flags JH_BLE_STREAM_DIR_CLIENT_TO_DEVICE counter in
            case hal_chacha20_poly1305_decrypt (Some (bs_key_c2d s)) (Some nonce) (Some aad) (length aad)
                   (Some ciphertext) text_length (Some tag) True of
              None \<Rightarrow> (s, close_with (result\<lparr>br_payload := replicate HAL_BLE_STREAM_MAX_PAYLOAD 0\<rparr>)
                            CLOSE_AUTH_FAILED, HAL_EAUTH)
            | Some plaintext \<Rightarrow>
                (s\<lparr>bs_rx_counter := counter\<rparr>,
                 result\<lparr>br_payload := blit (br_payload result) 0 plaintext,
                        br_payload_length := text_length\<rparr>, HAL_OK))"

definition jh_ble_stream_session_handle_frame ::
  "(nat \<Rightarrow> hal_status \<times> bytes) \<Rightarrow> ble_session \<Rightarrow> bytes option \<Rightarrow>
   ble_session \<times> ble_result option \<times> hal_status" where
  "jh_ble_stream_session_handle_frame entropy s frame_ptr =
     (case frame_ptr of
        None \<Rightarrow> (s, None, HAL_EINVAL)
      | Some frame \<Rightarrow>
          let result = empty_result;
              out = (\<lambda>(s, r, st). (s, Some r, st)) in
          if length frame < HAL_BLE_STREAM_FRAME_HEADER_LEN \<or> length frame > HAL_BLE_STREAM_MAX_FRAME_LEN
          then (s, Some (close_with result CLOSE_PROTOCOL_ERROR), HAL_EPROTO)
          else if frame ! 0 \<noteq> HAL_BLE_STREAM_PROTOCOL_VERSION
          then (s, Some (close_with result CLOSE_PROTOCOL_ERROR), HAL_EPROTO)
          else if unat (frame ! 3) \<noteq> length frame - HAL_BLE_STREAM_FRAME_HEADER_LEN
          then (s, Some (close_with result CLOSE_PROTOCOL_ERROR), HAL_EPROTO)
          else
            let frame_type = frame ! 1; flags = frame ! 2;
                body = drop HAL_BLE_STREAM_FRAME_HEADER_LEN frame in
            if frame_type = JH_BLE_STREAM_FRAME_HELLO then out (handle_hello entropy s body result)
            else if frame_type = JH_BLE_STREAM_FRAME_AUTH then out (handle_auth s body result)
            else if frame_type = JH_BLE_STREAM_FRAME_DATA then out (handle_data s flags body result)
            else if frame_type = JH_BLE_STREAM_FRAME_CLOSE
            then (s, Some (close_with result CLOSE_CLIENT_REQUEST), HAL_OK)
            else (s, Some (close_with result CLOSE_PROTOCOL_ERROR), HAL_EPROTO))"

text \<open>
  The frame and its length, \<open>None\<close> when nothing is returned. The capacity is that of the
  output buffer; \<open>out_ok\<close> says that both output pointers are not \<open>NULL\<close>.
\<close>

definition jh_ble_stream_session_build_data ::
  "ble_session \<Rightarrow> bytes option \<Rightarrow> out_ptr \<Rightarrow> nat \<Rightarrow> ble_session \<times> bytes option \<times> hal_status" where
  "jh_ble_stream_session_build_data s payload_ptr out_ok capacity =
     (case payload_ptr of
        None \<Rightarrow> (s, None, HAL_EINVAL)
      | Some payload \<Rightarrow>
          if \<not> out_ok \<or> length payload = 0 \<or> length payload > HAL_BLE_STREAM_MAX_PAYLOAD
          then (s, None, HAL_EINVAL)
          else if bs_state s \<noteq> SESSION_AUTHENTICATED then (s, None, HAL_EAUTH)
          else
            let body_length = HAL_BLE_STREAM_AEAD_COUNTER_LEN + length payload + HAL_BLE_STREAM_AEAD_TAG_LEN in
            if capacity < HAL_BLE_STREAM_FRAME_HEADER_LEN + body_length then (s, None, HAL_EOVERFLOW)
            else if bs_tx_counter s \<ge> - 1 - 1 then (s, None, HAL_EOVERFLOW)
            else
              let counter = bs_tx_counter s + 1;
                  header = write_header JH_BLE_STREAM_FRAME_DATA 0 body_length;
                  nonce = build_nonce JH_BLE_STREAM_DIR_DEVICE_TO_CLIENT counter;
                  aad = build_aad JH_BLE_STREAM_FRAME_DATA 0 JH_BLE_STREAM_DIR_DEVICE_TO_CLIENT counter in
              case hal_chacha20_poly1305_encrypt (Some (bs_key_d2c s)) (Some nonce) (Some aad) (length aad)
                     (Some payload) (length payload) True True of
                None \<Rightarrow> (s, None, HAL_EINTERNAL)
              | Some (ct, tag) \<Rightarrow>
                  (s\<lparr>bs_tx_counter := counter\<rparr>,
                   Some (header @ jh_store_le64 (replicate 8 0) 0 counter @ ct @ tag), HAL_OK))"

section \<open>Values of the primitives\<close>

lemma length_transcript [simp]:
  "length (bs_session_id s) = 8 \<Longrightarrow> length (bs_client_nonce s) = 32 \<Longrightarrow> length (bs_device_nonce s) = 32 \<Longrightarrow>
   length (build_transcript s d) = 91"
  by (simp add: build_transcript_def HAL_BLE_STREAM_PROFILE_NAME_def ble_lengths)

lemma derive_value:
  "bs_secret_length s \<le> length (bs_secret s) \<Longrightarrow>
   derive s d = Some (hmac (take (bs_secret_length s) (bs_secret s)) (build_transcript s d))"
  using hal_hmac_sha256_ptr [of "bs_secret_length s" "bs_secret s"] by (simp add: derive_def Let_def)

lemma length_nonce_aad [simp, wire_lengths]:
  "length (build_nonce dir n) = 12" "length (build_aad t f dir n) = 12"
  by (simp_all add: build_nonce_def build_aad_def)

text \<open>The plain form of a data frame: counter, then ciphertext and tag.\<close>

definition seal :: "bytes \<Rightarrow> u8 \<Rightarrow> u8 \<Rightarrow> u64 \<Rightarrow> bytes \<Rightarrow> (bytes \<times> bytes) option" where
  "seal key dir flags counter pt =
     hal_encrypt key (build_nonce dir counter) (build_aad JH_BLE_STREAM_FRAME_DATA flags dir counter) pt"

definition open_sealed :: "bytes \<Rightarrow> u8 \<Rightarrow> u8 \<Rightarrow> u64 \<Rightarrow> bytes \<Rightarrow> bytes \<Rightarrow> bytes option" where
  "open_sealed key dir flags counter ct tag =
     hal_decrypt key (build_nonce dir counter) (build_aad JH_BLE_STREAM_FRAME_DATA flags dir counter) ct tag"

definition data_frame :: "u8 \<Rightarrow> u64 \<Rightarrow> bytes \<Rightarrow> bytes \<Rightarrow> bytes" where
  "data_frame flags counter ct tag =
     write_header JH_BLE_STREAM_FRAME_DATA flags (8 + length ct + length tag) @
     jh_store_le64 (replicate 8 0) 0 counter @ ct @ tag"

section \<open>Frames\<close>

definition mk_frame :: "u8 \<Rightarrow> u8 \<Rightarrow> bytes \<Rightarrow> bytes" where
  "mk_frame t flags body = write_header t flags (length body) @ body"

lemma data_frame_mk:
  "length tag = 16 \<Longrightarrow> data_frame flags counter ct tag =
   mk_frame JH_BLE_STREAM_FRAME_DATA flags (jh_store_le64 (replicate 8 0) 0 counter @ ct @ tag)"
  by (simp add: data_frame_def mk_frame_def)

definition frame_ok :: "bytes \<Rightarrow> bool" where
  "frame_ok f \<longleftrightarrow> 4 \<le> length f \<and> length f \<le> 156 \<and> f ! 0 = 1 \<and> unat (f ! 3) = length f - 4"

lemma frame_ok_mk: "length body \<le> 152 \<Longrightarrow> frame_ok (mk_frame t flags body)"
  by (simp add: frame_ok_def mk_frame_def write_header_def HAL_BLE_STREAM_PROTOCOL_VERSION_def
      unsigned_of_nat take_bit_nat_eq_self)

lemma mk_frame_fields [simp]:
  "mk_frame t flags body ! Suc 0 = t" "mk_frame t flags body ! 2 = flags" "drop 4 (mk_frame t flags body) = body"
  by (simp_all add: mk_frame_def write_header_def)

lemma frame_shape:
  assumes "frame_ok f"
  shows "f = mk_frame (f ! 1) (f ! 2) (drop 4 f)"
proof -
  obtain a b c d body where f: "f = a # b # c # d # body"
    using assms by (auto simp: frame_ok_def numeral_eq_Suc Suc_le_length_iff)
  have "of_nat (length body) = d" using assms by (auto simp: f frame_ok_def word_unat_eq_iff unsigned_of_nat take_bit_nat_eq_self)
  then show ?thesis
    using assms by (simp add: f mk_frame_def write_header_def frame_ok_def HAL_BLE_STREAM_PROTOCOL_VERSION_def)
qed

lemma handle_frame_ok:
  "frame_ok f \<Longrightarrow> jh_ble_stream_session_handle_frame e s (Some f) =
   (let out = (\<lambda>(s, r, st). (s, Some r, st)); body = drop 4 f in
    if f ! 1 = 0x01 then out (handle_hello e s body empty_result)
    else if f ! 1 = 0x03 then out (handle_auth s body empty_result)
    else if f ! 1 = 0x05 then out (handle_data s (f ! 2) body empty_result)
    else if f ! 1 = 0x06 then (s, Some (close_with empty_result CLOSE_CLIENT_REQUEST), HAL_OK)
    else (s, Some (close_with empty_result CLOSE_PROTOCOL_ERROR), HAL_EPROTO))"
  by (simp add: jh_ble_stream_session_handle_frame_def frame_ok_def ble_lengths ble_types
      HAL_BLE_STREAM_PROTOCOL_VERSION_def Let_def)

lemma handle_frame_bad:
  "\<not> frame_ok f \<Longrightarrow> jh_ble_stream_session_handle_frame e s (Some f) =
   (s, Some (close_with empty_result CLOSE_PROTOCOL_ERROR), HAL_EPROTO)"
  by (auto simp: jh_ble_stream_session_handle_frame_def frame_ok_def ble_lengths
      HAL_BLE_STREAM_PROTOCOL_VERSION_def Let_def)

section \<open>Data frames\<close>

lemma decrypt_ptr:
  "n \<le> length ct \<Longrightarrow>
   hal_chacha20_poly1305_decrypt (Some key) (Some nonce) (Some aad) (length aad) (Some ct) n (Some tag) True =
   hal_decrypt key nonce aad (take n ct) tag"
proof -
  assume "n \<le> length ct"
  then have len: "length (take n ct) = n" by simp
  have ptr: "at_ptr (Some ct) n = at_ptr (Some (take n ct)) n" by simp
  show ?thesis
    unfolding hal_decrypt_def hal_chacha20_poly1305_decrypt_def
      chacha20poly1305_decrypt_ietf_detached_def len ptr by simp
qed

lemma open_seal:
  "length tag = 16 \<Longrightarrow> open_sealed key dir flags n ct tag = Some pt \<longleftrightarrow> seal key dir flags n pt = Some (ct, tag)"
  unfolding open_sealed_def seal_def by (rule hal_aead.dec_iff)

lemma seal_short:
  "length pt \<le> 128 \<Longrightarrow>
   \<exists>ct tag. seal key dir flags n pt = Some (ct, tag) \<and> length ct = length pt \<and> length tag = 16"
  unfolding seal_def by (rule hal_aead.enc_short) simp

lemma seal_lengths:
  "seal key dir flags n pt = Some (ct, tag) \<Longrightarrow> length pt \<le> 128 \<Longrightarrow> length ct = length pt \<and> length tag = 16"
  using seal_short [of pt key dir flags n] by auto

text \<open>A body longer than the overhead is counter, ciphertext and tag.\<close>

lemma body_parts:
  assumes "24 < length body"
  defines "ct \<equiv> take (length body - 24) (drop 8 body)" and "tag \<equiv> drop (8 + (length body - 24)) body"
  shows "body = jh_store_le64 (replicate 8 0) 0 (jh_load_le64 body) @ ct @ tag"
    and "length ct = length body - 24" "length tag = 16"
proof -
  have "jh_load_le64 body = jh_load_le64 (take 8 body)"
    using assms(1) by (simp add: jh_load_le64_def jh_load_le32_def)
  then have "jh_store_le64 (replicate 8 0) 0 (jh_load_le64 body) = take 8 body"
    using assms(1) by (simp add: store_load_le64)
  moreover have "ct @ tag = drop 8 body"
    unfolding ct_def tag_def by (metis add.commute append_take_drop_id drop_drop)
  ultimately show "body = jh_store_le64 (replicate 8 0) 0 (jh_load_le64 body) @ ct @ tag" by simp
  show "length ct = length body - 24" "length tag = 16" using assms(1) by (simp_all add: ct_def tag_def)
qed

lemma load_counter: "jh_load_le64 (jh_store_le64 (replicate 8 0) 0 n @ rest) = n"
proof -
  have "jh_load_le64 (jh_store_le64 (replicate 8 0) 0 n @ rest) = jh_load_le64 (jh_store_le64 (replicate 8 0) 0 n)"
    by (simp add: jh_load_le64_def jh_load_le32_def nth_append)
  then show ?thesis using load_store_le64 [of 0 "replicate 8 0" n] by simp
qed

text \<open>What a data body does in an authenticated session.\<close>

lemma handle_data_value:
  assumes "bs_state s = SESSION_AUTHENTICATED"
  shows "handle_data s flags body result =
    (let n = jh_load_le64 body; len = length body - 24 in
     if length body \<le> 24 \<or> 152 < length body then (s, close_with result CLOSE_PROTOCOL_ERROR, HAL_EPROTO)
     else if n = - 1 \<or> bs_rx_counter s = - 2 then (s, close_with result CLOSE_COUNTER_EXHAUSTED, HAL_EPROTO)
     else if n \<noteq> bs_rx_counter s + 1 then (s, close_with result CLOSE_REPLAY_DETECTED, HAL_EPROTO)
     else case open_sealed (bs_key_c2d s) JH_BLE_STREAM_DIR_CLIENT_TO_DEVICE flags n
            (take len (drop 8 body)) (drop (8 + len) body) of
            None \<Rightarrow> (s, close_with (result\<lparr>br_payload := replicate 128 0\<rparr>) CLOSE_AUTH_FAILED, HAL_EAUTH)
          | Some pt \<Rightarrow> (s\<lparr>bs_rx_counter := n\<rparr>,
              result\<lparr>br_payload := blit (br_payload result) 0 pt, br_payload_length := len\<rparr>, HAL_OK))"
proof (cases "length body \<le> 24 \<or> 152 < length body")
  case True
  then show ?thesis using assms by (auto simp: handle_data_def ble_lengths Let_def)
next
  case False
  then have "length body - 24 \<le> length (drop 8 body)" by simp
  note dec = decrypt_ptr [OF this]
  have over: "(8::nat) + 16 = 24" by simp
  have "\<not> 128 < length body - 24" using False by linarith
  then show ?thesis
    using assms False
    unfolding handle_data_def ble_lengths Let_def over dec open_sealed_def by simp
qed

section \<open>Receiving\<close>

text \<open>One inbound frame, with the payload it delivers.\<close>

definition receive :: "(nat \<Rightarrow> hal_status \<times> bytes) \<Rightarrow> ble_session \<Rightarrow> bytes \<Rightarrow> ble_session \<times> bytes option" where
  "receive e s f =
     (case jh_ble_stream_session_handle_frame e s (Some f) of
        (s', Some r, st) \<Rightarrow> (s', if br_payload_length r = 0 then None
                                else Some (take (br_payload_length r) (br_payload r)))
      | (s', None, st) \<Rightarrow> (s', None))"

definition accepts_data :: "ble_session \<Rightarrow> bytes \<Rightarrow> bytes \<Rightarrow> bool" where
  "accepts_data s f pt \<longleftrightarrow>
     bs_state s = SESSION_AUTHENTICATED \<and> bs_rx_counter s + 1 \<noteq> - 1 \<and> pt \<noteq> [] \<and> length pt \<le> 128 \<and>
     (\<exists>flags ct tag. seal (bs_key_c2d s) JH_BLE_STREAM_DIR_CLIENT_TO_DEVICE flags (bs_rx_counter s + 1) pt = Some (ct, tag) \<and>
        f = data_frame flags (bs_rx_counter s + 1) ct tag)"

lemma no_payload [simp]:
  "br_payload_length empty_result = 0" "br_payload_length (close_with r c) = br_payload_length r"
  "br_payload_length (respond r f) = br_payload_length r"
  by (simp_all add: empty_result_def close_with_def respond_def)

lemma hello_no_payload: "handle_hello e s body r = (s', r', st) \<Longrightarrow> br_payload_length r' = br_payload_length r"
  by (auto simp: handle_hello_def Let_def split: if_splits prod.splits option.splits)

lemma auth_no_payload: "handle_auth s body r = (s', r', st) \<Longrightarrow> br_payload_length r' = br_payload_length r"
  by (auto simp: handle_auth_def Let_def split: if_splits prod.splits option.splits)

lemma frame_ok_data:
  "length ct \<le> 128 \<Longrightarrow> length tag = 16 \<Longrightarrow> frame_ok (data_frame flags n ct tag)"
  by (simp add: data_frame_mk frame_ok_mk)

lemma minus_2_iff: "(x + 1 = (- 1 :: u64)) = (x = - 2)"
proof -
  have "x + 1 = - 1 \<longleftrightarrow> x = - 1 - 1" by (metis add_diff_cancel_right' diff_add_cancel)
  then show ?thesis by simp
qed

lemma receive_data:
  "receive e s f = (s', Some pt) \<longleftrightarrow>
   accepts_data s f pt \<and> s' = s\<lparr>bs_rx_counter := bs_rx_counter s + 1\<rparr>"
proof
  assume r: "receive e s f = (s', Some pt)"
  have ok: "frame_ok f" using r by (rule contrapos_pp) (simp add: receive_def handle_frame_bad)
  have t: "f ! 1 = 5"
    using r ok hello_no_payload auth_no_payload
    by (auto simp: receive_def handle_frame_ok Let_def split: if_splits prod.splits)
  let ?body = "drop 4 f"
  have auth: "bs_state s = SESSION_AUTHENTICATED"
    using r ok t by (auto simp: receive_def handle_frame_ok Let_def handle_data_def split: if_splits)
  let ?len = "length ?body - 24"
  let ?ct = "take ?len (drop 8 ?body)" and ?tag = "drop (8 + ?len) ?body"
  have run: "24 < length ?body" "length ?body \<le> 152" "bs_rx_counter s \<noteq> - 2"
    "jh_load_le64 ?body = bs_rx_counter s + 1"
    "\<exists>p. open_sealed (bs_key_c2d s) JH_BLE_STREAM_DIR_CLIENT_TO_DEVICE (f ! 2) (bs_rx_counter s + 1) ?ct ?tag = Some p \<and>
      pt = take ?len (blit (replicate 128 0) 0 p) \<and> s' = s\<lparr>bs_rx_counter := bs_rx_counter s + 1\<rparr>"
    using r ok t
    by (auto simp: receive_def handle_frame_ok handle_data_value [OF auth] Let_def empty_result_def
        close_with_def ble_lengths split: if_splits option.splits)
  note parts = body_parts [OF run(1)]
  obtain p where p: "seal (bs_key_c2d s) JH_BLE_STREAM_DIR_CLIENT_TO_DEVICE (f ! 2) (bs_rx_counter s + 1) p = Some (?ct, ?tag)"
    "pt = take ?len (blit (replicate 128 0) 0 p)" "s' = s\<lparr>bs_rx_counter := bs_rx_counter s + 1\<rparr>"
    using run(5) open_seal [OF parts(3)] by blast
  have len: "length p = ?len"
    using p(1) hal_aead_length [of _ _ _ p] parts(2) unfolding seal_def by metis
  then have pt: "pt = p" using p(2) by (simp add: blit_def)
  have "f = data_frame (f ! 2) (bs_rx_counter s + 1) ?ct ?tag"
    using frame_shape [OF ok] parts(1) t unfolding data_frame_mk [OF parts(3)] run(4) ble_types by metis
  then have "\<exists>flags ct tag. seal (bs_key_c2d s) JH_BLE_STREAM_DIR_CLIENT_TO_DEVICE flags
      (bs_rx_counter s + 1) p = Some (ct, tag) \<and> f = data_frame flags (bs_rx_counter s + 1) ct tag"
    using p(1) by blast
  moreover have "p \<noteq> []" "length p \<le> 128" using len run(1,2) by auto
  ultimately show "accepts_data s f pt \<and> s' = s\<lparr>bs_rx_counter := bs_rx_counter s + 1\<rparr>"
    unfolding accepts_data_def minus_2_iff pt using auth run(3) p(3) by blast
next
  assume "accepts_data s f pt \<and> s' = s\<lparr>bs_rx_counter := bs_rx_counter s + 1\<rparr>"
  then obtain flags ct tag where auth: "bs_state s = SESSION_AUTHENTICATED" and n: "bs_rx_counter s + 1 \<noteq> - 1"
    and pt: "pt \<noteq> []" "length pt \<le> 128" and s': "s' = s\<lparr>bs_rx_counter := bs_rx_counter s + 1\<rparr>"
    and sealed: "seal (bs_key_c2d s) JH_BLE_STREAM_DIR_CLIENT_TO_DEVICE flags (bs_rx_counter s + 1) pt = Some (ct, tag)"
    and f: "f = data_frame flags (bs_rx_counter s + 1) ct tag"
    by (auto simp: accepts_data_def)
  note len = seal_lengths [OF sealed pt(2)]
  have "open_sealed (bs_key_c2d s) JH_BLE_STREAM_DIR_CLIENT_TO_DEVICE flags (bs_rx_counter s + 1) ct tag = Some pt"
    using open_seal sealed len by blast
  moreover have "frame_ok f" using len pt(2) by (simp add: f frame_ok_data)
  ultimately show "receive e s f = (s', Some pt)"
    using pt len n unfolding minus_2_iff
    by (simp add: receive_def handle_frame_ok f data_frame_mk ble_types handle_data_value [OF auth] Let_def
        load_counter s' empty_result_def ble_lengths blit_def add_eq_0_iff)
qed

text \<open>Without a new handshake, a frame that delivers nothing changes nothing.\<close>

definition is_hello :: "bytes \<Rightarrow> bool" where
  "is_hello f \<longleftrightarrow> frame_ok f \<and> f ! 1 = JH_BLE_STREAM_FRAME_HELLO"

lemma receive_none:
  assumes "receive e s f = (s', None)" "bs_state s = SESSION_AUTHENTICATED" "\<not> is_hello f"
  shows "s' = s"
proof (cases "frame_ok f")
  case True
  then show ?thesis
    using assms
    by (auto simp: receive_def handle_frame_ok is_hello_def ble_types Let_def handle_auth_def
        handle_data_value [OF assms(2)] split: if_splits option.splits prod.splits)
next
  case False
  then show ?thesis using assms(1) by (simp add: receive_def handle_frame_bad)
qed

fun receive_all :: "((nat \<Rightarrow> hal_status \<times> bytes) \<times> bytes) list \<Rightarrow> ble_session \<Rightarrow> ble_session \<times> (bytes \<times> bytes) list" where
  "receive_all [] s = (s, [])"
| "receive_all ((e, f) # fs) s =
     (let (s1, d) = receive e s f; (s2, ds) = receive_all fs s1
      in (s2, (case d of None \<Rightarrow> ds | Some pt \<Rightarrow> (f, pt) # ds)))"

definition frame_counter :: "bytes \<Rightarrow> u64" where
  "frame_counter f = jh_load_le64 (drop 4 f)"

lemma frame_counter_data [simp]: "length tag = 16 \<Longrightarrow> frame_counter (data_frame flags n ct tag) = n"
  by (simp add: frame_counter_def data_frame_mk load_counter)

lemma unat_next: "n \<noteq> - 1 \<Longrightarrow> unat (n + 1 :: u64) = unat n + 1"
  by (metis Suc_eq_plus1 add.inverse_inverse add.inverse_neutral add_eq_0_iff unatSuc add.commute)

lemma accepts_counter:
  assumes "accepts_data s f pt"
  shows "frame_counter f = bs_rx_counter s + 1"
proof -
  obtain flags ct tag where "length pt \<le> 128"
    "seal (bs_key_c2d s) JH_BLE_STREAM_DIR_CLIENT_TO_DEVICE flags (bs_rx_counter s + 1) pt = Some (ct, tag)"
    and f: "f = data_frame flags (bs_rx_counter s + 1) ct tag"
    using assms by (auto simp: accepts_data_def)
  then show ?thesis using seal_lengths by (auto simp: f)
qed

lemma receive_all_counters:
  assumes "bs_state s = SESSION_AUTHENTICATED" "bs_rx_counter s \<noteq> - 1"
    "\<forall>(e, f) \<in> set fs. \<not> is_hello f" "receive_all fs s = (s', ds)"
  shows "map (\<lambda>(f, pt). unat (frame_counter f)) ds =
         [unat (bs_rx_counter s) + 1 ..< unat (bs_rx_counter s) + 1 + length ds] \<and>
         unat (bs_rx_counter s') = unat (bs_rx_counter s) + length ds"
  using assms
proof (induction fs arbitrary: s s' ds)
  case Nil
  then show ?case by simp
next
  case (Cons ef fs)
  obtain e f where ef: "ef = (e, f)" by (cases ef)
  obtain s1 d where r: "receive e s f = (s1, d)" by fastforce
  obtain s2 ds2 where rest: "receive_all fs s1 = (s2, ds2)" by fastforce
  show ?case
  proof (cases d)
    case None
    then have "s1 = s" using r receive_none Cons.prems(1,3) by (auto simp: ef)
    then show ?thesis using Cons.IH [of s s2 ds2] Cons.prems r rest None by (simp add: ef)
  next
    case (Some pt)
    then have acc: "accepts_data s f pt" and s1: "s1 = s\<lparr>bs_rx_counter := bs_rx_counter s + 1\<rparr>"
      using r receive_data by simp_all
    have "bs_rx_counter s + 1 \<noteq> - 1" using acc by (simp add: accepts_data_def)
    moreover have "unat (bs_rx_counter s + 1) = unat (bs_rx_counter s) + 1"
      using Cons.prems(2) by (rule unat_next)
    moreover have ds: "ds = (f, pt) # ds2" "s' = s2" using Cons.prems(4) r rest Some by (simp_all add: ef)
    ultimately show ?thesis
      using Cons.IH [of s1 s2 ds2] Cons.prems(1,3) rest accepts_counter [OF acc]
      by (simp add: ef s1 ds upt_conv_Cons del: upt_Suc)
  qed
qed

lemma receive_all_sealed:
  assumes "bs_state s = SESSION_AUTHENTICATED" "\<forall>(e, f) \<in> set fs. \<not> is_hello f"
    "receive_all fs s = (s', ds)" "(f, pt) \<in> set ds"
  shows "\<exists>flags ct tag. seal (bs_key_c2d s) JH_BLE_STREAM_DIR_CLIENT_TO_DEVICE flags (frame_counter f) pt = Some (ct, tag) \<and>
           f = data_frame flags (frame_counter f) ct tag"
  using assms
proof (induction fs arbitrary: s s' ds)
  case Nil
  then show ?case by simp
next
  case (Cons ef fs)
  obtain e g where ef: "ef = (e, g)" by (cases ef)
  obtain s1 d where r: "receive e s g = (s1, d)" by fastforce
  obtain s2 ds2 where rest: "receive_all fs s1 = (s2, ds2)" by fastforce
  show ?case
  proof (cases d)
    case None
    then have "s1 = s" using r receive_none Cons.prems(1,2) by (auto simp: ef)
    then show ?thesis using Cons.IH [of s s2 ds2] Cons.prems r rest None by (simp add: ef)
  next
    case (Some p)
    then have acc: "accepts_data s g p" and s1: "s1 = s\<lparr>bs_rx_counter := bs_rx_counter s + 1\<rparr>"
      using r receive_data by simp_all
    from acc have "\<exists>flags ct tag. seal (bs_key_c2d s) JH_BLE_STREAM_DIR_CLIENT_TO_DEVICE flags (frame_counter g) p = Some (ct, tag) \<and>
           g = data_frame flags (frame_counter g) ct tag"
      by (simp add: accepts_counter) (simp add: accepts_data_def)
    moreover have "ds = (g, p) # ds2" "s' = s2" using Cons.prems(3) r rest Some by (simp_all add: ef)
    then have "f = g \<and> pt = p \<or> (f, pt) \<in> set ds2" using Cons.prems(4) by auto
    moreover have "(f, pt) \<in> set ds2 \<Longrightarrow> ?thesis"
      using Cons.IH [of s1 s2 ds2] Cons.prems(1,2) rest by (simp add: ef s1)
    ultimately show ?thesis by blast
  qed
qed

section \<open>Sending\<close>

lemma build_data_value:
  assumes "bs_state s = SESSION_AUTHENTICATED" "pt \<noteq> []" "length pt \<le> 128" "156 \<le> capacity"
    "bs_tx_counter s < - 2"
  shows "\<exists>ct tag. seal (bs_key_d2c s) JH_BLE_STREAM_DIR_DEVICE_TO_CLIENT 0 (bs_tx_counter s + 1) pt = Some (ct, tag) \<and>
    length ct = length pt \<and> length tag = 16 \<and>
    jh_ble_stream_session_build_data s (Some pt) True capacity =
      (s\<lparr>bs_tx_counter := bs_tx_counter s + 1\<rparr>, Some (data_frame 0 (bs_tx_counter s + 1) ct tag), HAL_OK)"
proof -
  obtain ct tag where sealed: "seal (bs_key_d2c s) JH_BLE_STREAM_DIR_DEVICE_TO_CLIENT 0 (bs_tx_counter s + 1) pt = Some (ct, tag)"
    "length ct = length pt" "length tag = 16"
    using seal_short [OF assms(3)] by blast
  have "\<not> - 1 - 1 \<le> bs_tx_counter s" using assms(5) by (simp add: not_le)
  then have "jh_ble_stream_session_build_data s (Some pt) True capacity =
      (s\<lparr>bs_tx_counter := bs_tx_counter s + 1\<rparr>, Some (data_frame 0 (bs_tx_counter s + 1) ct tag), HAL_OK)"
    using assms sealed
    by (simp add: jh_ble_stream_session_build_data_def ble_lengths Let_def seal_def hal_encrypt_def
        data_frame_def)
  then show ?thesis using sealed by blast
qed

fun send_all :: "ble_session \<Rightarrow> bytes list \<Rightarrow> ble_session \<times> bytes list" where
  "send_all s [] = (s, [])"
| "send_all s (p # ps) =
     (let (s1, f, st) = jh_ble_stream_session_build_data s (Some p) True HAL_BLE_STREAM_MAX_FRAME_LEN;
          (s2, fs) = send_all s1 ps
      in (s2, (case f of None \<Rightarrow> fs | Some fr \<Rightarrow> fr # fs)))"

text \<open>What a client does with a frame: check the counter it expects, then open it.\<close>

definition client_open :: "bytes \<Rightarrow> u64 \<Rightarrow> bytes \<Rightarrow> bytes option" where
  "client_open key counter f =
     (let body = drop 4 f; len = length body - 24 in
      if 24 < length body \<and> jh_load_le64 body = counter
      then open_sealed key JH_BLE_STREAM_DIR_DEVICE_TO_CLIENT (f ! 2) counter (take len (drop 8 body))
             (drop (8 + len) body)
      else None)"

lemma client_open_data:
  assumes "seal key JH_BLE_STREAM_DIR_DEVICE_TO_CLIENT 0 n pt = Some (ct, tag)" "length ct = length pt"
    "length tag = 16" "pt \<noteq> []"
  shows "client_open key n (data_frame 0 n ct tag) = Some pt"
  using assms open_seal [of tag key JH_BLE_STREAM_DIR_DEVICE_TO_CLIENT 0 n ct pt]
  by (simp add: client_open_def data_frame_mk load_counter Let_def)

lemma send_all_value:
  assumes "bs_state s = SESSION_AUTHENTICATED" "\<forall>p \<in> set ps. p \<noteq> [] \<and> length p \<le> 128"
    "unat (bs_tx_counter s) + length ps < 2 ^ 64 - 1" "send_all s ps = (s', fs)"
  shows "map (\<lambda>(i, f). client_open (bs_key_d2c s) (bs_tx_counter s + 1 + of_nat i) f) (enumerate 0 fs) = map Some ps \<and>
    map (\<lambda>f. unat (frame_counter f)) fs =
      [unat (bs_tx_counter s) + 1 ..< unat (bs_tx_counter s) + 1 + length ps]"
  using assms
proof (induction ps arbitrary: s s' fs)
  case Nil
  then show ?case by simp
next
  case (Cons p ps)
  have "unat (bs_tx_counter s) < 2 ^ 64 - 2" using Cons.prems(3) by simp
  then have "bs_tx_counter s < - 2" by (simp add: word_less_nat_alt)
  then obtain ct tag where b: "seal (bs_key_d2c s) JH_BLE_STREAM_DIR_DEVICE_TO_CLIENT 0 (bs_tx_counter s + 1) p = Some (ct, tag)"
    "length ct = length p" "length tag = 16"
    "jh_ble_stream_session_build_data s (Some p) True HAL_BLE_STREAM_MAX_FRAME_LEN =
      (s\<lparr>bs_tx_counter := bs_tx_counter s + 1\<rparr>, Some (data_frame 0 (bs_tx_counter s + 1) ct tag), HAL_OK)"
    using build_data_value [of s p HAL_BLE_STREAM_MAX_FRAME_LEN] Cons.prems(1,2)
    by (auto simp: ble_lengths)
  let ?s1 = "s\<lparr>bs_tx_counter := bs_tx_counter s + 1\<rparr>"
  obtain s2 fs2 where rest: "send_all ?s1 ps = (s2, fs2)" by fastforce
  have tx: "unat (bs_tx_counter s + 1) = unat (bs_tx_counter s) + 1"
    using \<open>unat (bs_tx_counter s) < 2 ^ 64 - 2\<close> by (simp add: unat_word_ariths)
  have fs: "fs = data_frame 0 (bs_tx_counter s + 1) ct tag # fs2"
    using Cons.prems(4) b(4) rest by simp
  have "p \<noteq> []" using Cons.prems(2) by simp
  note open_p = client_open_data [OF b(1,2,3) this]
  have shift: "map (\<lambda>(i, f). client_open k (n + of_nat i) f) (enumerate (Suc 0) fs2) =
      map (\<lambda>(i, f). client_open k (n + 1 + of_nat i) f) (enumerate 0 fs2)" for k n
    by (rule nth_equalityI) (simp_all add: nth_enumerate_eq algebra_simps)
  show ?case
    using Cons.IH [of ?s1 s2 fs2] Cons.prems rest b(3) open_p tx
    by (simp add: fs shift upt_conv_Cons del: upt_Suc)
qed

section \<open>The handshake\<close>

lemma fold_or_0: "(fold (\<lambda>i c. c OR d ! i) is c0 = 0) = (c0 = (0 :: u8) \<and> (\<forall>i \<in> set is. d ! i = 0))"
  by (induction "is" arbitrary: c0) (auto simp: or_eq_0)

lemma all_zero_iff: "length d = n \<Longrightarrow> bytes_are_all_zero d n = (d = replicate n 0)"
proof -
  assume len: "length d = n"
  have "(\<forall>i \<in> {0..<n}. d ! i = 0) \<longleftrightarrow> d = replicate n 0"
  proof
    assume zero: "\<forall>i \<in> {0..<n}. d ! i = 0"
    show "d = replicate n 0" using zero len by (intro nth_equalityI) simp_all
  qed simp
  then show ?thesis by (simp add: bytes_are_all_zero_def fold_or_0)
qed

text \<open>The secret in use and the transcript as the protocol describes it.\<close>

definition secret_of :: "ble_session \<Rightarrow> bytes" where
  "secret_of s = take (bs_secret_length s) (bs_secret s)"

definition transcript :: "u8 \<Rightarrow> u16 \<Rightarrow> u16 \<Rightarrow> bytes \<Rightarrow> bytes \<Rightarrow> bytes \<Rightarrow> bytes" where
  "transcript domain device_caps client_caps sid client_nonce device_nonce =
     [domain] @ HAL_BLE_STREAM_PROFILE_NAME @ [1] @
     jh_store_le16 (replicate 2 0) 0 device_caps @ jh_store_le16 (replicate 2 0) 0 client_caps @
     sid @ client_nonce @ device_nonce"

lemma hello_value:
  assumes "0 < bs_secret_length s" "bs_secret_length s \<le> length (bs_secret s)"
    and "e 32 = (HAL_OK, dn)" "length dn = 32" "dn \<noteq> replicate 32 0"
    and "e 8 = (HAL_OK, sid)" "length sid = 8" "sid \<noteq> replicate 8 0"
    and "length cn = 32"
  shows "handle_hello e s (jh_store_le16 (replicate 2 0) 0 caps @ cn) r =
    (s\<lparr>bs_session_id := sid, bs_client_nonce := cn, bs_device_nonce := dn,
       bs_key_d2c := replicate 32 0, bs_key_c2d := replicate 32 0, bs_peer_capabilities := caps,
       bs_tx_counter := 0, bs_rx_counter := 0, bs_state := SESSION_HANDSHAKING\<rparr>,
     respond r (mk_frame JH_BLE_STREAM_FRAME_HELLO_ACK 0
       (jh_store_le16 (replicate 2 0) 0 (bs_local_capabilities s) @ sid @ dn @
        hmac (secret_of s) (transcript 1 (bs_local_capabilities s) caps sid cn dn))), HAL_OK)"
proof -
  let ?body = "jh_store_le16 (replicate 2 0) 0 caps @ cn"
  have load: "jh_load_le16 ?body = caps"
  proof -
    have "jh_load_le16 ?body = jh_load_le16 (jh_store_le16 (replicate 2 0) 0 caps)"
      by (simp add: jh_load_le16_def nth_append)
    then show ?thesis using load_store_le16 [of 0 "replicate 2 0" caps] by simp
  qed
  have parts: "length ?body = 34" "subarr 2 32 ?body = cn"
    using assms(9) by (simp_all add: subarr_def)
  let ?s2 = "(jh_ble_stream_session_reset s)\<lparr>bs_peer_capabilities := caps, bs_client_nonce := cn,
      bs_device_nonce := dn, bs_session_id := sid\<rparr>"
  have secret: "bs_secret_length ?s2 \<le> length (bs_secret ?s2)"
    using assms(2) by (simp add: jh_ble_stream_session_reset_def)
  have tr: "build_transcript ?s2 d = transcript d (bs_local_capabilities s) caps sid cn dn" for d
    using assms(4,7,9)
    by (simp add: build_transcript_def transcript_def ble_lengths HAL_BLE_STREAM_PROTOCOL_VERSION_def
        jh_ble_stream_session_reset_def)
  have "derive ?s2 JH_BLE_STREAM_DOMAIN_DEVICE_PROOF =
      Some (hmac (secret_of s) (transcript 1 (bs_local_capabilities s) caps sid cn dn))"
    unfolding derive_value [OF secret] tr
    by (simp add: secret_of_def jh_ble_stream_session_reset_def JH_BLE_STREAM_DOMAIN_DEVICE_PROOF_def)
  then show ?thesis
    using assms parts
    by (simp add: handle_hello_def ble_lengths load all_zero_iff Let_def mk_frame_def)
      (simp add: jh_ble_stream_session_reset_def ble_lengths)
qed

lemma auth_value:
  assumes "bs_state s = SESSION_HANDSHAKING" "bs_secret_length s \<le> length (bs_secret s)" "length body = 32"
  shows "handle_auth s body r =
    (if body = hmac (secret_of s) (build_transcript s 2)
     then (s\<lparr>bs_key_d2c := hmac (secret_of s) (build_transcript s 3),
             bs_key_c2d := hmac (secret_of s) (build_transcript s 4), bs_tx_counter := 0,
             bs_rx_counter := 0, bs_state := SESSION_AUTHENTICATED\<rparr>,
           respond r [1, 4, 0, 1, 0], HAL_OK)
     else (s, close_with r CLOSE_AUTH_FAILED, HAL_EAUTH))"
proof -
  have tr: "build_transcript (s\<lparr>bs_key_d2c := k\<rparr>) d = build_transcript s d" for k d
    by (simp add: build_transcript_def)
  have cmp: "jh_constant_time_compare (Some (hmac k m)) (Some body) 32 = (body = hmac k m)" for k m
    using assms(3) by (subst constant_time_compare_iff) auto
  show ?thesis
    using assms derive_value [of "s\<lparr>bs_key_d2c := _\<rparr>"] derive_value [of s]
    by (simp add: handle_auth_def ble_lengths tr cmp secret_of_def JH_BLE_STREAM_DOMAIN_CLIENT_PROOF_def
        JH_BLE_STREAM_DOMAIN_KEY_D2C_def JH_BLE_STREAM_DOMAIN_KEY_C2D_def write_header_def
        HAL_BLE_STREAM_PROTOCOL_VERSION_def JH_BLE_STREAM_FRAME_AUTH_ACK_def)
qed

section \<open>Rejection\<close>

lemma reset_idem [simp]:
  "jh_ble_stream_session_reset (s\<lparr>bs_peer_capabilities := a\<rparr>) = jh_ble_stream_session_reset s"
  "jh_ble_stream_session_reset (s\<lparr>bs_client_nonce := b\<rparr>) = jh_ble_stream_session_reset s"
  "jh_ble_stream_session_reset (s\<lparr>bs_device_nonce := b\<rparr>) = jh_ble_stream_session_reset s"
  "jh_ble_stream_session_reset (s\<lparr>bs_session_id := b\<rparr>) = jh_ble_stream_session_reset s"
  "jh_ble_stream_session_reset (s\<lparr>bs_key_d2c := b\<rparr>) = jh_ble_stream_session_reset s"
  "jh_ble_stream_session_reset (jh_ble_stream_session_reset s) = jh_ble_stream_session_reset s"
  by (simp_all add: jh_ble_stream_session_reset_def)

text \<open>What a rejected frame leaves: no output, a close request, and the session kept or reset.\<close>

definition rejected :: "ble_session \<Rightarrow> ble_session \<Rightarrow> ble_result \<Rightarrow> bool" where
  "rejected s s' r \<longleftrightarrow>
     br_payload_length r = 0 \<and> br_response_length r = 0 \<and> br_close_session r \<and>
     (s' = s \<or> s' = jh_ble_stream_session_reset s)"

lemma rejected_close [simp]:
  "rejected s s' (close_with r c) \<longleftrightarrow>
   br_payload_length r = 0 \<and> br_response_length r = 0 \<and> (s' = s \<or> s' = jh_ble_stream_session_reset s)"
  by (auto simp: rejected_def close_with_def)

lemma no_response [simp]: "br_response_length empty_result = 0"
  by (simp add: empty_result_def)

lemma hello_rejected:
  "handle_hello e s body empty_result = (s', r, st) \<Longrightarrow> st \<noteq> HAL_OK \<Longrightarrow> rejected s s' r"
  by (auto simp: handle_hello_def Let_def split: if_splits prod.splits option.splits)

lemma auth_rejected:
  "handle_auth s body empty_result = (s', r, st) \<Longrightarrow> st \<noteq> HAL_OK \<Longrightarrow> rejected s s' r"
  by (auto simp: handle_auth_def Let_def split: if_splits prod.splits option.splits)

lemma data_rejected:
  "handle_data s flags body empty_result = (s', r, st) \<Longrightarrow> st \<noteq> HAL_OK \<Longrightarrow> rejected s s' r"
  by (auto simp: handle_data_def Let_def split: if_splits prod.splits option.splits)

lemma frame_rejected:
  "jh_ble_stream_session_handle_frame e s (Some f) = (s', Some r, st) \<Longrightarrow> st \<noteq> HAL_OK \<Longrightarrow> rejected s s' r"
  by (cases "frame_ok f")
    (auto simp: handle_frame_ok handle_frame_bad Let_def hello_rejected auth_rejected data_rejected
      split: if_splits prod.splits)

lemma hello_state: "handle_hello e s body r = (s', r', st) \<Longrightarrow> bs_state s' = SESSION_AUTHENTICATED \<Longrightarrow> s' = s"
  by (auto simp: handle_hello_def jh_ble_stream_session_reset_def Let_def
      split: if_splits prod.splits option.splits)

lemma data_state: "handle_data s flags body r = (s', r', st) \<Longrightarrow> bs_state s' = bs_state s"
  by (auto simp: handle_data_def Let_def split: if_splits prod.splits option.splits)

lemma auth_state:
  assumes "handle_auth s body r = (s', r', st)" "bs_state s \<noteq> SESSION_AUTHENTICATED"
    "bs_state s' = SESSION_AUTHENTICATED"
  shows "bs_state s = SESSION_HANDSHAKING \<and> length body = 32"
  using assms by (auto simp: handle_auth_def ble_lengths Let_def jh_ble_stream_session_reset_def
      split: if_splits prod.splits option.splits)

section \<open>Properties\<close>

text \<open>
  C21: the handshake works and binds everything. Given entropy, a HELLO frame puts a
  provisioned session into the handshaking state and is answered by a \<open>HELLO_ACK\<close> of 78
  bytes with the device's proof over the transcript; the AUTH frame with the client's
  proof over the same transcript is then accepted, and the two session keys are the MACs
  of that transcript under the two key labels, with both counters at zero.
\<close>

theorem ble_handshake_succeeds:
  fixes caps :: u16
  assumes secret: "0 < bs_secret_length s" "bs_secret_length s \<le> length (bs_secret s)"
    and entropy: "e 32 = (HAL_OK, dn)" "length dn = 32" "dn \<noteq> replicate 32 0"
      "e 8 = (HAL_OK, sid)" "length sid = 8" "sid \<noteq> replicate 8 0"
    and cn: "length cn = 32"
  defines "tr \<equiv> \<lambda>d. transcript d (bs_local_capabilities s) caps sid cn dn"
  shows "\<exists>s1 r1 s2 r2.
    jh_ble_stream_session_handle_frame e s
      (Some (mk_frame JH_BLE_STREAM_FRAME_HELLO fl (jh_store_le16 (replicate 2 0) 0 caps @ cn))) = (s1, Some r1, HAL_OK) \<and>
    bs_state s1 = SESSION_HANDSHAKING \<and> br_response_length r1 = 78 \<and>
    take 78 (br_response r1) = mk_frame JH_BLE_STREAM_FRAME_HELLO_ACK 0
      (jh_store_le16 (replicate 2 0) 0 (bs_local_capabilities s) @ sid @ dn @ hmac (secret_of s) (tr 1)) \<and>
    jh_ble_stream_session_handle_frame e2 s1
      (Some (mk_frame JH_BLE_STREAM_FRAME_AUTH fl2 (hmac (secret_of s) (tr 2)))) = (s2, Some r2, HAL_OK) \<and>
    bs_state s2 = SESSION_AUTHENTICATED \<and> bs_tx_counter s2 = 0 \<and> bs_rx_counter s2 = 0 \<and>
    bs_key_d2c s2 = hmac (secret_of s) (tr 3) \<and> bs_key_c2d s2 = hmac (secret_of s) (tr 4)"
proof -
  let ?s1 = "s\<lparr>bs_session_id := sid, bs_client_nonce := cn, bs_device_nonce := dn,
       bs_key_d2c := replicate 32 0, bs_key_c2d := replicate 32 0, bs_peer_capabilities := caps,
       bs_tx_counter := 0, bs_rx_counter := 0, bs_state := SESSION_HANDSHAKING\<rparr>"
  let ?ack = "mk_frame JH_BLE_STREAM_FRAME_HELLO_ACK 0
      (jh_store_le16 (replicate 2 0) 0 (bs_local_capabilities s) @ sid @ dn @ hmac (secret_of s) (tr 1))"
  let ?hello = "mk_frame JH_BLE_STREAM_FRAME_HELLO fl (jh_store_le16 (replicate 2 0) 0 caps @ cn)"
  let ?auth = "mk_frame JH_BLE_STREAM_FRAME_AUTH fl2 (hmac (secret_of s) (tr 2))"
  have ack: "length ?ack = 78" using entropy(2,5) by (simp add: mk_frame_def write_header_def)
  have "jh_ble_stream_session_handle_frame e s (Some ?hello) = (?s1, Some (respond empty_result ?ack), HAL_OK)"
    using handle_frame_ok [OF frame_ok_mk, of "jh_store_le16 (replicate 2 0) 0 caps @ cn" e s "JH_BLE_STREAM_FRAME_HELLO" fl]
      hello_value [OF secret entropy cn, of caps empty_result] cn
    by (simp add: JH_BLE_STREAM_FRAME_HELLO_def tr_def Let_def)
  moreover have "take 78 (br_response (respond empty_result ?ack)) = ?ack"
    using ack by (simp add: respond_def empty_result_def blit_def)
  moreover have "br_response_length (respond empty_result ?ack) = 78"
    using ack by (simp add: respond_def)
  moreover have tr: "build_transcript ?s1 d = tr d" "secret_of ?s1 = secret_of s" for d
    using entropy(2,5) cn
    by (simp_all add: build_transcript_def transcript_def ble_lengths HAL_BLE_STREAM_PROTOCOL_VERSION_def
        tr_def secret_of_def)
  have "jh_ble_stream_session_handle_frame e2 ?s1 (Some ?auth) =
    (?s1\<lparr>bs_key_d2c := hmac (secret_of s) (tr 3), bs_key_c2d := hmac (secret_of s) (tr 4),
       bs_tx_counter := 0, bs_rx_counter := 0, bs_state := SESSION_AUTHENTICATED\<rparr>,
     Some (respond empty_result [1, 4, 0, 1, 0]), HAL_OK)"
    using handle_frame_ok [OF frame_ok_mk, of "hmac (secret_of s) (tr 2)" e2 ?s1 "JH_BLE_STREAM_FRAME_AUTH" fl2]
      auth_value [of ?s1 "hmac (secret_of s) (tr 2)" empty_result] secret(2)
    unfolding tr by (simp add: JH_BLE_STREAM_FRAME_AUTH_def Let_def)
  ultimately show ?thesis by (intro exI conjI) (assumption | simp)+
qed

text \<open>
  C22: nobody is authenticated without the secret. A frame that takes a session into the
  authenticated state finds it handshaking and is an AUTH frame whose body is the MAC of
  the current transcript under the stored secret.
\<close>

theorem ble_authentication_needs_proof:
  assumes "jh_ble_stream_session_handle_frame e s (Some f) = (s', r, st)"
    and "bs_state s \<noteq> SESSION_AUTHENTICATED" "bs_state s' = SESSION_AUTHENTICATED"
    and "bs_secret_length s \<le> length (bs_secret s)"
  shows "bs_state s = SESSION_HANDSHAKING \<and>
         f = mk_frame JH_BLE_STREAM_FRAME_AUTH (f ! 2) (hmac (secret_of s) (build_transcript s 2))"
proof -
  have ok: "frame_ok f" using assms(1,2,3) by (rule_tac ccontr) (simp add: handle_frame_bad)
  obtain r' where auth: "f ! 1 = 3" "handle_auth s (drop 4 f) empty_result = (s', r', st)"
    using assms(1,2,3) ok
    by (auto simp: handle_frame_ok Let_def dest: hello_state data_state split: if_splits prod.splits)
  note shape = auth_state [OF auth(2) assms(2,3)]
  then have "drop 4 f = hmac (secret_of s) (build_transcript s 2)"
    using auth(2) assms(2,3) auth_value [of s "drop 4 f" empty_result] assms(4)
    by (auto split: if_splits)
  then show ?thesis
    using frame_shape [OF ok] auth(1) shape by (simp add: JH_BLE_STREAM_FRAME_AUTH_def)
qed

text \<open>
  C23: in an authenticated session a frame delivers a payload if and only if it is the data
  frame that seals exactly this payload under the client key and the next counter; the
  only change of the session is then that counter.
\<close>

theorem ble_data_accepted_iff:
  "receive e s f = (s', Some pt) \<longleftrightarrow>
   bs_state s = SESSION_AUTHENTICATED \<and> bs_rx_counter s + 1 \<noteq> - 1 \<and> pt \<noteq> [] \<and> length pt \<le> 128 \<and>
   s' = s\<lparr>bs_rx_counter := bs_rx_counter s + 1\<rparr> \<and>
   (\<exists>flags ct tag. seal (bs_key_c2d s) JH_BLE_STREAM_DIR_CLIENT_TO_DEVICE flags (bs_rx_counter s + 1) pt = Some (ct, tag) \<and>
      f = data_frame flags (bs_rx_counter s + 1) ct tag)"
  unfolding receive_data accepts_data_def by blast

text \<open>
  C20: no replay, no loss, no reordering. After authentication, whatever frames arrive
  short of a new HELLO, the counters of the frames that deliver a payload are 1, 2, 3
  and so on without gap or repetition, and each of them seals what it delivers.
\<close>

theorem ble_no_replay:
  assumes "bs_state s = SESSION_AUTHENTICATED" "bs_rx_counter s = 0"
    "\<forall>(e, f) \<in> set fs. \<not> is_hello f" "receive_all fs s = (s', ds)"
  shows "map (\<lambda>(f, pt). unat (frame_counter f)) ds = [1 ..< 1 + length ds] \<and>
         unat (bs_rx_counter s') = length ds \<and>
         (\<forall>(f, pt) \<in> set ds. \<exists>flags ct tag.
           seal (bs_key_c2d s) JH_BLE_STREAM_DIR_CLIENT_TO_DEVICE flags (frame_counter f) pt = Some (ct, tag) \<and>
           f = data_frame flags (frame_counter f) ct tag)"
  using receive_all_counters [OF assms(1) _ assms(3,4)] receive_all_sealed [OF assms(1,3,4)] assms(2)
  by auto

text \<open>
  C24: what the device sends, the client reads. After authentication, sending any list of
  payloads of legal size gives one frame each, with counters 1, 2, 3 and so on, never
  reused under the key; a client that expects these counters opens them to the payloads,
  in order.
\<close>

theorem ble_send_stream:
  assumes "bs_state s = SESSION_AUTHENTICATED" "bs_tx_counter s = 0"
    "\<forall>p \<in> set ps. p \<noteq> [] \<and> length p \<le> 128" "length ps < 2 ^ 64 - 1" "send_all s ps = (s', fs)"
  shows "map (\<lambda>(i, f). client_open (bs_key_d2c s) (1 + of_nat i) f) (enumerate 0 fs) = map Some ps \<and>
         map (\<lambda>f. unat (frame_counter f)) fs = [1 ..< 1 + length ps]"
  using send_all_value [OF assms(1,3) _ assms(5)] assms(2,4) by simp

text \<open>
  C25: fail closed. Whenever handling a frame reports an error, nothing is delivered,
  nothing is answered, the caller is told to close, and the session is as it was or reset
  with its keys zeroed.
\<close>

theorem ble_errors_fail_closed:
  assumes "jh_ble_stream_session_handle_frame e s (Some f) = (s', Some r, st)" "st \<noteq> HAL_OK"
  shows "br_payload_length r = 0 \<and> br_response_length r = 0 \<and> br_close_session r \<and>
         (s' = s \<or> s' = jh_ble_stream_session_reset s)"
  using frame_rejected [OF assms] by (simp add: rejected_def)

section \<open>Concrete sessions\<close>

definition sample_session :: "ble_state \<Rightarrow> ble_session" where
  "sample_session st =
     \<lparr>bs_secret = replicate 64 7, bs_secret_length = 32, bs_local_capabilities = 3,
      bs_peer_capabilities = 1, bs_session_id = replicate 8 5, bs_client_nonce = replicate 32 6,
      bs_device_nonce = replicate 32 9, bs_key_d2c = replicate 32 1, bs_key_c2d = replicate 32 2,
      bs_tx_counter = 0, bs_rx_counter = 0, bs_state = st\<rparr>"

definition sample_entropy :: "nat \<Rightarrow> hal_status \<times> bytes" where
  "sample_entropy n = (HAL_OK, replicate n 4)"

theorem ble_handshake_succeeds_witness:
  "\<exists>s1 r1. jh_ble_stream_session_handle_frame sample_entropy (sample_session SESSION_IDLE)
     (Some (mk_frame JH_BLE_STREAM_FRAME_HELLO 0 (jh_store_le16 (replicate 2 0) 0 1 @ replicate 32 8))) =
     (s1, Some r1, HAL_OK) \<and> bs_state s1 = SESSION_HANDSHAKING \<and> br_response_length r1 = 78"
proof -
  have hyps: "0 < bs_secret_length (sample_session SESSION_IDLE)"
    "bs_secret_length (sample_session SESSION_IDLE) \<le> length (bs_secret (sample_session SESSION_IDLE))"
    "sample_entropy 32 = (HAL_OK, replicate 32 4)" "length (replicate 32 (4::u8)) = 32"
    "replicate 32 4 \<noteq> replicate 32 (0::u8)"
    "sample_entropy 8 = (HAL_OK, replicate 8 4)" "length (replicate 8 (4::u8)) = 8"
    "replicate 8 4 \<noteq> replicate 8 (0::u8)" "length (replicate 32 (8::u8)) = 32"
    by (simp_all add: sample_session_def sample_entropy_def)
  show ?thesis
    using ble_handshake_succeeds [OF hyps, of 0 1 sample_entropy 0] by (elim exE conjE) (intro exI conjI)
qed

theorem ble_authentication_needs_proof_witness:
  "\<exists>s' r st. jh_ble_stream_session_handle_frame sample_entropy (sample_session SESSION_HANDSHAKING)
     (Some (mk_frame 3 0 (hmac (replicate 32 7) (build_transcript (sample_session SESSION_HANDSHAKING) 2)))) = (s', r, st) \<and>
   bs_state s' = SESSION_AUTHENTICATED \<and>
   bs_state (sample_session SESSION_HANDSHAKING) = SESSION_HANDSHAKING"
proof -
  let ?s = "sample_session SESSION_HANDSHAKING"
  let ?b = "hmac (replicate 32 7) (build_transcript ?s 2)"
  have secret: "secret_of ?s = replicate 32 7" by (simp add: secret_of_def sample_session_def)
  have run: "\<exists>s' r st. jh_ble_stream_session_handle_frame sample_entropy ?s (Some (mk_frame 3 0 ?b)) = (s', r, st) \<and>
      bs_state s' = SESSION_AUTHENTICATED"
    using handle_frame_ok [OF frame_ok_mk, of ?b sample_entropy ?s 3 0]
      auth_value [of ?s ?b empty_result] secret
    by (simp add: sample_session_def Let_def)
  then show ?thesis
    using ble_authentication_needs_proof [of sample_entropy ?s "mk_frame 3 0 ?b"]
    by (auto simp: sample_session_def)
qed

text \<open>Two data frames, the first of them sent twice.\<close>

lemma sample_stream:
  obtains f1 f2 s' where "\<not> is_hello f1" "\<not> is_hello f2"
    "receive_all [(sample_entropy, f1), (sample_entropy, f1), (sample_entropy, f2)] (sample_session SESSION_AUTHENTICATED) =
      (s', [(f1, [1, 2]), (f2, [3])])"
proof -
  let ?s = "sample_session SESSION_AUTHENTICATED" and ?dir = JH_BLE_STREAM_DIR_CLIENT_TO_DEVICE
  have s: "bs_state ?s = SESSION_AUTHENTICATED" "bs_rx_counter ?s = 0" by (simp_all add: sample_session_def)
  obtain c1 t1 where 1: "seal (bs_key_c2d ?s) ?dir 0 1 [1, 2] = Some (c1, t1)" "length c1 = 2" "length t1 = 16"
    using seal_short [of "[1, 2]" "bs_key_c2d ?s" ?dir 0 1] by auto
  obtain c2 t2 where 2: "seal (bs_key_c2d ?s) ?dir 0 2 [3] = Some (c2, t2)" "length c2 = 1" "length t2 = 16"
    using seal_short [of "[3]" "bs_key_c2d ?s" ?dir 0 2] by auto
  let ?f1 = "data_frame 0 1 c1 t1" and ?f2 = "data_frame 0 2 c2 t2"
  let ?s1 = "?s\<lparr>bs_rx_counter := 1\<rparr>" and ?s2 = "?s\<lparr>bs_rx_counter := 2\<rparr>"
  have r1: "receive sample_entropy ?s ?f1 = (?s1, Some [1, 2])"
    unfolding receive_data accepts_data_def using s 1 by auto
  have "\<not> accepts_data ?s1 ?f1 pt" for pt
    using accepts_counter [of ?s1 ?f1 pt] 1(3) by auto
  moreover obtain s' d where r: "receive sample_entropy ?s1 ?f1 = (s', d)" by fastforce
  ultimately have "d = None" using receive_data [of sample_entropy ?s1 ?f1 s'] by (cases d) auto
  have hello: "\<not> is_hello ?f1" "\<not> is_hello ?f2"
    using 1(3) 2(3) by (simp_all add: is_hello_def data_frame_mk ble_types)
  have "bs_state ?s1 = SESSION_AUTHENTICATED" using s(1) by simp
  from receive_none [OF r [unfolded \<open>d = None\<close>] this hello(1)] r \<open>d = None\<close>
  have r2: "receive sample_entropy ?s1 ?f1 = (?s1, None)" by (simp only:)
  have r3: "receive sample_entropy ?s1 ?f2 = (?s2, Some [3])"
    unfolding receive_data accepts_data_def using s 2 by auto
  show thesis by (rule that [OF hello]) (simp add: r1 r2 r3)
qed

theorem ble_no_replay_witness:
  "\<exists>f1 f2 s'. receive_all [(sample_entropy, f1), (sample_entropy, f1), (sample_entropy, f2)] (sample_session SESSION_AUTHENTICATED) =
      (s', [(f1, [1, 2]), (f2, [3])]) \<and>
     unat (frame_counter f1) = 1 \<and> unat (frame_counter f2) = 2 \<and> unat (bs_rx_counter s') = 2 \<and>
     (\<exists>flags ct tag. seal (replicate 32 2) JH_BLE_STREAM_DIR_CLIENT_TO_DEVICE flags 2 [3] = Some (ct, tag) \<and> f2 = data_frame flags 2 ct tag)"
proof -
  let ?s = "sample_session SESSION_AUTHENTICATED"
  obtain f1 f2 s' where run: "\<not> is_hello f1" "\<not> is_hello f2"
    "receive_all [(sample_entropy, f1), (sample_entropy, f1), (sample_entropy, f2)] ?s = (s', [(f1, [1, 2]), (f2, [3])])"
    by (rule sample_stream)
  have s: "bs_state ?s = SESSION_AUTHENTICATED" "bs_rx_counter ?s = 0" "bs_key_c2d ?s = replicate 32 2" by (simp_all add: sample_session_def)
  have hello: "\<forall>(e, f) \<in> set [(sample_entropy, f1), (sample_entropy, f1), (sample_entropy, f2)]. \<not> is_hello f" using run(1,2) by simp
  note all = ble_no_replay [OF s(1,2) hello run(3)]
  have c: "unat (frame_counter f1) = 1" "unat (frame_counter f2) = 2" "unat (bs_rx_counter s') = 2" using all by (simp_all add: upt_rec)
  then have "frame_counter f2 = 2" by (simp add: word_unat_eq_iff)
  then show ?thesis using all run(3) c unfolding s(3) by (intro exI [of _ f1] exI [of _ f2] exI [of _ s']) auto
qed

theorem ble_send_stream_witness:
  "\<exists>s' fs. send_all (sample_session SESSION_AUTHENTICATED) [[1, 2], [3]] = (s', fs) \<and>
     map (\<lambda>f. unat (frame_counter f)) fs = [1, 2]"
proof -
  obtain s' fs where run: "send_all (sample_session SESSION_AUTHENTICATED) [[1, 2], [3]] = (s', fs)"
    by fastforce
  show ?thesis
    using ble_send_stream [OF _ _ _ _ run] run by (simp add: sample_session_def upt_rec)
qed

theorem ble_errors_fail_closed_witness:
  "\<exists>s' r. jh_ble_stream_session_handle_frame sample_entropy (sample_session SESSION_AUTHENTICATED) (Some [2, 5, 0, 0]) =
     (s', Some r, HAL_EPROTO) \<and> br_close_session r"
proof -
  let ?s = "sample_session SESSION_AUTHENTICATED"
  have run: "jh_ble_stream_session_handle_frame sample_entropy ?s (Some [2, 5, 0, 0]) =
      (?s, Some (close_with empty_result CLOSE_PROTOCOL_ERROR), HAL_EPROTO)"
    by (rule handle_frame_bad) (simp add: frame_ok_def)
  show ?thesis using ble_errors_fail_closed [OF run] run by simp
qed

end
