(* ===== verification/Calendar.thy ===== *)
theory Calendar
  imports Prelude
begin

text \<open>
  The proleptic Gregorian calendar of \<open>src/hal/time/jh_calendar.c\<close>: leap years, month
  lengths, the day of the week, the validity of a date and time, and the two
  conversions between a date and seconds since 1970-01-01. The two searching loops of
  \<open>jh_calendar_epoch_to_datetime\<close> are recursive functions with their measures; all
  arithmetic is at the widths of the code. The first half gives each word
  computation its value as a natural number; the second half shows that the two
  conversions are inverse to each other.
\<close>

section \<open>The model\<close>

definition JH_CALENDAR_MIN_YEAR :: u16 where "JH_CALENDAR_MIN_YEAR = 1"
definition JH_CALENDAR_UNIX_EPOCH_YEAR :: u16 where "JH_CALENDAR_UNIX_EPOCH_YEAR = 1970"
definition JH_CALENDAR_MAX_YEAR :: u16 where "JH_CALENDAR_MAX_YEAR = 65535"
definition JH_SECONDS_PER_DAY :: u64 where "JH_SECONDS_PER_DAY = 86400"

record jh_calendar_datetime =
  dt_year :: u16
  dt_month :: u8
  dt_day :: u8
  dt_hour :: u8
  dt_minute :: u8
  dt_second :: u8
  dt_weekday :: u8

definition s_days_before_month :: "u16 list" where
  "s_days_before_month = [0, 31, 59, 90, 120, 151, 181, 212, 243, 273, 304, 334]"

definition days_in_month_table :: "u8 list" where
  "days_in_month_table = [31, 28, 31, 30, 31, 30, 31, 31, 30, 31, 30, 31]"

definition calendar_is_leap_year :: "u16 \<Rightarrow> bool" where
  "calendar_is_leap_year year \<longleftrightarrow>
     (year mod 4 = 0 \<and> year mod 100 \<noteq> 0) \<or> year mod 400 = 0"

definition calendar_days_before_year :: "u16 \<Rightarrow> u64" where
  "calendar_days_before_year year =
     (let previous_year = ucast year - 1 in
      previous_year * 365 + previous_year div 4 - previous_year div 100 + previous_year div 400)"

definition jh_calendar_is_leap_year :: "u16 \<Rightarrow> out_ptr \<Rightarrow> hal_status \<times> bool option" where
  "jh_calendar_is_leap_year year out_is_leap =
     (if year < JH_CALENDAR_MIN_YEAR \<or> \<not> out_is_leap then (HAL_EINVAL, None)
      else (HAL_OK, Some (calendar_is_leap_year year)))"

definition jh_calendar_days_in_month :: "u16 \<Rightarrow> u8 \<Rightarrow> out_ptr \<Rightarrow> hal_status \<times> u8 option" where
  "jh_calendar_days_in_month year month out_days =
     (if year < JH_CALENDAR_MIN_YEAR \<or> month < 1 \<or> month > 12 \<or> \<not> out_days
      then (HAL_EINVAL, None)
      else (let days = days_in_month_table ! unat (month - 1);
                days = (if month = 2 \<and> calendar_is_leap_year year then days + 1 else days)
            in (HAL_OK, Some days)))"

definition jh_calendar_validate_datetime ::
  "jh_calendar_datetime option \<Rightarrow> u16 \<Rightarrow> u16 \<Rightarrow> hal_status" where
  "jh_calendar_validate_datetime datetime min_year max_year =
     (case datetime of
        None \<Rightarrow> HAL_EINVAL
      | Some d \<Rightarrow>
          if min_year < JH_CALENDAR_MIN_YEAR \<or> max_year < min_year then HAL_EINVAL
          else if dt_year d < min_year \<or> dt_year d > max_year \<or> dt_month d < 1 \<or>
                  dt_month d > 12 \<or> dt_hour d > 23 \<or> dt_minute d > 59 \<or>
                  dt_second d > 59 \<or> dt_weekday d > 6
          then HAL_EINVAL
          else (case jh_calendar_days_in_month (dt_year d) (dt_month d) True of
                  (HAL_OK, Some days_in_month) \<Rightarrow>
                    if dt_day d < 1 \<or> dt_day d > days_in_month then HAL_EINVAL else HAL_OK
                | _ \<Rightarrow> HAL_EINVAL))"

text \<open>The days since 0001-01-01 both \<open>jh_calendar_day_of_week\<close> and
  \<open>jh_calendar_datetime_to_epoch\<close> compute: the latter starts from the difference of two
  year counts.\<close>

definition add_days_of_year :: "u64 \<Rightarrow> u16 \<Rightarrow> u8 \<Rightarrow> u8 \<Rightarrow> u64" where
  "add_days_of_year days year month day =
     (let days = days + ucast (s_days_before_month ! unat (month - 1));
          days = (if month > 2 \<and> calendar_is_leap_year year then days + 1 else days)
      in days + ucast (day - 1))"

definition jh_calendar_day_of_week :: "u16 \<Rightarrow> u8 \<Rightarrow> u8 \<Rightarrow> out_ptr \<Rightarrow> hal_status \<times> u8 option" where
  "jh_calendar_day_of_week year month day out_weekday =
     (if \<not> out_weekday then (HAL_EINVAL, None)
      else
        let datetime = \<lparr>dt_year = year, dt_month = month, dt_day = day, dt_hour = 0,
                        dt_minute = 0, dt_second = 0, dt_weekday = 0\<rparr> in
        if jh_calendar_validate_datetime (Some datetime) JH_CALENDAR_MIN_YEAR
             JH_CALENDAR_MAX_YEAR \<noteq> HAL_OK
        then (HAL_EINVAL, None)
        else (let days = add_days_of_year (calendar_days_before_year year) year month day
              in (HAL_OK, Some (ucast ((days + 1) mod 7)))))"

definition jh_calendar_datetime_to_epoch ::
  "jh_calendar_datetime option \<Rightarrow> out_ptr \<Rightarrow> hal_status \<times> u64 option" where
  "jh_calendar_datetime_to_epoch datetime out_epoch =
     (case datetime of
        None \<Rightarrow> (HAL_EINVAL, None)
      | Some d \<Rightarrow>
          if \<not> out_epoch then (HAL_EINVAL, None)
          else if jh_calendar_validate_datetime (Some d) JH_CALENDAR_MIN_YEAR
                    JH_CALENDAR_MAX_YEAR \<noteq> HAL_OK
          then (HAL_EINVAL, None)
          else if dt_year d < JH_CALENDAR_UNIX_EPOCH_YEAR then (HAL_EOVERFLOW, None)
          else
            let days = calendar_days_before_year (dt_year d) -
                       calendar_days_before_year JH_CALENDAR_UNIX_EPOCH_YEAR;
                days = add_days_of_year days (dt_year d) (dt_month d) (dt_day d)
            in (HAL_OK, Some (days * JH_SECONDS_PER_DAY + ucast (dt_hour d) * 3600 +
                              ucast (dt_minute d) * 60 + ucast (dt_second d))))"

definition days_in_year :: "u16 \<Rightarrow> u16" where
  "days_in_year year = (if calendar_is_leap_year year then 366 else 365)"

text \<open>The year loop: the days left and the year reached.\<close>

function year_loop :: "u16 \<Rightarrow> u64 \<Rightarrow> u32 \<Rightarrow> u64 \<times> u32" where
  "year_loop max_year remaining_days year =
     (if year \<le> ucast max_year then
        (let in_year = ucast (days_in_year (ucast year)) in
         if remaining_days < in_year then (remaining_days, year)
         else year_loop max_year (remaining_days - in_year) (year + 1))
      else (remaining_days, year))"
  by pat_completeness auto

text \<open>The month loop: \<open>None\<close> is the return of \<open>HAL_EINVAL\<close> from inside it.\<close>

function month_loop :: "u16 \<Rightarrow> u64 \<Rightarrow> u8 \<Rightarrow> (u64 \<times> u8) option" where
  "month_loop year remaining_days month =
     (if month \<le> 12 then
        (case jh_calendar_days_in_month year month True of
           (HAL_OK, Some days_in_month) \<Rightarrow>
             if remaining_days < ucast days_in_month then Some (remaining_days, month)
             else month_loop year (remaining_days - ucast days_in_month) (month + 1)
         | _ \<Rightarrow> None)
      else Some (remaining_days, month))"
  by pat_completeness auto

definition split_datetime :: "u32 \<Rightarrow> u8 \<Rightarrow> u64 \<Rightarrow> u32 \<Rightarrow> jh_calendar_datetime" where
  "split_datetime year month remaining_days seconds_of_day =
     \<lparr>dt_year = ucast year, dt_month = month, dt_day = ucast (remaining_days + 1),
      dt_hour = ucast (seconds_of_day div 3600),
      dt_minute = ucast (seconds_of_day mod 3600 div 60),
      dt_second = ucast (seconds_of_day mod 3600 mod 60),
      dt_weekday = 0\<rparr>"

termination year_loop
proof (relation "measure (\<lambda>(max_year, _, year). unat (max_year :: u16) + 1 - unat (year :: u32))")
  fix max_year :: u16 and remaining_days x :: u64 and year :: u32
  assume le: "year \<le> ucast max_year"
  have "unat (ucast max_year :: u32) < 2 ^ LENGTH(32) - 1"
    using less_trans [OF unat_u16_less [of max_year], of 4294967295] by simp
  then have "unat (year + 1) = unat year + 1" by (rule word_inc_less [OF le])
  then show "((max_year, remaining_days - x, year + 1), max_year, remaining_days, year)
        \<in> measure (\<lambda>(max_year, _, year). unat (max_year :: u16) + 1 - unat (year :: u32))"
    using le by (simp add: word_le_nat_alt)
qed simp

termination month_loop
proof (relation "measure (\<lambda>(_, _, month). 13 - unat (month :: u8))")
  fix year :: u16 and remaining_days x :: u64 and month :: u8
  assume le: "month \<le> 12"
  have "unat (12 :: u8) < 2 ^ LENGTH(8) - 1" by simp
  then have "unat (month + 1) = unat month + 1" by (rule word_inc_less [OF le])
  then show "((year, remaining_days - x, month + 1), year, remaining_days, month)
        \<in> measure (\<lambda>(_, _, month). 13 - unat (month :: u8))"
    using le by (simp add: word_le_nat_alt)
qed simp

declare year_loop.simps [simp del] month_loop.simps [simp del]

definition jh_calendar_epoch_to_datetime ::
  "u64 \<Rightarrow> u16 \<Rightarrow> out_ptr \<Rightarrow> hal_status \<times> jh_calendar_datetime option" where
  "jh_calendar_epoch_to_datetime epoch max_year out_datetime =
     (if \<not> out_datetime \<or> max_year < JH_CALENDAR_UNIX_EPOCH_YEAR then (HAL_EINVAL, None)
      else
        let maximum = \<lparr>dt_year = max_year, dt_month = 12, dt_day = 31, dt_hour = 23,
                       dt_minute = 59, dt_second = 59, dt_weekday = 0\<rparr> in
        case jh_calendar_datetime_to_epoch (Some maximum) True of
          (HAL_OK, Some maximum_epoch) \<Rightarrow>
            if epoch > maximum_epoch then (HAL_EOVERFLOW, None)
            else
              let epoch_days = epoch div JH_SECONDS_PER_DAY;
                  (remaining_days, year) =
                    year_loop max_year epoch_days (ucast JH_CALENDAR_UNIX_EPOCH_YEAR) in
              if year > ucast max_year then (HAL_EOVERFLOW, None)
              else (case month_loop (ucast year) remaining_days 1 of
                      None \<Rightarrow> (HAL_EINVAL, None)
                    | Some (remaining_days, month) \<Rightarrow>
                        if month > 12 then (HAL_EOVERFLOW, None)
                        else
                          let seconds_of_day = ucast (epoch mod JH_SECONDS_PER_DAY);
                              d = split_datetime year month remaining_days seconds_of_day in
                          case jh_calendar_day_of_week (dt_year d) (dt_month d) (dt_day d) True of
                            (HAL_OK, Some weekday) \<Rightarrow>
                              (HAL_OK, Some (d\<lparr>dt_weekday := weekday\<rparr>))
                          | _ \<Rightarrow> (HAL_EINVAL, None))
        | _ \<Rightarrow> (HAL_EINVAL, None))"

section \<open>The calendar by counting\<close>

definition leap_nat :: "nat \<Rightarrow> bool" where
  "leap_nat y \<longleftrightarrow> (4 dvd y \<and> \<not> 100 dvd y) \<or> 400 dvd y"

definition year_length :: "nat \<Rightarrow> nat" where
  "year_length y = (if leap_nat y then 366 else 365)"

definition month_length :: "nat \<Rightarrow> nat \<Rightarrow> nat" where
  "month_length y m =
     (if m = 2 then (if leap_nat y then 29 else 28) else if m \<in> {4, 6, 9, 11} then 30 else 31)"

definition days_before_year :: "nat \<Rightarrow> nat" where
  "days_before_year y = sum_list (map year_length [1..<y])"

definition days_before_month :: "nat \<Rightarrow> nat \<Rightarrow> nat" where
  "days_before_month y m = sum_list (map (month_length y) [1..<m])"

text \<open>The days from 0001-01-01 to the given date.\<close>

definition day_number :: "nat \<Rightarrow> nat \<Rightarrow> nat \<Rightarrow> nat" where
  "day_number y m d = days_before_year y + days_before_month y m + (d - 1)"

lemma days_before_year_Suc:
  "1 \<le> y \<Longrightarrow> days_before_year (Suc y) = days_before_year y + year_length y"
  by (simp add: days_before_year_def)

lemma days_before_month_Suc:
  "1 \<le> m \<Longrightarrow> days_before_month y (Suc m) = days_before_month y m + month_length y m"
  by (simp add: days_before_month_def)

lemma div_100_le_div_4: "p div 100 \<le> p div (4 :: nat)"
  by (rule div_le_mono2) simp_all

lemma gregorian_formula:
  "days_before_year (Suc p) = p * 365 + p div 4 - p div 100 + p div 400"
proof (induction p)
  case 0
  then show ?case by (simp add: days_before_year_def)
next
  case (Suc p)
  have dvds: "400 dvd Suc p \<Longrightarrow> 100 dvd Suc p" "100 dvd Suc p \<Longrightarrow> 4 dvd Suc p"
    by (auto elim: dvd_trans [rotated])
  have "days_before_year (Suc (Suc p)) = days_before_year (Suc p) + year_length (Suc p)"
    by (rule days_before_year_Suc) simp
  then show ?case
    using dvds div_100_le_div_4 [of p]
    unfolding Suc.IH by (auto simp: year_length_def leap_nat_def div_Suc mod_eq_0_iff_dvd ac_simps)
qed

lemma month_cases:
  assumes "1 \<le> m" "m \<le> 12"
  shows "m \<in> {1,2,3,4,5,6,7,8,9,10,11,12 :: nat}"
proof -
  have "m \<in> set [1..<13]" using assms by (simp only: set_upt atLeastLessThan_iff) simp
  moreover have "[1..<13] = [1,2,3,4,5,6,7,8,9,10,11,12]" by (simp add: upt_conv_Cons del: upt_Suc)
  ultimately show ?thesis by (simp only: list.set)
qed

lemma month_table:
  assumes "1 \<le> m" "m \<le> 12"
  shows "days_before_month y m =
     unat (s_days_before_month ! (m - 1)) + (if 2 < m \<and> leap_nat y then 1 else 0)"
proof -
  from month_cases [OF assms] show ?thesis
    by (auto simp: days_before_month_def month_length_def s_days_before_month_def upt_conv_Cons
        simp del: upt_Suc)
qed

lemma month_lengths_table:
  assumes "1 \<le> m" "m \<le> 12"
  shows "month_length y m = unat (days_in_month_table ! (m - 1)) + (if m = 2 \<and> leap_nat y then 1 else 0)"
proof -
  from month_cases [OF assms] show ?thesis by (auto simp: month_length_def days_in_month_table_def)
qed

lemma days_before_13: "days_before_month y 13 = year_length y"
  by (simp add: days_before_month_def month_length_def year_length_def upt_conv_Cons del: upt_Suc)

lemma days_before_month_1 [simp]: "days_before_month y (Suc 0) = 0"
  by (simp add: days_before_month_def)

section \<open>Word computations as natural numbers\<close>

lemma unat_dvd: "(w :: u16) mod of_nat k = 0 \<longleftrightarrow> k dvd unat w" if "0 < k" "k < 65536"
  using that by (simp add: unat_eq_0 [symmetric] unat_mod unat_of_nat_less mod_eq_0_iff_dvd)

lemma leap_year_nat: "calendar_is_leap_year year = leap_nat (unat year)"
  using unat_dvd [of 4 year] unat_dvd [of 100 year] unat_dvd [of 400 year]
  by (simp add: calendar_is_leap_year_def leap_nat_def)

lemma word_div_of_nat:
  assumes "p < 2 ^ 64" "k < 2 ^ 64" shows "(of_nat p :: u64) div of_nat k = of_nat (p div k)"
proof (rule word_unat_eq_iff [THEN iffD2])
  show "unat ((of_nat p :: u64) div of_nat k) = unat (of_nat (p div k) :: u64)"
    using assms le_less_trans [OF div_le_dividend, of p "2^64" k] by (simp add: unat_div unat_of_nat_less)
qed

lemma days_before_year_word:
  assumes "1 \<le> unat year"
  shows "calendar_days_before_year year = of_nat (days_before_year (unat year))"
proof -
  obtain p where p: "unat year = Suc p" using assms by (cases "unat year") auto
  have year: "(ucast year :: u64) = of_nat (Suc p)"
    unfolding p [symmetric] by simp
  then have prev: "(ucast year :: u64) - 1 = of_nat p" by simp
  have less: "p < 2 ^ 64" using unat_u16_less [of year] p by simp
  have divs: "(of_nat p :: u64) div 4 = of_nat (p div 4)"
    "(of_nat p :: u64) div 100 = of_nat (p div 100)"
    "(of_nat p :: u64) div 400 = of_nat (p div 400)"
    using word_div_of_nat [OF less, of 4] word_div_of_nat [OF less, of 100]
      word_div_of_nat [OF less, of 400] by simp_all
  have le: "p div 100 \<le> p * 365 + p div 4" using div_100_le_div_4 [of p] by simp
  show ?thesis
    unfolding calendar_days_before_year_def Let_def prev divs p gregorian_formula
      of_nat_add of_nat_diff [OF le] of_nat_mult by simp
qed

definition valid_datetime :: "jh_calendar_datetime \<Rightarrow> bool" where
  "valid_datetime d \<longleftrightarrow>
     1 \<le> unat (dt_year d) \<and> 1 \<le> unat (dt_month d) \<and> unat (dt_month d) \<le> 12 \<and>
     1 \<le> unat (dt_day d) \<and>
     unat (dt_day d) \<le> month_length (unat (dt_year d)) (unat (dt_month d)) \<and>
     unat (dt_hour d) < 24 \<and> unat (dt_minute d) < 60 \<and> unat (dt_second d) < 60 \<and>
     unat (dt_weekday d) < 7"

definition time_of_day :: "jh_calendar_datetime \<Rightarrow> nat" where
  "time_of_day d = unat (dt_hour d) * 3600 + unat (dt_minute d) * 60 + unat (dt_second d)"

definition date_number :: "jh_calendar_datetime \<Rightarrow> nat" where
  "date_number d = day_number (unat (dt_year d)) (unat (dt_month d)) (unat (dt_day d))"

definition epoch_seconds :: "jh_calendar_datetime \<Rightarrow> nat" where
  "epoch_seconds d = (date_number d - day_number 1970 1 1) * 86400 + time_of_day d"

lemma month_length_bounds: "28 \<le> month_length y m" "month_length y m \<le> 31"
  by (simp_all add: month_length_def)

lemma days_in_month_nat:
  "jh_calendar_days_in_month year month True =
     (if 1 \<le> unat year \<and> 1 \<le> unat month \<and> unat month \<le> 12
      then (HAL_OK, Some (of_nat (month_length (unat year) (unat month))))
      else (HAL_EINVAL, None))"
proof (cases "1 \<le> unat year \<and> 1 \<le> unat month \<and> unat month \<le> 12")
  case True
  define t where "t = days_in_month_table ! (unat month - 1)"
  have two: "month = 2 \<longleftrightarrow> unat month = 2" by (simp add: word_unat_eq_iff)
  have "month_length (unat year) (unat month) =
          unat t + (if unat month = 2 \<and> leap_nat (unat year) then 1 else 0)"
    unfolding t_def using True by (intro month_lengths_table) auto
  then have "of_nat (month_length (unat year) (unat month)) =
          (if month = 2 \<and> leap_nat (unat year) then t + 1 else t)"
    by (simp add: two)
  moreover have "unat (month - 1) = unat month - 1" using True by (intro word_dec) simp
  ultimately show ?thesis
    using True by (simp add: jh_calendar_days_in_month_def JH_CALENDAR_MIN_YEAR_def
        word_less_nat_alt leap_year_nat t_def Let_def)
next
  case False
  then show ?thesis
    by (auto simp: jh_calendar_days_in_month_def JH_CALENDAR_MIN_YEAR_def word_less_nat_alt)
qed

lemma unat_month_length [simp]: "unat (of_nat (month_length y m) :: u8) = month_length y m"
  "unat (of_nat (month_length y m) :: u64) = month_length y m"
  using month_length_bounds(2) [of y m] by (intro unat_of_nat_less; simp)+

lemma validate_datetime_nat:
  "jh_calendar_validate_datetime (Some d) min_year max_year =
     (if 1 \<le> unat min_year \<and> min_year \<le> dt_year d \<and> dt_year d \<le> max_year \<and> valid_datetime d
      then HAL_OK else HAL_EINVAL)"
  by (auto simp: jh_calendar_validate_datetime_def valid_datetime_def JH_CALENDAR_MIN_YEAR_def
      word_less_nat_alt word_le_nat_alt days_in_month_nat)

lemma validate_full_range:
  "jh_calendar_validate_datetime (Some d) JH_CALENDAR_MIN_YEAR JH_CALENDAR_MAX_YEAR =
     (if valid_datetime d then HAL_OK else HAL_EINVAL)"
  unfolding validate_datetime_nat JH_CALENDAR_MIN_YEAR_def JH_CALENDAR_MAX_YEAR_def
  by (simp add: valid_datetime_def word_le_nat_alt unat_u16_le)

lemma add_days_of_year_nat:
  assumes "1 \<le> unat month" "unat month \<le> 12" "1 \<le> unat day"
  shows "add_days_of_year (of_nat n) year month day =
     of_nat (n + days_before_month (unat year) (unat month) + (unat day - 1))"
proof -
  define t where "t = s_days_before_month ! (unat month - 1)"
  have "unat (month - 1) = unat month - 1" "unat (day - 1) = unat day - 1"
    using assms by (simp_all add: word_dec)
  moreover from this have "(ucast (day - 1) :: u64) = of_nat (unat day - 1)"
    by (metis ucast_of_unat)
  moreover have "(ucast t :: u64) = of_nat (unat t)" by (rule ucast_of_unat [symmetric])
  moreover have "days_before_month (unat year) (unat month) =
     unat t + (if 2 < unat month \<and> leap_nat (unat year) then 1 else 0)"
    unfolding t_def by (rule month_table [OF assms(1,2)])
  ultimately show ?thesis
    by (simp add: add_days_of_year_def Let_def t_def leap_year_nat word_less_nat_alt)
qed

lemma days_before_month_mono: "m \<le> m' \<Longrightarrow> days_before_month y m \<le> days_before_month y m'"
  by (rule lift_Suc_mono_le) (auto simp: days_before_month_def)

lemma days_before_year_mono: "y \<le> y' \<Longrightarrow> days_before_year y \<le> days_before_year y'"
  by (rule lift_Suc_mono_le) (auto simp: days_before_year_def)

lemma day_of_year_bound:
  assumes "1 \<le> m" "m \<le> 12" "1 \<le> d" "d \<le> month_length y m"
  shows "days_before_month y m + (d - 1) < year_length y"
proof -
  have "days_before_month y m + month_length y m = days_before_month y (Suc m)"
    using assms(1) by (simp add: days_before_month_Suc)
  also have "\<dots> \<le> days_before_month y 13" using assms(2) by (intro days_before_month_mono) simp
  finally show ?thesis using assms(3,4) by (simp add: days_before_13)
qed

lemma days_before_year_bound: "days_before_year y \<le> 366 * y"
proof (induction y)
  case 0
  then show ?case by (simp add: days_before_year_def)
next
  case (Suc y)
  then show ?case
    by (cases "y = 0") (auto simp: days_before_year_Suc year_length_def days_before_year_def)
qed

lemma date_number_bounds:
  assumes "valid_datetime d"
  shows "days_before_year (unat (dt_year d)) \<le> date_number d"
    and "date_number d < days_before_year (Suc (unat (dt_year d)))"
proof -
  have "days_before_month (unat (dt_year d)) (unat (dt_month d)) + (unat (dt_day d) - 1)
      < year_length (unat (dt_year d))"
    using assms by (intro day_of_year_bound) (auto simp: valid_datetime_def)
  then show "days_before_year (unat (dt_year d)) \<le> date_number d"
    "date_number d < days_before_year (Suc (unat (dt_year d)))"
    using assms [unfolded valid_datetime_def] by (simp_all only: date_number_def day_number_def
        days_before_year_Suc add.assoc nat_add_left_cancel_less le_add1)
qed

lemma date_number_less:
  assumes "valid_datetime d"
  shows "date_number d < 23986176"
proof -
  have "Suc (unat (dt_year d)) \<le> 65536" using unat_u16_le [of "dt_year d"] by simp
  then have "366 * Suc (unat (dt_year d)) \<le> 366 * 65536" by (rule mult_le_mono2)
  also have "366 * 65536 = (23986176 :: nat)" by simp
  finally show ?thesis
    using date_number_bounds(2) [OF assms] days_before_year_bound [of "Suc (unat (dt_year d))"]
    by (metis le_trans less_le_trans)
qed

lemma time_of_day_less: "valid_datetime d \<Longrightarrow> time_of_day d < 86400"
  by (auto simp: valid_datetime_def time_of_day_def)

lemma day_number_epoch: "day_number 1970 1 1 = 719162"
  using gregorian_formula [of 1969] by (simp add: day_number_def)

lemma days_before_1970: "days_before_year 1970 = 719162"
  using gregorian_formula [of 1969] by simp

lemma day_of_week_nat:
  assumes "1 \<le> unat year" "1 \<le> unat month" "unat month \<le> 12" "1 \<le> unat day"
    and "unat day \<le> month_length (unat year) (unat month)"
  shows "jh_calendar_day_of_week year month day True =
     (HAL_OK, Some (of_nat (Suc (day_number (unat year) (unat month) (unat day)) mod 7)))"
proof -
  define d where "d = \<lparr>dt_year = year, dt_month = month, dt_day = day, dt_hour = 0,
                        dt_minute = 0, dt_second = 0, dt_weekday = 0 :: u8\<rparr>"
  have valid: "valid_datetime d" using assms by (simp add: valid_datetime_def d_def)
  define n where "n = day_number (unat year) (unat month) (unat day)"
  have n: "Suc n < 2 ^ LENGTH(64)"
    using date_number_less [OF valid] by (simp add: date_number_def d_def n_def)
  have days: "add_days_of_year (calendar_days_before_year year) year month day = of_nat n"
    unfolding days_before_year_word [OF assms(1)] add_days_of_year_nat [OF assms(2-4)]
    by (simp add: n_def day_number_def)
  have "unat ((of_nat (Suc n) :: u64) mod 7) = Suc n mod 7"
    unfolding unat_mod unat_of_nat_less [OF n] by simp
  then have "unat ((of_nat n + 1 :: u64) mod 7) = Suc n mod 7"
    unfolding of_nat_Suc by (simp only: add.commute)
  then have "(ucast ((of_nat n + 1 :: u64) mod 7) :: u8) = of_nat (Suc n mod 7)"
    by (metis ucast_of_unat)
  then show ?thesis
    unfolding jh_calendar_day_of_week_def Let_def days d_def [symmetric] validate_full_range
      n_def [symmetric]
    using valid by simp
qed

lemma datetime_to_epoch_nat:
  assumes "valid_datetime d"
  shows "jh_calendar_datetime_to_epoch (Some d) True =
     (if unat (dt_year d) < 1970 then (HAL_EOVERFLOW, None)
      else (HAL_OK, Some (of_nat (epoch_seconds d))))"
proof (cases "unat (dt_year d) < 1970")
  case True
  then show ?thesis
    using assms by (simp add: jh_calendar_datetime_to_epoch_def validate_full_range
        JH_CALENDAR_UNIX_EPOCH_YEAR_def word_less_nat_alt)
next
  case False
  define y where "y = unat (dt_year d)"
  have y: "1970 \<le> y" using False by (simp add: y_def)
  note v = assms [unfolded valid_datetime_def]
  have le: "719162 \<le> days_before_year y"
    using days_before_year_mono [OF y] by (simp only: days_before_1970)
  have "calendar_days_before_year (dt_year d) -
      calendar_days_before_year JH_CALENDAR_UNIX_EPOCH_YEAR = of_nat (days_before_year y - 719162)"
    using v le by (simp add: days_before_year_word JH_CALENDAR_UNIX_EPOCH_YEAR_def
        days_before_1970 y_def of_nat_diff)
  moreover have "days_before_year y - 719162 + days_before_month (unat (dt_year d))
      (unat (dt_month d)) + (unat (dt_day d) - 1) = date_number d - 719162"
    unfolding date_number_def day_number_def y_def [symmetric] add.assoc
    by (rule add_diff_assoc2 [OF le])
  ultimately have "add_days_of_year (calendar_days_before_year (dt_year d) -
      calendar_days_before_year JH_CALENDAR_UNIX_EPOCH_YEAR) (dt_year d) (dt_month d) (dt_day d)
      = of_nat (date_number d - 719162)"
    using v by (simp only: add_days_of_year_nat)
  then have "jh_calendar_datetime_to_epoch (Some d) True =
     (HAL_OK, Some (of_nat (date_number d - 719162) * JH_SECONDS_PER_DAY + ucast (dt_hour d) * 3600
        + ucast (dt_minute d) * 60 + ucast (dt_second d)))"
    using assms False by (simp add: jh_calendar_datetime_to_epoch_def validate_full_range Let_def
        JH_CALENDAR_UNIX_EPOCH_YEAR_def word_less_nat_alt)
  also have "of_nat (date_number d - 719162) * JH_SECONDS_PER_DAY + ucast (dt_hour d) * 3600
        + ucast (dt_minute d) * 60 + ucast (dt_second d) = (of_nat (epoch_seconds d) :: u64)"
    unfolding epoch_seconds_def time_of_day_def day_number_epoch JH_SECONDS_PER_DAY_def
      of_nat_add of_nat_mult ucast_of_unat by simp
  finally show ?thesis using False by simp
qed


section \<open>The searching loops\<close>

lemma unat_days_in_year: "unat (days_in_year year) = year_length (unat year)"
  by (simp add: days_in_year_def year_length_def leap_year_nat)

lemma unat_ucast_u32_u16: "unat w \<le> 65535 \<Longrightarrow> unat (ucast (w :: u32) :: u16) = unat w"
  by (simp add: unsigned_ucast_eq take_bit_nat_eq_self)

lemma year_loop_nat:
  "year_loop max_year days year = (days', year') \<Longrightarrow>
   1 \<le> unat year \<Longrightarrow> unat year \<le> Suc (unat max_year) \<Longrightarrow>
   unat year' \<le> Suc (unat max_year) \<and> unat year \<le> unat year' \<and>
   days_before_year (unat year) + unat days = days_before_year (unat year') + unat days' \<and>
   (unat year' \<le> unat max_year \<longrightarrow> unat days' < year_length (unat year'))"
proof (induction max_year days year rule: year_loop.induct)
  case (1 max_year days year)
  define len where "len = (ucast (days_in_year (ucast year)) :: u64)"
  show ?case
  proof (cases "year \<le> ucast max_year")
    case le: True
    have len: "unat len = year_length (unat year)"
      using le unat_u16_le [of max_year]
      by (simp add: len_def unat_days_in_year unat_ucast_u32_u16 word_le_nat_alt)
    show ?thesis
    proof (cases "days < len")
      case True
      then have "days' = days" "year' = year"
        using 1(2) le by (subst (asm) year_loop.simps, simp add: len_def)+
      then show ?thesis
        using True le "1.prems" by (simp add: word_less_nat_alt word_le_nat_alt len)
    next
      case False
      then have rec: "year_loop max_year (days - len) (year + 1) = (days', year')"
        using 1(2) le by (subst (asm) year_loop.simps) (simp add: len_def)
      have "unat (ucast max_year :: u32) < 2 ^ LENGTH(32) - 1"
        using less_trans [OF unat_u16_less [of max_year], of 4294967295] by simp
      then have next_year: "unat (year + 1) = Suc (unat year)"
        using word_inc_less [OF le] by simp
      have left: "unat (days - len) + year_length (unat year) = unat days"
        using False len by (simp add: unat_sub word_le_nat_alt not_less)
      have "unat (year + 1) \<le> Suc (unat max_year)"
        using le by (simp add: next_year word_le_nat_alt)
      then show ?thesis
        using "1.IH" [OF le len_def _ rec] False left "1.prems"(2)
        by (simp add: next_year days_before_year_Suc)
    qed
  next
    case False
    then have "days' = days" "year' = year"
      using 1(2) by (subst (asm) year_loop.simps, simp)+
    then show ?thesis using False "1.prems" by (simp add: word_le_nat_alt)
  qed
qed

lemma month_loop_nat:
  "1 \<le> unat year \<Longrightarrow> 1 \<le> unat month \<Longrightarrow> unat month \<le> 13 \<Longrightarrow>
   \<exists>days' month'. month_loop year days month = Some (days', month') \<and>
     unat month' \<le> 13 \<and> unat month \<le> unat month' \<and>
     days_before_month (unat year) (unat month) + unat days =
       days_before_month (unat year) (unat month') + unat days' \<and>
     (unat month' \<le> 12 \<longrightarrow> unat days' < month_length (unat year) (unat month'))"
proof (induction year days month rule: month_loop.induct)
  case (1 year days month)
  let ?len = "of_nat (month_length (unat year) (unat month)) :: u8"
  show ?case
  proof (cases "month \<le> 12")
    case le: True
    then have step: "jh_calendar_days_in_month year month True = (HAL_OK, Some ?len)"
      using "1.prems" by (simp add: days_in_month_nat word_le_nat_alt)
    show ?thesis
    proof (cases "days < ucast ?len")
      case True
      then show ?thesis
        using le step "1.prems"
        by (subst month_loop.simps) (simp add: word_less_nat_alt word_le_nat_alt)
    next
      case False
      then have rec: "month_loop year days month = month_loop year (days - ucast ?len) (month + 1)"
        using le step by (subst month_loop.simps) simp
      have next_month: "unat (month + 1) = Suc (unat month)"
        using word_inc_less [OF le] by simp
      have left: "unat (days - ucast ?len) + month_length (unat year) (unat month) = unat days"
        using False by (simp add: unat_sub word_le_nat_alt not_less)
      have "1 \<le> unat (month + 1)" "unat (month + 1) \<le> 13"
        using le by (simp_all add: next_month word_le_nat_alt)
      note IH = "1.IH" [OF le step [symmetric] refl refl False "1.prems"(1) this]
      then show ?thesis
        using left "1.prems"(2) unfolding rec
        by (auto simp add: next_month days_before_month_Suc)
    qed
  next
    case False
    then show ?thesis using "1.prems" by (subst month_loop.simps) (simp add: word_le_nat_alt)
  qed
qed

section \<open>Both conversions\<close>

text \<open>Dates are ordered by their day number: the loops find the only date with the
  number they are given.\<close>

lemma epoch_seconds_div_mod:
  assumes "valid_datetime d" "1970 \<le> unat (dt_year d)"
  shows "epoch_seconds d div 86400 + 719162 = date_number d"
    and "epoch_seconds d mod 86400 = time_of_day d"
proof -
  have "719162 \<le> date_number d"
    using date_number_bounds(1) [OF assms(1)] days_before_year_mono [OF assms(2)]
    by (simp add: days_before_1970)
  then show "epoch_seconds d div 86400 + 719162 = date_number d"
    using time_of_day_less [OF assms(1)] unfolding epoch_seconds_def day_number_epoch by simp
  show "epoch_seconds d mod 86400 = time_of_day d"
    using time_of_day_less [OF assms(1)] by (simp add: epoch_seconds_def)
qed

definition weekday_ok :: "jh_calendar_datetime \<Rightarrow> bool" where
  "weekday_ok d \<longleftrightarrow> unat (dt_weekday d) = Suc (date_number d) mod 7"

lemma epoch_seconds_less:
  assumes "valid_datetime d"
  shows "epoch_seconds d < 2 ^ 64"
proof -
  have "(date_number d - 719162) * 86400 \<le> 23986176 * 86400"
    using date_number_less [OF assms] by (intro mult_le_mono1) simp
  then show ?thesis
    using time_of_day_less [OF assms] by (simp add: epoch_seconds_def day_number_epoch)
qed

text \<open>The last second of \<open>max_year\<close>.\<close>

definition last_second :: "u16 \<Rightarrow> nat" where
  "last_second max_year = (days_before_year (Suc (unat max_year)) - 719162) * 86400 - 1"

lemma maximum_epoch:
  fixes max_year :: u16
  defines "d \<equiv> \<lparr>dt_year = max_year, dt_month = 12, dt_day = 31, dt_hour = 23,
             dt_minute = 59, dt_second = 59, dt_weekday = 0 :: u8\<rparr>"
  assumes "1970 \<le> unat max_year"
  shows "jh_calendar_datetime_to_epoch (Some d) True = (HAL_OK, Some (of_nat (last_second max_year)))" 
    and "last_second max_year < 2 ^ 64"
proof -
  have d_year: "dt_year d = max_year" by (simp add: d_def)
  have valid: "valid_datetime d"
    unfolding d_def using assms by (simp add: valid_datetime_def month_length_def)
  have "days_before_month (unat max_year) 12 + 31 = year_length (unat max_year)"
    using days_before_month_Suc [of 12 "unat max_year"] days_before_13 [of "unat max_year"]
    by (simp add: month_length_def)
  then have date: "Suc (date_number d) = days_before_year (Suc (unat max_year))"
    unfolding d_def using assms by (simp add: date_number_def day_number_def days_before_year_Suc)
  have "719162 \<le> date_number d"
    using date_number_bounds(1) [OF valid, unfolded d_year] days_before_year_mono [OF assms(2)]
    by (simp add: days_before_1970)
  then have "epoch_seconds d = last_second max_year"
    unfolding last_second_def date [symmetric]
    unfolding epoch_seconds_def day_number_epoch Suc_diff_le [OF \<open>719162 \<le> date_number d\<close>]
    by (simp add: time_of_day_def d_def)
  then show "jh_calendar_datetime_to_epoch (Some d) True = (HAL_OK, Some (of_nat (last_second max_year)))"
    "last_second max_year < 2 ^ 64"
    using datetime_to_epoch_nat [OF valid] epoch_seconds_less [OF valid] assms by (simp_all add: d_year)
qed


lemma split_time:
  assumes "unat t < 86400"
  shows "unat (ucast ((t :: u32) div 3600) :: u8) = unat t div 3600"
    and "unat (ucast (t mod 3600 div 60) :: u8) = unat t mod 3600 div 60"
    and "unat (ucast (t mod 3600 mod 60) :: u8) = unat t mod 3600 mod 60"
proof -
  have "unat t div 3600 < 256" using assms by (simp add: less_mult_imp_div_less)
  then show "unat (ucast (t div 3600) :: u8) = unat t div 3600"
    by (simp add: unsigned_ucast_eq take_bit_nat_eq_self unat_div)
  have "unat t mod 3600 div 60 < 256" by (simp add: less_mult_imp_div_less)
  then show "unat (ucast (t mod 3600 div 60) :: u8) = unat t mod 3600 div 60"
    by (simp add: unsigned_ucast_eq take_bit_nat_eq_self unat_div unat_mod)
  have "unat t mod 3600 mod 60 < 256" by (rule less_le_trans [OF mod_less_divisor]) simp_all
  then show "unat (ucast (t mod 3600 mod 60) :: u8) = unat t mod 3600 mod 60"
    by (simp add: unsigned_ucast_eq take_bit_nat_eq_self unat_mod del: mod_mod_trivial)
qed

lemma time_parts:
  "t div 3600 * 3600 + t mod 3600 div 60 * 60 + t mod 3600 mod 60 = (t :: nat)"
  by (metis add.assoc div_mult_mod_eq)

lemma split_datetime_nat:
  assumes "unat year \<le> 65535" "unat days < month_length (unat year) (unat month)"
    and "1 \<le> unat year" "1 \<le> unat month" "unat month \<le> 12" "unat t < 86400"
  defines "d \<equiv> split_datetime year month days t"
  shows "valid_datetime d" "time_of_day d = unat t"
    and "unat (dt_year d) = unat year" "dt_month d = month" "unat (dt_day d) = Suc (unat days)"
    and "dt_weekday d = 0"
proof -
  have days: "Suc (unat days) \<le> 31"
    using assms(2) month_length_bounds(2) [of "unat year" "unat month"] by simp
  then have "unat (days + 1) = Suc (unat days)" by (simp add: unat_word_ariths)
  then show day: "unat (dt_day d) = Suc (unat days)"
    using days by (simp add: d_def split_datetime_def unsigned_ucast_eq take_bit_nat_eq_self)
  show year: "unat (dt_year d) = unat year"
    using assms(1) by (simp add: d_def split_datetime_def unat_ucast_u32_u16)
  show "dt_month d = month" "dt_weekday d = 0" by (simp_all add: d_def split_datetime_def)
  have time: "unat (dt_hour d) = unat t div 3600" "unat (dt_minute d) = unat t mod 3600 div 60"
    "unat (dt_second d) = unat t mod 3600 mod 60"
    using split_time [OF assms(6)] by (simp_all only: d_def split_datetime_def
        jh_calendar_datetime.select_convs)
  then show "time_of_day d = unat t" by (simp only: time_of_day_def time_parts)
  have "unat t div 3600 < 24" "unat t mod 3600 div 60 < 60" "unat t mod 3600 mod 60 < 60"
    using assms(6) by (simp_all add: less_mult_imp_div_less)
  then show "valid_datetime d"
    unfolding valid_datetime_def time year day \<open>dt_month d = month\<close> \<open>dt_weekday d = 0\<close>
    using assms(2-5) by simp
qed

lemma day_number_of_loops:
  assumes "days_before_year 1970 + q = days_before_year y + r"
    and "r = days_before_month y m + s"
  shows "day_number y m (Suc s) = q + 719162"
  using assms by (simp add: day_number_def days_before_1970)

lemma epoch_to_datetime_in_range:
  assumes "1970 \<le> unat max_year" "unat epoch \<le> last_second max_year"
  shows "\<exists>d. jh_calendar_epoch_to_datetime epoch max_year True = (HAL_OK, Some d) \<and>
     valid_datetime d \<and> weekday_ok d \<and> 1970 \<le> unat (dt_year d) \<and>
     unat (dt_year d) \<le> unat max_year \<and> epoch_seconds d = unat epoch"
proof -
  define q where "q = unat epoch div 86400"
  have q: "unat (epoch div JH_SECONDS_PER_DAY) = q"
    unfolding q_def JH_SECONDS_PER_DAY_def unat_div by simp
  have top: "719162 < days_before_year (Suc (unat max_year))"
    using days_before_year_mono [OF assms(1)] assms(1)
    by (simp add: days_before_1970 days_before_year_Suc year_length_def)
  have "q < days_before_year (Suc (unat max_year)) - 719162"
    unfolding q_def using assms(2) top by (intro less_mult_imp_div_less) (auto simp: last_second_def)
  then have q_less: "719162 + q < days_before_year (Suc (unat max_year))" using top by simp
  obtain days1 year where yl:
    "year_loop max_year (epoch div JH_SECONDS_PER_DAY) (ucast JH_CALENDAR_UNIX_EPOCH_YEAR)
       = (days1, year)" by fastforce
  have start: "unat (ucast JH_CALENDAR_UNIX_EPOCH_YEAR :: u32) = 1970"
    by (simp add: JH_CALENDAR_UNIX_EPOCH_YEAR_def)
  from year_loop_nat [OF yl] assms(1) have y: "unat year \<le> Suc (unat max_year)"
    "1970 \<le> unat year" "719162 + q = days_before_year (unat year) + unat days1"
    "unat year \<le> unat max_year \<longrightarrow> unat days1 < year_length (unat year)"
    unfolding start q by (simp_all add: days_before_1970)
  have y_le: "unat year \<le> unat max_year"
  proof (rule ccontr)
    assume "\<not> unat year \<le> unat max_year"
    then have "unat year = Suc (unat max_year)" using y(1) by simp
    then show False using y(3) q_less by simp
  qed
  define w where "w = (ucast year :: u16)"
  have w: "unat w = unat year"
    unfolding w_def using y_le unat_u16_le [of max_year] by (intro unat_ucast_u32_u16) simp
  obtain days2 month where ml: "month_loop w days1 1 = Some (days2, month)"
    and m: "unat month \<le> 13" "1 \<le> unat month"
      "unat days1 = days_before_month (unat year) (unat month) + unat days2"
      "unat month \<le> 12 \<longrightarrow> unat days2 < month_length (unat year) (unat month)"
    using month_loop_nat [of w 1 days1] y(2) by (auto simp: w)
  have m_le: "unat month \<le> 12"
  proof (rule ccontr)
    assume "\<not> unat month \<le> 12"
    then have "unat month = 13" using m(1) by simp
    then show False using m(3) y(4) y_le days_before_13 by simp
  qed
  define t where "t = (ucast (epoch mod JH_SECONDS_PER_DAY) :: u32)"
  have t: "unat t = unat epoch mod 86400"
    by (simp add: t_def JH_SECONDS_PER_DAY_def unsigned_ucast_eq take_bit_nat_eq_self unat_mod
        less_trans [OF mod_less_divisor])
  define d where "d = split_datetime year month days2 t"
  note d = split_datetime_nat [of year days2 month t, folded d_def]
  have d: "valid_datetime d" "time_of_day d = unat t" "unat (dt_year d) = unat year"
    "dt_month d = month" "unat (dt_day d) = Suc (unat days2)" "dt_weekday d = 0"
    using d y(2) y_le unat_u16_le [of max_year] m(2,4) m_le t by (simp_all)
  have date: "date_number d = q + 719162"
    unfolding date_number_def d(3,4,5)
    by (rule day_number_of_loops [OF _ m(3)]) (simp add: days_before_1970 y(3))
  define wd where "wd = (of_nat (Suc (date_number d) mod 7) :: u8)"
  have wd: "unat wd = Suc (date_number d) mod 7"
    unfolding wd_def by (rule unat_of_nat_less) (rule less_trans [OF mod_less_divisor], simp_all)
  have dow: "jh_calendar_day_of_week (dt_year d) (dt_month d) (dt_day d) True = (HAL_OK, Some wd)"
    using d(1) unfolding wd_def date_number_def
    by (intro day_of_week_nat) (auto simp: valid_datetime_def)
  let ?d = "d\<lparr>dt_weekday := wd\<rparr>"
  have "unat wd < 7" unfolding wd by simp
  then have "valid_datetime ?d" using d(1) by (simp add: valid_datetime_def)
  moreover have same: "date_number ?d = date_number d" "time_of_day ?d = time_of_day d"
    by (simp_all add: date_number_def time_of_day_def)
  then have "weekday_ok ?d" by (simp add: weekday_ok_def wd)
  moreover have "epoch_seconds ?d = unat epoch"
    unfolding epoch_seconds_def same date day_number_epoch d(2) t q_def by simp
  moreover have "jh_calendar_epoch_to_datetime epoch max_year True = (HAL_OK, Some ?d)"
  proof -
    have "unat (of_nat (last_second max_year) :: u64) = last_second max_year"
      using maximum_epoch(2) [OF assms(1)] by (intro unat_of_nat_less) simp
    then have "\<not> epoch > of_nat (last_second max_year)"
      using assms(2) by (simp add: word_less_nat_alt)
    moreover have "\<not> year > ucast max_year" "\<not> month > 12" "\<not> max_year < JH_CALENDAR_UNIX_EPOCH_YEAR"
      using y_le m_le assms(1) by (simp_all add: word_less_nat_alt JH_CALENDAR_UNIX_EPOCH_YEAR_def)
    ultimately show ?thesis
      unfolding jh_calendar_epoch_to_datetime_def Let_def maximum_epoch(1) [OF assms(1)] yl
      by (simp add: ml [unfolded w_def] flip: t_def d_def add: dow)
  qed
  ultimately show ?thesis using d(3) y(2) y_le by (intro exI [of _ ?d]) simp
qed


lemma step_unique:
  fixes f :: "nat \<Rightarrow> nat"
  assumes "\<And>i j. i \<le> j \<Longrightarrow> f i \<le> f j"
    and "f a \<le> n" "n < f (Suc a)" "f b \<le> n" "n < f (Suc b)"
  shows "a = b"
proof (rule ccontr)
  assume "a \<noteq> b"
  then have "f (Suc a) \<le> f b \<or> f (Suc b) \<le> f a"
    using assms(1) by (cases "a < b") (auto simp: Suc_le_eq)
  then show False using assms(2-5) by linarith
qed

lemma date_number_inject:
  assumes "valid_datetime d" "valid_datetime e" "date_number d = date_number e"
  shows "dt_year d = dt_year e" "dt_month d = dt_month e" "dt_day d = dt_day e"
proof -
  note vd = assms(1) [unfolded valid_datetime_def] and ve = assms(2) [unfolded valid_datetime_def]
  have year: "unat (dt_year d) = unat (dt_year e)"
    using date_number_bounds [OF assms(1)] date_number_bounds [OF assms(2)] assms(3)
    by (intro step_unique [of days_before_year, OF days_before_year_mono]) auto
  then show "dt_year d = dt_year e" by (simp add: word_unat_eq_iff)
  let ?y = "unat (dt_year e)"
  have "days_before_month ?y (unat (dt_month d)) + (unat (dt_day d) - 1) =
        days_before_month ?y (unat (dt_month e)) + (unat (dt_day e) - 1)"
    using assms(3) by (simp only: date_number_def day_number_def year add.assoc add_left_cancel)
  then have month: "unat (dt_month d) = unat (dt_month e)" and
    day: "unat (dt_month d) = unat (dt_month e) \<Longrightarrow> unat (dt_day d) - 1 = unat (dt_day e) - 1"
    using vd ve year
    by (auto intro!: step_unique [of "days_before_month ?y", OF days_before_month_mono, where
          n = "days_before_month ?y (unat (dt_month e)) + (unat (dt_day e) - 1)"]
        simp: days_before_month_Suc)
  show "dt_month d = dt_month e" using month by (simp add: word_unat_eq_iff)
  have "unat (dt_day d) = unat (dt_day e)"
    using day [OF month] vd ve by (metis Suc_le_D diff_Suc_1 One_nat_def)
  then show "dt_day d = dt_day e" by (simp add: word_unat_eq_iff)
qed

lemma mixed_radix_inject:
  fixes m s m' s' :: nat
  assumes "h * 3600 + m * 60 + s = h' * 3600 + m' * 60 + s'"
    and "m < 60" "s < 60" "m' < 60" "s' < 60"
  shows "h = h' \<and> m = m' \<and> s = s'"
proof -
  have "(h * 60 + m) * 60 + s = (h' * 60 + m') * 60 + s'" using assms(1) by (simp add: distrib_right)
  moreover have "((a :: nat) * 60 + b) div 60 = a" "(a * 60 + b) mod 60 = b" if "b < 60" for a b
    using that by simp_all
  ultimately show ?thesis using assms(2-5) by metis
qed

lemma time_of_day_inject:
  assumes "valid_datetime d" "valid_datetime e" "time_of_day d = time_of_day e"
  shows "dt_hour d = dt_hour e \<and> dt_minute d = dt_minute e \<and> dt_second d = dt_second e"
  using mixed_radix_inject [OF assms(3) [unfolded time_of_day_def]]
    assms(1,2) [unfolded valid_datetime_def] by (simp add: word_unat_eq_iff)

lemma epoch_seconds_inject:
  assumes "valid_datetime d" "valid_datetime e" "weekday_ok d" "weekday_ok e"
    and "1970 \<le> unat (dt_year d)" "1970 \<le> unat (dt_year e)" "epoch_seconds d = epoch_seconds e"
  shows "d = e"
proof -
  have date: "date_number d = date_number e" and time: "time_of_day d = time_of_day e"
    using epoch_seconds_div_mod [OF assms(1,5)] epoch_seconds_div_mod [OF assms(2,6)] assms(7)
    by simp_all
  have "dt_weekday d = dt_weekday e"
    using assms(3,4) by (simp add: weekday_ok_def date word_unat_eq_iff)
  then show ?thesis
    using date_number_inject [OF assms(1,2) date] time_of_day_inject [OF assms(1,2) time]
    by (simp add: jh_calendar_datetime.equality)
qed

lemma epoch_seconds_le_last:
  assumes "valid_datetime d" "1970 \<le> unat (dt_year d)" "unat (dt_year d) \<le> unat max_year"
  shows "epoch_seconds d \<le> last_second max_year"
proof -
  have "date_number d < days_before_year (Suc (unat max_year))"
    using date_number_bounds(2) [OF assms(1)] days_before_year_mono [of "Suc (unat (dt_year d))"]
      assms(3) by (meson Suc_le_mono less_le_trans)
  moreover have "719162 \<le> date_number d"
    using date_number_bounds(1) [OF assms(1)] days_before_year_mono [OF assms(2)]
    by (simp add: days_before_1970)
  ultimately obtain k where "days_before_year (Suc (unat max_year)) - 719162 = Suc (date_number d - 719162) + k"
    using le_Suc_ex [of "Suc (date_number d)"] by (metis Suc_diff_le Suc_leI add_Suc le_Suc_ex diff_le_mono)
  then show ?thesis
    using time_of_day_less [OF assms(1)]
    unfolding epoch_seconds_def last_second_def day_number_epoch by (simp add: add_mult_distrib)
qed

section \<open>Properties\<close>

text \<open>A date and time is accepted exactly when it exists in the proleptic Gregorian
  calendar: its month is a month, its day is a day of that month in that year, its time is
  a time of day, its weekday index is below seven and its year lies within the bounds asked
  for; a missing date and bounds that are empty or start before year one are refused.\<close>

theorem calendar_validate_iff:
  "jh_calendar_validate_datetime datetime min_year max_year =
     (case datetime of
        None \<Rightarrow> HAL_EINVAL
      | Some d \<Rightarrow>
          if 1 \<le> unat min_year \<and> unat min_year \<le> unat (dt_year d) \<and>
             unat (dt_year d) \<le> unat max_year \<and> valid_datetime d
          then HAL_OK else HAL_EINVAL)"
proof (cases datetime)
  case None
  then show ?thesis by (simp add: jh_calendar_validate_datetime_def)
next
  case (Some d)
  show ?thesis unfolding Some validate_datetime_nat by (simp add: word_le_nat_alt)
qed

text \<open>C28: the day of the week of a date of the calendar is the one found by counting days
  from Monday 0001-01-01, year by year and month by month (Sunday is 0); every other
  argument is refused.\<close>

theorem calendar_day_of_week_counts:
  "jh_calendar_day_of_week year month day out =
     (if out \<and> 1 \<le> unat year \<and> 1 \<le> unat month \<and> unat month \<le> 12 \<and> 1 \<le> unat day \<and>
         unat day \<le> month_length (unat year) (unat month)
      then (HAL_OK, Some (of_nat (Suc (day_number (unat year) (unat month) (unat day)) mod 7)))
      else (HAL_EINVAL, None))"
  using day_of_week_nat [of year month day]
  by (auto simp: jh_calendar_day_of_week_def validate_full_range valid_datetime_def)

text \<open>C27: the conversion from seconds to a date succeeds for every second from 1970-01-01
  to the end of \<open>max_year\<close>; the date is then a date of the calendar with its right weekday,
  not before 1970 and not after \<open>max_year\<close>, and converting it back gives the second it
  came from. A later second is \<open>HAL_EOVERFLOW\<close>, a bound before 1970 \<open>HAL_EINVAL\<close>: the two
  searching loops never run out and never fail.\<close>

theorem calendar_epoch_to_datetime_total:
  "if unat max_year < 1970 then
     jh_calendar_epoch_to_datetime epoch max_year True = (HAL_EINVAL, None)
   else if last_second max_year < unat epoch then
     jh_calendar_epoch_to_datetime epoch max_year True = (HAL_EOVERFLOW, None)
   else (\<exists>d. jh_calendar_epoch_to_datetime epoch max_year True = (HAL_OK, Some d) \<and>
          valid_datetime d \<and> weekday_ok d \<and> 1970 \<le> unat (dt_year d) \<and>
          unat (dt_year d) \<le> unat max_year \<and>
          jh_calendar_datetime_to_epoch (Some d) True = (HAL_OK, Some epoch))"
proof -
  have "jh_calendar_epoch_to_datetime epoch max_year True = (HAL_EINVAL, None)"
    if "unat max_year < 1970"
    using that by (simp add: jh_calendar_epoch_to_datetime_def JH_CALENDAR_UNIX_EPOCH_YEAR_def
        word_less_nat_alt)
  moreover have "jh_calendar_epoch_to_datetime epoch max_year True = (HAL_EOVERFLOW, None)"
    if "1970 \<le> unat max_year" "last_second max_year < unat epoch"
  proof -
    have "unat (of_nat (last_second max_year) :: u64) = last_second max_year"
      using maximum_epoch(2) [OF that(1)] by (intro unat_of_nat_less) simp
    then show ?thesis
      using that unfolding jh_calendar_epoch_to_datetime_def Let_def maximum_epoch(1) [OF that(1)]
      by (simp add: JH_CALENDAR_UNIX_EPOCH_YEAR_def word_less_nat_alt)
  qed
  moreover have "jh_calendar_datetime_to_epoch (Some d) True = (HAL_OK, Some epoch)"
    if "valid_datetime d" "1970 \<le> unat (dt_year d)" "epoch_seconds d = unat epoch" for d
    using datetime_to_epoch_nat [OF that(1)] that(2,3) by simp
  ultimately show ?thesis
    using epoch_to_datetime_in_range [of max_year epoch] by (auto simp: not_less)
qed

text \<open>C26: a date of the calendar from 1970 on, with its right weekday, survives the
  conversion to seconds and back, for every bound that admits its year.\<close>

theorem calendar_datetime_roundtrip:
  assumes "valid_datetime d" "weekday_ok d" "1970 \<le> unat (dt_year d)"
    and "unat (dt_year d) \<le> unat max_year"
  shows "\<exists>epoch. jh_calendar_datetime_to_epoch (Some d) True = (HAL_OK, Some epoch) \<and>
     jh_calendar_epoch_to_datetime epoch max_year True = (HAL_OK, Some d)"
proof -
  define epoch where "epoch = (of_nat (epoch_seconds d) :: u64)"
  have e: "unat epoch = epoch_seconds d"
    unfolding epoch_def using epoch_seconds_less [OF assms(1)] by (intro unat_of_nat_less) simp
  have "unat epoch \<le> last_second max_year"
    using epoch_seconds_le_last [OF assms(1,3,4)] by (simp add: e)
  from epoch_to_datetime_in_range [OF _ this] assms(3,4) obtain d' where
    d': "jh_calendar_epoch_to_datetime epoch max_year True = (HAL_OK, Some d')"
      "valid_datetime d'" "weekday_ok d'" "1970 \<le> unat (dt_year d')" "epoch_seconds d' = unat epoch"
    by auto
  have "d' = d"
    using d' assms by (intro epoch_seconds_inject) (simp_all add: e)
  moreover have "jh_calendar_datetime_to_epoch (Some d) True = (HAL_OK, Some epoch)"
    using datetime_to_epoch_nat [OF assms(1)] assms(3) by (simp add: epoch_def)
  ultimately show ?thesis using d'(1) by blast
qed

text \<open>The leap day of the year 2000, a Tuesday, at 23:59:59.\<close>

lemma calendar_datetime_roundtrip_witness:
  "\<exists>epoch. jh_calendar_datetime_to_epoch
        (Some \<lparr>dt_year = 2000, dt_month = 2, dt_day = 29, dt_hour = 23, dt_minute = 59,
               dt_second = 59, dt_weekday = 2\<rparr>) True = (HAL_OK, Some epoch) \<and>
     jh_calendar_epoch_to_datetime epoch 2099 True =
       (HAL_OK, Some \<lparr>dt_year = 2000, dt_month = 2, dt_day = 29, dt_hour = 23, dt_minute = 59,
               dt_second = 59, dt_weekday = 2\<rparr>)"
proof (rule calendar_datetime_roundtrip)
  have "days_before_year 2000 = 730119" using gregorian_formula [of 1999] by simp
  then show "weekday_ok \<lparr>dt_year = 2000, dt_month = 2, dt_day = 29, dt_hour = 23,
      dt_minute = 59, dt_second = 59, dt_weekday = 2\<rparr>"
    by (simp add: weekday_ok_def date_number_def day_number_def days_before_month_def
        month_length_def upt_conv_Cons del: upt_Suc)
qed (simp_all add: valid_datetime_def month_length_def leap_nat_def)

end
