(* ===== verification/Serial_Frame.thy ===== *)
theory Serial_Frame
  imports Prelude "HOL-Library.Char_ord" "HOL-Library.Sublist"
begin

text \<open>
  The line framing of the serial session protocol, \<open>src/hal/serial/hal_serial_frame.h\<close>:
  \<open>$SC,<seq>,<payload>*<crc>\<close> with a CRC-8 over what stands between the dollar sign and
  the star. A C string is the list of its characters before the terminating NUL;
  reading the character after the last one is reading that NUL. The text \<open>snprintf\<close>
  formats is written out (\<open>%u\<close> as \<open>decimal\<close>, \<open>%02X\<close> as \<open>hex2\<close>), cut off at the size of
  the buffer as the C standard says. The lemmas lead to the round trip of encoder and
  decoder and to the detection of every single-character error.
\<close>

section \<open>The model\<close>

definition HAL_SERIAL_FRAME_PREFIX :: string where "HAL_SERIAL_FRAME_PREFIX = ''$SC,''"
definition HAL_SERIAL_FRAME_PREFIX_LEN :: nat where "HAL_SERIAL_FRAME_PREFIX_LEN = 4"

definition byte_of :: "char \<Rightarrow> u8" where
  "byte_of c = of_char c"

definition crc8_bit :: "u8 \<Rightarrow> u8" where
  "crc8_bit crc = (if crc AND 0x80 \<noteq> 0 then push_bit 1 crc XOR 0x07 else push_bit 1 crc)"

definition crc8_byte :: "u8 \<Rightarrow> u8 \<Rightarrow> u8" where
  "crc8_byte d crc = (crc8_bit ^^ 8) (crc XOR d)"

definition hal_serial_frame_crc8 :: "bytes option \<Rightarrow> u8" where
  "hal_serial_frame_crc8 data = (case data of None \<Rightarrow> 0 | Some d \<Rightarrow> fold crc8_byte d 0)"

subsection \<open>Formatted output\<close>

fun decimal :: "nat \<Rightarrow> string" where
  "decimal n = (if n < 10 then [char_of (48 + n)]
                else decimal (n div 10) @ [char_of (48 + n mod 10)])"

declare decimal.simps [simp del]

definition hex_digit :: "nat \<Rightarrow> char" where
  "hex_digit n = (if n < 10 then char_of (48 + n) else char_of (55 + n))"

definition hex2 :: "u8 \<Rightarrow> string" where
  "hex2 b = [hex_digit (unat b div 16), hex_digit (unat b mod 16)]"

text \<open>What \<open>snprintf\<close> leaves in a buffer of \<open>n\<close> bytes (its NUL apart) and returns.\<close>

definition snprintf :: "nat \<Rightarrow> string \<Rightarrow> string \<times> nat" where
  "snprintf n text = (take (n - 1) text, length text)"

subsection \<open>Encoder\<close>

text \<open>The result: success, what stands in \<open>out\<close>, and the length written to \<open>out_len\<close>.\<close>

definition hal_serial_frame_encode ::
  "u16 \<Rightarrow> string option \<Rightarrow> out_ptr \<Rightarrow> nat \<Rightarrow> out_ptr \<Rightarrow> bool \<times> string option \<times> nat option" where
  "hal_serial_frame_encode seq payload out out_size out_len =
     (case payload of
        None \<Rightarrow> (False, None, None)
      | Some payload \<Rightarrow>
          if \<not> out \<or> out_size < 12 then (False, None, None)
          else if \<exists>c \<in> set payload. c = CHR ''*'' \<or> c = CHR 0x0D \<or> c = CHR 0x0A
          then (False, None, None)
          else
            let (text, written) =
                  snprintf out_size (HAL_SERIAL_FRAME_PREFIX @ decimal (unat seq) @ '','' @ payload)
            in if written \<ge> out_size then (False, Some text, None)
            else
              let crc = hal_serial_frame_crc8 (Some (map byte_of (take (written - 1) (drop 1 text))));
                  (tail, extra) = snprintf (out_size - written) (''*'' @ hex2 crc)
              in if extra \<ge> out_size - written then (False, Some (text @ tail), None)
                 else (True, Some (text @ tail), if out_len then Some (written + extra) else None))"

subsection \<open>Decoder\<close>

definition is_digit :: "char \<Rightarrow> bool" where
  "is_digit c \<longleftrightarrow> of_char c \<ge> (48 :: nat) \<and> of_char c \<le> (57 :: nat)"

text \<open>The loop over the digits: \<open>None\<close> once the number exceeds \<open>0xFFFF\<close>.\<close>

fun parse_seq :: "u32 \<Rightarrow> string \<Rightarrow> u32 option" where
  "parse_seq seq_acc [] = Some seq_acc"
| "parse_seq seq_acc (c # cs) =
     (let seq_acc = seq_acc * 10 + (of_char c - 48) in
      if seq_acc > 0xFFFF then None else parse_seq seq_acc cs)"

definition hex_nibble :: "char \<Rightarrow> u8 option" where
  "hex_nibble c =
     (let b = of_char c :: nat in
      if 48 \<le> b \<and> b \<le> 57 then Some (of_nat (b - 48))
      else if 65 \<le> b \<and> b \<le> 70 then Some (of_nat (10 + (b - 65)))
      else if 97 \<le> b \<and> b \<le> 102 then Some (of_nat (10 + (b - 97)))
      else None)"

fun parse_crc :: "u8 \<Rightarrow> string \<Rightarrow> u8 option" where
  "parse_crc expected_crc [] = Some expected_crc"
| "parse_crc expected_crc (c # cs) =
     (case hex_nibble c of
        None \<Rightarrow> None
      | Some nibble \<Rightarrow> parse_crc (push_bit 4 expected_crc OR nibble) cs)"

text \<open>What follows the check of the arguments; \<open>None\<close> is a return of \<open>false\<close>. The pair is
  the sequence number and the payload.\<close>

definition decode_line :: "string \<Rightarrow> nat \<Rightarrow> (u16 \<times> string) option" where
  "decode_line line payload_out_size =
     (if take HAL_SERIAL_FRAME_PREFIX_LEN line \<noteq> HAL_SERIAL_FRAME_PREFIX then None
      else
        let seq_begin = drop HAL_SERIAL_FRAME_PREFIX_LEN line;
            digits = takeWhile is_digit seq_begin;
            seq_end = dropWhile is_digit seq_begin in
        if digits = [] \<or> seq_end = [] \<or> hd seq_end \<noteq> CHR '','' then None
        else case parse_seq 0 digits of
          None \<Rightarrow> None
        | Some seq_acc \<Rightarrow>
            let payload_begin = tl seq_end;
                payload = takeWhile (\<lambda>c. c \<noteq> CHR ''*'') payload_begin;
                star = dropWhile (\<lambda>c. c \<noteq> CHR ''*'') payload_begin in
            if star = [] then None
            else if length star \<noteq> 3 then None
            else case parse_crc 0 (tl star) of
              None \<Rightarrow> None
            | Some expected_crc \<Rightarrow>
                let crc_len = length line - length star - 1;
                    actual_crc = hal_serial_frame_crc8 (Some (map byte_of (take crc_len (drop 1 line)))) in
                if actual_crc \<noteq> expected_crc then None
                else if length payload + 1 > payload_out_size then None
                else Some (ucast seq_acc, payload))"

text \<open>The result: success, the value written to \<open>seq_out\<close> and the string in \<open>payload_out\<close>,
  which is empty after a failure.\<close>

definition hal_serial_frame_decode ::
  "string option \<Rightarrow> out_ptr \<Rightarrow> out_ptr \<Rightarrow> nat \<Rightarrow> bool \<times> u16 option \<times> string option" where
  "hal_serial_frame_decode line seq_out payload_out payload_out_size =
     (case line of
        None \<Rightarrow> (False, None, None)
      | Some line \<Rightarrow>
          if \<not> seq_out \<or> \<not> payload_out \<or> payload_out_size = 0 then (False, None, None)
          else (case decode_line line payload_out_size of
                  None \<Rightarrow> (False, None, Some [])
                | Some (seq, payload) \<Rightarrow> (True, Some seq, Some payload)))"

section \<open>Digits\<close>

lemma of_char_char_of_digit [simp]:
  "n < 208 \<Longrightarrow> of_char (char_of (48 + n) :: char) = (48 + n :: nat)"
  by (simp add: of_char_of)

lemma of_char_word: "(of_char c :: 'a::len word) = of_nat (of_char c)"
  by (metis of_nat_of_char)

lemma is_digit_char: "(n :: nat) < 10 \<Longrightarrow> is_digit (char_of (48 + n))"
  by (simp add: is_digit_def del: of_char_of)

lemma decimal_digits: "list_all is_digit (decimal n)" "decimal n \<noteq> []"
proof (induction n rule: decimal.induct)
  case (1 n)
  { case 1 show ?case using "1.IH" by (subst decimal.simps) (simp add: is_digit_char) }
  { case 2 show ?case by (subst decimal.simps) simp }
qed

lemma parse_seq_append:
  "parse_seq a (xs @ ys) = (case parse_seq a xs of None \<Rightarrow> None | Some b \<Rightarrow> parse_seq b ys)"
  by (induction a xs rule: parse_seq.induct) (simp_all add: Let_def)

lemma parse_seq_decimal: "n \<le> 0xFFFF \<Longrightarrow> parse_seq 0 (decimal n) = Some (of_nat n)"
proof (induction n rule: decimal.induct)
  case (1 n)
  have step: "parse_seq (of_nat q) [char_of (48 + r)] = Some (of_nat (10 * q + r))"
    if "r < 10" "10 * q + r \<le> 0xFFFF" for q r :: nat
  proof -
    have "(of_nat q * 10 + (of_char (char_of (48 + r) :: char) - 48) :: u32) = of_nat (10 * q + r)"
      using that(1) unfolding of_char_word by (simp del: of_char_of)
    moreover have "\<not> (of_nat (10 * q + r) :: u32) > 0xFFFF"
      using that(2) by (subst word_less_nat_alt, subst unat_of_nat_less) simp_all
    ultimately show ?thesis by (simp add: Let_def mult.commute)
  qed
  show ?case
  proof (cases "n < 10")
    case True
    then show ?thesis using step [of n 0] "1.prems" by (subst decimal.simps) simp
  next
    case False
    have "n div 10 \<le> 0xFFFF" using "1.prems" by (meson div_le_dividend le_trans)
    then have "parse_seq 0 (decimal (n div 10)) = Some (of_nat (n div 10))"
      using "1.IH" False by simp
    moreover have "10 * (n div 10) + n mod 10 = n" by (rule mult_div_mod_eq)
    ultimately show ?thesis
      using step [of "n mod 10" "n div 10"] "1.prems" False
      by (subst decimal.simps) (simp add: parse_seq_append)
  qed
qed

lemma hex_nibble_digit: "n < 16 \<Longrightarrow> hex_nibble (hex_digit n) = Some (of_nat n)"
  by (auto simp: hex_nibble_def hex_digit_def of_char_of Let_def)

lemma parse_crc_hex2: "parse_crc 0 (hex2 b) = Some b"
proof -
  have "of_nat (unat b div 16) = drop_bit 4 b"
    by (simp add: word_unat_eq_iff unat_drop_bit_eq drop_bit_eq_div unat_of_nat_less unat_div
        le_less_trans [OF div_le_dividend])
  moreover have "of_nat (unat b mod 16) = take_bit 4 b"
    by (simp add: word_unat_eq_iff unsigned_take_bit_eq take_bit_eq_mod unat_of_nat_less unat_mod
        le_less_trans [OF mod_less_eq_dividend])
  moreover have "push_bit 4 (drop_bit 4 b) OR take_bit 4 b = b"
    by (rule bit_word_eqI) (auto simp: bit_simps)
  moreover have "unat b div 16 < 16" by (simp add: less_mult_imp_div_less)
  ultimately show ?thesis
    by (simp add: hex2_def hex_nibble_digit del: push_bit_of_nat)
qed

lemma hex_digit_plain: "n < 16 \<Longrightarrow> hex_digit n \<noteq> CHR ''*''"
  using hex_nibble_digit [of n] by (auto simp: hex_nibble_def Let_def)

section \<open>The checksum detects single errors\<close>

lemma top_bit: "z AND 0x80 = 0 \<longleftrightarrow> \<not> bit z 7" for z :: u8
  using and_exp_eq_0_iff_not_bit [of z 7] by simp

lemma bit_crc8_bit:
  "bit (crc8_bit z) 0 \<longleftrightarrow> bit z 7"
  "n < 7 \<Longrightarrow> bit (crc8_bit z) (Suc n) \<longleftrightarrow> bit z n \<noteq> (bit z 7 \<and> bit (7 :: u8) (Suc n))"
proof -
  have shift: "\<not> bit (push_bit 1 z) 0" "n < 7 \<Longrightarrow> bit (push_bit 1 z) (Suc n) \<longleftrightarrow> bit z n"
    unfolding bit_push_bit_iff by simp_all
  have "bit (7 :: u8) 0" by simp
  with shift show "bit (crc8_bit z) 0 \<longleftrightarrow> bit z 7"
    "n < 7 \<Longrightarrow> bit (crc8_bit z) (Suc n) \<longleftrightarrow> bit z n \<noteq> (bit z 7 \<and> bit (7 :: u8) (Suc n))"
    by (cases "bit z 7"; simp only: crc8_bit_def top_bit bit_xor_iff if_True if_False
        simp_thms)+
qed

lemma crc8_bit_inject: "crc8_bit x = crc8_bit y \<Longrightarrow> x = y"
proof (rule bit_word_eqI)
  fix n
  assume eq: "crc8_bit x = crc8_bit y" and n: "n < LENGTH(8)"
  have top: "bit x 7 \<longleftrightarrow> bit y 7" using bit_crc8_bit(1) [of x] bit_crc8_bit(1) [of y] eq by simp
  show "bit x n \<longleftrightarrow> bit y n"
  proof (cases "n = 7")
    case False
    then have "n < 7" using n by simp
    then show ?thesis using bit_crc8_bit(2) [of n x] bit_crc8_bit(2) [of n y] eq top by auto
  qed (simp add: top)
qed

lemma xor_cancel: "a XOR b = a XOR b' \<longleftrightarrow> b = b'" for a b b' :: u8
proof
  assume "a XOR b = a XOR b'"
  then have "a XOR (a XOR b) = a XOR (a XOR b')" by simp
  then show "b = b'" by (simp flip: xor.assoc)
qed simp

lemma crc8_byte_inject:
  "crc8_byte d c = crc8_byte d c' \<Longrightarrow> c = c'" "crc8_byte d c = crc8_byte d' c \<Longrightarrow> d = d'"
proof -
  have "inj crc8_bit" using crc8_bit_inject by (rule injI)
  then have inj: "inj (crc8_bit ^^ 8)" by (rule inj_fn)
  show "crc8_byte d c = crc8_byte d c' \<Longrightarrow> c = c'"
    unfolding crc8_byte_def xor.commute [of _ d] inj_eq [OF inj] xor_cancel .
  show "crc8_byte d c = crc8_byte d' c \<Longrightarrow> d = d'"
    unfolding crc8_byte_def inj_eq [OF inj] xor_cancel .
qed

lemma fold_crc8_inject: "fold crc8_byte xs c = fold crc8_byte xs c' \<Longrightarrow> c = c'"
  by (induction xs arbitrary: c c') (auto dest: crc8_byte_inject)

lemma crc8_single_error:
  assumes "hal_serial_frame_crc8 (Some (xs @ a # ys)) = hal_serial_frame_crc8 (Some (xs @ b # ys))"
  shows "a = b"
proof (rule crc8_byte_inject(2))
  show "crc8_byte a (fold crc8_byte xs 0) = crc8_byte b (fold crc8_byte xs 0)"
    using assms by - (rule fold_crc8_inject [of ys], simp add: hal_serial_frame_crc8_def)
qed

lemma byte_of_inject: "byte_of a = byte_of b \<Longrightarrow> a = b"
proof -
  assume "byte_of a = byte_of b"
  then have "unat (of_nat (of_char a) :: u8) = unat (of_nat (of_char b) :: u8)"
    by (simp add: byte_of_def of_char_word)
  then have "(of_char a :: nat) = of_char b"
    by (simp add: unat_of_nat_less less_eq_char_def)
  then show "a = b" by simp
qed

section \<open>The shape of a line\<close>

definition frame_body :: "u16 \<Rightarrow> string \<Rightarrow> string" where
  "frame_body seq payload = ''SC,'' @ decimal (unat seq) @ '','' @ payload"

definition frame_line :: "u16 \<Rightarrow> string \<Rightarrow> string" where
  "frame_line seq payload =
     CHR ''$'' # frame_body seq payload @
     ''*'' @ hex2 (hal_serial_frame_crc8 (Some (map byte_of (frame_body seq payload))))"

definition plain :: "string \<Rightarrow> bool" where
  "plain payload \<longleftrightarrow> (\<forall>c \<in> set payload. c \<noteq> CHR ''*'' \<and> c \<noteq> CHR 0x0D \<and> c \<noteq> CHR 0x0A)"

lemma length_hex2 [simp]: "length (hex2 b) = 2"
  by (simp add: hex2_def)

text \<open>The text the first \<open>snprintf\<close> makes.\<close>

definition frame_head :: "u16 \<Rightarrow> string \<Rightarrow> string" where
  "frame_head seq payload = HAL_SERIAL_FRAME_PREFIX @ decimal (unat seq) @ '','' @ payload"

lemma frame_head_body: "drop 1 (frame_head seq payload) = frame_body seq payload"
  "length (frame_head seq payload) = Suc (length (frame_body seq payload))"
  "frame_line seq payload = frame_head seq payload @ ''*'' @
     hex2 (hal_serial_frame_crc8 (Some (map byte_of (frame_body seq payload))))"
  by (simp_all add: frame_head_def frame_body_def frame_line_def HAL_SERIAL_FRAME_PREFIX_def)

lemma encode_plain:
  assumes "plain payload" "12 \<le> out_size"
  shows "hal_serial_frame_encode seq (Some payload) True out_size out_len =
    (if length (frame_line seq payload) < out_size
     then (True, Some (frame_line seq payload),
           if out_len then Some (length (frame_line seq payload)) else None)
     else (False, Some (take (out_size - 1) (frame_line seq payload)), None))"
proof -
  define head where "head = frame_head seq payload"
  define tail where "tail = ''*'' @ hex2 (hal_serial_frame_crc8 (Some (map byte_of (frame_body seq payload))))"
  have line: "frame_line seq payload = head @ tail"
    by (simp add: frame_head_body(3) head_def tail_def)
  have len: "length tail = 3" by (simp add: tail_def)
  have "take (length head - 1) (drop 1 head) = frame_body seq payload"
    unfolding head_def frame_head_body(1) by (simp add: frame_head_body(2))
  then have crc: "''*'' @ hex2 (hal_serial_frame_crc8
      (Some (map byte_of (take (length head - 1) (drop 1 head))))) = tail"
    by (simp only: tail_def)
  have no: "\<not> (\<exists>c \<in> set payload. c = CHR ''*'' \<or> c = CHR 0x0D \<or> c = CHR 0x0A)"
    using assms(1) by (auto simp: plain_def)
  have "hal_serial_frame_encode seq (Some payload) True out_size out_len =
     (if length head \<ge> out_size then (False, Some (take (out_size - 1) head), None)
      else if length tail \<ge> out_size - length head
      then (False, Some (take (out_size - 1) head @ take (out_size - length head - 1) tail), None)
      else (True, Some (take (out_size - 1) head @ take (out_size - length head - 1) tail),
            if out_len then Some (length head + length tail) else None))"
    unfolding hal_serial_frame_encode_def snprintf_def Let_def option.case prod.case
      frame_head_def [symmetric] head_def [symmetric]
    using assms(2) no by (cases "out_size \<le> length head") (simp_all add: crc [simplified])
  then show ?thesis
    unfolding line by (auto simp: len)
qed

lemma encode_refused:
  "\<not> plain payload \<or> out_size < 12 \<Longrightarrow>
   hal_serial_frame_encode seq (Some payload) True out_size out_len = (False, None, None)"
  by (auto simp: hal_serial_frame_encode_def plain_def)

lemma takeWhile_digits: "takeWhile is_digit (decimal n @ CHR '','' # xs) = decimal n"
  "dropWhile is_digit (decimal n @ CHR '','' # xs) = CHR '','' # xs"
  using decimal_digits(1) [of n]
  by (auto simp: takeWhile_append list_all_iff dropWhile_append is_digit_def)

lemma takeWhile_star:
  "plain payload \<Longrightarrow> takeWhile (\<lambda>c. c \<noteq> CHR ''*'') (payload @ CHR ''*'' # xs) = payload"
  "plain payload \<Longrightarrow> dropWhile (\<lambda>c. c \<noteq> CHR ''*'') (payload @ CHR ''*'' # xs) = CHR ''*'' # xs"
  by (auto simp: plain_def takeWhile_append dropWhile_append)

lemma frame_line_parts:
  fixes seq payload
  defines "crc \<equiv> hal_serial_frame_crc8 (Some (map byte_of (frame_body seq payload)))"
  shows "take 4 (frame_line seq payload) = ''$SC,''"
    and "drop 4 (frame_line seq payload) =
           decimal (unat seq) @ CHR '','' # payload @ CHR ''*'' # hex2 crc"
    and "length (frame_line seq payload) = length (frame_body seq payload) + 4"
    and "take (length (frame_body seq payload)) (drop 1 (frame_line seq payload)) = frame_body seq payload"
  unfolding crc_def by (simp_all add: frame_line_def) (simp_all add: frame_body_def)

lemma decode_frame_line:
  assumes "plain payload"
  shows "decode_line (frame_line seq payload) payload_size =
     (if length payload < payload_size then Some (seq, payload) else None)"
proof -
  define crc where "crc = hal_serial_frame_crc8 (Some (map byte_of (frame_body seq payload)))"
  have "parse_seq 0 (decimal (unat seq)) = Some (ucast seq)"
    using parse_seq_decimal [of "unat seq"] unat_u16_le [of seq] by simp
  moreover have "ucast (ucast seq :: u32) = seq" by (rule bit_word_eqI) (auto simp: bit_simps)
  moreover have "length (frame_line seq payload) - 4 = length (frame_body seq payload)"
    by (simp add: frame_line_parts)
  ultimately show ?thesis
    using decimal_digits(2) [of "unat seq"] parse_crc_hex2 [of crc]
      takeWhile_star [OF assms, of "hex2 crc"]
    unfolding decode_line_def HAL_SERIAL_FRAME_PREFIX_def HAL_SERIAL_FRAME_PREFIX_LEN_def
      frame_line_parts(1) frame_line_parts(2) [folded crc_def] takeWhile_digits Let_def
    by (simp add: frame_line_parts(4) [simplified] flip: crc_def)
qed


lemma decode_line_shape:
  assumes "decode_line line n = Some r"
  shows "take 4 line = ''$SC,''" "3 \<le> length line" "line ! (length line - 3) = CHR ''*''"
    and "parse_crc 0 (drop (length line - 2) line) =
      Some (hal_serial_frame_crc8 (Some (map byte_of (take (length line - 4) (drop 1 line)))))"
proof -
  define seq_end where "seq_end = dropWhile is_digit (drop 4 line)"
  define star where "star = dropWhile (\<lambda>c. c \<noteq> CHR ''*'') (tl seq_end)"
  have facts: "take 4 line = ''$SC,''" "length star = 3"
    "parse_crc 0 (tl star) =
      Some (hal_serial_frame_crc8 (Some (map byte_of (take (length line - 4) (drop 1 line)))))"
    using assms unfolding decode_line_def HAL_SERIAL_FRAME_PREFIX_def
      HAL_SERIAL_FRAME_PREFIX_LEN_def Let_def star_def seq_end_def
    by (simp_all split: if_splits option.splits prod.splits)
  have "suffix star line"
    unfolding star_def seq_end_def
    by (meson suffix_dropWhile suffix_drop suffix_order.trans suffix_tl)
  then obtain pre where line: "line = pre @ star" by (auto simp: suffix_def)
  have "star \<noteq> []" using facts(2) by auto
  then have "hd star = CHR ''*''"
    unfolding star_def using hd_dropWhile [of "\<lambda>c. c \<noteq> CHR ''*''" "tl seq_end"] by simp
  then show "line ! (length line - 3) = CHR ''*''" "3 \<le> length line"
    using facts(2) \<open>star \<noteq> []\<close> by (simp_all add: line nth_append hd_conv_nth)
  have "tl star = drop (length line - 2) line" using facts(2) by (simp add: line drop_Suc)
  then show "parse_crc 0 (drop (length line - 2) line) =
      Some (hal_serial_frame_crc8 (Some (map byte_of (take (length line - 4) (drop 1 line)))))"
    using facts(3) by simp
  show "take 4 line = ''$SC,''" by (rule facts(1))
qed

lemma corrupted_line_rejected:
  assumes "i < length (frame_body seq payload) + 2" "c \<noteq> frame_line seq payload ! i"
  shows "decode_line ((frame_line seq payload)[i := c]) n = None"
proof (rule ccontr)
  define body where "body = frame_body seq payload"
  define line where "line = (frame_line seq payload)[i := c]"
  define crc where "crc = hal_serial_frame_crc8 (Some (map byte_of body))"
  have frame: "frame_line seq payload = CHR ''$'' # body @ CHR ''*'' # hex2 crc"
    by (simp add: frame_line_def crc_def body_def)
  have len: "length line = length body + 4" unfolding line_def length_list_update by (simp add: frame)
  have i: "i < length body + 2" using assms(1) by (simp add: body_def)
  assume "decode_line ((frame_line seq payload)[i := c]) n \<noteq> None"
  then obtain r where "decode_line line n = Some r" by (auto simp: line_def)
  note shape = decode_line_shape [OF this, unfolded len]
  have "length (frame_line seq payload) = length body + 4" by (simp add: frame)
  then have line_i: "line ! i = c" "i < length line"
    using i unfolding line_def length_list_update by simp_all
  consider (dollar) "i = 0" | (star) "i = length body + 1" | (body) j where "i = Suc j" "j < length body"
    using i by (cases i) (auto simp: less_Suc_eq)
  then show False
  proof cases
    case dollar
    have "line ! 0 = take 4 line ! 0" by simp
    also have "\<dots> = CHR ''$''" by (simp only: shape(1)) simp
    finally show False using dollar line_i assms(2) by (simp add: frame)
  next
    case star
    then show False using shape(3) line_i assms(2) by (simp add: frame)
  next
    case (body j)
    have line: "line = CHR ''$'' # body[j := c] @ CHR ''*'' # hex2 crc"
      using body by (simp add: line_def frame list_update_append)
    have "hal_serial_frame_crc8 (Some (map byte_of (body[j := c]))) = crc"
      using shape(4) parse_crc_hex2 [of crc] by (simp add: line)
    moreover have "map byte_of (body[j := c]) =
        map byte_of (take j body) @ byte_of c # map byte_of (drop (Suc j) body)"
      using body by (simp add: upd_conv_take_nth_drop)
    moreover have "map byte_of body =
        map byte_of (take j body) @ byte_of (body ! j) # map byte_of (drop (Suc j) body)"
      using body by (metis id_take_nth_drop list.simps(9) map_append)
    ultimately have "byte_of c = byte_of (body ! j)"
      using crc8_single_error unfolding crc_def by metis
    then show False using byte_of_inject body assms(2) by (auto simp: frame nth_append)
  qed
qed

section \<open>Properties\<close>

text \<open>C29: a payload without a star, a carriage return or a newline is framed when the
  buffer has at least twelve bytes and room for the whole line and its NUL; every other
  payload or buffer makes the encoder fail (a buffer that is only too short holds a truncated
  line). Decoding the framed line returns the sequence number and the payload, provided the
  payload buffer holds it.\<close>

theorem serial_frame_roundtrip:
  "hal_serial_frame_encode seq (Some payload) True out_size True =
     (if \<not> plain payload \<or> out_size < 12 then (False, None, None)
      else if length (frame_line seq payload) < out_size
      then (True, Some (frame_line seq payload), Some (length (frame_line seq payload)))
      else (False, Some (take (out_size - 1) (frame_line seq payload)), None)) \<and>
   (plain payload \<and> length payload < payload_size \<longrightarrow>
      hal_serial_frame_decode (Some (frame_line seq payload)) True True payload_size =
        (True, Some seq, Some payload))"
  by (auto simp: hal_serial_frame_decode_def decode_frame_line encode_plain encode_refused)

lemma serial_frame_roundtrip_witness:
  "hal_serial_frame_decode (Some (frame_line 65535 ''GET temp'')) True True 16 =
     (True, Some 65535, Some ''GET temp'')"
  using serial_frame_roundtrip [of 65535 "''GET temp''" 64 16] by (simp add: plain_def)

text \<open>C30: a framed line in which any one character up to and including the star has been
  replaced by another is rejected, whatever the character and its place: the checksum, the
  prefix test and the search for the star leave no gap. The payload buffer then holds the
  empty string and no sequence number is written.\<close>

theorem serial_frame_detects_single_error:
  assumes "i < length (frame_body seq payload) + 2" "c \<noteq> frame_line seq payload ! i" "0 < n"
  shows "hal_serial_frame_decode (Some ((frame_line seq payload)[i := c])) True True n =
     (False, None, Some [])"
  using corrupted_line_rejected [OF assms(1,2)] assms(3)
  by (simp add: hal_serial_frame_decode_def)

lemma serial_frame_detects_single_error_witness:
  "hal_serial_frame_decode (Some ((frame_line 7 ''ON'')[6 := CHR ''I''])) True True 16 =
     (False, None, Some [])"
proof (rule serial_frame_detects_single_error)
  have "decimal 7 = ''7''" by code_simp
  then show "6 < length (frame_body 7 ''ON'') + 2" "CHR ''I'' \<noteq> frame_line 7 ''ON'' ! 6"
    by (simp_all add: frame_line_def frame_body_def)
qed simp

end
