(* ===== verification/Can_Timing.thy ===== *)
theory Can_Timing
  imports Prelude
begin

text \<open>
  The search for CAN bit timings, \<open>src/hal/can/jh_can_bit_timing.h\<close>: for every prescaler the
  registers allow, the nearest number of time quanta per bit, the bitrate that results, the
  split of the bit into segments and the sample point; the best candidate wins. All
  arithmetic is that of the code's 32-bit and 64-bit words. The body of the loop is cut
  into the candidate a prescaler gives (\<open>None\<close>: the loop continues with the next) and the
  comparison with the best one so far. The lemmas give each candidate its value in natural
  numbers and show that the loop finds the least candidate of an order.
\<close>

section \<open>The model\<close>

record jh_can_timing =
  prescaler :: u16
  segment1 :: u16
  segment2 :: u16
  sync_jump_width :: u16
  actual_bitrate_hz :: u32
  sample_point_permille :: u16

record jh_can_timing_limits =
  max_prescaler :: u16
  min_segment1 :: u16
  max_segment1 :: u16
  max_segment2 :: u16
  max_sjw :: u16
  default_sample_point_permille :: u16

definition JH_CAN_SP_TOLERANCE_PERMILLE :: u32 where "JH_CAN_SP_TOLERANCE_PERMILLE = 15"

definition jh_can_abs_diff_u32 :: "u32 \<Rightarrow> u32 \<Rightarrow> u32" where
  "jh_can_abs_diff_u32 a b = (if a > b then a - b else b - a)"

text \<open>Where the sample point falls, in quanta, and the two segments around it.\<close>

definition sample_quanta :: "jh_can_timing_limits \<Rightarrow> u32 \<Rightarrow> u32 \<Rightarrow> u32" where
  "sample_quanta limits target quanta =
     (let q = (quanta * target + 500) div 1000;
          q = (if q < ucast (min_segment1 limits) + 1 then ucast (min_segment1 limits) + 1 else q)
      in if q > quanta - 1 then quanta - 1 else q)"

definition split_segments :: "jh_can_timing_limits \<Rightarrow> u32 \<Rightarrow> u32 \<Rightarrow> u32 \<times> u32" where
  "split_segments limits quanta sample =
     (let s1 = sample - 1;
          s2 = quanta - sample;
          (s1, s2) = (if s1 > ucast (max_segment1 limits)
                      then (ucast (max_segment1 limits), quanta - 1 - ucast (max_segment1 limits))
                      else (s1, s2))
      in if s2 > ucast (max_segment2 limits)
         then (quanta - 1 - ucast (max_segment2 limits), ucast (max_segment2 limits))
         else (s1, s2))"

text \<open>A candidate: its two errors and its timing.\<close>

record candidate =
  rate_error :: u32
  sample_error :: u32
  timing :: jh_can_timing

definition make_candidate ::
  "u32 \<Rightarrow> u32 \<Rightarrow> jh_can_timing_limits \<Rightarrow> u32 \<Rightarrow> u32 \<Rightarrow> candidate option" where
  "make_candidate clock_hz bitrate_hz limits target p =
     (let max_total_quanta = 1 + ucast (max_segment1 limits) + ucast (max_segment2 limits);
          max_error = (if bitrate_hz div 200 > 0 then bitrate_hz div 200 else 1);
          quanta_hz = clock_hz div p;
          quanta = (quanta_hz + bitrate_hz div 2) div bitrate_hz in
      if quanta < 4 \<or> quanta > max_total_quanta then None
      else
        let divisor = (ucast p :: u64) * ucast quanta;
            actual = (ucast ((ucast clock_hz + divisor div 2) div divisor) :: u32);
            r_error = jh_can_abs_diff_u32 actual bitrate_hz in
        if r_error > max_error then None
        else
          let (s1, s2) = split_segments limits quanta (sample_quanta limits target quanta) in
          if s1 < ucast (min_segment1 limits) \<or> s1 > ucast (max_segment1 limits) \<or>
             s2 < 1 \<or> s2 > ucast (max_segment2 limits)
          then None
          else
            let sample_permille = (1 + s1) * 1000 div quanta;
                s_error = jh_can_abs_diff_u32 sample_permille target;
                sjw = (if s2 < s1 then s2 else s1)
            in Some \<lparr>rate_error = r_error, sample_error = s_error,
                 timing = \<lparr>prescaler = ucast p, segment1 = ucast s1, segment2 = ucast s2,
                   sync_jump_width =
                     (if sjw < ucast (max_sjw limits) then ucast sjw else max_sjw limits),
                   actual_bitrate_hz = actual,
                   sample_point_permille = ucast sample_permille\<rparr>\<rparr>)"

definition sample_ok :: "candidate \<Rightarrow> bool" where
  "sample_ok c \<longleftrightarrow> sample_error c \<le> JH_CAN_SP_TOLERANCE_PERMILLE"

definition is_preferred :: "u16 \<Rightarrow> u32 \<Rightarrow> candidate \<Rightarrow> bool" where
  "is_preferred preferred_prescaler p c \<longleftrightarrow>
     preferred_prescaler \<noteq> 0 \<and> p = ucast preferred_prescaler \<and> rate_error c = 0 \<and> sample_ok c"

text \<open>\<open>None\<close> is the state before anything was found.\<close>

definition is_better :: "bool \<Rightarrow> candidate \<Rightarrow> candidate option \<Rightarrow> bool" where
  "is_better preferred c best =
     (case best of
        None \<Rightarrow> True
      | Some b \<Rightarrow>
          if preferred \<or> rate_error c < rate_error b then True
          else if rate_error c = rate_error b
          then (if sample_ok c then \<not> sample_ok b
                else \<not> sample_ok b \<and> sample_error c < sample_error b)
          else False)"

function timing_loop ::
  "u32 \<Rightarrow> u32 \<Rightarrow> jh_can_timing_limits \<Rightarrow> u32 \<Rightarrow> u16 \<Rightarrow> u32 \<Rightarrow> candidate option \<Rightarrow> candidate option"
where
  "timing_loop clock_hz bitrate_hz limits target preferred_prescaler p best =
     (if p \<le> ucast (max_prescaler limits) then
        if clock_hz div p = 0 then best
        else (case make_candidate clock_hz bitrate_hz limits target p of
            None \<Rightarrow> timing_loop clock_hz bitrate_hz limits target preferred_prescaler (p + 1) best
          | Some c \<Rightarrow>
              let preferred = is_preferred preferred_prescaler p c in
              if is_better preferred c best then
                (if preferred then Some c
                 else timing_loop clock_hz bitrate_hz limits target preferred_prescaler (p + 1)
                        (Some c))
              else timing_loop clock_hz bitrate_hz limits target preferred_prescaler (p + 1) best)
      else best)"
  by pat_completeness auto

lemma loop_counter_step:
  assumes "p \<le> (ucast (m :: u16) :: u32)"
  shows "unat (p + 1) = unat p + 1"
  using less_trans [OF unat_u16_less [of m], of 4294967295]
  by (intro word_inc_less [OF assms]) simp

termination timing_loop
proof (relation "measure (\<lambda>(_, _, limits, _, _, p, _).
    unat (max_prescaler limits) + 1 - unat (p :: u32))")
qed (auto simp: loop_counter_step word_le_nat_alt)

declare timing_loop.simps [simp del]

definition jh_can_compute_timing ::
  "u32 \<Rightarrow> u32 \<Rightarrow> jh_can_timing_limits option \<Rightarrow> u16 \<Rightarrow> u16 \<Rightarrow> out_ptr \<Rightarrow>
   hal_status \<times> jh_can_timing option" where
  "jh_can_compute_timing clock_hz bitrate_hz limits sample_permille preferred_prescaler out =
     (case limits of
        None \<Rightarrow> (HAL_EINVAL, None)
      | Some limits \<Rightarrow>
          if clock_hz = 0 \<or> bitrate_hz = 0 \<or> \<not> out then (HAL_EINVAL, None)
          else
            let target = (if sample_permille \<noteq> 0 then ucast sample_permille
                          else ucast (default_sample_point_permille limits)) in
            case timing_loop clock_hz bitrate_hz limits target preferred_prescaler 1 None of
              None \<Rightarrow> (HAL_EUNSUPPORTED, None)
            | Some best \<Rightarrow> (HAL_OK, Some (timing best)))"

section \<open>What a candidate is\<close>

definition nat_diff :: "nat \<Rightarrow> nat \<Rightarrow> nat" where
  "nat_diff a b = (if b < a then a - b else b - a)"

definition rounded_div :: "nat \<Rightarrow> nat \<Rightarrow> nat" where
  "rounded_div a d = (a + d div 2) div d"

definition bit_quanta :: "jh_can_timing \<Rightarrow> nat" where
  "bit_quanta t = 1 + unat (segment1 t) + unat (segment2 t)"

text \<open>The timing of one phase meets the limits of the controller and the bitrate asked for.\<close>

definition timing_fits :: "nat \<Rightarrow> nat \<Rightarrow> jh_can_timing_limits \<Rightarrow> jh_can_timing \<Rightarrow> bool" where
  "timing_fits clock bitrate limits t \<longleftrightarrow>
     1 \<le> unat (prescaler t) \<and> prescaler t \<le> max_prescaler limits \<and>
     min_segment1 limits \<le> segment1 t \<and> segment1 t \<le> max_segment1 limits \<and>
     1 \<le> unat (segment2 t) \<and> segment2 t \<le> max_segment2 limits \<and> 4 \<le> bit_quanta t \<and>
     unat (sync_jump_width t) =
       min (min (unat (segment1 t)) (unat (segment2 t))) (unat (max_sjw limits)) \<and>
     unat (actual_bitrate_hz t) = rounded_div clock (unat (prescaler t) * bit_quanta t) \<and>
     nat_diff (unat (actual_bitrate_hz t)) bitrate \<le> max 1 (bitrate div 200) \<and>
     unat (sample_point_permille t) = (1 + unat (segment1 t)) * 1000 div bit_quanta t"

lemma unat_abs_diff: "unat (jh_can_abs_diff_u32 a b) = nat_diff (unat a) (unat b)"
  by (simp add: jh_can_abs_diff_u32_def nat_diff_def unat_sub word_less_nat_alt word_le_nat_alt)

lemma split_segments_sum:
  "split_segments limits n s = (s1, s2) \<Longrightarrow> 1 + s1 + s2 = n"
  by (auto simp: split_segments_def Let_def split: if_splits)

lemma unat_ucast_u16: "unat w \<le> 65535 \<Longrightarrow> unat (ucast (w :: u32) :: u16) = unat w"
  by (simp add: unsigned_ucast_eq take_bit_nat_eq_self)

lemma rounded_div_le: "1 < d \<Longrightarrow> rounded_div a d \<le> a"
proof -
  assume d: "1 < d"
  have "a \<le> a * d" "d div 2 < d" using d by simp_all
  then have "a + d div 2 < a * d + d" by (rule add_le_less_mono)
  then have "a + d div 2 < Suc a * d" by simp
  then have "rounded_div a d < Suc a"
    unfolding rounded_div_def using d by (intro less_mult_imp_div_less)
  then show ?thesis by simp
qed

lemma actual_bitrate:
  assumes "1 < unat p * unat n" "unat p \<le> 65535" "unat n \<le> 131071"
  defines "divisor \<equiv> (ucast (p :: u32) :: u64) * ucast (n :: u32)"
  shows "unat (ucast ((ucast (clock :: u32) + divisor div 2) div divisor) :: u32) =
     rounded_div (unat clock) (unat p * unat n)"
proof -
  define d where "d = unat p * unat n"
  have "d \<le> 65535 * 131071" unfolding d_def by (rule mult_le_mono [OF assms(2,3)])
  then have d_less: "d < 2 ^ 34" by simp
  have "divisor = of_nat d" by (simp add: divisor_def d_def)
  then have d: "unat divisor = d" using d_less by (simp add: unat_of_nat_less)
  have half: "unat (divisor div 2) = d div 2" by (simp add: unat_div d)
  have "unat clock + d div 2 < 2 ^ 64"
  proof -
    have "d div 2 < 2 ^ 34" by (rule le_less_trans [OF div_le_dividend d_less])
    with unat_u32_less [of clock] have "unat clock + d div 2 < 4294967296 + 2 ^ 34"
      by (rule add_strict_mono)
    then show ?thesis by simp
  qed
  then have "unat (ucast clock + divisor div 2) = unat clock + d div 2"
    by (subst unat_word_ariths) (simp add: half)
  then have quot: "unat ((ucast clock + divisor div 2) div divisor) = rounded_div (unat clock) d"
    by (simp add: unat_div d rounded_div_def)
  have "rounded_div (unat clock) d < 4294967296"
    using le_less_trans [OF rounded_div_le unat_u32_less [of clock]] assms(1)
    unfolding d_def by blast
  then show ?thesis
    by (simp add: unsigned_ucast_eq take_bit_nat_eq_self quot flip: d_def)
qed

lemma make_candidate_fits:
  assumes cand: "make_candidate clock_hz bitrate_hz limits target p = Some c"
    and p: "1 \<le> unat p" "p \<le> ucast (max_prescaler limits)"
  shows "timing_fits (unat clock_hz) (unat bitrate_hz) limits (timing c)"
    and "unat (prescaler (timing c)) = unat p"
    and "unat (rate_error c) = nat_diff (unat (actual_bitrate_hz (timing c))) (unat bitrate_hz)"
    and "unat (sample_error c) = nat_diff (unat (sample_point_permille (timing c))) (unat target)"
proof -
  let ?m1 = "max_segment1 limits" and ?m2 = "max_segment2 limits"
  define n where "n = (clock_hz div p + bitrate_hz div 2) div bitrate_hz"
  define divisor where "divisor = (ucast p :: u64) * ucast n"
  define actual where "actual = (ucast ((ucast clock_hz + divisor div 2) div divisor) :: u32)"
  obtain s1 s2 where split: "split_segments limits n (sample_quanta limits target n) = (s1, s2)"
    by fastforce
  note unfolded = cand [unfolded make_candidate_def Let_def, folded n_def,
      folded divisor_def, folded actual_def, unfolded split prod.case]
  have n: "4 \<le> unat n"
    and err: "unat (jh_can_abs_diff_u32 actual bitrate_hz) \<le> max 1 (unat bitrate_hz div 200)"
    and segs: "unat (min_segment1 limits) \<le> unat s1" "unat s1 \<le> unat ?m1" "1 \<le> unat s2" "unat s2 \<le> unat ?m2"
    and c: "c = \<lparr>rate_error = jh_can_abs_diff_u32 actual bitrate_hz,
        sample_error = jh_can_abs_diff_u32 ((1 + s1) * 1000 div n) target,
        timing = \<lparr>prescaler = ucast p, segment1 = ucast s1, segment2 = ucast s2,
          sync_jump_width = (if (if s2 < s1 then s2 else s1) < ucast (max_sjw limits)
             then ucast (if s2 < s1 then s2 else s1) else max_sjw limits),
          actual_bitrate_hz = actual,
          sample_point_permille = ucast ((1 + s1) * 1000 div n)\<rparr>\<rparr>"
    using unfolded by (auto simp: word_less_nat_alt word_le_nat_alt not_less unat_div
        split: if_splits)
  have p_le: "unat p \<le> 65535"
    using p(2) unat_u16_le [of "max_prescaler limits"] by (simp add: word_le_nat_alt)
  have bounds: "unat s1 \<le> 65535" "unat s2 \<le> 65535"
    using segs unat_u16_le [of ?m1] unat_u16_le [of ?m2] by simp_all
  have sum: "unat n = 1 + unat s1 + unat s2"
  proof -
    have "n = of_nat (1 + unat s1 + unat s2)" using split_segments_sum [OF split, symmetric] by (simp add: add.assoc)
    moreover have "1 + unat s1 + unat s2 < 2 ^ LENGTH(32)" using bounds by simp
    ultimately show ?thesis by (simp only: unat_of_nat_less)
  qed
  have n_le: "unat n \<le> 131071" using sum bounds by simp
  have act: "unat actual = rounded_div (unat clock_hz) (unat p * unat n)"
    unfolding actual_def divisor_def
  proof (rule actual_bitrate [OF _ p_le n_le])
    show "1 < unat p * unat n" using n mult_le_mono [OF p(1) n] by simp
  qed
  have sample: "unat ((1 + s1) * 1000 div n) = (1 + unat s1) * 1000 div unat n"
  proof -
    have "(1 + s1) * 1000 = of_nat ((1 + unat s1) * 1000)" by simp
    moreover have "(1 + unat s1) * 1000 < 2 ^ LENGTH(32)" using bounds(1) by simp
    ultimately show ?thesis by (simp only: unat_div unat_of_nat_less)
  qed
  have sample_le: "(1 + unat s1) * 1000 div unat n \<le> 65535"
  proof -
    have "(1 + unat s1) * 1000 \<le> 1000 * unat n" by (simp add: sum)
    then have "(1 + unat s1) * 1000 div unat n \<le> 1000 * unat n div unat n" by (rule div_le_mono)
    then show ?thesis using n by simp
  qed
  have sp: "unat (ucast ((1 + s1) * 1000 div n) :: u16) = (1 + unat s1) * 1000 div unat n"
    using sample_le unfolding sample [symmetric] by (rule unat_ucast_u16)
  show "unat (prescaler (timing c)) = unat p" using p_le by (simp add: c unat_ucast_u16)
  show "unat (rate_error c) = nat_diff (unat (actual_bitrate_hz (timing c))) (unat bitrate_hz)"
    by (simp add: c unat_abs_diff)
  show "unat (sample_error c) = nat_diff (unat (sample_point_permille (timing c))) (unat target)"
    by (simp only: c unat_abs_diff candidate.select_convs jh_can_timing.select_convs sp sample)
  show "timing_fits (unat clock_hz) (unat bitrate_hz) limits (timing c)"
    using p p_le segs bounds n err sample_le
    by (auto simp: timing_fits_def bit_quanta_def c word_le_nat_alt word_less_nat_alt
        unat_ucast_u16 sum [simplified, symmetric] act sp [simplified] unat_abs_diff)
qed

section \<open>The loop finds the least candidate\<close>

text \<open>The order in which the loop prefers candidates: the smaller rate error first, then
  the sample errors, all those within the tolerance counting the same.\<close>

definition effective_sample_error :: "candidate \<Rightarrow> nat" where
  "effective_sample_error c = (if sample_ok c then 0 else unat (sample_error c))"

definition beats :: "candidate \<Rightarrow> candidate \<Rightarrow> bool" where
  "beats c b \<longleftrightarrow> rate_error c < rate_error b \<or>
     rate_error c = rate_error b \<and> effective_sample_error c < effective_sample_error b"

lemma beats_later: "beats c b \<Longrightarrow> \<not> beats c' b \<Longrightarrow> beats c c'"
  and beats_asym: "beats c b \<Longrightarrow> \<not> beats b c"
  by (auto simp: beats_def word_less_nat_alt word_unat_eq_iff)

lemma is_better_beats:
  "is_better preferred c best \<longleftrightarrow>
     (case best of None \<Rightarrow> True | Some b \<Rightarrow> preferred \<or> beats c b)"
  by (auto simp: is_better_def beats_def effective_sample_error_def sample_ok_def
      JH_CAN_SP_TOLERANCE_PERMILLE_def word_less_nat_alt word_le_nat_alt split: option.splits)

text \<open>\<open>b\<close> is the first of the best candidates among the prescalers below \<open>p\<close>.\<close>

definition first_best :: "(nat \<Rightarrow> candidate option) \<Rightarrow> nat \<Rightarrow> candidate option \<Rightarrow> bool" where
  "first_best C p best \<longleftrightarrow>
     (case best of
        None \<Rightarrow> \<forall>q. 1 \<le> q \<and> q < p \<longrightarrow> C q = None
      | Some b \<Rightarrow> \<exists>q. 1 \<le> q \<and> q < p \<and> C q = Some b \<and>
          (\<forall>q' c. 1 \<le> q' \<and> q' < p \<and> C q' = Some c \<longrightarrow>
             \<not> beats c b \<and> (q' < q \<longrightarrow> beats b c)))"

lemma first_best_skip: "first_best C p best \<Longrightarrow> C p = None \<Longrightarrow> first_best C (Suc p) best"
  by (fastforce simp: first_best_def less_Suc_eq split: option.splits)

lemma first_best_keep:
  "first_best C p (Some b) \<Longrightarrow> C p = Some c \<Longrightarrow> \<not> beats c b \<Longrightarrow> first_best C (Suc p) (Some b)"
  by (fastforce simp: first_best_def less_Suc_eq)

lemma first_best_SomeI:
  assumes "1 \<le> q" "q < p" "C q = Some b"
    and "\<And>q' c. 1 \<le> q' \<Longrightarrow> q' < p \<Longrightarrow> C q' = Some c \<Longrightarrow> \<not> beats c b \<and> (q' < q \<longrightarrow> beats b c)"
  shows "first_best C p (Some b)"
  unfolding first_best_def option.case using assms by (intro exI [of _ q]) blast

lemma first_best_replace:
  assumes "first_best C p best" "C p = Some c" "1 \<le> p"
    and "case best of None \<Rightarrow> True | Some b \<Rightarrow> beats c b"
  shows "first_best C (Suc p) (Some c)"
proof -
  have old: "beats c c'" if "1 \<le> q'" "q' < p" "C q' = Some c'" for q' c'
  proof (cases best)
    case None
    then show ?thesis using assms(1) that by (simp add: first_best_def)
  next
    case (Some b)
    then have "\<not> beats c' b" using assms(1) that by (auto simp: first_best_def)
    then show ?thesis using assms(4) Some beats_later [of c b c'] by simp
  qed
  have "\<not> beats c' c \<and> (q' < p \<longrightarrow> beats c c')" if "1 \<le> q'" "q' < Suc p" "C q' = Some c'" for q' c'
  proof (cases "q' = p")
    case True
    then have "c' = c" using that(3) assms(2) by simp
    then show ?thesis using beats_asym [of c c] True by blast
  next
    case False
    then have "beats c c'" using that by (intro old) simp_all
    then show ?thesis using beats_asym by blast
  qed
  then show ?thesis by (intro first_best_SomeI [of p] assms(2,3)) simp_all
qed

lemma first_best_beyond:
  "first_best C p best \<Longrightarrow> (\<And>q. p \<le> q \<Longrightarrow> C q = None) \<Longrightarrow> first_best C (p + k) best"
proof (induction k)
  case (Suc k)
  have "first_best C (p + k) best" by (rule Suc.IH [OF Suc.prems]) 
  then have "first_best C (Suc (p + k)) best" by (rule first_best_skip) (rule Suc.prems(2), simp)
  then show ?case by simp
qed simp

definition candidate_at ::
  "u32 \<Rightarrow> u32 \<Rightarrow> jh_can_timing_limits \<Rightarrow> u32 \<Rightarrow> nat \<Rightarrow> candidate option" where
  "candidate_at clock_hz bitrate_hz limits target q =
     (if q \<le> unat (max_prescaler limits)
      then make_candidate clock_hz bitrate_hz limits target (of_nat q) else None)"

text \<open>Once the prescaled clock is zero no later prescaler has a candidate.\<close>

lemma no_candidate_beyond:
  assumes "clock_hz div p = 0" "1 \<le> unat p" "bitrate_hz \<noteq> 0" "unat p \<le> q"
  shows "candidate_at clock_hz bitrate_hz limits target q = None"
proof (cases "q \<le> unat (max_prescaler limits)")
  case True
  have "unat clock_hz div unat p = 0" using assms(1) by (metis unat_0 unat_div)
  then have "unat clock_hz < unat p" using assms(2) by (simp add: div_eq_0_iff)
  moreover have "unat (of_nat q :: u32) = q"
    using True unat_u16_le [of "max_prescaler limits"] by (intro unat_of_nat_less) simp
  ultimately have "unat (clock_hz div of_nat q) = 0"
    using assms(4) by (simp add: unat_div)
  then have "clock_hz div of_nat q = 0" by (simp only: unsigned_eq_0_iff)
  moreover have "unat (bitrate_hz div 2 div bitrate_hz) = 0"
    using assms(3) by (simp add: unat_div div_eq_0_iff unat_gt_0)
  then have "bitrate_hz div 2 div bitrate_hz = 0" by (simp only: unsigned_eq_0_iff)
  ultimately show ?thesis
    by (simp add: candidate_at_def make_candidate_def)
qed (simp add: candidate_at_def)

definition preferred_at :: "u16 \<Rightarrow> nat \<Rightarrow> candidate \<Rightarrow> bool" where
  "preferred_at preferred_prescaler q c \<longleftrightarrow>
     preferred_prescaler \<noteq> 0 \<and> q = unat preferred_prescaler \<and> rate_error c = 0 \<and> sample_ok c"

text \<open>The preferred candidate if there is one, otherwise the first of the best.\<close>

definition chosen :: "(nat \<Rightarrow> candidate option) \<Rightarrow> u16 \<Rightarrow> nat \<Rightarrow> candidate option \<Rightarrow> bool" where
  "chosen C preferred_prescaler p r \<longleftrightarrow>
     (\<exists>q c. 1 \<le> q \<and> C q = Some c \<and> preferred_at preferred_prescaler q c \<and> r = Some c) \<or>
     (\<forall>q c. 1 \<le> q \<and> C q = Some c \<longrightarrow> \<not> preferred_at preferred_prescaler q c) \<and>
     first_best C p r"

lemma timing_loop_chosen:
  fixes clock_hz bitrate_hz limits target
  defines "C \<equiv> candidate_at clock_hz bitrate_hz limits target"
  assumes "bitrate_hz \<noteq> 0"
  shows "1 \<le> unat p \<Longrightarrow> unat p \<le> Suc (unat (max_prescaler limits)) \<Longrightarrow> first_best C (unat p) best \<Longrightarrow>
    (\<And>q c. 1 \<le> q \<Longrightarrow> q < unat p \<Longrightarrow> C q = Some c \<Longrightarrow> \<not> preferred_at preferred_prescaler q c) \<Longrightarrow>
    chosen C preferred_prescaler (Suc (unat (max_prescaler limits)))
      (timing_loop clock_hz bitrate_hz limits target preferred_prescaler p best)"
proof (induction "Suc (unat (max_prescaler limits)) - unat p" arbitrary: p best)
  case 0
  then have p: "unat p = Suc (unat (max_prescaler limits))" by simp
  then have "\<not> p \<le> ucast (max_prescaler limits)" by (simp add: word_le_nat_alt)
  moreover have "\<not> preferred_at preferred_prescaler q c" if "1 \<le> q" "C q = Some c" for q c
    using "0.prems"(4) [of q c] that p by (cases "q < unat p") (auto simp: C_def candidate_at_def)
  ultimately show ?case
    using "0.prems"(3) p by (subst timing_loop.simps) (auto simp: chosen_def)
next
  case (Suc k)
  note prems = Suc.prems
  have le: "p \<le> ucast (max_prescaler limits)" using Suc.hyps(2) by (simp add: word_le_nat_alt)
  have step: "unat (p + 1) = Suc (unat p)" using loop_counter_step [OF le] by simp
  have next_p: "k = Suc (unat (max_prescaler limits)) - unat (p + 1)" "1 \<le> unat (p + 1)"
    "unat (p + 1) \<le> Suc (unat (max_prescaler limits))"
    using Suc.hyps(2) le by (simp_all add: step word_le_nat_alt)
  have C_p: "C (unat p) = make_candidate clock_hz bitrate_hz limits target p"
    using le by (simp add: C_def candidate_at_def word_le_nat_alt)
  show ?case
  proof (cases "clock_hz div p = 0")
    case True
    have none: "C q = None" if "unat p \<le> q" for q
      unfolding C_def using no_candidate_beyond [OF True prems(1) assms(2) that] .
    then have "first_best C (unat p + (Suc (unat (max_prescaler limits)) - unat p)) best"
      using prems(3) by (intro first_best_beyond) auto
    moreover have "\<not> preferred_at preferred_prescaler q c" if "1 \<le> q" "C q = Some c" for q c
      using prems(4) [of q c] that none [of q] by (cases "q < unat p") auto
    ultimately show ?thesis
      using True le prems(2) by (subst timing_loop.simps) (auto simp: chosen_def)
  next
    case running: False
    show ?thesis
    proof (cases "C (unat p)")
      case None
      have "chosen C preferred_prescaler (Suc (unat (max_prescaler limits)))
          (timing_loop clock_hz bitrate_hz limits target preferred_prescaler (p + 1) best)"
        using first_best_skip [OF prems(3) None] prems(4) None
        by (intro Suc.hyps(1) [OF next_p]) (auto simp: step less_Suc_eq)
      then show ?thesis
        using running le None C_p by (subst timing_loop.simps) simp
    next
      case (Some c)
      have pref: "is_preferred preferred_prescaler p c \<longleftrightarrow> preferred_at preferred_prescaler (unat p) c"
        by (auto simp: is_preferred_def preferred_at_def word_unat_eq_iff)
      have unfold: "timing_loop clock_hz bitrate_hz limits target preferred_prescaler p best =
        (if is_better (is_preferred preferred_prescaler p c) c best then
           (if is_preferred preferred_prescaler p c then Some c
            else timing_loop clock_hz bitrate_hz limits target preferred_prescaler (p + 1) (Some c))
         else timing_loop clock_hz bitrate_hz limits target preferred_prescaler (p + 1) best)"
        using running le Some C_p by (subst timing_loop.simps) (simp add: Let_def)
      show ?thesis
      proof (cases "preferred_at preferred_prescaler (unat p) c")
        case True
        then have "timing_loop clock_hz bitrate_hz limits target preferred_prescaler p best = Some c"
          unfolding unfold by (simp add: pref is_better_beats split: option.splits)
        then show ?thesis unfolding chosen_def using Some True prems(1) by auto
      next
        case False
        have no_pref: "\<not> preferred_at preferred_prescaler q c'"
          if "1 \<le> q" "q < unat (p + 1)" "C q = Some c'" for q c'
          using prems(4) [of q c'] that False Some by (cases "q = unat p") (auto simp: step)
        show ?thesis
        proof (cases "is_better False c best")
          case True
          then have "first_best C (Suc (unat p)) (Some c)"
            by (intro first_best_replace [OF prems(3) Some prems(1)])
              (cases best; simp add: is_better_beats)
          then show ?thesis
            using Suc.hyps(1) [OF next_p, of "Some c"] no_pref True False
            by (simp add: unfold pref step)
        next
          case worse: False
          then obtain b where b: "best = Some b" "\<not> beats c b"
            by (auto simp: is_better_beats split: option.splits)
          then have "first_best C (Suc (unat p)) best"
            using first_best_keep [of C "unat p" b c] prems(3) Some by simp
          then show ?thesis
            using Suc.hyps(1) [OF next_p, of best] no_pref worse False
            by (simp add: unfold pref step)
        qed
      qed
    qed
  qed
qed

section \<open>Properties\<close>

definition timing_target :: "jh_can_timing_limits \<Rightarrow> u16 \<Rightarrow> u32" where
  "timing_target limits sample_permille =
     (if sample_permille \<noteq> 0 then ucast sample_permille
      else ucast (default_sample_point_permille limits))"

lemma chosen_candidate:
  assumes "chosen C preferred_prescaler p (Some c)"
  shows "\<exists>q \<ge> 1. C q = Some c"
  using assms unfolding chosen_def first_best_def by auto

lemma compute_timing_chosen:
  assumes "clock_hz \<noteq> 0" "bitrate_hz \<noteq> 0"
  obtains r where "chosen (candidate_at clock_hz bitrate_hz limits (timing_target limits sample_permille))
      preferred_prescaler (Suc (unat (max_prescaler limits))) r"
    and "jh_can_compute_timing clock_hz bitrate_hz (Some limits) sample_permille preferred_prescaler True =
       (case r of None \<Rightarrow> (HAL_EUNSUPPORTED, None) | Some c \<Rightarrow> (HAL_OK, Some (timing c)))"
proof
  let ?r = "timing_loop clock_hz bitrate_hz limits (timing_target limits sample_permille)
      preferred_prescaler 1 None"
  have "first_best C (unat (1 :: u32)) None" for C by (simp add: first_best_def)
  then show "chosen (candidate_at clock_hz bitrate_hz limits (timing_target limits sample_permille))
      preferred_prescaler (Suc (unat (max_prescaler limits))) ?r"
    by (intro timing_loop_chosen assms) simp_all
  show "jh_can_compute_timing clock_hz bitrate_hz (Some limits) sample_permille preferred_prescaler True =
       (case ?r of None \<Rightarrow> (HAL_EUNSUPPORTED, None) | Some c \<Rightarrow> (HAL_OK, Some (timing c)))"
    using assms unfolding jh_can_compute_timing_def timing_target_def [symmetric] Let_def by simp
qed

text \<open>
  Two places where the comment of the function (lines 61 and 65 of the header, and \<open>doc/api/en/10_can_display.md\<close>)
  says more than the code does. A preferred prescaler with an exact bitrate is not used when its sample point
  misses the target by more than the tolerance; and below 200 bit/s the allowed error of 1 Hz is more than half a
  percent.
\<close>

abbreviation two_prescalers :: jh_can_timing_limits where
  "two_prescalers \<equiv> \<lparr>max_prescaler = 2, min_segment1 = 2, max_segment1 = 16, max_segment2 = 8, max_sjw = 4,
     default_sample_point_permille = 800\<rparr>"

lemma can_timing_preferred_not_taken:
  "candidate_at 16000000 2000000 two_prescalers 800 2 = Some
     \<lparr>rate_error = 0, sample_error = 50, timing = \<lparr>prescaler = 2, segment1 = 2, segment2 = 1, sync_jump_width = 1,
       actual_bitrate_hz = 2000000, sample_point_permille = 750\<rparr>\<rparr>"
  "jh_can_compute_timing 16000000 2000000 (Some two_prescalers) 800 2 True =
     (HAL_OK, Some \<lparr>prescaler = 1, segment1 = 5, segment2 = 2, sync_jump_width = 2, actual_bitrate_hz = 2000000,
       sample_point_permille = 750\<rparr>)"
  by code_simp+

lemma can_timing_one_percent_off:
  "jh_can_compute_timing 404 100 (Some two_prescalers) 800 0 True =
     (HAL_OK, Some \<lparr>prescaler = 1, segment1 = 2, segment2 = 1, sync_jump_width = 1, actual_bitrate_hz = 101,
       sample_point_permille = 750\<rparr>)"
  by code_simp

text \<open>C31: the search succeeds exactly when some prescaler the registers allow has a
  candidate. Then it returns the candidate of the preferred prescaler if that meets the
  bitrate exactly and also the sample point within the tolerance (the header's comment asks for the
  exact bitrate only; \<open>can_timing_preferred_not_taken\<close> shows the difference); otherwise the candidate with
  the smallest bitrate error, among those one whose sample point is within 15 permille of
  the target, else the one nearest the target, and the lowest prescaler among equals.\<close>

theorem can_timing_search_is_optimal:
  assumes "clock_hz \<noteq> 0" "bitrate_hz \<noteq> 0"
  shows "\<exists>r. chosen (candidate_at clock_hz bitrate_hz limits (timing_target limits sample_permille))
           preferred_prescaler (Suc (unat (max_prescaler limits))) r \<and>
     jh_can_compute_timing clock_hz bitrate_hz (Some limits) sample_permille preferred_prescaler True =
       (case r of None \<Rightarrow> (HAL_EUNSUPPORTED, None) | Some c \<Rightarrow> (HAL_OK, Some (timing c)))"
  using compute_timing_chosen [OF assms, of limits sample_permille preferred_prescaler] by metis

lemma can_timing_search_is_optimal_witness:
  "\<exists>c. chosen (candidate_at 16000000 2000000 two_prescalers (timing_target two_prescalers 800)) 2
       (Suc (unat (max_prescaler two_prescalers))) (Some c) \<and>
     timing c = \<lparr>prescaler = 1, segment1 = 5, segment2 = 2, sync_jump_width = 2, actual_bitrate_hz = 2000000,
       sample_point_permille = 750\<rparr>"
proof -
  have "16000000 \<noteq> (0 :: u32)" "2000000 \<noteq> (0 :: u32)" by simp_all
  from can_timing_search_is_optimal [OF this, of two_prescalers 800 2] obtain r where
    r: "chosen (candidate_at 16000000 2000000 two_prescalers (timing_target two_prescalers 800)) 2
       (Suc (unat (max_prescaler two_prescalers))) r"
      "jh_can_compute_timing 16000000 2000000 (Some two_prescalers) 800 2 True =
       (case r of None \<Rightarrow> (HAL_EUNSUPPORTED, None) | Some c \<Rightarrow> (HAL_OK, Some (timing c)))" by (elim exE conjE)
  then show ?thesis unfolding can_timing_preferred_not_taken(2) by (cases r) auto
qed

text \<open>C32: a timing the search returns fits the controller: prescaler and both segments are
  within the register ranges, the jump width is as large as the segments and the register
  allow, the bit has at least four quanta, the bitrate reported is the controller clock
  divided by prescaler and quanta, rounded, and the sample point reported is that of the segments. From
  200 bit/s on the bitrate reported is within half a percent of the one asked for; below, where the header's
  comment promises the same, within 1 Hz (\<open>can_timing_one_percent_off\<close>). No wrap-around of
  the 32-bit arithmetic spoils this, whatever the limits.\<close>

theorem can_timing_fits_controller:
  assumes "jh_can_compute_timing clock_hz bitrate_hz (Some limits) sample_permille
      preferred_prescaler True = (HAL_OK, Some t)"
  shows "timing_fits (unat clock_hz) (unat bitrate_hz) limits t \<and>
    (if 200 \<le> unat bitrate_hz then 200 * nat_diff (unat (actual_bitrate_hz t)) (unat bitrate_hz) \<le> unat bitrate_hz
     else nat_diff (unat (actual_bitrate_hz t)) (unat bitrate_hz) \<le> 1)"
proof -
  have "clock_hz \<noteq> 0" "bitrate_hz \<noteq> 0"
    using assms by (auto simp: jh_can_compute_timing_def split: if_splits)
  then obtain r where r: "chosen (candidate_at clock_hz bitrate_hz limits
        (timing_target limits sample_permille))
      preferred_prescaler (Suc (unat (max_prescaler limits))) r"
    and result: "(HAL_OK, Some t) =
      (case r of None \<Rightarrow> (HAL_EUNSUPPORTED, None) | Some c \<Rightarrow> (HAL_OK, Some (timing c)))"
    unfolding assms [symmetric] by (rule compute_timing_chosen)
  then obtain c where "r = Some c" "timing c = t" by (cases r) auto
  note c = r [unfolded this(1)] this(2)
  from chosen_candidate [OF c(1)] obtain q where q: "1 \<le> q" "q \<le> unat (max_prescaler limits)"
    "make_candidate clock_hz bitrate_hz limits (timing_target limits sample_permille) (of_nat q) = Some c"
    by (auto simp: candidate_at_def split: if_splits)
  have "unat (of_nat q :: u32) = q"
    using q(2) unat_u16_le [of "max_prescaler limits"] by (intro unat_of_nat_less) simp
  then have fits: "timing_fits (unat clock_hz) (unat bitrate_hz) limits t"
    using make_candidate_fits(1) [OF q(3)] q(1,2) c(2) by (simp add: word_le_nat_alt)
  then have "nat_diff (unat (actual_bitrate_hz t)) (unat bitrate_hz) \<le> max 1 (unat bitrate_hz div 200)"
    unfolding timing_fits_def by (elim conjE)
  moreover have "200 * max 1 (b div 200) \<le> b" if "200 \<le> b" for b :: nat using that by (simp add: max_def)
  ultimately show ?thesis using fits by (auto simp: max_def split: if_splits)
qed

lemma can_timing_fits_controller_witness:
  "timing_fits 8000000 500000
     \<lparr>max_prescaler = 2, min_segment1 = 2, max_segment1 = 16, max_segment2 = 8, max_sjw = 4,
      default_sample_point_permille = 800\<rparr>
     \<lparr>prescaler = 1, segment1 = 12, segment2 = 3, sync_jump_width = 3,
      actual_bitrate_hz = 500000, sample_point_permille = 812\<rparr> \<and>
   200 * nat_diff 500000 500000 \<le> 500000"
proof -
  have "jh_can_compute_timing 8000000 500000
     (Some \<lparr>max_prescaler = 2, min_segment1 = 2, max_segment1 = 16, max_segment2 = 8, max_sjw = 4,
      default_sample_point_permille = 800\<rparr>) 0 0 True =
     (HAL_OK, Some \<lparr>prescaler = 1, segment1 = 12, segment2 = 3, sync_jump_width = 3,
      actual_bitrate_hz = 500000, sample_point_permille = 812\<rparr>)"
    by code_simp
  from can_timing_fits_controller [OF this] show ?thesis by simp
qed

end
