(* ===== verification/Adc_Scan.thy ===== *)
theory Adc_Scan
  imports Prelude
begin

text \<open>
  The reader of the double-buffered ADC scan ring, \<open>src/hal/analog/jh_adc_scan_ring.h\<close>: which
  half and which frame in it hold the newest complete frame, from what the reader sampled
  of the two DMA channels and of the completion interrupt's bookkeeping. The result is
  \<open>None\<close> for \<open>false\<close>, otherwise the pair written to \<open>out_half\<close> and \<open>out_frame\<close>. The
  specification counts the samples since the start: the lemmas show that the reader finds
  the frame that count says is the newest.
\<close>

section \<open>The model\<close>

definition UINT8_MAX :: u8 where "UINT8_MAX = 255"

definition jh_adc_scan_latest_frame ::
  "u8 \<Rightarrow> u32 \<Rightarrow> u8 \<Rightarrow> u32 \<Rightarrow> u32 \<Rightarrow> u8 \<Rightarrow> (u8 \<times> u32) option" where
  "jh_adc_scan_latest_frame busy_half written_samples pin_count block_frames sequence completed_half =
     (if pin_count = 0 \<or> block_frames = 0 then None
      else if busy_half < 2 then
        (let frames = written_samples div ucast pin_count in
         if frames \<ge> 1 then Some (busy_half, frames - 1)
         else if busy_half = 0 \<and> sequence = 0 then None
         else Some (1 - busy_half, block_frames - 1))
      else if sequence = 0 then None
      else Some (completed_half, block_frames - 1))"

record jh_adc_scan_channel =
  busy_before :: bool
  busy_after :: bool
  written :: u32

text \<open>The body of the loop for the half \<open>b\<close>; the outer \<open>None\<close> is \<open>continue\<close>.\<close>

definition pick_busy ::
  "jh_adc_scan_channel list \<Rightarrow> u8 \<Rightarrow> u32 \<Rightarrow> u32 \<Rightarrow> u8 \<Rightarrow> (u8 \<times> u32) option option" where
  "pick_busy channels pin_count block_frames full b =
     (let ch = channels ! unat b in
      if \<not> busy_before ch then None
      else
        let w = (if busy_after ch then written ch else full);
            frames = w div ucast pin_count in
        if frames \<ge> 1 then Some (Some (b, frames - 1))
        else
          let other = 1 - b in
          if written (channels ! unat other) < full then Some None
          else Some (Some (other, block_frames - 1)))"

definition jh_adc_scan_pick_frame ::
  "jh_adc_scan_channel list \<Rightarrow> u8 \<Rightarrow> u32 \<Rightarrow> u32 \<Rightarrow> u8 \<Rightarrow> (u8 \<times> u32) option" where
  "jh_adc_scan_pick_frame channels pin_count block_frames sequence completed_half =
     (if pin_count = 0 \<or> block_frames = 0 then None
      else
        let full = block_frames * ucast pin_count in
        case pick_busy channels pin_count block_frames full 0 of
          Some r \<Rightarrow> r
        | None \<Rightarrow>
            (case pick_busy channels pin_count block_frames full 1 of
               Some r \<Rightarrow> r
             | None \<Rightarrow>
                 let full0 = written (channels ! 0) \<ge> full;
                     full1 = written (channels ! 1) \<ge> full in
                 if full0 \<noteq> full1
                 then jh_adc_scan_latest_frame (if full0 then 0 else 1) full pin_count
                        block_frames sequence completed_half
                 else jh_adc_scan_latest_frame UINT8_MAX 0 pin_count block_frames sequence
                        completed_half))"

section \<open>Counting samples\<close>

text \<open>After \<open>k\<close> whole blocks and \<open>w\<close> further samples, the newest complete frame, counted
  from the start, and the place where the ring keeps the frame with a number. A block has
  \<open>frames\<close> frames of \<open>pins\<close> samples.\<close>

definition newest_frame :: "nat \<Rightarrow> nat \<Rightarrow> nat \<Rightarrow> nat \<Rightarrow> nat option" where
  "newest_frame pins frames k w =
     (let samples = k * (frames * pins) + w in
      if samples div pins = 0 then None else Some (samples div pins - 1))"

definition frame_place :: "nat \<Rightarrow> nat \<Rightarrow> u8 \<times> u32" where
  "frame_place frames n = (of_nat (n div frames mod 2), of_nat (n mod frames))"

lemma newest_frame_split:
  assumes "0 < pins"
  shows "newest_frame pins frames k w =
     (if k * frames + w div pins = 0 then None else Some (k * frames + w div pins - 1))"
proof -
  have "(k * (frames * pins) + w) div pins = k * frames + w div pins"
    using assms by (simp add: mult.assoc [symmetric])
  then show ?thesis by (simp add: newest_frame_def Let_def)
qed

lemma newest_place:
  assumes "0 < pins" "0 < frames" "w < frames * pins"
  shows "map_option (frame_place frames) (newest_frame pins frames k w) =
     (if 1 \<le> w div pins then Some (of_nat (k mod 2), of_nat (w div pins - 1))
      else if k = 0 then None
      else Some (of_nat ((k - 1) mod 2), of_nat (frames - 1)))"
proof -
  define q where "q = w div pins"
  have q: "q < frames" unfolding q_def using assms(3) by (intro less_mult_imp_div_less)
  consider (inside) "1 \<le> q" | (empty) "q = 0" "k = 0" | (before) "q = 0" "0 < k" by linarith
  then show ?thesis
    unfolding newest_frame_split [OF assms(1)] q_def [symmetric]
  proof cases
    case inside
    then obtain r where r: "q = Suc r" by (cases q) auto
    then have "(k * frames + r) div frames = k" "(k * frames + r) mod frames = r"
      using q by simp_all
    then show "map_option (frame_place frames)
        (if k * frames + q = 0 then None else Some (k * frames + q - 1)) =
      (if 1 \<le> q then Some (of_nat (k mod 2), of_nat (q - 1))
      else if k = 0 then None else Some (of_nat ((k - 1) mod 2), of_nat (frames - 1)))"
      by (simp add: frame_place_def r)
  next
    case before
    then obtain k' where k: "k = Suc k'" by (cases k) auto
    obtain f where f: "frames = Suc f" using assms(2) by (cases frames) auto
    have "(k' * Suc f + f) div Suc f = k'" "(k' * Suc f + f) mod Suc f = f"
      by (simp_all del: mult_Suc mult_Suc_right)
    moreover have "Suc k' * frames - 1 = k' * Suc f + f" by (simp add: f)
    ultimately show "map_option (frame_place frames)
        (if k * frames + q = 0 then None else Some (k * frames + q - 1)) =
      (if 1 \<le> q then Some (of_nat (k mod 2), of_nat (q - 1))
      else if k = 0 then None else Some (of_nat ((k - 1) mod 2), of_nat (frames - 1)))"
      using before unfolding k frame_place_def by (simp add: f ac_simps)
  qed simp
qed

lemma frames_word:
  fixes w :: u32 and pin_count :: u8
  assumes "pin_count \<noteq> 0"
  shows "w div ucast pin_count \<ge> 1 \<longleftrightarrow> 1 \<le> unat w div unat pin_count"
    and "1 \<le> unat w div unat pin_count \<Longrightarrow>
      w div ucast pin_count - 1 = of_nat (unat w div unat pin_count - 1)"
proof -
  have div: "unat (w div ucast pin_count) = unat w div unat pin_count" by (simp add: unat_div)
  then show "w div ucast pin_count \<ge> 1 \<longleftrightarrow> 1 \<le> unat w div unat pin_count"
    by (simp add: word_le_nat_alt)
  assume "1 \<le> unat w div unat pin_count"
  then have "unat (w div ucast pin_count - 1) = unat w div unat pin_count - 1"
    using word_dec [of "w div ucast pin_count"] by (simp add: div)
  from arg_cong [OF this, of "of_nat :: nat \<Rightarrow> u32"]
  show "w div ucast pin_count - 1 = of_nat (unat w div unat pin_count - 1)" by simp
qed

lemma last_frame_word:
  assumes "block_frames \<noteq> (0 :: u32)"
  shows "block_frames - 1 = of_nat (unat block_frames - 1)"
proof -
  have "unat (block_frames - 1) = unat block_frames - 1"
    using assms by (intro word_dec) (simp add: Suc_leI unat_gt_0)
  from arg_cong [OF this, of "of_nat :: nat \<Rightarrow> u32"] show ?thesis by simp
qed

lemma half_words:
  "(of_nat (k mod 2) :: u8) < 2"
  "(of_nat (k mod 2) :: u8) = 0 \<longleftrightarrow> even k"
  "0 < k \<Longrightarrow> (1 :: u8) - of_nat (k mod 2) = of_nat ((k - 1) mod 2)"
  "unat (of_nat (k mod 2) :: u8) = k mod 2"
proof -
  have "k mod 2 = 0 \<or> k mod 2 = 1" by auto
  then show "(of_nat (k mod 2) :: u8) < 2" "(of_nat (k mod 2) :: u8) = 0 \<longleftrightarrow> even k"
    "unat (of_nat (k mod 2) :: u8) = k mod 2"
    by (auto simp: even_iff_mod_2_eq_zero)
  assume "0 < k"
  then obtain k' where "k = Suc k'" by (cases k) auto
  then show "(1 :: u8) - of_nat (k mod 2) = of_nat ((k - 1) mod 2)"
    by (cases "even k'") (simp_all add: even_iff_mod_2_eq_zero odd_iff_mod_2_eq_one mod_Suc)
qed

section \<open>Properties\<close>

lemma counted_word:
  assumes "k < 2 ^ 32" "j = k \<or> Suc j = k"
  shows "(of_nat j :: u32) = 0 \<longleftrightarrow> j = 0"
proof -
  have "unat (of_nat j :: u32) = j" using assms by (intro unat_of_nat_less) auto
  moreover have "(of_nat j :: u32) = 0 \<longleftrightarrow> unat (of_nat j :: u32) = 0" by (rule unsigned_eq_0_iff [symmetric])
  ultimately show ?thesis by (simp only:)
qed

lemma latest_between:
  assumes "pin_count \<noteq> 0" "block_frames \<noteq> 0" "k < 2 ^ 32" "j = k \<or> Suc j = k"
  shows "jh_adc_scan_latest_frame UINT8_MAX w pin_count block_frames (of_nat j) (of_nat ((j - 1) mod 2)) =
    map_option (frame_place (unat block_frames)) (newest_frame (unat pin_count) (unat block_frames) j 0)"
proof -
  have pos: "0 < unat pin_count" "0 < unat block_frames" using assms(1,2) by (simp_all add: unat_gt_0)
  show ?thesis
    unfolding newest_place [OF pos mult_pos_pos [OF pos(2,1)]] jh_adc_scan_latest_frame_def Let_def counted_word [OF assms(3,4)]
    using assms(1,2) last_frame_word [OF assms(2)] by (simp add: UINT8_MAX_def)
qed

text \<open>C34: while the ring writes block \<open>k\<close> into half \<open>k mod 2\<close> and \<open>w\<close> samples of it have
  landed, the reader gets the newest frame whose samples are all there, and nothing before
  there is one, also when the interrupt that counts the block before is still pending, the very first
  block included. When no half is being written, it gets the last frame of the last block the interrupt has
  counted, and nothing before the first.\<close>

theorem adc_latest_frame_is_newest:
  assumes "pin_count \<noteq> 0" "block_frames \<noteq> 0"
    and "unat w < unat block_frames * unat pin_count"
    and "k < 2 ^ 32" "j = k \<or> Suc j = k"
  shows "jh_adc_scan_latest_frame (of_nat (k mod 2)) w pin_count block_frames (of_nat j) completed =
      map_option (frame_place (unat block_frames))
        (newest_frame (unat pin_count) (unat block_frames) k (unat w)) \<and>
    jh_adc_scan_latest_frame UINT8_MAX w pin_count block_frames (of_nat j) (of_nat ((j - 1) mod 2)) =
      map_option (frame_place (unat block_frames)) (newest_frame (unat pin_count) (unat block_frames) j 0)"
proof -
  have pos: "0 < unat pin_count" "0 < unat block_frames" using assms(1,2) by (simp_all add: unat_gt_0)
  note seq = counted_word [OF assms(4,5)]
  have one: "k = 1 \<or> j \<noteq> 0 \<or> k = 0" using assms(5) by auto
  have "jh_adc_scan_latest_frame (of_nat (k mod 2)) w pin_count block_frames (of_nat j) completed =
      map_option (frame_place (unat block_frames))
        (newest_frame (unat pin_count) (unat block_frames) k (unat w))"
    unfolding newest_place [OF pos assms(3)] jh_adc_scan_latest_frame_def Let_def
      frames_word(1) [OF assms(1)] seq
    using assms(1,2) frames_word(2) [OF assms(1), of w] last_frame_word [OF assms(2)] one assms(5)
      half_words [of k]
    by (cases "k = 0") auto
  then show ?thesis using latest_between [OF assms(1,2,4,5)] by blast
qed

text \<open>The third block with two samples; the first block complete and its interrupt pending; the gap after block 3.\<close>

lemma adc_latest_frame_is_newest_witness:
  "jh_adc_scan_latest_frame 1 2 4 8 2 0 = Some (0, 7) \<and> jh_adc_scan_latest_frame 1 0 4 8 0 0 = Some (0, 7) \<and>
   jh_adc_scan_latest_frame 0 2 4 8 0 0 = None \<and> jh_adc_scan_latest_frame UINT8_MAX 2 4 8 2 1 = Some (1, 7)"
  using adc_latest_frame_is_newest [of 4 8 2 3 2 0] adc_latest_frame_is_newest [of 4 8 0 1 0 0]
    adc_latest_frame_is_newest [of 4 8 2 0 0 0]
  by (simp add: newest_frame_def frame_place_def)

section \<open>What a reader samples\<close>

text \<open>
  The ring: \<open>Writing k w\<close> when \<open>k\<close> blocks are complete and \<open>w\<close> samples of the next one have landed; \<open>Between k r\<close>
  in the gap behind block number \<open>k\<close>, where no channel is busy, the channel of the next block already put back to
  its base or not (\<open>r\<close>). A channel that has filled its half keeps its pointer at the end until it is
  put back, and before its first block it is at the base.
\<close>

datatype adc_ring = Writing nat nat | Between nat bool

fun ring_busy :: "adc_ring \<Rightarrow> nat \<Rightarrow> bool" where
  "ring_busy (Writing k w) b \<longleftrightarrow> k mod 2 = b"
| "ring_busy (Between k r) b \<longleftrightarrow> False"

fun ring_written :: "nat \<Rightarrow> adc_ring \<Rightarrow> nat \<Rightarrow> nat" where
  "ring_written full (Writing k w) b = (if k mod 2 = b then w else if k = 0 then 0 else full)"
| "ring_written full (Between k r) b =
     (if k mod 2 = b then (if r \<or> k < 2 then 0 else full) else if k = 0 then 0 else full)"

text \<open>Both pointers alike in the gap: they do not tell which block is the last one.\<close>

fun pointers_alike :: "adc_ring \<Rightarrow> bool" where
  "pointers_alike (Writing k w) \<longleftrightarrow> False"
| "pointers_alike (Between k r) \<longleftrightarrow> k = 0 \<or> 2 \<le> k \<and> \<not> r"

definition sample_ring :: "nat \<Rightarrow> adc_ring \<Rightarrow> jh_adc_scan_channel list" where
  "sample_ring full ring = map (\<lambda>b. \<lparr>busy_before = ring_busy ring b, busy_after = ring_busy ring b,
     written = of_nat (ring_written full ring b)\<rparr>) [0, 1]"

text \<open>The block ended between the two looks at the channel of half \<open>b\<close>: whatever the pointers read by then.\<close>

definition ended_sample :: "nat \<Rightarrow> jh_adc_scan_channel list \<Rightarrow> bool" where
  "ended_sample b channels \<longleftrightarrow> length channels = 2 \<and> busy_before (channels ! b) \<and> \<not> busy_after (channels ! b) \<and>
     \<not> busy_before (channels ! (1 - b))"

lemma other_half: "1 - of_nat (k mod 2) = (of_nat (Suc k mod 2) :: u8)"
  by (cases "even k") (simp_all add: even_iff_mod_2_eq_zero odd_iff_mod_2_eq_one mod_Suc)

lemma sample_ring_nth:
  "b < 2 \<Longrightarrow> sample_ring full ring ! b = \<lparr>busy_before = ring_busy ring b, busy_after = ring_busy ring b,
     written = of_nat (ring_written full ring b)\<rparr>"
  by (auto simp: sample_ring_def less_Suc_eq numeral_2_eq_2)

lemma full_words:
  fixes pin_count :: u8 and block_frames :: u32
  assumes "pin_count \<noteq> 0" "block_frames \<noteq> 0" "unat block_frames * unat pin_count < 2 ^ 32"
  defines "full \<equiv> block_frames * (ucast pin_count :: u32)"
  shows "unat full = unat block_frames * unat pin_count" "0 < full" "full div ucast pin_count = block_frames"
    "full = of_nat (unat block_frames * unat pin_count)"
proof -
  have pos: "0 < unat pin_count" "0 < unat block_frames" using assms(1,2) by (simp_all add: unat_gt_0)
  show u: "unat full = unat block_frames * unat pin_count"
    unfolding full_def using assms(3) by (subst unat_mult_lem [THEN iffD1]) simp_all
  then show "0 < full" using pos by (simp add: word_less_nat_alt)
  show "full div ucast pin_count = block_frames"
    using pos by (intro word_unat_eq_iff [THEN iffD2]) (simp add: unat_div u)
  show "full = of_nat (unat block_frames * unat pin_count)" by (simp add: full_def)
qed

lemma pick_idle_half: "\<not> busy_before (channels ! unat b) \<Longrightarrow> pick_busy channels pin_count block_frames full b = None"
  by (simp add: pick_busy_def Let_def)

lemma pick_by_busy:
  assumes "pin_count \<noteq> 0" "block_frames \<noteq> 0" "b < 2"
    and busy: "pick_busy channels pin_count block_frames (block_frames * ucast pin_count) (of_nat b) = Some r"
    and idle: "\<not> busy_before (channels ! (1 - b))"
  shows "jh_adc_scan_pick_frame channels pin_count block_frames sequence completed = r"
proof -
  consider "b = 0" | "b = 1" using assms(3) by linarith
  then show ?thesis
  proof cases
    case 1
    then show ?thesis using assms(1,2) busy by (simp add: jh_adc_scan_pick_frame_def Let_def)
  next
    case 2
    then have "pick_busy channels pin_count block_frames full 0 = None" for full using idle by (intro pick_idle_half) simp
    then show ?thesis using 2 assms(1,2) busy by (simp add: jh_adc_scan_pick_frame_def Let_def)
  qed
qed

lemma pick_idle:
  assumes "pin_count \<noteq> 0" "block_frames \<noteq> 0" "\<not> busy_before (channels ! 0)" "\<not> busy_before (channels ! 1)"
  shows "jh_adc_scan_pick_frame channels pin_count block_frames sequence completed =
    (let full = block_frames * ucast pin_count; full0 = (written (channels ! 0) \<ge> full) in
     if full0 \<noteq> (written (channels ! 1) \<ge> full)
     then jh_adc_scan_latest_frame (if full0 then 0 else 1) full pin_count block_frames sequence completed
     else jh_adc_scan_latest_frame UINT8_MAX 0 pin_count block_frames sequence completed)"
proof -
  have "pick_busy channels pin_count block_frames full 0 = None" "pick_busy channels pin_count block_frames full 1 = None" for full
    using assms(3,4) by (intro pick_idle_half; simp)+
  then show ?thesis using assms(1,2) by (simp add: jh_adc_scan_pick_frame_def Let_def)
qed

text \<open>A sample from the middle of a block.\<close>

lemma pick_writing:
  assumes "pin_count \<noteq> 0" "block_frames \<noteq> 0" "unat block_frames * unat pin_count < 2 ^ 32"
    and w: "w < unat block_frames * unat pin_count"
  shows "jh_adc_scan_pick_frame (sample_ring (unat block_frames * unat pin_count) (Writing k w)) pin_count block_frames sequence completed =
    map_option (frame_place (unat block_frames)) (newest_frame (unat pin_count) (unat block_frames) k w)"
proof -
  note f = full_words [OF assms(1-3)]
  have pos: "0 < unat pin_count" "0 < unat block_frames" using assms(1,2) by (simp_all add: unat_gt_0)
  let ?c = "sample_ring (unat block_frames * unat pin_count) (Writing k w)"
  have uw: "unat (of_nat w :: u32) = w" using w assms(3) by (intro unat_of_nat_less) simp
  have this_half: "?c ! (k mod 2) = \<lparr>busy_before = True, busy_after = True, written = of_nat w\<rparr>" by (simp add: sample_ring_nth)
  have other: "1 - k mod 2 = Suc k mod 2" by (cases "even k") (simp_all add: even_iff_mod_2_eq_zero odd_iff_mod_2_eq_one mod_Suc)
  have ne: "k mod 2 \<noteq> Suc k mod 2" by (simp add: mod_Suc)
  have idle: "\<not> busy_before (?c ! (1 - k mod 2))" unfolding other using ne by (simp add: sample_ring_nth)
  have w': "written (?c ! (Suc k mod 2)) = (if k = 0 then 0 else block_frames * ucast pin_count)"
    using ne by (simp add: sample_ring_nth)
  have busy: "pick_busy ?c pin_count block_frames (block_frames * ucast pin_count) (of_nat (k mod 2)) =
      (if 1 \<le> w div unat pin_count then Some (Some (of_nat (k mod 2), of_nat (w div unat pin_count - 1)))
       else if k = 0 then Some None else Some (Some (of_nat (Suc k mod 2), block_frames - 1)))"
  proof (cases "1 \<le> w div unat pin_count")
    case True
    then have "of_nat w div ucast pin_count - 1 = (of_nat (w div unat pin_count - 1) :: u32)" "1 \<le> (of_nat w :: u32) div ucast pin_count"
      using frames_word [OF assms(1), of "of_nat w"] unfolding uw by blast+
    then show ?thesis using True by (simp add: pick_busy_def half_words(4) this_half)
  next
    case False
    then have "\<not> 1 \<le> (of_nat w :: u32) div ucast pin_count" using frames_word(1) [OF assms(1), of "of_nat w"] unfolding uw by blast
    then have "pick_busy ?c pin_count block_frames (block_frames * ucast pin_count) (of_nat (k mod 2)) =
      (if written (?c ! (Suc k mod 2)) < block_frames * ucast pin_count then Some None else Some (Some (of_nat (Suc k mod 2), block_frames - 1)))"
      by (simp only: pick_busy_def half_words(4) this_half Let_def jh_adc_scan_channel.select_convs other_half if_False if_True simp_thms)
    then show ?thesis using False f(2) unfolding w' by simp
  qed
  have "(of_nat (Suc k mod 2) :: u8) = of_nat ((k - 1) mod 2)" if "0 < k" using half_words(3) [OF that] other_half [of k] by simp
  then have "(if 1 \<le> w div unat pin_count then Some (Some (of_nat (k mod 2), of_nat (w div unat pin_count - 1)))
       else if k = 0 then Some None else Some (Some (of_nat (Suc k mod 2), block_frames - 1))) =
    Some (map_option (frame_place (unat block_frames)) (newest_frame (unat pin_count) (unat block_frames) k w))"
    unfolding newest_place [OF pos w] last_frame_word [OF assms(2)] by simp
  with busy have "pick_busy ?c pin_count block_frames (block_frames * ucast pin_count) (of_nat (k mod 2)) =
    Some (map_option (frame_place (unat block_frames)) (newest_frame (unat pin_count) (unat block_frames) k w))" by (rule trans)
  from pick_by_busy [OF assms(1,2) _ this idle] show ?thesis by simp
qed

text \<open>In the gap behind a block. The interrupt has counted \<open>j\<close> blocks.\<close>

lemma pick_between:
  assumes "pin_count \<noteq> 0" "block_frames \<noteq> 0" "unat block_frames * unat pin_count < 2 ^ 32" "k < 2 ^ 32" "j = k \<or> Suc j = k"
  shows "jh_adc_scan_pick_frame (sample_ring (unat block_frames * unat pin_count) (Between k r)) pin_count block_frames
      (of_nat j) (of_nat ((j - 1) mod 2)) =
    map_option (frame_place (unat block_frames))
      (newest_frame (unat pin_count) (unat block_frames) (if pointers_alike (Between k r) then j else k) 0)"
proof -
  note f = full_words [OF assms(1-3)]
  have pos: "0 < unat pin_count" "0 < unat block_frames" using assms(1,2) by (simp_all add: unat_gt_0)
  let ?full = "block_frames * (ucast pin_count :: u32)"
  let ?c = "sample_ring (unat block_frames * unat pin_count) (Between k r)"
  have idle: "\<not> busy_before (?c ! 0)" "\<not> busy_before (?c ! 1)" by (simp_all add: sample_ring_nth)
  have full_iff: "written (?c ! b) \<ge> ?full \<longleftrightarrow> ring_written (unat block_frames * unat pin_count) (Between k r) b \<noteq> 0" if "b < 2" for b
  proof -
    have "?full \<noteq> 0" using f(2) by auto
    then show ?thesis using pos that by (simp add: sample_ring_nth)
  qed
  have ends: "(written (?c ! 0) \<ge> ?full) = (ring_written (unat block_frames * unat pin_count) (Between k r) 0 \<noteq> 0)"
    "(written (?c ! 1) \<ge> ?full) = (ring_written (unat block_frames * unat pin_count) (Between k r) 1 \<noteq> 0)"
    by (rule full_iff; simp)+
  have last: "jh_adc_scan_latest_frame UINT8_MAX 0 pin_count block_frames (of_nat j) (of_nat ((j - 1) mod 2)) =
      map_option (frame_place (unat block_frames)) (newest_frame (unat pin_count) (unat block_frames) j 0)"
    using latest_between [OF assms(1,2,4,5)] .
  note pick = pick_idle [OF assms(1,2) idle, of "of_nat j" "of_nat ((j - 1) mod 2)", unfolded Let_def ends]
  show ?thesis
  proof (cases "pointers_alike (Between k r)")
    case True
    then have "ring_written (unat block_frames * unat pin_count) (Between k r) 0 \<noteq> 0 \<longleftrightarrow>
        ring_written (unat block_frames * unat pin_count) (Between k r) 1 \<noteq> 0" using pos by auto
    then show ?thesis using True pick last by simp
  next
    case False
    then have k: "0 < k" "r \<or> k < 2" by auto
    have h: "ring_written (unat block_frames * unat pin_count) (Between k r) 0 \<noteq> 0 \<longleftrightarrow> odd k"
      "ring_written (unat block_frames * unat pin_count) (Between k r) 1 \<noteq> 0 \<longleftrightarrow> even k"
      using k pos by (auto simp: even_iff_mod_2_eq_zero odd_iff_mod_2_eq_one)
    have b: "(if odd k then 0 else 1) = (of_nat ((k - 1) mod 2) :: u8)"
      using k(1) half_words(2,3) [of k] by (cases "even k") (auto simp: even_iff_mod_2_eq_zero odd_iff_mod_2_eq_one)
    have "1 \<le> block_frames" using pos by (simp add: word_le_nat_alt)
    then have "jh_adc_scan_latest_frame (of_nat ((k - 1) mod 2)) ?full pin_count block_frames (of_nat j) (of_nat ((j - 1) mod 2)) =
        Some (of_nat ((k - 1) mod 2), block_frames - 1)"
      using assms(1,2) half_words(1) [of "k - 1"] by (simp only: jh_adc_scan_latest_frame_def Let_def f(3) if_True if_False simp_thms)
    then show ?thesis
      using False pick k(1) unfolding h b newest_place [OF pos mult_pos_pos [OF pos(2,1)]] last_frame_word [OF assms(2)] by auto
  qed
qed

text \<open>The block of half \<open>k mod 2\<close> ended under the reader's eyes.\<close>

lemma pick_ended:
  assumes "pin_count \<noteq> 0" "block_frames \<noteq> 0" "unat block_frames * unat pin_count < 2 ^ 32" and c: "ended_sample (k mod 2) channels"
  shows "jh_adc_scan_pick_frame channels pin_count block_frames sequence completed =
    map_option (frame_place (unat block_frames)) (newest_frame (unat pin_count) (unat block_frames) (Suc k) 0)"
proof -
  have pos: "0 < unat pin_count" "0 < unat block_frames" using assms(1,2) by (simp_all add: unat_gt_0)
  have "1 \<le> block_frames" using pos by (simp add: word_le_nat_alt)
  then have busy: "pick_busy channels pin_count block_frames (block_frames * ucast pin_count) (of_nat (k mod 2)) =
      Some (Some (of_nat (k mod 2), block_frames - 1))"
    using c by (simp add: pick_busy_def half_words(4) ended_sample_def full_words(3) [OF assms(1-3)])
  have newest: "map_option (frame_place (unat block_frames)) (newest_frame (unat pin_count) (unat block_frames) (Suc k) 0) =
      Some (of_nat (k mod 2), block_frames - 1)"
    unfolding newest_place [OF pos mult_pos_pos [OF pos(2,1)]] last_frame_word [OF assms(2)] by simp
  have "\<not> busy_before (channels ! (1 - k mod 2))" "k mod 2 < 2" using c by (simp_all add: ended_sample_def)
  from pick_by_busy [OF assms(1,2) this(2) busy this(1)] show ?thesis unfolding newest .
qed

text \<open>C33: from a sample of the two channels the reader picks the newest complete frame: in the middle of a
  block that of the block in progress or the last one of the block before, using neither the sequence
  counter nor the half the interrupt marked; in the gap between two blocks, where no channel is busy, the last frame
  of the block that just ended when one pointer alone is at its end, and of the last block the interrupt has counted when
  the pointers do not tell, so that a pending interrupt does harm there only; and the last frame of a block that ended
  between the two looks at its channel, whatever the pointers read. (Samples in which both
  channels look busy, which the header calls torn by a stall, are taken again by the backend.)\<close>

theorem adc_pick_frame_is_newest:
  assumes "pin_count \<noteq> 0" "block_frames \<noteq> 0" "unat block_frames * unat pin_count < 2 ^ 32"
  shows "(w < unat block_frames * unat pin_count \<longrightarrow>
      jh_adc_scan_pick_frame (sample_ring (unat block_frames * unat pin_count) (Writing k w)) pin_count block_frames sequence completed =
        map_option (frame_place (unat block_frames)) (newest_frame (unat pin_count) (unat block_frames) k w)) \<and>
    (k < 2 ^ 32 \<and> (j = k \<or> Suc j = k) \<longrightarrow>
      jh_adc_scan_pick_frame (sample_ring (unat block_frames * unat pin_count) (Between k r)) pin_count block_frames
          (of_nat j) (of_nat ((j - 1) mod 2)) =
        map_option (frame_place (unat block_frames))
          (newest_frame (unat pin_count) (unat block_frames) (if pointers_alike (Between k r) then j else k) 0)) \<and>
    (ended_sample (k mod 2) channels \<longrightarrow>
      jh_adc_scan_pick_frame channels pin_count block_frames sequence completed =
        map_option (frame_place (unat block_frames)) (newest_frame (unat pin_count) (unat block_frames) (Suc k) 0))"
  using pick_writing [OF assms] pick_between [OF assms] pick_ended [OF assms] by blast

text \<open>Four pins, eight frames per half: the third block with 6 samples; the gap behind block 3, the fourth half put back;
  the same gap with both pointers at their ends and the interrupt pending; and the third block ending between two looks.\<close>

theorem adc_pick_frame_is_newest_witness:
  "jh_adc_scan_pick_frame (sample_ring 32 (Writing 2 6)) 4 8 1 0 = Some (0, 0) \<and>
   jh_adc_scan_pick_frame (sample_ring 32 (Between 3 True)) 4 8 2 1 = Some (0, 7) \<and>
   jh_adc_scan_pick_frame (sample_ring 32 (Between 3 False)) 4 8 2 1 = Some (1, 7) \<and>
   jh_adc_scan_pick_frame
     [\<lparr>busy_before = True, busy_after = False, written = 0\<rparr>,
      \<lparr>busy_before = False, busy_after = True, written = 3\<rparr>] 4 8 1 0 = Some (0, 7)"
proof (intro conjI)
  show "jh_adc_scan_pick_frame (sample_ring 32 (Writing 2 6)) 4 8 1 0 = Some (0, 0)"
    using adc_pick_frame_is_newest [of 4 8 6 2 1 0] by (simp add: newest_frame_def frame_place_def)
  show "jh_adc_scan_pick_frame (sample_ring 32 (Between 3 True)) 4 8 2 1 = Some (0, 7)"
    using adc_pick_frame_is_newest [of 4 8 0 3 0 0 2 True] by (simp add: newest_frame_def frame_place_def)
  show "jh_adc_scan_pick_frame (sample_ring 32 (Between 3 False)) 4 8 2 1 = Some (1, 7)"
    using adc_pick_frame_is_newest [of 4 8 0 3 0 0 2 False] by (simp add: newest_frame_def frame_place_def)
  show "jh_adc_scan_pick_frame
     [\<lparr>busy_before = True, busy_after = False, written = 0\<rparr>,
      \<lparr>busy_before = False, busy_after = True, written = 3\<rparr>] 4 8 1 0 = Some (0, 7)"
    using adc_pick_frame_is_newest [of 4 8 0 2 1 0 0 False "[\<lparr>busy_before = True, busy_after = False, written = 0\<rparr>,
      \<lparr>busy_before = False, busy_after = True, written = 3\<rparr>]"]
    by (simp add: newest_frame_def frame_place_def ended_sample_def)
qed

end
