(* ===== verification/Gamepad_Parser.thy ===== *)
theory Gamepad_Parser
  imports Prelude "HOL-Library.Signed_Division"
begin

text \<open>
  The HID gamepad parser, \<open>src/hal/bluetooth/jh_bluetooth_gamepad_parser.c\<close>: a report
  descriptor is read item by item into a list of fields and report layouts; input reports
  are decoded by these fields into snapshots, and changed snapshots are queued for the
  application.

  An array with a count is the list of its used entries (the fields, the layouts, the
  local usages), a stack is a list with its top first; the ring of queued snapshots keeps
  its sixteen slots, head and count. Signed integers are words read with \<open>sint\<close>. The position
  in the descriptor is a natural number: it never passes the descriptor's length, which is
  at most 256. A layout found in the table is its index, which is the pointer of the code.
\<close>

section \<open>Constants and data\<close>

type_synonym i16 = "16 word"
type_synonym i32 = "32 word"
type_synonym i64 = "64 word"

definition JH_BLUETOOTH_GAMEPAD_DESCRIPTOR_MAX :: nat where "JH_BLUETOOTH_GAMEPAD_DESCRIPTOR_MAX = 256"
definition JH_BLUETOOTH_GAMEPAD_REPORT_MAX :: nat where "JH_BLUETOOTH_GAMEPAD_REPORT_MAX = 32"
definition JH_BLUETOOTH_GAMEPAD_QUEUE_CAPACITY :: nat where "JH_BLUETOOTH_GAMEPAD_QUEUE_CAPACITY = 16"
definition JH_BLUETOOTH_GAMEPAD_BUTTON_COUNT :: u16 where "JH_BLUETOOTH_GAMEPAD_BUTTON_COUNT = 32"
definition JH_BLUETOOTH_GAMEPAD_AXIS_COUNT :: nat where "JH_BLUETOOTH_GAMEPAD_AXIS_COUNT = 9"
definition JH_BLUETOOTH_GAMEPAD_FIELD_CAPACITY :: nat where "JH_BLUETOOTH_GAMEPAD_FIELD_CAPACITY = 48"
definition JH_BLUETOOTH_GAMEPAD_REPORT_ID_CAPACITY :: nat where "JH_BLUETOOTH_GAMEPAD_REPORT_ID_CAPACITY = 8"

definition JH_BLUETOOTH_GAMEPAD_DPAD_NONE :: u8 where "JH_BLUETOOTH_GAMEPAD_DPAD_NONE = 0"
definition JH_BLUETOOTH_GAMEPAD_DPAD_UP :: u8 where "JH_BLUETOOTH_GAMEPAD_DPAD_UP = 1"
definition JH_BLUETOOTH_GAMEPAD_DPAD_RIGHT :: u8 where "JH_BLUETOOTH_GAMEPAD_DPAD_RIGHT = 2"
definition JH_BLUETOOTH_GAMEPAD_DPAD_DOWN :: u8 where "JH_BLUETOOTH_GAMEPAD_DPAD_DOWN = 4"
definition JH_BLUETOOTH_GAMEPAD_DPAD_LEFT :: u8 where "JH_BLUETOOTH_GAMEPAD_DPAD_LEFT = 8"

definition JH_HID_USAGE_JOYSTICK :: u16 where "JH_HID_USAGE_JOYSTICK = 0x04"
definition JH_HID_USAGE_GAME_PAD :: u16 where "JH_HID_USAGE_GAME_PAD = 0x05"
definition JH_HID_USAGE_X :: u16 where "JH_HID_USAGE_X = 0x30"
definition JH_HID_USAGE_WHEEL :: u16 where "JH_HID_USAGE_WHEEL = 0x38"
definition JH_HID_USAGE_HAT_SWITCH :: u16 where "JH_HID_USAGE_HAT_SWITCH = 0x39"
definition JH_HID_COLLECTION_APPLICATION :: u32 where "JH_HID_COLLECTION_APPLICATION = 1"
definition JH_HID_MAIN_FLAG_CONSTANT :: u32 where "JH_HID_MAIN_FLAG_CONSTANT = 1"
definition JH_HID_MAIN_FLAG_VARIABLE :: u8 where "JH_HID_MAIN_FLAG_VARIABLE = 2"
definition JH_HID_MAIN_FLAG_NULL_STATE :: u8 where "JH_HID_MAIN_FLAG_NULL_STATE = 64"
definition JH_HID_COLLECTION_DEPTH_MAX :: nat where "JH_HID_COLLECTION_DEPTH_MAX = 8"
definition JH_HID_GLOBAL_STACK_MAX :: nat where "JH_HID_GLOBAL_STACK_MAX = 4"
definition JH_HID_LOCAL_USAGE_CAPACITY :: nat where
  "JH_HID_LOCAL_USAGE_CAPACITY = JH_BLUETOOTH_GAMEPAD_FIELD_CAPACITY"
definition JH_HID_REPORT_ID_UNDEFINED :: u16 where "JH_HID_REPORT_ID_UNDEFINED = 0xFFFF"
definition JH_HID_USAGE_PAGE_DESKTOP :: u16 where "JH_HID_USAGE_PAGE_DESKTOP = 0x01"
definition JH_HID_USAGE_PAGE_BUTTON :: u16 where "JH_HID_USAGE_PAGE_BUTTON = 0x09"
definition JH_HID_ITEM_TYPE_MAIN :: u8 where "JH_HID_ITEM_TYPE_MAIN = 0"
definition JH_HID_ITEM_TYPE_GLOBAL :: u8 where "JH_HID_ITEM_TYPE_GLOBAL = 1"
definition JH_HID_ITEM_TYPE_LOCAL :: u8 where "JH_HID_ITEM_TYPE_LOCAL = 2"
definition JH_HID_ITEM_TYPE_RESERVED :: u8 where "JH_HID_ITEM_TYPE_RESERVED = 3"
definition JH_HID_MAIN_INPUT :: u8 where "JH_HID_MAIN_INPUT = 8"
definition JH_HID_MAIN_COLLECTION :: u8 where "JH_HID_MAIN_COLLECTION = 10"
definition JH_HID_MAIN_END_COLLECTION :: u8 where "JH_HID_MAIN_END_COLLECTION = 12"
definition JH_HID_GLOBAL_USAGE_PAGE :: u8 where "JH_HID_GLOBAL_USAGE_PAGE = 0"
definition JH_HID_GLOBAL_LOGICAL_MINIMUM :: u8 where "JH_HID_GLOBAL_LOGICAL_MINIMUM = 1"
definition JH_HID_GLOBAL_LOGICAL_MAXIMUM :: u8 where "JH_HID_GLOBAL_LOGICAL_MAXIMUM = 2"
definition JH_HID_GLOBAL_PHYSICAL_MINIMUM :: u8 where "JH_HID_GLOBAL_PHYSICAL_MINIMUM = 3"
definition JH_HID_GLOBAL_UNIT :: u8 where "JH_HID_GLOBAL_UNIT = 6"
definition JH_HID_GLOBAL_REPORT_SIZE :: u8 where "JH_HID_GLOBAL_REPORT_SIZE = 7"
definition JH_HID_GLOBAL_REPORT_ID :: u8 where "JH_HID_GLOBAL_REPORT_ID = 8"
definition JH_HID_GLOBAL_REPORT_COUNT :: u8 where "JH_HID_GLOBAL_REPORT_COUNT = 9"
definition JH_HID_GLOBAL_PUSH :: u8 where "JH_HID_GLOBAL_PUSH = 10"
definition JH_HID_GLOBAL_POP :: u8 where "JH_HID_GLOBAL_POP = 11"
definition JH_HID_LOCAL_USAGE :: u8 where "JH_HID_LOCAL_USAGE = 0"
definition JH_HID_LOCAL_USAGE_MINIMUM :: u8 where "JH_HID_LOCAL_USAGE_MINIMUM = 1"
definition JH_HID_LOCAL_USAGE_MAXIMUM :: u8 where "JH_HID_LOCAL_USAGE_MAXIMUM = 2"

datatype gamepad_reject =
    REJECT_NONE | REJECT_INVALID_ARGUMENT | REJECT_DESCRIPTOR_TOO_LARGE
  | REJECT_DESCRIPTOR_MALFORMED | REJECT_UNSUPPORTED_COLLECTION | REJECT_TOO_MANY_FIELDS
  | REJECT_TOO_MANY_REPORT_IDS | REJECT_DUPLICATE_USAGE | REJECT_REPORT_TOO_LARGE
  | REJECT_REPORT_TOO_SHORT | REJECT_UNKNOWN_REPORT_ID | REJECT_REPORT_VALUE
  | REJECT_DISCONNECTED | REJECT_QUEUE_OVERFLOW

record gamepad_snapshot =
  generation :: u32
  buttons :: u32
  axes :: "i16 list"
  axes_present :: u16
  dpad :: u8
  connected :: bool

record gamepad_diagnostics =
  descriptors_accepted :: u32
  descriptors_rejected :: u32
  reports_received :: u32
  reports_accepted :: u32
  reports_rejected :: u32
  duplicate_reports :: u32
  state_changes :: u32
  ignored_usages :: u32
  unknown_report_ids :: u32
  truncated_reports :: u32
  dropped_snapshots :: u32
  report_bytes :: u32
  descriptor_length_high_water :: u16
  report_length_high_water :: u16
  queue_high_water :: u8
  last_status :: hal_status
  last_reject_reason :: gamepad_reject

datatype field_kind = FIELD_BUTTON | FIELD_AXIS | FIELD_HAT

record gamepad_field =
  logical_minimum :: i32
  logical_maximum :: i32
  field_report_id :: u16
  bit_position :: u16
  bit_size :: u8
  field_index :: u8
  main_flags :: u8
  kind :: field_kind

record report_layout =
  layout_report_id :: u16
  bit_length :: u16
  required_bytes :: u8

record gamepad_parser =
  parser_fields :: "gamepad_field list"
  report_layouts :: "report_layout list"
  queue :: "gamepad_snapshot list"
  current :: gamepad_snapshot
  diagnostics :: gamepad_diagnostics
  queue_head :: u8
  queue_count :: u8
  configured :: bool
  report_ids_declared :: bool
  overflow_pending :: bool

definition zero_snapshot :: gamepad_snapshot where
  "zero_snapshot = \<lparr>generation = 0, buttons = 0, axes = replicate 9 0, axes_present = 0,
     dpad = 0, connected = False\<rparr>"

text \<open>The zero of \<open>hal_status_t\<close> is \<open>HAL_NONE\<close>.\<close>

definition zero_diagnostics :: gamepad_diagnostics where
  "zero_diagnostics = \<lparr>descriptors_accepted = 0, descriptors_rejected = 0, reports_received = 0,
     reports_accepted = 0, reports_rejected = 0, duplicate_reports = 0, state_changes = 0,
     ignored_usages = 0, unknown_report_ids = 0, truncated_reports = 0, dropped_snapshots = 0,
     report_bytes = 0, descriptor_length_high_water = 0, report_length_high_water = 0,
     queue_high_water = 0, last_status = HAL_NONE, last_reject_reason = REJECT_NONE\<rparr>"

definition jh_bluetooth_gamepad_parser_init :: gamepad_parser where
  "jh_bluetooth_gamepad_parser_init =
     \<lparr>parser_fields = [], report_layouts = [],
      queue = replicate JH_BLUETOOTH_GAMEPAD_QUEUE_CAPACITY zero_snapshot,
      current = zero_snapshot, diagnostics = zero_diagnostics, queue_head = 0, queue_count = 0,
      configured = False, report_ids_declared = False, overflow_pending = False\<rparr>"

section \<open>Items of a descriptor\<close>

record hid_globals =
  g_logical_minimum :: i32
  g_logical_maximum :: i32
  g_usage_page :: u16
  g_report_id :: u16
  g_report_size :: u8
  g_report_count :: u8

record hid_item =
  item_value :: u32
  signed_value :: i32
  data_size :: nat
  item_type :: u8
  item_tag :: u8

record hid_locals =
  usages :: "u32 list"
  usage_minimum :: u32
  usage_maximum :: u32
  have_usage_minimum :: bool
  have_usage_maximum :: bool

record usage_field =
  u_usage_page :: u16
  u_usage :: u16
  u_report_id :: u16
  u_bit_position :: u16
  u_logical_minimum :: i32
  u_logical_maximum :: i32
  u_bit_size :: u8
  u_main_flags :: u8

definition reject_descriptor ::
  "gamepad_parser \<Rightarrow> hal_status \<Rightarrow> gamepad_reject \<Rightarrow> gamepad_parser \<times> hal_status" where
  "reject_descriptor p status reason =
     (p\<lparr>diagnostics := (diagnostics p)
          \<lparr>descriptors_rejected := descriptors_rejected (diagnostics p) + 1,
           last_status := status, last_reject_reason := reason\<rparr>,
        configured := False\<rparr>, status)"

definition reject_report ::
  "gamepad_parser \<Rightarrow> hal_status \<Rightarrow> gamepad_reject \<Rightarrow> gamepad_parser \<times> hal_status" where
  "reject_report p status reason =
     (p\<lparr>diagnostics := (diagnostics p)
          \<lparr>reports_rejected := reports_rejected (diagnostics p) + 1,
           last_status := status, last_reject_reason := reason\<rparr>\<rparr>, status)"

fun find_layout_from :: "nat \<Rightarrow> report_layout list \<Rightarrow> u16 \<Rightarrow> nat option" where
  "find_layout_from i [] report_id = None"
| "find_layout_from i (l # ls) report_id =
     (if layout_report_id l = report_id then Some i else find_layout_from (i + 1) ls report_id)"

definition find_report_layout :: "gamepad_parser \<Rightarrow> u16 \<Rightarrow> nat option" where
  "find_report_layout p report_id = find_layout_from 0 (report_layouts p) report_id"

definition get_report_layout :: "gamepad_parser \<Rightarrow> u16 \<Rightarrow> gamepad_parser \<times> nat option" where
  "get_report_layout p report_id =
     (case find_report_layout p report_id of
        Some i \<Rightarrow> (p, Some i)
      | None \<Rightarrow>
          if length (report_layouts p) \<ge> JH_BLUETOOTH_GAMEPAD_REPORT_ID_CAPACITY then (p, None)
          else (p\<lparr>report_layouts := report_layouts p @
                   [\<lparr>layout_report_id = report_id, bit_length = 0, required_bytes = 0\<rparr>]\<rparr>,
                Some (length (report_layouts p))))"

text \<open>The value of an item: \<open>n\<close> bytes, least significant first.\<close>

definition item_bytes :: "bytes \<Rightarrow> nat \<Rightarrow> nat \<Rightarrow> u32" where
  "item_bytes d position n =
     fold (\<lambda>i v. v OR push_bit (i * 8) (ucast (d ! (position + i)))) [0..<n] 0"

definition extend_item :: "u32 \<Rightarrow> nat \<Rightarrow> i32" where
  "extend_item v n =
     (if 0 < n \<and> n < 4 then
        let sign_bit = push_bit (n * 8 - 1) 1 in
        if v AND sign_bit \<noteq> 0 then v OR NOT (sign_bit - 1) else v
      else v)"

text \<open>The next item and the position behind it; \<open>None\<close> is \<open>false\<close>. Long items are skipped.\<close>

function next_item :: "bytes \<Rightarrow> nat \<Rightarrow> (hid_item \<times> nat) option" where
  "next_item d position =
     (if position < length d then
        let prefix = d ! position in
        if prefix = 0xfe then
          (if position + 1 + 2 > length d then None
           else
             let data_size = unat (d ! (position + 1)) in
             if position + 3 + data_size > length d then None
             else next_item d (position + 3 + data_size))
        else
          let data_size = [0, 1, 2, 4] ! unat (prefix AND 0x03) in
          if position + 1 + data_size > length d then None
          else
            let v = item_bytes d (position + 1) data_size in
            Some (\<lparr>item_value = v, signed_value = extend_item v data_size, data_size = data_size,
                   item_type = drop_bit 2 prefix AND 0x03, item_tag = drop_bit 4 prefix\<rparr>,
                  position + 1 + data_size)
      else Some (\<lparr>item_value = 0, signed_value = 0, data_size = 0,
                  item_type = JH_HID_ITEM_TYPE_RESERVED, item_tag = 0\<rparr>, position))"
  by pat_completeness auto
termination by (relation "measure (\<lambda>(d, position). length d - position)") auto

declare next_item.simps [simp del]

definition local_usage_value :: "hid_item \<Rightarrow> u16 \<Rightarrow> u32" where
  "local_usage_value item usage_page =
     (if data_size item > 2 then item_value item
      else push_bit 16 (ucast usage_page) OR (item_value item AND 0xFFFF))"

definition reset_locals :: hid_locals where
  "reset_locals = \<lparr>usages = [], usage_minimum = 0, usage_maximum = 0,
     have_usage_minimum = False, have_usage_maximum = False\<rparr>"

definition accepted_application_usage :: "u32 \<Rightarrow> bool" where
  "accepted_application_usage usage \<longleftrightarrow>
     (let usage_page = (ucast (drop_bit 16 usage) :: u16); usage_id = (ucast usage :: u16) in
      usage_page = JH_HID_USAGE_PAGE_DESKTOP \<and>
      (usage_id = JH_HID_USAGE_GAME_PAD \<or> usage_id = JH_HID_USAGE_JOYSTICK))"

definition local_usage_at :: "hid_locals \<Rightarrow> u8 \<Rightarrow> u32 option" where
  "local_usage_at l index =
     (if unat index < length (usages l) then Some (usages l ! unat index)
      else if have_usage_minimum l \<and> have_usage_maximum l \<and> usage_maximum l \<ge> usage_minimum l then
        (let offset = ucast index; available = usage_maximum l - usage_minimum l + 1 in
         Some (usage_minimum l + (if offset < available then offset else available - 1)))
      else if usages l \<noteq> [] then Some (last (usages l))
      else None)"

definition axis_index_for_usage :: "u16 \<Rightarrow> u8 option" where
  "axis_index_for_usage usage =
     (if usage < JH_HID_USAGE_X \<or> usage > JH_HID_USAGE_WHEEL then None
      else let index = ucast (usage - JH_HID_USAGE_X) in
           if unat index < JH_BLUETOOTH_GAMEPAD_AXIS_COUNT then Some index else None)"

definition mapped_field :: "usage_field \<Rightarrow> (field_kind \<times> u8) option" where
  "mapped_field item =
     (if u_usage_page item = JH_HID_USAGE_PAGE_BUTTON \<and> u_usage item \<ge> 1 \<and>
         u_usage item \<le> JH_BLUETOOTH_GAMEPAD_BUTTON_COUNT
      then Some (FIELD_BUTTON, ucast (u_usage item - 1))
      else if u_usage_page item \<noteq> JH_HID_USAGE_PAGE_DESKTOP then None
      else if u_usage item = JH_HID_USAGE_HAT_SWITCH then Some (FIELD_HAT, 0)
      else map_option (Pair FIELD_AXIS) (axis_index_for_usage (u_usage item)))"

definition duplicate_field :: "gamepad_parser \<Rightarrow> field_kind \<Rightarrow> u8 \<Rightarrow> bool" where
  "duplicate_field p k index \<longleftrightarrow>
     (\<exists>f \<in> set (parser_fields p). kind f = k \<and> field_index f = index)"

definition count_ignored :: "u32 \<Rightarrow> gamepad_parser \<Rightarrow> gamepad_parser" where
  "count_ignored n p =
     p\<lparr>diagnostics := (diagnostics p)\<lparr>ignored_usages := ignored_usages (diagnostics p) + n\<rparr>\<rparr>"

definition append_field :: "gamepad_parser \<Rightarrow> usage_field \<Rightarrow> gamepad_parser \<times> hal_status" where
  "append_field p item =
     (case mapped_field item of
        None \<Rightarrow> (count_ignored 1 p, HAL_OK)
      | Some (k, index) \<Rightarrow>
          if u_bit_size item = 0 \<or> u_bit_size item > 32 \<or>
             sint (u_logical_minimum item) > sint (u_logical_maximum item)
          then (p, HAL_EPROTO)
          else if duplicate_field p k index then (p, HAL_EEXIST)
          else if length (parser_fields p) \<ge> JH_BLUETOOTH_GAMEPAD_FIELD_CAPACITY
          then (p, HAL_EOVERFLOW)
          else (p\<lparr>parser_fields := parser_fields p @
                    [\<lparr>logical_minimum = u_logical_minimum item,
                      logical_maximum = u_logical_maximum item,
                      field_report_id = u_report_id item, bit_position = u_bit_position item,
                      bit_size = u_bit_size item, field_index = index,
                      main_flags = u_main_flags item, kind = k\<rparr>]\<rparr>, HAL_OK))"

text \<open>The loop over the values of one input item, \<open>index\<close> running through the list.\<close>

fun collect_loop ::
  "gamepad_parser \<Rightarrow> hid_globals \<Rightarrow> hid_locals \<Rightarrow> u16 \<Rightarrow> u8 \<Rightarrow> u8 list \<Rightarrow> gamepad_parser \<times> hal_status"
where
  "collect_loop p g l position flags [] = (p, HAL_OK)"
| "collect_loop p g l position flags (index # rest) =
     (case local_usage_at l index of
        None \<Rightarrow> collect_loop (count_ignored 1 p) g l position flags rest
      | Some usage \<Rightarrow>
          let field = \<lparr>u_usage_page = ucast (drop_bit 16 usage), u_usage = ucast usage,
                u_report_id = g_report_id g,
                u_bit_position = position + ucast index * ucast (g_report_size g),
                u_logical_minimum = g_logical_minimum g, u_logical_maximum = g_logical_maximum g,
                u_bit_size = g_report_size g, u_main_flags = flags\<rparr>;
              (p, status) = append_field p field in
          if status \<noteq> HAL_OK then (p, status)
          else collect_loop p g l position flags rest)"

definition collect_input_fields ::
  "gamepad_parser \<Rightarrow> hid_globals \<Rightarrow> hid_locals \<Rightarrow> u16 \<Rightarrow> u8 \<Rightarrow> gamepad_parser \<times> hal_status" where
  "collect_input_fields p g l position flags =
     (if flags AND JH_HID_MAIN_FLAG_VARIABLE = 0
      then (count_ignored (ucast (g_report_count g)) p, HAL_OK)
      else collect_loop p g l position flags (map of_nat [0..<unat (g_report_count g)]))"

section \<open>The descriptor\<close>

record descriptor_state =
  ds_parser :: gamepad_parser
  ds_globals :: hid_globals
  ds_stack :: "hid_globals list"
  ds_locals :: hid_locals
  ds_collections :: "bool list"
  found_gamepad :: bool
  input_without_id :: bool
  input_with_id :: bool

text \<open>A step either goes on with a new state or returns a status and a reason; the parser is
  in the state in both cases.\<close>

type_synonym step_result = "descriptor_state \<times> (hal_status \<times> gamepad_reject) option"

definition fail :: "descriptor_state \<Rightarrow> hal_status \<Rightarrow> step_result" where
  "fail st status = (st, Some (status, REJECT_DESCRIPTOR_MALFORMED))"

definition set_globals :: "descriptor_state \<Rightarrow> hid_globals \<Rightarrow> step_result" where
  "set_globals st g = (st\<lparr>ds_globals := g\<rparr>, None)"

definition global_item :: "descriptor_state \<Rightarrow> hid_item \<Rightarrow> step_result" where
  "global_item st item =
     (let g = ds_globals st; v = item_value item; t = item_tag item in
      if t = JH_HID_GLOBAL_USAGE_PAGE then
        (if v > 0xFFFF then fail st HAL_EPROTO
         else set_globals st (g\<lparr>g_usage_page := ucast v\<rparr>))
      else if t = JH_HID_GLOBAL_LOGICAL_MINIMUM then
        set_globals st (g\<lparr>g_logical_minimum := signed_value item\<rparr>)
      else if t = JH_HID_GLOBAL_LOGICAL_MAXIMUM then
        set_globals st (g\<lparr>g_logical_maximum := signed_value item\<rparr>)
      else if t = JH_HID_GLOBAL_REPORT_SIZE then
        (if v = 0 \<or> v > 32 then fail st HAL_EPROTO
         else set_globals st (g\<lparr>g_report_size := ucast v\<rparr>))
      else if t = JH_HID_GLOBAL_REPORT_ID then
        (if v = 0 \<or> v > 0xFF then fail st HAL_EPROTO
         else (st\<lparr>ds_globals := g\<lparr>g_report_id := ucast v\<rparr>,
                  ds_parser := (ds_parser st)\<lparr>report_ids_declared := True\<rparr>\<rparr>, None))
      else if t = JH_HID_GLOBAL_REPORT_COUNT then
        (if v = 0 \<or> v > 0xFF then fail st HAL_EPROTO
         else set_globals st (g\<lparr>g_report_count := ucast v\<rparr>))
      else if t = JH_HID_GLOBAL_PUSH then
        (if length (ds_stack st) \<ge> JH_HID_GLOBAL_STACK_MAX then fail st HAL_EOVERFLOW
         else (st\<lparr>ds_stack := g # ds_stack st\<rparr>, None))
      else if t = JH_HID_GLOBAL_POP then
        (case ds_stack st of
           [] \<Rightarrow> fail st HAL_EPROTO
         | g' # rest \<Rightarrow> (st\<lparr>ds_globals := g', ds_stack := rest\<rparr>, None))
      else if JH_HID_GLOBAL_PHYSICAL_MINIMUM \<le> t \<and> t \<le> JH_HID_GLOBAL_UNIT then (st, None)
      else fail st HAL_EPROTO)"

definition local_item :: "descriptor_state \<Rightarrow> hid_item \<Rightarrow> step_result" where
  "local_item st item =
     (let l = ds_locals st;
          usage = local_usage_value item (g_usage_page (ds_globals st)) in
      if item_tag item = JH_HID_LOCAL_USAGE then
        (if length (usages l) \<ge> JH_HID_LOCAL_USAGE_CAPACITY then fail st HAL_EOVERFLOW
         else (st\<lparr>ds_locals := l\<lparr>usages := usages l @ [usage]\<rparr>\<rparr>, None))
      else if item_tag item = JH_HID_LOCAL_USAGE_MINIMUM then
        (st\<lparr>ds_locals := l\<lparr>usage_minimum := usage, have_usage_minimum := True\<rparr>\<rparr>, None)
      else if item_tag item = JH_HID_LOCAL_USAGE_MAXIMUM then
        (st\<lparr>ds_locals := l\<lparr>usage_maximum := usage, have_usage_maximum := True\<rparr>\<rparr>, None)
      else (st, None))"

text \<open>Whether the innermost open collection belongs to a gamepad.\<close>

definition inside_gamepad :: "descriptor_state \<Rightarrow> bool" where
  "inside_gamepad st \<longleftrightarrow> ds_collections st \<noteq> [] \<and> hd (ds_collections st)"

definition collection_item :: "descriptor_state \<Rightarrow> hid_item \<Rightarrow> step_result" where
  "collection_item st item =
     (if length (ds_collections st) \<ge> JH_HID_COLLECTION_DEPTH_MAX then fail st HAL_EOVERFLOW
      else
        let l = ds_locals st;
            usage = (if usages l \<noteq> [] then Some (last (usages l)) else local_usage_at l 0);
            this_accepted = (inside_gamepad st \<or>
              (item_value item = JH_HID_COLLECTION_APPLICATION \<and>
               (case usage of None \<Rightarrow> False | Some u \<Rightarrow> accepted_application_usage u)))
        in (st\<lparr>ds_collections := this_accepted # ds_collections st,
               found_gamepad := (found_gamepad st \<or> this_accepted)\<rparr>, None))"

definition main_reason :: "hal_status \<Rightarrow> gamepad_reject" where
  "main_reason status =
     (if status = HAL_EOVERFLOW then REJECT_TOO_MANY_FIELDS
      else if status = HAL_EEXIST then REJECT_DUPLICATE_USAGE
      else REJECT_DESCRIPTOR_MALFORMED)"

text \<open>An input item: the layout of its report grows by its bits, and inside a gamepad its
  variable values become fields.\<close>

definition input_item :: "descriptor_state \<Rightarrow> hid_item \<Rightarrow> step_result" where
  "input_item st item =
     (let g = ds_globals st in
      if g_report_size g = 0 \<or> g_report_count g = 0 then fail st HAL_EPROTO
      else
        let st = (if g_report_id g = JH_HID_REPORT_ID_UNDEFINED then st\<lparr>input_without_id := True\<rparr>
                  else st\<lparr>input_with_id := True\<rparr>) in
        if input_with_id st \<and> input_without_id st then fail st HAL_EPROTO
        else case get_report_layout (ds_parser st) (g_report_id g) of
          (p, None) \<Rightarrow> (st\<lparr>ds_parser := p\<rparr>, Some (HAL_EOVERFLOW, REJECT_TOO_MANY_REPORT_IDS))
        | (p, Some i) \<Rightarrow>
            let layout = report_layouts p ! i;
                item_bits = (ucast (g_report_size g) :: u32) * ucast (g_report_count g);
                total_bits = ucast (bit_length layout) + item_bits;
                total_bytes = (total_bits + 7) div 8 +
                  (if g_report_id g = JH_HID_REPORT_ID_UNDEFINED then 0 else 1) in
            if total_bits > 0xFFFF \<or> unat total_bytes > JH_BLUETOOTH_GAMEPAD_REPORT_MAX
            then fail (st\<lparr>ds_parser := p\<rparr>) HAL_EOVERFLOW
            else
              let (p, main_status) =
                    (if inside_gamepad st \<and> item_value item AND JH_HID_MAIN_FLAG_CONSTANT = 0
                     then collect_input_fields p g (ds_locals st) (bit_length layout)
                            (ucast (item_value item))
                     else (p, HAL_OK));
                  p = p\<lparr>report_layouts := (report_layouts p)
                         [i := layout\<lparr>bit_length := ucast total_bits,
                                      required_bytes := ucast total_bytes\<rparr>]\<rparr>;
                  st = st\<lparr>ds_parser := p, ds_locals := reset_locals\<rparr>
              in if main_status \<noteq> HAL_OK then (st, Some (main_status, main_reason main_status))
                 else (st, None))"

definition descriptor_item :: "descriptor_state \<Rightarrow> hid_item \<Rightarrow> step_result" where
  "descriptor_item st item =
     (if item_type item = JH_HID_ITEM_TYPE_GLOBAL then global_item st item
      else if item_type item = JH_HID_ITEM_TYPE_LOCAL then local_item st item
      else if item_type item \<noteq> JH_HID_ITEM_TYPE_MAIN then (st, None)
      else if item_tag item = JH_HID_MAIN_COLLECTION then
        (case collection_item st item of
           (st, None) \<Rightarrow> (st\<lparr>ds_locals := reset_locals\<rparr>, None)
         | r \<Rightarrow> r)
      else if item_tag item = JH_HID_MAIN_END_COLLECTION then
        (if ds_collections st = [] then fail st HAL_EPROTO
         else (st\<lparr>ds_collections := tl (ds_collections st), ds_locals := reset_locals\<rparr>, None))
      else if item_tag item = JH_HID_MAIN_INPUT then input_item st item
      else (st\<lparr>ds_locals := reset_locals\<rparr>, None))"

lemma next_item_end:
  "\<not> position < length d \<Longrightarrow> next_item d position = Some (item, position') \<Longrightarrow> position' = position"
  by (subst (asm) next_item.simps) auto

lemma next_item_progress:
  "next_item d position = Some (item, position') \<Longrightarrow> position < length d \<Longrightarrow>
   position < position' \<and> position' \<le> length d"
proof (induction d position rule: next_item.induct)
  case (1 d position)
  note unfolded = "1.prems"(1) [unfolded next_item.simps [of d position] Let_def]
  show ?case
  proof (cases "d ! position = 0xfe")
    case True
    define q where "q = position + 3 + unat (d ! (position + 1))"
    have q: "q \<le> length d" "next_item d q = Some (item, position')" "\<not> length d < position + 1 + 2"
      using unfolded True "1.prems"(2) by (auto simp: q_def split: if_splits)
    then have "q < length d \<Longrightarrow> q < position' \<and> position' \<le> length d"
      using "1.IH" [OF "1.prems"(2) refl True q(3) refl] by (simp add: q_def)
    moreover have "\<not> q < length d \<Longrightarrow> position' = q"
      using next_item_end [of q d item position'] q(2) by simp
    moreover have "position < q" by (simp add: q_def)
    ultimately show ?thesis using q(1) by (cases "q < length d") auto
  next
    case False
    then show ?thesis using unfolded "1.prems"(2) by (auto split: if_splits)
  qed
qed

text \<open>The loop of \<open>parse_descriptor\<close>. A status and reason in the result is a return from
  inside the loop.\<close>

function descriptor_loop :: "bytes \<Rightarrow> nat \<Rightarrow> descriptor_state \<Rightarrow> step_result" where
  "descriptor_loop d position st =
     (if position < length d then
        (case next_item d position of
           None \<Rightarrow> fail st HAL_EPROTO
         | Some (item, position') \<Rightarrow>
             (case descriptor_item st item of
                (st', Some r) \<Rightarrow> (st', Some r)
              | (st', None) \<Rightarrow> descriptor_loop d position' st'))
      else (st, None))"
  by pat_completeness auto
termination
  by (relation "measure (\<lambda>(d, position, _). length d - position)") (auto dest: next_item_progress)

declare descriptor_loop.simps [simp del]

definition descriptor_start :: "gamepad_parser \<Rightarrow> descriptor_state" where
  "descriptor_start p =
     \<lparr>ds_parser = p,
      ds_globals = \<lparr>g_logical_minimum = 0, g_logical_maximum = 0, g_usage_page = 0,
        g_report_id = JH_HID_REPORT_ID_UNDEFINED, g_report_size = 0, g_report_count = 0\<rparr>,
      ds_stack = [], ds_locals = reset_locals, ds_collections = [], found_gamepad = False,
      input_without_id = False, input_with_id = False\<rparr>"

definition parse_descriptor :: "gamepad_parser \<Rightarrow> bytes \<Rightarrow> gamepad_parser \<times> hal_status \<times> gamepad_reject" where
  "parse_descriptor p d =
     (case descriptor_loop d 0 (descriptor_start p) of
        (st, Some (status, reason)) \<Rightarrow> (ds_parser st, status, reason)
      | (st, None) \<Rightarrow>
          if ds_collections st \<noteq> [] \<or> ds_stack st \<noteq> []
          then (ds_parser st, HAL_EPROTO, REJECT_DESCRIPTOR_MALFORMED)
          else if \<not> found_gamepad st \<or> parser_fields (ds_parser st) = []
          then (ds_parser st, HAL_EUNSUPPORTED, REJECT_UNSUPPORTED_COLLECTION)
          else (ds_parser st,
                if report_layouts (ds_parser st) = [] then HAL_EPROTO else HAL_OK,
                REJECT_DESCRIPTOR_MALFORMED))"

definition jh_bluetooth_gamepad_parser_configure ::
  "gamepad_parser \<Rightarrow> bytes option \<Rightarrow> gamepad_parser \<times> hal_status" where
  "jh_bluetooth_gamepad_parser_configure p descriptor =
     (let p = jh_bluetooth_gamepad_parser_init;
          d = (case descriptor of None \<Rightarrow> [] | Some d \<Rightarrow> d) in
      if d = [] then reject_descriptor p HAL_EINVAL REJECT_INVALID_ARGUMENT
      else
        let p = p\<lparr>diagnostics := (diagnostics p)\<lparr>descriptor_length_high_water :=
                   (if length d > 0xFFFF then 0xFFFF else of_nat (length d))\<rparr>\<rparr> in
        if length d > JH_BLUETOOTH_GAMEPAD_DESCRIPTOR_MAX
        then reject_descriptor p HAL_EOVERFLOW REJECT_DESCRIPTOR_TOO_LARGE
        else
          let (p, status, reason) = parse_descriptor p d in
          if status \<noteq> HAL_OK then reject_descriptor p status reason
          else (p\<lparr>configured := True, diagnostics := (diagnostics p)
                   \<lparr>descriptors_accepted := descriptors_accepted (diagnostics p) + 1,
                    last_status := HAL_OK, last_reject_reason := REJECT_NONE\<rparr>\<rparr>, HAL_OK))"

section \<open>Connections and reports\<close>

definition enqueue_snapshot :: "gamepad_parser \<Rightarrow> gamepad_parser" where
  "enqueue_snapshot p =
     (let p = (if unat (queue_count p) = JH_BLUETOOTH_GAMEPAD_QUEUE_CAPACITY then
                 p\<lparr>diagnostics := (diagnostics p)
                     \<lparr>dropped_snapshots := dropped_snapshots (diagnostics p) + ucast (queue_count p),
                      last_status := HAL_EOVERFLOW, last_reject_reason := REJECT_QUEUE_OVERFLOW\<rparr>,
                   queue_head := 0, queue_count := 0, overflow_pending := True\<rparr>
               else p);
          tail = (unat (queue_head p) + unat (queue_count p)) mod JH_BLUETOOTH_GAMEPAD_QUEUE_CAPACITY;
          p = p\<lparr>queue := (queue p)[tail := current p], queue_count := queue_count p + 1\<rparr>
      in if queue_count p > queue_high_water (diagnostics p)
         then p\<lparr>diagnostics := (diagnostics p)\<lparr>queue_high_water := queue_count p\<rparr>\<rparr>
         else p)"

definition status_ok :: "gamepad_parser \<Rightarrow> gamepad_parser" where
  "status_ok p = p\<lparr>diagnostics := (diagnostics p)
     \<lparr>last_status := HAL_OK, last_reject_reason := REJECT_NONE\<rparr>\<rparr>"

definition jh_bluetooth_gamepad_parser_connection_opened :: "gamepad_parser \<Rightarrow> gamepad_parser \<times> hal_status" where
  "jh_bluetooth_gamepad_parser_connection_opened p =
     (if \<not> configured p then (p, HAL_EUNINIT)
      else if connected (current p) then (p, HAL_ESTATE)
      else (enqueue_snapshot (status_ok (p\<lparr>current :=
              \<lparr>generation = generation (current p) + 1, buttons = 0, axes = replicate 9 0,
               axes_present = 0, dpad = JH_BLUETOOTH_GAMEPAD_DPAD_NONE, connected = True\<rparr>\<rparr>)),
            HAL_OK))"

definition jh_bluetooth_gamepad_parser_connection_closed :: "gamepad_parser \<Rightarrow> gamepad_parser \<times> hal_status" where
  "jh_bluetooth_gamepad_parser_connection_closed p =
     (if \<not> configured p then (p, HAL_EUNINIT)
      else if \<not> connected (current p) then (p, HAL_ESTATE)
      else (enqueue_snapshot (status_ok (p\<lparr>current :=
              \<lparr>generation = generation (current p), buttons = 0, axes = replicate 9 0,
               axes_present = 0, dpad = JH_BLUETOOTH_GAMEPAD_DPAD_NONE, connected = False\<rparr>\<rparr>)),
            HAL_OK))"

text \<open>The bytes of the report that the loop of \<open>read_unsigned_field\<close> reads, in its order.\<close>

definition field_bytes :: "u16 \<Rightarrow> u8 \<Rightarrow> nat list" where
  "field_bytes position bits =
     (let byte_offset = (ucast (position div 8) :: u8);
          bit_offset = (ucast (position mod 8) :: u8);
          byte_count = (ucast ((ucast bit_offset + ucast bits + 7 :: u32) div 8) :: u8)
      in map (\<lambda>index. unat byte_offset + index) [0..<unat byte_count])"

definition read_unsigned_field :: "bytes \<Rightarrow> u16 \<Rightarrow> u8 \<Rightarrow> u32" where
  "read_unsigned_field report position bits =
     (let at = field_bytes position bits;
          bit_offset = (ucast (position mod 8) :: u8);
          packed = (fold (\<lambda>index packed. packed OR push_bit (index * 8) (ucast (report ! (at ! index))))
            [0..<length at] 0 :: u64);
          packed = drop_bit (unat bit_offset) packed;
          m = (if bits = 32 then 0xFFFFFFFF else push_bit (unat bits) 1 - 1)
      in ucast (packed AND m))"

definition sign_extend_field :: "u32 \<Rightarrow> u8 \<Rightarrow> i32" where
  "sign_extend_field v bits =
     (if bits = 32 then v
      else
        let sign_bit = push_bit (unat bits - 1) 1 in
        if v AND sign_bit = 0 then v else v OR NOT (sign_bit - 1))"

definition normalize_axis :: "i32 \<Rightarrow> i32 \<Rightarrow> i32 \<Rightarrow> i16" where
  "normalize_axis v lo hi =
     (let range = (scast hi - scast lo :: i64);
          offset = (scast v - scast lo :: i64);
          scaled = (word_of_int (sint (offset * 65534) sdiv sint range) - 32767 :: i64) in
      if sint scaled < -32767 then -32767
      else if sint scaled > 32767 then 32767
      else ucast scaled)"

text \<open>The direction and whether the value was valid.\<close>

definition normalize_hat :: "i32 \<Rightarrow> i32 \<Rightarrow> i32 \<Rightarrow> u8 \<Rightarrow> u8 \<times> bool" where
  "normalize_hat v lo hi flags =
     (if sint v < sint lo \<or> sint v > sint hi
      then (JH_BLUETOOTH_GAMEPAD_DPAD_NONE, flags AND JH_HID_MAIN_FLAG_NULL_STATE \<noteq> 0)
      else
        let position = v - lo in
        if sint position < 0 \<or> sint position > 7 then (JH_BLUETOOTH_GAMEPAD_DPAD_NONE, False)
        else ([JH_BLUETOOTH_GAMEPAD_DPAD_UP,
               JH_BLUETOOTH_GAMEPAD_DPAD_UP OR JH_BLUETOOTH_GAMEPAD_DPAD_RIGHT,
               JH_BLUETOOTH_GAMEPAD_DPAD_RIGHT,
               JH_BLUETOOTH_GAMEPAD_DPAD_RIGHT OR JH_BLUETOOTH_GAMEPAD_DPAD_DOWN,
               JH_BLUETOOTH_GAMEPAD_DPAD_DOWN,
               JH_BLUETOOTH_GAMEPAD_DPAD_DOWN OR JH_BLUETOOTH_GAMEPAD_DPAD_LEFT,
               JH_BLUETOOTH_GAMEPAD_DPAD_LEFT,
               JH_BLUETOOTH_GAMEPAD_DPAD_LEFT OR JH_BLUETOOTH_GAMEPAD_DPAD_UP]
              ! unat position, True))"

text \<open>The bit position of a field in a report: behind the report id, if there is one.\<close>

definition field_position :: "gamepad_field \<Rightarrow> u16" where
  "field_position f =
     bit_position f + (if field_report_id f = JH_HID_REPORT_ID_UNDEFINED then 0 else 8)"

definition field_value :: "gamepad_field \<Rightarrow> bytes \<Rightarrow> i32" where
  "field_value f report =
     (let raw = read_unsigned_field report (field_position f) (bit_size f) in
      if sint (logical_minimum f) < 0 then sign_extend_field raw (bit_size f) else raw)"

definition apply_field :: "gamepad_snapshot \<Rightarrow> gamepad_field \<Rightarrow> bytes \<Rightarrow> gamepad_snapshot \<times> bool" where
  "apply_field s f report =
     (let v = field_value f report in
      if kind f = FIELD_HAT then
        (let (direction, valid) =
               normalize_hat v (logical_minimum f) (logical_maximum f) (main_flags f)
         in (s\<lparr>dpad := direction\<rparr>, valid))
      else if sint v < sint (logical_minimum f) \<or> sint v > sint (logical_maximum f) then (s, False)
      else if kind f = FIELD_BUTTON then
        (let m = push_bit (unat (field_index f)) 1 in
         (s\<lparr>buttons := (if v \<noteq> 0 then buttons s OR m else buttons s AND NOT m)\<rparr>, True))
      else if logical_maximum f = logical_minimum f then (s, False)
      else (s\<lparr>axes := (axes s)[unat (field_index f) :=
                normalize_axis v (logical_minimum f) (logical_maximum f)],
              axes_present := axes_present s OR push_bit (unat (field_index f)) 1\<rparr>, True))"

text \<open>The loop over the fields: \<open>None\<close> when a field of the report has a value it rejects.\<close>

fun apply_fields :: "gamepad_snapshot \<Rightarrow> gamepad_field list \<Rightarrow> u16 \<Rightarrow> bytes \<Rightarrow> gamepad_snapshot option" where
  "apply_fields s [] report_id report = Some s"
| "apply_fields s (f # fs) report_id report =
     (if field_report_id f = report_id then
        (case apply_field s f report of
           (s', True) \<Rightarrow> apply_fields s' fs report_id report
         | (s', False) \<Rightarrow> None)
      else apply_fields s fs report_id report)"

definition count_report :: "nat \<Rightarrow> gamepad_parser \<Rightarrow> gamepad_parser" where
  "count_report n p =
     (let d = diagnostics p in
      p\<lparr>diagnostics := d
         \<lparr>reports_received := reports_received d + 1,
          report_bytes := (if 0xFFFFFFFF - uint (report_bytes d) < int n then 0xFFFFFFFF
                           else report_bytes d + of_nat n),
          report_length_high_water :=
            (if n > unat (report_length_high_water d)
             then (if n > 0xFFFF then 0xFFFF else of_nat n) else report_length_high_water d)\<rparr>\<rparr>)"

definition jh_bluetooth_gamepad_parser_parse_input ::
  "gamepad_parser \<Rightarrow> bytes option \<Rightarrow> gamepad_parser \<times> hal_status" where
  "jh_bluetooth_gamepad_parser_parse_input p report_ptr =
     (let report = (case report_ptr of None \<Rightarrow> [] | Some r \<Rightarrow> r) in
      if report = [] then reject_report p HAL_EINVAL REJECT_INVALID_ARGUMENT
      else
        let p = count_report (length report) p in
        if \<not> configured p then reject_report p HAL_EUNINIT REJECT_INVALID_ARGUMENT
        else if \<not> connected (current p) then reject_report p HAL_ESTATE REJECT_DISCONNECTED
        else if length report > JH_BLUETOOTH_GAMEPAD_REPORT_MAX
        then reject_report p HAL_EOVERFLOW REJECT_REPORT_TOO_LARGE
        else
          let report_id = (if report_ids_declared p then ucast (hd report)
                           else JH_HID_REPORT_ID_UNDEFINED) in
          case find_report_layout p report_id of
            None \<Rightarrow>
              reject_report (p\<lparr>diagnostics := (diagnostics p)
                  \<lparr>unknown_report_ids := unknown_report_ids (diagnostics p) + 1\<rparr>\<rparr>)
                HAL_ENOENT REJECT_UNKNOWN_REPORT_ID
          | Some i \<Rightarrow>
              if length report < unat (required_bytes (report_layouts p ! i)) then
                reject_report (p\<lparr>diagnostics := (diagnostics p)
                    \<lparr>truncated_reports := truncated_reports (diagnostics p) + 1\<rparr>\<rparr>)
                  HAL_EPROTO REJECT_REPORT_TOO_SHORT
              else case apply_fields (current p) (parser_fields p) report_id report of
                None \<Rightarrow> reject_report p HAL_EPROTO REJECT_REPORT_VALUE
              | Some s \<Rightarrow>
                  let p = status_ok (p\<lparr>diagnostics := (diagnostics p)
                        \<lparr>reports_accepted := reports_accepted (diagnostics p) + 1\<rparr>\<rparr>) in
                  if s = current p
                  then (p\<lparr>diagnostics := (diagnostics p)
                            \<lparr>duplicate_reports := duplicate_reports (diagnostics p) + 1\<rparr>\<rparr>, HAL_OK)
                  else (enqueue_snapshot (p\<lparr>current := s, diagnostics := (diagnostics p)
                            \<lparr>state_changes := state_changes (diagnostics p) + 1\<rparr>\<rparr>), HAL_OK))"

definition jh_bluetooth_gamepad_parser_snapshot ::
  "gamepad_parser \<Rightarrow> out_ptr \<Rightarrow> hal_status \<times> gamepad_snapshot option" where
  "jh_bluetooth_gamepad_parser_snapshot p out =
     (if \<not> out then (HAL_EINVAL, None)
      else if \<not> configured p then (HAL_EUNINIT, None)
      else (HAL_OK, Some (current p)))"

definition jh_bluetooth_gamepad_parser_next ::
  "gamepad_parser \<Rightarrow> out_ptr \<Rightarrow> gamepad_parser \<times> hal_status \<times> gamepad_snapshot option" where
  "jh_bluetooth_gamepad_parser_next p out =
     (if \<not> out then (p, HAL_EINVAL, None)
      else if \<not> configured p then (p, HAL_EUNINIT, None)
      else if overflow_pending p then (p\<lparr>overflow_pending := False\<rparr>, HAL_EOVERFLOW, None)
      else if queue_count p = 0 then (p, HAL_EAGAIN, None)
      else (p\<lparr>queue_head := of_nat ((unat (queue_head p) + 1) mod JH_BLUETOOTH_GAMEPAD_QUEUE_CAPACITY),
               queue_count := queue_count p - 1\<rparr>,
            HAL_OK, Some (queue p ! unat (queue_head p))))"

definition jh_bluetooth_gamepad_parser_diagnostics ::
  "gamepad_parser \<Rightarrow> out_ptr \<Rightarrow> gamepad_diagnostics option" where
  "jh_bluetooth_gamepad_parser_diagnostics p out = (if out then Some (diagnostics p) else None)"

end
