(* ===== verification/Gamepad_Proof.thy ===== *)
theory Gamepad_Proof
  imports Gamepad_Parser
begin

text \<open>
  What the gamepad parser of \<open>Gamepad_Parser\<close> guarantees: a configured parser never reads
  behind an input report, whatever the descriptor; its queue holds the snapshots in order
  and ends with the current one; a rejected report changes nothing but the diagnostics; and
  axis values keep their order and range.
\<close>

section \<open>The table of fields and layouts\<close>

definition id_bits :: "u16 \<Rightarrow> nat" where
  "id_bits report_id = (if report_id = JH_HID_REPORT_ID_UNDEFINED then 0 else 8)"

definition layout_ok :: "report_layout \<Rightarrow> bool" where
  "layout_ok l \<longleftrightarrow> unat (required_bytes l) \<le> 32 \<and>
     unat (bit_length l) + id_bits (layout_report_id l) \<le> 8 * unat (required_bytes l)"

definition kind_ok :: "gamepad_field \<Rightarrow> bool" where
  "kind_ok f \<longleftrightarrow> (case kind f of
     FIELD_BUTTON \<Rightarrow> unat (field_index f) < 32 | FIELD_AXIS \<Rightarrow> unat (field_index f) < 9
   | FIELD_HAT \<Rightarrow> field_index f = 0)"

text \<open>A field lies in the first \<open>n\<close> bits of its report.\<close>

definition field_within :: "nat \<Rightarrow> gamepad_field \<Rightarrow> bool" where
  "field_within n f \<longleftrightarrow> 1 \<le> unat (bit_size f) \<and> unat (bit_size f) \<le> 32 \<and>
     sint (logical_minimum f) \<le> sint (logical_maximum f) \<and> kind_ok f \<and>
     unat (bit_position f) + unat (bit_size f) \<le> n"

definition table_ok :: "report_layout list \<Rightarrow> gamepad_field list \<Rightarrow> bool" where
  "table_ok layouts fs \<longleftrightarrow>
     distinct (map layout_report_id layouts) \<and> (\<forall>l \<in> set layouts. layout_ok l) \<and>
     (\<forall>f \<in> set fs. \<exists>l \<in> set layouts. layout_report_id l = field_report_id f \<and>
        field_within (unat (bit_length l)) f)"

abbreviation parser_table_ok :: "gamepad_parser \<Rightarrow> bool" where
  "parser_table_ok p \<equiv> table_ok (report_layouts p) (parser_fields p)"

lemma field_within_mono: "field_within n f \<Longrightarrow> n \<le> m \<Longrightarrow> field_within m f"
  by (simp add: field_within_def)

lemma find_layout_from_Some:
  "find_layout_from k ls report_id = Some i \<Longrightarrow>
   k \<le> i \<and> i - k < length ls \<and> layout_report_id (ls ! (i - k)) = report_id"
proof (induction k ls report_id rule: find_layout_from.induct)
  case (2 k l ls report_id)
  then show ?case by (auto simp: nth_Cons' split: if_splits)
qed simp

lemma find_layout_from_None:
  "find_layout_from k ls report_id = None \<longleftrightarrow> report_id \<notin> layout_report_id ` set ls"
  by (induction k ls report_id rule: find_layout_from.induct) auto

lemma find_report_layout_Some:
  "find_report_layout p report_id = Some i \<Longrightarrow>
   i < length (report_layouts p) \<and> layout_report_id (report_layouts p ! i) = report_id"
  using find_layout_from_Some [of 0] by (auto simp: find_report_layout_def)

lemma layout_unique:
  assumes "table_ok ls fs" "l \<in> set ls" "l' \<in> set ls" "layout_report_id l = layout_report_id l'"
  shows "l = l'"
  using assms by (auto simp: table_ok_def distinct_map dest: inj_onD)

section \<open>Collecting the fields of an input item\<close>

lemma mapped_field_kind:
  "mapped_field item = Some (k, index) \<Longrightarrow>
   (case k of FIELD_BUTTON \<Rightarrow> unat index < 32 | FIELD_AXIS \<Rightarrow> unat index < 9 | FIELD_HAT \<Rightarrow> index = 0)"
proof -
  assume m: "mapped_field item = Some (k, index)"
  have button: "unat (ucast (u - 1) :: u8) < 32" if "1 \<le> u" "u \<le> 32" for u :: u16
    using that word_dec [of u] by (simp add: word_le_nat_alt unsigned_ucast_eq take_bit_nat_eq_self)
  show ?thesis
    using m button by (auto simp: mapped_field_def axis_index_for_usage_def Let_def
        JH_BLUETOOTH_GAMEPAD_BUTTON_COUNT_def JH_BLUETOOTH_GAMEPAD_AXIS_COUNT_def split: if_splits)
qed

lemma append_field_table:
  assumes "append_field p item = (p', HAL_OK)"
  shows "report_layouts p' = report_layouts p"
    and "\<forall>f \<in> set (parser_fields p). f \<in> set (parser_fields p')"
    and "f \<in> set (parser_fields p') \<Longrightarrow> f \<in> set (parser_fields p) \<or>
      field_report_id f = u_report_id item \<and> bit_position f = u_bit_position item \<and>
      bit_size f = u_bit_size item \<and>
      field_within (unat (u_bit_position item) + unat (u_bit_size item)) f"
proof -
  have cases: "(\<exists>n. p' = count_ignored n p) \<or>
    (\<exists>k index. mapped_field item = Some (k, index) \<and> u_bit_size item \<noteq> 0 \<and> u_bit_size item \<le> 32 \<and>
       sint (u_logical_minimum item) \<le> sint (u_logical_maximum item) \<and>
       p' = p\<lparr>parser_fields := parser_fields p @
                    [\<lparr>logical_minimum = u_logical_minimum item,
                      logical_maximum = u_logical_maximum item,
                      field_report_id = u_report_id item, bit_position = u_bit_position item,
                      bit_size = u_bit_size item, field_index = index,
                      main_flags = u_main_flags item, kind = k\<rparr>]\<rparr>)"
    using assms by (auto simp: append_field_def not_less split: option.splits if_splits)
  then show "report_layouts p' = report_layouts p"
    "\<forall>f \<in> set (parser_fields p). f \<in> set (parser_fields p')"
    by (auto simp: count_ignored_def)
  show "f \<in> set (parser_fields p) \<or>
      field_report_id f = u_report_id item \<and> bit_position f = u_bit_position item \<and>
      bit_size f = u_bit_size item \<and>
      field_within (unat (u_bit_position item) + unat (u_bit_size item)) f"
    if "f \<in> set (parser_fields p')"
    using cases that mapped_field_kind [of item]
    by (auto simp: count_ignored_def field_within_def kind_ok_def word_le_nat_alt Suc_le_eq unat_gt_0
        split: field_kind.splits)
qed

lemma unat_field_start:
  assumes "unat position + (unat index + 1) * unat bits \<le> n" "n < 65536"
  shows "unat (position + ucast index * ucast bits :: u16) = unat position + unat index * unat bits"
proof -
  have "position + ucast index * ucast bits = of_nat (unat position + unat index * unat bits)"
    by simp
  moreover have "unat position + unat index * unat bits < 2 ^ LENGTH(16)"
    using assms by simp
  ultimately show ?thesis by (simp only: unat_of_nat_less)
qed

lemma collect_loop_table:
  assumes "collect_loop p g l position flags indices = (p', HAL_OK)"
    and "\<And>i. i \<in> set indices \<Longrightarrow> unat position + (unat i + 1) * unat (g_report_size g) \<le> n"
    and "n < 65536"
  shows "report_layouts p' = report_layouts p \<and> report_ids_declared p' = report_ids_declared p \<and>
    (\<forall>f \<in> set (parser_fields p'). f \<in> set (parser_fields p) \<or>
       field_report_id f = g_report_id g \<and> field_within n f)"
  using assms(1,2)
proof (induction p g l position flags indices rule: collect_loop.induct)
  case (2 p g l position flags index rest)
  show ?case
  proof (cases "local_usage_at l index")
    case None
    then show ?thesis
      using "2.IH"(1) [OF None] "2.prems" by (simp add: count_ignored_def)
  next
    case (Some usage)
    define item where "item = \<lparr>u_usage_page = ucast (drop_bit 16 usage), u_usage = ucast usage,
                u_report_id = g_report_id g,
                u_bit_position = position + ucast index * ucast (g_report_size g),
                u_logical_minimum = g_logical_minimum g, u_logical_maximum = g_logical_maximum g,
                u_bit_size = g_report_size g, u_main_flags = flags\<rparr>"
    obtain p1 st where app: "append_field p item = (p1, st)" by fastforce
    have ok: "st = HAL_OK" "collect_loop p1 g l position flags rest = (p', HAL_OK)"
      using "2.prems"(1) Some app by (auto simp: item_def Let_def split: if_splits)
    note table = append_field_table [OF app [unfolded ok(1)]]
    have ids: "report_ids_declared p1 = report_ids_declared p"
      using app by (auto simp: append_field_def count_ignored_def split: option.splits if_splits)
    have IH: "report_layouts p' = report_layouts p1 \<and> report_ids_declared p' = report_ids_declared p1 \<and>
      (\<forall>f \<in> set (parser_fields p'). f \<in> set (parser_fields p1) \<or>
         field_report_id f = g_report_id g \<and> field_within n f)"
      using "2.IH"(2) [OF Some item_def refl app [symmetric] _ ok(2)] ok(1) "2.prems"(2) by simp
    have start: "unat (u_bit_position item) = unat position + unat index * unat (g_report_size g)"
      using unat_field_start [OF "2.prems"(2) assms(3)] by (simp add: item_def)
    have "field_report_id f = g_report_id g \<and> field_within n f"
      if "f \<in> set (parser_fields p1)" "f \<notin> set (parser_fields p)" for f
      using table(3) [OF that(1)] that(2) "2.prems"(2) [of index] start
      by (auto simp: item_def intro: field_within_mono)
    then show ?thesis using IH table(1) ids by auto
  qed
qed simp

lemma collect_input_fields_table:
  assumes "collect_input_fields p g l position flags = (p', HAL_OK)"
    and "unat position + unat (g_report_count g) * unat (g_report_size g) \<le> n" "n < 65536"
  shows "report_layouts p' = report_layouts p \<and> report_ids_declared p' = report_ids_declared p \<and>
    (\<forall>f \<in> set (parser_fields p'). f \<in> set (parser_fields p) \<or>
       field_report_id f = g_report_id g \<and> field_within n f)"
proof (cases "flags AND JH_HID_MAIN_FLAG_VARIABLE = 0")
  case True
  then show ?thesis using assms(1) by (auto simp: collect_input_fields_def count_ignored_def)
next
  case False
  show ?thesis
  proof (rule collect_loop_table [OF _ _ assms(3)])
    show "collect_loop p g l position flags (map of_nat [0..<unat (g_report_count g)]) = (p', HAL_OK)"
      using assms(1) False by (simp add: collect_input_fields_def)
    fix i :: u8
    assume "i \<in> set (map of_nat [0..<unat (g_report_count g)])"
    then obtain k where k: "i = of_nat k" "k < unat (g_report_count g)" by auto
    have "k < 2 ^ LENGTH(8)" using less_trans [OF k(2) unsigned_less] .
    then have "unat i = k" unfolding k(1) by (rule unat_of_nat_less)
    then have "(unat i + 1) * unat (g_report_size g) \<le> unat (g_report_count g) * unat (g_report_size g)"
      using k(2) by (intro mult_le_mono1) simp
    then show "unat position + (unat i + 1) * unat (g_report_size g) \<le> n" using assms(2) by simp
  qed
qed

section \<open>Descriptor steps keep the table\<close>

lemma get_report_layout_cases:
  assumes "get_report_layout p report_id = (p', Some i)"
  shows "i < length (report_layouts p')" "layout_report_id (report_layouts p' ! i) = report_id"
    and "p' = p \<or> report_id \<notin> layout_report_id ` set (report_layouts p) \<and>
      p' = p\<lparr>report_layouts := report_layouts p @
        [\<lparr>layout_report_id = report_id, bit_length = 0, required_bytes = 0\<rparr>]\<rparr> \<and>
      i = length (report_layouts p)"
  using assms find_report_layout_Some [of p report_id]
    find_layout_from_None [of 0 "report_layouts p" report_id]
  by (auto simp: get_report_layout_def find_report_layout_def split: option.splits if_splits)

text \<open>Growing one layout, or adding one, together with fields inside it.\<close>

lemma table_ok_grow:
  assumes "table_ok ls fs" and ls': "ls' = ls \<or> report_id \<notin> layout_report_id ` set ls \<and> ls' = ls @ [l0]"
    and i: "i < length ls'" "layout_report_id (ls' ! i) = report_id" "layout_report_id l0 = report_id"
    and l: "layout_report_id l = report_id" "layout_ok l" "bit_length (ls' ! i) \<le> bit_length l"
    and fs': "\<And>f. f \<in> set fs' \<Longrightarrow> f \<in> set fs \<or>
      field_report_id f = report_id \<and> field_within (unat (bit_length l)) f"
    and l0: "ls' \<noteq> ls \<Longrightarrow> i = length ls"
  shows "table_ok (ls'[i := l]) fs'"
proof -
  have ids: "map layout_report_id (ls'[i := l]) = map layout_report_id ls'"
    using i(1,2) by (simp add: map_update l(1) list_update_same_conv)
  have "distinct (map layout_report_id ls')"
    using assms(1) ls' i(3) by (auto simp: table_ok_def)
  moreover have "layout_ok l'" if "l' \<in> set (ls'[i := l])" for l'
  proof (cases "ls' = ls")
    case True
    then show ?thesis
      using that assms(1) l(2) set_update_subset_insert [of ls i l] by (auto simp: table_ok_def)
  next
    case False
    then have "ls' = ls @ [l0]" "i = length ls" using ls' l0 by auto
    then show ?thesis using that assms(1) l(2) by (auto simp: table_ok_def)
  qed
  moreover have "\<exists>l' \<in> set (ls'[i := l]). layout_report_id l' = field_report_id f \<and>
      field_within (unat (bit_length l')) f" if "f \<in> set fs'" for f
  proof (cases "field_report_id f = report_id \<and> field_within (unat (bit_length l)) f")
    case True
    then show ?thesis using i(1) l(1) by (intro bexI [of _ l]) (auto intro: set_update_memI)
  next
    case False
    then have "f \<in> set fs" using fs' that by blast
    then obtain l' where l': "l' \<in> set ls" "layout_report_id l' = field_report_id f"
      "field_within (unat (bit_length l')) f" using assms(1) by (auto simp: table_ok_def)
    then have "l' \<in> set ls'" using ls' by auto
    then obtain j where j: "j < length ls'" "ls' ! j = l'" by (auto simp: in_set_conv_nth)
    show ?thesis
    proof (cases "j = i")
      case True
      then have "field_within (unat (bit_length l)) f"
        using l'(3) l(3) j by (auto simp: word_le_nat_alt intro: field_within_mono)
      then show ?thesis using False True l'(2) j i(2) by simp
    next
      case False
      then have "ls'[i := l] ! j = l'" using j by simp
      then show ?thesis using l' j by (metis length_list_update nth_mem)
    qed
  qed
  ultimately show ?thesis by (simp add: table_ok_def ids)
qed

lemma total_bytes_bound:
  fixes total_bits extra :: u32
  assumes "unat total_bits \<le> 0xFFFF" "extra = 0 \<or> extra = 1"
  shows "unat total_bits + 8 * unat extra \<le> 8 * unat ((total_bits + 7) div 8 + extra)"
proof -
  have "unat (total_bits + 7) = unat total_bits + 7"
    using assms(1) by (subst unat_word_ariths) simp
  then have quot: "unat ((total_bits + 7) div 8) = (unat total_bits + 7) div 8" by (simp add: unat_div)
  have "(unat total_bits + 7) div 8 \<le> unat total_bits + 7" by simp
  then have "(unat total_bits + 7) div 8 + 1 < 2 ^ LENGTH(32)" using assms(1) by simp
  then have "unat ((total_bits + 7) div 8 + extra) = (unat total_bits + 7) div 8 + unat extra"
    using assms(2) by (subst unat_word_ariths) (auto simp: quot)
  moreover have "unat total_bits \<le> 8 * ((unat total_bits + 7) div 8)"
    using mult_div_mod_eq [of 8 "unat total_bits + 7"] mod_less_divisor [of 8 "unat total_bits + 7"]
    by linarith
  ultimately show ?thesis by simp
qed

lemma input_item_table:
  assumes "input_item st item = (st', None)" "parser_table_ok (ds_parser st)"
  shows "parser_table_ok (ds_parser st')"
proof -
  define g where "g = ds_globals st"
  define st1 where "st1 = (if g_report_id g = JH_HID_REPORT_ID_UNDEFINED then st\<lparr>input_without_id := True\<rparr>
                  else st\<lparr>input_with_id := True\<rparr>)"
  have st1: "ds_parser st1 = ds_parser st" "ds_locals st1 = ds_locals st" by (simp_all add: st1_def)
  obtain p1 r where get: "get_report_layout (ds_parser st1) (g_report_id g) = (p1, r)" by fastforce
  note unfolded = assms(1) [unfolded input_item_def Let_def, folded g_def, folded st1_def, unfolded get]
  then obtain i where r: "r = Some i" by (auto simp: fail_def split: if_splits option.splits)
  define layout where "layout = report_layouts p1 ! i"
  define total_bits where "total_bits =
    (ucast (bit_length layout) + ucast (g_report_size g) * ucast (g_report_count g) :: u32)"
  define extra where "extra = (if g_report_id g = JH_HID_REPORT_ID_UNDEFINED then 0 else 1 :: u32)"
  define total_bytes where "total_bytes = (total_bits + 7) div 8 + extra"
  define p2s where "p2s = (if inside_gamepad st1 \<and> item_value item AND JH_HID_MAIN_FLAG_CONSTANT = 0
                     then collect_input_fields p1 g (ds_locals st1) (bit_length layout)
                            (ucast (item_value item))
                     else (p1, HAL_OK))"
  define new where "new = layout\<lparr>bit_length := ucast total_bits, required_bytes := ucast total_bytes\<rparr>"
  note unfolded = unfolded [unfolded r option.case prod.case, folded layout_def,
      folded total_bits_def, folded extra_def, folded total_bytes_def, folded p2s_def, folded new_def]
  have small: "\<not> (total_bits > 0xFFFF \<or> unat total_bytes > JH_BLUETOOTH_GAMEPAD_REPORT_MAX)"
    using unfolded by (auto simp: fail_def split: if_splits)
  have status: "snd p2s = HAL_OK"
    and st': "ds_parser st' = (fst p2s)\<lparr>report_layouts := (report_layouts (fst p2s))[i := new]\<rparr>"
    using unfolded small by (auto simp: fail_def case_prod_unfold split: if_splits)
  have bits: "unat total_bits \<le> 0xFFFF" "unat total_bytes \<le> 32"
    using small by (auto simp: word_less_nat_alt JH_BLUETOOTH_GAMEPAD_REPORT_MAX_def not_less)
  have new: "unat (bit_length new) = unat total_bits" "unat (required_bytes new) = unat total_bytes"
    "layout_report_id new = layout_report_id layout"
    using bits by (simp_all add: new_def unsigned_ucast_eq take_bit_nat_eq_self)
  note got = get_report_layout_cases [OF get [unfolded r st1(1)]]
  have id: "layout_report_id layout = g_report_id g" using got(2) by (simp add: layout_def)
  have sum: "unat total_bits = unat (bit_length layout) + unat (g_report_size g) * unat (g_report_count g)"
  proof -
    have "total_bits = of_nat (unat (bit_length layout) + unat (g_report_size g) * unat (g_report_count g))"
      by (simp add: total_bits_def)
    moreover have "unat (g_report_size g) * unat (g_report_count g) \<le> 255 * 255"
      using unat_u8_less [of "g_report_size g"] unat_u8_less [of "g_report_count g"]
      by (intro mult_le_mono) linarith+
    then have "unat (bit_length layout) + unat (g_report_size g) * unat (g_report_count g) < 2 ^ LENGTH(32)"
      using unat_u16_le [of "bit_length layout"] by simp
    ultimately show ?thesis by (simp only: unat_of_nat_less)
  qed
  have new_ok: "layout_ok new"
    using total_bytes_bound [OF bits(1), of extra] bits(2) new
    by (simp add: layout_ok_def id id_bits_def extra_def total_bytes_def split: if_splits)
  have p2: "report_layouts (fst p2s) = report_layouts p1 \<and>
      (\<forall>f \<in> set (parser_fields (fst p2s)). f \<in> set (parser_fields p1) \<or>
         field_report_id f = g_report_id g \<and> field_within (unat total_bits) f)"
  proof (cases "inside_gamepad st1 \<and> item_value item AND JH_HID_MAIN_FLAG_CONSTANT = 0")
    case True
    then have "collect_input_fields p1 g (ds_locals st1) (bit_length layout) (ucast (item_value item))
        = (fst p2s, HAL_OK)" using status by (simp add: p2s_def prod_eq_iff)
    then show ?thesis
      using collect_input_fields_table [of p1 g _ "bit_length layout" _ "fst p2s" "unat total_bits"] sum bits(1)
      by (simp add: mult.commute)
  next
    case False
    then have "p2s = (p1, HAL_OK)" by (simp only: p2s_def if_False)
    then show ?thesis by simp
  qed
  have same: "parser_fields p1 = parser_fields (ds_parser st)" using got(3) by auto
  have "table_ok ((report_layouts p1)[i := new]) (parser_fields (fst p2s))"
  proof (rule table_ok_grow [OF assms(2)])
    show "report_layouts p1 = report_layouts (ds_parser st) \<or>
      g_report_id g \<notin> layout_report_id ` set (report_layouts (ds_parser st)) \<and>
      report_layouts p1 = report_layouts (ds_parser st) @
        [\<lparr>layout_report_id = g_report_id g, bit_length = 0, required_bytes = 0\<rparr>]"
      using got(3) by auto
    show "f \<in> set (parser_fields (ds_parser st)) \<or>
      field_report_id f = g_report_id g \<and> field_within (unat (bit_length new)) f"
      if "f \<in> set (parser_fields (fst p2s))" for f
      using p2 that same new(1) by auto
    show "bit_length (report_layouts p1 ! i) \<le> bit_length new"
      using sum new(1) by (simp add: word_le_nat_alt flip: layout_def)
    show "i = length (report_layouts (ds_parser st))" if "report_layouts p1 \<noteq> report_layouts (ds_parser st)"
      using got(3) that by auto
  qed (use got(1,2) new(3) id new_ok in simp_all)
  then show ?thesis using p2 st' by simp
qed

text \<open>Every item but an input item leaves the table alone, and no item returns \<open>HAL_OK\<close>.\<close>

definition keeps_table :: "descriptor_state \<Rightarrow> step_result \<Rightarrow> bool" where
  "keeps_table st r \<longleftrightarrow>
     report_layouts (ds_parser (fst r)) = report_layouts (ds_parser st) \<and>
     parser_fields (ds_parser (fst r)) = parser_fields (ds_parser st) \<and>
     (\<forall>reason. snd r \<noteq> Some (HAL_OK, reason))"

lemma global_item_keeps: "keeps_table st (global_item st item)"
  by (simp add: global_item_def set_globals_def fail_def Let_def keeps_table_def split: list.splits)

lemma local_item_keeps: "keeps_table st (local_item st item)"
  by (simp add: local_item_def fail_def Let_def keeps_table_def)

lemma collection_item_keeps: "keeps_table st (collection_item st item)"
  by (simp add: collection_item_def fail_def Let_def keeps_table_def)

lemma descriptor_item_cases:
  "descriptor_item st item = input_item st item \<or> keeps_table st (descriptor_item st item)"
proof -
  have reset: "keeps_table st (case r of (st, None) \<Rightarrow> (st\<lparr>ds_locals := reset_locals\<rparr>, None) | r \<Rightarrow> r)"
    if "keeps_table st r" for r
    using that by (cases r) (auto simp: keeps_table_def split: option.splits)
  have "keeps_table st (fail st HAL_EPROTO)" "keeps_table st (st, None)"
    "keeps_table st (st\<lparr>ds_collections := c, ds_locals := l\<rparr>, None)"
    "keeps_table st (st\<lparr>ds_locals := l\<rparr>, None)" for c l
    by (simp_all add: keeps_table_def fail_def)
  then show ?thesis
    unfolding descriptor_item_def
    by (simp add: global_item_keeps local_item_keeps reset [OF collection_item_keeps] del: split_paired_All)
qed

lemma input_item_status: "snd (input_item st item) \<noteq> Some (HAL_OK, reason)"
  by (auto simp: input_item_def fail_def Let_def split: prod.splits option.splits)

lemma descriptor_item_table:
  assumes "descriptor_item st item = (st', None)" "parser_table_ok (ds_parser st)"
  shows "parser_table_ok (ds_parser st')"
  using descriptor_item_cases [of st item] input_item_table [of st item st'] assms
  by (auto simp: keeps_table_def)

lemma descriptor_item_status: "descriptor_item st item = (st', Some (s, reason)) \<Longrightarrow> s \<noteq> HAL_OK"
  using descriptor_item_cases [of st item] input_item_status [of st item reason]
  by (auto simp: keeps_table_def dest: sym)

lemma descriptor_loop_status: "descriptor_loop d position st = (st', Some (s, reason)) \<Longrightarrow> s \<noteq> HAL_OK"
proof (induction d position st rule: descriptor_loop.induct)
  case (1 d position st)
  show ?case
  proof (cases "position < length d")
    case True
    show ?thesis
    proof (cases "next_item d position")
      case None
      then show ?thesis
        using "1.prems" True by (subst (asm) descriptor_loop.simps) (auto simp: fail_def)
    next
      case (Some next_pos)
      obtain item position' where np: "next_pos = (item, position')" by fastforce
      obtain st1 r where step: "descriptor_item st item = (st1, r)" by fastforce
      show ?thesis
      proof (cases r)
        case None
        then have "descriptor_loop d position' st1 = (st', Some (s, reason))"
          using "1.prems" True Some np step by (subst (asm) descriptor_loop.simps) simp
        then show ?thesis using "1.IH" [OF True Some np [symmetric] step [symmetric] None] by simp
      next
        case (Some r')
        then show ?thesis
          using "1.prems" True \<open>next_item d position = Some next_pos\<close> np step
            descriptor_item_status [of st item st1]
          by (subst (asm) descriptor_loop.simps) (cases r', auto)
      qed
    qed
  next
    case False
    then show ?thesis using "1.prems" by (subst (asm) descriptor_loop.simps) simp
  qed
qed

lemma descriptor_loop_table:
  "descriptor_loop d position st = (st', None) \<Longrightarrow> parser_table_ok (ds_parser st) \<Longrightarrow>
   parser_table_ok (ds_parser st')"
proof (induction d position st rule: descriptor_loop.induct)
  case (1 d position st)
  show ?case
  proof (cases "position < length d")
    case True
    obtain item position' st1 where item: "next_item d position = Some (item, position')"
      and step: "descriptor_item st item = (st1, None)"
      and rest: "descriptor_loop d position' st1 = (st', None)"
      using "1.prems"(1) True
      by (subst (asm) descriptor_loop.simps) (auto simp: fail_def split: option.splits prod.splits)
    have "parser_table_ok (ds_parser st1)"
      using descriptor_item_table [OF step] "1.prems"(2) by simp
    then show ?thesis using "1.IH" [OF True item refl step [symmetric] refl rest] by simp
  next
    case False
    then show ?thesis using "1.prems" by (subst (asm) descriptor_loop.simps) simp
  qed
qed

section \<open>Reachable parsers\<close>

lemma configure_table:
  assumes "jh_bluetooth_gamepad_parser_configure p descriptor = (p', status)" "configured p'"
  shows "parser_table_ok p'"
proof -
  define d where "d = (case descriptor of None \<Rightarrow> [] | Some d \<Rightarrow> d)"
  define p0 where "p0 = jh_bluetooth_gamepad_parser_init\<lparr>diagnostics :=
      (diagnostics jh_bluetooth_gamepad_parser_init)\<lparr>descriptor_length_high_water :=
                   (if length d > 0xFFFF then 0xFFFF else of_nat (length d))\<rparr>\<rparr>"
  have rejected: "\<not> configured (fst (reject_descriptor q s r))" for q s r
    by (simp add: reject_descriptor_def)
  obtain p1 s r where pd: "parse_descriptor p0 d = (p1, s, r)" by (cases "parse_descriptor p0 d") auto
  have ok: "s = HAL_OK" and p': "parser_fields p' = parser_fields p1" "report_layouts p' = report_layouts p1"
    using assms rejected by (auto simp: jh_bluetooth_gamepad_parser_configure_def Let_def
        pd reject_descriptor_def simp flip: d_def p0_def split: if_splits)
  obtain st where loop: "descriptor_loop d 0 (descriptor_start p0) = (st, None)" "p1 = ds_parser st"
    using pd ok descriptor_loop_status
    by (fastforce simp: parse_descriptor_def split: prod.splits option.splits if_splits)
  have "parser_table_ok (ds_parser (descriptor_start p0))"
    by (simp add: descriptor_start_def p0_def jh_bluetooth_gamepad_parser_init_def table_ok_def)
  then show ?thesis using descriptor_loop_table [OF loop(1)] p' loop(2) by simp
qed

section \<open>Reading a field\<close>

text \<open>Bit \<open>m\<close> of a report, its bytes one after the other, least significant bit first.\<close>

definition report_bit :: "bytes \<Rightarrow> nat \<Rightarrow> bool" where
  "report_bit report m \<longleftrightarrow> bit (report ! (m div 8)) (m mod 8)"

lemma bit_packed:
  "n \<le> 8 \<Longrightarrow>
   bit (fold (\<lambda>index packed. packed OR push_bit (index * 8) (ucast (report ! (b + index) :: u8)))
     [0..<n] (0 :: u64)) m \<longleftrightarrow> m < 8 * n \<and> report_bit report (8 * b + m)"
proof (induction n)
  case (Suc n)
  have byte: "bit (ucast (w :: u8) :: u64) k \<longleftrightarrow> bit w k" for w k
    by (auto simp: bit_ucast_iff dest: bit_imp_le_length)
  have "bit (push_bit (n * 8) (ucast (report ! (b + n)) :: u64)) m \<longleftrightarrow>
      8 * n \<le> m \<and> m < 8 * Suc n \<and> report_bit report (8 * b + m)"
  proof (cases "8 * n \<le> m \<and> m < 8 * Suc n")
    case True
    then obtain k where m: "m = 8 * n + k" using le_Suc_ex by blast
    then have k: "m = 8 * n + k" "k < 8" using True by simp_all
    have "8 * b + m = 8 * (b + n) + k" by (simp add: k(1))
    moreover have "(8 * q + k) div 8 = q" "(8 * q + k) mod 8 = k" for q using k(2) by simp_all
    ultimately have "(8 * b + m) div 8 = b + n" "(8 * b + m) mod 8 = k" by (simp_all only:)
    moreover have "m < LENGTH(64)" using True Suc.prems by simp
    ultimately show ?thesis
      using True k(1) by (simp add: bit_push_bit_iff byte report_bit_def mult.commute [of n])
  next
    case False
    then have "8 * n \<le> m \<Longrightarrow> \<not> bit (report ! (b + n)) (m - 8 * n)"
      using bit_imp_le_length [of "report ! (b + n)" "m - 8 * n"] by auto
    then show ?thesis
      using False by (auto simp: bit_push_bit_iff byte mult.commute [of n])
  qed
  then show ?case using Suc by (auto simp: bit_or_iff)
qed simp

text \<open>A field of \<open>bits\<close> bits spans this many bytes.\<close>

definition field_span :: "u16 \<Rightarrow> u8 \<Rightarrow> nat" where
  "field_span position bits = (unat position mod 8 + unat bits + 7) div 8"

lemma field_bytes_span:
  assumes "unat position < 2048" "unat bits \<le> 32"
  shows "field_bytes position bits = map (\<lambda>index. unat position div 8 + index) [0..<field_span position bits]"
    "unat (ucast (position mod 8) :: u8) = unat position mod 8"
proof -
  have off: "unat (ucast (position div 8) :: u8) = unat position div 8"
    using assms(1) by (simp add: unsigned_ucast_eq take_bit_nat_eq_self unat_div less_mult_imp_div_less)
  have small: "unat position mod 8 < 8" by simp
  show bo: "unat (ucast (position mod 8) :: u8) = unat position mod 8"
    using small by (simp add: unsigned_ucast_eq take_bit_nat_eq_self unat_mod)
  have "(ucast (ucast (position mod 8) :: u8) + ucast bits + 7 :: u32) =
      of_nat (unat position mod 8 + unat bits + 7)"
    by (simp flip: bo)
  moreover have "unat position mod 8 + unat bits + 7 < 2 ^ LENGTH(32)" using small assms(2) by simp
  ultimately have "unat (ucast (ucast (position mod 8) :: u8) + ucast bits + 7 :: u32) =
      unat position mod 8 + unat bits + 7" by (simp only: unat_of_nat_less)
  then have quot: "unat ((ucast (ucast (position mod 8) :: u8) + ucast bits + 7 :: u32) div 8) =
      field_span position bits" by (simp add: unat_div field_span_def)
  have "field_span position bits \<le> 46 div 8"
    unfolding field_span_def using small assms(2) by (intro div_le_mono) linarith
  then have "unat (ucast ((ucast (ucast (position mod 8) :: u8) + ucast bits + 7 :: u32) div 8) :: u8) =
      field_span position bits"
    by (intro trans [OF unsigned_ucast_eq]) (simp only: quot, simp add: take_bit_nat_eq_self)
  then show "field_bytes position bits = map (\<lambda>index. unat position div 8 + index) [0..<field_span position bits]"
    unfolding field_bytes_def Let_def off by simp
qed

lemma field_bytes_within:
  assumes "unat position < 2048" "unat bits \<le> 32" "unat position + unat bits \<le> 8 * n"
  shows "\<forall>i \<in> set (field_bytes position bits). i < n"
proof -
  have "unat position + unat bits + 7 = 8 * (unat position div 8) + (unat position mod 8 + unat bits + 7)"
    by (metis add.assoc mult_div_mod_eq)
  moreover have "(8 * q + r) div 8 = q + r div 8" for q r :: nat by simp
  ultimately have "(unat position + unat bits + 7) div 8 = unat position div 8 + field_span position bits"
    unfolding field_span_def by (simp only:)
  moreover have "(unat position + unat bits + 7) div 8 \<le> (8 * n + 7) div 8"
    using assms(3) by (intro div_le_mono) simp
  ultimately have "unat position div 8 + field_span position bits \<le> n" by simp
  then show ?thesis unfolding field_bytes_span(1) [OF assms(1,2)] by auto
qed

lemma read_unsigned_field_unfold:
  assumes "unat position < 2048" "unat bits \<le> 32"
  shows "read_unsigned_field report position bits =
    ucast (drop_bit (unat position mod 8)
      (fold (\<lambda>index packed. packed OR
         push_bit (index * 8) (ucast (report ! (unat position div 8 + index))))
       [0..<field_span position bits] (0 :: u64)) AND
      (if bits = 32 then 0xFFFFFFFF else push_bit (unat bits) 1 - 1))"
proof -
  have "fold (\<lambda>index packed. packed OR push_bit (index * 8) (ucast (report ! (field_bytes position bits ! index))))
      [0..<field_span position bits] (0 :: u64) =
    fold (\<lambda>index packed. packed OR push_bit (index * 8) (ucast (report ! (unat position div 8 + index))))
      [0..<field_span position bits] 0"
    by (rule fold_cong) (simp_all add: field_bytes_span(1) [OF assms])
  moreover have "length (field_bytes position bits) = field_span position bits" by (simp add: field_bytes_span(1) [OF assms])
  ultimately show ?thesis by (simp only: read_unsigned_field_def Let_def field_bytes_span(2) [OF assms])
qed

lemma bit_field_mask:
  assumes "unat bits \<le> 32"
  shows "bit (if bits = (32 :: u8) then 0xFFFFFFFF else push_bit (unat bits) 1 - 1 :: u64) n \<longleftrightarrow> n < unat bits"
proof -
  have mask: "bit (mask k :: u64) n \<longleftrightarrow> n < k" if "k \<le> 32" for k
    using that by (auto simp: bit_mask_iff)
  show ?thesis
  proof (cases "bits = 32")
    case True
    have "(0xFFFFFFFF :: u64) = mask 32" by (simp add: mask_eq_exp_minus_1)
    then show ?thesis unfolding True using mask [of 32] by simp
  next
    case False
    have "push_bit (unat bits) 1 - 1 = (mask (unat bits) :: u64)"
      by (simp add: mask_eq_exp_minus_1 push_bit_eq_mult)
    then show ?thesis using mask [OF assms] False by simp
  qed
qed

lemma bit_read_unsigned_field:
  assumes "unat position < 2048" "1 \<le> unat bits" "unat bits \<le> 32"
  shows "bit (read_unsigned_field report position bits) n \<longleftrightarrow>
    n < unat bits \<and> report_bit report (unat position + n)"
proof -
  let ?c = "field_span position bits"
  have small: "unat position mod 8 < 8" by simp
  have c: "?c \<le> 8"
  proof -
    have "?c \<le> 46 div 8"
      unfolding field_span_def using small assms(3) by (intro div_le_mono) linarith
    then show ?thesis by simp
  qed
  have room: "unat position mod 8 + n < 8 * ?c" if "n < unat bits"
  proof -
    have "unat position mod 8 + unat bits \<le> 8 * ?c"
      using mult_div_mod_eq [of 8 "unat position mod 8 + unat bits + 7"]
        mod_less_divisor [of 8 "unat position mod 8 + unat bits + 7"]
      unfolding field_span_def by linarith
    then show ?thesis using that by simp
  qed
  have pos: "8 * (unat position div 8) + (unat position mod 8 + n) = unat position + n"
    by (metis add.assoc mult_div_mod_eq)
  show ?thesis
    unfolding read_unsigned_field_unfold [OF assms(1,3)] bit_ucast_iff bit_and_iff
      bit_field_mask [OF assms(3)] bit_drop_bit_eq comp_def bit_packed [OF c] pos
    using room assms(3) by auto
qed

section \<open>Queue and current state\<close>

text \<open>The snapshots waiting, oldest first.\<close>

definition waiting :: "gamepad_parser \<Rightarrow> gamepad_snapshot list" where
  "waiting p = map (\<lambda>i. queue p ! ((unat (queue_head p) + i) mod 16)) [0..<unat (queue_count p)]"

definition ring_ok :: "gamepad_parser \<Rightarrow> bool" where
  "ring_ok p \<longleftrightarrow> length (queue p) = 16 \<and> unat (queue_head p) < 16 \<and> unat (queue_count p) \<le> 16"

lemma length_waiting [simp]: "length (waiting p) = unat (queue_count p)"
  by (simp add: waiting_def)

text \<open>The parts of a parser that only diagnostics and flags around it do not touch.\<close>

definition same_state :: "gamepad_parser \<Rightarrow> gamepad_parser \<Rightarrow> bool" where
  "same_state p q \<longleftrightarrow> current p = current q \<and> queue p = queue q \<and> queue_head p = queue_head q \<and>
     queue_count p = queue_count q \<and> overflow_pending p = overflow_pending q \<and>
     parser_fields p = parser_fields q \<and> report_layouts p = report_layouts q \<and>
     configured p = configured q \<and> report_ids_declared p = report_ids_declared q"

lemma same_state_refl [simp]: "same_state p p"
  by (simp add: same_state_def)

lemma same_state_waiting: "same_state p q \<Longrightarrow> waiting p = waiting q"
  by (simp add: same_state_def waiting_def)

lemma same_state_diagnostics [simp]: "same_state (p\<lparr>diagnostics := d\<rparr>) q \<longleftrightarrow> same_state p q"
  by (simp add: same_state_def)

lemma same_state_count_report [simp]: "same_state (count_report n p) q \<longleftrightarrow> same_state p q"
  by (simp add: count_report_def Let_def)

lemma same_state_status_ok [simp]: "same_state (status_ok p) q \<longleftrightarrow> same_state p q"
  by (simp add: status_ok_def)

lemma reject_report_state [simp]: "same_state (fst (reject_report p s r)) q \<longleftrightarrow> same_state p q"
  "snd (reject_report p s r) = s"
  by (simp_all add: reject_report_def)

lemma ring_index: "h < 16 \<Longrightarrow> i < 16 \<Longrightarrow> (h + i) mod 16 = (if h + i < 16 then h + i else h + i - (16 :: nat))"
  by (simp add: mod_if)

lemma waiting_push:
  assumes "length q = 16" "unat h < 16" "unat c < 16"
  shows "map (\<lambda>i. q[(unat h + unat c) mod 16 := x] ! ((unat h + i) mod 16)) [0..<Suc (unat c)] =
     map (\<lambda>i. q ! ((unat h + i) mod 16)) [0..<unat (c :: u8)] @ [x]"
proof -
  have "(unat h + i) mod 16 \<noteq> (unat h + unat c) mod 16" if "i < unat c" for i
    using that assms(2,3) by (auto simp: ring_index)
  then have "q[(unat h + unat c) mod 16 := x] ! ((unat h + i) mod 16) = q ! ((unat h + i) mod 16)"
    if "i < unat c" for i
    using that by (metis nth_list_update_neq)
  then show ?thesis using assms(1) by auto
qed

lemma enqueue_waiting:
  assumes "ring_ok p"
  shows "waiting (enqueue_snapshot p) =
      (if length (waiting p) = 16 then [current p] else waiting p @ [current p])"
    and "overflow_pending (enqueue_snapshot p) \<longleftrightarrow> overflow_pending p \<or> length (waiting p) = 16"
    and "ring_ok (enqueue_snapshot p)"
proof -
  define p1 where "p1 = (if unat (queue_count p) = JH_BLUETOOTH_GAMEPAD_QUEUE_CAPACITY then
                 p\<lparr>diagnostics := (diagnostics p)
                     \<lparr>dropped_snapshots := dropped_snapshots (diagnostics p) + ucast (queue_count p),
                      last_status := HAL_EOVERFLOW, last_reject_reason := REJECT_QUEUE_OVERFLOW\<rparr>,
                   queue_head := 0, queue_count := 0, overflow_pending := True\<rparr>
               else p)"
  define p2 where "p2 = p1\<lparr>queue := (queue p1)[(unat (queue_head p1) + unat (queue_count p1)) mod 16
      := current p1], queue_count := queue_count p1 + 1\<rparr>"
  have p1: "unat (queue_count p1) < 16" "unat (queue_head p1) < 16" "length (queue p1) = 16"
    "current p1 = current p" "overflow_pending p1 \<longleftrightarrow> overflow_pending p \<or> length (waiting p) = 16"
    "waiting p1 = (if length (waiting p) = 16 then [] else waiting p)"
    using assms by (auto simp: p1_def ring_ok_def waiting_def JH_BLUETOOTH_GAMEPAD_QUEUE_CAPACITY_def)
  have "enqueue_snapshot p = p2 \<or> enqueue_snapshot p = p2\<lparr>diagnostics := (diagnostics p2)
      \<lparr>queue_high_water := queue_count p2\<rparr>\<rparr>"
    by (simp add: enqueue_snapshot_def Let_def p2_def p1_def JH_BLUETOOTH_GAMEPAD_QUEUE_CAPACITY_def)
  then have same: "same_state (enqueue_snapshot p) p2" by auto
  have count: "unat (queue_count p2) = Suc (unat (queue_count p1))"
    using p1(1) by (simp add: p2_def unat_word_ariths)
  have "waiting p2 = waiting p1 @ [current p]"
    using waiting_push [OF p1(3,2,1), of "current p1"] count p1(4)
    by (simp add: waiting_def p2_def)
  then show "waiting (enqueue_snapshot p) =
      (if length (waiting p) = 16 then [current p] else waiting p @ [current p])"
    using p1(6) by (simp add: same_state_waiting [OF same])
  show "overflow_pending (enqueue_snapshot p) \<longleftrightarrow> overflow_pending p \<or> length (waiting p) = 16"
    using same p1(5) by (simp add: same_state_def p2_def)
  show "ring_ok (enqueue_snapshot p)"
    using same p1 count by (simp add: same_state_def ring_ok_def p2_def)
qed

lemma enqueue_frame [simp]:
  "current (enqueue_snapshot p) = current p" "parser_fields (enqueue_snapshot p) = parser_fields p"
  "report_layouts (enqueue_snapshot p) = report_layouts p"
  "configured (enqueue_snapshot p) = configured p"
  by (simp_all add: enqueue_snapshot_def Let_def)

text \<open>What every operation keeps.\<close>

definition gamepad_ok :: "gamepad_parser \<Rightarrow> bool" where
  "gamepad_ok p \<longleftrightarrow> ring_ok p \<and> (configured p \<longrightarrow> parser_table_ok p) \<and>
     length (axes (current p)) = 9 \<and> (waiting p \<noteq> [] \<longrightarrow> last (waiting p) = current p)"

lemma same_state_ok: "same_state p q \<Longrightarrow> gamepad_ok p \<longleftrightarrow> gamepad_ok q"
  unfolding gamepad_ok_def using same_state_waiting [of p q]
  by (simp add: same_state_def ring_ok_def)

lemma gamepad_ok_enqueue:
  assumes "gamepad_ok p" "same_state q (p\<lparr>current := s\<rparr>)" "length (axes s) = 9"
  shows "gamepad_ok (enqueue_snapshot q)"
proof -
  have "ring_ok q" using assms(1,2) by (simp add: gamepad_ok_def ring_ok_def same_state_def)
  from enqueue_waiting [OF this] show ?thesis
    using assms by (simp add: gamepad_ok_def same_state_def)
qed

lemma waiting_init: "waiting jh_bluetooth_gamepad_parser_init = []"
  by (simp add: waiting_def jh_bluetooth_gamepad_parser_init_def)

lemma ok_init: "gamepad_ok jh_bluetooth_gamepad_parser_init"
  by (simp add: gamepad_ok_def ring_ok_def waiting_init)
    (simp add: jh_bluetooth_gamepad_parser_init_def zero_snapshot_def
      JH_BLUETOOTH_GAMEPAD_QUEUE_CAPACITY_def)

text \<open>Reading a descriptor leaves queue and current state alone.\<close>

definition same_queue :: "gamepad_parser \<Rightarrow> gamepad_parser \<Rightarrow> bool" where
  "same_queue p q \<longleftrightarrow> current p = current q \<and> queue p = queue q \<and> queue_head p = queue_head q \<and>
     queue_count p = queue_count q \<and> overflow_pending p = overflow_pending q"

lemma same_queue_refl [simp]: "same_queue p p"
  by (simp add: same_queue_def)

lemma same_queue_trans: "same_queue p q \<Longrightarrow> same_queue q r \<Longrightarrow> same_queue p r"
  by (simp add: same_queue_def)

lemma same_queue_count_ignored: "same_queue (count_ignored n p) p"
  by (simp add: same_queue_def count_ignored_def)

lemma same_queue_append: "same_queue (fst (append_field p item)) p"
  by (simp add: append_field_def same_queue_def count_ignored_def split: option.splits prod.splits)

lemma same_queue_collect: "same_queue (fst (collect_loop p g l position flags indices)) p"
proof (induction p g l position flags indices rule: collect_loop.induct)
  case (2 p g l position flags index rest)
  show ?case
  proof (cases "local_usage_at l index")
    case None
    then show ?thesis using "2.IH"(1) same_queue_count_ignored same_queue_trans by fastforce
  next
    case (Some usage)
    define item where "item = \<lparr>u_usage_page = ucast (drop_bit 16 usage), u_usage = ucast usage,
                u_report_id = g_report_id g,
                u_bit_position = position + ucast index * ucast (g_report_size g),
                u_logical_minimum = g_logical_minimum g, u_logical_maximum = g_logical_maximum g,
                u_bit_size = g_report_size g, u_main_flags = flags\<rparr>"
    obtain p1 st where app: "append_field p item = (p1, st)" by fastforce
    have p1: "same_queue p1 p" using same_queue_append [of p item] app by simp
    show ?thesis
    proof (cases "st = HAL_OK")
      case True
      then have "same_queue (fst (collect_loop p1 g l position flags rest)) p1"
        using "2.IH"(2) [OF Some item_def refl app [symmetric]] by simp
      then show ?thesis using p1 Some app True same_queue_trans by (fastforce simp: item_def Let_def)
    next
      case False
      then show ?thesis using p1 Some app by (simp add: item_def Let_def)
    qed
  qed
qed (simp add: same_queue_def)

lemma same_queue_input: "same_queue (ds_parser (fst (input_item st item))) (ds_parser st)"
proof -
  have collect: "same_queue (fst (collect_input_fields p g l n flags)) p" for p g l n flags
    using same_queue_collect [of p g l n flags] same_queue_count_ignored
    by (simp add: collect_input_fields_def)
  have layout: "same_queue (fst (get_report_layout p r)) p" for p r
    by (simp add: get_report_layout_def same_queue_def split: option.splits)
  have update: "same_queue (q\<lparr>report_layouts := ls\<rparr>) p \<longleftrightarrow> same_queue q p" for p q ls
    by (simp add: same_queue_def)
  define g where "g = ds_globals st"
  define st1 where "st1 = (if g_report_id g = JH_HID_REPORT_ID_UNDEFINED then st\<lparr>input_without_id := True\<rparr>
                  else st\<lparr>input_with_id := True\<rparr>)"
  have st1: "ds_parser st1 = ds_parser st" by (simp add: st1_def)
  obtain p1 r where get: "get_report_layout (ds_parser st1) (g_report_id g) = (p1, r)" by fastforce
  have p1: "same_queue p1 (ds_parser st)" using layout [of "ds_parser st1" "g_report_id g"] get st1 by simp
  show ?thesis
  proof (cases r)
    case None
    then have "ds_parser (fst (input_item st item)) = ds_parser st \<or> ds_parser (fst (input_item st item)) = p1"
      unfolding input_item_def Let_def g_def [symmetric] st1_def [symmetric] get
      by (simp add: fail_def st1)
    then show ?thesis using p1 by auto
  next
    case (Some i)
    define p2s where "p2s = (if inside_gamepad st1 \<and> item_value item AND JH_HID_MAIN_FLAG_CONSTANT = 0
                     then collect_input_fields p1 g (ds_locals st1) (bit_length (report_layouts p1 ! i))
                            (ucast (item_value item))
                     else (p1, HAL_OK))"
    have p2: "same_queue (fst p2s) (ds_parser st)"
      using same_queue_trans [OF collect p1] p1 by (simp add: p2s_def)
    have "ds_parser (fst (input_item st item)) = ds_parser st \<or>
        ds_parser (fst (input_item st item)) = p1 \<or>
        (\<exists>ls. ds_parser (fst (input_item st item)) = (fst p2s)\<lparr>report_layouts := ls\<rparr>)"
      unfolding input_item_def Let_def g_def [symmetric] st1_def [symmetric] get Some prod.case
        option.case p2s_def [symmetric]
      by (simp add: fail_def st1 case_prod_unfold) blast
    then show ?thesis using p1 p2 by (auto simp: update)
  qed
qed

lemma same_queue_step: "same_queue (ds_parser (fst (descriptor_item st item))) (ds_parser st)"
proof -
  have "same_queue (ds_parser (fst (global_item st item))) (ds_parser st)"
    by (simp add: global_item_def set_globals_def fail_def Let_def same_queue_def split: list.splits)
  moreover have "same_queue (ds_parser (fst (local_item st item))) (ds_parser st)"
    by (simp add: local_item_def fail_def Let_def same_queue_def)
  moreover have "ds_parser (fst (collection_item st item)) = ds_parser st"
    by (simp add: collection_item_def fail_def Let_def)
  then have "same_queue (ds_parser (fst (case collection_item st item of
      (st, None) \<Rightarrow> (st\<lparr>ds_locals := reset_locals\<rparr>, None) | r \<Rightarrow> r))) (ds_parser st)"
    by (cases "collection_item st item") (auto simp: same_queue_def split: option.splits)
  ultimately show ?thesis
    using same_queue_input [of st item]
    by (simp add: descriptor_item_def fail_def)
qed

lemma same_queue_loop: "same_queue (ds_parser (fst (descriptor_loop d position st))) (ds_parser st)"
proof (induction d position st rule: descriptor_loop.induct)
  case (1 d position st)
  show ?case
  proof (cases "position < length d \<and> next_item d position \<noteq> None")
    case True
    then obtain item position' where item: "next_item d position = Some (item, position')" by auto
    obtain st1 r where step: "descriptor_item st item = (st1, r)" by fastforce
    have st1: "same_queue (ds_parser st1) (ds_parser st)"
      using same_queue_step [of st item] step by simp
    show ?thesis
    proof (cases r)
      case None
      have "same_queue (ds_parser (fst (descriptor_loop d position' st1))) (ds_parser st1)"
        using "1.IH" [OF _ item refl step [symmetric] None] True by simp
      then show ?thesis
        using True item step None st1 same_queue_trans by (subst descriptor_loop.simps) auto
    next
      case (Some r')
      then show ?thesis using True item step st1 by (subst descriptor_loop.simps) simp
    qed
  next
    case False
    then show ?thesis
      by (cases "next_item d position"; subst descriptor_loop.simps) (auto simp: fail_def)
  qed
qed

lemma ok_configure:
  assumes "jh_bluetooth_gamepad_parser_configure p descriptor = (p', status)"
  shows "gamepad_ok p'"
proof -
  let ?init = "jh_bluetooth_gamepad_parser_init"
  have reject: "same_queue (fst (reject_descriptor q s r)) q'" if "same_queue q q'" for q q' s r
    using that by (simp add: reject_descriptor_def same_queue_def)
  have start: "same_queue (?init\<lparr>diagnostics := x\<rparr>) ?init" for x by (simp add: same_queue_def)
  have parse: "same_queue (fst (parse_descriptor q d)) q" for q d
    using same_queue_loop [of d 0 "descriptor_start q"]
    by (auto simp: parse_descriptor_def descriptor_start_def split: prod.splits option.splits)
  define d where "d = (case descriptor of None \<Rightarrow> [] | Some d \<Rightarrow> d)"
  define p0 where "p0 = ?init\<lparr>diagnostics := (diagnostics ?init)\<lparr>descriptor_length_high_water :=
                   (if length d > 0xFFFF then 0xFFFF else of_nat (length d))\<rparr>\<rparr>"
  obtain p1 s r where pd: "parse_descriptor p0 d = (p1, s, r)" by (cases "parse_descriptor p0 d") auto
  have p0: "same_queue p0 ?init" by (simp add: p0_def start)
  then have p1: "same_queue p1 ?init"
    using parse [of p0 d] pd same_queue_trans by fastforce
  have "same_queue (p1\<lparr>configured := c, diagnostics := x\<rparr>) ?init" for c x
    using p1 by (simp add: same_queue_def)
  then have "same_queue p' ?init"
    using assms p0 p1 reject [OF p1, of s r] reject [OF p0, of HAL_EOVERFLOW REJECT_DESCRIPTOR_TOO_LARGE]
      reject [of ?init ?init HAL_EINVAL REJECT_INVALID_ARGUMENT]
    by (auto simp: jh_bluetooth_gamepad_parser_configure_def Let_def pd simp flip: d_def p0_def
        split: if_splits)
  then have "waiting p' = []" "ring_ok p'" "length (axes (current p')) = 9"
    using ok_init waiting_init
    by (auto simp: gamepad_ok_def ring_ok_def same_queue_def waiting_def)
  then show ?thesis using configure_table [OF assms] by (simp add: gamepad_ok_def)
qed

lemma apply_field_axes: "length (axes (fst (apply_field s f report))) = length (axes s)"
  by (simp add: apply_field_def Let_def case_prod_unfold)

lemma apply_fields_axes:
  "apply_fields s fs report_id report = Some s' \<Longrightarrow> length (axes s') = length (axes s)"
proof (induction s fs report_id report rule: apply_fields.induct)
  case (2 s f fs report_id report)
  then show ?case
    using apply_field_axes [of s f report] by (auto split: if_splits prod.splits bool.splits)
qed simp

lemma rejected_same: "reject_report q s r = (p', status) \<Longrightarrow> same_state q p \<Longrightarrow> same_state p' p"
  using reject_report_state(1) [of q s r p] by simp

lemma parse_input_cases:
  assumes "jh_bluetooth_gamepad_parser_parse_input p report = (p', status)"
  shows "same_state p' p \<or>
    status = HAL_OK \<and> configured p \<and> connected (current p) \<and>
    (\<exists>r report_id i s q. report = Some r \<and> r \<noteq> [] \<and> length r \<le> 32 \<and>
       report_id = (if report_ids_declared p then ucast (hd r) else JH_HID_REPORT_ID_UNDEFINED) \<and>
       find_report_layout p report_id = Some i \<and>
       unat (required_bytes (report_layouts p ! i)) \<le> length r \<and>
       apply_fields (current p) (parser_fields p) report_id r = Some s \<and> s \<noteq> current p \<and>
       same_state q (p\<lparr>current := s\<rparr>) \<and> p' = enqueue_snapshot q)"
proof -
  define r where "r = (case report of None \<Rightarrow> [] | Some r \<Rightarrow> r)"
  define p1 where "p1 = count_report (length r) p"
  have p1: "same_state p1 p" by (simp add: p1_def)
  note eqs = p1 [unfolded same_state_def]
  define report_id where "report_id = (if report_ids_declared p1 then ucast (hd r)
      else JH_HID_REPORT_ID_UNDEFINED)"
  have layouts: "find_report_layout p1 = find_report_layout p"
    by (rule ext) (simp add: find_report_layout_def eqs)
  note unfolded = assms [unfolded jh_bluetooth_gamepad_parser_parse_input_def Let_def,
      folded r_def, folded p1_def, folded report_id_def]
  show ?thesis
  proof (cases "r = [] \<or> \<not> configured p1 \<or> \<not> connected (current p1) \<or>
      length r > JH_BLUETOOTH_GAMEPAD_REPORT_MAX")
    case True
    then have "same_state p' p" using unfolded p1 by (auto intro: rejected_same split: if_splits)
    then show ?thesis by simp
  next
    case False
    have r: "report = Some r" "r \<noteq> []" "length r \<le> 32"
      using False by (auto simp: r_def JH_BLUETOOTH_GAMEPAD_REPORT_MAX_def split: option.splits)
    have running: "(case find_report_layout p1 report_id of
        None \<Rightarrow> reject_report (p1\<lparr>diagnostics := (diagnostics p1)
                  \<lparr>unknown_report_ids := unknown_report_ids (diagnostics p1) + 1\<rparr>\<rparr>)
                HAL_ENOENT REJECT_UNKNOWN_REPORT_ID
      | Some i \<Rightarrow>
          if length r < unat (required_bytes (report_layouts p1 ! i)) then
                reject_report (p1\<lparr>diagnostics := (diagnostics p1)
                    \<lparr>truncated_reports := truncated_reports (diagnostics p1) + 1\<rparr>\<rparr>)
                  HAL_EPROTO REJECT_REPORT_TOO_SHORT
          else case apply_fields (current p1) (parser_fields p1) report_id r of
                None \<Rightarrow> reject_report p1 HAL_EPROTO REJECT_REPORT_VALUE
              | Some s \<Rightarrow>
                  let q = status_ok (p1\<lparr>diagnostics := (diagnostics p1)
                        \<lparr>reports_accepted := reports_accepted (diagnostics p1) + 1\<rparr>\<rparr>) in
                  if s = current q
                  then (q\<lparr>diagnostics := (diagnostics q)
                            \<lparr>duplicate_reports := duplicate_reports (diagnostics q) + 1\<rparr>\<rparr>, HAL_OK)
                  else (enqueue_snapshot (q\<lparr>current := s, diagnostics := (diagnostics q)
                            \<lparr>state_changes := state_changes (diagnostics q) + 1\<rparr>\<rparr>), HAL_OK))
        = (p', status)"
      using unfolded False unfolding Let_def by (simp cong: option.case_cong)
    show ?thesis
    proof (cases "find_report_layout p1 report_id")
      case None
      then show ?thesis using running p1 by (auto intro: rejected_same)
    next
      case layout: (Some i)
      show ?thesis
      proof (cases "length r < unat (required_bytes (report_layouts p1 ! i)) \<or>
          apply_fields (current p1) (parser_fields p1) report_id r = None")
        case True
        then show ?thesis using running layout p1 by (auto intro: rejected_same split: if_splits)
      next
        case accepted: False
        then have long: "\<not> length r < unat (required_bytes (report_layouts p1 ! i))" by simp
        from accepted obtain s where s: "apply_fields (current p1) (parser_fields p1) report_id r = Some s" by auto
        define q where "q = status_ok (p1\<lparr>diagnostics := (diagnostics p1)
                        \<lparr>reports_accepted := reports_accepted (diagnostics p1) + 1\<rparr>\<rparr>)"
        have q: "same_state q p" using p1 by (simp add: q_def)
        define q' where "q' = q\<lparr>current := s, diagnostics := (diagnostics q)
                            \<lparr>state_changes := state_changes (diagnostics q) + 1\<rparr>\<rparr>"
        have q': "same_state q' (p\<lparr>current := s\<rparr>)" using q by (simp add: q'_def same_state_def)
        have "(if s = current q then (q\<lparr>diagnostics := (diagnostics q)
                \<lparr>duplicate_reports := duplicate_reports (diagnostics q) + 1\<rparr>\<rparr>, HAL_OK)
            else (enqueue_snapshot q', HAL_OK)) = (p', status)"
          using running unfolding layout option.case if_not_P [OF long] s Let_def
            q_def [symmetric] q'_def [symmetric] .
        then consider "p' = q\<lparr>diagnostics := (diagnostics q)
                \<lparr>duplicate_reports := duplicate_reports (diagnostics q) + 1\<rparr>\<rparr>"
          | "s \<noteq> current q" "p' = enqueue_snapshot q'" "status = HAL_OK"
          by (auto split: if_splits)
        then show ?thesis
        proof cases
          case 1
          then have "same_state p' p" using q by simp
          then show ?thesis ..
        next
          case 2
          have "report_id = (if report_ids_declared p then ucast (hd r) else JH_HID_REPORT_ID_UNDEFINED)"
            by (simp add: report_id_def eqs)
          moreover have "current q = current p" using q by (simp add: same_state_def)
          ultimately show ?thesis
            using 2 q' r layout accepted s False by (auto simp: layouts eqs)
        qed
      qed
    qed
  qed
qed

section \<open>Axis values\<close>

lemma sint_i64: "- (2 ^ 63) \<le> x \<Longrightarrow> x < 2 ^ 63 \<Longrightarrow> sint (word_of_int x :: i64) = x"
  by (simp add: signed_of_int signed_take_bit_int_eq_self)

lemma ucast_i64_i16: "(ucast (word_of_int x :: i64) :: i16) = word_of_int x"
  by (rule bit_word_eqI) (simp add: bit_ucast_iff bit_word_of_int_iff)

lemma sint_i32_range: "- (2 ^ 31) \<le> sint (v :: i32)" "sint (v :: i32) < 2 ^ 31"
  using sint_greater_eq [of v] sint_lt [of v] by simp_all

lemma scast_diff: "scast a - scast b = (word_of_int (sint a - sint b) :: i64)" for a b :: i32
  by simp

lemma normalize_axis_int:
  assumes "sint lo < sint hi" "sint lo \<le> sint v" "sint v \<le> sint hi"
  shows "sint (normalize_axis v lo hi) = (sint v - sint lo) * 65534 div (sint hi - sint lo) - 32767"
proof -
  define a where "a = sint v - sint lo"
  define r where "r = sint hi - sint lo"
  have a: "0 \<le> a" "a \<le> r" "0 < r" using assms by (simp_all add: a_def r_def)
  have r: "r < 2 ^ 32" using sint_i32_range(1) [of lo] sint_i32_range(2) [of hi] by (simp add: r_def)
  have diffs: "scast hi - scast lo = (word_of_int r :: i64)" "scast v - scast lo = (word_of_int a :: i64)"
    unfolding a_def r_def by (rule scast_diff)+
  have "a * 65534 < 2 ^ 32 * 65534" using a r by simp
  then have prod: "sint (word_of_int a * 65534 :: i64) = a * 65534"
    using sint_i64 [of "a * 65534"] a by simp
  have range: "sint (word_of_int r :: i64) = r" using sint_i64 [of r] a r by simp
  define q where "q = a * 65534 div r"
  have q: "0 \<le> q" "q \<le> 65534"
  proof -
    show "0 \<le> q" using a by (simp add: q_def pos_imp_zdiv_nonneg_iff)
    have "a * 65534 div r \<le> r * 65534 div r" using a by (intro zdiv_mono1) simp_all
    then show "q \<le> 65534" using a by (simp add: q_def)
  qed
  have "a * 65534 sdiv r = q"
    using a by (simp add: signed_divide_int_def q_def sgn_if)
  then have scaled: "word_of_int (sint (word_of_int a * 65534 :: i64) sdiv sint (word_of_int r :: i64)) - 32767
      = (word_of_int (q - 32767) :: i64)"
    unfolding prod range by simp
  have "sint (word_of_int (q - 32767) :: i64) = q - 32767" using q by (intro sint_i64) simp_all
  moreover have "sint (ucast (word_of_int (q - 32767) :: i64) :: i16) = q - 32767"
  proof -
    have "(ucast (word_of_int (q - 32767) :: i64) :: i16) = word_of_int (q - 32767)"
      by (rule ucast_i64_i16)
    moreover have "sint (word_of_int (q - 32767) :: i16) = q - 32767"
      using q unfolding signed_of_int by (simp add: signed_take_bit_int_eq_self)
    ultimately show ?thesis by simp
  qed
  ultimately show ?thesis
    using q unfolding normalize_axis_def Let_def diffs scaled by (simp add: q_def a_def r_def)
qed

text \<open>Inside the logical range an axis value is scaled to \<open>-32767..32767\<close>: the ends of
  the range go to the ends, a larger value never gives a smaller result, no 64-bit
  intermediate overflows and the clamps never act.\<close>

theorem gamepad_axis_scaling:
  assumes "sint lo < sint hi" "sint lo \<le> sint v" "sint v \<le> sint w" "sint w \<le> sint hi"
  shows "-32767 \<le> sint (normalize_axis v lo hi) \<and>
    sint (normalize_axis v lo hi) \<le> sint (normalize_axis w lo hi) \<and>
    sint (normalize_axis w lo hi) \<le> 32767 \<and>
    sint (normalize_axis lo lo hi) = -32767 \<and> sint (normalize_axis hi lo hi) = 32767"
proof -
  have less: "0 < sint hi - sint lo" using assms(1) by simp
  have mono: "sint (normalize_axis v lo hi) \<le> sint (normalize_axis w lo hi)"
    if "sint lo \<le> sint v" "sint v \<le> sint w" "sint w \<le> sint hi" for v w
    using that less by (simp add: normalize_axis_int zdiv_mono1)
  have "d * 65534 div d = 65534" if "0 < d" for d :: int using that by simp
  note full = this [OF less]
  have ends: "sint (normalize_axis lo lo hi) = -32767" "sint (normalize_axis hi lo hi) = 32767"
    using normalize_axis_int [of lo hi lo] normalize_axis_int [of lo hi hi, unfolded full] less
    by simp_all
  show ?thesis
    using mono [of lo v] mono [of v w] mono [of w hi] ends assms by simp
qed

lemma gamepad_axis_scaling_witness:
  "sint (normalize_axis 0 (-127) 127) \<le> sint (normalize_axis 1 (-127) 127) \<and>
   sint (normalize_axis (-127) (-127) 127) = -32767"
  using gamepad_axis_scaling [of "-127" 127 0 1] by simp


section \<open>Reachable parsers\<close>

text \<open>The states the calls of the interface lead to, with any descriptor and any reports.\<close>

inductive gamepad_reachable :: "gamepad_parser \<Rightarrow> bool" where
  initialised: "gamepad_reachable jh_bluetooth_gamepad_parser_init"
| configures: "gamepad_reachable p \<Longrightarrow>
    gamepad_reachable (fst (jh_bluetooth_gamepad_parser_configure p descriptor))"
| opens: "gamepad_reachable p \<Longrightarrow>
    gamepad_reachable (fst (jh_bluetooth_gamepad_parser_connection_opened p))"
| closes: "gamepad_reachable p \<Longrightarrow>
    gamepad_reachable (fst (jh_bluetooth_gamepad_parser_connection_closed p))"
| parses: "gamepad_reachable p \<Longrightarrow>
    gamepad_reachable (fst (jh_bluetooth_gamepad_parser_parse_input p report))"
| takes: "gamepad_reachable p \<Longrightarrow>
    gamepad_reachable (fst (jh_bluetooth_gamepad_parser_next p out))"

lemma waiting_empty: "waiting p = [] \<longleftrightarrow> queue_count p = 0"
  by (simp add: waiting_def unsigned_eq_0_iff)

lemma next_waiting:
  assumes "ring_ok p" "configured p" "\<not> overflow_pending p" "waiting p \<noteq> []"
  shows "\<exists>p'. jh_bluetooth_gamepad_parser_next p True = (p', HAL_OK, Some (hd (waiting p))) \<and>
    waiting p' = tl (waiting p) \<and> ring_ok p' \<and> current p' = current p \<and>
    parser_fields p' = parser_fields p \<and> report_layouts p' = report_layouts p \<and>
    configured p' \<and> overflow_pending p' = overflow_pending p"
proof -
  define p' where "p' = p\<lparr>queue_head := of_nat ((unat (queue_head p) + 1) mod 16),
      queue_count := queue_count p - 1\<rparr>"
  have count: "unat (queue_count p) \<noteq> 0" using assms(4) by (simp add: waiting_def)
  then have "queue_count p \<noteq> 0" by auto
  have less: "unat (queue_head p) < 16" "unat (queue_count p) \<le> 16" using assms(1) by (simp_all add: ring_ok_def)
  have "jh_bluetooth_gamepad_parser_next p True = (p', HAL_OK, Some (queue p ! unat (queue_head p)))"
    using assms(2,3) \<open>queue_count p \<noteq> 0\<close>
    by (simp add: jh_bluetooth_gamepad_parser_next_def p'_def JH_BLUETOOTH_GAMEPAD_QUEUE_CAPACITY_def)
  moreover have upt: "[0..<unat (queue_count p)] = 0 # map Suc [0..<unat (queue_count p) - 1]"
    using count by (simp add: upt_conv_Cons map_Suc_upt)
  have "hd (waiting p) = queue p ! unat (queue_head p)"
    using less unfolding waiting_def upt by simp
  moreover have head: "unat (queue_head p') = (unat (queue_head p) + 1) mod 16"
    unfolding p'_def by simp (subst unat_of_nat_less; simp add: less_trans [OF mod_less_divisor])
  have "unat (queue_count p') = unat (queue_count p) - 1"
    using count by (simp add: p'_def word_dec Suc_leI)
  then have "waiting p' = tl (waiting p)" "ring_ok p'"
    using less assms(1) le_trans [OF diff_le_self less(2), of 1]
    unfolding waiting_def upt head ring_ok_def
    by (simp_all add: p'_def comp_def mod_simps)
  ultimately show ?thesis
    using assms(2,3) by (simp add: p'_def)
qed

lemma ok_next: "gamepad_ok p \<Longrightarrow> gamepad_ok (fst (jh_bluetooth_gamepad_parser_next p out))"
proof (cases "configured p \<and> \<not> overflow_pending p \<and> waiting p \<noteq> [] \<and> out")
  case True
  assume ok: "gamepad_ok p"
  then obtain p' where p': "jh_bluetooth_gamepad_parser_next p True = (p', HAL_OK, Some (hd (waiting p)))"
    "waiting p' = tl (waiting p)" "ring_ok p'" "current p' = current p"
    "parser_fields p' = parser_fields p" "report_layouts p' = report_layouts p" "configured p'"
    using next_waiting [of p] True by (auto simp: gamepad_ok_def)
  then show ?thesis
    using ok True by (cases "waiting p") (auto simp: gamepad_ok_def split: if_splits)
next
  case False
  assume ok: "gamepad_ok p"
  have "fst (jh_bluetooth_gamepad_parser_next p out) = p \<or>
      fst (jh_bluetooth_gamepad_parser_next p out) = p\<lparr>overflow_pending := False\<rparr>"
    using False waiting_empty [of p] by (auto simp: jh_bluetooth_gamepad_parser_next_def)
  moreover have "gamepad_ok (p\<lparr>overflow_pending := False\<rparr>)"
    using ok by (simp add: gamepad_ok_def ring_ok_def waiting_def)
  ultimately show ?thesis using ok by auto
qed

lemma ok_connection:
  assumes "gamepad_ok p" "length (axes s) = 9"
  shows "gamepad_ok (enqueue_snapshot (status_ok (p\<lparr>current := s\<rparr>)))"
  by (rule gamepad_ok_enqueue [OF assms(1) _ assms(2)]) simp

lemma ok_opened: "gamepad_ok p \<Longrightarrow> gamepad_ok (fst (jh_bluetooth_gamepad_parser_connection_opened p))"
  using ok_connection by (simp add: jh_bluetooth_gamepad_parser_connection_opened_def)

lemma ok_closed: "gamepad_ok p \<Longrightarrow> gamepad_ok (fst (jh_bluetooth_gamepad_parser_connection_closed p))"
  using ok_connection by (simp add: jh_bluetooth_gamepad_parser_connection_closed_def)

lemma ok_parse: "gamepad_ok p \<Longrightarrow> gamepad_ok (fst (jh_bluetooth_gamepad_parser_parse_input p report))"
proof -
  assume ok: "gamepad_ok p"
  obtain p' status where parse: "jh_bluetooth_gamepad_parser_parse_input p report = (p', status)"
    by fastforce
  from parse_input_cases [OF parse] show ?thesis
  proof
    assume "same_state p' p"
    then show ?thesis using same_state_ok ok parse by simp
  next
    assume "status = HAL_OK \<and> configured p \<and> connected (current p) \<and>
      (\<exists>r report_id i s q. report = Some r \<and> r \<noteq> [] \<and> length r \<le> 32 \<and>
       report_id = (if report_ids_declared p then ucast (hd r) else JH_HID_REPORT_ID_UNDEFINED) \<and>
       find_report_layout p report_id = Some i \<and>
       unat (required_bytes (report_layouts p ! i)) \<le> length r \<and>
       apply_fields (current p) (parser_fields p) report_id r = Some s \<and> s \<noteq> current p \<and>
       same_state q (p\<lparr>current := s\<rparr>) \<and> p' = enqueue_snapshot q)"
    then obtain report_id r s q where "apply_fields (current p) (parser_fields p) report_id r = Some s"
      "same_state q (p\<lparr>current := s\<rparr>)" "p' = enqueue_snapshot q" by blast
    then show ?thesis
      using gamepad_ok_enqueue [OF ok, of q s] apply_fields_axes [of "current p"] ok parse
      by (simp add: gamepad_ok_def)
  qed
qed

lemma reachable_ok: "gamepad_reachable p \<Longrightarrow> gamepad_ok p"
proof (induction rule: gamepad_reachable.induct)
  case (configures p descriptor)
  show ?case using ok_configure [of p descriptor] by (cases "jh_bluetooth_gamepad_parser_configure p descriptor") auto
qed (simp_all add: ok_init ok_opened ok_closed ok_parse ok_next)

section \<open>Properties\<close>

text \<open>A field of a reachable, configured parser and a report long enough for its layout.\<close>

lemma field_in_report:
  assumes "gamepad_reachable p" "configured p" "find_report_layout p report_id = Some i"
    and "unat (required_bytes (report_layouts p ! i)) \<le> n"
    and "f \<in> set (parser_fields p)" "field_report_id f = report_id"
  shows "unat (field_position f) = unat (bit_position f) + id_bits report_id"
    and "unat (field_position f) + unat (bit_size f) \<le> 8 * n" "unat (field_position f) < 2048"
    and "1 \<le> unat (bit_size f)" "unat (bit_size f) \<le> 32" "kind_ok f"
proof -
  have table: "parser_table_ok p" using reachable_ok [OF assms(1)] assms(2) by (simp add: gamepad_ok_def)
  define l where "l = report_layouts p ! i"
  have l: "l \<in> set (report_layouts p)" "layout_report_id l = report_id"
    using find_report_layout_Some [OF assms(3)] by (simp_all add: l_def)
  obtain l' where l': "l' \<in> set (report_layouts p)" "layout_report_id l' = field_report_id f"
    "field_within (unat (bit_length l')) f"
    using table assms(5) unfolding table_ok_def by blast
  have "l' = l" using layout_unique [OF table l'(1) l(1)] l(2) l'(2) assms(6) by simp
  then have within: "field_within (unat (bit_length l)) f" using l'(3) by simp
  have "layout_ok l" using table l(1) unfolding table_ok_def by blast
  then have bits: "unat (bit_length l) + id_bits report_id \<le> 8 * unat (required_bytes l)"
    "unat (required_bytes l) \<le> 32" using l(2) by (simp_all add: layout_ok_def)
  note f = within [unfolded field_within_def]
  have small: "unat (bit_position f) + id_bits report_id + unat (bit_size f) \<le> 8 * unat (required_bytes l)"
    using f bits(1) by linarith
  have req: "unat (required_bytes l) \<le> n" using assms(4) by (simp add: l_def)
  have "unat (bit_position f + (if report_id = JH_HID_REPORT_ID_UNDEFINED then 0 else 8)) =
      unat (bit_position f) + id_bits report_id"
    using small bits(2) by (auto simp: id_bits_def unat_word_ariths)
  then show pos: "unat (field_position f) = unat (bit_position f) + id_bits report_id"
    by (simp add: field_position_def assms(6))
  show "unat (field_position f) + unat (bit_size f) \<le> 8 * n" using small req unfolding pos by linarith
  show "unat (field_position f) < 2048" using small bits(2) unfolding pos by linarith
  show "1 \<le> unat (bit_size f)" "unat (bit_size f) \<le> 32" "kind_ok f" using f by simp_all
qed

text \<open>C35: in every state the interface can reach, whatever descriptor was accepted, a report
  that passed the length check is never read behind its end: every index into the report that
  the loop of \<open>read_unsigned_field\<close> uses for a field of that report lies inside it, the raw value
  read is exactly the bits of the report at the field's position, and the slot a button or an axis is
  stored in exists.\<close>

theorem gamepad_reads_stay_in_report:
  assumes "gamepad_reachable p" "configured p" "find_report_layout p report_id = Some i"
    and "unat (required_bytes (report_layouts p ! i)) \<le> length report"
    and "f \<in> set (parser_fields p)" "field_report_id f = report_id"
  shows "(\<forall>i \<in> set (field_bytes (field_position f) (bit_size f)). i < length report) \<and>
    (\<forall>n. bit (read_unsigned_field report (field_position f) (bit_size f)) n \<longleftrightarrow>
       n < unat (bit_size f) \<and>
       report_bit report (unat (bit_position f) + id_bits report_id + n)) \<and>
    (case kind f of FIELD_BUTTON \<Rightarrow> unat (field_index f) < 32
     | FIELD_AXIS \<Rightarrow> unat (field_index f) < length (axes (current p)) | FIELD_HAT \<Rightarrow> True)"
proof -
  note field = field_in_report [OF assms]
  have "length (axes (current p)) = 9" using reachable_ok [OF assms(1)] by (simp add: gamepad_ok_def)
  then show ?thesis
    using field_bytes_within [OF field(3,5,2)] bit_read_unsigned_field [OF field(3-5)] field(1,6)
    by (auto simp: kind_ok_def split: field_kind.splits)
qed

text \<open>C36: in every reachable state the queue hands out the snapshots in the order they were
  queued: \<open>next\<close> first reports a loss once, then takes the oldest snapshot; the newest one
  waiting is always the current state, so a reader that empties the queue is never left
  with a stale state, even after an overflow dropped the backlog.\<close>

theorem gamepad_queue_is_fifo:
  assumes "gamepad_reachable p" "configured p"
  shows "length (waiting p) \<le> 16 \<and> (waiting p \<noteq> [] \<longrightarrow> last (waiting p) = current p) \<and>
    (\<exists>p'. jh_bluetooth_gamepad_parser_next p True =
        (p', if overflow_pending p then (HAL_EOVERFLOW, None)
             else if waiting p = [] then (HAL_EAGAIN, None) else (HAL_OK, Some (hd (waiting p)))) \<and>
      waiting p' = (if overflow_pending p then waiting p else tl (waiting p)) \<and>
      \<not> overflow_pending p' \<and> current p' = current p)"
proof -
  have ok: "ring_ok p" "waiting p \<noteq> [] \<longrightarrow> last (waiting p) = current p"
    using reachable_ok [OF assms(1)] by (simp_all add: gamepad_ok_def)
  have "length (waiting p) \<le> 16" using ok(1) by (simp add: ring_ok_def)
  moreover have "\<exists>p'. jh_bluetooth_gamepad_parser_next p True =
        (p', if overflow_pending p then (HAL_EOVERFLOW, None)
             else if waiting p = [] then (HAL_EAGAIN, None) else (HAL_OK, Some (hd (waiting p)))) \<and>
      waiting p' = (if overflow_pending p then waiting p else tl (waiting p)) \<and>
      \<not> overflow_pending p' \<and> current p' = current p"
  proof (cases "overflow_pending p \<or> waiting p = []")
    case True
    then show ?thesis
      using assms(2) waiting_empty [of p]
      by (auto simp: jh_bluetooth_gamepad_parser_next_def waiting_def)
  next
    case False
    then show ?thesis using next_waiting [OF ok(1) assms(2)] by auto
  qed
  ultimately show ?thesis using ok(2) by blast
qed

text \<open>C37: an input report either leaves the current state and the queue as they were, and
  so does every report that is rejected; or it is accepted, the state it describes differs
  from the current one, becomes the current one and is queued: behind the snapshots
  waiting, or alone with the overflow flag set when sixteen were waiting.\<close>

theorem gamepad_report_is_atomic:
  assumes "gamepad_reachable p"
    and "jh_bluetooth_gamepad_parser_parse_input p report = (p', status)"
  shows "(current p' = current p \<and> waiting p' = waiting p \<and> overflow_pending p' = overflow_pending p) \<or>
    (status = HAL_OK \<and> connected (current p) \<and> current p' \<noteq> current p \<and>
     (if length (waiting p) = 16 then waiting p' = [current p'] \<and> overflow_pending p'
      else waiting p' = waiting p @ [current p'] \<and> overflow_pending p' = overflow_pending p))"
proof -
  have ring: "ring_ok p" using reachable_ok [OF assms(1)] by (simp add: gamepad_ok_def)
  show ?thesis
  proof (cases "same_state p' p")
    case True
    then show ?thesis using same_state_waiting [OF True] by (simp add: same_state_def)
  next
    case False
    then obtain s q where q: "status = HAL_OK" "connected (current p)" "s \<noteq> current p"
      "same_state q (p\<lparr>current := s\<rparr>)" "p' = enqueue_snapshot q"
      using parse_input_cases [OF assms(2)] by blast
    have "ring_ok q" "waiting q = waiting p" "current q = s" "overflow_pending q = overflow_pending p"
      using q(4) ring same_state_waiting [OF q(4)] by (simp_all add: same_state_def ring_ok_def waiting_def)
    then show ?thesis using enqueue_waiting [of q] q by auto
  qed
qed

text \<open>A gamepad with one button, one bit wide, in a report of one byte.\<close>

definition one_button_descriptor :: bytes where
  "one_button_descriptor = [0x05, 0x01, 0x09, 0x05, 0xA1, 0x01, 0x05, 0x09, 0x09, 0x01,
     0x15, 0x00, 0x25, 0x01, 0x75, 0x01, 0x95, 0x01, 0x81, 0x02, 0xC0]"

lemmas item_constants =
  JH_HID_ITEM_TYPE_MAIN_def JH_HID_ITEM_TYPE_GLOBAL_def JH_HID_ITEM_TYPE_LOCAL_def
  JH_HID_ITEM_TYPE_RESERVED_def JH_HID_MAIN_INPUT_def JH_HID_MAIN_COLLECTION_def
  JH_HID_MAIN_END_COLLECTION_def JH_HID_GLOBAL_USAGE_PAGE_def JH_HID_GLOBAL_LOGICAL_MINIMUM_def
  JH_HID_GLOBAL_LOGICAL_MAXIMUM_def JH_HID_GLOBAL_PHYSICAL_MINIMUM_def JH_HID_GLOBAL_UNIT_def
  JH_HID_GLOBAL_REPORT_SIZE_def JH_HID_GLOBAL_REPORT_ID_def JH_HID_GLOBAL_REPORT_COUNT_def
  JH_HID_GLOBAL_PUSH_def JH_HID_GLOBAL_POP_def JH_HID_LOCAL_USAGE_def JH_HID_LOCAL_USAGE_MINIMUM_def
  JH_HID_LOCAL_USAGE_MAXIMUM_def

lemma items:
  "next_item one_button_descriptor 0 = Some (\<lparr>item_value = 1, signed_value = 1, data_size = 1, item_type = 1, item_tag = 0\<rparr>, 2)"
  "next_item one_button_descriptor 2 = Some (\<lparr>item_value = 5, signed_value = 5, data_size = 1, item_type = 2, item_tag = 0\<rparr>, 4)"
  "next_item one_button_descriptor 4 = Some (\<lparr>item_value = 1, signed_value = 1, data_size = 1, item_type = 0, item_tag = 10\<rparr>, 6)"
  "next_item one_button_descriptor 6 = Some (\<lparr>item_value = 9, signed_value = 9, data_size = 1, item_type = 1, item_tag = 0\<rparr>, 8)"
  "next_item one_button_descriptor 8 = Some (\<lparr>item_value = 1, signed_value = 1, data_size = 1, item_type = 2, item_tag = 0\<rparr>, 10)"
  "next_item one_button_descriptor 10 = Some (\<lparr>item_value = 0, signed_value = 0, data_size = 1, item_type = 1, item_tag = 1\<rparr>, 12)"
  "next_item one_button_descriptor 12 = Some (\<lparr>item_value = 1, signed_value = 1, data_size = 1, item_type = 1, item_tag = 2\<rparr>, 14)"
  "next_item one_button_descriptor 14 = Some (\<lparr>item_value = 1, signed_value = 1, data_size = 1, item_type = 1, item_tag = 7\<rparr>, 16)"
  "next_item one_button_descriptor 16 = Some (\<lparr>item_value = 1, signed_value = 1, data_size = 1, item_type = 1, item_tag = 9\<rparr>, 18)"
  "next_item one_button_descriptor 18 = Some (\<lparr>item_value = 2, signed_value = 2, data_size = 1, item_type = 0, item_tag = 8\<rparr>, 20)"
  "next_item one_button_descriptor 20 = Some (\<lparr>item_value = 0, signed_value = 0, data_size = 0, item_type = 0, item_tag = 12\<rparr>, 21)"
  by (subst next_item.simps, simp add: one_button_descriptor_def Let_def item_bytes_def extend_item_def)+

lemmas one_button_steps =
  descriptor_loop.simps [of one_button_descriptor 0]
  descriptor_loop.simps [of one_button_descriptor 2]
  descriptor_loop.simps [of one_button_descriptor 4]
  descriptor_loop.simps [of one_button_descriptor 6]
  descriptor_loop.simps [of one_button_descriptor 8]
  descriptor_loop.simps [of one_button_descriptor 10]
  descriptor_loop.simps [of one_button_descriptor 12]
  descriptor_loop.simps [of one_button_descriptor 14]
  descriptor_loop.simps [of one_button_descriptor 16]
  descriptor_loop.simps [of one_button_descriptor 18]
  descriptor_loop.simps [of one_button_descriptor 20]
  descriptor_loop.simps [of one_button_descriptor 21]

lemma one_button_configured:
  "\<exists>p. fst (jh_bluetooth_gamepad_parser_configure q (Some one_button_descriptor)) = p \<and>
    configured p \<and> find_report_layout p 0xFFFF = Some 0 \<and> \<not> report_ids_declared p \<and>
    \<not> connected (current p) \<and> required_bytes (report_layouts p ! 0) = 1 \<and>
    parser_fields p = [\<lparr>logical_minimum = 0, logical_maximum = 1, field_report_id = 0xFFFF,
      bit_position = 0, bit_size = 1, field_index = 0, main_flags = 2, kind = FIELD_BUTTON\<rparr>]"
proof -
  have "length one_button_descriptor = 21" "one_button_descriptor \<noteq> []"
    by (simp_all add: one_button_descriptor_def)
  then show ?thesis
    by (simp add: jh_bluetooth_gamepad_parser_configure_def parse_descriptor_def one_button_steps
      items descriptor_item_def item_constants global_item_def set_globals_def local_item_def
      collection_item_def input_item_def collect_input_fields_def append_field_def mapped_field_def
      local_usage_at_def duplicate_field_def get_report_layout_def find_report_layout_def
      descriptor_start_def reset_locals_def local_usage_value_def inside_gamepad_def
      accepted_application_usage_def jh_bluetooth_gamepad_parser_init_def zero_diagnostics_def
      reject_descriptor_def JH_HID_LOCAL_USAGE_CAPACITY_def JH_BLUETOOTH_GAMEPAD_FIELD_CAPACITY_def
      JH_HID_COLLECTION_DEPTH_MAX_def JH_HID_COLLECTION_APPLICATION_def JH_HID_USAGE_PAGE_DESKTOP_def
      JH_HID_USAGE_GAME_PAD_def JH_HID_USAGE_PAGE_BUTTON_def JH_BLUETOOTH_GAMEPAD_BUTTON_COUNT_def
      JH_BLUETOOTH_GAMEPAD_REPORT_MAX_def JH_BLUETOOTH_GAMEPAD_REPORT_ID_CAPACITY_def
      JH_BLUETOOTH_GAMEPAD_DESCRIPTOR_MAX_def JH_HID_REPORT_ID_UNDEFINED_def
      JH_HID_MAIN_FLAG_CONSTANT_def JH_HID_MAIN_FLAG_VARIABLE_def zero_snapshot_def Let_def)
qed

text \<open>The configured parser, before and after its gamepad connects.\<close>

definition one_button_parser :: gamepad_parser where
  "one_button_parser = fst (jh_bluetooth_gamepad_parser_configure
     jh_bluetooth_gamepad_parser_init (Some one_button_descriptor))"

definition one_button_open :: gamepad_parser where
  "one_button_open = fst (jh_bluetooth_gamepad_parser_connection_opened one_button_parser)"

lemma one_button_reachable: "gamepad_reachable one_button_parser" "gamepad_reachable one_button_open"
  unfolding one_button_open_def one_button_parser_def
  by (intro gamepad_reachable.intros)+

lemma one_button_facts:
  "configured one_button_parser" "find_report_layout one_button_parser 0xFFFF = Some 0"
  "required_bytes (report_layouts one_button_parser ! 0) = 1"
  "parser_fields one_button_parser = [\<lparr>logical_minimum = 0, logical_maximum = 1,
     field_report_id = 0xFFFF, bit_position = 0, bit_size = 1, field_index = 0, main_flags = 2,
     kind = FIELD_BUTTON\<rparr>]"
  "\<not> connected (current one_button_parser)"
  using one_button_configured [of jh_bluetooth_gamepad_parser_init]
  unfolding one_button_parser_def by auto

lemma one_button_open_configured: "configured one_button_open"
  using one_button_facts(1)
  by (simp add: one_button_open_def jh_bluetooth_gamepad_parser_connection_opened_def status_ok_def)

definition one_button_field :: gamepad_field where
  "one_button_field = \<lparr>logical_minimum = 0, logical_maximum = 1, field_report_id = 0xFFFF,
     bit_position = 0, bit_size = 1, field_index = 0, main_flags = 2, kind = FIELD_BUTTON\<rparr>"

lemma gamepad_reads_stay_in_report_witness:
  "field_bytes (field_position one_button_field) (bit_size one_button_field) = [0] \<and>
   list_all (\<lambda>i. i < length [0x01 :: u8]) (field_bytes (field_position one_button_field) (bit_size one_button_field)) \<and>
   bit (read_unsigned_field [0x01] (field_position one_button_field) (bit_size one_button_field)) 0 \<and>
   unat (field_index one_button_field) < 32"
proof -
  have f: "one_button_field \<in> set (parser_fields one_button_parser)" "field_report_id one_button_field = 0xFFFF"
    "kind one_button_field = FIELD_BUTTON"
    using one_button_facts(4) by (simp_all add: one_button_field_def)
  have "unat (required_bytes (report_layouts one_button_parser ! 0)) \<le> length [0x01 :: u8]"
    using one_button_facts(3) by simp
  note reads = gamepad_reads_stay_in_report [OF one_button_reachable(1) one_button_facts(1,2) this f(1,2)]
  have "0 < unat (bit_size one_button_field)" "report_bit [0x01] (unat (bit_position one_button_field) + id_bits 0xFFFF + 0)"
    by (simp_all add: one_button_field_def report_bit_def id_bits_def JH_HID_REPORT_ID_UNDEFINED_def)
  then have "bit (read_unsigned_field [0x01] (field_position one_button_field) (bit_size one_button_field)) 0" using reads by blast
  moreover have "unat (field_index one_button_field) < 32" using reads unfolding f(3) field_kind.case by (elim conjE)
  moreover have "field_bytes (field_position one_button_field) (bit_size one_button_field) = [0]"
    by (simp add: field_bytes_def one_button_field_def field_position_def JH_HID_REPORT_ID_UNDEFINED_def)
  ultimately show ?thesis using reads unfolding list_all_iff by blast
qed

lemma one_button_waiting: "waiting one_button_open \<noteq> []"
proof -
  have "ring_ok one_button_parser" using reachable_ok [OF one_button_reachable(1)] by (simp add: gamepad_ok_def)
  then show ?thesis
    using one_button_facts(1,5)
    by (simp add: one_button_open_def jh_bluetooth_gamepad_parser_connection_opened_def
      enqueue_waiting(1) ring_ok_def status_ok_def)
qed

lemma gamepad_queue_is_fifo_witness:
  "length (waiting one_button_open) \<le> 16 \<and> last (waiting one_button_open) = current one_button_open"
  using gamepad_queue_is_fifo [OF one_button_reachable(2) one_button_open_configured] one_button_waiting
  by simp

lemma gamepad_report_is_atomic_witness:
  "\<exists>p' status. jh_bluetooth_gamepad_parser_parse_input one_button_open (Some [0x01]) = (p', status) \<and>
     (waiting p' = waiting one_button_open \<or> waiting p' \<noteq> [] \<and> last (waiting p') = current p')"
proof -
  obtain p' status where
    "jh_bluetooth_gamepad_parser_parse_input one_button_open (Some [0x01]) = (p', status)" by fastforce
  then show ?thesis
    using gamepad_report_is_atomic [OF one_button_reachable(2)] by (fastforce split: if_splits)
qed

end
