(* ===== verification/Eeprom.thy ===== *)
theory Eeprom
  imports Endian
begin

text \<open>
  Persistent storage: the facade of \<open>src/hal/storage/hal_eeprom.cpp\<close>, which checks ranges
  and geometry and passes each operation to the provider selected at initialisation, and
  the provider for buffered flash, \<open>src/hal/storage/jh_eeprom_flash_provider.cpp\<close>, which
  keeps a mirror of the flash in RAM and resynchronises it after a failed write.

  A structure of function pointers is a record of functions: the provider
  (\<open>jh_eeprom_provider_ops_t\<close>) works on a state of any type, and so does the target's flash
  backend (\<open>jh_eeprom_flash_backend_t\<close>). Addresses and lengths are \<open>uint16_t\<close> in the code and
  \<open>nat\<close> here: sums are formed in \<open>int\<close> or \<open>uint32_t\<close> and every cast back to 16 bits is of a
  difference that was checked, so nothing wraps. A read gets the buffer and returns it.
  The progress callbacks, which only report that time passes, are left out, and so is the
  facade's mutex, which makes its operations atomic.
\<close>

section \<open>Providers and their backends\<close>

datatype eeprom_type = HAL_EEPROM_DEFAULT | HAL_EEPROM_AT24C256 | HAL_EEPROM_FLASH | HAL_EEPROM_STM32_FLASH

record provider_info =
  info_size :: nat
  info_erase_size :: nat
  info_program_size :: nat
  info_append_size :: nat

record 'p provider =
  p_initialize :: "'p \<Rightarrow> eeprom_type \<Rightarrow> nat \<Rightarrow> u8 \<Rightarrow> 'p \<times> provider_info \<times> hal_status"
  p_read :: "'p \<Rightarrow> nat \<Rightarrow> bytes \<Rightarrow> nat \<Rightarrow> bytes \<times> hal_status"
  p_write :: "'p \<Rightarrow> nat \<Rightarrow> bytes \<Rightarrow> 'p \<times> hal_status"
  p_commit :: "'p \<Rightarrow> 'p \<times> hal_status"
  p_replace_region :: "'p \<Rightarrow> nat \<Rightarrow> bytes \<Rightarrow> nat \<Rightarrow> 'p \<times> hal_status"
  p_reset :: "'p \<Rightarrow> 'p \<times> hal_status"
  p_append :: "'p \<Rightarrow> nat \<Rightarrow> bytes \<Rightarrow> 'p \<times> hal_status"
  p_erase :: "'p \<Rightarrow> nat \<Rightarrow> nat \<Rightarrow> 'p \<times> hal_status"
  p_region_erased :: "'p \<Rightarrow> nat \<Rightarrow> nat \<Rightarrow> bool \<times> hal_status"
  p_read_medium :: "'p \<Rightarrow> nat \<Rightarrow> bytes \<Rightarrow> nat \<Rightarrow> bytes \<times> hal_status"

record 'h flash_backend =
  be_mirror_capacity :: nat
  clamp_oversized_request :: bool
  clear_full_storage_on_reset :: bool
  be_load :: "'h \<Rightarrow> bytes \<Rightarrow> 'h \<times> bytes \<times> nat \<times> hal_status"
  be_store :: "'h \<Rightarrow> bytes \<Rightarrow> nat \<Rightarrow> 'h \<times> hal_status"
  be_replace_region :: "('h \<Rightarrow> nat \<Rightarrow> bytes \<Rightarrow> nat \<Rightarrow> bool \<Rightarrow> 'h \<times> hal_status) option"
  be_program :: "'h \<Rightarrow> nat \<Rightarrow> bytes \<Rightarrow> 'h \<times> hal_status"
  be_erase :: "'h \<Rightarrow> nat \<Rightarrow> nat \<Rightarrow> 'h \<times> hal_status"
  be_read :: "'h \<Rightarrow> nat \<Rightarrow> bytes \<Rightarrow> nat \<Rightarrow> bytes \<times> hal_status"
  be_erase_size :: nat
  be_program_size :: nat
  be_append_size :: nat

section \<open>The provider for buffered flash\<close>

text \<open>
  The state holds the mirror (the target's array) and the flash itself, \<open>fp_flash\<close>. The two
  callbacks the application may set around a physical write
  (\<open>hal_eeprom_set_flash_write_callbacks\<close>) are kept here; they act on the world of the flash.
\<close>

record 'h flash_state =
  fp_storage_size :: nat
  fp_active_size :: nat
  fp_ready :: bool
  fp_dirty :: bool
  fp_mirror :: bytes
  fp_flash :: 'h
  fp_prepare :: "('h \<Rightarrow> 'h \<times> hal_status) option"
  fp_finish :: "('h \<Rightarrow> 'h) option"

definition hal_eeprom_set_flash_write_callbacks ::
  "'h flash_state \<Rightarrow> ('h \<Rightarrow> 'h \<times> hal_status) option \<Rightarrow> ('h \<Rightarrow> 'h) option \<Rightarrow> 'h flash_state \<times> hal_status" where
  "hal_eeprom_set_flash_write_callbacks p prepare finish =
     (if (prepare = None) \<noteq> (finish = None) then (p, HAL_EINVAL)
      else (p\<lparr>fp_prepare := prepare, fp_finish := finish\<rparr>, HAL_OK))"

definition jh_eeprom_flash_write_begin :: "'h flash_state \<Rightarrow> 'h flash_state \<times> hal_status" where
  "jh_eeprom_flash_write_begin p =
     (case fp_prepare p of
        None \<Rightarrow> (p, HAL_OK)
      | Some prepare \<Rightarrow> (case prepare (fp_flash p) of (h, status) \<Rightarrow> (p\<lparr>fp_flash := h\<rparr>, status)))"

definition jh_eeprom_flash_write_end :: "'h flash_state \<Rightarrow> 'h flash_state" where
  "jh_eeprom_flash_write_end p =
     (case fp_finish p of None \<Rightarrow> p | Some finish \<Rightarrow> p\<lparr>fp_flash := finish (fp_flash p)\<rparr>)"

definition flash_initialize ::
  "'h flash_backend \<Rightarrow> 'h flash_state \<Rightarrow> eeprom_type \<Rightarrow> nat \<Rightarrow> u8 \<Rightarrow>
   'h flash_state \<times> provider_info \<times> hal_status" where
  "flash_initialize be p requested_type requested_size i2c_addr =
     (let no_info = \<lparr>info_size = 0, info_erase_size = 0, info_program_size = 0, info_append_size = 0\<rparr> in
      if be_mirror_capacity be = 0 then (p, no_info, HAL_ECONFIG)
      else
        let (h, mirror, storage_size, status) = be_load be (fp_flash p) (fp_mirror p);
            p = p\<lparr>fp_ready := False, fp_dirty := False, fp_storage_size := storage_size, fp_mirror := mirror,
              fp_flash := h\<rparr>
        in if status \<noteq> HAL_OK then (p, no_info, status)
        else if storage_size = 0 \<or> storage_size > be_mirror_capacity be then (p, no_info, HAL_ECONFIG)
        else if requested_size > storage_size \<and> \<not> clamp_oversized_request be then (p, no_info, HAL_EINVAL)
        else
          let active_size = (if requested_size = 0 \<or> requested_size > storage_size then storage_size
                             else requested_size) in
          (p\<lparr>fp_active_size := active_size, fp_ready := True\<rparr>,
           \<lparr>info_size = active_size, info_erase_size = be_erase_size be,
            info_program_size = be_program_size be, info_append_size = be_append_size be\<rparr>, HAL_OK))"

definition fp_range_valid :: "'h flash_state \<Rightarrow> nat \<Rightarrow> nat \<Rightarrow> bool" where
  "fp_range_valid p addr len \<longleftrightarrow> fp_ready p \<and> addr \<le> fp_active_size p \<and> len \<le> fp_active_size p - addr"

definition storage_range_valid :: "'h flash_state \<Rightarrow> nat \<Rightarrow> nat \<Rightarrow> bool" where
  "storage_range_valid p addr len \<longleftrightarrow> addr \<le> fp_storage_size p \<and> len \<le> fp_storage_size p - addr"

definition mirror_erased :: "'h flash_state \<Rightarrow> nat \<Rightarrow> nat \<Rightarrow> bool" where
  "mirror_erased p addr len \<longleftrightarrow> list_all (\<lambda>b. b = 0xFF) (subarr addr len (fp_mirror p))"

definition resync_mirror :: "'h flash_backend \<Rightarrow> 'h flash_state \<Rightarrow> nat \<Rightarrow> nat \<Rightarrow> 'h flash_state" where
  "resync_mirror be p addr len =
     (case be_read be (fp_flash p) addr (subarr addr len (fp_mirror p)) len of
        (out, status) \<Rightarrow>
          p\<lparr>fp_mirror := blit (fp_mirror p) addr (if status = HAL_OK then out else replicate len 0)\<rparr>)"

definition flash_read :: "'h flash_state \<Rightarrow> nat \<Rightarrow> bytes \<Rightarrow> nat \<Rightarrow> bytes \<times> hal_status" where
  "flash_read p addr out len =
     (if \<not> fp_range_valid p addr len then (out, if fp_ready p then HAL_EINVAL else HAL_EUNINIT)
      else (blit out 0 (subarr addr len (fp_mirror p)), HAL_OK))"

definition flash_read_medium ::
  "'h flash_backend \<Rightarrow> 'h flash_state \<Rightarrow> nat \<Rightarrow> bytes \<Rightarrow> nat \<Rightarrow> bytes \<times> hal_status" where
  "flash_read_medium be p addr out len =
     (if \<not> fp_range_valid p addr len then (out, if fp_ready p then HAL_EINVAL else HAL_EUNINIT)
      else if len > 0 then be_read be (fp_flash p) addr out len else (out, HAL_OK))"

definition flash_write :: "'h flash_state \<Rightarrow> nat \<Rightarrow> bytes \<Rightarrow> 'h flash_state \<times> hal_status" where
  "flash_write p addr data =
     (if \<not> fp_range_valid p addr (length data) then (p, if fp_ready p then HAL_EINVAL else HAL_EUNINIT)
      else if data = [] then (p, HAL_OK)
      else (p\<lparr>fp_mirror := blit (fp_mirror p) addr data, fp_dirty := True\<rparr>, HAL_OK))"

text \<open>The operations that write the flash run between the two callbacks.\<close>

definition flash_commit :: "'h flash_backend \<Rightarrow> 'h flash_state \<Rightarrow> 'h flash_state \<times> hal_status" where
  "flash_commit be p =
     (if \<not> fp_ready p then (p, HAL_EUNINIT)
      else if \<not> fp_dirty p then (p, HAL_OK)
      else case jh_eeprom_flash_write_begin p of (p, prepare) \<Rightarrow>
        if prepare \<noteq> HAL_OK then (p, prepare)
        else case be_store be (fp_flash p) (fp_mirror p) (fp_storage_size p) of (h, status) \<Rightarrow>
          let p = jh_eeprom_flash_write_end (p\<lparr>fp_flash := h\<rparr>) in
          (if status = HAL_OK then p\<lparr>fp_dirty := False\<rparr> else p, status))"

definition flash_replace_region ::
  "'h flash_backend \<Rightarrow> 'h flash_state \<Rightarrow> nat \<Rightarrow> bytes \<Rightarrow> nat \<Rightarrow> 'h flash_state \<times> hal_status" where
  "flash_replace_region be p addr data publish_size =
     (case be_replace_region be of
        None \<Rightarrow> (p, if fp_ready p then HAL_EUNSUPPORTED else HAL_EUNINIT)
      | Some replace_fn \<Rightarrow>
          let len = length data in
          if \<not> fp_ready p then (p, HAL_EUNINIT)
          else if publish_size = 0 \<or> publish_size \<ge> len \<or> \<not> storage_range_valid p addr len
          then (p, HAL_EINVAL)
          else case jh_eeprom_flash_write_begin p of (p, prepare) \<Rightarrow>
            if prepare \<noteq> HAL_OK then (p, prepare)
            else
              let reads_erased = mirror_erased p addr len;
                  (h, status) = replace_fn (fp_flash p) addr data publish_size reads_erased;
                  (h, status) = (if status = HAL_EIO \<and> reads_erased
                                 then replace_fn h addr data publish_size False else (h, status));
                  p = jh_eeprom_flash_write_end (p\<lparr>fp_flash := h\<rparr>)
              in (if status = HAL_OK then p\<lparr>fp_mirror := blit (fp_mirror p) addr data\<rparr>
                  else resync_mirror be p addr len, status))"

definition flash_append ::
  "'h flash_backend \<Rightarrow> 'h flash_state \<Rightarrow> nat \<Rightarrow> bytes \<Rightarrow> 'h flash_state \<times> hal_status" where
  "flash_append be p addr data =
     (let len = length data in
      if \<not> fp_ready p then (p, HAL_EUNINIT)
      else if len = 0 \<or> \<not> storage_range_valid p addr len then (p, HAL_EINVAL)
      else if \<not> mirror_erased p addr len then (p, HAL_ESTATE)
      else case jh_eeprom_flash_write_begin p of (p, prepare) \<Rightarrow>
        if prepare \<noteq> HAL_OK then (p, prepare)
        else case be_program be (fp_flash p) addr data of (h, status) \<Rightarrow>
          let p = jh_eeprom_flash_write_end (p\<lparr>fp_flash := h\<rparr>) in
          if status = HAL_OK then (p\<lparr>fp_mirror := blit (fp_mirror p) addr data\<rparr>, HAL_OK)
          else
            let p = resync_mirror be p addr len in
            (p, if status = HAL_EIO \<and> mirror_erased p addr len then HAL_ESTATE else status))"

definition flash_erase ::
  "'h flash_backend \<Rightarrow> 'h flash_state \<Rightarrow> nat \<Rightarrow> nat \<Rightarrow> 'h flash_state \<times> hal_status" where
  "flash_erase be p addr len =
     (if \<not> fp_ready p then (p, HAL_EUNINIT)
      else if \<not> storage_range_valid p addr len then (p, HAL_EINVAL)
      else case jh_eeprom_flash_write_begin p of (p, prepare) \<Rightarrow>
        if prepare \<noteq> HAL_OK then (p, prepare)
        else case be_erase be (fp_flash p) addr len of (h, status) \<Rightarrow>
          let p = jh_eeprom_flash_write_end (p\<lparr>fp_flash := h\<rparr>) in
          (if status = HAL_OK then p\<lparr>fp_mirror := blit (fp_mirror p) addr (replicate len 0xFF)\<rparr>
           else resync_mirror be p addr len, status))"

definition flash_region_erased :: "'h flash_state \<Rightarrow> nat \<Rightarrow> nat \<Rightarrow> bool \<times> hal_status" where
  "flash_region_erased p addr len =
     (if \<not> fp_ready p then (False, HAL_EUNINIT)
      else if \<not> storage_range_valid p addr len then (False, HAL_EINVAL)
      else (mirror_erased p addr len, HAL_OK))"

definition flash_reset :: "'h flash_backend \<Rightarrow> 'h flash_state \<Rightarrow> 'h flash_state \<times> hal_status" where
  "flash_reset be p =
     (if \<not> fp_ready p then (p, HAL_EUNINIT)
      else
        let clear_size = (if clear_full_storage_on_reset be then fp_storage_size p else fp_active_size p) in
        flash_commit be (p\<lparr>fp_mirror := blit (fp_mirror p) 0 (replicate clear_size 0), fp_dirty := True\<rparr>))"

text \<open>\<open>kProvider\<close> and the function that binds it to a backend (a null pointer is \<open>None\<close>).\<close>

definition flash_provider :: "'h flash_backend \<Rightarrow> 'h flash_state provider" where
  "flash_provider be =
     \<lparr>p_initialize = flash_initialize be, p_read = flash_read, p_write = flash_write,
      p_commit = flash_commit be, p_replace_region = flash_replace_region be, p_reset = flash_reset be,
      p_append = flash_append be, p_erase = flash_erase be, p_region_erased = flash_region_erased,
      p_read_medium = flash_read_medium be\<rparr>"

definition jh_eeprom_flash_provider_configure :: "'h flash_backend option \<Rightarrow> 'h flash_state provider option" where
  "jh_eeprom_flash_provider_configure backend = map_option flash_provider backend"

text \<open>The provider of a type on the hardware; the one of the external AT24C256 is an argument.\<close>

definition jh_eeprom_hardware_provider_get_ops ::
  "'h flash_state provider option \<Rightarrow> eeprom_type \<Rightarrow> 'h flash_backend option \<Rightarrow> 'h flash_state provider option" where
  "jh_eeprom_hardware_provider_get_ops at24c256 t backend =
     (if t = HAL_EEPROM_AT24C256 then at24c256
      else
        let flash = (t = HAL_EEPROM_DEFAULT \<or> t = HAL_EEPROM_STM32_FLASH \<or> t = HAL_EEPROM_FLASH) in
        if flash then jh_eeprom_flash_provider_configure backend else None)"

section \<open>The facade\<close>

text \<open>
  The selected provider is part of the state (\<open>None\<close>: none), beside the geometry it
  reported and the state it works on.
\<close>

record 'p eeprom =
  s_provider :: "'p provider option"
  s_size :: nat
  s_erase_size :: nat
  s_program_size :: nat
  s_append_size :: nat
  s_storage :: 'p

definition clipped_len :: "'p eeprom \<Rightarrow> nat \<Rightarrow> nat \<Rightarrow> nat" where
  "clipped_len e addr len =
     (if addr \<ge> s_size e then 0
      else let remaining = s_size e - addr in if len \<le> remaining then len else remaining)"

definition range_status :: "'p eeprom \<Rightarrow> nat \<Rightarrow> nat \<Rightarrow> hal_status" where
  "range_status e addr len =
     (if s_provider e = None \<or> s_size e = 0 then HAL_EUNINIT
      else if len = 0 then HAL_OK
      else if addr \<ge> s_size e \<or> addr + len > s_size e then HAL_EOVERFLOW
      else HAL_OK)"

definition combine_status :: "hal_status \<Rightarrow> hal_status \<Rightarrow> hal_status" where
  "combine_status rs provider_status =
     (if rs = HAL_EUNINIT then rs
      else if provider_status = HAL_OK then rs else provider_status)"

definition region_status :: "'p eeprom \<Rightarrow> nat \<Rightarrow> nat \<Rightarrow> nat \<Rightarrow> hal_status" where
  "region_status e addr len publish_size =
     (let rs = range_status e addr len in
      if rs \<noteq> HAL_OK then rs
      else if len = 0 \<or> publish_size = 0 \<or> publish_size \<ge> len \<or>
              addr mod s_erase_size e \<noteq> 0 \<or> len mod s_erase_size e \<noteq> 0 \<or>
              addr mod s_program_size e \<noteq> 0 \<or> len mod s_program_size e \<noteq> 0 \<or>
              publish_size mod s_program_size e \<noteq> 0
      then HAL_EINVAL else HAL_OK)"

definition write_clipped :: "'p eeprom \<Rightarrow> nat \<Rightarrow> bytes \<Rightarrow> 'p eeprom \<times> hal_status" where
  "write_clipped e addr data =
     (if data = [] then (e, HAL_OK)
      else case s_provider e of
        None \<Rightarrow> (e, HAL_EUNINIT)
      | Some ops \<Rightarrow> (case p_write ops (s_storage e) addr data of (p, status) \<Rightarrow> (e\<lparr>s_storage := p\<rparr>, status)))"

definition read_clipped :: "'p eeprom \<Rightarrow> nat \<Rightarrow> bytes \<Rightarrow> nat \<Rightarrow> bytes \<times> hal_status" where
  "read_clipped e addr out len =
     (if len = 0 then (out, HAL_OK)
      else case s_provider e of
        None \<Rightarrow> (out, HAL_EUNINIT)
      | Some ops \<Rightarrow> p_read ops (s_storage e) addr out len)"

text \<open>The target selects the provider of a type (\<open>jh_eeprom_provider_get_ops\<close>): an argument.\<close>

definition hal_eeprom_init ::
  "(eeprom_type \<Rightarrow> 'p provider option) \<Rightarrow> 'p eeprom \<Rightarrow> eeprom_type \<Rightarrow> nat \<Rightarrow> u8 \<Rightarrow> 'p eeprom \<times> hal_status" where
  "hal_eeprom_init get_ops e type_id size_bytes i2c_addr =
     (case get_ops type_id of
        None \<Rightarrow> (e\<lparr>s_provider := None, s_size := 0\<rparr>, HAL_ECONFIG)
      | Some ops \<Rightarrow>
          (case p_initialize ops (s_storage e) type_id size_bytes i2c_addr of (p, info, status) \<Rightarrow>
             let status = (if status = HAL_OK \<and> (info_erase_size info = 0 \<or> info_program_size info = 0 \<or>
                               info_append_size info = 0) then HAL_ECONFIG else status);
                 e = (if status = HAL_OK \<and> info_size info > 0 then
                        e\<lparr>s_provider := Some ops, s_size := info_size info, s_erase_size := info_erase_size info,
                          s_program_size := info_program_size info, s_append_size := info_append_size info,
                          s_storage := p\<rparr>
                      else e\<lparr>s_provider := None, s_size := 0, s_storage := p\<rparr>)
             in (e, if status = HAL_OK \<and> info_size info = 0 then HAL_EINVAL else status)))"

definition hal_eeprom_write_bytes :: "'p eeprom \<Rightarrow> nat \<Rightarrow> bytes \<Rightarrow> 'p eeprom \<times> hal_status" where
  "hal_eeprom_write_bytes e addr data =
     (if data = [] then (e, HAL_OK)
      else
        let rs = range_status e addr (length data);
            (e', provider_status) = write_clipped e addr (take (clipped_len e addr (length data)) data)
        in (e', combine_status rs provider_status))"

definition hal_eeprom_read_bytes :: "'p eeprom \<Rightarrow> nat \<Rightarrow> bytes \<Rightarrow> nat \<Rightarrow> bytes \<times> hal_status" where
  "hal_eeprom_read_bytes e addr out len =
     (if len = 0 then (out, HAL_OK)
      else
        let rs = range_status e addr len;
            readable = clipped_len e addr len;
            (out, provider_status) = read_clipped e addr out readable
        in (blit out readable (replicate (len - readable) 0), combine_status rs provider_status))"

definition hal_eeprom_write_byte :: "'p eeprom \<Rightarrow> nat \<Rightarrow> u8 \<Rightarrow> 'p eeprom \<times> hal_status" where
  "hal_eeprom_write_byte e addr val =
     (let rs = range_status e addr 1;
          (e', provider_status) = write_clipped e addr (take (clipped_len e addr 1) [val])
      in (e', combine_status rs provider_status))"

definition hal_eeprom_read_byte :: "'p eeprom \<Rightarrow> nat \<Rightarrow> u8" where
  "hal_eeprom_read_byte e addr = fst (read_clipped e addr [0] (clipped_len e addr 1)) ! 0"

definition hal_eeprom_read_byte_ex :: "'p eeprom \<Rightarrow> nat \<Rightarrow> u8 \<Rightarrow> u8 \<times> hal_status" where
  "hal_eeprom_read_byte_ex e addr out_val =
     (let rs = range_status e addr 1;
          (out, provider_status) = (if rs = HAL_OK then read_clipped e addr [out_val] 1 else ([out_val], HAL_OK))
      in (out ! 0, combine_status rs provider_status))"

definition hal_eeprom_write_int :: "'p eeprom \<Rightarrow> nat \<Rightarrow> u32 \<Rightarrow> 'p eeprom \<times> hal_status" where
  "hal_eeprom_write_int e addr val =
     (let raw = jh_store_le32 (replicate 4 0) 0 val;
          rs = range_status e addr 4;
          (e', provider_status) = write_clipped e addr (take (clipped_len e addr 4) raw)
      in (e', combine_status rs provider_status))"

definition hal_eeprom_read_int :: "'p eeprom \<Rightarrow> nat \<Rightarrow> u32" where
  "hal_eeprom_read_int e addr = jh_load_le32 (fst (read_clipped e addr (replicate 4 0) (clipped_len e addr 4)))"

definition hal_eeprom_read_int_ex :: "'p eeprom \<Rightarrow> nat \<Rightarrow> u32 \<Rightarrow> u32 \<times> hal_status" where
  "hal_eeprom_read_int_ex e addr out_val =
     (let rs = range_status e addr 4;
          (raw, provider_status) = (if rs = HAL_OK then read_clipped e addr (replicate 4 0) 4
                                    else (replicate 4 0, HAL_OK))
      in (if provider_status = HAL_OK \<and> rs = HAL_OK then jh_load_le32 raw else out_val,
          combine_status rs provider_status))"

definition hal_eeprom_commit :: "'p eeprom \<Rightarrow> 'p eeprom \<times> hal_status" where
  "hal_eeprom_commit e =
     (case s_provider e of
        None \<Rightarrow> (e, HAL_EUNINIT)
      | Some ops \<Rightarrow> (case p_commit ops (s_storage e) of (p, status) \<Rightarrow> (e\<lparr>s_storage := p\<rparr>, status)))"

definition hal_eeprom_reset :: "'p eeprom \<Rightarrow> 'p eeprom \<times> hal_status" where
  "hal_eeprom_reset e =
     (case s_provider e of
        None \<Rightarrow> (e, HAL_EUNINIT)
      | Some ops \<Rightarrow> (case p_reset ops (s_storage e) of (p, status) \<Rightarrow> (e\<lparr>s_storage := p\<rparr>, status)))"

text \<open>After a range check that succeeds the provider is there.\<close>

definition with_provider ::
  "'p eeprom \<Rightarrow> ('p provider \<Rightarrow> 'p \<Rightarrow> 'p \<times> hal_status) \<Rightarrow> 'p eeprom \<times> hal_status" where
  "with_provider e operation =
     (case s_provider e of
        None \<Rightarrow> (e, HAL_EUNINIT)
      | Some ops \<Rightarrow> (case operation ops (s_storage e) of (p, status) \<Rightarrow> (e\<lparr>s_storage := p\<rparr>, status)))"

definition jh_eeprom_replace_region :: "'p eeprom \<Rightarrow> nat \<Rightarrow> bytes \<Rightarrow> nat \<Rightarrow> 'p eeprom \<times> hal_status" where
  "jh_eeprom_replace_region e addr data publish_size =
     (let len = length data in
      if len = 0 \<or> publish_size = 0 \<or> publish_size \<ge> len then (e, HAL_EINVAL)
      else
        let rs = region_status e addr len publish_size in
        if rs = HAL_OK then with_provider e (\<lambda>ops p. p_replace_region ops p addr data publish_size)
        else (e, rs))"

definition jh_eeprom_append_region :: "'p eeprom \<Rightarrow> nat \<Rightarrow> bytes \<Rightarrow> 'p eeprom \<times> hal_status" where
  "jh_eeprom_append_region e addr data =
     (let len = length data in
      if len = 0 then (e, HAL_EINVAL)
      else
        let rs = range_status e addr len;
            status = (if rs = HAL_OK \<and> (addr mod s_append_size e \<noteq> 0 \<or> len mod s_append_size e \<noteq> 0)
                      then HAL_EINVAL else rs)
        in if status = HAL_OK then with_provider e (\<lambda>ops p. p_append ops p addr data) else (e, status))"

definition jh_eeprom_erase_region :: "'p eeprom \<Rightarrow> nat \<Rightarrow> nat \<Rightarrow> 'p eeprom \<times> hal_status" where
  "jh_eeprom_erase_region e addr len =
     (let rs = range_status e addr len;
          status = (if rs = HAL_OK \<and>
                       (len = 0 \<or> addr mod s_erase_size e \<noteq> 0 \<or> len mod s_erase_size e \<noteq> 0)
                    then HAL_EINVAL else rs)
      in if status = HAL_OK then with_provider e (\<lambda>ops p. p_erase ops p addr len) else (e, status))"

definition jh_eeprom_region_erased :: "'p eeprom \<Rightarrow> nat \<Rightarrow> nat \<Rightarrow> bool \<times> hal_status" where
  "jh_eeprom_region_erased e addr len =
     (let rs = range_status e addr len in
      if rs = HAL_OK then
        (case s_provider e of None \<Rightarrow> (False, HAL_EUNINIT)
         | Some ops \<Rightarrow> p_region_erased ops (s_storage e) addr len)
      else (False, rs))"

definition jh_eeprom_read_medium :: "'p eeprom \<Rightarrow> nat \<Rightarrow> bytes \<Rightarrow> nat \<Rightarrow> bytes \<times> hal_status" where
  "jh_eeprom_read_medium e addr out len =
     (let status = range_status e addr len in
      if status = HAL_OK \<and> len > 0 then
        (case s_provider e of None \<Rightarrow> (out, HAL_EUNINIT)
         | Some ops \<Rightarrow> p_read_medium ops (s_storage e) addr out len)
      else (out, status))"

definition jh_eeprom_append_size :: "'p eeprom \<Rightarrow> nat \<times> hal_status" where
  "jh_eeprom_append_size e =
     (let status = (if s_provider e \<noteq> None \<and> s_size e > 0 then HAL_OK else HAL_EUNINIT) in
      (if status = HAL_OK then s_append_size e else 0, status))"

definition jh_eeprom_validate_region :: "'p eeprom \<Rightarrow> nat \<Rightarrow> nat \<Rightarrow> nat \<Rightarrow> hal_status" where
  "jh_eeprom_validate_region e addr len publish_size = region_status e addr len publish_size"

definition hal_eeprom_size :: "'p eeprom \<Rightarrow> nat" where
  "hal_eeprom_size e = s_size e"

definition hal_eeprom_size_ex :: "'p eeprom \<Rightarrow> nat \<times> hal_status" where
  "hal_eeprom_size_ex e = (s_size e, if s_provider e \<noteq> None \<and> s_size e > 0 then HAL_OK else HAL_EUNINIT)"

end
