(* ===== verification/Rp_Flash.thy ===== *)
theory Rp_Flash
  imports Eeprom
begin

text \<open>
  Flash storage on the RP targets: the transaction engine of
  \<open>src/hal/storage/flash/jh_flash_transaction_engine.cpp\<close>, the partitions and the operations of
  \<open>src/hal/impl/rp2040/drivers/flash/rp_flash_storage.cpp\<close>, and the backend of the flash provider
  in \<open>src/hal/impl/rp2040/hal_eeprom.cpp\<close>.

  The machine is a parameter: its flash as the processor sees it (\<open>xip\<close>, the memory mapping at
  \<open>XIP_BASE\<close>), the two functions of the vendor's SDK that change it, and the functions that take
  and release the flash. Pointers are not null here, and the test hook that forces a failure
  (\<open>JH_RP_FLASH_FAULT_INJECTION\<close>) is left out, as it is in firmware.
\<close>

section \<open>Transactions\<close>

text \<open>A null function pointer is \<open>None\<close>.\<close>

record 'w flash_transaction_backend =
  ft_acquire :: "('w \<Rightarrow> nat \<Rightarrow> 'w \<times> hal_status) option"
  ft_quiesce :: "('w \<Rightarrow> nat \<Rightarrow> 'w \<times> hal_status) option"
  ft_execute :: "('w \<Rightarrow> ('w \<Rightarrow> 'w \<times> hal_status) \<Rightarrow> nat \<Rightarrow> 'w \<times> hal_status) option"
  ft_resume :: "('w \<Rightarrow> 'w \<times> hal_status) option"
  ft_release :: "('w \<Rightarrow> 'w \<times> hal_status) option"

definition first_error :: "hal_status \<Rightarrow> hal_status \<Rightarrow> hal_status" where
  "first_error status later = (if status = HAL_OK then later else status)"

definition jh_flash_transaction_engine_execute ::
  "'w flash_transaction_backend option \<Rightarrow> 'w \<Rightarrow> ('w \<Rightarrow> 'w \<times> hal_status) option \<Rightarrow> nat \<Rightarrow> 'w \<times> hal_status" where
  "jh_flash_transaction_engine_execute backend w operation timeout_ms =
     (case backend of
        None \<Rightarrow> (w, HAL_EINVAL)
      | Some be \<Rightarrow>
          (case (ft_acquire be, ft_quiesce be, ft_execute be, ft_resume be, ft_release be, operation) of
             (Some acquire, Some quiesce, Some execute, Some resume, Some release, Some op) \<Rightarrow>
               (case acquire w timeout_ms of (w, status) \<Rightarrow>
                  if status \<noteq> HAL_OK then (w, status)
                  else case quiesce w timeout_ms of (w, status) \<Rightarrow>
                    let quiesced = (status = HAL_OK);
                        (w, status) = (if quiesced then execute w op timeout_ms else (w, status));
                        (w, status) = (if quiesced
                                       then (case resume w of (w, resume_status) \<Rightarrow> (w, first_error status resume_status))
                                       else (w, status))
                    in case release w of (w, release_status) \<Rightarrow> (w, first_error status release_status))
           | _ \<Rightarrow> (w, HAL_EINVAL)))"

section \<open>Partitions\<close>

definition FLASH_PAGE_SIZE :: nat where "FLASH_PAGE_SIZE = 256"
definition FLASH_SECTOR_SIZE :: nat where "FLASH_SECTOR_SIZE = 4096"
definition HAL_RP_FLASH_TRANSACTION_TIMEOUT_MS :: nat where "HAL_RP_FLASH_TRANSACTION_TIMEOUT_MS = 10000"

text \<open>The sizes and offsets the project configures (\<open>hal_config.h\<close>).\<close>

record rp_config =
  PICO_FLASH_SIZE_BYTES :: nat
  HAL_RP_FLASH_EEPROM_SIZE :: nat
  HAL_RP_FLASH_LITTLEFS_SIZE :: nat
  HAL_RP_OTA_SLOT_SIZE :: nat
  HAL_RP_OTA_PROGRAM_OFFSET :: nat
  HAL_RP_OTA_STAGING_OFFSET :: nat
  HAL_RP_OTA_PHASE_OFFSET :: nat
  HAL_RP_OTA_SCRATCH_OFFSET :: nat
  HAL_RP_OTA_STATE_A_OFFSET :: nat
  HAL_RP_OTA_STATE_B_OFFSET :: nat

record rp_partition =
  flash_offset :: nat
  part_size :: nat

definition JH_RP_FLASH_PARTITION_EEPROM :: nat where "JH_RP_FLASH_PARTITION_EEPROM = 0"
definition JH_RP_FLASH_PARTITION_LITTLEFS :: nat where "JH_RP_FLASH_PARTITION_LITTLEFS = 1"
definition JH_RP_FLASH_PARTITION_OTA_PROGRAM :: nat where "JH_RP_FLASH_PARTITION_OTA_PROGRAM = 2"
definition JH_RP_FLASH_PARTITION_OTA_STAGING :: nat where "JH_RP_FLASH_PARTITION_OTA_STAGING = 3"
definition JH_RP_FLASH_PARTITION_OTA_PHASE :: nat where "JH_RP_FLASH_PARTITION_OTA_PHASE = 4"
definition JH_RP_FLASH_PARTITION_OTA_SCRATCH :: nat where "JH_RP_FLASH_PARTITION_OTA_SCRATCH = 5"
definition JH_RP_FLASH_PARTITION_OTA_STATE_A :: nat where "JH_RP_FLASH_PARTITION_OTA_STATE_A = 6"
definition JH_RP_FLASH_PARTITION_OTA_STATE_B :: nat where "JH_RP_FLASH_PARTITION_OTA_STATE_B = 7"

text \<open>The assertions the compiler checks on the configuration.\<close>

definition rp_config_valid :: "rp_config \<Rightarrow> bool" where
  "rp_config_valid c \<longleftrightarrow> HAL_RP_FLASH_EEPROM_SIZE c mod FLASH_SECTOR_SIZE = 0 \<and>
     HAL_RP_FLASH_LITTLEFS_SIZE c mod FLASH_SECTOR_SIZE = 0 \<and>
     (HAL_RP_FLASH_LITTLEFS_SIZE c = 0 \<or> HAL_RP_FLASH_LITTLEFS_SIZE c \<ge> 2 * FLASH_SECTOR_SIZE) \<and>
     HAL_RP_FLASH_EEPROM_SIZE c + HAL_RP_FLASH_LITTLEFS_SIZE c \<le> PICO_FLASH_SIZE_BYTES c \<and>
     HAL_RP_OTA_SLOT_SIZE c mod FLASH_SECTOR_SIZE = 0"

definition jh_rp_flash_storage_partition :: "rp_config \<Rightarrow> nat \<Rightarrow> rp_partition option \<times> hal_status" where
  "jh_rp_flash_storage_partition c ident =
     (if JH_RP_FLASH_PARTITION_OTA_PROGRAM \<le> ident \<and> ident \<le> JH_RP_FLASH_PARTITION_OTA_STATE_B \<and> HAL_RP_OTA_SLOT_SIZE c = 0
      then (None, HAL_ECONFIG)
      else
        let part =
          (if ident = JH_RP_FLASH_PARTITION_EEPROM then
             Some (PICO_FLASH_SIZE_BYTES c - HAL_RP_FLASH_EEPROM_SIZE c, HAL_RP_FLASH_EEPROM_SIZE c)
           else if ident = JH_RP_FLASH_PARTITION_LITTLEFS then
             Some (PICO_FLASH_SIZE_BYTES c - HAL_RP_FLASH_EEPROM_SIZE c - HAL_RP_FLASH_LITTLEFS_SIZE c,
               HAL_RP_FLASH_LITTLEFS_SIZE c)
           else if ident = JH_RP_FLASH_PARTITION_OTA_PROGRAM then Some (HAL_RP_OTA_PROGRAM_OFFSET c, HAL_RP_OTA_SLOT_SIZE c)
           else if ident = JH_RP_FLASH_PARTITION_OTA_STAGING then Some (HAL_RP_OTA_STAGING_OFFSET c, HAL_RP_OTA_SLOT_SIZE c)
           else if ident = JH_RP_FLASH_PARTITION_OTA_PHASE then Some (HAL_RP_OTA_PHASE_OFFSET c, FLASH_SECTOR_SIZE)
           else if ident = JH_RP_FLASH_PARTITION_OTA_SCRATCH then Some (HAL_RP_OTA_SCRATCH_OFFSET c, FLASH_SECTOR_SIZE)
           else if ident = JH_RP_FLASH_PARTITION_OTA_STATE_A then Some (HAL_RP_OTA_STATE_A_OFFSET c, FLASH_SECTOR_SIZE)
           else if ident = JH_RP_FLASH_PARTITION_OTA_STATE_B then Some (HAL_RP_OTA_STATE_B_OFFSET c, FLASH_SECTOR_SIZE)
           else None)
        in case part of
             None \<Rightarrow> (None, HAL_EINVAL)
           | Some (offset, len) \<Rightarrow>
               if len = 0 then (None, HAL_ECONFIG)
               else (Some \<lparr>flash_offset = offset, part_size = len\<rparr>, HAL_OK))"

section \<open>Operations on the flash\<close>

record 'w rp_platform =
  xip :: "'w \<Rightarrow> bytes"
  flash_range_erase :: "'w \<Rightarrow> nat \<Rightarrow> nat \<Rightarrow> 'w"
  flash_range_program :: "'w \<Rightarrow> nat \<Rightarrow> bytes \<Rightarrow> 'w"
  transactions :: "'w flash_transaction_backend"

datatype flash_action = ActProgram | ActErase | ActReplace | ActReplacePublished | ActProgramBytes

record flash_operation =
  fo_action :: flash_action
  fo_offset :: nat
  fo_data :: bytes
  fo_size :: nat
  fo_publish_size :: nat
  fo_erased :: bool

definition range_valid :: "rp_partition \<Rightarrow> nat \<Rightarrow> nat \<Rightarrow> bool" where
  "range_valid part offset len \<longleftrightarrow> part_size part > 0 \<and> offset \<le> part_size part \<and> len \<le> part_size part - offset"

definition stored_matches :: "'w rp_platform \<Rightarrow> 'w \<Rightarrow> nat \<Rightarrow> bytes \<Rightarrow> bool" where
  "stored_matches pl w at expected \<longleftrightarrow> subarr at (length expected) (xip pl w) = expected"

text \<open>The bytes of one page of a range, 0xFF where the page is outside of it.\<close>

definition page_image :: "nat \<Rightarrow> bytes \<Rightarrow> nat \<Rightarrow> nat \<Rightarrow> bytes" where
  "page_image at data torn page =
     map (\<lambda>index. let address = page + index in
            if at \<le> address \<and> address < torn then data ! (address - at) else 0xFF) [0..<FLASH_PAGE_SIZE]"

function program_pages :: "'w rp_platform \<Rightarrow> nat \<Rightarrow> bytes \<Rightarrow> nat \<Rightarrow> nat \<Rightarrow> 'w \<Rightarrow> nat \<Rightarrow> 'w" where
  "program_pages pl at data stop torn w page =
     (if page < stop then
        let img = page_image at data torn page;
            blank = list_all (\<lambda>v. v = 0xFF) img;
            w = (if \<not> blank then flash_range_program pl w page img else w)
        in program_pages pl at data stop torn w (page + FLASH_PAGE_SIZE)
      else w)"
  by pat_completeness auto
termination
  by (relation "measure (\<lambda>(pl, at, data, stop, torn, w, page). stop - page)") (auto simp: FLASH_PAGE_SIZE_def)

declare program_pages.simps [simp del]

definition program_bytes :: "'w rp_platform \<Rightarrow> 'w \<Rightarrow> nat \<Rightarrow> bytes \<Rightarrow> nat \<Rightarrow> nat \<Rightarrow> 'w" where
  "program_bytes pl w at data len written =
     program_pages pl at data (at + len) (at + written) w (at - at mod FLASH_PAGE_SIZE)"

definition run_flash_operation :: "'w rp_platform \<Rightarrow> flash_operation \<Rightarrow> 'w \<Rightarrow> 'w \<times> hal_status" where
  "run_flash_operation pl operation w =
     (let at = fo_offset operation; data = fo_data operation; len = fo_size operation in
      if fo_action operation = ActProgramBytes then
        let w = program_bytes pl w at data len len in
        (w, if stored_matches pl w at (take len data) then HAL_OK else HAL_EIO)
      else
        let w = (if fo_action operation = ActErase \<or> fo_action operation = ActReplace \<or>
                    (fo_action operation = ActReplacePublished \<and> \<not> fo_erased operation)
                 then flash_range_erase pl w at len else w) in
        if fo_action operation = ActProgram \<or> fo_action operation = ActReplace then
          (flash_range_program pl w at (take len data), HAL_OK)
        else if fo_action operation = ActReplacePublished then
          let publish = fo_publish_size operation; body = len - publish;
              w = program_bytes pl w (at + publish) (drop publish data) body body
          in if \<not> stored_matches pl w (at + publish) (take body (drop publish data)) then (w, HAL_EIO)
             else (flash_range_program pl w at (take publish data), HAL_OK)
        else (w, HAL_OK))"

definition rp_transaction :: "'w rp_platform \<Rightarrow> 'w \<Rightarrow> flash_operation \<Rightarrow> 'w \<times> hal_status" where
  "rp_transaction pl w operation =
     jh_flash_transaction_engine_execute (Some (transactions pl)) w (Some (run_flash_operation pl operation))
       HAL_RP_FLASH_TRANSACTION_TIMEOUT_MS"

definition rp_execute :: "'w rp_platform \<Rightarrow> 'w \<Rightarrow> flash_action \<Rightarrow> nat \<Rightarrow> bytes \<Rightarrow> nat \<Rightarrow> 'w \<times> hal_status" where
  "rp_execute pl w action at data len =
     rp_transaction pl w \<lparr>fo_action = action, fo_offset = at, fo_data = data, fo_size = len,
       fo_publish_size = 0, fo_erased = False\<rparr>"

section \<open>Storage in a partition\<close>

definition jh_rp_flash_storage_read ::
  "'w rp_platform \<Rightarrow> 'w \<Rightarrow> rp_partition \<Rightarrow> nat \<Rightarrow> bytes \<Rightarrow> nat \<Rightarrow> bytes \<times> hal_status" where
  "jh_rp_flash_storage_read pl w part offset out len =
     (if \<not> range_valid part offset len then (out, HAL_EINVAL)
      else if len = 0 then (out, HAL_OK)
      else (blit out 0 (subarr (flash_offset part + offset) len (xip pl w)), HAL_OK))"

definition verified :: "'w rp_platform \<Rightarrow> nat \<Rightarrow> bytes \<Rightarrow> 'w \<times> hal_status \<Rightarrow> 'w \<times> hal_status" where
  "verified pl at data result =
     (case result of (w, status) \<Rightarrow>
        (w, if status \<noteq> HAL_OK then status else if stored_matches pl w at data then HAL_OK else HAL_EIO))"

definition jh_rp_flash_storage_program ::
  "'w rp_platform \<Rightarrow> 'w \<Rightarrow> rp_partition \<Rightarrow> nat \<Rightarrow> bytes \<Rightarrow> 'w \<times> hal_status" where
  "jh_rp_flash_storage_program pl w part offset data =
     (let len = length data; at = flash_offset part + offset in
      if \<not> range_valid part offset len \<or> at mod FLASH_PAGE_SIZE \<noteq> 0 \<or> len mod FLASH_PAGE_SIZE \<noteq> 0 then (w, HAL_EINVAL)
      else if len = 0 then (w, HAL_OK)
      else verified pl at data (rp_execute pl w ActProgram at data len))"

definition jh_rp_flash_storage_erase ::
  "'w rp_platform \<Rightarrow> 'w \<Rightarrow> rp_partition \<Rightarrow> nat \<Rightarrow> nat \<Rightarrow> 'w \<times> hal_status" where
  "jh_rp_flash_storage_erase pl w part offset len =
     (let at = flash_offset part + offset in
      if \<not> range_valid part offset len \<or> at mod FLASH_SECTOR_SIZE \<noteq> 0 \<or> len mod FLASH_SECTOR_SIZE \<noteq> 0
      then (w, HAL_EINVAL)
      else if len = 0 then (w, HAL_OK)
      else rp_execute pl w ActErase at [] len)"

definition jh_rp_flash_storage_replace ::
  "'w rp_platform \<Rightarrow> 'w \<Rightarrow> rp_partition \<Rightarrow> bytes \<Rightarrow> 'w \<times> hal_status" where
  "jh_rp_flash_storage_replace pl w part data =
     (let len = length data in
      if len \<noteq> part_size part \<or> flash_offset part mod FLASH_SECTOR_SIZE \<noteq> 0 \<or> len mod FLASH_SECTOR_SIZE \<noteq> 0 \<or>
         len mod FLASH_PAGE_SIZE \<noteq> 0
      then (w, HAL_EINVAL)
      else verified pl (flash_offset part) data (rp_execute pl w ActReplace (flash_offset part) data len))"

definition jh_rp_flash_storage_program_bytes ::
  "'w rp_platform \<Rightarrow> 'w \<Rightarrow> rp_partition \<Rightarrow> nat \<Rightarrow> bytes \<Rightarrow> 'w \<times> hal_status" where
  "jh_rp_flash_storage_program_bytes pl w part offset data =
     (let len = length data in
      if \<not> range_valid part offset len then (w, HAL_EINVAL)
      else if len = 0 then (w, HAL_OK)
      else rp_execute pl w ActProgramBytes (flash_offset part + offset) data len)"

definition jh_rp_flash_storage_replace_published ::
  "'w rp_platform \<Rightarrow> 'w \<Rightarrow> rp_partition \<Rightarrow> nat \<Rightarrow> bytes \<Rightarrow> nat \<Rightarrow> bool \<Rightarrow> 'w \<times> hal_status" where
  "jh_rp_flash_storage_replace_published pl w part offset data publish_size erased =
     (let len = length data; at = flash_offset part + offset in
      if \<not> range_valid part offset len \<or> publish_size = 0 \<or> publish_size \<ge> len \<or>
         at mod FLASH_SECTOR_SIZE \<noteq> 0 \<or> len mod FLASH_SECTOR_SIZE \<noteq> 0 \<or>
         publish_size mod FLASH_PAGE_SIZE \<noteq> 0 \<or> (len - publish_size) mod FLASH_PAGE_SIZE \<noteq> 0
      then (w, HAL_EINVAL)
      else verified pl at data
        (rp_transaction pl w \<lparr>fo_action = ActReplacePublished, fo_offset = at, fo_data = data, fo_size = len,
           fo_publish_size = publish_size, fo_erased = erased\<rparr>))"

section \<open>The backend of the EEPROM provider\<close>

text \<open>The module keeps the partition it looked up when the store was loaded.\<close>

record 'w rp_eeprom =
  re_partition :: rp_partition
  re_world :: 'w

definition rp_load :: "rp_config \<Rightarrow> 'w rp_platform \<Rightarrow> 'w rp_eeprom \<Rightarrow> bytes \<Rightarrow> 'w rp_eeprom \<times> bytes \<times> nat \<times> hal_status" where
  "rp_load c pl h mirror =
     (case jh_rp_flash_storage_partition c JH_RP_FLASH_PARTITION_EEPROM of
        (None, status) \<Rightarrow> (h, mirror, 0, status)
      | (Some part, status) \<Rightarrow>
          let h = h\<lparr>re_partition := part\<rparr> in
          if status \<noteq> HAL_OK \<or> part_size part > HAL_RP_FLASH_EEPROM_SIZE c \<or> part_size part > 0xFFFF
          then (h, mirror, 0, if status \<noteq> HAL_OK then status else HAL_ECONFIG)
          else (case jh_rp_flash_storage_read pl (re_world h) part 0 mirror (part_size part) of
             (mirror, read_status) \<Rightarrow>
               (h, mirror, if read_status = HAL_OK then part_size part else 0, read_status)))"

definition on_world :: "'w rp_eeprom \<Rightarrow> 'w \<times> hal_status \<Rightarrow> 'w rp_eeprom \<times> hal_status" where
  "on_world h result = (case result of (w, status) \<Rightarrow> (h\<lparr>re_world := w\<rparr>, status))"

definition rp_store :: "'w rp_platform \<Rightarrow> 'w rp_eeprom \<Rightarrow> bytes \<Rightarrow> nat \<Rightarrow> 'w rp_eeprom \<times> hal_status" where
  "rp_store pl h mirror storage_size =
     (if storage_size \<noteq> part_size (re_partition h) then (h, HAL_ECONFIG)
      else on_world h (jh_rp_flash_storage_replace pl (re_world h) (re_partition h)
             (take (part_size (re_partition h)) mirror)))"

definition rp_replace_region ::
  "'w rp_platform \<Rightarrow> 'w rp_eeprom \<Rightarrow> nat \<Rightarrow> bytes \<Rightarrow> nat \<Rightarrow> bool \<Rightarrow> 'w rp_eeprom \<times> hal_status" where
  "rp_replace_region pl h addr data publish_size destination_erased =
     (if addr + length data > part_size (re_partition h) then (h, HAL_EOVERFLOW)
      else on_world h (jh_rp_flash_storage_replace_published pl (re_world h) (re_partition h) addr data
             publish_size destination_erased))"

definition rp_program :: "'w rp_platform \<Rightarrow> 'w rp_eeprom \<Rightarrow> nat \<Rightarrow> bytes \<Rightarrow> 'w rp_eeprom \<times> hal_status" where
  "rp_program pl h addr data =
     on_world h (jh_rp_flash_storage_program_bytes pl (re_world h) (re_partition h) addr data)"

definition rp_erase :: "'w rp_platform \<Rightarrow> 'w rp_eeprom \<Rightarrow> nat \<Rightarrow> nat \<Rightarrow> 'w rp_eeprom \<times> hal_status" where
  "rp_erase pl h addr len =
     on_world h (jh_rp_flash_storage_erase pl (re_world h) (re_partition h) addr len)"

definition rp_read :: "'w rp_platform \<Rightarrow> 'w rp_eeprom \<Rightarrow> nat \<Rightarrow> bytes \<Rightarrow> nat \<Rightarrow> bytes \<times> hal_status" where
  "rp_read pl h addr out len = jh_rp_flash_storage_read pl (re_world h) (re_partition h) addr out len"

definition rp_backend :: "rp_config \<Rightarrow> 'w rp_platform \<Rightarrow> 'w rp_eeprom flash_backend" where
  "rp_backend c pl =
     \<lparr>be_mirror_capacity = HAL_RP_FLASH_EEPROM_SIZE c, clamp_oversized_request = False,
      clear_full_storage_on_reset = False, be_load = rp_load c pl, be_store = rp_store pl,
      be_replace_region = Some (rp_replace_region pl), be_program = rp_program pl, be_erase = rp_erase pl,
      be_read = rp_read pl, be_erase_size = FLASH_SECTOR_SIZE, be_program_size = FLASH_PAGE_SIZE,
      be_append_size = 1\<rparr>"

definition jh_eeprom_provider_get_ops ::
  "'w rp_eeprom flash_state provider option \<Rightarrow> rp_config \<Rightarrow> 'w rp_platform \<Rightarrow> eeprom_type \<Rightarrow>
   'w rp_eeprom flash_state provider option" where
  "jh_eeprom_provider_get_ops at24c256 c pl t =
     jh_eeprom_hardware_provider_get_ops at24c256 t (Some (rp_backend c pl))"

end
