(* ===== verification/Crc.thy ===== *)
theory Crc
  imports Endian
begin

text \<open>
  The checksums of \<open>src/hal/security/hal_crc.cpp\<close>, bit by bit as the code computes them.
  \<open>None\<close> is a null data pointer.
\<close>

definition crc8_maxim_bit :: "u8 \<times> u8 \<Rightarrow> u8 \<times> u8" where
  "crc8_maxim_bit = (\<lambda>(crc, inp).
     let mix = (crc XOR inp) AND 0x01; crc = drop_bit 1 crc
     in (if mix \<noteq> 0 then crc XOR 0x8C else crc, drop_bit 1 inp))"

definition hal_crc8_maxim :: "bytes option \<Rightarrow> u8" where
  "hal_crc8_maxim data =
     (case data of None \<Rightarrow> 0
      | Some bs \<Rightarrow> fold (\<lambda>b crc. fst ((crc8_maxim_bit ^^ 8) (crc, b))) bs 0)"

definition oddparity :: "u8 list" where
  "oddparity = [0, 1, 1, 0, 1, 0, 0, 1, 1, 0, 0, 1, 0, 1, 1, 0]"

definition crc16_maxim_byte :: "u8 \<Rightarrow> u16 \<Rightarrow> u16" where
  "crc16_maxim_byte b crc =
     (let cdata = (ucast b XOR crc) AND 0xFF;
          crc = drop_bit 8 crc;
          crc = (if oddparity ! unat (cdata AND 0x0F) XOR oddparity ! unat (drop_bit 4 cdata) \<noteq> 0
                 then crc XOR 0xC001 else crc);
          cdata = push_bit 6 cdata;
          crc = crc XOR cdata
      in crc XOR push_bit 1 cdata)"

definition hal_crc16_maxim :: "bytes option \<Rightarrow> u16 \<Rightarrow> u16" where
  "hal_crc16_maxim data crc = (case data of None \<Rightarrow> crc | Some bs \<Rightarrow> fold crc16_maxim_byte bs crc)"

definition hal_crc16_maxim_check :: "bytes option \<Rightarrow> bytes option \<Rightarrow> u16 \<Rightarrow> bool" where
  "hal_crc16_maxim_check data inverted_crc crc =
     (case (data, inverted_crc) of
        (Some bs, Some inverted) \<Rightarrow> NOT (hal_crc16_maxim (Some bs) crc) = jh_load_le16 inverted
      | _ \<Rightarrow> False)"

definition HAL_CRC16_CCITT_INIT :: u16 where
  "HAL_CRC16_CCITT_INIT = 0xFFFF"

definition crc16_ccitt_bit :: "u16 \<Rightarrow> u16" where
  "crc16_ccitt_bit crc =
     (if crc AND 0x8000 \<noteq> 0 then push_bit 1 crc XOR 0x1021 else push_bit 1 crc)"

definition crc16_ccitt_byte :: "u8 \<Rightarrow> u16 \<Rightarrow> u16" where
  "crc16_ccitt_byte b crc = (crc16_ccitt_bit ^^ 8) (crc XOR push_bit 8 (ucast b))"

definition hal_crc16_ccitt :: "bytes option \<Rightarrow> u16 \<Rightarrow> u16" where
  "hal_crc16_ccitt data crc = (case data of None \<Rightarrow> crc | Some bs \<Rightarrow> fold crc16_ccitt_byte bs crc)"

definition crc32_bit :: "u32 \<Rightarrow> u32" where
  "crc32_bit crc = (if crc AND 1 \<noteq> 0 then drop_bit 1 crc XOR 0xEDB88320 else drop_bit 1 crc)"

definition hal_crc32 :: "bytes option \<Rightarrow> u32" where
  "hal_crc32 data =
     (case data of None \<Rightarrow> 0
      | Some bs \<Rightarrow>
          if bs = [] then 0
          else fold (\<lambda>b crc. (crc32_bit ^^ 8) (crc XOR ucast b)) bs 0xFFFFFFFF XOR 0xFFFFFFFF)"

end
