(* ===== verification/Kv_Store.thy ===== *)
theory Kv_Store
  imports Crc Eeprom
begin

text \<open>
  The key-value store of \<open>src/hal/storage/hal_kv.cpp\<close>: two banks in the EEPROM, of which the
  active one holds a compacted body of records and after it a log of committed batches;
  a RAM image of the active bank and an index of the live records. The store is a record of
  the module's static variables; the EEPROM it writes to is passed along.

  Positions and lengths inside a bank are \<open>uint16_t\<close> in the code. They are \<open>nat\<close> here: a cast
  to 16 bits whose operand was just compared with such a value is the identity and left
  out, every other cast is \<open>cast16\<close>. Numbers stored in records and headers are words.
  The constants are the defaults of \<open>src/hal/core/hal_config.h\<close>. The mutex makes every public
  operation atomic; \<open>kv_mutex\<close> says whether it could be created.
\<close>

section \<open>Constants and data\<close>

definition HAL_KV_MAX_BANK_SIZE :: nat where "HAL_KV_MAX_BANK_SIZE = 4096"
definition HAL_KV_PUBLISH_SIZE :: nat where "HAL_KV_PUBLISH_SIZE = 256"
definition HAL_KV_MAX_KEYS :: nat where "HAL_KV_MAX_KEYS = 32"

definition KV_BANK_MAGIC :: u32 where "KV_BANK_MAGIC = 0x564B484A"
definition KV_BANK_VERSION :: u8 where "KV_BANK_VERSION = 3"
definition KV_BANK_VERSION_NO_LOG :: u8 where "KV_BANK_VERSION_NO_LOG = 2"
definition KV_BANK_HDR_SIZE :: nat where "KV_BANK_HDR_SIZE = 24"
definition KV_REC_MAGIC :: u16 where "KV_REC_MAGIC = 0xA55A"
definition KV_REC_FOOTER :: u16 where "KV_REC_FOOTER = 0x5AA5"
definition KV_REC_TYPE_U32 :: u8 where "KV_REC_TYPE_U32 = 1"
definition KV_REC_TYPE_BLOB :: u8 where "KV_REC_TYPE_BLOB = 2"
definition KV_REC_TYPE_DELETE :: u8 where "KV_REC_TYPE_DELETE = 3"
definition KV_REC_TYPE_COMMIT :: u8 where "KV_REC_TYPE_COMMIT = 4"
definition KV_COMMIT_LEN :: nat where "KV_COMMIT_LEN = 4"
definition KV_REC_HDR_SIZE :: nat where "KV_REC_HDR_SIZE = 16"
definition KV_REC_FTR_SIZE :: nat where "KV_REC_FTR_SIZE = 2"
definition KV_REC_OVERHEAD :: nat where "KV_REC_OVERHEAD = KV_REC_HDR_SIZE + KV_REC_FTR_SIZE"
definition KV_MAX_KEYS :: nat where "KV_MAX_KEYS = HAL_KV_MAX_KEYS"
definition KV_PUBLISH_SIZE :: nat where "KV_PUBLISH_SIZE = HAL_KV_PUBLISH_SIZE"

record kv_bank_hdr =
  bh_magic :: u32
  bh_version :: u8
  bh_reserved :: u8
  bh_header_size :: u16
  bh_generation :: u32
  bh_used_offset :: u16
  bh_bank_size :: u16
  bh_record_count :: u16
  bh_body_crc :: u16
  bh_reserved2 :: u16
  bh_header_crc :: u16

record kv_rec_hdr =
  rh_magic :: u16
  rh_key :: u16
  rh_type :: u8
  rh_flags :: u8
  rh_len :: u16
  rh_seq :: u32
  rh_payload_crc :: u16
  rh_header_crc :: u16

record kv_index_entry =
  in_use :: bool
  ie_key :: u16
  ie_type :: u8
  ie_len :: nat
  payload_offset :: nat
  ie_seq :: u32

record kv_bank_meta =
  meta_generation :: u32
  meta_used_offset :: nat
  meta_record_count :: u16

record kv =
  kv_mutex :: bool
  kv_ready :: bool
  auto_commit :: bool
  read_through :: bool
  kv_dirty :: bool
  needs_publish :: bool
  kv_append_size :: nat
  flash_end :: nat
  kv_base :: nat
  bank_size :: nat
  active_bank :: nat
  used_offset :: nat
  record_count :: u16
  kv_generation :: u32
  next_seq :: u32
  bank :: bytes
  kv_index :: "kv_index_entry list"

definition empty_entry :: kv_index_entry where
  "empty_entry = \<lparr>in_use = False, ie_key = 0, ie_type = 0, ie_len = 0, payload_offset = 0, ie_seq = 0\<rparr>"

definition cast16 :: "nat \<Rightarrow> nat" where
  "cast16 n = n mod 65536"

definition crc16 :: "bytes \<Rightarrow> u16" where
  "crc16 data = hal_crc16_ccitt (Some data) HAL_CRC16_CCITT_INIT"

definition bank_base :: "kv \<Rightarrow> nat \<Rightarrow> nat" where
  "bank_base s b = cast16 (kv_base s + b * bank_size s)"

definition record_size :: "nat \<Rightarrow> nat" where
  "record_size len = KV_REC_OVERHEAD + len"

definition align_up :: "kv \<Rightarrow> nat \<Rightarrow> nat" where
  "align_up s value = (value + kv_append_size s - 1) div kv_append_size s * kv_append_size s"

definition bytes_erased :: "bytes \<Rightarrow> nat \<Rightarrow> nat \<Rightarrow> bool" where
  "bytes_erased b offset len \<longleftrightarrow> list_all (\<lambda>x. x = 0xFF) (subarr offset len b)"

definition record_type_valid :: "u8 \<Rightarrow> u16 \<Rightarrow> bool" where
  "record_type_valid t len =
     (if t = KV_REC_TYPE_U32 then len = 4
      else if t = KV_REC_TYPE_BLOB then True
      else t = KV_REC_TYPE_DELETE \<and> len = 0)"

section \<open>Headers\<close>

definition encode_bank_header :: "bytes \<Rightarrow> kv_bank_hdr \<Rightarrow> bytes" where
  "encode_bank_header raw h =
     (let raw = jh_store_le32 raw 0 (bh_magic h);
          raw = raw[4 := bh_version h, 5 := bh_reserved h];
          raw = jh_store_le16 raw 6 (bh_header_size h);
          raw = jh_store_le32 raw 8 (bh_generation h);
          raw = jh_store_le16 raw 12 (bh_used_offset h);
          raw = jh_store_le16 raw 14 (bh_bank_size h);
          raw = jh_store_le16 raw 16 (bh_record_count h);
          raw = jh_store_le16 raw 18 (bh_body_crc h);
          raw = jh_store_le16 raw 20 (bh_reserved2 h)
      in jh_store_le16 raw 22 (bh_header_crc h))"

definition decode_bank_header :: "bytes \<Rightarrow> kv_bank_hdr" where
  "decode_bank_header raw =
     \<lparr>bh_magic = jh_load_le32 raw, bh_version = raw ! 4, bh_reserved = raw ! 5,
      bh_header_size = jh_load_le16 (drop 6 raw), bh_generation = jh_load_le32 (drop 8 raw),
      bh_used_offset = jh_load_le16 (drop 12 raw), bh_bank_size = jh_load_le16 (drop 14 raw),
      bh_record_count = jh_load_le16 (drop 16 raw), bh_body_crc = jh_load_le16 (drop 18 raw),
      bh_reserved2 = jh_load_le16 (drop 20 raw), bh_header_crc = jh_load_le16 (drop 22 raw)\<rparr>"

definition encode_record_header :: "bytes \<Rightarrow> nat \<Rightarrow> kv_rec_hdr \<Rightarrow> bytes" where
  "encode_record_header raw at h =
     (let raw = jh_store_le16 raw at (rh_magic h);
          raw = jh_store_le16 raw (at + 2) (rh_key h);
          raw = raw[at + 4 := rh_type h, at + 5 := rh_flags h];
          raw = jh_store_le16 raw (at + 6) (rh_len h);
          raw = jh_store_le32 raw (at + 8) (rh_seq h);
          raw = jh_store_le16 raw (at + 12) (rh_payload_crc h)
      in jh_store_le16 raw (at + 14) (rh_header_crc h))"

definition decode_record_header :: "bytes \<Rightarrow> kv_rec_hdr" where
  "decode_record_header raw =
     \<lparr>rh_magic = jh_load_le16 raw, rh_key = jh_load_le16 (drop 2 raw), rh_type = raw ! 4,
      rh_flags = raw ! 5, rh_len = jh_load_le16 (drop 6 raw), rh_seq = jh_load_le32 (drop 8 raw),
      rh_payload_crc = jh_load_le16 (drop 12 raw), rh_header_crc = jh_load_le16 (drop 14 raw)\<rparr>"

definition record_header_crc :: "kv_rec_hdr \<Rightarrow> u16" where
  "record_header_crc h =
     crc16 (take (KV_REC_HDR_SIZE - 2)
       (encode_record_header (replicate KV_REC_HDR_SIZE 0) 0 (h\<lparr>rh_header_crc := 0\<rparr>)))"

section \<open>Validation\<close>

definition validate_bank_header :: "bytes \<Rightarrow> nat \<Rightarrow> kv_bank_hdr option" where
  "validate_bank_header raw expected_bank_size =
     (let h = decode_bank_header raw in
      if bh_magic h \<noteq> KV_BANK_MAGIC \<or>
         (bh_version h \<noteq> KV_BANK_VERSION \<and> bh_version h \<noteq> KV_BANK_VERSION_NO_LOG) \<or>
         unat (bh_header_size h) \<noteq> KV_BANK_HDR_SIZE \<or>
         unat (bh_bank_size h) \<noteq> expected_bank_size \<or>
         unat (bh_used_offset h) < KV_PUBLISH_SIZE \<or>
         unat (bh_used_offset h) > expected_bank_size
      then None
      else
        let raw_without_crc = encode_bank_header (replicate KV_BANK_HDR_SIZE 0) (h\<lparr>bh_header_crc := 0\<rparr>) in
        if crc16 (take (KV_BANK_HDR_SIZE - 2) raw_without_crc) \<noteq> bh_header_crc h then None
        else Some h)"

definition record_valid :: "bytes \<Rightarrow> nat \<Rightarrow> nat \<Rightarrow> bool \<Rightarrow> kv_rec_hdr option" where
  "record_valid b offset limit allow_commit =
     (if offset + KV_REC_OVERHEAD > limit then None
      else
        let r = decode_record_header (drop offset b);
            len = unat (rh_len r);
            commit = (rh_type r = KV_REC_TYPE_COMMIT \<and> len = KV_COMMIT_LEN \<and> allow_commit) in
        if rh_magic r \<noteq> KV_REC_MAGIC \<or> rh_flags r \<noteq> 0 \<or>
           (\<not> commit \<and> \<not> record_type_valid (rh_type r) (rh_len r)) \<or>
           rh_header_crc r \<noteq> record_header_crc r \<or>
           offset + record_size len > limit
        then None
        else
          let payload = offset + KV_REC_HDR_SIZE in
          if crc16 (subarr payload len b) \<noteq> rh_payload_crc r \<or>
             jh_load_le16 (drop (payload + len) b) \<noteq> KV_REC_FOOTER
          then None else Some r)"

text \<open>The loop over the body: where it stops and how many records it saw, \<open>None\<close> at a bad record.\<close>

function body_loop :: "bytes \<Rightarrow> nat \<Rightarrow> nat \<Rightarrow> u16 \<Rightarrow> (nat \<times> u16) option" where
  "body_loop b used offset records =
     (if offset < used then
        (case record_valid b offset used False of
           None \<Rightarrow> None
         | Some r \<Rightarrow> body_loop b used (offset + record_size (unat (rh_len r))) (records + 1))
      else Some (offset, records))"
  by pat_completeness auto
termination
  by (relation "measure (\<lambda>(b, used, offset, records). used - offset)")
    (auto simp: record_size_def KV_REC_OVERHEAD_def KV_REC_HDR_SIZE_def)

declare body_loop.simps [simp del]

definition validate_bank_buffer :: "bytes \<Rightarrow> nat \<Rightarrow> kv_bank_meta option" where
  "validate_bank_buffer b size_of_bank =
     (case validate_bank_header b size_of_bank of
        None \<Rightarrow> None
      | Some h \<Rightarrow>
          let used = unat (bh_used_offset h); body_size = used - KV_PUBLISH_SIZE in
          if crc16 (subarr KV_PUBLISH_SIZE body_size b) \<noteq> bh_body_crc h then None
          else case body_loop b used KV_PUBLISH_SIZE 0 of
            None \<Rightarrow> None
          | Some (offset, records) \<Rightarrow>
              if offset \<noteq> used \<or> records \<noteq> bh_record_count h then None
              else Some \<lparr>meta_generation = bh_generation h, meta_used_offset = used,
                         meta_record_count = bh_record_count h\<rparr>)"

section \<open>The index\<close>

fun index_from :: "(kv_index_entry \<Rightarrow> bool) \<Rightarrow> nat \<Rightarrow> kv_index_entry list \<Rightarrow> nat option" where
  "index_from P i [] = None"
| "index_from P i (e # es) = (if P e then Some i else index_from P (i + 1) es)"

definition index_find :: "kv_index_entry list \<Rightarrow> u16 \<Rightarrow> nat option" where
  "index_find idx key = index_from (\<lambda>e. in_use e \<and> ie_key e = key) 0 idx"

definition index_alloc :: "kv_index_entry list \<Rightarrow> nat option" where
  "index_alloc idx = index_from (\<lambda>e. \<not> in_use e) 0 idx"

definition index_count :: "kv_index_entry list \<Rightarrow> nat" where
  "index_count idx = length (filter in_use idx)"

definition slot_for :: "kv_index_entry list \<Rightarrow> u16 \<Rightarrow> nat option" where
  "slot_for idx key = (case index_find idx key of Some i \<Rightarrow> Some i | None \<Rightarrow> index_alloc idx)"

function index_apply_range :: "kv \<Rightarrow> nat \<Rightarrow> nat \<Rightarrow> kv \<times> hal_status" where
  "index_apply_range s offset stop =
     (if offset < stop then
        let r = decode_record_header (drop offset (bank s));
            found = index_find (kv_index s) (rh_key r);
            after = offset + record_size (unat (rh_len r)) in
        if rh_type r = KV_REC_TYPE_DELETE then
          let s = (case found of None \<Rightarrow> s
                   | Some i \<Rightarrow> s\<lparr>kv_index := (kv_index s)[i := (kv_index s ! i)\<lparr>in_use := False\<rparr>]\<rparr>)
          in index_apply_range (s\<lparr>next_seq := rh_seq r + 1\<rparr>) after stop
        else
          (case slot_for (kv_index s) (rh_key r) of
             None \<Rightarrow> (s, HAL_ENOMEM)
           | Some i \<Rightarrow>
               index_apply_range
                 (s\<lparr>kv_index := (kv_index s)[i := \<lparr>in_use = True, ie_key = rh_key r, ie_type = rh_type r,
                      ie_len = unat (rh_len r), payload_offset = offset + KV_REC_HDR_SIZE, ie_seq = rh_seq r\<rparr>],
                    next_seq := rh_seq r + 1\<rparr>) after stop)
      else (s, HAL_OK))"
  by pat_completeness auto
termination
  by (relation "measure (\<lambda>(s, offset, stop). stop - offset)")
    (auto simp: record_size_def KV_REC_OVERHEAD_def KV_REC_HDR_SIZE_def)


declare index_apply_range.simps [simp del]

text \<open>
  The walk over the log. Every round advances, except when the append size does not fit the
  bank; \<open>fuel\<close> counts the rounds and the result is \<open>None\<close> when they do not suffice. Otherwise it
  is the store, the end of the last committed batch, whether something else follows it, and
  the status of applying the batches.
\<close>

fun scan_log_loop :: "nat \<Rightarrow> kv \<Rightarrow> nat \<Rightarrow> nat \<Rightarrow> nat \<Rightarrow> (kv \<times> nat \<times> bool \<times> hal_status) option" where
  "scan_log_loop 0 s batch offset committed = None"
| "scan_log_loop (Suc fuel) s batch offset committed =
     (if batch \<ge> bank_size s then Some (s, committed, False, HAL_OK)
      else if bytes_erased (bank s) offset (bank_size s - offset)
      then Some (s, committed, offset \<noteq> batch, HAL_OK)
      else case record_valid (bank s) offset (bank_size s) True of
        None \<Rightarrow> Some (s, committed, True, HAL_OK)
      | Some r \<Rightarrow>
          let after = offset + record_size (unat (rh_len r)) in
          if rh_type r \<noteq> KV_REC_TYPE_COMMIT then scan_log_loop fuel s batch after committed
          else
            let payload = drop (offset + KV_REC_HDR_SIZE) (bank s) in
            if unat (jh_load_le16 payload) \<noteq> batch \<or> offset = batch \<or>
               jh_load_le16 (drop 2 payload) \<noteq> crc16 (subarr batch (offset - batch) (bank s))
            then Some (s, committed, True, HAL_OK)
            else case index_apply_range s batch offset of
              (s, status) \<Rightarrow>
                if status \<noteq> HAL_OK then Some (s, committed, False, status)
                else
                  let batch = cast16 (align_up s after)
                  in scan_log_loop fuel s batch batch after)"

definition scan_log_locked :: "kv \<Rightarrow> nat \<Rightarrow> (kv \<times> hal_status) option" where
  "scan_log_locked s body_end =
     (let batch = cast16 (align_up s body_end) in
      case scan_log_loop (bank_size s + 1) s batch batch body_end of
        None \<Rightarrow> None
      | Some (s, committed, damaged, status) \<Rightarrow>
          if status \<noteq> HAL_OK then Some (s, status)
          else
            let stop = cast16 (align_up s committed) in
            Some (s\<lparr>flash_end := stop, used_offset := if damaged then committed else stop,
                    needs_publish := damaged\<rparr>, HAL_OK))"

section \<open>Writing\<close>

definition write_record :: "bytes \<Rightarrow> nat \<Rightarrow> u16 \<Rightarrow> u8 \<Rightarrow> bytes \<Rightarrow> u32 \<Rightarrow> bytes" where
  "write_record b offset key t data seq =
     (let payload = offset + KV_REC_HDR_SIZE; len = length data;
          b = blit b payload data;
          r = \<lparr>rh_magic = KV_REC_MAGIC, rh_key = key, rh_type = t, rh_flags = 0, rh_len = of_nat len,
               rh_seq = seq, rh_payload_crc = crc16 (subarr payload len b), rh_header_crc = 0\<rparr>;
          r = r\<lparr>rh_header_crc := record_header_crc r\<rparr>;
          b = encode_record_header b offset r
      in jh_store_le16 b (payload + len) KV_REC_FOOTER)"

definition prepare_bank_header :: "kv \<Rightarrow> u32 \<Rightarrow> kv" where
  "prepare_bank_header s generation =
     (let b = blit (bank s) 0 (replicate KV_PUBLISH_SIZE 0xFF);
          b = (if used_offset s < bank_size s
               then blit b (used_offset s) (replicate (bank_size s - used_offset s) 0xFF) else b);
          h = \<lparr>bh_magic = KV_BANK_MAGIC, bh_version = KV_BANK_VERSION, bh_reserved = 0,
               bh_header_size = of_nat KV_BANK_HDR_SIZE, bh_generation = generation,
               bh_used_offset = of_nat (used_offset s), bh_bank_size = of_nat (bank_size s),
               bh_record_count = record_count s,
               bh_body_crc = crc16 (subarr KV_PUBLISH_SIZE (cast16 (used_offset s - KV_PUBLISH_SIZE)) b),
               bh_reserved2 = 0, bh_header_crc = 0\<rparr>;
          raw = encode_bank_header (replicate KV_BANK_HDR_SIZE 0) h;
          h = h\<lparr>bh_header_crc := crc16 (take (KV_BANK_HDR_SIZE - 2) raw)\<rparr>
      in s\<lparr>bank := encode_bank_header b h\<rparr>)"

definition publish_full_locked :: "kv \<Rightarrow> 'p eeprom \<Rightarrow> kv \<times> 'p eeprom \<times> hal_status" where
  "publish_full_locked s e =
     (let destination = (if active_bank s = 0 then 1 else 0);
          next_generation = kv_generation s + 1;
          s = prepare_bank_header s next_generation;
          (e, status) = jh_eeprom_replace_region e (bank_base s destination)
                          (take (bank_size s) (bank s)) KV_PUBLISH_SIZE
      in if hal_status_is_error status then (s, e, status)
         else
           let stop = cast16 (align_up s (used_offset s)) in
           (s\<lparr>active_bank := destination, kv_generation := next_generation, flash_end := stop,
              used_offset := stop, needs_publish := False, kv_dirty := False\<rparr>, e, HAL_OK))"

definition commit_record_reserve :: "kv \<Rightarrow> nat" where
  "commit_record_reserve s =
     (if needs_publish s then 0 else record_size KV_COMMIT_LEN + kv_append_size s - 1)"

definition append_batch_locked :: "kv \<Rightarrow> 'p eeprom \<Rightarrow> kv \<times> 'p eeprom \<times> hal_status" where
  "append_batch_locked s e =
     (let batch = flash_end s; commit = used_offset s;
          stop = align_up s (commit + record_size KV_COMMIT_LEN) in
      if stop > bank_size s then (s, e, HAL_ENOMEM)
      else
        let payload = jh_store_le16 (replicate KV_COMMIT_LEN 0) 0 (of_nat batch);
            payload = jh_store_le16 payload 2 (crc16 (subarr batch (cast16 (commit - batch)) (bank s)));
            s = s\<lparr>bank := write_record (bank s) commit 0 KV_REC_TYPE_COMMIT payload (next_seq s)\<rparr>;
            address = cast16 (bank_base s (active_bank s) + batch);
            (e, status) = jh_eeprom_append_region e address (subarr batch (cast16 (stop - batch)) (bank s))
        in if hal_status_is_error status then
             let s = s\<lparr>bank := blit (bank s) commit (replicate (stop - commit) 0xFF)\<rparr>;
                 (erased, erased_status) = jh_eeprom_region_erased e address (cast16 (stop - batch))
             in (if erased_status \<noteq> HAL_OK \<or> \<not> erased then s\<lparr>needs_publish := True\<rparr> else s, e, status)
           else (s\<lparr>flash_end := cast16 stop, used_offset := cast16 stop, kv_dirty := False\<rparr>, e, HAL_OK))"

text \<open>The insertion sort of the compaction; the sorted part is held last element first.\<close>

fun sift :: "('a \<Rightarrow> nat) \<Rightarrow> 'a \<Rightarrow> 'a list \<Rightarrow> 'a list" where
  "sift f item [] = [item]"
| "sift f item (x # xs) = (if f x > f item then x # sift f item xs else item # x # xs)"

definition compact_order :: "kv_index_entry list \<Rightarrow> nat list" where
  "compact_order idx =
     rev (fold (sift (\<lambda>i. payload_offset (idx ! i))) (filter (\<lambda>i. in_use (idx ! i)) [0..<length idx]) [])"

fun compact_loop :: "bytes \<Rightarrow> kv_index_entry list \<Rightarrow> nat list \<Rightarrow> nat \<Rightarrow> bytes \<times> kv_index_entry list \<times> nat" where
  "compact_loop b idx [] destination = (b, idx, destination)"
| "compact_loop b idx (i # is) destination =
     (let e = idx ! i;
          b = write_record b destination (ie_key e) (ie_type e) (subarr (payload_offset e) (ie_len e) b) (ie_seq e);
          idx = idx[i := e\<lparr>payload_offset := destination + KV_REC_HDR_SIZE\<rparr>]
      in compact_loop b idx is (destination + record_size (ie_len e)))"

definition compact_locked :: "kv \<Rightarrow> kv" where
  "compact_locked s =
     (let order = compact_order (kv_index s);
          (b, idx, destination) = compact_loop (bank s) (kv_index s) order KV_PUBLISH_SIZE
      in s\<lparr>bank := b, kv_index := idx, used_offset := destination, record_count := of_nat (length order),
           needs_publish := True, kv_dirty := True\<rparr>)"

definition commit_locked :: "kv \<Rightarrow> 'p eeprom \<Rightarrow> kv \<times> 'p eeprom \<times> hal_status" where
  "commit_locked s e =
     (if \<not> kv_dirty s then (s, e, HAL_OK)
      else if needs_publish s then publish_full_locked (compact_locked s) e
      else if used_offset s = flash_end s then (s\<lparr>kv_dirty := False\<rparr>, e, HAL_OK)
      else case append_batch_locked s e of
        (s, e, status) \<Rightarrow>
          if status \<noteq> HAL_ENOMEM \<and> status \<noteq> HAL_ESTATE then (s, e, status)
          else publish_full_locked (compact_locked s) e)"

definition finish_mutation_locked :: "kv \<Rightarrow> 'p eeprom \<Rightarrow> kv \<times> 'p eeprom \<times> hal_status" where
  "finish_mutation_locked s e =
     (let s = s\<lparr>kv_dirty := True\<rparr> in if auto_commit s then commit_locked s e else (s, e, HAL_OK))"

definition finish_no_change_locked :: "kv \<Rightarrow> 'p eeprom \<Rightarrow> kv \<times> 'p eeprom \<times> hal_status" where
  "finish_no_change_locked s e =
     (if auto_commit s \<and> kv_dirty s then commit_locked s e else (s, e, HAL_OK))"

definition append_record_locked :: "kv \<Rightarrow> u16 \<Rightarrow> u8 \<Rightarrow> bytes \<Rightarrow> kv \<times> hal_status" where
  "append_record_locked s key t data =
     (let size_needed = record_size (length data) in
      if used_offset s + size_needed > bank_size s then (s, HAL_ENOMEM)
      else (s\<lparr>bank := write_record (bank s) (used_offset s) key t data (next_seq s),
              next_seq := next_seq s + 1, used_offset := used_offset s + size_needed,
              record_count := record_count s + 1\<rparr>, HAL_OK))"

text \<open>The record at \<open>skip\<close> (\<open>None\<close> for -1) is left out.\<close>

definition compacted_size :: "kv_index_entry list \<Rightarrow> nat option \<Rightarrow> nat" where
  "compacted_size idx skip =
     KV_PUBLISH_SIZE + sum_list (map (\<lambda>i. record_size (ie_len (idx ! i)))
       (filter (\<lambda>i. in_use (idx ! i) \<and> Some i \<noteq> skip) [0..<length idx]))"

definition ensure_space_locked :: "kv \<Rightarrow> nat \<Rightarrow> nat option \<Rightarrow> kv \<times> hal_status" where
  "ensure_space_locked s len replaced =
     (let required = record_size len in
      if used_offset s + required + commit_record_reserve s \<le> bank_size s then (s, HAL_OK)
      else if compacted_size (kv_index s) replaced + required > bank_size s then (s, HAL_ENOMEM)
      else
        let s = (case replaced of None \<Rightarrow> s
                 | Some i \<Rightarrow> s\<lparr>kv_index := (kv_index s)[i := (kv_index s ! i)\<lparr>in_use := False\<rparr>]\<rparr>)
        in (compact_locked s, HAL_OK))"

section \<open>Changing the store\<close>

definition set_entry :: "kv \<Rightarrow> u16 \<Rightarrow> u8 \<Rightarrow> nat \<Rightarrow> nat \<Rightarrow> kv" where
  "set_entry s key t len offset =
     s\<lparr>kv_index := (kv_index s)[the (slot_for (kv_index s) key) :=
         \<lparr>in_use = True, ie_key = key, ie_type = t, ie_len = len, payload_offset = offset,
          ie_seq = next_seq s - 1\<rparr>]\<rparr>"

definition set_blob_locked :: "kv \<Rightarrow> 'p eeprom \<Rightarrow> u16 \<Rightarrow> u8 \<Rightarrow> bytes \<Rightarrow> kv \<times> 'p eeprom \<times> hal_status" where
  "set_blob_locked s e key t data =
     (let len = length data in
      if record_size len + KV_PUBLISH_SIZE > bank_size s then (s, e, HAL_EOVERFLOW)
      else
        let found = index_find (kv_index s) key;
            same = (case found of None \<Rightarrow> False
                    | Some i \<Rightarrow> let entry = kv_index s ! i in
                        ie_type entry = t \<and> ie_len entry = len \<and>
                        subarr (payload_offset entry) len (bank s) = data)
        in if same then finish_no_change_locked s e
           else if found = None \<and> index_alloc (kv_index s) = None then (s, e, HAL_ENOMEM)
           else case ensure_space_locked s len found of (s, space_status) \<Rightarrow>
             if hal_status_is_error space_status then (s, e, space_status)
             else
               let offset = used_offset s + KV_REC_HDR_SIZE in
               case append_record_locked s key t data of (s, append_status) \<Rightarrow>
                 if hal_status_is_error append_status then (s, e, append_status)
                 else finish_mutation_locked (set_entry s key t len offset) e)"

definition delete_locked :: "kv \<Rightarrow> 'p eeprom \<Rightarrow> u16 \<Rightarrow> kv \<times> 'p eeprom \<times> hal_status" where
  "delete_locked s e key =
     (case index_find (kv_index s) key of
        None \<Rightarrow> finish_no_change_locked s e
      | Some i \<Rightarrow>
          (case ensure_space_locked s 0 (Some i) of (s, space_status) \<Rightarrow>
             if hal_status_is_error space_status then (s, e, space_status)
             else case append_record_locked s key KV_REC_TYPE_DELETE [] of (s, append_status) \<Rightarrow>
               if hal_status_is_error append_status then (s, e, append_status)
               else finish_mutation_locked
                      (s\<lparr>kv_index := (kv_index s)[i := (kv_index s ! i)\<lparr>in_use := False\<rparr>]\<rparr>) e))"


section \<open>Reading\<close>

text \<open>The record is fetched in three reads; the value ends up in \<open>out\<close>.\<close>

definition read_record_from_medium_locked ::
  "kv \<Rightarrow> 'p eeprom \<Rightarrow> kv_index_entry \<Rightarrow> bytes \<Rightarrow> bytes \<times> hal_status" where
  "read_record_from_medium_locked s e entry out =
     (let at = cast16 (bank_base s (active_bank s) + payload_offset entry - KV_REC_HDR_SIZE);
          (header_raw, status) = jh_eeprom_read_medium e at (replicate KV_REC_HDR_SIZE 0) KV_REC_HDR_SIZE;
          (out, status) = (if status = HAL_OK
                           then jh_eeprom_read_medium e (cast16 (at + KV_REC_HDR_SIZE)) out (ie_len entry)
                           else (out, status));
          (footer_raw, status) = (if status = HAL_OK
                           then jh_eeprom_read_medium e (cast16 (at + KV_REC_HDR_SIZE + ie_len entry))
                                  (replicate KV_REC_FTR_SIZE 0) KV_REC_FTR_SIZE
                           else (replicate KV_REC_FTR_SIZE 0, status))
      in if status \<noteq> HAL_OK then (out, status)
         else
           let h = decode_record_header header_raw in
           if rh_magic h \<noteq> KV_REC_MAGIC \<or> rh_key h \<noteq> ie_key entry \<or> rh_type h \<noteq> ie_type entry \<or>
              unat (rh_len h) \<noteq> ie_len entry \<or> rh_seq h \<noteq> ie_seq entry \<or>
              rh_header_crc h \<noteq> record_header_crc h \<or>
              rh_payload_crc h \<noteq> crc16 (take (ie_len entry) out) \<or>
              jh_load_le16 footer_raw \<noteq> KV_REC_FOOTER
           then (out, HAL_EIO) else (out, HAL_OK))"

definition hal_kv_get_u32_ex :: "kv \<Rightarrow> 'p eeprom \<Rightarrow> u16 \<Rightarrow> out_ptr \<Rightarrow> hal_status \<times> u32 option" where
  "hal_kv_get_u32_ex s e key out_value =
     (if \<not> out_value then (HAL_EINVAL, None)
      else if \<not> kv_mutex s then (HAL_ENOMEM, Some 0)
      else if \<not> kv_ready s then (HAL_EUNINIT, Some 0)
      else if read_through s \<and> kv_dirty s then (HAL_EBUSY, Some 0)
      else case index_find (kv_index s) key of
        None \<Rightarrow> (HAL_ENOENT, Some 0)
      | Some i \<Rightarrow>
          let entry = kv_index s ! i in
          if ie_type entry \<noteq> KV_REC_TYPE_U32 \<or> ie_len entry \<noteq> 4 then (HAL_ENOENT, Some 0)
          else if read_through s then
            (case read_record_from_medium_locked s e entry (replicate 4 0) of
               (raw, status) \<Rightarrow> if hal_status_is_error status then (status, Some 0)
                                else (HAL_OK, Some (jh_load_le32 raw)))
          else (HAL_OK, Some (jh_load_le32 (drop (payload_offset entry) (bank s)))))"

text \<open>
  The caller's buffer \<open>out\<close> (\<open>None\<close> for a null pointer, its length is \<open>out_size\<close>) is
  returned as the call leaves it, beside the length written through \<open>out_len\<close>.
\<close>

definition hal_kv_get_blob_ex ::
  "kv \<Rightarrow> 'p eeprom \<Rightarrow> u16 \<Rightarrow> bytes option \<Rightarrow> hal_status \<times> bytes option \<times> nat" where
  "hal_kv_get_blob_ex s e key out_ptr =
     (if \<not> kv_mutex s then (HAL_ENOMEM, out_ptr, 0)
      else if \<not> kv_ready s then (HAL_EUNINIT, out_ptr, 0)
      else if read_through s \<and> kv_dirty s then (HAL_EBUSY, out_ptr, 0)
      else case index_find (kv_index s) key of
        None \<Rightarrow> (HAL_ENOENT, out_ptr, 0)
      | Some i \<Rightarrow>
          let entry = kv_index s ! i in
          if ie_type entry \<noteq> KV_REC_TYPE_BLOB then (HAL_ENOENT, out_ptr, 0)
          else case out_ptr of
            None \<Rightarrow> (HAL_OK, None, ie_len entry)
          | Some out \<Rightarrow>
              if length out < ie_len entry then (HAL_EOVERFLOW, Some out, ie_len entry)
              else if read_through s then
                (case read_record_from_medium_locked s e entry out of
                   (out, status) \<Rightarrow>
                     (status, Some (if status \<noteq> HAL_OK then blit out 0 (replicate (ie_len entry) 0) else out),
                      ie_len entry))
              else (HAL_OK, Some (blit out 0 (subarr (payload_offset entry) (ie_len entry) (bank s))),
                    ie_len entry))"

section \<open>The public operations\<close>

definition hal_kv_set_u32_ex :: "kv \<Rightarrow> 'p eeprom \<Rightarrow> u16 \<Rightarrow> u32 \<Rightarrow> kv \<times> 'p eeprom \<times> hal_status" where
  "hal_kv_set_u32_ex s e key val =
     (let raw = jh_store_le32 (replicate 4 0) 0 val in
      if \<not> kv_mutex s then (s, e, HAL_ENOMEM)
      else if kv_ready s then set_blob_locked s e key KV_REC_TYPE_U32 raw else (s, e, HAL_EUNINIT))"

text \<open>\<open>None\<close> is a null pointer with a length that is not zero.\<close>

definition hal_kv_set_blob_ex :: "kv \<Rightarrow> 'p eeprom \<Rightarrow> u16 \<Rightarrow> bytes option \<Rightarrow> kv \<times> 'p eeprom \<times> hal_status" where
  "hal_kv_set_blob_ex s e key data_ptr =
     (case data_ptr of
        None \<Rightarrow> (s, e, HAL_EINVAL)
      | Some data \<Rightarrow>
          if \<not> kv_mutex s then (s, e, HAL_ENOMEM)
          else if kv_ready s then set_blob_locked s e key KV_REC_TYPE_BLOB data else (s, e, HAL_EUNINIT))"

definition hal_kv_delete_ex :: "kv \<Rightarrow> 'p eeprom \<Rightarrow> u16 \<Rightarrow> kv \<times> 'p eeprom \<times> hal_status" where
  "hal_kv_delete_ex s e key =
     (if \<not> kv_mutex s then (s, e, HAL_ENOMEM)
      else if kv_ready s then delete_locked s e key else (s, e, HAL_EUNINIT))"

definition hal_kv_gc_ex :: "kv \<Rightarrow> 'p eeprom \<Rightarrow> kv \<times> 'p eeprom \<times> hal_status" where
  "hal_kv_gc_ex s e =
     (if \<not> kv_mutex s then (s, e, HAL_ENOMEM)
      else if \<not> kv_ready s then (s, e, HAL_EUNINIT)
      else let s = compact_locked s in if auto_commit s then commit_locked s e else (s, e, HAL_OK))"

definition hal_kv_commit_ex :: "kv \<Rightarrow> 'p eeprom \<Rightarrow> kv \<times> 'p eeprom \<times> hal_status" where
  "hal_kv_commit_ex s e =
     (if \<not> kv_mutex s then (s, e, HAL_ENOMEM)
      else if kv_ready s then commit_locked s e else (s, e, HAL_EUNINIT))"

definition hal_kv_set_auto_commit :: "kv \<Rightarrow> bool \<Rightarrow> kv \<times> hal_status" where
  "hal_kv_set_auto_commit s enabled =
     (if \<not> kv_mutex s then (s, HAL_ENOMEM) else (s\<lparr>auto_commit := enabled\<rparr>, HAL_OK))"

definition hal_kv_set_read_through :: "kv \<Rightarrow> bool \<Rightarrow> kv \<times> hal_status" where
  "hal_kv_set_read_through s enabled =
     (if \<not> kv_mutex s then (s, HAL_ENOMEM) else (s\<lparr>read_through := enabled\<rparr>, HAL_OK))"

definition hal_kv_prepare_ex :: "kv \<Rightarrow> 'p eeprom \<Rightarrow> 'p eeprom \<times> hal_status" where
  "hal_kv_prepare_ex s e =
     (if \<not> kv_mutex s then (e, HAL_ENOMEM)
      else if \<not> kv_ready s then (e, HAL_EUNINIT)
      else
        let spare = bank_base s (if active_bank s = 0 then 1 else 0);
            (erased, status) = jh_eeprom_region_erased e spare (bank_size s)
        in if status = HAL_OK \<and> \<not> erased then jh_eeprom_erase_region e spare (bank_size s) else (e, status))"

record kv_stats =
  st_generation :: u32
  st_used_bytes :: nat
  st_capacity_bytes :: nat
  st_key_count :: nat
  st_key_capacity :: nat
  st_next_sequence :: u32
  st_spare_erased :: bool

definition hal_kv_get_stats_ex :: "kv \<Rightarrow> 'p eeprom \<Rightarrow> out_ptr \<Rightarrow> hal_status \<times> kv_stats option" where
  "hal_kv_get_stats_ex s e out_stats =
     (let none = \<lparr>st_generation = 0, st_used_bytes = 0, st_capacity_bytes = 0, st_key_count = 0,
                  st_key_capacity = 0, st_next_sequence = 0, st_spare_erased = False\<rparr> in
      if \<not> out_stats then (HAL_EINVAL, None)
      else if \<not> kv_mutex s then (HAL_ENOMEM, Some none)
      else if \<not> kv_ready s then (HAL_EUNINIT, Some none)
      else
        let spare = (if active_bank s = 0 then 1 else 0);
            (erased, status) = jh_eeprom_region_erased e (bank_base s spare) (bank_size s)
        in (status, Some \<lparr>st_generation = kv_generation s, st_used_bytes = used_offset s,
             st_capacity_bytes = bank_size s, st_key_count = index_count (kv_index s),
             st_key_capacity = KV_MAX_KEYS, st_next_sequence = next_seq s, st_spare_erased = erased\<rparr>))"

definition hal_kv_bank_looks_present_ex ::
  "'p eeprom \<Rightarrow> nat \<Rightarrow> nat \<Rightarrow> out_ptr \<Rightarrow> hal_status \<times> bool option" where
  "hal_kv_bank_looks_present_ex e bank_addr size_of_bank out_present =
     (if \<not> out_present then (HAL_EINVAL, None)
      else if size_of_bank < KV_PUBLISH_SIZE then (HAL_EINVAL, Some False)
      else case hal_eeprom_read_bytes e bank_addr (replicate KV_BANK_HDR_SIZE 0) KV_BANK_HDR_SIZE of
        (header_raw, status) \<Rightarrow>
          if hal_status_is_error status then (status, Some False)
          else (HAL_OK, Some (validate_bank_header header_raw size_of_bank \<noteq> None)))"

section \<open>Initialisation\<close>

definition generation_newer :: "u32 \<Rightarrow> u32 \<Rightarrow> bool" where
  "generation_newer lhs rhs \<longleftrightarrow> sint (lhs - rhs) > 0"

definition reset_runtime_state_locked :: "kv \<Rightarrow> kv" where
  "reset_runtime_state_locked s =
     s\<lparr>kv_ready := False, kv_dirty := False, needs_publish := False, kv_append_size := 1, flash_end := 0,
       kv_base := 0, bank_size := 0, active_bank := 0, used_offset := 0, record_count := 0,
       kv_generation := 0, next_seq := 1, bank := replicate HAL_KV_MAX_BANK_SIZE 0,
       kv_index := replicate KV_MAX_KEYS empty_entry\<rparr>"

text \<open>Reading one bank into the RAM image, and validating it.\<close>

definition load_bank :: "kv \<Rightarrow> 'p eeprom \<Rightarrow> nat \<Rightarrow> kv \<times> hal_status" where
  "load_bank s e b =
     (case hal_eeprom_read_bytes e (bank_base s b) (bank s) (bank_size s) of
        (contents, status) \<Rightarrow> (s\<lparr>bank := contents\<rparr>, status))"

definition choose_bank :: "kv_bank_meta option \<Rightarrow> kv_bank_meta option \<Rightarrow> nat" where
  "choose_bank m0 m1 =
     (case m0 of
        None \<Rightarrow> 1
      | Some a \<Rightarrow> (case m1 of
          None \<Rightarrow> 0
        | Some b \<Rightarrow> if \<not> generation_newer (meta_generation b) (meta_generation a) then 0 else 1))"

definition format_banks :: "kv \<Rightarrow> 'p eeprom \<Rightarrow> kv \<times> 'p eeprom \<times> hal_status" where
  "format_banks s e =
     (case commit_locked
        (s\<lparr>bank := blit (bank s) 0 (replicate (bank_size s) 0xFF),
           kv_index := replicate KV_MAX_KEYS empty_entry, active_bank := 1, used_offset := KV_PUBLISH_SIZE,
           record_count := 0, kv_generation := 0, next_seq := 1, kv_dirty := True, needs_publish := True\<rparr>) e of
        (s, e, status) \<Rightarrow>
          if hal_status_is_error status then (reset_runtime_state_locked s, e, status) else (s, e, HAL_OK))"

definition mount_bank :: "kv \<Rightarrow> 'p eeprom \<Rightarrow> nat \<Rightarrow> kv_bank_meta \<Rightarrow> (kv \<times> 'p eeprom \<times> hal_status) option" where
  "mount_bank s e chosen active =
     (case load_bank (s\<lparr>active_bank := chosen\<rparr>) e chosen of
        (s, status) \<Rightarrow>
          if hal_status_is_error status then Some (reset_runtime_state_locked s, e, status)
          else if validate_bank_buffer (bank s) (bank_size s) = None
          then Some (reset_runtime_state_locked s, e, HAL_EIO)
          else
            let s = s\<lparr>kv_generation := meta_generation active, used_offset := meta_used_offset active,
                      record_count := meta_record_count active,
                      kv_index := replicate KV_MAX_KEYS empty_entry, next_seq := 1\<rparr>;
                (s, status) = index_apply_range s KV_PUBLISH_SIZE (meta_used_offset active)
            in case (if status = HAL_OK then scan_log_locked s (meta_used_offset active) else Some (s, status)) of
              None \<Rightarrow> None
            | Some (s, status) \<Rightarrow>
                if hal_status_is_error status then Some (reset_runtime_state_locked s, e, status)
                else Some (s, e, HAL_OK))"

definition hal_kv_init_ex ::
  "kv \<Rightarrow> 'p eeprom \<Rightarrow> nat \<Rightarrow> nat \<Rightarrow> (kv \<times> 'p eeprom \<times> hal_status) option" where
  "hal_kv_init_ex s e base_addr size_bytes =
     (if \<not> kv_mutex s then Some (s, e, HAL_ENOMEM)
      else
        let s = reset_runtime_state_locked s in
        if size_bytes = 0 \<or> size_bytes mod 2 \<noteq> 0 then Some (s, e, HAL_EINVAL)
        else
          let size_of_bank = size_bytes div 2 in
          if size_of_bank > HAL_KV_MAX_BANK_SIZE \<or> size_of_bank < KV_PUBLISH_SIZE + KV_REC_OVERHEAD
          then Some (s, e, HAL_EINVAL)
          else case hal_eeprom_size_ex e of (eeprom_size, status) \<Rightarrow>
            if hal_status_is_error status then Some (s, e, status)
            else if base_addr + size_bytes > eeprom_size then Some (s, e, HAL_EOVERFLOW)
            else
              let status = jh_eeprom_validate_region e base_addr size_of_bank KV_PUBLISH_SIZE;
                  (s, status) = (if status = HAL_OK then
                    (case jh_eeprom_append_size e of (n, st) \<Rightarrow> (s\<lparr>kv_append_size := n\<rparr>, st)) else (s, status))
              in if status \<noteq> HAL_OK then Some (s, e, status)
              else
                let s = s\<lparr>kv_base := base_addr, bank_size := size_of_bank\<rparr>;
                    (s, status0) = load_bank s e 0
                in if hal_status_is_error status0 then Some (s, e, status0)
                else
                  let m0 = validate_bank_buffer (bank s) (bank_size s);
                      (s, status1) = load_bank s e 1
                  in if hal_status_is_error status1 then Some (s, e, status1)
                  else
                    let m1 = validate_bank_buffer (bank s) (bank_size s) in
                    case (if m0 = None \<and> m1 = None then Some (format_banks s e)
                          else let chosen = choose_bank m0 m1 in
                               mount_bank s e chosen (the (if chosen = 0 then m0 else m1))) of
                      None \<Rightarrow> None
                    | Some (s, e, status) \<Rightarrow>
                        if hal_status_is_error status then Some (s, e, status)
                        else Some (s\<lparr>kv_ready := True, kv_dirty := False\<rparr>, e, HAL_OK))"

end
