(* ===== verification/Bytes.thy ===== *)
theory Bytes
  imports Endian
begin

text \<open>
  Byte strings lying in a buffer: how \<open>blit\<close> and \<open>subarr\<close> of neighbouring pieces compose, and the
  little-endian words as lists of bytes. The record formats of the storage and of the firmware images build on it.
\<close>

section \<open>Lists in place\<close>

lemma blit_Nil [simp]: "blit b off [] = b"
  by (simp add: blit_def)

lemma blit_single: "off < length b \<Longrightarrow> b[off := x] = blit b off [x]"
  by (simp add: blit_def upd_conv_take_nth_drop)

lemma blit_append:
  "off + length xs + length ys \<le> length b \<Longrightarrow>
   blit (blit b off xs) (off + length xs) ys = blit b off (xs @ ys)"
  by (simp add: blit_def add.commute add.left_commute)

lemma blit_before:
  assumes "off + length xs = at" "at + length ys \<le> length b"
  shows "blit (blit b at ys) off xs = blit b off (xs @ ys)"
  using assms by (intro nth_equalityI) (auto simp: nth_blit nth_append)

lemma subarr_none [simp]: "subarr off 0 b = []"
  by (simp add: subarr_def)

lemma subarr_append: "subarr off (m + n) b = subarr off m b @ subarr (off + m) n b"
  by (simp add: subarr_def take_add add.commute)

lemma subarr_whole [simp]: "length b = n \<Longrightarrow> subarr 0 n b = b"
  by simp

lemma subarr_subarr: "i + n \<le> m \<Longrightarrow> subarr i n (subarr off m b) = subarr (off + i) n b"
  by (simp add: subarr_def drop_take min_def add.commute)

lemma take_drop_subarr: "take n (drop off b) = subarr off n b"
  by (simp add: subarr_def)

lemma drop_subarr: "drop off b = subarr off n b @ drop (off + n) b"
  by (simp add: subarr_def add.commute flip: drop_drop)

lemma blit_same: "off + n \<le> length b \<Longrightarrow> blit b off (subarr off n b) = b"
  by (intro nth_equalityI) (auto simp: nth_blit nth_subarr)

lemma subarr_part:
  assumes "subarr off n b = xs @ ys @ zs" "off + n \<le> length b"
  shows "subarr (off + length xs) (length ys) b = ys"
proof -
  have "length xs + length ys \<le> n"
    using arg_cong [where f = length, OF assms(1)] assms(2) by simp
  then have "subarr (off + length xs) (length ys) b = subarr (length xs) (length ys) (subarr off n b)"
    by (simp add: subarr_subarr)
  also have "\<dots> = ys" unfolding assms(1) by (simp add: subarr_def)
  finally show ?thesis .
qed

section \<open>Little-endian bytes\<close>

definition le16 :: "u16 \<Rightarrow> bytes" where
  "le16 v = [ucast v, ucast (drop_bit 8 v)]"

definition le32 :: "u32 \<Rightarrow> bytes" where
  "le32 v = [ucast v, ucast (drop_bit 8 v), ucast (drop_bit 16 v), ucast (drop_bit 24 v)]"

lemma length_le [simp]: "length (le16 v) = 2" "length (le32 w) = 4"
  by (simp_all add: le16_def le32_def)

lemma store_le16: "off + 2 \<le> length b \<Longrightarrow> jh_store_le16 b off v = blit b off (le16 v)"
  by (intro nth_equalityI) (auto simp: jh_store_le16_def nth_blit le16_def nth_list_update nth_Cons split: nat.splits)

lemma store_le32: "off + 4 \<le> length b \<Longrightarrow> jh_store_le32 b off v = blit b off (le32 v)"
proof (intro nth_equalityI)
  fix i assume off: "off + 4 \<le> length b" and i: "i < length (jh_store_le32 b off v)"
  consider "i < off" | "i = off" | "i = off + 1" | "i = off + 2" | "i = off + 3" | "i \<ge> off + 4" by linarith
  then show "jh_store_le32 b off v ! i = blit b off (le32 v) ! i"
    using off i by cases (simp_all add: jh_store_le32_def nth_blit le32_def)
qed simp

lemma load_le16 [simp]: "jh_load_le16 (le16 v @ xs) = v"
  by (simp add: jh_load_le16_def le16_def join_16)

lemma load_le32 [simp]: "jh_load_le32 (le32 v @ xs) = v"
  by (simp add: jh_load_le32_def le32_def join_32)

lemma bytes_of_load_le16:
  "ucast (jh_load_le16 p) = p ! 0" "ucast (drop_bit 8 (jh_load_le16 p)) = p ! 1"
  by (rule bit_word_eqI; auto simp: jh_load_le16_def bit_simps dest: bit_imp_le_length)+

lemma le16_load: "2 \<le> length p \<Longrightarrow> le16 (jh_load_le16 p) = take 2 p"
  by (auto simp: le16_def bytes_of_load_le16 numeral_2_eq_2 Suc_le_length_iff)

lemma le32_load:
  assumes "4 \<le> length p"
  shows "le32 (jh_load_le32 p) = take 4 p"
proof -
  obtain a b c d r where "p = a # b # c # d # r"
    using assms by (auto simp: numeral_eq_Suc Suc_le_length_iff)
  then show ?thesis by (simp add: le32_def bytes_of_load_le32)
qed

section \<open>Building a record front to back\<close>

text \<open>A buffer of \<open>n\<close> bytes that is written up to \<open>p\<close> and zero after it.\<close>

definition padded :: "nat \<Rightarrow> bytes \<Rightarrow> bytes" where
  "padded n p = p @ replicate (n - length p) 0"

lemma length_padded [simp]: "length p \<le> n \<Longrightarrow> length (padded n p) = n"
  by (simp add: padded_def)

lemma padded_full [simp]: "length p = n \<Longrightarrow> padded n p = p"
  by (simp add: padded_def)

lemma padded_start: "replicate n 0 = padded n []"
  by (simp add: padded_def)

lemma blit_padded:
  assumes "length p \<le> off" "off + length xs \<le> n"
  shows "blit (padded n p) off xs = padded n (p @ replicate (off - length p) 0 @ xs)"
proof -
  have "take off (padded n p) = p @ replicate (off - length p) 0" using assms by (simp add: padded_def min_def)
  moreover have "drop (off + length xs) (padded n p) = replicate (n - (off + length xs)) 0" using assms by (simp add: padded_def)
  ultimately show ?thesis using assms by (simp add: blit_def) (simp add: padded_def)
qed

lemma take_padded: "length p \<le> k \<Longrightarrow> k \<le> n \<Longrightarrow> take k (padded n p) = padded k p"
  by (simp add: padded_def min_def)

end
