(* ===== verification/Kv_Record.thy ===== *)
theory Kv_Record
  imports Kv_Store Bytes
begin

text \<open>
  How one record lies in a bank: its bytes, written out as a list, and the two facts the
  rest rests on. Writing a record puts exactly these bytes at its place, and a place
  holds a valid record exactly when it holds such bytes.
\<close>

section \<open>Record headers\<close>

definition hdr_bytes :: "kv_rec_hdr \<Rightarrow> bytes" where
  "hdr_bytes h = le16 (rh_magic h) @ le16 (rh_key h) @ [rh_type h, rh_flags h] @ le16 (rh_len h) @
     le32 (rh_seq h) @ le16 (rh_payload_crc h) @ le16 (rh_header_crc h)"

lemma length_hdr_bytes [simp]: "length (hdr_bytes h) = 16"
  by (simp add: hdr_bytes_def)

lemma encode_record_header:
  assumes "at + 16 \<le> length raw"
  shows "encode_record_header raw at h = blit raw at (hdr_bytes h)"
proof -
  have pair: "(b[at + 4 := x, at + 5 := y]) = blit b (at + 4) [x, y]"
    if "length b = length raw" for b :: bytes and x y
    using that assms by (intro nth_equalityI) (auto simp: nth_blit nth_list_update nth_Cons split: nat.splits)
  note eqs = encode_record_header_def Let_def store_le16 store_le32 pair
  show ?thesis
    using assms blit_append [of at "le16 (rh_magic h)" "le16 (rh_key h)" raw]
      blit_append [of at "le16 (rh_magic h) @ le16 (rh_key h)" "[rh_type h, rh_flags h]" raw]
      blit_append [of at "le16 (rh_magic h) @ le16 (rh_key h) @ [rh_type h, rh_flags h]" "le16 (rh_len h)" raw]
      blit_append [of at "le16 (rh_magic h) @ le16 (rh_key h) @ [rh_type h, rh_flags h] @ le16 (rh_len h)"
        "le32 (rh_seq h)" raw]
      blit_append [of at "le16 (rh_magic h) @ le16 (rh_key h) @ [rh_type h, rh_flags h] @ le16 (rh_len h) @
        le32 (rh_seq h)" "le16 (rh_payload_crc h)" raw]
      blit_append [of at "le16 (rh_magic h) @ le16 (rh_key h) @ [rh_type h, rh_flags h] @ le16 (rh_len h) @
        le32 (rh_seq h) @ le16 (rh_payload_crc h)" "le16 (rh_header_crc h)" raw]
    by (simp add: eqs hdr_bytes_def)
qed

lemma decode_hdr_bytes [simp]: "decode_record_header (hdr_bytes h @ xs) = h"
  by (cases h) (simp add: decode_record_header_def hdr_bytes_def nth_append drop_Cons')

lemma hdr_bytes_decode:
  assumes "16 \<le> length raw"
  shows "hdr_bytes (decode_record_header raw) = take 16 raw"
proof -
  have "take 16 raw = take 2 raw @ take 2 (drop 2 raw) @ [raw ! 4, raw ! 5] @ take 2 (drop 6 raw) @
      take 4 (drop 8 raw) @ take 2 (drop 12 raw) @ take 2 (drop 14 raw)"
  proof -
    have "[raw ! 4, raw ! 5] = take 2 (drop 4 raw)"
      using assms by (simp add: take_Suc_conv_app_nth numeral_2_eq_2)
    moreover have "take 16 raw = take (2 + (2 + (2 + (2 + (4 + (2 + 2)))))) raw" by simp
    ultimately show ?thesis by (simp only: take_add drop_drop) simp
  qed
  then show ?thesis
    using assms by (simp add: hdr_bytes_def decode_record_header_def le16_load le32_load)
qed

lemma decode_record_header_take:
  "16 \<le> length raw \<Longrightarrow> decode_record_header (take 16 raw @ xs) = decode_record_header raw"
  by (simp flip: hdr_bytes_decode)


section \<open>Whole records\<close>

text \<open>A record is its key, type, value and sequence number; \<open>enc\<close> are its bytes.\<close>

type_synonym kv_record = "u16 \<times> u8 \<times> bytes \<times> u32"

definition rec_hdr :: "kv_record \<Rightarrow> kv_rec_hdr" where
  "rec_hdr = (\<lambda>(k, t, d, n).
     let h = \<lparr>rh_magic = KV_REC_MAGIC, rh_key = k, rh_type = t, rh_flags = 0, rh_len = of_nat (length d),
              rh_seq = n, rh_payload_crc = crc16 d, rh_header_crc = 0\<rparr>
     in h\<lparr>rh_header_crc := record_header_crc h\<rparr>)"

definition enc :: "kv_record \<Rightarrow> bytes" where
  "enc x = hdr_bytes (rec_hdr x) @ fst (snd (snd x)) @ le16 KV_REC_FOOTER"

definition record_ok :: "bool \<Rightarrow> kv_record \<Rightarrow> bool" where
  "record_ok commit = (\<lambda>(k, t, d, n). length d < 65536 \<and>
     (record_type_valid t (of_nat (length d)) \<or> commit \<and> t = KV_REC_TYPE_COMMIT \<and> length d = KV_COMMIT_LEN))"

lemma rec_hdr_simps [simp]:
  "rh_magic (rec_hdr (k, t, d, n)) = KV_REC_MAGIC" "rh_key (rec_hdr (k, t, d, n)) = k"
  "rh_type (rec_hdr (k, t, d, n)) = t" "rh_flags (rec_hdr (k, t, d, n)) = 0"
  "rh_len (rec_hdr (k, t, d, n)) = of_nat (length d)" "rh_seq (rec_hdr (k, t, d, n)) = n"
  "rh_payload_crc (rec_hdr (k, t, d, n)) = crc16 d"
  by (simp_all add: rec_hdr_def Let_def)

lemma rec_hdr_crc [simp]: "rh_header_crc (rec_hdr x) = record_header_crc (rec_hdr x)"
  by (cases x) (simp add: rec_hdr_def Let_def record_header_crc_def)

lemma record_size_eq: "record_size n = 18 + n"
  by (simp add: record_size_def KV_REC_OVERHEAD_def KV_REC_HDR_SIZE_def KV_REC_FTR_SIZE_def)

lemma length_enc [simp]: "length (enc (k, t, d, n)) = 18 + length d"
  by (simp add: enc_def)

lemma enc_footer: "last (enc x) = 0x5A"
  by (simp add: enc_def le16_def KV_REC_FOOTER_def)

lemma enc_head: "enc x = 0x5A # tl (enc x)"
  by (cases x) (simp add: enc_def hdr_bytes_def le16_def KV_REC_MAGIC_def)

lemma enc_not_Nil [simp]: "enc x \<noteq> []"
  by (simp add: enc_def le16_def)

lemma write_record_enc:
  assumes "off + 18 + length d \<le> length b"
  shows "write_record b off k t d n = blit b off (enc (k, t, d, n))"
proof -
  let ?h = "hdr_bytes (rec_hdr (k, t, d, n))"
  have hdr: "(\<lparr>rh_magic = KV_REC_MAGIC, rh_key = k, rh_type = t, rh_flags = 0, rh_len = of_nat (length d),
      rh_seq = n, rh_payload_crc = crc16 d, rh_header_crc = 0\<rparr>)\<lparr>rh_header_crc :=
      record_header_crc \<lparr>rh_magic = KV_REC_MAGIC, rh_key = k, rh_type = t, rh_flags = 0,
      rh_len = of_nat (length d), rh_seq = n, rh_payload_crc = crc16 d, rh_header_crc = 0\<rparr>\<rparr> = rec_hdr (k, t, d, n)"
    by (simp add: rec_hdr_def Let_def)
  have b1: "blit (blit b (off + 16) d) off ?h = blit b off (?h @ d)"
    using assms by (intro blit_before) auto
  have b2: "blit (blit b off (?h @ d)) (off + (16 + length d)) (le16 KV_REC_FOOTER) =
      blit b off ((?h @ d) @ le16 KV_REC_FOOTER)"
    using assms blit_append [of off "?h @ d" "le16 KV_REC_FOOTER" b] by simp
  show ?thesis
    using assms b1 b2 hdr
    by (simp add: write_record_def Let_def KV_REC_HDR_SIZE_def encode_record_header store_le16 enc_def add.assoc)
qed

lemma record_valid_iff:
  assumes "limit \<le> length b"
  shows "record_valid b off limit commit = Some r \<longleftrightarrow>
    (\<exists>x. r = rec_hdr x \<and> record_ok commit x \<and> off + length (enc x) \<le> limit \<and>
      subarr off (length (enc x)) b = enc x)"
proof
  assume valid: "record_valid b off limit commit = Some r"
  define len where "len = unat (rh_len r)"
  define d where "d = subarr (off + 16) len b"
  have r: "r = decode_record_header (drop off b)" "off + (18 + len) \<le> limit"
    "rh_magic r = KV_REC_MAGIC" "rh_flags r = 0" "rh_header_crc r = record_header_crc r"
    "record_type_valid (rh_type r) (rh_len r) \<or> commit \<and> rh_type r = KV_REC_TYPE_COMMIT \<and> len = KV_COMMIT_LEN"
    "crc16 d = rh_payload_crc r" "jh_load_le16 (drop (off + (16 + len)) b) = KV_REC_FOOTER"
    using valid
    by (auto simp: record_valid_def Let_def record_size_eq len_def d_def KV_REC_HDR_SIZE_def add.assoc
        split: if_splits)
  have d: "length d = len" "rh_len r = of_nat (length d)" "length d < 65536"
    using r(2) assms by (simp_all add: d_def len_def)
  let ?x = "(rh_key r, rh_type r, d, rh_seq r)"
  have hdr: "r = rec_hdr ?x"
  proof -
    have "(rec_hdr ?x)\<lparr>rh_header_crc := 0\<rparr> = r\<lparr>rh_header_crc := 0\<rparr>"
      using d r(3,4,7) by (intro kv_rec_hdr.equality) simp_all
    then have "record_header_crc (rec_hdr ?x) = record_header_crc r"
      by (simp add: record_header_crc_def)
    then show ?thesis
      using d r(3-5,7) by (intro kv_rec_hdr.equality) simp_all
  qed
  have "subarr off (18 + length d) b = hdr_bytes r @ d @ le16 KV_REC_FOOTER"
  proof -
    have "hdr_bytes r = subarr off 16 b"
      using r(2) assms by (subst r(1)) (simp add: hdr_bytes_decode subarr_def)
    moreover have "le16 KV_REC_FOOTER = subarr (off + (16 + len)) 2 b"
      using r(2) assms by (simp add: le16_load subarr_def flip: r(8))
    moreover have "18 + length d = 16 + (len + 2)" by (simp add: d(1))
    ultimately show ?thesis by (simp only: subarr_append d_def add.assoc)
  qed
  then have "subarr off (length (enc ?x)) b = enc ?x"
    using hdr by (simp add: enc_def)
  moreover have "record_ok commit ?x" using r(6) d by (auto simp: record_ok_def)
  ultimately show "\<exists>x. r = rec_hdr x \<and> record_ok commit x \<and> off + length (enc x) \<le> limit \<and>
      subarr off (length (enc x)) b = enc x"
    using hdr r(2) d(1) by (intro exI [of _ ?x]) simp
next
  assume "\<exists>x. r = rec_hdr x \<and> record_ok commit x \<and> off + length (enc x) \<le> limit \<and>
      subarr off (length (enc x)) b = enc x"
  then obtain k t d n where x: "r = rec_hdr (k, t, d, n)" "record_ok commit (k, t, d, n)"
    "off + (18 + length d) \<le> limit" "subarr off (18 + length d) b = enc (k, t, d, n)"
    by (metis length_enc prod_cases4)
  have len: "unat (rh_len r) = length d"
    using x(1,2) by (simp add: record_ok_def unat_of_nat_less)
  have fit: "off + (18 + length d) \<le> length b" using x(3) assms by simp
  have body: "subarr off (18 + length d) b = hdr_bytes r @ d @ le16 KV_REC_FOOTER"
    using x(1,4) by (simp add: enc_def)
  have "drop off b = subarr off (18 + length d) b @ drop (off + (18 + length d)) b"
    by (rule drop_subarr)
  then have "decode_record_header (drop off b) = r"
    unfolding body append_assoc by simp
  moreover have "subarr (off + 16) (length d) b = d"
    using subarr_part [of off "18 + length d" b "hdr_bytes r" d "le16 KV_REC_FOOTER"] body fit by simp
  moreover have "jh_load_le16 (drop (off + 16 + length d) b) = KV_REC_FOOTER"
  proof -
    have "subarr (off + 16 + length d) 2 b = le16 KV_REC_FOOTER"
      using subarr_part [of off "18 + length d" b "hdr_bytes r @ d" "le16 KV_REC_FOOTER" "[]"] body fit
      by (simp add: add.assoc)
    then have "drop (off + 16 + length d) b = le16 KV_REC_FOOTER @ drop (off + 16 + length d + 2) b"
      using drop_subarr [of "off + 16 + length d" b 2] by simp
    then show ?thesis by simp
  qed
  moreover have "record_type_valid (rh_type r) (rh_len r) \<or>
      rh_type r = KV_REC_TYPE_COMMIT \<and> unat (rh_len r) = KV_COMMIT_LEN \<and> commit"
    using x(1,2) len by (auto simp: record_ok_def)
  moreover have "rh_magic r = KV_REC_MAGIC" "rh_flags r = 0" "rh_header_crc r = record_header_crc r"
    "rh_payload_crc r = crc16 d"
    using x(1) by simp_all
  ultimately show "record_valid b off limit commit = Some r"
    using x(3) len unfolding record_valid_def Let_def
    by (simp add: record_size_eq KV_REC_OVERHEAD_def KV_REC_HDR_SIZE_def KV_REC_FTR_SIZE_def) blast
qed

section \<open>Bytes at a place\<close>

definition held :: "bytes \<Rightarrow> nat \<Rightarrow> bytes \<Rightarrow> bool" where
  "held b off xs \<longleftrightarrow> off + length xs \<le> length b \<and> subarr off (length xs) b = xs"

lemma held_append: "held b off (xs @ ys) \<longleftrightarrow> held b off xs \<and> held b (off + length xs) ys"
  by (auto simp: held_def subarr_append)

lemma held_nth: "held b off xs \<Longrightarrow> i < length xs \<Longrightarrow> b ! (off + i) = xs ! i"
  by (metis held_def nth_subarr)

lemma held_blit: "off + length xs \<le> length b \<Longrightarrow> held (blit b off xs) off xs"
  by (simp add: held_def)

lemma held_blit_other:
  assumes "held b off xs" "at + length ys \<le> length b"
    and "off + length xs \<le> at \<or> at + length ys \<le> off"
  shows "held (blit b at ys) off xs"
  using assms by (auto simp: held_def subarr_blit_disjoint)

lemma held_take: "off + length xs \<le> n \<Longrightarrow> held (take n b) off xs \<longleftrightarrow> held b off xs"
  by (auto simp: held_def subarr_def drop_take min_def)

lemma held_cong:
  assumes "held b off xs" "off + length xs \<le> n" "take n b' = take n b"
  shows "held b' off xs"
  using assms held_take [of off xs n b] held_take [of off xs n b'] by simp

lemma record_valid_held:
  assumes "limit \<le> length b"
  shows "record_valid b off limit commit = Some r \<longleftrightarrow>
    (\<exists>x. r = rec_hdr x \<and> record_ok commit x \<and> off + length (enc x) \<le> limit \<and> held b off (enc x))"
proof -
  have "n \<le> limit \<Longrightarrow> n \<le> length b" for n using assms by simp
  then show ?thesis unfolding record_valid_iff [OF assms] held_def by blast
qed

end
