(* ===== verification/Kv_Index.thy ===== *)
theory Kv_Index
  imports Kv_Record
begin

text \<open>
  The index of the live records as a finite map. \<open>kv_map\<close> reads the map off the RAM image and
  the index, \<open>replay\<close> is what a list of records does to a map. An index is well formed when
  its entries in use have distinct keys and stand for whole, disjoint records below a given
  position; the lemmas show that every change of the index is the change of the map.
\<close>

section \<open>Maps of records\<close>

type_synonym kv_contents = "u16 \<rightharpoonup> u8 \<times> bytes"

definition rec_apply :: "kv_record \<Rightarrow> kv_contents \<Rightarrow> kv_contents" where
  "rec_apply = (\<lambda>(k, t, d, n) M. if t = KV_REC_TYPE_DELETE then M(k := None) else M(k \<mapsto> (t, d)))"

definition replay :: "kv_record list \<Rightarrow> kv_contents \<Rightarrow> kv_contents" where
  "replay rs M = fold rec_apply rs M"

text \<open>The map never holds more keys than the index has places.\<close>

fun roomy :: "kv_record list \<Rightarrow> kv_contents \<Rightarrow> bool" where
  "roomy [] M = True"
| "roomy (r # rs) M \<longleftrightarrow> card (dom (rec_apply r M)) \<le> KV_MAX_KEYS \<and> roomy rs (rec_apply r M)"

lemma replay_simps [simp]: "replay [] M = M" "replay (r # rs) M = replay rs (rec_apply r M)"
  by (simp_all add: replay_def)

lemma replay_append: "replay (rs @ qs) M = replay qs (replay rs M)"
  by (simp add: replay_def)

lemma roomy_append: "roomy (rs @ qs) M \<longleftrightarrow> roomy rs M \<and> roomy qs (replay rs M)"
  by (induction rs arbitrary: M) auto

section \<open>Entries\<close>

definition entry_val :: "bytes \<Rightarrow> kv_index_entry \<Rightarrow> bytes" where
  "entry_val b e = subarr (payload_offset e) (ie_len e) b"

definition entry_rec :: "bytes \<Rightarrow> kv_index_entry \<Rightarrow> kv_record" where
  "entry_rec b e = (ie_key e, ie_type e, entry_val b e, ie_seq e)"

definition entry_start :: "kv_index_entry \<Rightarrow> nat" where
  "entry_start e = payload_offset e - 16"

definition entry_stop :: "kv_index_entry \<Rightarrow> nat" where
  "entry_stop e = payload_offset e + ie_len e + 2"

definition entry_held :: "bytes \<Rightarrow> kv_index_entry \<Rightarrow> bool" where
  "entry_held b e \<longleftrightarrow> KV_PUBLISH_SIZE + 16 \<le> payload_offset e \<and> length (entry_val b e) = ie_len e \<and>
     record_ok False (entry_rec b e) \<and> ie_type e \<noteq> KV_REC_TYPE_DELETE \<and>
     held b (entry_start e) (enc (entry_rec b e))"

definition used_slots :: "kv_index_entry list \<Rightarrow> nat set" where
  "used_slots idx = {i. i < length idx \<and> in_use (idx ! i)}"

definition index_ok :: "bytes \<Rightarrow> kv_index_entry list \<Rightarrow> nat \<Rightarrow> bool" where
  "index_ok b idx hi \<longleftrightarrow> length idx = KV_MAX_KEYS \<and>
     (\<forall>i \<in> used_slots idx. entry_held b (idx ! i) \<and> entry_stop (idx ! i) \<le> hi) \<and>
     (\<forall>i \<in> used_slots idx. \<forall>j \<in> used_slots idx. i \<noteq> j \<longrightarrow>
        ie_key (idx ! i) \<noteq> ie_key (idx ! j) \<and>
        (entry_stop (idx ! i) \<le> entry_start (idx ! j) \<or> entry_stop (idx ! j) \<le> entry_start (idx ! i)))"

definition kv_map :: "bytes \<Rightarrow> kv_index_entry list \<Rightarrow> kv_contents" where
  "kv_map b idx k =
     (case index_find idx k of None \<Rightarrow> None | Some i \<Rightarrow> Some (ie_type (idx ! i), entry_val b (idx ! i)))"

lemma index_from_Some:
  "index_from P j es = Some i \<Longrightarrow> j \<le> i \<and> i < j + length es \<and> P (es ! (i - j))"
proof (induction es arbitrary: j)
  case (Cons a es)
  show ?case
  proof (cases "P a")
    case False
    then have "j + 1 \<le> i \<and> i < j + 1 + length es \<and> P (es ! (i - (j + 1)))"
      using Cons.prems by (intro Cons.IH) simp
    then show ?thesis by (auto simp: nth_Cons' Suc_diff_Suc diff_diff_add)
  qed (use Cons.prems in auto)
qed simp

lemma index_from_None: "index_from P j es = None \<longleftrightarrow> (\<forall>e \<in> set es. \<not> P e)"
  by (induction es arbitrary: j) auto

lemma index_find_Some:
  "index_find idx k = Some i \<Longrightarrow> i \<in> used_slots idx \<and> ie_key (idx ! i) = k"
  using index_from_Some [of _ 0 idx i] by (auto simp: index_find_def used_slots_def)

lemma index_find_None:
  "index_find idx k = None \<longleftrightarrow> (\<forall>i \<in> used_slots idx. ie_key (idx ! i) \<noteq> k)"
  by (auto simp: index_find_def index_from_None used_slots_def all_set_conv_all_nth)

lemma index_alloc_Some: "index_alloc idx = Some i \<Longrightarrow> i < length idx \<and> i \<notin> used_slots idx"
  using index_from_Some [of _ 0 idx i] by (auto simp: index_alloc_def used_slots_def)

lemma index_alloc_None: "index_alloc idx = None \<longleftrightarrow> used_slots idx = {..<length idx}"
  by (auto simp: index_alloc_def index_from_None used_slots_def all_set_conv_all_nth)

lemma index_find_key:
  assumes "index_ok b idx hi" "i \<in> used_slots idx"
  shows "index_find idx (ie_key (idx ! i)) = Some i"
proof (cases "index_find idx (ie_key (idx ! i))")
  case None
  then have False using assms(2) unfolding index_find_None by blast
  then show ?thesis ..
next
  case (Some j)
  then show ?thesis using assms index_find_Some [OF Some] by (auto simp: index_ok_def)
qed

lemma index_ok_inj:
  "index_ok b idx hi \<Longrightarrow> i \<in> used_slots idx \<Longrightarrow> j \<in> used_slots idx \<Longrightarrow> ie_key (idx ! i) = ie_key (idx ! j) \<Longrightarrow> i = j"
  unfolding index_ok_def by blast

lemma kv_map_slot:
  "index_ok b idx hi \<Longrightarrow> i \<in> used_slots idx \<Longrightarrow>
   kv_map b idx (ie_key (idx ! i)) = Some (ie_type (idx ! i), entry_val b (idx ! i))"
  by (simp add: kv_map_def index_find_key)

lemma dom_kv_map: "dom (kv_map b idx) = (\<lambda>i. ie_key (idx ! i)) ` used_slots idx"
  by (force simp: kv_map_def dom_def index_find_None split: option.splits dest: index_find_Some)

lemma card_dom_kv_map:
  assumes "index_ok b idx hi"
  shows "card (dom (kv_map b idx)) = card (used_slots idx)"
  unfolding dom_kv_map using assms by (intro card_image inj_onI) (auto simp: index_ok_def)

lemma finite_used_slots [simp]: "finite (used_slots idx)"
  by (simp add: used_slots_def)

lemma card_used_slots: "index_ok b idx hi \<Longrightarrow> card (used_slots idx) \<le> KV_MAX_KEYS"
  using card_mono [of "{..<length idx}" "used_slots idx"] by (auto simp: used_slots_def index_ok_def)

section \<open>Changing the index\<close>

lemma used_slots_put: "i < length idx \<Longrightarrow> in_use e \<Longrightarrow> used_slots (idx[i := e]) = insert i (used_slots idx)"
  by (auto simp: used_slots_def nth_list_update)

lemma used_slots_free: "\<not> in_use e \<Longrightarrow> used_slots (idx[i := e]) = used_slots idx - {i}"
  by (cases "i < length idx") (auto simp: used_slots_def nth_list_update split: if_splits)

lemma kv_map_eqI:
  assumes "index_ok b idx hi"
    and "\<And>k v. M k = Some v \<Longrightarrow> \<exists>i \<in> used_slots idx. ie_key (idx ! i) = k \<and> v = (ie_type (idx ! i), entry_val b (idx ! i))"
    and "\<And>i. i \<in> used_slots idx \<Longrightarrow> M (ie_key (idx ! i)) \<noteq> None"
  shows "kv_map b idx = M"
proof
  fix k
  show "kv_map b idx k = M k"
  proof (cases "M k")
    case (Some v)
    then show ?thesis using assms(2) [OF Some] kv_map_slot [OF assms(1)] by auto
  next
    case None
    then have "index_find idx k = None" using assms(3) unfolding index_find_None by metis
    then show ?thesis using None by (simp add: kv_map_def)
  qed
qed

lemma index_ok_free:
  assumes ok: "index_ok b idx hi" and i: "i \<in> used_slots idx"
  defines "idx' \<equiv> idx[i := (idx ! i)\<lparr>in_use := False\<rparr>]"
  shows "index_ok b idx' hi \<and> kv_map b idx' = (kv_map b idx)(ie_key (idx ! i) := None)"
proof -
  have slots: "used_slots idx' = used_slots idx - {i}" by (simp add: idx'_def used_slots_free)
  have same: "idx' ! j = idx ! j" if "j \<in> used_slots idx'" for j
    using that unfolding slots by (simp add: idx'_def)
  have ok': "index_ok b idx' hi"
    using ok same unfolding index_ok_def slots by (auto simp: idx'_def)
  moreover have "kv_map b idx' = (kv_map b idx)(ie_key (idx ! i) := None)"
  proof (rule kv_map_eqI [OF ok'])
    fix k v assume "((kv_map b idx)(ie_key (idx ! i) := None)) k = Some v"
    then have k: "k \<noteq> ie_key (idx ! i)" "kv_map b idx k = Some v" by (auto split: if_splits)
    then obtain j where j: "index_find idx k = Some j" by (auto simp: kv_map_def split: option.splits)
    then have "j \<in> used_slots idx'" using k(1) index_find_Some [OF j] by (auto simp: slots)
    then show "\<exists>j \<in> used_slots idx'. ie_key (idx' ! j) = k \<and> v = (ie_type (idx' ! j), entry_val b (idx' ! j))"
      using k(2) j index_find_Some [OF j] same by (auto simp: kv_map_def)
  next
    fix j assume j: "j \<in> used_slots idx'"
    then have "ie_key (idx ! j) \<noteq> ie_key (idx ! i)" using ok i unfolding slots index_ok_def by auto
    then show "((kv_map b idx)(ie_key (idx ! i) := None)) (ie_key (idx' ! j)) \<noteq> None"
      using j kv_map_slot [OF ok, of j] same [OF j] by (auto simp: slots)
  qed
  ultimately show ?thesis by blast
qed

lemma index_ok_put:
  assumes ok: "index_ok b idx hi" and i: "slot_for idx (ie_key e) = Some i"
    and e: "in_use e" "entry_held b e" "hi \<le> entry_start e" "entry_stop e \<le> hi'"
  shows "index_ok b (idx[i := e]) hi' \<and>
    kv_map b (idx[i := e]) = (kv_map b idx)(ie_key e \<mapsto> (ie_type e, entry_val b e))"
proof -
  let ?idx = "idx[i := e]"
  have i': "i < length idx \<and> (\<forall>j \<in> used_slots idx. j \<noteq> i \<longrightarrow> ie_key (idx ! j) \<noteq> ie_key e)"
  proof (cases "index_find idx (ie_key e)")
    case None
    then have "index_alloc idx = Some i" using i by (simp add: slot_for_def)
    then show ?thesis using index_alloc_Some None [unfolded index_find_None] by blast
  next
    case (Some l)
    then have "l = i" using i by (simp add: slot_for_def)
    then show ?thesis
      using index_find_Some [OF Some] index_ok_inj [OF ok] by (fastforce simp: used_slots_def)
  qed
  note key_other = i' [THEN conjunct2, rule_format]
  have slots: "used_slots ?idx = insert i (used_slots idx)" using i' e(1) by (simp add: used_slots_put)
  have same: "?idx ! j = (if j = i then e else idx ! j)" if "j \<in> used_slots ?idx" for j
    using that i' by auto
  have hi: "hi \<le> hi'" using e(2-4) by (simp add: entry_start_def entry_stop_def)
  have ok': "index_ok b ?idx hi'"
    unfolding index_ok_def
  proof (intro conjI ballI impI)
    show "length ?idx = KV_MAX_KEYS" using ok by (simp add: index_ok_def)
    fix j assume j: "j \<in> used_slots ?idx"
    show "entry_held b (?idx ! j)" "entry_stop (?idx ! j) \<le> hi'"
      using ok e hi j unfolding same [OF j] index_ok_def by (auto simp: slots)
    fix l assume l: "l \<in> used_slots ?idx" "j \<noteq> l"
    show "ie_key (?idx ! j) \<noteq> ie_key (?idx ! l)"
      using ok i' j l unfolding same [OF j] same [OF l(1)] index_ok_def slots by auto
    show "entry_stop (?idx ! j) \<le> entry_start (?idx ! l) \<or> entry_stop (?idx ! l) \<le> entry_start (?idx ! j)"
      using ok e j l unfolding same [OF j] same [OF l(1)] index_ok_def slots by (auto intro: order_trans)
  qed
  moreover have "kv_map b ?idx = (kv_map b idx)(ie_key e \<mapsto> (ie_type e, entry_val b e))"
  proof (rule kv_map_eqI [OF ok'])
    fix k v assume v: "((kv_map b idx)(ie_key e \<mapsto> (ie_type e, entry_val b e))) k = Some v"
    show "\<exists>j \<in> used_slots ?idx. ie_key (?idx ! j) = k \<and> v = (ie_type (?idx ! j), entry_val b (?idx ! j))"
    proof (cases "k = ie_key e")
      case True
      then show ?thesis using v i' slots by (intro bexI [of _ i]) auto
    next
      case False
      then obtain j where j: "index_find idx k = Some j" using v by (auto simp: kv_map_def split: option.splits)
      have "j \<noteq> i" using i j False index_find_Some [OF j]
        by (auto simp: slot_for_def split: option.splits dest: index_find_Some index_alloc_Some)
      then show ?thesis
        using v False j index_find_Some [OF j] slots by (intro bexI [of _ j]) (auto simp: kv_map_def)
    qed
  next
    fix j assume j: "j \<in> used_slots ?idx"
    show "((kv_map b idx)(ie_key e \<mapsto> (ie_type e, entry_val b e))) (ie_key (?idx ! j)) \<noteq> None"
      using j kv_map_slot [OF ok, of j] i' by (cases "j = i") (auto simp: slots)
  qed
  ultimately show ?thesis by blast
qed

text \<open>The map only depends on the bytes below the position, and on the entries.\<close>

lemma entry_val_cong:
  assumes "entry_stop e \<le> hi" "take hi b' = take hi b"
  shows "entry_val b' e = entry_val b e"
proof -
  have "entry_val c e = entry_val (take hi c) e" for c
    using assms(1) by (simp add: entry_val_def entry_stop_def subarr_def drop_take min_def)
  then show ?thesis using assms(2) by metis
qed

lemma entry_held_stop:
  assumes "entry_held b e"
  shows "entry_start e + length (enc (entry_rec b e)) = entry_stop e"
  using assms by (simp add: entry_held_def entry_rec_def entry_start_def entry_stop_def)

lemma entry_held_cong:
  assumes "entry_held b e" "entry_stop e \<le> hi" "take hi b' = take hi b"
  shows "entry_held b' e"
  using assms entry_val_cong [OF assms(2,3)] entry_held_stop [OF assms(1)]
    held_cong [of b "entry_start e" "enc (entry_rec b e)" hi b']
  by (auto simp: entry_held_def entry_rec_def)

lemma index_ok_cong:
  assumes "index_ok b idx hi" "take hi b' = take hi b"
  shows "index_ok b' idx hi" "kv_map b' idx = kv_map b idx"
proof -
  show "index_ok b' idx hi"
    using assms entry_held_cong unfolding index_ok_def by blast
  show "kv_map b' idx = kv_map b idx"
  proof
    fix k
    show "kv_map b' idx k = kv_map b idx k"
    proof (cases "index_find idx k")
      case (Some i)
      then have "entry_stop (idx ! i) \<le> hi" using assms(1) index_find_Some [OF Some] by (auto simp: index_ok_def)
      then show ?thesis using Some entry_val_cong [OF _ assms(2)] by (simp add: kv_map_def)
    qed (simp add: kv_map_def)
  qed
qed

lemma index_ok_mono: "index_ok b idx hi \<Longrightarrow> hi \<le> hi' \<Longrightarrow> index_ok b idx hi'"
  by (auto simp: index_ok_def)

lemma index_ok_empty [simp]:
  "index_ok b (replicate KV_MAX_KEYS empty_entry) hi"
  "kv_map b (replicate KV_MAX_KEYS empty_entry) = Map.empty"
proof -
  have none: "used_slots (replicate KV_MAX_KEYS empty_entry) = {}"
    by (auto simp: used_slots_def empty_entry_def)
  show "index_ok b (replicate KV_MAX_KEYS empty_entry) hi" by (simp add: index_ok_def none)
  have "index_find (replicate KV_MAX_KEYS empty_entry) k = None" for k
    by (simp add: index_find_None none)
  then show "kv_map b (replicate KV_MAX_KEYS empty_entry) = Map.empty"
    by (simp add: kv_map_def fun_eq_iff)
qed

text \<open>A key has a place when the map with it is not too large.\<close>

lemma slot_for_exists:
  assumes ok: "index_ok b idx hi" and room: "card (dom ((kv_map b idx)(k \<mapsto> v))) \<le> KV_MAX_KEYS"
  shows "\<exists>i. slot_for idx k = Some i"
proof (cases "index_find idx k")
  case None
  have "index_alloc idx \<noteq> None"
  proof
    assume "index_alloc idx = None"
    then have "card (used_slots idx) = KV_MAX_KEYS" using ok by (simp add: index_alloc_None index_ok_def)
    moreover have "k \<notin> dom (kv_map b idx)" "finite (dom (kv_map b idx))"
      using None [unfolded index_find_None] by (auto simp: dom_kv_map)
    ultimately show False using room card_dom_kv_map [OF ok] by simp
  qed
  then show ?thesis using None by (auto simp: slot_for_def)
qed (simp add: slot_for_def)

end
