(* ===== verification/Kv_Log.thy ===== *)
theory Kv_Log
  imports Kv_Index
begin

text \<open>
  Reading a bank back: the body and the log as lists of records. \<open>bank_holds\<close> describes a
  bank by what it says, the lemmas show that validation, replay and the walk over the log
  read exactly that, that a batch appended to the log is read back, and that a batch cut
  short anywhere is not.
\<close>

section \<open>Sequences of records\<close>

definition encs :: "kv_record list \<Rightarrow> bytes" where
  "encs rs = concat (map enc rs)"

lemma encs_simps [simp]: "encs [] = []" "encs (r # rs) = enc r @ encs rs"
  by (simp_all add: encs_def)

lemma encs_append [simp]: "encs (rs @ qs) = encs rs @ encs qs"
  by (simp add: encs_def)

definition rec_len :: "kv_record \<Rightarrow> nat" where
  "rec_len r = length (enc r)"

lemma record_size_rec:
  "record_ok commit x \<Longrightarrow> record_size (unat (rh_len (rec_hdr x))) = length (enc x)"
  by (cases x) (simp add: record_size_eq record_ok_def unat_of_nat_less)

lemma length_enc_pos [simp]: "0 < length (enc x)"
  by simp

lemma length_encs_ge: "length rs \<le> length (encs rs)"
proof (induction rs)
  case (Cons r rs)
  have "1 \<le> length (enc r)" by (simp add: Suc_leI)
  then show ?case using Cons by simp
qed simp

lemma body_loop_encs:
  assumes "\<forall>r \<in> set rs. record_ok False r" "held b off (encs rs)"
  shows "body_loop b (off + length (encs rs)) off n = Some (off + length (encs rs), n + of_nat (length rs))"
  using assms
proof (induction rs arbitrary: off n)
  case Nil
  show ?case by (subst body_loop.simps) simp
next
  case (Cons r rs)
  let ?stop = "off + length (encs (r # rs))"
  have held: "held b off (enc r)" "held b (off + length (enc r)) (encs rs)" "?stop \<le> length b"
    using Cons.prems(2) by (simp_all add: held_append) (simp add: held_def)
  have "record_valid b off ?stop False = Some (rec_hdr r)"
    using Cons.prems(1) held by (intro iffD2 [OF record_valid_held] exI [of _ r]) auto
  then have "body_loop b ?stop off n = body_loop b ?stop (off + length (enc r)) (n + 1)"
    using Cons.prems(1) record_size_rec [of False r] by (subst body_loop.simps) simp
  also have "\<dots> = Some (?stop, n + 1 + of_nat (length rs))"
    using Cons.IH [of "off + length (enc r)" "n + 1"] Cons.prems(1) held(2) by (simp add: add.assoc)
  finally show ?case by (simp add: add.assoc)
qed

text \<open>Conversely, a body that passes the loop is a sequence of records.\<close>

lemma body_loop_Some:
  assumes "body_loop b used off n = Some (stop, m)" "used \<le> length b" "off \<le> used"
  shows "\<exists>rs. (\<forall>r \<in> set rs. record_ok False r) \<and> held b off (encs rs) \<and> stop = off + length (encs rs) \<and> stop = used"
  using assms
proof (induction b used off n rule: body_loop.induct)
  case (1 b used off n)
  show ?case
  proof (cases "off < used")
    case True
    then obtain r where r: "record_valid b off used False = Some r"
      "body_loop b used (off + record_size (unat (rh_len r))) (n + 1) = Some (stop, m)"
      using 1(2) by (subst (asm) body_loop.simps) (auto split: option.splits)
    then obtain x where x: "r = rec_hdr x" "record_ok False x" "off + length (enc x) \<le> used" "held b off (enc x)"
      using record_valid_held [OF 1(3)] by blast
    then have "\<exists>rs. (\<forall>r \<in> set rs. record_ok False r) \<and> held b (off + length (enc x)) (encs rs) \<and>
        stop = off + length (enc x) + length (encs rs) \<and> stop = used"
      using 1(1) [OF True r(1)] r(2) 1(3) by (simp add: record_size_rec)
    then obtain rs where "\<forall>r \<in> set rs. record_ok False r" "held b (off + length (enc x)) (encs rs)"
        "stop = off + length (enc x) + length (encs rs)" "stop = used" by blast
    then show ?thesis using x by (intro exI [of _ "x # rs"]) (simp add: held_append add.assoc)
  next
    case False
    then have "stop = off" "off = used" using 1(2,4) by (subst (asm) body_loop.simps, simp)+
    then show ?thesis using 1(3) by (intro exI [of _ "[]"]) (simp add: held_def)
  qed
qed

section \<open>Replaying records into the index\<close>

lemma index_apply_step:
  assumes ok: "index_ok (bank s) (kv_index s) off" and off: "KV_PUBLISH_SIZE \<le> off"
    and r: "record_ok False r" "held (bank s) off (enc r)"
    and room: "card (dom (rec_apply r (kv_map (bank s) (kv_index s)))) \<le> KV_MAX_KEYS"
    and stop: "off < stop"
  shows "\<exists>idx n. index_apply_range s off stop =
      index_apply_range (s\<lparr>kv_index := idx, next_seq := n\<rparr>) (off + length (enc r)) stop \<and>
    index_ok (bank s) idx (off + length (enc r)) \<and>
    kv_map (bank s) idx = rec_apply r (kv_map (bank s) (kv_index s))"
proof -
  obtain k t d n where x: "r = (k, t, d, n)" by (cases r)
  have "drop off (bank s) = enc r @ drop (off + length (enc r)) (bank s)"
    using r(2) drop_subarr [of off "bank s" "length (enc r)"] by (simp add: held_def)
  then have hdr: "decode_record_header (drop off (bank s)) = rec_hdr r" by (simp add: enc_def)
  have len: "unat (rh_len (rec_hdr r)) = length d" using r(1) by (simp add: x record_ok_def unat_of_nat_less)
  have fields: "rh_key (rec_hdr r) = k" "rh_type (rec_hdr r) = t" "rh_seq (rec_hdr r) = n" by (simp_all add: x)
  have stopr: "off + record_size (length d) = off + length (enc r)" by (simp add: x record_size_eq)
  show ?thesis
  proof (cases "t = KV_REC_TYPE_DELETE")
    case True
    show ?thesis
    proof (cases "index_find (kv_index s) k")
      case None
      have "index_apply_range s off stop =
          index_apply_range (s\<lparr>kv_index := kv_index s, next_seq := n + 1\<rparr>) (off + length (enc r)) stop"
        using stop True None
        by (subst index_apply_range.simps) (simp add: hdr Let_def fields len stopr)
      moreover have "kv_map (bank s) (kv_index s) = rec_apply r (kv_map (bank s) (kv_index s))"
        using None True by (simp add: x rec_apply_def fun_eq_iff kv_map_def)
      ultimately show ?thesis
        using index_ok_mono [OF ok, of "off + length (enc r)"] by (metis le_add1)
    next
      case (Some i)
      let ?idx = "(kv_index s)[i := (kv_index s ! i)\<lparr>in_use := False\<rparr>]"
      have "index_apply_range s off stop =
          index_apply_range (s\<lparr>kv_index := ?idx, next_seq := n + 1\<rparr>) (off + length (enc r)) stop"
        using stop True Some
        by (subst index_apply_range.simps) (simp add: hdr Let_def fields len stopr)
      moreover have "index_ok (bank s) ?idx off \<and> kv_map (bank s) ?idx = (kv_map (bank s) (kv_index s))(k := None)"
        using index_ok_free [OF ok] index_find_Some [OF Some] by auto
      moreover have "(kv_map (bank s) (kv_index s))(k := None) = rec_apply r (kv_map (bank s) (kv_index s))"
        using True by (simp add: x rec_apply_def)
      ultimately show ?thesis
        using index_ok_mono [of "bank s" ?idx off "off + length (enc r)"] by (metis le_add1)
    qed
  next
    case False
    then have apply_eq: "rec_apply r (kv_map (bank s) (kv_index s)) = (kv_map (bank s) (kv_index s))(k \<mapsto> (t, d))"
      by (simp add: x rec_apply_def)
    then obtain i where i: "slot_for (kv_index s) k = Some i"
      using slot_for_exists [OF ok, of k "(t, d)"] room by auto
    let ?e = "\<lparr>in_use = True, ie_key = k, ie_type = t, ie_len = length d, payload_offset = off + 16, ie_seq = n\<rparr>"
    have "index_apply_range s off stop =
        index_apply_range (s\<lparr>kv_index := (kv_index s)[i := ?e], next_seq := n + 1\<rparr>) (off + length (enc r)) stop"
      using stop False i
      by (subst index_apply_range.simps) (simp add: hdr Let_def fields len stopr KV_REC_HDR_SIZE_def)
    moreover have val: "entry_val (bank s) ?e = d"
      using r(2) unfolding enc_def x held_append by (simp add: entry_val_def held_def)
    then have "entry_held (bank s) ?e"
      using off r False val by (simp add: entry_held_def entry_rec_def entry_start_def x)
    then have "index_ok (bank s) ((kv_index s)[i := ?e]) (off + length (enc r)) \<and>
        kv_map (bank s) ((kv_index s)[i := ?e]) = (kv_map (bank s) (kv_index s))(k \<mapsto> (t, d))"
      using index_ok_put [OF ok, of ?e i "off + length (enc r)"] i val
      by (simp add: entry_start_def entry_stop_def x)
    ultimately show ?thesis unfolding apply_eq by blast
  qed
qed

lemma index_apply_encs:
  assumes "index_ok (bank s) (kv_index s) off" "KV_PUBLISH_SIZE \<le> off"
    and "\<forall>r \<in> set rs. record_ok False r" "held (bank s) off (encs rs)"
    and "roomy rs (kv_map (bank s) (kv_index s))"
  shows "\<exists>idx n. index_apply_range s off (off + length (encs rs)) = (s\<lparr>kv_index := idx, next_seq := n\<rparr>, HAL_OK) \<and>
    index_ok (bank s) idx (off + length (encs rs)) \<and>
    kv_map (bank s) idx = replay rs (kv_map (bank s) (kv_index s))"
  using assms
proof (induction rs arbitrary: s off)
  case Nil
  have "index_apply_range s off (off + length (encs [])) = (s\<lparr>kv_index := kv_index s, next_seq := next_seq s\<rparr>, HAL_OK)"
    by (subst index_apply_range.simps) simp
  then show ?case using Nil.prems(1) by (metis Nil_is_append_conv add_0_right encs_simps(1) list.size(3) replay_simps(1))
next
  case (Cons r rs)
  let ?stop = "off + length (encs (r # rs))"
  have held: "held (bank s) off (enc r)" "held (bank s) (off + length (enc r)) (encs rs)"
    using Cons.prems(4) by (simp_all add: held_append)
  have r: "record_ok False r" "card (dom (rec_apply r (kv_map (bank s) (kv_index s)))) \<le> KV_MAX_KEYS"
    "off < ?stop"
    using Cons.prems(3,5) by simp_all
  obtain idx n where step: "index_apply_range s off ?stop =
      index_apply_range (s\<lparr>kv_index := idx, next_seq := n\<rparr>) (off + length (enc r)) ?stop"
    "index_ok (bank s) idx (off + length (enc r))"
    "kv_map (bank s) idx = rec_apply r (kv_map (bank s) (kv_index s))"
    using index_apply_step [OF Cons.prems(1,2) r(1) held(1) r(2,3)] by blast
  obtain idx' n' where rest: "index_apply_range (s\<lparr>kv_index := idx, next_seq := n\<rparr>) (off + length (enc r)) ?stop =
      (s\<lparr>kv_index := idx', next_seq := n'\<rparr>, HAL_OK)" "index_ok (bank s) idx' ?stop"
    "kv_map (bank s) idx' = replay rs (kv_map (bank s) idx)"
    using Cons.IH [of "s\<lparr>kv_index := idx, next_seq := n\<rparr>" "off + length (enc r)"] step(2,3) Cons.prems held(2)
    by (auto simp: add.assoc)
  show ?case
    using step rest by (intro exI [of _ idx'] exI [of _ n']) simp
qed


section \<open>The log\<close>

definition align :: "nat \<Rightarrow> nat \<Rightarrow> nat" where
  "align a v = (v + a - 1) div a * a"

lemma align_up_eq: "align_up s v = align (kv_append_size s) v"
  by (simp add: align_up_def align_def)

lemma align_ge: "0 < a \<Longrightarrow> v \<le> align a v"
proof -
  assume a: "0 < a"
  have "v + a - 1 < (v + a - 1) div a * a + a"
    using a by (metis add.commute div_mult_mod_eq mod_less_divisor nat_add_left_cancel_less)
  then show ?thesis using a unfolding align_def by linarith
qed

lemma align_le:
  assumes "0 < a" "a dvd m" "v \<le> m"
  shows "align a v \<le> m"
proof -
  obtain q where q: "m = a * q" using assms(2) by (elim dvdE)
  have "v + a - 1 < a * (q + 1)" using assms(1,3) q by simp
  then have "(v + a - 1) div a < q + 1" using assms(1) by (simp add: less_mult_imp_div_less mult.commute)
  then show ?thesis using q by (simp add: align_def mult.commute)
qed

lemma align_dvd [simp]: "a dvd align a v"
  by (simp add: align_def)

lemma align_id: "0 < a \<Longrightarrow> a dvd v \<Longrightarrow> align a v = v"
  using align_le [of a v v] align_ge [of a v] by simp

definition commit_rec :: "nat \<Rightarrow> kv_record list \<Rightarrow> u32 \<Rightarrow> kv_record" where
  "commit_rec batch rs n = (0, KV_REC_TYPE_COMMIT, le16 (of_nat batch) @ le16 (crc16 (encs rs)), n)"

definition batch_bytes :: "nat \<Rightarrow> kv_record list \<Rightarrow> u32 \<Rightarrow> bytes" where
  "batch_bytes batch rs n = encs rs @ enc (commit_rec batch rs n)"

text \<open>
  \<open>chain a b c p batches c' q\<close>: from position \<open>p\<close> the bank holds these committed batches; the log
  before ended at \<open>c\<close>, it now ends at \<open>c'\<close>, and the next batch would start at \<open>q\<close>.
\<close>

fun chain :: "nat \<Rightarrow> bytes \<Rightarrow> nat \<Rightarrow> nat \<Rightarrow> (kv_record list \<times> u32) list \<Rightarrow> nat \<Rightarrow> nat \<Rightarrow> bool" where
  "chain a b c p [] c' q \<longleftrightarrow> c' = c \<and> q = p"
| "chain a b c p ((rs, n) # batches) c' q \<longleftrightarrow>
     rs \<noteq> [] \<and> (\<forall>r \<in> set rs. record_ok False r) \<and> held b p (batch_bytes p rs n) \<and>
     (let after = p + length (batch_bytes p rs n) in chain a b after (align a after) batches c' q)"

definition log_records :: "(kv_record list \<times> u32) list \<Rightarrow> kv_record list" where
  "log_records batches = concat (map fst batches)"

lemma log_records_simps [simp]:
  "log_records [] = []" "log_records ((rs, n) # batches) = rs @ log_records batches"
  by (simp_all add: log_records_def)

lemma commit_rec_ok: "record_ok True (commit_rec batch rs n)"
  by (simp add: commit_rec_def record_ok_def KV_COMMIT_LEN_def)

lemma length_commit_rec [simp]: "length (enc (commit_rec batch rs n)) = 22"
  by (simp add: commit_rec_def)

lemma length_batch_bytes: "length (batch_bytes batch rs n) = length (encs rs) + 22"
  by (simp add: batch_bytes_def)

lemma record_ok_not_commit: "record_ok False r \<Longrightarrow> rh_type (rec_hdr r) \<noteq> KV_REC_TYPE_COMMIT"
  by (cases r) (auto simp: record_ok_def record_type_valid_def KV_REC_TYPE_U32_def KV_REC_TYPE_BLOB_def
      KV_REC_TYPE_DELETE_def KV_REC_TYPE_COMMIT_def split: if_splits)

lemma record_ok_mono: "record_ok False r \<Longrightarrow> record_ok commit r"
  by (cases r) (auto simp: record_ok_def)

lemma chain_append:
  "chain a b c p (xs @ ys) c' q \<longleftrightarrow> (\<exists>c1 p1. chain a b c p xs c1 p1 \<and> chain a b c1 p1 ys c' q)"
proof (induction xs arbitrary: c p)
  case (Cons x xs)
  obtain rs n where "x = (rs, n)" by (cases x)
  then show ?case by (auto simp: Let_def Cons.IH)
qed simp

lemma chain_bounds:
  assumes "chain a b c p batches c' q" "0 < a" "c \<le> p"
  shows "p \<le> q \<and> c' \<le> q \<and> c \<le> c' \<and> length (log_records batches) + length batches \<le> q - p"
  using assms
proof (induction batches arbitrary: c p)
  case (Cons x batches)
  obtain rs n where x: "x = (rs, n)" by (cases x)
  let ?after = "p + length (batch_bytes p rs n)"
  have "?after \<le> align a ?after" using Cons.prems(2) by (rule align_ge)
  moreover have "align a ?after \<le> q \<and> c' \<le> q \<and> ?after \<le> c' \<and>
      length (log_records batches) + length batches \<le> q - align a ?after"
    using Cons.IH [OF _ Cons.prems(2) \<open>?after \<le> align a ?after\<close>] Cons.prems(1) by (simp add: x Let_def)
  moreover have "length rs \<le> length (encs rs)" by (rule length_encs_ge)
  ultimately show ?case using Cons.prems(3) unfolding x length_batch_bytes by (simp; arith)
qed auto

lemma chain_aligned: "chain a b c p batches c' q \<Longrightarrow> a dvd p \<Longrightarrow> a dvd q"
  by (induction batches arbitrary: c p) (auto simp: Let_def)

lemma chain_cong:
  assumes "chain a b c p batches c' q" "take n b' = take n b" "q \<le> n" "0 < a" "c \<le> p"
  shows "chain a b' c p batches c' q"
  using assms
proof (induction batches arbitrary: c p)
  case (Cons x batches)
  obtain rs n' where x: "x = (rs, n')" by (cases x)
  let ?after = "p + length (batch_bytes p rs n')"
  have le: "?after \<le> align a ?after" using Cons.prems(4) by (rule align_ge)
  have rest: "chain a b ?after (align a ?after) batches c' q" using Cons.prems(1) by (simp add: x Let_def)
  then have "align a ?after \<le> q" using chain_bounds [OF rest Cons.prems(4) le] by simp
  then have "held b' p (batch_bytes p rs n')"
    using Cons.prems(1-3) le held_cong [of b p "batch_bytes p rs n'" n b'] by (simp add: x)
  then show ?case
    using Cons.IH [OF rest Cons.prems(2-4) le] Cons.prems(1) by (simp add: x Let_def)
qed simp

section \<open>The walk over the log\<close>

lemma bytes_erased_nth: "bytes_erased b off n \<Longrightarrow> i < n \<Longrightarrow> off + i < length b \<Longrightarrow> b ! (off + i) = 0xFF"
  by (auto simp: bytes_erased_def list_all_length subarr_def)

lemma bytes_erased_held:
  assumes "held b off (enc r)" "off + length (enc r) \<le> size_of_bank"
  shows "\<not> bytes_erased b off (size_of_bank - off)"
proof
  assume erased: "bytes_erased b off (size_of_bank - off)"
  have pos: "0 < length (enc r)" by (rule length_enc_pos)
  then have "off < size_of_bank" "off < length b" using assms unfolding held_def by linarith+
  then have "b ! off = 0xFF" using bytes_erased_nth [OF erased, of 0] by simp
  moreover have "b ! off = 0x5A"
    using held_nth [OF assms(1), of 0] enc_head [of r] by (metis add.right_neutral length_enc_pos nth_Cons_0)
  ultimately show False by simp
qed

lemma scan_records:
  assumes "\<forall>r \<in> set rs. record_ok False r" "held (bank s) off (encs rs)"
    and "off + length (encs rs) \<le> bank_size s" "bank_size s \<le> length (bank s)" "batch < bank_size s"
  shows "scan_log_loop (length rs + fuel) s batch off committed =
    scan_log_loop fuel s batch (off + length (encs rs)) committed"
  using assms
proof (induction rs arbitrary: off)
  case (Cons r rs)
  have held: "held (bank s) off (enc r)" "held (bank s) (off + length (enc r)) (encs rs)"
    using Cons.prems(2) by (simp_all add: held_append)
  have valid: "record_valid (bank s) off (bank_size s) True = Some (rec_hdr r)"
    using Cons.prems held by (intro iffD2 [OF record_valid_held] exI [of _ r]) (auto intro: record_ok_mono)
  have "scan_log_loop (Suc (length rs + fuel)) s batch off committed =
      scan_log_loop (length rs + fuel) s batch (off + length (enc r)) committed"
    using Cons.prems held valid bytes_erased_held [OF held(1), of "bank_size s"]
      record_ok_not_commit [of r] record_size_rec [of False r]
    by (simp add: Let_def)
  then show ?case
    using Cons.IH [of "off + length (enc r)"] Cons.prems held(2) by (simp add: add.assoc)
qed simp

lemma scan_batch:
  assumes ok: "index_ok (bank s) (kv_index s) batch" and batch: "KV_PUBLISH_SIZE \<le> batch"
    and rs: "rs \<noteq> []" "\<forall>r \<in> set rs. record_ok False r" "held (bank s) batch (batch_bytes batch rs n)"
    and room: "roomy rs (kv_map (bank s) (kv_index s))"
    and fits: "batch + length (batch_bytes batch rs n) \<le> bank_size s"
      "bank_size s \<le> length (bank s)" "bank_size s < 65536"
    and a: "0 < kv_append_size s" "kv_append_size s dvd bank_size s"
  defines "after \<equiv> batch + length (batch_bytes batch rs n)"
  shows "\<exists>idx m. (\<forall>fuel. scan_log_loop (length rs + 1 + fuel) s batch batch committed =
      scan_log_loop fuel (s\<lparr>kv_index := idx, next_seq := m\<rparr>)
        (align (kv_append_size s) after) (align (kv_append_size s) after) after) \<and>
    index_ok (bank s) idx (batch + length (encs rs)) \<and>
    kv_map (bank s) idx = replay rs (kv_map (bank s) (kv_index s))"
proof -
  let ?off = "batch + length (encs rs)" and ?c = "commit_rec batch rs n"
  have held: "held (bank s) batch (encs rs)" "held (bank s) ?off (enc ?c)"
    using rs(3) by (simp_all add: batch_bytes_def held_append)
  have len: "after = ?off + 22" by (simp add: after_def length_batch_bytes)
  have valid: "record_valid (bank s) ?off (bank_size s) True = Some (rec_hdr ?c)"
    using fits held len commit_rec_ok unfolding after_def
    by (intro iffD2 [OF record_valid_held] exI [of _ ?c]) auto
  have payload: "drop (?off + 16) (bank s) =
      le16 (of_nat batch) @ le16 (crc16 (encs rs)) @ le16 KV_REC_FOOTER @ drop (?off + 22) (bank s)"
  proof -
    have "drop ?off (bank s) = enc ?c @ drop (?off + 22) (bank s)"
      using held(2) drop_subarr [of ?off "bank s" 22] by (simp add: held_def)
    then have "drop 16 (drop ?off (bank s)) = drop 16 (enc ?c @ drop (?off + 22) (bank s))" by simp
    then show ?thesis by (simp add: enc_def commit_rec_def add.commute)
  qed
  have crc: "subarr batch (?off - batch) (bank s) = encs rs" using held(1) by (simp add: held_def)
  obtain idx m where applied: "index_apply_range s batch ?off = (s\<lparr>kv_index := idx, next_seq := m\<rparr>, HAL_OK)"
    "index_ok (bank s) idx ?off" "kv_map (bank s) idx = replay rs (kv_map (bank s) (kv_index s))"
    using index_apply_encs [OF ok batch rs(2) held(1) room] by blast
  have pos: "?off \<noteq> batch" using rs(1) by (cases rs) auto
  have bound: "batch < 65536" "batch < bank_size s" using fits by (auto simp: length_batch_bytes)
  have cast: "cast16 (align (kv_append_size s) (?off + 22)) = align (kv_append_size s) (?off + 22)"
    using align_le [OF a, of "?off + 22"] fits(1,3) len by (simp add: cast16_def after_def)
  have size: "record_size (unat (rh_len (rec_hdr ?c))) = 22"
    using record_size_rec [OF commit_rec_ok] by simp
  have kind_c: "rh_type (rec_hdr ?c) = KV_REC_TYPE_COMMIT" by (simp add: commit_rec_def)
  have "scan_log_loop (Suc fuel) s batch ?off committed =
      scan_log_loop fuel (s\<lparr>kv_index := idx, next_seq := m\<rparr>)
        (align (kv_append_size s) (?off + 22)) (align (kv_append_size s) (?off + 22)) (?off + 22)" for fuel
    using bound pos applied(1) valid payload crc cast size kind_c
      bytes_erased_held [OF held(2), of "bank_size s"] fits(1)
    by (simp add: Let_def KV_REC_HDR_SIZE_def unat_of_nat_less align_up_eq length_batch_bytes)
  moreover have "scan_log_loop (length rs + (1 + fuel)) s batch batch committed =
      scan_log_loop (1 + fuel) s batch ?off committed" for fuel
    using rs held(1) fits bound(2) by (intro scan_records) (auto simp: length_batch_bytes)
  ultimately show ?thesis using applied by (intro exI [of _ idx] exI [of _ m]) (simp add: len)
qed


lemma chain_end: "chain a b c p batches c' q \<Longrightarrow> p = align a c \<Longrightarrow> q = align a c'"
  by (induction batches arbitrary: c p) (auto simp: Let_def)

lemma scan_chain:
  assumes "chain (kv_append_size s) (bank s) c p batches c' q" "c \<le> p"
    and "index_ok (bank s) (kv_index s) c" "KV_PUBLISH_SIZE \<le> p"
    and "roomy (log_records batches) (kv_map (bank s) (kv_index s))"
    and "q \<le> bank_size s" "bank_size s \<le> length (bank s)" "bank_size s < 65536"
    and "0 < kv_append_size s" "kv_append_size s dvd bank_size s"
  shows "\<exists>idx m. (\<forall>fuel. scan_log_loop (length (log_records batches) + length batches + fuel) s p p c =
      scan_log_loop fuel (s\<lparr>kv_index := idx, next_seq := m\<rparr>) q q c') \<and>
    index_ok (bank s) idx c' \<and> kv_map (bank s) idx = replay (log_records batches) (kv_map (bank s) (kv_index s))"
  using assms
proof (induction batches arbitrary: s c p)
  case Nil
  have "s\<lparr>kv_index := kv_index s, next_seq := next_seq s\<rparr> = s" by simp
  then show ?case using Nil.prems by (metis add_0 chain.simps(1) list.size(3) log_records_simps(1) replay_simps(1))
next
  case (Cons x batches)
  obtain rs n where x: "x = (rs, n)" by (cases x)
  let ?after = "p + length (batch_bytes p rs n)" and ?M = "kv_map (bank s) (kv_index s)"
  have le: "?after \<le> align (kv_append_size s) ?after" using Cons.prems(9) by (rule align_ge)
  have rs: "rs \<noteq> []" "\<forall>r \<in> set rs. record_ok False r" "held (bank s) p (batch_bytes p rs n)"
    and rest: "chain (kv_append_size s) (bank s) ?after (align (kv_append_size s) ?after) batches c' q"
    using Cons.prems(1) by (simp_all add: x Let_def)
  have fits: "?after \<le> bank_size s"
    using chain_bounds [OF rest Cons.prems(9) le] Cons.prems(6) le by simp
  obtain idx m where batch: "\<And>fuel. scan_log_loop (length rs + 1 + fuel) s p p c =
      scan_log_loop fuel (s\<lparr>kv_index := idx, next_seq := m\<rparr>)
        (align (kv_append_size s) ?after) (align (kv_append_size s) ?after) ?after"
    "index_ok (bank s) idx (p + length (encs rs))" "kv_map (bank s) idx = replay rs ?M"
    using scan_batch [OF index_ok_mono [OF Cons.prems(3,2)] Cons.prems(4) rs _ fits Cons.prems(7-10), of c]
      Cons.prems(5) by (auto simp: x roomy_append)
  let ?s = "s\<lparr>kv_index := idx, next_seq := m\<rparr>"
  have "index_ok (bank s) idx ?after"
    using index_ok_mono [OF batch(2)] by (simp add: length_batch_bytes)
  moreover have "roomy (log_records batches) (kv_map (bank s) idx)"
    using Cons.prems(5) batch(3) by (simp add: x roomy_append)
  moreover have "KV_PUBLISH_SIZE \<le> align (kv_append_size s) ?after" using le Cons.prems(4) by linarith
  ultimately obtain idx' m' where tail: "\<And>fuel. scan_log_loop (length (log_records batches) + length batches + fuel) ?s
        (align (kv_append_size s) ?after) (align (kv_append_size s) ?after) ?after =
      scan_log_loop fuel (?s\<lparr>kv_index := idx', next_seq := m'\<rparr>) q q c'"
    "index_ok (bank s) idx' c'" "kv_map (bank s) idx' = replay (log_records batches) (kv_map (bank s) idx)"
    using Cons.IH [of ?s ?after "align (kv_append_size s) ?after"] rest le Cons.prems(6-10) by auto
  have "scan_log_loop (length (log_records (x # batches)) + length (x # batches) + fuel) s p p c =
      scan_log_loop fuel (s\<lparr>kv_index := idx', next_seq := m'\<rparr>) q q c'" for fuel
    using batch(1) [of "length (log_records batches) + length batches + fuel"] tail(1) [of fuel]
    by (simp add: x add.assoc)
  moreover have "kv_map (bank s) idx' = replay (log_records (x # batches)) ?M"
    using batch(3) tail(3) by (simp add: x replay_append)
  ultimately show ?case using tail(2) by blast
qed

text \<open>What may follow the last committed batch: a place where the walk stops.\<close>

inductive stuck :: "bytes \<Rightarrow> nat \<Rightarrow> nat \<Rightarrow> nat \<Rightarrow> bool \<Rightarrow> bool" for b size_of_bank batch where
  erased: "bytes_erased b off (size_of_bank - off) \<Longrightarrow> stuck b size_of_bank batch off (off \<noteq> batch)"
| invalid: "\<not> bytes_erased b off (size_of_bank - off) \<Longrightarrow> record_valid b off size_of_bank True = None \<Longrightarrow>
    stuck b size_of_bank batch off True"
| skip: "record_ok False r \<Longrightarrow> held b off (enc r) \<Longrightarrow> off + length (enc r) \<le> size_of_bank \<Longrightarrow>
    stuck b size_of_bank batch (off + length (enc r)) damaged \<Longrightarrow> stuck b size_of_bank batch off damaged"

definition log_ends :: "bool \<Rightarrow> bytes \<Rightarrow> nat \<Rightarrow> nat \<Rightarrow> bool" where
  "log_ends damaged b size_of_bank p \<longleftrightarrow> p \<ge> size_of_bank \<and> \<not> damaged \<or> stuck b size_of_bank p p damaged"

lemma scan_stuck:
  assumes "stuck b size_of_bank batch off damaged" "bank s = b" "bank_size s = size_of_bank"
    and "batch < size_of_bank" "size_of_bank \<le> length b"
  shows "scan_log_loop (size_of_bank - off + 1 + fuel) s batch off c = Some (s, c, damaged, HAL_OK)"
  using assms
proof (induction arbitrary: fuel rule: stuck.induct)
  case (skip r off damaged)
  have pos: "0 < length (enc r)" by (rule length_enc_pos)
  obtain extra where extra: "size_of_bank - off + 1 + fuel =
      1 + (size_of_bank - (off + length (enc r)) + 1 + extra)"
    using skip.hyps(3) pos by (intro that [of "length (enc r) - 1 + fuel"]) linarith
  have "scan_log_loop (length [r] + (size_of_bank - (off + length (enc r)) + 1 + extra)) s batch off c =
      scan_log_loop (size_of_bank - (off + length (enc r)) + 1 + extra) s batch (off + length (encs [r])) c"
    using skip by (intro scan_records) auto
  then show ?case using skip.IH [OF skip.prems, of extra] unfolding extra by simp
qed auto

lemma log_ends_scan:
  assumes "log_ends damaged (bank s) (bank_size s) p" "bank_size s \<le> length (bank s)"
  shows "scan_log_loop (bank_size s - p + 1 + fuel) s p p c = Some (s, c, damaged, HAL_OK)"
proof (cases "p < bank_size s")
  case True
  then show ?thesis
    using assms scan_stuck [of "bank s" "bank_size s" p p damaged s fuel c] by (simp add: log_ends_def)
next
  case False
  then have "\<not> damaged"
    using assms(1) by (auto simp: log_ends_def bytes_erased_def elim: stuck.cases)
  then show ?thesis using False by simp
qed

lemma log_ends_erased: "bytes_erased b p (size_of_bank - p) \<Longrightarrow> log_ends False b size_of_bank p"
  using stuck.erased [of b p size_of_bank p] by (simp add: log_ends_def)

lemma scan_log_locked_chain:
  assumes chain: "chain (kv_append_size s) (bank s) body_end (align (kv_append_size s) body_end) batches c' q"
    and ends: "log_ends damaged (bank s) (bank_size s) q"
    and ok: "index_ok (bank s) (kv_index s) body_end" and body: "KV_PUBLISH_SIZE \<le> body_end"
    and room: "roomy (log_records batches) (kv_map (bank s) (kv_index s))"
    and fits: "q \<le> bank_size s" "bank_size s \<le> length (bank s)" "bank_size s < 65536"
    and a: "0 < kv_append_size s" "kv_append_size s dvd bank_size s"
  shows "\<exists>idx m. scan_log_locked s body_end =
      Some (s\<lparr>kv_index := idx, next_seq := m, flash_end := q, used_offset := if damaged then c' else q,
        needs_publish := damaged\<rparr>, HAL_OK) \<and>
    index_ok (bank s) idx c' \<and> kv_map (bank s) idx = replay (log_records batches) (kv_map (bank s) (kv_index s))"
proof -
  let ?p = "align (kv_append_size s) body_end"
  have le: "body_end \<le> ?p" using a(1) by (rule align_ge)
  have bounds: "?p \<le> q" "c' \<le> q" "length (log_records batches) + length batches \<le> q - ?p"
    using chain_bounds [OF chain a(1) le] by auto
  have "KV_PUBLISH_SIZE \<le> ?p" using le body by linarith
  then obtain idx m where scan: "\<And>fuel. scan_log_loop (length (log_records batches) + length batches + fuel) s ?p ?p body_end =
      scan_log_loop fuel (s\<lparr>kv_index := idx, next_seq := m\<rparr>) q q c'"
    "index_ok (bank s) idx c'" "kv_map (bank s) idx = replay (log_records batches) (kv_map (bank s) (kv_index s))"
    using scan_chain [OF chain le ok _ room fits a] by blast
  define extra where "extra = bank_size s + 1 -
      (length (log_records batches) + length batches + (bank_size s - q + 1))"
  have extra: "bank_size s + 1 =
      length (log_records batches) + length batches + (bank_size s - q + 1 + extra)"
    using bounds fits(1) unfolding extra_def by linarith
  have "scan_log_loop (bank_size s + 1) s ?p ?p body_end = Some (s\<lparr>kv_index := idx, next_seq := m\<rparr>, c', damaged, HAL_OK)"
    unfolding extra scan(1)
    using ends fits(2) log_ends_scan [of damaged "s\<lparr>kv_index := idx, next_seq := m\<rparr>" q extra c'] by simp
  moreover have "cast16 (align_up s body_end) = ?p" "cast16 (align (kv_append_size s) c') = q"
    using bounds fits chain_end [OF chain refl] by (simp_all add: cast16_def align_up_eq)
  ultimately show ?thesis
    using scan(2,3) by (intro exI [of _ idx] exI [of _ m]) (simp add: scan_log_locked_def align_up_eq)
qed

section \<open>A batch cut short\<close>

text \<open>
  Of a record that begins at \<open>off\<close> only the first \<open>k\<close> bytes have been written and the rest of the
  bank is erased: there is no valid record.
\<close>

lemma torn_record_invalid:
  assumes x: "record_ok True x" and k: "k < length (enc x)"
    and written: "held b off (take k (enc x))"
    and erased: "\<And>i. off + k \<le> i \<Longrightarrow> i < size_of_bank \<Longrightarrow> b ! i = 0xFF"
    and size: "size_of_bank \<le> length b"
  shows "record_valid b off size_of_bank True = None"
proof (rule ccontr)
  assume "record_valid b off size_of_bank True \<noteq> None"
  then obtain y where y: "record_ok True y" "off + length (enc y) \<le> size_of_bank" "held b off (enc y)"
    using record_valid_held [OF size] by blast
  define last_pos where "last_pos = off + (length (enc y) - 1)"
  have "b ! last_pos = 0x5A"
    using held_nth [OF y(3), of "length (enc y) - 1"] enc_footer [of y]
    by (simp add: last_conv_nth last_pos_def)
  then have "\<not> off + k \<le> last_pos \<or> \<not> last_pos < size_of_bank" using erased [of last_pos] by auto
  then have short: "length (enc y) \<le> k"
    using y(2) length_enc_pos [of y] unfolding last_pos_def by linarith
  have "16 \<le> length (enc y)" by (cases y) simp
  then have "take 16 (enc y) = take 16 (enc x)"
  proof (intro nth_equalityI)
    fix i assume "i < length (take 16 (enc y))"
    then have i: "i < 16" "i < length (enc y)" "i < k" using short by auto
    then show "take 16 (enc y) ! i = take 16 (enc x) ! i"
      using held_nth [OF y(3) i(2)] held_nth [OF written, of i] k by simp
  qed (use short k in simp)
  then have "hdr_bytes (rec_hdr y) = hdr_bytes (rec_hdr x)" by (simp add: enc_def)
  then have "rec_hdr y = rec_hdr x" using decode_hdr_bytes [of _ "[]"] by metis
  then have "length (enc y) = length (enc x)"
    using record_size_rec [OF x] record_size_rec [OF y(1)] by simp
  then show False using short k by simp
qed


lemma stuck_torn:
  assumes "\<forall>r \<in> set rs. record_ok False r" "record_ok True x"
    and "k < length (encs rs @ enc x)" "off + length (encs rs @ enc x) \<le> size_of_bank"
    and "held b off (take k (encs rs @ enc x))"
    and "\<And>i. off + k \<le> i \<Longrightarrow> i < size_of_bank \<Longrightarrow> b ! i = 0xFF"
    and "size_of_bank \<le> length b"
  shows "\<exists>damaged. stuck b size_of_bank batch off damaged"
proof -
  have torn: "\<exists>damaged. stuck b size_of_bank batch off damaged"
    if "record_ok True y" "k < length (enc y)" "held b off (take k (enc y))"
      "\<And>i. off + k \<le> i \<Longrightarrow> i < size_of_bank \<Longrightarrow> b ! i = 0xFF" for y k off
    using torn_record_invalid [OF that assms(7)] stuck.erased stuck.invalid by blast
  show ?thesis
    using assms(1-6)
  proof (induction rs arbitrary: off k)
    case Nil
    then show ?case using torn [of x k off] by simp
  next
    case (Cons r rs)
    show ?case
    proof (cases "k < length (enc r)")
      case True
      then show ?thesis
        using torn [of r k off] Cons.prems(1,5,6) record_ok_mono [of r True] by simp
    next
      case False
      then have "held b off (enc r)" "held b (off + length (enc r)) (take (k - length (enc r)) (encs rs @ enc x))"
        using Cons.prems(5) by (simp_all add: held_append)
      moreover have "\<exists>damaged. stuck b size_of_bank batch (off + length (enc r)) damaged"
        using False Cons.prems calculation(2)
        by (intro Cons.IH [of "k - length (enc r)"]) (auto simp: add.assoc)
      ultimately show ?thesis using Cons.prems(1,4) stuck.skip [of r b off size_of_bank batch] by auto
    qed
  qed
qed

section \<open>What a bank says\<close>

lemma record_valid_cong:
  assumes "take limit b' = take limit b" "limit \<le> length b" "limit \<le> length b'"
  shows "record_valid b' off limit commit = record_valid b off limit commit"
proof -
  have "held b' off (enc x) \<longleftrightarrow> held b off (enc x)" if "off + length (enc x) \<le> limit" for x
    using held_cong [OF _ that, of b b'] held_cong [OF _ that, of b' b] assms(1) by auto
  then have "record_valid b' off limit commit = Some r \<longleftrightarrow> record_valid b off limit commit = Some r" for r
    unfolding record_valid_held [OF assms(2)] record_valid_held [OF assms(3)] by blast
  then show ?thesis by (metis option.exhaust)
qed

lemma subarr_cong:
  assumes "take n b' = take n b" "off + m \<le> n"
  shows "subarr off m b' = subarr off m b"
proof -
  have "subarr off m c = subarr off m (take n c)" for c :: "'a list"
    using assms(2) by (simp add: subarr_def drop_take min_def)
  then show ?thesis using assms(1) by metis
qed

lemma bytes_erased_cong:
  assumes "take n b' = take n b" "off + m \<le> n"
  shows "bytes_erased b' off m = bytes_erased b off m"
  by (simp add: bytes_erased_def subarr_cong [OF assms])

lemma stuck_cong:
  assumes "stuck b n batch off damaged" "take n b' = take n b" "n \<le> length b" "n \<le> length b'" "off \<le> n"
  shows "stuck b' n batch off damaged"
  using assms
proof (induction rule: stuck.induct)
  case (erased off)
  then have "bytes_erased b' off (n - off)" using bytes_erased_cong [of n b' b off "n - off"] by simp
  then show ?case by (rule stuck.erased)
next
  case (invalid off)
  then have "\<not> bytes_erased b' off (n - off)" using bytes_erased_cong [of n b' b off "n - off"] by simp
  then show ?case
    using record_valid_cong [of n b' b off True] invalid by (intro stuck.invalid) simp_all
next
  case (skip r off damaged)
  then have "held b' off (enc r)" using held_cong by blast
  then show ?case using skip by (intro stuck.skip [of r b' off n batch damaged]) simp_all
qed

lemma log_ends_cong:
  assumes "log_ends damaged b n p" "take n b' = take n b" "n \<le> length b" "n \<le> length b'"
  shows "log_ends damaged b' n p"
proof (cases "p \<le> n")
  case True
  then show ?thesis using assms stuck_cong [of b n p p damaged b'] by (auto simp: log_ends_def)
next
  case False
  then have "stuck c n p p False" for c using stuck.erased [of c p n p] by (simp add: bytes_erased_def)
  moreover have "\<not> damaged" using assms(1) False
    by (auto simp: log_ends_def bytes_erased_def elim: stuck.cases)
  ultimately show ?thesis by (simp add: log_ends_def)
qed

end
