(* ===== verification/Kv_Bank.thy ===== *)
theory Kv_Bank
  imports Kv_Log
begin

text \<open>
  A whole bank: its header, what it says (\<open>bank_holds\<close>), the image that compaction publishes,
  and an image of which only a part of the header reached the medium.
\<close>

section \<open>Bank headers\<close>

definition bh_bytes :: "kv_bank_hdr \<Rightarrow> bytes" where
  "bh_bytes h = le32 (bh_magic h) @ [bh_version h, bh_reserved h] @ le16 (bh_header_size h) @
     le32 (bh_generation h) @ le16 (bh_used_offset h) @ le16 (bh_bank_size h) @ le16 (bh_record_count h) @
     le16 (bh_body_crc h) @ le16 (bh_reserved2 h) @ le16 (bh_header_crc h)"

lemma length_bh_bytes [simp]: "length (bh_bytes h) = 24"
  by (simp add: bh_bytes_def)

lemma blit_pair: "off + 2 \<le> length b \<Longrightarrow> b[off := x, off + 1 := y] = blit b off [x, y]"
  by (intro nth_equalityI) (auto simp: nth_blit nth_list_update nth_Cons split: nat.splits)

lemma encode_bank_header:
  assumes "24 \<le> length raw"
  shows "encode_bank_header raw h = blit raw 0 (bh_bytes h)"
proof -
  have pair: "b[4 := x, 5 := y] = blit b 4 [x, y]" if "length b = length raw" for b :: bytes and x y
    using that assms blit_pair [of 4 b x y] by simp
  note step = blit_append [of 0, simplified]
  show ?thesis
    using assms step [of "le32 (bh_magic h)" "[bh_version h, bh_reserved h]" raw]
      step [of "le32 (bh_magic h) @ [bh_version h, bh_reserved h]" "le16 (bh_header_size h)" raw]
      step [of "le32 (bh_magic h) @ [bh_version h, bh_reserved h] @ le16 (bh_header_size h)"
        "le32 (bh_generation h)" raw]
      step [of "le32 (bh_magic h) @ [bh_version h, bh_reserved h] @ le16 (bh_header_size h) @
        le32 (bh_generation h)" "le16 (bh_used_offset h)" raw]
      step [of "le32 (bh_magic h) @ [bh_version h, bh_reserved h] @ le16 (bh_header_size h) @
        le32 (bh_generation h) @ le16 (bh_used_offset h)" "le16 (bh_bank_size h)" raw]
      step [of "le32 (bh_magic h) @ [bh_version h, bh_reserved h] @ le16 (bh_header_size h) @
        le32 (bh_generation h) @ le16 (bh_used_offset h) @ le16 (bh_bank_size h)" "le16 (bh_record_count h)" raw]
      step [of "le32 (bh_magic h) @ [bh_version h, bh_reserved h] @ le16 (bh_header_size h) @
        le32 (bh_generation h) @ le16 (bh_used_offset h) @ le16 (bh_bank_size h) @ le16 (bh_record_count h)"
        "le16 (bh_body_crc h)" raw]
      step [of "le32 (bh_magic h) @ [bh_version h, bh_reserved h] @ le16 (bh_header_size h) @
        le32 (bh_generation h) @ le16 (bh_used_offset h) @ le16 (bh_bank_size h) @ le16 (bh_record_count h) @
        le16 (bh_body_crc h)" "le16 (bh_reserved2 h)" raw]
      step [of "le32 (bh_magic h) @ [bh_version h, bh_reserved h] @ le16 (bh_header_size h) @
        le32 (bh_generation h) @ le16 (bh_used_offset h) @ le16 (bh_bank_size h) @ le16 (bh_record_count h) @
        le16 (bh_body_crc h) @ le16 (bh_reserved2 h)" "le16 (bh_header_crc h)" raw]
    by (simp add: encode_bank_header_def Let_def store_le16 store_le32 pair bh_bytes_def)
qed

lemma decode_bh_bytes [simp]: "decode_bank_header (bh_bytes h @ xs) = h"
  by (cases h) (simp add: decode_bank_header_def bh_bytes_def nth_append drop_Cons')

lemma nth_drop_cong:
  fixes b b' :: bytes
  assumes "take 24 b' = take 24 b" "k + i < 24"
  shows "drop k b' ! i = drop k b ! i"
proof -
  have "take 24 c ! (k + i) = c ! (k + i)" for c :: bytes using assms(2) by simp
  then have eq: "b' ! (k + i) = b ! (k + i)" using assms(1) by metis
  have len: "k \<le> length b' \<longleftrightarrow> k \<le> length b"
    using arg_cong [where f = length, OF assms(1)] assms(2) by (auto simp: min_def split: if_splits)
  show ?thesis using eq len by (cases "k \<le> length b") simp_all
qed

lemma decode_bank_header_cong:
  fixes b b' :: bytes
  assumes "take 24 b' = take 24 b"
  shows "decode_bank_header b' = decode_bank_header b"
  using nth_drop_cong [OF assms, of 0] nth_drop_cong [OF assms]
  by (simp add: decode_bank_header_def jh_load_le16_def jh_load_le32_def)

section \<open>Validation\<close>

lemma unat_eq_of_nat:
  fixes w :: "'a::len word"
  assumes "n < 2 ^ LENGTH('a)"
  shows "unat w = n \<longleftrightarrow> w = of_nat n"
proof
  assume "unat w = n"
  then have "of_nat n = (of_nat (unat w) :: 'a word)" by simp
  also have "\<dots> = w" by simp
  finally show "w = of_nat n" by simp
qed (use assms in \<open>simp add: unat_of_nat_less\<close>)

lemma validate_bank_header_eq:
  "validate_bank_header b n = Some h \<longleftrightarrow>
     h = decode_bank_header b \<and> bh_magic h = KV_BANK_MAGIC \<and>
     (bh_version h = KV_BANK_VERSION \<or> bh_version h = KV_BANK_VERSION_NO_LOG) \<and>
     bh_header_size h = of_nat KV_BANK_HDR_SIZE \<and> unat (bh_bank_size h) = n \<and>
     KV_PUBLISH_SIZE \<le> unat (bh_used_offset h) \<and> unat (bh_used_offset h) \<le> n \<and>
     bh_header_crc h = crc16 (take 22 (bh_bytes (h\<lparr>bh_header_crc := 0\<rparr>)))"
proof -
  have hs: "unat (bh_header_size h) = KV_BANK_HDR_SIZE \<longleftrightarrow> bh_header_size h = of_nat KV_BANK_HDR_SIZE" for h
    by (rule unat_eq_of_nat) (simp add: KV_BANK_HDR_SIZE_def)
  have crc: "take (KV_BANK_HDR_SIZE - 2) (encode_bank_header (replicate KV_BANK_HDR_SIZE 0) h') =
      take 22 (bh_bytes h')" for h'
    by (simp add: encode_bank_header KV_BANK_HDR_SIZE_def blit_def)
  have two_ifs: "(if P then None else if Q then None else Some d) = Some h \<longleftrightarrow> \<not> P \<and> \<not> Q \<and> h = d"
    for P Q and d :: kv_bank_hdr by auto
  show ?thesis
    unfolding validate_bank_header_def Let_def crc hs [symmetric] two_ifs de_Morgan_disj de_Morgan_conj
      not_not not_less
    by (intro iffI; clarify; simp)
qed

lemma body_loop_cong:
  assumes "take n b' = take n b" "used \<le> n" "n \<le> length b" "n \<le> length b'"
  shows "body_loop b' used off m = body_loop b used off m"
proof -
  have cut: "take used b' = take used b"
    using arg_cong [where f = "take used", OF assms(1)] assms(2) by (simp add: min_def)
  have "used \<le> length b" "used \<le> length b'" using assms(2-4) by linarith+
  note valid = record_valid_cong [OF cut this, of _ False]
  show ?thesis
  proof (induction "used - off" arbitrary: off m rule: less_induct)
    case less
    show ?case
    proof (cases "off < used")
      case True
      have "body_loop b' used (off + record_size k) (m + 1) = body_loop b used (off + record_size k) (m + 1)" for k
        using True by (intro less) (simp add: record_size_eq)
      then show ?thesis
        using True by (simp only: body_loop.simps [of b' used off m] body_loop.simps [of b used off m] valid if_True)
    next
      case False
      then show ?thesis by (simp only: body_loop.simps [of b' used off m] body_loop.simps [of b used off m] if_False)
    qed
  qed
qed

lemma validate_bank_buffer_cong:
  assumes "take n b' = take n b" "24 \<le> n" "n \<le> length b" "n \<le> length b'"
  shows "validate_bank_buffer b' n = validate_bank_buffer b n"
proof -
  have "take 24 b' = take 24 b"
    using arg_cong [where f = "take 24", OF assms(1)] assms(2) by (simp add: min_def)
  then have "validate_bank_header b' n = validate_bank_header b n"
    by (simp only: validate_bank_header_def decode_bank_header_cong [OF \<open>take 24 b' = take 24 b\<close>])
  moreover have "subarr KV_PUBLISH_SIZE (unat (bh_used_offset h) - KV_PUBLISH_SIZE) b' =
      subarr KV_PUBLISH_SIZE (unat (bh_used_offset h) - KV_PUBLISH_SIZE) b \<and>
      body_loop b' (unat (bh_used_offset h)) off m = body_loop b (unat (bh_used_offset h)) off m"
    if "validate_bank_header b n = Some h" for h off m
    using that subarr_cong [OF assms(1)] body_loop_cong [OF assms(1) _ assms(3,4)]
    by (auto simp: validate_bank_header_eq)
  ultimately show ?thesis
    by (auto simp: validate_bank_buffer_def Let_def split: option.splits)
qed

section \<open>What a bank says\<close>

definition bank_holds ::
  "nat \<Rightarrow> bytes \<Rightarrow> nat \<Rightarrow> kv_bank_meta \<Rightarrow> kv_contents \<Rightarrow> bool \<Rightarrow> nat \<Rightarrow> bool" where
  "bank_holds a b n m M damaged q \<longleftrightarrow>
     (\<exists>body batches c. validate_bank_buffer b n = Some m \<and>
        meta_used_offset m = KV_PUBLISH_SIZE + length (encs body) \<and>
        (\<forall>r \<in> set body. record_ok False r) \<and> held b KV_PUBLISH_SIZE (encs body) \<and>
        chain a b (meta_used_offset m) (align a (meta_used_offset m)) batches c q \<and>
        q \<le> n \<and> log_ends damaged b n q \<and>
        roomy (body @ log_records batches) Map.empty \<and> M = replay (body @ log_records batches) Map.empty)"

lemma bank_holds_valid: "bank_holds a b n m M damaged q \<Longrightarrow> validate_bank_buffer b n = Some m"
  by (auto simp: bank_holds_def)

lemma bank_holds_cong:
  assumes holds: "bank_holds a b n m M damaged q" and a: "0 < a" "24 \<le> n"
    and same: "take n b' = take n b" "n \<le> length b" "n \<le> length b'"
  shows "bank_holds a b' n m M damaged q"
proof -
  obtain body batches c where h: "validate_bank_buffer b n = Some m"
    "meta_used_offset m = KV_PUBLISH_SIZE + length (encs body)" "\<forall>r \<in> set body. record_ok False r"
    "held b KV_PUBLISH_SIZE (encs body)"
    "chain a b (meta_used_offset m) (align a (meta_used_offset m)) batches c q" "q \<le> n" "log_ends damaged b n q"
    "roomy (body @ log_records batches) Map.empty" "M = replay (body @ log_records batches) Map.empty"
    using holds by (auto simp: bank_holds_def)
  have le: "meta_used_offset m \<le> align a (meta_used_offset m)" using a(1) by (rule align_ge)
  then have "meta_used_offset m \<le> n" using chain_bounds [OF h(5) a(1)] h(6) by simp
  then have "held b' KV_PUBLISH_SIZE (encs body)" using held_cong [OF h(4) _ same(1)] h(2) by simp
  then show ?thesis
    unfolding bank_holds_def
    using h validate_bank_buffer_cong [OF same(1) a(2) same(2,3)] chain_cong [OF h(5) same(1) h(6) a(1) le]
      log_ends_cong [OF h(7) same]
    by (intro exI [of _ body] exI [of _ batches] exI [of _ c]) simp
qed

end
