(* ===== verification/Kv_Image.thy ===== *)
theory Kv_Image
  imports Kv_Bank
begin

text \<open>
  The two ways a bank gets new contents. Publishing replaces a whole bank by an image made of
  a header, records and erased space, and the header reaches the medium last; appending
  writes a batch behind the log. For both, the bank is described when the write completes and
  when it is cut short at any byte.
\<close>

section \<open>Images\<close>

definition bank_hdr :: "nat \<Rightarrow> u32 \<Rightarrow> kv_record list \<Rightarrow> kv_bank_hdr" where
  "bank_hdr n g body =
     (let h = \<lparr>bh_magic = KV_BANK_MAGIC, bh_version = KV_BANK_VERSION, bh_reserved = 0,
               bh_header_size = of_nat KV_BANK_HDR_SIZE, bh_generation = g,
               bh_used_offset = of_nat (KV_PUBLISH_SIZE + length (encs body)), bh_bank_size = of_nat n,
               bh_record_count = of_nat (length body), bh_body_crc = crc16 (encs body),
               bh_reserved2 = 0, bh_header_crc = 0\<rparr>
      in h\<lparr>bh_header_crc := crc16 (take 22 (bh_bytes h))\<rparr>)"

definition bank_front :: "nat \<Rightarrow> u32 \<Rightarrow> kv_record list \<Rightarrow> bytes" where
  "bank_front n g body = bh_bytes (bank_hdr n g body) @ replicate 232 0xFF"

definition bank_back :: "nat \<Rightarrow> kv_record list \<Rightarrow> bytes" where
  "bank_back n body = encs body @ replicate (n - (KV_PUBLISH_SIZE + length (encs body))) 0xFF"

definition bank_meta :: "u32 \<Rightarrow> kv_record list \<Rightarrow> kv_bank_meta" where
  "bank_meta g body = \<lparr>meta_generation = g, meta_used_offset = KV_PUBLISH_SIZE + length (encs body),
                       meta_record_count = of_nat (length body)\<rparr>"

lemma publish_256: "KV_PUBLISH_SIZE = 256"
  by (simp add: KV_PUBLISH_SIZE_def HAL_KV_PUBLISH_SIZE_def)

lemma length_bank_front [simp]: "length (bank_front n g body) = 256"
  by (simp add: bank_front_def)

lemma length_bank_back:
  "KV_PUBLISH_SIZE + length (encs body) \<le> n \<Longrightarrow> length (bank_back n body) = n - 256"
  by (simp add: bank_back_def publish_256)

lemma bank_hdr_simps [simp]:
  "bh_magic (bank_hdr n g body) = KV_BANK_MAGIC" "bh_version (bank_hdr n g body) = KV_BANK_VERSION"
  "bh_header_size (bank_hdr n g body) = of_nat KV_BANK_HDR_SIZE" "bh_generation (bank_hdr n g body) = g"
  "bh_used_offset (bank_hdr n g body) = of_nat (KV_PUBLISH_SIZE + length (encs body))"
  "bh_bank_size (bank_hdr n g body) = of_nat n" "bh_record_count (bank_hdr n g body) = of_nat (length body)"
  "bh_body_crc (bank_hdr n g body) = crc16 (encs body)"
  by (simp_all add: bank_hdr_def Let_def)

lemma unat_used:
  assumes "KV_PUBLISH_SIZE + m < 65536"
  shows "unat (of_nat KV_PUBLISH_SIZE + of_nat m :: u16) = KV_PUBLISH_SIZE + m"
  using assms by (simp add: unat_of_nat_less flip: of_nat_add)

lemma bank_hdr_crc:
  "bh_header_crc (bank_hdr n g body) = crc16 (take 22 (bh_bytes ((bank_hdr n g body)\<lparr>bh_header_crc := 0\<rparr>)))"
  by (simp add: bank_hdr_def Let_def)

section \<open>A bank that holds a body and no log\<close>

lemma bytes_erasedI:
  assumes "\<And>i. off \<le> i \<Longrightarrow> i < off + m \<Longrightarrow> i < length b \<Longrightarrow> b ! i = 0xFF"
  shows "bytes_erased b off m"
  using assms by (auto simp: bytes_erased_def list_all_length subarr_def)

lemma bank_holds_fresh:
  assumes valid: "validate_bank_buffer b n = Some m" "meta_used_offset m = KV_PUBLISH_SIZE + length (encs body)"
    and body: "\<forall>r \<in> set body. record_ok False r" "held b KV_PUBLISH_SIZE (encs body)" "roomy body Map.empty"
    and fits: "KV_PUBLISH_SIZE + length (encs body) \<le> n" "0 < a" "a dvd n"
    and erased: "\<And>i. KV_PUBLISH_SIZE + length (encs body) \<le> i \<Longrightarrow> i < n \<Longrightarrow> i < length b \<Longrightarrow> b ! i = 0xFF"
  shows "bank_holds a b n m (replay body Map.empty) False (align a (KV_PUBLISH_SIZE + length (encs body)))"
proof -
  let ?used = "KV_PUBLISH_SIZE + length (encs body)"
  have q: "?used \<le> align a ?used" "align a ?used \<le> n"
    using align_ge [OF fits(2)] align_le [OF fits(2,3,1)] by auto
  have "bytes_erased b (align a ?used) (n - align a ?used)"
  proof (rule bytes_erasedI)
    fix i assume "align a ?used \<le> i" "i < align a ?used + (n - align a ?used)" "i < length b"
    then show "b ! i = 0xFF" using q by (intro erased) linarith+
  qed
  then have ends: "log_ends False b n (align a ?used)" by (rule log_ends_erased)
  show ?thesis
    unfolding bank_holds_def
    using valid body q(2) ends by (intro exI [of _ body] exI [of _ "[]"] exI [of _ ?used]) simp
qed

section \<open>Publishing\<close>

lemma length_encs_count: "(length rs) * 18 \<le> length (encs rs)"
proof (induction rs)
  case (Cons r rs)
  have "18 \<le> length (enc r)" by (cases r) simp
  then show ?case using Cons by simp
qed simp

text \<open>Which headers over a given body are accepted: they may differ from the published one only in its checksums.\<close>

lemma validate_over_body:
  assumes header: "validate_bank_header b n = Some h"
    and used: "unat (bh_used_offset h) = KV_PUBLISH_SIZE + length (encs body)"
    and body: "\<forall>r \<in> set body. record_ok False r" "held b KV_PUBLISH_SIZE (encs body)"
  shows "validate_bank_buffer b n =
    (if crc16 (encs body) \<noteq> bh_body_crc h \<or> of_nat (length body) \<noteq> bh_record_count h then None
     else Some \<lparr>meta_generation = bh_generation h, meta_used_offset = KV_PUBLISH_SIZE + length (encs body),
                meta_record_count = bh_record_count h\<rparr>)"
  using body_loop_encs [OF body, of 0] body(2)
  by (simp add: validate_bank_buffer_def header used Let_def held_def)

lemma validate_bank_image:
  assumes front: "take 24 b = bh_bytes (bank_hdr n g body)"
    and body: "\<forall>r \<in> set body. record_ok False r" "held b KV_PUBLISH_SIZE (encs body)"
    and fits: "KV_PUBLISH_SIZE + length (encs body) \<le> n" "n < 65536"
  shows "validate_bank_buffer b n = Some (bank_meta g body)"
proof -
  let ?h = "bank_hdr n g body"
  have "decode_bank_header b = ?h"
    using decode_bank_header_cong [of b "bh_bytes ?h @ []"] front decode_bh_bytes [of ?h "[]"] by simp
  moreover have "validate_bank_header b n = Some ?h"
    unfolding validate_bank_header_eq using calculation fits bank_hdr_crc [of n g body]
    by (simp add: unat_of_nat_less unat_used)
  ultimately show ?thesis
    using validate_over_body [OF _ _ body, of n ?h] fits by (simp add: unat_used bank_meta_def)
qed

lemma bank_holds_image:
  assumes b: "take n b = bank_front n g body @ bank_back n body" and n: "n < 65536"
    and body: "\<forall>r \<in> set body. record_ok False r" "roomy body Map.empty"
    and fits: "KV_PUBLISH_SIZE + length (encs body) \<le> n" "0 < a" "a dvd n"
  shows "bank_holds a b n (bank_meta g body) (replay body Map.empty) False
    (align a (KV_PUBLISH_SIZE + length (encs body)))"
proof -
  have len: "length (bank_front n g body @ bank_back n body) = n" using fits(1) by (simp add: length_bank_back publish_256)
  have "held (bank_front n g body @ bank_back n body) KV_PUBLISH_SIZE (encs body)"
    by (simp add: held_def publish_256 bank_back_def subarr_def)
  then have held: "held b KV_PUBLISH_SIZE (encs body)"
    using held_take [OF fits(1), of b] b by simp
  have "take 24 b = take 24 (take n b)" using fits(1) publish_256 by (simp add: min_def)
  then have "take 24 b = bh_bytes (bank_hdr n g body)" unfolding b by (simp add: bank_front_def)
  then have valid: "validate_bank_buffer b n = Some (bank_meta g body)"
    using validate_bank_image body(1) held fits(1) n by blast
  have "b ! i = 0xFF" if "KV_PUBLISH_SIZE + length (encs body) \<le> i" "i < n" for i
  proof -
    have "b ! i = (bank_front n g body @ bank_back n body) ! i" using that(2) b by (metis nth_take)
    moreover have "\<not> i < 256" "\<not> i - 256 < length (encs body)" using that(1) publish_256 by linarith+
    ultimately show ?thesis using that by (simp add: nth_append bank_back_def publish_256)
  qed
  then show ?thesis
    using valid body held fits by (intro bank_holds_fresh) (simp_all add: bank_meta_def)
qed

text \<open>
  While the header is being written, the first \<open>k\<close> bytes of the front are there and the others are
  erased. Such a bank is rejected, or it is accepted with all its contents.
\<close>

definition torn_front :: "nat \<Rightarrow> nat \<Rightarrow> u32 \<Rightarrow> kv_record list \<Rightarrow> bytes" where
  "torn_front k n g body = take k (bank_front n g body) @ replicate (256 - k) 0xFF"

lemma length_torn_front [simp]: "k \<le> 256 \<Longrightarrow> length (torn_front k n g body) = 256"
  by (simp add: torn_front_def)

lemma torn_front_nth:
  "k \<le> 256 \<Longrightarrow> i < 256 \<Longrightarrow> torn_front k n g body ! i = (if i < k then bank_front n g body ! i else 0xFF)"
  by (simp add: torn_front_def nth_append)

lemma load_le16_high:
  assumes "unat (jh_load_le16 p) < 0xFF00"
  shows "p ! 1 \<noteq> 0xFF"
proof
  let ?w = "jh_load_le16 p"
  assume "p ! 1 = 0xFF"
  then have "unat (ucast (drop_bit 8 ?w) :: u8) = 255" by (simp add: bytes_of_load_le16)
  moreover have "unat (drop_bit 8 ?w) = unat ?w div 256"
    by (simp add: unsigned_drop_bit_eq drop_bit_nat_def take_bit_nat_eq_self)
  moreover have "unat ?w div 256 < 255" using assms by (simp add: less_mult_imp_div_less)
  ultimately show False by (simp add: unsigned_ucast_eq take_bit_nat_eq_self)
qed

lemma torn_publish:
  assumes b: "take n b = torn_front k n g body @ bank_back n body" and k: "k \<le> 256"
    and n: "n < 0xFF00" "KV_PUBLISH_SIZE + length (encs body) \<le> n"
    and body: "\<forall>r \<in> set body. record_ok False r"
  shows "validate_bank_buffer b n \<in> {None, Some (bank_meta g body)}"
proof (cases "validate_bank_buffer b n")
  case (Some m)
  define h where "h = decode_bank_header b"
  have header: "validate_bank_header b n = Some h"
    using Some unfolding h_def validate_bank_header_eq
    by (auto simp: validate_bank_buffer_def validate_bank_header_eq split: option.splits)
  have len: "n \<le> length b" "256 \<le> n"
    using arg_cong [where f = length, OF b] n(2) k by (simp_all add: length_bank_back publish_256 min_def split: if_splits)
  have nth: "b ! i = (if i < k then bank_front n g body ! i else 0xFF)" if "i < 256" for i
  proof -
    have "b ! i = take n b ! i" using that len by simp
    then show ?thesis unfolding b using that k by (simp add: nth_append torn_front_nth)
  qed
  have "unat (bh_bank_size h) = n" using header unfolding validate_bank_header_eq by blast
  then have "drop 14 b ! 1 \<noteq> 0xFF"
    using n(1) by (intro load_le16_high) (simp add: h_def decode_bank_header_def)
  then have "15 < k" using nth [of 15] len by (auto split: if_splits)
  then have front: "b ! i = bh_bytes (bank_hdr n g body) ! i" if "i < 16" for i
    using nth [of i] that by (simp add: bank_front_def nth_append)
  let ?H = "decode_bank_header (bh_bytes (bank_hdr n g body))"
  have H: "?H = bank_hdr n g body" using decode_bh_bytes [of _ "[]"] by simp
  have "bh_generation h = bh_generation ?H" "bh_used_offset h = bh_used_offset ?H"
    using len front by (simp_all add: h_def decode_bank_header_def jh_load_le32_def jh_load_le16_def)
  then have fields: "bh_generation h = g" "unat (bh_used_offset h) = KV_PUBLISH_SIZE + length (encs body)"
    unfolding H using n by (simp_all add: unat_used)
  have "held (torn_front k n g body @ bank_back n body) KV_PUBLISH_SIZE (encs body)"
    using k by (simp add: held_def publish_256 bank_back_def subarr_def)
  then have "held b KV_PUBLISH_SIZE (encs body)" using held_take [OF n(2), of b] b by simp
  then show ?thesis
    using validate_over_body [OF header fields(2) body] by (simp add: fields(1) bank_meta_def)
qed simp

lemma bank_holds_torn:
  assumes b: "take n b = torn_front k n g body @ bank_back n body" and k: "k \<le> 256"
    and n: "n < 0xFF00" and valid: "validate_bank_buffer b n \<noteq> None"
    and body: "\<forall>r \<in> set body. record_ok False r" "roomy body Map.empty"
    and fits: "KV_PUBLISH_SIZE + length (encs body) \<le> n" "0 < a" "a dvd n"
  shows "bank_holds a b n (bank_meta g body) (replay body Map.empty) False
    (align a (KV_PUBLISH_SIZE + length (encs body)))"
proof -
  have valid: "validate_bank_buffer b n = Some (bank_meta g body)"
    using torn_publish [OF b k n fits(1) body(1)] valid by simp
  have "held (torn_front k n g body @ bank_back n body) KV_PUBLISH_SIZE (encs body)"
    using k by (simp add: held_def publish_256 bank_back_def subarr_def)
  then have held: "held b KV_PUBLISH_SIZE (encs body)"
    using held_take [OF fits(1), of b] b by simp
  have "b ! i = 0xFF" if "KV_PUBLISH_SIZE + length (encs body) \<le> i" "i < n" for i
  proof -
    have "b ! i = (torn_front k n g body @ bank_back n body) ! i" using that(2) b by (metis nth_take)
    moreover have "\<not> i < 256" "\<not> i - 256 < length (encs body)" using that(1) publish_256 by linarith+
    ultimately show ?thesis using that k by (simp add: nth_append bank_back_def publish_256)
  qed
  then show ?thesis
    using valid body held fits by (intro bank_holds_fresh) (simp_all add: bank_meta_def)
qed

text \<open>A bank whose first byte is erased is rejected.\<close>

lemma validate_erased_front:
  assumes "b ! 0 = 0xFF" "b \<noteq> []"
  shows "validate_bank_buffer b n = None"
proof -
  have "bit (jh_load_le32 b) 0" using assms by (simp add: jh_load_le32_def bit_simps)
  moreover have "\<not> bit KV_BANK_MAGIC 0" by (simp add: KV_BANK_MAGIC_def)
  ultimately have "bh_magic (decode_bank_header b) \<noteq> KV_BANK_MAGIC"
    by (auto simp: decode_bank_header_def)
  then show ?thesis by (simp add: validate_bank_buffer_def validate_bank_header_def Let_def)
qed

section \<open>Appending\<close>

lemma take_blit_prefix: "at \<le> off \<Longrightarrow> off + length xs \<le> length b \<Longrightarrow> take at (blit b off xs) = take at b"
  by (simp add: blit_def)

lemma log_ends_clean:
  assumes "log_ends False b n q" "n \<le> length b"
  shows "bytes_erased b q (n - q)"
proof (cases "q < n")
  case True
  have damaged: "stuck b n q off d \<Longrightarrow> q < off \<Longrightarrow> d" for off d
  proof (induction off d rule: stuck.induct)
    case (skip r off d)
    then have "q < off + length (enc r)" by linarith
    then show ?case by (rule skip.IH)
  qed auto
  have "stuck b n q q False" using assms(1) True by (auto simp: log_ends_def)
  then show ?thesis
  proof cases
    case (skip r)
    have "q < q + length (enc r)" using length_enc_pos [of r] by linarith
    then show ?thesis using damaged [OF skip(4)] by simp
  qed auto
qed (simp add: bytes_erased_def)

lemma validate_bank_same_prefix:
  assumes valid: "validate_bank_buffer b n = Some m" and used: "meta_used_offset m \<le> q"
    and same: "take q b' = take q b" and q: "q \<le> length b" "q \<le> length b'"
  shows "validate_bank_buffer b' n = Some m"
proof -
  obtain h where h: "validate_bank_header b n = Some h" "unat (bh_used_offset h) = meta_used_offset m"
    using valid by (auto simp: validate_bank_buffer_def Let_def split: option.splits if_splits prod.splits)
  have le: "KV_PUBLISH_SIZE \<le> unat (bh_used_offset h)" "unat (bh_used_offset h) \<le> q"
    using h used unfolding validate_bank_header_eq by simp_all
  have "take 24 b' = take 24 b"
    using arg_cong [where f = "take 24", OF same] le publish_256 by (simp add: min_def split: if_splits)
  note head = decode_bank_header_cong [OF this]
  have "validate_bank_header b' n = Some h"
    using h(1) by (simp only: validate_bank_header_def head)
  moreover have "subarr KV_PUBLISH_SIZE (unat (bh_used_offset h) - KV_PUBLISH_SIZE) b' =
      subarr KV_PUBLISH_SIZE (unat (bh_used_offset h) - KV_PUBLISH_SIZE) b"
    using le by (intro subarr_cong [OF same]) simp
  ultimately show ?thesis
    using valid h(1) unfolding validate_bank_buffer_def
    by (simp only: body_loop_cong [OF same le(2) q] option.case Let_def)
qed

lemma chain_snoc:
  assumes "chain a b c p batches c' q" "rs \<noteq> []" "\<forall>r \<in> set rs. record_ok False r" "held b q (batch_bytes q rs m)"
  shows "chain a b c p (batches @ [(rs, m)]) (q + length (batch_bytes q rs m))
    (align a (q + length (batch_bytes q rs m)))"
  unfolding chain_append using assms by (intro exI [of _ c'] exI [of _ q]) (simp add: Let_def)

lemma log_records_snoc: "log_records (batches @ [(rs, m)]) = log_records batches @ rs"
  by (simp add: log_records_def)

lemma bank_holds_prefix:
  assumes holds: "bank_holds a b n m C d q" and a: "0 < a"
    and same: "take q b' = take q b" "n \<le> length b" "n \<le> length b'"
  obtains body batches c where "validate_bank_buffer b' n = Some m" "q \<le> n"
    "meta_used_offset m = KV_PUBLISH_SIZE + length (encs body)" "\<forall>r \<in> set body. record_ok False r"
    "held b' KV_PUBLISH_SIZE (encs body)"
    "chain a b' (meta_used_offset m) (align a (meta_used_offset m)) batches c q"
    "roomy (body @ log_records batches) Map.empty" "C = replay (body @ log_records batches) Map.empty"
proof -
  obtain body batches c where h: "validate_bank_buffer b n = Some m"
    "meta_used_offset m = KV_PUBLISH_SIZE + length (encs body)" "\<forall>r \<in> set body. record_ok False r"
    "held b KV_PUBLISH_SIZE (encs body)"
    "chain a b (meta_used_offset m) (align a (meta_used_offset m)) batches c q" "q \<le> n"
    "roomy (body @ log_records batches) Map.empty" "C = replay (body @ log_records batches) Map.empty"
    using holds by (auto simp: bank_holds_def)
  have le: "meta_used_offset m \<le> align a (meta_used_offset m)" using a by (rule align_ge)
  have used: "meta_used_offset m \<le> q" using chain_bounds [OF h(5) a] le by simp
  have "held b' KV_PUBLISH_SIZE (encs body)" using held_cong [OF h(4) _ same(1)] h(2) used by simp
  moreover have "chain a b' (meta_used_offset m) (align a (meta_used_offset m)) batches c q"
    using chain_cong [OF h(5) same(1) order_refl a le] .
  moreover have "validate_bank_buffer b' n = Some m"
    using validate_bank_same_prefix [OF h(1) used same(1)] h(6) same(2,3) by simp
  ultimately show thesis using h(2,3,6-8) by (intro that)
qed

text \<open>The log may end differently after \<open>q\<close>.\<close>

lemma bank_holds_tail:
  assumes "bank_holds a b n m C d q" "0 < a" "take q b' = take q b" "n \<le> length b" "n \<le> length b'"
    and "log_ends d' b' n q"
  shows "bank_holds a b' n m C d' q"
  by (rule bank_holds_prefix [OF assms(1-5)]) (use assms(6) in \<open>auto simp: bank_holds_def\<close>)

lemma bank_holds_append:
  assumes holds: "bank_holds a b n m C d q" and a: "0 < a" "a dvd n"
    and rs: "rs \<noteq> []" "\<forall>r \<in> set rs. record_ok False r" "roomy rs C"
    and same: "take q b' = take q b" "n \<le> length b" "n \<le> length b'"
    and new: "held b' q (batch_bytes q rs w)" "q + length (batch_bytes q rs w) \<le> n"
    and ends: "log_ends False b' n (align a (q + length (batch_bytes q rs w)))"
  shows "bank_holds a b' n m (replay rs C) False (align a (q + length (batch_bytes q rs w)))"
proof -
  obtain body batches c where h: "validate_bank_buffer b' n = Some m" "q \<le> n"
    "meta_used_offset m = KV_PUBLISH_SIZE + length (encs body)" "\<forall>r \<in> set body. record_ok False r"
    "held b' KV_PUBLISH_SIZE (encs body)"
    "chain a b' (meta_used_offset m) (align a (meta_used_offset m)) batches c q"
    "roomy (body @ log_records batches) Map.empty" "C = replay (body @ log_records batches) Map.empty"
    by (rule bank_holds_prefix [OF holds a(1) same])
  note snoc = chain_snoc [OF h(6) rs(1,2) new(1)]
  show ?thesis
    unfolding bank_holds_def
    using h(1,3-5,7,8) snoc ends rs(3) align_le [OF a new(2)]
    by (intro exI [of _ body] exI [of _ "batches @ [(rs, w)]"] exI [of _ "q + length (batch_bytes q rs w)"])
      (simp add: log_records_snoc roomy_append replay_append)
qed

lemma blit_torn_nth:
  assumes "q + length d \<le> length x" "k \<le> length d" "i < length x"
    and erased: "\<And>i. q \<le> i \<Longrightarrow> i < length x \<Longrightarrow> x ! i = 0xFF"
  shows "blit x q (take k d @ replicate (length d - k) 0xFF) ! i =
    (if i < q then x ! i else if i < q + k then d ! (i - q) else 0xFF)"
proof -
  have b: "blit x q (take k d @ replicate (length d - k) 0xFF) ! i =
      (if q \<le> i \<and> i < q + length d then (take k d @ replicate (length d - k) 0xFF) ! (i - q) else x ! i)"
    using assms(1-3) by (subst nth_blit) simp_all
  consider "i < q" | "q \<le> i" "i < q + k" "i - q < k" | "q + k \<le> i" "i < q + length d" "\<not> i - q < k"
    | "q + length d \<le> i" by linarith
  then show ?thesis
    using assms(2,3) erased [of i] unfolding b by cases (simp_all add: nth_append)
qed

text \<open>
  A batch with its padding, of which some prefix has reached the erased space behind the log:
  the bank says what it said before, or it says the batch too.
\<close>

lemma bank_holds_batch:
  assumes holds: "bank_holds a x n m C False q" and a: "0 < a" "a dvd n"
    and rs: "rs \<noteq> []" "\<forall>r \<in> set rs. record_ok False r" "roomy rs C"
    and n: "length x = n" "q + length (batch_bytes q rs w @ pad) \<le> n"
    and stop: "q + length (batch_bytes q rs w @ pad) = align a (q + length (batch_bytes q rs w))"
    and k: "k \<le> length (batch_bytes q rs w @ pad)"
    and new: "new = take k (batch_bytes q rs w @ pad) @ replicate (length (batch_bytes q rs w @ pad) - k) 0xFF"
  shows "if k < length (batch_bytes q rs w) then \<exists>d. bank_holds a (blit x q new) n m C d q
    else bank_holds a (blit x q new) n m (replay rs C) False (align a (q + length (batch_bytes q rs w)))"
proof -
  let ?data = "batch_bytes q rs w @ pad" and ?x = "blit x q new"
  have len: "length new = length ?data" using k by (simp add: new)
  have lenx: "length ?x = n" using n len by simp
  have "log_ends False x n q" using holds by (auto simp: bank_holds_def)
  then have erased: "x ! i = 0xFF" if "q \<le> i" "i < n" for i
    using log_ends_clean [of x n q] bytes_erased_nth [of x q "n - q" "i - q"] that n(1) by simp
  have nth: "?x ! i = (if i < q then x ! i else if i < q + k then ?data ! (i - q) else 0xFF)" if "i < n" for i
    unfolding new using that n erased k by (intro blit_torn_nth) simp_all
  have same: "take q ?x = take q x" using n len by (simp add: take_blit_prefix)
  have written: "held ?x q (take k ?data)"
  proof -
    have "held ?x q new" using n len by (intro held_blit) simp
    then show ?thesis unfolding new held_append by blast
  qed
  show ?thesis
  proof (cases "k < length (batch_bytes q rs w)")
    case True
    have "\<exists>d. stuck ?x n q q d"
      using written True n rs(2) commit_rec_ok lenx nth
      by (intro stuck_torn [of rs "commit_rec q rs w" k]) (simp_all add: batch_bytes_def [symmetric] nth)
    then obtain d where "log_ends d ?x n q" by (auto simp: log_ends_def)
    then have "bank_holds a ?x n m C d q" using bank_holds_tail [OF holds a(1) same] n(1) lenx by simp
    then show ?thesis using True by auto
  next
    case False
    then have "take k ?data = batch_bytes q rs w @ take (k - length (batch_bytes q rs w)) pad" by simp
    then have "held ?x q (batch_bytes q rs w)" using written by (simp add: held_append)
    moreover have "log_ends False ?x n (align a (q + length (batch_bytes q rs w)))"
      unfolding stop [symmetric] using nth k lenx by (intro log_ends_erased bytes_erasedI) simp
    ultimately show ?thesis
      using False bank_holds_append [OF holds a rs same] n lenx by simp
  qed
qed

end
