(* ===== verification/Kv_Compact.thy ===== *)
theory Kv_Compact
  imports Kv_Image "HOL-Library.Multiset"
begin

text \<open>
  Compaction: the live records are moved to the front of the bank in the order they lie there,
  each one towards lower addresses over records that are dead or already moved. The map
  is kept, and what lies in the bank afterwards is a body that can be published.
\<close>

section \<open>The order\<close>

lemma sift_mset: "mset (sift f x xs) = add_mset x (mset xs)"
  by (induction xs) auto

lemma sift_sorted: "sorted_wrt (\<lambda>a b. f b \<le> f a) xs \<Longrightarrow> sorted_wrt (\<lambda>a b. f b \<le> f a) (sift f x xs)"
proof (induction xs)
  case (Cons a xs)
  have "set (sift f x xs) = insert x (set xs)"
    using arg_cong [where f = set_mset, OF sift_mset [of f x xs]] by simp
  then show ?case using Cons by (auto intro: order_trans)
qed simp

lemma fold_sift:
  "sorted_wrt (\<lambda>a b. f b \<le> f a) acc \<Longrightarrow>
   sorted_wrt (\<lambda>a b. f b \<le> f a) (fold (sift f) xs acc) \<and> mset (fold (sift f) xs acc) = mset xs + mset acc"
  by (induction xs arbitrary: acc) (auto simp: sift_sorted sift_mset)

lemma compact_order_facts:
  "sorted_wrt (\<lambda>i j. payload_offset (idx ! i) \<le> payload_offset (idx ! j)) (compact_order idx)"
  "mset (compact_order idx) = mset (filter (\<lambda>i. in_use (idx ! i)) [0..<length idx])"
  using fold_sift [of "\<lambda>i. payload_offset (idx ! i)" "[]" "filter (\<lambda>i. in_use (idx ! i)) [0..<length idx]"]
  by (simp_all add: compact_order_def sorted_wrt_rev)

lemma compact_order_set: "set (compact_order idx) = used_slots idx" "distinct (compact_order idx)"
proof -
  show "set (compact_order idx) = used_slots idx"
    using arg_cong [where f = set_mset, OF compact_order_facts(2) [of idx]] by (auto simp: used_slots_def)
  have "distinct (filter (\<lambda>i. in_use (idx ! i)) [0..<length idx])" by simp
  then show "distinct (compact_order idx)"
    using compact_order_facts(2) mset_eq_imp_distinct_iff by metis
qed

lemma compact_order_apart:
  assumes "index_ok b idx hi"
  shows "sorted_wrt (\<lambda>i j. entry_stop (idx ! i) \<le> entry_start (idx ! j)) (compact_order idx)"
proof -
  have "sorted_wrt (\<lambda>i j. i \<in> used_slots idx \<and> j \<in> used_slots idx \<and> i \<noteq> j \<and>
      payload_offset (idx ! i) \<le> payload_offset (idx ! j)) (compact_order idx)"
    using compact_order_facts(1) [of idx] compact_order_set [of idx]
    by (auto simp: sorted_wrt_iff_nth_less nth_eq_iff_index_eq)
  then show ?thesis
  proof (rule sorted_wrt_mono_rel [rotated])
    fix i j
    assume ij: "i \<in> used_slots idx \<and> j \<in> used_slots idx \<and> i \<noteq> j \<and>
      payload_offset (idx ! i) \<le> payload_offset (idx ! j)"
    then have "entry_stop (idx ! i) \<le> entry_start (idx ! j) \<or> entry_stop (idx ! j) \<le> entry_start (idx ! i)"
      using assms unfolding index_ok_def by blast
    then show "entry_stop (idx ! i) \<le> entry_start (idx ! j)"
      using ij by (auto simp: entry_stop_def entry_start_def)
  qed
qed

section \<open>Moving the records\<close>

lemma entry_held_between:
  assumes held: "entry_held b e" and b': "length b' = length b" "\<And>i. at \<le> i \<Longrightarrow> i < hi \<Longrightarrow> b' ! i = b ! i"
    and at: "at \<le> entry_start e" "entry_stop e \<le> hi"
  shows "entry_held b' e \<and> entry_rec b' e = entry_rec b e"
proof -
  have same: "subarr off m b' = subarr off m b" if "at \<le> off" "off + m \<le> hi" "off + m \<le> length b" for off m
    using that b' by (intro nth_equalityI) (simp_all add: nth_subarr)
  have stop: "entry_start e + length (enc (entry_rec b e)) = entry_stop e" "entry_stop e \<le> length b"
    using held entry_held_stop [OF held] by (simp_all add: entry_held_def held_def)
  have len: "length (enc (entry_rec b e)) = 18 + ie_len e" "16 \<le> payload_offset e"
    using held by (simp_all add: entry_held_def entry_rec_def)
  have "entry_val b' e = entry_val b e"
    unfolding entry_val_def using at stop len by (intro same) (simp_all add: entry_start_def entry_stop_def)
  then have "entry_val b' e = entry_val b e" "entry_rec b' e = entry_rec b e" by (simp_all add: entry_rec_def)
  moreover have "subarr (entry_start e) (length (enc (entry_rec b e))) b' =
      subarr (entry_start e) (length (enc (entry_rec b e))) b"
    using at stop by (intro same) simp_all
  ultimately show ?thesis
    using held b'(1) by (simp add: entry_held_def held_def)
qed

lemma entry_held_start: "entry_held b e \<Longrightarrow> KV_PUBLISH_SIZE \<le> entry_start e"
  unfolding entry_held_def entry_start_def by linarith

lemma index_ok_between:
  assumes ok: "index_ok b idx hi"
    and b': "length b' = length b" "\<And>i. KV_PUBLISH_SIZE \<le> i \<Longrightarrow> i < hi \<Longrightarrow> b' ! i = b ! i"
  shows "index_ok b' idx hi" "kv_map b' idx = kv_map b idx"
proof -
  have e: "entry_held b' (idx ! i) \<and> entry_rec b' (idx ! i) = entry_rec b (idx ! i)" if "i \<in> used_slots idx" for i
  proof -
    have "entry_held b (idx ! i)" "entry_stop (idx ! i) \<le> hi" using ok that by (simp_all add: index_ok_def)
    then show ?thesis by (intro entry_held_between [OF _ b' entry_held_start])
  qed
  show "index_ok b' idx hi" using ok e by (simp add: index_ok_def)
  show "kv_map b' idx = kv_map b idx"
  proof
    fix k
    show "kv_map b' idx k = kv_map b idx k"
      using e by (auto simp: kv_map_def entry_rec_def split: option.split dest: index_find_Some)
  qed
qed

lemma entry_held_moved:
  assumes held: "held b at (enc (entry_rec c e))" and e: "entry_held c e" and at: "KV_PUBLISH_SIZE \<le> at"
  defines "e' \<equiv> e\<lparr>payload_offset := at + KV_REC_HDR_SIZE\<rparr>"
  shows "entry_held b e' \<and> entry_rec b e' = entry_rec c e \<and> entry_start e' = at \<and>
    entry_stop e' = at + length (enc (entry_rec c e))"
proof -
  have val: "length (entry_val c e) = ie_len e" using e by (simp add: entry_held_def)
  have "held b (at + 16) (entry_val c e)"
    using held by (simp add: entry_rec_def enc_def held_append)
  then have "entry_val b e' = entry_val c e"
    using val by (simp add: entry_val_def e'_def held_def KV_REC_HDR_SIZE_def)
  then show ?thesis
    using e held at val
    by (simp add: entry_held_def entry_rec_def e'_def entry_start_def entry_stop_def KV_REC_HDR_SIZE_def)
qed

definition moved :: "bytes \<Rightarrow> kv_index_entry \<Rightarrow> bytes \<Rightarrow> kv_index_entry \<Rightarrow> bool" where
  "moved b e b' e' \<longleftrightarrow> entry_held b' e' \<and> entry_rec b' e' = entry_rec b e \<and> in_use e' = in_use e"

lemma compact_loop_moves:
  assumes "distinct order" "\<forall>i \<in> set order. i < length idx \<and> entry_held b (idx ! i)"
    and "sorted_wrt (\<lambda>i j. entry_stop (idx ! i) \<le> entry_start (idx ! j)) order"
    and "\<forall>i \<in> set order. destination \<le> entry_start (idx ! i)" "KV_PUBLISH_SIZE \<le> destination"
    and "destination \<le> length b"
  shows "\<exists>b' idx'. compact_loop b idx order destination =
      (b', idx', destination + length (encs (map (\<lambda>i. entry_rec b (idx ! i)) order))) \<and>
    length b' = length b \<and> length idx' = length idx \<and> take destination b' = take destination b \<and>
    held b' destination (encs (map (\<lambda>i. entry_rec b (idx ! i)) order)) \<and>
    (\<forall>i. i \<notin> set order \<longrightarrow> idx' ! i = idx ! i) \<and>
    (\<forall>i \<in> set order. moved b (idx ! i) b' (idx' ! i) \<and> destination \<le> entry_start (idx' ! i) \<and>
       entry_stop (idx' ! i) \<le> destination + length (encs (map (\<lambda>i. entry_rec b (idx ! i)) order))) \<and>
    sorted_wrt (\<lambda>i j. entry_stop (idx' ! i) \<le> entry_start (idx' ! j)) order"
  using assms
proof (induction order arbitrary: b idx destination)
  case Nil
  then show ?case by (simp add: held_def)
next
  case (Cons i order)
  let ?e = "idx ! i" and ?r = "entry_rec b (idx ! i)"
  let ?e' = "?e\<lparr>payload_offset := destination + KV_REC_HDR_SIZE\<rparr>"
  let ?b = "blit b destination (enc ?r)" and ?idx = "idx[i := ?e']" and ?d = "destination + length (enc ?r)"
  let ?recs = "\<lambda>c idx. map (\<lambda>j. entry_rec c (idx ! j)) order"
  have held: "entry_held b ?e" "i < length idx" using Cons.prems(2) by simp_all
  have stop: "entry_start ?e + length (enc ?r) = entry_stop ?e" by (rule entry_held_stop [OF held(1)])
  have stop_len: "entry_stop ?e \<le> length b" using held(1) stop by (simp add: entry_held_def held_def)
  have d: "?d \<le> entry_stop ?e" "destination + length (enc ?r) \<le> length b"
    using Cons.prems(4) stop stop_len by auto
  have written: "write_record b destination (ie_key ?e) (ie_type ?e) (subarr (payload_offset ?e) (ie_len ?e) b) (ie_seq ?e) = ?b"
    using d(2) held(1) by (subst write_record_enc) (simp_all add: entry_rec_def entry_val_def entry_held_def)
  have step: "compact_loop b idx (i # order) destination = compact_loop ?b ?idx order ?d"
    using held(1) by (simp add: Let_def written record_size_eq entry_rec_def entry_held_def)
  have i_notin: "i \<notin> set order" using Cons.prems(1) by simp
  have other: "entry_held ?b (idx ! j) \<and> entry_rec ?b (idx ! j) = entry_rec b (idx ! j) \<and> ?idx ! j = idx ! j \<and>
      ?d \<le> entry_start (idx ! j) \<and> j < length idx" if j: "j \<in> set order" for j
  proof -
    have above: "?d \<le> entry_start (idx ! j)" using Cons.prems(3) j d(1) by auto
    have at_j: "entry_held b (idx ! j)" "j < length idx" using Cons.prems(2) j by simp_all
    have "?b ! k = b ! k" if "?d \<le> k" "k < length b" for k using that d(2) by (simp add: nth_blit)
    moreover have "entry_stop (idx ! j) \<le> length b"
      using at_j(1) entry_held_stop [OF at_j(1)] by (simp add: entry_held_def held_def)
    moreover have "?idx ! j = idx ! j" using i_notin j by (metis nth_list_update_neq)
    ultimately show ?thesis
      using entry_held_between [OF at_j(1) _ _ above, of ?b "length b"] above at_j(2) d(2) by simp
  qed
  have recs: "?recs ?b ?idx = ?recs b idx" using other by simp
  have "sorted_wrt (\<lambda>i j. entry_stop (?idx ! i) \<le> entry_start (?idx ! j)) order"
    using Cons.prems(3) other by (auto intro: sorted_wrt_mono_rel [rotated])
  then obtain b' idx' where IH: "compact_loop ?b ?idx order ?d = (b', idx', ?d + length (encs (?recs b idx)))"
    "length b' = length b" "length idx' = length idx" "take ?d b' = take ?d ?b"
    "held b' ?d (encs (?recs b idx))" "\<forall>j. j \<notin> set order \<longrightarrow> idx' ! j = ?idx ! j"
    "\<forall>j \<in> set order. moved ?b (?idx ! j) b' (idx' ! j) \<and> ?d \<le> entry_start (idx' ! j) \<and>
       entry_stop (idx' ! j) \<le> ?d + length (encs (?recs b idx))"
    "sorted_wrt (\<lambda>i j. entry_stop (idx' ! i) \<le> entry_start (idx' ! j)) order"
    using Cons.IH [of ?idx ?b ?d] Cons.prems(1,5) other d(2) recs by auto
  have "held ?b destination (enc ?r)" using d(2) by (rule held_blit)
  then have first: "held b' destination (enc ?r)" by (rule held_cong [OF _ order_refl IH(4)])
  have ei: "idx' ! i = ?e'" using IH(6) i_notin held(2) by simp
  have mi: "moved b ?e b' (idx' ! i) \<and> entry_start (idx' ! i) = destination \<and> entry_stop (idx' ! i) = ?d"
    using entry_held_moved [OF first held(1) Cons.prems(5)] by (simp add: ei moved_def)
  have mo: "moved b (idx ! j) b' (idx' ! j)" if "j \<in> set order" for j
    using IH(7) that other [OF that] by (auto simp: moved_def)
  have "take destination b' = take destination b"
    using arg_cong [where f = "take destination", OF IH(4)] d(2) by (simp add: min_def blit_def)
  then show ?case
    unfolding step IH(1)
    using IH first mi mo i_notin other by (intro exI [of _ b'] exI [of _ idx']) (auto simp: held_append add.assoc)
qed

section \<open>What compaction does to the store\<close>

lemma replay_distinct:
  assumes "distinct (map fst rs)" "\<forall>(k, t, d, n) \<in> set rs. t \<noteq> KV_REC_TYPE_DELETE"
  shows "replay rs M k = (case find (\<lambda>r. fst r = k) rs of None \<Rightarrow> M k | Some (_, t, d, _) \<Rightarrow> Some (t, d))"
  using assms
proof (induction rs arbitrary: M)
  case (Cons r rs)
  obtain k' t d n where r: "r = (k', t, d, n)" by (cases r)
  have "find (\<lambda>r. fst r = k') rs = None" using Cons.prems(1) by (force simp: r find_None_iff)
  then show ?case using Cons by (auto simp: r rec_apply_def split: option.splits)
qed simp

lemma roomy_count:
  assumes "card (dom M) + length rs \<le> KV_MAX_KEYS" "finite (dom M)"
  shows "roomy rs M"
  using assms
proof (induction rs arbitrary: M)
  case (Cons r rs)
  obtain k t d n where r: "r = (k, t, d, n)" by (cases r)
  have sub: "dom (rec_apply r M) \<subseteq> insert k (dom M)" by (auto simp: r rec_apply_def split: if_splits)
  have fin: "finite (dom (rec_apply r M))" using sub Cons.prems(2) by (meson finite_insert finite_subset)
  have "card (dom (rec_apply r M)) \<le> card (dom M) + 1"
    using card_mono [OF _ sub] Cons.prems(2) card_insert_le_m1 [of "card (dom M) + 1" "dom M" k]
    by (simp add: card_insert_if split: if_splits)
  then show ?case using Cons fin by simp
qed simp

lemma index_find_same:
  assumes "length idx' = length idx"
    and "\<And>i. i < length idx \<Longrightarrow> in_use (idx' ! i) = in_use (idx ! i) \<and> ie_key (idx' ! i) = ie_key (idx ! i)"
  shows "index_find idx' k = index_find idx k"
proof -
  have "index_from P j es' = index_from P j es"
    if "list_all2 (\<lambda>a b. in_use a = in_use b \<and> ie_key a = ie_key b) es' es"
      "P = (\<lambda>e. in_use e \<and> ie_key e = k)" for P j es es'
    using that by (induction arbitrary: j rule: list_all2_induct) auto
  then show ?thesis
    unfolding index_find_def using assms by (simp add: list_all2_conv_all_nth)
qed

text \<open>
  What compaction needs and gives, in terms of the image and the index: a body of live
  records, the same map, the same keys in the same places.
\<close>

definition compacted ::
  "kv_record list \<Rightarrow> bytes \<Rightarrow> kv_index_entry list \<Rightarrow> bytes \<Rightarrow> kv_index_entry list \<Rightarrow> bool" where
  "compacted body b idx b' idx' \<longleftrightarrow> length b' = length b \<and> held b' KV_PUBLISH_SIZE (encs body) \<and>
     (\<forall>r \<in> set body. record_ok False r) \<and> roomy body Map.empty \<and> replay body Map.empty = kv_map b idx \<and>
     index_ok b' idx' (KV_PUBLISH_SIZE + length (encs body)) \<and> kv_map b' idx' = kv_map b idx \<and>
     (\<forall>i < length idx. in_use (idx' ! i) = in_use (idx ! i) \<and> ie_key (idx' ! i) = ie_key (idx ! i))"

lemma sum_compact: "sum_list (map f (compact_order idx)) = sum_list (map f (filter (\<lambda>i. in_use (idx ! i)) [0..<length idx]))"
  for f :: "nat \<Rightarrow> nat"
proof -
  have "mset (map f (compact_order idx)) = mset (map f (filter (\<lambda>i. in_use (idx ! i)) [0..<length idx]))"
    by (simp only: mset_map compact_order_facts(2))
  then show ?thesis by (metis sum_mset_sum_list)
qed

lemma length_encs_map: "length (encs (map g xs)) = sum_list (map (\<lambda>x. length (enc (g x))) xs)"
  by (induction xs) auto

lemma replay_entries:
  assumes ok: "index_ok b idx hi" and order: "set order = used_slots idx" "distinct order"
  defines "body \<equiv> map (\<lambda>i. entry_rec b (idx ! i)) order"
  shows "(\<forall>r \<in> set body. record_ok False r) \<and> replay body Map.empty = kv_map b idx \<and> roomy body Map.empty"
proof -
  have entries: "entry_held b (idx ! i)" if "i \<in> set order" for i
    using ok that unfolding order(1) index_ok_def by blast
  have inj: "inj_on (\<lambda>i. ie_key (idx ! i)) (set order)"
    using index_ok_inj [OF ok] by (auto simp: inj_on_def order(1))
  have keys: "map fst body = map (\<lambda>i. ie_key (idx ! i)) order"
    by (simp add: body_def entry_rec_def)
  have distinct: "distinct (map fst body)" using inj order(2) unfolding keys distinct_map by simp
  have body: "\<forall>r \<in> set body. record_ok False r" "\<forall>(k, t, d, n) \<in> set body. t \<noteq> KV_REC_TYPE_DELETE"
    using entries by (auto simp: body_def entry_held_def entry_rec_def)
  have "replay body Map.empty k = kv_map b idx k" for k
  proof (cases "index_find idx k")
    case None
    then have "find (\<lambda>r. fst r = k) body = None"
      unfolding index_find_None by (auto simp: find_None_iff body_def entry_rec_def order(1))
    then show ?thesis using None replay_distinct [OF distinct body(2)] by (simp add: kv_map_def)
  next
    case (Some i)
    then have i: "i \<in> set order" "ie_key (idx ! i) = k" using index_find_Some order(1) by auto
    have "find (\<lambda>r. fst r = k) body = Some (entry_rec b (idx ! i))"
    proof (cases "find (\<lambda>r. fst r = k) body")
      case None
      then show ?thesis using i by (auto simp: find_None_iff body_def entry_rec_def)
    next
      case (Some r)
      then have r: "r \<in> set body" "fst r = k" by (auto simp: find_Some_iff)
      then obtain j where j: "j \<in> set order" "r = entry_rec b (idx ! j)" "ie_key (idx ! j) = k"
        by (auto simp: body_def entry_rec_def)
      then have "j = i" using inj_onD [OF inj, of j i] i by simp
      then show ?thesis using Some j(2) by simp
    qed
    then show ?thesis
      using Some replay_distinct [OF distinct body(2), of Map.empty k] by (simp add: kv_map_def entry_rec_def)
  qed
  moreover have "length body = card (used_slots idx)"
    using order distinct_card [OF order(2)] by (simp add: body_def)
  then have "roomy body Map.empty" using card_used_slots [OF ok] by (intro roomy_count) simp_all
  ultimately show ?thesis using body(1) by blast
qed

lemma index_ok_moved:
  assumes ok: "index_ok b idx hi" and order: "set order = used_slots idx"
    and len: "length idx' = length idx"
    and keys: "\<And>i. in_use (idx' ! i) = in_use (idx ! i) \<and> ie_key (idx' ! i) = ie_key (idx ! i)"
    and moved: "\<And>i. i \<in> set order \<Longrightarrow> moved b (idx ! i) b' (idx' ! i) \<and> entry_stop (idx' ! i) \<le> hi'"
    and apart: "sorted_wrt (\<lambda>i j. entry_stop (idx' ! i) \<le> entry_start (idx' ! j)) order"
  shows "index_ok b' idx' hi' \<and> kv_map b' idx' = kv_map b idx"
proof
  have slots: "used_slots idx' = set order" unfolding order using len keys by (simp add: used_slots_def)
  show "index_ok b' idx' hi'"
    unfolding index_ok_def slots
  proof (intro conjI ballI impI)
    show "length idx' = KV_MAX_KEYS" using ok len by (simp add: index_ok_def)
    fix i assume i: "i \<in> set order"
    show "entry_held b' (idx' ! i)" "entry_stop (idx' ! i) \<le> hi'" using moved [OF i] by (simp_all add: moved_def)
    fix j assume j: "j \<in> set order" "i \<noteq> j"
    then show "ie_key (idx' ! i) \<noteq> ie_key (idx' ! j)"
      using index_ok_inj [OF ok, of i j] i keys order by auto
    obtain m n where mn: "m < length order" "n < length order" "order ! m = i" "order ! n = j"
      using i j by (auto simp: in_set_conv_nth)
    then have "m < n \<or> n < m" using j(2) by (metis nat_neq_iff)
    then show "entry_stop (idx' ! i) \<le> entry_start (idx' ! j) \<or> entry_stop (idx' ! j) \<le> entry_start (idx' ! i)"
      using apart mn unfolding sorted_wrt_iff_nth_less by blast
  qed
  show "kv_map b' idx' = kv_map b idx"
  proof
    fix k
    have find: "index_find idx' k = index_find idx k" using len keys by (intro index_find_same) auto
    show "kv_map b' idx' k = kv_map b idx k"
    proof (cases "index_find idx k")
      case (Some i)
      then have "i \<in> set order" using index_find_Some order by blast
      then show ?thesis using Some moved [of i] by (simp add: kv_map_def find entry_rec_def moved_def)
    qed (simp add: kv_map_def find)
  qed
qed

lemma records_fit:
  assumes "sorted_wrt (\<lambda>i j. stop i \<le> start j) xs" "\<forall>i \<in> set xs. start i + len i \<le> stop i \<and> lo \<le> start i \<and> stop i \<le> hi"
    and "lo \<le> hi"
  shows "lo + sum_list (map len xs) \<le> (hi :: nat)"
  using assms
proof (induction xs arbitrary: lo)
  case (Cons i xs)
  have "start i + len i \<le> stop i" "lo \<le> start i" "stop i \<le> hi" using Cons.prems(2) by simp_all
  moreover have "stop i + sum_list (map len xs) \<le> hi"
    using Cons.prems by (intro Cons.IH) simp_all
  ultimately show ?case by simp
qed simp

lemma compacted_fits:
  assumes ok: "index_ok b idx hi" and hi: "KV_PUBLISH_SIZE \<le> hi"
  shows "compacted_size idx None \<le> hi"
proof -
  have "\<forall>i \<in> set (compact_order idx). entry_start (idx ! i) + record_size (ie_len (idx ! i)) \<le> entry_stop (idx ! i) \<and>
      KV_PUBLISH_SIZE \<le> entry_start (idx ! i) \<and> entry_stop (idx ! i) \<le> hi"
  proof
    fix i assume "i \<in> set (compact_order idx)"
    then have i: "entry_held b (idx ! i)" "entry_stop (idx ! i) \<le> hi"
      using ok unfolding compact_order_set(1) index_ok_def by auto
    then have "KV_PUBLISH_SIZE + 16 \<le> payload_offset (idx ! i)" by (simp add: entry_held_def)
    then show "entry_start (idx ! i) + record_size (ie_len (idx ! i)) \<le> entry_stop (idx ! i) \<and>
        KV_PUBLISH_SIZE \<le> entry_start (idx ! i) \<and> entry_stop (idx ! i) \<le> hi"
      using i(2) by (simp add: entry_start_def entry_stop_def record_size_eq)
  qed
  from records_fit [OF compact_order_apart [OF ok] this hi] show ?thesis
    by (simp add: compacted_size_def sum_compact)
qed

lemma compact_locked_compacts:
  assumes ok: "index_ok (bank s) (kv_index s) hi" and len: "KV_PUBLISH_SIZE \<le> length (bank s)"
  shows "\<exists>b idx body. compacted body (bank s) (kv_index s) b idx \<and>
    KV_PUBLISH_SIZE + length (encs body) = compacted_size (kv_index s) None \<and>
    compact_locked s = s\<lparr>bank := b, kv_index := idx, used_offset := KV_PUBLISH_SIZE + length (encs body),
      record_count := of_nat (length body), needs_publish := True, kv_dirty := True\<rparr>"
proof -
  let ?b = "bank s" and ?idx = "kv_index s" and ?order = "compact_order (kv_index s)"
  define body where "body = map (\<lambda>i. entry_rec ?b (?idx ! i)) ?order"
  note order = compact_order_set [of ?idx]
  have entries: "\<forall>i \<in> set ?order. i < length ?idx \<and> entry_held ?b (?idx ! i)"
    using ok unfolding order(1) index_ok_def by (auto simp: used_slots_def)
  have start: "\<forall>i \<in> set ?order. KV_PUBLISH_SIZE \<le> entry_start (?idx ! i)"
    using entries by (fastforce simp: entry_held_def entry_start_def)
  obtain b idx where loop: "compact_loop ?b ?idx ?order KV_PUBLISH_SIZE = (b, idx, KV_PUBLISH_SIZE + length (encs body))"
    "length b = length ?b" "length idx = length ?idx" "held b KV_PUBLISH_SIZE (encs body)"
    "\<And>i. i \<notin> set ?order \<Longrightarrow> idx ! i = ?idx ! i"
    "\<And>i. i \<in> set ?order \<Longrightarrow> moved ?b (?idx ! i) b (idx ! i) \<and> entry_stop (idx ! i) \<le> KV_PUBLISH_SIZE + length (encs body)"
    "sorted_wrt (\<lambda>i j. entry_stop (idx ! i) \<le> entry_start (idx ! j)) ?order"
    using compact_loop_moves [OF order(2) entries compact_order_apart [OF ok] start order_refl len]
    unfolding body_def [symmetric] by blast
  have keys: "in_use (idx ! i) = in_use (?idx ! i) \<and> ie_key (idx ! i) = ie_key (?idx ! i)" for i
    using loop(5,6) by (cases "i \<in> set ?order") (simp_all add: moved_def entry_rec_def)
  have "compacted body ?b ?idx b idx"
    unfolding compacted_def
    using loop(2,4) replay_entries [OF ok order] keys
      index_ok_moved [OF ok order(1) loop(3) keys loop(6,7)] unfolding body_def [symmetric] by simp
  moreover have "length (enc (entry_rec ?b (?idx ! i))) = record_size (ie_len (?idx ! i))" if "i \<in> set ?order" for i
    using entries that by (simp add: entry_rec_def entry_held_def record_size_eq)
  then have "map (\<lambda>i. length (enc (entry_rec ?b (?idx ! i)))) ?order = map (\<lambda>i. record_size (ie_len (?idx ! i))) ?order"
    by simp
  then have "length (encs body) = sum_list (map (\<lambda>i. record_size (ie_len (?idx ! i))) ?order)"
    unfolding body_def length_encs_map by (rule arg_cong)
  then have "KV_PUBLISH_SIZE + length (encs body) = compacted_size ?idx None"
    by (simp add: compacted_size_def sum_compact)
  moreover have "compact_locked s = s\<lparr>bank := b, kv_index := idx, used_offset := KV_PUBLISH_SIZE + length (encs body),
      record_count := of_nat (length body), needs_publish := True, kv_dirty := True\<rparr>"
    using loop(1) by (simp add: compact_locked_def Let_def body_def)
  ultimately show ?thesis by blast
qed

end
