(* ===== verification/Kv_Medium.thy ===== *)
theory Kv_Medium
  imports Kv_Compact
begin

text \<open>
  What the store asks of the storage below it, as a locale: a provider of the EEPROM facade
  whose medium keeps its bytes without power. An operation that is cut short, by an error or by the
  loss of power, leaves its region in one of few shapes, which \<open>replaced_partly\<close>,
  \<open>written_partly\<close> and \<open>erased_partly\<close> name; without power nothing changes any more. The lemmas
  carry the laws through the checks of the facade.
\<close>

section \<open>Regions after an operation\<close>

definition all_erased :: "bytes \<Rightarrow> bool" where
  "all_erased xs \<longleftrightarrow> list_all (\<lambda>x. x = 0xFF) xs"

text \<open>Replacing: nothing done, or the region starts with an erased byte, or only the part that publishes is missing.\<close>

definition replaced_partly :: "nat \<Rightarrow> bytes \<Rightarrow> bytes \<Rightarrow> bytes \<Rightarrow> bool" where
  "replaced_partly publish old data new \<longleftrightarrow>
     new = old \<or> (new \<noteq> [] \<and> hd new = 0xFF) \<or>
     (\<exists>k \<le> publish. new = take k data @ replicate (publish - k) 0xFF @ drop publish data)"

definition written_partly :: "bytes \<Rightarrow> bytes \<Rightarrow> bytes \<Rightarrow> bool" where
  "written_partly old data new \<longleftrightarrow>
     new = old \<or> (all_erased old \<and> (\<exists>k \<le> length data. new = take k data @ replicate (length data - k) 0xFF))"

text \<open>Erasing: nothing done, or the first byte is erased at least.\<close>

definition erased_partly :: "bytes \<Rightarrow> bytes \<Rightarrow> bool" where
  "erased_partly old new \<longleftrightarrow> new = old \<or> (new \<noteq> [] \<and> hd new = 0xFF)"

lemma erased_fully: "0 < len \<Longrightarrow> erased_partly old (replicate len 0xFF)"
  by (cases len) (simp_all add: erased_partly_def)

locale kv_medium =
  fixes ops :: "'p provider" and med :: "'p \<Rightarrow> bytes" and powered :: "'p \<Rightarrow> bool" and good :: "'p \<Rightarrow> bool"
    and erase_size :: nat and program_size :: nat and append_size :: nat
  assumes append_size: "0 < append_size" "append_size dvd erase_size"
    and read: "\<lbrakk>good p; powered p; addr + len \<le> length (med p); len \<le> length out\<rbrakk> \<Longrightarrow>
      p_read ops p addr out len = (blit out 0 (subarr addr len (med p)), HAL_OK)"
    and read_medium: "\<lbrakk>good p; powered p; addr + len \<le> length (med p); len \<le> length out; 0 < len\<rbrakk> \<Longrightarrow>
      p_read_medium ops p addr out len = (blit out 0 (subarr addr len (med p)), HAL_OK)"
    and region_erased: "\<lbrakk>good p; powered p; addr + len \<le> length (med p)\<rbrakk> \<Longrightarrow>
      p_region_erased ops p addr len = (all_erased (subarr addr len (med p)), HAL_OK)"
    and replace: "\<lbrakk>good p; addr + length data \<le> length (med p); erase_size dvd addr; erase_size dvd length data;
        program_size dvd addr; program_size dvd length data; program_size dvd publish; 0 < publish;
        publish < length data; p_replace_region ops p addr data publish = (p', status)\<rbrakk> \<Longrightarrow>
      good p' \<and> (powered p' \<longrightarrow> powered p) \<and> (\<not> powered p \<longrightarrow> med p' = med p) \<and>
      (\<exists>new. length new = length data \<and> med p' = blit (med p) addr new \<and>
         status \<noteq> HAL_NONE \<and> (if powered p' \<and> status = HAL_OK then new = data
          else replaced_partly publish (subarr addr (length data) (med p)) data new))"
    and append: "\<lbrakk>good p; addr + length data \<le> length (med p); append_size dvd addr; append_size dvd length data;
        data \<noteq> []; p_append ops p addr data = (p', status)\<rbrakk> \<Longrightarrow>
      good p' \<and> (powered p' \<longrightarrow> powered p) \<and> (\<not> powered p \<longrightarrow> med p' = med p) \<and>
      (\<exists>new. length new = length data \<and> med p' = blit (med p) addr new \<and>
         status \<noteq> HAL_NONE \<and> (if powered p' \<and> status = HAL_OK then new = data
          else written_partly (subarr addr (length data) (med p)) data new))"
    and erase: "\<lbrakk>good p; addr + len \<le> length (med p); erase_size dvd addr; erase_size dvd len; 0 < len;
        p_erase ops p addr len = (p', status)\<rbrakk> \<Longrightarrow>
      good p' \<and> (powered p' \<longrightarrow> powered p) \<and> (\<not> powered p \<longrightarrow> med p' = med p) \<and>
      (\<exists>new. length new = len \<and> med p' = blit (med p) addr new \<and>
         status \<noteq> HAL_NONE \<and> (if powered p' \<and> status = HAL_OK then new = replicate len 0xFF
          else erased_partly (subarr addr len (med p)) new))"

text \<open>The facade as the store finds it: initialised on the provider, with its geometry.\<close>

definition attached ::
  "'p provider \<Rightarrow> ('p \<Rightarrow> bytes) \<Rightarrow> ('p \<Rightarrow> bool) \<Rightarrow> nat \<Rightarrow> nat \<Rightarrow> nat \<Rightarrow> 'p eeprom \<Rightarrow> bool" where
  "attached ops med good es ps as e \<longleftrightarrow> s_provider e = Some ops \<and> 0 < s_size e \<and>
     s_size e \<le> length (med (s_storage e)) \<and> s_erase_size e = es \<and> s_program_size e = ps \<and>
     s_append_size e = as \<and> good (s_storage e)"

text \<open>One operation on the facade: what it changes is a part of the medium.\<close>

definition changes ::
  "('p \<Rightarrow> bytes) \<Rightarrow> ('p \<Rightarrow> bool) \<Rightarrow> 'p eeprom \<Rightarrow> 'p eeprom \<Rightarrow> nat \<Rightarrow> bytes \<Rightarrow> bool" where
  "changes med powered e e' addr new \<longleftrightarrow> (\<exists>p. e' = e\<lparr>s_storage := p\<rparr> \<and>
     (powered p \<longrightarrow> powered (s_storage e)) \<and> (\<not> powered (s_storage e) \<longrightarrow> med p = med (s_storage e)) \<and>
     med p = blit (med (s_storage e)) addr new)"

lemma region_status_OK:
  "region_status e addr len publish = HAL_OK \<longleftrightarrow>
     range_status e addr len = HAL_OK \<and> 0 < len \<and> 0 < publish \<and> publish < len \<and>
     s_erase_size e dvd addr \<and> s_erase_size e dvd len \<and> s_program_size e dvd addr \<and>
     s_program_size e dvd len \<and> s_program_size e dvd publish"
  by (auto simp: region_status_def Let_def mod_eq_0_iff_dvd)

lemma range_status_OK:
  "range_status e addr len = HAL_OK \<longleftrightarrow>
     s_provider e \<noteq> None \<and> s_size e \<noteq> 0 \<and> (0 < len \<longrightarrow> addr + len \<le> s_size e)"
  by (auto simp: range_status_def)

context kv_medium
begin

abbreviation online :: "'p eeprom \<Rightarrow> bool" where
  "online \<equiv> attached ops med good erase_size program_size append_size"

lemma online_changes:
  assumes e: "online e" "e' = e\<lparr>s_storage := p\<rparr>"
    and law: "good p \<and> (powered p \<longrightarrow> powered (s_storage e)) \<and>
      (\<not> powered (s_storage e) \<longrightarrow> med p = med (s_storage e)) \<and>
      (\<exists>new. length new = len \<and> med p = blit (med (s_storage e)) addr new \<and> P new)"
    and fits: "addr + len \<le> length (med (s_storage e))"
  shows "\<exists>new. online e' \<and> changes med powered e e' addr new \<and> length new = len \<and> P new"
proof -
  obtain new where new: "length new = len" "med p = blit (med (s_storage e)) addr new" "P new" using law by blast
  then have "length (med p) = length (med (s_storage e))" using fits by simp
  then have "online e'" using e law by (simp add: attached_def)
  moreover have "changes med powered e e' addr new"
    unfolding changes_def using law new(2) e(2) by blast
  ultimately show ?thesis using new by blast
qed

lemma facade_replace:
  assumes e: "online e" and st: "region_status e addr (length data) publish = HAL_OK"
    and run: "jh_eeprom_replace_region e addr data publish = (e', status)"
  shows "\<exists>new. online e' \<and> changes med powered e e' addr new \<and> length new = length data \<and>
    status \<noteq> HAL_NONE \<and> (if powered (s_storage e') \<and> status = HAL_OK then new = data
     else replaced_partly publish (subarr addr (length data) (med (s_storage e))) data new)"
proof -
  have geo: "addr + length data \<le> s_size e" "erase_size dvd addr" "erase_size dvd length data"
    "program_size dvd addr" "program_size dvd length data" "program_size dvd publish" "0 < publish"
    "publish < length data"
    using st e unfolding region_status_OK range_status_OK attached_def by simp_all
  have "data \<noteq> []" using geo(8) by auto
  obtain p where p: "p_replace_region ops (s_storage e) addr data publish = (p, status)" "e' = e\<lparr>s_storage := p\<rparr>"
    using run \<open>data \<noteq> []\<close> geo(7,8) e
    by (simp add: jh_eeprom_replace_region_def Let_def st with_provider_def attached_def split: prod.splits)
  have fits: "addr + length data \<le> length (med (s_storage e))" using geo(1) e by (simp add: attached_def)
  have "good (s_storage e)" and sp: "s_storage e' = p" using e p(2) by (simp_all add: attached_def)
  from replace [OF \<open>good (s_storage e)\<close> fits geo(2-8) p(1)] show ?thesis
    unfolding sp by (rule online_changes [OF e p(2) _ fits])
qed

lemma facade_append:
  assumes e: "online e" and fits: "addr + length data \<le> s_size e" "data \<noteq> []"
    and aligned: "append_size dvd addr" "append_size dvd length data"
    and run: "jh_eeprom_append_region e addr data = (e', status)"
  shows "\<exists>new. online e' \<and> changes med powered e e' addr new \<and> length new = length data \<and>
    status \<noteq> HAL_NONE \<and> (if powered (s_storage e') \<and> status = HAL_OK then new = data
     else written_partly (subarr addr (length data) (med (s_storage e))) data new)"
proof -
  have st: "range_status e addr (length data) = HAL_OK"
    using fits(1) e unfolding range_status_OK by (simp add: attached_def)
  obtain p where p: "p_append ops (s_storage e) addr data = (p, status)" "e' = e\<lparr>s_storage := p\<rparr>"
    using run fits(2) e aligned
    by (simp add: jh_eeprom_append_region_def Let_def st with_provider_def attached_def mod_eq_0_iff_dvd
        split: prod.splits)
  have inside: "addr + length data \<le> length (med (s_storage e))" using fits e by (simp add: attached_def)
  have "good (s_storage e)" and sp: "s_storage e' = p" using e p(2) by (simp_all add: attached_def)
  from append [OF \<open>good (s_storage e)\<close> inside aligned fits(2) p(1)] show ?thesis
    unfolding sp by (rule online_changes [OF e p(2) _ inside])
qed

lemma facade_erase:
  assumes e: "online e" and fits: "addr + len \<le> s_size e" "0 < len" "erase_size dvd addr" "erase_size dvd len"
    and run: "jh_eeprom_erase_region e addr len = (e', status)"
  shows "\<exists>new. online e' \<and> changes med powered e e' addr new \<and> length new = len \<and>
    status \<noteq> HAL_NONE \<and> (if powered (s_storage e') \<and> status = HAL_OK then new = replicate len 0xFF
     else erased_partly (subarr addr len (med (s_storage e))) new)"
proof -
  have st: "range_status e addr len = HAL_OK"
    using fits(1) e unfolding range_status_OK by (simp add: attached_def)
  obtain p where p: "p_erase ops (s_storage e) addr len = (p, status)" "e' = e\<lparr>s_storage := p\<rparr>"
    using run fits(2-4) e
    by (simp add: jh_eeprom_erase_region_def Let_def st with_provider_def attached_def mod_eq_0_iff_dvd
        split: prod.splits)
  have inside: "addr + len \<le> length (med (s_storage e))" using fits e by (simp add: attached_def)
  have "good (s_storage e)" and sp: "s_storage e' = p" using e p(2) by (simp_all add: attached_def)
  from erase [OF \<open>good (s_storage e)\<close> inside fits(3,4,2) p(1)] show ?thesis
    unfolding sp by (rule online_changes [OF e p(2) _ inside])
qed

lemma facade_region_erased:
  assumes "online e" "powered (s_storage e)" "addr + len \<le> s_size e" "0 < len"
  shows "jh_eeprom_region_erased e addr len = (all_erased (subarr addr len (med (s_storage e))), HAL_OK)"
  using assms region_erased [of "s_storage e" addr len]
  by (simp add: jh_eeprom_region_erased_def range_status_def attached_def)

lemma facade_read:
  assumes "online e" "powered (s_storage e)" "addr + len \<le> s_size e" "len \<le> length out"
  shows "hal_eeprom_read_bytes e addr out len = (blit out 0 (subarr addr len (med (s_storage e))), HAL_OK)"
proof (cases "len = 0")
  case True
  then show ?thesis by (simp add: hal_eeprom_read_bytes_def blit_def subarr_def)
next
  case False
  then have "range_status e addr len = HAL_OK" "clipped_len e addr len = len"
    using assms by (auto simp: range_status_def clipped_len_def attached_def Let_def)
  moreover have "addr + len \<le> length (med (s_storage e))" using assms by (simp add: attached_def)
  ultimately show ?thesis
    using assms False read [of "s_storage e" addr len out]
    by (simp add: hal_eeprom_read_bytes_def read_clipped_def attached_def combine_status_def)
qed

lemma facade_read_medium:
  assumes "online e" "powered (s_storage e)" "addr + len \<le> s_size e" "len \<le> length out"
  shows "jh_eeprom_read_medium e addr out len = (blit out 0 (subarr addr len (med (s_storage e))), HAL_OK)"
proof (cases "len = 0")
  case True
  then show ?thesis
    using assms by (simp add: jh_eeprom_read_medium_def blit_def subarr_def range_status_def attached_def)
next
  case False
  then have "range_status e addr len = HAL_OK" using assms by (auto simp: range_status_def attached_def)
  moreover have "addr + len \<le> length (med (s_storage e))" using assms by (simp add: attached_def)
  ultimately show ?thesis
    using assms False read_medium [of "s_storage e" addr len out]
    by (simp add: jh_eeprom_read_medium_def attached_def)
qed

end

end
