(* ===== verification/Rp_Program.thy ===== *)
theory Rp_Program
  imports Rp_Flash Kv_Medium
begin

text \<open>
  What the operations on the RP flash do to it, from what its parts promise: the laws of NOR flash
  (erasing sets bytes to 0xFF, programming clears bits, a cut program has done a part from the
  front), of the power (it only ever goes away, and without it nothing changes), and of the
  functions that take and release the flash.
\<close>

section \<open>The parts\<close>

definition kept :: "('w \<Rightarrow> bytes) \<Rightarrow> ('w \<Rightarrow> bool) \<Rightarrow> 'w \<Rightarrow> 'w \<Rightarrow> bool" where
  "kept view powered w w' \<longleftrightarrow> view w' = view w \<and> (powered w' \<longrightarrow> powered w)"

text \<open>From one state to a later one: the flash keeps its size, the power does not come back, and without power nothing changes.\<close>

definition later :: "('w \<Rightarrow> bytes) \<Rightarrow> ('w \<Rightarrow> bool) \<Rightarrow> 'w \<Rightarrow> 'w \<Rightarrow> bool" where
  "later view powered w w' \<longleftrightarrow> length (view w') = length (view w) \<and> (powered w' \<longrightarrow> powered w) \<and>
     (\<not> powered w \<longrightarrow> view w' = view w)"

lemma later_refl [simp]: "later view powered w w"
  by (simp add: later_def)

lemma later_trans [trans]: "later view powered w w1 \<Longrightarrow> later view powered w1 w2 \<Longrightarrow> later view powered w w2"
  by (auto simp: later_def)

lemma kept_later: "kept view powered w w' \<Longrightarrow> later view powered w w'"
  by (simp add: kept_def later_def)

lemma kept_trans: "kept view powered w w1 \<Longrightarrow> kept view powered w1 w2 \<Longrightarrow> kept view powered w w2"
  by (auto simp: kept_def)

locale rp_machine =
  fixes pl :: "'w rp_platform" and powered :: "'w \<Rightarrow> bool"
  assumes pages: "FLASH_PAGE_SIZE dvd length (xip pl w)"
    and erase_law: "\<lbrakk>FLASH_SECTOR_SIZE dvd at; FLASH_SECTOR_SIZE dvd n; 0 < n; at + n \<le> length (xip pl w);
        w' = flash_range_erase pl w at n\<rbrakk> \<Longrightarrow>
      later (xip pl) powered w w' \<and> (\<exists>new. length new = n \<and> xip pl w' = blit (xip pl w) at new \<and>
        (if powered w' then new = replicate n 0xFF else new = subarr at n (xip pl w) \<or> hd new = 0xFF))"
    and program_law: "\<lbrakk>FLASH_PAGE_SIZE dvd at; FLASH_PAGE_SIZE dvd length data; at + length data \<le> length (xip pl w);
        w' = flash_range_program pl w at data\<rbrakk> \<Longrightarrow>
      later (xip pl) powered w w' \<and> (\<exists>k \<le> length data. (powered w' \<longrightarrow> k = length data) \<and>
        xip pl w' = blit (xip pl w) at (map2 (AND) (subarr at k (xip pl w)) (take k data)))"
    and acquire_law: "ft_acquire (transactions pl) = Some f \<Longrightarrow> f w t = (w', st) \<Longrightarrow> kept (xip pl) powered w w' \<and> st \<noteq> HAL_NONE"
    and quiesce_law: "ft_quiesce (transactions pl) = Some f \<Longrightarrow> f w t = (w', st) \<Longrightarrow> kept (xip pl) powered w w' \<and> st \<noteq> HAL_NONE"
    and resume_law: "ft_resume (transactions pl) = Some r \<Longrightarrow> r w = (w', st) \<Longrightarrow> kept (xip pl) powered w w' \<and> st \<noteq> HAL_NONE"
    and release_law: "ft_release (transactions pl) = Some r \<Longrightarrow> r w = (w', st) \<Longrightarrow> kept (xip pl) powered w w' \<and> st \<noteq> HAL_NONE"
    and execute_law: "ft_execute (transactions pl) = Some x \<Longrightarrow> x w op t = (w', st) \<Longrightarrow>
      kept (xip pl) powered w w' \<and> st \<notin> {HAL_OK, HAL_NONE} \<or>
      (\<exists>w1 w2 st'. kept (xip pl) powered w w1 \<and> op w1 = (w2, st') \<and> kept (xip pl) powered w2 w' \<and>
         (st = st' \<or> st \<notin> {HAL_OK, HAL_NONE}))"
begin

section \<open>Transactions\<close>

text \<open>A transaction runs its operation at most once, and succeeds only if the operation did.\<close>

lemma transaction:
  assumes run: "jh_flash_transaction_engine_execute (Some (transactions pl)) w (Some op) t = (w', st)"
  shows "kept (xip pl) powered w w' \<and> st \<notin> {HAL_OK, HAL_NONE} \<or>
    (\<exists>w1 w2 st'. kept (xip pl) powered w w1 \<and> op w1 = (w2, st') \<and> kept (xip pl) powered w2 w' \<and>
       (st = st' \<or> st \<notin> {HAL_OK, HAL_NONE}))"
proof -
  consider (none) "w' = w" "st = HAL_EINVAL"
    | (all) a q x r l where "ft_acquire (transactions pl) = Some a" "ft_quiesce (transactions pl) = Some q"
        "ft_execute (transactions pl) = Some x" "ft_resume (transactions pl) = Some r" "ft_release (transactions pl) = Some l"
    using run by (auto simp: jh_flash_transaction_engine_execute_def split: option.splits)
  then show ?thesis
  proof cases
    case none
    then show ?thesis by (simp add: kept_def)
  next
    case all
    obtain wa sa where a: "a w t = (wa, sa)" by (cases "a w t")
    note A = acquire_law [OF all(1) a]
    show ?thesis
    proof (cases "sa = HAL_OK")
      case False
      then have "w' = wa" "st = sa" using run all a by (simp_all add: jh_flash_transaction_engine_execute_def)
      then have "kept (xip pl) powered w w' \<and> st \<notin> {HAL_OK, HAL_NONE}" using A False by simp
      then show ?thesis by (rule disjI1)
    next
      case True
      obtain wq sq where q: "q wa t = (wq, sq)" by (cases "q wa t")
      note Q = quiesce_law [OF all(2) q]
      have wq: "kept (xip pl) powered w wq" using kept_trans [OF conjunct1 [OF A] conjunct1 [OF Q]] .
      show ?thesis
      proof (cases "sq = HAL_OK")
        case False
        obtain wl sl where l: "l wq = (wl, sl)" by (cases "l wq")
        have "w' = wl" "st = sq" using run all a q l True False
          by (simp_all add: jh_flash_transaction_engine_execute_def first_error_def)
        moreover have "kept (xip pl) powered w wl" using kept_trans [OF wq conjunct1 [OF release_law [OF all(5) l]]] .
        ultimately have "kept (xip pl) powered w w' \<and> st \<notin> {HAL_OK, HAL_NONE}" using Q False by simp
        then show ?thesis by (rule disjI1)
      next
        case q_ok: True
        obtain wx sx where x: "x wq op t = (wx, sx)" by (cases "x wq op t")
        obtain wr sr where r: "r wx = (wr, sr)" by (cases "r wx")
        obtain wl sl where l: "l wr = (wl, sl)" by (cases "l wr")
        have res: "w' = wl" "st = first_error (first_error sx sr) sl"
          using run all a q x r l True q_ok by (simp_all add: jh_flash_transaction_engine_execute_def Let_def)
        have after: "kept (xip pl) powered wx w'"
          unfolding res(1) by (rule kept_trans [OF conjunct1 [OF resume_law [OF all(4) r]] conjunct1 [OF release_law [OF all(5) l]]])
        have st: "st = sx \<or> st \<notin> {HAL_OK, HAL_NONE}" "sx \<notin> {HAL_OK, HAL_NONE} \<Longrightarrow> st = sx"
          using resume_law [OF all(4) r] release_law [OF all(5) l] by (auto simp: res(2) first_error_def)
        from execute_law [OF all(3) x] show ?thesis
        proof
          assume "kept (xip pl) powered wq wx \<and> sx \<notin> {HAL_OK, HAL_NONE}"
          then have "kept (xip pl) powered w w'" "st \<notin> {HAL_OK, HAL_NONE}"
            using kept_trans [OF kept_trans [OF wq] after] st(2) by simp_all
          then show ?thesis by (intro disjI1 conjI)
        next
          assume "\<exists>w1 w2 st'. kept (xip pl) powered wq w1 \<and> op w1 = (w2, st') \<and> kept (xip pl) powered w2 wx \<and>
             (sx = st' \<or> sx \<notin> {HAL_OK, HAL_NONE})"
          then obtain w1 w2 st' where w: "kept (xip pl) powered wq w1" "op w1 = (w2, st')" "kept (xip pl) powered w2 wx"
            "sx = st' \<or> sx \<notin> {HAL_OK, HAL_NONE}" by blast
          have "st = st' \<or> st \<notin> {HAL_OK, HAL_NONE}" using st w(4) by blast
          note once = kept_trans [OF wq w(1)] w(2) kept_trans [OF w(3) after] this
          show ?thesis by (rule disjI2, rule exI [of _ w1], rule exI [of _ w2], rule exI [of _ st'])
              (intro conjI once)
        qed
      qed
    qed
  qed
qed

section \<open>Programming a range of erased flash\<close>

text \<open>\<open>reached k page\<close>: the range is programmed up to \<open>k\<close>, and up to the page unless the power is gone.\<close>

definition programmed :: "bytes \<Rightarrow> nat \<Rightarrow> bytes \<Rightarrow> 'w \<Rightarrow> nat \<Rightarrow> nat \<Rightarrow> bool" where
  "programmed x0 at data w k page \<longleftrightarrow> xip pl w = blit x0 at (take k data) \<and> k \<le> length data \<and>
     k \<le> page - at \<and> (powered w \<longrightarrow> k = min (length data) (page - at))"

lemma nth_blit_take:
  "at + length data \<le> length x0 \<Longrightarrow> i < length x0 \<Longrightarrow> k \<le> length data \<Longrightarrow>
   blit x0 at (take k data) ! i = (if at \<le> i \<and> i < at + k then data ! (i - at) else x0 ! i)"
  by (auto simp: nth_blit)

lemma page_blit:
  assumes x0: "at + length data \<le> length x0" "\<forall>i. at \<le> i \<longrightarrow> i < at + length data \<longrightarrow> x0 ! i = 0xFF"
    and page: "page + 256 \<le> length x0" "k = min (length data) (page - at)" "j \<le> 256"
  shows "blit (blit x0 at (take k data)) page
      (map2 (AND) (subarr page j (blit x0 at (take k data))) (take j (page_image at data (at + length data) page))) =
    blit x0 at (take (min (length data) (page + j - at)) data)"
proof (rule nth_equalityI)
  have len: "length (take k data) \<le> length data" "at + length (take k data) \<le> length x0"
    "at + length (take (min (length data) (page + j - at)) data) \<le> length x0" using x0(1) page(2) by simp_all
  have img: "length (page_image at data (at + length data) page) = 256" by (simp add: page_image_def FLASH_PAGE_SIZE_def)
  let ?m = "map2 (AND) (subarr page j (blit x0 at (take k data))) (take j (page_image at data (at + length data) page))"
  have m: "length ?m = j" "page + j \<le> length x0" using page img len(2) by simp_all
  show "length (blit (blit x0 at (take k data)) page ?m) = length (blit x0 at (take (min (length data) (page + j - at)) data))"
    using m len by simp
  fix i assume "i < length (blit (blit x0 at (take k data)) page ?m)"
  then have i: "i < length x0" using m len by simp
  have ones: "(0xFF :: u8) = -1" by simp
  have mid: "?m ! (i - page) = (if at \<le> i \<and> i < at + length data then data ! (i - at) else x0 ! i)" if "page \<le> i" "i < page + j"
  proof -
    have old: "subarr page j (blit x0 at (take k data)) ! (i - page) = (if at \<le> i \<and> i < at + k then data ! (i - at) else x0 ! i)"
    proof -
      have "subarr page j (blit x0 at (take k data)) ! (i - page) = blit x0 at (take k data) ! i"
        using that m(2) len(2) by (simp add: nth_subarr)
      then show ?thesis using nth_blit_take [OF x0(1) i, of k] page(2) by simp
    qed
    have new: "take j (page_image at data (at + length data) page) ! (i - page) =
        (if at \<le> i \<and> i < at + length data then data ! (i - at) else 0xFF)"
      using that page(3) by (simp add: page_image_def FLASH_PAGE_SIZE_def Let_def)
    have "?m ! (i - page) = subarr page j (blit x0 at (take k data)) ! (i - page) AND
        take j (page_image at data (at + length data) page) ! (i - page)"
      using that m(1) len(2) m(2) img page(3) by simp
    then show ?thesis unfolding old new using x0(2) that page(2) by (auto simp: ones)
  qed
  show "blit (blit x0 at (take k data)) page ?m ! i = blit x0 at (take (min (length data) (page + j - at)) data) ! i"
  proof (cases "page \<le> i \<and> i < page + j")
    case True
    then have "blit (blit x0 at (take k data)) page ?m ! i = ?m ! (i - page)"
      using m len i by (simp add: nth_blit)
    moreover have "blit x0 at (take (min (length data) (page + j - at)) data) ! i =
        (if at \<le> i \<and> i < at + length data then data ! (i - at) else x0 ! i)"
      using nth_blit_take [OF x0(1) i, of "min (length data) (page + j - at)"] True by auto
    ultimately show ?thesis using mid True by simp
  next
    case False
    then have "blit (blit x0 at (take k data)) page ?m ! i = blit x0 at (take k data) ! i"
      using m len i by (auto simp: nth_blit)
    then show ?thesis
      using nth_blit_take [OF x0(1) i, of k] nth_blit_take [OF x0(1) i, of "min (length data) (page + j - at)"] False page(2)
      by auto
  qed
qed

lemma and_ones: "length xs \<le> n \<Longrightarrow> map2 (AND) (xs :: bytes) (replicate n 0xFF) = xs"
proof (intro nth_equalityI)
  have ones: "(0xFF :: u8) = -1" by simp
  fix i assume "length xs \<le> n" "i < length (map2 (AND) xs (replicate n 0xFF))"
  then show "map2 (AND) xs (replicate n 0xFF) ! i = xs ! i" by (simp add: ones)
qed simp

lemma program_pages_ok:
  assumes x0: "at + length data \<le> length x0" "\<forall>i. at \<le> i \<longrightarrow> i < at + length data \<longrightarrow> x0 ! i = 0xFF" "256 dvd length x0"
    and "256 dvd page" "programmed x0 at data w k page"
  shows "\<exists>k'. programmed x0 at data (program_pages pl at data (at + length data) (at + length data) w page) k' (at + length data) \<and>
    later (xip pl) powered w (program_pages pl at data (at + length data) (at + length data) w page)"
  using assms(4,5)
proof (induction "at + length data - page" arbitrary: page w k rule: less_induct)
  case less
  note prog = less.prems(2) [unfolded programmed_def]
  show ?case
  proof (cases "page < at + length data")
    case False
    then have "program_pages pl at data (at + length data) (at + length data) w page = w" by (simp add: program_pages.simps)
    moreover have "programmed x0 at data w k (at + length data)" using prog False unfolding programmed_def by auto
    ultimately show ?thesis by auto
  next
    case True
    define img where "img = page_image at data (at + length data) page"
    define w1 where "w1 = (if \<not> list_all (\<lambda>v. v = 0xFF) img then flash_range_program pl w page img else w)"
    have next_eq: "program_pages pl at data (at + length data) (at + length data) w page =
        program_pages pl at data (at + length data) (at + length data) w1 (page + 256)"
      using True by (subst program_pages.simps) (simp add: img_def w1_def FLASH_PAGE_SIZE_def Let_def)
    have len: "length img = 256" by (simp add: img_def page_image_def FLASH_PAGE_SIZE_def)
    have lx: "length (xip pl w) = length x0" using prog x0(1) by simp
    have page: "page + 256 \<le> length x0"
    proof -
      have "page < length x0" using True x0(1) by simp
      then obtain a b where "page = 256 * a" "length x0 = 256 * b" "a < b"
        using less.prems(1) x0(3) by (auto elim!: dvdE)
      then show ?thesis by simp
    qed
    have step: "programmed x0 at data w1 (if powered w then min (length data) (page + j - at) else k) (page + 256)"
      if j: "j \<le> 256" "powered w1 \<longrightarrow> j = 256 \<and> powered w"
        "powered w \<Longrightarrow> xip pl w1 = blit (xip pl w) page (map2 (AND) (subarr page j (xip pl w)) (take j img))"
        "\<not> powered w \<Longrightarrow> xip pl w1 = xip pl w" for j
    proof (cases "powered w")
      case True
      then have k: "k = min (length data) (page - at)" using prog by simp
      have "xip pl w1 = blit x0 at (take (min (length data) (page + j - at)) data)"
        using j(3) [OF True] page_blit [OF x0(1,2) page k j(1)] prog by (simp add: img_def)
      then show ?thesis using True j unfolding programmed_def by auto
    next
      case False
      then show ?thesis using prog j unfolding programmed_def by auto
    qed
    have "\<exists>k1. programmed x0 at data w1 k1 (page + 256) \<and> later (xip pl) powered w w1"
    proof (cases "list_all (\<lambda>v. v = 0xFF) img")
      case True
      then have "w1 = w" "img = replicate 256 0xFF" using len by (simp_all add: w1_def list_all_iff replicate_eqI)
      then show ?thesis
        using step [of 256] and_ones [of "subarr page 256 (xip pl w)" 256] blit_same [of page 256 "xip pl w"] page lx by auto
    next
      case False
      then have w1: "w1 = flash_range_program pl w page img" by (simp add: w1_def)
      have "FLASH_PAGE_SIZE dvd page" "FLASH_PAGE_SIZE dvd length img" "page + length img \<le> length (xip pl w)"
        using less.prems(1) len page lx by (simp_all add: FLASH_PAGE_SIZE_def)
      from program_law [OF this w1] obtain j where j: "later (xip pl) powered w w1" "j \<le> 256"
        "powered w1 \<longrightarrow> j = 256" "xip pl w1 = blit (xip pl w) page (map2 (AND) (subarr page j (xip pl w)) (take j img))"
        unfolding len by blast
      then show ?thesis using step [of j] by (auto simp: later_def)
    qed
    then obtain k1 where k1: "programmed x0 at data w1 k1 (page + 256)" "later (xip pl) powered w w1" by blast
    have "at + length data - (page + 256) < at + length data - page" "256 dvd page + 256" using True less.prems(1) by simp_all
    from less.hyps [OF this k1(1)] show ?thesis unfolding next_eq using later_trans [OF k1(2)] by blast
  qed
qed

end

end
