(* ===== verification/Rp_Storage.thy ===== *)
theory Rp_Storage
  imports Rp_Program
begin

text \<open>
  The operations of a partition, cut short or not: what they leave in the flash.
\<close>

context rp_machine
begin

section \<open>Ranges\<close>

lemma program_pages_later:
  assumes "256 dvd page" "stop \<le> length (xip pl w)"
  shows "later (xip pl) powered w (program_pages pl at data stop torn w page)"
  using assms
proof (induction "stop - page" arbitrary: page w rule: less_induct)
  case less
  show ?case
  proof (cases "page < stop")
    case False
    then show ?thesis by (simp add: program_pages.simps)
  next
    case True
    define img where "img = page_image at data torn page"
    define w1 where "w1 = (if \<not> list_all (\<lambda>v. v = 0xFF) img then flash_range_program pl w page img else w)"
    have next_eq: "program_pages pl at data stop torn w page = program_pages pl at data stop torn w1 (page + 256)"
      using True by (subst program_pages.simps) (simp add: img_def w1_def FLASH_PAGE_SIZE_def Let_def)
    have len: "length img = 256" by (simp add: img_def page_image_def FLASH_PAGE_SIZE_def)
    obtain a where a: "length (xip pl w) = 256 * a" using pages [of w] by (auto simp: FLASH_PAGE_SIZE_def elim: dvdE)
    obtain b where b: "page = 256 * b" using less.prems(1) by (auto elim: dvdE)
    have "b < a" using True less.prems(2) a b by simp
    then have fits: "page + 256 \<le> length (xip pl w)" using a b by simp
    have w1: "later (xip pl) powered w w1"
      using program_law [of page img w w1] less.prems(1) len fits by (simp add: w1_def FLASH_PAGE_SIZE_def)
    have "later (xip pl) powered w1 (program_pages pl at data stop torn w1 (page + 256))"
      using True less.prems w1 by (intro less.hyps) (simp_all add: later_def)
    then show ?thesis unfolding next_eq using later_trans [OF w1] by blast
  qed
qed

lemma program_bytes_later:
  assumes "at + len \<le> length (xip pl w)"
  shows "later (xip pl) powered w (program_bytes pl w at data len written)"
  unfolding program_bytes_def using assms
  by (intro program_pages_later) (simp_all add: FLASH_PAGE_SIZE_def dvd_minus_mod)

lemma program_bytes_ok:
  assumes fits: "at + length data \<le> length (xip pl w)" and old: "all_erased (subarr at (length data) (xip pl w))"
  obtains k where "k \<le> length data" "xip pl (program_bytes pl w at data (length data) (length data)) = blit (xip pl w) at (take k data)"
    "powered (program_bytes pl w at data (length data) (length data)) \<Longrightarrow> k = length data"
proof -
  let ?page = "at - at mod 256"
  have ff: "\<forall>i. at \<le> i \<longrightarrow> i < at + length data \<longrightarrow> xip pl w ! i = 0xFF"
  proof (intro allI impI)
    fix i assume i: "at \<le> i" "i < at + length data"
    then have "subarr at (length data) (xip pl w) ! (i - at) = xip pl w ! i" using fits by (simp add: nth_subarr)
    moreover have "i - at < length (subarr at (length data) (xip pl w))" using i fits by simp
    ultimately show "xip pl w ! i = 0xFF" using old unfolding all_erased_def list_all_length by metis
  qed
  have p: "256 dvd ?page" by (simp add: dvd_minus_mod)
  have "programmed (xip pl w) at data w 0 ?page" by (simp add: programmed_def)
  from program_pages_ok [OF fits ff _ p this] pages [of w] obtain k where
    "programmed (xip pl w) at data (program_pages pl at data (at + length data) (at + length data) w ?page) k (at + length data)"
    by (auto simp: FLASH_PAGE_SIZE_def)
  then show thesis using that [of k] unfolding programmed_def program_bytes_def FLASH_PAGE_SIZE_def by auto
qed

lemma erased_pad:
  assumes "off + length data \<le> length x" "all_erased (subarr off (length data) x)" "k \<le> length data"
  shows "blit x off (take k data) = blit x off (take k data @ replicate (length data - k) 0xFF)"
proof (rule nth_equalityI)
  fix i assume "i < length (blit x off (take k data))"
  then have i: "i < length x" using assms by simp
  have ff: "x ! i = 0xFF" if "off \<le> i" "i < off + length data"
  proof -
    have "subarr off (length data) x ! (i - off) = x ! i" using that assms by (simp add: nth_subarr)
    moreover have "i - off < length (subarr off (length data) x)" using that assms by simp
    ultimately show ?thesis using assms(2) unfolding all_erased_def list_all_length by metis
  qed
  show "blit x off (take k data) ! i = blit x off (take k data @ replicate (length data - k) 0xFF) ! i"
    using assms i ff by (auto simp: nth_blit nth_append)
qed (use assms in simp)

section \<open>Operations\<close>

lemma transaction_effect:
  assumes run: "jh_flash_transaction_engine_execute (Some (transactions pl)) w (Some op) t = (w', st)"
    and fits: "at + n \<le> length (xip pl w)"
    and op: "\<And>w1 w2 st'. kept (xip pl) powered w w1 \<Longrightarrow> op w1 = (w2, st') \<Longrightarrow> later (xip pl) powered w1 w2 \<and> st' \<noteq> HAL_NONE"
    and effect: "\<And>w1 w2 st'. kept (xip pl) powered w w1 \<Longrightarrow> powered w1 \<Longrightarrow> op w1 = (w2, st') \<Longrightarrow>
      \<exists>new. length new = n \<and> xip pl w2 = blit (xip pl w) at new \<and> P new \<and> (powered w2 \<and> st' = HAL_OK \<longrightarrow> Q new)"
    and old: "P (subarr at n (xip pl w))"
  shows "later (xip pl) powered w w' \<and> st \<noteq> HAL_NONE \<and>
    (\<exists>new. length new = n \<and> xip pl w' = blit (xip pl w) at new \<and> P new \<and> (powered w' \<and> st = HAL_OK \<longrightarrow> Q new))"
  using transaction [OF run]
proof
  assume none: "kept (xip pl) powered w w' \<and> st \<notin> {HAL_OK, HAL_NONE}"
  then have "xip pl w' = blit (xip pl w) at (subarr at n (xip pl w))" using blit_same [OF fits] by (simp add: kept_def)
  then show ?thesis using none old fits by (intro conjI exI [of _ "subarr at n (xip pl w)"]) (auto simp: kept_later)
next
  assume "\<exists>w1 w2 st'. kept (xip pl) powered w w1 \<and> op w1 = (w2, st') \<and> kept (xip pl) powered w2 w' \<and>
    (st = st' \<or> st \<notin> {HAL_OK, HAL_NONE})"
  then obtain w1 w2 st' where s: "kept (xip pl) powered w w1" "op w1 = (w2, st')" "kept (xip pl) powered w2 w'"
    "st = st' \<or> st \<notin> {HAL_OK, HAL_NONE}" by blast
  have o: "later (xip pl) powered w1 w2" "st' \<noteq> HAL_NONE" using op [OF s(1,2)] by simp_all
  have lat: "later (xip pl) powered w w'"
    using later_trans [OF later_trans [OF kept_later [OF s(1)] o(1)] kept_later [OF s(3)]] .
  have st: "st \<noteq> HAL_NONE" "st = HAL_OK \<longrightarrow> st' = HAL_OK" using s(4) o(2) by auto
  have same: "xip pl w' = xip pl w2" "powered w' \<longrightarrow> powered w2" using s(3) by (simp_all add: kept_def)
  show ?thesis
  proof (cases "powered w1")
    case True
    then show ?thesis using effect [OF s(1) True s(2)] lat st same by metis
  next
    case False
    then have "xip pl w' = blit (xip pl w) at (subarr at n (xip pl w))" "\<not> powered w'"
      using o(1) s(1) same blit_same [OF fits] by (auto simp: later_def kept_def)
    then show ?thesis using lat st(1) old fits by (intro conjI exI [of _ "subarr at n (xip pl w)"]) auto
  qed
qed

lemma erase_effect:
  assumes "FLASH_SECTOR_SIZE dvd at" "FLASH_SECTOR_SIZE dvd n" "0 < n" "at + n \<le> length (xip pl w)"
    and run: "rp_execute pl w ActErase at [] n = (w', st)"
  shows "later (xip pl) powered w w' \<and> st \<noteq> HAL_NONE \<and>
    (\<exists>new. length new = n \<and> xip pl w' = blit (xip pl w) at new \<and> erased_partly (subarr at n (xip pl w)) new \<and>
       (powered w' \<and> st = HAL_OK \<longrightarrow> new = replicate n 0xFF))"
proof (rule transaction_effect [OF run [unfolded rp_execute_def rp_transaction_def] assms(4)])
  fix w1 w2 st'
  assume k: "kept (xip pl) powered w w1"
    and r: "run_flash_operation pl \<lparr>fo_action = ActErase, fo_offset = at, fo_data = [], fo_size = n,
      fo_publish_size = 0, fo_erased = False\<rparr> w1 = (w2, st')"
  have w2: "w2 = flash_range_erase pl w1 at n" "st' = HAL_OK" using r by (simp_all add: run_flash_operation_def Let_def)
  have "at + n \<le> length (xip pl w1)" using assms(4) k by (simp add: kept_def)
  note law = erase_law [OF assms(1-3) this w2(1)]
  then show "later (xip pl) powered w1 w2 \<and> st' \<noteq> HAL_NONE" using w2(2) by simp
  obtain new where new: "length new = n" "xip pl w2 = blit (xip pl w1) at new"
    "if powered w2 then new = replicate n 0xFF else new = subarr at n (xip pl w1) \<or> hd new = 0xFF"
    using law by blast
  have "hd (replicate n (0xFF :: u8)) = 0xFF" "replicate n (0xFF :: u8) \<noteq> []" using assms(3) by (simp_all add: hd_replicate)
  then have "erased_partly (subarr at n (xip pl w)) new"
    using new k assms(3) by (auto simp: erased_partly_def kept_def split: if_splits)
  then show "\<exists>new. length new = n \<and> xip pl w2 = blit (xip pl w) at new \<and> erased_partly (subarr at n (xip pl w)) new \<and>
      (powered w2 \<and> st' = HAL_OK \<longrightarrow> new = replicate n 0xFF)"
    using new k by (intro exI [of _ new]) (simp add: kept_def)
qed (simp add: erased_partly_def)

lemma program_effect:
  assumes fits: "at + length data \<le> length (xip pl w)" "data \<noteq> []"
    and erased: "powered w \<Longrightarrow> all_erased (subarr at (length data) (xip pl w))"
    and run: "rp_execute pl w ActProgramBytes at data (length data) = (w', st)"
  shows "later (xip pl) powered w w' \<and> st \<noteq> HAL_NONE \<and>
    (\<exists>new. length new = length data \<and> xip pl w' = blit (xip pl w) at new \<and>
       written_partly (subarr at (length data) (xip pl w)) data new \<and> (powered w' \<and> st = HAL_OK \<longrightarrow> new = data))"
proof (rule transaction_effect [OF run [unfolded rp_execute_def rp_transaction_def] fits(1)])
  fix w1 w2 st'
  assume k: "kept (xip pl) powered w w1"
    and r: "run_flash_operation pl \<lparr>fo_action = ActProgramBytes, fo_offset = at, fo_data = data, fo_size = length data,
      fo_publish_size = 0, fo_erased = False\<rparr> w1 = (w2, st')"
  have w2: "w2 = program_bytes pl w1 at data (length data) (length data)" "st' = HAL_OK \<or> st' = HAL_EIO"
    using r by (auto simp: run_flash_operation_def Let_def split: if_splits)
  have fits1: "at + length data \<le> length (xip pl w1)" using fits(1) k by (simp add: kept_def)
  show "later (xip pl) powered w1 w2 \<and> st' \<noteq> HAL_NONE" using program_bytes_later [OF fits1] w2 by auto
  show "\<exists>new. length new = length data \<and> xip pl w2 = blit (xip pl w) at new \<and>
      written_partly (subarr at (length data) (xip pl w)) data new \<and> (powered w2 \<and> st' = HAL_OK \<longrightarrow> new = data)"
    if on: "powered w1"
  proof -
    have er: "all_erased (subarr at (length data) (xip pl w))" using erased on k by (simp add: kept_def)
    then have "all_erased (subarr at (length data) (xip pl w1))" using k by (simp add: kept_def)
    from program_bytes_ok [OF fits1 this] obtain n where n: "n \<le> length data" "xip pl w2 = blit (xip pl w1) at (take n data)"
      "powered w2 \<Longrightarrow> n = length data" unfolding w2(1) by blast
    show ?thesis
      using n er erased_pad [OF fits(1) er n(1)] k
      by (intro exI [of _ "take n data @ replicate (length data - n) 0xFF"]) (auto simp: written_partly_def kept_def)
  qed
qed (simp add: written_partly_def)

section \<open>Replacing a region\<close>

lemma ones_and: "length xs \<le> n \<Longrightarrow> map2 (AND) (replicate n 0xFF) (xs :: bytes) = xs"
proof (intro nth_equalityI)
  have ones: "(0xFF :: u8) = -1" by simp
  fix i assume "length xs \<le> n" "i < length (map2 (AND) (replicate n 0xFF) xs)"
  then show "map2 (AND) (replicate n 0xFF) xs ! i = xs ! i" by (simp add: ones)
qed simp

text \<open>The last two steps: the body behind a part of erased bytes, then that part.\<close>

lemma publish_effect:
  assumes fits: "at + length data \<le> length (xip pl w)" and publish: "0 < publish" "publish < length data"
      "FLASH_PAGE_SIZE dvd at" "FLASH_PAGE_SIZE dvd publish"
    and old: "all_erased (subarr at (length data) (xip pl w))"
    and wb: "wb = program_bytes pl w (at + publish) (drop publish data) (length data - publish) (length data - publish)"
    and w2: "w2 = (if stored_matches pl wb (at + publish) (drop publish data)
      then flash_range_program pl wb at (take publish data) else wb)"
  obtains new where "length new = length data" "xip pl w2 = blit (xip pl w) at new"
    "replaced_partly publish (subarr at (length data) (xip pl w)) data new"
    "powered w2 \<Longrightarrow> stored_matches pl wb (at + publish) (drop publish data) \<and> new = data"
proof -
  let ?body = "drop publish data" and ?n = "length data"
  let ?old = "subarr at ?n (xip pl w)"
  have ff: "?old = replicate ?n 0xFF" using old fits by (simp add: all_erased_def list_all_iff replicate_eqI)
  have body: "at + publish + length ?body \<le> length (xip pl w)" "all_erased (subarr (at + publish) (length ?body) (xip pl w))"
  proof -
    show "at + publish + length ?body \<le> length (xip pl w)" using fits publish(2) by simp
    have "subarr (at + publish) (length ?body) (xip pl w) = subarr publish (length ?body) ?old"
      using publish(2) by (simp add: subarr_subarr)
    then show "all_erased (subarr (at + publish) (length ?body) (xip pl w))"
      using old unfolding ff by (simp add: all_erased_def subarr_def list_all_iff)
  qed
  obtain k where k: "k \<le> length ?body" "xip pl wb = blit (xip pl w) (at + publish) (take k ?body)"
    "powered wb \<Longrightarrow> k = length ?body"
    using program_bytes_ok [OF body] unfolding wb by simp blast
  have later1: "later (xip pl) powered w wb" unfolding wb using body(1) publish(2) by (intro program_bytes_later) simp
  define new where "new k' = replicate publish 0xFF @ take k' ?body @ replicate (length ?body - k') (0xFF :: u8)" for k'
  have new: "length (new k') = ?n" "hd (new k') = 0xFF" "new k' \<noteq> []" if "k' \<le> length ?body" for k'
    using that publish by (auto simp: new_def hd_append hd_replicate)
  have xb: "xip pl wb = blit (xip pl w) at (new k)"
  proof -
    let ?rest = "take k ?body @ replicate (length ?body - k) (0xFF :: u8)" and ?y = "blit (xip pl w) (at + publish)"
    have "subarr at publish (?y ?rest) = subarr at publish (xip pl w)"
      using body(1) k(1) by (intro subarr_blit_disjoint) auto
    also have "\<dots> = subarr 0 publish ?old" using publish(2) subarr_subarr [of 0 publish ?n at "xip pl w"] by simp
    also have "\<dots> = replicate publish 0xFF" using publish(2) unfolding ff by simp
    finally have same: "subarr at publish (?y ?rest) = replicate publish 0xFF" .
    have "blit (xip pl w) at (new k) = blit (?y ?rest) at (replicate publish 0xFF)"
      unfolding new_def using body(1) k(1) by (intro blit_before [symmetric]) auto
    also have "\<dots> = ?y ?rest" unfolding same [symmetric] using body(1) k(1) by (intro blit_same) auto
    also have "\<dots> = xip pl wb" unfolding k(2) by (rule erased_pad [OF body k(1), symmetric])
    finally show ?thesis by simp
  qed
  note result = that
  have early: thesis if w: "xip pl w2 = xip pl wb" "\<not> powered w2"
    using w new [OF k(1)] xb by (intro result [of "new k"]) (auto simp: replaced_partly_def)
  show thesis
  proof (cases "stored_matches pl wb (at + publish) ?body")
    case False
    then have "w2 = wb" by (simp add: w2)
    have "\<not> powered wb"
    proof
      assume "powered wb"
      then have "subarr (at + publish) (length ?body) (xip pl wb) = ?body" using k body(1) by simp
      then show False using False by (simp add: stored_matches_def)
    qed
    then show thesis using early \<open>w2 = wb\<close> by simp
  next
    case True
    then have w2': "w2 = flash_range_program pl wb at (take publish data)" by (simp add: w2)
    have lx: "length (xip pl wb) = length (xip pl w)" using later1 by (simp add: later_def)
    then have "FLASH_PAGE_SIZE dvd length (take publish data)" "at + length (take publish data) \<le> length (xip pl wb)"
      using publish(2,4) fits by (simp_all add: min_def)
    note law = program_law [OF publish(3) this w2']
    have "length (take publish data) = publish" using publish(2) by simp
    from law [unfolded this] obtain j where j: "later (xip pl) powered wb w2" "j \<le> publish"
      "powered w2 \<Longrightarrow> j = publish"
      "xip pl w2 = blit (xip pl wb) at (map2 (AND) (subarr at j (xip pl wb)) (take j (take publish data)))" by blast
    show thesis
    proof (cases "powered wb")
      case False
      then show thesis using early j(1) by (auto simp: later_def)
    next
      case on: True
      have nk: "new k = replicate publish 0xFF @ ?body" using k(3) [OF on] by (simp add: new_def)
      have "subarr at j (xip pl wb) = take j (new k)"
      proof -
        have "subarr at j (xip pl wb) = subarr 0 j (subarr at ?n (xip pl wb))"
          using j(2) publish(2) subarr_subarr [of 0 j ?n at "xip pl wb"] by simp
        then show ?thesis using fits new(1) [OF k(1)] by (simp add: xb)
      qed
      also have "\<dots> = replicate j 0xFF" using j(2) by (simp add: nk)
      finally have "map2 (AND) (subarr at j (xip pl wb)) (take j (take publish data)) = take j data"
        using ones_and [of "take j data" j] j(2) by (simp add: min_def)
      then have "xip pl w2 = blit (blit (xip pl w) at (new k)) at (take j data)" using j(4) by (simp add: xb)
      also have "\<dots> = blit (xip pl w) at (take j data @ drop j (new k))"
        using j(2) publish(2) new(1) [OF k(1)] fits by (simp add: blit_def min_def)
      finally have x2: "xip pl w2 = blit (xip pl w) at (take j data @ replicate (publish - j) 0xFF @ ?body)"
        using j(2) by (simp add: nk)
      show thesis
        using j(2,3) publish(2) True by (intro result [OF _ x2]) (auto simp: replaced_partly_def)
    qed
  qed
qed

lemma replace_effect:
  assumes fits: "at + length data \<le> length (xip pl w)" and publish: "0 < publish" "publish < length data"
      "FLASH_SECTOR_SIZE dvd at" "FLASH_SECTOR_SIZE dvd length data" "FLASH_PAGE_SIZE dvd publish"
    and erased: "erased \<Longrightarrow> powered w \<Longrightarrow> all_erased (subarr at (length data) (xip pl w))"
    and run: "rp_transaction pl w \<lparr>fo_action = ActReplacePublished, fo_offset = at, fo_data = data, fo_size = length data,
      fo_publish_size = publish, fo_erased = erased\<rparr> = (w', st)"
  shows "later (xip pl) powered w w' \<and> st \<noteq> HAL_NONE \<and>
    (\<exists>new. length new = length data \<and> xip pl w' = blit (xip pl w) at new \<and>
       replaced_partly publish (subarr at (length data) (xip pl w)) data new \<and> (powered w' \<and> st = HAL_OK \<longrightarrow> new = data))"
proof (rule transaction_effect [OF run [unfolded rp_transaction_def] fits])
  fix w1 w2 st'
  assume k: "kept (xip pl) powered w w1"
    and r: "run_flash_operation pl \<lparr>fo_action = ActReplacePublished, fo_offset = at, fo_data = data, fo_size = length data,
      fo_publish_size = publish, fo_erased = erased\<rparr> w1 = (w2, st')"
  let ?n = "length data" and ?body = "length data - publish"
  define we where "we = (if erased then w1 else flash_range_erase pl w1 at ?n)"
  define wb where "wb = program_bytes pl we (at + publish) (drop publish data) ?body ?body"
  have w2: "w2 = (if stored_matches pl wb (at + publish) (drop publish data)
      then flash_range_program pl wb at (take publish data) else wb)" "st' = HAL_OK \<or> st' = HAL_EIO"
    using r by (auto simp: run_flash_operation_def Let_def we_def wb_def split: if_splits)
  have fits1: "at + ?n \<le> length (xip pl w1)" using fits k by (simp add: kept_def)
  have page: "FLASH_PAGE_SIZE dvd at" using publish(3) by (auto simp: FLASH_PAGE_SIZE_def FLASH_SECTOR_SIZE_def elim!: dvdE)
  have e: "later (xip pl) powered w1 we \<and> (\<exists>new. length new = ?n \<and> xip pl we = blit (xip pl w1) at new \<and>
      (powered we \<longrightarrow> all_erased new) \<and> (new = subarr at ?n (xip pl w1) \<or> hd new = 0xFF))"
  proof (cases erased)
    case True
    then show ?thesis using erased k blit_same [OF fits1] fits1
      by (intro conjI exI [of _ "subarr at ?n (xip pl w1)"]) (auto simp: we_def kept_def)
  next
    case False
    then have "we = flash_range_erase pl w1 at ?n" by (simp add: we_def)
    note w = this
    have "0 < ?n" using publish(2) by linarith
    from erase_law [OF publish(3,4) this fits1 w] obtain new where new: "later (xip pl) powered w1 we"
      "length new = ?n" "xip pl we = blit (xip pl w1) at new"
      "if powered we then new = replicate ?n 0xFF else new = subarr at ?n (xip pl w1) \<or> hd new = 0xFF" by (elim exE conjE) (rule that)
    have "hd (replicate ?n (0xFF :: u8)) = 0xFF" using publish(2) by (cases ?n) simp_all
    then show ?thesis using new
      by (intro conjI exI [of _ new]) (auto simp: all_erased_def list_all_iff split: if_splits)
  qed
  then obtain ne where ne: "length ne = ?n" "xip pl we = blit (xip pl w1) at ne" "powered we \<Longrightarrow> all_erased ne"
    "ne = subarr at ?n (xip pl w1) \<or> hd ne = 0xFF" by blast
  have fits2: "at + ?n \<le> length (xip pl we)" using fits1 ne(1,2) by simp
  have lb: "later (xip pl) powered we wb" unfolding wb_def using fits2 publish(2) by (intro program_bytes_later) simp
  have l2: "later (xip pl) powered wb w2"
  proof (cases "stored_matches pl wb (at + publish) (drop publish data)")
    case True
    have "FLASH_PAGE_SIZE dvd length (take publish data)" "at + length (take publish data) \<le> length (xip pl wb)"
      using publish(2,5) fits2 lb by (simp_all add: min_def later_def)
    then show ?thesis using program_law [OF page, of "take publish data" wb w2] True w2(1) by simp
  qed (simp add: w2(1))
  show lat: "later (xip pl) powered w1 w2 \<and> st' \<noteq> HAL_NONE"
    using later_trans [OF later_trans [OF conjunct1 [OF e] lb] l2] w2(2) by auto
  show "\<exists>new. length new = ?n \<and> xip pl w2 = blit (xip pl w) at new \<and>
      replaced_partly publish (subarr at ?n (xip pl w)) data new \<and> (powered w2 \<and> st' = HAL_OK \<longrightarrow> new = data)"
  proof (cases "powered we")
    case False
    then have "xip pl w2 = xip pl we" "\<not> powered w2" using lb l2 by (auto simp: later_def)
    then show ?thesis
      using ne k publish by (intro exI [of _ ne]) (auto simp: replaced_partly_def kept_def)
  next
    case True
    have sub: "subarr at ?n (xip pl we) = ne" using ne(1,2) fits1 subarr_blit_same [of at ne "xip pl w1"] by simp
    obtain new where new: "length new = ?n" "xip pl w2 = blit (xip pl we) at new"
      "replaced_partly publish (subarr at ?n (xip pl we)) data new" "powered w2 \<Longrightarrow> new = data"
      using publish_effect [OF fits2 publish(1,2) page publish(5) _ wb_def w2(1)] ne(3) [OF True] unfolding sub by blast
    have "0 < ?n" using publish(2) by linarith
    then have "ne \<noteq> []" "ne ! 0 = 0xFF" using ne(1) ne(3) [OF True] by (auto simp: all_erased_def list_all_length)
    then have "replaced_partly publish (subarr at ?n (xip pl w)) data new"
      using new(3) unfolding sub by (auto simp: replaced_partly_def hd_conv_nth)
    moreover have "xip pl w2 = blit (xip pl w) at new"
      using new(1,2) ne(1,2) fits1 k by (simp add: blit_def kept_def)
    ultimately show ?thesis using new by blast
  qed
qed (simp add: replaced_partly_def)

end

end
