(* ===== verification/Rp_Medium.thy ===== *)
theory Rp_Medium
  imports Rp_Storage
begin

text \<open>
  The flash provider on the RP backend is a medium for the key-value store: the mirror in RAM
  follows the flash, also through failed and interrupted operations, and what those leave has one
  of the shapes the store can recover from.
\<close>

section \<open>The state of the provider\<close>

definition rp_on :: "('w \<Rightarrow> bool) \<Rightarrow> 'w rp_eeprom flash_state \<Rightarrow> bool" where
  "rp_on powered p \<longleftrightarrow> powered (re_world (fp_flash p))"

definition rp_cells :: "'w rp_platform \<Rightarrow> 'w rp_eeprom \<Rightarrow> bytes" where
  "rp_cells pl h = xip pl (re_world h)"

definition rp_start :: "'w rp_eeprom flash_state \<Rightarrow> nat" where
  "rp_start p = flash_offset (re_partition (fp_flash p))"

definition rp_med :: "'w rp_platform \<Rightarrow> 'w rp_eeprom flash_state \<Rightarrow> bytes" where
  "rp_med pl p = subarr (rp_start p) (fp_active_size p) (rp_cells pl (fp_flash p))"

text \<open>The callbacks of the application leave the flash alone and report a status that is one.\<close>

definition harmless :: "'w rp_platform \<Rightarrow> ('w \<Rightarrow> bool) \<Rightarrow> 'w rp_eeprom \<Rightarrow> 'w rp_eeprom \<Rightarrow> bool" where
  "harmless pl powered h h' \<longleftrightarrow> re_partition h' = re_partition h \<and> kept (xip pl) powered (re_world h) (re_world h')"

definition callbacks_ok :: "'w rp_platform \<Rightarrow> ('w \<Rightarrow> bool) \<Rightarrow> 'w rp_eeprom flash_state \<Rightarrow> bool" where
  "callbacks_ok pl powered p \<longleftrightarrow>
     (\<forall>f h h' st. fp_prepare p = Some f \<longrightarrow> f h = (h', st) \<longrightarrow> harmless pl powered h h' \<and> st \<noteq> HAL_NONE) \<and>
     (\<forall>g h. fp_finish p = Some g \<longrightarrow> harmless pl powered h (g h))"

definition rp_good :: "'w rp_platform \<Rightarrow> ('w \<Rightarrow> bool) \<Rightarrow> 'w rp_eeprom flash_state \<Rightarrow> bool" where
  "rp_good pl powered p \<longleftrightarrow> fp_ready p \<and> fp_active_size p \<le> fp_storage_size p \<and>
     fp_storage_size p = part_size (re_partition (fp_flash p)) \<and> fp_storage_size p \<le> length (fp_mirror p) \<and>
     FLASH_SECTOR_SIZE dvd rp_start p \<and> rp_start p + fp_storage_size p \<le> length (rp_cells pl (fp_flash p)) \<and>
     callbacks_ok pl powered p \<and>
     (rp_on powered p \<longrightarrow> take (fp_storage_size p) (fp_mirror p) =
        subarr (rp_start p) (fp_storage_size p) (rp_cells pl (fp_flash p)))"

text \<open>A step of the flash below the provider, which changes at most the \<open>n\<close> bytes at \<open>at\<close>.\<close>

definition flash_step ::
  "'w rp_platform \<Rightarrow> ('w \<Rightarrow> bool) \<Rightarrow> 'w rp_eeprom \<Rightarrow> nat \<Rightarrow> bytes \<Rightarrow> 'w rp_eeprom \<Rightarrow> bool" where
  "flash_step pl powered h at new h' \<longleftrightarrow> re_partition h' = re_partition h \<and>
     later (xip pl) powered (re_world h) (re_world h') \<and> rp_cells pl h' = blit (rp_cells pl h) at new"

lemma flash_step_harmless:
  assumes "flash_step pl powered h at new h'" "harmless pl powered h0 h" "harmless pl powered h' h1"
  shows "flash_step pl powered h0 at new h1"
  using assms unfolding flash_step_def harmless_def rp_cells_def kept_def later_def by auto

lemma subarr_blit_inside:
  assumes "at + length new \<le> n" "start + n \<le> length x"
  shows "subarr start n (blit x (start + at) new) = blit (subarr start n x) at new"
  using assms by (intro nth_equalityI) (auto simp: nth_subarr nth_blit)

lemma take_blit_inside: "at + length new \<le> n \<Longrightarrow> n \<le> length x \<Longrightarrow> take n (blit x at new) = blit (take n x) at new"
  by (intro nth_equalityI) (auto simp: nth_blit)

text \<open>After a step, with the mirror brought in line, the state is good again.\<close>

lemma step_good:
  assumes good: "rp_good pl powered p" and fits: "addr + length new \<le> fp_active_size p"
    and step: "flash_step pl powered (fp_flash p) (rp_start p + addr) new h'"
    and mirror: "length m' = length (fp_mirror p)" "powered (re_world h') \<Longrightarrow> m' = blit (fp_mirror p) addr new"
    and p': "p' = p\<lparr>fp_flash := h', fp_mirror := m'\<rparr>"
  shows "rp_good pl powered p'" "rp_on powered p' \<longrightarrow> rp_on powered p" "\<not> rp_on powered p \<longrightarrow> rp_med pl p' = rp_med pl p"
    "rp_med pl p' = blit (rp_med pl p) addr new"
proof -
  have start: "rp_start p' = rp_start p" using step by (simp add: p' rp_start_def flash_step_def)
  have cells: "rp_cells pl (fp_flash p') = blit (rp_cells pl (fp_flash p)) (rp_start p + addr) new"
    using step by (simp add: p' flash_step_def)
  have g: "fp_active_size p \<le> fp_storage_size p" "fp_storage_size p \<le> length (fp_mirror p)"
    "rp_start p + fp_storage_size p \<le> length (rp_cells pl (fp_flash p))"
    using good by (simp_all add: rp_good_def)
  show on: "rp_on powered p' \<longrightarrow> rp_on powered p" using step by (auto simp: p' rp_on_def flash_step_def later_def)
  show "\<not> rp_on powered p \<longrightarrow> rp_med pl p' = rp_med pl p"
    using step by (auto simp: p' rp_on_def flash_step_def later_def rp_med_def rp_start_def rp_cells_def)
  show "rp_med pl p' = blit (rp_med pl p) addr new"
    unfolding rp_med_def start cells using subarr_blit_inside [OF fits, of "rp_start p" "rp_cells pl (fp_flash p)"] g
    by (simp add: p')
  have sync: "take (fp_storage_size p) m' = subarr (rp_start p) (fp_storage_size p) (rp_cells pl (fp_flash p'))"
    if "rp_on powered p'"
  proof -
    have "powered (re_world h')" using that by (simp add: p' rp_on_def)
    then have m': "m' = blit (fp_mirror p) addr new" by (rule mirror(2))
    have "rp_on powered p" using on that by blast
    then have eq: "take (fp_storage_size p) (fp_mirror p) = subarr (rp_start p) (fp_storage_size p) (rp_cells pl (fp_flash p))"
      using good unfolding rp_good_def by blast
    have fit: "addr + length new \<le> fp_storage_size p" using fits g(1) by simp
    show ?thesis
      unfolding cells m' by (simp only: take_blit_inside [OF fit g(2)] subarr_blit_inside [OF fit g(3)] eq)
  qed
  have "length (rp_cells pl (fp_flash p')) = length (rp_cells pl (fp_flash p))" using g fits unfolding cells by simp
  then show "rp_good pl powered p'"
    using good sync start mirror(1) step
    by (simp add: rp_good_def p' callbacks_ok_def flash_step_def)
qed

section \<open>Reading\<close>

lemma length_rp_med: "rp_good pl powered p \<Longrightarrow> length (rp_med pl p) = fp_active_size p"
  by (simp add: rp_good_def rp_med_def)

lemma mirror_med:
  assumes good: "rp_good pl powered p" "rp_on powered p" and fits: "addr + n \<le> fp_active_size p"
  shows "subarr addr n (fp_mirror p) = subarr addr n (rp_med pl p)"
proof -
  have g: "fp_active_size p \<le> fp_storage_size p" using good(1) by (simp add: rp_good_def)
  have eq: "take (fp_storage_size p) (fp_mirror p) = subarr (rp_start p) (fp_storage_size p) (rp_cells pl (fp_flash p))"
    using good unfolding rp_good_def by blast
  have "subarr addr n (fp_mirror p) = subarr addr n (take (fp_storage_size p) (fp_mirror p))"
    using fits g subarr_subarr [of addr n "fp_storage_size p" 0 "fp_mirror p"] by simp
  also have "\<dots> = subarr (rp_start p + addr) n (rp_cells pl (fp_flash p))"
    unfolding eq using fits g by (intro subarr_subarr) simp
  also have "\<dots> = subarr addr n (rp_med pl p)"
    unfolding rp_med_def using fits by (intro subarr_subarr [symmetric])
  finally show ?thesis .
qed

lemma med_cells:
  "addr + n \<le> fp_active_size p \<Longrightarrow> subarr addr n (rp_med pl p) = subarr (rp_start p + addr) n (rp_cells pl (fp_flash p))"
  unfolding rp_med_def by (rule subarr_subarr)

lemma rp_read_ok:
  assumes "re_partition h = part" "addr + n \<le> part_size part" "0 < n"
  shows "rp_read pl h addr out n = (blit out 0 (subarr (flash_offset part + addr) n (rp_cells pl h)), HAL_OK)"
  using assms by (simp add: rp_read_def jh_rp_flash_storage_read_def range_valid_def rp_cells_def)

section \<open>Writing\<close>

text \<open>What every writing operation promises.\<close>

definition write_law ::
  "'w rp_platform \<Rightarrow> ('w \<Rightarrow> bool) \<Rightarrow> (bytes \<Rightarrow> bool) \<Rightarrow> (bytes \<Rightarrow> bool) \<Rightarrow> 'w rp_eeprom flash_state \<Rightarrow> nat \<Rightarrow> nat \<Rightarrow>
   'w rp_eeprom flash_state \<Rightarrow> hal_status \<Rightarrow> bool" where
  "write_law pl powered P Q p addr n p' st \<longleftrightarrow> rp_good pl powered p' \<and> (rp_on powered p' \<longrightarrow> rp_on powered p) \<and>
     (\<not> rp_on powered p \<longrightarrow> rp_med pl p' = rp_med pl p) \<and>
     (\<exists>new. length new = n \<and> rp_med pl p' = blit (rp_med pl p) addr new \<and> st \<noteq> HAL_NONE \<and> P new \<and>
        (rp_on powered p' \<and> st = HAL_OK \<longrightarrow> Q new))"

text \<open>A step of the backend, and the same as a change of the flash.\<close>

definition step_law ::
  "'w rp_platform \<Rightarrow> ('w \<Rightarrow> bool) \<Rightarrow> (bytes \<Rightarrow> bool) \<Rightarrow> (bytes \<Rightarrow> bool) \<Rightarrow> 'w rp_eeprom \<Rightarrow> nat \<Rightarrow> nat \<Rightarrow> 'w rp_eeprom \<Rightarrow>
   hal_status \<Rightarrow> bool" where
  "step_law pl powered P Q h at n h' st \<longleftrightarrow> st \<noteq> HAL_NONE \<and> (\<exists>new. length new = n \<and> flash_step pl powered h at new h' \<and>
     P new \<and> (powered (re_world h') \<and> st = HAL_OK \<longrightarrow> Q new))"

lemma step_lawI:
  assumes "later (xip pl) powered (re_world h) w' \<and> st \<noteq> HAL_NONE \<and>
    (\<exists>new. length new = n \<and> xip pl w' = blit (xip pl (re_world h)) at new \<and> P new \<and> (powered w' \<and> st = HAL_OK \<longrightarrow> Q new))"
  shows "step_law pl powered P Q h at n (h\<lparr>re_world := w'\<rparr>) st"
  using assms unfolding step_law_def flash_step_def rp_cells_def by auto

lemma begin_ok:
  assumes "rp_good pl powered p" "jh_eeprom_flash_write_begin p = (p1, st)"
  obtains h1 where "p1 = p\<lparr>fp_flash := h1\<rparr>" "harmless pl powered (fp_flash p) h1" "st \<noteq> HAL_NONE"
proof (cases "fp_prepare p")
  case None
  then have "p1 = p\<lparr>fp_flash := fp_flash p\<rparr>" "st = HAL_OK" using assms(2) by (simp_all add: jh_eeprom_flash_write_begin_def)
  then show thesis using that [of "fp_flash p"] by (simp add: harmless_def kept_def)
next
  case (Some f)
  obtain h1 where "f (fp_flash p) = (h1, st)" "p1 = p\<lparr>fp_flash := h1\<rparr>"
    using assms(2) Some by (auto simp: jh_eeprom_flash_write_begin_def split: prod.splits)
  then show thesis using assms(1) Some that unfolding rp_good_def callbacks_ok_def by blast
qed

lemma end_ok:
  assumes "rp_good pl powered p"
  obtains h' where "jh_eeprom_flash_write_end (p\<lparr>fp_flash := h\<rparr>) = p\<lparr>fp_flash := h'\<rparr>" "harmless pl powered h h'"
proof (cases "fp_finish p")
  case None
  then show thesis using that [of h] by (simp add: jh_eeprom_flash_write_end_def harmless_def kept_def)
next
  case (Some g)
  then have "harmless pl powered h (g h)" using assms unfolding rp_good_def callbacks_ok_def by blast
  then show thesis using Some that [of "g h"] by (simp add: jh_eeprom_flash_write_end_def)
qed

lemma write_law_idle:
  assumes good: "rp_good pl powered p" and h1: "harmless pl powered (fp_flash p) h1" and fits: "addr + n \<le> fp_active_size p"
    and st: "st \<noteq> HAL_NONE" "st \<noteq> HAL_OK" and P: "P (subarr addr n (rp_med pl p))"
  shows "write_law pl powered P Q p addr n (p\<lparr>fp_flash := h1\<rparr>) st"
proof -
  let ?new = "subarr addr n (rp_med pl p)"
  have len: "length ?new = n" using fits length_rp_med [OF good] by simp
  have g: "rp_start p + fp_storage_size p \<le> length (rp_cells pl (fp_flash p))" "fp_active_size p \<le> fp_storage_size p"
    "fp_storage_size p \<le> length (fp_mirror p)" using good by (simp_all add: rp_good_def)
  have "rp_cells pl (fp_flash p) = blit (rp_cells pl (fp_flash p)) (rp_start p + addr) ?new"
    unfolding med_cells [OF fits] using g fits by (intro blit_same [symmetric]) simp
  then have step: "flash_step pl powered (fp_flash p) (rp_start p + addr) ?new h1"
    using h1 by (auto simp: flash_step_def harmless_def kept_later rp_cells_def kept_def)
  have m: "fp_mirror p = blit (fp_mirror p) addr ?new" if "powered (re_world h1)"
  proof -
    have "rp_on powered p" using that h1 by (simp add: rp_on_def harmless_def kept_def)
    then show ?thesis using mirror_med [OF good _ fits] blit_same [of addr n "fp_mirror p"] g fits by simp
  qed
  have "addr + length ?new \<le> fp_active_size p" using fits len by simp
  note sg = step_good [OF good this step refl m refl]
  then show ?thesis unfolding write_law_def using len st P by (auto simp: exI [of _ ?new])
qed

text \<open>After the backend has run: the mirror takes the new bytes, or is read back.\<close>

lemma write_law_run:
  assumes good: "rp_good pl powered p" and h1: "harmless pl powered (fp_flash p) h1" and h3: "harmless pl powered h2 h3"
    and fits: "addr + n \<le> fp_active_size p" "0 < n"
    and step: "step_law pl powered P (\<lambda>new. new = data) h1 (rp_start p + addr) n h2 st" and len: "length data = n"
    and p': "p' = (if st = HAL_OK then p\<lparr>fp_flash := h3, fp_mirror := blit (fp_mirror p) addr data\<rparr>
      else resync_mirror (rp_backend c pl) (p\<lparr>fp_flash := h3\<rparr>) addr n)" and st': "st' \<noteq> HAL_NONE" "st' = HAL_OK \<longleftrightarrow> st = HAL_OK"
  shows "write_law pl powered P (\<lambda>new. new = data) p addr n p' st'"
proof -
  obtain new where new: "length new = n" "flash_step pl powered h1 (rp_start p + addr) new h2" "P new"
    "powered (re_world h2) \<and> st = HAL_OK \<longrightarrow> new = data" using step unfolding step_law_def by blast
  have g: "fp_active_size p \<le> fp_storage_size p" "fp_storage_size p \<le> length (fp_mirror p)"
    "fp_storage_size p = part_size (re_partition (fp_flash p))" "rp_start p + fp_storage_size p \<le> length (rp_cells pl (fp_flash p))"
    using good by (simp_all add: rp_good_def)
  note st3 = flash_step_harmless [OF new(2) h1 h3]
  have part: "re_partition h3 = re_partition (fp_flash p)" using st3 by (simp add: flash_step_def)
  have mirror: "p' = p\<lparr>fp_flash := h3, fp_mirror := blit (fp_mirror p) addr (if st = HAL_OK then data else new)\<rparr>"
  proof (cases "st = HAL_OK")
    case False
    have "rp_read pl h3 addr (subarr addr n (fp_mirror p)) n =
        (blit (subarr addr n (fp_mirror p)) 0 (subarr (rp_start p + addr) n (rp_cells pl h3)), HAL_OK)"
      using rp_read_ok [OF part, of addr n] fits g by (simp add: rp_start_def)
    moreover have "subarr (rp_start p + addr) n (rp_cells pl h3) = new"
      using st3 new(1) fits g subarr_blit_same [of "rp_start p + addr" new "rp_cells pl (fp_flash p)"]
      by (simp add: flash_step_def)
    ultimately show ?thesis
      using False fits g new(1) by (simp add: p' resync_mirror_def rp_backend_def blit_def)
  qed (simp add: p')
  have on3: "powered (re_world h3) \<Longrightarrow> powered (re_world h2)" using h3 by (simp add: harmless_def kept_def)
  have fit: "addr + length new \<le> fp_active_size p" using fits new(1) by simp
  have m: "powered (re_world h3) \<Longrightarrow> blit (fp_mirror p) addr (if st = HAL_OK then data else new) = blit (fp_mirror p) addr new"
    using new(4) on3 by auto
  have "length (blit (fp_mirror p) addr (if st = HAL_OK then data else new)) = length (fp_mirror p)"
    using fits g new(1) len by simp
  note sg = step_good [OF good fit st3 this m mirror]
  have "rp_on powered p' \<and> st' = HAL_OK \<longrightarrow> new = data" using new(4) on3 st'(2) by (auto simp: rp_on_def mirror)
  then show ?thesis unfolding write_law_def using sg new(1,3) st' by blast
qed

context rp_machine
begin

section \<open>The backend\<close>

lemma rp_program_step:
  assumes fits: "addr + length data \<le> part_size (re_partition h)" "data \<noteq> []"
      "flash_offset (re_partition h) + part_size (re_partition h) \<le> length (rp_cells pl h)"
    and erased: "powered (re_world h) \<Longrightarrow> all_erased (subarr (flash_offset (re_partition h) + addr) (length data) (rp_cells pl h))"
    and run: "rp_program pl h addr data = (h', st)"
  shows "step_law pl powered (written_partly (subarr (flash_offset (re_partition h) + addr) (length data) (rp_cells pl h)) data)
    (\<lambda>new. new = data) h (flash_offset (re_partition h) + addr) (length data) h' st"
proof -
  let ?at = "flash_offset (re_partition h) + addr"
  have "0 < length data" using fits(2) by simp
  then have "0 < part_size (re_partition h)" "length data \<le> part_size (re_partition h) - addr" "addr \<le> part_size (re_partition h)"
    using fits(1) by linarith+
  then have ok: "range_valid (re_partition h) addr (length data)" by (simp add: range_valid_def)
  obtain w' where w': "rp_execute pl (re_world h) ActProgramBytes ?at data (length data) = (w', st)" "h' = h\<lparr>re_world := w'\<rparr>"
    using run ok fits(2)
    by (auto simp: rp_program_def jh_rp_flash_storage_program_bytes_def on_world_def Let_def split: prod.splits)
  have "?at + length data \<le> length (xip pl (re_world h))" using fits by (simp add: rp_cells_def)
  from program_effect [OF this fits(2) _ w'(1)] erased show ?thesis
    unfolding w'(2) rp_cells_def by (intro step_lawI) blast
qed

lemma rp_erase_step:
  assumes fits: "addr + n \<le> part_size (re_partition h)" "0 < n"
      "flash_offset (re_partition h) + part_size (re_partition h) \<le> length (rp_cells pl h)"
    and aligned: "FLASH_SECTOR_SIZE dvd flash_offset (re_partition h)" "FLASH_SECTOR_SIZE dvd addr" "FLASH_SECTOR_SIZE dvd n"
    and run: "rp_erase pl h addr n = (h', st)"
  shows "step_law pl powered (erased_partly (subarr (flash_offset (re_partition h) + addr) n (rp_cells pl h)))
    (\<lambda>new. new = replicate n 0xFF) h (flash_offset (re_partition h) + addr) n h' st"
proof -
  let ?at = "flash_offset (re_partition h) + addr"
  have ok: "range_valid (re_partition h) addr n" using fits(1,2) by (simp add: range_valid_def)
  have al: "FLASH_SECTOR_SIZE dvd ?at" using aligned by simp
  obtain w' where w': "rp_execute pl (re_world h) ActErase ?at [] n = (w', st)" "h' = h\<lparr>re_world := w'\<rparr>"
    using run ok fits(2) al aligned(3)
    by (auto simp: rp_erase_def jh_rp_flash_storage_erase_def on_world_def Let_def mod_eq_0_iff_dvd split: prod.splits)
  have "?at + n \<le> length (xip pl (re_world h))" using fits by (simp add: rp_cells_def)
  from erase_effect [OF al aligned(3) fits(2) this w'(1)] show ?thesis
    unfolding w'(2) rp_cells_def by (rule step_lawI)
qed

lemma rp_replace_call:
  assumes fits: "addr + length data \<le> part_size (re_partition h)"
    and aligned: "FLASH_SECTOR_SIZE dvd flash_offset (re_partition h)" "FLASH_SECTOR_SIZE dvd addr" "FLASH_SECTOR_SIZE dvd length data"
    and publish: "0 < publish" "publish < length data" "FLASH_PAGE_SIZE dvd publish"
    and run: "rp_replace_region pl h addr data publish er = (h', st)"
  obtains w' st0 where "rp_transaction pl (re_world h) \<lparr>fo_action = ActReplacePublished,
      fo_offset = flash_offset (re_partition h) + addr, fo_data = data, fo_size = length data,
      fo_publish_size = publish, fo_erased = er\<rparr> = (w', st0)" "h' = h\<lparr>re_world := w'\<rparr>"
    "st = (if st0 \<noteq> HAL_OK then st0
      else if stored_matches pl w' (flash_offset (re_partition h) + addr) data then HAL_OK else HAL_EIO)"
proof -
  let ?at = "flash_offset (re_partition h) + addr" and ?n = "length data"
  let ?op = "\<lparr>fo_action = ActReplacePublished, fo_offset = ?at, fo_data = data, fo_size = ?n, fo_publish_size = publish, fo_erased = er\<rparr>"
  have ok: "range_valid (re_partition h) addr ?n" using fits publish(2) by (simp add: range_valid_def)
  have al: "FLASH_SECTOR_SIZE dvd ?at" using aligned by simp
  have pg: "FLASH_PAGE_SIZE dvd ?n - publish"
  proof (rule dvd_diff_nat)
    have "FLASH_PAGE_SIZE dvd FLASH_SECTOR_SIZE" by (simp add: FLASH_PAGE_SIZE_def FLASH_SECTOR_SIZE_def)
    then show "FLASH_PAGE_SIZE dvd ?n" using aligned(3) by (rule dvd_trans)
  qed (rule publish(3))
  have "jh_rp_flash_storage_replace_published pl (re_world h) (re_partition h) addr data publish er =
      verified pl ?at data (rp_transaction pl (re_world h) ?op)"
    unfolding jh_rp_flash_storage_replace_published_def Let_def
    using ok publish al aligned(3) pg by (simp add: mod_eq_0_iff_dvd)
  moreover obtain w' st0 where w': "rp_transaction pl (re_world h) ?op = (w', st0)" by (cases "rp_transaction pl (re_world h) ?op")
  ultimately show thesis
    using that [OF w'] run fits by (auto simp: rp_replace_region_def on_world_def verified_def)
qed

lemma rp_replace_step:
  assumes fits: "addr + length data \<le> part_size (re_partition h)"
      "flash_offset (re_partition h) + part_size (re_partition h) \<le> length (rp_cells pl h)"
    and aligned: "FLASH_SECTOR_SIZE dvd flash_offset (re_partition h)" "FLASH_SECTOR_SIZE dvd addr" "FLASH_SECTOR_SIZE dvd length data"
    and publish: "0 < publish" "publish < length data" "FLASH_PAGE_SIZE dvd publish"
    and erased: "er \<Longrightarrow> powered (re_world h) \<Longrightarrow> all_erased (subarr (flash_offset (re_partition h) + addr) (length data) (rp_cells pl h))"
    and run: "rp_replace_region pl h addr data publish er = (h', st)"
  shows "step_law pl powered (replaced_partly publish (subarr (flash_offset (re_partition h) + addr) (length data) (rp_cells pl h)) data)
    (\<lambda>new. new = data) h (flash_offset (re_partition h) + addr) (length data) h' st"
proof -
  let ?at = "flash_offset (re_partition h) + addr" and ?n = "length data"
  have al: "FLASH_SECTOR_SIZE dvd ?at" using aligned by simp
  obtain w' st0 where w': "rp_transaction pl (re_world h) \<lparr>fo_action = ActReplacePublished, fo_offset = ?at, fo_data = data,
      fo_size = ?n, fo_publish_size = publish, fo_erased = er\<rparr> = (w', st0)"
    and res: "h' = h\<lparr>re_world := w'\<rparr>" "st = (if st0 \<noteq> HAL_OK then st0 else if stored_matches pl w' ?at data then HAL_OK else HAL_EIO)"
    by (rule rp_replace_call [OF fits(1) aligned publish run])
  have "?at + ?n \<le> length (xip pl (re_world h))" using fits by (simp add: rp_cells_def)
  from replace_effect [OF this publish(1,2) al aligned(3) publish(3) _ w'] erased
  show ?thesis unfolding res(1) rp_cells_def using res(2) by (intro step_lawI) auto
qed

section \<open>The provider\<close>

lemma mirror_erased_cells:
  assumes good: "rp_good pl powered p" and fits: "addr + n \<le> fp_active_size p" and h1: "harmless pl powered (fp_flash p) h1"
    and "mirror_erased p addr n" "powered (re_world h1)"
  shows "all_erased (subarr (rp_start p + addr) n (rp_cells pl h1))"
proof -
  have "rp_on powered p" "rp_cells pl h1 = rp_cells pl (fp_flash p)"
    using assms(5) h1 by (simp_all add: rp_on_def harmless_def kept_def rp_cells_def)
  then show ?thesis
    using mirror_med [OF good _ fits] assms(4) by (simp add: mirror_erased_def all_erased_def med_cells [OF fits])
qed

lemma geometry_kept:
  assumes good: "rp_good pl powered p" and h1: "harmless pl powered (fp_flash p) h1" and fits: "addr + n \<le> fp_active_size p"
  shows "flash_offset (re_partition h1) = rp_start p" "addr + n \<le> part_size (re_partition h1)"
    "flash_offset (re_partition h1) + part_size (re_partition h1) \<le> length (rp_cells pl h1)"
    "FLASH_SECTOR_SIZE dvd flash_offset (re_partition h1)"
    "subarr (rp_start p + addr) n (rp_cells pl h1) = subarr addr n (rp_med pl p)" "storage_range_valid p addr n" "fp_ready p"
proof -
  have g: "fp_active_size p \<le> fp_storage_size p" "fp_storage_size p = part_size (re_partition (fp_flash p))" "fp_ready p"
    "rp_start p + fp_storage_size p \<le> length (rp_cells pl (fp_flash p))" "FLASH_SECTOR_SIZE dvd rp_start p"
    using good by (simp_all add: rp_good_def)
  have h: "re_partition h1 = re_partition (fp_flash p)" "rp_cells pl h1 = rp_cells pl (fp_flash p)"
    using h1 by (simp_all add: harmless_def kept_def rp_cells_def)
  show "flash_offset (re_partition h1) = rp_start p" "FLASH_SECTOR_SIZE dvd flash_offset (re_partition h1)" "fp_ready p"
    "flash_offset (re_partition h1) + part_size (re_partition h1) \<le> length (rp_cells pl h1)"
    using g h by (simp_all add: rp_start_def)
  show "addr + n \<le> part_size (re_partition h1)" using fits g(1,2) unfolding h(1) by linarith
  show "subarr (rp_start p + addr) n (rp_cells pl h1) = subarr addr n (rp_med pl p)" using med_cells [OF fits, of pl] h(2) by simp
  have "addr \<le> fp_storage_size p" "n \<le> fp_storage_size p - addr" using fits g(1) by linarith+
  then show "storage_range_valid p addr n" by (simp add: storage_range_valid_def)
qed

lemma append_law:
  assumes good: "rp_good pl powered p" and fits: "addr + length data \<le> fp_active_size p" "data \<noteq> []"
    and run: "flash_append (rp_backend c pl) p addr data = (p', st)"
  shows "write_law pl powered (written_partly (subarr addr (length data) (rp_med pl p)) data) (\<lambda>new. new = data) p addr (length data) p' st"
proof -
  let ?n = "length data"
  note idle = write_law_idle [OF good _ fits(1), where P = "written_partly (subarr addr ?n (rp_med pl p)) data"]
  have self: "harmless pl powered (fp_flash p) (fp_flash p)" by (simp add: harmless_def kept_def)
  have P: "written_partly (subarr addr ?n (rp_med pl p)) data (subarr addr ?n (rp_med pl p))" by (simp add: written_partly_def)
  have pos: "0 < ?n" using fits(2) by simp
  note start = geometry_kept(6,7) [OF good self fits(1)]
  show ?thesis
  proof (cases "mirror_erased p addr ?n")
    case False
    then have "p' = p\<lparr>fp_flash := fp_flash p\<rparr>" "st = HAL_ESTATE" using run start fits(2) by (simp_all add: flash_append_def Let_def)
    then show ?thesis using idle [OF self _ _ P, of HAL_ESTATE] by simp
  next
    case True
    obtain p1 pst where b: "jh_eeprom_flash_write_begin p = (p1, pst)" by (cases "jh_eeprom_flash_write_begin p")
    obtain h1 where h1: "p1 = p\<lparr>fp_flash := h1\<rparr>" "harmless pl powered (fp_flash p) h1" "pst \<noteq> HAL_NONE" by (rule begin_ok [OF good b])
    note geo = geometry_kept [OF good h1(2) fits(1)]
    show ?thesis
    proof (cases "pst = HAL_OK")
      case False
      then have "p' = p\<lparr>fp_flash := h1\<rparr>" "st = pst" using run start fits(2) b True by (simp_all add: flash_append_def Let_def h1(1))
      then show ?thesis using idle [OF h1(2,3) False P] by simp
    next
      case ok: True
      obtain h2 st2 where p2: "rp_program pl h1 addr data = (h2, st2)" by (cases "rp_program pl h1 addr data")
      have step: "step_law pl powered (written_partly (subarr addr ?n (rp_med pl p)) data) (\<lambda>new. new = data) h1 (rp_start p + addr) ?n h2 st2"
        using rp_program_step [OF geo(2) fits(2) geo(3) _ p2] mirror_erased_cells [OF good fits(1) h1(2) True]
        unfolding geo(1,5) by blast
      have ne: "st2 \<noteq> HAL_NONE" using step by (simp add: step_law_def)
      obtain h3 where h3: "jh_eeprom_flash_write_end (p\<lparr>fp_flash := h2\<rparr>) = p\<lparr>fp_flash := h3\<rparr>" "harmless pl powered h2 h3"
        by (rule end_ok [OF good])
      define p3 where "p3 = (if st2 = HAL_OK then p\<lparr>fp_flash := h3, fp_mirror := blit (fp_mirror p) addr data\<rparr>
          else resync_mirror (rp_backend c pl) (p\<lparr>fp_flash := h3\<rparr>) addr ?n)"
      have "p' = p3" "st = (if st2 = HAL_EIO \<and> mirror_erased p3 addr ?n then HAL_ESTATE else st2)"
        using run start fits(2) b True ok p2 h3(1)
        by (auto simp: flash_append_def Let_def h1(1) rp_backend_def p3_def split: if_splits)
      then show ?thesis using write_law_run [OF good h1(2) h3(2) fits(1) pos step refl p3_def] ne by auto
    qed
  qed
qed

lemma erase_law':
  assumes good: "rp_good pl powered p" and fits: "addr + n \<le> fp_active_size p" "0 < n"
    and aligned: "FLASH_SECTOR_SIZE dvd addr" "FLASH_SECTOR_SIZE dvd n"
    and run: "flash_erase (rp_backend c pl) p addr n = (p', st)"
  shows "write_law pl powered (erased_partly (subarr addr n (rp_med pl p))) (\<lambda>new. new = replicate n 0xFF) p addr n p' st"
proof -
  note idle = write_law_idle [OF good _ fits(1), where P = "erased_partly (subarr addr n (rp_med pl p))"]
  have P: "erased_partly (subarr addr n (rp_med pl p)) (subarr addr n (rp_med pl p))" by (simp add: erased_partly_def)
  obtain p1 pst where b: "jh_eeprom_flash_write_begin p = (p1, pst)" by (cases "jh_eeprom_flash_write_begin p")
  obtain h1 where h1: "p1 = p\<lparr>fp_flash := h1\<rparr>" "harmless pl powered (fp_flash p) h1" "pst \<noteq> HAL_NONE" by (rule begin_ok [OF good b])
  note geo = geometry_kept [OF good h1(2) fits(1)]
  show ?thesis
  proof (cases "pst = HAL_OK")
    case False
    then have "p' = p\<lparr>fp_flash := h1\<rparr>" "st = pst" using run geo(6,7) b by (simp_all add: flash_erase_def Let_def h1(1))
    then show ?thesis using idle [OF h1(2,3) False P] by simp
  next
    case ok: True
    obtain h2 st2 where p2: "rp_erase pl h1 addr n = (h2, st2)" by (cases "rp_erase pl h1 addr n")
    note step = rp_erase_step [OF geo(2) fits(2) geo(3,4) aligned p2, unfolded geo(1,5)]
    have ne: "st2 \<noteq> HAL_NONE" using step by (simp add: step_law_def)
    obtain h3 where h3: "jh_eeprom_flash_write_end (p\<lparr>fp_flash := h2\<rparr>) = p\<lparr>fp_flash := h3\<rparr>" "harmless pl powered h2 h3"
      by (rule end_ok [OF good])
    define p3 where "p3 = (if st2 = HAL_OK then p\<lparr>fp_flash := h3, fp_mirror := blit (fp_mirror p) addr (replicate n 0xFF)\<rparr>
        else resync_mirror (rp_backend c pl) (p\<lparr>fp_flash := h3\<rparr>) addr n)"
    have "p' = p3" "st = st2"
      using run geo(6,7) b ok p2 h3(1) by (auto simp: flash_erase_def Let_def h1(1) rp_backend_def p3_def split: if_splits)
    then show ?thesis using write_law_run [OF good h1(2) h3(2) fits step _ p3_def] ne by simp
  qed
qed

lemma step_law_again:
  assumes "step_law pl powered (replaced_partly publish old data) Q h at n ha sta"
    and "step_law pl powered (replaced_partly publish (subarr at n (rp_cells pl ha)) data) Q ha at n hb stb"
    and fits: "at + n \<le> length (rp_cells pl h)"
  shows "step_law pl powered (replaced_partly publish old data) Q h at n hb stb"
proof -
  obtain x where x: "length x = n" "flash_step pl powered h at x ha" "replaced_partly publish old data x"
    using assms(1) unfolding step_law_def by blast
  obtain y where y: "length y = n" "flash_step pl powered ha at y hb" "stb \<noteq> HAL_NONE"
    "replaced_partly publish (subarr at n (rp_cells pl ha)) data y" "powered (re_world hb) \<and> stb = HAL_OK \<longrightarrow> Q y"
    using assms(2) unfolding step_law_def by blast
  have cells: "rp_cells pl ha = blit (rp_cells pl h) at x" using x(2) by (simp add: flash_step_def)
  have "subarr at n (rp_cells pl ha) = x"
    using subarr_blit_same [of at x "rp_cells pl h"] fits x(1) by (simp add: cells)
  then have "replaced_partly publish old data y" using y(4) x(3) by (auto simp: replaced_partly_def)
  moreover have "flash_step pl powered h at y hb"
    using x(1,2) y(1,2) fits later_trans [of "xip pl" powered "re_world h" "re_world ha" "re_world hb"]
    by (simp add: flash_step_def blit_def)
  ultimately show ?thesis unfolding step_law_def using y by blast
qed

lemma replace_law:
  assumes good: "rp_good pl powered p" and fits: "addr + length data \<le> fp_active_size p"
    and aligned: "FLASH_SECTOR_SIZE dvd addr" "FLASH_SECTOR_SIZE dvd length data"
    and publish: "0 < publish" "publish < length data" "FLASH_PAGE_SIZE dvd publish"
    and run: "flash_replace_region (rp_backend c pl) p addr data publish = (p', st)"
  shows "write_law pl powered (replaced_partly publish (subarr addr (length data) (rp_med pl p)) data) (\<lambda>new. new = data)
    p addr (length data) p' st"
proof -
  let ?n = "length data" and ?P = "replaced_partly publish (subarr addr (length data) (rp_med pl p)) data"
  note idle = write_law_idle [OF good _ fits, where P = ?P]
  have P: "?P (subarr addr ?n (rp_med pl p))" by (simp add: replaced_partly_def)
  have pos: "0 < ?n" using publish(2) by linarith
  obtain p1 pst where b: "jh_eeprom_flash_write_begin p = (p1, pst)" by (cases "jh_eeprom_flash_write_begin p")
  obtain h1 where h1: "p1 = p\<lparr>fp_flash := h1\<rparr>" "harmless pl powered (fp_flash p) h1" "pst \<noteq> HAL_NONE" by (rule begin_ok [OF good b])
  note geo = geometry_kept [OF good h1(2) fits]
  have guards: "\<not> (publish = 0 \<or> publish \<ge> ?n \<or> \<not> storage_range_valid p addr ?n)" using publish geo(6) by simp
  show ?thesis
  proof (cases "pst = HAL_OK")
    case False
    then have "p' = p\<lparr>fp_flash := h1\<rparr>" "st = pst"
      using run geo(7) b guards by (simp_all add: flash_replace_region_def rp_backend_def Let_def h1(1))
    then show ?thesis using idle [OF h1(2,3) False P] by simp
  next
    case ok: True
    define er where "er = mirror_erased p addr ?n"
    obtain ha sta where a: "rp_replace_region pl h1 addr data publish er = (ha, sta)" by (cases "rp_replace_region pl h1 addr data publish er")
    have "step_law pl powered ?P (\<lambda>new. new = data) h1 (rp_start p + addr) ?n ha sta"
      using rp_replace_step [OF geo(2,3,4) aligned publish _ a] mirror_erased_cells [OF good fits h1(2)]
      unfolding geo(1,5) er_def by blast
    note step1 = this
    have part: "re_partition ha = re_partition h1" "length (rp_cells pl ha) = length (rp_cells pl h1)"
      using step1 by (auto simp: step_law_def flash_step_def later_def rp_cells_def)
    obtain h2 st2 where p2: "(if sta = HAL_EIO \<and> er then rp_replace_region pl ha addr data publish False else (ha, sta)) = (h2, st2)"
      by (cases "if sta = HAL_EIO \<and> er then rp_replace_region pl ha addr data publish False else (ha, sta)")
    have step: "step_law pl powered ?P (\<lambda>new. new = data) h1 (rp_start p + addr) ?n h2 st2"
    proof (cases "sta = HAL_EIO \<and> er")
      case True
      then have again: "rp_replace_region pl ha addr data publish False = (h2, st2)" using p2 by simp
      have "rp_start p + addr + ?n \<le> length (rp_cells pl h1)" using geo(1,2,3) by simp
      moreover have "step_law pl powered (replaced_partly publish (subarr (rp_start p + addr) ?n (rp_cells pl ha)) data)
          (\<lambda>new. new = data) ha (rp_start p + addr) ?n h2 st2"
        using rp_replace_step [OF _ _ _ aligned publish _ again] geo(1-4) part by simp
      ultimately show ?thesis using step_law_again [OF step1] by blast
    next
      case False
      then show ?thesis using p2 step1 by (simp split: if_splits)
    qed
    have ne: "st2 \<noteq> HAL_NONE" using step by (simp add: step_law_def)
    obtain h3 where h3: "jh_eeprom_flash_write_end (p\<lparr>fp_flash := h2\<rparr>) = p\<lparr>fp_flash := h3\<rparr>" "harmless pl powered h2 h3"
      by (rule end_ok [OF good])
    define p3 where "p3 = (if st2 = HAL_OK then p\<lparr>fp_flash := h3, fp_mirror := blit (fp_mirror p) addr data\<rparr>
        else resync_mirror (rp_backend c pl) (p\<lparr>fp_flash := h3\<rparr>) addr ?n)"
    have er1: "mirror_erased (p\<lparr>fp_flash := h1\<rparr>) addr ?n = er" by (simp add: er_def mirror_erased_def)
    have "p' = p3 \<and> st = st2"
      using run geo(7) b ok guards a p2 h3(1)
      by (simp add: flash_replace_region_def rp_backend_def Let_def h1(1) er1 p3_def split: if_splits)
    then show ?thesis using write_law_run [OF good h1(2) h3(2) fits pos step refl p3_def] ne by simp
  qed
qed

end

section \<open>The laws of the medium\<close>

lemma rp_medium_append_size: "0 < (1 :: nat)" "(1 :: nat) dvd FLASH_SECTOR_SIZE"
  by simp_all

sublocale rp_machine \<subseteq> rp: kv_medium "flash_provider (rp_backend c pl)" "rp_med pl" "rp_on powered" "rp_good pl powered"
    FLASH_SECTOR_SIZE FLASH_PAGE_SIZE 1 for c
proof (unfold_locales, goal_cases)
  case 1 show ?case by simp
next
  case 2 show ?case by simp
next
  case (3 p addr len out)
  then show ?case
    using mirror_med [OF 3(1,2)] length_rp_med [OF 3(1)]
    by (simp add: flash_provider_def flash_read_def fp_range_valid_def rp_good_def)
next
  case (4 p addr len out)
  have active: "addr + len \<le> fp_active_size p" using 4(3) length_rp_med [OF 4(1)] by simp
  have self: "harmless pl powered (fp_flash p) (fp_flash p)" by (simp add: harmless_def kept_def)
  note geo = geometry_kept [OF 4(1) self active]
  have "fp_range_valid p addr len" using active geo(7) by (simp add: fp_range_valid_def)
  then show ?case
    using rp_read_ok [OF refl geo(2) 4(5), of pl out] 4(5) unfolding geo(1,5)
    by (simp add: flash_provider_def flash_read_medium_def rp_backend_def)
next
  case (5 p addr len)
  have active: "addr + len \<le> fp_active_size p" using 5(3) length_rp_med [OF 5(1)] by simp
  have self: "harmless pl powered (fp_flash p) (fp_flash p)" by (simp add: harmless_def kept_def)
  note geo = geometry_kept [OF 5(1) self active]
  show ?case
    using geo(6,7) mirror_med [OF 5(1,2) active]
    by (simp add: flash_provider_def flash_region_erased_def mirror_erased_def all_erased_def)
next
  case (6 p addr data publish p' status)
  have "addr + length data \<le> fp_active_size p" using 6(2) length_rp_med [OF 6(1)] by simp
  from replace_law [OF 6(1) this 6(3,4,8,9,7)] 6(10) show ?case
    unfolding write_law_def by (fastforce simp: flash_provider_def)
next
  case (7 p addr data p' status)
  have "addr + length data \<le> fp_active_size p" using 7(2) length_rp_med [OF 7(1)] by simp
  from append_law [OF 7(1) this 7(5)] 7(6) show ?case
    unfolding write_law_def by (fastforce simp: flash_provider_def)
next
  case (8 p addr len p' status)
  have "addr + len \<le> fp_active_size p" using 8(2) length_rp_med [OF 8(1)] by simp
  from erase_law' [OF 8(1) this 8(5,3,4)] 8(6) show ?case
    unfolding write_law_def by (fastforce simp: flash_provider_def)
qed

context rp_machine
begin

lemma medium: "kv_medium (flash_provider (rp_backend c pl)) (rp_med pl) (rp_on powered) (rp_good pl powered)
    FLASH_SECTOR_SIZE FLASH_PAGE_SIZE 1"
  by (rule rp.kv_medium_axioms)

end

end
