(* ===== verification/Kv_Commit.thy ===== *)
theory Kv_Commit
  imports Kv_Medium
begin

text \<open>
  Committing. The invariant ties the store in RAM to the two banks on the medium: what the
  active bank says, what a restart would find, and which records wait behind the log. Publishing
  a bank and appending a batch keep it whatever happens to the medium, and a restart always
  finds one of the two states between which the commit moves.
\<close>

section \<open>The invariant\<close>

definition contents :: "kv \<Rightarrow> kv_contents" where
  "contents s = kv_map (bank s) (kv_index s)"

definition choice :: "nat \<Rightarrow> bytes \<Rightarrow> bytes \<Rightarrow> nat" where
  "choice n x0 x1 = choose_bank (validate_bank_buffer x0 n) (validate_bank_buffer x1 n)"

definition pick :: "nat \<Rightarrow> bytes \<Rightarrow> bytes \<Rightarrow> bytes" where
  "pick b x0 x1 = (if b = 0 then x0 else x1)"

text \<open>What a restart finds in the two banks.\<close>

definition boots :: "nat \<Rightarrow> nat \<Rightarrow> bytes \<Rightarrow> bytes \<Rightarrow> kv_contents \<Rightarrow> bool" where
  "boots a n x0 x1 B \<longleftrightarrow> (\<exists>m d q. bank_holds a (pick (choice n x0 x1) x0 x1) n m B d q)"

definition ram_ok :: "kv \<Rightarrow> bool" where
  "ram_ok s \<longleftrightarrow> index_ok (bank s) (kv_index s) (used_offset s) \<and> KV_PUBLISH_SIZE \<le> used_offset s \<and>
     used_offset s \<le> bank_size s \<and> length (bank s) = HAL_KV_MAX_BANK_SIZE \<and>
     KV_PUBLISH_SIZE + KV_REC_OVERHEAD \<le> bank_size s \<and> bank_size s \<le> HAL_KV_MAX_BANK_SIZE \<and>
     (active_bank s = 0 \<or> active_bank s = 1) \<and> 0 < kv_append_size s \<and> kv_append_size s dvd bank_size s"

text \<open>The records behind the log: written into the RAM image, not yet on the medium.\<close>

definition pending :: "kv \<Rightarrow> kv_contents \<Rightarrow> nat \<Rightarrow> kv_record list \<Rightarrow> bool" where
  "pending s C q rs \<longleftrightarrow> used_offset s = q + length (encs rs) \<and> held (bank s) q (encs rs) \<and>
     (\<forall>r \<in> set rs. record_ok False r) \<and> roomy rs C \<and> contents s = replay rs C"

definition active_ok :: "kv \<Rightarrow> bytes \<Rightarrow> kv_contents \<Rightarrow> bool" where
  "active_ok s x C \<longleftrightarrow> (\<exists>m d q. bank_holds (kv_append_size s) x (bank_size s) m C d q \<and>
     meta_generation m = kv_generation s \<and>
     (\<not> needs_publish s \<longrightarrow> \<not> d \<and> flash_end s = q \<and> take q (bank s) = take q x \<and> (\<exists>rs. pending s C q rs)))"

definition kv_core :: "kv \<Rightarrow> bytes \<Rightarrow> bytes \<Rightarrow> kv_contents \<Rightarrow> kv_contents \<Rightarrow> bool" where
  "kv_core s x0 x1 C B \<longleftrightarrow> ram_ok s \<and> length x0 = bank_size s \<and> length x1 = bank_size s \<and>
     active_ok s (pick (active_bank s) x0 x1) C \<and> boots (kv_append_size s) (bank_size s) x0 x1 B \<and>
     (choice (bank_size s) x0 x1 = active_bank s \<and> B = C \<or> needs_publish s \<and> kv_dirty s)"

definition kv_clean :: "kv \<Rightarrow> bytes \<Rightarrow> bytes \<Rightarrow> kv_contents \<Rightarrow> bool" where
  "kv_clean s x0 x1 C \<longleftrightarrow> (\<not> kv_dirty s \<longrightarrow> contents s = C \<and>
     take (used_offset s) (bank s) = take (used_offset s) (pick (active_bank s) x0 x1))"

definition kv_ok :: "kv \<Rightarrow> bytes \<Rightarrow> bytes \<Rightarrow> kv_contents \<Rightarrow> kv_contents \<Rightarrow> bool" where
  "kv_ok s x0 x1 C B \<longleftrightarrow> kv_core s x0 x1 C B \<and> kv_clean s x0 x1 C"

definition other_bank :: "nat \<Rightarrow> nat" where
  "other_bank b = (if b = 0 then 1 else 0)"

section \<open>Which bank a restart takes\<close>

lemma generation_next: "generation_newer (g + 1) g" "\<not> generation_newer g (g + 1)"
  by (simp_all add: generation_newer_def)

lemma choice_active:
  assumes "validate_bank_buffer (pick b x0 x1) n = Some m" "b = 0 \<or> b = 1"
    and "validate_bank_buffer (pick (other_bank b) x0 x1) n = None"
  shows "choice n x0 x1 = b"
  using assms by (auto simp: choice_def choose_bank_def pick_def other_bank_def)

lemma choice_newer:
  assumes "validate_bank_buffer (pick b x0 x1) n = Some m" "b = 0 \<or> b = 1"
    and "validate_bank_buffer (pick (other_bank b) x0 x1) n = Some m'" "meta_generation m' = meta_generation m + 1"
  shows "choice n x0 x1 = other_bank b"
  using assms generation_next [of "meta_generation m"]
  by (auto simp: choice_def choose_bank_def pick_def other_bank_def)

lemma pick_other: "b = 0 \<or> b = 1 \<Longrightarrow> other_bank b \<noteq> b \<and> (other_bank b = 0 \<or> other_bank b = 1) \<and>
    other_bank (other_bank b) = b"
  by (auto simp: other_bank_def)

lemma bootsI: "choice n x0 x1 = b \<Longrightarrow> bank_holds a (pick b x0 x1) n m B d q \<Longrightarrow> boots a n x0 x1 B"
  by (auto simp: boots_def)

section \<open>The image to publish\<close>

lemma bank_limits: "bank_size s \<le> HAL_KV_MAX_BANK_SIZE \<Longrightarrow> bank_size s < 0xFF00"
  "length (bank s) = HAL_KV_MAX_BANK_SIZE \<Longrightarrow> bank_size s \<le> HAL_KV_MAX_BANK_SIZE \<Longrightarrow> bank_size s \<le> length (bank s)"
  by (simp_all add: HAL_KV_MAX_BANK_SIZE_def)

lemma prepare_bank_header_image:
  assumes used: "used_offset s = KV_PUBLISH_SIZE + length (encs body)" "used_offset s \<le> bank_size s"
    and body: "held (bank s) KV_PUBLISH_SIZE (encs body)" "record_count s = of_nat (length body)"
    and n: "bank_size s \<le> length (bank s)" "bank_size s < 65536"
  shows "\<exists>b. prepare_bank_header s g = s\<lparr>bank := b\<rparr> \<and> length b = length (bank s) \<and>
    take (bank_size s) b = bank_front (bank_size s) g body @ bank_back (bank_size s) body \<and>
    (\<forall>i. KV_PUBLISH_SIZE \<le> i \<longrightarrow> i < used_offset s \<longrightarrow> b ! i = bank s ! i)"
proof -
  let ?n = "bank_size s" and ?u = "used_offset s"
  define b1 where "b1 = blit (bank s) 0 (replicate KV_PUBLISH_SIZE 0xFF)"
  define b2 where "b2 = (if ?u < ?n then blit b1 ?u (replicate (?n - ?u) 0xFF) else b1)"
  define h where "h = (bank_hdr ?n g body)\<lparr>bh_header_crc := 0\<rparr>"
  have len: "length b1 = length (bank s)" "length b2 = length (bank s)"
    using used n by (simp_all add: b1_def b2_def)
  have b2: "b2 = blit b1 ?u (replicate (?n - ?u) 0xFF)" using used(2) by (auto simp: b2_def)
  have nth: "b2 ! i = (if i < 256 \<or> ?u \<le> i \<and> i < ?n then 0xFF else bank s ! i)" if "i < length (bank s)" for i
    using that used n by (auto simp: b2 nth_blit len(1) b1_def publish_256)
  have "held b2 KV_PUBLISH_SIZE (encs body)"
  proof -
    have "subarr KV_PUBLISH_SIZE (length (encs body)) b2 = subarr KV_PUBLISH_SIZE (length (encs body)) (bank s)"
      using used n len(2) by (intro nth_equalityI) (simp_all add: nth_subarr nth publish_256)
    then show ?thesis using body(1) len(2) by (simp add: held_def)
  qed
  then have crc: "crc16 (subarr KV_PUBLISH_SIZE (cast16 (?u - KV_PUBLISH_SIZE)) b2) = crc16 (encs body)"
    using used n(2) by (simp add: held_def cast16_def)
  have h': "h = \<lparr>bh_magic = KV_BANK_MAGIC, bh_version = KV_BANK_VERSION, bh_reserved = 0,
               bh_header_size = of_nat KV_BANK_HDR_SIZE, bh_generation = g, bh_used_offset = of_nat ?u,
               bh_bank_size = of_nat ?n, bh_record_count = record_count s,
               bh_body_crc = crc16 (subarr KV_PUBLISH_SIZE (cast16 (?u - KV_PUBLISH_SIZE)) b2),
               bh_reserved2 = 0, bh_header_crc = 0\<rparr>"
    unfolding crc by (simp add: h_def bank_hdr_def Let_def used(1) body(2))
  have raw: "crc16 (take (KV_BANK_HDR_SIZE - 2) (encode_bank_header (replicate KV_BANK_HDR_SIZE 0) h)) =
      bh_header_crc (bank_hdr ?n g body)"
    unfolding bank_hdr_crc h_def by (simp add: encode_bank_header KV_BANK_HDR_SIZE_def blit_def)
  have "prepare_bank_header s g = s\<lparr>bank := encode_bank_header b2 (h\<lparr>bh_header_crc := bh_header_crc (bank_hdr ?n g body)\<rparr>)\<rparr>"
    unfolding prepare_bank_header_def Let_def b1_def [symmetric] b2_def [symmetric] h' [symmetric] raw ..
  also have "h\<lparr>bh_header_crc := bh_header_crc (bank_hdr ?n g body)\<rparr> = bank_hdr ?n g body" by (simp add: h_def)
  finally have prep: "prepare_bank_header s g = s\<lparr>bank := blit b2 0 (bh_bytes (bank_hdr ?n g body))\<rparr>"
    using used n len(2) by (simp add: encode_bank_header publish_256)
  let ?b = "blit b2 0 (bh_bytes (bank_hdr ?n g body))"
  have bnth: "?b ! i = (if i < 24 then bh_bytes (bank_hdr ?n g body) ! i else b2 ! i)" if "i < length (bank s)" for i
    using that used n len(2) by (simp add: nth_blit publish_256)
  have lenb: "length ?b = length (bank s)" using used n len(2) by (simp add: publish_256)
  have "take ?n ?b = bank_front ?n g body @ bank_back ?n body"
  proof (rule nth_equalityI)
    show "length (take ?n ?b) = length (bank_front ?n g body @ bank_back ?n body)"
      using used n lenb by (simp add: length_bank_back publish_256)
    fix i assume "i < length (take ?n ?b)"
    then have i: "i < ?n" "i < length (bank s)" using lenb n(1) by simp_all
    have "bank s ! i = encs body ! (i - 256)" if "256 \<le> i" "i < ?u"
      using held_nth [OF body(1), of "i - 256"] that used(1) by (simp add: publish_256)
    then show "take ?n ?b ! i = (bank_front ?n g body @ bank_back ?n body) ! i"
      using i used bnth [OF i(2)] nth [OF i(2)]
      by (auto simp: nth_append bank_front_def bank_back_def publish_256)
  qed
  moreover have "\<forall>i. KV_PUBLISH_SIZE \<le> i \<longrightarrow> i < ?u \<longrightarrow> ?b ! i = bank s ! i"
    using bnth nth used n by (simp add: publish_256)
  ultimately show ?thesis using prep lenb by blast
qed

section \<open>Publishing\<close>

lemma replaced_partly_full: "replaced_partly publish old data data"
  unfolding replaced_partly_def by (intro disjI2 exI [of _ publish]) simp


lemma publish_segments:
  assumes act: "bank_holds a (pick act x0 x1) n m C d q" "meta_generation m = g" "act = 0 \<or> act = 1"
    and old: "boots a n x0 x1 B"
    and body: "\<forall>r \<in> set body. record_ok False r" "roomy body Map.empty"
    and n: "n < 0xFF00" "KV_PUBLISH_SIZE + length (encs body) \<le> n" "0 < a" "a dvd n"
    and new: "pick act y0 y1 = pick act x0 x1" "length (pick (other_bank act) y0 y1) = n"
      "replaced_partly KV_PUBLISH_SIZE (pick (other_bank act) x0 x1) img (pick (other_bank act) y0 y1)"
    and image_def: "img = bank_front n (g + 1) body @ bank_back n body"
  shows "\<exists>B' \<in> {B, C, replay body Map.empty}. boots a n y0 y1 B' \<and>
    (pick (other_bank act) y0 y1 = img \<longrightarrow> B' = replay body Map.empty \<and> choice n y0 y1 = other_bank act)"
proof -
  let ?o = "other_bank act" and ?M = "replay body Map.empty"
  note valid = bank_holds_valid [OF act(1), folded new(1)]
  have len: "length img = n" using n(2) by (simp add: image_def length_bank_back publish_256)
  have rejected: "boots a n y0 y1 C" if "validate_bank_buffer (pick ?o y0 y1) n = None"
    using choice_active [OF valid act(3) that] bootsI [of n y0 y1 act a m C d q] act(1) new(1) by simp
  have published: "boots a n y0 y1 ?M \<and> choice n y0 y1 = ?o"
    if "bank_holds a (pick ?o y0 y1) n (bank_meta (g + 1) body) ?M False (align a (KV_PUBLISH_SIZE + length (encs body)))"
    using choice_newer [OF valid act(3) bank_holds_valid [OF that]] that act(2) bootsI
    by (auto simp: bank_meta_def)
  have full: "boots a n y0 y1 ?M \<and> choice n y0 y1 = ?o" if "pick ?o y0 y1 = img"
    using that n body len unfolding image_def by (intro published bank_holds_image) simp_all
  show ?thesis
  proof (cases "pick ?o y0 y1 = img")
    case True
    then show ?thesis using full by blast
  next
    case False
    have torn: "take k img @ replicate (256 - k) 0xFF @ drop 256 img = torn_front k n (g + 1) body @ bank_back n body"
      if "k \<le> 256" for k using that by (simp add: image_def torn_front_def)
    consider "pick ?o y0 y1 = pick ?o x0 x1" | "pick ?o y0 y1 \<noteq> []" "hd (pick ?o y0 y1) = 0xFF"
      | k where "k \<le> 256" "pick ?o y0 y1 = torn_front k n (g + 1) body @ bank_back n body"
      using new(3) torn unfolding replaced_partly_def publish_256 by metis
    then show ?thesis
    proof cases
      case 1
      then have "y0 = x0 \<and> y1 = x1" using new(1) act(3) by (auto simp: pick_def other_bank_def)
      then show ?thesis using old False by blast
    next
      case 2
      then have "validate_bank_buffer (pick ?o y0 y1) n = None"
        by (intro validate_erased_front) (simp_all add: hd_conv_nth)
      then show ?thesis using rejected False by blast
    next
      case (3 k)
      have t: "take n (pick ?o y0 y1) = torn_front k n (g + 1) body @ bank_back n body"
        using 3(2) new(2) by simp
      show ?thesis
      proof (cases "validate_bank_buffer (pick ?o y0 y1) n = None")
        case True
        then show ?thesis using rejected False by blast
      next
        case v: False
        have "boots a n y0 y1 ?M"
          using published [OF bank_holds_torn [OF t 3(1) n(1) v body n(2-4)]] by blast
        then show ?thesis using False by blast
      qed
    qed
  qed
qed

section \<open>The store and its medium\<close>

definition kv_seg :: "('p \<Rightarrow> bytes) \<Rightarrow> kv \<Rightarrow> 'p eeprom \<Rightarrow> nat \<Rightarrow> bytes" where
  "kv_seg med s e b = subarr (kv_base s + b * bank_size s) (bank_size s) (med (s_storage e))"

definition kv_placed :: "kv \<Rightarrow> 'p eeprom \<Rightarrow> bool" where
  "kv_placed s e \<longleftrightarrow> kv_mutex s \<and> kv_ready s \<and>
     region_status e (kv_base s) (bank_size s) KV_PUBLISH_SIZE = HAL_OK \<and>
     kv_base s + 2 * bank_size s \<le> s_size e \<and> s_size e < 65536 \<and> kv_append_size s = s_append_size e"

definition found_at_boot :: "('p \<Rightarrow> bytes) \<Rightarrow> kv \<Rightarrow> 'p eeprom \<Rightarrow> kv_contents \<Rightarrow> bool" where
  "found_at_boot med s e B \<longleftrightarrow> boots (kv_append_size s) (bank_size s) (kv_seg med s e 0) (kv_seg med s e 1) B"

definition holds_core :: "('p \<Rightarrow> bytes) \<Rightarrow> kv \<Rightarrow> 'p eeprom \<Rightarrow> kv_contents \<Rightarrow> kv_contents \<Rightarrow> bool" where
  "holds_core med s e C B \<longleftrightarrow> kv_core s (kv_seg med s e 0) (kv_seg med s e 1) C B"

definition holds_ok :: "('p \<Rightarrow> bytes) \<Rightarrow> kv \<Rightarrow> 'p eeprom \<Rightarrow> kv_contents \<Rightarrow> kv_contents \<Rightarrow> bool" where
  "holds_ok med s e C B \<longleftrightarrow> kv_ok s (kv_seg med s e 0) (kv_seg med s e 1) C B"

definition same_place :: "kv \<Rightarrow> kv \<Rightarrow> bool" where
  "same_place s s' \<longleftrightarrow> kv_mutex s' = kv_mutex s \<and> kv_ready s' = kv_ready s \<and> kv_base s' = kv_base s \<and>
     bank_size s' = bank_size s \<and> kv_append_size s' = kv_append_size s \<and> auto_commit s' = auto_commit s \<and>
     read_through s' = read_through s"

lemma same_place_trans [trans]: "same_place s s' \<Longrightarrow> same_place s' s'' \<Longrightarrow> same_place s s''"
  by (simp add: same_place_def)

lemma same_place_refl [simp]: "same_place s s"
  by (simp add: same_place_def)

lemma kv_seg_pick: "b = 0 \<or> b = 1 \<Longrightarrow> kv_seg med s e b = pick b (kv_seg med s e 0) (kv_seg med s e 1)"
  by (auto simp: pick_def)

lemma kv_seg_same: "same_place s s' \<Longrightarrow> kv_seg med s' e = kv_seg med s e"
  by (simp add: kv_seg_def same_place_def fun_eq_iff)

lemma bank_base_placed:
  "kv_placed s e \<Longrightarrow> b = 0 \<or> b = 1 \<Longrightarrow> bank_base s b = kv_base s + b * bank_size s"
  by (auto simp: bank_base_def kv_placed_def cast16_def)

text \<open>What an operation may do to the store and its medium: a restart finds the old, the active or the new state.\<close>

definition outcome ::
  "('p \<Rightarrow> bytes) \<Rightarrow> ('p \<Rightarrow> bool) \<Rightarrow> kv \<Rightarrow> 'p eeprom \<Rightarrow> kv \<Rightarrow> 'p eeprom \<Rightarrow> kv_contents \<Rightarrow> kv_contents \<Rightarrow> bool \<Rightarrow> bool" where
  "outcome med powered s e s' e' C B acked \<longleftrightarrow> (\<exists>C' B'. C' \<in> {C, contents s'} \<and> B' \<in> {B, C, contents s'} \<and>
     ram_ok s' \<and> kv_placed s' e' \<and> same_place s s' \<and> (powered (s_storage e') \<longrightarrow> powered (s_storage e)) \<and>
     (powered (s_storage e) \<longrightarrow> found_at_boot med s' e' B') \<and>
     (\<not> powered (s_storage e) \<longrightarrow> med (s_storage e') = med (s_storage e)) \<and>
     (powered (s_storage e') \<longrightarrow> holds_ok med s' e' C' B' \<and>
        (acked \<longrightarrow> \<not> kv_dirty s' \<and> C' = contents s' \<and> B' = contents s')))"

lemma region_status_storage: "region_status (e\<lparr>s_storage := p\<rparr>) = region_status e"
proof -
  have "range_status (e\<lparr>s_storage := p\<rparr>) at len = range_status e at len" for at len
    by (cases "s_provider e") (simp_all add: range_status_def)
  then show ?thesis by (simp add: region_status_def fun_eq_iff)
qed

lemma changes_placed:
  "changes med powered e e' addr new \<Longrightarrow> same_place s s' \<Longrightarrow> kv_placed s e \<Longrightarrow> kv_placed s' e'"
  by (auto simp: changes_def kv_placed_def same_place_def region_status_storage)

context kv_medium
begin

lemma placed_fits: "online e \<Longrightarrow> kv_placed s e \<Longrightarrow> kv_base s + 2 * bank_size s \<le> length (med (s_storage e))"
  by (simp add: attached_def kv_placed_def)

lemma seg_changed:
  assumes e: "online e" "kv_placed s e" and b: "b = 0 \<or> b = 1"
    and ch: "changes med powered e e' (kv_base s + b * bank_size s + off) new" "off + length new \<le> bank_size s"
    and ss': "same_place s s'"
  shows "kv_seg med s' e' b = blit (kv_seg med s e b) off new"
    and "kv_seg med s' e' (other_bank b) = kv_seg med s e (other_bank b)"
proof -
  let ?n = "bank_size s" and ?x = "med (s_storage e)" and ?at = "kv_base s + b * bank_size s + off"
  have fits: "kv_base s + 2 * ?n \<le> length ?x" using e by (rule placed_fits)
  have inside: "kv_base s + b * ?n + ?n \<le> length ?x" "kv_base s + other_bank b * ?n + ?n \<le> length ?x"
    using fits b by (auto simp: other_bank_def)
  have x': "med (s_storage e') = blit ?x ?at new" using ch by (auto simp: changes_def)
  have new: "?at + length new \<le> length ?x" using inside(1) ch(2) by simp
  note seg' = kv_seg_same [OF ss', of med e']
  show "kv_seg med s' e' b = blit (kv_seg med s e b) off new"
    unfolding seg' using inside new ch(2) by (intro nth_equalityI) (auto simp: kv_seg_def x' nth_subarr nth_blit)
  show "kv_seg med s' e' (other_bank b) = kv_seg med s e (other_bank b)"
    unfolding seg' kv_seg_def x'
    using new inside ch(2) b by (intro subarr_blit_disjoint) (auto simp: other_bank_def)
qed

lemma placed_kept: "online e \<Longrightarrow> kv_placed s e \<Longrightarrow> 0 < bank_size s \<and> erase_size dvd kv_base s \<and> erase_size dvd bank_size s"
  by (auto simp: kv_placed_def region_status_OK attached_def)

lemma publish_unpowered:
  assumes "changes med powered e e' at new" "\<not> powered (s_storage e)"
  shows "\<not> powered (s_storage e') \<and> med (s_storage e') = med (s_storage e)"
  using assms by (auto simp: changes_def)

lemma found_at_boot_same:
  "same_place s s' \<Longrightarrow> med (s_storage e') = med (s_storage e) \<Longrightarrow> found_at_boot med s' e' B = found_at_boot med s e B"
  by (simp add: found_at_boot_def kv_seg_def same_place_def)

text \<open>A store whose bank has just been compacted.\<close>

definition compact_now :: "kv \<Rightarrow> kv_record list \<Rightarrow> bool" where
  "compact_now s body \<longleftrightarrow> used_offset s = KV_PUBLISH_SIZE + length (encs body) \<and>
     held (bank s) KV_PUBLISH_SIZE (encs body) \<and> record_count s = of_nat (length body) \<and>
     (\<forall>r \<in> set body. record_ok False r) \<and> roomy body Map.empty \<and> replay body Map.empty = contents s \<and>
     needs_publish s \<and> kv_dirty s \<and> ram_ok s"

text \<open>The store after an image has reached the medium whole.\<close>

definition published :: "kv \<Rightarrow> bytes \<Rightarrow> kv" where
  "published s b = s\<lparr>bank := b, active_bank := other_bank (active_bank s), kv_generation := kv_generation s + 1,
     flash_end := align (kv_append_size s) (used_offset s), used_offset := align (kv_append_size s) (used_offset s),
     needs_publish := False, kv_dirty := False\<rparr>"

lemma published_ram:
  assumes ram: "ram_ok (s\<lparr>bank := b\<rparr>)" "contents (s\<lparr>bank := b\<rparr>) = contents s"
  shows "ram_ok (published s b)" "contents (published s b) = contents s" "same_place s (published s b)"
    "align (kv_append_size s) (used_offset s) \<le> bank_size s" "bank_size s \<le> length b" "bank_size s < 0xFF00"
proof -
  have lim: "used_offset s \<le> bank_size s" "0 < kv_append_size s" "kv_append_size s dvd bank_size s"
    "active_bank s = 0 \<or> active_bank s = 1" using ram(1) by (simp_all add: ram_ok_def)
  have used: "used_offset s \<le> align (kv_append_size s) (used_offset s)" using align_ge [OF lim(2)] .
  show stop: "align (kv_append_size s) (used_offset s) \<le> bank_size s" using align_le [OF lim(2,3,1)] .
  show "bank_size s \<le> length b" "bank_size s < 0xFF00"
    using ram(1) bank_limits [of "s\<lparr>bank := b\<rparr>"] by (simp_all add: ram_ok_def)
  have "index_ok b (kv_index s) (used_offset s)" using ram(1) by (simp add: ram_ok_def)
  then have "index_ok b (kv_index s) (align (kv_append_size s) (used_offset s))" using used by (rule index_ok_mono)
  then show "ram_ok (published s b)"
    using ram(1) used stop pick_other [OF lim(4)] by (simp add: published_def ram_ok_def)
  show "contents (published s b) = contents s" "same_place s (published s b)"
    using ram(2) by (simp_all add: published_def contents_def same_place_def)
qed

lemma published_ok:
  assumes body: "compact_now s body"
    and b: "take (bank_size s) b = bank_front (bank_size s) (kv_generation s + 1) body @ bank_back (bank_size s) body"
    and ram: "ram_ok (s\<lparr>bank := b\<rparr>)" "contents (s\<lparr>bank := b\<rparr>) = contents s"
    and y: "pick (other_bank (active_bank s)) y0 y1 = take (bank_size s) b" "length y0 = bank_size s" "length y1 = bank_size s"
      "choice (bank_size s) y0 y1 = other_bank (active_bank s)"
  shows "kv_ok (published s b) y0 y1 (contents s) (contents s)"
proof -
  let ?n = "bank_size s" and ?a = "kv_append_size s" and ?q = "align (kv_append_size s) (used_offset s)" and ?s = "published s b"
  note p = published_ram [OF ram]
  have lim: "KV_PUBLISH_SIZE + length (encs body) \<le> ?n" "0 < ?a" "?a dvd ?n" "used_offset s = KV_PUBLISH_SIZE + length (encs body)"
    using ram(1) body by (simp_all add: ram_ok_def compact_now_def)
  have c: "\<forall>r \<in> set body. record_ok False r" "roomy body Map.empty" "replay body Map.empty = contents s"
    using body by (simp_all add: compact_now_def)
  have "take ?n (take ?n b) = bank_front ?n (kv_generation s + 1) body @ bank_back ?n body" unfolding b [symmetric] by simp
  from bank_holds_image [OF this _ c(1,2) lim(1-3)] p(6)
  have holds: "bank_holds ?a (take ?n b) ?n (bank_meta (kv_generation s + 1) body) (contents s) False ?q"
    unfolding c(3) lim(4) by simp
  have same: "take ?q b = take ?q (take ?n b)" using p(4) by (simp add: min_def)
  have "pending ?s (contents s) ?q []" using p by (simp add: pending_def published_def held_def)
  then have "active_ok ?s (take ?n b) (contents s)"
    unfolding active_ok_def using holds same
    by (intro exI [of _ "bank_meta (kv_generation s + 1) body"] exI [of _ False] exI [of _ ?q])
      (auto simp: published_def bank_meta_def)
  moreover have "boots ?a ?n y0 y1 (contents s)" using bootsI [OF y(4)] holds y(1) by simp
  ultimately have "kv_core ?s y0 y1 (contents s) (contents s)"
    unfolding kv_core_def using p(1) y by (simp add: published_def)
  moreover have "kv_clean ?s y0 y1 (contents s)"
    unfolding kv_clean_def using p(2) same y(1) by (simp add: published_def)
  ultimately show ?thesis by (simp add: kv_ok_def)
qed

text \<open>One run of \<open>publish_full_locked\<close>: the image, the call of the facade, and the store after it.\<close>

lemma publish_call:
  assumes e: "online e" "kv_placed s e" and body: "compact_now s body"
    and run: "publish_full_locked s e = (s', e', status)"
  obtains b st where "length b = length (bank s)"
    "take (bank_size s) b = bank_front (bank_size s) (kv_generation s + 1) body @ bank_back (bank_size s) body"
    "ram_ok (s\<lparr>bank := b\<rparr>)" "contents (s\<lparr>bank := b\<rparr>) = contents s" "length (take (bank_size s) b) = bank_size s"
    "region_status e (kv_base s + other_bank (active_bank s) * bank_size s) (bank_size s) KV_PUBLISH_SIZE = HAL_OK"
    "jh_eeprom_replace_region e (kv_base s + other_bank (active_bank s) * bank_size s) (take (bank_size s) b)
       KV_PUBLISH_SIZE = (e', st)"
    "(s', status) = (if hal_status_is_error st then (s\<lparr>bank := b\<rparr>, st) else (published s b, HAL_OK))"
proof -
  let ?n = "bank_size s" and ?o = "other_bank (active_bank s)" and ?g = "kv_generation s + 1" and ?a = "kv_append_size s"
  have ok: "ram_ok s" "used_offset s = KV_PUBLISH_SIZE + length (encs body)" using body by (simp_all add: compact_now_def)
  have ram: "used_offset s \<le> ?n" "?n \<le> length (bank s)" "?n < 0xFF00"
    "active_bank s = 0 \<or> active_bank s = 1" "0 < ?a" "?a dvd ?n"
    using ok(1) bank_limits [of s] by (simp_all add: ram_ok_def)
  have o: "?o = 0 \<or> ?o = 1" using pick_other [OF ram(4)] by simp
  obtain b where b: "prepare_bank_header s ?g = s\<lparr>bank := b\<rparr>" "length b = length (bank s)"
    "take ?n b = bank_front ?n ?g body @ bank_back ?n body"
    "\<forall>i. KV_PUBLISH_SIZE \<le> i \<longrightarrow> i < used_offset s \<longrightarrow> b ! i = bank s ! i"
    using prepare_bank_header_image [OF ok(2) ram(1) _ _ ram(2), of ?g] body ram(3) by (auto simp: compact_now_def)
  let ?img = "take ?n b" and ?s1 = "s\<lparr>bank := b\<rparr>"
  have index: "index_ok b (kv_index s) (used_offset s)" "kv_map b (kv_index s) = contents s"
    using index_ok_between [of "bank s" "kv_index s" "used_offset s" b] b(2,4) ok(1)
    by (simp_all add: ram_ok_def contents_def)
  have len: "length ?img = ?n" using b(2) ram(2) by simp
  have base: "bank_base s ?o = kv_base s + ?o * ?n" using bank_base_placed [OF e(2) o] .
  have other: "(if active_bank s = 0 then 1 else 0) = ?o" by (simp add: other_bank_def)
  have base1: "bank_base ?s1 ?o = kv_base s + ?o * ?n" unfolding base [symmetric] by (simp add: bank_base_def)
  obtain e1 st where rep: "jh_eeprom_replace_region e (kv_base s + ?o * ?n) ?img KV_PUBLISH_SIZE = (e1, st)"
    by (cases "jh_eeprom_replace_region e (kv_base s + ?o * ?n) ?img KV_PUBLISH_SIZE")
  have region: "region_status e (kv_base s + ?o * ?n) ?n KV_PUBLISH_SIZE = HAL_OK"
    using e(2) o unfolding kv_placed_def region_status_OK range_status_OK by auto
  have "align ?a (used_offset s) \<le> ?n" using align_le [OF ram(5,6,1)] .
  then have stop: "cast16 (align_up ?s1 (used_offset s)) = align ?a (used_offset s)"
    using ram(3) by (simp add: align_up_eq cast16_def)
  have result: "e1 = e' \<and> (s', status) = (if hal_status_is_error st then (?s1, st) else (published s b, HAL_OK))"
    using run rep stop base1 unfolding publish_full_locked_def Let_def other b(1)
    by (simp add: published_def split: if_splits)
  have "ram_ok ?s1" "contents ?s1 = contents s" using b(2) ok(1) index by (simp_all add: ram_ok_def contents_def)
  from that [OF b(2,3) this len region _ conjunct2 [OF result]] show thesis using rep result by simp
qed

lemma publish_run:
  assumes e: "online e" "kv_placed s e" and body: "compact_now s body"
    and run: "publish_full_locked s e = (s', e', status)"
  obtains b new where "length b = length (bank s)"
    "take (bank_size s) b = bank_front (bank_size s) (kv_generation s + 1) body @ bank_back (bank_size s) body"
    "ram_ok (s\<lparr>bank := b\<rparr>)" "contents (s\<lparr>bank := b\<rparr>) = contents s" "online e'"
    "changes med powered e e' (kv_base s + other_bank (active_bank s) * bank_size s) new" "length new = bank_size s"
    "if powered (s_storage e') \<and> status = HAL_OK then new = take (bank_size s) b
     else replaced_partly KV_PUBLISH_SIZE (kv_seg med s e (other_bank (active_bank s))) (take (bank_size s) b) new"
    "s' = (if status = HAL_OK then published s b else s\<lparr>bank := b\<rparr>)" "status \<noteq> HAL_NONE"
proof -
  obtain b st where c: "length b = length (bank s)"
    "take (bank_size s) b = bank_front (bank_size s) (kv_generation s + 1) body @ bank_back (bank_size s) body"
    "ram_ok (s\<lparr>bank := b\<rparr>)" "contents (s\<lparr>bank := b\<rparr>) = contents s" "length (take (bank_size s) b) = bank_size s"
    "region_status e (kv_base s + other_bank (active_bank s) * bank_size s) (bank_size s) KV_PUBLISH_SIZE = HAL_OK"
    "jh_eeprom_replace_region e (kv_base s + other_bank (active_bank s) * bank_size s) (take (bank_size s) b)
       KV_PUBLISH_SIZE = (e', st)"
    "(s', status) = (if hal_status_is_error st then (s\<lparr>bank := b\<rparr>, st) else (published s b, HAL_OK))"
    by (rule publish_call [OF assms])
  have region: "region_status e (kv_base s + other_bank (active_bank s) * bank_size s) (length (take (bank_size s) b)) KV_PUBLISH_SIZE = HAL_OK"
    unfolding c(5) by (rule c(6))
  obtain new where new: "online e'" "changes med powered e e' (kv_base s + other_bank (active_bank s) * bank_size s) new"
    "length new = bank_size s" "st \<noteq> HAL_NONE" "if powered (s_storage e') \<and> st = HAL_OK then new = take (bank_size s) b
     else replaced_partly KV_PUBLISH_SIZE (kv_seg med s e (other_bank (active_bank s))) (take (bank_size s) b) new"
    using facade_replace [OF e(1) region c(7)] unfolding c(5) kv_seg_def [symmetric] by (elim exE conjE) (rule that)
  have st: "status = st" "s' = (if st = HAL_OK then published s b else s\<lparr>bank := b\<rparr>)"
    using c(8) new(4) by (auto simp: hal_status_is_error_def split: if_splits)
  show thesis by (rule that [OF c(1-4) new(1-3)]) (use new(4,5) st in simp_all)
qed

text \<open>The banks after a publication that may have been cut short.\<close>

lemma published_banks:
  assumes e: "online e" "kv_placed s e" and act: "active_bank s = 0 \<or> active_bank s = 1" and place: "same_place s s2"
    and ch: "changes med powered e e' (kv_base s + other_bank (active_bank s) * bank_size s) new" "length new = bank_size s"
  shows "pick (other_bank (active_bank s)) (kv_seg med s2 e' 0) (kv_seg med s2 e' 1) = new"
    "pick (active_bank s) (kv_seg med s2 e' 0) (kv_seg med s2 e' 1) = pick (active_bank s) (kv_seg med s e 0) (kv_seg med s e 1)"
    "length (kv_seg med s2 e' 0) = bank_size s" "length (kv_seg med s2 e' 1) = bank_size s"
proof -
  let ?o = "other_bank (active_bank s)"
  have o: "?o = 0 \<or> ?o = 1" using pick_other [OF act] by simp
  have lenx: "length (kv_seg med s e b) = bank_size s" if "b = 0 \<or> b = 1" for b
    using placed_fits [OF e] that by (auto simp: kv_seg_def)
  have y: "kv_seg med s2 e' ?o = new" "kv_seg med s2 e' (active_bank s) = kv_seg med s e (active_bank s)"
    using seg_changed [OF e o _ _ place, of e' 0 new] ch lenx [OF o] pick_other [OF act] by (simp_all add: blit_def)
  then show "pick ?o (kv_seg med s2 e' 0) (kv_seg med s2 e' 1) = new"
    "pick (active_bank s) (kv_seg med s2 e' 0) (kv_seg med s2 e' 1) = pick (active_bank s) (kv_seg med s e 0) (kv_seg med s e 1)"
    using kv_seg_pick [OF o, of med s2 e'] kv_seg_pick [OF act, of med s2 e'] kv_seg_pick [OF act, of med s e] by simp_all
  show "length (kv_seg med s2 e' 0) = bank_size s" "length (kv_seg med s2 e' 1) = bank_size s"
    using y lenx [OF act] ch(2) act o by (auto simp: other_bank_def split: if_splits)
qed

lemma publish_full_outcome:
  assumes e: "online e" "kv_placed s e" and body: "compact_now s body"
    and core: "powered (s_storage e) \<Longrightarrow> holds_core med s e C B"
    and run: "publish_full_locked s e = (s', e', status)"
  shows "outcome med powered s e s' e' C B (status = HAL_OK) \<and> contents s' = contents s \<and> online e'"
proof -
  let ?n = "bank_size s" and ?o = "other_bank (active_bank s)" and ?a = "kv_append_size s"
  have ok: "ram_ok s" "used_offset s = KV_PUBLISH_SIZE + length (encs body)" using body by (simp_all add: compact_now_def)
  have ram: "used_offset s \<le> ?n" "?n < 0xFF00" "active_bank s = 0 \<or> active_bank s = 1" "0 < ?a" "?a dvd ?n" "KV_PUBLISH_SIZE < ?n"
    using ok(1) bank_limits [of s] by (simp_all add: ram_ok_def KV_REC_OVERHEAD_def KV_REC_HDR_SIZE_def)
  have o: "?o = 0 \<or> ?o = 1" using pick_other [OF ram(3)] by simp
  obtain b new where r: "length b = length (bank s)"
    "take ?n b = bank_front ?n (kv_generation s + 1) body @ bank_back ?n body"
    "ram_ok (s\<lparr>bank := b\<rparr>)" "contents (s\<lparr>bank := b\<rparr>) = contents s" "online e'"
    "changes med powered e e' (kv_base s + ?o * ?n) new" "length new = ?n"
    "if powered (s_storage e') \<and> status = HAL_OK then new = take ?n b
     else replaced_partly KV_PUBLISH_SIZE (kv_seg med s e ?o) (take ?n b) new"
    "s' = (if status = HAL_OK then published s b else s\<lparr>bank := b\<rparr>)"
    by (rule publish_run [OF e body run])
  have place: "same_place s s'" "kv_placed s' e'"
    using changes_placed [OF r(6) _ e(2), of s'] published_ram(3) [OF r(3,4)] by (simp_all add: r(9) same_place_def)
  let ?x = "kv_seg med s e" and ?y = "kv_seg med s' e'"
  note y = published_banks [OF e ram(3) place(1) r(6,7)]
  have px: "pick ?o (?x 0) (?x 1) = ?x ?o" by (rule kv_seg_pick [OF o, symmetric])
  have partly: "replaced_partly KV_PUBLISH_SIZE (pick ?o (?x 0) (?x 1)) (take ?n b) (pick ?o (?y 0) (?y 1))"
    using r(8) unfolding px y by (auto simp: replaced_partly_full split: if_splits)
  have body': "\<forall>r \<in> set body. record_ok False r" "roomy body Map.empty" "replay body Map.empty = contents s"
    "needs_publish s" "kv_dirty s" using body by (simp_all add: compact_now_def)
  have ram': "ram_ok s'" "contents s' = contents s"
    using published_ram(1,2) [OF r(3,4)] r(3,4) by (simp_all add: r(9))
  show ?thesis
  proof (cases "powered (s_storage e)")
    case False
    have "\<not> powered (s_storage e')" "med (s_storage e') = med (s_storage e)"
      using publish_unpowered [OF r(6) False] by auto
    then show ?thesis unfolding outcome_def using ram' place False r(5) by auto
  next
    case True
    note c = core [OF True, unfolded holds_core_def kv_core_def]
    obtain m d q where m: "bank_holds ?a (pick (active_bank s) (?x 0) (?x 1)) ?n m C d q"
      "meta_generation m = kv_generation s" using c unfolding active_ok_def by blast
    have old: "boots ?a ?n (?x 0) (?x 1) B" using c by blast
    obtain B' where B': "B' \<in> {B, C, contents s}" "boots ?a ?n (?y 0) (?y 1) B'"
      "new = take ?n b \<Longrightarrow> choice ?n (?y 0) (?y 1) = ?o"
      using publish_segments [OF m ram(3) old body'(1,2) ram(2) _ ram(4,5) y(2) _ partly r(2)] ok(2) ram(1) r(7)
      unfolding body'(3) y by auto
    have found: "found_at_boot med s' e' B'" using B'(2) place(1) by (simp add: found_at_boot_def same_place_def)
    show ?thesis
    proof (cases "powered (s_storage e') \<and> status = HAL_OK")
      case True
      then have img: "new = take ?n b" and s': "s' = published s b" using r(8,9) by simp_all
      have "holds_ok med s' e' (contents s) (contents s)"
        using published_ok [OF body r(2-4), of "?y 0" "?y 1"] y B'(3) [OF img] img unfolding holds_ok_def s' by simp
      moreover have "found_at_boot med s' e' (contents s)"
        using calculation by (simp add: holds_ok_def kv_ok_def kv_core_def found_at_boot_def)
      moreover have "\<not> kv_dirty s'" by (simp add: s' published_def)
      ultimately show ?thesis
        unfolding outcome_def ram'(2) using ram'(1) place r(5) \<open>powered (s_storage e)\<close>
        by (intro conjI exI [of _ "contents s"]) simp_all
    next
      case False
      have "holds_ok med s' e' C B'" if on: "powered (s_storage e')"
      proof -
        have s': "s' = s\<lparr>bank := b\<rparr>" using False on r(9) by simp
        have "active_ok s' (pick (active_bank s) (?y 0) (?y 1)) C"
          unfolding active_ok_def y(2) using m body'(4) by (intro exI [of _ m] exI [of _ d] exI [of _ q]) (simp add: s')
        then show ?thesis
          using ram'(1) y(3,4) B'(2) body'(4,5) by (simp add: s' holds_ok_def kv_ok_def kv_core_def kv_clean_def)
      qed
      then show ?thesis
        unfolding outcome_def ram'(2)
        using ram' place found B'(1) False r(5) \<open>powered (s_storage e)\<close>
        by (intro conjI exI [of _ C] exI [of _ B']) auto
    qed
  qed
qed

end

end
