(* ===== verification/Kv_Append.thy ===== *)
theory Kv_Append
  imports Kv_Commit
begin

text \<open>
  Committing a batch by appending it to the log of the active bank, and the choice between
  appending and publishing.
\<close>

section \<open>The batch in the RAM image\<close>

lemma commit_payload:
  "jh_store_le16 (jh_store_le16 (replicate KV_COMMIT_LEN 0) 0 v) 2 w = le16 v @ le16 w"
  by (simp add: store_le16 KV_COMMIT_LEN_def blit_def numeral_eq_Suc le16_def)

text \<open>The image with the commit record, and the bytes that are appended.\<close>

lemma batch_image:
  assumes pend: "used_offset s = q + length (encs rs)" "held (bank s) q (encs rs)"
    and fits: "used_offset s + 22 \<le> stop" "stop \<le> length (bank s)"
    and b_def: "b = write_record (bank s) (used_offset s) 0 KV_REC_TYPE_COMMIT
      (le16 (of_nat q) @ le16 (crc16 (encs rs))) w"
  shows "b = blit (bank s) (used_offset s) (enc (commit_rec q rs w))"
    and "\<exists>pad. subarr q (stop - q) b = batch_bytes q rs w @ pad \<and> length pad = stop - (used_offset s + 22)"
proof -
  show b: "b = blit (bank s) (used_offset s) (enc (commit_rec q rs w))"
    unfolding b_def using fits by (subst write_record_enc) (simp_all add: commit_rec_def)
  have len: "length b = length (bank s)" using fits by (simp add: b)
  have "held b q (encs rs)"
    unfolding b using pend fits by (intro held_blit_other) simp_all
  moreover have "held b (used_offset s) (enc (commit_rec q rs w))"
    unfolding b using fits by (intro held_blit) simp
  ultimately have "subarr q (length (batch_bytes q rs w)) b = batch_bytes q rs w"
    unfolding batch_bytes_def using pend(1) by (simp add: held_def held_append subarr_append)
  then have "subarr q (length (batch_bytes q rs w) + (stop - (used_offset s + 22))) b =
      batch_bytes q rs w @ subarr (q + length (batch_bytes q rs w)) (stop - (used_offset s + 22)) b"
    by (simp only: subarr_append)
  moreover have "length (batch_bytes q rs w) + (stop - (used_offset s + 22)) = stop - q"
    using pend(1) fits(1) by (simp add: length_batch_bytes)
  ultimately show "\<exists>pad. subarr q (stop - q) b = batch_bytes q rs w @ pad \<and> length pad = stop - (used_offset s + 22)"
    using len fits pend(1) by (intro exI [of _ "subarr (q + length (batch_bytes q rs w)) (stop - (used_offset s + 22)) b"])
      (simp add: length_batch_bytes)
qed

section \<open>The segment after an append\<close>

lemma written_partly_torn:
  assumes "written_partly old data new" "length old = length data"
  shows "new = old \<or> (\<exists>k \<le> length data. new = take k data @ replicate (length data - k) 0xFF)"
  using assms by (auto simp: written_partly_def)

lemma all_erased_replicate: "all_erased xs \<Longrightarrow> length xs = n \<Longrightarrow> xs = replicate n 0xFF"
  by (auto simp: all_erased_def list_all_iff intro: replicate_eqI)

lemma all_erased_take: "all_erased xs \<Longrightarrow> all_erased (take n xs)"
  by (auto simp: all_erased_def list_all_iff dest: in_set_takeD)

lemma all_erased_bytes: "all_erased (subarr off n b) = bytes_erased b off n"
  by (simp add: all_erased_def bytes_erased_def)

text \<open>
  An append that is not complete leaves the old contents or the new ones; when the space it
  was to fill still reads as erased, nothing has changed.
\<close>

lemma append_segment:
  assumes holds: "bank_holds a x n m C False q" and a: "0 < a" "a dvd n"
    and rs: "rs \<noteq> []" "\<forall>r \<in> set rs. record_ok False r" "roomy rs C"
    and data: "data = batch_bytes q rs w @ pad"
    and n: "length x = n" "q + length data \<le> n"
    and stop: "q + length data = align a (q + length (batch_bytes q rs w))"
    and new: "length new = length data" "written_partly (subarr q (length data) x) data new \<or> new = data"
  shows "(\<exists>d. bank_holds a (blit x q new) n m C d q) \<or>
      bank_holds a (blit x q new) n m (replay rs C) False (q + length data)"
    and "new = data \<Longrightarrow> bank_holds a (blit x q new) n m (replay rs C) False (q + length data)"
    and "all_erased new \<Longrightarrow> blit x q new = x"
proof -
  have torn: "if k < length (batch_bytes q rs w) then \<exists>d. bank_holds a (blit x q new) n m C d q
      else bank_holds a (blit x q new) n m (replay rs C) False (q + length data)"
    if "k \<le> length data" "new = take k data @ replicate (length data - k) 0xFF" for k
    unfolding stop
    by (rule bank_holds_batch [OF holds a rs n(1), where w = w and pad = pad, folded data, OF n(2) stop that])
  have old: "subarr q (length data) x = replicate (length data) 0xFF"
  proof (rule all_erased_replicate)
    have "log_ends False x n q" using holds by (auto simp: bank_holds_def)
    then have "bytes_erased x q (n - q)" using log_ends_clean n(1) by simp
    then have "all_erased (take (length data) (subarr q (n - q) x))"
      by (intro all_erased_take) (simp only: all_erased_bytes)
    moreover have "take (length data) (subarr q (n - q) x) = subarr q (length data) x"
      using n(2) by (simp add: subarr_def)
    ultimately show "all_erased (subarr q (length data) x)" by simp
  qed (use n in simp)
  show "(\<exists>d. bank_holds a (blit x q new) n m C d q) \<or>
      bank_holds a (blit x q new) n m (replay rs C) False (q + length data)"
  proof (cases "new = subarr q (length data) x")
    case True
    then show ?thesis using holds blit_same [of q "length data" x] n by auto
  next
    case False
    then obtain k where "k \<le> length data" "new = take k data @ replicate (length data - k) 0xFF"
      using new(2) written_partly_torn [of "subarr q (length data) x" data new] n by fastforce
    then show ?thesis using torn [of k] by (auto split: if_splits)
  qed
  show "bank_holds a (blit x q new) n m (replay rs C) False (q + length data)" if "new = data"
    using torn [of "length data"] that by (simp add: data split: if_splits)
  show "blit x q new = x" if "all_erased new"
  proof -
    have "new = subarr q (length data) x" using all_erased_replicate [OF that new(1)] old by simp
    then show ?thesis using blit_same [of q "length data" x] n by simp
  qed
qed

lemma choice_kept:
  assumes "bank_holds a (pick b x0 x1) n m C d q" "bank_holds a' (pick b y0 y1) n m C' d' q'"
    and "pick (other_bank b) y0 y1 = pick (other_bank b) x0 x1" "b = 0 \<or> b = 1" "choice n x0 x1 = b"
  shows "choice n y0 y1 = b"
proof -
  have "validate_bank_buffer y0 n = validate_bank_buffer x0 n \<and> validate_bank_buffer y1 n = validate_bank_buffer x1 n"
    using assms(3,4) bank_holds_valid [OF assms(1)] bank_holds_valid [OF assms(2)]
    by (auto simp: pick_def other_bank_def)
  then show ?thesis using assms(5) by (simp add: choice_def)
qed

lemma bank_holds_aligned: "bank_holds a x n m C d q \<Longrightarrow> a dvd q \<and> q \<le> n"
  unfolding bank_holds_def using chain_aligned align_dvd by blast

section \<open>Appending\<close>

text \<open>The store after an append: the batch is part of the log, or it still waits.\<close>

definition appended :: "kv \<Rightarrow> bytes \<Rightarrow> nat \<Rightarrow> kv" where
  "appended s b stop = s\<lparr>bank := b, flash_end := stop, used_offset := stop, kv_dirty := False\<rparr>"

definition unappended :: "kv \<Rightarrow> bytes \<Rightarrow> bool \<Rightarrow> kv" where
  "unappended s b torn = s\<lparr>bank := b, needs_publish := torn\<rparr>"

lemma image_kept:
  assumes ram: "ram_ok s" and b: "length b = length (bank s)" "take (used_offset s) b = take (used_offset s) (bank s)"
  shows "index_ok b (kv_index s) (used_offset s)" "kv_map b (kv_index s) = contents s"
  using index_ok_cong [of "bank s" "kv_index s" "used_offset s" b] ram b(2) by (simp_all add: ram_ok_def contents_def)

lemma appended_ram:
  assumes ram: "ram_ok s" and b: "length b = length (bank s)" "take (used_offset s) b = take (used_offset s) (bank s)"
    and stop: "used_offset s \<le> stop" "stop \<le> bank_size s"
  shows "ram_ok (appended s b stop)" "contents (appended s b stop) = contents s"
  using ram b(1) stop index_ok_mono [OF image_kept(1) [OF ram b] stop(1)] image_kept(2) [OF ram b]
  by (simp_all add: ram_ok_def appended_def contents_def)

lemma unappended_ram:
  assumes ram: "ram_ok s" and b: "length b = length (bank s)" "take (used_offset s) b = take (used_offset s) (bank s)"
  shows "ram_ok (unappended s b torn)" "contents (unappended s b torn) = contents s"
  using ram b(1) image_kept [OF ram b] by (simp_all add: ram_ok_def unappended_def contents_def)

lemma appended_ok:
  assumes ram: "ram_ok s" and b: "length b = length (bank s)" "take (used_offset s) b = take (used_offset s) (bank s)"
    and stop: "used_offset s \<le> stop" "stop \<le> bank_size s"
    and holds: "bank_holds (kv_append_size s) x (bank_size s) m (contents s) False stop" "meta_generation m = kv_generation s"
    and same: "take stop b = take stop x"
  shows "active_ok (appended s b stop) x (contents s)"
proof -
  have "pending (appended s b stop) (contents s) stop []"
    using appended_ram [OF ram b stop] ram b(1) stop bank_limits(2) [of s]
    by (simp add: pending_def held_def ram_ok_def) (simp add: appended_def)
  then show ?thesis
    unfolding active_ok_def using holds same
    by (intro exI [of _ m] exI [of _ False] exI [of _ stop]) (auto simp: appended_def)
qed

lemma unappended_ok:
  assumes ram: "ram_ok s" and b: "length b = length (bank s)" "take (used_offset s) b = take (used_offset s) (bank s)"
    and holds: "bank_holds (kv_append_size s) x (bank_size s) m C d q" "meta_generation m = kv_generation s"
    and clean: "\<not> torn \<Longrightarrow> \<not> d \<and> flash_end s = q \<and> take q (bank s) = take q x \<and> pending s C q rs"
  shows "active_ok (unappended s b torn) x C"
proof -
  have "take q b = take q x \<and> pending (unappended s b torn) C q rs" if "\<not> torn"
  proof -
    have p: "take q (bank s) = take q x" "pending s C q rs" using clean [OF that] by auto
    have "held b q (encs rs)" using p(2) held_cong [OF _ _ b(2)] by (simp add: pending_def)
    moreover have "q \<le> used_offset s" using p(2) by (simp add: pending_def)
    then have "take q b = take q (bank s)"
      using arg_cong [where f = "take q", OF b(2)] by (simp add: min_def split: if_splits)
    ultimately show ?thesis
      using p unappended_ram(2) [OF ram b, of torn] by (simp add: pending_def) (simp add: unappended_def)
  qed
  then show ?thesis
    unfolding active_ok_def using holds clean
    by (intro exI [of _ m] exI [of _ d] exI [of _ q]) (auto simp: unappended_def)
qed

lemma active_clean:
  assumes "active_ok s x C" "\<not> needs_publish s"
  obtains m q rs where "bank_holds (kv_append_size s) x (bank_size s) m C False q" "meta_generation m = kv_generation s"
    "flash_end s = q" "take q (bank s) = take q x" "pending s C q rs"
  using assms by (auto simp: active_ok_def)

lemma holds_ok_active:
  assumes "ram_ok s" "active_ok s (kv_seg med s e (active_bank s)) C" "found_at_boot med s e C"
    and "length (kv_seg med s e 0) = bank_size s" "length (kv_seg med s e 1) = bank_size s"
    and "choice (bank_size s) (kv_seg med s e 0) (kv_seg med s e 1) = active_bank s"
    and "kv_dirty s \<or> contents s = C \<and> take (used_offset s) (bank s) = take (used_offset s) (kv_seg med s e (active_bank s))"
  shows "holds_ok med s e C C"
proof -
  have "active_bank s = 0 \<or> active_bank s = 1" using assms(1) by (simp add: ram_ok_def)
  note kv_seg_pick [OF this, of med s e]
  then show ?thesis
    using assms unfolding holds_ok_def kv_ok_def kv_core_def kv_clean_def found_at_boot_def by auto
qed

text \<open>The code of the append, with its three ways out.\<close>

lemma append_batch_run:
  assumes pend: "pending s C q rs" "flash_end s = q" "\<not> needs_publish s"
    and place: "kv_placed s e" "active_bank s = 0 \<or> active_bank s = 1"
    and fits: "stop \<le> bank_size s" "stop = align (kv_append_size s) (used_offset s + 22)" "used_offset s + 22 \<le> stop"
      "bank_size s \<le> length (bank s)"
    and b: "b = blit (bank s) (used_offset s) (enc (commit_rec q rs (next_seq s)))"
    and at: "at = kv_base s + active_bank s * bank_size s + q"
    and appended: "jh_eeprom_append_region e at (subarr q (stop - q) b) = (e1, st)"
  shows "append_batch_locked s e =
    (if hal_status_is_error st then
       (unappended s (blit b (used_offset s) (replicate (stop - used_offset s) 0xFF))
          (case jh_eeprom_region_erased e1 at (stop - q) of (er, est) \<Rightarrow> est \<noteq> HAL_OK \<or> \<not> er), e1, st)
     else (appended s b stop, e1, HAL_OK))"
proof -
  have p: "used_offset s = q + length (encs rs)" "held (bank s) q (encs rs)" using pend(1) by (simp_all add: pending_def)
  have small: "bank_size s < 65536" "at < 65536" "stop < 65536"
    using place fits(1) p(1) fits(3) unfolding at kv_placed_def by auto
  have w: "write_record (bank s) (used_offset s) 0 KV_REC_TYPE_COMMIT (le16 (of_nat q) @ le16 (crc16 (encs rs))) (next_seq s) = b"
    using batch_image(1) [OF p fits(3) _ refl] fits(1,4) unfolding b by simp
  have crc: "subarr q (cast16 (used_offset s - q)) (bank s) = encs rs"
    using p small fits(3) by (simp add: cast16_def held_def)
  have casts: "cast16 (stop - q) = stop - q" "cast16 stop = stop"
    "cast16 (bank_base s (active_bank s) + q) = at"
    using small bank_base_placed [OF place] by (simp_all add: cast16_def at)
  have bb: "bank_base (s\<lparr>bank := b\<rparr>) = bank_base s" for b by (simp add: bank_base_def fun_eq_iff)
  have np: "s\<lparr>bank := b'\<rparr> = s\<lparr>bank := b', needs_publish := False\<rparr>" for b'
    using pend(3) by simp
  show ?thesis
    using fits(1) appended np
    unfolding append_batch_locked_def Let_def pend(2) record_size_eq KV_COMMIT_LEN_def [symmetric] commit_payload
    by (simp add: KV_COMMIT_LEN_def align_up_eq fits(2) [symmetric] casts commit_payload crc w bb appended_def unappended_def
        split: prod.splits)
qed

lemma outcome_poweredI:
  assumes "C' \<in> {C, contents s'}" "B' \<in> {B, C, contents s'}" "ram_ok s'" "kv_placed s' e'" "same_place s s'"
    and "powered (s_storage e)" "found_at_boot med s' e' B'"
    and "powered (s_storage e') \<Longrightarrow> holds_ok med s' e' C' B' \<and> (acked \<longrightarrow> \<not> kv_dirty s' \<and> C' = contents s' \<and> B' = contents s')"
  shows "outcome med powered s e s' e' C B acked"
  unfolding outcome_def using assms by blast

context kv_medium
begin

lemma seg_length: "online e \<Longrightarrow> kv_placed s e \<Longrightarrow> length (kv_seg med s e 0) = bank_size s \<and> length (kv_seg med s e 1) = bank_size s"
  using placed_fits [of e s] by (simp add: kv_seg_def)

text \<open>A batch that waits behind the log, and what the facade is asked to append.\<close>

definition batch_at :: "kv \<Rightarrow> 'p eeprom \<Rightarrow> nat \<Rightarrow> nat" where
  "batch_at s e q = kv_base s + active_bank s * bank_size s + q"

definition batch_waits :: "kv \<Rightarrow> 'p eeprom \<Rightarrow> kv_contents \<Rightarrow> kv_bank_meta \<Rightarrow> nat \<Rightarrow> kv_record list \<Rightarrow> nat \<Rightarrow> bytes \<Rightarrow> bool" where
  "batch_waits s e C m q rs stop b \<longleftrightarrow> ram_ok s \<and> kv_placed s e \<and> \<not> needs_publish s \<and>
     bank_holds (kv_append_size s) (kv_seg med s e (active_bank s)) (bank_size s) m C False q \<and>
     meta_generation m = kv_generation s \<and> flash_end s = q \<and>
     take q (bank s) = take q (kv_seg med s e (active_bank s)) \<and> pending s C q rs \<and> rs \<noteq> [] \<and>
     stop = align (kv_append_size s) (used_offset s + 22) \<and> stop \<le> bank_size s \<and>
     b = blit (bank s) (used_offset s) (enc (commit_rec q rs (next_seq s)))"

lemma batch_waits_bounds:
  assumes "online e" "batch_waits s e C m q rs stop b"
  shows "kv_append_size s dvd q" "used_offset s = q + length (encs rs)" "used_offset s + 22 \<le> stop" "q < stop" "stop \<le> length (bank s)"
    "length b = length (bank s)" "take (used_offset s) b = take (used_offset s) (bank s)" "length (subarr q (stop - q) b) = stop - q"
    "active_bank s = 0 \<or> active_bank s = 1" "0 < kv_append_size s" "kv_append_size s dvd bank_size s" "bank_size s < 65536"
    "length (kv_seg med s e (active_bank s)) = bank_size s" "batch_at s e q + (stop - q) \<le> s_size e"
proof -
  note w = assms(2) [unfolded batch_waits_def]
  have ram: "active_bank s = 0 \<or> active_bank s = 1" "0 < kv_append_size s" "kv_append_size s dvd bank_size s"
    "bank_size s \<le> length (bank s)" "bank_size s < 65536"
    using w bank_limits [of s] by (simp_all add: ram_ok_def)
  then show "active_bank s = 0 \<or> active_bank s = 1" "0 < kv_append_size s" "kv_append_size s dvd bank_size s" "bank_size s < 65536" by blast+
  show "kv_append_size s dvd q" using bank_holds_aligned w by blast
  show used: "used_offset s = q + length (encs rs)" using w by (simp add: pending_def)
  show ge: "used_offset s + 22 \<le> stop" using w ram(2) by (simp add: align_ge)
  show qs: "q < stop" using used ge by simp
  show fits: "stop \<le> length (bank s)" using w ram(4) by simp
  show len: "length b = length (bank s)" "take (used_offset s) b = take (used_offset s) (bank s)"
    using w ge fits by (simp_all add: take_blit_prefix)
  show "length (subarr q (stop - q) b) = stop - q" using fits len qs by simp
  show "length (kv_seg med s e (active_bank s)) = bank_size s" using seg_length [OF assms(1)] w ram(1) by auto
  show "batch_at s e q + (stop - q) \<le> s_size e" using w ram(1) qs by (auto simp: kv_placed_def batch_at_def)
qed

lemma batch_waitsI:
  assumes e: "online e" "kv_placed s e" and core: "holds_core med s e C B"
    and s: "\<not> needs_publish s" "used_offset s \<noteq> flash_end s"
    and stop: "stop = align (kv_append_size s) (used_offset s + 22)" "stop \<le> bank_size s"
  obtains m q rs b where "batch_waits s e C m q rs stop b"
proof -
  note c = core [unfolded holds_core_def kv_core_def]
  have act: "active_bank s = 0 \<or> active_bank s = 1" using c by (simp add: ram_ok_def)
  obtain m q rs where m: "bank_holds (kv_append_size s) (kv_seg med s e (active_bank s)) (bank_size s) m C False q"
    "meta_generation m = kv_generation s" "flash_end s = q" "take q (bank s) = take q (kv_seg med s e (active_bank s))" "pending s C q rs"
    using active_clean [of s "kv_seg med s e (active_bank s)" C] c s(1) kv_seg_pick [OF act, of med s e] by metis
  have "rs \<noteq> []" using m(3,5) s(2) by (auto simp: pending_def)
  then show thesis
    using that [of m q rs "blit (bank s) (used_offset s) (enc (commit_rec q rs (next_seq s)))"] m c e s stop by (simp add: batch_waits_def)
qed

lemma append_run:
  assumes e: "online e" and w: "batch_waits s e C m q rs stop b" and run: "append_batch_locked s e = (s', e', status)"
  obtains st torn where "jh_eeprom_append_region e (batch_at s e q) (subarr q (stop - q) b) = (e', st)"
    "torn \<longleftrightarrow> (case jh_eeprom_region_erased e' (batch_at s e q) (stop - q) of (er, est) \<Rightarrow> est \<noteq> HAL_OK \<or> \<not> er)"
    "(s', status) = (if hal_status_is_error st
      then (unappended s (blit b (used_offset s) (replicate (stop - used_offset s) 0xFF)) torn, st) else (appended s b stop, HAL_OK))"
proof -
  note w' = w [unfolded batch_waits_def]
  note bounds = batch_waits_bounds [OF e w]
  obtain e1 st where app: "jh_eeprom_append_region e (batch_at s e q) (subarr q (stop - q) b) = (e1, st)"
    by (cases "jh_eeprom_append_region e (batch_at s e q) (subarr q (stop - q) b)")
  have fits: "bank_size s \<le> length (bank s)" using w' bank_limits [of s] by (simp add: ram_ok_def)
  have b: "b = blit (bank s) (used_offset s) (enc (commit_rec q rs (next_seq s)))" "stop = align (kv_append_size s) (used_offset s + 22)"
    using w' by simp_all
  have "pending s C q rs" "flash_end s = q" "\<not> needs_publish s" "kv_placed s e" "stop \<le> bank_size s" using w' by simp_all
  from append_batch_run [OF this(1-4) bounds(9) this(5) b(2) bounds(3) fits b(1) refl app [unfolded batch_at_def]] run
  show thesis using that [OF _ refl] app by (auto simp: batch_at_def split: if_splits)
qed

text \<open>The facade accepts the request, and its law applies.\<close>

lemma append_asked:
  assumes e: "online e" and w: "batch_waits s e C m q rs stop b"
  shows "batch_at s e q + length (subarr q (stop - q) b) \<le> s_size e" "subarr q (stop - q) b \<noteq> []"
    "append_size dvd batch_at s e q" "append_size dvd length (subarr q (stop - q) b)"
    "subarr (batch_at s e q) (length (subarr q (stop - q) b)) (med (s_storage e)) = subarr q (stop - q) (kv_seg med s e (active_bank s))"
proof -
  note bounds = batch_waits_bounds [OF assms]
  have w': "kv_placed s e" "stop = align (kv_append_size s) (used_offset s + 22)" "stop \<le> bank_size s"
    using w by (simp_all add: batch_waits_def)
  show "batch_at s e q + length (subarr q (stop - q) b) \<le> s_size e" "subarr q (stop - q) b \<noteq> []"
    using bounds(4,8,14) by auto
  have a: "kv_append_size s = append_size" using e w'(1) by (simp add: attached_def kv_placed_def)
  have "append_size dvd kv_base s" "append_size dvd bank_size s" "append_size dvd stop"
    using placed_kept [OF e w'(1)] append_size(2) dvd_trans align_dvd [of "kv_append_size s" "used_offset s + 22"] a w'(2) by auto
  then show "append_size dvd batch_at s e q" "append_size dvd length (subarr q (stop - q) b)"
    using bounds(1,8) a by (auto simp: batch_at_def)
  show "subarr (batch_at s e q) (length (subarr q (stop - q) b)) (med (s_storage e)) = subarr q (stop - q) (kv_seg med s e (active_bank s))"
    unfolding kv_seg_def batch_at_def bounds(8) using w'(3) bounds(4) by (subst subarr_subarr) auto
qed

text \<open>What the active bank says after the append, complete or not.\<close>

lemma append_effect:
  assumes e: "online e" and w: "batch_waits s e C m q rs stop b"
    and app: "jh_eeprom_append_region e (batch_at s e q) (subarr q (stop - q) b) = (e', st)"
  obtains new C1 d1 q1 where "online e'" "changes med powered e e' (batch_at s e q) new" "length new = stop - q" "st \<noteq> HAL_NONE"
    "powered (s_storage e') \<and> st = HAL_OK \<Longrightarrow> new = subarr q (stop - q) b"
    "bank_holds (kv_append_size s) (blit (kv_seg med s e (active_bank s)) q new) (bank_size s) m C1 d1 q1" "C1 \<in> {C, contents s}"
    "new = subarr q (stop - q) b \<Longrightarrow> C1 = contents s \<and> \<not> d1 \<and> q1 = stop"
    "all_erased new \<Longrightarrow> blit (kv_seg med s e (active_bank s)) q new = kv_seg med s e (active_bank s)"
proof -
  let ?x = "kv_seg med s e (active_bank s)" and ?data = "subarr q (stop - q) b" and ?a = "kv_append_size s"
  note w' = w [unfolded batch_waits_def]
  note bounds = batch_waits_bounds [OF e w]
  obtain new where new: "online e'" "changes med powered e e' (batch_at s e q) new" "length new = length ?data" "st \<noteq> HAL_NONE"
    "if powered (s_storage e') \<and> st = HAL_OK then new = ?data else written_partly (subarr q (stop - q) ?x) ?data new"
    using facade_append [OF e append_asked(1-4) [OF e w] app] unfolding append_asked(5) [OF e w] by (elim exE conjE) (rule that)
  have rs: "rs \<noteq> []" "\<forall>r \<in> set rs. record_ok False r" "roomy rs C" "contents s = replay rs C" "held (bank s) q (encs rs)"
    using w' by (simp_all add: pending_def)
  have b: "b = write_record (bank s) (used_offset s) 0 KV_REC_TYPE_COMMIT (le16 (of_nat q) @ le16 (crc16 (encs rs))) (next_seq s)"
    using batch_image(1) [OF bounds(2) rs(5) bounds(3,5) refl] w' by simp
  obtain pad where data: "?data = batch_bytes q rs (next_seq s) @ pad"
    using batch_image(2) [OF bounds(2) rs(5) bounds(3,5) b] by blast
  have ends: "q + length ?data = align ?a (q + length (batch_bytes q rs (next_seq s)))" "q + length ?data = stop" "q + length ?data \<le> bank_size s"
    using w' bounds(2,4,8) by (simp_all add: length_batch_bytes add.assoc)
  have partly: "written_partly (subarr q (length ?data) ?x) ?data new \<or> new = ?data" using new(5) bounds(8) by (auto split: if_splits)
  have holds: "bank_holds ?a ?x (bank_size s) m C False q" using w' by simp
  note seg = append_segment [OF holds bounds(10,11) rs(1,2,3) data bounds(13) ends(3,1) new(3) partly, unfolded ends(2) rs(4) [symmetric]]
  have nl: "length new = stop - q" using new(3) bounds(8) by simp
  show thesis
  proof (cases "new = ?data")
    case True
    then show thesis using that [OF new(1,2) nl new(4) _ seg(2) _ _ seg(3)] by simp
  next
    case False
    then show thesis using that [OF new(1,2) nl new(4) _ _ _ _ seg(3)] new(5) seg(1) by auto
  qed
qed

text \<open>The banks after it, and the choice between them.\<close>

lemma append_seen:
  assumes e: "online e" and w: "batch_waits s e C m q rs stop b" and ch: "changes med powered e e' (batch_at s e q) new" "length new = stop - q"
    and chosen: "choice (bank_size s) (kv_seg med s e 0) (kv_seg med s e 1) = active_bank s"
    and holds: "bank_holds (kv_append_size s) (blit (kv_seg med s e (active_bank s)) q new) (bank_size s) m C1 d1 q1"
    and place: "same_place s s'"
  shows "kv_seg med s' e' (active_bank s) = blit (kv_seg med s e (active_bank s)) q new" "found_at_boot med s' e' C1"
    "choice (bank_size s) (kv_seg med s' e' 0) (kv_seg med s' e' 1) = active_bank s"
proof -
  let ?act = "active_bank s" and ?n = "bank_size s"
  note bounds = batch_waits_bounds [OF e w]
  have w': "kv_placed s e" "bank_holds (kv_append_size s) (kv_seg med s e ?act) ?n m C False q" "stop \<le> ?n" using w by (simp_all add: batch_waits_def)
  note act = bounds(9)
  have o: "other_bank ?act = 0 \<or> other_bank ?act = 1" using pick_other [OF act] by simp
  have seg: "kv_seg med s' e' ?act = blit (kv_seg med s e ?act) q new" "kv_seg med s' e' (other_bank ?act) = kv_seg med s e (other_bank ?act)"
    using seg_changed [OF e w'(1) act ch(1) [unfolded batch_at_def] _ place] ch(2) bounds(4) w'(3) by simp_all
  then show "kv_seg med s' e' ?act = blit (kv_seg med s e ?act) q new" by blast
  note pk = kv_seg_pick [OF act, of med s e, symmetric] kv_seg_pick [OF act, of med s' e', symmetric]
    kv_seg_pick [OF o, of med s e, symmetric] kv_seg_pick [OF o, of med s' e', symmetric]
  have holds': "bank_holds (kv_append_size s) (pick ?act (kv_seg med s' e' 0) (kv_seg med s' e' 1)) ?n m C1 d1 q1"
    unfolding pk seg(1) by (rule holds)
  show c: "choice ?n (kv_seg med s' e' 0) (kv_seg med s' e' 1) = ?act"
    by (rule choice_kept [OF _ holds' _ act chosen]) (unfold pk, rule w'(2), rule seg(2))
  show "found_at_boot med s' e' C1" using bootsI [OF c holds'] place by (simp add: found_at_boot_def same_place_def)
qed

lemma append_success:
  assumes e: "online e" "powered (s_storage e)" and w: "batch_waits s e C m q rs stop b"
    and chosen: "choice (bank_size s) (kv_seg med s e 0) (kv_seg med s e 1) = active_bank s"
    and app: "jh_eeprom_append_region e (batch_at s e q) (subarr q (stop - q) b) = (e', HAL_OK)"
  shows "outcome med powered s e (appended s b stop) e' C B True \<and> contents (appended s b stop) = contents s \<and> online e'"
proof -
  let ?s = "appended s b stop" and ?x = "kv_seg med s e (active_bank s)"
  note w' = w [unfolded batch_waits_def]
  note bounds = batch_waits_bounds [OF e(1) w]
  have ok: "ram_ok s" "stop \<le> bank_size s" "used_offset s \<le> stop" "kv_placed s e" using w' bounds(3) by simp_all
  obtain new C1 d1 q1 where new: "online e'" "changes med powered e e' (batch_at s e q) new" "length new = stop - q"
    "powered (s_storage e') \<Longrightarrow> new = subarr q (stop - q) b" "C1 \<in> {C, contents s}"
    "bank_holds (kv_append_size s) (blit ?x q new) (bank_size s) m C1 d1 q1"
    "new = subarr q (stop - q) b \<Longrightarrow> C1 = contents s \<and> \<not> d1 \<and> q1 = stop" by (rule append_effect [OF e(1) w app]) blast
  have place: "same_place s ?s" by (simp add: appended_def same_place_def)
  have placed: "kv_placed ?s e'" using changes_placed [OF new(2) place ok(4)] .
  note seen = append_seen [OF e(1) w new(2,3) chosen new(6) place]
  note ram = appended_ram [OF ok(1) bounds(6,7) ok(3,2)]
  have good: "holds_ok med ?s e' (contents s) (contents s)" if on: "powered (s_storage e')"
  proof -
    note nd = new(4) [OF on]
    have c1: "C1 = contents s" "\<not> d1" "q1 = stop" using new(7) [OF nd] by simp_all
    have "take stop c = take q c @ subarr q (stop - q) c" for c :: bytes
      using bounds(4) by (simp add: subarr_def flip: take_add)
    moreover have "take q b = take q (blit ?x q new)"
    proof -
      have "take q b = take q (bank s)" using w' bounds(2,3,5) by (simp add: take_blit_prefix)
      also have "\<dots> = take q (blit ?x q new)" using w' new(3) bounds(4,13) ok(2) by (simp add: take_blit_prefix)
      finally show ?thesis .
    qed
    moreover have "subarr q (stop - q) (blit ?x q new) = subarr q (stop - q) b"
      using subarr_blit_same [of q new ?x] new(3) bounds(4,13) ok(2) unfolding nd by simp
    ultimately have same: "take stop b = take stop (blit ?x q new)" by simp
    have act: "active_ok ?s (blit ?x q new) (contents s)"
      using appended_ok [OF ok(1) bounds(6,7) ok(3,2) _ _ same] new(6) c1 w' by simp
    show ?thesis
    proof (rule holds_ok_active)
      show "active_ok ?s (kv_seg med ?s e' (active_bank ?s)) (contents s)" using act seen(1) by (simp add: appended_def)
      show "kv_dirty ?s \<or> contents ?s = contents s \<and> take (used_offset ?s) (bank ?s) = take (used_offset ?s) (kv_seg med ?s e' (active_bank ?s))"
        using same seen(1) ram(2) by (simp add: appended_def)
    qed (use ram seen(2,3) c1 seg_length [OF new(1) placed] in \<open>simp_all add: appended_def\<close>)
  qed
  have "outcome med powered s e ?s e' C B True"
  proof (cases "powered (s_storage e')")
    case on: True
    then have "C1 = contents s" using new(4,7) by simp
    then show ?thesis using ram place placed seen(2) e(2) good on
      by (intro outcome_poweredI [of "contents s" _ _ "contents s"]) (simp_all add: appended_def)
  next
    case False
    then show ?thesis using ram place placed seen(2) e(2) new(5) by (intro outcome_poweredI [of C _ _ C1]) auto
  qed
  then show ?thesis using ram(2) new(1) by simp
qed

lemma append_failure:
  assumes e: "online e" "powered (s_storage e)" and w: "batch_waits s e C m q rs stop b" and dirty: "kv_dirty s"
    and chosen: "choice (bank_size s) (kv_seg med s e 0) (kv_seg med s e 1) = active_bank s"
    and app: "jh_eeprom_append_region e (batch_at s e q) (subarr q (stop - q) b) = (e', st)"
    and torn: "torn \<longleftrightarrow> (case jh_eeprom_region_erased e' (batch_at s e q) (stop - q) of (er, est) \<Rightarrow> est \<noteq> HAL_OK \<or> \<not> er)"
    and b': "b' = blit b (used_offset s) (replicate (stop - used_offset s) 0xFF)"
  shows "outcome med powered s e (unappended s b' torn) e' C B False \<and> contents (unappended s b' torn) = contents s \<and> online e'"
proof -
  let ?s = "unappended s b' torn" and ?x = "kv_seg med s e (active_bank s)"
  note w' = w [unfolded batch_waits_def]
  note bounds = batch_waits_bounds [OF e(1) w]
  have ok: "ram_ok s" "kv_placed s e" using w' by simp_all
  obtain new C1 d1 q1 where new: "online e'" "changes med powered e e' (batch_at s e q) new" "length new = stop - q"
    "C1 \<in> {C, contents s}" "bank_holds (kv_append_size s) (blit ?x q new) (bank_size s) m C1 d1 q1"
    "all_erased new \<Longrightarrow> blit ?x q new = ?x" by (rule append_effect [OF e(1) w app]) blast
  have place: "same_place s ?s" by (simp add: unappended_def same_place_def)
  have placed: "kv_placed ?s e'" using changes_placed [OF new(2) place ok(2)] .
  have bs: "length b' = length (bank s)" "take (used_offset s) b' = take (used_offset s) (bank s)"
    using bounds(3,5,6,7) by (simp_all add: b' take_blit_prefix)
  note ram = unappended_ram [OF ok(1) bs, of torn]
  have whole: "torn" if "powered (s_storage e')" "\<not> all_erased new"
  proof -
    have fits: "batch_at s e q + (stop - q) \<le> s_size e'" using bounds(14) new(2) by (auto simp: changes_def)
    have m1: "med (s_storage e') = blit (med (s_storage e)) (batch_at s e q) new" using new(2) by (auto simp: changes_def)
    have "batch_at s e q + length new \<le> length (med (s_storage e))" using bounds(14) new(3) e(1) by (simp add: attached_def)
    then have "subarr (batch_at s e q) (stop - q) (med (s_storage e')) = new" unfolding m1 new(3) [symmetric] by simp
    then show ?thesis using facade_region_erased [OF new(1) that(1) fits] bounds(4) that(2) by (simp add: torn)
  qed
  obtain C2 where C2: "C2 \<in> {C, contents s}" "found_at_boot med ?s e' C2" "powered (s_storage e') \<Longrightarrow> active_ok ?s (blit ?x q new) C2"
    "choice (bank_size s) (kv_seg med ?s e' 0) (kv_seg med ?s e' 1) = active_bank s" "kv_seg med ?s e' (active_bank s) = blit ?x q new"
  proof (cases "all_erased new")
    case True
    have holds: "bank_holds (kv_append_size s) (blit ?x q new) (bank_size s) m C False q" using w' new(6) [OF True] by simp
    have "active_ok ?s (blit ?x q new) C"
      using w' new(6) [OF True] by (intro unappended_ok [OF ok(1) bs holds, of _ rs]) simp_all
    then show thesis using that [of C] append_seen [OF e(1) w new(2,3) chosen holds place] by blast
  next
    case False
    have "powered (s_storage e') \<Longrightarrow> active_ok ?s (blit ?x q new) C1"
      using unappended_ok [OF ok(1) bs new(5), of torn rs] whole False w' by blast
    then show thesis using that [OF new(4)] append_seen [OF e(1) w new(2,3) chosen new(5) place] by blast
  qed
  have "holds_ok med ?s e' C2 C2" if on: "powered (s_storage e')"
  proof (rule holds_ok_active)
    show "active_ok ?s (kv_seg med ?s e' (active_bank ?s)) C2" using C2(3) [OF on] C2(5) by (simp add: unappended_def)
  qed (use ram C2 seg_length [OF new(1) placed] dirty in \<open>simp_all add: unappended_def\<close>)
  then have "outcome med powered s e ?s e' C B False"
    using ram place placed C2(1,2) e(2) by (intro outcome_poweredI [of C2 _ _ C2]) auto
  then show ?thesis using ram(2) new(1) by simp
qed

lemma append_batch_outcome:
  assumes e: "online e" "kv_placed s e" "powered (s_storage e)" and core: "holds_core med s e C B"
    and s: "\<not> needs_publish s" "kv_dirty s" "used_offset s \<noteq> flash_end s"
    and run: "append_batch_locked s e = (s', e', status)"
  shows "outcome med powered s e s' e' C B (status = HAL_OK) \<and> contents s' = contents s \<and> online e' \<and>
    status \<noteq> HAL_NONE \<and> (status \<noteq> HAL_OK \<longrightarrow> kv_dirty s')"
proof -
  let ?stop = "align (kv_append_size s) (used_offset s + 22)"
  note c = core [unfolded holds_core_def kv_core_def]
  show ?thesis
  proof (cases "bank_size s < ?stop")
    case True
    then have "append_batch_locked s e = (s, e, HAL_ENOMEM)"
      by (simp add: append_batch_locked_def Let_def record_size_eq KV_COMMIT_LEN_def align_up_eq)
    then have same: "s' = s" "e' = e" "status = HAL_ENOMEM" using run by simp_all
    have "holds_ok med s e C B" using core s(2) by (simp add: holds_ok_def kv_ok_def holds_core_def kv_clean_def)
    moreover have "found_at_boot med s e B" using c by (simp add: found_at_boot_def)
    ultimately show ?thesis unfolding outcome_def same using e c s(2) by auto
  next
    case False
    then have fits: "?stop \<le> bank_size s" by simp
    have chosen: "choice (bank_size s) (kv_seg med s e 0) (kv_seg med s e 1) = active_bank s" using c s(1) by auto
    obtain m q rs b where w: "batch_waits s e C m q rs ?stop b" by (rule batch_waitsI [OF e(1,2) core s(1,3) refl fits])
    obtain st torn where r: "jh_eeprom_append_region e (batch_at s e q) (subarr q (?stop - q) b) = (e', st)"
      "torn \<longleftrightarrow> (case jh_eeprom_region_erased e' (batch_at s e q) (?stop - q) of (er, est) \<Rightarrow> est \<noteq> HAL_OK \<or> \<not> er)"
      "(s', status) = (if hal_status_is_error st
        then (unappended s (blit b (used_offset s) (replicate (?stop - used_offset s) 0xFF)) torn, st) else (appended s b ?stop, HAL_OK))"
      by (rule append_run [OF e(1) w run])
    have "st \<noteq> HAL_NONE" using append_effect [OF e(1) w r(1)] by metis
    then show ?thesis
    proof (cases "st = HAL_OK")
      case True
      then have "s' = appended s b ?stop" "status = HAL_OK" using r(3) by (simp_all add: hal_status_is_error_def)
      then show ?thesis using append_success [OF e(1,3) w chosen, of e' B] r(1) True by simp
    next
      case False
      then have "s' = unappended s (blit b (used_offset s) (replicate (?stop - used_offset s) 0xFF)) torn" "status = st"
        using r(3) \<open>st \<noteq> HAL_NONE\<close> by (simp_all add: hal_status_is_error_def)
      then show ?thesis
        using append_failure [OF e(1,3) w s(2) chosen r(1,2) refl, of B] False \<open>st \<noteq> HAL_NONE\<close> s(2) by (simp add: unappended_def)
    qed
  qed
qed

lemma outcome_trans:
  assumes first: "outcome med powered s e s1 e1 C B acked1" and same: "contents s1 = contents s" "contents s2 = contents s1"
    and second: "\<And>C1 B1. (powered (s_storage e1) \<Longrightarrow> holds_ok med s1 e1 C1 B1) \<Longrightarrow>
      outcome med powered s1 e1 s2 e2 C1 B1 acked"
  shows "outcome med powered s e s2 e2 C B acked"
proof -
  obtain C1 B1 where 1: "C1 \<in> {C, contents s1}" "B1 \<in> {B, C, contents s1}" "same_place s s1"
    "powered (s_storage e1) \<longrightarrow> powered (s_storage e)" "powered (s_storage e) \<longrightarrow> found_at_boot med s1 e1 B1"
    "\<not> powered (s_storage e) \<longrightarrow> med (s_storage e1) = med (s_storage e)"
    "powered (s_storage e1) \<longrightarrow> holds_ok med s1 e1 C1 B1"
    using first unfolding outcome_def by blast
  have "outcome med powered s1 e1 s2 e2 C1 B1 acked" using second 1(7) by blast
  then obtain C2 B2 where 2: "C2 \<in> {C1, contents s2}" "B2 \<in> {B1, C1, contents s2}" "ram_ok s2" "kv_placed s2 e2"
    "same_place s1 s2" "powered (s_storage e2) \<longrightarrow> powered (s_storage e1)"
    "powered (s_storage e1) \<longrightarrow> found_at_boot med s2 e2 B2"
    "\<not> powered (s_storage e1) \<longrightarrow> med (s_storage e2) = med (s_storage e1)"
    "powered (s_storage e2) \<longrightarrow> holds_ok med s2 e2 C2 B2 \<and>
        (acked \<longrightarrow> \<not> kv_dirty s2 \<and> C2 = contents s2 \<and> B2 = contents s2)"
    unfolding outcome_def by blast
  define B' where "B' = (if powered (s_storage e1) then B2 else B1)"
  have "powered (s_storage e) \<longrightarrow> found_at_boot med s2 e2 B'"
    using 1(5) 2(7,8) found_at_boot_same [OF 2(5), of e2 e1 B1] by (cases "powered (s_storage e1)") (simp_all add: B'_def)
  moreover have "B' \<in> {B, C, contents s2}" "C2 \<in> {C, contents s2}" using 1(1,2) 2(1,2) same by (auto simp: B'_def)
  moreover have "powered (s_storage e2) \<longrightarrow> holds_ok med s2 e2 C2 B' \<and>
      (acked \<longrightarrow> \<not> kv_dirty s2 \<and> C2 = contents s2 \<and> B' = contents s2)"
    using 2(6,9) by (simp add: B'_def)
  moreover have "powered (s_storage e2) \<longrightarrow> powered (s_storage e)"
    "\<not> powered (s_storage e) \<longrightarrow> med (s_storage e2) = med (s_storage e)"
    using 1(4,6) 2(6,8) by metis+
  ultimately show ?thesis
    unfolding outcome_def using 2(3,4) same_place_trans [OF 1(3) 2(5)] by blast
qed

section \<open>Compaction and commit\<close>

lemma compact_locked_core:
  assumes ram: "ram_ok s"
  shows "\<exists>body. compact_now (compact_locked s) body \<and> contents (compact_locked s) = contents s \<and>
    same_place s (compact_locked s) \<and> used_offset (compact_locked s) = compacted_size (kv_index s) None \<and>
    (\<forall>i < length (kv_index s). in_use (kv_index (compact_locked s) ! i) = in_use (kv_index s ! i) \<and>
       ie_key (kv_index (compact_locked s) ! i) = ie_key (kv_index s ! i)) \<and>
    (\<forall>idx. holds_core med (s\<lparr>kv_index := idx\<rparr>) e C B \<longrightarrow> holds_core med (compact_locked s) e C B)"
proof -
  have ok: "index_ok (bank s) (kv_index s) (used_offset s)" "KV_PUBLISH_SIZE \<le> used_offset s"
    "used_offset s \<le> bank_size s" "KV_PUBLISH_SIZE \<le> length (bank s)"
    using ram bank_limits(2) [of s] by (auto simp: ram_ok_def)
  obtain b idx body where c: "compacted body (bank s) (kv_index s) b idx"
    "KV_PUBLISH_SIZE + length (encs body) = compacted_size (kv_index s) None"
    "compact_locked s = s\<lparr>bank := b, kv_index := idx, used_offset := KV_PUBLISH_SIZE + length (encs body),
      record_count := of_nat (length body), needs_publish := True, kv_dirty := True\<rparr>" (is "_ = ?s")
    using compact_locked_compacts [OF ok(1,4)] by blast
  have "compacted_size (kv_index s) None \<le> bank_size s"
    using compacted_fits [OF ok(1,2)] ok(3) by simp
  then have ram': "ram_ok ?s" using c(1,2) ram by (simp add: compacted_def ram_ok_def)
  moreover have "contents ?s = contents s" using c(1) by (simp add: compacted_def contents_def)
  moreover have "compact_now ?s body"
    using c(1) ram' \<open>contents ?s = contents s\<close> by (simp add: compact_now_def compacted_def contents_def)
  moreover have "holds_core med ?s e C B" if "holds_core med (s\<lparr>kv_index := idx'\<rparr>) e C B" for idx'
    using that ram' by (auto simp: holds_core_def kv_core_def active_ok_def kv_seg_def)
  moreover have "\<forall>i < length (kv_index s). in_use (idx ! i) = in_use (kv_index s ! i) \<and>
      ie_key (idx ! i) = ie_key (kv_index s ! i)" using c(1) unfolding compacted_def by blast
  ultimately show ?thesis unfolding c(3) using c(2) by (auto simp: same_place_def)
qed

lemma publish_compacted:
  assumes e: "online e" "kv_placed s e" and ram: "ram_ok s"
    and core: "powered (s_storage e) \<Longrightarrow> holds_core med s e C B"
    and run: "publish_full_locked (compact_locked s) e = (s', e', status)"
  shows "outcome med powered s e s' e' C B (status = HAL_OK) \<and> contents s' = contents s \<and> online e'"
proof -
  obtain body where c: "compact_now (compact_locked s) body" "contents (compact_locked s) = contents s"
    "same_place s (compact_locked s)"
    "holds_core med (s\<lparr>kv_index := kv_index s\<rparr>) e C B \<longrightarrow> holds_core med (compact_locked s) e C B"
    using compact_locked_core [OF ram] by blast
  have "s\<lparr>kv_index := kv_index s\<rparr> = s" by simp
  note c4 = c(4) [unfolded this]
  have placed: "kv_placed (compact_locked s) e" using e(2) c(3) by (simp add: kv_placed_def same_place_def)
  from publish_full_outcome [OF e(1) placed c(1) _ run] core c4
  have "outcome med powered (compact_locked s) e s' e' C B (status = HAL_OK) \<and> contents s' = contents s \<and> online e'"
    unfolding c(2) by blast
  then show ?thesis
    using c(3) same_place_trans unfolding outcome_def by blast
qed

lemma holds_ok_clean:
  assumes "holds_ok med s e C B" "\<not> kv_dirty s"
  shows "C = contents s \<and> B = contents s"
  using assms by (auto simp: holds_ok_def kv_ok_def kv_clean_def kv_core_def)

lemma commit_locked_outcome:
  assumes e: "online e" "kv_placed s e" "powered (s_storage e)" and ok: "holds_ok med s e C B"
    and run: "commit_locked s e = (s', e', status)"
  shows "outcome med powered s e s' e' C B (status = HAL_OK) \<and> contents s' = contents s \<and> online e'"
proof -
  have core: "holds_core med s e C B" and ram: "ram_ok s" and found: "found_at_boot med s e B"
    using ok by (auto simp: holds_ok_def kv_ok_def holds_core_def kv_core_def found_at_boot_def)
  have act: "active_bank s = 0 \<or> active_bank s = 1" using ram by (simp add: ram_ok_def)
  consider (clean) "\<not> kv_dirty s" | (publish) "kv_dirty s" "needs_publish s"
    | (idle) "kv_dirty s" "\<not> needs_publish s" "used_offset s = flash_end s"
    | (append) "kv_dirty s" "\<not> needs_publish s" "used_offset s \<noteq> flash_end s" by blast
  then show ?thesis
  proof cases
    case clean
    then have "s' = s" "e' = e" "status = HAL_OK" using run by (simp_all add: commit_locked_def)
    then show ?thesis
      using outcome_poweredI [of C C s B B e s powered e med True] holds_ok_clean [OF ok clean] clean e ram found ok by simp
  next
    case publish
    then have "publish_full_locked (compact_locked s) e = (s', e', status)" using run by (simp add: commit_locked_def)
    from publish_compacted [OF e(1,2) ram core this] show ?thesis .
  next
    case idle
    let ?s = "s\<lparr>kv_dirty := False\<rparr>"
    have s': "s' = ?s" "e' = e" "status = HAL_OK" using run idle(1-3) by (simp_all add: commit_locked_def)
    note c = core [unfolded holds_core_def kv_core_def]
    obtain q rs where q: "flash_end s = q" "take q (bank s) = take q (kv_seg med s e (active_bank s))" "pending s C q rs"
      using active_clean [of s "kv_seg med s e (active_bank s)" C] c idle(2) kv_seg_pick [OF act, of med s e] by metis
    have "rs = []" using q(1,3) idle(3) by (cases rs) (auto simp: pending_def)
    then have C: "contents s = C" using q(3) by (simp add: pending_def)
    have seg: "kv_seg med ?s e = kv_seg med s e" by (simp add: kv_seg_def fun_eq_iff)
    have "ram_ok ?s" "contents ?s = C" using ram C by (simp_all add: ram_ok_def contents_def)
    moreover have "active_ok ?s (kv_seg med s e (active_bank s)) C"
      using c kv_seg_pick [OF act, of med s e] by (simp add: active_ok_def pending_def contents_def)
    moreover have "holds_ok med ?s e C C" "B = C"
      using c idle(2) q(1,2) idle(3) calculation found C
      by (auto intro!: holds_ok_active simp: seg found_at_boot_def)
    ultimately show ?thesis
      unfolding s' using e found C
      by (intro conjI outcome_poweredI [of C _ _ C]) (auto simp: kv_placed_def same_place_def found_at_boot_def seg contents_def)
  next
    case append
    obtain s1 e1 st where app: "append_batch_locked s e = (s1, e1, st)" by (cases "append_batch_locked s e")
    from append_batch_outcome [OF e core append(2,1,3) app]
    have first: "outcome med powered s e s1 e1 C B (st = HAL_OK)" "contents s1 = contents s" "online e1"
      "st \<noteq> HAL_OK \<Longrightarrow> kv_dirty s1" by auto
    show ?thesis
    proof (cases "st \<noteq> HAL_ENOMEM \<and> st \<noteq> HAL_ESTATE")
      case True
      then have "s' = s1" "e' = e1" "status = st" using run append app by (simp_all add: commit_locked_def)
      then show ?thesis using first by simp
    next
      case False
      then have pub: "publish_full_locked (compact_locked s1) e1 = (s', e', status)"
        using run append app by (auto simp: commit_locked_def)
      have ram1: "ram_ok s1" "kv_placed s1 e1" using first(1) unfolding outcome_def by blast+
      have second: "outcome med powered s1 e1 s' e' C1 B1 (status = HAL_OK) \<and> contents s' = contents s1 \<and> online e'"
        if "powered (s_storage e1) \<Longrightarrow> holds_ok med s1 e1 C1 B1" for C1 B1
        using that by (intro publish_compacted [OF first(3) ram1(2,1) _ pub]) (simp add: holds_ok_def kv_ok_def holds_core_def)
      obtain C1 B1 where "powered (s_storage e1) \<Longrightarrow> holds_ok med s1 e1 C1 B1"
        using first(1) unfolding outcome_def by blast
      from second [OF this] have "contents s' = contents s1" "online e'" by auto
      then show ?thesis using outcome_trans [OF first(1,2)] second first(2) by auto
    qed
  qed
qed

end

end
