(* ===== verification/Kv_Ops.thy ===== *)
theory Kv_Ops
  imports Kv_Append
begin

text \<open>
  The public operations as operations on a map: setting and deleting change it at the key,
  everything else leaves it, reading returns it, and each keeps the invariant and moves the medium
  only between the states before and after.
\<close>

section \<open>Writing one record\<close>

lemma put_record:
  assumes ram: "ram_ok s" and r: "record_ok False (k, t, d, next_seq s)"
    and fits: "used_offset s + 18 + length d \<le> bank_size s"
    and b: "b = write_record (bank s) (used_offset s) k t d (next_seq s)"
    and idx: "index_ok b idx (used_offset s + 18 + length d)" "kv_map b idx = rec_apply (k, t, d, next_seq s) (contents s)"
    and s'_def: "s' = s\<lparr>bank := b, next_seq := w, used_offset := used_offset s + 18 + length d, record_count := c, kv_index := idx\<rparr>"
  shows "ram_ok s'" "contents s' = rec_apply (k, t, d, next_seq s) (contents s)"
    "holds_core med s e C B \<Longrightarrow> holds_core med s' e C B"
proof -
  let ?r = "(k, t, d, next_seq s)"
  have n: "used_offset s + length (enc ?r) \<le> length (bank s)"
    using fits bank_limits(2) [of s] ram by (simp add: ram_ok_def)
  have b': "b = blit (bank s) (used_offset s) (enc ?r)" unfolding b using n by (subst write_record_enc) simp_all
  have len: "length b = length (bank s)" using n by (simp add: b')
  show ram': "ram_ok s'" using ram idx(1) len fits by (simp add: ram_ok_def s'_def)
  show c: "contents s' = rec_apply ?r (contents s)" using idx(2) by (simp add: contents_def s'_def)
  have "card (dom (contents s')) \<le> KV_MAX_KEYS"
    using card_used_slots [OF idx(1)] card_dom_kv_map [OF idx(1)] by (simp add: contents_def s'_def)
  note room = this [unfolded c]
  have pend: "pending s' C q (rs @ [?r])" "take q b = take q (bank s)" if p: "pending s C q rs" for q rs
  proof -
    have q: "q \<le> used_offset s" "used_offset s = q + length (encs rs)" "contents s = replay rs C"
      using p by (simp_all add: pending_def)
    have "take (used_offset s) b = take (used_offset s) (bank s)" using n by (simp add: b' take_blit_prefix)
    then have "held b q (encs rs)"
      using held_cong [of "bank s" q "encs rs" "used_offset s" b] p q(2) by (simp add: pending_def)
    moreover have "held b (used_offset s) (enc ?r)" unfolding b' using n by (intro held_blit) simp
    moreover have "roomy [?r] (contents s)" using room by simp
    ultimately show "pending s' C q (rs @ [?r])"
      using p r c q(2,3) by (simp add: pending_def held_append roomy_append replay_append) (simp add: s'_def)
    show "take q b = take q (bank s)" using n q(1) by (simp add: b' take_blit_prefix)
  qed
  have act: "active_ok s' x C" if "active_ok s x C" for x
    using that pend unfolding active_ok_def by (fastforce simp: s'_def)
  show "holds_core med s' e C B" if "holds_core med s e C B"
    using that ram' act unfolding holds_core_def kv_core_def by (auto simp: s'_def kv_seg_def)
qed

lemma put_entry:
  assumes ram: "ram_ok s" and r: "record_ok False (k, t, d, w)" "t \<noteq> KV_REC_TYPE_DELETE"
    and fits: "used_offset s + 18 + length d \<le> bank_size s"
    and b: "b = write_record (bank s) (used_offset s) k t d w"
    and i: "slot_for (kv_index s) k = Some i"
  defines "idx \<equiv> (kv_index s)[i := \<lparr>in_use = True, ie_key = k, ie_type = t, ie_len = length d,
      payload_offset = used_offset s + KV_REC_HDR_SIZE, ie_seq = w\<rparr>]"
  shows "index_ok b idx (used_offset s + 18 + length d)" "kv_map b idx = (contents s)(k \<mapsto> (t, d))"
proof -
  let ?r = "(k, t, d, w)" and ?u = "used_offset s"
  let ?e = "\<lparr>in_use = True, ie_key = k, ie_type = t, ie_len = length d, payload_offset = ?u + KV_REC_HDR_SIZE, ie_seq = w\<rparr>"
  have n: "?u + length (enc ?r) \<le> length (bank s)"
    using fits bank_limits(2) [of s] ram by (simp add: ram_ok_def)
  have b': "b = blit (bank s) ?u (enc ?r)" unfolding b using n by (subst write_record_enc) simp_all
  have u: "KV_PUBLISH_SIZE \<le> ?u" using ram by (simp add: ram_ok_def)
  have same: "index_ok b (kv_index s) ?u" "kv_map b (kv_index s) = contents s"
    using image_kept [OF ram, of b] n by (simp_all add: b' take_blit_prefix)
  have held: "held b ?u (enc ?r)" unfolding b' using n by (intro held_blit) simp
  then have "held b (?u + 16) d" by (simp add: enc_def held_append)
  then have val: "entry_val b ?e = d" by (simp add: entry_val_def held_def KV_REC_HDR_SIZE_def)
  have eh: "entry_held b ?e"
    using r u held val by (simp add: entry_held_def entry_rec_def entry_start_def KV_REC_HDR_SIZE_def)
  show "index_ok b idx (?u + 18 + length d)" "kv_map b idx = (contents s)(k \<mapsto> (t, d))"
    using index_ok_put [OF same(1), of ?e i "?u + 18 + length d"] i eh val same(2)
    by (simp_all add: idx_def entry_start_def entry_stop_def KV_REC_HDR_SIZE_def)
qed

section \<open>Making room\<close>

lemma compacted_size_free:
  "i < length idx \<Longrightarrow> compacted_size (idx[i := (idx ! i)\<lparr>in_use := False\<rparr>]) None = compacted_size idx (Some i)"
proof -
  assume i: "i < length idx"
  let ?idx = "idx[i := (idx ! i)\<lparr>in_use := False\<rparr>]"
  have f: "filter (\<lambda>j. in_use (?idx ! j) \<and> Some j \<noteq> None) [0..<length ?idx] =
      filter (\<lambda>j. in_use (idx ! j) \<and> Some j \<noteq> Some i) [0..<length idx]"
    using i by (intro filter_cong) (auto simp: nth_list_update)
  have "map (\<lambda>j. record_size (ie_len (?idx ! j))) (filter (\<lambda>j. in_use (idx ! j) \<and> Some j \<noteq> Some i) [0..<length idx]) =
      map (\<lambda>j. record_size (ie_len (idx ! j))) (filter (\<lambda>j. in_use (idx ! j) \<and> Some j \<noteq> Some i) [0..<length idx])"
    by (intro map_cong) (auto simp: nth_list_update)
  then show ?thesis unfolding compacted_size_def f by (rule arg_cong)
qed

text \<open>The bytes a map takes in a bank: what the compaction makes of it.\<close>

definition kv_bytes :: "kv_contents \<Rightarrow> nat" where
  "kv_bytes M = KV_PUBLISH_SIZE + (\<Sum>k \<in> dom M. record_size (length (snd (the (M k)))))"

lemma compacted_size_bytes:
  assumes ok: "index_ok b idx hi"
  shows "compacted_size idx None = kv_bytes (kv_map b idx)"
proof -
  let ?key = "\<lambda>i. ie_key (idx ! i)" and ?size = "\<lambda>i. record_size (ie_len (idx ! i))"
  have "sum_list (map ?size (filter (\<lambda>i. in_use (idx ! i)) [0..<length idx])) = sum ?size (used_slots idx)"
    by (subst sum_list_distinct_conv_sum_set) (simp_all add: used_slots_def)
  also have "\<dots> = (\<Sum>i \<in> used_slots idx. record_size (length (snd (the (kv_map b idx (?key i))))))"
    using kv_map_slot [OF ok] ok by (intro sum.cong) (simp_all add: index_ok_def entry_held_def)
  also have "\<dots> = (\<Sum>k \<in> dom (kv_map b idx). record_size (length (snd (the (kv_map b idx k)))))"
    unfolding dom_kv_map using index_ok_inj [OF ok] by (subst sum.reindex) (auto intro: inj_onI)
  finally show ?thesis by (simp add: compacted_size_def kv_bytes_def)
qed

lemma kv_bytes_upd: "finite (dom M) \<Longrightarrow> kv_bytes (M(k \<mapsto> (t, d))) = kv_bytes (M(k := None)) + record_size (length d)"
proof -
  assume fin: "finite (dom M)"
  let ?f = "\<lambda>N j. record_size (length (snd (the (N j))))"
  have "dom (M(k \<mapsto> (t, d))) = insert k (dom M - {k})" "dom (M(k := None)) = dom M - {k}" by auto
  moreover have "sum (?f (M(k \<mapsto> (t, d)))) (dom M - {k}) = sum (?f M) (dom M - {k})"
    "sum (?f (M(k := None))) (dom M - {k}) = sum (?f M) (dom M - {k})"
    by (simp_all cong: sum.cong_simp)
  ultimately show "kv_bytes (M(k \<mapsto> (t, d))) = kv_bytes (M(k := None)) + record_size (length d)"
    using fin unfolding kv_bytes_def by (simp only: sum.insert_remove sum.insert finite_Diff) simp
qed

lemma finite_dom_contents: "finite (dom (contents s))"
  by (simp add: contents_def dom_kv_map)

lemma card_dom_contents: "ram_ok s \<Longrightarrow> card (dom (contents s)) \<le> KV_MAX_KEYS"
  unfolding contents_def ram_ok_def by (metis card_dom_kv_map card_used_slots)

lemma kv_bytes_bound: "ram_ok s \<Longrightarrow> kv_bytes (contents s) \<le> bank_size s"
proof -
  assume "ram_ok s"
  then have ok: "index_ok (bank s) (kv_index s) (used_offset s)" "KV_PUBLISH_SIZE \<le> used_offset s" "used_offset s \<le> bank_size s"
    by (simp_all add: ram_ok_def)
  have "kv_bytes (contents s) \<le> used_offset s"
    using compacted_fits [OF ok(1,2)] unfolding compacted_size_bytes [OF ok(1)] contents_def .
  then show ?thesis using ok(3) by simp
qed

text \<open>What \<open>ensure_space_locked\<close> promises: unless it reports an error, the record fits; it may have dropped the replaced one.\<close>

definition dropped :: "kv \<Rightarrow> nat option \<Rightarrow> kv" where
  "dropped s skip = (case skip of None \<Rightarrow> s
     | Some i \<Rightarrow> s\<lparr>kv_index := (kv_index s)[i := (kv_index s ! i)\<lparr>in_use := False\<rparr>]\<rparr>)"

lemma ensure_space_eq:
  "ensure_space_locked s len skip =
     (if used_offset s + record_size len + commit_record_reserve s \<le> bank_size s then (s, HAL_OK)
      else if compacted_size (kv_index s) skip + record_size len > bank_size s then (s, HAL_ENOMEM)
      else (compact_locked (dropped s skip), HAL_OK))"
  by (simp add: ensure_space_locked_def dropped_def Let_def)

lemma dropped_contents:
  assumes ok: "index_ok (bank s) (kv_index s) hi"
    and skip: "skip = index_find (kv_index s) k"
  shows "index_ok (bank s) (kv_index (dropped s skip)) hi" "contents (dropped s skip) = (contents s)(k := None)"
    "compacted_size (kv_index (dropped s skip)) None = compacted_size (kv_index s) skip"
    "bank (dropped s skip) = bank s" "index_find (kv_index (dropped s skip)) k = None"
    "index_find (kv_index s) k \<noteq> None \<or> index_alloc (kv_index s) \<noteq> None \<Longrightarrow>
     index_alloc (kv_index (dropped s skip)) \<noteq> None"
proof -
  have all: "index_ok (bank s) (kv_index (dropped s skip)) hi \<and> contents (dropped s skip) = (contents s)(k := None) \<and>
    compacted_size (kv_index (dropped s skip)) None = compacted_size (kv_index s) skip \<and>
    (index_find (kv_index s) k \<noteq> None \<or> index_alloc (kv_index s) \<noteq> None \<longrightarrow>
     index_alloc (kv_index (dropped s skip)) \<noteq> None)"
  proof (cases skip)
    case None
    then have f: "index_find (kv_index s) k = None" using skip by simp
    then have "contents s k = None" by (simp add: contents_def kv_map_def)
    then have "(contents s)(k := None) = contents s" by (rule fun_upd_idem)
    moreover have "dropped s skip = s" using None by (simp add: dropped_def)
    ultimately show ?thesis using ok f None by simp
  next
    case (Some i)
    then have "index_find (kv_index s) k = Some i" using skip by simp
    then have i: "i \<in> used_slots (kv_index s)" "ie_key (kv_index s ! i) = k" using index_find_Some by blast+
    then have "i < length (kv_index s)" by (simp add: used_slots_def)
    moreover have "index_alloc ((kv_index s)[i := (kv_index s ! i)\<lparr>in_use := False\<rparr>]) \<noteq> None" (is "index_alloc ?idx \<noteq> None")
    proof
      assume "index_alloc ?idx = None"
      then have "i \<in> used_slots ?idx" using calculation unfolding index_alloc_None by simp
      then show False by (simp add: used_slots_free)
    qed
    ultimately show ?thesis
      using index_ok_free [OF ok i(1)] i(2) compacted_size_free Some by (simp add: dropped_def contents_def)
  qed
  then show "index_ok (bank s) (kv_index (dropped s skip)) hi" "contents (dropped s skip) = (contents s)(k := None)"
    "compacted_size (kv_index (dropped s skip)) None = compacted_size (kv_index s) skip"
    "index_find (kv_index s) k \<noteq> None \<or> index_alloc (kv_index s) \<noteq> None \<Longrightarrow>
     index_alloc (kv_index (dropped s skip)) \<noteq> None" by auto
  show "bank (dropped s skip) = bank s" by (simp add: dropped_def split: option.split)
  then have "kv_map (bank s) (kv_index (dropped s skip)) = (contents s)(k := None)"
    using all by (simp add: contents_def)
  then have "kv_map (bank s) (kv_index (dropped s skip)) k = None" by simp
  then show "index_find (kv_index (dropped s skip)) k = None" by (simp add: kv_map_def split: option.splits)
qed

lemma slot_free: "index_alloc idx \<noteq> None \<Longrightarrow> \<exists>i. slot_for idx k = Some i"
  by (auto simp: slot_for_def split: option.split)

lemma index_alloc_same:
  assumes "index_alloc idx \<noteq> None" "length idx' = length idx"
    and "\<forall>i < length idx. in_use (idx' ! i) = in_use (idx ! i) \<and> ie_key (idx' ! i) = ie_key (idx ! i)"
  shows "index_alloc idx' \<noteq> None"
proof -
  have "used_slots idx' = used_slots idx" using assms(2,3) by (auto simp: used_slots_def)
  then show ?thesis using assms(1,2) by (simp only: index_alloc_None not_False_eq_True)
qed

lemma dirty_kept:
  "ram_ok (s\<lparr>kv_dirty := d\<rparr>) = ram_ok s" "contents (s\<lparr>kv_dirty := d\<rparr>) = contents s"
  "active_ok (s\<lparr>kv_dirty := d\<rparr>) x C = active_ok s x C" "kv_seg med (s\<lparr>kv_dirty := d\<rparr>) e = kv_seg med s e"
  "kv_placed (s\<lparr>kv_dirty := d\<rparr>) e = kv_placed s e"
  by (simp_all add: ram_ok_def contents_def active_ok_def pending_def kv_seg_def fun_eq_iff kv_placed_def)

lemma holds_core_dirty: "holds_core med s e C B \<Longrightarrow> holds_ok med (s\<lparr>kv_dirty := True\<rparr>) e C B"
  unfolding holds_ok_def kv_ok_def holds_core_def kv_core_def kv_clean_def dirty_kept by auto

lemma two_tests:
  assumes "(if P then a else if Q then b else c) = r"
  obtains "P" "r = a" | "\<not> P" "Q" "r = b" | "\<not> P" "\<not> Q" "r = c"
  using assms by (cases P; cases Q) simp_all

lemma outcome_from: "outcome med powered s1 e s' e' C B acked \<Longrightarrow> same_place s s1 \<Longrightarrow> outcome med powered s e s' e' C B acked"
  unfolding outcome_def using same_place_trans by blast

lemma compacted_size_dropped:
  assumes "ram_ok s" "skip = index_find (kv_index s) k"
  shows "compacted_size (kv_index s) skip = kv_bytes ((contents s)(k := None))"
proof -
  have "index_ok (bank s) (kv_index s) (used_offset s)" using assms(1) by (simp add: ram_ok_def)
  note d = dropped_contents [OF this assms(2)]
  then show ?thesis using compacted_size_bytes [OF d(1)] by (simp add: contents_def)
qed

text \<open>The index is full exactly when the map is.\<close>

lemma index_alloc_full:
  assumes "ram_ok s" "index_find (kv_index s) k = None"
  shows "contents s k = None" "index_alloc (kv_index s) = None \<longleftrightarrow> card (dom (contents s)) = KV_MAX_KEYS"
proof -
  have ok: "index_ok (bank s) (kv_index s) (used_offset s)" using assms(1) by (simp add: ram_ok_def)
  show "contents s k = None" using assms(2) by (simp add: contents_def kv_map_def)
  have sub: "used_slots (kv_index s) \<subseteq> {..<length (kv_index s)}" by (auto simp: used_slots_def)
  have "used_slots (kv_index s) = {..<length (kv_index s)} \<longleftrightarrow> card (used_slots (kv_index s)) = length (kv_index s)"
  proof
    assume "card (used_slots (kv_index s)) = length (kv_index s)"
    then show "used_slots (kv_index s) = {..<length (kv_index s)}" by (intro card_subset_eq [OF _ sub]) simp_all
  qed (metis card_lessThan)
  then show "index_alloc (kv_index s) = None \<longleftrightarrow> card (dom (contents s)) = KV_MAX_KEYS"
    unfolding index_alloc_None contents_def card_dom_kv_map [OF ok] using ok by (simp add: index_ok_def)
qed

context kv_medium
begin

text \<open>The three results of making room for a record under the key \<open>k\<close>.\<close>

lemma ensure_space_ok:
  assumes ram: "ram_ok s" and skip: "skip = index_find (kv_index s) k"
    and slot: "skip \<noteq> None \<or> index_alloc (kv_index s) \<noteq> None"
    and run: "ensure_space_locked s len skip = (s1, status)"
  shows "s1 = s \<and> status = HAL_ENOMEM \<and> bank_size s < kv_bytes ((contents s)(k := None)) + record_size len \<or>
    status = HAL_OK \<and> ram_ok s1 \<and> same_place s s1 \<and> used_offset s1 + 18 + len \<le> bank_size s1 \<and>
    (holds_core med s e C B \<longrightarrow> holds_core med s1 e C B) \<and> (\<exists>i. slot_for (kv_index s1) k = Some i) \<and>
    (s1 = s \<or> contents s1 = (contents s)(k := None) \<and> (\<forall>i. skip = Some i \<longrightarrow> \<not> in_use (kv_index s1 ! i)))"
proof -
  note run' = run [unfolded ensure_space_eq]
  show ?thesis
  proof (rule two_tests [OF run'])
    assume fits: "used_offset s + record_size len + commit_record_reserve s \<le> bank_size s" "(s1, status) = (s, HAL_OK)"
    have "\<exists>i. slot_for (kv_index s) k = Some i"
    proof (cases "index_find (kv_index s) k")
      case None
      then show ?thesis using slot unfolding skip by (auto intro: slot_free)
    qed (simp add: slot_for_def)
    then show ?thesis using fits ram by (simp add: record_size_eq)
  next
    assume compacted: "\<not> compacted_size (kv_index s) skip + record_size len > bank_size s"
      "(s1, status) = (compact_locked (dropped s skip), HAL_OK)"
    let ?s = "dropped s skip"
    have ok: "index_ok (bank s) (kv_index s) (used_offset s)" using ram by (simp add: ram_ok_def)
    note d = dropped_contents [OF ok skip]
    have eq: "?s = s\<lparr>kv_index := kv_index ?s\<rparr>" by (simp add: dropped_def split: option.split)
    have f: "used_offset ?s = used_offset s" "bank_size ?s = bank_size s" "same_place s ?s"
      by (simp_all add: dropped_def same_place_def split: option.split)
    have ram': "ram_ok ?s"
      using ram d(1) by (subst eq) (simp add: ram_ok_def)
    obtain body where c: "compact_now (compact_locked ?s) body" "contents (compact_locked ?s) = contents ?s"
      "same_place ?s (compact_locked ?s)" "used_offset (compact_locked ?s) = compacted_size (kv_index ?s) None"
      "\<forall>i < length (kv_index ?s). in_use (kv_index (compact_locked ?s) ! i) = in_use (kv_index ?s ! i) \<and>
       ie_key (kv_index (compact_locked ?s) ! i) = ie_key (kv_index ?s ! i)"
      "\<forall>idx. holds_core med (?s\<lparr>kv_index := idx\<rparr>) e C B \<longrightarrow> holds_core med (compact_locked ?s) e C B"
      using compact_locked_core [OF ram', of e C B] by blast
    have ram1: "ram_ok (compact_locked ?s)" using c(1) by (simp add: compact_now_def)
    have len: "length (kv_index (compact_locked ?s)) = length (kv_index ?s)"
      using ram1 ram' by (simp add: ram_ok_def index_ok_def)
    have restored: "?s\<lparr>kv_index := kv_index s\<rparr> = s" by (simp add: dropped_def split: option.split)
    have "index_alloc (kv_index ?s) \<noteq> None" using slot unfolding skip by (intro d(6) [unfolded skip])
    then have "\<exists>i. slot_for (kv_index (compact_locked ?s)) k = Some i"
      using slot_free index_alloc_same [OF _ len c(5)] by blast
    moreover have "\<not> in_use (kv_index (compact_locked ?s) ! i)" if i: "skip = Some i" for i
    proof -
      have "i < length (kv_index s)" using skip i index_find_Some [of "kv_index s" k i] by (simp add: used_slots_def)
      then show ?thesis using c(5) i by (simp add: dropped_def)
    qed
    moreover have "used_offset (compact_locked ?s) + 18 + len \<le> bank_size (compact_locked ?s)"
      using compacted(1) c(3,4) d(3) f(2) by (simp add: record_size_eq same_place_def)
    moreover have "holds_core med s e C B \<longrightarrow> holds_core med (compact_locked ?s) e C B"
      using c(6) restored by metis
    ultimately show ?thesis
      using compacted(2) ram1 same_place_trans [OF f(3) c(3)] c(2) d(2) by simp
  qed (simp add: compacted_size_dropped [OF ram skip])
qed

section \<open>Setting and deleting\<close>

lemma finish_mutation_outcome:
  assumes e: "online e" "kv_placed s e" "powered (s_storage e)" and core: "holds_core med s e C B"
    and run: "finish_mutation_locked s e = (s', e', status)"
  shows "outcome med powered s e s' e' C B (status = HAL_OK \<and> auto_commit s) \<and> contents s' = contents s \<and> online e'"
proof -
  let ?s = "s\<lparr>kv_dirty := True\<rparr>"
  have place: "same_place s ?s" "kv_placed ?s e" "contents ?s = contents s"
    using e(2) by (simp_all add: same_place_def dirty_kept)
  have ok: "holds_ok med ?s e C B" using core by (rule holds_core_dirty)
  show ?thesis
  proof (cases "auto_commit s")
    case True
    then have "commit_locked ?s e = (s', e', status)" using run by (simp add: finish_mutation_locked_def)
    from commit_locked_outcome [OF e(1) place(2) e(3) ok this] show ?thesis
      using True place(3) by (auto intro: outcome_from [OF _ place(1)])
  next
    case False
    then have s': "s' = ?s" "e' = e" "status = HAL_OK" using run by (simp_all add: finish_mutation_locked_def)
    have "ram_ok ?s" "found_at_boot med ?s e B"
      using ok by (auto simp: holds_ok_def kv_ok_def kv_core_def found_at_boot_def)
    then have "outcome med powered s e s' e' C B False"
      using place e ok unfolding s' by (intro outcome_poweredI [where C' = C and B' = B]) auto
    then show ?thesis using False place(3) e(1) s' by simp
  qed
qed

lemma outcome_same:
  assumes "online e" "kv_placed s e" "powered (s_storage e)" "holds_ok med s e C B" "acked \<Longrightarrow> \<not> kv_dirty s"
  shows "outcome med powered s e s e C B acked"
proof -
  have "ram_ok s" "found_at_boot med s e B"
    using assms(4) by (auto simp: holds_ok_def kv_ok_def kv_core_def found_at_boot_def)
  then show ?thesis
    using assms holds_ok_clean [OF assms(4)] by (intro outcome_poweredI [where C' = C and B' = B]) auto
qed

lemma finish_no_change_outcome:
  assumes e: "online e" "kv_placed s e" "powered (s_storage e)" and ok: "holds_ok med s e C B"
    and run: "finish_no_change_locked s e = (s', e', status)"
  shows "outcome med powered s e s' e' C B (status = HAL_OK \<and> auto_commit s) \<and> contents s' = contents s \<and> online e'"
proof (cases "auto_commit s \<and> kv_dirty s")
  case True
  then have "commit_locked s e = (s', e', status)" using run by (simp add: finish_no_change_locked_def)
  from commit_locked_outcome [OF e ok this] show ?thesis using True by simp
next
  case False
  then have "s' = s" "e' = e" "status = HAL_OK" using run by (auto simp: finish_no_change_locked_def)
  then show ?thesis using outcome_same [OF e ok, of "auto_commit s"] False e(1) by simp
qed

lemma holds_okD:
  assumes "holds_ok med s e C B"
  shows "ram_ok s" "holds_core med s e C B" "index_ok (bank s) (kv_index s) (used_offset s)"
  using assms by (auto simp: holds_ok_def kv_ok_def kv_core_def holds_core_def ram_ok_def)

lemma unchanged_value:
  assumes "index_find (kv_index s) k = Some i" "ie_type (kv_index s ! i) = t" "ie_len (kv_index s ! i) = length d"
    and "subarr (payload_offset (kv_index s ! i)) (length d) (bank s) = d"
  shows "(contents s)(k \<mapsto> (t, d)) = contents s"
proof -
  have "contents s k = Some (t, d)" using assms by (simp add: contents_def kv_map_def entry_val_def)
  then show ?thesis by (rule fun_upd_idem)
qed

text \<open>The part of a write that follows when there is room: the store with the new record, which is then committed.\<close>

lemma put_value_run:
  assumes e: "kv_placed s e" and ram: "ram_ok s" and core: "holds_core med s e C B"
    and fits: "used_offset s + 18 + length d \<le> bank_size s"
    and r: "record_ok False (k, t, d, next_seq s)" "t \<noteq> KV_REC_TYPE_DELETE" and i: "slot_for (kv_index s) k = Some i"
  obtains u where "append_record_locked s k t d = (u\<lparr>kv_index := kv_index s\<rparr>, HAL_OK)"
    "set_entry (u\<lparr>kv_index := kv_index s\<rparr>) k t (length d) (used_offset s + KV_REC_HDR_SIZE) = u"
    "same_place s u" "kv_placed u e" "holds_core med u e C B" "contents u = (contents s)(k \<mapsto> (t, d))"
proof -
  let ?b = "write_record (bank s) (used_offset s) k t d (next_seq s)"
  let ?idx = "(kv_index s)[i := \<lparr>in_use = True, ie_key = k, ie_type = t, ie_len = length d,
      payload_offset = used_offset s + KV_REC_HDR_SIZE, ie_seq = next_seq s\<rparr>]"
  let ?s = "s\<lparr>bank := ?b, next_seq := next_seq s + 1, used_offset := used_offset s + 18 + length d,
      record_count := record_count s + 1, kv_index := ?idx\<rparr>"
  note put = put_entry [OF ram r fits refl i]
  have upd: "rec_apply (k, t, d, next_seq s) (contents s) = (contents s)(k \<mapsto> (t, d))"
    using r(2) by (simp add: rec_apply_def)
  note rec = put_record [OF ram r(1) fits refl put(1) put(2) [folded upd] refl,
    where w = "next_seq s + 1" and c = "record_count s + 1"]
  show thesis
  proof (rule that [of ?s])
    show "append_record_locked s k t d = (?s\<lparr>kv_index := kv_index s\<rparr>, HAL_OK)"
      using fits by (simp add: append_record_locked_def record_size_eq add.assoc)
    show "set_entry (?s\<lparr>kv_index := kv_index s\<rparr>) k t (length d) (used_offset s + KV_REC_HDR_SIZE) = ?s"
      using i by (simp add: set_entry_def)
    show "same_place s ?s" "kv_placed ?s e" using e by (simp_all add: same_place_def kv_placed_def)
    show "holds_core med ?s e C B" by (rule rec(3) [OF core])
    show "contents ?s = (contents s)(k \<mapsto> (t, d))" using rec(2) upd by simp
  qed
qed

lemma set_blob_run:
  assumes e: "kv_placed s e" and ok: "holds_ok med s e C B"
    and t: "t = KV_REC_TYPE_BLOB \<or> t = KV_REC_TYPE_U32 \<and> length d = 4"
    and run: "set_blob_locked s e k t d = (s', e', status)"
  obtains (refused) "s' = s" "e' = e" "status = HAL_EOVERFLOW \<or> status = HAL_ENOMEM"
      "bank_size s < kv_bytes ((contents s)(k \<mapsto> (t, d))) \<or> KV_MAX_KEYS < card (dom ((contents s)(k \<mapsto> (t, d))))"
    | (same) "(contents s)(k \<mapsto> (t, d)) = contents s" "finish_no_change_locked s e = (s', e', status)"
    | (put) u where "finish_mutation_locked u e = (s', e', status)" "same_place s u" "kv_placed u e"
      "holds_core med u e C B" "contents u = (contents s)(k \<mapsto> (t, d))"
proof -
  let ?found = "index_find (kv_index s) k" and ?M = "(contents s)(k \<mapsto> (t, d))"
  let ?same = "case ?found of None \<Rightarrow> False | Some i \<Rightarrow> ie_type (kv_index s ! i) = t \<and> ie_len (kv_index s ! i) = length d \<and>
    subarr (payload_offset (kv_index s ! i)) (length d) (bank s) = d"
  note okD = holds_okD [OF ok]
  note bytes = kv_bytes_upd [OF finite_dom_contents, of s k t d]
  consider (big) "s' = s" "e' = e" "status = HAL_EOVERFLOW" "bank_size s < record_size (length d) + KV_PUBLISH_SIZE"
    | (same) "?same" "finish_no_change_locked s e = (s', e', status)"
    | (full) "s' = s" "e' = e" "status = HAL_ENOMEM" "?found = None" "index_alloc (kv_index s) = None"
    | (room) "record_size (length d) + KV_PUBLISH_SIZE \<le> bank_size s" "?found \<noteq> None \<or> index_alloc (kv_index s) \<noteq> None"
      "(case ensure_space_locked s (length d) ?found of (s1, space_status) \<Rightarrow>
         if hal_status_is_error space_status then (s1, e, space_status)
         else case append_record_locked s1 k t d of (s2, append_status) \<Rightarrow>
           if hal_status_is_error append_status then (s2, e, append_status)
           else finish_mutation_locked (set_entry s2 k t (length d) (used_offset s1 + KV_REC_HDR_SIZE)) e) = (s', e', status)"
    using run unfolding set_blob_locked_def Let_def by (auto split: if_splits)
  then show thesis
  proof cases
    case big
    have "KV_PUBLISH_SIZE \<le> kv_bytes ((contents s)(k := None))" unfolding kv_bytes_def by (rule le_add1)
    then have "bank_size s < kv_bytes ?M" unfolding bytes using big(4) by linarith
    then show thesis using big refused by blast
  next
    case same
    then obtain i where "?found = Some i" "ie_type (kv_index s ! i) = t" "ie_len (kv_index s ! i) = length d"
      "subarr (payload_offset (kv_index s ! i)) (length d) (bank s) = d" by (auto split: option.splits)
    then have "?M = contents s" by (rule unchanged_value)
    then show thesis using same(2) \<open>\<lbrakk>?M = contents s; finish_no_change_locked s e = (s', e', status)\<rbrakk> \<Longrightarrow> thesis\<close> by blast
  next
    case full
    then have "contents s k = None" "card (dom (contents s)) = KV_MAX_KEYS"
      using index_alloc_full [OF okD(1) full(4)] by blast+
    then have "KV_MAX_KEYS < card (dom ?M)" using finite_dom_contents [of s] by (simp add: card_insert_if domIff)
    then show thesis using full refused by blast
  next
    case room
    obtain s1 st where es: "ensure_space_locked s (length d) ?found = (s1, st)"
      by (cases "ensure_space_locked s (length d) ?found")
    from ensure_space_ok [OF okD(1) refl room(2) es, of e C B] show thesis
    proof
      assume "s1 = s \<and> st = HAL_ENOMEM \<and> bank_size s < kv_bytes ((contents s)(k := None)) + record_size (length d)"
      then show thesis using room(3) es refused bytes by (simp add: hal_status_is_error_def)
    next
      assume a: "st = HAL_OK \<and> ram_ok s1 \<and> same_place s s1 \<and> used_offset s1 + 18 + length d \<le> bank_size s1 \<and>
        (holds_core med s e C B \<longrightarrow> holds_core med s1 e C B) \<and> (\<exists>i. slot_for (kv_index s1) k = Some i) \<and>
        (s1 = s \<or> contents s1 = (contents s)(k := None) \<and> (\<forall>i. ?found = Some i \<longrightarrow> \<not> in_use (kv_index s1 ! i)))"
      then obtain i where i: "slot_for (kv_index s1) k = Some i" by blast
      have place: "same_place s s1" "kv_placed s1 e" using a e by (simp_all add: same_place_def kv_placed_def)
      have "length d < 65536" using room(1) okD(1) by (simp add: record_size_eq ram_ok_def HAL_KV_MAX_BANK_SIZE_def)
      then have r: "record_ok False (k, t, d, next_seq s1)" "t \<noteq> KV_REC_TYPE_DELETE"
        using t by (auto simp: record_ok_def record_type_valid_def KV_REC_TYPE_BLOB_def KV_REC_TYPE_U32_def KV_REC_TYPE_DELETE_def)
      have s1: "ram_ok s1" "holds_core med s1 e C B" "used_offset s1 + 18 + length d \<le> bank_size s1" using a okD(2) by simp_all
      obtain u where u: "append_record_locked s1 k t d = (u\<lparr>kv_index := kv_index s1\<rparr>, HAL_OK)"
        "set_entry (u\<lparr>kv_index := kv_index s1\<rparr>) k t (length d) (used_offset s1 + KV_REC_HDR_SIZE) = u"
        "same_place s1 u" "kv_placed u e" "holds_core med u e C B" "contents u = (contents s1)(k \<mapsto> (t, d))"
        by (rule put_value_run [OF place(2) s1 r i])
      have "finish_mutation_locked u e = (s', e', status)"
        using room(3) es a u(1,2) by (simp add: hal_status_is_error_def)
      moreover have "contents u = ?M" using u(6) a by auto
      ultimately show thesis using put same_place_trans [OF place(1) u(3)] u(4,5) by blast
    qed
  qed
qed

lemma set_blob_outcome:
  assumes e: "online e" "kv_placed s e" "powered (s_storage e)" and ok: "holds_ok med s e C B"
    and t: "t = KV_REC_TYPE_BLOB \<or> t = KV_REC_TYPE_U32 \<and> length d = 4"
    and run: "set_blob_locked s e k t d = (s', e', status)"
  shows "outcome med powered s e s' e' C B (status = HAL_OK \<and> auto_commit s) \<and> online e' \<and>
    contents s' \<in> {contents s, (contents s)(k \<mapsto> (t, d))} \<and>
    (status = HAL_OK \<longrightarrow> contents s' = (contents s)(k \<mapsto> (t, d)))"
proof (cases rule: set_blob_run [OF e(2) ok t run])
  case 1
  then show ?thesis using outcome_same [OF e ok, of False] e(1) by auto
next
  case 2
  then show ?thesis using finish_no_change_outcome [OF e ok 2(2)] by simp
next
  case (3 u)
  have "auto_commit u = auto_commit s" using 3(2) by (simp add: same_place_def)
  then show ?thesis
    using finish_mutation_outcome [OF e(1) 3(3) e(3) 3(4,1)] 3(5) by (auto intro: outcome_from [OF _ 3(2)])
qed

text \<open>Deleting writes a record, for which there is always room: the one it deletes makes it.\<close>

lemma delete_run:
  assumes e: "kv_placed s e" and ok: "holds_ok med s e C B"
    and run: "delete_locked s e k = (s', e', status)"
  obtains (absent) "(contents s)(k := None) = contents s" "finish_no_change_locked s e = (s', e', status)"
    | (put) u where "finish_mutation_locked u e = (s', e', status)" "same_place s u" "kv_placed u e"
      "holds_core med u e C B" "contents u = (contents s)(k := None)"
proof (cases "index_find (kv_index s) k")
  case None
  then have "contents s k = None" by (simp add: contents_def kv_map_def)
  then have "(contents s)(k := None) = contents s" by (rule fun_upd_idem)
  moreover have "finish_no_change_locked s e = (s', e', status)" using run None by (simp add: delete_locked_def)
  ultimately show thesis using absent by blast
next
  case (Some i)
  note okD = holds_okD [OF ok]
  obtain s1 st where es: "ensure_space_locked s 0 (Some i) = (s1, st)" by (cases "ensure_space_locked s 0 (Some i)")
  obtain t d where "contents s k = Some (t, d)" using Some by (simp add: contents_def kv_map_def)
  then have "contents s = (contents s)(k \<mapsto> (t, d))" by (simp add: fun_upd_idem)
  then have "kv_bytes (contents s) = kv_bytes ((contents s)(k := None)) + record_size (length d)"
    using kv_bytes_upd [OF finite_dom_contents, of s k t d] by simp
  then have room: "kv_bytes ((contents s)(k := None)) + record_size 0 \<le> bank_size s"
    using kv_bytes_bound [OF okD(1)] by (simp add: record_size_eq)
  from ensure_space_ok [OF okD(1) Some [symmetric] _ es, of e C B] Some room
  have a: "st = HAL_OK \<and> ram_ok s1 \<and> same_place s s1 \<and> used_offset s1 + 18 \<le> bank_size s1 \<and>
    (holds_core med s e C B \<longrightarrow> holds_core med s1 e C B) \<and>
    (s1 = s \<or> contents s1 = (contents s)(k := None) \<and> \<not> in_use (kv_index s1 ! i))" by auto
  let ?b = "write_record (bank s1) (used_offset s1) k KV_REC_TYPE_DELETE [] (next_seq s1)"
  let ?idx = "(kv_index s1)[i := (kv_index s1 ! i)\<lparr>in_use := False\<rparr>]"
  let ?s = "s1\<lparr>bank := ?b, next_seq := next_seq s1 + 1, used_offset := used_offset s1 + 18,
      record_count := record_count s1 + 1, kv_index := ?idx\<rparr>"
  have ram1: "ram_ok s1" and fits: "used_offset s1 + 18 + length ([] :: bytes) \<le> bank_size s1" using a by auto
  have n: "used_offset s1 + 18 \<le> length (bank s1)" using ram1 fits bank_limits(2) [of s1] by (simp add: ram_ok_def)
  have b: "?b = blit (bank s1) (used_offset s1) (enc (k, KV_REC_TYPE_DELETE, [], next_seq s1))"
    using n by (subst write_record_enc) simp_all
  have same: "index_ok ?b (kv_index s1) (used_offset s1)" "kv_map ?b (kv_index s1) = contents s1"
    using image_kept [OF ram1, of ?b] n by (simp_all add: b take_blit_prefix)
  have upd: "rec_apply (k, KV_REC_TYPE_DELETE, [], next_seq s1) (contents s1) = (contents s)(k := None)"
    using a by (auto simp: rec_apply_def)
  have idx: "index_ok ?b ?idx (used_offset s1) \<and> kv_map ?b ?idx = (contents s)(k := None)"
  proof (cases "s1 = s")
    case True
    then show ?thesis using index_ok_free [OF same(1), of i] index_find_Some [OF Some] same(2) by simp
  next
    case False
    then have "contents s1 = (contents s)(k := None)" "\<not> in_use (kv_index s1 ! i)" using a by auto
    moreover have "(kv_index s1 ! i)\<lparr>in_use := False\<rparr> = kv_index s1 ! i" using calculation(2) by simp
    then have "?idx = kv_index s1" by (simp only: list_update_id)
    ultimately show ?thesis using same by (simp only: simp_thms)
  qed
  have r: "record_ok False (k, KV_REC_TYPE_DELETE, [], next_seq s1)"
    by (simp add: record_ok_def record_type_valid_def KV_REC_TYPE_BLOB_def KV_REC_TYPE_U32_def KV_REC_TYPE_DELETE_def)
  have idx18: "index_ok ?b ?idx (used_offset s1 + 18 + length ([] :: bytes))" using index_ok_mono idx by auto
  note rec = put_record [OF ram1 r fits refl idx18 _ refl, where w = "next_seq s1 + 1" and c = "record_count s1 + 1"]
  have "append_record_locked s1 k KV_REC_TYPE_DELETE [] = (?s\<lparr>kv_index := kv_index s1\<rparr>, HAL_OK)"
    using fits by (simp add: append_record_locked_def record_size_eq)
  then have "finish_mutation_locked ?s e = (s', e', status)"
    using run Some es a by (simp add: delete_locked_def hal_status_is_error_def)
  moreover have "holds_core med ?s e C B" using rec(3) [of med e C B] idx upd a okD(2) by simp
  moreover have "contents ?s = (contents s)(k := None)" using rec(2) idx upd by simp
  moreover have "same_place s ?s" "kv_placed ?s e" using a e by (simp_all add: same_place_def kv_placed_def)
  ultimately show thesis using put by blast
qed

lemma delete_outcome:
  assumes e: "online e" "kv_placed s e" "powered (s_storage e)" and ok: "holds_ok med s e C B"
    and run: "delete_locked s e k = (s', e', status)"
  shows "outcome med powered s e s' e' C B (status = HAL_OK \<and> auto_commit s) \<and> online e' \<and>
    contents s' \<in> {contents s, (contents s)(k := None)} \<and>
    (status = HAL_OK \<longrightarrow> contents s' = (contents s)(k := None))"
proof (cases rule: delete_run [OF e(2) ok run])
  case 1
  then show ?thesis using finish_no_change_outcome [OF e ok 1(2)] by simp
next
  case (2 u)
  have "auto_commit u = auto_commit s" using 2(2) by (simp add: same_place_def)
  then show ?thesis
    using finish_mutation_outcome [OF e(1) 2(3) e(3) 2(4,1)] 2(5) by (auto intro: outcome_from [OF _ 2(2)])
qed

end

end
