(* ===== verification/Kv_Exec.thy ===== *)
theory Kv_Exec
  imports Kv_Ops
begin

text \<open>
  The requests to a mounted store, as one function: what each does to the map from keys to typed
  values, which of them are durable when they succeed, and the invariant that every one of them
  keeps, whatever happens to the medium. A history collects the maps that a restart may find: the last one
  acknowledged as durable, and those that were to be written as a whole since then. What is deferred is not among
  them.
\<close>

section \<open>Requests\<close>

datatype kv_request = Set_u32 u16 u32 | Set_blob u16 bytes | Delete u16 | Collect | Commit | Prepare
  | Set_auto_commit bool | Set_read_through bool

fun kv_exec :: "kv_request \<Rightarrow> kv \<Rightarrow> 'p eeprom \<Rightarrow> kv \<times> 'p eeprom \<times> hal_status" where
  "kv_exec (Set_u32 k v) s e = hal_kv_set_u32_ex s e k v"
| "kv_exec (Set_blob k d) s e = hal_kv_set_blob_ex s e k (Some d)"
| "kv_exec (Delete k) s e = hal_kv_delete_ex s e k"
| "kv_exec Collect s e = hal_kv_gc_ex s e"
| "kv_exec Commit s e = hal_kv_commit_ex s e"
| "kv_exec Prepare s e = (case hal_kv_prepare_ex s e of (e, status) \<Rightarrow> (s, e, status))"
| "kv_exec (Set_auto_commit on) s e = (case hal_kv_set_auto_commit s on of (s, status) \<Rightarrow> (s, e, status))"
| "kv_exec (Set_read_through on) s e = (case hal_kv_set_read_through s on of (s, status) \<Rightarrow> (s, e, status))"

text \<open>What a request does to the map.\<close>

definition u32_bytes :: "u32 \<Rightarrow> bytes" where
  "u32_bytes v = jh_store_le32 (replicate 4 0) 0 v"

fun kv_spec :: "kv_request \<Rightarrow> kv_contents \<Rightarrow> kv_contents" where
  "kv_spec (Set_u32 k v) M = M(k \<mapsto> (KV_REC_TYPE_U32, u32_bytes v))"
| "kv_spec (Set_blob k d) M = M(k \<mapsto> (KV_REC_TYPE_BLOB, d))"
| "kv_spec (Delete k) M = M(k := None)"
| "kv_spec _ M = M"

text \<open>Success of these requests means that the change is on the medium.\<close>

fun durable :: "kv_request \<Rightarrow> kv \<Rightarrow> bool" where
  "durable Commit s = True"
| "durable (Set_u32 _ _) s = auto_commit s"
| "durable (Set_blob _ _) s = auto_commit s"
| "durable (Delete _) s = auto_commit s"
| "durable Collect s = auto_commit s"
| "durable _ s = False"

text \<open>Whether the map after a request fits a bank: its bytes once compacted, and its keys.\<close>

definition has_room :: "kv_request \<Rightarrow> kv \<Rightarrow> bool" where
  "has_room r s \<longleftrightarrow> kv_bytes (kv_spec r (contents s)) \<le> bank_size s \<and> card (dom (kv_spec r (contents s))) \<le> KV_MAX_KEYS"

text \<open>
  The maps a restart may find after a request. One that succeeds and is durable leaves its own map only; one that writes
  its map and may have been cut short adds that map, with everything deferred before it; any other adds nothing.
\<close>

definition kv_history ::
  "kv_request \<Rightarrow> kv \<Rightarrow> hal_status \<Rightarrow> bool \<Rightarrow> kv_contents \<Rightarrow> kv_contents set \<Rightarrow> kv_contents set" where
  "kv_history r s status on M H =
     (if status = HAL_OK \<and> durable r s \<and> on then {M} else if durable r s \<and> has_room r s then insert M H else H)"

lemma length_u32_bytes [simp]: "length (u32_bytes v) = 4"
  by (simp add: u32_bytes_def)

lemma has_room_kept:
  assumes "ram_ok s" "kv_spec r (contents s) = contents s \<or> (\<exists>k. kv_spec r (contents s) = (contents s)(k := None))"
  shows "has_room r s"
proof -
  have fin: "finite (dom (contents s))" by (rule finite_dom_contents)
  note bound = kv_bytes_bound [OF assms(1)] card_dom_contents [OF assms(1)]
  from assms(2) show ?thesis
  proof (elim disjE exE)
    fix k assume k: "kv_spec r (contents s) = (contents s)(k := None)"
    have "(\<Sum>j \<in> dom ((contents s)(k := None)). record_size (length (snd (the (((contents s)(k := None)) j))))) \<le>
        (\<Sum>j \<in> dom (contents s). record_size (length (snd (the (contents s j)))))"
      using fin by (intro sum_le_included [where i = id]) auto
    moreover have "card (dom ((contents s)(k := None))) \<le> card (dom (contents s))"
      using fin by (intro card_mono) auto
    ultimately show "has_room r s" using bound unfolding has_room_def k kv_bytes_def by linarith
  qed (use bound in \<open>simp add: has_room_def\<close>)
qed

section \<open>The remaining operations\<close>

context kv_medium
begin

lemma gc_outcome:
  assumes e: "online e" "kv_placed s e" "powered (s_storage e)" and ok: "holds_ok med s e C B"
    and run: "hal_kv_gc_ex s e = (s', e', status)"
  shows "outcome med powered s e s' e' C B (status = HAL_OK \<and> auto_commit s) \<and> contents s' = contents s \<and> online e'"
proof -
  note okD = holds_okD [OF ok]
  let ?s = "compact_locked s"
  have "s\<lparr>kv_index := kv_index s\<rparr> = s" by simp
  then obtain body where c: "compact_now ?s body" "contents ?s = contents s" "same_place s ?s" "holds_core med ?s e C B"
    using compact_locked_core [OF okD(1), of e C B] okD(2) by metis
  have dirty: "kv_dirty ?s" "ram_ok ?s" using c(1) by (simp_all add: compact_now_def)
  then have "?s\<lparr>kv_dirty := True\<rparr> = ?s" by simp
  then have ok': "holds_ok med ?s e C B" using holds_core_dirty [OF c(4)] by simp
  have place: "kv_placed ?s e" using c(3) e(2) by (simp add: same_place_def kv_placed_def)
  have ready: "kv_mutex s" "kv_ready s" using e(2) by (simp_all add: kv_placed_def)
  show ?thesis
  proof (cases "auto_commit s")
    case True
    then have "commit_locked ?s e = (s', e', status)"
      using run ready c(3) by (simp add: hal_kv_gc_ex_def Let_def same_place_def)
    from commit_locked_outcome [OF e(1) place e(3) ok' this] show ?thesis
      using True c(2) by (auto intro: outcome_from [OF _ c(3)])
  next
    case False
    then have s': "s' = ?s" "e' = e" using run ready c(3) by (simp_all add: hal_kv_gc_ex_def Let_def same_place_def)
    have "outcome med powered ?s e ?s e C B False" using outcome_same [OF e(1) place e(3) ok'] by simp
    then show ?thesis using False c(2) e(1) unfolding s' by (auto intro: outcome_from [OF _ c(3)])
  qed
qed

text \<open>A request that does not write its map leaves one of the two maps for a restart.\<close>

definition nothing_new :: "kv \<Rightarrow> 'p eeprom \<Rightarrow> kv_contents \<Rightarrow> kv_contents \<Rightarrow> bool" where
  "nothing_new s e C B \<longleftrightarrow> (\<exists>B' \<in> {B, C}. ram_ok s \<and> kv_placed s e \<and> found_at_boot med s e B' \<and>
     (powered (s_storage e) \<longrightarrow> holds_ok med s e C B'))"

lemma nothing_newI:
  assumes "kv_placed s e" "holds_ok med s e C B'" "B' \<in> {B, C}"
  shows "nothing_new s e C B"
  unfolding nothing_new_def using assms by (intro bexI [of _ B']) (auto simp: holds_ok_def kv_ok_def kv_core_def found_at_boot_def)

text \<open>Erasing the spare bank makes a restart take the active one, unless nothing happened at all.\<close>

lemma spare_erased:
  assumes ok: "kv_ok s x0 x1 C B" and act: "active_bank s = b"
    and keep: "pick b y0 y1 = pick b x0 x1" and len: "length y0 = bank_size s" "length y1 = bank_size s"
    and part: "erased_partly (pick (other_bank b) x0 x1) (pick (other_bank b) y0 y1)"
  shows "kv_ok s y0 y1 C B \<or> kv_ok s y0 y1 C C"
proof -
  have b: "b = 0 \<or> b = 1" and n: "0 < bank_size s" using ok act
    by (auto simp: kv_ok_def kv_core_def ram_ok_def publish_256)
  have lens: "length x0 = bank_size s" "length x1 = bank_size s" using ok by (simp_all add: kv_ok_def kv_core_def)
  show ?thesis
  proof (cases "pick (other_bank b) y0 y1 = pick (other_bank b) x0 x1")
    case True
    then have "y0 = x0 \<and> y1 = x1" using keep b by (auto simp: pick_def other_bank_def split: if_splits)
    then show ?thesis using ok by simp
  next
    case False
    then have "pick (other_bank b) y0 y1 ! 0 = 0xFF" "pick (other_bank b) y0 y1 \<noteq> []"
      using part unfolding erased_partly_def by (auto simp: hd_conv_nth)
    then have none: "validate_bank_buffer (pick (other_bank b) y0 y1) (bank_size s) = None" by (rule validate_erased_front)
    obtain m d q where m: "bank_holds (kv_append_size s) (pick b x0 x1) (bank_size s) m C d q"
      using ok act unfolding kv_ok_def kv_core_def active_ok_def by blast
    have c: "choice (bank_size s) y0 y1 = b"
      using choice_active [OF _ b none] bank_holds_valid [OF m] keep by simp
    moreover have "boots (kv_append_size s) (bank_size s) y0 y1 C"
      using bootsI [OF c] m keep by simp
    ultimately show ?thesis using ok act keep len by (simp add: kv_ok_def kv_core_def kv_clean_def)
  qed
qed

lemma prepare_outcome:
  assumes e: "online e" "kv_placed s e" "powered (s_storage e)" and ok: "holds_ok med s e C B"
    and run: "hal_kv_prepare_ex s e = (e', status)"
  shows "outcome med powered s e s e' C B False \<and> online e' \<and> nothing_new s e' C B"
proof -
  let ?o = "other_bank (active_bank s)" and ?n = "bank_size s"
  have ready: "kv_mutex s" "kv_ready s" using e(2) by (simp_all add: kv_placed_def)
  have ram: "ram_ok s" using holds_okD(1) [OF ok] .
  then have act: "active_bank s = 0 \<or> active_bank s = 1" by (simp add: ram_ok_def)
  note o = pick_other [OF act]
  have base: "bank_base s (if active_bank s = 0 then 1 else 0) = kv_base s + ?o * ?n"
    using bank_base_placed [OF e(2), of ?o] o by (simp add: other_bank_def split: if_splits)
  note geo = placed_kept [OF e(1,2)]
  have fits: "kv_base s + ?o * ?n + ?n \<le> s_size e"
    using e(2) o by (auto simp: kv_placed_def other_bank_def split: if_splits)
  consider (same) "e' = e" | (erase) "jh_eeprom_erase_region e (kv_base s + ?o * ?n) ?n = (e', status)"
    using run ready unfolding hal_kv_prepare_ex_def base Let_def by (auto split: prod.splits if_splits)
  then show ?thesis
  proof cases
    case same
    then show ?thesis using outcome_same [OF e ok, of False] nothing_newI [OF e(2) ok] e(1) by simp
  next
    case erase
    have "erase_size dvd kv_base s + ?o * ?n" "erase_size dvd ?n" "0 < ?n" using geo by simp_all
    from facade_erase [OF e(1) fits this(3,1,2) erase] erased_fully [OF this(3)] obtain new where new: "online e'"
      "changes med powered e e' (kv_base s + ?o * ?n) new" "length new = ?n"
      "erased_partly (subarr (kv_base s + ?o * ?n) ?n (med (s_storage e))) new" by (metis (full_types))
    have ch: "changes med powered e e' (kv_base s + ?o * ?n + 0) new" "0 + length new \<le> ?n"
      "?o = 0 \<or> ?o = 1" using new o by simp_all
    note seg = seg_changed [OF e(1,2) ch(3,1,2) same_place_refl]
    have len: "length (kv_seg med s e b) = ?n" if "b = 0 \<or> b = 1" for b
      using seg_length [OF e(1,2)] that by auto
    have y: "kv_seg med s e' ?o = new" "kv_seg med s e' (active_bank s) = kv_seg med s e (active_bank s)"
      using seg new(3) len [of ?o] o by (simp_all add: blit_def)
    have lens: "length (kv_seg med s e' 0) = ?n" "length (kv_seg med s e' 1) = ?n"
      using y new(3) len act by (auto simp: other_bank_def split: if_splits)
    note pk = kv_seg_pick [OF act] kv_seg_pick [of ?o]
    have "kv_ok s (kv_seg med s e' 0) (kv_seg med s e' 1) C B \<or> kv_ok s (kv_seg med s e' 0) (kv_seg med s e' 1) C C"
    proof (rule spare_erased [OF ok [unfolded holds_ok_def] refl _ lens])
      show "pick (active_bank s) (kv_seg med s e' 0) (kv_seg med s e' 1) = pick (active_bank s) (kv_seg med s e 0) (kv_seg med s e 1)"
        using y(2) pk(1) by metis
      show "erased_partly (pick ?o (kv_seg med s e 0) (kv_seg med s e 1)) (pick ?o (kv_seg med s e' 0) (kv_seg med s e' 1))"
        using new(4) y(1) pk(2) o unfolding kv_seg_def by metis
    qed
    then obtain B' where B': "B' \<in> {B, C}" "holds_ok med s e' C B'" unfolding holds_ok_def by blast
    have "found_at_boot med s e' B'" using B'(2) by (simp add: holds_ok_def kv_ok_def kv_core_def found_at_boot_def)
    then have "outcome med powered s e s e' C B False"
      using B' ram e changes_placed [OF new(2) same_place_refl e(2)]
      by (intro outcome_poweredI [where C' = C and B' = B']) auto
    moreover have "nothing_new s e' C B"
      using nothing_newI [OF _ B'(2,1)] changes_placed [OF new(2) same_place_refl e(2)] by blast
    ultimately show ?thesis using new(1) by simp
  qed
qed

section \<open>One request\<close>

lemma deferred_mutation:
  assumes "kv_placed s e" "holds_core med s e C B" "finish_mutation_locked s e = (s', e', status)" "\<not> auto_commit s"
  shows "nothing_new s' e' C B"
proof -
  have s': "s' = s\<lparr>kv_dirty := True\<rparr>" "e' = e" using assms(3,4) by (simp_all add: finish_mutation_locked_def)
  show ?thesis unfolding s' by (rule nothing_newI [OF _ holds_core_dirty [OF assms(2)]]) (use assms(1) in \<open>simp_all add: dirty_kept\<close>)
qed

lemma deferred_no_change:
  assumes "kv_placed s e" "holds_ok med s e C B" "finish_no_change_locked s e = (s', e', status)" "\<not> auto_commit s"
  shows "nothing_new s' e' C B"
proof -
  have s': "s' = s" "e' = e" using assms(3,4) by (simp_all add: finish_no_change_locked_def)
  show ?thesis unfolding s' using nothing_newI [OF assms(1,2)] by simp
qed

text \<open>A value that fits is not refused.\<close>

lemma fits_room:
  assumes "ram_ok u" "contents u = kv_spec r (contents s)" "bank_size u = bank_size s"
  shows "has_room r s"
  using kv_bytes_bound [OF assms(1)] card_dom_contents [OF assms(1)] unfolding has_room_def assms(2,3) by blast

lemma set_nothing_new:
  assumes e: "kv_placed s e" and ok: "holds_ok med s e C B" and t: "t = KV_REC_TYPE_BLOB \<or> t = KV_REC_TYPE_U32 \<and> length d = 4"
    and run: "set_blob_locked s e k t d = (s', e', status)"
    and spec: "kv_spec r (contents s) = (contents s)(k \<mapsto> (t, d))" and quiet: "\<not> (auto_commit s \<and> has_room r s)"
  shows "nothing_new s' e' C B"
proof (cases rule: set_blob_run [OF e ok t run])
  case 1
  then show ?thesis using nothing_newI [OF e ok] by simp
next
  case 2
  have "has_room r s" by (rule fits_room [OF holds_okD(1) [OF ok]]) (use spec 2(1) in simp_all)
  then show ?thesis using deferred_no_change [OF e ok 2(2)] quiet by blast
next
  case (3 u)
  have u: "ram_ok u" "bank_size u = bank_size s" "auto_commit u = auto_commit s"
    using 3(2,4) by (simp_all add: same_place_def holds_core_def kv_core_def)
  have "has_room r s" by (rule fits_room [OF u(1)]) (use spec 3(5) u(2) in simp_all)
  then show ?thesis using deferred_mutation [OF 3(3,4,1)] quiet u(3) by blast
qed

lemma kv_exec_nothing_new:
  assumes e: "online e" "kv_placed s e" "powered (s_storage e)" and ok: "holds_ok med s e C B"
    and r: "\<not> (\<exists>on. r = Set_auto_commit on \<or> r = Set_read_through on)"
    and run: "kv_exec r s e = (s', e', status)" and quiet: "\<not> (durable r s \<and> has_room r s)"
  shows "nothing_new s' e' C B"
proof -
  have ready: "kv_mutex s" "kv_ready s" using e(2) by (simp_all add: kv_placed_def)
  have ram: "ram_ok s" using holds_okD(1) [OF ok] .
  show ?thesis
  proof (cases r)
    case (Set_u32 k v)
    then have "set_blob_locked s e k KV_REC_TYPE_U32 (u32_bytes v) = (s', e', status)"
      using run ready by (simp add: hal_kv_set_u32_ex_def u32_bytes_def)
    from set_nothing_new [OF e(2) ok _ this, of r] show ?thesis using Set_u32 quiet by simp
  next
    case (Set_blob k d)
    then have "set_blob_locked s e k KV_REC_TYPE_BLOB d = (s', e', status)"
      using run ready by (simp add: hal_kv_set_blob_ex_def)
    from set_nothing_new [OF e(2) ok _ this, of r] show ?thesis using Set_blob quiet by simp
  next
    case (Delete k)
    have "has_room r s" using has_room_kept [OF ram, of r] Delete by auto
    then have auto: "\<not> auto_commit s" using quiet Delete by simp
    have del: "delete_locked s e k = (s', e', status)" using run ready Delete by (simp add: hal_kv_delete_ex_def)
    show ?thesis
    proof (cases rule: delete_run [OF e(2) ok del])
      case 1
      show ?thesis by (rule deferred_no_change [OF e(2) ok 1(2) auto])
    next
      case (2 u)
      then show ?thesis using deferred_mutation [OF 2(3,4,1)] auto by (simp add: same_place_def)
    qed
  next
    case Collect
    have "has_room r s" using has_room_kept [OF ram, of r] Collect by simp
    then have auto: "\<not> auto_commit s" using quiet Collect by simp
    have "s\<lparr>kv_index := kv_index s\<rparr> = s" by simp
    then obtain body where c: "compact_now (compact_locked s) body" "same_place s (compact_locked s)" "holds_core med (compact_locked s) e C B"
      using compact_locked_core [OF ram, of e C B] holds_okD(2) [OF ok] by metis
    then have s': "s' = compact_locked s" "e' = e"
      using run Collect auto ready by (simp_all add: hal_kv_gc_ex_def Let_def same_place_def)
    have "(compact_locked s)\<lparr>kv_dirty := True\<rparr> = compact_locked s" using c(1) by (simp add: compact_now_def)
    then have "holds_ok med (compact_locked s) e C B" using holds_core_dirty [OF c(3)] by simp
    moreover have "kv_placed (compact_locked s) e" using c(2) e(2) by (simp add: same_place_def kv_placed_def)
    ultimately show ?thesis unfolding s' by (intro nothing_newI [where B' = B]) simp_all
  next
    case Commit
    then show ?thesis using has_room_kept [OF ram, of r] quiet by simp
  next
    case Prepare
    then have p: "hal_kv_prepare_ex s e = (e', status)" and s': "s' = s"
      using run by (auto split: prod.splits)
    from prepare_outcome [OF e ok p] show ?thesis unfolding s' by blast
  qed (use r in simp_all)
qed

lemma kv_exec_outcome:
  assumes e: "online e" "kv_placed s e" "powered (s_storage e)" and ok: "holds_ok med s e C B"
    and r: "\<not> (\<exists>on. r = Set_auto_commit on \<or> r = Set_read_through on)"
    and run: "kv_exec r s e = (s', e', status)"
  shows "outcome med powered s e s' e' C B (status = HAL_OK \<and> durable r s) \<and> online e' \<and>
    contents s' \<in> {contents s, kv_spec r (contents s)} \<and> (status = HAL_OK \<longrightarrow> contents s' = kv_spec r (contents s))"
proof -
  have ready: "kv_mutex s" "kv_ready s" using e(2) by (simp_all add: kv_placed_def)
  show ?thesis
  proof (cases r)
    case (Set_u32 k v)
    then have "set_blob_locked s e k KV_REC_TYPE_U32 (u32_bytes v) = (s', e', status)"
      using run ready by (simp add: hal_kv_set_u32_ex_def u32_bytes_def)
    from set_blob_outcome [OF e ok _ this] show ?thesis using Set_u32 by simp
  next
    case (Set_blob k d)
    then have "set_blob_locked s e k KV_REC_TYPE_BLOB d = (s', e', status)"
      using run ready by (simp add: hal_kv_set_blob_ex_def)
    from set_blob_outcome [OF e ok _ this] show ?thesis using Set_blob by simp
  next
    case (Delete k)
    then have "delete_locked s e k = (s', e', status)" using run ready by (simp add: hal_kv_delete_ex_def)
    from delete_outcome [OF e ok this] show ?thesis using Delete by simp
  next
    case Collect
    then have "hal_kv_gc_ex s e = (s', e', status)" using run by simp
    from gc_outcome [OF e ok this] show ?thesis using Collect by simp
  next
    case Commit
    then have "commit_locked s e = (s', e', status)" using run ready by (simp add: hal_kv_commit_ex_def)
    from commit_locked_outcome [OF e ok this] show ?thesis using Commit by simp
  next
    case Prepare
    then have p: "hal_kv_prepare_ex s e = (e', status)" and s': "s' = s"
      using run by (auto split: prod.splits)
    from prepare_outcome [OF e ok p] show ?thesis using Prepare unfolding s' by simp
  qed (use r in simp_all)
qed

text \<open>What holds of a store in use: what a restart finds is in the history.\<close>

definition kv_inv :: "kv \<Rightarrow> 'p eeprom \<Rightarrow> kv_contents set \<Rightarrow> bool" where
  "kv_inv s e H \<longleftrightarrow> online e \<and> ram_ok s \<and> kv_placed s e \<and> (\<exists>B \<in> H. found_at_boot med s e B) \<and>
     (powered (s_storage e) \<longrightarrow> (\<exists>C \<in> H. \<exists>B \<in> H. holds_ok med s e C B))"

lemma outcome_inv:
  assumes out: "outcome med powered s e s' e' C B acked" "online e'" "powered (s_storage e)" and H: "C \<in> H" "B \<in> H"
  shows "kv_inv s' e' (if acked \<and> powered (s_storage e') then {contents s'} else insert (contents s') H)"
proof -
  obtain C' B' where o: "C' \<in> {C, contents s'}" "B' \<in> {B, C, contents s'}" "ram_ok s'" "kv_placed s' e'"
    "found_at_boot med s' e' B'" "powered (s_storage e') \<longrightarrow> holds_ok med s' e' C' B'"
    "powered (s_storage e') \<and> acked \<longrightarrow> C' = contents s' \<and> B' = contents s'"
    using out(1,3) unfolding outcome_def by blast
  show ?thesis
  proof (cases "acked \<and> powered (s_storage e')")
    case True
    then show ?thesis using o out(2) by (simp add: kv_inv_def)
  next
    case False
    have "C' \<in> insert (contents s') H" "B' \<in> insert (contents s') H" using o(1,2) H by auto
    then show ?thesis using False o out(2) unfolding kv_inv_def by auto
  qed
qed

lemma nothing_new_inv:
  assumes "nothing_new s e C B" "online e" "C \<in> H" "B \<in> H"
  shows "kv_inv s e H"
  using assms unfolding nothing_new_def kv_inv_def by auto

lemma settings_kept:
  assumes "s' = s\<lparr>auto_commit := a, read_through := t\<rparr>"
  shows "ram_ok s' = ram_ok s" "kv_placed s' e = kv_placed s e" "contents s' = contents s"
    "found_at_boot med s' e B = found_at_boot med s e B" "holds_ok med s' e C B = holds_ok med s e C B"
  unfolding assms by (simp_all add: ram_ok_def kv_placed_def contents_def found_at_boot_def holds_ok_def kv_ok_def
      kv_core_def kv_clean_def active_ok_def pending_def kv_seg_def)

lemma kv_exec_inv:
  assumes inv: "kv_inv s e H" "powered (s_storage e)" and run: "kv_exec r s e = (s', e', status)"
  shows "kv_inv s' e' (kv_history r s status (powered (s_storage e')) (contents s') H) \<and>
    contents s' \<in> {contents s, kv_spec r (contents s)} \<and> (status = HAL_OK \<longrightarrow> contents s' = kv_spec r (contents s))"
proof (cases "\<exists>on. r = Set_auto_commit on \<or> r = Set_read_through on")
  case True
  have ready: "kv_mutex s" using inv(1) by (simp add: kv_inv_def kv_placed_def)
  obtain a t where s': "s' = s\<lparr>auto_commit := a, read_through := t\<rparr>" "e' = e"
  proof -
    obtain on where "r = Set_auto_commit on \<or> r = Set_read_through on" using True by blast
    then have "s' = s\<lparr>auto_commit := on, read_through := read_through s\<rparr> \<and> e' = e \<or>
        s' = s\<lparr>auto_commit := auto_commit s, read_through := on\<rparr> \<and> e' = e"
      using run ready by (auto simp: hal_kv_set_auto_commit_def hal_kv_set_read_through_def)
    then show thesis using that by blast
  qed
  have "kv_inv s' e' H"
    using inv(1) unfolding kv_inv_def s'(2) settings_kept [OF s'(1)] by simp
  moreover have "\<not> durable r s" using True by auto
  ultimately show ?thesis using True settings_kept(3) [OF s'(1)] by (auto simp: kv_history_def)
next
  case False
  obtain C B where ok: "C \<in> H" "B \<in> H" "holds_ok med s e C B" using inv unfolding kv_inv_def by blast
  have e: "online e" "kv_placed s e" using inv(1) by (simp_all add: kv_inv_def)
  note out = kv_exec_outcome [OF e inv(2) ok(3) False run]
  have "kv_inv s' e' (kv_history r s status (powered (s_storage e')) (contents s') H)"
  proof (cases "status = HAL_OK \<and> durable r s \<and> powered (s_storage e') \<or> durable r s \<and> has_room r s")
    case True
    then show ?thesis using outcome_inv [OF conjunct1 [OF out] _ inv(2) ok(1,2)] out by (auto simp: kv_history_def split: if_splits)
  next
    case quiet: False
    then have "nothing_new s' e' C B" using kv_exec_nothing_new [OF e inv(2) ok(3) False run] by blast
    from nothing_new_inv [OF this _ ok(1,2)] show ?thesis using quiet out unfolding kv_history_def by auto
  qed
  then show ?thesis using out by blast
qed

text \<open>A number that fits, set while changes are deferred, is in the map at once; the medium is not touched.\<close>

lemma deferred_set:
  assumes inv: "kv_inv s e H" "powered (s_storage e)" and fits: "\<not> auto_commit s" "has_room (Set_u32 k v) s"
  obtains s' where "kv_exec (Set_u32 k v) s e = (s', e, HAL_OK)" "contents s' = (contents s)(k \<mapsto> (KV_REC_TYPE_U32, u32_bytes v))"
    "same_place s s'" "contents s' \<noteq> contents s \<longrightarrow> kv_dirty s'"
proof -
  obtain s' e' st where run: "kv_exec (Set_u32 k v) s e = (s', e', st)" by (cases "kv_exec (Set_u32 k v) s e")
  obtain C B where ok: "holds_ok med s e C B" and e: "kv_placed s e" using inv unfolding kv_inv_def by blast
  have set: "set_blob_locked s e k KV_REC_TYPE_U32 (u32_bytes v) = (s', e', st)"
    using run e by (simp add: hal_kv_set_u32_ex_def u32_bytes_def kv_placed_def)
  have t: "KV_REC_TYPE_U32 = KV_REC_TYPE_BLOB \<or> KV_REC_TYPE_U32 = KV_REC_TYPE_U32 \<and> length (u32_bytes v) = 4" by simp
  show thesis
  proof (cases rule: set_blob_run [OF e ok t set])
    case 1
    then show thesis using fits(2) by (simp add: has_room_def)
  next
    case 2
    then have "s' = s" "e' = e" "st = HAL_OK" using fits(1) by (simp_all add: finish_no_change_locked_def)
    then show thesis using that [of s] run 2(1) by (simp add: same_place_def)
  next
    case (3 u)
    have "\<not> auto_commit u" using 3(2) fits(1) by (simp add: same_place_def)
    then have "s' = u\<lparr>kv_dirty := True\<rparr>" "e' = e" "st = HAL_OK" using 3(1) by (simp_all add: finish_mutation_locked_def)
    then show thesis using that [of s'] run 3(2,5) by (simp add: same_place_def contents_def)
  qed
qed

lemma kv_exec_place:
  assumes inv: "kv_inv s e H" "powered (s_storage e)" and run: "kv_exec r s e = (s', e', status)"
  shows "kv_base s' = kv_base s \<and> bank_size s' = bank_size s"
proof (cases "\<exists>on. r = Set_auto_commit on \<or> r = Set_read_through on")
  case True
  then show ?thesis using run by (auto simp: hal_kv_set_auto_commit_def hal_kv_set_read_through_def split: if_splits)
next
  case False
  obtain C B where ok: "holds_ok med s e C B" using inv unfolding kv_inv_def by blast
  have "online e" "kv_placed s e" using inv(1) by (simp_all add: kv_inv_def)
  from kv_exec_outcome [OF this inv(2) ok False run] show ?thesis by (auto simp: outcome_def same_place_def)
qed

end

end
