(* ===== verification/Kv_Mount.thy ===== *)
theory Kv_Mount
  imports Kv_Exec
begin

text \<open>
  Starting the store: it reads both banks, takes the valid one with the newer generation, replays
  its body and its log, and changes nothing. A medium without a valid bank is formatted. Whatever
  the medium holds, the start returns.
\<close>

section \<open>Reading the banks\<close>

lemma ready_kept:
  "ram_ok (s\<lparr>kv_ready := a, kv_dirty := d\<rparr>) = ram_ok s" "contents (s\<lparr>kv_ready := a, kv_dirty := d\<rparr>) = contents s"
  "active_ok (s\<lparr>kv_ready := a, kv_dirty := d\<rparr>) x C = active_ok s x C"
  by (simp_all add: ram_ok_def contents_def active_ok_def pending_def)

context kv_medium
begin

text \<open>A store that has its geometry and looks at two banks inside the medium.\<close>

definition looks_at :: "kv \<Rightarrow> 'p eeprom \<Rightarrow> bool" where
  "looks_at s e \<longleftrightarrow> online e \<and> powered (s_storage e) \<and> kv_base s + 2 * bank_size s \<le> s_size e \<and> s_size e < 65536 \<and>
     length (bank s) = HAL_KV_MAX_BANK_SIZE \<and> bank_size s \<le> HAL_KV_MAX_BANK_SIZE \<and>
     KV_PUBLISH_SIZE + KV_REC_OVERHEAD \<le> bank_size s"

lemma load_bank_ok:
  assumes s: "looks_at s e" and b: "b = 0 \<or> b = 1"
  shows "load_bank s e b = (s\<lparr>bank := blit (bank s) 0 (kv_seg med s e b)\<rparr>, HAL_OK)"
    and "looks_at (s\<lparr>bank := blit (bank s) 0 (kv_seg med s e b)\<rparr>) e"
    and "validate_bank_buffer (blit (bank s) 0 (kv_seg med s e b)) (bank_size s) =
      validate_bank_buffer (kv_seg med s e b) (bank_size s)"
    and "take (bank_size s) (blit (bank s) 0 (kv_seg med s e b)) = kv_seg med s e b"
    and "length (kv_seg med s e b) = bank_size s"
proof -
  have base: "bank_base s b = kv_base s + b * bank_size s" "kv_base s + b * bank_size s + bank_size s \<le> s_size e"
    using s b by (auto simp: looks_at_def bank_base_def cast16_def)
  then show len: "length (kv_seg med s e b) = bank_size s"
    using s by (simp add: kv_seg_def looks_at_def attached_def)
  show "load_bank s e b = (s\<lparr>bank := blit (bank s) 0 (kv_seg med s e b)\<rparr>, HAL_OK)"
    using s base facade_read [of e "kv_base s + b * bank_size s" "bank_size s" "bank s"]
    by (simp add: load_bank_def looks_at_def kv_seg_def)
  show "looks_at (s\<lparr>bank := blit (bank s) 0 (kv_seg med s e b)\<rparr>) e" using s len by (simp add: looks_at_def)
  show same: "take (bank_size s) (blit (bank s) 0 (kv_seg med s e b)) = kv_seg med s e b"
    using len s by (simp add: looks_at_def blit_def)
  show "validate_bank_buffer (blit (bank s) 0 (kv_seg med s e b)) (bank_size s) =
      validate_bank_buffer (kv_seg med s e b) (bank_size s)"
    using s len same by (intro validate_bank_buffer_cong) (simp_all add: looks_at_def publish_256)
qed

text \<open>The store after reading both banks, before it has chosen one.\<close>

definition geometry :: "kv \<Rightarrow> nat \<Rightarrow> nat \<Rightarrow> kv" where
  "geometry s base n = (reset_runtime_state_locked s)\<lparr>kv_append_size := append_size, kv_base := base, bank_size := n\<rparr>"

lemma geometry_simps [simp]:
  "kv_append_size (geometry s base n) = append_size" "kv_base (geometry s base n) = base" "bank_size (geometry s base n) = n"
  "auto_commit (geometry s base n) = auto_commit s" "read_through (geometry s base n) = read_through s"
  "kv_mutex (geometry s base n) = kv_mutex s" "length (bank (geometry s base n)) = HAL_KV_MAX_BANK_SIZE"
  "kv_seg med (geometry s base n) e 0 = subarr base n (med (s_storage e))"
  "kv_seg med (geometry s base n) e (Suc 0) = subarr (base + n) n (med (s_storage e))"
  by (simp_all add: geometry_def reset_runtime_state_locked_def kv_seg_def)

lemma both_loaded:
  assumes r: "looks_at r e"
  obtains r1 b where "load_bank r e 0 = (r1, HAL_OK)" "load_bank r1 e 1 = (r\<lparr>bank := b\<rparr>, HAL_OK)"
    "bank_size r1 = bank_size r" "looks_at (r\<lparr>bank := b\<rparr>) e"
    "validate_bank_buffer (bank r1) (bank_size r) = validate_bank_buffer (kv_seg med r e 0) (bank_size r)"
    "validate_bank_buffer b (bank_size r) = validate_bank_buffer (kv_seg med r e 1) (bank_size r)"
    "length (kv_seg med r e 0) = bank_size r" "length (kv_seg med r e 1) = bank_size r"
proof -
  let ?r1 = "r\<lparr>bank := blit (bank r) 0 (kv_seg med r e 0)\<rparr>"
  have zero: "(0::nat) = 0 \<or> (0::nat) = 1" and one: "(1::nat) = 0 \<or> (1::nat) = 1" by simp_all
  note load0 = load_bank_ok [OF r zero]
  have seg: "kv_seg med ?r1 e = kv_seg med r e" by (simp add: kv_seg_def fun_eq_iff)
  note load1 = load_bank_ok [OF load0(2) one, unfolded seg]
  show thesis
    by (rule that [of ?r1 "blit (bank ?r1) 0 (kv_seg med r e 1)"]) (use load0 load1 in simp_all)
qed

section \<open>Replaying a bank\<close>

lemma mount_bank_ok:
  assumes s: "looks_at s e" and b: "b = 0 \<or> b = 1" and a: "0 < kv_append_size s" "kv_append_size s dvd bank_size s"
    and holds: "bank_holds (kv_append_size s) (kv_seg med s e b) (bank_size s) m C d q"
  obtains s' where "mount_bank s e b m = Some (s', e, HAL_OK)" "same_place s s'" "active_bank s' = b" "ram_ok s'"
    "contents s' = C" "active_ok s' (kv_seg med s e b) C"
    "take (used_offset s') (bank s') = take (used_offset s') (kv_seg med s e b)"
proof -
  let ?n = "bank_size s" and ?x = "kv_seg med s e b" and ?a = "kv_append_size s"
  define w where "w = blit (bank s) 0 ?x"
  have s0: "looks_at (s\<lparr>active_bank := b\<rparr>) e" using s by (simp add: looks_at_def)
  have seg: "kv_seg med (s\<lparr>active_bank := b\<rparr>) e = kv_seg med s e" by (simp add: kv_seg_def fun_eq_iff)
  note load = load_bank_ok [OF s0 b, unfolded seg, simplified, folded w_def]
  have n: "24 \<le> ?n" "?n < 65536" "length w = HAL_KV_MAX_BANK_SIZE" "?n \<le> HAL_KV_MAX_BANK_SIZE" "?n \<le> length w"
    "KV_PUBLISH_SIZE + KV_REC_OVERHEAD \<le> ?n"
    using s load(2) by (simp_all add: looks_at_def publish_256 HAL_KV_MAX_BANK_SIZE_def)
  have "take ?n w = take ?n ?x" using load(4,5) by simp
  from bank_holds_cong [OF holds a(1) n(1) this] n(5) load(5)
  have held: "bank_holds ?a w ?n m C d q" by simp
  obtain body batches c where h: "validate_bank_buffer w ?n = Some m"
    "meta_used_offset m = KV_PUBLISH_SIZE + length (encs body)" "\<forall>r \<in> set body. record_ok False r"
    "held w KV_PUBLISH_SIZE (encs body)"
    "chain ?a w (meta_used_offset m) (align ?a (meta_used_offset m)) batches c q" "q \<le> ?n" "log_ends d w ?n q"
    "roomy (body @ log_records batches) Map.empty" "C = replay (body @ log_records batches) Map.empty"
    using held by (auto simp: bank_holds_def)
  define s1 where "s1 = s\<lparr>active_bank := b, bank := w, kv_generation := meta_generation m, used_offset := meta_used_offset m,
      record_count := meta_record_count m, kv_index := replicate KV_MAX_KEYS empty_entry, next_seq := 1\<rparr>"
  have "\<exists>idx k. index_apply_range s1 KV_PUBLISH_SIZE (KV_PUBLISH_SIZE + length (encs body)) =
      (s1\<lparr>kv_index := idx, next_seq := k\<rparr>, HAL_OK) \<and>
      index_ok (bank s1) idx (KV_PUBLISH_SIZE + length (encs body)) \<and>
      kv_map (bank s1) idx = replay body (kv_map (bank s1) (kv_index s1))"
    using h(3,4,8) by (intro index_apply_encs) (simp_all add: s1_def roomy_append)
  then obtain idx k where ap: "index_apply_range s1 KV_PUBLISH_SIZE (meta_used_offset m) = (s1\<lparr>kv_index := idx, next_seq := k\<rparr>, HAL_OK)"
    "index_ok w idx (meta_used_offset m)" "kv_map w idx = replay body Map.empty"
    unfolding h(2) by (auto simp: s1_def)
  define s2 where "s2 = s1\<lparr>kv_index := idx, next_seq := k\<rparr>"
  have "\<exists>idx2 k2. scan_log_locked s2 (meta_used_offset m) =
      Some (s2\<lparr>kv_index := idx2, next_seq := k2, flash_end := q, used_offset := if d then c else q,
        needs_publish := d\<rparr>, HAL_OK) \<and>
      index_ok (bank s2) idx2 c \<and> kv_map (bank s2) idx2 = replay (log_records batches) (kv_map (bank s2) (kv_index s2))"
    using h a ap n by (intro scan_log_locked_chain) (simp_all add: s1_def s2_def roomy_append)
  then obtain idx2 k2 where sc: "scan_log_locked s2 (meta_used_offset m) =
      Some (s2\<lparr>kv_index := idx2, next_seq := k2, flash_end := q, used_offset := if d then c else q, needs_publish := d\<rparr>, HAL_OK)"
    "index_ok w idx2 c" "kv_map w idx2 = C"
    using h(9) ap(3) by (auto simp: s1_def s2_def replay_append)
  let ?s = "s2\<lparr>kv_index := idx2, next_seq := k2, flash_end := q, used_offset := if d then c else q, needs_publish := d\<rparr>"
  have bounds: "align ?a (meta_used_offset m) \<le> q" "c \<le> q" "meta_used_offset m \<le> c"
    using chain_bounds [OF h(5) a(1) align_ge [OF a(1)]] by auto
  show thesis
  proof (rule that [of ?s])
    show "mount_bank s e b m = Some (?s, e, HAL_OK)"
      using ap(1) sc(1) h(1) unfolding mount_bank_def load(1)
      by (simp add: hal_status_is_error_def s1_def s2_def)
    show "same_place s ?s" "active_bank ?s = b" by (simp_all add: same_place_def s1_def s2_def)
    show "contents ?s = C" using sc(3) by (simp add: contents_def s1_def s2_def)
    show "ram_ok ?s"
      using sc(2) bounds h(2,6) n a b index_ok_mono [OF sc(2) bounds(2)]
      by (simp add: ram_ok_def s1_def s2_def)
    have cut: "take i w = take i ?x" if "i \<le> ?n" for i
      using load(4) that by (metis min.absorb1 take_take)
    show "take (used_offset ?s) (bank ?s) = take (used_offset ?s) ?x"
      using cut h(6) bounds(2) by (simp add: s1_def s2_def)
    have "pending ?s C q []" if "\<not> d"
      using that sc(3) n h(6) by (simp add: pending_def contents_def held_def s1_def s2_def)
    then show "active_ok ?s ?x C"
      unfolding active_ok_def using holds cut [OF h(6)] by (intro exI conjI) (auto simp: s1_def s2_def)
  qed
qed

section \<open>Starting on a store that was there\<close>

lemma init_with_banks:
  assumes s: "kv_mutex s" and n: "n \<le> HAL_KV_MAX_BANK_SIZE" "KV_PUBLISH_SIZE + KV_REC_OVERHEAD \<le> n"
    and e: "hal_eeprom_size_ex e = (sz, HAL_OK)" "base + 2 * n \<le> sz" "jh_eeprom_append_size e = (append_size, HAL_OK)"
    and region: "region_status e base n KV_PUBLISH_SIZE = HAL_OK"
    and load: "load_bank (geometry s base n) e 0 = (r1, HAL_OK)" "load_bank r1 e 1 = (r2, HAL_OK)" "bank_size r1 = n" "bank_size r2 = n"
    and valid: "validate_bank_buffer (bank r1) n = m0" "validate_bank_buffer (bank r2) n = m1"
  shows "hal_kv_init_ex s e base (2 * n) =
    (case (if m0 = None \<and> m1 = None then Some (format_banks r2 e)
           else mount_bank r2 e (choose_bank m0 m1) (the (if choose_bank m0 m1 = 0 then m0 else m1))) of
       None \<Rightarrow> None
     | Some (s, e, status) \<Rightarrow> if hal_status_is_error status then Some (s, e, status)
         else Some (s\<lparr>kv_ready := True, kv_dirty := False\<rparr>, e, HAL_OK))"
proof -
  have "n \<noteq> 0" using n(2) by (simp add: publish_256)
  moreover have "\<not> hal_status_is_error HAL_OK" by (simp add: hal_status_is_error_def)
  ultimately show ?thesis
    unfolding hal_kv_init_ex_def using s n e region load valid
    by (simp add: jh_eeprom_validate_region_def Let_def geometry_def)
qed

lemma mount_ok:
  assumes e: "online e" "powered (s_storage e)" and s: "kv_mutex s"
    and n: "n \<le> HAL_KV_MAX_BANK_SIZE" "KV_PUBLISH_SIZE + KV_REC_OVERHEAD \<le> n" "base + 2 * n \<le> s_size e" "s_size e < 65536"
    and region: "region_status e base n KV_PUBLISH_SIZE = HAL_OK"
    and found: "boots append_size n (subarr base n (med (s_storage e))) (subarr (base + n) n (med (s_storage e))) B"
  obtains s' where "hal_kv_init_ex s e base (2 * n) = Some (s', e, HAL_OK)" "kv_placed s' e" "kv_base s' = base" "bank_size s' = n"
    "auto_commit s' = auto_commit s" "read_through s' = read_through s" "\<not> kv_dirty s'"
    "contents s' = B" "holds_ok med s' e B B"
proof -
  let ?r = "geometry s base n"
  have r: "looks_at ?r e" using e n by (simp add: looks_at_def)
  let ?x0 = "kv_seg med ?r e 0" and ?x1 = "kv_seg med ?r e 1"
  let ?c = "choice n ?x0 ?x1"
  obtain m d q where holds: "bank_holds append_size (pick ?c ?x0 ?x1) n m B d q"
    using found unfolding boots_def by auto
  have c: "?c = 0 \<or> ?c = 1" by (simp add: choice_def choose_bank_def split: option.split)
  have pk: "pick ?c ?x0 ?x1 = kv_seg med ?r e ?c" by (rule kv_seg_pick [OF c, symmetric])
  obtain r1 b where load: "load_bank ?r e 0 = (r1, HAL_OK)" "load_bank r1 e 1 = (?r\<lparr>bank := b\<rparr>, HAL_OK)"
    "bank_size r1 = bank_size ?r" "looks_at (?r\<lparr>bank := b\<rparr>) e"
    "validate_bank_buffer (bank r1) (bank_size ?r) = validate_bank_buffer ?x0 (bank_size ?r)"
    "validate_bank_buffer b (bank_size ?r) = validate_bank_buffer ?x1 (bank_size ?r)"
    "length ?x0 = bank_size ?r" "length ?x1 = bank_size ?r" by (rule both_loaded [OF r])
  let ?r2 = "?r\<lparr>bank := b\<rparr>"
  have seg1: "kv_seg med ?r2 e = kv_seg med ?r e" by (simp add: kv_seg_def fun_eq_iff)
  have r2: "bank_size ?r2 = n" "kv_append_size ?r2 = append_size" by simp_all
  have "append_size dvd n"
    using region append_size(2) e(1) unfolding region_status_OK attached_def by (auto intro: dvd_trans)
  note mount = mount_bank_ok [OF load(4) c, unfolded r2 seg1, OF append_size(1) this holds [unfolded pk]]
  obtain s' where s': "mount_bank ?r2 e ?c m = Some (s', e, HAL_OK)" "same_place ?r2 s'" "active_bank s' = ?c" "ram_ok s'"
    "contents s' = B" "active_ok s' (kv_seg med ?r e ?c) B"
    "take (used_offset s') (bank s') = take (used_offset s') (kv_seg med ?r e ?c)" by (rule mount)
  have valid: "validate_bank_buffer (kv_seg med ?r e ?c) n = Some m" using bank_holds_valid [OF holds] pk by simp
  have some: "\<not> (validate_bank_buffer ?x0 n = None \<and> validate_bank_buffer ?x1 n = None)"
    "the (if ?c = 0 then validate_bank_buffer ?x0 n else validate_bank_buffer ?x1 n) = m"
    using valid c by auto
  have v: "validate_bank_buffer (bank r1) n = validate_bank_buffer ?x0 n"
    "validate_bank_buffer (bank ?r2) n = validate_bank_buffer ?x1 n" using load(5,6) by simp_all
  let ?s = "s'\<lparr>kv_ready := True, kv_dirty := False\<rparr>"
  have sz: "hal_eeprom_size_ex e = (s_size e, HAL_OK)" "jh_eeprom_append_size e = (append_size, HAL_OK)"
    using e(1) by (simp_all add: hal_eeprom_size_ex_def jh_eeprom_append_size_def attached_def)
  have place: "kv_base s' = base" "bank_size s' = n" "kv_append_size s' = append_size" "auto_commit s' = auto_commit s"
    "read_through s' = read_through s" "kv_mutex s'" using s'(2) s by (simp_all add: same_place_def)
  show thesis
  proof (rule that [of ?s])
    have "bank_size r1 = n" using load(3) by simp
    from init_with_banks [OF s n(1,2) sz(1) n(3) sz(2) region load(1,2) this r2(1) v] some s'(1)
    show "hal_kv_init_ex s e base (2 * n) = Some (?s, e, HAL_OK)"
      by (simp only: choice_def if_False option.case prod.case hal_status_is_error_def simp_thms)
    show "kv_placed ?s e" using place region n e(1) by (simp add: kv_placed_def attached_def)
    show "kv_base ?s = base" "bank_size ?s = n" "auto_commit ?s = auto_commit s" "read_through ?s = read_through s"
      using place by simp_all
    show "\<not> kv_dirty ?s" "contents ?s = B" using s'(5) by (simp_all add: contents_def)
    have segs: "kv_seg med ?s e = kv_seg med ?r e"
      using place by (simp add: kv_seg_def fun_eq_iff)
    have "found_at_boot med ?s e B" using found place unfolding found_at_boot_def segs by simp
    then show "holds_ok med ?s e B B"
      using load(7,8) place(2) s'(3-7) by (intro holds_ok_active) (simp_all add: ready_kept segs)
  qed
qed

section \<open>Starting on a medium without a store\<close>

text \<open>The flag that tells the callers that the store is up plays no part in committing.\<close>

lemma publish_ready:
  "publish_full_locked (s\<lparr>kv_ready := r\<rparr>) e = (case publish_full_locked s e of (s', e', st) \<Rightarrow> (s'\<lparr>kv_ready := r\<rparr>, e', st))"
  by (simp add: publish_full_locked_def prepare_bank_header_def bank_base_def align_up_def Let_def split: prod.split)

text \<open>The state that formatting commits, and formatting as one publication of it.\<close>

definition blank_store :: "kv \<Rightarrow> kv" where
  "blank_store s = s\<lparr>bank := blit (bank s) 0 (replicate (bank_size s) 0xFF),
      kv_index := replicate KV_MAX_KEYS empty_entry, active_bank := 1, used_offset := KV_PUBLISH_SIZE,
      record_count := 0, kv_generation := 0, next_seq := 1, kv_dirty := True, needs_publish := True, kv_ready := True\<rparr>"

lemma format_banks_run:
  "format_banks s e = (case publish_full_locked (compact_locked (blank_store s)) e of (s', e', st) \<Rightarrow>
     if hal_status_is_error st then (reset_runtime_state_locked (s'\<lparr>kv_ready := kv_ready s\<rparr>), e', st)
     else (s'\<lparr>kv_ready := kv_ready s\<rparr>, e', HAL_OK))"
proof -
  have eq: "(blank_store s)\<lparr>kv_ready := kv_ready s\<rparr> = s\<lparr>bank := blit (bank s) 0 (replicate (bank_size s) 0xFF),
      kv_index := replicate KV_MAX_KEYS empty_entry, active_bank := 1, used_offset := KV_PUBLISH_SIZE,
      record_count := 0, kv_generation := 0, next_seq := 1, kv_dirty := True, needs_publish := True\<rparr>"
    by (simp add: blank_store_def)
  have "compact_locked ((blank_store s)\<lparr>kv_ready := kv_ready s\<rparr>) = (compact_locked (blank_store s))\<lparr>kv_ready := kv_ready s\<rparr>"
    by (simp add: compact_locked_def Let_def split: prod.split)
  moreover have "kv_dirty (blank_store s)" "needs_publish (blank_store s)" by (simp_all add: blank_store_def)
  ultimately show ?thesis
    unfolding format_banks_def eq [symmetric] commit_locked_def by (simp add: publish_ready split: prod.split)
qed

lemma blank_store_ok:
  assumes s: "looks_at s e" "kv_mutex s" and a: "0 < kv_append_size s" "kv_append_size s dvd bank_size s"
      "kv_append_size s = append_size"
    and region: "region_status e (kv_base s) (bank_size s) KV_PUBLISH_SIZE = HAL_OK"
  shows "ram_ok (blank_store s)" "kv_placed (blank_store s) e"
  using assms by (simp_all add: blank_store_def ram_ok_def looks_at_def kv_placed_def attached_def)

lemma format_banks_ok:
  assumes s: "looks_at s e" "kv_mutex s" and a: "0 < kv_append_size s" "kv_append_size s dvd bank_size s"
      "kv_append_size s = append_size"
    and region: "region_status e (kv_base s) (bank_size s) KV_PUBLISH_SIZE = HAL_OK"
    and none: "validate_bank_buffer (kv_seg med s e 1) (bank_size s) = None"
    and run: "format_banks s e = (s', e', status)" and ok: "status = HAL_OK" "powered (s_storage e')"
  shows "online e' \<and> same_place (s\<lparr>kv_ready := True\<rparr>) (s'\<lparr>kv_ready := True\<rparr>) \<and> kv_placed (s'\<lparr>kv_ready := True\<rparr>) e' \<and>
    \<not> kv_dirty s' \<and> contents s' = Map.empty \<and> holds_ok med (s'\<lparr>kv_ready := True\<rparr>) e' Map.empty Map.empty"
proof -
  let ?s0 = "blank_store s"
  have ram0: "ram_ok ?s0" "kv_placed ?s0 e" by (rule blank_store_ok [OF s a region])+
  obtain body where t: "compact_now (compact_locked ?s0) body" "contents (compact_locked ?s0) = contents ?s0"
    "same_place ?s0 (compact_locked ?s0)" using compact_locked_core [OF ram0(1), of e undefined undefined] by blast
  let ?t = "compact_locked ?s0"
  have c: "contents ?t = Map.empty" "active_bank ?t = 1"
    using t(2) by (simp_all add: contents_def blank_store_def compact_locked_def Let_def split: prod.split)
  have place: "kv_placed ?t e" "online e" "same_place (s\<lparr>kv_ready := True\<rparr>) ?t" "bank_size ?t = bank_size s" "kv_base ?t = kv_base s"
    using t(3) s region a(3) unfolding kv_placed_def same_place_def looks_at_def attached_def by (simp_all add: blank_store_def)
  obtain v e1 st where v: "publish_full_locked ?t e = (v, e1, st)" by (cases "publish_full_locked ?t e")
  obtain b new where r: "length b = length (bank ?t)"
    "take (bank_size ?t) b = bank_front (bank_size ?t) (kv_generation ?t + 1) body @ bank_back (bank_size ?t) body"
    "ram_ok (?t\<lparr>bank := b\<rparr>)" "contents (?t\<lparr>bank := b\<rparr>) = contents ?t" "online e1"
    "changes med powered e e1 (kv_base ?t + other_bank (active_bank ?t) * bank_size ?t) new" "length new = bank_size ?t"
    "if powered (s_storage e1) \<and> st = HAL_OK then new = take (bank_size ?t) b
     else replaced_partly KV_PUBLISH_SIZE (kv_seg med ?t e (other_bank (active_bank ?t))) (take (bank_size ?t) b) new"
    "v = (if st = HAL_OK then published ?t b else ?t\<lparr>bank := b\<rparr>)" "st \<noteq> HAL_NONE"
    by (rule publish_run [OF place(2,1) t(1) v])
  have st: "st = HAL_OK" "e1 = e'" "s' = v\<lparr>kv_ready := kv_ready s\<rparr>"
    using run ok(1) r(10) unfolding format_banks_run v by (auto simp: hal_status_is_error_def split: if_splits)
  have s': "s'\<lparr>kv_ready := True\<rparr> = published ?t b" and new: "new = take (bank_size ?t) b"
    using r(8,9) ok(2) place(1) unfolding st(3) by (simp_all add: st(1,2) published_def kv_placed_def)
  have act: "active_bank ?t = 0 \<or> active_bank ?t = 1" "other_bank (active_bank ?t) = 0" using c(2) by (simp_all add: other_bank_def)
  note p = published_ram [OF r(3,4)]
  have ob: "other_bank 1 = 0" by (simp add: other_bank_def)
  note y = published_banks [OF place(2,1) act(1) p(3) r(6,7), unfolded st(2) c(2) ob]
  let ?y = "kv_seg med (published ?t b) e'"
  have seg: "kv_seg med ?t e = kv_seg med s e" using place(4,5) by (simp add: kv_seg_def fun_eq_iff)
  have b: "take (bank_size s) (take (bank_size s) b) = bank_front (bank_size s) (kv_generation ?t + 1) body @ bank_back (bank_size s) body"
    unfolding r(2) [unfolded place(4), symmetric] by simp
  have fit: "KV_PUBLISH_SIZE + length (encs body) \<le> bank_size s" "\<forall>r \<in> set body. record_ok False r" "roomy body Map.empty"
    using t(1) place(4) by (simp_all add: compact_now_def ram_ok_def)
  have "validate_bank_buffer (?y 0) (bank_size s) \<noteq> None"
    using bank_holds_valid [OF bank_holds_image [OF b _ fit(2,3,1) a(1,2)]] y(1) new p(6) place(4)
    by (simp add: pick_def)
  moreover have "?y 1 = kv_seg med s e 1" using y(2) seg by (simp add: pick_def)
  ultimately have "choice (bank_size s) (?y 0) (?y 1) = 0"
    using none by (auto simp: choice_def choose_bank_def)
  then have ok': "holds_ok med (published ?t b) e' Map.empty Map.empty"
    using published_ok [OF t(1) r(2-4), of "?y 0" "?y 1"] y new c act(2) place(4) unfolding holds_ok_def by simp
  have "kv_placed (published ?t b) e'" using changes_placed [OF r(6) p(3) place(1)] st(2) by simp
  moreover have "same_place (s\<lparr>kv_ready := True\<rparr>) (published ?t b)" using same_place_trans [OF place(3) p(3)] .
  moreover have "contents s' = contents (s'\<lparr>kv_ready := True\<rparr>)" "kv_dirty s' = kv_dirty (s'\<lparr>kv_ready := True\<rparr>)" by (simp_all add: contents_def)
  ultimately show ?thesis using ok' r(5) p(2) c(1) unfolding s' st(2) by (simp add: published_def)
qed

text \<open>A start on such a medium comes down to formatting.\<close>

lemma start_fresh:
  assumes e: "online e" "powered (s_storage e)" and s: "kv_mutex s"
    and n: "n \<le> HAL_KV_MAX_BANK_SIZE" "KV_PUBLISH_SIZE + KV_REC_OVERHEAD \<le> n" "base + 2 * n \<le> s_size e" "s_size e < 65536"
    and region: "region_status e base n KV_PUBLISH_SIZE = HAL_OK"
    and none: "validate_bank_buffer (subarr base n (med (s_storage e))) n = None"
      "validate_bank_buffer (subarr (base + n) n (med (s_storage e))) n = None"
  obtains b where "looks_at ((geometry s base n)\<lparr>bank := b\<rparr>) e" "append_size dvd n"
    "validate_bank_buffer (kv_seg med ((geometry s base n)\<lparr>bank := b\<rparr>) e 1) n = None"
    "hal_kv_init_ex s e base (2 * n) = (case format_banks ((geometry s base n)\<lparr>bank := b\<rparr>) e of (s', e', status) \<Rightarrow>
       Some (if hal_status_is_error status then (s', e', status)
         else (s'\<lparr>kv_ready := True, kv_dirty := False\<rparr>, e', HAL_OK)))"
proof -
  let ?r = "geometry s base n"
  have r: "looks_at ?r e" using e n by (simp add: looks_at_def)
  obtain r1 b where load: "load_bank ?r e 0 = (r1, HAL_OK)" "load_bank r1 e 1 = (?r\<lparr>bank := b\<rparr>, HAL_OK)"
    "bank_size r1 = bank_size ?r" "looks_at (?r\<lparr>bank := b\<rparr>) e"
    "validate_bank_buffer (bank r1) (bank_size ?r) = validate_bank_buffer (kv_seg med ?r e 0) (bank_size ?r)"
    "validate_bank_buffer b (bank_size ?r) = validate_bank_buffer (kv_seg med ?r e 1) (bank_size ?r)"
    by (rule both_loaded [OF r])
  let ?r2 = "?r\<lparr>bank := b\<rparr>"
  have r1: "bank_size r1 = n" "bank_size ?r2 = n" using load(3) by simp_all
  have v: "validate_bank_buffer (bank r1) n = None" "validate_bank_buffer (bank ?r2) n = None"
    using load(5,6) none by simp_all
  have sz: "hal_eeprom_size_ex e = (s_size e, HAL_OK)" "jh_eeprom_append_size e = (append_size, HAL_OK)"
    using e(1) by (simp_all add: hal_eeprom_size_ex_def jh_eeprom_append_size_def attached_def)
  have dvd: "append_size dvd n"
    using region append_size(2) e(1) unfolding region_status_OK attached_def by (auto intro: dvd_trans)
  have "validate_bank_buffer (kv_seg med ?r2 e 1) n = None" using none(2) by (simp add: kv_seg_def)
  then show thesis
    using that [OF load(4) dvd] init_with_banks [OF s n(1,2) sz(1) n(3) sz(2) region load(1,2) r1 v]
    by (simp split: prod.splits)
qed

lemma mount_fresh:
  assumes e: "online e" "powered (s_storage e)" and s: "kv_mutex s"
    and n: "n \<le> HAL_KV_MAX_BANK_SIZE" "KV_PUBLISH_SIZE + KV_REC_OVERHEAD \<le> n" "base + 2 * n \<le> s_size e" "s_size e < 65536"
    and region: "region_status e base n KV_PUBLISH_SIZE = HAL_OK"
    and none: "validate_bank_buffer (subarr base n (med (s_storage e))) n = None"
      "validate_bank_buffer (subarr (base + n) n (med (s_storage e))) n = None"
    and run: "hal_kv_init_ex s e base (2 * n) = Some (s', e', HAL_OK)" and powered: "powered (s_storage e')"
  shows "online e' \<and> kv_placed s' e' \<and> kv_base s' = base \<and> bank_size s' = n \<and> auto_commit s' = auto_commit s \<and>
    \<not> kv_dirty s' \<and> contents s' = Map.empty \<and> holds_ok med s' e' Map.empty Map.empty"
proof -
  obtain b where start: "looks_at ((geometry s base n)\<lparr>bank := b\<rparr>) e" "append_size dvd n"
    "validate_bank_buffer (kv_seg med ((geometry s base n)\<lparr>bank := b\<rparr>) e 1) n = None"
    "hal_kv_init_ex s e base (2 * n) = (case format_banks ((geometry s base n)\<lparr>bank := b\<rparr>) e of (s', e', status) \<Rightarrow>
       Some (if hal_status_is_error status then (s', e', status)
         else (s'\<lparr>kv_ready := True, kv_dirty := False\<rparr>, e', HAL_OK)))"
    by (rule start_fresh [OF e s n region none])
  let ?r2 = "(geometry s base n)\<lparr>bank := b\<rparr>"
  obtain t e1 st where f: "format_banks ?r2 e = (t, e1, st)" by (cases "format_banks ?r2 e")
  have res: "s' = t\<lparr>kv_ready := True, kv_dirty := False\<rparr>" "e1 = e'" "st = HAL_OK"
    using run start(4) f
    by (auto simp: hal_status_is_error_def format_banks_def split: if_splits prod.splits)
  have region': "region_status e (kv_base ?r2) (bank_size ?r2) KV_PUBLISH_SIZE = HAL_OK" using region by simp
  have none': "validate_bank_buffer (kv_seg med ?r2 e 1) (bank_size ?r2) = None" using start(3) by simp
  have "0 < kv_append_size ?r2" "kv_append_size ?r2 dvd bank_size ?r2" using append_size(1) start(2) by simp_all
  from format_banks_ok [OF start(1) _ this _ region' none' f res(3)] s powered
  have fin: "online e'" "same_place (?r2\<lparr>kv_ready := True\<rparr>) (t\<lparr>kv_ready := True\<rparr>)" "kv_placed (t\<lparr>kv_ready := True\<rparr>) e'"
    "\<not> kv_dirty t" "contents t = Map.empty" "holds_ok med (t\<lparr>kv_ready := True\<rparr>) e' Map.empty Map.empty"
    unfolding res(2) by simp_all
  have s': "s' = t\<lparr>kv_ready := True\<rparr>" using fin(4) unfolding res(1) by simp
  show ?thesis using fin unfolding s' by (simp add: same_place_def contents_def)
qed

end

end
