(* ===== verification/Kv_Read.thy ===== *)
theory Kv_Read
  imports Kv_Exec
begin

text \<open>
  Reading: from the RAM image, or, in read-through mode, from the medium with every check of the
  record repeated. Both return what the map says; and on a medium that has changed under the store, a read-through
  returns a value only if a whole record with the right key, type, length, sequence number and checksums is there.
\<close>

lemma load_le32_subarr: "off + 4 \<le> length b \<Longrightarrow> jh_load_le32 (drop off b) = jh_load_le32 (subarr off 4 b)"
  by (simp add: jh_load_le32_def nth_subarr)

text \<open>An entry of the index and the value the map has for its key.\<close>

lemma contents_entry:
  assumes ram: "ram_ok s"
  shows "contents s k = None \<and> index_find (kv_index s) k = None \<or>
    (\<exists>i. index_find (kv_index s) k = Some i \<and> entry_held (bank s) (kv_index s ! i) \<and>
       entry_stop (kv_index s ! i) \<le> used_offset s \<and> ie_key (kv_index s ! i) = k \<and>
       contents s k = Some (ie_type (kv_index s ! i), entry_val (bank s) (kv_index s ! i)))"
proof (cases "index_find (kv_index s) k")
  case None
  then show ?thesis by (simp add: contents_def kv_map_def)
next
  case (Some i)
  then have "i \<in> used_slots (kv_index s)" "ie_key (kv_index s ! i) = k" using index_find_Some by blast+
  then show ?thesis using ram Some by (auto simp: ram_ok_def index_ok_def contents_def kv_map_def)
qed

lemma entry_len:
  assumes "entry_held b en"
  shows "ie_type en = KV_REC_TYPE_U32 \<Longrightarrow> ie_len en = 4" "length (entry_val b en) = ie_len en"
    "payload_offset en + ie_len en + 2 \<le> length b" "16 \<le> payload_offset en"
proof -
  show len: "length (entry_val b en) = ie_len en" and "16 \<le> payload_offset en" using assms by (simp_all add: entry_held_def)
  have ok: "record_ok False (entry_rec b en)" and held: "held b (entry_start en) (enc (entry_rec b en))"
    using assms by (simp_all add: entry_held_def)
  show "ie_type en = KV_REC_TYPE_U32 \<Longrightarrow> ie_len en = 4"
  proof -
    assume "ie_type en = KV_REC_TYPE_U32"
    then have l: "ie_len en < 65536" "(of_nat (ie_len en) :: u16) = 4"
      using ok len by (simp_all add: entry_rec_def record_ok_def record_type_valid_def)
    then have "unat (of_nat (ie_len en) :: u16) = 4" by simp
    then show "ie_len en = 4" using l(1) by (simp add: unat_of_nat_less)
  qed
  show "payload_offset en + ie_len en + 2 \<le> length b"
    using held len \<open>16 \<le> payload_offset en\<close> by (simp add: held_def entry_rec_def entry_start_def)
qed

text \<open>The bytes of a record as a read expects them: the entry gives all but the value and the flags.\<close>

definition stored_record :: "kv_index_entry \<Rightarrow> u8 \<Rightarrow> bytes \<Rightarrow> bytes" where
  "stored_record en flags d =
     (let h = \<lparr>rh_magic = KV_REC_MAGIC, rh_key = ie_key en, rh_type = ie_type en, rh_flags = flags,
        rh_len = of_nat (ie_len en), rh_seq = ie_seq en, rh_payload_crc = crc16 d, rh_header_crc = 0\<rparr>
      in hdr_bytes (h\<lparr>rh_header_crc := record_header_crc h\<rparr>) @ d @ le16 KV_REC_FOOTER)"

text \<open>The value in the bank \<open>x\<close> at the place of an entry, if such a record is there.\<close>

definition checked_value :: "bytes \<Rightarrow> kv_index_entry \<Rightarrow> bytes option" where
  "checked_value x en =
     (let d = subarr (payload_offset en) (ie_len en) x in
      if subarr (entry_start en) (record_size (ie_len en)) x = stored_record en (x ! (entry_start en + 5)) d then Some d else None)"

text \<open>What the medium of a store has for a key, checked against the entry of the index.\<close>

definition medium_value :: "('p \<Rightarrow> bytes) \<Rightarrow> kv \<Rightarrow> 'p eeprom \<Rightarrow> u16 \<Rightarrow> bytes option" where
  "medium_value med s e k = checked_value (kv_seg med s e (active_bank s)) (kv_index s ! the (index_find (kv_index s) k))"

lemma checked_blank:
  assumes "set x \<subseteq> {0xFF}"
  shows "checked_value x en = None"
proof -
  have "hd (stored_record en f d) = 0x5A" "stored_record en f d \<noteq> []" for f d
    by (simp_all add: stored_record_def Let_def hdr_bytes_def le16_def KV_REC_MAGIC_def)
  then have "\<not> set (stored_record en f d) \<subseteq> {0xFF}" for f d
    using hd_in_set [of "stored_record en f d"] by auto
  moreover have "set (subarr m n x) \<subseteq> {0xFF}" for m n
    using assms set_take_subset [of n "drop m x"] set_drop_subset [of m x] unfolding subarr_def by blast
  ultimately show ?thesis unfolding checked_value_def Let_def by metis
qed

lemma record_checks:
  assumes h: "h = decode_record_header raw" "length raw = 16" and len: "n < 65536" "length d = n" "length f = 2"
    and en: "ie_len en = n"
  shows "(rh_magic h = KV_REC_MAGIC \<and> rh_key h = ie_key en \<and> rh_type h = ie_type en \<and> unat (rh_len h) = n \<and>
      rh_seq h = ie_seq en \<and> rh_header_crc h = record_header_crc h \<and> rh_payload_crc h = crc16 d \<and>
      jh_load_le16 f = KV_REC_FOOTER) \<longleftrightarrow> raw @ d @ f = stored_record en (raw ! 5) d"
proof -
  let ?g = "\<lparr>rh_magic = KV_REC_MAGIC, rh_key = ie_key en, rh_type = ie_type en, rh_flags = raw ! 5,
      rh_len = of_nat n, rh_seq = ie_seq en, rh_payload_crc = crc16 d, rh_header_crc = 0\<rparr>"
  let ?c = "?g\<lparr>rh_header_crc := record_header_crc ?g\<rparr>"
  have raw: "raw = hdr_bytes h" using hdr_bytes_decode [of raw] h by simp
  have "raw = hdr_bytes ?c \<longleftrightarrow> h = ?c"
    using decode_hdr_bytes [of ?c "[]"] h(1) raw by (metis append_Nil2)
  moreover have "h = ?c \<longleftrightarrow> rh_magic h = KV_REC_MAGIC \<and> rh_key h = ie_key en \<and> rh_type h = ie_type en \<and> unat (rh_len h) = n \<and>
      rh_seq h = ie_seq en \<and> rh_header_crc h = record_header_crc h \<and> rh_payload_crc h = crc16 d"
  proof
    assume eq: "h = ?c"
    have "unat (of_nat n :: u16) = n" using len(1) by (intro unat_of_nat_less) simp
    moreover have "record_header_crc ?c = record_header_crc ?g" by (simp add: record_header_crc_def)
    ultimately show "rh_magic h = KV_REC_MAGIC \<and> rh_key h = ie_key en \<and> rh_type h = ie_type en \<and> unat (rh_len h) = n \<and>
      rh_seq h = ie_seq en \<and> rh_header_crc h = record_header_crc h \<and> rh_payload_crc h = crc16 d" unfolding eq by simp
  next
    assume f: "rh_magic h = KV_REC_MAGIC \<and> rh_key h = ie_key en \<and> rh_type h = ie_type en \<and> unat (rh_len h) = n \<and>
      rh_seq h = ie_seq en \<and> rh_header_crc h = record_header_crc h \<and> rh_payload_crc h = crc16 d"
    then have "rh_len h = of_nat n" by auto
    moreover have "rh_flags h = raw ! 5" by (simp add: h(1) decode_record_header_def)
    ultimately have g: "h\<lparr>rh_header_crc := 0\<rparr> = ?g" using f by (intro kv_rec_hdr.equality) simp_all
    have "record_header_crc h = record_header_crc (h\<lparr>rh_header_crc := 0\<rparr>)" by (simp add: record_header_crc_def)
    then have "rh_header_crc h = record_header_crc ?g" using f unfolding g by simp
    moreover have "h = (h\<lparr>rh_header_crc := 0\<rparr>)\<lparr>rh_header_crc := rh_header_crc h\<rparr>" by simp
    ultimately show "h = ?c" unfolding g by simp
  qed
  moreover have "jh_load_le16 f = KV_REC_FOOTER \<longleftrightarrow> f = le16 KV_REC_FOOTER"
    using le16_load [of f] load_le16 [of KV_REC_FOOTER "[]"] len(3) by auto
  ultimately show ?thesis using h(2) by (auto simp: stored_record_def Let_def en)
qed

context kv_medium
begin

lemma read_record_value:
  assumes e: "online e" "kv_placed s e" "powered (s_storage e)" and act: "active_bank s = 0 \<or> active_bank s = 1"
    and en: "16 \<le> payload_offset en" "entry_stop en \<le> bank_size s" and out: "ie_len en \<le> length out"
  shows "read_record_from_medium_locked s e en out =
    (blit out 0 (subarr (payload_offset en) (ie_len en) (kv_seg med s e (active_bank s))),
     if checked_value (kv_seg med s e (active_bank s)) en = None then HAL_EIO else HAL_OK)"
proof -
  let ?x = "kv_seg med s e (active_bank s)" and ?at = "kv_base s + active_bank s * bank_size s + entry_start en" and ?n = "ie_len en"
  let ?raw = "subarr (entry_start en) 16 ?x" and ?d = "subarr (payload_offset en) ?n ?x" and ?f = "subarr (entry_start en + 16 + ?n) 2 ?x"
  have start: "entry_start en + 16 = payload_offset en" "entry_stop en = entry_start en + 16 + ?n + 2"
    using en(1) by (simp_all add: entry_start_def entry_stop_def)
  have fits: "?at + (entry_stop en - entry_start en) \<le> s_size e" "s_size e < 65536" "entry_start en \<le> entry_stop en"
    using e(2) act en by (auto simp: kv_placed_def entry_start_def entry_stop_def)
  have n: "?n < 65536" using fits start(2) by linarith
  have at: "cast16 (bank_base s (active_bank s) + payload_offset en - KV_REC_HDR_SIZE) = ?at"
    using bank_base_placed [OF e(2) act] fits en(1) by (simp add: cast16_def KV_REC_HDR_SIZE_def entry_start_def entry_stop_def)
  have xlen: "length ?x = bank_size s" using seg_length [OF e(1,2)] act by auto
  have medium: "jh_eeprom_read_medium e (cast16 (?at + k)) o' l = (blit o' 0 (subarr (entry_start en + k) l ?x), HAL_OK)"
    if "entry_start en + k + l \<le> entry_stop en" "l \<le> length o'" for k l o'
  proof -
    have "?at + k + l \<le> s_size e" using that(1) fits by linarith
    then have "cast16 (?at + k) = ?at + k" using fits(2) by (simp add: cast16_def)
    moreover have "subarr (entry_start en + k) l ?x = subarr (?at + k) l (med (s_storage e))"
      using that(1) en(2) by (simp add: kv_seg_def subarr_subarr add.assoc)
    ultimately show ?thesis using facade_read_medium [OF e(1,3) \<open>?at + k + l \<le> s_size e\<close> that(2)] by simp
  qed
  have lens: "length ?raw = 16" "length ?d = ?n" "length ?f = 2" using start en(2) xlen by simp_all
  have "?at < 65536" using fits by linarith
  then have cast: "cast16 (?at + 0) = ?at" by (simp add: cast16_def)
  have same: "blit (replicate m 0) 0 y = y" if "length y = m" for m and y :: bytes using that by (simp add: blit_def)
  have r1: "jh_eeprom_read_medium e ?at (replicate 16 0) 16 = (?raw, HAL_OK)"
    using medium [of 0 16 "replicate 16 0"] start(2) unfolding cast by (simp add: same lens(1))
  have r2: "jh_eeprom_read_medium e (cast16 (?at + 16)) out ?n = (blit out 0 ?d, HAL_OK)"
    using medium [of 16 ?n out] start out by simp
  have "jh_eeprom_read_medium e (cast16 (?at + (16 + ?n))) (replicate 2 0) 2 =
      (blit (replicate 2 0) 0 (subarr (entry_start en + (16 + ?n)) 2 ?x), HAL_OK)"
    using medium [of "16 + ?n" 2 "replicate 2 0"] start(2) by simp
  then have r3: "jh_eeprom_read_medium e (cast16 (?at + 16 + ?n)) (replicate 2 0) 2 = (?f, HAL_OK)"
    using same [OF lens(3)] by (simp only: add.assoc)
  note reads = r1 r2 r3
  have d: "take ?n (blit out 0 ?d) = ?d" using lens(2) out by (simp add: blit_def)
  have whole: "subarr (entry_start en) (record_size ?n) ?x = ?raw @ ?d @ ?f"
    using subarr_append [of "entry_start en" 16 "?n + 2" ?x] subarr_append [of "entry_start en + 16" ?n 2 ?x] start(1)
    by (simp add: record_size_eq add.assoc)
  have flags: "?raw ! 5 = ?x ! (entry_start en + 5)" using start en(2) xlen by (simp add: nth_subarr)
  have "(checked_value ?x en = None) \<longleftrightarrow> ?raw @ ?d @ ?f \<noteq> stored_record en (?raw ! 5) ?d"
    by (simp add: checked_value_def Let_def whole flags)
  also have "\<dots> \<longleftrightarrow> (let h = decode_record_header ?raw in rh_magic h \<noteq> KV_REC_MAGIC \<or> rh_key h \<noteq> ie_key en \<or> rh_type h \<noteq> ie_type en \<or>
      unat (rh_len h) \<noteq> ?n \<or> rh_seq h \<noteq> ie_seq en \<or> rh_header_crc h \<noteq> record_header_crc h \<or> rh_payload_crc h \<noteq> crc16 ?d \<or>
      jh_load_le16 ?f \<noteq> KV_REC_FOOTER)"
    unfolding record_checks [OF refl lens(1) n lens(2,3) refl, symmetric] Let_def by blast
  finally show ?thesis
    using reads d unfolding read_record_from_medium_locked_def at
    by (simp add: Let_def KV_REC_HDR_SIZE_def KV_REC_FTR_SIZE_def)
qed

lemma read_record_ok:
  assumes e: "online e" "kv_placed s e" "powered (s_storage e)" and act: "active_bank s = 0 \<or> active_bank s = 1"
    and en: "entry_held b en" "entry_stop en \<le> bank_size s"
    and same: "take (entry_stop en) b = take (entry_stop en) (kv_seg med s e (active_bank s))"
    and out: "ie_len en \<le> length out"
  shows "read_record_from_medium_locked s e en out = (blit out 0 (entry_val b en), HAL_OK)"
proof -
  let ?x = "kv_seg med s e (active_bank s)" and ?r = "entry_rec b en" and ?v = "entry_val b en"
  note len = entry_len [OF en(1)]
  have held: "held ?x (entry_start en) (enc ?r)"
    using held_cong [of b "entry_start en" "enc ?r" "entry_stop en" ?x] en(1) same entry_held_stop [OF en(1)]
    by (simp add: entry_held_def)
  have enc: "enc ?r = hdr_bytes (rec_hdr ?r) @ ?v @ le16 KV_REC_FOOTER" by (simp add: enc_def entry_rec_def)
  have start: "entry_start en + 16 = payload_offset en" using len(4) by (simp add: entry_start_def)
  have val: "subarr (payload_offset en) (ie_len en) ?x = ?v"
    using held len(2) unfolding enc held_append by (simp add: held_def start)
  have whole: "subarr (entry_start en) (record_size (ie_len en)) ?x = enc ?r"
    using held len(2) by (simp add: held_def record_size_eq entry_rec_def)
  have "entry_start en + (18 + ie_len en) \<le> length ?x" using held len(2) by (simp add: held_def entry_rec_def)
  then have "?x ! (entry_start en + 5) = subarr (entry_start en) (record_size (ie_len en)) ?x ! 5" by (simp add: nth_subarr record_size_eq)
  also have "\<dots> = 0" unfolding whole enc by (simp add: hdr_bytes_def nth_append entry_rec_def le16_def)
  finally have "checked_value ?x en = Some ?v"
    unfolding checked_value_def Let_def val whole
    using len(2) by (simp add: stored_record_def Let_def enc_def entry_rec_def rec_hdr_def)
  then show ?thesis using read_record_value [OF e act len(4) en(2) out] val by simp
qed

text \<open>
  Reading through from a medium that may hold anything: the store \<open>s\<close> and its entries are as they were.
\<close>

lemma read_through_any:
  assumes ram: "ram_ok s" and e: "online e" "kv_placed s e" "powered (s_storage e)" and through: "read_through s" "\<not> kv_dirty s"
    and x: "x = kv_seg med s e (active_bank s)"
  shows "hal_kv_get_u32_ex s e k True =
      (case index_find (kv_index s) k of
         None \<Rightarrow> (HAL_ENOENT, Some 0)
       | Some i \<Rightarrow> if ie_type (kv_index s ! i) \<noteq> KV_REC_TYPE_U32 then (HAL_ENOENT, Some 0)
           else (case checked_value x (kv_index s ! i) of
             None \<Rightarrow> (HAL_EIO, Some 0) | Some d \<Rightarrow> (HAL_OK, Some (jh_load_le32 d))))"
    and "hal_kv_get_blob_ex s e k (Some out) =
      (case index_find (kv_index s) k of
         None \<Rightarrow> (HAL_ENOENT, Some out, 0)
       | Some i \<Rightarrow> let n = ie_len (kv_index s ! i) in
           if ie_type (kv_index s ! i) \<noteq> KV_REC_TYPE_BLOB then (HAL_ENOENT, Some out, 0)
           else if length out < n then (HAL_EOVERFLOW, Some out, n)
           else (case checked_value x (kv_index s ! i) of
             None \<Rightarrow> (HAL_EIO, Some (blit out 0 (replicate n 0)), n) | Some d \<Rightarrow> (HAL_OK, Some (blit out 0 d), n)))"
proof -
  have ready: "kv_mutex s" "kv_ready s" using e(2) by (simp_all add: kv_placed_def)
  have act: "active_bank s = 0 \<or> active_bank s = 1" "used_offset s \<le> bank_size s" using ram by (simp_all add: ram_ok_def)
  have entry: "16 \<le> payload_offset (kv_index s ! i)" "entry_stop (kv_index s ! i) \<le> bank_size s"
    "ie_type (kv_index s ! i) = KV_REC_TYPE_U32 \<Longrightarrow> ie_len (kv_index s ! i) = 4" if "index_find (kv_index s) k = Some i" for i
  proof -
    have "entry_held (bank s) (kv_index s ! i)" "entry_stop (kv_index s ! i) \<le> used_offset s"
      using contents_entry [OF ram, of k] that by auto
    then show "16 \<le> payload_offset (kv_index s ! i)" "entry_stop (kv_index s ! i) \<le> bank_size s"
      "ie_type (kv_index s ! i) = KV_REC_TYPE_U32 \<Longrightarrow> ie_len (kv_index s ! i) = 4"
      using entry_len [of "bank s" "kv_index s ! i"] act(2) by simp_all
  qed
  have val: "length (subarr (payload_offset (kv_index s ! i)) (ie_len (kv_index s ! i)) x) = ie_len (kv_index s ! i)"
    if "index_find (kv_index s) k = Some i" for i
    using entry(1,2) [OF that] seg_length [OF e(1,2)] act(1) by (auto simp: x entry_stop_def)
  have some: "checked_value x en = Some d \<Longrightarrow> d = subarr (payload_offset en) (ie_len en) x" for en d
    by (simp add: checked_value_def Let_def split: if_splits)
  have err: "hal_status_is_error HAL_EIO" "\<not> hal_status_is_error HAL_OK" by (simp_all add: hal_status_is_error_def)
  show "hal_kv_get_u32_ex s e k True =
      (case index_find (kv_index s) k of
         None \<Rightarrow> (HAL_ENOENT, Some 0)
       | Some i \<Rightarrow> if ie_type (kv_index s ! i) \<noteq> KV_REC_TYPE_U32 then (HAL_ENOENT, Some 0)
           else (case checked_value x (kv_index s ! i) of
             None \<Rightarrow> (HAL_EIO, Some 0) | Some d \<Rightarrow> (HAL_OK, Some (jh_load_le32 d))))"
  proof (cases "index_find (kv_index s) k")
    case (Some i)
    show ?thesis
    proof (cases "ie_type (kv_index s ! i) = KV_REC_TYPE_U32")
      case True
      note en = entry [OF Some]
      have "read_record_from_medium_locked s e (kv_index s ! i) (replicate 4 0) =
          (subarr (payload_offset (kv_index s ! i)) (ie_len (kv_index s ! i)) x,
           if checked_value x (kv_index s ! i) = None then HAL_EIO else HAL_OK)"
        using read_record_value [OF e act(1) en(1,2), of "replicate 4 0"] en(3) [OF True] val [OF Some]
        by (simp add: x [symmetric] blit_def)
      moreover have "d = subarr (payload_offset (kv_index s ! i)) 4 x" if "checked_value x (kv_index s ! i) = Some d" for d
        using some [OF that] en(3) [OF True] by simp
      ultimately show ?thesis using Some True ready through en(3) [OF True] err
        by (auto simp: hal_kv_get_u32_ex_def Let_def split: option.split)
    qed (use Some ready through in \<open>simp add: hal_kv_get_u32_ex_def Let_def\<close>)
  qed (use ready through in \<open>simp add: hal_kv_get_u32_ex_def\<close>)
  show "hal_kv_get_blob_ex s e k (Some out) =
      (case index_find (kv_index s) k of
         None \<Rightarrow> (HAL_ENOENT, Some out, 0)
       | Some i \<Rightarrow> let n = ie_len (kv_index s ! i) in
           if ie_type (kv_index s ! i) \<noteq> KV_REC_TYPE_BLOB then (HAL_ENOENT, Some out, 0)
           else if length out < n then (HAL_EOVERFLOW, Some out, n)
           else (case checked_value x (kv_index s ! i) of
             None \<Rightarrow> (HAL_EIO, Some (blit out 0 (replicate n 0)), n) | Some d \<Rightarrow> (HAL_OK, Some (blit out 0 d), n)))"
  proof (cases "index_find (kv_index s) k")
    case (Some i)
    note en = entry [OF Some]
    have "read_record_from_medium_locked s e (kv_index s ! i) out =
        (blit out 0 (subarr (payload_offset (kv_index s ! i)) (ie_len (kv_index s ! i)) x),
         if checked_value x (kv_index s ! i) = None then HAL_EIO else HAL_OK)" if "ie_len (kv_index s ! i) \<le> length out"
      using read_record_value [OF e act(1) en(1,2) that] by (simp add: x [symmetric])
    moreover have "blit (blit out 0 (subarr (payload_offset (kv_index s ! i)) (ie_len (kv_index s ! i)) x)) 0 (replicate (ie_len (kv_index s ! i)) 0) =
        blit out 0 (replicate (ie_len (kv_index s ! i)) 0)" if "ie_len (kv_index s ! i) \<le> length out"
      using val [OF Some] by (simp add: blit_def)
    ultimately show ?thesis using Some ready through some
      by (auto simp: hal_kv_get_blob_ex_def Let_def split: option.split)
  qed (use ready through in \<open>simp add: hal_kv_get_blob_ex_def\<close>)
qed

text \<open>The same in terms of the map.\<close>

lemma read_through_contents:
  assumes ram: "ram_ok s" and e: "online e" "kv_placed s e" "powered (s_storage e)" and through: "read_through s" "\<not> kv_dirty s"
  shows "hal_kv_get_u32_ex s e k True =
      (case contents s k of
         Some (t, d) \<Rightarrow> if t \<noteq> KV_REC_TYPE_U32 then (HAL_ENOENT, Some 0)
           else (case medium_value med s e k of None \<Rightarrow> (HAL_EIO, Some 0) | Some d' \<Rightarrow> (HAL_OK, Some (jh_load_le32 d')))
       | None \<Rightarrow> (HAL_ENOENT, Some 0))"
    and "hal_kv_get_blob_ex s e k (Some out) =
      (case contents s k of
         Some (t, d) \<Rightarrow> if t \<noteq> KV_REC_TYPE_BLOB then (HAL_ENOENT, Some out, 0)
           else if length out < length d then (HAL_EOVERFLOW, Some out, length d)
           else (case medium_value med s e k of
             None \<Rightarrow> (HAL_EIO, Some (blit out 0 (replicate (length d) 0)), length d) | Some d' \<Rightarrow> (HAL_OK, Some (blit out 0 d'), length d))
       | None \<Rightarrow> (HAL_ENOENT, Some out, 0))"
  using contents_entry [OF ram, of k] entry_len(2) [of "bank s" "kv_index s ! the (index_find (kv_index s) k)"]
  unfolding read_through_any [OF ram e through refl] medium_value_def
  by (auto simp: Let_def split: option.split)

text \<open>What the two ways of reading find for a key in the index.\<close>

lemma entry_reads:
  assumes e: "online e" "kv_placed s e" "powered (s_storage e)" and ok: "holds_ok med s e C B"
    and i: "index_find (kv_index s) k = Some i"
  shows "\<not> kv_dirty s \<Longrightarrow> ie_len (kv_index s ! i) \<le> length out \<Longrightarrow>
      read_record_from_medium_locked s e (kv_index s ! i) out = (blit out 0 (entry_val (bank s) (kv_index s ! i)), HAL_OK)"
    and "contents s k = Some (ie_type (kv_index s ! i), entry_val (bank s) (kv_index s ! i))"
    and "entry_held (bank s) (kv_index s ! i)"
proof -
  let ?en = "kv_index s ! i"
  have ram: "ram_ok s" using holds_okD(1) [OF ok] .
  have en: "entry_held (bank s) ?en" "entry_stop ?en \<le> used_offset s" "contents s k = Some (ie_type ?en, entry_val (bank s) ?en)"
    using contents_entry [OF ram, of k] i by auto
  then show "contents s k = Some (ie_type ?en, entry_val (bank s) ?en)" "entry_held (bank s) ?en" by blast+
  have act: "active_bank s = 0 \<or> active_bank s = 1" "used_offset s \<le> bank_size s" using ram by (simp_all add: ram_ok_def)
  show "read_record_from_medium_locked s e ?en out = (blit out 0 (entry_val (bank s) ?en), HAL_OK)"
    if clean: "\<not> kv_dirty s" and out: "ie_len ?en \<le> length out"
  proof (rule read_record_ok [OF e act(1) en(1) _ _ out])
    show "entry_stop ?en \<le> bank_size s" using en(2) act(2) by simp
    have "take (used_offset s) (bank s) = take (used_offset s) (kv_seg med s e (active_bank s))"
      using ok clean kv_seg_pick [OF act(1), of med s e] by (simp add: holds_ok_def kv_ok_def kv_clean_def)
    from arg_cong [where f = "take (entry_stop ?en)", OF this]
    show "take (entry_stop ?en) (bank s) = take (entry_stop ?en) (kv_seg med s e (active_bank s))"
      using en(2) by (simp add: min_def)
  qed
qed

lemma get_u32_contents:
  assumes e: "online e" "kv_placed s e" "powered (s_storage e)" and ok: "holds_ok med s e C B"
  shows "hal_kv_get_u32_ex s e k True =
    (if read_through s \<and> kv_dirty s then (HAL_EBUSY, Some 0) else case contents s k of
       Some (t, d) \<Rightarrow> if t = KV_REC_TYPE_U32 then (HAL_OK, Some (jh_load_le32 d)) else (HAL_ENOENT, Some 0)
     | None \<Rightarrow> (HAL_ENOENT, Some 0))"
proof (cases "index_find (kv_index s) k")
  case None
  then have "contents s k = None" by (simp add: contents_def kv_map_def)
  then show ?thesis using None e(2) by (simp add: hal_kv_get_u32_ex_def kv_placed_def)
next
  case (Some i)
  let ?en = "kv_index s ! i"
  note r = entry_reads [OF e ok Some]
  note len = entry_len [OF r(3)]
  have mem: "jh_load_le32 (drop (payload_offset ?en) (bank s)) = jh_load_le32 (entry_val (bank s) ?en)" if "ie_len ?en = 4"
    using that len(3) by (simp add: entry_val_def load_le32_subarr)
  have med: "read_record_from_medium_locked s e ?en (replicate 4 0) = (entry_val (bank s) ?en, HAL_OK)"
    if "ie_len ?en = 4" "\<not> kv_dirty s"
    using r(1) [OF that(2), of "replicate 4 0"] that(1) len(2) by (simp add: blit_def)
  show ?thesis
    using Some e(2) r(2) len(1) mem med
    by (auto simp: hal_kv_get_u32_ex_def kv_placed_def Let_def hal_status_is_error_def)
qed

lemma get_blob_contents:
  assumes e: "online e" "kv_placed s e" "powered (s_storage e)" and ok: "holds_ok med s e C B"
  shows "hal_kv_get_blob_ex s e k out =
    (if read_through s \<and> kv_dirty s then (HAL_EBUSY, out, 0) else case contents s k of
       Some (t, d) \<Rightarrow>
         if t \<noteq> KV_REC_TYPE_BLOB then (HAL_ENOENT, out, 0)
         else (case out of
           None \<Rightarrow> (HAL_OK, None, length d)
         | Some o' \<Rightarrow> if length o' < length d then (HAL_EOVERFLOW, Some o', length d)
                      else (HAL_OK, Some (blit o' 0 d), length d))
     | None \<Rightarrow> (HAL_ENOENT, out, 0))"
proof (cases "index_find (kv_index s) k")
  case None
  then have "contents s k = None" by (simp add: contents_def kv_map_def)
  then show ?thesis using None e(2) by (simp add: hal_kv_get_blob_ex_def kv_placed_def)
next
  case (Some i)
  note r = entry_reads [OF e ok Some]
  note len = entry_len(2) [OF r(3)]
  show ?thesis
    using Some e(2) r(1,2) len
    by (auto simp: hal_kv_get_blob_ex_def kv_placed_def Let_def entry_val_def split: option.split)
qed

end

lemma load_u32_bytes [simp]: "jh_load_le32 (u32_bytes v) = v"
  using load_store_le32 [of 0 "replicate 4 0" v] by (simp add: u32_bytes_def)

end
