(* ===== verification/Kv_Run.thy ===== *)
theory Kv_Run
  imports Kv_Mount Kv_Read
begin

text \<open>
  The life of a store: it is formatted on a medium without one, serves requests while there is
  power, and is started again, on the same medium, any number of times. The maps a restart may
  find are collected in a history: the one of the last change that was acknowledged as durable, or of the last start,
  and those of the commits begun since. Changes that are deferred enter it with the commit that writes all of them.
\<close>

inductive kv_run ::
  "'p provider \<Rightarrow> ('p \<Rightarrow> bytes) \<Rightarrow> ('p \<Rightarrow> bool) \<Rightarrow> ('p \<Rightarrow> bool) \<Rightarrow> nat \<Rightarrow> nat \<Rightarrow> nat \<Rightarrow> nat \<Rightarrow> nat \<Rightarrow>
   kv \<Rightarrow> 'p eeprom \<Rightarrow> kv_contents set \<Rightarrow> bool"
  for ops :: "'p provider" and med :: "'p \<Rightarrow> bytes" and powered good :: "'p \<Rightarrow> bool"
    and es ps as base n :: nat where
  formatted: "attached ops med good es ps as e \<Longrightarrow> powered (s_storage e) \<Longrightarrow> s_size e < 65536 \<Longrightarrow> kv_mutex s \<Longrightarrow>
    validate_bank_buffer (subarr base n (med (s_storage e))) n = None \<Longrightarrow>
    validate_bank_buffer (subarr (base + n) n (med (s_storage e))) n = None \<Longrightarrow>
    hal_kv_init_ex s e base (2 * n) = Some (s', e', HAL_OK) \<Longrightarrow> powered (s_storage e') \<Longrightarrow>
    kv_run ops med powered good es ps as base n s' e' {Map.empty}"
| request: "kv_run ops med powered good es ps as base n s e H \<Longrightarrow> powered (s_storage e) \<Longrightarrow>
    kv_exec r s e = (s', e', status) \<Longrightarrow>
    kv_run ops med powered good es ps as base n s' e'
      (kv_history r s status (powered (s_storage e')) (contents s') H)"
| restart: "kv_run ops med powered good es ps as base n s e H \<Longrightarrow>
    attached ops med good es ps as e1 \<Longrightarrow> powered (s_storage e1) \<Longrightarrow> s_size e1 = s_size e \<Longrightarrow>
    med (s_storage e1) = med (s_storage e) \<Longrightarrow> kv_mutex s1 \<Longrightarrow>
    hal_kv_init_ex s1 e1 base (2 * n) = Some (s', e', HAL_OK) \<Longrightarrow>
    kv_run ops med powered good es ps as base n s' e' {contents s'}"

inductive_cases kv_runE: "kv_run ops med powered good es ps as base n s e H"

section \<open>The geometry a start has checked\<close>

lemma init_geometry:
  assumes "hal_kv_init_ex s e base (2 * n) = Some (s', e', HAL_OK)"
  shows "n \<le> HAL_KV_MAX_BANK_SIZE" "KV_PUBLISH_SIZE + KV_REC_OVERHEAD \<le> n" "base + 2 * n \<le> s_size e"
    "region_status e base n KV_PUBLISH_SIZE = HAL_OK"
proof -
  have ok: "\<not> hal_status_is_error HAL_OK" by (simp add: hal_status_is_error_def)
  have "n \<le> HAL_KV_MAX_BANK_SIZE \<and> KV_PUBLISH_SIZE + KV_REC_OVERHEAD \<le> n \<and> base + 2 * n \<le> s_size e \<and>
      region_status e base n KV_PUBLISH_SIZE = HAL_OK"
    using assms unfolding hal_kv_init_ex_def Let_def
    by (auto simp: hal_eeprom_size_ex_def jh_eeprom_validate_region_def not_less ok split: if_splits)
  then show "n \<le> HAL_KV_MAX_BANK_SIZE" "KV_PUBLISH_SIZE + KV_REC_OVERHEAD \<le> n" "base + 2 * n \<le> s_size e"
    "region_status e base n KV_PUBLISH_SIZE = HAL_OK" by blast+
qed

lemma region_status_attached:
  assumes "attached ops med good es ps as e" "attached ops med good es ps as e1" "s_size e1 = s_size e"
  shows "region_status e1 base n publish = region_status e base n publish"
  using assms by (simp add: region_status_def range_status_def attached_def)

context kv_medium
begin

definition run_inv :: "nat \<Rightarrow> nat \<Rightarrow> kv \<Rightarrow> 'p eeprom \<Rightarrow> kv_contents set \<Rightarrow> bool" where
  "run_inv base n s e H \<longleftrightarrow> kv_inv s e H \<and> kv_base s = base \<and> bank_size s = n"

text \<open>A start on the medium of a store finds one of the maps of its history and changes nothing.\<close>

lemma run_restart:
  assumes inv: "run_inv base n s e H"
    and e1: "online e1" "powered (s_storage e1)" "s_size e1 = s_size e" "med (s_storage e1) = med (s_storage e)" and s1: "kv_mutex s1"
  obtains s' B where "hal_kv_init_ex s1 e1 base (2 * n) = Some (s', e1, HAL_OK)" "B \<in> H" "contents s' = B"
    "run_inv base n s' e1 {B}" "auto_commit s' = auto_commit s1" "read_through s' = read_through s1" "\<not> kv_dirty s'"
    "holds_ok med s' e1 B B"
proof -
  obtain B where B: "B \<in> H" "found_at_boot med s e B" using inv unfolding run_inv_def kv_inv_def by blast
  have place: "kv_placed s e" "online e" "ram_ok s" "kv_base s = base" "bank_size s = n"
    using inv by (simp_all add: run_inv_def kv_inv_def)
  have ap: "kv_append_size s = append_size" using place(1,2) by (simp add: kv_placed_def attached_def)
  have found: "boots append_size n (subarr base n (med (s_storage e1))) (subarr (base + n) n (med (s_storage e1))) B"
    using B(2) place(4,5) ap e1(4) by (simp add: found_at_boot_def kv_seg_def)
  have region: "region_status e1 base n KV_PUBLISH_SIZE = HAL_OK"
    using place region_status_attached [OF place(2) e1(1,3)] by (simp add: kv_placed_def)
  have n: "n \<le> HAL_KV_MAX_BANK_SIZE" "KV_PUBLISH_SIZE + KV_REC_OVERHEAD \<le> n" "base + 2 * n \<le> s_size e1" "s_size e1 < 65536"
    using place e1(3) by (simp_all add: ram_ok_def kv_placed_def)
  obtain s' where s': "hal_kv_init_ex s1 e1 base (2 * n) = Some (s', e1, HAL_OK)" "kv_placed s' e1" "kv_base s' = base"
    "bank_size s' = n" "auto_commit s' = auto_commit s1" "read_through s' = read_through s1" "\<not> kv_dirty s'"
    "contents s' = B" "holds_ok med s' e1 B B"
    by (rule mount_ok [OF e1(1,2) s1 n region found])
  have "found_at_boot med s' e1 B" "ram_ok s'"
    using s'(9) by (simp_all add: holds_ok_def kv_ok_def kv_core_def found_at_boot_def)
  then have "run_inv base n s' e1 {B}" using s' e1 by (simp add: run_inv_def kv_inv_def)
  then show thesis using that s' B(1) by blast
qed

lemma kv_run_inv:
  "kv_run ops med powered good erase_size program_size append_size base n s e H \<Longrightarrow> run_inv base n s e H"
proof (induction rule: kv_run.induct)
  case (formatted e s s' e')
  note geo = init_geometry [OF formatted(7)]
  from mount_fresh [OF formatted(1,2,4) geo(1,2,3) formatted(3) geo(4) formatted(5,6,7,8)]
  have m: "online e'" "kv_placed s' e'" "kv_base s' = base" "bank_size s' = n" "contents s' = Map.empty"
    "holds_ok med s' e' Map.empty Map.empty" by blast+
  then have "found_at_boot med s' e' Map.empty" "ram_ok s'"
    by (simp_all add: holds_ok_def kv_ok_def kv_core_def found_at_boot_def)
  then show ?case using m by (simp add: run_inv_def kv_inv_def)
next
  case (request s e H r s' e' status)
  have inv: "kv_inv s e H" "kv_base s = base" "bank_size s = n" using request.IH by (simp_all add: run_inv_def)
  have "kv_base s' = kv_base s \<and> bank_size s' = bank_size s" by (rule kv_exec_place [OF inv(1) request(2,3)])
  then show ?case using kv_exec_inv [OF inv(1) request(2,3)] inv(2,3) by (simp add: run_inv_def)
next
  case (restart s e H e1 s1 s' e')
  obtain t B where t: "hal_kv_init_ex s1 e1 base (2 * n) = Some (t, e1, HAL_OK)" "contents t = B" "run_inv base n t e1 {B}"
    by (rule run_restart [OF restart.IH restart(2-6)])
  then show ?case using restart(7) by simp
qed

lemma run_online: "kv_run ops med powered good erase_size program_size append_size base n s e H \<Longrightarrow> online e"
  using kv_run_inv [of base n s e H] by (simp add: run_inv_def kv_inv_def)

lemma run_holds:
  assumes "kv_run ops med powered good erase_size program_size append_size base n s e H" "powered (s_storage e)"
  obtains C B where "kv_placed s e" "ram_ok s" "C \<in> H" "holds_ok med s e C B"
  using kv_run_inv [OF assms(1)] assms(2) that unfolding run_inv_def kv_inv_def by blast

end

end
