(* ===== verification/Kv_Live.thy ===== *)
theory Kv_Live
  imports Kv_Run
begin

text \<open>
  What the store delivers while the power stays on: on a medium that carries out what it is asked
  (a second locale, which extends the first), every request that the capacity of the store allows
  succeeds, however the bank is filled: the compaction always recovers the space.
\<close>

section \<open>A medium that does not fail\<close>

locale kv_reliable = kv_medium ops med powered good erase_size program_size append_size
  for ops :: "'p provider" and med and powered and good and erase_size program_size append_size :: nat +
  fixes steady :: "'p \<Rightarrow> bool"
  assumes steady: "steady p \<Longrightarrow> powered p"
    and replace_live: "\<lbrakk>good p; steady p; addr + length data \<le> length (med p); erase_size dvd addr; erase_size dvd length data;
        program_size dvd addr; program_size dvd length data; program_size dvd publish; 0 < publish;
        publish < length data; p_replace_region ops p addr data publish = (p', status)\<rbrakk> \<Longrightarrow> status = HAL_OK \<and> steady p'"
    and append_live: "\<lbrakk>good p; steady p; addr + length data \<le> length (med p); append_size dvd addr; append_size dvd length data;
        data \<noteq> []; all_erased (subarr addr (length data) (med p)); p_append ops p addr data = (p', status)\<rbrakk> \<Longrightarrow>
      status = HAL_OK \<and> steady p'"
    and erase_live: "\<lbrakk>good p; steady p; addr + len \<le> length (med p); erase_size dvd addr; erase_size dvd len; 0 < len;
        p_erase ops p addr len = (p', status)\<rbrakk> \<Longrightarrow> status = HAL_OK \<and> steady p'"
begin

lemma facade_replace_live:
  assumes e: "online e" "steady (s_storage e)" and st: "region_status e addr (length data) publish = HAL_OK"
    and run: "jh_eeprom_replace_region e addr data publish = (e', status)"
  shows "status = HAL_OK \<and> steady (s_storage e')"
proof -
  have geo: "addr + length data \<le> s_size e" "erase_size dvd addr" "erase_size dvd length data"
    "program_size dvd addr" "program_size dvd length data" "program_size dvd publish" "0 < publish"
    "publish < length data"
    using st e unfolding region_status_OK range_status_OK attached_def by simp_all
  have "data \<noteq> []" using geo(8) by auto
  obtain p where p: "p_replace_region ops (s_storage e) addr data publish = (p, status)" "e' = e\<lparr>s_storage := p\<rparr>"
    using run \<open>data \<noteq> []\<close> geo(7,8) e
    by (simp add: jh_eeprom_replace_region_def Let_def st with_provider_def attached_def split: prod.splits)
  have "addr + length data \<le> length (med (s_storage e))" "good (s_storage e)" using geo(1) e(1) by (simp_all add: attached_def)
  from replace_live [OF this(2) e(2) this(1) geo(2-8) p(1)] show ?thesis by (simp add: p(2))
qed

lemma facade_append_live:
  assumes e: "online e" "steady (s_storage e)" and fits: "addr + length data \<le> s_size e" "data \<noteq> []"
    and aligned: "append_size dvd addr" "append_size dvd length data"
    and blank: "all_erased (subarr addr (length data) (med (s_storage e)))"
    and run: "jh_eeprom_append_region e addr data = (e', status)"
  shows "status = HAL_OK \<and> steady (s_storage e')"
proof -
  have st: "range_status e addr (length data) = HAL_OK"
    using fits(1) e(1) unfolding range_status_OK by (simp add: attached_def)
  obtain p where p: "p_append ops (s_storage e) addr data = (p, status)" "e' = e\<lparr>s_storage := p\<rparr>"
    using run fits(2) e aligned
    by (simp add: jh_eeprom_append_region_def Let_def st with_provider_def attached_def mod_eq_0_iff_dvd
        split: prod.splits)
  have "addr + length data \<le> length (med (s_storage e))" "good (s_storage e)" using fits e(1) by (simp_all add: attached_def)
  from append_live [OF this(2) e(2) this(1) aligned fits(2) blank p(1)] show ?thesis by (simp add: p(2))
qed

lemma facade_erase_live:
  assumes e: "online e" "steady (s_storage e)" and fits: "addr + len \<le> s_size e" "0 < len" "erase_size dvd addr" "erase_size dvd len"
    and run: "jh_eeprom_erase_region e addr len = (e', status)"
  shows "status = HAL_OK \<and> steady (s_storage e')"
proof -
  have st: "range_status e addr len = HAL_OK"
    using fits(1) e unfolding range_status_OK by (simp add: attached_def)
  obtain p where p: "p_erase ops (s_storage e) addr len = (p, status)" "e' = e\<lparr>s_storage := p\<rparr>"
    using run fits(2-4) e
    by (simp add: jh_eeprom_erase_region_def Let_def st with_provider_def attached_def mod_eq_0_iff_dvd
        split: prod.splits)
  have "addr + len \<le> length (med (s_storage e))" "good (s_storage e)" using fits e(1) by (simp_all add: attached_def)
  from erase_live [OF this(2) e(2) this(1) fits(3,4,2) p(1)] show ?thesis by (simp add: p(2))
qed

section \<open>Committing\<close>

lemma publish_live:
  assumes e: "online e" "kv_placed s e" "steady (s_storage e)" and ram: "ram_ok s"
    and run: "publish_full_locked (compact_locked s) e = (s', e', status)"
  shows "status = HAL_OK \<and> steady (s_storage e')"
proof -
  obtain body where c: "compact_now (compact_locked s) body" "same_place s (compact_locked s)"
    using compact_locked_core [OF ram, of e undefined undefined] by blast
  let ?t = "compact_locked s"
  have place: "kv_placed ?t e" using e(2) c(2) by (simp add: kv_placed_def same_place_def)
  obtain b st where p: "length (take (bank_size ?t) b) = bank_size ?t"
    "region_status e (kv_base ?t + other_bank (active_bank ?t) * bank_size ?t) (bank_size ?t) KV_PUBLISH_SIZE = HAL_OK"
    "jh_eeprom_replace_region e (kv_base ?t + other_bank (active_bank ?t) * bank_size ?t) (take (bank_size ?t) b)
       KV_PUBLISH_SIZE = (e', st)"
    "(s', status) = (if hal_status_is_error st then (?t\<lparr>bank := b\<rparr>, st) else (published ?t b, HAL_OK))"
    by (rule publish_call [OF e(1) place c(1) run])
  have region: "region_status e (kv_base ?t + other_bank (active_bank ?t) * bank_size ?t) (length (take (bank_size ?t) b))
      KV_PUBLISH_SIZE = HAL_OK" unfolding p(1) by (rule p(2))
  from facade_replace_live [OF e(1,3) region p(3)] p(4) show ?thesis by (simp add: hal_status_is_error_def)
qed

lemma append_batch_live:
  assumes e: "online e" "kv_placed s e" "steady (s_storage e)" and core: "holds_core med s e C B"
    and s: "\<not> needs_publish s" "used_offset s \<noteq> flash_end s"
    and run: "append_batch_locked s e = (s', e', status)"
  shows "steady (s_storage e')" "status = HAL_OK \<or> status = HAL_ENOMEM \<and> s' = s \<and> e' = e"
proof -
  let ?stop = "align (kv_append_size s) (used_offset s + 22)"
  have "steady (s_storage e') \<and> (status = HAL_OK \<or> status = HAL_ENOMEM \<and> s' = s \<and> e' = e)"
  proof (cases "bank_size s < ?stop")
    case True
    then have "append_batch_locked s e = (s, e, HAL_ENOMEM)"
      by (simp add: append_batch_locked_def Let_def record_size_eq KV_COMMIT_LEN_def align_up_eq)
    then show ?thesis using run e(3) by simp
  next
    case False
    then have fits: "?stop \<le> bank_size s" by simp
    obtain m q rs b where w: "batch_waits s e C m q rs ?stop b" by (rule batch_waitsI [OF e(1,2) core s refl fits])
    obtain st torn where r: "jh_eeprom_append_region e (batch_at s e q) (subarr q (?stop - q) b) = (e', st)"
      "(s', status) = (if hal_status_is_error st
        then (unappended s (blit b (used_offset s) (replicate (?stop - used_offset s) 0xFF)) torn, st) else (appended s b ?stop, HAL_OK))"
      by (rule append_run [OF e(1) w run])
    note bounds = batch_waits_bounds [OF e(1) w]
    have "log_ends False (kv_seg med s e (active_bank s)) (bank_size s) q"
      using w unfolding batch_waits_def bank_holds_def by blast
    then have "bytes_erased (kv_seg med s e (active_bank s)) q (bank_size s - q)" using log_ends_clean bounds(13) by simp
    then have "all_erased (take (?stop - q) (subarr q (bank_size s - q) (kv_seg med s e (active_bank s))))"
      by (intro all_erased_take) (simp only: all_erased_bytes)
    moreover have "take (?stop - q) (subarr q (bank_size s - q) (kv_seg med s e (active_bank s))) =
        subarr q (?stop - q) (kv_seg med s e (active_bank s))"
      using fits by (simp add: subarr_def)
    ultimately have "all_erased (subarr (batch_at s e q) (length (subarr q (?stop - q) b)) (med (s_storage e)))"
      using append_asked(5) [OF e(1) w] by simp
    from facade_append_live [OF e(1,3) append_asked(1-4) [OF e(1) w] this r(1)] r(2)
    show ?thesis by (simp add: hal_status_is_error_def)
  qed
  then show "steady (s_storage e')" "status = HAL_OK \<or> status = HAL_ENOMEM \<and> s' = s \<and> e' = e" by auto
qed

lemma commit_live:
  assumes e: "online e" "kv_placed s e" "steady (s_storage e)" and ok: "holds_ok med s e C B"
    and run: "commit_locked s e = (s', e', status)"
  shows "status = HAL_OK \<and> steady (s_storage e')"
proof -
  note okD = holds_okD [OF ok]
  consider (none) "\<not> kv_dirty s \<or> \<not> needs_publish s \<and> used_offset s = flash_end s"
    | (publish) "kv_dirty s" "needs_publish s" | (append) "kv_dirty s" "\<not> needs_publish s" "used_offset s \<noteq> flash_end s" by blast
  then show ?thesis
  proof cases
    case none
    then show ?thesis using run e(3) by (auto simp: commit_locked_def split: if_splits)
  next
    case publish
    then have "publish_full_locked (compact_locked s) e = (s', e', status)" using run by (simp add: commit_locked_def)
    from publish_live [OF e okD(1) this] show ?thesis .
  next
    case append
    obtain s1 e1 st where app: "append_batch_locked s e = (s1, e1, st)" by (cases "append_batch_locked s e")
    note live = append_batch_live [OF e okD(2) append(2,3) app]
    show ?thesis
    proof (cases "st = HAL_OK")
      case True
      then have "status = HAL_OK" "e' = e1" using run append app by (simp_all add: commit_locked_def)
      then show ?thesis using live by simp
    next
      case False
      then have "publish_full_locked (compact_locked s) e = (s', e', status)"
        using run append app live(2) by (auto simp: commit_locked_def)
      from publish_live [OF e okD(1) this] show ?thesis .
    qed
  qed
qed

section \<open>The requests\<close>

lemma finish_mutation_live:
  assumes e: "online e" "kv_placed s e" "steady (s_storage e)" and core: "holds_core med s e C B"
    and run: "finish_mutation_locked s e = (s', e', status)"
  shows "status = HAL_OK \<and> steady (s_storage e')"
proof (cases "auto_commit s")
  case True
  then have "commit_locked (s\<lparr>kv_dirty := True\<rparr>) e = (s', e', status)" using run by (simp add: finish_mutation_locked_def)
  from commit_live [OF e(1) _ e(3) holds_core_dirty [OF core] this] show ?thesis using e(2) by (simp add: dirty_kept)
qed (use run e(3) in \<open>simp add: finish_mutation_locked_def\<close>)

lemma finish_no_change_live:
  assumes e: "online e" "kv_placed s e" "steady (s_storage e)" and ok: "holds_ok med s e C B"
    and run: "finish_no_change_locked s e = (s', e', status)"
  shows "status = HAL_OK \<and> steady (s_storage e')"
  using commit_live [OF e ok] run e(3) by (simp add: finish_no_change_locked_def split: if_splits)

text \<open>A value is refused only when it does not fit; then nothing has happened.\<close>

lemma set_blob_live:
  assumes e: "online e" "kv_placed s e" "steady (s_storage e)" and ok: "holds_ok med s e C B"
    and t: "t = KV_REC_TYPE_BLOB \<or> t = KV_REC_TYPE_U32 \<and> length d = 4"
    and run: "set_blob_locked s e k t d = (s', e', status)"
  shows "status = HAL_OK \<and> steady (s_storage e') \<or> status \<noteq> HAL_OK \<and> s' = s \<and> e' = e \<and>
    (bank_size s < kv_bytes ((contents s)(k \<mapsto> (t, d))) \<or> KV_MAX_KEYS < card (dom ((contents s)(k \<mapsto> (t, d)))))"
proof (cases rule: set_blob_run [OF e(2) ok t run])
  case 1
  then show ?thesis by auto
next
  case 2
  then show ?thesis using finish_no_change_live [OF e ok] by blast
next
  case (3 u)
  from finish_mutation_live [OF e(1) 3(3) e(3) 3(4,1)] show ?thesis by blast
qed

lemma delete_live:
  assumes e: "online e" "kv_placed s e" "steady (s_storage e)" and ok: "holds_ok med s e C B"
    and run: "delete_locked s e k = (s', e', status)"
  shows "status = HAL_OK \<and> steady (s_storage e')"
proof (cases rule: delete_run [OF e(2) ok run])
  case 1
  then show ?thesis using finish_no_change_live [OF e ok] by blast
next
  case (2 u)
  from finish_mutation_live [OF e(1) 2(3) e(3) 2(4,1)] show ?thesis .
qed

lemma gc_live:
  assumes e: "online e" "kv_placed s e" "steady (s_storage e)" and ok: "holds_ok med s e C B"
    and run: "hal_kv_gc_ex s e = (s', e', status)"
  shows "status = HAL_OK \<and> steady (s_storage e')"
proof -
  note okD = holds_okD [OF ok]
  have "s\<lparr>kv_index := kv_index s\<rparr> = s" by simp
  then obtain body where c: "compact_now (compact_locked s) body" "same_place s (compact_locked s)" "holds_core med (compact_locked s) e C B"
    using compact_locked_core [OF okD(1), of e C B] okD(2) by metis
  then have "kv_dirty (compact_locked s)" by (simp add: compact_now_def)
  then have "(compact_locked s)\<lparr>kv_dirty := True\<rparr> = compact_locked s" by simp
  then have ok': "holds_ok med (compact_locked s) e C B" using holds_core_dirty [OF c(3)] by simp
  have place: "kv_placed (compact_locked s) e" using c(2) e(2) by (simp add: same_place_def kv_placed_def)
  have "kv_mutex s" "kv_ready s" using e(2) by (simp_all add: kv_placed_def)
  then show ?thesis
    using run commit_live [OF e(1) place e(3) ok'] c(2) e(3)
    by (simp add: hal_kv_gc_ex_def Let_def same_place_def split: if_splits)
qed

lemma prepare_live:
  assumes e: "online e" "kv_placed s e" "steady (s_storage e)" and ram: "ram_ok s"
    and run: "hal_kv_prepare_ex s e = (e', status)"
  shows "status = HAL_OK \<and> steady (s_storage e')"
proof -
  let ?o = "other_bank (active_bank s)" and ?n = "bank_size s"
  have ready: "kv_mutex s" "kv_ready s" using e(2) by (simp_all add: kv_placed_def)
  have "active_bank s = 0 \<or> active_bank s = 1" using ram by (simp add: ram_ok_def)
  note o = pick_other [OF this]
  have base: "bank_base s (if active_bank s = 0 then 1 else 0) = kv_base s + ?o * ?n"
    using bank_base_placed [OF e(2), of ?o] o by (simp add: other_bank_def split: if_splits)
  have geo: "erase_size dvd kv_base s + ?o * ?n" "erase_size dvd ?n" "0 < ?n" using placed_kept [OF e(1,2)] by simp_all
  have fits: "kv_base s + ?o * ?n + ?n \<le> s_size e"
    using e(2) o by (auto simp: kv_placed_def other_bank_def split: if_splits)
  have erased: "jh_eeprom_region_erased e (kv_base s + ?o * ?n) ?n = (all_erased (subarr (kv_base s + ?o * ?n) ?n (med (s_storage e))), HAL_OK)"
    by (rule facade_region_erased [OF e(1) steady [OF e(3)] fits geo(3)])
  show ?thesis
    using run ready erased facade_erase_live [OF e(1,3) fits geo(3,1,2)] e(3)
    unfolding hal_kv_prepare_ex_def base by (simp add: Let_def split: if_splits)
qed

lemma kv_exec_live:
  assumes inv: "kv_inv s e H" "steady (s_storage e)" and run: "kv_exec r s e = (s', e', status)"
  shows "status = HAL_OK \<and> steady (s_storage e') \<and> has_room r s \<or> status \<noteq> HAL_OK \<and> s' = s \<and> e' = e \<and> \<not> has_room r s"
proof -
  have e: "online e" "kv_placed s e" "ram_ok s" using inv(1) by (simp_all add: kv_inv_def)
  note e3 = e(1,2) inv(2)
  obtain C B where ok: "holds_ok med s e C B" using inv steady unfolding kv_inv_def by blast
  have ready: "kv_mutex s" "kv_ready s" using e(2) by (simp_all add: kv_placed_def)
  have set: "status = HAL_OK \<and> steady (s_storage e') \<and> has_room r s \<or> status \<noteq> HAL_OK \<and> s' = s \<and> e' = e \<and> \<not> has_room r s"
    if "set_blob_locked s e k t d = (s', e', status)" "t = KV_REC_TYPE_BLOB \<or> t = KV_REC_TYPE_U32 \<and> length d = 4"
      "kv_spec r (contents s) = (contents s)(k \<mapsto> (t, d))" for k t d
  proof -
    have "ram_ok s'" "status = HAL_OK \<longrightarrow> contents s' = (contents s)(k \<mapsto> (t, d))" "bank_size s' = bank_size s"
      using set_blob_outcome [OF e(1,2) steady [OF inv(2)] ok that(2,1)] by (auto simp: outcome_def same_place_def)
    then have "status = HAL_OK \<longrightarrow> has_room r s"
      using kv_bytes_bound card_dom_contents unfolding has_room_def that(3) by metis
    then show ?thesis using set_blob_live [OF e3 ok that(2,1)] unfolding has_room_def that(3) by auto
  qed
  have other: "has_room r s" if "\<not> (\<exists>k v. r = Set_u32 k v)" "\<not> (\<exists>k d. r = Set_blob k d)"
    using that by (intro has_room_kept [OF e(3)]; cases r) auto
  show ?thesis
  proof (cases r)
    case (Set_u32 k v)
    then have "set_blob_locked s e k KV_REC_TYPE_U32 (u32_bytes v) = (s', e', status)"
      using run ready by (simp add: hal_kv_set_u32_ex_def u32_bytes_def)
    from set [OF this] show ?thesis using Set_u32 by simp
  next
    case (Set_blob k d)
    then have "set_blob_locked s e k KV_REC_TYPE_BLOB d = (s', e', status)"
      using run ready by (simp add: hal_kv_set_blob_ex_def)
    from set [OF this] show ?thesis using Set_blob by simp
  next
    case (Delete k)
    then have "delete_locked s e k = (s', e', status)" using run ready by (simp add: hal_kv_delete_ex_def)
    from delete_live [OF e3 ok this] show ?thesis using other Delete by simp
  next
    case Collect
    then show ?thesis using gc_live [OF e3 ok] run other by simp
  next
    case Commit
    then have "commit_locked s e = (s', e', status)" using run ready by (simp add: hal_kv_commit_ex_def)
    from commit_live [OF e3 ok this] show ?thesis using other Commit by simp
  next
    case Prepare
    then show ?thesis using prepare_live [OF e3 e(3)] run other by (auto split: prod.splits)
  qed (use run ready inv(2) other in \<open>auto simp: hal_kv_set_auto_commit_def hal_kv_set_read_through_def\<close>)
qed

section \<open>Formatting\<close>

lemma format_live:
  assumes e: "online e" "powered (s_storage e)" "steady (s_storage e)" and s: "kv_mutex s"
    and n: "n \<le> HAL_KV_MAX_BANK_SIZE" "KV_PUBLISH_SIZE + KV_REC_OVERHEAD \<le> n" "base + 2 * n \<le> s_size e" "s_size e < 65536"
    and region: "region_status e base n KV_PUBLISH_SIZE = HAL_OK"
    and none: "validate_bank_buffer (subarr base n (med (s_storage e))) n = None"
      "validate_bank_buffer (subarr (base + n) n (med (s_storage e))) n = None"
  obtains s' e' where "hal_kv_init_ex s e base (2 * n) = Some (s', e', HAL_OK)" "steady (s_storage e')"
proof -
  obtain b where start: "looks_at ((geometry s base n)\<lparr>bank := b\<rparr>) e" "append_size dvd n"
    "hal_kv_init_ex s e base (2 * n) = (case format_banks ((geometry s base n)\<lparr>bank := b\<rparr>) e of (s', e', status) \<Rightarrow>
       Some (if hal_status_is_error status then (s', e', status)
         else (s'\<lparr>kv_ready := True, kv_dirty := False\<rparr>, e', HAL_OK)))"
    by (rule start_fresh [OF e(1,2) s n region none])
  let ?r = "(geometry s base n)\<lparr>bank := b\<rparr>"
  have r: "kv_mutex ?r" "0 < kv_append_size ?r" "kv_append_size ?r dvd bank_size ?r" "kv_append_size ?r = append_size"
    "region_status e (kv_base ?r) (bank_size ?r) KV_PUBLISH_SIZE = HAL_OK"
    using s append_size(1) start(2) region by simp_all
  note b0 = blank_store_ok [OF start(1) r]
  obtain v e1 st where v: "publish_full_locked (compact_locked (blank_store ?r)) e = (v, e1, st)"
    by (cases "publish_full_locked (compact_locked (blank_store ?r)) e")
  from publish_live [OF e(1) b0(2) e(3) b0(1) v] have live: "st = HAL_OK" "steady (s_storage e1)" by auto
  then show thesis
    using that [of _ e1] start(3) v unfolding format_banks_run by (simp add: hal_status_is_error_def)
qed

end

end
