(* ===== verification/Rp_Live.thy ===== *)
theory Rp_Live
  imports Rp_Medium Kv_Live
begin

text \<open>
  The flash provider while the power stays on, the flash is granted whenever it is asked for, and
  the callbacks of the application agree: every operation the store asks for succeeds.
\<close>

section \<open>The machine\<close>

locale rp_steady = rp_machine pl powered for pl :: "'w rp_platform" and powered :: "'w \<Rightarrow> bool" +
  fixes steady :: "'w \<Rightarrow> bool"
  assumes steady_on: "steady w \<Longrightarrow> powered w"
    and erase_steady: "steady w \<Longrightarrow> steady (flash_range_erase pl w at n)"
    and program_steady: "steady w \<Longrightarrow> steady (flash_range_program pl w at data)"
    and acquire_live: "steady w \<Longrightarrow> \<exists>f w'. ft_acquire (transactions pl) = Some f \<and> f w t = (w', HAL_OK) \<and> steady w'"
    and quiesce_live: "steady w \<Longrightarrow> \<exists>f w'. ft_quiesce (transactions pl) = Some f \<and> f w t = (w', HAL_OK) \<and> steady w'"
    and resume_live: "steady w \<Longrightarrow> \<exists>f w'. ft_resume (transactions pl) = Some f \<and> f w = (w', HAL_OK) \<and> steady w'"
    and release_live: "steady w \<Longrightarrow> \<exists>f w'. ft_release (transactions pl) = Some f \<and> f w = (w', HAL_OK) \<and> steady w'"
    and execute_live: "steady w \<Longrightarrow> \<exists>x w1. ft_execute (transactions pl) = Some x \<and> kept (xip pl) powered w w1 \<and> steady w1 \<and>
      (steady (fst (op w1)) \<longrightarrow> (\<exists>w'. x w op t = (w', snd (op w1)) \<and> steady w' \<and> kept (xip pl) powered (fst (op w1)) w'))"
begin

lemma transaction_live:
  assumes on: "steady w" and op: "\<And>v. steady v \<Longrightarrow> steady (fst (op v))"
    and ok: "\<And>v. steady v \<Longrightarrow> kept (xip pl) powered w v \<Longrightarrow> snd (op v) = HAL_OK"
    and run: "jh_flash_transaction_engine_execute (Some (transactions pl)) w (Some op) t = (w', st)"
  shows "st = HAL_OK \<and> steady w'"
proof -
  obtain a wa where a: "ft_acquire (transactions pl) = Some a" "a w t = (wa, HAL_OK)" "steady wa" using acquire_live [OF on] by blast
  obtain q wq where q: "ft_quiesce (transactions pl) = Some q" "q wa t = (wq, HAL_OK)" "steady wq" using quiesce_live [OF a(3)] by blast
  obtain x w1 where x: "ft_execute (transactions pl) = Some x" "kept (xip pl) powered wq w1" "steady w1"
    "steady (fst (op w1)) \<longrightarrow> (\<exists>w'. x wq op t = (w', snd (op w1)) \<and> steady w' \<and> kept (xip pl) powered (fst (op w1)) w')"
    using execute_live [OF q(3)] by blast
  have "kept (xip pl) powered w wa" "kept (xip pl) powered wa wq"
    using acquire_law [OF a(1,2)] quiesce_law [OF q(1,2)] by blast+
  then have "kept (xip pl) powered w w1" using kept_trans [OF kept_trans x(2)] by blast
  then have "snd (op w1) = HAL_OK" by (rule ok [OF x(3)])
  then obtain wx where wx: "x wq op t = (wx, HAL_OK)" "steady wx" using x(4) op [OF x(3)] by auto
  obtain r wr where r: "ft_resume (transactions pl) = Some r" "r wx = (wr, HAL_OK)" "steady wr" using resume_live [OF wx(2)] by blast
  obtain l wl where l: "ft_release (transactions pl) = Some l" "l wr = (wl, HAL_OK)" "steady wl" using release_live [OF r(3)] by blast
  show ?thesis
    using run a q x(1) wx r l by (simp add: jh_flash_transaction_engine_execute_def first_error_def Let_def)
qed

section \<open>The operations on a partition\<close>

lemma program_pages_steady: "steady w \<Longrightarrow> steady (program_pages pl at data stop torn w page)"
proof (induction "stop - page" arbitrary: page w rule: less_induct)
  case less
  show ?case
  proof (cases "page < stop")
    case False
    then show ?thesis using less.prems by (simp add: program_pages.simps)
  next
    case True
    let ?img = "page_image at data torn page"
    have "steady (if \<not> list_all (\<lambda>v. v = 0xFF) ?img then flash_range_program pl w page ?img else w)"
      using less.prems program_steady by simp
    then have "steady (program_pages pl at data stop torn
        (if \<not> list_all (\<lambda>v. v = 0xFF) ?img then flash_range_program pl w page ?img else w) (page + FLASH_PAGE_SIZE))"
      using True by (intro less.hyps) (simp_all add: FLASH_PAGE_SIZE_def)
    then show ?thesis using True by (subst program_pages.simps) (simp add: Let_def)
  qed
qed

lemma run_operation_steady: "steady w \<Longrightarrow> steady (fst (run_flash_operation pl operation w))"
  by (simp add: run_flash_operation_def Let_def program_bytes_def program_pages_steady erase_steady program_steady)

lemma program_live:
  assumes on: "steady w" and fits: "at + length data \<le> length (xip pl w)"
    and erased: "all_erased (subarr at (length data) (xip pl w))"
    and run: "rp_execute pl w ActProgramBytes at data (length data) = (w', st)"
  shows "st = HAL_OK \<and> steady w'"
proof (rule transaction_live [OF on run_operation_steady _ run [unfolded rp_execute_def rp_transaction_def]])
  fix v assume v: "steady v" "kept (xip pl) powered w v"
  let ?v = "program_bytes pl v at data (length data) (length data)"
  have fits': "at + length data \<le> length (xip pl v)" "all_erased (subarr at (length data) (xip pl v))"
    using fits erased v(2) by (simp_all add: kept_def)
  have "powered ?v" using program_pages_steady [OF v(1)] unfolding program_bytes_def by (rule steady_on)
  then have "xip pl ?v = blit (xip pl v) at data"
    using program_bytes_ok [OF fits'] by (metis take_all order_refl)
  then have "stored_matches pl ?v at data" using fits' by (simp add: stored_matches_def)
  then show "snd (run_flash_operation pl \<lparr>fo_action = ActProgramBytes, fo_offset = at, fo_data = data,
      fo_size = length data, fo_publish_size = 0, fo_erased = False\<rparr> v) = HAL_OK"
    by (simp add: run_flash_operation_def Let_def)
qed

lemma erase_live:
  assumes "steady w" and run: "rp_execute pl w ActErase at [] n = (w', st)"
  shows "st = HAL_OK \<and> steady w'"
  by (rule transaction_live [OF assms(1) run_operation_steady _ run [unfolded rp_execute_def rp_transaction_def]])
    (simp_all add: run_flash_operation_def Let_def)

lemma replace_live:
  assumes on: "steady w" and fits: "at + length data \<le> length (xip pl w)" and publish: "0 < publish" "publish < length data"
      "FLASH_SECTOR_SIZE dvd at" "FLASH_SECTOR_SIZE dvd length data" "FLASH_PAGE_SIZE dvd publish"
    and erased: "erased \<Longrightarrow> all_erased (subarr at (length data) (xip pl w))"
    and run: "rp_transaction pl w \<lparr>fo_action = ActReplacePublished, fo_offset = at, fo_data = data, fo_size = length data,
      fo_publish_size = publish, fo_erased = erased\<rparr> = (w', st)"
  shows "st = HAL_OK \<and> steady w'"
proof (rule transaction_live [OF on run_operation_steady _ run [unfolded rp_transaction_def]])
  fix v assume v: "steady v" "kept (xip pl) powered w v"
  let ?n = "length data" and ?body = "length data - publish"
  let ?op = "\<lparr>fo_action = ActReplacePublished, fo_offset = at, fo_data = data, fo_size = ?n, fo_publish_size = publish, fo_erased = erased\<rparr>"
  define we where "we = (if erased then v else flash_range_erase pl v at ?n)"
  define wb where "wb = program_bytes pl we (at + publish) (drop publish data) ?body ?body"
  define w2 where "w2 = (if stored_matches pl wb (at + publish) (drop publish data)
      then flash_range_program pl wb at (take publish data) else wb)"
  have fits1: "at + ?n \<le> length (xip pl v)" using fits v(2) by (simp add: kept_def)
  have page: "FLASH_PAGE_SIZE dvd at" using publish(3) by (auto simp: FLASH_PAGE_SIZE_def FLASH_SECTOR_SIZE_def elim!: dvdE)
  have steady: "steady we" using v(1) erase_steady by (simp add: we_def)
  have "steady wb" unfolding wb_def program_bytes_def by (rule program_pages_steady [OF steady])
  then have on2: "powered w2" using program_steady steady_on by (simp add: w2_def)
  have e: "length (xip pl we) = length (xip pl v) \<and> all_erased (subarr at ?n (xip pl we))"
  proof (cases erased)
    case True
    then show ?thesis using erased v(2) by (simp add: we_def kept_def)
  next
    case False
    have "0 < ?n" using publish(2) by linarith
    from erase_law [OF publish(3,4) this fits1 refl] steady_on [OF steady] False
    obtain new where "length new = ?n" "xip pl we = blit (xip pl v) at new" "new = replicate ?n 0xFF"
      by (auto simp: we_def)
    then show ?thesis using fits1 subarr_blit_same [of at new "xip pl v"] by (simp add: all_erased_def list_all_iff)
  qed
  then have fits2: "at + ?n \<le> length (xip pl we)" using fits1 by simp
  have "stored_matches pl wb (at + publish) (drop publish data)"
    by (rule publish_effect [OF fits2 publish(1,2) page publish(5) conjunct2 [OF e] wb_def w2_def]) (use on2 in blast)
  then show "snd (run_flash_operation pl ?op v) = HAL_OK"
    unfolding wb_def we_def by (simp add: run_flash_operation_def Let_def split: if_splits)
qed

section \<open>The provider\<close>

lemma rp_program_live:
  assumes on: "steady (re_world h)" and fits: "addr + length data \<le> part_size (re_partition h)" "data \<noteq> []"
      "flash_offset (re_partition h) + part_size (re_partition h) \<le> length (rp_cells pl h)"
    and erased: "all_erased (subarr (flash_offset (re_partition h) + addr) (length data) (rp_cells pl h))"
    and run: "rp_program pl h addr data = (h', st)"
  shows "st = HAL_OK \<and> steady (re_world h')"
proof -
  let ?at = "flash_offset (re_partition h) + addr"
  have "0 < length data" using fits(2) by simp
  then have "0 < part_size (re_partition h)" "length data \<le> part_size (re_partition h) - addr" "addr \<le> part_size (re_partition h)"
    using fits(1) by linarith+
  then have ok: "range_valid (re_partition h) addr (length data)" by (simp add: range_valid_def)
  obtain w' where w': "rp_execute pl (re_world h) ActProgramBytes ?at data (length data) = (w', st)" "h' = h\<lparr>re_world := w'\<rparr>"
    using run ok fits(2)
    by (auto simp: rp_program_def jh_rp_flash_storage_program_bytes_def on_world_def Let_def split: prod.splits)
  have "?at + length data \<le> length (xip pl (re_world h))" using fits by (simp add: rp_cells_def)
  from program_live [OF on this _ w'(1)] erased show ?thesis by (simp add: rp_cells_def w'(2))
qed

lemma rp_erase_live:
  assumes on: "steady (re_world h)" and fits: "addr + n \<le> part_size (re_partition h)" "0 < n"
    and aligned: "FLASH_SECTOR_SIZE dvd flash_offset (re_partition h)" "FLASH_SECTOR_SIZE dvd addr" "FLASH_SECTOR_SIZE dvd n"
    and run: "rp_erase pl h addr n = (h', st)"
  shows "st = HAL_OK \<and> steady (re_world h')"
proof -
  let ?at = "flash_offset (re_partition h) + addr"
  have ok: "range_valid (re_partition h) addr n" using fits by (simp add: range_valid_def)
  have al: "FLASH_SECTOR_SIZE dvd ?at" using aligned by simp
  obtain w' where w': "rp_execute pl (re_world h) ActErase ?at [] n = (w', st)" "h' = h\<lparr>re_world := w'\<rparr>"
    using run ok fits(2) al aligned(3)
    by (auto simp: rp_erase_def jh_rp_flash_storage_erase_def on_world_def Let_def mod_eq_0_iff_dvd split: prod.splits)
  from erase_live [OF on w'(1)] show ?thesis by (simp add: w'(2))
qed

lemma rp_replace_live:
  assumes on: "steady (re_world h)" and fits: "addr + length data \<le> part_size (re_partition h)"
      "flash_offset (re_partition h) + part_size (re_partition h) \<le> length (rp_cells pl h)"
    and aligned: "FLASH_SECTOR_SIZE dvd flash_offset (re_partition h)" "FLASH_SECTOR_SIZE dvd addr" "FLASH_SECTOR_SIZE dvd length data"
    and publish: "0 < publish" "publish < length data" "FLASH_PAGE_SIZE dvd publish"
    and erased: "er \<Longrightarrow> all_erased (subarr (flash_offset (re_partition h) + addr) (length data) (rp_cells pl h))"
    and run: "rp_replace_region pl h addr data publish er = (h', st)"
  shows "st = HAL_OK \<and> steady (re_world h')"
proof -
  let ?at = "flash_offset (re_partition h) + addr" and ?n = "length data"
  obtain w' st0 where w': "rp_transaction pl (re_world h) \<lparr>fo_action = ActReplacePublished, fo_offset = ?at, fo_data = data,
      fo_size = ?n, fo_publish_size = publish, fo_erased = er\<rparr> = (w', st0)"
    "h' = h\<lparr>re_world := w'\<rparr>" "st = (if st0 \<noteq> HAL_OK then st0 else if stored_matches pl w' ?at data then HAL_OK else HAL_EIO)"
    by (rule rp_replace_call [OF fits(1) aligned publish run])
  have inside: "?at + ?n \<le> length (xip pl (re_world h))" using fits by (simp add: rp_cells_def)
  have al: "FLASH_SECTOR_SIZE dvd ?at" using aligned by simp
  have live: "st0 = HAL_OK \<and> steady w'"
    by (rule replace_live [OF on inside publish(1,2) al aligned(3) publish(3) _ w'(1)])
      (use erased in \<open>simp add: rp_cells_def\<close>)
  have "stored_matches pl w' ?at data"
  proof -
    have "er \<Longrightarrow> powered (re_world h) \<Longrightarrow> all_erased (subarr ?at ?n (xip pl (re_world h)))" using erased by (simp add: rp_cells_def)
    from replace_effect [OF inside publish(1,2) al aligned(3) publish(3) this w'(1)] live steady_on
    have "xip pl w' = blit (xip pl (re_world h)) ?at data" by blast
    then show ?thesis using inside by (simp add: stored_matches_def)
  qed
  then show ?thesis using live w'(2,3) by simp
qed

text \<open>The callbacks agree and leave the power on.\<close>

definition rp_still :: "'w rp_eeprom flash_state \<Rightarrow> bool" where
  "rp_still p \<longleftrightarrow> steady (re_world (fp_flash p)) \<and>
     (\<forall>f h. fp_prepare p = Some f \<longrightarrow> steady (re_world h) \<longrightarrow> (\<exists>h'. f h = (h', HAL_OK) \<and> steady (re_world h'))) \<and>
     (\<forall>g h. fp_finish p = Some g \<longrightarrow> steady (re_world h) \<longrightarrow> steady (re_world (g h)))"

lemma begin_live:
  assumes "rp_good pl powered p" "rp_still p"
  obtains h1 where "jh_eeprom_flash_write_begin p = (p\<lparr>fp_flash := h1\<rparr>, HAL_OK)" "harmless pl powered (fp_flash p) h1" "steady (re_world h1)"
proof (cases "fp_prepare p")
  case None
  then have "jh_eeprom_flash_write_begin p = (p\<lparr>fp_flash := fp_flash p\<rparr>, HAL_OK)" by (simp add: jh_eeprom_flash_write_begin_def)
  then show thesis using that [of "fp_flash p"] assms(2) by (simp add: harmless_def kept_def rp_still_def)
next
  case (Some f)
  then obtain h1 where h1: "f (fp_flash p) = (h1, HAL_OK)" "steady (re_world h1)" using assms(2) unfolding rp_still_def by blast
  then have "jh_eeprom_flash_write_begin p = (p\<lparr>fp_flash := h1\<rparr>, HAL_OK)" using Some by (simp add: jh_eeprom_flash_write_begin_def)
  moreover have "harmless pl powered (fp_flash p) h1" using assms(1) Some h1(1) unfolding rp_good_def callbacks_ok_def by blast
  ultimately show thesis using that h1(2) by blast
qed

lemma end_live:
  assumes "rp_still p" "steady (re_world h)" "p' = jh_eeprom_flash_write_end (p\<lparr>fp_flash := h\<rparr>)"
  shows "rp_still p'" "rp_still (p'\<lparr>fp_mirror := m\<rparr>)"
proof -
  have "rp_still p'"
  proof (cases "fp_finish p")
    case None
    then show ?thesis using assms by (simp add: jh_eeprom_flash_write_end_def rp_still_def)
  next
    case (Some g)
    then have "steady (re_world (g h))" using assms(1,2) unfolding rp_still_def by blast
    then show ?thesis using assms Some by (simp add: jh_eeprom_flash_write_end_def rp_still_def)
  qed
  then show "rp_still p'" "rp_still (p'\<lparr>fp_mirror := m\<rparr>)" by (simp_all add: rp_still_def)
qed

lemma mirror_erased_med:
  "rp_good pl powered p \<Longrightarrow> rp_still p \<Longrightarrow> addr + n \<le> fp_active_size p \<Longrightarrow>
   mirror_erased p addr n = all_erased (subarr addr n (rp_med pl p))"
  using mirror_med [of pl powered p addr n] steady_on
  by (simp add: mirror_erased_def all_erased_def rp_still_def rp_on_def)

lemma flash_append_live:
  assumes good: "rp_good pl powered p" "rp_still p" and fits: "addr + length data \<le> fp_active_size p" "data \<noteq> []"
    and blank: "all_erased (subarr addr (length data) (rp_med pl p))"
    and run: "flash_append (rp_backend c pl) p addr data = (p', st)"
  shows "st = HAL_OK \<and> rp_still p'"
proof -
  let ?n = "length data"
  obtain h1 where h1: "jh_eeprom_flash_write_begin p = (p\<lparr>fp_flash := h1\<rparr>, HAL_OK)" "harmless pl powered (fp_flash p) h1" "steady (re_world h1)"
    by (rule begin_live [OF good])
  note geo = geometry_kept [OF good(1) h1(2) fits(1)]
  obtain h2 st2 where p2: "rp_program pl h1 addr data = (h2, st2)" by (cases "rp_program pl h1 addr data")
  have "all_erased (subarr (flash_offset (re_partition h1) + addr) ?n (rp_cells pl h1))" unfolding geo(1,5) by (rule blank)
  from rp_program_live [OF h1(3) geo(2) fits(2) geo(3) this p2] have live: "st2 = HAL_OK" "steady (re_world h2)" by auto
  have "mirror_erased p addr ?n" using mirror_erased_med [OF good fits(1)] blank by simp
  then show ?thesis
    using run geo(6,7) fits(2) h1(1) p2 live end_live(2) [OF good(2) live(2) refl]
    by (auto simp: flash_append_def Let_def rp_backend_def)
qed

lemma flash_erase_live:
  assumes good: "rp_good pl powered p" "rp_still p" and fits: "addr + n \<le> fp_active_size p" "0 < n"
    and aligned: "FLASH_SECTOR_SIZE dvd addr" "FLASH_SECTOR_SIZE dvd n"
    and run: "flash_erase (rp_backend c pl) p addr n = (p', st)"
  shows "st = HAL_OK \<and> rp_still p'"
proof -
  obtain h1 where h1: "jh_eeprom_flash_write_begin p = (p\<lparr>fp_flash := h1\<rparr>, HAL_OK)" "harmless pl powered (fp_flash p) h1" "steady (re_world h1)"
    by (rule begin_live [OF good])
  note geo = geometry_kept [OF good(1) h1(2) fits(1)]
  obtain h2 st2 where p2: "rp_erase pl h1 addr n = (h2, st2)" by (cases "rp_erase pl h1 addr n")
  from rp_erase_live [OF h1(3) geo(2) fits(2) geo(4) aligned p2] have live: "st2 = HAL_OK" "steady (re_world h2)" by auto
  then show ?thesis
    using run geo(6,7) h1(1) p2 live end_live(2) [OF good(2) live(2) refl]
    by (auto simp: flash_erase_def Let_def rp_backend_def)
qed

lemma flash_replace_live:
  assumes good: "rp_good pl powered p" "rp_still p" and fits: "addr + length data \<le> fp_active_size p"
    and aligned: "FLASH_SECTOR_SIZE dvd addr" "FLASH_SECTOR_SIZE dvd length data"
    and publish: "0 < publish" "publish < length data" "FLASH_PAGE_SIZE dvd publish"
    and run: "flash_replace_region (rp_backend c pl) p addr data publish = (p', st)"
  shows "st = HAL_OK \<and> rp_still p'"
proof -
  let ?n = "length data" and ?er = "mirror_erased p addr (length data)"
  obtain h1 where h1: "jh_eeprom_flash_write_begin p = (p\<lparr>fp_flash := h1\<rparr>, HAL_OK)" "harmless pl powered (fp_flash p) h1" "steady (re_world h1)"
    by (rule begin_live [OF good])
  note geo = geometry_kept [OF good(1) h1(2) fits]
  obtain h2 st2 where p2: "rp_replace_region pl h1 addr data publish ?er = (h2, st2)" by (cases "rp_replace_region pl h1 addr data publish ?er")
  have "?er \<Longrightarrow> all_erased (subarr (flash_offset (re_partition h1) + addr) ?n (rp_cells pl h1))"
    unfolding geo(1) using mirror_erased_cells [OF good(1) fits h1(2)] steady_on [OF h1(3)] by blast
  from rp_replace_live [OF h1(3) geo(2,3,4) aligned publish this p2] have live: "st2 = HAL_OK" "steady (re_world h2)" by auto
  have er: "mirror_erased (p\<lparr>fp_flash := h1\<rparr>) addr ?n = ?er" by (simp add: mirror_erased_def)
  show ?thesis
    using run geo(6,7) h1(1) p2 live end_live(2) [OF good(2) live(2) refl] publish(1,2)
    by (auto simp: flash_replace_region_def Let_def rp_backend_def er)
qed

end

section \<open>The laws\<close>

sublocale rp_steady \<subseteq> rps: kv_reliable "flash_provider (rp_backend c pl)" "rp_med pl" "rp_on powered" "rp_good pl powered"
    FLASH_SECTOR_SIZE FLASH_PAGE_SIZE 1 rp_still for c
proof (unfold_locales, goal_cases)
  case (1 p)
  then show ?case by (simp add: rp_still_def rp_on_def steady_on)
next
  case (2 p addr data publish p' status)
  have "addr + length data \<le> fp_active_size p" using 2(3) length_rp_med [OF 2(1)] by simp
  from flash_replace_live [OF 2(1,2) this 2(4,5,9,10,8)] 2(11) show ?case by (simp add: flash_provider_def)
next
  case (3 p addr data p' status)
  have "addr + length data \<le> fp_active_size p" using 3(3) length_rp_med [OF 3(1)] by simp
  from flash_append_live [OF 3(1,2) this 3(6,7)] 3(8) show ?case by (simp add: flash_provider_def)
next
  case (4 p addr len p' status)
  have "addr + len \<le> fp_active_size p" using 4(3) length_rp_med [OF 4(1)] by simp
  from flash_erase_live [OF 4(1,2) this 4(6,4,5)] 4(7) show ?case by (simp add: flash_provider_def)
qed

end
