(* ===== verification/Rp_Boot.thy ===== *)
theory Rp_Boot
  imports Rp_Live
begin

text \<open>
  The facade after its initialisation on the RP backend is what the laws of the medium are about,
  and a simulated flash, with a charge that may run out in the middle of an operation, to run
  the whole stack on.
\<close>

section \<open>Initialisation\<close>

lemma part_eeprom:
  assumes "0 < HAL_RP_FLASH_EEPROM_SIZE c"
  shows "jh_rp_flash_storage_partition c JH_RP_FLASH_PARTITION_EEPROM =
    (Some \<lparr>flash_offset = PICO_FLASH_SIZE_BYTES c - HAL_RP_FLASH_EEPROM_SIZE c, part_size = HAL_RP_FLASH_EEPROM_SIZE c\<rparr>, HAL_OK)"
  using assms by (simp add: jh_rp_flash_storage_partition_def JH_RP_FLASH_PARTITION_EEPROM_def
      JH_RP_FLASH_PARTITION_OTA_PROGRAM_def)

lemma rp_load_ok:
  assumes "0 < HAL_RP_FLASH_EEPROM_SIZE c" "HAL_RP_FLASH_EEPROM_SIZE c \<le> 0xFFFF"
  shows "rp_load c pl h mirror =
    (h\<lparr>re_partition := \<lparr>flash_offset = PICO_FLASH_SIZE_BYTES c - HAL_RP_FLASH_EEPROM_SIZE c, part_size = HAL_RP_FLASH_EEPROM_SIZE c\<rparr>\<rparr>,
     blit mirror 0 (subarr (PICO_FLASH_SIZE_BYTES c - HAL_RP_FLASH_EEPROM_SIZE c) (HAL_RP_FLASH_EEPROM_SIZE c) (xip pl (re_world h))),
     HAL_RP_FLASH_EEPROM_SIZE c, HAL_OK)"
  using assms by (simp add: rp_load_def part_eeprom jh_rp_flash_storage_read_def range_valid_def Let_def)

context rp_machine
begin

lemma eeprom_boot:
  assumes c: "rp_config_valid c" "0 < HAL_RP_FLASH_EEPROM_SIZE c" "HAL_RP_FLASH_EEPROM_SIZE c \<le> 0xFFFF"
      "FLASH_SECTOR_SIZE dvd PICO_FLASH_SIZE_BYTES c"
    and flash: "length (xip pl (re_world (fp_flash (s_storage e)))) = PICO_FLASH_SIZE_BYTES c"
    and mirror: "length (fp_mirror (s_storage e)) = HAL_RP_FLASH_EEPROM_SIZE c" and callbacks: "callbacks_ok pl powered (s_storage e)"
    and size: "sz \<le> HAL_RP_FLASH_EEPROM_SIZE c" and t: "t \<noteq> HAL_EEPROM_AT24C256"
    and run: "hal_eeprom_init (jh_eeprom_provider_get_ops ext c pl) e t sz i2c = (e', status)"
  shows "status = HAL_OK \<and>
    attached (flash_provider (rp_backend c pl)) (rp_med pl) (rp_good pl powered) FLASH_SECTOR_SIZE FLASH_PAGE_SIZE 1 e' \<and>
    s_size e' = (if sz = 0 then HAL_RP_FLASH_EEPROM_SIZE c else sz) \<and>
    re_world (fp_flash (s_storage e')) = re_world (fp_flash (s_storage e)) \<and>
    fp_prepare (s_storage e') = fp_prepare (s_storage e) \<and> fp_finish (s_storage e') = fp_finish (s_storage e) \<and>
    rp_med pl (s_storage e') = subarr (PICO_FLASH_SIZE_BYTES c - HAL_RP_FLASH_EEPROM_SIZE c) (s_size e')
      (xip pl (re_world (fp_flash (s_storage e))))"
proof -
  let ?n = "HAL_RP_FLASH_EEPROM_SIZE c" and ?w = "re_world (fp_flash (s_storage e))"
  let ?start = "PICO_FLASH_SIZE_BYTES c - ?n" and ?size = "if sz = 0 then ?n else sz"
  define p where "p = (s_storage e)\<lparr>fp_ready := True, fp_dirty := False, fp_storage_size := ?n,
    fp_mirror := blit (fp_mirror (s_storage e)) 0 (subarr ?start ?n (xip pl ?w)),
    fp_flash := (fp_flash (s_storage e))\<lparr>re_partition := \<lparr>flash_offset = ?start, part_size = ?n\<rparr>\<rparr>,
    fp_active_size := ?size\<rparr>"
  have ops: "jh_eeprom_provider_get_ops ext c pl t = Some (flash_provider (rp_backend c pl))"
    using t by (cases t) (simp_all add: jh_eeprom_provider_get_ops_def jh_eeprom_hardware_provider_get_ops_def
        jh_eeprom_flash_provider_configure_def)
  have init: "flash_initialize (rp_backend c pl) (s_storage e) t sz i2c =
      (p, \<lparr>info_size = ?size, info_erase_size = FLASH_SECTOR_SIZE, info_program_size = FLASH_PAGE_SIZE, info_append_size = 1\<rparr>, HAL_OK)"
    using c(2,3) size by (simp add: flash_initialize_def rp_backend_def rp_load_ok p_def Let_def)
  have e': "status = HAL_OK" "e' = e\<lparr>s_provider := Some (flash_provider (rp_backend c pl)), s_size := ?size,
      s_erase_size := FLASH_SECTOR_SIZE, s_program_size := FLASH_PAGE_SIZE, s_append_size := 1, s_storage := p\<rparr>"
    using run c(2) by (simp_all add: hal_eeprom_init_def ops flash_provider_def init Let_def FLASH_SECTOR_SIZE_def
        FLASH_PAGE_SIZE_def split: if_splits)
  have fits: "?n \<le> PICO_FLASH_SIZE_BYTES c" "FLASH_SECTOR_SIZE dvd ?n" using c(1) by (auto simp: rp_config_valid_def)
  then have start: "FLASH_SECTOR_SIZE dvd ?start" "?start + ?n = length (xip pl ?w)" using c(4) flash by (simp_all add: dvd_diff_nat)
  have cells: "rp_cells pl (fp_flash p) = xip pl ?w" "rp_start p = ?start" "fp_active_size p = ?size"
    by (simp_all add: p_def rp_cells_def rp_start_def)
  have "length (subarr ?start ?n (xip pl ?w)) = ?n" using start(2) by simp
  then have "blit (fp_mirror (s_storage e)) 0 (subarr ?start ?n (xip pl ?w)) = subarr ?start ?n (xip pl ?w)"
    using mirror by (simp add: blit_def)
  then have m: "fp_mirror p = subarr ?start ?n (xip pl ?w)" "length (fp_mirror p) = ?n" using start(2) by (simp_all add: p_def)
  have "callbacks_ok pl powered p" using callbacks by (simp add: callbacks_ok_def p_def)
  then have good: "rp_good pl powered p"
    unfolding rp_good_def cells m(1) using start size m by (simp add: p_def)
  have "length (rp_med pl p) = ?size" using length_rp_med [OF good] cells(3) by simp
  then show ?thesis
    using e' good c(2) size by (simp add: attached_def rp_med_def cells) (simp add: p_def)
qed

end

section \<open>A simulated flash\<close>

text \<open>
  The charge is the number of bytes that can still be erased or programmed before the power
  fails, or \<open>None\<close> for a charge that lasts. What the last operation could not do stays undone.
\<close>

record sim =
  cells :: "nat \<Rightarrow> u8"
  charge :: "nat option"

definition sim_size :: nat where "sim_size = 2097152"

definition sim_xip :: "sim \<Rightarrow> bytes" where
  "sim_xip w = map (cells w) [0..<sim_size]"

definition sim_change :: "sim \<Rightarrow> nat \<Rightarrow> nat \<Rightarrow> (nat \<Rightarrow> u8) \<Rightarrow> sim" where
  "sim_change w at n f =
     (let reach = (case charge w of None \<Rightarrow> n | Some k \<Rightarrow> min k n) in
      w\<lparr>cells := \<lambda>i. if at \<le> i \<and> i < at + reach then f i else cells w i, charge := map_option (\<lambda>k. k - n) (charge w)\<rparr>)"

definition sim_on :: "sim \<Rightarrow> bool" where "sim_on w \<longleftrightarrow> charge w \<noteq> Some 0"
definition sim_steady :: "sim \<Rightarrow> bool" where "sim_steady w \<longleftrightarrow> charge w = None"

definition sim_platform :: "sim rp_platform" where
  "sim_platform =
     \<lparr>xip = sim_xip,
      flash_range_erase = \<lambda>w at n. sim_change w at n (\<lambda>i. 0xFF),
      flash_range_program = \<lambda>w at data. sim_change w at (length data) (\<lambda>i. cells w i AND data ! (i - at)),
      transactions = \<lparr>ft_acquire = Some (\<lambda>w t. (w, HAL_OK)), ft_quiesce = Some (\<lambda>w t. (w, HAL_OK)),
        ft_execute = Some (\<lambda>w op t. op w), ft_resume = Some (\<lambda>w. (w, HAL_OK)), ft_release = Some (\<lambda>w. (w, HAL_OK))\<rparr>\<rparr>"

lemma length_sim_xip [simp]: "length (sim_xip w) = sim_size"
  by (simp add: sim_xip_def)

lemma nth_sim_xip: "i < sim_size \<Longrightarrow> sim_xip w ! i = cells w i"
  by (simp add: sim_xip_def)

lemma sim_change_xip:
  assumes "at + n \<le> sim_size" and k: "k = (case charge w of None \<Rightarrow> n | Some k \<Rightarrow> min k n)"
  shows "sim_xip (sim_change w at n f) = blit (sim_xip w) at (map f [at..<at + k])"
proof (rule nth_equalityI)
  have "k \<le> n" unfolding k by (simp split: option.split)
  then show "length (sim_xip (sim_change w at n f)) = length (blit (sim_xip w) at (map f [at..<at + k]))" using assms(1) by simp
  fix i assume "i < length (sim_xip (sim_change w at n f))"
  then show "sim_xip (sim_change w at n f) ! i = blit (sim_xip w) at (map f [at..<at + k]) ! i"
    using assms(1) \<open>k \<le> n\<close> by (auto simp: nth_sim_xip nth_blit sim_change_def Let_def k [symmetric])
qed

lemma sim_change_later:
  assumes "at + n \<le> sim_size"
  shows "later sim_xip sim_on w (sim_change w at n f)"
proof -
  have on: "sim_on (sim_change w at n f) \<longrightarrow> sim_on w" by (auto simp: sim_on_def sim_change_def Let_def split: option.splits)
  have "sim_xip (sim_change w at n f) = sim_xip w" if "\<not> sim_on w"
    using that sim_change_xip [OF assms refl, of w f] by (simp add: sim_on_def blit_def)
  then show ?thesis using on by (simp add: later_def)
qed

lemma sim_kept [simp]: "kept sim_xip sim_on w w"
  by (simp add: kept_def)

interpretation sim: rp_steady sim_platform sim_on sim_steady
proof (unfold_locales, goal_cases)
  case (1 w)
  show ?case by (simp add: sim_platform_def sim_size_def FLASH_PAGE_SIZE_def)
next
  case (2 at n w w')
  let ?k = "case charge w of None \<Rightarrow> n | Some k \<Rightarrow> min k n"
  have fits: "at + n \<le> sim_size" and w': "w' = sim_change w at n (\<lambda>i. 0xFF)" using 2(4,5) by (simp_all add: sim_platform_def)
  let ?new = "replicate ?k 0xFF @ subarr (at + ?k) (n - ?k) (sim_xip w)"
  have k: "?k \<le> n" by (simp split: option.split)
  have "sim_xip w' = blit (sim_xip w) at (replicate ?k 0xFF)"
    using sim_change_xip [OF fits refl, of w "\<lambda>i. 0xFF"] unfolding w' by (simp add: map_replicate_const)
  also have "\<dots> = blit (sim_xip w) at ?new"
    using k fits by (intro nth_equalityI) (auto simp: nth_blit nth_append nth_subarr)
  finally have x: "sim_xip w' = blit (sim_xip w) at ?new" .
  have "length ?new = n" using k fits by simp
  moreover have "if sim_on w' then ?new = replicate n 0xFF else ?new = subarr at n (sim_xip w) \<or> hd ?new = 0xFF"
  proof (cases "?k = 0")
    case True
    have "0 < n" by fact
    then have "\<not> sim_on w'" using True by (auto simp: sim_on_def w' sim_change_def Let_def split: option.splits)
    then show ?thesis using True by simp
  next
    case False
    then have "hd ?new = 0xFF" by (cases ?k) simp_all
    moreover have "?k = n" if "sim_on w'" using that by (auto simp: sim_on_def w' sim_change_def Let_def split: option.splits)
    ultimately show ?thesis by (auto simp: subarr_def)
  qed
  ultimately have "length ?new = n \<and> sim_xip w' = blit (sim_xip w) at ?new \<and>
      (if sim_on w' then ?new = replicate n 0xFF else ?new = subarr at n (sim_xip w) \<or> hd ?new = 0xFF)" using x by simp
  then have "\<exists>new. length new = n \<and> sim_xip w' = blit (sim_xip w) at new \<and>
      (if sim_on w' then new = replicate n 0xFF else new = subarr at n (sim_xip w) \<or> hd new = 0xFF)" by (rule exI)
  moreover have "xip sim_platform = sim_xip" by (simp add: sim_platform_def)
  ultimately show ?case using sim_change_later [OF fits] unfolding w' by (simp only:)
next
  case (3 at data w w')
  let ?k = "case charge w of None \<Rightarrow> length data | Some k \<Rightarrow> min k (length data)"
  let ?f = "\<lambda>i. cells w i AND data ! (i - at)"
  have fits: "at + length data \<le> sim_size" and w': "w' = sim_change w at (length data) ?f" using 3(3,4) by (simp_all add: sim_platform_def)
  have k: "?k \<le> length data" by (simp split: option.split)
  have "map ?f [at..<at + ?k] = map2 (AND) (subarr at ?k (sim_xip w)) (take ?k data)"
    using k fits by (intro nth_equalityI) (auto simp: nth_subarr nth_sim_xip)
  then have "sim_xip w' = blit (sim_xip w) at (map2 (AND) (subarr at ?k (sim_xip w)) (take ?k data))"
    using sim_change_xip [OF fits refl, of w ?f] unfolding w' by simp
  moreover have "sim_on w' \<longrightarrow> ?k = length data"
    by (auto simp: sim_on_def w' sim_change_def Let_def split: option.splits)
  ultimately show ?case using sim_change_later [OF fits] k by (auto simp: w' sim_platform_def)
next
  case (8 x w op t w' st)
  then have "op w = (w', st)" by (auto simp: sim_platform_def)
  moreover have "kept (xip sim_platform) sim_on v v" for v by (simp add: kept_def)
  ultimately show ?case by blast
next
  case (16 w op t)
  have "x = (\<lambda>w op t. op w) \<Longrightarrow> x w op t = op w" for x :: "sim \<Rightarrow> (sim \<Rightarrow> sim \<times> hal_status) \<Rightarrow> nat \<Rightarrow> sim \<times> hal_status" by simp
  moreover have "ft_execute (transactions sim_platform) = Some (\<lambda>w op t. op w)" by (simp add: sim_platform_def)
  moreover have "kept (xip sim_platform) sim_on v v" for v by (simp add: kept_def)
  ultimately show ?case using 16 by (metis prod.collapse)
qed (auto simp: sim_platform_def sim_on_def sim_steady_def sim_change_def Let_def)

end
