(* ===== verification/Kv_Total.thy ===== *)
theory Kv_Total
  imports Kv_Store
begin

text \<open>
  The start of the store returns whatever the medium holds: every round of the walk over the log
  moves forward, also over a bank that was damaged or never written by the store.
\<close>

section \<open>Returning\<close>

text \<open>A computation with fuel returns; the rules follow its control flow.\<close>

definition returns :: "'a option \<Rightarrow> bool" where
  "returns r \<longleftrightarrow> r \<noteq> None"

lemma returns_Some: "returns (Some x)"
  by (simp add: returns_def)

lemma returns_if: "(P \<Longrightarrow> returns a) \<Longrightarrow> (\<not> P \<Longrightarrow> returns b) \<Longrightarrow> returns (if P then a else b)"
  by simp

lemma returns_prod: "(\<And>a b. p = (a, b) \<Longrightarrow> returns (f a b)) \<Longrightarrow> returns (case p of (a, b) \<Rightarrow> f a b)"
  by (cases p) simp

lemma returns_option:
  "(r = None \<Longrightarrow> returns a) \<Longrightarrow> (\<And>x. r = Some x \<Longrightarrow> returns (f x)) \<Longrightarrow> returns (case r of None \<Rightarrow> a | Some x \<Rightarrow> f x)"
  by (cases r) simp_all

lemma returns_case: "returns r \<Longrightarrow> (\<And>x. r = Some x \<Longrightarrow> returns (f x)) \<Longrightarrow> returns (case r of None \<Rightarrow> None | Some x \<Rightarrow> f x)"
  by (cases r) (simp_all add: returns_def)

lemmas returns_intros = returns_Some returns_if returns_prod returns_option

section \<open>The walk over the log\<close>

definition same_bank :: "kv \<Rightarrow> kv \<Rightarrow> bool" where
  "same_bank s s' \<longleftrightarrow> bank_size s' = bank_size s \<and> kv_append_size s' = kv_append_size s \<and> bank s' = bank s"

lemma same_bank_index [simp]: "same_bank (t\<lparr>kv_index := idx, next_seq := n\<rparr>) s' = same_bank t s'"
  "same_bank (t\<lparr>kv_index := idx\<rparr>) s' = same_bank t s'" "same_bank (t\<lparr>next_seq := n\<rparr>) s' = same_bank t s'" "same_bank s s"
  by (simp_all add: same_bank_def)

lemma same_bank_range: "same_bank s (fst (index_apply_range s off stop))"
proof (induction s off stop rule: index_apply_range.induct)
  case (1 s off stop)
  show ?case
  proof (cases "off < stop")
    case True
    note IH = "1.IH" [OF True refl refl refl]
    show ?thesis
    proof (cases "rh_type (decode_record_header (drop off (bank s))) = KV_REC_TYPE_DELETE")
      case True
      show ?thesis
        using IH(1) [OF True refl]
        by (subst index_apply_range.simps) (simp add: Let_def \<open>off < stop\<close> True split: option.splits)
    next
      case False
      show ?thesis
        using IH(2) [OF False]
        by (subst index_apply_range.simps) (simp add: Let_def \<open>off < stop\<close> False split: option.splits)
    qed
  qed (subst index_apply_range.simps, simp)
qed

lemma index_apply_range_keeps:
  "index_apply_range s off stop = (s', status) \<Longrightarrow>
     bank_size s' = bank_size s \<and> kv_append_size s' = kv_append_size s \<and> bank s' = bank s"
  using same_bank_range [of s off stop] by (simp add: same_bank_def)

lemma record_valid_advances:
  "record_valid b off limit commit = Some r \<Longrightarrow>
     off + record_size (unat (rh_len r)) \<le> limit \<and> off < off + record_size (unat (rh_len r))"
  by (auto simp: record_valid_def Let_def record_size_def KV_REC_OVERHEAD_def KV_REC_HDR_SIZE_def split: if_splits)

text \<open>Aligning neither wraps in 16 bits nor goes back, whatever the append size is.\<close>

lemma align_up_advances:
  assumes "0 < kv_append_size s" "kv_append_size s < 65536" "bank_size s \<le> HAL_KV_MAX_BANK_SIZE" "v \<le> bank_size s"
  shows "v \<le> cast16 (align_up s v)"
proof -
  let ?a = "kv_append_size s" and ?d = "(v + kv_append_size s - 1) div kv_append_size s"
  have v: "v \<le> 4096" using assms(3,4) by (simp add: HAL_KV_MAX_BANK_SIZE_def)
  have ge: "v \<le> ?d * ?a"
  proof -
    have "(v + ?a - 1) mod ?a < ?a" using assms(1) by simp
    then show ?thesis using div_mult_mod_eq [of "v + ?a - 1" ?a] assms(1) by linarith
  qed
  have "?d * ?a < 65536"
  proof (cases "v \<le> ?a")
    case True
    then have "v + ?a - 1 < 2 * ?a" using assms(1) by linarith
    then have "?d < 2" using assms(1) by (simp add: less_mult_imp_div_less)
    then have "?d \<le> 1" by linarith
    then have "?d * ?a \<le> 1 * ?a" by (rule mult_right_mono) simp
    then show ?thesis using assms(2) by linarith
  next
    case False
    have "?d * ?a \<le> v + ?a - 1" by simp
    then show ?thesis using False v by linarith
  qed
  then show ?thesis using ge by (simp add: align_up_def cast16_def)
qed

lemma scan_log_loop_total:
  assumes "0 < kv_append_size s" "kv_append_size s < 65536" "bank_size s \<le> HAL_KV_MAX_BANK_SIZE"
    and "bank_size s - off < fuel"
  shows "returns (scan_log_loop fuel s batch off committed)"
  using assms
proof (induction fuel arbitrary: s batch off committed)
  case (Suc fuel)
  have skip: "returns (scan_log_loop fuel s batch (off + record_size (unat (rh_len r))) committed)"
    if "record_valid (bank s) off (bank_size s) True = Some r" for r
  proof (rule Suc.IH [OF Suc.prems(1-3)])
    show "bank_size s - (off + record_size (unat (rh_len r))) < fuel"
      using record_valid_advances [OF that] Suc.prems(4) by linarith
  qed
  have commit: "returns (scan_log_loop fuel s' (cast16 (align_up s' after)) (cast16 (align_up s' after)) after)"
    if "record_valid (bank s) off (bank_size s) True = Some r" "index_apply_range s batch off = (s', st)"
      and after: "after = off + record_size (unat (rh_len r))" for r s' st after
  proof -
    note keep = index_apply_range_keeps [OF that(2)]
    have s': "0 < kv_append_size s'" "kv_append_size s' < 65536" "bank_size s' \<le> HAL_KV_MAX_BANK_SIZE"
      using Suc.prems(1-3) keep by simp_all
    have adv: "after \<le> bank_size s" "off < after" using record_valid_advances [OF that(1)] by (simp_all add: after)
    then have "after \<le> cast16 (align_up s' after)" using keep by (intro align_up_advances [OF s']) simp
    then have "bank_size s' - cast16 (align_up s' after) < fuel" using adv Suc.prems(4) keep by linarith
    then show ?thesis by (rule Suc.IH [OF s'])
  qed
  show ?case unfolding scan_log_loop.simps Let_def by (intro returns_intros skip commit) (assumption | rule refl)+
qed simp

section \<open>The start\<close>

lemma mount_bank_total:
  assumes "0 < kv_append_size s" "kv_append_size s < 65536" "bank_size s \<le> HAL_KV_MAX_BANK_SIZE"
  shows "returns (mount_bank s e b m)"
proof -
  have scan: "returns (scan_log_locked s3 (meta_used_offset m))"
    if load: "load_bank (s\<lparr>active_bank := b\<rparr>) e b = (s1, st1)"
      and ap: "index_apply_range (s1\<lparr>kv_generation := g, used_offset := u, record_count := c, kv_index := idx, next_seq := 1\<rparr>)
        KV_PUBLISH_SIZE (meta_used_offset m) = (s3, st3)" for s1 st1 s3 st3 g u c idx
  proof -
    have "kv_append_size s1 = kv_append_size s" "bank_size s1 = bank_size s"
      using load by (auto simp: load_bank_def split: prod.splits)
    then have s3: "0 < kv_append_size s3" "kv_append_size s3 < 65536" "bank_size s3 \<le> HAL_KV_MAX_BANK_SIZE"
      using index_apply_range_keeps [OF ap] assms by simp_all
    have "bank_size s3 - p < bank_size s3 + 1" for p by simp
    note loop = scan_log_loop_total [OF s3 this]
    show ?thesis unfolding scan_log_locked_def Let_def by (intro returns_case loop returns_intros)
  qed
  show ?thesis
    unfolding mount_bank_def Let_def by (intro returns_case returns_intros scan) assumption+
qed

lemma load_bank_keeps: "load_bank s e b = (s', st) \<Longrightarrow> bank_size s' = bank_size s \<and> kv_append_size s' = kv_append_size s"
  by (auto simp: load_bank_def split: prod.splits)

lemma hal_kv_init_ex_total:
  assumes "0 < s_append_size e" "s_append_size e < 65536"
  shows "hal_kv_init_ex s e base len \<noteq> None"
proof -
  have mount: "returns (mount_bank r2 e b m)"
    if size: "(if P then case jh_eeprom_append_size e of (n, x) \<Rightarrow> (r\<lparr>kv_append_size := n\<rparr>, x) else (r, st)) = (r0, st0)"
        "P \<longleftrightarrow> st = HAL_OK" "\<not> st0 \<noteq> HAL_OK"
      and load: "load_bank (r0\<lparr>kv_base := base, bank_size := len div 2\<rparr>) e 0 = (r1, st1)" "load_bank r1 e 1 = (r2, st2)"
      and len: "\<not> (len div 2 > HAL_KV_MAX_BANK_SIZE \<or> Q)" for r r0 r1 st st0 st1 r2 st2 b m P Q
  proof -
    have "kv_append_size r0 = s_append_size e"
      using size by (auto simp: jh_eeprom_append_size_def Let_def split: if_splits)
    then show ?thesis
      using load_bank_keeps [OF load(1)] load_bank_keeps [OF load(2)] len assms by (intro mount_bank_total) simp_all
  qed
  show ?thesis
    unfolding returns_def [symmetric] hal_kv_init_ex_def Let_def
    by (intro returns_case returns_intros) (erule mount, rule refl, assumption+)
qed

end
