(* ===== verification/Kv_Claims.thy ===== *)
theory Kv_Claims
  imports Rp_Boot Kv_Total
begin

text \<open>
  What the key-value store and the flash below it promise, for any provider that keeps the laws of
  \<open>kv_medium\<close>, and the runs on the simulated flash that show the laws can hold.
\<close>

section \<open>A store on the simulated flash\<close>

definition sim_config :: rp_config where
  "sim_config = \<lparr>PICO_FLASH_SIZE_BYTES = sim_size, HAL_RP_FLASH_EEPROM_SIZE = 8192, HAL_RP_FLASH_LITTLEFS_SIZE = 0,
     HAL_RP_OTA_SLOT_SIZE = 0, HAL_RP_OTA_PROGRAM_OFFSET = 0, HAL_RP_OTA_STAGING_OFFSET = 0, HAL_RP_OTA_PHASE_OFFSET = 0,
     HAL_RP_OTA_SCRATCH_OFFSET = 0, HAL_RP_OTA_STATE_A_OFFSET = 0, HAL_RP_OTA_STATE_B_OFFSET = 0\<rparr>"

text \<open>The module's variables at reset, and the facade initialised on a flash.\<close>

definition sim_off :: "sim \<Rightarrow> sim rp_eeprom flash_state eeprom" where
  "sim_off w = \<lparr>s_provider = None, s_size = 0, s_erase_size = 0, s_program_size = 0, s_append_size = 0,
     s_storage = \<lparr>fp_storage_size = 0, fp_active_size = 0, fp_ready = False, fp_dirty = False, fp_mirror = replicate 8192 0,
       fp_flash = \<lparr>re_partition = \<lparr>flash_offset = 0, part_size = 0\<rparr>, re_world = w\<rparr>, fp_prepare = None, fp_finish = None\<rparr>\<rparr>"

definition sim_boot :: "sim \<Rightarrow> sim rp_eeprom flash_state eeprom" where
  "sim_boot w = fst (hal_eeprom_init (jh_eeprom_provider_get_ops None sim_config sim_platform) (sim_off w) HAL_EEPROM_DEFAULT 0 0)"

definition sim_blank :: "nat option \<Rightarrow> sim" where
  "sim_blank c = \<lparr>cells = \<lambda>i. 0xFF, charge = c\<rparr>"

definition kv_reset :: kv where
  "kv_reset = reset_runtime_state_locked \<lparr>kv_mutex = True, kv_ready = False, auto_commit = True, read_through = False,
     kv_dirty = False, needs_publish = False, kv_append_size = 1, flash_end = 0, kv_base = 0, bank_size = 0,
     active_bank = 0, used_offset = 0, record_count = 0, kv_generation = 0, next_seq = 1, bank = [], kv_index = []\<rparr>"

abbreviation sim_ops :: "sim rp_eeprom flash_state provider" where
  "sim_ops \<equiv> flash_provider (rp_backend sim_config sim_platform)"

abbreviation sim_run :: "kv \<Rightarrow> sim rp_eeprom flash_state eeprom \<Rightarrow> kv_contents set \<Rightarrow> bool" where
  "sim_run \<equiv> kv_run sim_ops (rp_med sim_platform) (rp_on sim_on) (rp_good sim_platform sim_on)
     FLASH_SECTOR_SIZE FLASH_PAGE_SIZE 1 0 4096"

lemma sim_callbacks: "callbacks_ok sim_platform sim_on (s_storage (sim_off w))"
  by (simp add: callbacks_ok_def sim_off_def)

lemma sim_world: "re_world (fp_flash (s_storage (sim_off w))) = w"
  by (simp add: sim_off_def)

lemma sim_config_ok:
  "rp_config_valid sim_config" "0 < HAL_RP_FLASH_EEPROM_SIZE sim_config" "HAL_RP_FLASH_EEPROM_SIZE sim_config \<le> 0xFFFF"
  "FLASH_SECTOR_SIZE dvd PICO_FLASH_SIZE_BYTES sim_config"
  "length (xip sim_platform (re_world (fp_flash (s_storage (sim_off w))))) = PICO_FLASH_SIZE_BYTES sim_config"
  "length (fp_mirror (s_storage (sim_off w))) = HAL_RP_FLASH_EEPROM_SIZE sim_config"
  by (simp_all add: rp_config_valid_def sim_config_def sim_size_def FLASH_SECTOR_SIZE_def sim_platform_def sim_xip_def sim_off_def)

lemma sim_boot_ok:
  shows "attached sim_ops (rp_med sim_platform) (rp_good sim_platform sim_on) FLASH_SECTOR_SIZE FLASH_PAGE_SIZE 1 (sim_boot w)"
    "s_size (sim_boot w) = 8192" "re_world (fp_flash (s_storage (sim_boot w))) = w"
    "fp_prepare (s_storage (sim_boot w)) = None" "fp_finish (s_storage (sim_boot w)) = None"
    "rp_med sim_platform (s_storage (sim_boot w)) = subarr (sim_size - 8192) 8192 (sim_xip w)"
proof -
  obtain status where run: "hal_eeprom_init (jh_eeprom_provider_get_ops None sim_config sim_platform) (sim_off w) HAL_EEPROM_DEFAULT 0 0 =
      (sim_boot w, status)" unfolding sim_boot_def by (metis prod.collapse)
  have t: "HAL_EEPROM_DEFAULT \<noteq> HAL_EEPROM_AT24C256" by simp
  note boot = sim.eeprom_boot [OF sim_config_ok sim_callbacks le0 t run]
  have "HAL_RP_FLASH_EEPROM_SIZE sim_config = 8192" "PICO_FLASH_SIZE_BYTES sim_config = sim_size" by (simp_all add: sim_config_def)
  then show "attached sim_ops (rp_med sim_platform) (rp_good sim_platform sim_on) FLASH_SECTOR_SIZE FLASH_PAGE_SIZE 1 (sim_boot w)"
    "s_size (sim_boot w) = 8192" "re_world (fp_flash (s_storage (sim_boot w))) = w"
    "fp_prepare (s_storage (sim_boot w)) = None" "fp_finish (s_storage (sim_boot w)) = None"
    "rp_med sim_platform (s_storage (sim_boot w)) = subarr (sim_size - 8192) 8192 (sim_xip w)"
    using boot by (simp_all add: sim_off_def) (simp add: sim_platform_def)
qed

lemma sim_boot_on: "rp_on sim_on (s_storage (sim_boot w)) = sim_on w" "sim.rp_still (s_storage (sim_boot w)) = sim_steady w"
  by (simp_all add: rp_on_def sim.rp_still_def sim_boot_ok)

lemma sim_region: "region_status (sim_boot w) 0 4096 KV_PUBLISH_SIZE = HAL_OK"
  using sim_boot_ok(1,2) [of w]
  unfolding region_status_OK range_status_OK by (simp add: attached_def FLASH_SECTOR_SIZE_def FLASH_PAGE_SIZE_def publish_256)

lemma sim_blank_bank: "at + 4096 \<le> 8192 \<Longrightarrow>
    validate_bank_buffer (subarr at 4096 (rp_med sim_platform (s_storage (sim_boot (sim_blank c))))) 4096 = None"
proof (rule validate_erased_front)
  assume at: "at + 4096 \<le> (8192 :: nat)"
  have len: "sim_size - 8192 + 8192 = sim_size" "sim_size - 8192 + at + 4096 \<le> sim_size" using at by (simp_all add: sim_size_def)
  let ?b = "subarr at 4096 (rp_med sim_platform (s_storage (sim_boot (sim_blank c))))"
  have b: "?b = subarr (sim_size - 8192 + at) 4096 (sim_xip (sim_blank c))"
    unfolding sim_boot_ok(6) using at by (simp add: subarr_subarr)
  have "length ?b = 4096" unfolding b using len(2) by simp
  then show "?b \<noteq> []" by auto
  have "?b ! 0 = sim_xip (sim_blank c) ! (sim_size - 8192 + at)" unfolding b using len(2) by (simp add: nth_subarr)
  also have "\<dots> = 0xFF" using len(2) by (simp add: nth_sim_xip sim_blank_def)
  finally show "?b ! 0 = 0xFF" .
qed

text \<open>A blank flash is formatted, and the power stays on.\<close>

lemma sim_formatted:
  obtains s e where "sim_run s e {Map.empty}" "sim.rp_still (s_storage e)"
proof -
  let ?e = "sim_boot (sim_blank None)"
  have still: "sim.rp_still (s_storage ?e)" and on: "rp_on sim_on (s_storage ?e)"
    by (simp_all add: sim_boot_on sim_blank_def sim_steady_def sim_on_def)
  have m: "kv_mutex kv_reset" by (simp add: kv_reset_def reset_runtime_state_locked_def)
  have n: "(4096 :: nat) \<le> HAL_KV_MAX_BANK_SIZE" "KV_PUBLISH_SIZE + KV_REC_OVERHEAD \<le> 4096" "0 + 2 * 4096 \<le> s_size ?e" "s_size ?e < 65536"
    by (simp_all add: HAL_KV_MAX_BANK_SIZE_def publish_256 sim_boot_ok KV_REC_OVERHEAD_def KV_REC_HDR_SIZE_def KV_REC_FTR_SIZE_def)
  have blank: "validate_bank_buffer (subarr 0 4096 (rp_med sim_platform (s_storage ?e))) 4096 = None"
    "validate_bank_buffer (subarr (0 + 4096) 4096 (rp_med sim_platform (s_storage ?e))) 4096 = None"
    by (rule sim_blank_bank, simp)+
  obtain s e where run: "hal_kv_init_ex kv_reset ?e 0 (2 * 4096) = Some (s, e, HAL_OK)" "sim.rp_still (s_storage e)"
    by (rule sim.rps.format_live [OF sim_boot_ok(1) on still m n sim_region blank])
  have "sim_run s e {Map.empty}"
    by (rule kv_run.formatted [OF sim_boot_ok(1) on n(4) m blank run(1) sim.rps.steady [OF run(2)]])
  then show thesis using that run(2) by blast
qed

text \<open>Another flash under the facade, read into the mirror; in particular its own, when the power comes back with the charge \<open>c\<close>.\<close>

definition sim_on_flash :: "sim \<Rightarrow> sim rp_eeprom flash_state eeprom \<Rightarrow> sim rp_eeprom flash_state eeprom" where
  "sim_on_flash w e = (let p = s_storage e in
     e\<lparr>s_storage := p\<lparr>fp_mirror := subarr (rp_start p) (fp_storage_size p) (sim_xip w),
       fp_flash := (fp_flash p)\<lparr>re_world := w\<rparr>\<rparr>\<rparr>)"

definition sim_again :: "nat option \<Rightarrow> sim rp_eeprom flash_state eeprom \<Rightarrow> sim rp_eeprom flash_state eeprom" where
  "sim_again c e = sim_on_flash ((re_world (fp_flash (s_storage e)))\<lparr>charge := c\<rparr>) e"

lemma sim_on_flash_ok:
  assumes "attached sim_ops (rp_med sim_platform) (rp_good sim_platform sim_on) FLASH_SECTOR_SIZE FLASH_PAGE_SIZE 1 e"
  shows "attached sim_ops (rp_med sim_platform) (rp_good sim_platform sim_on) FLASH_SECTOR_SIZE FLASH_PAGE_SIZE 1 (sim_on_flash w e)"
    "rp_on sim_on (s_storage (sim_on_flash w e)) \<longleftrightarrow> charge w \<noteq> Some 0" "s_size (sim_on_flash w e) = s_size e"
    "rp_med sim_platform (s_storage (sim_on_flash w e)) = subarr (rp_start (s_storage e)) (fp_active_size (s_storage e)) (sim_xip w)"
proof -
  let ?p = "s_storage e" and ?q = "s_storage (sim_on_flash w e)"
  have good: "rp_good sim_platform sim_on ?p" using assms by (simp add: attached_def)
  have cells: "rp_cells sim_platform (fp_flash ?q) = sim_xip w" "rp_start ?q = rp_start ?p"
    "fp_active_size ?q = fp_active_size ?p" "fp_storage_size ?q = fp_storage_size ?p" "fp_ready ?q = fp_ready ?p"
    "re_partition (fp_flash ?q) = re_partition (fp_flash ?p)" "callbacks_ok sim_platform sim_on ?q = callbacks_ok sim_platform sim_on ?p"
    "fp_mirror ?q = subarr (rp_start ?p) (fp_storage_size ?p) (sim_xip w)"
    by (simp_all add: sim_on_flash_def Let_def rp_cells_def rp_start_def callbacks_ok_def) (simp add: sim_platform_def)
  have old: "length (rp_cells sim_platform (fp_flash ?p)) = length (sim_xip w)" by (simp add: rp_cells_def sim_platform_def)
  show med: "rp_med sim_platform ?q = subarr (rp_start ?p) (fp_active_size ?p) (sim_xip w)" by (simp add: rp_med_def cells)
  have len: "length (fp_mirror ?q) = fp_storage_size ?p" using good old unfolding cells rp_good_def by simp
  then have "take (fp_storage_size ?p) (fp_mirror ?q) = fp_mirror ?q" by simp
  then have "rp_good sim_platform sim_on ?q"
    using good len old unfolding rp_good_def cells by simp
  moreover have "length (rp_med sim_platform ?q) = length (rp_med sim_platform ?p)" by (simp add: rp_med_def cells subarr_def old)
  ultimately show "attached sim_ops (rp_med sim_platform) (rp_good sim_platform sim_on) FLASH_SECTOR_SIZE FLASH_PAGE_SIZE 1 (sim_on_flash w e)"
    using assms by (simp add: attached_def) (simp add: sim_on_flash_def Let_def)
  show "rp_on sim_on ?q \<longleftrightarrow> charge w \<noteq> Some 0" "s_size (sim_on_flash w e) = s_size e"
    by (simp_all add: sim_on_flash_def Let_def rp_on_def sim_on_def)
qed

lemma sim_again_ok:
  assumes "attached sim_ops (rp_med sim_platform) (rp_good sim_platform sim_on) FLASH_SECTOR_SIZE FLASH_PAGE_SIZE 1 e"
  shows "attached sim_ops (rp_med sim_platform) (rp_good sim_platform sim_on) FLASH_SECTOR_SIZE FLASH_PAGE_SIZE 1 (sim_again c e)"
    "rp_on sim_on (s_storage (sim_again c e)) \<longleftrightarrow> c \<noteq> Some 0" "s_size (sim_again c e) = s_size e"
    "rp_med sim_platform (s_storage (sim_again c e)) = rp_med sim_platform (s_storage e)"
proof -
  have "sim_xip (w\<lparr>charge := c\<rparr>) = sim_xip w" for w by (simp add: sim_xip_def)
  then show "rp_med sim_platform (s_storage (sim_again c e)) = rp_med sim_platform (s_storage e)"
    unfolding sim_again_def sim_on_flash_ok(4) [OF assms] by (simp add: rp_med_def rp_cells_def) (simp add: sim_platform_def)
  show "attached sim_ops (rp_med sim_platform) (rp_good sim_platform sim_on) FLASH_SECTOR_SIZE FLASH_PAGE_SIZE 1 (sim_again c e)"
    unfolding sim_again_def by (rule sim_on_flash_ok(1) [OF assms])
  show "rp_on sim_on (s_storage (sim_again c e)) \<longleftrightarrow> c \<noteq> Some 0" "s_size (sim_again c e) = s_size e"
    unfolding sim_again_def sim_on_flash_ok(2,3) [OF assms] by simp_all
qed

text \<open>A start of a store in use, with the charge \<open>c\<close>.\<close>

lemma sim_restarted:
  assumes run: "sim_run s e H" and c: "c \<noteq> Some 0"
  obtains s1 where "hal_kv_init_ex kv_reset (sim_again c e) 0 (2 * 4096) = Some (s1, sim_again c e, HAL_OK)"
    "sim_run s1 (sim_again c e) {contents s1}" "contents s1 \<in> H" "auto_commit s1" "\<not> kv_dirty s1" "\<not> read_through s1"
proof -
  have m: "kv_mutex kv_reset" "auto_commit kv_reset" "\<not> read_through kv_reset" by (simp_all add: kv_reset_def reset_runtime_state_locked_def)
  have inv: "sim.rp.run_inv sim_config 0 4096 s e H" by (rule sim.rp.kv_run_inv [OF run])
  note a = sim_again_ok [OF sim.rp.run_online [OF run], of c]
  have on: "rp_on sim_on (s_storage (sim_again c e))" using a(2) c by simp
  obtain s1 B where s1: "hal_kv_init_ex kv_reset (sim_again c e) 0 (2 * 4096) = Some (s1, sim_again c e, HAL_OK)"
    "B \<in> H" "contents s1 = B" "auto_commit s1 = auto_commit kv_reset" "\<not> kv_dirty s1" "read_through s1 = read_through kv_reset"
    by (rule sim.rp.run_restart [OF inv a(1) on a(3,4) m(1)])
  have "sim_run s1 (sim_again c e) {contents s1}"
    by (rule kv_run.restart [OF run a(1) on a(3,4) m(1) s1(1)])
  then show thesis using that s1 m(2,3) by simp
qed

lemma sim_bank: "sim_run s e H \<Longrightarrow> bank_size s = 4096"
  using sim.rp.kv_run_inv [of sim_config 0 4096 s e H] unfolding sim.rp.run_inv_def by blast

lemma sim_inv: "sim_run s e H \<Longrightarrow> sim.rp.kv_inv sim_config s e H"
  using sim.rp.kv_run_inv [of sim_config 0 4096 s e H] unfolding sim.rp.run_inv_def by blast

text \<open>A map of a few numbers fits.\<close>

lemma sim_room:
  assumes "sim_run s e H" "contents s = Map.empty \<or> (\<exists>j w. contents s = [j \<mapsto> (KV_REC_TYPE_U32, u32_bytes w)])"
  shows "has_room (Set_u32 k v) s"
proof -
  let ?M = "kv_spec (Set_u32 k v) (contents s)"
  have dom: "finite (dom ?M)" "card (dom ?M) \<le> 2" and len: "length (snd (the (?M i))) \<le> 4" if "i \<in> dom ?M" for i
    using assms(2) that by (auto simp: card_insert_if split: if_splits)
  have "(\<Sum>i \<in> dom ?M. record_size (length (snd (the (?M i))))) \<le> of_nat (card (dom ?M)) * 22"
    using len by (intro sum_bounded_above) (simp add: record_size_eq)
  moreover have "card (dom ?M) \<le> 2" using assms(2) by (auto simp: card_insert_if)
  ultimately show ?thesis
    by (simp add: has_room_def kv_bytes_def publish_256 KV_MAX_KEYS_def HAL_KV_MAX_KEYS_def sim_bank [OF assms(1)])
qed

text \<open>The power may go at any byte of a write: after formatting and a start with the charge \<open>c\<close>, one value is written.\<close>

lemma sim_written:
  assumes "c \<noteq> Some (0 :: nat)"
  obtains s0 e0 s e st where "sim_run s0 e0 {Map.empty}" "rp_on sim_on (s_storage e0)" "auto_commit s0" "contents s0 = Map.empty"
    "c = None \<Longrightarrow> sim.rp_still (s_storage e0)"
    "kv_exec (Set_u32 k v) s0 e0 = (s, e, st)"
    "sim_run s e (if st = HAL_OK \<and> rp_on sim_on (s_storage e) then {contents s} else {contents s, Map.empty})"
proof -
  obtain s1 e1 where f: "sim_run s1 e1 {Map.empty}" "sim.rp_still (s_storage e1)" by (rule sim_formatted)
  obtain s0 where s0: "sim_run s0 (sim_again c e1) {contents s0}" "contents s0 \<in> {Map.empty}" "auto_commit s0"
    by (rule sim_restarted [OF f(1) assms])
  have on: "rp_on sim_on (s_storage (sim_again c e1))" using sim_again_ok(2) [OF sim.rp.run_online [OF f(1)]] assms by blast
  have empty: "contents s0 = Map.empty" using s0(2) by simp
  have still: "sim.rp_still (s_storage (sim_again c e1))" if "c = None"
    using f(2) that by (simp add: sim.rp_still_def sim_again_def sim_on_flash_def Let_def sim_steady_def)
  obtain s e st where x: "kv_exec (Set_u32 k v) s0 (sim_again c e1) = (s, e, st)" by (cases "kv_exec (Set_u32 k v) s0 (sim_again c e1)")
  have "has_room (Set_u32 k v) s0" by (rule sim_room [OF s0(1)]) (use empty in simp)
  then have "sim_run s e (if st = HAL_OK \<and> rp_on sim_on (s_storage e) then {contents s} else {contents s, Map.empty})"
    using kv_run.request [OF s0(1) [unfolded empty] on x] s0(3) by (auto simp: kv_history_def split: if_splits)
  then show thesis using that [OF s0(1) [unfolded empty] on s0(3) empty still x] by simp
qed

lemma sim_set_live:
  assumes "sim_run s e H" "sim.rp_still (s_storage e)" "contents s = Map.empty" "kv_exec (Set_u32 k v) s e = (s', e', st)"
  shows "st = HAL_OK \<and> sim.rp_still (s_storage e')"
proof -
  have "has_room (Set_u32 k v) s" by (rule sim_room [OF assms(1)]) (use assms(3) in simp)
  then show ?thesis using sim.rps.kv_exec_live [OF sim_inv [OF assms(1)] assms(2,4)] by blast
qed

text \<open>The two settings, and a number set while changes are deferred.\<close>

lemma sim_settings:
  assumes "sim_run s e H" "rp_on sim_on (s_storage e)"
  shows "kv_exec (Set_auto_commit on) s e = (s\<lparr>auto_commit := on\<rparr>, e, HAL_OK)" "sim_run (s\<lparr>auto_commit := on\<rparr>) e H"
    "kv_exec (Set_read_through on) s e = (s\<lparr>read_through := on\<rparr>, e, HAL_OK)" "sim_run (s\<lparr>read_through := on\<rparr>) e H"
proof -
  have "kv_placed s e" using sim_inv [OF assms(1)] unfolding kv_medium.kv_inv_def [OF sim.rp.kv_medium_axioms] by blast
  then have "kv_mutex s" by (simp add: kv_placed_def)
  then show x: "kv_exec (Set_auto_commit on) s e = (s\<lparr>auto_commit := on\<rparr>, e, HAL_OK)"
    "kv_exec (Set_read_through on) s e = (s\<lparr>read_through := on\<rparr>, e, HAL_OK)"
    by (simp_all add: hal_kv_set_auto_commit_def hal_kv_set_read_through_def)
  show "sim_run (s\<lparr>auto_commit := on\<rparr>) e H" "sim_run (s\<lparr>read_through := on\<rparr>) e H"
    using kv_run.request [OF assms x(1)] kv_run.request [OF assms x(2)] by (simp_all add: kv_history_def)
qed

lemma sim_deferred:
  assumes "sim_run s e H" "rp_on sim_on (s_storage e)" "\<not> auto_commit s"
    and few: "contents s = Map.empty \<or> (\<exists>j w. contents s = [j \<mapsto> (KV_REC_TYPE_U32, u32_bytes w)])"
  obtains t where "kv_exec (Set_u32 k v) s e = (t, e, HAL_OK)" "contents t = (contents s)(k \<mapsto> (KV_REC_TYPE_U32, u32_bytes v))"
    "sim_run t e H" "\<not> auto_commit t" "read_through t = read_through s" "contents t \<noteq> contents s \<longrightarrow> kv_dirty t"
proof -
  obtain t where t: "kv_exec (Set_u32 k v) s e = (t, e, HAL_OK)" "contents t = (contents s)(k \<mapsto> (KV_REC_TYPE_U32, u32_bytes v))"
    "same_place s t" "contents t \<noteq> contents s \<longrightarrow> kv_dirty t"
    by (rule sim.rp.deferred_set [where k = k and v = v, OF sim_inv [OF assms(1)] assms(2,3) sim_room [OF assms(1) few]])
  have "sim_run t e H" using kv_run.request [OF assms(1,2) t(1)] assms(3) by (simp add: kv_history_def)
  then show thesis using that t assms(3) by (simp add: same_place_def)
qed

section \<open>What is promised\<close>

text \<open>
  C1: Whatever sequence of requests a store has served, and wherever in a write the power was lost
  (a run may end at any point, with what the medium holds by then), a later start on the same
  medium succeeds, writes nothing, and finds one of the maps of the history: the one of the last change that was
  acknowledged as durable (or of the last start), or one that a request since then was to make durable as a whole.
  An acknowledged change is never lost, changes that are deferred are found all together or not at all, and nothing
  else appears.
\<close>

theorem kv_restart_recovers:
  assumes "kv_medium ops med powered good es ps as" "kv_run ops med powered good es ps as base n s e H"
    and "attached ops med good es ps as e1" "powered (s_storage e1)" "s_size e1 = s_size e"
    and "med (s_storage e1) = med (s_storage e)" "kv_mutex s1"
  shows "\<exists>s'. hal_kv_init_ex s1 e1 base (2 * n) = Some (s', e1, HAL_OK) \<and> contents s' \<in> H"
  by (rule kv_medium.run_restart [OF assms(1) kv_medium.kv_run_inv [OF assms(1,2)] assms(3-7)]) blast

theorem kv_restart_recovers_witness:
  "\<exists>s e s1 s2 s3 e3 st H s'. sim_run s e {Map.empty} \<and> \<not> auto_commit s \<and>
     kv_exec (Set_u32 1 7) s e = (s1, e, HAL_OK) \<and> kv_exec (Set_u32 2 8) s1 e = (s2, e, HAL_OK) \<and>
     kv_exec Commit s2 e = (s3, e3, st) \<and> sim_run s3 e3 H \<and>
     H \<subseteq> {Map.empty, [1 \<mapsto> (KV_REC_TYPE_U32, u32_bytes 7), 2 \<mapsto> (KV_REC_TYPE_U32, u32_bytes 8)]} \<and>
     hal_kv_init_ex kv_reset (sim_again (Some 10000) e3) 0 8192 = Some (s', sim_again (Some 10000) e3, HAL_OK) \<and> contents s' \<in> H"
proof -
  obtain s0 e where w: "sim_run s0 e {Map.empty}" "rp_on sim_on (s_storage e)" "contents s0 = Map.empty"
    by (rule sim_written [of "Some 300" 1 7]) simp_all
  let ?s = "s0\<lparr>auto_commit := False\<rparr>"
  have s: "sim_run ?s e {Map.empty}" "\<not> auto_commit ?s" "contents ?s = Map.empty"
    using sim_settings(2) [OF w(1,2)] w(3) by (simp_all add: contents_def)
  obtain s1 where s1: "kv_exec (Set_u32 1 7) ?s e = (s1, e, HAL_OK)" "contents s1 = (contents ?s)(1 \<mapsto> (KV_REC_TYPE_U32, u32_bytes 7))"
    "sim_run s1 e {Map.empty}" "\<not> auto_commit s1"
    by (rule sim_deferred [OF s(1) w(2) s(2), of 1 7]) (use s(3) in simp_all)
  obtain s2 where s2: "kv_exec (Set_u32 2 8) s1 e = (s2, e, HAL_OK)" "contents s2 = (contents s1)(2 \<mapsto> (KV_REC_TYPE_U32, u32_bytes 8))"
    "sim_run s2 e {Map.empty}"
    by (rule sim_deferred [OF s1(3) w(2) s1(4), of 2 8]) (use s(3) s1(2) in auto)
  obtain s3 e3 st where s3: "kv_exec Commit s2 e = (s3, e3, st)" by (cases "kv_exec Commit s2 e")
  let ?H = "kv_history Commit s2 st (rp_on sim_on (s_storage e3)) (contents s3) {Map.empty}"
  have run: "sim_run s3 e3 ?H" by (rule kv_run.request [OF s2(3) w(2) s3])
  have "contents s3 = contents s2" using sim.rp.kv_exec_inv [OF sim_inv [OF s2(3)] w(2) s3] by simp
  then have H: "?H \<subseteq> {Map.empty, [1 \<mapsto> (KV_REC_TYPE_U32, u32_bytes 7), 2 \<mapsto> (KV_REC_TYPE_U32, u32_bytes 8)]}"
    unfolding s2(2) s1(2) s(3) by (simp add: kv_history_def)
  have m: "kv_mutex kv_reset" "2 * 4096 = (8192 :: nat)" by (simp_all add: kv_reset_def reset_runtime_state_locked_def)
  note a = sim_again_ok [OF sim.rp.run_online [OF run], of "Some 10000"]
  have on: "rp_on sim_on (s_storage (sim_again (Some 10000) e3))" using a(2) by simp
  from kv_restart_recovers [OF sim.rp.kv_medium_axioms run a(1) on a(3,4) m(1), unfolded m(2)] obtain s' where
    "hal_kv_init_ex kv_reset (sim_again (Some 10000) e3) 0 8192 = Some (s', sim_again (Some 10000) e3, HAL_OK)" "contents s' \<in> ?H" by blast
  then show ?thesis using s(1,2) s1(1) s2(1) s3 run H by blast
qed

text \<open>
  C2: The store implements a map from keys to typed values: each request, while the power is on at
  its start, leaves the map as it was or changes it as its specification says, and one that
  reports success has changed it as specified.
\<close>

theorem kv_requests_refine_map:
  assumes "kv_medium ops med powered good es ps as" "kv_run ops med powered good es ps as base n s e H"
    and "powered (s_storage e)" "kv_exec r s e = (s', e', status)"
  shows "contents s' \<in> {contents s, kv_spec r (contents s)} \<and> (status = HAL_OK \<longrightarrow> contents s' = kv_spec r (contents s))"
proof -
  have "kv_medium.kv_inv ops med powered good es ps as s e H"
    using kv_medium.kv_run_inv [OF assms(1,2)] by (simp add: kv_medium.run_inv_def [OF assms(1)])
  from kv_medium.kv_exec_inv [OF assms(1) this assms(3,4)] show ?thesis by blast
qed

theorem kv_requests_refine_map_witness:
  "\<exists>s e s' e' st. sim_run s e {Map.empty} \<and> kv_exec (Set_u32 1 7) s e = (s', e', st) \<and>
     contents s' \<in> {contents s, kv_spec (Set_u32 1 7) (contents s)} \<and> (st = HAL_OK \<longrightarrow> contents s' = kv_spec (Set_u32 1 7) (contents s))"
proof -
  obtain s0 e0 s e st where w: "sim_run s0 e0 {Map.empty}" "rp_on sim_on (s_storage e0)" "kv_exec (Set_u32 1 7) s0 e0 = (s, e, st)"
    by (rule sim_written [of "Some 300" 1 7]) simp_all
  show ?thesis using kv_requests_refine_map [OF sim.rp.kv_medium_axioms w] w by blast
qed

text \<open>
  C38: Reading returns what the map holds: a number or a blob under a key that has a value of that
  type (a blob only into a buffer that is large enough, whose other bytes stay), and an error that
  says so for a key without one; the same when values are read from the medium instead of the image in
  RAM, except that nothing is read while changes are deferred, which is its own error. And whatever the medium
  holds by then, what is read from it is the value of a record that is there as the index says, with its key, type,
  length, sequence number, both checksums and its end; otherwise the error says so, and a blob's buffer is cleared.
\<close>

theorem kv_reads_return_map:
  assumes "kv_medium ops med powered good es ps as" "kv_run ops med powered good es ps as base n s e H"
    and "powered (s_storage e)"
  shows "hal_kv_get_u32_ex s e k True =
      (if read_through s \<and> kv_dirty s then (HAL_EBUSY, Some 0) else case contents s k of
         Some (t, d) \<Rightarrow> if t = KV_REC_TYPE_U32 then (HAL_OK, Some (jh_load_le32 d)) else (HAL_ENOENT, Some 0)
       | None \<Rightarrow> (HAL_ENOENT, Some 0)) \<and>
    hal_kv_get_blob_ex s e k out =
      (if read_through s \<and> kv_dirty s then (HAL_EBUSY, out, 0) else case contents s k of
         Some (t, d) \<Rightarrow>
           if t \<noteq> KV_REC_TYPE_BLOB then (HAL_ENOENT, out, 0)
           else (case out of
             None \<Rightarrow> (HAL_OK, None, length d)
           | Some o' \<Rightarrow> if length o' < length d then (HAL_EOVERFLOW, Some o', length d)
                        else (HAL_OK, Some (blit o' 0 d), length d))
       | None \<Rightarrow> (HAL_ENOENT, out, 0)) \<and>
    (read_through s \<and> \<not> kv_dirty s \<longrightarrow>
      (\<forall>e1 o'. attached ops med good es ps as e1 \<and> powered (s_storage e1) \<and> s_size e1 = s_size e \<longrightarrow>
        hal_kv_get_u32_ex s e1 k True =
          (case contents s k of
             Some (t, d) \<Rightarrow> if t \<noteq> KV_REC_TYPE_U32 then (HAL_ENOENT, Some 0)
               else (case medium_value med s e1 k of None \<Rightarrow> (HAL_EIO, Some 0) | Some d' \<Rightarrow> (HAL_OK, Some (jh_load_le32 d')))
           | None \<Rightarrow> (HAL_ENOENT, Some 0)) \<and>
        hal_kv_get_blob_ex s e1 k (Some o') =
          (case contents s k of
             Some (t, d) \<Rightarrow> if t \<noteq> KV_REC_TYPE_BLOB then (HAL_ENOENT, Some o', 0)
               else if length o' < length d then (HAL_EOVERFLOW, Some o', length d)
               else (case medium_value med s e1 k of
                 None \<Rightarrow> (HAL_EIO, Some (blit o' 0 (replicate (length d) 0)), length d)
               | Some d' \<Rightarrow> (HAL_OK, Some (blit o' 0 d'), length d))
           | None \<Rightarrow> (HAL_ENOENT, Some o', 0))))"
proof -
  obtain C B where c: "kv_placed s e" "ram_ok s" "holds_ok med s e C B"
    by (rule kv_medium.run_holds [OF assms(1-3)])
  note on = kv_medium.run_online [OF assms(1,2)]
  have placed: "kv_placed s e1" if "attached ops med good es ps as e1" "s_size e1 = s_size e" for e1
    using c(1) that on region_status_attached [OF on that] by (simp add: kv_placed_def attached_def)
  show ?thesis
  proof (intro conjI impI allI, goal_cases)
    case 1
    show ?case by (rule kv_medium.get_u32_contents [OF assms(1) on c(1) assms(3) c(3)])
  next
    case 2
    show ?case by (rule kv_medium.get_blob_contents [OF assms(1) on c(1) assms(3) c(3)])
  next
    case (3 e1 o')
    then show ?case using kv_medium.read_through_contents(1) [OF assms(1) c(2) _ placed] by blast
  next
    case (4 e1 o')
    then show ?case using kv_medium.read_through_contents(2) [OF assms(1) c(2) _ placed] by blast
  qed
qed

theorem kv_reads_return_map_witness:
  "\<exists>s e t d. sim_run s e {[1 \<mapsto> (KV_REC_TYPE_U32, u32_bytes 7)]} \<and>
     hal_kv_get_u32_ex s e 1 True = (HAL_OK, Some 7) \<and> hal_kv_get_blob_ex s e 1 (Some [5]) = (HAL_ENOENT, Some [5], 0) \<and>
     kv_exec (Set_read_through True) s e = (t, e, HAL_OK) \<and> hal_kv_get_u32_ex t e 1 True = (HAL_OK, Some 7) \<and>
     hal_kv_get_u32_ex t (sim_on_flash (sim_blank None) e) 1 True = (HAL_EIO, Some 0) \<and>
     kv_exec (Set_u32 2 8) (t\<lparr>auto_commit := False\<rparr>) e = (d, e, HAL_OK) \<and> hal_kv_get_u32_ex d e 1 True = (HAL_EBUSY, Some 0)"
proof -
  let ?M = "[1 \<mapsto> (KV_REC_TYPE_U32, u32_bytes 7)] :: kv_contents" 
  obtain s0 e0 s1 e1 st where w: "sim_run s0 e0 {Map.empty}" "rp_on sim_on (s_storage e0)" "contents s0 = Map.empty"
    "sim.rp_still (s_storage e0)" "kv_exec (Set_u32 1 7) s0 e0 = (s1, e1, st)"
    "sim_run s1 e1 (if st = HAL_OK \<and> rp_on sim_on (s_storage e1) then {contents s1} else {contents s1, Map.empty})"
    by (rule sim_written [of None 1 7]) simp_all
  have live: "st = HAL_OK" "rp_on sim_on (s_storage e1)" using sim_set_live [OF w(1,4,3,5)] sim.rps.steady by blast+
  have "contents s1 = ?M" using sim.rp.kv_exec_inv [OF sim_inv [OF w(1)] w(2,5)] live(1) w(3) by simp
  then have w1: "sim_run s1 e1 {?M}" using w(6) live by simp
  let ?e = "sim_again None e1"
  obtain s where s: "sim_run s ?e {contents s}" "contents s \<in> {?M}" "\<not> kv_dirty s" "\<not> read_through s"
    by (rule sim_restarted [OF w1, of None]) simp_all
  have run: "sim_run s ?e {?M}" and map: "contents s = ?M" using s(1,2) by simp_all
  note a = sim_again_ok [OF sim.rp.run_online [OF w1], of None]
  have on: "rp_on sim_on (s_storage ?e)" using a(2) by simp
  let ?t = "s\<lparr>read_through := True\<rparr>"
  note t = sim_settings(3,4) [OF run on, of True]
  have tmap: "contents ?t = ?M" using map by (simp add: contents_def)
  let ?blank = "sim_on_flash (sim_blank None) ?e"
  note b = sim_on_flash_ok [OF a(1), of "sim_blank None"]
  have blank: "rp_on sim_on (s_storage ?blank)" using b(2) by (simp add: sim_blank_def)
  have "set (sim_xip (sim_blank None)) \<subseteq> {0xFF}" by (auto simp: sim_xip_def sim_blank_def)
  then have none: "medium_value (rp_med sim_platform) ?t ?blank 1 = None"
    unfolding medium_value_def kv_seg_def b(4) subarr_def
    by (intro checked_blank) (meson in_set_dropD in_set_takeD subset_iff)
  let ?n = "?t\<lparr>auto_commit := False\<rparr>"
  have n: "sim_run ?n ?e {?M}" "contents ?n = ?M" using sim_settings(2) [OF t(2) on] tmap by (simp_all add: contents_def)
  obtain d where d: "kv_exec (Set_u32 2 8) ?n ?e = (d, ?e, HAL_OK)" "contents d = (contents ?n)(2 \<mapsto> (KV_REC_TYPE_U32, u32_bytes 8))"
    "sim_run d ?e {?M}" "read_through d = read_through ?n" "contents d \<noteq> contents ?n \<longrightarrow> kv_dirty d"
    by (rule sim_deferred [OF n(1) on, of 2 8]) (use n(2) in auto)
  have "contents d 2 \<noteq> contents ?n 2" unfolding d(2) n(2) by simp
  then have dirty: "kv_dirty d" using d(5) by metis
  note r = kv_reads_return_map [OF sim.rp.kv_medium_axioms]
  have "hal_kv_get_u32_ex s ?e 1 True = (HAL_OK, Some 7)" "hal_kv_get_blob_ex s ?e 1 (Some [5]) = (HAL_ENOENT, Some [5], 0)"
    using r [OF run on, of 1 "Some [5]"] s(3,4) unfolding map by (simp_all add: KV_REC_TYPE_U32_def KV_REC_TYPE_BLOB_def)
  moreover have "hal_kv_get_u32_ex ?t ?e 1 True = (HAL_OK, Some 7)" "hal_kv_get_u32_ex ?t ?blank 1 True = (HAL_EIO, Some 0)"
    using r [OF t(2) on, of 1 None] s(3) b(1,3) blank none unfolding tmap by simp_all
  moreover have "hal_kv_get_u32_ex d ?e 1 True = (HAL_EBUSY, Some 0)"
    using r [OF d(3) on, of 1 None] d(4) dirty by simp
  ultimately show ?thesis using run t(1) d(1) by blast
qed

text \<open>
  C5: A number that was set and acknowledged while changes are committed at once is there after the next
  start, whatever happens to the power afterwards.
\<close>

theorem kv_acknowledged_value_survives:
  assumes "kv_medium ops med powered good es ps as" "kv_run ops med powered good es ps as base n s e H"
    and "powered (s_storage e)" "auto_commit s" "kv_exec (Set_u32 k v) s e = (s', e', HAL_OK)" "powered (s_storage e')"
    and "attached ops med good es ps as e1" "powered (s_storage e1)" "s_size e1 = s_size e'"
    and "med (s_storage e1) = med (s_storage e')" "kv_mutex s1"
  shows "\<exists>s2. hal_kv_init_ex s1 e1 base (2 * n) = Some (s2, e1, HAL_OK) \<and> hal_kv_get_u32_ex s2 e1 k True = (HAL_OK, Some v)"
proof -
  note m = assms(1)
  have run: "kv_run ops med powered good es ps as base n s' e' {contents s'}"
    using kv_run.request [OF assms(2,3,5)] assms(4,6) by (simp add: kv_history_def)
  have inv: "kv_medium.kv_inv ops med powered good es ps as s e H"
    using kv_medium.kv_run_inv [OF m assms(2)] by (simp add: kv_medium.run_inv_def [OF m])
  then have c: "contents s' k = Some (KV_REC_TYPE_U32, u32_bytes v)"
    using kv_medium.kv_exec_inv [OF m inv assms(3,5)] by simp
  obtain s2 where s2: "hal_kv_init_ex s1 e1 base (2 * n) = Some (s2, e1, HAL_OK)" "contents s2 = contents s'" "\<not> kv_dirty s2"
    by (rule kv_medium.run_restart [OF m kv_medium.kv_run_inv [OF m run] assms(7-11)]) simp
  have run2: "kv_run ops med powered good es ps as base n s2 e1 {contents s2}"
    by (rule kv_run.restart [OF run assms(7-11) s2(1)])
  obtain C B where h: "kv_placed s2 e1" "holds_ok med s2 e1 C B" by (rule kv_medium.run_holds [OF m run2 assms(8)])
  from kv_medium.get_u32_contents [OF m kv_medium.run_online [OF m run2] h(1) assms(8) h(2), of k]
  have "hal_kv_get_u32_ex s2 e1 k True = (HAL_OK, Some v)" using s2(3) unfolding s2(2) c by simp
  then show ?thesis using s2(1) by blast
qed

theorem kv_acknowledged_value_survives_witness:
  "\<exists>s e s2. kv_exec (Set_u32 1 7) (fst s) (snd s) = (fst e, snd e, HAL_OK) \<and>
     hal_kv_init_ex kv_reset (sim_again (Some 5) (snd e)) 0 8192 = Some (s2, sim_again (Some 5) (snd e), HAL_OK) \<and>
     hal_kv_get_u32_ex s2 (sim_again (Some 5) (snd e)) 1 True = (HAL_OK, Some 7)"
proof -
  obtain s0 e0 s e st where w: "sim_run s0 e0 {Map.empty}" "rp_on sim_on (s_storage e0)" "auto_commit s0" "contents s0 = Map.empty"
    "sim.rp_still (s_storage e0)" "kv_exec (Set_u32 1 7) s0 e0 = (s, e, st)"
    "sim_run s e (if st = HAL_OK \<and> rp_on sim_on (s_storage e) then {contents s} else {contents s, Map.empty})"
    by (rule sim_written [of None 1 7]) simp_all
  have live: "st = HAL_OK" "sim.rp_still (s_storage e)" using sim_set_live [OF w(1,5,4,6)] by auto
  have on: "rp_on sim_on (s_storage e)" by (rule sim.rps.steady [OF live(2)])
  have m: "kv_mutex kv_reset" "2 * 4096 = (8192 :: nat)" by (simp_all add: kv_reset_def reset_runtime_state_locked_def)
  note a = sim_again_ok [OF sim.rp.run_online [OF w(7)], of "Some 5"]
  have on5: "rp_on sim_on (s_storage (sim_again (Some 5) e))" using a(2) by simp
  from kv_acknowledged_value_survives [OF sim.rp.kv_medium_axioms w(1,2,3) w(6) [unfolded live(1)] on a(1) on5 a(3,4) m(1), unfolded m(2)]
    w(6) live(1) show ?thesis by (intro exI [of _ "(s0, e0)"] exI [of _ "(s, e)"]) auto
qed

text \<open>
  C39: Starting the store always returns, whatever the medium holds: the walk over the log of a
  damaged or foreign bank ends.
\<close>

theorem kv_init_returns:
  assumes "0 < s_append_size e" "s_append_size e < 65536"
  shows "hal_kv_init_ex s e base len \<noteq> None"
  by (rule hal_kv_init_ex_total [OF assms])

theorem kv_init_returns_witness: "hal_kv_init_ex kv_reset (sim_boot (sim_blank (Some 0))) 0 8192 \<noteq> None"
proof (rule kv_init_returns)
  show "0 < s_append_size (sim_boot (sim_blank (Some 0)))" "s_append_size (sim_boot (sim_blank (Some 0))) < 65536"
    using sim_boot_ok(1) [of "sim_blank (Some 0)"] by (simp_all add: attached_def)
qed

text \<open>
  C10: The flash provider on the RP backend keeps the laws the store relies on, whatever errors the
  application's callbacks report: a replacement, an append or an erasure that fails or loses its
  power leaves the region as it was, or starting with an erased byte, or complete but for a part of
  what publishes it (an append: a part from the front), the mirror in RAM follows the flash, and
  success while the power is on means that all of it is there: the data is written, the range is erased.
\<close>

theorem rp_flash_provider_is_medium:
  assumes "rp_machine pl powered"
  shows "kv_medium (flash_provider (rp_backend c pl)) (rp_med pl) (rp_on powered) (rp_good pl powered)
    FLASH_SECTOR_SIZE FLASH_PAGE_SIZE 1"
  by (rule rp_machine.medium [OF assms])

theorem rp_flash_provider_is_medium_witness:
  "kv_medium (flash_provider (rp_backend sim_config sim_platform)) (rp_med sim_platform) (rp_on sim_on) (rp_good sim_platform sim_on)
    FLASH_SECTOR_SIZE FLASH_PAGE_SIZE 1"
  by (rule rp_flash_provider_is_medium [OF sim.rp_machine_axioms])

text \<open>
  C40: The facade, initialised on the RP backend with a configuration the compiler accepts, is in the
  state these laws are about: the partition at the end of the flash, mirrored in RAM, with the
  geometry of the flash.
\<close>

theorem rp_eeprom_boot:
  assumes "rp_machine pl powered" "rp_config_valid c" "0 < HAL_RP_FLASH_EEPROM_SIZE c" "HAL_RP_FLASH_EEPROM_SIZE c \<le> 0xFFFF"
      "FLASH_SECTOR_SIZE dvd PICO_FLASH_SIZE_BYTES c"
    and "length (xip pl (re_world (fp_flash (s_storage e)))) = PICO_FLASH_SIZE_BYTES c"
    and "length (fp_mirror (s_storage e)) = HAL_RP_FLASH_EEPROM_SIZE c" "callbacks_ok pl powered (s_storage e)"
    and "sz \<le> HAL_RP_FLASH_EEPROM_SIZE c" "t \<noteq> HAL_EEPROM_AT24C256"
    and "hal_eeprom_init (jh_eeprom_provider_get_ops ext c pl) e t sz i2c = (e', status)"
  shows "status = HAL_OK \<and>
    attached (flash_provider (rp_backend c pl)) (rp_med pl) (rp_good pl powered) FLASH_SECTOR_SIZE FLASH_PAGE_SIZE 1 e' \<and>
    s_size e' = (if sz = 0 then HAL_RP_FLASH_EEPROM_SIZE c else sz) \<and>
    rp_med pl (s_storage e') = subarr (PICO_FLASH_SIZE_BYTES c - HAL_RP_FLASH_EEPROM_SIZE c) (s_size e')
      (xip pl (re_world (fp_flash (s_storage e))))"
  using rp_machine.eeprom_boot [OF assms] by blast

theorem rp_eeprom_boot_witness:
  "\<exists>e. hal_eeprom_init (jh_eeprom_provider_get_ops None sim_config sim_platform) (sim_off (sim_blank None)) HAL_EEPROM_DEFAULT 8192 0 = (e, HAL_OK) \<and>
     s_size e = 8192 \<and> rp_med sim_platform (s_storage e) = subarr (sim_size - 8192) 8192 (sim_xip (sim_blank None))"
proof -
  obtain e st where run: "hal_eeprom_init (jh_eeprom_provider_get_ops None sim_config sim_platform) (sim_off (sim_blank None))
      HAL_EEPROM_DEFAULT 8192 0 = (e, st)" by (metis prod.collapse)
  have sz: "8192 \<le> HAL_RP_FLASH_EEPROM_SIZE sim_config" "HAL_EEPROM_DEFAULT \<noteq> HAL_EEPROM_AT24C256" by (simp_all add: sim_config_def)
  have c: "HAL_RP_FLASH_EEPROM_SIZE sim_config = 8192" "PICO_FLASH_SIZE_BYTES sim_config = sim_size" "xip sim_platform = sim_xip"
    by (simp_all add: sim_config_def sim_platform_def)
  from rp_eeprom_boot [OF sim.rp_machine_axioms sim_config_ok sim_callbacks sz run] run show ?thesis
    unfolding c by (simp add: sim_world)
qed

text \<open>
  C6: While the power stays on and the flash does what it is asked, a request succeeds exactly when
  the map after it fits a bank, in bytes once compacted and in keys, however full the log is: the
  store never runs out of space for good, deleting always succeeds, and a value that is refused
  leaves the store and the medium untouched.
\<close>

theorem kv_accepts_what_fits:
  assumes "kv_reliable ops med powered good es ps as steady" "kv_run ops med powered good es ps as base n s e H"
    and "steady (s_storage e)" "kv_exec r s e = (s', e', status)"
  shows "(status = HAL_OK \<longleftrightarrow> has_room r s) \<and> (status = HAL_OK \<longrightarrow> contents s' = kv_spec r (contents s) \<and> steady (s_storage e')) \<and>
    (status \<noteq> HAL_OK \<longrightarrow> s' = s \<and> e' = e)"
proof -
  have m: "kv_medium ops med powered good es ps as" using assms(1) by (simp add: kv_reliable_def)
  have inv: "kv_medium.kv_inv ops med powered good es ps as s e H"
    using kv_medium.kv_run_inv [OF m assms(2)] by (simp add: kv_medium.run_inv_def [OF m])
  from kv_reliable.kv_exec_live [OF assms(1) inv assms(3,4)]
    kv_medium.kv_exec_inv [OF m inv kv_reliable.steady [OF assms(1,3)] assms(4)]
  show ?thesis by auto
qed

theorem kv_accepts_what_fits_witness:
  "\<exists>s e s' e'. sim_run s e {Map.empty} \<and> kv_exec (Set_u32 1 7) s e = (s', e', HAL_OK) \<and>
     contents s' = [1 \<mapsto> (KV_REC_TYPE_U32, u32_bytes 7)]"
proof -
  obtain s0 e0 s e st where w: "sim_run s0 e0 {Map.empty}" "contents s0 = Map.empty" "sim.rp_still (s_storage e0)"
    "kv_exec (Set_u32 1 7) s0 e0 = (s, e, st)" by (rule sim_written [of None 1 7]) simp_all
  have "has_room (Set_u32 1 7) s0" by (rule sim_room [OF w(1)]) (use w(2) in simp)
  then show ?thesis using kv_accepts_what_fits [OF sim.rps.kv_reliable_axioms w(1,3,4)] w by auto
qed

end
