(* ===== verification/Ota_Image.thy ===== *)
theory Ota_Image
  imports Bytes Crc Sha256 Secure
begin

text \<open>
  The two records of a firmware update (\<open>src/hal/network/ota/jh_ota_image.cpp\<close>): the manifest in front of an
  image, with a keyed hash over its first 96 bytes, and the boot state, of which two copies are kept.

  The arrays of a struct are lists of their length (\<open>manifest_ok\<close>, \<open>boot_state_ok\<close>). The target is kept as the
  number the code casts it from; the mode of a boot state is a datatype, and the number of a record that is none of
  its values fails where \<open>state_valid\<close> would reject it. Encoders return the bytes when they
  succeed.
\<close>

section \<open>Constants and records\<close>

definition JH_OTA_IMAGE_HEADER_SIZE :: nat where "JH_OTA_IMAGE_HEADER_SIZE = 160"
definition JH_OTA_IMAGE_VERSION :: u16 where "JH_OTA_IMAGE_VERSION = 1"
definition JH_OTA_SHA256_BYTES :: nat where "JH_OTA_SHA256_BYTES = 32"
definition JH_OTA_VERSION_TEXT_SIZE :: nat where "JH_OTA_VERSION_TEXT_SIZE = 32"
definition JH_OTA_STATE_RECORD_SIZE :: nat where "JH_OTA_STATE_RECORD_SIZE = 256"
definition JH_OTA_STATE_VERSION :: u16 where "JH_OTA_STATE_VERSION = 1"

definition JH_OTA_TARGET_UNKNOWN :: u16 where "JH_OTA_TARGET_UNKNOWN = 0"
definition JH_OTA_TARGET_RP2040 :: u16 where "JH_OTA_TARGET_RP2040 = 1"
definition JH_OTA_TARGET_RP2350_ARM :: u16 where "JH_OTA_TARGET_RP2350_ARM = 2"
definition JH_OTA_TARGET_RP2350_RISCV :: u16 where "JH_OTA_TARGET_RP2350_RISCV = 3"

record ota_manifest =
  om_target :: u16
  om_flags :: u16
  om_program_offset :: u32
  om_payload_size :: u32
  om_generation :: u32
  om_sha256 :: bytes
  om_version :: bytes
  om_signature :: bytes

datatype ota_mode = JH_OTA_BOOT_STABLE | JH_OTA_BOOT_PENDING | JH_OTA_BOOT_TRIAL | JH_OTA_BOOT_ROLLBACK | JH_OTA_BOOT_RECOVERY

fun mode_byte :: "ota_mode \<Rightarrow> u8" where
  "mode_byte JH_OTA_BOOT_STABLE = 0"
| "mode_byte JH_OTA_BOOT_PENDING = 1"
| "mode_byte JH_OTA_BOOT_TRIAL = 2"
| "mode_byte JH_OTA_BOOT_ROLLBACK = 3"
| "mode_byte JH_OTA_BOOT_RECOVERY = 4"

definition byte_mode :: "u8 \<Rightarrow> ota_mode option" where
  "byte_mode b =
     (if b = 0 then Some JH_OTA_BOOT_STABLE else if b = 1 then Some JH_OTA_BOOT_PENDING
      else if b = 2 then Some JH_OTA_BOOT_TRIAL else if b = 3 then Some JH_OTA_BOOT_ROLLBACK
      else if b = 4 then Some JH_OTA_BOOT_RECOVERY else None)"

record boot_state =
  bs_sequence :: u32
  bs_mode :: ota_mode
  bs_attempts :: u8
  bs_max_attempts :: u8
  bs_program_size :: u32
  bs_staging_size :: u32
  bs_program_generation :: u32
  bs_staging_generation :: u32
  bs_program_sha256 :: bytes
  bs_staging_sha256 :: bytes
  bs_program_version :: bytes
  bs_staging_version :: bytes

text \<open>\<open>JHOTA1\\r\\n\<close> and \<open>JHOTAST1\<close>.\<close>

definition kImageMagic :: bytes where "kImageMagic = [0x4A, 0x48, 0x4F, 0x54, 0x41, 0x31, 0x0D, 0x0A]"
definition kStateMagic :: bytes where "kStateMagic = [0x4A, 0x48, 0x4F, 0x54, 0x41, 0x53, 0x54, 0x31]"

definition kImageCrcOffset :: nat where "kImageCrcOffset = JH_OTA_IMAGE_HEADER_SIZE - 4"
definition kStateCrcOffset :: nat where "kStateCrcOffset = JH_OTA_STATE_RECORD_SIZE - 4"

definition text_valid :: "bytes \<Rightarrow> bool" where
  "text_valid text \<longleftrightarrow> 0 \<in> set (take JH_OTA_VERSION_TEXT_SIZE text)"

section \<open>The manifest of an image\<close>

definition manifest_valid :: "ota_manifest \<Rightarrow> bool" where
  "manifest_valid m \<longleftrightarrow> om_target m \<noteq> JH_OTA_TARGET_UNKNOWN \<and> om_payload_size m > 0 \<and> text_valid (om_version m)"

definition jh_ota_image_manifest_encode :: "ota_manifest \<Rightarrow> bytes option \<times> hal_status" where
  "jh_ota_image_manifest_encode m =
     (if \<not> manifest_valid m then (None, HAL_EINVAL)
      else
        let out = replicate JH_OTA_IMAGE_HEADER_SIZE 0;
            out = blit out 0 kImageMagic;
            out = jh_store_le16 out 8 JH_OTA_IMAGE_VERSION;
            out = jh_store_le16 out 10 (of_nat JH_OTA_IMAGE_HEADER_SIZE);
            out = jh_store_le16 out 12 (om_target m);
            out = jh_store_le16 out 14 (om_flags m);
            out = jh_store_le32 out 16 (om_program_offset m);
            out = jh_store_le32 out 20 (om_payload_size m);
            out = jh_store_le32 out 24 (om_generation m);
            out = blit out 32 (om_sha256 m);
            out = blit out 64 (om_version m);
            out = blit out 96 (om_signature m)
        in (Some (jh_store_le32 out kImageCrcOffset (hal_crc32 (Some (take kImageCrcOffset out)))), HAL_OK))"

definition jh_ota_image_manifest_decode :: "bytes \<Rightarrow> ota_manifest option \<times> hal_status" where
  "jh_ota_image_manifest_decode raw =
     (if take 8 raw \<noteq> kImageMagic \<or> jh_load_le16 (drop 8 raw) \<noteq> JH_OTA_IMAGE_VERSION \<or>
         jh_load_le16 (drop 10 raw) \<noteq> of_nat JH_OTA_IMAGE_HEADER_SIZE \<or>
         0 \<notin> set (subarr 64 JH_OTA_VERSION_TEXT_SIZE raw) \<or>
         jh_load_le32 (drop kImageCrcOffset raw) \<noteq> hal_crc32 (Some (take kImageCrcOffset raw))
      then (None, HAL_EPROTO)
      else
        let m = \<lparr>om_target = jh_load_le16 (drop 12 raw), om_flags = jh_load_le16 (drop 14 raw),
                 om_program_offset = jh_load_le32 (drop 16 raw), om_payload_size = jh_load_le32 (drop 20 raw),
                 om_generation = jh_load_le32 (drop 24 raw), om_sha256 = subarr 32 32 raw,
                 om_version = subarr 64 32 raw, om_signature = subarr 96 32 raw\<rparr>
        in if \<not> manifest_valid m then (None, HAL_EPROTO) else (Some m, HAL_OK))"

definition manifest_auth_bytes :: "ota_manifest \<Rightarrow> bytes option \<times> hal_status" where
  "manifest_auth_bytes m =
     (if \<not> manifest_valid m then (None, HAL_EINVAL)
      else case jh_ota_image_manifest_encode (m\<lparr>om_signature := replicate 32 0\<rparr>) of
        (encoded, status) \<Rightarrow> if status \<noteq> HAL_OK then (None, status) else (map_option (take 96) encoded, HAL_OK))"

text \<open>The outer option says whether the call returns.\<close>

definition jh_ota_image_manifest_sign ::
  "ota_manifest \<Rightarrow> bytes option \<Rightarrow> nat \<Rightarrow> (ota_manifest \<times> hal_status) option" where
  "jh_ota_image_manifest_sign m key key_size =
     (if key = None \<and> key_size > 0 then Some (m, HAL_EINVAL)
      else case manifest_auth_bytes m of
        (authenticated, status) \<Rightarrow>
          if status \<noteq> HAL_OK then Some (m, status)
          else map_option (\<lambda>(ok, mac).
              (case mac of None \<Rightarrow> m | Some t \<Rightarrow> m\<lparr>om_signature := t\<rparr>, if ok then HAL_OK else HAL_EINTERNAL))
            (hal_hmac_sha256 key key_size authenticated 96 True))"

definition jh_ota_image_manifest_verify :: "ota_manifest \<Rightarrow> bytes option \<Rightarrow> nat \<Rightarrow> hal_status option" where
  "jh_ota_image_manifest_verify m key key_size =
     (if key = None \<and> key_size > 0 then Some HAL_EINVAL
      else map_option (\<lambda>(expected, status).
          if status \<noteq> HAL_OK then status
          else
            let difference = fold (\<lambda>i d. d OR (om_signature expected ! i XOR om_signature m ! i))
                               [0..<JH_OTA_SHA256_BYTES] 0
            in if difference = 0 then HAL_OK else HAL_EAUTH)
        (jh_ota_image_manifest_sign m key key_size))"

section \<open>The boot state\<close>

definition state_valid :: "boot_state \<Rightarrow> bool" where
  "state_valid st \<longleftrightarrow> bs_max_attempts st > 0 \<and> text_valid (bs_program_version st) \<and> text_valid (bs_staging_version st)"

definition sequence_newer :: "u32 \<Rightarrow> u32 \<Rightarrow> bool" where
  "sequence_newer lhs rhs \<longleftrightarrow> sint (lhs - rhs) > 0"

definition jh_ota_boot_state_encode :: "boot_state \<Rightarrow> bytes option \<times> hal_status" where
  "jh_ota_boot_state_encode st =
     (if \<not> state_valid st then (None, HAL_EINVAL)
      else
        let out = replicate JH_OTA_STATE_RECORD_SIZE 0;
            out = blit out 0 kStateMagic;
            out = jh_store_le16 out 8 JH_OTA_STATE_VERSION;
            out = jh_store_le16 out 10 (of_nat JH_OTA_STATE_RECORD_SIZE);
            out = jh_store_le32 out 12 (bs_sequence st);
            out = out[16 := mode_byte (bs_mode st)];
            out = out[17 := bs_attempts st];
            out = out[18 := bs_max_attempts st];
            out = jh_store_le32 out 20 (bs_program_size st);
            out = jh_store_le32 out 24 (bs_staging_size st);
            out = jh_store_le32 out 28 (bs_program_generation st);
            out = jh_store_le32 out 32 (bs_staging_generation st);
            out = blit out 36 (bs_program_sha256 st);
            out = blit out 68 (bs_staging_sha256 st);
            out = blit out 100 (bs_program_version st);
            out = blit out 132 (bs_staging_version st)
        in (Some (jh_store_le32 out kStateCrcOffset (hal_crc32 (Some (take kStateCrcOffset out)))), HAL_OK))"

definition jh_ota_boot_state_decode :: "bytes \<Rightarrow> boot_state option \<times> hal_status" where
  "jh_ota_boot_state_decode raw =
     (if take 8 raw \<noteq> kStateMagic \<or> jh_load_le16 (drop 8 raw) \<noteq> JH_OTA_STATE_VERSION \<or>
         jh_load_le16 (drop 10 raw) \<noteq> of_nat JH_OTA_STATE_RECORD_SIZE \<or>
         jh_load_le32 (drop kStateCrcOffset raw) \<noteq> hal_crc32 (Some (take kStateCrcOffset raw))
      then (None, HAL_EPROTO)
      else case byte_mode (raw ! 16) of
        None \<Rightarrow> (None, HAL_EPROTO)
      | Some mode \<Rightarrow>
          let st = \<lparr>bs_sequence = jh_load_le32 (drop 12 raw), bs_mode = mode, bs_attempts = raw ! 17,
                    bs_max_attempts = raw ! 18, bs_program_size = jh_load_le32 (drop 20 raw),
                    bs_staging_size = jh_load_le32 (drop 24 raw), bs_program_generation = jh_load_le32 (drop 28 raw),
                    bs_staging_generation = jh_load_le32 (drop 32 raw), bs_program_sha256 = subarr 36 32 raw,
                    bs_staging_sha256 = subarr 68 32 raw,
                    bs_program_version = (subarr 100 32 raw)[JH_OTA_VERSION_TEXT_SIZE - 1 := 0],
                    bs_staging_version = (subarr 132 32 raw)[JH_OTA_VERSION_TEXT_SIZE - 1 := 0]\<rparr>
          in if \<not> state_valid st then (None, HAL_EPROTO) else (Some st, HAL_OK))"

text \<open>The state is given with the index of the record it comes from.\<close>

definition jh_ota_boot_state_select :: "bytes \<Rightarrow> bytes \<Rightarrow> (boot_state \<times> u8) option \<times> hal_status" where
  "jh_ota_boot_state_select first second =
     (case (fst (jh_ota_boot_state_decode first), fst (jh_ota_boot_state_decode second)) of
        (None, None) \<Rightarrow> (None, HAL_ENOENT)
      | (Some a, None) \<Rightarrow> (Some (a, 0), HAL_OK)
      | (None, Some b) \<Rightarrow> (Some (b, 1), HAL_OK)
      | (Some a, Some b) \<Rightarrow>
          (if sequence_newer (bs_sequence b) (bs_sequence a) then (Some (b, 1), HAL_OK) else (Some (a, 0), HAL_OK)))"

section \<open>The bytes of a boot state\<close>

text \<open>The arrays have their lengths and hold what the encoder accepts.\<close>

definition boot_state_wf :: "boot_state \<Rightarrow> bool" where
  "boot_state_wf st \<longleftrightarrow> state_valid st \<and> length (bs_program_sha256 st) = 32 \<and> length (bs_staging_sha256 st) = 32 \<and>
     length (bs_program_version st) = 32 \<and> length (bs_staging_version st) = 32"

text \<open>A version the decoder gives ends in a zero.\<close>

definition state_read :: "boot_state \<Rightarrow> boot_state" where
  "state_read st = st\<lparr>bs_program_version := (bs_program_version st)[31 := 0], bs_staging_version := (bs_staging_version st)[31 := 0]\<rparr>"

definition boot_state_ok :: "boot_state \<Rightarrow> bool" where
  "boot_state_ok st \<longleftrightarrow> bs_max_attempts st > 0 \<and>
     length (bs_program_sha256 st) = 32 \<and> length (bs_staging_sha256 st) = 32 \<and>
     length (bs_program_version st) = 32 \<and> length (bs_staging_version st) = 32 \<and>
     bs_program_version st ! 31 = 0 \<and> bs_staging_version st ! 31 = 0"

definition state_front :: "boot_state \<Rightarrow> bytes" where
  "state_front st = kStateMagic @ le16 1 @ le16 256 @ le32 (bs_sequence st) @
     [mode_byte (bs_mode st), bs_attempts st, bs_max_attempts st, 0] @
     le32 (bs_program_size st) @ le32 (bs_staging_size st) @ le32 (bs_program_generation st) @
     le32 (bs_staging_generation st) @ bs_program_sha256 st @ bs_staging_sha256 st @
     bs_program_version st @ bs_staging_version st @ replicate 88 0"

definition state_record :: "boot_state \<Rightarrow> bytes" where
  "state_record st = state_front st @ le32 (hal_crc32 (Some (state_front st)))"

lemma length_kStateMagic [simp]: "length kStateMagic = 8"
  by (simp add: kStateMagic_def)

lemma text_valid_last: "length t = 32 \<Longrightarrow> t ! 31 = 0 \<Longrightarrow> text_valid t"
  by (auto simp: text_valid_def JH_OTA_VERSION_TEXT_SIZE_def in_set_conv_nth intro!: exI [of _ 31])

lemma boot_state_ok_wf [simp]: "boot_state_ok st \<Longrightarrow> boot_state_wf st"
  by (simp add: boot_state_ok_def boot_state_wf_def state_valid_def text_valid_last)

lemma state_read_ok:
  "boot_state_wf st \<Longrightarrow> boot_state_ok (state_read st)" "boot_state_ok st \<Longrightarrow> state_read st = st"
  "bs_sequence (state_read st) = bs_sequence st" "bs_mode (state_read st) = bs_mode st"
proof -
  have last: "length t = 32 \<Longrightarrow> t ! 31 = 0 \<Longrightarrow> t[31 := 0] = t" for t :: bytes by (metis list_update_id)
  show "boot_state_ok st \<Longrightarrow> state_read st = st" by (simp add: state_read_def boot_state_ok_def last)
qed (simp_all add: state_read_def boot_state_wf_def boot_state_ok_def state_valid_def)

lemma length_state_front [simp]: "boot_state_wf st \<Longrightarrow> length (state_front st) = 252"
  by (simp add: state_front_def boot_state_wf_def)

lemma length_state_record [simp]: "boot_state_wf st \<Longrightarrow> length (state_record st) = 256"
  by (simp add: state_record_def)

lemma encode_state:
  assumes "boot_state_wf st"
  shows "jh_ota_boot_state_encode st = (Some (state_record st), HAL_OK)"
proof -
  have len: "length (bs_program_sha256 st) = 32" "length (bs_staging_sha256 st) = 32"
    "length (bs_program_version st) = 32" "length (bs_staging_version st) = 32"
    using assms by (simp_all add: boot_state_wf_def)
  have upd: "(padded 256 p)[i := x] = blit (padded 256 p) i [x]" if "length p \<le> 256" "i < 256" for p i x
    using that by (simp add: blit_single)
  have one: "JH_OTA_STATE_VERSION = 1" "of_nat JH_OTA_STATE_RECORD_SIZE = (256 :: u16)" "JH_OTA_STATE_RECORD_SIZE = 256"
    "kStateCrcOffset = 252"
    by (simp_all add: JH_OTA_STATE_VERSION_def JH_OTA_STATE_RECORD_SIZE_def kStateCrcOffset_def)
  have z: "[0] = replicate 1 (0 :: u8)" by simp
  show ?thesis
    using conjunct1 [OF assms [unfolded boot_state_wf_def]]
    by (simp add: jh_ota_boot_state_encode_def Let_def one padded_start store_le16 store_le32 blit_padded upd len take_padded)
      (simp add: state_record_def state_front_def padded_def len)
qed

lemma byte_mode_byte [simp]: "byte_mode (mode_byte m) = Some m"
  by (cases m) (simp_all add: byte_mode_def)

lemma decode_state_wf:
  assumes "boot_state_wf st"
  shows "jh_ota_boot_state_decode (state_record st) = (Some (state_read st), HAL_OK)"
proof -
  have len: "length (bs_program_sha256 st) = 32" "length (bs_staging_sha256 st) = 32"
    "length (bs_program_version st) = 32" "length (bs_staging_version st) = 32"
    using assms by (simp_all add: boot_state_wf_def)
  have one: "JH_OTA_STATE_VERSION = 1" "of_nat JH_OTA_STATE_RECORD_SIZE = (256 :: u16)" "kStateCrcOffset = 252"
    "JH_OTA_VERSION_TEXT_SIZE = 32"
    by (simp_all add: JH_OTA_STATE_VERSION_def JH_OTA_STATE_RECORD_SIZE_def kStateCrcOffset_def JH_OTA_VERSION_TEXT_SIZE_def)
  have crc: "drop 252 (state_record st) = le32 (hal_crc32 (Some (state_front st))) @ []" "take 252 (state_record st) = state_front st"
    using assms by (simp_all add: state_record_def)
  have front: "state_record st = state_front st @ le32 (hal_crc32 (Some (state_front st)))" by (rule state_record_def)
  have "state_valid (state_read st)" using state_read_ok(1) [OF assms] boot_state_ok_wf boot_state_wf_def by blast
  then show ?thesis
    unfolding jh_ota_boot_state_decode_def Let_def one crc load_le32
    by (simp add: front state_front_def len subarr_def nth_append state_valid_def state_read_def)
qed

lemma decode_state:
  "boot_state_ok st \<Longrightarrow> jh_ota_boot_state_decode (state_record st) = (Some st, HAL_OK)"
  using decode_state_wf [of st] by (simp add: state_read_ok)

text \<open>What the decoder accepts is a state whose arrays have their lengths.\<close>

lemma decode_state_ok:
  assumes "fst (jh_ota_boot_state_decode raw) = Some st" "length raw = 256"
  shows "boot_state_ok st"
  using assms
  by (auto simp: jh_ota_boot_state_decode_def Let_def boot_state_ok_def state_valid_def JH_OTA_VERSION_TEXT_SIZE_def
      split: if_splits option.splits)

lemma decode_status: "snd (jh_ota_boot_state_decode raw) = HAL_OK \<longleftrightarrow> fst (jh_ota_boot_state_decode raw) \<noteq> None"
  by (auto simp: jh_ota_boot_state_decode_def Let_def split: option.split)

section \<open>Records cut short\<close>

text \<open>
  A record is written from the front into erased flash. One that was cut short holds 0xFF where a whole one
  has zeros, unless only its checksum is missing; it is \<open>genuine\<close> when its checksum shows that.
\<close>

definition genuine :: "bytes \<Rightarrow> bool" where
  "genuine raw \<longleftrightarrow> fst (jh_ota_boot_state_decode raw) = None \<or> subarr 164 88 raw = replicate 88 0"

lemma decode_erased:
  assumes "raw ! 0 = 0xFF" "raw \<noteq> []"
  shows "fst (jh_ota_boot_state_decode raw) = None"
proof -
  have "take 8 raw \<noteq> kStateMagic"
  proof
    assume "take 8 raw = kStateMagic"
    then have "take 8 raw ! 0 = kStateMagic ! 0" by simp
    then show False using assms by (simp add: kStateMagic_def)
  qed
  then show ?thesis by (simp add: jh_ota_boot_state_decode_def)
qed

lemma state_record_reserved: "boot_state_wf st \<Longrightarrow> subarr 164 88 (state_record st) = replicate 88 0"
  by (simp add: state_record_def state_front_def boot_state_wf_def subarr_def)

lemma decode_cut_short:
  assumes st: "boot_state_wf st" and k: "k \<le> 256"
    and raw: "raw = take k (state_record st) @ replicate (256 - k) 0xFF" and g: "genuine raw"
  shows "fst (jh_ota_boot_state_decode raw) = None \<or> raw = state_record st"
proof (rule disjCI)
  assume part: "raw \<noteq> state_record st"
  show "fst (jh_ota_boot_state_decode raw) = None"
  proof (cases "k \<le> 251")
    case True
    have n: "164 + 88 \<le> length raw" unfolding raw using k st by simp
    have "raw ! 251 = 0xFF" unfolding raw using True st by (simp add: nth_append)
    moreover have "raw ! 251 = subarr 164 88 raw ! 87" using n by (simp add: nth_subarr)
    ultimately have "subarr 164 88 raw \<noteq> replicate 88 0" by auto
    then show ?thesis using g by (simp add: genuine_def)
  next
    case False
    then have t: "take 252 raw = state_front st" unfolding raw using st k by (simp add: state_record_def min_def)
    have n: "length raw = 256" unfolding raw using st k by simp
    show ?thesis
    proof (rule ccontr)
      assume "fst (jh_ota_boot_state_decode raw) \<noteq> None"
      then have "jh_load_le32 (drop 252 raw) = hal_crc32 (Some (state_front st))"
        using t by (auto simp: jh_ota_boot_state_decode_def kStateCrcOffset_def JH_OTA_STATE_RECORD_SIZE_def split: if_splits)
      moreover have "le32 (jh_load_le32 (drop 252 raw)) = drop 252 raw" using le32_load [of "drop 252 raw"] n by simp
      ultimately have "raw = state_record st" using append_take_drop_id [of 252 raw] t by (simp add: state_record_def)
      then show False using part by contradiction
    qed
  qed
qed

section \<open>The selected record\<close>

lemma sequence_next: "sequence_newer (q + 1) q" "\<not> sequence_newer q (q + 1)"
  by (simp_all add: sequence_newer_def)

lemma select_cases:
  "fst (jh_ota_boot_state_select a b) = Some (st, i) \<longleftrightarrow>
     (i = 0 \<and> fst (jh_ota_boot_state_decode a) = Some st \<and>
        (\<forall>s2. fst (jh_ota_boot_state_decode b) = Some s2 \<longrightarrow> \<not> sequence_newer (bs_sequence s2) (bs_sequence st))) \<or>
     (i = 1 \<and> fst (jh_ota_boot_state_decode b) = Some st \<and>
        (\<forall>s1. fst (jh_ota_boot_state_decode a) = Some s1 \<longrightarrow> sequence_newer (bs_sequence st) (bs_sequence s1)))"
  by (auto simp: jh_ota_boot_state_select_def split: option.splits)

lemma select_status: "snd (jh_ota_boot_state_select a b) = HAL_OK \<longleftrightarrow> fst (jh_ota_boot_state_select a b) \<noteq> None"
  by (auto simp: jh_ota_boot_state_select_def split: option.splits)

text \<open>The record that is not the selected one is replaced by its successor, or by one that does not decode.\<close>

lemma select_successor:
  assumes "fst (jh_ota_boot_state_select a b) = Some (cur, i)" "boot_state_wf st" "bs_sequence st = bs_sequence cur + 1"
  shows "i = 0 \<Longrightarrow> fst (jh_ota_boot_state_select a (state_record st)) = Some (state_read st, 1)"
    "i \<noteq> 0 \<Longrightarrow> fst (jh_ota_boot_state_select (state_record st) b) = Some (state_read st, 0)"
  using assms decode_state_wf [OF assms(2)] sequence_next state_read_ok(3) [of st]
  by (auto simp: jh_ota_boot_state_select_def split: option.splits if_splits)

lemma select_keeps:
  assumes "fst (jh_ota_boot_state_select a b) = Some (cur, i)" "fst (jh_ota_boot_state_decode x) = None"
  shows "i = 0 \<Longrightarrow> fst (jh_ota_boot_state_select a x) = Some (cur, 0)"
    "i \<noteq> 0 \<Longrightarrow> fst (jh_ota_boot_state_select x b) = Some (cur, 1)"
  using assms by (auto simp: jh_ota_boot_state_select_def split: option.splits if_splits)

section \<open>The bytes of a manifest\<close>

definition manifest_ok :: "ota_manifest \<Rightarrow> bool" where
  "manifest_ok m \<longleftrightarrow> manifest_valid m \<and> length (om_sha256 m) = 32 \<and> length (om_version m) = 32 \<and> length (om_signature m) = 32"

text \<open>The part that is authenticated.\<close>

definition manifest_front :: "ota_manifest \<Rightarrow> bytes" where
  "manifest_front m = kImageMagic @ le16 1 @ le16 160 @ le16 (om_target m) @ le16 (om_flags m) @
     le32 (om_program_offset m) @ le32 (om_payload_size m) @ le32 (om_generation m) @ replicate 4 0 @
     om_sha256 m @ om_version m"

definition manifest_body :: "ota_manifest \<Rightarrow> bytes" where
  "manifest_body m = manifest_front m @ om_signature m @ replicate 28 0"

definition manifest_record :: "ota_manifest \<Rightarrow> bytes" where
  "manifest_record m = manifest_body m @ le32 (hal_crc32 (Some (manifest_body m)))"

lemma length_kImageMagic [simp]: "length kImageMagic = 8"
  by (simp add: kImageMagic_def)

lemma length_manifest [simp]:
  assumes "manifest_ok m"
  shows "length (manifest_front m) = 96" "length (manifest_body m) = 156" "length (manifest_record m) = 160"
  using assms by (simp_all add: manifest_record_def manifest_body_def manifest_front_def manifest_ok_def)

lemma image_sizes:
  "JH_OTA_IMAGE_VERSION = 1" "of_nat JH_OTA_IMAGE_HEADER_SIZE = (160 :: u16)" "JH_OTA_IMAGE_HEADER_SIZE = 160"
  "kImageCrcOffset = 156" "JH_OTA_VERSION_TEXT_SIZE = 32"
  by (simp_all add: JH_OTA_IMAGE_VERSION_def JH_OTA_IMAGE_HEADER_SIZE_def kImageCrcOffset_def JH_OTA_VERSION_TEXT_SIZE_def)

lemma encode_manifest:
  assumes "manifest_ok m"
  shows "jh_ota_image_manifest_encode m = (Some (manifest_record m), HAL_OK)"
proof -
  have len: "manifest_valid m" "length (om_sha256 m) = 32" "length (om_version m) = 32" "length (om_signature m) = 32"
    using assms by (simp_all add: manifest_ok_def)
  have zeros: "[0, 0, 0, 0] = replicate 4 (0 :: u8)" by (simp add: numeral_eq_Suc)
  show ?thesis
    by (simp add: jh_ota_image_manifest_encode_def Let_def image_sizes padded_start store_le16 store_le32 blit_padded len take_padded)
      (simp add: manifest_record_def manifest_body_def manifest_front_def padded_def len)
qed

lemma decode_manifest:
  assumes "manifest_ok m"
  shows "jh_ota_image_manifest_decode (manifest_record m) = (Some m, HAL_OK)"
proof -
  have len: "manifest_valid m" "length (om_sha256 m) = 32" "length (om_version m) = 32" "length (om_signature m) = 32"
    using assms by (simp_all add: manifest_ok_def)
  have nul: "0 \<in> set (om_version m)" using len(1,3) by (simp add: manifest_valid_def text_valid_def image_sizes)
  have front: "manifest_record m = manifest_body m @ le32 (hal_crc32 (Some (manifest_body m)))" by (rule manifest_record_def)
  have crc: "drop 156 (manifest_record m) = le32 (hal_crc32 (Some (manifest_body m))) @ []" "take 156 (manifest_record m) = manifest_body m"
    using assms by (simp_all add: manifest_record_def)
  show ?thesis
    unfolding jh_ota_image_manifest_decode_def Let_def image_sizes crc load_le32
    using len(1) by (simp add: front manifest_body_def manifest_front_def len nul subarr_def manifest_valid_def image_sizes text_valid_def)
qed

lemma decode_manifest_ok:
  assumes "fst (jh_ota_image_manifest_decode raw) = Some m" "length raw = 160"
  shows "manifest_ok m" "snd (jh_ota_image_manifest_decode raw) = HAL_OK"
  using assms by (auto simp: jh_ota_image_manifest_decode_def Let_def manifest_ok_def split: if_splits)

lemma decode_manifest_status: "snd (jh_ota_image_manifest_decode raw) = HAL_OK \<longleftrightarrow> fst (jh_ota_image_manifest_decode raw) \<noteq> None"
  by (auto simp: jh_ota_image_manifest_decode_def Let_def)

section \<open>The keyed hash of a manifest\<close>

lemma auth_bytes:
  assumes "manifest_ok m"
  shows "manifest_auth_bytes m = (Some (manifest_front m), HAL_OK)"
proof -
  let ?m = "m\<lparr>om_signature := replicate 32 0\<rparr>"
  have ok: "manifest_ok ?m" "manifest_valid m" using assms by (simp_all add: manifest_ok_def manifest_valid_def)
  have "manifest_front ?m = manifest_front m" by (simp add: manifest_front_def)
  then have "take 96 (manifest_record ?m) = manifest_front m" using length_manifest(1) [OF assms] by (simp add: manifest_record_def manifest_body_def)
  then show ?thesis using ok by (simp add: manifest_auth_bytes_def encode_manifest [OF ok(1)])
qed

lemma sign_manifest:
  assumes "manifest_ok m" "n \<le> length key"
  shows "jh_ota_image_manifest_sign m (Some key) n = Some (m\<lparr>om_signature := hmac (take n key) (manifest_front m)\<rparr>, HAL_OK)"
  using hal_hmac_sha256_ptr [OF assms(2), of "manifest_front m"] assms(1)
  by (simp add: jh_ota_image_manifest_sign_def auth_bytes)

lemma verify_manifest:
  assumes "manifest_ok m" "n \<le> length key"
  shows "jh_ota_image_manifest_verify m (Some key) n =
    Some (if om_signature m = hmac (take n key) (manifest_front m) then HAL_OK else HAL_EAUTH)"
proof -
  have len: "length (om_signature m) = 32" using assms(1) by (simp add: manifest_ok_def)
  have "(fold (\<lambda>i d. d OR (hmac (take n key) (manifest_front m) ! i XOR om_signature m ! i)) [0..<32] 0 = 0) \<longleftrightarrow>
      hmac (take n key) (manifest_front m) = om_signature m"
    using take_eq_iff_nth [of 32 "hmac (take n key) (manifest_front m)" "om_signature m"] len by (simp add: difference_0)
  then show ?thesis
    by (auto simp: jh_ota_image_manifest_verify_def sign_manifest [OF assms] JH_OTA_SHA256_BYTES_def Let_def)
qed

end
