(* ===== verification/Ota_Swap.thy ===== *)
theory Ota_Swap
  imports Ota_Image
begin

text \<open>
  The engine of a firmware update (\<open>src/hal/network/ota/jh_ota_swap_engine.cpp\<close>): the exchange of two slots, sector
  by sector, with a journal of phases, and the applier that runs on every reset.

  The context behind the callbacks is the state \<open>'c\<close>; callbacks that only read it return what they read. A backend
  pointer that is null, or has a null callback, is \<open>None\<close>.
\<close>

section \<open>The exchange of the slots\<close>

datatype ota_slot = JH_OTA_SWAP_SLOT_PROGRAM | JH_OTA_SWAP_SLOT_STAGING | JH_OTA_SWAP_SLOT_SCRATCH

text \<open>\<open>sb_read_phase\<close> is given the value its result variable has before the call.\<close>

record 'c swap_backend =
  sb_read_phase :: "'c \<Rightarrow> nat \<Rightarrow> u8 \<Rightarrow> u8 \<times> hal_status"
  sb_copy_sector :: "'c \<Rightarrow> nat \<Rightarrow> ota_slot \<Rightarrow> ota_slot \<Rightarrow> 'c \<times> hal_status"
  sb_mark_phase :: "'c \<Rightarrow> nat \<Rightarrow> u8 \<Rightarrow> 'c \<times> hal_status"

definition kErased :: u8 where "kErased = 0xFF"
definition kScratchReady :: u8 where "kScratchReady = 0xFE"
definition kProgramReady :: u8 where "kProgramReady = 0xFC"
definition kStagingReady :: u8 where "kStagingReady = 0xF8"

definition copy_and_mark ::
  "('c, 'm) swap_backend_scheme \<Rightarrow> 'c \<Rightarrow> nat \<Rightarrow> ota_slot \<Rightarrow> ota_slot \<Rightarrow> u8 \<Rightarrow> 'c \<times> hal_status" where
  "copy_and_mark be c sector destination source phase =
     (case sb_copy_sector be c sector destination source of (c, status) \<Rightarrow>
        if status \<noteq> HAL_OK then (c, status) else sb_mark_phase be c sector phase)"

text \<open>One of the three steps of a sector, taken when the sector is in the phase before it.\<close>

definition swap_step ::
  "('c, 'm) swap_backend_scheme \<Rightarrow> nat \<Rightarrow> u8 \<Rightarrow> ota_slot \<Rightarrow> ota_slot \<Rightarrow> u8 \<Rightarrow> 'c \<times> u8 \<times> hal_status \<Rightarrow> 'c \<times> u8 \<times> hal_status" where
  "swap_step be sector before destination source after = (\<lambda>(c, phase, status).
     if status = HAL_OK \<and> phase = before then
       (case copy_and_mark be c sector destination source after of (c, status) \<Rightarrow>
          (c, if status = HAL_OK then after else phase, status))
     else (c, phase, status))"

definition swap_sector :: "('c, 'm) swap_backend_scheme \<Rightarrow> 'c \<Rightarrow> nat \<Rightarrow> 'c \<times> hal_status" where
  "swap_sector be c sector =
     (case sb_read_phase be c sector 0 of (phase, status) \<Rightarrow>
        if status \<noteq> HAL_OK then (c, status)
        else
          let r = swap_step be sector kErased JH_OTA_SWAP_SLOT_SCRATCH JH_OTA_SWAP_SLOT_PROGRAM kScratchReady (c, phase, HAL_OK);
              r = swap_step be sector kScratchReady JH_OTA_SWAP_SLOT_PROGRAM JH_OTA_SWAP_SLOT_STAGING kProgramReady r;
              r = swap_step be sector kProgramReady JH_OTA_SWAP_SLOT_STAGING JH_OTA_SWAP_SLOT_SCRATCH kStagingReady r
          in case r of (c, phase, status) \<Rightarrow>
            (c, if status \<noteq> HAL_OK then status else if phase \<noteq> kStagingReady then HAL_EPROTO else HAL_OK))"

function swap_sectors :: "('c, 'm) swap_backend_scheme \<Rightarrow> 'c \<Rightarrow> nat \<Rightarrow> nat \<Rightarrow> 'c \<times> hal_status" where
  "swap_sectors be c sector sector_count =
     (if sector < sector_count then
        (case swap_sector be c sector of (c, status) \<Rightarrow>
           if status \<noteq> HAL_OK then (c, status) else swap_sectors be c (sector + 1) sector_count)
      else (c, HAL_OK))"
  by pat_completeness auto
termination by (relation "measure (\<lambda>(be, c, sector, sector_count). sector_count - sector)") auto

declare swap_sectors.simps [simp del]

definition jh_ota_swap_execute :: "('c, 'm) swap_backend_scheme option \<Rightarrow> 'c \<Rightarrow> nat \<Rightarrow> 'c \<times> hal_status" where
  "jh_ota_swap_execute backend c sector_count =
     (case backend of
        None \<Rightarrow> (c, HAL_EINVAL)
      | Some be \<Rightarrow> if sector_count = 0 then (c, HAL_EINVAL) else swap_sectors be c 0 sector_count)"

section \<open>The applier\<close>

record 'c boot_backend = "'c swap_backend" +
  bb_write_state :: "'c \<Rightarrow> boot_state \<Rightarrow> u8 \<Rightarrow> 'c \<times> hal_status"
  bb_erase_phase :: "'c \<Rightarrow> 'c \<times> hal_status"
  bb_slot_matches :: "'c \<Rightarrow> ota_slot \<Rightarrow> u32 \<Rightarrow> bytes \<Rightarrow> bool"

datatype boot_action = JH_OTA_BOOT_ACTION_LAUNCH | JH_OTA_BOOT_ACTION_RESTART

definition swap_started :: "('c, 'm) swap_backend_scheme \<Rightarrow> 'c \<Rightarrow> nat \<Rightarrow> bool" where
  "swap_started be c sector_count \<longleftrightarrow>
     list_ex (\<lambda>sector. case sb_read_phase be c sector kErased of (phase, status) \<Rightarrow> status \<noteq> HAL_OK \<or> phase \<noteq> kErased)
       [0..<sector_count]"

definition swap_state_roles :: "boot_state \<Rightarrow> boot_state" where
  "swap_state_roles st =
     st\<lparr>bs_program_size := bs_staging_size st, bs_staging_size := bs_program_size st,
        bs_program_generation := bs_staging_generation st, bs_staging_generation := bs_program_generation st,
        bs_program_sha256 := bs_staging_sha256 st, bs_staging_sha256 := bs_program_sha256 st,
        bs_program_version := bs_staging_version st, bs_staging_version := bs_program_version st\<rparr>"

definition write_next_state ::
  "'c boot_backend \<Rightarrow> 'c \<Rightarrow> boot_state \<Rightarrow> u8 \<Rightarrow> ota_mode \<Rightarrow> 'c \<times> boot_state \<times> u8 \<times> hal_status" where
  "write_next_state be c st state_index mode =
     (let st = st\<lparr>bs_sequence := bs_sequence st + 1, bs_mode := mode\<rparr> in
      case bb_write_state be c st state_index of (c, status) \<Rightarrow>
        (c, st, if status = HAL_OK then state_index XOR 1 else state_index, status))"

definition complete_swap ::
  "'c boot_backend \<Rightarrow> 'c \<Rightarrow> boot_state \<Rightarrow> u8 \<Rightarrow> nat \<Rightarrow> ota_mode \<Rightarrow> 'c \<times> boot_state \<times> u8 \<times> boot_action" where
  "complete_swap be c st state_index sector_count completed_mode =
     (case jh_ota_swap_execute (Some be) c sector_count of (c, status) \<Rightarrow>
        if status \<noteq> HAL_OK then
          (if swap_started be c sector_count then (c, st, state_index, JH_OTA_BOOT_ACTION_RESTART)
           else case write_next_state be c st state_index JH_OTA_BOOT_RECOVERY of
             (c, st, state_index, status) \<Rightarrow> (c, st, state_index, JH_OTA_BOOT_ACTION_LAUNCH))
        else
          let st = (swap_state_roles st)\<lparr>bs_attempts := 0\<rparr> in
          case write_next_state be c st state_index completed_mode of (c, st, state_index, status) \<Rightarrow>
            if status \<noteq> HAL_OK then (c, st, state_index, JH_OTA_BOOT_ACTION_RESTART)
            else (fst (bb_erase_phase be c), st, state_index, JH_OTA_BOOT_ACTION_LAUNCH))"

definition jh_ota_boot_apply ::
  "'c boot_backend option \<Rightarrow> 'c \<Rightarrow> boot_state option \<Rightarrow> u8 \<Rightarrow> nat \<Rightarrow> 'c \<times> boot_state option \<times> boot_action" where
  "jh_ota_boot_apply backend c state state_index sector_count =
     (case (backend, state) of
        (Some be, Some st) \<Rightarrow>
          (if sector_count = 0 then (c, state, JH_OTA_BOOT_ACTION_LAUNCH)
           else case bs_mode st of
             JH_OTA_BOOT_PENDING \<Rightarrow>
               (if \<not> swap_started be c sector_count \<and>
                   \<not> bb_slot_matches be c JH_OTA_SWAP_SLOT_STAGING (bs_staging_size st) (bs_staging_sha256 st) then
                  (case write_next_state be c st state_index JH_OTA_BOOT_RECOVERY of
                     (c, st, state_index, status) \<Rightarrow> (c, Some st, JH_OTA_BOOT_ACTION_LAUNCH))
                else case complete_swap be c st state_index sector_count JH_OTA_BOOT_TRIAL of
                  (c, st, state_index, action) \<Rightarrow>
                    if action \<noteq> JH_OTA_BOOT_ACTION_LAUNCH \<or> bs_mode st \<noteq> JH_OTA_BOOT_TRIAL then (c, Some st, action)
                    else (c, Some st,
                      if bb_slot_matches be c JH_OTA_SWAP_SLOT_PROGRAM (bs_program_size st) (bs_program_sha256 st)
                      then JH_OTA_BOOT_ACTION_LAUNCH else JH_OTA_BOOT_ACTION_RESTART))
           | JH_OTA_BOOT_TRIAL \<Rightarrow>
               (if bs_attempts st < bs_max_attempts st then
                  (case write_next_state be c (st\<lparr>bs_attempts := bs_attempts st + 1\<rparr>) state_index JH_OTA_BOOT_TRIAL of
                     (c, st, state_index, status) \<Rightarrow>
                       (c, Some st, if status = HAL_OK then JH_OTA_BOOT_ACTION_LAUNCH else JH_OTA_BOOT_ACTION_RESTART))
                else case bb_erase_phase be c of (c, status) \<Rightarrow>
                  if status \<noteq> HAL_OK then (c, Some st, JH_OTA_BOOT_ACTION_RESTART)
                  else case write_next_state be c st state_index JH_OTA_BOOT_ROLLBACK of (c, st, state_index, status) \<Rightarrow>
                    if status \<noteq> HAL_OK then (c, Some st, JH_OTA_BOOT_ACTION_RESTART)
                    else case complete_swap be c st state_index sector_count JH_OTA_BOOT_STABLE of
                      (c, st, state_index, action) \<Rightarrow> (c, Some st, action))
           | JH_OTA_BOOT_ROLLBACK \<Rightarrow>
               (case complete_swap be c st state_index sector_count JH_OTA_BOOT_STABLE of
                  (c, st, state_index, action) \<Rightarrow> (c, Some st, action))
           | _ \<Rightarrow> (c, state, JH_OTA_BOOT_ACTION_LAUNCH))
      | _ \<Rightarrow> (c, state, JH_OTA_BOOT_ACTION_LAUNCH))"

end
