(* ===== verification/Ota_Medium.thy ===== *)
theory Ota_Medium
  imports Ota_Swap
begin

text \<open>
  What the update engine relies on, and the exchange of the slots: wherever it is interrupted, a later run
  resumes it. The locale \<open>ota_flash\<close> states the laws of a backend over what can be observed of it: the
  journal, the sectors of the slots, the selected boot state, and whether the power is on. An operation that loses
  the power has changed at most the place it was to change; after that nothing changes.
\<close>

section \<open>The laws of a backend\<close>

definition ota_same ::
  "nat \<Rightarrow> ('c \<Rightarrow> bytes) \<Rightarrow> ('c \<Rightarrow> ota_slot \<Rightarrow> nat \<Rightarrow> bytes) \<Rightarrow> ('c \<Rightarrow> (boot_state \<times> u8) option) \<Rightarrow> ('c \<Rightarrow> bool) \<Rightarrow> 'c \<Rightarrow> 'c \<Rightarrow> bool" where
  "ota_same n phases sector stored whole c c' \<longleftrightarrow> phases c' = phases c \<and> (\<forall>s. \<forall>i<n. sector c' s i = sector c s i) \<and>
     stored c' = stored c \<and> whole c' = whole c"

definition ota_later :: "('c \<Rightarrow> bool) \<Rightarrow> ('c \<Rightarrow> bool) \<Rightarrow> ('c \<Rightarrow> 'c \<Rightarrow> bool) \<Rightarrow> 'c \<Rightarrow> 'c \<Rightarrow> bool" where
  "ota_later good powered same c c' \<longleftrightarrow> good c' \<and> (powered c' \<longrightarrow> powered c) \<and> (\<not> powered c \<longrightarrow> same c c')"

text \<open>
  The content of a slot is the list of its sectors. \<open>whole\<close> says that no boot record that was cut short passes
  for a whole one, which its checksum is there for.
\<close>

definition image_ok :: "bytes list \<Rightarrow> u32 \<Rightarrow> bytes \<Rightarrow> bool" where
  "image_ok secs len sha \<longleftrightarrow> len \<noteq> 0 \<and> unat len \<le> length (concat secs) \<and> sha256 (take (unat len) (concat secs)) = sha"

locale ota_flash =
  fixes be :: "'c boot_backend" and good powered whole :: "'c \<Rightarrow> bool" and n :: nat
    and phases :: "'c \<Rightarrow> bytes" and sector :: "'c \<Rightarrow> ota_slot \<Rightarrow> nat \<Rightarrow> bytes" and stored :: "'c \<Rightarrow> (boot_state \<times> u8) option"
  assumes count: "0 < n"
    and journal: "good c \<Longrightarrow> length (phases c) = n"
    and stored_ok: "good c \<Longrightarrow> stored c = Some (bs, ix) \<Longrightarrow> boot_state_ok bs"
    and read_phase: "good c \<Longrightarrow> i < n \<Longrightarrow> sb_read_phase be c i p = (phases c ! i, HAL_OK)"
    and matches: "good c \<Longrightarrow> s \<noteq> JH_OTA_SWAP_SLOT_SCRATCH \<Longrightarrow> length sha = 32 \<Longrightarrow>
      bb_slot_matches be c s len sha = image_ok (map (sector c s) [0..<n]) len sha"
    and copy_sector: "\<lbrakk>good c; i < n; d \<noteq> s; sb_copy_sector be c i d s = (c', st)\<rbrakk> \<Longrightarrow>
      ota_later good powered (ota_same n phases sector stored whole) c c' \<and>
      phases c' = phases c \<and> stored c' = stored c \<and> whole c' = whole c \<and>
      (\<forall>t. \<forall>j<n. t \<noteq> d \<or> (t \<noteq> JH_OTA_SWAP_SLOT_SCRATCH \<and> j \<noteq> i) \<longrightarrow> sector c' t j = sector c t j) \<and>
      (powered c' \<and> st = HAL_OK \<longrightarrow> sector c' d i = sector c s i)"
    and mark_phase: "\<lbrakk>good c; i < n; sb_mark_phase be c i v = (c', st)\<rbrakk> \<Longrightarrow>
      ota_later good powered (ota_same n phases sector stored whole) c c' \<and>
      stored c' = stored c \<and> whole c' = whole c \<and> (\<forall>t. \<forall>j<n. sector c' t j = sector c t j) \<and>
      (phases c' = phases c \<or> phases c' = (phases c)[i := phases c ! i AND v]) \<and>
      (powered c' \<and> st = HAL_OK \<longrightarrow> phases c' ! i = v)"
    and erase_phase: "\<lbrakk>good c; bb_erase_phase be c = (c', st)\<rbrakk> \<Longrightarrow>
      ota_later good powered (ota_same n phases sector stored whole) c c' \<and>
      stored c' = stored c \<and> whole c' = whole c \<and> (\<forall>t. \<forall>j<n. sector c' t j = sector c t j) \<and>
      (powered c' \<and> st = HAL_OK \<longrightarrow> phases c' = replicate n kErased)"
    and write_goes: "\<lbrakk>good c; boot_state_ok bs; bb_write_state be c bs ix = (c', st)\<rbrakk> \<Longrightarrow>
      ota_later good powered (ota_same n phases sector stored whole) c c'"
    and write_state: "\<lbrakk>good c; stored c = Some (cur, ix); bs_sequence bs = bs_sequence cur + 1; boot_state_ok bs;
        bb_write_state be c bs ix = (c', st)\<rbrakk> \<Longrightarrow>
      phases c' = phases c \<and> (\<forall>t. \<forall>j<n. sector c' t j = sector c t j) \<and>
      (powered c' \<or> whole c' \<longrightarrow> stored c' = stored c \<or> stored c' = Some (bs, ix XOR 1)) \<and>
      (powered c' \<and> st = HAL_OK \<longrightarrow> stored c' = Some (bs, ix XOR 1))"
begin

abbreviation same :: "'c \<Rightarrow> 'c \<Rightarrow> bool" where
  "same \<equiv> ota_same n phases sector stored whole"

abbreviation goes :: "'c \<Rightarrow> 'c \<Rightarrow> bool" where
  "goes \<equiv> ota_later good powered same"

lemma same_refl [simp]: "same c c"
  by (simp add: ota_same_def)

lemma same_trans: "same c c1 \<Longrightarrow> same c1 c2 \<Longrightarrow> same c c2"
  by (simp add: ota_same_def)

lemma goes_refl: "good c \<Longrightarrow> goes c c"
  by (simp add: ota_later_def)

lemma goes_trans: "goes c c1 \<Longrightarrow> goes c1 c2 \<Longrightarrow> goes c c2"
  by (auto simp: ota_later_def intro: same_trans)

lemma goes_good: "goes c c' \<Longrightarrow> good c'" and goes_on: "goes c c' \<Longrightarrow> powered c' \<Longrightarrow> powered c"
  and goes_off: "goes c c' \<Longrightarrow> \<not> powered c \<Longrightarrow> same c c'"
  by (simp_all add: ota_later_def)

section \<open>One step of a sector\<close>

text \<open>Nothing but the destination has changed, or the copy is complete and the step is recorded.\<close>

definition copied :: "'c \<Rightarrow> nat \<Rightarrow> ota_slot \<Rightarrow> ota_slot \<Rightarrow> u8 \<Rightarrow> 'c \<Rightarrow> bool" where
  "copied c i d s v c' \<longleftrightarrow> stored c' = stored c \<and> whole c' = whole c \<and>
     (\<forall>t. \<forall>j<n. t \<noteq> d \<or> (t \<noteq> JH_OTA_SWAP_SLOT_SCRATCH \<and> j \<noteq> i) \<longrightarrow> sector c' t j = sector c t j) \<and>
     (phases c' = phases c \<or> (phases c' = (phases c)[i := phases c ! i AND v] \<and> sector c' d i = sector c s i))"

lemma copy_and_mark:
  assumes "good c" "i < n" "d \<noteq> s" "copy_and_mark be c i d s v = (c', st)"
  shows "goes c c'" "powered c \<Longrightarrow> copied c i d s v c'"
    "powered c' \<Longrightarrow> st = HAL_OK \<Longrightarrow> phases c' ! i = v \<and> sector c' d i = sector c s i"
proof -
  obtain c1 st1 where c1: "sb_copy_sector be c i d s = (c1, st1)" by fastforce
  note copy = copy_sector [OF assms(1-3) c1]
  have "goes c c' \<and> (powered c \<longrightarrow> copied c i d s v c') \<and>
    (powered c' \<and> st = HAL_OK \<longrightarrow> phases c' ! i = v \<and> sector c' d i = sector c s i)"
  proof (cases "st1 = HAL_OK")
    case False
    then have "c' = c1" "st = st1" using assms(4) c1 by (simp_all add: copy_and_mark_def)
    then show ?thesis using copy False by (simp add: copied_def)
  next
    case True
    then have m: "sb_mark_phase be c1 i v = (c', st)" using assms(4) c1 by (simp add: copy_and_mark_def)
    have good1: "good c1" using copy by (simp add: ota_later_def)
    note mark = mark_phase [OF good1 assms(2) m]
    have "goes c c'" using copy mark goes_trans by blast
    moreover have "copied c i d s v c'"
    proof (cases "powered c1")
      case on: True
      then show ?thesis using copy mark True assms(2) by (auto simp: copied_def)
    next
      case False
      then have "same c1 c'" using mark by (simp add: ota_later_def)
      then show ?thesis using copy assms(2) by (auto simp: copied_def ota_same_def)
    qed
    moreover have "phases c' ! i = v \<and> sector c' d i = sector c s i" if "powered c'" "st = HAL_OK"
    proof -
      have "powered c1" using mark that(1) by (simp add: ota_later_def)
      then show ?thesis using copy mark True that assms(2) by simp
    qed
    ultimately show ?thesis by blast
  qed
  then show "goes c c'" "powered c \<Longrightarrow> copied c i d s v c'"
    "powered c' \<Longrightarrow> st = HAL_OK \<Longrightarrow> phases c' ! i = v \<and> sector c' d i = sector c s i" by blast+
qed

section \<open>An exchange under way\<close>

text \<open>The sectors before \<open>k\<close> are exchanged, those after it are not, and \<open>k\<close> is where its phase says.\<close>

definition sector_mid :: "bytes \<Rightarrow> bytes \<Rightarrow> 'c \<Rightarrow> nat \<Rightarrow> bool" where
  "sector_mid x y c i \<longleftrightarrow>
     phases c ! i = kErased \<and> sector c JH_OTA_SWAP_SLOT_PROGRAM i = x \<and> sector c JH_OTA_SWAP_SLOT_STAGING i = y \<or>
     phases c ! i = kScratchReady \<and> sector c JH_OTA_SWAP_SLOT_SCRATCH i = x \<and> sector c JH_OTA_SWAP_SLOT_STAGING i = y \<or>
     phases c ! i = kProgramReady \<and> sector c JH_OTA_SWAP_SLOT_SCRATCH i = x \<and> sector c JH_OTA_SWAP_SLOT_PROGRAM i = y \<or>
     phases c ! i = kStagingReady \<and> sector c JH_OTA_SWAP_SLOT_PROGRAM i = y \<and> sector c JH_OTA_SWAP_SLOT_STAGING i = x"

definition half_at :: "bytes list \<Rightarrow> bytes list \<Rightarrow> nat \<Rightarrow> 'c \<Rightarrow> bool" where
  "half_at a b k c \<longleftrightarrow> k \<le> n \<and> length a = n \<and> length b = n \<and>
     (\<forall>i<k. phases c ! i = kStagingReady \<and> sector c JH_OTA_SWAP_SLOT_PROGRAM i = b ! i \<and> sector c JH_OTA_SWAP_SLOT_STAGING i = a ! i) \<and>
     (k < n \<longrightarrow> sector_mid (a ! k) (b ! k) c k) \<and>
     (\<forall>i. k < i \<longrightarrow> i < n \<longrightarrow> phases c ! i = kErased \<and> sector c JH_OTA_SWAP_SLOT_PROGRAM i = a ! i \<and>
        sector c JH_OTA_SWAP_SLOT_STAGING i = b ! i)"

definition half :: "bytes list \<Rightarrow> bytes list \<Rightarrow> 'c \<Rightarrow> bool" where
  "half a b c \<longleftrightarrow> (\<exists>k. half_at a b k c)"

lemma half_at_same: "same c c' \<Longrightarrow> half_at a b k c \<Longrightarrow> half_at a b k c'"
  by (simp add: half_at_def sector_mid_def ota_same_def)

lemma phase_values [simp]:
  "kErased \<noteq> kScratchReady" "kErased \<noteq> kProgramReady" "kErased \<noteq> kStagingReady"
  "kScratchReady \<noteq> kErased" "kProgramReady \<noteq> kErased" "kStagingReady \<noteq> kErased"
  "kScratchReady \<noteq> kProgramReady" "kScratchReady \<noteq> kStagingReady" "kProgramReady \<noteq> kStagingReady"
  "kProgramReady \<noteq> kScratchReady" "kStagingReady \<noteq> kScratchReady" "kStagingReady \<noteq> kProgramReady"
  "kErased AND kScratchReady = kScratchReady" "kScratchReady AND kProgramReady = kProgramReady"
  "kProgramReady AND kStagingReady = kStagingReady"
  by (simp_all add: kErased_def kScratchReady_def kProgramReady_def kStagingReady_def)

lemma copied_half:
  assumes "half_at a b k c" "k < n" "length (phases c) = n" "copied c k d s v c'"
    and "(phases c ! k, d, s, v) \<in>
      {(kErased, JH_OTA_SWAP_SLOT_SCRATCH, JH_OTA_SWAP_SLOT_PROGRAM, kScratchReady),
       (kScratchReady, JH_OTA_SWAP_SLOT_PROGRAM, JH_OTA_SWAP_SLOT_STAGING, kProgramReady),
       (kProgramReady, JH_OTA_SWAP_SLOT_STAGING, JH_OTA_SWAP_SLOT_SCRATCH, kStagingReady)}"
  shows "half_at a b k c'"
proof -
  have other: "phases c' ! i = phases c ! i" if "i \<noteq> k" for i
    using assms(4) that by (auto simp: copied_def)
  have rest: "sector c' JH_OTA_SWAP_SLOT_PROGRAM i = sector c JH_OTA_SWAP_SLOT_PROGRAM i"
    "sector c' JH_OTA_SWAP_SLOT_STAGING i = sector c JH_OTA_SWAP_SLOT_STAGING i" if "i \<noteq> k" "i < n" for i
    using assms(4) that by (simp_all add: copied_def)
  have old: "sector_mid (a ! k) (b ! k) c k" using assms(1,2) by (simp add: half_at_def)
  have frame: "sector c' t k = sector c t k" if "t \<noteq> d" for t using assms(2,4) that by (simp add: copied_def)
  consider "phases c' ! k = phases c ! k" | "phases c' ! k = phases c ! k AND v" "sector c' d k = sector c s k"
    using assms(2-4) by (auto simp: copied_def)
  then have "sector_mid (a ! k) (b ! k) c' k"
  proof cases
    case 1
    then show ?thesis using old assms(5) frame unfolding sector_mid_def by (elim disjE insertE emptyE) (simp_all add: frame)
  next
    case 2
    then show ?thesis using old assms(5) frame unfolding sector_mid_def by (elim disjE insertE emptyE) (simp_all add: frame)
  qed
  moreover have "\<forall>i<k. phases c' ! i = kStagingReady \<and> sector c' JH_OTA_SWAP_SLOT_PROGRAM i = b ! i \<and> sector c' JH_OTA_SWAP_SLOT_STAGING i = a ! i"
    using assms(1,2) other rest by (simp add: half_at_def)
  moreover have "\<forall>i. k < i \<longrightarrow> i < n \<longrightarrow> phases c' ! i = kErased \<and> sector c' JH_OTA_SWAP_SLOT_PROGRAM i = a ! i \<and>
      sector c' JH_OTA_SWAP_SLOT_STAGING i = b ! i"
    using assms(1) other rest by (simp add: half_at_def)
  ultimately show ?thesis using assms(1) by (simp add: half_at_def)
qed

section \<open>The three steps of a sector\<close>

definition swap_steps :: "(u8 \<times> ota_slot \<times> ota_slot \<times> u8) set" where
  "swap_steps = {(kErased, JH_OTA_SWAP_SLOT_SCRATCH, JH_OTA_SWAP_SLOT_PROGRAM, kScratchReady),
     (kScratchReady, JH_OTA_SWAP_SLOT_PROGRAM, JH_OTA_SWAP_SLOT_STAGING, kProgramReady),
     (kProgramReady, JH_OTA_SWAP_SLOT_STAGING, JH_OTA_SWAP_SLOT_SCRATCH, kStagingReady)}"

lemma swap_steps_slots: "(p, d, s, v) \<in> swap_steps \<Longrightarrow> d \<noteq> s"
  by (auto simp: swap_steps_def)

definition resumable :: "bytes list \<Rightarrow> bytes list \<Rightarrow> nat \<Rightarrow> 'c \<Rightarrow> 'c \<Rightarrow> bool" where
  "resumable a b k c0 c \<longleftrightarrow> goes c0 c \<and> half_at a b k c \<and> stored c = stored c0 \<and> whole c = whole c0"

lemma resumable_good: "resumable a b k c0 c \<Longrightarrow> good c"
  by (auto simp: resumable_def dest: goes_good)

lemma resumable_start: "good c \<Longrightarrow> half_at a b k c \<Longrightarrow> resumable a b k c c"
  by (simp add: resumable_def goes_refl)

lemma resumable_same: "resumable a b k c0 c \<Longrightarrow> goes c c' \<Longrightarrow> \<not> powered c \<Longrightarrow> resumable a b k c0 c'"
  using half_at_same [of c c' a b k] goes_off [of c c'] goes_trans [of c0 c c']
  by (auto simp: resumable_def ota_same_def)

lemma swap_step_goes:
  assumes "good c" "k < n" "(p, d, s, v) \<in> swap_steps" "swap_step be k p d s v (c, phase, st) = (c', phase', st')"
  shows "goes c c'"
  using assms copy_and_mark(1) [OF assms(1,2) swap_steps_slots [OF assms(3)]]
  by (auto simp: swap_step_def goes_refl split: if_splits prod.splits)

lemma swap_step_resumes:
  assumes "resumable a b k c0 c \<and> (powered c \<longrightarrow> st = HAL_OK \<longrightarrow> phase = phases c ! k)" "k < n"
    and "(p, d, s, v) \<in> swap_steps" "swap_step be k p d s v (c, phase, st) = (c', phase', st')"
  shows "resumable a b k c0 c' \<and> (powered c' \<longrightarrow> st' = HAL_OK \<longrightarrow> phase' = phases c' ! k)"
proof -
  have now: "resumable a b k c0 c" "powered c \<Longrightarrow> st = HAL_OK \<Longrightarrow> phase = phases c ! k" using assms(1) by blast+
  have good: "good c" using now(1) by (rule resumable_good)
  show ?thesis
  proof (cases "st = HAL_OK \<and> phase = p")
    case False
    then have "c' = c" "phase' = phase" "st' = st" using assms(4) by (auto simp: swap_step_def)
    then show ?thesis using assms(1) by simp
  next
    case True
    obtain c1 st1 where cm: "copy_and_mark be c k d s v = (c1, st1)" by fastforce
    then have eq: "c' = c1" "st' = st1" "st1 = HAL_OK \<Longrightarrow> phase' = v" using assms(4) True by (auto simp: swap_step_def)
    note cm = copy_and_mark [OF good assms(2) swap_steps_slots [OF assms(3)] cm]
    have "resumable a b k c0 c1"
    proof (cases "powered c")
      case off: False
      then show ?thesis using resumable_same [OF now(1) cm(1)] by blast
    next
      case on: True
      then have "phases c ! k = p" using now(2) True by simp
      moreover note cp = cm(2) [OF on]
      ultimately have "half_at a b k c1"
        using copied_half [OF _ assms(2) journal [OF good] cp] now(1) assms(3) by (simp add: resumable_def swap_steps_def)
      then show ?thesis using now(1) cm(1) cp goes_trans by (auto simp: resumable_def copied_def)
    qed
    then show ?thesis using eq cm(3) by simp
  qed
qed

lemma swap_steps_members:
  "(kErased, JH_OTA_SWAP_SLOT_SCRATCH, JH_OTA_SWAP_SLOT_PROGRAM, kScratchReady) \<in> swap_steps"
  "(kScratchReady, JH_OTA_SWAP_SLOT_PROGRAM, JH_OTA_SWAP_SLOT_STAGING, kProgramReady) \<in> swap_steps"
  "(kProgramReady, JH_OTA_SWAP_SLOT_STAGING, JH_OTA_SWAP_SLOT_SCRATCH, kStagingReady) \<in> swap_steps"
  by (simp_all add: swap_steps_def)

text \<open>What the three steps of a sector are called with, one after the other.\<close>

lemma swap_sector_run:
  assumes "good c" "k < n" "swap_sector be c k = (c', st)"
  obtains c1 p1 s1 c2 p2 s2 p3 s3 where
    "swap_step be k kErased JH_OTA_SWAP_SLOT_SCRATCH JH_OTA_SWAP_SLOT_PROGRAM kScratchReady (c, phases c ! k, HAL_OK) = (c1, p1, s1)"
    "swap_step be k kScratchReady JH_OTA_SWAP_SLOT_PROGRAM JH_OTA_SWAP_SLOT_STAGING kProgramReady (c1, p1, s1) = (c2, p2, s2)"
    "swap_step be k kProgramReady JH_OTA_SWAP_SLOT_STAGING JH_OTA_SWAP_SLOT_SCRATCH kStagingReady (c2, p2, s2) = (c', p3, s3)"
    "st = (if s3 \<noteq> HAL_OK then s3 else if p3 \<noteq> kStagingReady then HAL_EPROTO else HAL_OK)"
proof -
  obtain c1 p1 s1 where 1: "swap_step be k kErased JH_OTA_SWAP_SLOT_SCRATCH JH_OTA_SWAP_SLOT_PROGRAM kScratchReady
      (c, phases c ! k, HAL_OK) = (c1, p1, s1)" by (metis prod.collapse)
  obtain c2 p2 s2 where 2: "swap_step be k kScratchReady JH_OTA_SWAP_SLOT_PROGRAM JH_OTA_SWAP_SLOT_STAGING kProgramReady
      (c1, p1, s1) = (c2, p2, s2)" by (metis prod.collapse)
  obtain c3 p3 s3 where 3: "swap_step be k kProgramReady JH_OTA_SWAP_SLOT_STAGING JH_OTA_SWAP_SLOT_SCRATCH kStagingReady
      (c2, p2, s2) = (c3, p3, s3)" by (metis prod.collapse)
  have "c' = c3" "st = (if s3 \<noteq> HAL_OK then s3 else if p3 \<noteq> kStagingReady then HAL_EPROTO else HAL_OK)"
    using assms(3) by (simp_all add: swap_sector_def Let_def read_phase [OF assms(1,2)] 1 2 3)
  then show thesis using that [OF 1 2] 3 by simp
qed

lemma swap_sector_goes:
  assumes "good c" "k < n" "swap_sector be c k = (c', st)"
  shows "goes c c'"
proof -
  obtain c1 p1 s1 c2 p2 s2 p3 s3 where run:
    "swap_step be k kErased JH_OTA_SWAP_SLOT_SCRATCH JH_OTA_SWAP_SLOT_PROGRAM kScratchReady (c, phases c ! k, HAL_OK) = (c1, p1, s1)"
    "swap_step be k kScratchReady JH_OTA_SWAP_SLOT_PROGRAM JH_OTA_SWAP_SLOT_STAGING kProgramReady (c1, p1, s1) = (c2, p2, s2)"
    "swap_step be k kProgramReady JH_OTA_SWAP_SLOT_STAGING JH_OTA_SWAP_SLOT_SCRATCH kStagingReady (c2, p2, s2) = (c', p3, s3)"
    by (rule swap_sector_run [OF assms])
  have 1: "goes c c1" by (rule swap_step_goes [OF assms(1,2) swap_steps_members(1) run(1)])
  have 2: "goes c1 c2" by (rule swap_step_goes [OF goes_good [OF 1] assms(2) swap_steps_members(2) run(2)])
  have 3: "goes c2 c'" by (rule swap_step_goes [OF goes_good [OF 2] assms(2) swap_steps_members(3) run(3)])
  show ?thesis by (rule goes_trans [OF goes_trans [OF 1 2] 3])
qed

lemma swap_sector_resumes:
  assumes "resumable a b k c0 c" "k < n" "swap_sector be c k = (c', st)"
  shows "resumable a b k c0 c'" "powered c' \<Longrightarrow> st = HAL_OK \<Longrightarrow> phases c' ! k = kStagingReady"
proof -
  obtain c1 p1 s1 c2 p2 s2 p3 s3 where run:
    "swap_step be k kErased JH_OTA_SWAP_SLOT_SCRATCH JH_OTA_SWAP_SLOT_PROGRAM kScratchReady (c, phases c ! k, HAL_OK) = (c1, p1, s1)"
    "swap_step be k kScratchReady JH_OTA_SWAP_SLOT_PROGRAM JH_OTA_SWAP_SLOT_STAGING kProgramReady (c1, p1, s1) = (c2, p2, s2)"
    "swap_step be k kProgramReady JH_OTA_SWAP_SLOT_STAGING JH_OTA_SWAP_SLOT_SCRATCH kStagingReady (c2, p2, s2) = (c', p3, s3)"
    and st: "st = (if s3 \<noteq> HAL_OK then s3 else if p3 \<noteq> kStagingReady then HAL_EPROTO else HAL_OK)"
    by (rule swap_sector_run [OF resumable_good [OF assms(1)] assms(2,3)])
  have 0: "resumable a b k c0 c \<and> (powered c \<longrightarrow> HAL_OK = HAL_OK \<longrightarrow> phases c ! k = phases c ! k)" using assms(1) by simp
  note 1 = swap_step_resumes [OF 0 assms(2) swap_steps_members(1) run(1)]
  note 2 = swap_step_resumes [OF 1 assms(2) swap_steps_members(2) run(2)]
  note 3 = swap_step_resumes [OF 2 assms(2) swap_steps_members(3) run(3)]
  show "resumable a b k c0 c'" using 3 by blast
  show "phases c' ! k = kStagingReady" if "powered c'" "st = HAL_OK"
    using 3 that st by (simp split: if_splits)
qed

text \<open>A sector that is exchanged already is passed over.\<close>

lemma swap_sector_done:
  assumes "good c" "i < n" "phases c ! i = kStagingReady"
  shows "swap_sector be c i = (c, HAL_OK)"
  using assms read_phase [OF assms(1,2)] by (simp add: swap_sector_def swap_step_def Let_def)

section \<open>All sectors\<close>

lemma half_at_next:
  assumes "half_at a b k c" "k < n" "phases c ! k = kStagingReady"
  shows "half_at a b (k + 1) c"
proof -
  have "sector_mid (a ! k) (b ! k) c k" using assms(1,2) by (simp add: half_at_def)
  then have k: "sector c JH_OTA_SWAP_SLOT_PROGRAM k = b ! k" "sector c JH_OTA_SWAP_SLOT_STAGING k = a ! k"
    using assms(3) by (auto simp: sector_mid_def)
  have "sector_mid (a ! (k + 1)) (b ! (k + 1)) c (k + 1)" if "k + 1 < n"
    using assms(1) that by (simp add: half_at_def sector_mid_def)
  then show ?thesis using assms k by (auto simp: half_at_def less_Suc_eq)
qed

lemma swap_sectors_goes:
  assumes "good c" "swap_sectors be c j n = (c', st)"
  shows "goes c c'"
  using assms
proof (induction "n - j" arbitrary: c j rule: less_induct)
  case less
  show ?case
  proof (cases "j < n")
    case False
    then show ?thesis using less.prems by (simp add: swap_sectors.simps goes_refl)
  next
    case True
    obtain c1 s1 where 1: "swap_sector be c j = (c1, s1)" by fastforce
    note go = swap_sector_goes [OF less.prems(1) True 1]
    show ?thesis
    proof (cases "s1 = HAL_OK")
      case False
      then show ?thesis using less.prems(2) True 1 go by (simp add: swap_sectors.simps [of be c j n])
    next
      case ok: True
      then have "swap_sectors be c1 (j + 1) n = (c', st)" using less.prems(2) True 1 by (simp add: swap_sectors.simps [of be c j n])
      then have "goes c1 c'" using less.hyps [of "j + 1" c1] goes_good [OF go] True by simp
      then show ?thesis by (rule goes_trans [OF go])
    qed
  qed
qed

lemma swap_sectors_resumes:
  assumes "resumable a b k c0 c" "j \<le> k" "swap_sectors be c j n = (c', st)"
  shows "\<exists>k'. resumable a b k' c0 c' \<and> (powered c' \<and> st = HAL_OK \<longrightarrow> k' = n)"
  using assms
proof (induction "n - j" arbitrary: c j k rule: less_induct)
  case less
  have good: "good c" using less.prems(1) by (rule resumable_good)
  have k: "k \<le> n" using less.prems(1) by (simp add: resumable_def half_at_def)
  show ?case
  proof (cases "j < n")
    case False
    then have "c' = c" "k = n" using less.prems k by (simp_all add: swap_sectors.simps)
    then show ?thesis using less.prems(1) by blast
  next
    case True
    obtain c1 s1 where 1: "swap_sector be c j = (c1, s1)" by fastforce
    have unfold: "swap_sectors be c j n = (if s1 \<noteq> HAL_OK then (c1, s1) else swap_sectors be c1 (j + 1) n)"
      using True 1 by (simp add: swap_sectors.simps [of be c j n])
    show ?thesis
    proof (cases "j < k")
      case done_before: True
      then have "phases c ! j = kStagingReady" using less.prems(1) by (simp add: resumable_def half_at_def)
      then have "c1 = c" "s1 = HAL_OK" using swap_sector_done [OF good True] 1 by simp_all
      then have "swap_sectors be c (j + 1) n = (c', st)" using unfold less.prems(3) by simp
      then show ?thesis using less.hyps [of "j + 1" k c] less.prems(1) True done_before by simp
    next
      case False
      then have jk: "j = k" using less.prems(2) by simp
      have run: "swap_sector be c k = (c1, s1)" using 1 jk by simp
      have kn: "k < n" using True jk by simp
      note res = swap_sector_resumes [OF less.prems(1) kn run]
      consider (stop) "s1 \<noteq> HAL_OK" | (off) "s1 = HAL_OK" "\<not> powered c1" | (on) "s1 = HAL_OK" "powered c1" by blast
      then show ?thesis
      proof cases
        case stop
        then have "c' = c1" "st = s1" using unfold less.prems(3) by simp_all
        then show ?thesis using res(1) stop by blast
      next
        case off
        then have "swap_sectors be c1 (j + 1) n = (c', st)" using unfold less.prems(3) by simp
        then have go: "goes c1 c'" by (rule swap_sectors_goes [OF resumable_good [OF res(1)]])
        then show ?thesis using resumable_same [OF res(1) go off(2)] goes_on [OF go] off(2) by blast
      next
        case on
        have "half_at a b (k + 1) c1"
          using half_at_next [OF _ kn res(2) [OF on(2,1)]] res(1) by (simp add: resumable_def)
        then have "resumable a b (k + 1) c0 c1" using res(1) by (simp add: resumable_def)
        moreover have "swap_sectors be c1 (j + 1) n = (c', st)" using unfold less.prems(3) on by simp
        ultimately show ?thesis using less.hyps [of "j + 1" "k + 1" c1] True jk by simp
      qed
    qed
  qed
qed

text \<open>An exchange that returns success with the power on is complete; in any other case a later one resumes it.\<close>

lemma half_at_end:
  "half_at a b n c \<Longrightarrow> map (sector c JH_OTA_SWAP_SLOT_PROGRAM) [0..<n] = b \<and> map (sector c JH_OTA_SWAP_SLOT_STAGING) [0..<n] = a"
  by (auto simp: half_at_def intro!: nth_equalityI)

lemma half_untouched:
  assumes "half a b c" "\<forall>i<n. phases c ! i = kErased"
  shows "map (sector c JH_OTA_SWAP_SLOT_PROGRAM) [0..<n] = a \<and> map (sector c JH_OTA_SWAP_SLOT_STAGING) [0..<n] = b"
proof -
  obtain k where h: "half_at a b k c" using assms(1) by (auto simp: half_def)
  have "sector c JH_OTA_SWAP_SLOT_PROGRAM i = a ! i \<and> sector c JH_OTA_SWAP_SLOT_STAGING i = b ! i" if i: "i < n" for i
  proof -
    have e: "phases c ! i = kErased" using i assms(2) by blast
    consider "i < k" | "i = k" | "k < i" by linarith
    then show ?thesis
    proof cases
      case 1
      then have "phases c ! i = kStagingReady" using h by (simp add: half_at_def)
      then show ?thesis using e by simp
    next
      case 2
      then have "sector_mid (a ! i) (b ! i) c i" using h i by (simp add: half_at_def)
      then show ?thesis unfolding sector_mid_def e by simp
    next
      case 3
      then show ?thesis using h i by (simp add: half_at_def)
    qed
  qed
  moreover have "length a = n" "length b = n" using h by (simp_all add: half_at_def)
  ultimately show ?thesis by (simp add: list_eq_iff_nth_eq)
qed

lemma half_start:
  assumes "\<forall>i<n. phases c ! i = kErased"
  shows "half (map (sector c JH_OTA_SWAP_SLOT_PROGRAM) [0..<n]) (map (sector c JH_OTA_SWAP_SLOT_STAGING) [0..<n]) c"
  unfolding half_def half_at_def using assms count by (intro exI [of _ 0]) (auto simp: sector_mid_def)

lemma swap_execute:
  assumes "good c" "half a b c" "jh_ota_swap_execute (Some be) c n = (c', st)"
  shows "goes c c'" "half a b c'" "stored c' = stored c" "whole c' = whole c"
    "powered c' \<Longrightarrow> st = HAL_OK \<Longrightarrow>
      map (sector c' JH_OTA_SWAP_SLOT_PROGRAM) [0..<n] = b \<and> map (sector c' JH_OTA_SWAP_SLOT_STAGING) [0..<n] = a"
proof -
  obtain k where "half_at a b k c" using assms(2) by (auto simp: half_def)
  moreover have "swap_sectors be c 0 n = (c', st)" using assms(3) count by (simp add: jh_ota_swap_execute_def)
  ultimately obtain k' where r: "resumable a b k' c c'" "powered c' \<and> st = HAL_OK \<longrightarrow> k' = n"
    using swap_sectors_resumes [OF resumable_start [OF assms(1)], of a b k 0] by blast
  then show "goes c c'" "half a b c'" "stored c' = stored c" "whole c' = whole c" by (auto simp: resumable_def half_def)
  show "map (sector c' JH_OTA_SWAP_SLOT_PROGRAM) [0..<n] = b \<and> map (sector c' JH_OTA_SWAP_SLOT_STAGING) [0..<n] = a"
    if "powered c'" "st = HAL_OK"
    using r that by (intro half_at_end) (simp add: resumable_def)
qed

lemma swap_started_iff:
  assumes "good c"
  shows "swap_started be c n \<longleftrightarrow> (\<exists>i<n. phases c ! i \<noteq> kErased)"
  using read_phase [OF assms] by (auto simp: swap_started_def list_ex_iff)

end

end
