(* ===== verification/Ota_Boot.thy ===== *)
theory Ota_Boot
  imports Ota_Medium
begin

text \<open>
  The applier over any backend that keeps the laws of \<open>ota_flash\<close>. An update exchanges the image \<open>a\<close> in the program
  slot with the image \<open>b\<close> in the staging slot; the invariant \<open>update_inv\<close> says for every mode of the stored
  boot state what the slots hold. It survives every run of the applier, however it ends, and an image that
  is launched with the power on is \<open>a\<close> or, once verified, \<open>b\<close>.
\<close>

definition roles :: "boot_state \<Rightarrow> (u32 \<times> u32 \<times> bytes \<times> bytes) \<times> (u32 \<times> u32 \<times> bytes \<times> bytes)" where
  "roles st = ((bs_program_size st, bs_program_generation st, bs_program_sha256 st, bs_program_version st),
     (bs_staging_size st, bs_staging_generation st, bs_staging_sha256 st, bs_staging_version st))"

lemma roles_swap: "roles (swap_state_roles st) = prod.swap (roles st)"
  by (simp add: roles_def swap_state_roles_def)

lemma swap_state_fields [simp]:
  "bs_sequence (swap_state_roles st) = bs_sequence st" "bs_mode (swap_state_roles st) = bs_mode st"
  "bs_attempts (swap_state_roles st) = bs_attempts st" "bs_max_attempts (swap_state_roles st) = bs_max_attempts st"
  by (simp_all add: swap_state_roles_def)

lemma roles_update [simp]:
  "roles (st\<lparr>bs_sequence := q\<rparr>) = roles st" "roles (st\<lparr>bs_mode := m\<rparr>) = roles st" "roles (st\<lparr>bs_attempts := k\<rparr>) = roles st"
  by (simp_all add: roles_def)

lemma boot_state_ok_update [simp]:
  "boot_state_ok (st\<lparr>bs_sequence := q\<rparr>) = boot_state_ok st" "boot_state_ok (st\<lparr>bs_mode := m\<rparr>) = boot_state_ok st"
  "boot_state_ok (st\<lparr>bs_attempts := k\<rparr>) = boot_state_ok st" "boot_state_ok (swap_state_roles st) = boot_state_ok st"
  by (auto simp: boot_state_ok_def swap_state_roles_def)

text \<open>The state that \<open>write_next_state\<close> writes.\<close>

definition next_state :: "boot_state \<Rightarrow> ota_mode \<Rightarrow> boot_state" where
  "next_state st mode = st\<lparr>bs_sequence := bs_sequence st + 1, bs_mode := mode\<rparr>"

lemma next_state_fields [simp]:
  "bs_mode (next_state st m) = m" "bs_sequence (next_state st m) = bs_sequence st + 1"
  "bs_attempts (next_state st m) = bs_attempts st" "bs_max_attempts (next_state st m) = bs_max_attempts st"
  "roles (next_state st m) = roles st" "boot_state_ok (next_state st m) = boot_state_ok st"
  by (simp_all add: next_state_def)

context ota_flash
begin

abbreviation progr :: "'c \<Rightarrow> bytes list" where "progr c \<equiv> map (sector c JH_OTA_SWAP_SLOT_PROGRAM) [0..<n]"
abbreviation stag :: "'c \<Rightarrow> bytes list" where "stag c \<equiv> map (sector c JH_OTA_SWAP_SLOT_STAGING) [0..<n]"

text \<open>The power was lost in the middle of a boot record, and the part that was written passes for a whole one.\<close>

definition lost :: "'c \<Rightarrow> bool" where
  "lost c \<longleftrightarrow> \<not> powered c \<and> \<not> whole c"

lemma lost_goes: "lost c \<Longrightarrow> goes c c' \<Longrightarrow> lost c'"
  by (auto simp: lost_def ota_later_def ota_same_def)

definition frame :: "'c \<Rightarrow> 'c \<Rightarrow> bool" where
  "frame c c' \<longleftrightarrow> phases c' = phases c \<and> (\<forall>t. \<forall>j<n. sector c' t j = sector c t j)"

lemma slots_eq: "\<forall>t. \<forall>j<n. sector c' t j = sector c t j \<Longrightarrow> progr c' = progr c \<and> stag c' = stag c"
  by simp

lemma frame_slots: "frame c c' \<Longrightarrow> progr c' = progr c \<and> stag c' = stag c"
  by (rule slots_eq) (simp add: frame_def)

lemma frame_half:
  assumes "frame c c'" "half x y c"
  shows "half x y c'"
proof -
  obtain k where h: "half_at x y k c" using assms(2) by (auto simp: half_def)
  have eq: "phases c' = phases c" "\<And>t i. i < n \<Longrightarrow> sector c' t i = sector c t i" using assms(1) by (simp_all add: frame_def)
  have k: "k \<le> n" using h by (simp add: half_at_def)
  have "sector_mid (x ! k) (y ! k) c' k = sector_mid (x ! k) (y ! k) c k" if "k < n" using that by (simp add: sector_mid_def eq)
  then have "half_at x y k c'" using h k by (simp add: half_at_def eq)
  then show ?thesis by (auto simp: half_def)
qed

lemma same_frame: "same c c' \<Longrightarrow> frame c c'" and same_stored: "same c c' \<Longrightarrow> stored c' = stored c"
  by (simp_all add: ota_same_def frame_def)

section \<open>Writing the next state\<close>

lemma write_next_goes:
  assumes "good c" "boot_state_ok st" "write_next_state be c st ix m = (c', st', ix', status)"
  shows "goes c c'"
proof -
  have "bb_write_state be c (next_state st m) ix = (c', status)" "boot_state_ok (next_state st m)"
    using assms(2,3) by (auto simp: write_next_state_def next_state_def Let_def split: prod.splits)
  then show ?thesis using write_goes [OF assms(1)] by blast
qed

lemma write_next:
  assumes "good c" "stored c = Some (cur, ix)" "bs_sequence st = bs_sequence cur" "boot_state_ok st"
    and "write_next_state be c st ix m = (c', st', ix', status)"
  shows "frame c c'" "st' = next_state st m"
    "lost c' \<or> stored c' = stored c \<or> stored c' = Some (next_state st m, ix XOR 1)"
    "powered c' \<Longrightarrow> status = HAL_OK \<Longrightarrow> stored c' = Some (next_state st m, ix XOR 1) \<and> ix' = ix XOR 1"
proof -
  have w: "bb_write_state be c (next_state st m) ix = (c', status)" and st': "st' = next_state st m"
    and ix': "ix' = (if status = HAL_OK then ix XOR 1 else ix)"
    using assms(5) by (auto simp: write_next_state_def next_state_def Let_def split: prod.splits)
  have seq: "bs_sequence (next_state st m) = bs_sequence cur + 1" "boot_state_ok (next_state st m)" using assms(3,4) by simp_all
  note law = write_state [OF assms(1,2) seq w]
  show "frame c c'" using law by (simp add: frame_def)
  show "st' = next_state st m" by (rule st')
  show "lost c' \<or> stored c' = stored c \<or> stored c' = Some (next_state st m, ix XOR 1)" using law by (auto simp: lost_def)
  show "stored c' = Some (next_state st m, ix XOR 1) \<and> ix' = ix XOR 1" if "powered c'" "status = HAL_OK"
    using law that ix' by simp
qed

section \<open>Completing an exchange\<close>

lemma complete_swap_goes:
  assumes "good c" "boot_state_ok st" "complete_swap be c st ix n m = (c', st', ix', action)"
  shows "goes c c'"
proof -
  obtain c1 s1 where 1: "jh_ota_swap_execute (Some be) c n = (c1, s1)" by fastforce
  then have "swap_sectors be c 0 n = (c1, s1)" using count by (simp add: jh_ota_swap_execute_def)
  then have g1: "goes c c1" by (rule swap_sectors_goes [OF assms(1)])
  note good1 = goes_good [OF g1]
  obtain c2 st2 ix2 s2 where 2: "write_next_state be c1 st ix JH_OTA_BOOT_RECOVERY = (c2, st2, ix2, s2)" by (metis prod.collapse)
  obtain c3 st3 ix3 s3 where 3: "write_next_state be c1 ((swap_state_roles st)\<lparr>bs_attempts := 0\<rparr>) ix m = (c3, st3, ix3, s3)"
    by (metis prod.collapse)
  have g3: "goes c1 c3" by (rule write_next_goes [OF good1 _ 3]) (simp add: assms(2))
  obtain c4 s4 where 4: "bb_erase_phase be c3 = (c4, s4)" by fastforce
  have g4: "goes c3 c4" using erase_phase [OF goes_good [OF g3] 4] by blast
  have "c' = c1 \<or> c' = c2 \<or> c' = c3 \<or> c' = c4"
    using assms(3) 1 2 3 4 by (auto simp: complete_swap_def Let_def split: if_splits)
  then have "goes c1 c'"
    using goes_refl [OF good1] write_next_goes [OF good1 assms(2) 2] g3 goes_trans [OF g3 g4] by blast
  then show ?thesis by (rule goes_trans [OF g1])
qed

text \<open>Where an exchange of \<open>x\<close> and \<open>y\<close> may leave the medium.\<close>

definition swap_outcome ::
  "bytes list \<Rightarrow> bytes list \<Rightarrow> boot_state \<Rightarrow> u8 \<Rightarrow> ota_mode \<Rightarrow> 'c \<Rightarrow> bool" where
  "swap_outcome x y st ix m c \<longleftrightarrow> lost c \<or>
     (stored c = Some (st, ix) \<and> half x y c) \<or>
     (stored c = Some (next_state st JH_OTA_BOOT_RECOVERY, ix XOR 1) \<and> progr c = x \<and> stag c = y) \<or>
     (stored c = Some (next_state ((swap_state_roles st)\<lparr>bs_attempts := 0\<rparr>) m, ix XOR 1) \<and> progr c = y \<and> stag c = x)"

lemma swap_outcome_same: "swap_outcome x y st ix m c \<Longrightarrow> goes c c' \<Longrightarrow> \<not> powered c \<Longrightarrow> swap_outcome x y st ix m c'"
proof -
  assume o: "swap_outcome x y st ix m c" and go: "goes c c'" and off: "\<not> powered c"
  note same = goes_off [OF go off]
  note fr = same_frame [OF same]
  from o show ?thesis unfolding swap_outcome_def same_stored [OF same]
    using lost_goes [OF _ go] frame_half [OF fr, of x y] frame_slots [OF fr] by (elim disjE) simp_all
qed

lemma complete_swap_outcome:
  assumes "good c" "half x y c" "stored c = Some (st, ix)"
    and run: "complete_swap be c st ix n m = (c', st', ix', action)"
  shows "swap_outcome x y st ix m c'"
    "powered c' \<Longrightarrow> action = JH_OTA_BOOT_ACTION_LAUNCH \<Longrightarrow> progr c' = x \<or> progr c' = y"
proof -
  have ok: "boot_state_ok st" by (rule stored_ok [OF assms(1,3)])
  obtain c1 s1 where 1: "jh_ota_swap_execute (Some be) c n = (c1, s1)" by fastforce
  note ex = swap_execute [OF assms(1,2) 1]
  have g1: "good c1" "stored c1 = Some (st, ix)" using ex(1,3) assms(3) goes_good by simp_all
  have o1: "swap_outcome x y st ix m c1" using ex(2) g1(2) by (simp add: swap_outcome_def)
  have "swap_outcome x y st ix m c' \<and> (powered c' \<and> action = JH_OTA_BOOT_ACTION_LAUNCH \<longrightarrow> progr c' = x \<or> progr c' = y)"
  proof (cases "s1 = HAL_OK")
    case False
    show ?thesis
    proof (cases "swap_started be c1 n")
      case True
      then have "c' = c1" "action = JH_OTA_BOOT_ACTION_RESTART" using run 1 False by (simp_all add: complete_swap_def)
      then show ?thesis using o1 by simp
    next
      case fresh: False
      obtain c2 st2 ix2 s2 where 2: "write_next_state be c1 st ix JH_OTA_BOOT_RECOVERY = (c2, st2, ix2, s2)"
        by (metis prod.collapse)
      then have c': "c' = c2" using run 1 False fresh by (simp add: complete_swap_def)
      note wn = write_next [OF g1 refl ok 2]
      have slots: "progr c1 = x \<and> stag c1 = y"
        using half_untouched [OF ex(2)] fresh swap_started_iff [OF g1(1)] by blast
      then have "progr c2 = x \<and> stag c2 = y" using frame_slots [OF wn(1)] by simp
      then show ?thesis using wn(3) frame_half [OF wn(1) ex(2)] g1(2) unfolding c' swap_outcome_def by auto
    qed
  next
    case True
    let ?st = "(swap_state_roles st)\<lparr>bs_attempts := 0\<rparr>"
    obtain c2 st2 ix2 s2 where 2: "write_next_state be c1 ?st ix m = (c2, st2, ix2, s2)" by (metis prod.collapse)
    have sq: "bs_sequence ?st = bs_sequence st" "boot_state_ok ?st" using ok by simp_all
    note wn = write_next [OF g1 sq 2]
    have g2: "goes c1 c2" by (rule write_next_goes [OF g1(1) sq(2) 2])
    obtain c3 s3 where 3: "bb_erase_phase be c2 = (c3, s3)" by fastforce
    note er = erase_phase [OF goes_good [OF g2] 3]
    have c': "c' = (if s2 = HAL_OK then c3 else c2)" "action = JH_OTA_BOOT_ACTION_LAUNCH \<Longrightarrow> s2 = HAL_OK"
      using run 1 True 2 3 by (auto simp: complete_swap_def Let_def split: if_splits)
    show ?thesis
    proof (cases "powered c1")
      case False
      have "goes c1 c'" using c' g2 er goes_trans by (auto split: if_splits)
      then show ?thesis using swap_outcome_same [OF o1 _ False] goes_on [of c1 c'] False by blast
    next
      case on: True
      then have slots: "progr c1 = y \<and> stag c1 = x" using ex(5) True by blast
      then have slots2: "progr c2 = y \<and> stag c2 = x" using frame_slots [OF wn(1)] by simp
      have o2: "swap_outcome x y st ix m c2"
        using wn(3) slots2 frame_half [OF wn(1) ex(2)] g1(2) by (auto simp: swap_outcome_def)
      show ?thesis
      proof (cases "s2 = HAL_OK")
        case False
        then show ?thesis using c' o2 by auto
      next
        case s2: True
        then have cc: "c' = c3" using c' by simp
        have slots3: "progr c3 = y \<and> stag c3 = x" using slots_eq [of c3 c2] er slots2 by blast
        show ?thesis
        proof (cases "powered c2")
          case False
          then show ?thesis using swap_outcome_same [OF o2 _ False] er goes_on unfolding cc by blast
        next
          case True
          then have "stored c2 = Some (next_state ?st m, ix XOR 1)" using wn(4) s2 by blast
          then show ?thesis using slots3 er unfolding cc swap_outcome_def by auto
        qed
      qed
    qed
  qed
  then show "swap_outcome x y st ix m c'" "powered c' \<Longrightarrow> action = JH_OTA_BOOT_ACTION_LAUNCH \<Longrightarrow> progr c' = x \<or> progr c' = y"
    by blast+
qed

section \<open>The invariant of an update\<close>

text \<open>\<open>s0\<close> is the state the update was recorded with; the staged image is verified before the exchange begins.\<close>

definition verified :: "bytes list \<Rightarrow> boot_state \<Rightarrow> bool" where
  "verified b s0 \<longleftrightarrow> image_ok b (bs_staging_size s0) (bs_staging_sha256 s0)"

definition before_swap :: "bytes list \<Rightarrow> bytes list \<Rightarrow> boot_state \<Rightarrow> 'c \<Rightarrow> boot_state \<Rightarrow> bool" where
  "before_swap a b s0 c st \<longleftrightarrow> roles st = roles s0 \<and> progr c = a \<and> stag c = b"

definition after_swap :: "bytes list \<Rightarrow> bytes list \<Rightarrow> boot_state \<Rightarrow> 'c \<Rightarrow> boot_state \<Rightarrow> bool" where
  "after_swap a b s0 c st \<longleftrightarrow> roles st = prod.swap (roles s0) \<and> progr c = b \<and> stag c = a \<and> verified b s0"

definition update_case :: "bytes list \<Rightarrow> bytes list \<Rightarrow> boot_state \<Rightarrow> 'c \<Rightarrow> boot_state \<Rightarrow> bool" where
  "update_case a b s0 c st \<longleftrightarrow>
     (case bs_mode st of
        JH_OTA_BOOT_PENDING \<Rightarrow> roles st = roles s0 \<and> half a b c \<and> ((\<exists>i<n. phases c ! i \<noteq> kErased) \<longrightarrow> verified b s0)
      | JH_OTA_BOOT_TRIAL \<Rightarrow> after_swap a b s0 c st
      | JH_OTA_BOOT_ROLLBACK \<Rightarrow> roles st = prod.swap (roles s0) \<and> half b a c \<and> verified b s0
      | _ \<Rightarrow> before_swap a b s0 c st \<or> after_swap a b s0 c st)"

definition update_inv :: "bytes list \<Rightarrow> bytes list \<Rightarrow> boot_state \<Rightarrow> 'c \<Rightarrow> bool" where
  "update_inv a b s0 c \<longleftrightarrow> good c \<and>
     (\<exists>st ix. stored c = Some (st, ix) \<and> bs_max_attempts st = bs_max_attempts s0 \<and> update_case a b s0 c st)"

lemma update_invI:
  "good c \<Longrightarrow> stored c = Some (st, ix) \<Longrightarrow> bs_max_attempts st = bs_max_attempts s0 \<Longrightarrow> update_case a b s0 c st \<Longrightarrow> update_inv a b s0 c"
  by (auto simp: update_inv_def)

lemma frame_case: "frame c c' \<Longrightarrow> update_case a b s0 c st \<Longrightarrow> update_case a b s0 c' st"
proof -
  assume fr: "frame c c'" and inv: "update_case a b s0 c st"
  have eq: "progr c' = progr c" "stag c' = stag c" "phases c' = phases c" using frame_slots [OF fr] fr by (simp_all add: frame_def)
  show ?thesis using inv frame_half [OF fr, of a b] frame_half [OF fr, of b a]
    unfolding update_case_def before_swap_def after_swap_def eq by (cases "bs_mode st") simp_all
qed

lemma same_inv:
  assumes "update_inv a b s0 c" "goes c c'" "\<not> powered c"
  shows "update_inv a b s0 c'"
proof -
  note same = goes_off [OF assms(2,3)]
  show ?thesis using assms(1) goes_good [OF assms(2)] frame_case [OF same_frame [OF same]]
    unfolding update_inv_def same_stored [OF same] by blast
qed

lemma roles_staging: "roles st = roles s0 \<Longrightarrow> bs_staging_size st = bs_staging_size s0 \<and> bs_staging_sha256 st = bs_staging_sha256 s0"
  by (simp add: roles_def)

lemma pending_outcome:
  assumes "swap_outcome a b st ix JH_OTA_BOOT_TRIAL c'" "good c'" "bs_mode st = JH_OTA_BOOT_PENDING" "roles st = roles s0"
    and "bs_max_attempts st = bs_max_attempts s0" "verified b s0"
  shows "lost c' \<or> update_inv a b s0 c'"
  using assms unfolding swap_outcome_def
  by (elim disjE)
    (auto intro!: update_invI [OF assms(2)] simp: update_case_def before_swap_def after_swap_def roles_swap)

lemma rollback_outcome:
  assumes "swap_outcome b a st ix JH_OTA_BOOT_STABLE c'" "good c'" "bs_mode st = JH_OTA_BOOT_ROLLBACK"
    and "roles st = prod.swap (roles s0)" "bs_max_attempts st = bs_max_attempts s0" "verified b s0"
  shows "lost c' \<or> update_inv a b s0 c'"
  using assms unfolding swap_outcome_def
  by (elim disjE)
    (auto intro!: update_invI [OF assms(2)] simp: update_case_def before_swap_def after_swap_def roles_swap)

text \<open>What a step of the update owes: the invariant, and a whole image if it starts one.\<close>

definition fine :: "bytes list \<Rightarrow> bytes list \<Rightarrow> boot_state \<Rightarrow> 'c \<Rightarrow> boot_action \<Rightarrow> bool" where
  "fine a b s0 c action \<longleftrightarrow> (lost c \<or> update_inv a b s0 c) \<and>
     (powered c \<and> action = JH_OTA_BOOT_ACTION_LAUNCH \<longrightarrow> progr c = a \<or> (progr c = b \<and> verified b s0))"

lemma write_next_fine:
  assumes "good c" "stored c = Some (cur, ix)" "bs_sequence st = bs_sequence cur" "boot_state_ok st"
    and "write_next_state be c st ix m = (c', st', ix', status)"
    and "update_case a b s0 c cur" "update_case a b s0 c (next_state st m)"
    and "bs_max_attempts cur = bs_max_attempts s0" "bs_max_attempts st = bs_max_attempts s0"
  shows "lost c' \<or> update_inv a b s0 c'"
proof -
  note wn = write_next [OF assms(1-5)]
  have good: "good c'" by (rule goes_good [OF write_next_goes [OF assms(1,4,5)]])
  have "update_case a b s0 c' cur" "update_case a b s0 c' (next_state st m)"
    using frame_case [OF wn(1)] assms(6,7) by blast+
  then show ?thesis using wn(3) assms(2,8,9) update_invI [OF good] by fastforce
qed

lemma rollback_fine:
  assumes "good c" "half b a c" "stored c = Some (st, ix)" "bs_mode st = JH_OTA_BOOT_ROLLBACK"
    and "roles st = prod.swap (roles s0)" "bs_max_attempts st = bs_max_attempts s0" "verified b s0"
    and "complete_swap be c st ix n JH_OTA_BOOT_STABLE = (c', st', ix', action)"
  shows "fine a b s0 c' action"
  using complete_swap_outcome [OF assms(1-3,8)]
    rollback_outcome [OF _ goes_good [OF complete_swap_goes [OF assms(1) stored_ok [OF assms(1,3)] assms(8)]] assms(4-7)]
    assms(7) unfolding fine_def by blast

section \<open>A run of the applier\<close>

lemma apply_pending:
  assumes inv: "update_inv a b s0 c" "stored c = Some (st, ix)" "bs_mode st = JH_OTA_BOOT_PENDING"
    and run: "jh_ota_boot_apply (Some be) c (Some st) ix n = (c', st', action)"
  shows "fine a b s0 c' action"
proof -
  have good: "good c" and max: "bs_max_attempts st = bs_max_attempts s0" and uc: "update_case a b s0 c st"
    using inv(1,2) by (auto simp: update_inv_def)
  have st: "roles st = roles s0" "half a b c" "(\<exists>i<n. phases c ! i \<noteq> kErased) \<longrightarrow> verified b s0"
    using uc inv(3) by (simp_all add: update_case_def)
  have ok: "boot_state_ok st" by (rule stored_ok [OF good inv(2)])
  have started: "swap_started be c n \<longleftrightarrow> (\<exists>i<n. phases c ! i \<noteq> kErased)" by (rule swap_started_iff [OF good])
  have fresh: "progr c = a \<and> stag c = b" if "\<not> swap_started be c n" using half_untouched [OF st(2)] that started by blast
  have slot: "JH_OTA_SWAP_SLOT_STAGING \<noteq> JH_OTA_SWAP_SLOT_SCRATCH" "length (bs_staging_sha256 st) = 32"
    using ok by (simp_all add: boot_state_ok_def)
  note matches = matches [OF good slot, of "bs_staging_size st"]
  show ?thesis
  proof (cases "\<not> swap_started be c n \<and> \<not> bb_slot_matches be c JH_OTA_SWAP_SLOT_STAGING (bs_staging_size st) (bs_staging_sha256 st)")
    case True
    obtain c1 st1 ix1 s1 where 1: "write_next_state be c st ix JH_OTA_BOOT_RECOVERY = (c1, st1, ix1, s1)" by (metis prod.collapse)
    have c': "c' = c1" using run inv(3) count True 1 by (simp add: jh_ota_boot_apply_def)
    have "update_case a b s0 c (next_state st JH_OTA_BOOT_RECOVERY)"
      using fresh True st(1) by (simp add: update_case_def before_swap_def)
    from write_next_fine [OF good inv(2) refl ok 1 uc this max max]
    have "lost c1 \<or> update_inv a b s0 c1" .
    moreover have "progr c1 = a" using frame_slots [OF write_next(1) [OF good inv(2) refl ok 1]] fresh True by simp
    ultimately show ?thesis unfolding c' fine_def by blast
  next
    case False
    then have ver: "verified b s0" using st(3) started matches fresh roles_staging [OF st(1)] by (auto simp: verified_def)
    obtain c1 st1 ix1 a1 where 1: "complete_swap be c st ix n JH_OTA_BOOT_TRIAL = (c1, st1, ix1, a1)" by (metis prod.collapse)
    have c': "c' = c1" "action = JH_OTA_BOOT_ACTION_LAUNCH \<Longrightarrow> a1 = JH_OTA_BOOT_ACTION_LAUNCH"
      using run inv(3) count False 1 by (auto simp: jh_ota_boot_apply_def split: if_splits)
    have "lost c1 \<or> update_inv a b s0 c1"
      by (rule pending_outcome [OF complete_swap_outcome(1) [OF good st(2) inv(2) 1] goes_good [OF complete_swap_goes [OF good ok 1]]
            inv(3) st(1) max ver])
    then show ?thesis using complete_swap_outcome(2) [OF good st(2) inv(2) 1] c' ver unfolding fine_def by blast
  qed
qed

lemma apply_trial:
  assumes inv: "update_inv a b s0 c" "stored c = Some (st, ix)" "bs_mode st = JH_OTA_BOOT_TRIAL"
    and run: "jh_ota_boot_apply (Some be) c (Some st) ix n = (c', st', action)"
  shows "fine a b s0 c' action"
proof -
  have good: "good c" and max: "bs_max_attempts st = bs_max_attempts s0" and uc: "update_case a b s0 c st"
    using inv(1,2) by (auto simp: update_inv_def)
  have st: "roles st = prod.swap (roles s0)" "progr c = b" "stag c = a" "verified b s0"
    using uc inv(3) by (simp_all add: update_case_def after_swap_def)
  have ok: "boot_state_ok st" by (rule stored_ok [OF good inv(2)])
  show ?thesis
  proof (cases "bs_attempts st < bs_max_attempts st")
    case True
    let ?st = "st\<lparr>bs_attempts := bs_attempts st + 1\<rparr>"
    obtain c1 st1 ix1 s1 where 1: "write_next_state be c ?st ix JH_OTA_BOOT_TRIAL = (c1, st1, ix1, s1)" by (metis prod.collapse)
    have c': "c' = c1" using run inv(3) count True 1 by (simp add: jh_ota_boot_apply_def)
    have sq: "bs_sequence ?st = bs_sequence st" "boot_state_ok ?st" "bs_max_attempts ?st = bs_max_attempts s0"
      using ok max by simp_all
    have "update_case a b s0 c (next_state ?st JH_OTA_BOOT_TRIAL)"
      using st by (simp add: update_case_def after_swap_def)
    from write_next_fine [OF good inv(2) sq(1,2) 1 uc this max sq(3)]
    have "lost c1 \<or> update_inv a b s0 c1" .
    moreover have "progr c1 = b" using frame_slots [OF write_next(1) [OF good inv(2) sq(1,2) 1]] st(2) by simp
    ultimately show ?thesis using st(4) unfolding c' fine_def by blast
  next
    case False
    obtain c1 s1 where 1: "bb_erase_phase be c = (c1, s1)" by fastforce
    note er = erase_phase [OF good 1]
    have g1: "goes c c1" and good1: "good c1" using er goes_good by blast+
    have slots: "progr c1 = b" "stag c1 = a" using slots_eq [of c1 c] er st(2,3) by simp_all
    have stored1: "stored c1 = Some (st, ix)" using er inv(2) by simp
    have uc1: "update_case a b s0 c1 st" using slots st inv(3) by (simp add: update_case_def after_swap_def)
    have inv1: "update_inv a b s0 c1" by (rule update_invI [OF good1 stored1 max uc1])
    show ?thesis
    proof (cases "s1 = HAL_OK")
      case s1: False
      then have "c' = c1" "action = JH_OTA_BOOT_ACTION_RESTART" using run inv(3) count False 1 by (simp_all add: jh_ota_boot_apply_def)
      then show ?thesis using inv1 by (simp add: fine_def)
    next
      case s1: True
      obtain c2 st2 ix2 s2 where 2: "write_next_state be c1 st ix JH_OTA_BOOT_ROLLBACK = (c2, st2, ix2, s2)" by (metis prod.collapse)
      note wn = write_next [OF good1 stored1 refl ok 2]
      have g2: "goes c1 c2" by (rule write_next_goes [OF good1 ok 2])
      obtain c3 st3 ix3 a3 where 3: "complete_swap be c2 st2 ix2 n JH_OTA_BOOT_STABLE = (c3, st3, ix3, a3)" by (metis prod.collapse)
      have g3: "goes c2 c3" by (rule complete_swap_goes [OF goes_good [OF g2] _ 3]) (simp add: wn(2) ok)
      have c': "(c' = c2 \<and> action = JH_OTA_BOOT_ACTION_RESTART \<and> s2 \<noteq> HAL_OK) \<or> (c' = c3 \<and> action = a3 \<and> s2 = HAL_OK)"
        using run inv(3) count False 1 s1 2 3 by (auto simp: jh_ota_boot_apply_def split: if_splits)
      show ?thesis
      proof (cases "powered c1")
        case off: False
        have "goes c1 c'" using c' g2 goes_trans [OF g2 g3] by blast
        then show ?thesis using same_inv [OF inv1 _ off] goes_on off unfolding fine_def by blast
      next
        case on: True
        then have ph: "\<forall>i<n. phases c1 ! i = kErased" using er s1 by simp
        have half1: "half b a c1" using half_start [OF ph] unfolding slots .
        have "update_case a b s0 c1 (next_state st JH_OTA_BOOT_ROLLBACK)" using half1 st by (simp add: update_case_def)
        from write_next_fine [OF good1 stored1 refl ok 2 uc1 this max max]
        have inv2: "lost c2 \<or> update_inv a b s0 c2" .
        from c' show ?thesis
        proof (elim disjE conjE)
          assume "c' = c2" "action = JH_OTA_BOOT_ACTION_RESTART"
          then show ?thesis using inv2 by (simp add: fine_def)
        next
          assume r: "c' = c3" "action = a3" "s2 = HAL_OK"
          show ?thesis
          proof (cases "powered c2")
            case False
            then show ?thesis using inv2 lost_goes [OF _ g3] same_inv [OF _ g3] goes_on [OF g3] unfolding r fine_def by blast
          next
            case True
            have ro: "stored c2 = Some (st2, ix2)" using wn(2,4) True r(3) by simp
            have f: "bs_mode st2 = JH_OTA_BOOT_ROLLBACK" "roles st2 = prod.swap (roles s0)" "bs_max_attempts st2 = bs_max_attempts s0"
              using wn(2) st(1) max by simp_all
            show ?thesis unfolding r by (rule rollback_fine [OF goes_good [OF g2] frame_half [OF wn(1) half1] ro f st(4) 3])
          qed
        qed
      qed
    qed
  qed
qed

lemma apply_fine:
  assumes inv: "update_inv a b s0 c" "stored c = Some (st, ix)"
    and run: "jh_ota_boot_apply (Some be) c (Some st) ix n = (c', st', action)"
  shows "fine a b s0 c' action"
proof (cases "bs_mode st")
  case JH_OTA_BOOT_PENDING
  then show ?thesis by (rule apply_pending [OF inv _ run])
next
  case JH_OTA_BOOT_TRIAL
  then show ?thesis by (rule apply_trial [OF inv _ run])
next
  case JH_OTA_BOOT_ROLLBACK
  obtain c1 st1 ix1 a1 where 1: "complete_swap be c st ix n JH_OTA_BOOT_STABLE = (c1, st1, ix1, a1)" by (metis prod.collapse)
  have "c' = c1" "action = a1" using run JH_OTA_BOOT_ROLLBACK count 1 by (simp_all add: jh_ota_boot_apply_def)
  moreover have "good c" "bs_max_attempts st = bs_max_attempts s0" "update_case a b s0 c st" using inv by (auto simp: update_inv_def)
  ultimately show ?thesis using rollback_fine [OF _ _ inv(2) JH_OTA_BOOT_ROLLBACK _ _ _ 1] JH_OTA_BOOT_ROLLBACK
    by (simp add: update_case_def)
next
  case JH_OTA_BOOT_STABLE
  then have "c' = c" using run by (simp add: jh_ota_boot_apply_def split: if_splits)
  then show ?thesis using inv JH_OTA_BOOT_STABLE by (auto simp: fine_def update_inv_def update_case_def before_swap_def after_swap_def)
next
  case JH_OTA_BOOT_RECOVERY
  then have "c' = c" using run by (simp add: jh_ota_boot_apply_def split: if_splits)
  then show ?thesis using inv JH_OTA_BOOT_RECOVERY by (auto simp: fine_def update_inv_def update_case_def before_swap_def after_swap_def)
qed

end

end
