(* ===== verification/Ota_Live.thy ===== *)
theory Ota_Live
  imports Ota_Boot
begin

text \<open>
  The applier while the power is steady and the flash does what it is asked: an exchange, fresh or resumed,
  completes, and an update that is not confirmed is reverted after its attempts are used up.
\<close>

locale ota_steady = ota_flash be good powered whole n phases sector stored
  for be :: "'c boot_backend" and good powered whole :: "'c \<Rightarrow> bool" and n :: nat
    and phases :: "'c \<Rightarrow> bytes" and sector :: "'c \<Rightarrow> ota_slot \<Rightarrow> nat \<Rightarrow> bytes" and stored :: "'c \<Rightarrow> (boot_state \<times> u8) option" +
  fixes steady :: "'c \<Rightarrow> bool"
  assumes steady: "steady c \<Longrightarrow> powered c"
    and copy_steady: "\<lbrakk>good c; steady c; i < n; d \<noteq> s; sb_copy_sector be c i d s = (c', st)\<rbrakk> \<Longrightarrow> st = HAL_OK \<and> steady c'"
    and mark_steady: "\<lbrakk>good c; steady c; i < n; phases c ! i AND v = v; sb_mark_phase be c i v = (c', st)\<rbrakk> \<Longrightarrow>
      st = HAL_OK \<and> steady c'"
    and erase_steady: "\<lbrakk>good c; steady c; bb_erase_phase be c = (c', st)\<rbrakk> \<Longrightarrow> st = HAL_OK \<and> steady c'"
    and write_steady: "\<lbrakk>good c; steady c; boot_state_ok bs; bb_write_state be c bs ix = (c', st)\<rbrakk> \<Longrightarrow> st = HAL_OK \<and> steady c'"
begin

section \<open>The exchange completes\<close>

lemma copy_and_mark_live:
  assumes "good c" "steady c" "i < n" "d \<noteq> s" "phases c ! i AND v = v" "copy_and_mark be c i d s v = (c', st)"
  shows "st = HAL_OK \<and> steady c'"
proof -
  obtain c1 s1 where 1: "sb_copy_sector be c i d s = (c1, s1)" by fastforce
  note live = copy_steady [OF assms(1-4) 1] and law = copy_sector [OF assms(1,3,4) 1]
  have "sb_mark_phase be c1 i v = (c', st)" using assms(6) 1 live by (simp add: copy_and_mark_def)
  moreover have "good c1" "phases c1 ! i AND v = v" using law assms(5) by (simp_all add: ota_later_def)
  ultimately show ?thesis using mark_steady [of c1 i v] live assms(3) by blast
qed

lemma swap_step_live:
  assumes "resumable a b k c0 c" "k < n" "steady c" "(p, d, s, v) \<in> swap_steps"
    and "swap_step be k p d s v (c, phases c ! k, HAL_OK) = (c', phase', st')"
  shows "st' = HAL_OK \<and> steady c' \<and> resumable a b k c0 c' \<and> phase' = phases c' ! k \<and>
    phase' = (if phases c ! k = p then v else phases c ! k)"
proof -
  have start: "resumable a b k c0 c \<and> (powered c \<longrightarrow> HAL_OK = HAL_OK \<longrightarrow> phases c ! k = phases c ! k)" using assms(1) by simp
  note res = swap_step_resumes [OF start assms(2,4,5)]
  have mono: "p AND v = v" using assms(4) by (auto simp: swap_steps_def)
  have "st' = HAL_OK \<and> steady c' \<and> phase' = (if phases c ! k = p then v else phases c ! k)"
  proof (cases "phases c ! k = p")
    case True
    obtain c1 s1 where 1: "copy_and_mark be c k d s v = (c1, s1)" by fastforce
    have "phases c ! k AND v = v" using True mono by simp
    note live = copy_and_mark_live [OF resumable_good [OF assms(1)] assms(3,2) swap_steps_slots [OF assms(4)] this 1]
    then show ?thesis using assms(5) True 1 by (simp add: swap_step_def)
  qed (use assms in \<open>auto simp: swap_step_def\<close>)
  then show ?thesis using res steady by blast
qed

lemma half_at_phase:
  "half_at a b k c \<Longrightarrow> k < n \<Longrightarrow> phases c ! k \<in> {kErased, kScratchReady, kProgramReady, kStagingReady}"
  by (auto simp: half_at_def sector_mid_def)

lemma swap_sector_live:
  assumes "resumable a b k c0 c" "k < n" "steady c" "swap_sector be c k = (c', st)"
  shows "st = HAL_OK \<and> steady c'"
proof -
  obtain c1 p1 s1 c2 p2 s2 p3 s3 where run:
    "swap_step be k kErased JH_OTA_SWAP_SLOT_SCRATCH JH_OTA_SWAP_SLOT_PROGRAM kScratchReady (c, phases c ! k, HAL_OK) = (c1, p1, s1)"
    "swap_step be k kScratchReady JH_OTA_SWAP_SLOT_PROGRAM JH_OTA_SWAP_SLOT_STAGING kProgramReady (c1, p1, s1) = (c2, p2, s2)"
    "swap_step be k kProgramReady JH_OTA_SWAP_SLOT_STAGING JH_OTA_SWAP_SLOT_SCRATCH kStagingReady (c2, p2, s2) = (c', p3, s3)"
    and st: "st = (if s3 \<noteq> HAL_OK then s3 else if p3 \<noteq> kStagingReady then HAL_EPROTO else HAL_OK)"
    by (rule swap_sector_run [OF resumable_good [OF assms(1)] assms(2,4)])
  note 1 = swap_step_live [OF assms(1-3) swap_steps_members(1) run(1)]
  have r1: "resumable a b k c0 c1" "steady c1" "swap_step be k kScratchReady JH_OTA_SWAP_SLOT_PROGRAM JH_OTA_SWAP_SLOT_STAGING
      kProgramReady (c1, phases c1 ! k, HAL_OK) = (c2, p2, s2)" using 1 run(2) by simp_all
  note 2 = swap_step_live [OF r1(1) assms(2) r1(2) swap_steps_members(2) r1(3)]
  have r2: "resumable a b k c0 c2" "steady c2" "swap_step be k kProgramReady JH_OTA_SWAP_SLOT_STAGING JH_OTA_SWAP_SLOT_SCRATCH
      kStagingReady (c2, phases c2 ! k, HAL_OK) = (c', p3, s3)" using 2 run(3) by simp_all
  note 3 = swap_step_live [OF r2(1) assms(2) r2(2) swap_steps_members(3) r2(3)]
  have "phases c ! k \<in> {kErased, kScratchReady, kProgramReady, kStagingReady}"
    using half_at_phase [of a b k c] assms(1,2) unfolding resumable_def by blast
  then have "p3 = kStagingReady" using 1 2 3 by auto
  then show ?thesis using 3 st by simp
qed

lemma swap_sectors_live:
  assumes "resumable a b k c0 c" "j \<le> k" "steady c" "swap_sectors be c j n = (c', st)"
  shows "st = HAL_OK \<and> steady c'"
  using assms
proof (induction "n - j" arbitrary: c j k rule: less_induct)
  case less
  have good: "good c" using less.prems(1) by (rule resumable_good)
  show ?case
  proof (cases "j < n")
    case False
    then show ?thesis using less.prems by (simp add: swap_sectors.simps)
  next
    case True
    obtain c1 s1 where 1: "swap_sector be c j = (c1, s1)" by fastforce
    have unfold: "swap_sectors be c j n = (if s1 \<noteq> HAL_OK then (c1, s1) else swap_sectors be c1 (j + 1) n)"
      using True 1 by (simp add: swap_sectors.simps [of be c j n])
    show ?thesis
    proof (cases "j < k")
      case done_before: True
      then have "phases c ! j = kStagingReady" using less.prems(1) by (simp add: resumable_def half_at_def)
      then have "c1 = c" "s1 = HAL_OK" using swap_sector_done [OF good True] 1 by simp_all
      then have "swap_sectors be c (j + 1) n = (c', st)" using unfold less.prems(4) by simp
      then show ?thesis using less.hyps [of "j + 1" k c] less.prems(1,3) True done_before by simp
    next
      case False
      then have jk: "j = k" using less.prems(2) by simp
      have run: "swap_sector be c k = (c1, s1)" and kn: "k < n" using 1 jk True by simp_all
      note live = swap_sector_live [OF less.prems(1) kn less.prems(3) run]
      note res = swap_sector_resumes [OF less.prems(1) kn run]
      have "half_at a b (k + 1) c1"
        using half_at_next [OF _ kn res(2)] res(1) live steady by (simp add: resumable_def)
      then have "resumable a b (k + 1) c0 c1" using res(1) by (simp add: resumable_def)
      moreover have "swap_sectors be c1 (j + 1) n = (c', st)" using unfold less.prems(4) live by simp
      ultimately show ?thesis using less.hyps [of "j + 1" "k + 1" c1] True jk live by simp
    qed
  qed
qed

lemma swap_execute_live:
  assumes "good c" "half a b c" "steady c" "jh_ota_swap_execute (Some be) c n = (c', st)"
  shows "st = HAL_OK \<and> steady c'"
proof -
  obtain k where "half_at a b k c" using assms(2) by (auto simp: half_def)
  moreover have "swap_sectors be c 0 n = (c', st)" using assms(4) count by (simp add: jh_ota_swap_execute_def)
  ultimately show ?thesis using swap_sectors_live [OF resumable_start [OF assms(1)], of a b k 0] assms(3) by blast
qed

section \<open>Every run launches an image\<close>

lemma write_next_live:
  assumes "good c" "steady c" "stored c = Some (cur, ix)" "bs_sequence st = bs_sequence cur" "boot_state_ok st"
    and "write_next_state be c st ix m = (c', st', ix', status)"
  shows "status = HAL_OK \<and> steady c' \<and> st' = next_state st m \<and> ix' = ix XOR 1 \<and> stored c' = Some (st', ix')"
proof -
  have "bb_write_state be c (next_state st m) ix = (c', status)"
    using assms(6) by (auto simp: write_next_state_def next_state_def Let_def split: prod.splits)
  moreover have "boot_state_ok (next_state st m)" using assms(5) by simp
  ultimately have live: "status = HAL_OK \<and> steady c'" using write_steady [OF assms(1,2)] by blast
  then show ?thesis using write_next [OF assms(1,3-6)] steady by blast
qed

lemma complete_swap_live:
  assumes "good c" "steady c" "half x y c" "stored c = Some (st, ix)"
    and run: "complete_swap be c st ix n m = (c', st', ix', action)"
  shows "action = JH_OTA_BOOT_ACTION_LAUNCH \<and> steady c' \<and> good c' \<and> progr c' = y \<and> stag c' = x \<and>
    st' = next_state ((swap_state_roles st)\<lparr>bs_attempts := 0\<rparr>) m \<and> stored c' = Some (st', ix')"
proof -
  have ok: "boot_state_ok st" by (rule stored_ok [OF assms(1,4)])
  obtain c1 s1 where 1: "jh_ota_swap_execute (Some be) c n = (c1, s1)" by fastforce
  note ex = swap_execute [OF assms(1,3) 1] and l1 = swap_execute_live [OF assms(1,3,2) 1]
  have g1: "good c1" "stored c1 = Some (st, ix)" using ex(1,3) assms(4) goes_good by simp_all
  have slots: "progr c1 = y \<and> stag c1 = x" using ex(5) l1 steady by blast
  let ?st = "(swap_state_roles st)\<lparr>bs_attempts := 0\<rparr>"
  obtain c2 st2 ix2 s2 where 2: "write_next_state be c1 ?st ix m = (c2, st2, ix2, s2)" by (metis prod.collapse)
  have sq: "bs_sequence ?st = bs_sequence st" "boot_state_ok ?st" using ok by simp_all
  note l2 = write_next_live [OF g1(1) conjunct2 [OF l1] g1(2) sq 2]
  have g2: "good c2" by (rule goes_good [OF write_next_goes [OF g1(1) sq(2) 2]])
  obtain c3 s3 where 3: "bb_erase_phase be c2 = (c3, s3)" by fastforce
  note er = erase_phase [OF g2 3]
  have "c' = c3" "st' = st2" "ix' = ix2" "action = JH_OTA_BOOT_ACTION_LAUNCH"
    using run 1 l1 2 l2 3 by (simp_all add: complete_swap_def Let_def)
  moreover have "progr c3 = y \<and> stag c3 = x"
    using slots_eq [of c3 c2] er frame_slots [OF write_next(1) [OF g1 sq 2]] slots by simp
  ultimately show ?thesis using l2 er erase_steady [OF g2 _ 3] by (auto dest: goes_good)
qed

lemma apply_pending_live:
  assumes inv: "update_inv a b s0 c" "stored c = Some (st, ix)" "bs_mode st = JH_OTA_BOOT_PENDING" "verified b s0" "steady c"
    and run: "jh_ota_boot_apply (Some be) c (Some st) ix n = (c', st', action)"
  shows "action = JH_OTA_BOOT_ACTION_LAUNCH \<and> steady c' \<and> progr c' = b \<and>
    (\<exists>s1 i1. stored c' = Some (s1, i1) \<and> bs_mode s1 = JH_OTA_BOOT_TRIAL \<and> bs_attempts s1 = 0)"
proof -
  have good: "good c" and uc: "update_case a b s0 c st" using inv(1,2) by (auto simp: update_inv_def)
  have st: "roles st = roles s0" "half a b c" using uc inv(3) by (simp_all add: update_case_def)
  have slots: "JH_OTA_SWAP_SLOT_STAGING \<noteq> JH_OTA_SWAP_SLOT_SCRATCH" "JH_OTA_SWAP_SLOT_PROGRAM \<noteq> JH_OTA_SWAP_SLOT_SCRATCH" by simp_all
  have sha: "length (bs_staging_sha256 st) = 32" using stored_ok [OF good inv(2)] by (simp add: boot_state_ok_def)
  have "bb_slot_matches be c JH_OTA_SWAP_SLOT_STAGING (bs_staging_size st) (bs_staging_sha256 st)" if "\<not> swap_started be c n"
  proof -
    have "stag c = b" using half_untouched [OF st(2)] that swap_started_iff [OF good] by blast
    then show ?thesis using matches [OF good slots(1) sha] inv(4) roles_staging [OF st(1)] by (simp add: verified_def)
  qed
  then have go: "swap_started be c n \<or> bb_slot_matches be c JH_OTA_SWAP_SLOT_STAGING (bs_staging_size st) (bs_staging_sha256 st)" by blast
  obtain c1 st1 ix1 a1 where 1: "complete_swap be c st ix n JH_OTA_BOOT_TRIAL = (c1, st1, ix1, a1)" by (metis prod.collapse)
  note live = complete_swap_live [OF good inv(5) st(2) inv(2) 1]
  have "bs_program_size st1 = bs_staging_size s0" "bs_program_sha256 st1 = bs_staging_sha256 s0"
    using live roles_staging [OF st(1)] by (simp_all add: next_state_def swap_state_roles_def)
  then have "bb_slot_matches be c1 JH_OTA_SWAP_SLOT_PROGRAM (bs_program_size st1) (bs_program_sha256 st1)"
    using matches [OF _ slots(2), of c1] live inv(4) sha roles_staging [OF st(1)] by (simp add: verified_def)
  then have "c' = c1" "action = JH_OTA_BOOT_ACTION_LAUNCH"
    using run inv(3) count go 1 live by (auto simp: jh_ota_boot_apply_def)
  then show ?thesis using live by auto
qed

lemma apply_trial_live:
  assumes inv: "update_inv a b s0 c" "stored c = Some (st, ix)" "bs_mode st = JH_OTA_BOOT_TRIAL" "steady c"
    and more: "bs_attempts st < bs_max_attempts st"
    and run: "jh_ota_boot_apply (Some be) c (Some st) ix n = (c', st', action)"
  shows "action = JH_OTA_BOOT_ACTION_LAUNCH \<and> steady c' \<and> progr c' = b \<and>
    (\<exists>s1 i1. stored c' = Some (s1, i1) \<and> bs_mode s1 = JH_OTA_BOOT_TRIAL \<and> bs_attempts s1 = bs_attempts st + 1 \<and>
       bs_max_attempts s1 = bs_max_attempts st)"
proof -
  have good: "good c" and uc: "update_case a b s0 c st" using inv(1,2) by (auto simp: update_inv_def)
  let ?st = "st\<lparr>bs_attempts := bs_attempts st + 1\<rparr>"
  obtain c1 st1 ix1 s1 where 1: "write_next_state be c ?st ix JH_OTA_BOOT_TRIAL = (c1, st1, ix1, s1)" by (metis prod.collapse)
  have sq: "bs_sequence ?st = bs_sequence st" "boot_state_ok ?st" using stored_ok [OF good inv(2)] by simp_all
  note live = write_next_live [OF good inv(4,2) sq 1]
  have "c' = c1" "action = JH_OTA_BOOT_ACTION_LAUNCH" using run inv(3) count more 1 live by (simp_all add: jh_ota_boot_apply_def)
  moreover have "progr c = b" using uc inv(3) by (simp add: update_case_def after_swap_def)
  then have "progr c1 = b" using frame_slots [OF write_next(1) [OF good inv(2) sq 1]] by simp
  ultimately show ?thesis using live by auto
qed

lemma apply_trial_expired:
  assumes inv: "update_inv a b s0 c" "stored c = Some (st, ix)" "bs_mode st = JH_OTA_BOOT_TRIAL" "steady c"
    and spent: "\<not> bs_attempts st < bs_max_attempts st"
    and run: "jh_ota_boot_apply (Some be) c (Some st) ix n = (c', st', action)"
  shows "action = JH_OTA_BOOT_ACTION_LAUNCH \<and> steady c' \<and> progr c' = a \<and>
    (\<exists>s1 i1. stored c' = Some (s1, i1) \<and> bs_mode s1 = JH_OTA_BOOT_STABLE)"
proof -
  have good: "good c" and uc: "update_case a b s0 c st" using inv(1,2) by (auto simp: update_inv_def)
  have st: "progr c = b" "stag c = a" using uc inv(3) by (simp_all add: update_case_def after_swap_def)
  have ok: "boot_state_ok st" by (rule stored_ok [OF good inv(2)])
  obtain c1 s1 where 1: "bb_erase_phase be c = (c1, s1)" by fastforce
  note er = erase_phase [OF good 1] and l1 = erase_steady [OF good inv(4) 1]
  have good1: "good c1" and stored1: "stored c1 = Some (st, ix)" using er inv(2) goes_good by auto
  have slots: "progr c1 = b" "stag c1 = a" using slots_eq [of c1 c] er st by simp_all
  have "\<forall>i<n. phases c1 ! i = kErased" using er l1 steady by simp
  from half_start [OF this] have half1: "half b a c1" unfolding slots .
  obtain c2 st2 ix2 s2 where 2: "write_next_state be c1 st ix JH_OTA_BOOT_ROLLBACK = (c2, st2, ix2, s2)" by (metis prod.collapse)
  note l2 = write_next_live [OF good1 conjunct2 [OF l1] stored1 refl ok 2]
  have good2: "good c2" by (rule goes_good [OF write_next_goes [OF good1 ok 2]])
  have half2: "half b a c2" by (rule frame_half [OF write_next(1) [OF good1 stored1 refl ok 2] half1])
  obtain c3 st3 ix3 a3 where 3: "complete_swap be c2 st2 ix2 n JH_OTA_BOOT_STABLE = (c3, st3, ix3, a3)" by (metis prod.collapse)
  have r2: "steady c2" "stored c2 = Some (st2, ix2)" using l2 by blast+
  note l3 = complete_swap_live [OF good2 r2(1) half2 r2(2) 3]
  have "c' = c3" "action = a3" using run inv(3) count spent 1 l1 2 l2 3 by (simp_all add: jh_ota_boot_apply_def)
  then show ?thesis using l3 by auto
qed

lemma apply_rollback_live:
  assumes inv: "update_inv a b s0 c" "stored c = Some (st, ix)" "bs_mode st = JH_OTA_BOOT_ROLLBACK" "steady c"
    and run: "jh_ota_boot_apply (Some be) c (Some st) ix n = (c', st', action)"
  shows "action = JH_OTA_BOOT_ACTION_LAUNCH \<and> steady c' \<and> progr c' = a \<and>
    (\<exists>s1 i1. stored c' = Some (s1, i1) \<and> bs_mode s1 = JH_OTA_BOOT_STABLE)"
proof -
  have good: "good c" and uc: "update_case a b s0 c st" using inv(1,2) by (auto simp: update_inv_def)
  have half: "half b a c" using uc inv(3) by (simp add: update_case_def)
  obtain c1 st1 ix1 a1 where 1: "complete_swap be c st ix n JH_OTA_BOOT_STABLE = (c1, st1, ix1, a1)" by (metis prod.collapse)
  have "c' = c1" "action = a1" using run inv(3) count 1 by (simp_all add: jh_ota_boot_apply_def)
  then show ?thesis using complete_swap_live [OF good inv(4) half inv(2) 1] by auto
qed

end

end
