(* ===== verification/Rp_Ota_Boot.thy ===== *)
theory Rp_Ota_Boot
  imports Ota_Live Rp_Program
begin

text \<open>
  The boot image of the RP targets (\<open>src/hal/impl/rp2040/ota/rp_ota_boot.cpp\<close>): the backend of the applier on the
  flash, without transactions, as nothing else runs yet. It is modelled on the platform of \<open>Rp_Flash\<close>, and
  shown to keep the laws of \<open>ota_flash\<close>. Starting the program and the restart through the watchdog are the result of
  the run.

  The size check of a slot compares with \<open>HAL_RP_OTA_SLOT_SIZE\<close>; the hash loop reads pieces of 1024 bytes. Finishing a
  hash returns for every message (\<open>final_digest\<close>), so that the case that it does not is never taken.
\<close>

section \<open>The backend\<close>

definition slot_offset :: "rp_config \<Rightarrow> ota_slot \<Rightarrow> nat \<Rightarrow> nat" where
  "slot_offset c slot sector =
     (let relative = sector * FLASH_SECTOR_SIZE in
      case slot of
        JH_OTA_SWAP_SLOT_PROGRAM \<Rightarrow> HAL_RP_OTA_PROGRAM_OFFSET c + relative
      | JH_OTA_SWAP_SLOT_STAGING \<Rightarrow> HAL_RP_OTA_STAGING_OFFSET c + relative
      | JH_OTA_SWAP_SLOT_SCRATCH \<Rightarrow> HAL_RP_OTA_SCRATCH_OFFSET c)"

function hash_flash :: "bytes \<Rightarrow> nat \<Rightarrow> nat \<Rightarrow> nat \<Rightarrow> sha256_context option \<Rightarrow> sha256_context option \<times> bool" where
  "hash_flash flash offset len position context =
     (if position < len then
        let chunk = (if len - position < 1024 then len - position else 1024) in
        case hal_sha256_update_ex context (Some (drop (offset + position) flash)) chunk of (context, status) \<Rightarrow>
          if status \<noteq> HAL_OK then (context, False) else hash_flash flash offset len (position + 1024) context
      else (context, True))"
  by pat_completeness auto
termination by (relation "measure (\<lambda>(flash, offset, len, position, context). len - position)") auto

declare hash_flash.simps [simp del]

definition rp_slot_matches :: "rp_config \<Rightarrow> 'w rp_platform \<Rightarrow> 'w \<Rightarrow> ota_slot \<Rightarrow> u32 \<Rightarrow> bytes \<Rightarrow> bool" where
  "rp_slot_matches c pl w slot len expected =
     (let offset = slot_offset c slot 0 in
      if slot = JH_OTA_SWAP_SLOT_SCRATCH \<or> len = 0 \<or> unat len > HAL_RP_OTA_SLOT_SIZE c then False
      else case hal_sha256_init_ex (Some stack_context) of (context, status) \<Rightarrow>
        if status \<noteq> HAL_OK then False
        else case hash_flash (xip pl w) offset (unat len) 0 context of (context, read) \<Rightarrow>
          if \<not> read then False
          else case hal_sha256_final_ex context True of
            Some (_, Some actual, status) \<Rightarrow> status = HAL_OK \<and> actual = take JH_OTA_SHA256_BYTES expected
          | _ \<Rightarrow> False)"

definition rp_state_bytes :: "rp_config \<Rightarrow> 'w rp_platform \<Rightarrow> 'w \<Rightarrow> nat \<Rightarrow> bytes" where
  "rp_state_bytes c pl w index =
     subarr (if index = 0 then HAL_RP_OTA_STATE_A_OFFSET c else HAL_RP_OTA_STATE_B_OFFSET c) JH_OTA_STATE_RECORD_SIZE (xip pl w)"

definition rp_read_state :: "rp_config \<Rightarrow> 'w rp_platform \<Rightarrow> 'w \<Rightarrow> (boot_state \<times> u8) option" where
  "rp_read_state c pl w = fst (jh_ota_boot_state_select (rp_state_bytes c pl w 0) (rp_state_bytes c pl w 1))"

definition rp_write_state :: "rp_config \<Rightarrow> 'w rp_platform \<Rightarrow> 'w \<Rightarrow> boot_state \<Rightarrow> u8 \<Rightarrow> 'w \<times> hal_status" where
  "rp_write_state c pl w st current_index =
     (case jh_ota_boot_state_encode st of
        (Some encoded, status) \<Rightarrow>
          (if status \<noteq> HAL_OK then (w, status)
           else
             let offset = (if current_index = 0 then HAL_RP_OTA_STATE_B_OFFSET c else HAL_RP_OTA_STATE_A_OFFSET c);
                 w = flash_range_erase pl w offset FLASH_SECTOR_SIZE;
                 w = flash_range_program pl w offset encoded
             in (w, if stored_matches pl w offset encoded then HAL_OK else HAL_EIO))
      | (None, status) \<Rightarrow> (w, status))"

definition rp_erase_phase :: "rp_config \<Rightarrow> 'w rp_platform \<Rightarrow> 'w \<Rightarrow> 'w \<times> hal_status" where
  "rp_erase_phase c pl w =
     (let w = flash_range_erase pl w (HAL_RP_OTA_PHASE_OFFSET c) FLASH_SECTOR_SIZE in
      (w, if list_ex (\<lambda>v. v \<noteq> 0xFF) (subarr (HAL_RP_OTA_PHASE_OFFSET c) FLASH_SECTOR_SIZE (xip pl w)) then HAL_EIO else HAL_OK))"

definition rp_mark_phase :: "rp_config \<Rightarrow> 'w rp_platform \<Rightarrow> 'w \<Rightarrow> nat \<Rightarrow> u8 \<Rightarrow> 'w \<times> hal_status" where
  "rp_mark_phase c pl w sector_index value =
     (let page_offset = sector_index - sector_index mod FLASH_PAGE_SIZE;
          page = subarr (HAL_RP_OTA_PHASE_OFFSET c + page_offset) FLASH_PAGE_SIZE (xip pl w);
          at = sector_index mod FLASH_PAGE_SIZE;
          page = page[at := page ! at AND value];
          w = flash_range_program pl w (HAL_RP_OTA_PHASE_OFFSET c + page_offset) page
      in (w, if xip pl w ! (HAL_RP_OTA_PHASE_OFFSET c + sector_index) = value then HAL_OK else HAL_EIO))"

definition rp_copy_sector_raw :: "'w rp_platform \<Rightarrow> 'w \<Rightarrow> nat \<Rightarrow> nat \<Rightarrow> 'w \<times> bool" where
  "rp_copy_sector_raw pl w destination source =
     (let sector_buffer = subarr source FLASH_SECTOR_SIZE (xip pl w);
          w = flash_range_erase pl w destination FLASH_SECTOR_SIZE;
          w = flash_range_program pl w destination sector_buffer
      in (w, stored_matches pl w destination sector_buffer))"

definition rp_read_phase :: "rp_config \<Rightarrow> 'w rp_platform \<Rightarrow> 'w \<Rightarrow> nat \<Rightarrow> u8 \<Rightarrow> u8 \<times> hal_status" where
  "rp_read_phase c pl w sector out_phase =
     (if sector \<ge> FLASH_SECTOR_SIZE then (out_phase, HAL_EINVAL)
      else (xip pl w ! (HAL_RP_OTA_PHASE_OFFSET c + sector), HAL_OK))"

definition rp_copy_sector :: "rp_config \<Rightarrow> 'w rp_platform \<Rightarrow> 'w \<Rightarrow> nat \<Rightarrow> ota_slot \<Rightarrow> ota_slot \<Rightarrow> 'w \<times> hal_status" where
  "rp_copy_sector c pl w sector destination source =
     (case rp_copy_sector_raw pl w (slot_offset c destination sector) (slot_offset c source sector) of
        (w, ok) \<Rightarrow> (w, if ok then HAL_OK else HAL_EIO))"

definition kSlotSectors :: "rp_config \<Rightarrow> nat" where
  "kSlotSectors c = HAL_RP_OTA_SLOT_SIZE c div FLASH_SECTOR_SIZE"

definition rp_boot_backend :: "rp_config \<Rightarrow> 'w rp_platform \<Rightarrow> 'w boot_backend" where
  "rp_boot_backend c pl =
     \<lparr>sb_read_phase = rp_read_phase c pl, sb_copy_sector = rp_copy_sector c pl, sb_mark_phase = rp_mark_phase c pl,
      bb_write_state = rp_write_state c pl, bb_erase_phase = rp_erase_phase c pl, bb_slot_matches = rp_slot_matches c pl\<rparr>"

text \<open>\<open>main\<close>: what the boot image does next.\<close>

definition rp_boot_main :: "rp_config \<Rightarrow> 'w rp_platform \<Rightarrow> 'w \<Rightarrow> 'w \<times> boot_action" where
  "rp_boot_main c pl w =
     (case rp_read_state c pl w of
        None \<Rightarrow> (w, JH_OTA_BOOT_ACTION_LAUNCH)
      | Some (st, state_index) \<Rightarrow>
          (case jh_ota_boot_apply (Some (rp_boot_backend c pl)) w (Some st) state_index (kSlotSectors c) of
             (w, _, action) \<Rightarrow> (w, action)))"

section \<open>The layout of the flash\<close>

definition apart :: "nat \<Rightarrow> nat \<Rightarrow> nat \<Rightarrow> nat \<Rightarrow> bool" where
  "apart x m y k \<longleftrightarrow> x + m \<le> y \<or> y + k \<le> x"

fun all_apart :: "(nat \<times> nat) list \<Rightarrow> bool" where
  "all_apart [] = True"
| "all_apart ((x, m) # rs) = ((\<forall>(y, k) \<in> set rs. apart x m y k) \<and> all_apart rs)"

definition ota_regions :: "rp_config \<Rightarrow> (nat \<times> nat) list" where
  "ota_regions c =
     [(HAL_RP_OTA_PROGRAM_OFFSET c, HAL_RP_OTA_SLOT_SIZE c), (HAL_RP_OTA_STAGING_OFFSET c, HAL_RP_OTA_SLOT_SIZE c),
      (HAL_RP_OTA_SCRATCH_OFFSET c, FLASH_SECTOR_SIZE), (HAL_RP_OTA_PHASE_OFFSET c, FLASH_SECTOR_SIZE),
      (HAL_RP_OTA_STATE_A_OFFSET c, FLASH_SECTOR_SIZE), (HAL_RP_OTA_STATE_B_OFFSET c, FLASH_SECTOR_SIZE)]"

text \<open>The regions lie in the flash, on sectors, and apart; the journal has a byte for every sector of a slot.\<close>

definition ota_layout :: "rp_config \<Rightarrow> bool" where
  "ota_layout c \<longleftrightarrow> all_apart (ota_regions c) \<and>
     (\<forall>(x, m) \<in> set (ota_regions c). FLASH_SECTOR_SIZE dvd x \<and> x + m \<le> PICO_FLASH_SIZE_BYTES c) \<and>
     FLASH_SECTOR_SIZE dvd HAL_RP_OTA_SLOT_SIZE c \<and> 0 < kSlotSectors c \<and> kSlotSectors c \<le> FLASH_SECTOR_SIZE"

end
