(* ===== verification/Rp_Ota_Storage.thy ===== *)
theory Rp_Ota_Storage
  imports Rp_Ota_Boot "HOL-Library.Monad_Syntax"
begin

text \<open>
  The program's side of an update on the RP targets (\<open>src/hal/impl/rp2040/drivers/flash/rp_ota_storage.cpp\<close>): an
  image comes in pieces, its header is checked, its payload is written to the staging slot, and a boot record asks
  the boot image to exchange the slots; later the new program confirms itself.

  The module's variable \<open>s_writer\<close> is passed along. What the linker and the build give is a record of its own. A
  function that may not return has an option as its result (a loop, or a hash that is finished). Pointers are not null
  where the callers of this file pass the address of a variable; what a function leaves in such a variable is a result
  where the caller reads it.
\<close>

section \<open>State\<close>

definition HAL_MD5_HEX_BUF_SIZE :: nat where "HAL_MD5_HEX_BUF_SIZE = 33"

record ota_build =
  XIP_BASE :: nat
  flash_binary_start :: nat
  flash_binary_end :: nat
  HAL_RP_OTA_MAX_BOOT_ATTEMPTS :: nat
  jh_ota_current_target :: u16

text \<open>What the compiler checks.\<close>

definition ota_build_valid :: "ota_build \<Rightarrow> bool" where
  "ota_build_valid b \<longleftrightarrow> 0 < HAL_RP_OTA_MAX_BOOT_ATTEMPTS b \<and> HAL_RP_OTA_MAX_BOOT_ATTEMPTS b \<le> 255"

record ota_writer =
  ow_active :: bool
  staging_ready :: bool
  container_size :: u32
  container_received :: u32
  payload_received :: u32
  ow_header :: bytes
  header_used :: nat
  ow_page :: bytes
  page_used :: nat
  ow_manifest :: ota_manifest
  ow_staging :: rp_partition
  ow_sha256 :: sha256_context
  authentication_key :: bytes
  authentication_key_size :: nat

text \<open>All bytes zero, as after a reset and after \<open>memset\<close>.\<close>

definition zero_writer :: ota_writer where
  "zero_writer = \<lparr>ow_active = False, staging_ready = False, container_size = 0, container_received = 0,
     payload_received = 0, ow_header = replicate JH_OTA_IMAGE_HEADER_SIZE 0, header_used = 0,
     ow_page = replicate FLASH_PAGE_SIZE 0, page_used = 0,
     ow_manifest = \<lparr>om_target = 0, om_flags = 0, om_program_offset = 0, om_payload_size = 0, om_generation = 0,
       om_sha256 = replicate 32 0, om_version = replicate 32 0, om_signature = replicate 32 0\<rparr>,
     ow_staging = \<lparr>flash_offset = 0, part_size = 0\<rparr>, ow_sha256 = stack_context,
     authentication_key = replicate HAL_MD5_HEX_BUF_SIZE 0, authentication_key_size = 0\<rparr>"

section \<open>The boot record\<close>

definition state_partition :: "rp_config \<Rightarrow> u8 \<Rightarrow> rp_partition option \<times> hal_status" where
  "state_partition c index = jh_rp_flash_storage_partition c
     (if index = 0 then JH_RP_FLASH_PARTITION_OTA_STATE_A else JH_RP_FLASH_PARTITION_OTA_STATE_B)"

definition read_state_record :: "rp_config \<Rightarrow> 'w rp_platform \<Rightarrow> 'w \<Rightarrow> u8 \<Rightarrow> bytes \<times> hal_status" where
  "read_state_record c pl w index =
     (let out = replicate JH_OTA_STATE_RECORD_SIZE 0 in
      case state_partition c index of
        (Some part, status) \<Rightarrow>
          (if status \<noteq> HAL_OK then (out, status)
           else jh_rp_flash_storage_read pl w part 0 out JH_OTA_STATE_RECORD_SIZE)
      | (None, status) \<Rightarrow> (out, status))"

definition load_state :: "rp_config \<Rightarrow> 'w rp_platform \<Rightarrow> 'w \<Rightarrow> (boot_state \<times> u8) option \<times> hal_status" where
  "load_state c pl w =
     (case read_state_record c pl w 0 of (first, status) \<Rightarrow>
        if status \<noteq> HAL_OK then (None, status)
        else case read_state_record c pl w 1 of (second, status) \<Rightarrow>
          if status \<noteq> HAL_OK then (None, status)
          else jh_ota_boot_state_select first second)"

definition write_state :: "rp_config \<Rightarrow> 'w rp_platform \<Rightarrow> 'w \<Rightarrow> boot_state \<Rightarrow> u8 \<Rightarrow> 'w \<times> hal_status" where
  "write_state c pl w st current_index =
     (case jh_ota_boot_state_encode st of
        (Some encoded, status) \<Rightarrow>
          (if status \<noteq> HAL_OK then (w, status)
           else case state_partition c (current_index XOR 1) of
             (Some part, status) \<Rightarrow>
               (if status \<noteq> HAL_OK then (w, status)
                else case jh_rp_flash_storage_erase pl w part 0 FLASH_SECTOR_SIZE of (w, status) \<Rightarrow>
                  if status \<noteq> HAL_OK then (w, status)
                  else jh_rp_flash_storage_program pl w part 0 encoded)
           | (None, status) \<Rightarrow> (w, status))
      | (None, status) \<Rightarrow> (w, status))"

text \<open>The loop of \<open>digest_partition\<close>, with a buffer of 1024 bytes.\<close>

function digest_loop ::
  "'w rp_platform \<Rightarrow> 'w \<Rightarrow> rp_partition \<Rightarrow> nat \<Rightarrow> nat \<Rightarrow> sha256_context option \<Rightarrow> sha256_context option \<times> hal_status" where
  "digest_loop pl w part len offset context =
     (if offset < len then
        let chunk = (if len - offset < 1024 then len - offset else 1024) in
        case jh_rp_flash_storage_read pl w part offset (replicate 1024 0) chunk of (buffer, status) \<Rightarrow>
          if status \<noteq> HAL_OK then (context, status)
          else case hal_sha256_update_ex context (Some buffer) chunk of (context, status) \<Rightarrow>
            if status \<noteq> HAL_OK then (context, status)
            else digest_loop pl w part len (offset + chunk) context
      else (context, HAL_OK))"
  by pat_completeness auto
termination by (relation "measure (\<lambda>(pl, w, part, len, offset, context). len - offset)") auto

declare digest_loop.simps [simp del]

definition digest_partition :: "'w rp_platform \<Rightarrow> 'w \<Rightarrow> rp_partition \<Rightarrow> u32 \<Rightarrow> (bytes option \<times> hal_status) option" where
  "digest_partition pl w part len =
     (if len = 0 \<or> unat len > part_size part then Some (None, HAL_EINVAL)
      else case hal_sha256_init_ex (Some stack_context) of (context, status) \<Rightarrow>
        if status \<noteq> HAL_OK then Some (None, status)
        else case digest_loop pl w part (unat len) 0 context of (context, status) \<Rightarrow>
          if status \<noteq> HAL_OK then Some (None, status)
          else map_option snd (hal_sha256_final_ex context True))"

definition ascii_factory :: bytes where "ascii_factory = [0x66, 0x61, 0x63, 0x74, 0x6F, 0x72, 0x79, 0]"
definition ascii_empty :: bytes where "ascii_empty = [0x65, 0x6D, 0x70, 0x74, 0x79, 0]"

definition initialise_factory_state ::
  "rp_config \<Rightarrow> ota_build \<Rightarrow> 'w rp_platform \<Rightarrow> 'w \<Rightarrow> ('w \<times> (boot_state \<times> u8) option \<times> hal_status) option" where
  "initialise_factory_state c b pl w =
     (case jh_rp_flash_storage_partition c JH_RP_FLASH_PARTITION_OTA_PROGRAM of
        (Some program, status) \<Rightarrow>
          (if status \<noteq> HAL_OK then Some (w, None, status)
           else
             let start = flash_binary_start b; stop = flash_binary_end b in
             if start < XIP_BASE b + flash_offset program \<or> stop \<le> start \<or> stop - start > part_size program
             then Some (w, None, HAL_ECONFIG)
             else
               let st = \<lparr>bs_sequence = 1, bs_mode = JH_OTA_BOOT_STABLE, bs_attempts = 0,
                         bs_max_attempts = of_nat (HAL_RP_OTA_MAX_BOOT_ATTEMPTS b),
                         bs_program_size = of_nat (stop - start), bs_staging_size = 0,
                         bs_program_generation = 0, bs_staging_generation = 0,
                         bs_program_sha256 = replicate 32 0, bs_staging_sha256 = replicate 32 0,
                         bs_program_version = blit (replicate 32 0) 0 ascii_factory,
                         bs_staging_version = blit (replicate 32 0) 0 ascii_empty\<rparr>
               in do {
                 (digest, status) \<leftarrow> digest_partition pl w program (bs_program_size st);
                 if status \<noteq> HAL_OK then Some (w, None, status)
                 else
                   let st = (case digest of Some d \<Rightarrow> st\<lparr>bs_program_sha256 := d\<rparr> | None \<Rightarrow> st) in
                   case write_state c pl w st 1 of (w, status) \<Rightarrow>
                     Some (w, if status = HAL_OK then Some (st, 0) else None, status)
               })
      | (None, status) \<Rightarrow> Some (w, None, status))"

definition load_or_initialise_state ::
  "rp_config \<Rightarrow> ota_build \<Rightarrow> 'w rp_platform \<Rightarrow> 'w \<Rightarrow> ('w \<times> (boot_state \<times> u8) option \<times> hal_status) option" where
  "load_or_initialise_state c b pl w =
     (case load_state c pl w of (loaded, status) \<Rightarrow>
        if status = HAL_OK then Some (w, loaded, HAL_OK)
        else if status \<noteq> HAL_ENOENT then Some (w, None, status)
        else initialise_factory_state c b pl w)"

section \<open>Writing an image\<close>

definition prepare_staging :: "rp_config \<Rightarrow> ota_build \<Rightarrow> ota_writer \<Rightarrow> (ota_writer \<times> hal_status) option" where
  "prepare_staging c b s =
     (case jh_ota_image_manifest_decode (ow_header s) of (decoded, status) \<Rightarrow>
        let s = (case decoded of Some m \<Rightarrow> s\<lparr>ow_manifest := m\<rparr> | None \<Rightarrow> s); m = ow_manifest s in
        if status \<noteq> HAL_OK then Some (s, status)
        else if om_target m \<noteq> jh_ota_current_target b \<or> unat (om_program_offset m) \<noteq> HAL_RP_OTA_PROGRAM_OFFSET c \<or>
                om_payload_size m = 0 \<or> unat (om_payload_size m) > HAL_RP_OTA_SLOT_SIZE c \<or>
                container_size s \<noteq> of_nat JH_OTA_IMAGE_HEADER_SIZE + om_payload_size m
        then Some (s, HAL_ECONFIG)
        else case jh_rp_flash_storage_partition c JH_RP_FLASH_PARTITION_OTA_STAGING of (part, status) \<Rightarrow>
          let s = (case part of Some p \<Rightarrow> s\<lparr>ow_staging := p\<rparr> | None \<Rightarrow> s) in
          if status \<noteq> HAL_OK then Some (s, status)
          else do {
            status \<leftarrow> jh_ota_image_manifest_verify m (Some (authentication_key s)) (authentication_key_size s);
            if status \<noteq> HAL_OK then Some (s, status)
            else case hal_sha256_init_ex (Some (ow_sha256 s)) of (context, status) \<Rightarrow>
              let s = s\<lparr>ow_sha256 := the context\<rparr> in
              if status \<noteq> HAL_OK then Some (s, status)
              else Some (s\<lparr>ow_page := replicate FLASH_PAGE_SIZE 0xFF, staging_ready := True\<rparr>, HAL_OK)
          })"

definition flush_page :: "'w rp_platform \<Rightarrow> ota_writer \<Rightarrow> 'w \<Rightarrow> ota_writer \<times> 'w \<times> hal_status" where
  "flush_page pl s w =
     (if page_used s = 0 then (s, w, HAL_OK)
      else
        let offset = unat (payload_received s - of_nat (page_used s));
            page_offset = offset - offset mod FLASH_PAGE_SIZE;
            (w, status) = (if page_offset mod FLASH_SECTOR_SIZE = 0
                           then jh_rp_flash_storage_erase pl w (ow_staging s) page_offset FLASH_SECTOR_SIZE else (w, HAL_OK));
            (w, status) = (if status = HAL_OK then jh_rp_flash_storage_program pl w (ow_staging s) page_offset (ow_page s)
                           else (w, status))
        in (if status = HAL_OK then s\<lparr>page_used := 0, ow_page := replicate FLASH_PAGE_SIZE 0xFF\<rparr> else s, w, status))"

text \<open>The loop body up to the flush: a piece of the data goes into the page.\<close>

definition fill_page :: "ota_writer \<Rightarrow> bytes \<Rightarrow> nat \<Rightarrow> ota_writer \<times> hal_status" where
  "fill_page s data chunk =
     (let s = s\<lparr>ow_page := blit (ow_page s) (page_used s) (take chunk data)\<rparr> in
      case hal_sha256_update_ex (Some (ow_sha256 s)) (Some data) chunk of (context, status) \<Rightarrow>
        let s = s\<lparr>ow_sha256 := the context\<rparr> in
        if status \<noteq> HAL_OK then (s, status)
        else (s\<lparr>page_used := page_used s + chunk, payload_received := payload_received s + of_nat chunk\<rparr>, HAL_OK))"

partial_function (option) consume_payload ::
  "'w rp_platform \<Rightarrow> ota_writer \<Rightarrow> 'w \<Rightarrow> bytes \<Rightarrow> (ota_writer \<times> 'w \<times> hal_status) option" where
  "consume_payload pl s w data =
     (if data = [] then Some (s, w, HAL_OK)
      else
        let capacity = FLASH_PAGE_SIZE - page_used s; chunk = min (length data) capacity;
            (s, status) = fill_page s data chunk
        in if status \<noteq> HAL_OK then Some (s, w, status)
           else
             let (s, w, status) = (if page_used s = FLASH_PAGE_SIZE then flush_page pl s w else (s, w, HAL_OK))
             in if status \<noteq> HAL_OK then Some (s, w, status)
                else consume_payload pl s w (drop chunk data))"

definition jh_rp_ota_storage_begin ::
  "rp_config \<Rightarrow> 'w rp_platform \<Rightarrow> ota_writer \<Rightarrow> 'w \<Rightarrow> u32 \<Rightarrow> bytes option \<Rightarrow> nat \<Rightarrow> ota_writer \<times> hal_status" where
  "jh_rp_ota_storage_begin c pl s w len key key_size =
     (if unat len \<le> JH_OTA_IMAGE_HEADER_SIZE \<or> ow_active s \<or> (key = None \<and> key_size > 0) \<or> key_size > HAL_MD5_HEX_BUF_SIZE
      then (s, if ow_active s then HAL_EBUSY else HAL_EINVAL)
      else case load_state c pl w of (loaded, status) \<Rightarrow>
        if status = HAL_OK \<and> (case loaded of Some (st, _) \<Rightarrow> bs_mode st \<noteq> JH_OTA_BOOT_STABLE | None \<Rightarrow> False)
        then (s, HAL_ESTATE)
        else if status \<noteq> HAL_OK \<and> status \<noteq> HAL_ENOENT then (s, status)
        else
          let s = zero_writer\<lparr>ow_active := True, container_size := len\<rparr>;
              s = (if key_size > 0
                   then s\<lparr>authentication_key := blit (authentication_key s) 0 (take key_size (the key))\<rparr> else s)
          in (s\<lparr>authentication_key_size := key_size\<rparr>, HAL_OK))"

text \<open>What is stored in \<open>*out_written\<close> is a result.\<close>

definition jh_rp_ota_storage_write ::
  "rp_config \<Rightarrow> ota_build \<Rightarrow> 'w rp_platform \<Rightarrow> ota_writer \<Rightarrow> 'w \<Rightarrow> bytes option \<Rightarrow> nat \<Rightarrow> out_ptr \<Rightarrow>
   (ota_writer \<times> 'w \<times> nat option \<times> hal_status) option" where
  "jh_rp_ota_storage_write c b pl s w data len out_written =
     (if \<not> ow_active s \<or> data = None \<or> len = 0 \<or> \<not> out_written \<or> len > unat (container_size s - container_received s)
      then Some (s, w, None, HAL_EINVAL)
      else
        let input = take len (the data) in
        do {
          (s, rest, status) \<leftarrow>
            (if header_used s < JH_OTA_IMAGE_HEADER_SIZE then
               let remaining = JH_OTA_IMAGE_HEADER_SIZE - header_used s;
                   chunk = min len remaining;
                   s = s\<lparr>ow_header := blit (ow_header s) (header_used s) (take chunk input),
                         header_used := header_used s + chunk,
                         container_received := container_received s + of_nat chunk\<rparr>
               in if header_used s = JH_OTA_IMAGE_HEADER_SIZE
                  then do { (s, status) \<leftarrow> prepare_staging c b s; Some (s, drop chunk input, status) }
                  else Some (s, drop chunk input, HAL_OK)
             else Some (s, input, HAL_OK));
          if status \<noteq> HAL_OK then Some (s, w, None, status)
          else if rest = [] then Some (s, w, Some len, HAL_OK)
          else if \<not> staging_ready s \<or> payload_received s + of_nat (length rest) > om_payload_size (ow_manifest s)
          then Some (s, w, None, HAL_EOVERFLOW)
          else do {
            (s, w, status) \<leftarrow> consume_payload pl s w rest;
            if status \<noteq> HAL_OK then Some (s, w, None, status)
            else Some (s\<lparr>container_received := container_received s + of_nat (length rest)\<rparr>, w, Some len, HAL_OK)
          }
        })"

definition jh_rp_ota_storage_abort :: "ota_writer \<Rightarrow> ota_writer" where
  "jh_rp_ota_storage_abort s = zero_writer"

text \<open>The last part of \<open>jh_rp_ota_storage_finish\<close>: both digests are the one of the manifest.\<close>

definition request_swap ::
  "rp_config \<Rightarrow> ota_build \<Rightarrow> 'w rp_platform \<Rightarrow> ota_writer \<Rightarrow> 'w \<Rightarrow> (ota_writer \<times> 'w \<times> hal_status) option" where
  "request_swap c b pl s w = do {
     (w, loaded, status) \<leftarrow> load_or_initialise_state c b pl w;
     case loaded of
       None \<Rightarrow> Some (s, w, status)
     | Some (st, current_index) \<Rightarrow>
         if status \<noteq> HAL_OK \<or> bs_mode st \<noteq> JH_OTA_BOOT_STABLE
         then Some (s, w, if status = HAL_OK then HAL_ESTATE else status)
         else case jh_rp_flash_storage_partition c JH_RP_FLASH_PARTITION_OTA_PHASE of
           (None, status) \<Rightarrow> Some (s, w, status)
         | (Some phase, status) \<Rightarrow>
             if status \<noteq> HAL_OK then Some (s, w, status)
             else case jh_rp_flash_storage_erase pl w phase 0 (part_size phase) of (w, status) \<Rightarrow>
               if status \<noteq> HAL_OK then Some (s, w, status)
               else
                 let m = ow_manifest s;
                     st = st\<lparr>bs_sequence := bs_sequence st + 1, bs_mode := JH_OTA_BOOT_PENDING, bs_attempts := 0,
                             bs_staging_size := om_payload_size m, bs_staging_generation := om_generation m,
                             bs_staging_sha256 := om_sha256 m, bs_staging_version := om_version m\<rparr>
                 in case write_state c pl w st current_index of (w, status) \<Rightarrow>
                      Some (if status = HAL_OK then zero_writer else s, w, status) }"

definition jh_rp_ota_storage_finish ::
  "rp_config \<Rightarrow> ota_build \<Rightarrow> 'w rp_platform \<Rightarrow> ota_writer \<Rightarrow> 'w \<Rightarrow> (ota_writer \<times> 'w \<times> hal_status) option" where
  "jh_rp_ota_storage_finish c b pl s w =
     (if \<not> ow_active s \<or> \<not> staging_ready s \<or> container_received s \<noteq> container_size s \<or>
         payload_received s \<noteq> om_payload_size (ow_manifest s)
      then Some (s, w, HAL_ESTATE)
      else case flush_page pl s w of (s, w, status) \<Rightarrow>
        if status \<noteq> HAL_OK then Some (s, w, status)
        else do {
          (context, digest, status) \<leftarrow> hal_sha256_final_ex (Some (ow_sha256 s)) True;
          let s = s\<lparr>ow_sha256 := the context\<rparr>;
          if status \<noteq> HAL_OK \<or> digest \<noteq> Some (om_sha256 (ow_manifest s))
          then Some (s, w, if status = HAL_OK then HAL_EAUTH else status)
          else do {
            (flash_digest, status) \<leftarrow> digest_partition pl w (ow_staging s) (om_payload_size (ow_manifest s));
            if status \<noteq> HAL_OK \<or> flash_digest \<noteq> Some (om_sha256 (ow_manifest s))
            then Some (s, w, if status = HAL_OK then HAL_EIO else status)
            else request_swap c b pl s w
          }
        })"

section \<open>The program's state\<close>

definition jh_rp_ota_storage_confirm_boot :: "rp_config \<Rightarrow> 'w rp_platform \<Rightarrow> 'w \<Rightarrow> 'w \<times> hal_status" where
  "jh_rp_ota_storage_confirm_boot c pl w =
     (case load_state c pl w of
        (Some (st, current_index), status) \<Rightarrow>
          (if status \<noteq> HAL_OK then (w, status)
           else if bs_mode st = JH_OTA_BOOT_STABLE then (w, HAL_OK)
           else if bs_mode st \<noteq> JH_OTA_BOOT_TRIAL then (w, HAL_ESTATE)
           else write_state c pl w
             (st\<lparr>bs_sequence := bs_sequence st + 1, bs_mode := JH_OTA_BOOT_STABLE, bs_attempts := 0\<rparr>) current_index)
      | (None, status) \<Rightarrow> (w, status))"

definition jh_rp_ota_storage_get_state ::
  "rp_config \<Rightarrow> 'w rp_platform \<Rightarrow> 'w \<Rightarrow> out_ptr \<Rightarrow> boot_state option \<times> hal_status" where
  "jh_rp_ota_storage_get_state c pl w out_state =
     (if \<not> out_state then (None, HAL_EINVAL)
      else case load_state c pl w of (loaded, status) \<Rightarrow> (map_option fst loaded, status))"

end
