(* ===== verification/Rp_Ota_Medium.thy ===== *)
theory Rp_Ota_Medium
  imports Rp_Ota_Boot Rp_Storage
begin

text \<open>
  The boot image's backend keeps the laws of \<open>ota_flash\<close>: on a flash that follows the laws of \<open>rp_machine\<close>, laid out
  as \<open>ota_layout\<close> says. A sector that is rewritten is erased first, so a write that is cut short leaves it as it
  was, or starting with an erased byte, or with the front of the data and erased bytes behind it.
\<close>

section \<open>What is observed of the flash\<close>

definition ota_good :: "rp_config \<Rightarrow> 'w rp_platform \<Rightarrow> 'w \<Rightarrow> bool" where
  "ota_good c pl w \<longleftrightarrow> length (xip pl w) = PICO_FLASH_SIZE_BYTES c"

definition ota_phases :: "rp_config \<Rightarrow> 'w rp_platform \<Rightarrow> 'w \<Rightarrow> bytes" where
  "ota_phases c pl w = subarr (HAL_RP_OTA_PHASE_OFFSET c) (kSlotSectors c) (xip pl w)"

definition ota_sector :: "rp_config \<Rightarrow> 'w rp_platform \<Rightarrow> 'w \<Rightarrow> ota_slot \<Rightarrow> nat \<Rightarrow> bytes" where
  "ota_sector c pl w slot i = subarr (slot_offset c slot i) FLASH_SECTOR_SIZE (xip pl w)"

definition ota_whole :: "rp_config \<Rightarrow> 'w rp_platform \<Rightarrow> 'w \<Rightarrow> bool" where
  "ota_whole c pl w \<longleftrightarrow> genuine (rp_state_bytes c pl w 0) \<and> genuine (rp_state_bytes c pl w 1)"

lemma blit_over:
  assumes "at + length big \<le> length x" "length small \<le> length big"
  shows "blit (blit x at big) at small = blit x at (small @ drop (length small) big)"
  using assms by (intro nth_equalityI) (auto simp: nth_blit nth_append)

locale rp_ota = rp_machine pl powered for pl :: "'w rp_platform" and powered :: "'w \<Rightarrow> bool" +
  fixes c :: rp_config
  assumes layout: "ota_layout c"
begin

abbreviation n :: nat where "n \<equiv> kSlotSectors c"

lemma slot_size: "HAL_RP_OTA_SLOT_SIZE c = n * 4096" "0 < n" "n \<le> 4096"
  using layout by (auto simp: ota_layout_def kSlotSectors_def FLASH_SECTOR_SIZE_def)

lemma sector_fits: "i < n \<Longrightarrow> i * 4096 + 4096 \<le> n * 4096"
proof -
  assume "i < n"
  then have "(i + 1) * 4096 \<le> n * 4096" by (intro mult_le_mono1) simp
  then show ?thesis by simp
qed

text \<open>The region a slot lies in.\<close>

definition slot_region :: "ota_slot \<Rightarrow> nat \<times> nat" where
  "slot_region d =
     (case d of
        JH_OTA_SWAP_SLOT_PROGRAM \<Rightarrow> (HAL_RP_OTA_PROGRAM_OFFSET c, HAL_RP_OTA_SLOT_SIZE c)
      | JH_OTA_SWAP_SLOT_STAGING \<Rightarrow> (HAL_RP_OTA_STAGING_OFFSET c, HAL_RP_OTA_SLOT_SIZE c)
      | JH_OTA_SWAP_SLOT_SCRATCH \<Rightarrow> (HAL_RP_OTA_SCRATCH_OFFSET c, 4096))"

lemma regions_apart:
  "d \<noteq> t \<Longrightarrow> apart (fst (slot_region d)) (snd (slot_region d)) (fst (slot_region t)) (snd (slot_region t))"
  "apart (fst (slot_region d)) (snd (slot_region d)) (HAL_RP_OTA_PHASE_OFFSET c) 4096"
  "apart (fst (slot_region d)) (snd (slot_region d)) (HAL_RP_OTA_STATE_A_OFFSET c) 4096"
  "apart (fst (slot_region d)) (snd (slot_region d)) (HAL_RP_OTA_STATE_B_OFFSET c) 4096"
  "apart (HAL_RP_OTA_PHASE_OFFSET c) 4096 (HAL_RP_OTA_STATE_A_OFFSET c) 4096"
  "apart (HAL_RP_OTA_PHASE_OFFSET c) 4096 (HAL_RP_OTA_STATE_B_OFFSET c) 4096"
  "apart (HAL_RP_OTA_STATE_A_OFFSET c) 4096 (HAL_RP_OTA_STATE_B_OFFSET c) 4096"
proof -
  have all: "all_apart (ota_regions c)" using layout by (simp add: ota_layout_def)
  have sym: "apart x m y k \<longleftrightarrow> apart y k x m" for x m y k by (auto simp: apart_def)
  note r = all [unfolded ota_regions_def FLASH_SECTOR_SIZE_def, simplified]
  show "d \<noteq> t \<Longrightarrow> apart (fst (slot_region d)) (snd (slot_region d)) (fst (slot_region t)) (snd (slot_region t))"
    using r by (cases d; cases t) (simp_all add: slot_region_def, simp_all add: sym)
  show "apart (fst (slot_region d)) (snd (slot_region d)) (HAL_RP_OTA_PHASE_OFFSET c) 4096"
    "apart (fst (slot_region d)) (snd (slot_region d)) (HAL_RP_OTA_STATE_A_OFFSET c) 4096"
    "apart (fst (slot_region d)) (snd (slot_region d)) (HAL_RP_OTA_STATE_B_OFFSET c) 4096"
    using r by (cases d; simp add: slot_region_def)+
  show "apart (HAL_RP_OTA_PHASE_OFFSET c) 4096 (HAL_RP_OTA_STATE_A_OFFSET c) 4096"
    "apart (HAL_RP_OTA_PHASE_OFFSET c) 4096 (HAL_RP_OTA_STATE_B_OFFSET c) 4096"
    "apart (HAL_RP_OTA_STATE_A_OFFSET c) 4096 (HAL_RP_OTA_STATE_B_OFFSET c) 4096"
    using r by simp_all
qed

lemma regions_fit:
  "4096 dvd fst (slot_region d)" "fst (slot_region d) + snd (slot_region d) \<le> PICO_FLASH_SIZE_BYTES c"
  "4096 dvd HAL_RP_OTA_PHASE_OFFSET c" "HAL_RP_OTA_PHASE_OFFSET c + 4096 \<le> PICO_FLASH_SIZE_BYTES c"
  "4096 dvd HAL_RP_OTA_STATE_A_OFFSET c" "HAL_RP_OTA_STATE_A_OFFSET c + 4096 \<le> PICO_FLASH_SIZE_BYTES c"
  "4096 dvd HAL_RP_OTA_STATE_B_OFFSET c" "HAL_RP_OTA_STATE_B_OFFSET c + 4096 \<le> PICO_FLASH_SIZE_BYTES c"
proof -
  have "\<forall>(x, m) \<in> set (ota_regions c). FLASH_SECTOR_SIZE dvd x \<and> x + m \<le> PICO_FLASH_SIZE_BYTES c"
    using layout by (simp add: ota_layout_def)
  note r = this [unfolded ota_regions_def FLASH_SECTOR_SIZE_def, simplified]
  show "4096 dvd fst (slot_region d)" "fst (slot_region d) + snd (slot_region d) \<le> PICO_FLASH_SIZE_BYTES c"
    using r by (cases d; simp add: slot_region_def)+
  show "4096 dvd HAL_RP_OTA_PHASE_OFFSET c" "HAL_RP_OTA_PHASE_OFFSET c + 4096 \<le> PICO_FLASH_SIZE_BYTES c"
    "4096 dvd HAL_RP_OTA_STATE_A_OFFSET c" "HAL_RP_OTA_STATE_A_OFFSET c + 4096 \<le> PICO_FLASH_SIZE_BYTES c"
    "4096 dvd HAL_RP_OTA_STATE_B_OFFSET c" "HAL_RP_OTA_STATE_B_OFFSET c + 4096 \<le> PICO_FLASH_SIZE_BYTES c"
    using r by simp_all
qed

lemma offset_in_region:
  assumes "i < n"
  shows "fst (slot_region d) \<le> slot_offset c d i" "slot_offset c d i + 4096 \<le> fst (slot_region d) + snd (slot_region d)"
  using sector_fits [OF assms] by (cases d; simp add: slot_region_def slot_offset_def FLASH_SECTOR_SIZE_def slot_size(1))+

lemma apart_parts:
  "apart x m y k \<Longrightarrow> x \<le> x' \<Longrightarrow> x' + m' \<le> x + m \<Longrightarrow> y \<le> y' \<Longrightarrow> y' + k' \<le> y + k \<Longrightarrow> apart x' m' y' k'"
  by (auto simp: apart_def)

lemma offset_place:
  assumes "i < n"
  shows "4096 dvd slot_offset c d i" "slot_offset c d i + 4096 \<le> PICO_FLASH_SIZE_BYTES c"
proof -
  show "4096 dvd slot_offset c d i"
    using regions_fit(1) [of d] by (cases d) (auto simp: slot_region_def slot_offset_def FLASH_SECTOR_SIZE_def)
  show "slot_offset c d i + 4096 \<le> PICO_FLASH_SIZE_BYTES c"
    using offset_in_region [OF assms, of d] regions_fit(2) [of d] by linarith
qed

lemma offset_apart:
  assumes "i < n" "y + k \<le> 4096"
  shows "apart (slot_offset c d i) 4096 (HAL_RP_OTA_PHASE_OFFSET c + y) k"
    "apart (slot_offset c d i) 4096 (HAL_RP_OTA_STATE_A_OFFSET c + y) k"
    "apart (slot_offset c d i) 4096 (HAL_RP_OTA_STATE_B_OFFSET c + y) k"
  using offset_in_region [OF assms(1), of d] assms(2)
  by (auto intro: apart_parts [OF regions_apart(2) [of d]] apart_parts [OF regions_apart(3) [of d]]
      apart_parts [OF regions_apart(4) [of d]])

lemma offsets_apart:
  assumes "i < n" "j < n" "t \<noteq> d \<or> (t \<noteq> JH_OTA_SWAP_SLOT_SCRATCH \<and> j \<noteq> i)"
  shows "apart (slot_offset c d i) 4096 (slot_offset c t j) 4096"
proof (cases "d = t")
  case False
  show ?thesis
    by (rule apart_parts [OF regions_apart(1) [OF False] offset_in_region [OF assms(1)] offset_in_region [OF assms(2)]])
next
  case True
  then have "j \<noteq> i" "t \<noteq> JH_OTA_SWAP_SLOT_SCRATCH" using assms(3) by auto
  moreover from \<open>j \<noteq> i\<close> have "i * 4096 + 4096 \<le> j * 4096 \<or> j * 4096 + 4096 \<le> i * 4096" by linarith
  ultimately show ?thesis using True by (cases t) (auto simp: apart_def slot_offset_def FLASH_SECTOR_SIZE_def)
qed

lemma untouched:
  assumes "xip pl w' = blit (xip pl w) at new" "at + length new \<le> length (xip pl w)" "y + k \<le> length (xip pl w)"
    and "apart at (length new) y k"
  shows "subarr y k (xip pl w') = subarr y k (xip pl w)"
  using assms subarr_blit_disjoint [of at new "xip pl w" y k] by (auto simp: apart_def)

section \<open>Rewriting a sector\<close>

lemma rewritten:
  assumes place: "4096 dvd at" "at + 4096 \<le> length (xip pl w)" and data: "256 dvd length data" "length data \<le> 4096"
    and w1: "w1 = flash_range_erase pl w at 4096" and w2: "w2 = flash_range_program pl w1 at data"
  obtains new where "length new = 4096" "xip pl w2 = blit (xip pl w) at new" "later (xip pl) powered w w2"
    "powered w2 \<Longrightarrow> new = data @ replicate (4096 - length data) 0xFF"
    "new = subarr at 4096 (xip pl w) \<or> hd new = 0xFF \<or>
       (\<exists>k \<le> length data. new = take k data @ replicate (4096 - k) 0xFF \<and> (powered w2 \<longrightarrow> k = length data))"
proof -
  have "FLASH_SECTOR_SIZE dvd at" "FLASH_SECTOR_SIZE dvd 4096" "(0 :: nat) < 4096" "at + 4096 \<le> length (xip pl w)"
    using place by (simp_all add: FLASH_SECTOR_SIZE_def)
  from erase_law [OF this w1] obtain new1 where l1: "later (xip pl) powered w w1" and n1: "length new1 = 4096"
    "xip pl w1 = blit (xip pl w) at new1"
    "if powered w1 then new1 = replicate 4096 0xFF else new1 = subarr at 4096 (xip pl w) \<or> hd new1 = 0xFF" by blast
  have len1: "length (xip pl w1) = length (xip pl w)" using n1 place by simp
  have "FLASH_PAGE_SIZE dvd at" "FLASH_PAGE_SIZE dvd length data" "at + length data \<le> length (xip pl w1)"
    using place data len1 by (auto simp: FLASH_PAGE_SIZE_def intro: dvd_trans [of 256 4096])
  from program_law [OF this w2] obtain k where l2: "later (xip pl) powered w1 w2" and k: "k \<le> length data"
    "powered w2 \<longrightarrow> k = length data"
    "xip pl w2 = blit (xip pl w1) at (map2 (AND) (subarr at k (xip pl w1)) (take k data))" by blast
  note l = later_trans [OF l1 l2]
  show thesis
  proof (cases "powered w1")
    case False
    then have "xip pl w2 = xip pl w1" using l2 by (simp add: later_def)
    then show thesis using that [OF n1(1) _ l] n1 False l2 by (auto simp: later_def)
  next
    case True
    then have ff: "new1 = replicate 4096 0xFF" using n1(3) by simp
    have fits: "at + k \<le> length (xip pl w)" "at + length new1 \<le> length (xip pl w)" using k(1) data place n1(1) by simp_all
    have sub: "subarr at k (xip pl w1) = replicate k 0xFF"
      unfolding n1(2) ff using k(1) data place by (simp add: subarr_def blit_def)
    have "xip pl w2 = blit (blit (xip pl w) at new1) at (take k data)"
      unfolding k(3) sub using ones_and [of "take k data" k] by (simp add: n1(2))
    also have "\<dots> = blit (xip pl w) at (take k data @ replicate (4096 - k) 0xFF)"
      using blit_over [OF fits(2), of "take k data"] k(1) data n1(1) by (simp add: ff)
    finally have x: "xip pl w2 = blit (xip pl w) at (take k data @ replicate (4096 - k) 0xFF)" .
    have lk: "length (take k data @ replicate (4096 - k) 0xFF) = 4096" using k(1) data by simp
    show thesis
    proof (rule that [OF lk x l])
      show "take k data @ replicate (4096 - k) 0xFF = data @ replicate (4096 - length data) 0xFF" if "powered w2"
        using k(2) that by simp
    qed (use k(1,2) in blast)
  qed
qed

section \<open>The laws\<close>

abbreviation same :: "'w \<Rightarrow> 'w \<Rightarrow> bool" where
  "same \<equiv> ota_same n (ota_phases c pl) (ota_sector c pl) (rp_read_state c pl) (ota_whole c pl)"

lemma same_flash: "xip pl w' = xip pl w \<Longrightarrow> same w w'"
  by (simp add: ota_same_def ota_phases_def ota_sector_def rp_read_state_def ota_whole_def rp_state_bytes_def)

lemma goes_later:
  "later (xip pl) powered w w' \<Longrightarrow> ota_good c pl w \<Longrightarrow> length (xip pl w') = length (xip pl w) \<Longrightarrow>
   ota_later (ota_good c pl) powered same w w'"
  using same_flash [of w' w] by (auto simp: ota_later_def later_def ota_good_def)

lemma state_bytes_offset:
  "rp_state_bytes c pl w 0 = subarr (HAL_RP_OTA_STATE_A_OFFSET c) 256 (xip pl w)"
  "rp_state_bytes c pl w 1 = subarr (HAL_RP_OTA_STATE_B_OFFSET c) 256 (xip pl w)"
  by (simp_all add: rp_state_bytes_def JH_OTA_STATE_RECORD_SIZE_def)

lemma same_states:
  assumes "rp_state_bytes c pl w' 0 = rp_state_bytes c pl w 0" "rp_state_bytes c pl w' 1 = rp_state_bytes c pl w 1"
  shows "rp_read_state c pl w' = rp_read_state c pl w" "ota_whole c pl w' = ota_whole c pl w"
  using assms by (simp_all add: rp_read_state_def ota_whole_def)

text \<open>What a write inside one of the regions leaves alone.\<close>

lemma journal_write:
  assumes "ota_good c pl w" "xip pl w' = blit (xip pl w) (HAL_RP_OTA_PHASE_OFFSET c + y) new" "y + length new \<le> 4096"
  shows "rp_read_state c pl w' = rp_read_state c pl w" "ota_whole c pl w' = ota_whole c pl w"
    "\<forall>t. \<forall>j<n. ota_sector c pl w' t j = ota_sector c pl w t j"
proof -
  have len: "length (xip pl w) = PICO_FLASH_SIZE_BYTES c" using assms(1) by (simp add: ota_good_def)
  have fits: "HAL_RP_OTA_PHASE_OFFSET c + y + length new \<le> length (xip pl w)" using regions_fit(4) assms(3) len by simp
  have sub: "subarr z k (xip pl w') = subarr z k (xip pl w)"
    if "z + k \<le> PICO_FLASH_SIZE_BYTES c" "apart (HAL_RP_OTA_PHASE_OFFSET c + y) (length new) z k" for z k
    using untouched [OF assms(2) fits _ that(2)] that(1) len by simp
  have "rp_state_bytes c pl w' 0 = rp_state_bytes c pl w 0" "rp_state_bytes c pl w' 1 = rp_state_bytes c pl w 1"
    unfolding state_bytes_offset using regions_fit(6,8) assms(3)
    by (intro sub; auto intro: apart_parts [OF regions_apart(5)] apart_parts [OF regions_apart(6)])+
  then show "rp_read_state c pl w' = rp_read_state c pl w" "ota_whole c pl w' = ota_whole c pl w" by (rule same_states)+
  show "\<forall>t. \<forall>j<n. ota_sector c pl w' t j = ota_sector c pl w t j"
  proof (intro allI impI)
    fix t j assume j: "j < n"
    have "apart (HAL_RP_OTA_PHASE_OFFSET c + y) (length new) (slot_offset c t j) 4096"
      using offset_apart(1) [OF j assms(3), of t] by (auto simp: apart_def)
    then show "ota_sector c pl w' t j = ota_sector c pl w t j"
      unfolding ota_sector_def FLASH_SECTOR_SIZE_def using offset_place(2) [OF j] by (intro sub)
  qed
qed

lemma slot_write:
  assumes "ota_good c pl w" "xip pl w' = blit (xip pl w) (slot_offset c d i) new" "length new = 4096" "i < n"
  shows "rp_read_state c pl w' = rp_read_state c pl w" "ota_whole c pl w' = ota_whole c pl w"
    "ota_phases c pl w' = ota_phases c pl w" "ota_sector c pl w' d i = new"
    "\<forall>t. \<forall>j<n. t \<noteq> d \<or> (t \<noteq> JH_OTA_SWAP_SLOT_SCRATCH \<and> j \<noteq> i) \<longrightarrow> ota_sector c pl w' t j = ota_sector c pl w t j"
proof -
  have len: "length (xip pl w) = PICO_FLASH_SIZE_BYTES c" using assms(1) by (simp add: ota_good_def)
  have fits: "slot_offset c d i + length new \<le> length (xip pl w)" using offset_place(2) [OF assms(4)] assms(3) len by simp
  have sub: "subarr z k (xip pl w') = subarr z k (xip pl w)"
    if "z + k \<le> PICO_FLASH_SIZE_BYTES c" "apart (slot_offset c d i) 4096 z k" for z k
    using untouched [OF assms(2) fits, of z k] that len assms(3) by simp
  have "rp_state_bytes c pl w' 0 = rp_state_bytes c pl w 0" "rp_state_bytes c pl w' 1 = rp_state_bytes c pl w 1"
    unfolding state_bytes_offset using regions_fit(6,8) offset_apart(2,3) [OF assms(4), of 0 256 d] by (intro sub; simp)+
  then show "rp_read_state c pl w' = rp_read_state c pl w" "ota_whole c pl w' = ota_whole c pl w" by (rule same_states)+
  show "ota_phases c pl w' = ota_phases c pl w"
    unfolding ota_phases_def using regions_fit(4) offset_apart(1) [OF assms(4), of 0 n d] slot_size(3) by (intro sub) simp_all
  show "ota_sector c pl w' d i = new"
    unfolding ota_sector_def assms(2) FLASH_SECTOR_SIZE_def using fits assms(3) by simp
  show "\<forall>t. \<forall>j<n. t \<noteq> d \<or> (t \<noteq> JH_OTA_SWAP_SLOT_SCRATCH \<and> j \<noteq> i) \<longrightarrow> ota_sector c pl w' t j = ota_sector c pl w t j"
    unfolding ota_sector_def FLASH_SECTOR_SIZE_def
    using offset_place(2) offsets_apart [OF assms(4)] by (intro allI impI sub) auto
qed

lemma copy_law:
  assumes "ota_good c pl w" "i < n" "d \<noteq> s" "rp_copy_sector c pl w i d s = (w', st)"
  shows "ota_later (ota_good c pl) powered same w w'"
    "ota_phases c pl w' = ota_phases c pl w" "rp_read_state c pl w' = rp_read_state c pl w" "ota_whole c pl w' = ota_whole c pl w"
    "\<forall>t. \<forall>j<n. t \<noteq> d \<or> (t \<noteq> JH_OTA_SWAP_SLOT_SCRATCH \<and> j \<noteq> i) \<longrightarrow> ota_sector c pl w' t j = ota_sector c pl w t j"
    "powered w' \<Longrightarrow> ota_sector c pl w' d i = ota_sector c pl w s i \<and> st = HAL_OK"
proof -
  have len: "length (xip pl w) = PICO_FLASH_SIZE_BYTES c" using assms(1) by (simp add: ota_good_def)
  let ?buf = "subarr (slot_offset c s i) 4096 (xip pl w)"
  have buf: "length ?buf = 4096" using offset_place(2) [OF assms(2), of s] len by simp
  define w1 where "w1 = flash_range_erase pl w (slot_offset c d i) 4096"
  define w2 where "w2 = flash_range_program pl w1 (slot_offset c d i) ?buf"
  have w': "w' = w2" "st = (if stored_matches pl w2 (slot_offset c d i) ?buf then HAL_OK else HAL_EIO)"
    using assms(4) by (auto simp: rp_copy_sector_def rp_copy_sector_raw_def Let_def w2_def w1_def FLASH_SECTOR_SIZE_def)
  have place: "4096 dvd slot_offset c d i" "slot_offset c d i + 4096 \<le> length (xip pl w)"
    using offset_place [OF assms(2), of d] len by simp_all
  have data: "256 dvd length ?buf" "length ?buf \<le> 4096" using buf by simp_all
  obtain new where new: "length new = 4096" "xip pl w2 = blit (xip pl w) (slot_offset c d i) new" "later (xip pl) powered w w2"
    "powered w2 \<Longrightarrow> new = ?buf @ replicate (4096 - length ?buf) 0xFF"
    using rewritten [OF place data w1_def w2_def] by blast
  show "ota_later (ota_good c pl) powered same w w'" unfolding w' by (rule goes_later [OF new(3) assms(1)]) (simp add: new place)
  note sw = slot_write [OF assms(1) new(2,1) assms(2)]
  show "ota_phases c pl w' = ota_phases c pl w" "rp_read_state c pl w' = rp_read_state c pl w" "ota_whole c pl w' = ota_whole c pl w"
    "\<forall>t. \<forall>j<n. t \<noteq> d \<or> (t \<noteq> JH_OTA_SWAP_SLOT_SCRATCH \<and> j \<noteq> i) \<longrightarrow> ota_sector c pl w' t j = ota_sector c pl w t j"
    unfolding w' by (rule sw)+
  show "ota_sector c pl w' d i = ota_sector c pl w s i \<and> st = HAL_OK" if "powered w'"
  proof -
    have "new = ?buf" using new(4) that buf w'(1) by simp
    then have "ota_sector c pl w' d i = ?buf" using sw(4) w'(1) by simp
    then show ?thesis unfolding w'(2) using buf w'(1) by (simp add: ota_sector_def FLASH_SECTOR_SIZE_def stored_matches_def)
  qed
qed

lemma erase_law_ota:
  assumes "ota_good c pl w" "rp_erase_phase c pl w = (w', st)"
  shows "ota_later (ota_good c pl) powered same w w'"
    "rp_read_state c pl w' = rp_read_state c pl w" "ota_whole c pl w' = ota_whole c pl w"
    "\<forall>t. \<forall>j<n. ota_sector c pl w' t j = ota_sector c pl w t j"
    "powered w' \<Longrightarrow> ota_phases c pl w' = replicate n kErased \<and> st = HAL_OK"
proof -
  have len: "length (xip pl w) = PICO_FLASH_SIZE_BYTES c" using assms(1) by (simp add: ota_good_def)
  let ?at = "HAL_RP_OTA_PHASE_OFFSET c"
  have w': "w' = flash_range_erase pl w ?at 4096"
    and st: "st = (if list_ex (\<lambda>v. v \<noteq> 0xFF) (subarr ?at 4096 (xip pl w')) then HAL_EIO else HAL_OK)"
    using assms(2) by (simp_all add: rp_erase_phase_def Let_def FLASH_SECTOR_SIZE_def split: if_splits)
  have place: "FLASH_SECTOR_SIZE dvd ?at" "FLASH_SECTOR_SIZE dvd 4096" "(0 :: nat) < 4096" "?at + 4096 \<le> length (xip pl w)"
    using regions_fit(3,4) len by (simp_all add: FLASH_SECTOR_SIZE_def)
  from erase_law [OF place w'] obtain new where new: "later (xip pl) powered w w'" "length new = 4096" "xip pl w' = blit (xip pl w) ?at new"
    "powered w' \<Longrightarrow> new = replicate 4096 0xFF" by auto
  show "ota_later (ota_good c pl) powered same w w'" using place(4) by (intro goes_later [OF new(1) assms(1)]) (simp add: new)
  have at0: "xip pl w' = blit (xip pl w) (?at + 0) new" "0 + length new \<le> 4096" using new by simp_all
  show "rp_read_state c pl w' = rp_read_state c pl w" "ota_whole c pl w' = ota_whole c pl w"
    "\<forall>t. \<forall>j<n. ota_sector c pl w' t j = ota_sector c pl w t j" by (rule journal_write [OF assms(1) at0])+
  show "ota_phases c pl w' = replicate n kErased \<and> st = HAL_OK" if "powered w'"
  proof -
    have sub: "subarr ?at 4096 (xip pl w') = replicate 4096 0xFF" using new that place(4) by simp
    have "ota_phases c pl w' = take n (subarr ?at 4096 (xip pl w'))"
      using slot_size(3) by (simp add: ota_phases_def subarr_def min_def)
    then have "ota_phases c pl w' = replicate n kErased" unfolding sub using slot_size(3) by (simp add: min_def kErased_def)
    then show ?thesis unfolding st sub by (simp add: list_ex_iff)
  qed
qed

lemma mark_law:
  assumes "ota_good c pl w" "i < n" "rp_mark_phase c pl w i v = (w', st)"
  shows "ota_later (ota_good c pl) powered same w w'"
    "rp_read_state c pl w' = rp_read_state c pl w" "ota_whole c pl w' = ota_whole c pl w"
    "\<forall>t. \<forall>j<n. ota_sector c pl w' t j = ota_sector c pl w t j"
    "ota_phases c pl w' = ota_phases c pl w \<or> ota_phases c pl w' = (ota_phases c pl w)[i := ota_phases c pl w ! i AND v]"
    "powered w' \<Longrightarrow> ota_phases c pl w' = (ota_phases c pl w)[i := ota_phases c pl w ! i AND v]"
    "st = HAL_OK \<longleftrightarrow> ota_phases c pl w' ! i = v"
proof -
  have len: "length (xip pl w) = PICO_FLASH_SIZE_BYTES c" using assms(1) by (simp add: ota_good_def)
  let ?J = "HAL_RP_OTA_PHASE_OFFSET c"
  define p where "p = i - i mod 256"
  define m where "m = i mod 256"
  let ?at = "?J + p"
  let ?old = "subarr ?at 256 (xip pl w)"
  let ?page = "?old[m := ?old ! m AND v]"
  have i: "i < 4096" "p + 256 \<le> 4096" "p + m = i" "m < 256" "256 dvd p"
  proof -
    show lt: "i < 4096" using assms(2) slot_size(3) by simp
    show "m < 256" "p + m = i" by (simp_all add: p_def m_def)
    show d: "256 dvd p" by (simp add: p_def dvd_minus_mod)
    then obtain q where q: "p = 256 * q" by (rule dvdE)
    have "256 * q < 4096" using q lt p_def by linarith
    then show "p + 256 \<le> 4096" using q by simp
  qed
  have w': "w' = flash_range_program pl w ?at ?page" and st: "st = (if xip pl w' ! (?J + i) = v then HAL_OK else HAL_EIO)"
    using assms(3) by (auto simp: rp_mark_phase_def Let_def FLASH_PAGE_SIZE_def p_def m_def)
  have fits: "?at + 256 \<le> length (xip pl w)" using regions_fit(4) len i(2) by simp
  have old: "length ?old = 256" using fits by simp
  have "256 dvd ?J" using regions_fit(3) by (rule dvd_trans [rotated]) simp
  then have "256 dvd ?at" by (rule dvd_add [OF _ i(5)])
  then have "FLASH_PAGE_SIZE dvd ?at" "FLASH_PAGE_SIZE dvd length ?page" "?at + length ?page \<le> length (xip pl w)"
    using old fits by (simp_all only: FLASH_PAGE_SIZE_def length_list_update dvd_refl)
  from program_law [OF this w'] obtain k where k: "later (xip pl) powered w w'" "k \<le> 256" "powered w' \<longrightarrow> k = 256"
    "xip pl w' = blit (xip pl w) ?at (map2 (AND) (subarr ?at k (xip pl w)) (take k ?page))"
    using old by auto
  define new where "new = map2 (AND) (subarr ?at k (xip pl w)) (take k ?page)"
  have newlen: "length new = k" unfolding new_def using k(2) fits old by simp
  have k4: "xip pl w' = blit (xip pl w) ?at new" using k(4) by (simp add: new_def)
  have fitk: "?J + p + length new \<le> length (xip pl w)" using fits k(2) newlen by simp
  have x: "xip pl w' ! j = (if j = ?J + i \<and> m < k then xip pl w ! j AND v else xip pl w ! j)" if j: "j < length (xip pl w)" for j
  proof (cases "?at \<le> j \<and> j < ?at + k")
    case False
    then have "xip pl w' ! j = xip pl w ! j" unfolding k4 using j fitk newlen by (auto simp: nth_blit)
    moreover have "\<not> (j = ?J + i \<and> m < k)" using False i(3) by auto
    ultimately show ?thesis by (simp only: if_False)
  next
    case True
    then have "xip pl w' ! j = new ! (j - ?at)" unfolding k4 using j fitk newlen by (simp add: nth_blit)
    also have "\<dots> = xip pl w ! j AND ?page ! (j - ?at)"
    proof -
      have lt: "j - ?at < length (subarr ?at k (xip pl w))" "j - ?at < length (take k ?page)" "j - ?at < k"
        using True k(2) fits old by auto
      then have "new ! (j - ?at) = subarr ?at k (xip pl w) ! (j - ?at) AND ?page ! (j - ?at)"
        unfolding new_def by simp
      moreover have "subarr ?at k (xip pl w) ! (j - ?at) = xip pl w ! j"
        using nth_subarr [OF lt(3), of ?at "xip pl w"] True k(2) fits by simp
      ultimately show ?thesis by (simp only:)
    qed
    also have "?page ! (j - ?at) = (if j - ?at = m then xip pl w ! j AND v else xip pl w ! j)"
      using True k(2) fits old i(4) by (auto simp: nth_list_update nth_subarr)
    finally have v: "xip pl w' ! j = xip pl w ! j AND (if j - ?at = m then xip pl w ! j AND v else xip pl w ! j)" .
    have "j - ?at = m \<longleftrightarrow> j = ?J + i" using True i(3) by auto
    moreover have "j = ?J + i \<Longrightarrow> m < k" using True i(3) by auto
    ultimately show ?thesis unfolding v by (auto simp flip: and.assoc)
  qed
  have nJ: "?J + n \<le> length (xip pl w)" using regions_fit(4) slot_size(3) len by simp
  have lenx: "length (xip pl w') = length (xip pl w)" using k4 fitk by simp
  have ph: "ota_phases c pl w' = (if m < k then (ota_phases c pl w)[i := ota_phases c pl w ! i AND v] else ota_phases c pl w)"
  proof (rule nth_equalityI)
    show "length (ota_phases c pl w') = length (if m < k then (ota_phases c pl w)[i := ota_phases c pl w ! i AND v] else ota_phases c pl w)"
      using nJ lenx by (simp add: ota_phases_def)
    fix j assume "j < length (ota_phases c pl w')"
    then have j: "j < n" using nJ lenx by (simp add: ota_phases_def)
    then show "ota_phases c pl w' ! j = (if m < k then (ota_phases c pl w)[i := ota_phases c pl w ! i AND v] else ota_phases c pl w) ! j"
      using nJ lenx x [of "?J + j"] assms(2) by (auto simp: ota_phases_def nth_subarr nth_list_update)
  qed
  show "ota_later (ota_good c pl) powered same w w'" by (rule goes_later [OF k(1) assms(1) lenx])
  have jw: "p + length new \<le> 4096" using i(2) k(2) newlen by simp
  show "rp_read_state c pl w' = rp_read_state c pl w" "ota_whole c pl w' = ota_whole c pl w"
    "\<forall>t. \<forall>j<n. ota_sector c pl w' t j = ota_sector c pl w t j" by (rule journal_write [OF assms(1) k4 jw])+
  show "ota_phases c pl w' = ota_phases c pl w \<or> ota_phases c pl w' = (ota_phases c pl w)[i := ota_phases c pl w ! i AND v]"
    unfolding ph by simp
  show "ota_phases c pl w' = (ota_phases c pl w)[i := ota_phases c pl w ! i AND v]" if "powered w'"
    using ph k(3) that i(4) by simp
  show "st = HAL_OK \<longleftrightarrow> ota_phases c pl w' ! i = v"
    unfolding st using assms(2) nJ lenx by (simp add: ota_phases_def nth_subarr)
qed

text \<open>What a write into the sector of one of the two records leaves alone.\<close>

definition record_offset :: "nat \<Rightarrow> nat" where
  "record_offset k = (if k = 0 then HAL_RP_OTA_STATE_A_OFFSET c else HAL_RP_OTA_STATE_B_OFFSET c)"

lemma state_bytes: "rp_state_bytes c pl w k = subarr (record_offset k) 256 (xip pl w)"
  by (simp add: rp_state_bytes_def record_offset_def JH_OTA_STATE_RECORD_SIZE_def)

lemma record_place:
  assumes "ota_good c pl w"
  shows "4096 dvd record_offset k" "record_offset k + 4096 \<le> length (xip pl w)"
  using assms regions_fit(5-8) by (simp_all add: record_offset_def ota_good_def)

lemma record_write:
  assumes "ota_good c pl w" "xip pl w' = blit (xip pl w) (record_offset k) new" "length new = 4096"
  shows "ota_phases c pl w' = ota_phases c pl w" "\<forall>t. \<forall>j<n. ota_sector c pl w' t j = ota_sector c pl w t j"
    "rp_state_bytes c pl w' k = take 256 new" "(k = 0) \<noteq> (m = 0) \<Longrightarrow> rp_state_bytes c pl w' m = rp_state_bytes c pl w m"
proof -
  have len: "length (xip pl w) = PICO_FLASH_SIZE_BYTES c" using assms(1) by (simp add: ota_good_def)
  note fits = record_place(2) [OF assms(1)]
  have sub: "subarr z i (xip pl w') = subarr z i (xip pl w)"
    if "z + i \<le> PICO_FLASH_SIZE_BYTES c" "apart (record_offset k) 4096 z i" for z i
    using untouched [OF assms(2) _ _, of z i] fits that len assms(3) by simp
  have sym: "apart x a y b \<Longrightarrow> apart y b x a" for x a y b by (auto simp: apart_def)
  have r: "apart (HAL_RP_OTA_PHASE_OFFSET c) 4096 (record_offset k) 4096" "apart (slot_offset c t j) 4096 (record_offset k) 4096"
    if "j < n" for t j
    using regions_apart(5,6) offset_apart(2,3) [OF that, of 0 4096 t] by (simp_all add: record_offset_def)
  have "apart (record_offset k) 4096 (HAL_RP_OTA_PHASE_OFFSET c) n"
    using r(1) [OF slot_size(2)] slot_size(3) by (auto simp: apart_def)
  then show "ota_phases c pl w' = ota_phases c pl w"
    unfolding ota_phases_def using regions_fit(4) slot_size(3) by (intro sub) simp_all
  show "\<forall>t. \<forall>j<n. ota_sector c pl w' t j = ota_sector c pl w t j"
    unfolding ota_sector_def FLASH_SECTOR_SIZE_def using offset_place(2) sym [OF r(2)] by (intro allI impI sub) auto
  show "rp_state_bytes c pl w' k = take 256 new"
    unfolding state_bytes assms(2) using fits [of k] assms(3) by (simp add: subarr_def blit_def)
  show "rp_state_bytes c pl w' m = rp_state_bytes c pl w m" if "(k = 0) \<noteq> (m = 0)"
  proof -
    have "apart (record_offset k) 4096 (record_offset m) 256"
      using regions_apart(7) that by (auto simp: record_offset_def apart_def)
    then show ?thesis unfolding state_bytes using fits [of m] len by (intro sub) simp_all
  qed
qed

text \<open>The other record than the one that is selected is rewritten.\<close>

lemma state_written:
  assumes "ota_good c pl w" "boot_state_ok st" "rp_write_state c pl w st ix = (w', status)"
  obtains new where "length new = 4096" "xip pl w' = blit (xip pl w) (record_offset (if ix = 0 then 1 else 0)) new"
    "later (xip pl) powered w w'" "powered w' \<Longrightarrow> take 256 new = state_record st \<and> status = HAL_OK"
    "take 256 new = rp_state_bytes c pl w (if ix = 0 then 1 else 0) \<or> take 256 new ! 0 = 0xFF \<or>
       (\<exists>k \<le> 256. take 256 new = take k (state_record st) @ replicate (256 - k) 0xFF \<and> (powered w' \<longrightarrow> k = 256))"
proof -
  let ?k = "if ix = 0 then 1 else 0 :: nat"
  let ?data = "state_record st"
  define w1 where "w1 = flash_range_erase pl w (record_offset ?k) 4096"
  define w2 where "w2 = flash_range_program pl w1 (record_offset ?k) ?data"
  have w': "w' = w2" "status = (if stored_matches pl w2 (record_offset ?k) ?data then HAL_OK else HAL_EIO)"
    using assms(3) encode_state [OF boot_state_ok_wf [OF assms(2)]]
    by (auto simp: rp_write_state_def Let_def w2_def w1_def FLASH_SECTOR_SIZE_def record_offset_def split: if_splits)
  have dl: "length ?data = 256" using assms(2) by simp
  then have data: "256 dvd length ?data" "length ?data \<le> 4096" by simp_all
  note place = record_place [OF assms(1), of ?k]
  from rewritten [OF place data w1_def w2_def] obtain new where new: "length new = 4096"
    "xip pl w2 = blit (xip pl w) (record_offset ?k) new" "later (xip pl) powered w w2"
    "powered w2 \<Longrightarrow> new = ?data @ replicate (4096 - length ?data) 0xFF"
    "new = subarr (record_offset ?k) 4096 (xip pl w) \<or> hd new = 0xFF \<or>
       (\<exists>k \<le> length ?data. new = take k ?data @ replicate (4096 - k) 0xFF \<and> (powered w2 \<longrightarrow> k = length ?data))" by blast
  show thesis
  proof (rule that [OF new(1)])
    show "xip pl w' = blit (xip pl w) (record_offset ?k) new" "later (xip pl) powered w w'" using new w'(1) by simp_all
    show "take 256 new = state_record st \<and> status = HAL_OK" if "powered w'"
    proof -
      have nw: "new = ?data @ replicate 3840 0xFF" using new(4) that w'(1) dl by simp
      then have "subarr (record_offset ?k) 256 (xip pl w2) = ?data"
        unfolding new(2) using place(2) dl by (simp add: subarr_def blit_def)
      then show ?thesis using nw dl w'(2) by (simp add: stored_matches_def)
    qed
    have "new \<noteq> []" using new(1) by auto
    then have "new ! 0 = hd new" by (simp add: hd_conv_nth)
    moreover have "take 256 (take k ?data @ replicate (4096 - k) 0xFF) = take k ?data @ replicate (256 - k) 0xFF"
      if "k \<le> 256" for k using that dl by (simp add: min_def)
    ultimately show "take 256 new = rp_state_bytes c pl w ?k \<or> take 256 new ! 0 = 0xFF \<or>
        (\<exists>k \<le> 256. take 256 new = take k ?data @ replicate (256 - k) 0xFF \<and> (powered w' \<longrightarrow> k = 256))"
      using new(5) dl w'(1) by (auto simp: state_bytes subarr_def)
  qed
qed

lemma write_goes_ota:
  assumes "ota_good c pl w" "boot_state_ok st" "rp_write_state c pl w st ix = (w', status)"
  shows "ota_later (ota_good c pl) powered same w w'"
proof -
  obtain new where new: "length new = 4096" "xip pl w' = blit (xip pl w) (record_offset (if ix = 0 then 1 else 0)) new"
    "later (xip pl) powered w w'" using state_written [OF assms] by blast
  show ?thesis
    by (rule goes_later [OF new(3) assms(1)])
      (simp only: new(2), rule length_blit, use record_place(2) [OF assms(1)] new(1) in simp)
qed

text \<open>A record that was cut short is not taken for the new one, nor does it replace the old one.\<close>

lemma record_cut_short:
  assumes "boot_state_wf st" "length raw = 256" "k \<le> 256"
    and "raw ! 0 = 0xFF \<or> (raw = take k (state_record st) @ replicate (256 - k) 0xFF \<and> genuine raw)"
  shows "fst (jh_ota_boot_state_decode raw) = None \<or> raw = state_record st"
proof (cases "raw ! 0 = 0xFF")
  case True
  have "raw \<noteq> []" using assms(2) by auto
  then show ?thesis by (intro disjI1 decode_erased True)
next
  case False
  then have "raw = take k (state_record st) @ replicate (256 - k) 0xFF" "genuine raw" using assms(4) by blast+
  then show ?thesis by (rule decode_cut_short [OF assms(1,3)])
qed

lemma select_index:
  "fst (jh_ota_boot_state_select x y) = Some (cur, ix) \<Longrightarrow> ix = 0 \<or> ix = 1"
  unfolding select_cases by blast

abbreviation other :: "u8 \<Rightarrow> nat" where
  "other ix \<equiv> (if ix = 0 then 1 else 0)"

text \<open>What a write of the record that is not selected does to the selection.\<close>

lemma record_law:
  assumes good: "ota_good c pl w" and cur: "rp_read_state c pl w = Some (cur, ix)"
    and seq: "bs_sequence st = bs_sequence cur + 1" and wf: "boot_state_wf st"
    and new: "length new = 4096" "xip pl w' = blit (xip pl w) (record_offset (other ix)) new"
      "take 256 new = rp_state_bytes c pl w (other ix) \<or> take 256 new ! 0 = 0xFF \<or>
         (\<exists>k \<le> 256. take 256 new = take k (state_record st) @ replicate (256 - k) 0xFF \<and> (powered w' \<longrightarrow> k = 256))"
  shows "ota_phases c pl w' = ota_phases c pl w" "\<forall>t. \<forall>j<n. ota_sector c pl w' t j = ota_sector c pl w t j"
    "powered w' \<or> ota_whole c pl w' \<Longrightarrow>
       rp_read_state c pl w' = rp_read_state c pl w \<or> rp_read_state c pl w' = Some (state_read st, ix XOR 1)"
    "take 256 new = state_record st \<Longrightarrow> rp_read_state c pl w' = Some (state_read st, ix XOR 1)"
proof -
  let ?k = "if ix = 0 then 1 else 0 :: nat" and ?m = "if ix = 0 then 0 else 1 :: nat"
  note rw = record_write [OF good new(2,1)]
  show "ota_phases c pl w' = ota_phases c pl w" "\<forall>t. \<forall>j<n. ota_sector c pl w' t j = ota_sector c pl w t j" by (rule rw)+
  let ?raw = "take 256 new"
  have raw: "length ?raw = 256" using new(1) by simp
  have kept: "rp_state_bytes c pl w' ?m = rp_state_bytes c pl w ?m" by (rule rw(4)) simp
  have read: "rp_read_state c pl w' =
      (if ix = 0 then fst (jh_ota_boot_state_select (rp_state_bytes c pl w 0) ?raw)
       else fst (jh_ota_boot_state_select ?raw (rp_state_bytes c pl w 1)))"
    unfolding rp_read_state_def using rw(3) kept by (cases "ix = 0") simp_all
  have sel: "fst (jh_ota_boot_state_select (rp_state_bytes c pl w 0) (rp_state_bytes c pl w 1)) = Some (cur, ix)"
    using cur by (simp add: rp_read_state_def)
  have ix: "ix = 0 \<or> ix = 1" by (rule select_index [OF sel])
  show full: "rp_read_state c pl w' = Some (state_read st, ix XOR 1)" if "?raw = state_record st"
  proof (cases "ix = 0")
    case True
    then show ?thesis unfolding read that using select_successor(1) [OF sel wf seq] by simp
  next
    case False
    then show ?thesis unfolding read that using select_successor(2) [OF sel wf seq] ix by simp
  qed
  have none: "rp_read_state c pl w' = rp_read_state c pl w" if "fst (jh_ota_boot_state_decode ?raw) = None"
  proof (cases "ix = 0")
    case True
    then show ?thesis unfolding read cur using select_keeps(1) [OF sel that] by simp
  next
    case False
    then show ?thesis unfolding read cur using select_keeps(2) [OF sel that] ix by simp
  qed
  show "rp_read_state c pl w' = rp_read_state c pl w \<or> rp_read_state c pl w' = Some (state_read st, ix XOR 1)"
    if on: "powered w' \<or> ota_whole c pl w'"
  proof -
    consider "?raw = rp_state_bytes c pl w ?k" | "?raw ! 0 = 0xFF"
      | k where "k \<le> 256" "?raw = take k (state_record st) @ replicate (256 - k) 0xFF" "powered w' \<longrightarrow> k = 256" using new(3) by blast
    then show ?thesis
    proof cases
      case 1
      then have "rp_read_state c pl w' = rp_read_state c pl w"
        unfolding read by (cases "ix = 0") (simp_all only: rp_read_state_def if_True if_False simp_thms)
      then show ?thesis by blast
    next
      case 2
      then show ?thesis using record_cut_short [OF wf raw, of 0] none full by blast
    next
      case (3 k)
      show ?thesis
      proof (cases "powered w'")
        case True
        then show ?thesis using 3 full wf by simp
      next
        case False
        then have "genuine (rp_state_bytes c pl w' ?k)" using on by (auto simp: ota_whole_def)
        then have "genuine ?raw" unfolding rw(3) .
        then show ?thesis using record_cut_short [OF wf raw 3(1)] 3(2) none full by blast
      qed
    qed
  qed
qed

lemma write_law_ota:
  assumes good: "ota_good c pl w" and cur: "rp_read_state c pl w = Some (cur, ix)"
    and seq: "bs_sequence st = bs_sequence cur + 1" and ok: "boot_state_ok st"
    and run: "rp_write_state c pl w st ix = (w', status)"
  shows "ota_phases c pl w' = ota_phases c pl w" "\<forall>t. \<forall>j<n. ota_sector c pl w' t j = ota_sector c pl w t j"
    "powered w' \<or> ota_whole c pl w' \<Longrightarrow>
       rp_read_state c pl w' = rp_read_state c pl w \<or> rp_read_state c pl w' = Some (st, ix XOR 1)"
    "powered w' \<Longrightarrow> rp_read_state c pl w' = Some (st, ix XOR 1) \<and> status = HAL_OK"
proof -
  obtain new where new: "length new = 4096" "xip pl w' = blit (xip pl w) (record_offset (other ix)) new"
    "powered w' \<Longrightarrow> take 256 new = state_record st \<and> status = HAL_OK"
    "take 256 new = rp_state_bytes c pl w (other ix) \<or> take 256 new ! 0 = 0xFF \<or>
       (\<exists>k \<le> 256. take 256 new = take k (state_record st) @ replicate (256 - k) 0xFF \<and> (powered w' \<longrightarrow> k = 256))"
    using state_written [OF good ok run] by blast
  note law = record_law [OF good cur seq boot_state_ok_wf [OF ok] new(1,2,4), unfolded state_read_ok(2) [OF ok]]
  show "ota_phases c pl w' = ota_phases c pl w" "\<forall>t. \<forall>j<n. ota_sector c pl w' t j = ota_sector c pl w t j"
    "powered w' \<or> ota_whole c pl w' \<Longrightarrow>
       rp_read_state c pl w' = rp_read_state c pl w \<or> rp_read_state c pl w' = Some (st, ix XOR 1)" by (rule law; assumption)+
  show "rp_read_state c pl w' = Some (st, ix XOR 1) \<and> status = HAL_OK" if "powered w'"
    using law(4) new(3) [OF that] by blast
qed

lemma read_state_ok:
  assumes "ota_good c pl w" "rp_read_state c pl w = Some (st, ix)"
  shows "boot_state_ok st"
proof -
  have len: "length (rp_state_bytes c pl w k) = 256" for k
    unfolding state_bytes using record_place(2) [OF assms(1), of k] by simp
  have "\<exists>k. fst (jh_ota_boot_state_decode (rp_state_bytes c pl w k)) = Some st"
    using assms(2) unfolding rp_read_state_def select_cases by blast
  then show ?thesis using decode_state_ok [OF _ len] by blast
qed

lemma read_phase_ota: "i < n \<Longrightarrow> ota_good c pl w \<Longrightarrow> rp_read_phase c pl w i p = (ota_phases c pl w ! i, HAL_OK)"
proof -
  assume i: "i < n" and good: "ota_good c pl w"
  have "HAL_RP_OTA_PHASE_OFFSET c + n \<le> length (xip pl w)"
    using regions_fit(4) slot_size(3) good by (simp add: ota_good_def)
  then show ?thesis using i slot_size(3) by (simp add: rp_read_phase_def FLASH_SECTOR_SIZE_def ota_phases_def nth_subarr)
qed

section \<open>The hash of a slot\<close>

lemma hash_loop:
  assumes "ctx_holds ctx (subarr offset position flash)" "s_initialized ctx" "position \<le> len" "offset + len \<le> length flash"
  shows "\<exists>ctx'. hash_flash flash offset len position (Some ctx) = (Some ctx', True) \<and> s_initialized ctx' \<and>
    ctx_holds ctx' (subarr offset len flash)"
  using assms
proof (induction "len - position" arbitrary: ctx position rule: less_induct)
  case less
  show ?case
  proof (cases "position < len")
    case False
    then have "hash_flash flash offset len position (Some ctx) = (Some ctx, True)"
      by (subst hash_flash.simps) simp
    moreover have "position = len" using False less.prems(3) by simp
    ultimately show ?thesis using less.prems(1,2) by blast
  next
    case True
    let ?chunk = "if len - position < 1024 then len - position else 1024"
    let ?data = "subarr (offset + position) ?chunk flash"
    let ?ctx = "jh_sha256_update ctx ?data"
    have step: "hash_flash flash offset len position (Some ctx) = hash_flash flash offset len (position + 1024) (Some ?ctx)"
      using True less.prems(2)
      by (subst hash_flash.simps) (simp add: hal_sha256_update_ex_def Let_def subarr_def at_ptr_def)
    have "subarr offset position flash @ ?data = subarr offset (position + ?chunk) flash"
      by (simp add: subarr_def take_add add.commute)
    then have held: "ctx_holds ?ctx (subarr offset (position + ?chunk) flash)"
      using update_holds [OF less.prems(1), of ?data] by simp
    show ?thesis
    proof (cases "len - position < 1024")
      case last: True
      then have "ctx_holds ?ctx (subarr offset len flash)" using held True by simp
      moreover have over: "\<not> position + 1024 < len" using last by linarith
      have "hash_flash flash offset len (position + 1024) (Some ?ctx) = (Some ?ctx, True)"
        using over by (subst hash_flash.simps) simp
      ultimately show ?thesis using step less.prems(2) by simp
    next
      case False
      then have "ctx_holds ?ctx (subarr offset (position + 1024) flash)" using held by simp
      then show ?thesis using step less.hyps [of "position + 1024" ?ctx] less.prems(2,4) True False by simp
    qed
  qed
qed

lemma concat_sectors:
  "concat (map (\<lambda>i. subarr (base + i * 4096) 4096 flash) [0..<m]) = subarr base (m * 4096) flash"
proof (induction m)
  case 0
  show ?case by (simp add: subarr_def)
next
  case (Suc m)
  have "subarr base (m * 4096) flash @ subarr (base + m * 4096) 4096 flash = subarr base (m * 4096 + 4096) flash"
    by (rule subarr_append [symmetric])
  then show ?case using Suc by (simp add: add.commute)
qed

lemma matches_law:
  assumes good: "ota_good c pl w" and s: "s \<noteq> JH_OTA_SWAP_SLOT_SCRATCH" and sha: "length sha = 32"
  shows "rp_slot_matches c pl w s len sha = image_ok (map (ota_sector c pl w s) [0..<n]) len sha"
proof -
  define base where "base = slot_offset c s 0"
  have off: "slot_offset c s i = base + i * 4096" for i
    unfolding base_def using s by (cases s) (simp_all add: slot_offset_def FLASH_SECTOR_SIZE_def)
  have "base + n * 4096 \<le> PICO_FLASH_SIZE_BYTES c"
    using regions_fit(2) [of s] s slot_size(1) by (cases s) (simp_all add: slot_region_def slot_offset_def base_def)
  then have fits: "base + n * 4096 \<le> length (xip pl w)" using good by (simp add: ota_good_def)
  have image: "concat (map (ota_sector c pl w s) [0..<n]) = subarr base (n * 4096) (xip pl w)"
    using concat_sectors [of base "xip pl w" n] off by (simp only: ota_sector_def [abs_def] FLASH_SECTOR_SIZE_def)
  then have len: "length (concat (map (ota_sector c pl w s) [0..<n])) = n * 4096" using fits by simp
  show ?thesis
  proof (cases "len = 0 \<or> n * 4096 < unat len")
    case True
    then show ?thesis using len by (auto simp: rp_slot_matches_def Let_def image_ok_def slot_size(1))
  next
    case False
    let ?ctx = "jh_sha256_init stack_context"
    have "ctx_holds ?ctx (subarr base 0 (xip pl w))" "s_initialized ?ctx"
      using ctx_holds_init [of stack_context] by (simp_all add: stack_context_def subarr_def jh_sha256_init_def)
    moreover have "base + unat len \<le> length (xip pl w)" using False fits by simp
    ultimately obtain ctx where run: "hash_flash (xip pl w) base (unat len) 0 (Some ?ctx) = (Some ctx, True)" "s_initialized ctx"
      "ctx_holds ctx (subarr base (unat len) (xip pl w))" using hash_loop [of ?ctx base 0 "xip pl w" "unat len"] by blast
    obtain ctx' where fin: "jh_sha256_final ctx = Some (ctx', sha256 (subarr base (unat len) (xip pl w)))"
      using final_digest [OF run(3)] by blast
    have "subarr base (unat len) (xip pl w) = take (unat len) (subarr base (n * 4096) (xip pl w))"
      using False by (simp add: subarr_def min_def)
    then show ?thesis
      using False s sha run fin len
      by (simp add: rp_slot_matches_def Let_def off hal_sha256_init_ex_def hal_sha256_final_ex_def image_ok_def image slot_size(1)
          JH_OTA_SHA256_BYTES_def)
  qed
qed

end

section \<open>The laws hold\<close>

sublocale rp_ota \<subseteq> ota: ota_flash "rp_boot_backend c pl" "ota_good c pl" powered "ota_whole c pl" "kSlotSectors c"
    "ota_phases c pl" "ota_sector c pl" "rp_read_state c pl"
proof (unfold_locales, goal_cases)
  case 1
  show ?case by (rule slot_size(2))
next
  case (2 w)
  then have "HAL_RP_OTA_PHASE_OFFSET c + kSlotSectors c \<le> length (xip pl w)"
    using regions_fit(4) slot_size(3) by (simp add: ota_good_def)
  then show ?case by (simp add: ota_phases_def)
next
  case (3 w st ix)
  then show ?case by (rule read_state_ok)
next
  case (4 w i p)
  then show ?case by (simp add: rp_boot_backend_def read_phase_ota)
next
  case (5 w s sha len)
  then show ?case by (simp add: rp_boot_backend_def matches_law)
next
  case (6 w i d s w' st)
  then have "rp_copy_sector c pl w i d s = (w', st)" by (simp add: rp_boot_backend_def)
  from copy_law [OF 6(1-3) this] show ?case by blast
next
  case (7 w i v w' st)
  then have "rp_mark_phase c pl w i v = (w', st)" by (simp add: rp_boot_backend_def)
  from mark_law [OF 7(1,2) this] show ?case by blast
next
  case (8 w w' st)
  then have "rp_erase_phase c pl w = (w', st)" by (simp add: rp_boot_backend_def)
  from erase_law_ota [OF 8(1) this] show ?case by blast
next
  case (9 w st ix w' status)
  then have "rp_write_state c pl w st ix = (w', status)" by (simp add: rp_boot_backend_def)
  from write_goes_ota [OF 9(1,2) this] show ?case .
next
  case (10 w cur ix st w' status)
  then have "rp_write_state c pl w st ix = (w', status)" by (simp add: rp_boot_backend_def)
  from write_law_ota [OF 10(1-4) this] show ?case by blast
qed

end
