(* ===== verification/Rp_Ota_Run.thy ===== *)
theory Rp_Ota_Run
  imports Rp_Ota_Medium
begin

text \<open>
  The boot image on a flash that keeps the laws: an update that is staged establishes the invariant of the applier,
  every run keeps it, and so does a flash that is left alone.
\<close>

section \<open>An update that is staged\<close>

text \<open>The bytes of a slot, and whether they start with an image of a given length and hash.\<close>

definition slot_bytes :: "rp_config \<Rightarrow> 'w rp_platform \<Rightarrow> 'w \<Rightarrow> ota_slot \<Rightarrow> bytes" where
  "slot_bytes c pl w slot = subarr (slot_offset c slot 0) (HAL_RP_OTA_SLOT_SIZE c) (xip pl w)"

definition starts_with_image :: "bytes \<Rightarrow> u32 \<Rightarrow> bytes \<Rightarrow> bool" where
  "starts_with_image b len sha \<longleftrightarrow> len \<noteq> 0 \<and> unat len \<le> length b \<and> sha256 (take (unat len) b) = sha"

lemma image_ok_bytes: "image_ok secs len sha = starts_with_image (concat secs) len sha"
  by (simp add: image_ok_def starts_with_image_def)

text \<open>An update is staged: the slots hold \<open>a\<close> and \<open>b\<close>, the selected record is \<open>s0\<close>, and no sector is exchanged yet.\<close>

definition ota_staged :: "rp_config \<Rightarrow> 'w rp_platform \<Rightarrow> bytes \<Rightarrow> bytes \<Rightarrow> boot_state \<Rightarrow> 'w \<Rightarrow> bool" where
  "ota_staged c pl a b s0 w \<longleftrightarrow> ota_good c pl w \<and> bs_mode s0 = JH_OTA_BOOT_PENDING \<and>
     (\<exists>ix. rp_read_state c pl w = Some (s0, ix)) \<and> (\<forall>p \<in> set (ota_phases c pl w). p = kErased) \<and>
     slot_bytes c pl w JH_OTA_SWAP_SLOT_PROGRAM = a \<and> slot_bytes c pl w JH_OTA_SWAP_SLOT_STAGING = b"

context rp_ota
begin

lemma slot_sectors: "s \<noteq> JH_OTA_SWAP_SLOT_SCRATCH \<Longrightarrow> concat (map (ota_sector c pl w s) [0..<n]) = slot_bytes c pl w s"
proof -
  assume s: "s \<noteq> JH_OTA_SWAP_SLOT_SCRATCH"
  define base where "base = slot_offset c s 0"
  have off: "slot_offset c s i = base + i * 4096" for i
    unfolding base_def using s by (cases s) (simp_all add: slot_offset_def FLASH_SECTOR_SIZE_def)
  show ?thesis
    using concat_sectors [of base "xip pl w" n] off
    by (simp only: ota_sector_def [abs_def] FLASH_SECTOR_SIZE_def slot_bytes_def slot_size(1)) simp
qed

lemma progr_bytes: "concat (ota.progr w) = slot_bytes c pl w JH_OTA_SWAP_SLOT_PROGRAM"
  and stag_bytes: "concat (ota.stag w) = slot_bytes c pl w JH_OTA_SWAP_SLOT_STAGING"
  by (rule slot_sectors, simp)+

definition run_inv :: "bytes \<Rightarrow> bytes \<Rightarrow> boot_state \<Rightarrow> 'w \<Rightarrow> bool" where
  "run_inv a b s0 w \<longleftrightarrow> (\<exists>x y. concat x = a \<and> concat y = b \<and> ota.update_inv x y s0 w)"

lemma staged_inv:
  assumes "ota_staged c pl a b s0 w"
  shows "run_inv a b s0 w"
proof -
  have st: "ota_good c pl w" "bs_mode s0 = JH_OTA_BOOT_PENDING" "slot_bytes c pl w JH_OTA_SWAP_SLOT_PROGRAM = a"
    "slot_bytes c pl w JH_OTA_SWAP_SLOT_STAGING = b" using assms by (simp_all add: ota_staged_def)
  obtain ix where ix: "rp_read_state c pl w = Some (s0, ix)" using assms by (auto simp: ota_staged_def)
  have erased: "\<forall>i<n. ota_phases c pl w ! i = kErased"
    using assms ota.journal [OF st(1)] by (auto simp: ota_staged_def)
  have "ota.update_case (ota.progr w) (ota.stag w) s0 w s0"
    unfolding ota.update_case_def using st(2) ota.half_start [OF erased] erased by auto
  then have "ota.update_inv (ota.progr w) (ota.stag w) s0 w" by (rule ota.update_invI [OF st(1) ix refl])
  then show ?thesis unfolding run_inv_def using progr_bytes [of w] stag_bytes [of w] st(3,4) by blast
qed

text \<open>A run of the boot image, seen from the applier.\<close>

lemma boot_applies:
  assumes "ota.update_inv x y s0 w" "rp_boot_main c pl w = (w', action)"
  obtains st ix st' where "rp_read_state c pl w = Some (st, ix)"
    "jh_ota_boot_apply (Some (rp_boot_backend c pl)) w (Some st) ix n = (w', st', action)"
proof -
  obtain st ix where st: "rp_read_state c pl w = Some (st, ix)" using assms(1) by (auto simp: ota.update_inv_def)
  obtain w1 st' a1 where run: "jh_ota_boot_apply (Some (rp_boot_backend c pl)) w (Some st) ix n = (w1, st', a1)"
    by (metis prod.collapse)
  then have "w1 = w'" "a1 = action" using assms(2) st by (simp_all add: rp_boot_main_def)
  then show thesis using that st run by simp
qed

lemma boot_fine:
  assumes "ota.update_inv x y s0 w" "rp_boot_main c pl w = (w', action)"
  shows "ota.fine x y s0 w' action"
proof -
  obtain st ix st' where "rp_read_state c pl w = Some (st, ix)"
    "jh_ota_boot_apply (Some (rp_boot_backend c pl)) w (Some st) ix n = (w', st', action)" by (rule boot_applies [OF assms])
  then show ?thesis by (rule ota.apply_fine [OF assms(1)])
qed

lemma power_inv:
  assumes "ota.update_inv x y s0 w" "xip pl w' = xip pl w"
  shows "ota.update_inv x y s0 w'"
proof -
  note same = same_flash [OF assms(2)]
  have "ota_good c pl w'" using assms by (simp add: ota.update_inv_def ota_good_def)
  then show ?thesis
    using assms(1) ota.frame_case [OF ota.same_frame [OF same]] unfolding ota.update_inv_def ota.same_stored [OF same] by blast
qed

end

end
