(* ===== verification/Rp_Ota_Upload.thy ===== *)
theory Rp_Ota_Upload
  imports Rp_Ota_Storage Rp_Ota_Run
begin

text \<open>
  What the program's side of an update does to the flash, when it follows the laws of \<open>rp_machine\<close> and is laid out as
  \<open>ota_layout\<close> says: an upload touches the staging slot only, a request that succeeded has staged an image that is
  authentic and whole, and a confirmation keeps what is running.
\<close>

text \<open>A hash is under way.\<close>

definition hashing :: "sha256_context \<Rightarrow> bool" where
  "hashing ctx \<longleftrightarrow> (\<exists>msg. ctx_holds ctx msg)"

section \<open>Operations in a partition\<close>

lemma range_valid_iff: "range_valid part offset len \<longleftrightarrow> 0 < part_size part \<and> offset + len \<le> part_size part"
  by (auto simp: range_valid_def)

context rp_machine
begin

lemma storage_erase:
  assumes place: "4096 dvd flash_offset part + offset" "4096 dvd len" "0 < len"
    and fits: "offset + len \<le> part_size part" "flash_offset part + part_size part \<le> length (xip pl w)"
    and run: "jh_rp_flash_storage_erase pl w part offset len = (w', st)"
  shows "later (xip pl) powered w w' \<and>
    (\<exists>new. length new = len \<and> xip pl w' = blit (xip pl w) (flash_offset part + offset) new \<and>
       (new = subarr (flash_offset part + offset) len (xip pl w) \<or> hd new = 0xFF) \<and>
       (powered w' \<and> st = HAL_OK \<longrightarrow> new = replicate len 0xFF))"
proof -
  have "range_valid part offset len" using place(3) fits(1) by (simp add: range_valid_iff)
  then have ex: "rp_execute pl w ActErase (flash_offset part + offset) [] len = (w', st)"
    using run place by (simp add: jh_rp_flash_storage_erase_def Let_def FLASH_SECTOR_SIZE_def dvd_eq_mod_eq_0)
  have p: "FLASH_SECTOR_SIZE dvd flash_offset part + offset" "FLASH_SECTOR_SIZE dvd len"
    "flash_offset part + offset + len \<le> length (xip pl w)"
    using place fits by (simp_all add: FLASH_SECTOR_SIZE_def)
  from erase_effect [OF p(1,2) place(3) p(3) ex] show ?thesis by (auto simp: erased_partly_def)
qed

lemma program_run:
  assumes place: "256 dvd at" "256 dvd length data" "at + length data \<le> length (xip pl w)"
    and run: "rp_execute pl w ActProgram at data (length data) = (w', st)"
  shows "later (xip pl) powered w w' \<and> st \<noteq> HAL_NONE \<and>
    (\<exists>new. length new = length data \<and> xip pl w' = blit (xip pl w) at new \<and>
       (new = subarr at (length data) (xip pl w) \<and> st \<noteq> HAL_OK \<or>
        (\<exists>k \<le> length data. new = map2 (AND) (subarr at k (xip pl w)) (take k data) @ drop k (subarr at (length data) (xip pl w)) \<and>
           (powered w' \<longrightarrow> k = length data))))"
proof -
  let ?old = "subarr at (length data) (xip pl w)"
  let ?part = "\<lambda>k. map2 (AND) (subarr at k (xip pl w)) (take k data) @ drop k ?old"
  let ?op = "run_flash_operation pl \<lparr>fo_action = ActProgram, fo_offset = at, fo_data = data, fo_size = length data,
      fo_publish_size = 0, fo_erased = False\<rparr>"
  have len: "length (?part k) = length data" if "k \<le> length data" for k using that place(3) by simp
  have op: "later (xip pl) powered w1 w2 \<and> st' = HAL_OK \<and>
      (\<exists>k \<le> length data. (powered w2 \<longrightarrow> k = length data) \<and> xip pl w2 = blit (xip pl w) at (?part k))"
    if k1: "kept (xip pl) powered w w1" and r: "?op w1 = (w2, st')" for w1 w2 st'
  proof -
    have w2: "w2 = flash_range_program pl w1 at data" "st' = HAL_OK" using r by (simp_all add: run_flash_operation_def Let_def)
    have x1: "xip pl w1 = xip pl w" using k1 by (simp add: kept_def)
    have "FLASH_PAGE_SIZE dvd at" "FLASH_PAGE_SIZE dvd length data" "at + length data \<le> length (xip pl w1)"
      using place x1 by (simp_all add: FLASH_PAGE_SIZE_def)
    from program_law [OF this w2(1)] obtain k where k: "later (xip pl) powered w1 w2" "k \<le> length data"
      "powered w2 \<longrightarrow> k = length data" "xip pl w2 = blit (xip pl w) at (map2 (AND) (subarr at k (xip pl w)) (take k data))"
      unfolding x1 by blast
    have "blit (xip pl w) at (map2 (AND) (subarr at k (xip pl w)) (take k data)) = blit (xip pl w) at (?part k)"
      using k(2) place(3) by (intro nth_equalityI) (auto simp: nth_blit nth_append nth_subarr)
    then show ?thesis using k w2(2) by auto
  qed
  consider (none) "kept (xip pl) powered w w'" "st \<notin> {HAL_OK, HAL_NONE}"
    | (ran) w1 w2 st' where "kept (xip pl) powered w w1" "?op w1 = (w2, st')" "kept (xip pl) powered w2 w'"
        "st = st' \<or> st \<notin> {HAL_OK, HAL_NONE}"
    using transaction [OF run [unfolded rp_execute_def rp_transaction_def]] by blast
  then show ?thesis
  proof cases
    case none
    then have "xip pl w' = blit (xip pl w) at ?old" using blit_same [OF place(3)] by (simp add: kept_def)
    then show ?thesis using none kept_later [OF none(1)] place(3) by (intro conjI exI [of _ ?old]) simp_all
  next
    case ran
    obtain k where k: "later (xip pl) powered w1 w2" "st' = HAL_OK" "k \<le> length data" "powered w2 \<longrightarrow> k = length data"
      "xip pl w2 = blit (xip pl w) at (?part k)" using op [OF ran(1,2)] by blast
    have "later (xip pl) powered w w'" using later_trans [OF later_trans [OF kept_later [OF ran(1)] k(1)] kept_later [OF ran(3)]] .
    moreover have "xip pl w' = blit (xip pl w) at (?part k)" "powered w' \<longrightarrow> k = length data"
      using ran(3) k(4,5) by (simp_all add: kept_def)
    moreover have "st \<noteq> HAL_NONE" using ran(4) k(2) by auto
    ultimately show ?thesis using k(3) len [OF k(3)] by blast
  qed
qed

lemma storage_program:
  assumes place: "256 dvd flash_offset part + offset" "256 dvd length data" "data \<noteq> []"
    and fits: "offset + length data \<le> part_size part" "flash_offset part + part_size part \<le> length (xip pl w)"
    and run: "jh_rp_flash_storage_program pl w part offset data = (w', st)"
  shows "later (xip pl) powered w w'"
    "\<exists>new. length new = length data \<and> xip pl w' = blit (xip pl w) (flash_offset part + offset) new \<and>
       (new = subarr (flash_offset part + offset) (length data) (xip pl w) \<or>
        (\<exists>k \<le> length data. new = map2 (AND) (subarr (flash_offset part + offset) k (xip pl w)) (take k data) @
             drop k (subarr (flash_offset part + offset) (length data) (xip pl w)) \<and> (powered w' \<longrightarrow> k = length data))) \<and>
       (st = HAL_OK \<longrightarrow> new = data)"
proof -
  let ?at = "flash_offset part + offset"
  have "range_valid part offset (length data)" using place(3) fits(1) by (cases data) (simp_all add: range_valid_iff)
  then have ver: "verified pl ?at data (rp_execute pl w ActProgram ?at data (length data)) = (w', st)"
    using run place by (simp add: jh_rp_flash_storage_program_def Let_def FLASH_PAGE_SIZE_def dvd_eq_mod_eq_0)
  obtain st1 where ex: "rp_execute pl w ActProgram ?at data (length data) = (w', st1)"
    and st: "st = HAL_OK \<Longrightarrow> stored_matches pl w' ?at data"
    using ver by (auto simp: verified_def split: prod.splits if_splits)
  have p: "?at + length data \<le> length (xip pl w)" using fits by simp
  from program_run [OF place(1,2) p ex] obtain new where new: "later (xip pl) powered w w'" "length new = length data"
    "xip pl w' = blit (xip pl w) ?at new"
    "new = subarr ?at (length data) (xip pl w) \<or>
        (\<exists>k \<le> length data. new = map2 (AND) (subarr ?at k (xip pl w)) (take k data) @ drop k (subarr ?at (length data) (xip pl w)) \<and>
           (powered w' \<longrightarrow> k = length data))" by blast
  show "later (xip pl) powered w w'" by (rule new(1))
  have "new = data" if "st = HAL_OK"
    using st [OF that] new(2,3) p by (simp add: stored_matches_def)
  then show "\<exists>new. length new = length data \<and> xip pl w' = blit (xip pl w) ?at new \<and>
       (new = subarr ?at (length data) (xip pl w) \<or>
        (\<exists>k \<le> length data. new = map2 (AND) (subarr ?at k (xip pl w)) (take k data) @
             drop k (subarr ?at (length data) (xip pl w)) \<and> (powered w' \<longrightarrow> k = length data))) \<and>
       (st = HAL_OK \<longrightarrow> new = data)"
    using new by (intro exI [of _ new]) simp
qed

end

context rp_ota
begin

section \<open>The records, seen from the program\<close>

lemma partitions:
  "jh_rp_flash_storage_partition c JH_RP_FLASH_PARTITION_OTA_PROGRAM =
     (Some \<lparr>flash_offset = HAL_RP_OTA_PROGRAM_OFFSET c, part_size = HAL_RP_OTA_SLOT_SIZE c\<rparr>, HAL_OK)"
  "jh_rp_flash_storage_partition c JH_RP_FLASH_PARTITION_OTA_STAGING =
     (Some \<lparr>flash_offset = HAL_RP_OTA_STAGING_OFFSET c, part_size = HAL_RP_OTA_SLOT_SIZE c\<rparr>, HAL_OK)"
  "jh_rp_flash_storage_partition c JH_RP_FLASH_PARTITION_OTA_PHASE =
     (Some \<lparr>flash_offset = HAL_RP_OTA_PHASE_OFFSET c, part_size = 4096\<rparr>, HAL_OK)"
  "state_partition c i = (Some \<lparr>flash_offset = record_offset (if i = 0 then 0 else 1), part_size = 4096\<rparr>, HAL_OK)"
  using slot_size(1,2)
  by (simp_all add: jh_rp_flash_storage_partition_def state_partition_def Let_def record_offset_def FLASH_SECTOR_SIZE_def
      JH_RP_FLASH_PARTITION_EEPROM_def JH_RP_FLASH_PARTITION_LITTLEFS_def JH_RP_FLASH_PARTITION_OTA_PROGRAM_def
      JH_RP_FLASH_PARTITION_OTA_STAGING_def JH_RP_FLASH_PARTITION_OTA_PHASE_def JH_RP_FLASH_PARTITION_OTA_SCRATCH_def
      JH_RP_FLASH_PARTITION_OTA_STATE_A_def JH_RP_FLASH_PARTITION_OTA_STATE_B_def)

lemma read_record:
  assumes "ota_good c pl w"
  shows "read_state_record c pl w i = (rp_state_bytes c pl w (if i = 0 then 0 else 1), HAL_OK)"
proof -
  let ?k = "if i = 0 then 0 else 1 :: nat"
  have "length (subarr (record_offset ?k) 256 (xip pl w)) = 256" using record_place(2) [OF assms, of ?k] by simp
  then show ?thesis
    by (simp add: read_state_record_def Let_def partitions jh_rp_flash_storage_read_def range_valid_iff state_bytes
        JH_OTA_STATE_RECORD_SIZE_def blit_def)
qed

lemma select_result:
  "jh_ota_boot_state_select x y =
    (fst (jh_ota_boot_state_select x y), if fst (jh_ota_boot_state_select x y) = None then HAL_ENOENT else HAL_OK)"
  by (cases "fst (jh_ota_boot_state_decode x)"; cases "fst (jh_ota_boot_state_decode y)")
    (simp_all add: jh_ota_boot_state_select_def)

lemma load_state_eq:
  assumes "ota_good c pl w"
  shows "load_state c pl w = (rp_read_state c pl w, if rp_read_state c pl w = None then HAL_ENOENT else HAL_OK)"
proof -
  have "load_state c pl w = jh_ota_boot_state_select (rp_state_bytes c pl w 0) (rp_state_bytes c pl w 1)"
    using read_record [OF assms] by (simp add: load_state_def)
  then show ?thesis using select_result [of "rp_state_bytes c pl w 0" "rp_state_bytes c pl w 1"] by (simp only: rp_read_state_def)
qed

lemma write_state_written:
  assumes good: "ota_good c pl w" and wf: "boot_state_wf st" and ix: "ix = 0 \<or> ix = 1"
    and run: "write_state c pl w st ix = (w', status)"
  obtains new where "length new = 4096" "xip pl w' = blit (xip pl w) (record_offset (other ix)) new"
    "later (xip pl) powered w w'" "status = HAL_OK \<longrightarrow> take 256 new = state_record st"
    "take 256 new = rp_state_bytes c pl w (other ix) \<or> take 256 new ! 0 = 0xFF \<or>
       (\<exists>k \<le> 256. take 256 new = take k (state_record st) @ replicate (256 - k) 0xFF \<and> (powered w' \<longrightarrow> k = 256))"
proof -
  let ?at = "record_offset (other ix)" and ?data = "state_record st"
  let ?part = "\<lparr>flash_offset = ?at, part_size = 4096\<rparr>"
  have "(if ix XOR 1 = 0 then 0 else 1) = other ix" using ix by auto
  then have part: "state_partition c (ix XOR 1) = (Some ?part, HAL_OK)" using partitions(4) [of "ix XOR 1"] by simp
  obtain w1 st1 where 1: "jh_rp_flash_storage_erase pl w ?part 0 4096 = (w1, st1)" by fastforce
  have place: "4096 dvd ?at" "?at + 4096 \<le> length (xip pl w)" using record_place [OF good] by auto
  have p: "4096 dvd flash_offset ?part + 0" "flash_offset ?part + part_size ?part \<le> length (xip pl w)" using place by simp_all
  from storage_erase [OF p(1) dvd_refl _ _ p(2) 1] obtain new1 where er: "later (xip pl) powered w w1" "length new1 = 4096"
    "xip pl w1 = blit (xip pl w) ?at new1" "new1 = subarr ?at 4096 (xip pl w) \<or> hd new1 = 0xFF"
    "powered w1 \<and> st1 = HAL_OK \<longrightarrow> new1 = replicate 4096 0xFF" by auto
  have dl: "length ?data = 256" using wf by simp
  have front: "take 256 new = rp_state_bytes c pl w (other ix) \<or> take 256 new ! 0 = 0xFF"
    if "new = subarr ?at 4096 (xip pl w) \<or> hd new = 0xFF" "length new = 4096" for new
  proof -
    have "new \<noteq> []" using that(2) by auto
    then have "take 256 new ! 0 = hd new" by (simp add: hd_conv_nth)
    then show ?thesis using that(1) by (auto simp: state_bytes subarr_def)
  qed
  show thesis
  proof (cases "st1 = HAL_OK")
    case False
    then have w': "w' = w1" "status = st1" using run encode_state [OF wf] part 1 by (simp_all add: write_state_def FLASH_SECTOR_SIZE_def)
    show thesis
      by (rule that [OF er(2), folded w'(1), OF er(3) [folded w'(1)] er(1) [folded w'(1)]])
        (use False w'(2) front [OF er(4,2)] in auto)
  next
    case True
    then have 2: "jh_rp_flash_storage_program pl w1 ?part 0 ?data = (w', status)"
      using run encode_state [OF wf] part 1 by (simp add: write_state_def FLASH_SECTOR_SIZE_def)
    have len1: "length (xip pl w1) = length (xip pl w)" using er(2,3) place by simp
    have q: "256 dvd flash_offset ?part + 0" "256 dvd length ?data" "?data \<noteq> []" "0 + length ?data \<le> part_size ?part"
      "flash_offset ?part + part_size ?part \<le> length (xip pl w1)"
      using place len1 dl by (auto intro: dvd_trans [of 256 4096])
    note pr = storage_program [OF q 2]
    from pr(2) obtain new2 where pg: "length new2 = 256" "xip pl w' = blit (xip pl w1) ?at new2"
      "new2 = subarr ?at 256 (xip pl w1) \<or>
        (\<exists>k \<le> 256. new2 = map2 (AND) (subarr ?at k (xip pl w1)) (take k ?data) @ drop k (subarr ?at 256 (xip pl w1)) \<and>
           (powered w' \<longrightarrow> k = 256))" "status = HAL_OK \<longrightarrow> new2 = ?data"
      unfolding dl by auto
    let ?new = "new2 @ drop 256 new1"
    have lat: "later (xip pl) powered w w'" by (rule later_trans [OF er(1) pr(1)])
    have x: "xip pl w' = blit (xip pl w) ?at ?new" "length ?new = 4096"
      using pg(1,2) er(2,3) blit_over [of ?at new1 "xip pl w" new2] place by simp_all
    have new1: "take 256 new1 = subarr ?at 256 (xip pl w1)" using er(2,3) place by (simp add: subarr_def blit_def)
    have raw: "take 256 ?new = new2" using pg(1) by simp
    have off: "xip pl w' = xip pl w1" if "\<not> powered w1" using pr(1) that by (simp add: later_def)
    have same: "take 256 ?new = take 256 new1" if "xip pl w' = xip pl w1"
    proof -
      have "?at + length new2 \<le> length (xip pl w1)" using pg(1) place(2) len1 by linarith
      then have "subarr ?at (length new2) (blit (xip pl w1) ?at new2) = new2" by (rule subarr_blit_same) (rule refl)
      then have "subarr ?at 256 (xip pl w') = new2" unfolding pg(1,2) .
      then show ?thesis unfolding raw that new1 by (rule sym)
    qed
    show thesis
    proof (rule that [OF x(2,1) lat])
      show "status = HAL_OK \<longrightarrow> take 256 ?new = ?data" unfolding raw by (rule pg(4))
      show "take 256 ?new = rp_state_bytes c pl w (other ix) \<or> take 256 ?new ! 0 = 0xFF \<or>
          (\<exists>k \<le> 256. take 256 ?new = take k ?data @ replicate (256 - k) 0xFF \<and> (powered w' \<longrightarrow> k = 256))"
      proof (cases "powered w1")
        case False
        then show ?thesis using front [OF er(4,2)] unfolding same [OF off [OF False]] by blast
      next
        case on: True
        then have ff: "new1 = replicate 4096 0xFF" using er(5) True by simp
        have sub: "subarr ?at k (xip pl w1) = replicate k 0xFF" if "k \<le> 256" for k
          using that er(3) place unfolding ff by (simp add: subarr_def blit_def)
        from pg(3) show ?thesis
        proof
          assume "new2 = subarr ?at 256 (xip pl w1)"
          then have "take 256 ?new ! 0 = 0xFF" unfolding raw by (simp add: sub)
          then show ?thesis by blast
        next
          assume "\<exists>k \<le> 256. new2 = map2 (AND) (subarr ?at k (xip pl w1)) (take k ?data) @ drop k (subarr ?at 256 (xip pl w1)) \<and>
              (powered w' \<longrightarrow> k = 256)"
          then obtain k where k: "k \<le> 256" "powered w' \<longrightarrow> k = 256"
            "new2 = map2 (AND) (subarr ?at k (xip pl w1)) (take k ?data) @ drop k (subarr ?at 256 (xip pl w1))" by blast
          then have "new2 = take k ?data @ replicate (256 - k) 0xFF"
            using sub ones_and [of "take k ?data" k] dl by simp
          then have "take 256 ?new = take k ?data @ replicate (256 - k) 0xFF" unfolding raw .
          then show ?thesis using k(1,2) by blast
        qed
      qed
    qed
  qed
qed

section \<open>The hash of a partition\<close>

lemma digest_loop_ok:
  assumes "ctx_holds ctx (subarr (flash_offset part) offset (xip pl w))" "s_initialized ctx" "offset \<le> len" "len \<le> part_size part"
    and fits: "flash_offset part + part_size part \<le> length (xip pl w)"
  shows "\<exists>ctx'. digest_loop pl w part len offset (Some ctx) = (Some ctx', HAL_OK) \<and> s_initialized ctx' \<and>
    ctx_holds ctx' (subarr (flash_offset part) len (xip pl w))"
  using assms(1-4)
proof (induction "len - offset" arbitrary: ctx offset rule: less_induct)
  case less
  show ?case
  proof (cases "offset < len")
    case False
    then have "digest_loop pl w part len offset (Some ctx) = (Some ctx, HAL_OK)" by (subst digest_loop.simps) simp
    moreover have "offset = len" using False less.prems(3) by simp
    ultimately show ?thesis using less.prems(1,2) by blast
  next
    case True
    define chunk where "chunk = (if len - offset < 1024 then len - offset else 1024)"
    have chunk: "0 < chunk" "offset + chunk \<le> len" using True by (auto simp: chunk_def)
    let ?data = "subarr (flash_offset part + offset) chunk (xip pl w)"
    let ?ctx = "jh_sha256_update ctx ?data"
    have rv: "range_valid part offset chunk" using chunk less.prems(4) by (simp add: range_valid_iff)
    have "length ?data = chunk" using chunk less.prems(4) fits by simp
    then have "take chunk (blit (replicate 1024 0) 0 ?data) = ?data" by (simp add: blit_def)
    then have step: "digest_loop pl w part len offset (Some ctx) = digest_loop pl w part len (offset + chunk) (Some ?ctx)"
      using True rv chunk(1) less.prems(2)
      by (subst digest_loop.simps) (simp add: Let_def jh_rp_flash_storage_read_def hal_sha256_update_ex_def flip: chunk_def)
    have "ctx_holds ?ctx (subarr (flash_offset part) (offset + chunk) (xip pl w))"
      using update_holds [OF less.prems(1), of ?data] by (simp add: subarr_append)
    then show ?thesis using step less.hyps [of "offset + chunk" ?ctx] less.prems(2,4) chunk by simp
  qed
qed

lemma digest_ok:
  assumes "len \<noteq> 0" "unat len \<le> part_size part" "flash_offset part + part_size part \<le> length (xip pl w)"
  shows "digest_partition pl w part len = Some (Some (sha256 (subarr (flash_offset part) (unat len) (xip pl w))), HAL_OK)"
proof -
  let ?ctx = "jh_sha256_init stack_context"
  have "ctx_holds ?ctx (subarr (flash_offset part) 0 (xip pl w))" "s_initialized ?ctx"
    using ctx_holds_init [of stack_context] by (simp_all add: stack_context_def jh_sha256_init_def)
  from digest_loop_ok [OF this le0 assms(2,3)] obtain ctx where ctx: "digest_loop pl w part (unat len) 0 (Some ?ctx) = (Some ctx, HAL_OK)"
    "s_initialized ctx" "ctx_holds ctx (subarr (flash_offset part) (unat len) (xip pl w))" by blast
  obtain ctx' where "jh_sha256_final ctx = Some (ctx', sha256 (subarr (flash_offset part) (unat len) (xip pl w)))"
    using final_digest [OF ctx(3)] by blast
  then show ?thesis
    using assms(1,2) ctx by (simp add: digest_partition_def hal_sha256_init_ex_def hal_sha256_final_ex_def)
qed

section \<open>An upload touches the staging slot only\<close>

definition upload_frame :: "'w \<Rightarrow> 'w \<Rightarrow> bool" where
  "upload_frame w w' \<longleftrightarrow> later (xip pl) powered w w' \<and> (ota_good c pl w \<longrightarrow> ota_good c pl w' \<and>
     rp_read_state c pl w' = rp_read_state c pl w \<and> ota_whole c pl w' = ota_whole c pl w \<and>
     slot_bytes c pl w' JH_OTA_SWAP_SLOT_PROGRAM = slot_bytes c pl w JH_OTA_SWAP_SLOT_PROGRAM)"

lemma upload_frame_refl [simp]: "upload_frame w w"
  by (simp add: upload_frame_def)

lemma upload_frame_trans [trans]: "upload_frame w w1 \<Longrightarrow> upload_frame w1 w2 \<Longrightarrow> upload_frame w w2"
  unfolding upload_frame_def using later_trans [of "xip pl" powered w w1 w2] by auto

abbreviation staging_part :: rp_partition where
  "staging_part \<equiv> \<lparr>flash_offset = HAL_RP_OTA_STAGING_OFFSET c, part_size = HAL_RP_OTA_SLOT_SIZE c\<rparr>"

lemma staging_fits: "ota_good c pl w \<Longrightarrow> flash_offset staging_part + part_size staging_part \<le> length (xip pl w)"
  using regions_fit(2) [of JH_OTA_SWAP_SLOT_STAGING] by (simp add: slot_region_def ota_good_def)

lemma staging_write:
  assumes "later (xip pl) powered w w'" "xip pl w' = blit (xip pl w) (flash_offset staging_part + y) new"
    and "y + length new \<le> part_size staging_part" "ota_good c pl w"
  shows "upload_frame w w'"
proof -
  have len: "length (xip pl w) = PICO_FLASH_SIZE_BYTES c" using assms(4) by (simp add: ota_good_def)
  have fits: "flash_offset staging_part + y + length new \<le> length (xip pl w)" using staging_fits [OF assms(4)] assms(3) by simp
  have sub: "subarr z k (xip pl w') = subarr z k (xip pl w)"
    if "z + k \<le> PICO_FLASH_SIZE_BYTES c" "apart (HAL_RP_OTA_STAGING_OFFSET c) (HAL_RP_OTA_SLOT_SIZE c) z k" for z k
  proof (rule untouched [OF assms(2) fits])
    show "z + k \<le> length (xip pl w)" using that(1) len by simp
    show "apart (flash_offset staging_part + y) (length new) z k"
      using assms(3) by (auto intro: apart_parts [OF that(2)])
  qed
  have st: "rp_state_bytes c pl w' 0 = rp_state_bytes c pl w 0" "rp_state_bytes c pl w' 1 = rp_state_bytes c pl w 1"
    unfolding state_bytes_offset using regions_fit(6,8) regions_apart(3,4) [of JH_OTA_SWAP_SLOT_STAGING]
    by (intro sub; auto simp: apart_def slot_region_def)+
  have "slot_bytes c pl w' JH_OTA_SWAP_SLOT_PROGRAM = slot_bytes c pl w JH_OTA_SWAP_SLOT_PROGRAM"
    unfolding slot_bytes_def
    using regions_fit(2) [of JH_OTA_SWAP_SLOT_PROGRAM] regions_apart(1) [of JH_OTA_SWAP_SLOT_STAGING JH_OTA_SWAP_SLOT_PROGRAM]
    by (intro sub) (simp_all add: slot_offset_def slot_region_def)
  moreover have "ota_good c pl w'" using assms(2,4) fits by (simp add: ota_good_def)
  ultimately show ?thesis using assms(1) same_states [OF st] by (simp add: upload_frame_def)
qed

lemma staging_erase:
  assumes run: "jh_rp_flash_storage_erase pl w staging_part y len = (w', st)" and good: "ota_good c pl w"
  shows "upload_frame w w'"
proof (cases "range_valid staging_part y len \<and> 4096 dvd flash_offset staging_part + y \<and> 4096 dvd len \<and> 0 < len")
  case False
  then have "w' = w" using run by (auto simp: jh_rp_flash_storage_erase_def Let_def FLASH_SECTOR_SIZE_def dvd_eq_mod_eq_0 split: if_splits)
  then show ?thesis by simp
next
  case True
  then have p: "4096 dvd flash_offset staging_part + y" "4096 dvd len" "0 < len" "y + len \<le> part_size staging_part"
    unfolding range_valid_iff by simp_all
  from storage_erase [OF p staging_fits [OF good] run] obtain new where x: "later (xip pl) powered w w'" "length new = len"
    "xip pl w' = blit (xip pl w) (flash_offset staging_part + y) new" by blast
  show ?thesis by (rule staging_write [OF x(1,3) _ good]) (use p(4) x(2) in simp)
qed

lemma staging_program:
  assumes run: "jh_rp_flash_storage_program pl w staging_part y data = (w', st)" and good: "ota_good c pl w"
  shows "upload_frame w w'"
proof (cases "range_valid staging_part y (length data) \<and> 256 dvd flash_offset staging_part + y \<and> 256 dvd length data \<and> data \<noteq> []")
  case False
  then have "w' = w" using run by (auto simp: jh_rp_flash_storage_program_def Let_def FLASH_PAGE_SIZE_def dvd_eq_mod_eq_0 split: if_splits)
  then show ?thesis by simp
next
  case True
  then have p: "256 dvd flash_offset staging_part + y" "256 dvd length data" "data \<noteq> []" "y + length data \<le> part_size staging_part"
    unfolding range_valid_iff by simp_all
  note pr = storage_program [OF p staging_fits [OF good] run]
  from pr(2) obtain new where x: "length new = length data" "xip pl w' = blit (xip pl w) (flash_offset staging_part + y) new" by blast
  show ?thesis by (rule staging_write [OF pr(1) x(2) _ good]) (use p(4) x(1) in simp)
qed

text \<open>What a writer keeps while it is fed: its manifest, its key and its partition, and a hash that is under way.\<close>

definition kept_writer :: "ota_writer \<Rightarrow> ota_writer \<Rightarrow> bool" where
  "kept_writer s s' \<longleftrightarrow> ow_active s' = ow_active s \<and> staging_ready s' = staging_ready s \<and>
     container_size s' = container_size s \<and> container_received s' = container_received s \<and>
     ow_header s' = ow_header s \<and> header_used s' = header_used s \<and> ow_manifest s' = ow_manifest s \<and>
     ow_staging s' = ow_staging s \<and> authentication_key s' = authentication_key s \<and>
     (hashing (ow_sha256 s) \<longrightarrow> hashing (ow_sha256 s')) \<and> authentication_key_size s' = authentication_key_size s"

lemma kept_writer_refl [simp]: "kept_writer s s"
  by (simp add: kept_writer_def)

lemma kept_writer_trans: "kept_writer s s1 \<Longrightarrow> kept_writer s1 s2 \<Longrightarrow> kept_writer s s2"
  by (simp add: kept_writer_def)

lemma flush_frame:
  assumes run: "flush_page pl s w = (s', w', st)" and part: "ow_staging s = staging_part" and good: "ota_good c pl w"
  shows "upload_frame w w'" "kept_writer s s'" "page_used s' = (if st = HAL_OK then 0 else page_used s)"
    "ow_sha256 s' = ow_sha256 s" "payload_received s' = payload_received s"
proof -
  let ?offset = "unat (payload_received s - of_nat (page_used s))"
  let ?y = "?offset - ?offset mod FLASH_PAGE_SIZE"
  obtain w1 st1 where 1: "(if ?y mod FLASH_SECTOR_SIZE = 0
      then jh_rp_flash_storage_erase pl w staging_part ?y FLASH_SECTOR_SIZE else (w, HAL_OK)) = (w1, st1)" by fastforce
  obtain w2 st2 where 2: "(if st1 = HAL_OK then jh_rp_flash_storage_program pl w1 staging_part ?y (ow_page s) else (w1, st1)) = (w2, st2)"
    by fastforce
  have f1: "upload_frame w w1" using 1 staging_erase [OF _ good] by (auto split: if_splits)
  then have "ota_good c pl w1" using good by (simp add: upload_frame_def)
  then have f2: "upload_frame w1 w2" using 2 staging_program by (auto split: if_splits)
  have eq: "page_used s = 0 \<and> s' = s \<and> w' = w \<and> st = HAL_OK \<or> page_used s \<noteq> 0 \<and> w' = w2 \<and> st = st2 \<and>
      s' = (if st2 = HAL_OK then s\<lparr>page_used := 0, ow_page := replicate FLASH_PAGE_SIZE 0xFF\<rparr> else s)"
    using run part 1 2 by (auto simp: flush_page_def Let_def split: if_splits)
  then show "upload_frame w w'" using upload_frame_trans [OF f1 f2] by auto
  show "kept_writer s s'" using eq by (cases "st2 = HAL_OK") (auto simp: kept_writer_def)
  show "page_used s' = (if st = HAL_OK then 0 else page_used s)" "ow_sha256 s' = ow_sha256 s" "payload_received s' = payload_received s"
    using eq by (auto split: if_splits)
qed

lemma fill_kept:
  assumes "fill_page s data chunk = (s', st)"
  shows "kept_writer s s'" "st = HAL_OK \<Longrightarrow> page_used s' = page_used s + chunk"
proof -
  let ?upd = "hal_sha256_update_ex (Some (ow_sha256 s)) (Some data) chunk"
  have h: "hashing (the (fst ?upd))" if "hashing (ow_sha256 s)"
    using that update_holds by (fastforce simp: hashing_def hal_sha256_update_ex_def)
  show "kept_writer s s'" "st = HAL_OK \<Longrightarrow> page_used s' = page_used s + chunk"
    using assms h by (auto simp: fill_page_def kept_writer_def Let_def split: prod.splits if_splits)
qed

text \<open>The loop ends: a piece of the data is consumed, or the page that could not be flushed before is flushed.\<close>

lemma consume_frame:
  assumes "page_used s \<le> 256" "ow_staging s = staging_part" "ota_good c pl w"
  shows "\<exists>s' w' st. consume_payload pl s w data = Some (s', w', st) \<and> upload_frame w w' \<and> kept_writer s s' \<and> page_used s' \<le> 256"
  using assms
proof (induction "2 * length data + (if page_used s = 256 then 1 else 0)" arbitrary: s w data rule: less_induct)
  case less
  show ?case
  proof (cases "data = []")
    case True
    then have "consume_payload pl s w data = Some (s, w, HAL_OK)" by (subst consume_payload.simps) simp
    then show ?thesis using less.prems by auto
  next
    case False
    define chunk where "chunk = min (length data) (256 - page_used s)"
    obtain s1 st1 where 1: "fill_page s data chunk = (s1, st1)" by fastforce
    note f1 = fill_kept [OF 1]
    obtain s2 w2 st2 where 2: "(if page_used s1 = 256 then flush_page pl s1 w else (s1, w, HAL_OK)) = (s2, w2, st2)"
      by (metis prod.collapse)
    have unfold: "consume_payload pl s w data =
        (if st1 \<noteq> HAL_OK then Some (s1, w, st1) else if st2 \<noteq> HAL_OK then Some (s2, w2, st2)
         else consume_payload pl s2 w2 (drop chunk data))"
      using False 1 2 by (subst consume_payload.simps) (simp add: FLASH_PAGE_SIZE_def Let_def flip: chunk_def)
    have staging: "ow_staging s1 = staging_part" using f1(1) less.prems(2) by (simp add: kept_writer_def)
    show ?thesis
    proof (cases "st1 = HAL_OK")
      case bad: False
      have "s1 = s1\<lparr>page_used := page_used s\<rparr>" using 1 bad by (auto simp: fill_page_def Let_def split: prod.splits if_splits)
      then have "page_used s1 = page_used s" by (metis ota_writer.select_convs(9) ota_writer.surjective ota_writer.update_convs(9))
      then show ?thesis using bad unfold f1(1) less.prems(1) by auto
    next
      case ok: True
      have used: "page_used s1 = page_used s + chunk" "page_used s1 \<le> 256" using f1(2) ok less.prems(1) by (auto simp: chunk_def)
      have f2: "upload_frame w w2" "kept_writer s1 s2"
        "page_used s2 = (if page_used s1 = 256 \<and> st2 = HAL_OK then 0 else page_used s1)"
        using 2 flush_frame [OF _ staging less.prems(3)] by (auto split: if_splits)
      have k2: "kept_writer s s2" "page_used s2 \<le> 256" using kept_writer_trans [OF f1(1) f2(2)] f2(3) used(2) by simp_all
      show ?thesis
      proof (cases "st2 = HAL_OK")
        case False
        then show ?thesis using ok unfold f2(1) k2 by auto
      next
        case True
        have "2 * length (drop chunk data) + (if page_used s2 = 256 then 1 else 0) < 2 * length data + (if page_used s = 256 then 1 else 0)"
        proof (cases "chunk = 0")
          case full: True
          then have "page_used s = 256" using less.prems(1) False by (auto simp: chunk_def min_def split: if_splits)
          then show ?thesis using full used f2(3) True by simp
        next
          case False
          then have "0 < chunk" "chunk \<le> length data" by (auto simp: chunk_def)
          then have "2 * (length data - chunk) + 1 < 2 * length data" by linarith
          then show ?thesis by simp
        qed
        moreover have "ow_staging s2 = staging_part" "ota_good c pl w2"
          using staging f2(1,2) less.prems(3) by (simp_all add: kept_writer_def upload_frame_def)
        ultimately obtain s' w' st where r: "consume_payload pl s2 w2 (drop chunk data) = Some (s', w', st)" "upload_frame w2 w'"
          "kept_writer s2 s'" "page_used s' \<le> 256" using less.hyps [of "drop chunk data" s2 w2] k2(2) by blast
        have "upload_frame w w'" "kept_writer s s'"
          using upload_frame_trans [OF f2(1) r(2)] kept_writer_trans [OF k2(1) r(3)] by blast+
        then show ?thesis using r ok True unfold by simp
      qed
    qed
  qed
qed

end

end
