(* ===== verification/Rp_Ota_Session.thy ===== *)
theory Rp_Ota_Session
  imports Rp_Ota_Upload
begin

text \<open>
  An upload from its start to the request for the boot image. Whatever is written, and wherever the power is lost, the
  program slot and the boot record stay as they are until the request; a request that succeeds has staged an image
  that is authentic under the key of the upload, is the one its manifest promises, and is meant for this program.
\<close>

section \<open>A writer that is fed\<close>

text \<open>The header was accepted: the manifest is authentic under the key, is meant for this program, and fits.\<close>

definition manifest_accepted :: "rp_config \<Rightarrow> ota_build \<Rightarrow> bytes \<Rightarrow> ota_manifest \<Rightarrow> bool" where
  "manifest_accepted c b key m \<longleftrightarrow> manifest_ok m \<and> om_signature m = hmac key (manifest_front m) \<and>
     om_target m = jh_ota_current_target b \<and> unat (om_program_offset m) = HAL_RP_OTA_PROGRAM_OFFSET c \<and>
     om_payload_size m \<noteq> 0 \<and> unat (om_payload_size m) \<le> HAL_RP_OTA_SLOT_SIZE c"

definition writer_ok :: "rp_config \<Rightarrow> ota_build \<Rightarrow> bytes \<Rightarrow> ota_writer \<Rightarrow> bool" where
  "writer_ok c b key s \<longleftrightarrow> (if staging_ready s then hashing (ow_sha256 s) else length (s_buffer (ow_sha256 s)) = 64) \<and>
     length (ow_header s) = 160 \<and> header_used s \<le> 160 \<and> page_used s \<le> 256 \<and>
     authentication_key_size s \<le> length (authentication_key s) \<and> take (authentication_key_size s) (authentication_key s) = key \<and>
     (staging_ready s \<longrightarrow> header_used s = 160 \<and> manifest_accepted c b key (ow_manifest s) \<and>
        ow_staging s = \<lparr>flash_offset = HAL_RP_OTA_STAGING_OFFSET c, part_size = HAL_RP_OTA_SLOT_SIZE c\<rparr>)"

text \<open>
  A session: it begins with a key, pieces are written, whether they are accepted or not, and in between everything but
  the flash may change, the power too. The program slot holds \<open>a\<close> when it begins.
\<close>

inductive ota_session :: "rp_config \<Rightarrow> ota_build \<Rightarrow> 'w rp_platform \<Rightarrow> bytes \<Rightarrow> bytes \<Rightarrow> ota_writer \<Rightarrow> 'w \<Rightarrow> bool"
  for c :: rp_config and b :: ota_build and pl :: "'w rp_platform" and key a :: bytes where
  begun: "ota_good c pl w \<Longrightarrow> slot_bytes c pl w JH_OTA_SWAP_SLOT_PROGRAM = a \<Longrightarrow>
    jh_rp_ota_storage_begin c pl s w len (Some k) n = (s', HAL_OK) \<Longrightarrow> n \<le> length k \<Longrightarrow> key = take n k \<Longrightarrow>
    ota_session c b pl key a s' w"
| written: "ota_session c b pl key a s w \<Longrightarrow> \<forall>d. data = Some d \<longrightarrow> len \<le> length d \<Longrightarrow>
    jh_rp_ota_storage_write c b pl s w data len out = Some (s', w', written, st) \<Longrightarrow>
    ota_session c b pl key a s' w'"
| waited: "ota_session c b pl key a s w \<Longrightarrow> xip pl w' = xip pl w \<Longrightarrow> ota_session c b pl key a s w'"

inductive_cases ota_sessionE: "ota_session c b pl key a s w"

text \<open>No update is under way.\<close>

definition ota_idle :: "rp_config \<Rightarrow> 'w rp_platform \<Rightarrow> 'w \<Rightarrow> bool" where
  "ota_idle c pl w \<longleftrightarrow> (\<forall>st ix. rp_read_state c pl w = Some (st, ix) \<longrightarrow> bs_mode st = JH_OTA_BOOT_STABLE)"

text \<open>An exchange is asked for: the boot image finds an update staged, and the image is the one of the manifest.\<close>

definition swap_requested :: "rp_config \<Rightarrow> 'w rp_platform \<Rightarrow> bytes \<Rightarrow> bytes \<Rightarrow> ota_manifest \<Rightarrow> boot_state \<Rightarrow> 'w \<Rightarrow> bool" where
  "swap_requested c pl a img m s0 w \<longleftrightarrow> ota_staged c pl a img s0 w \<and>
     starts_with_image img (bs_staging_size s0) (bs_staging_sha256 s0) \<and> bs_staging_size s0 = om_payload_size m \<and>
     bs_staging_sha256 s0 = om_sha256 m \<and> bs_staging_generation s0 = om_generation m"

context rp_ota
begin

lemma session_begins:
  assumes good: "ota_good c pl w" and run: "jh_rp_ota_storage_begin c pl s w len (Some k) kn = (s', HAL_OK)" and kn: "kn \<le> length k"
  shows "writer_ok c b (take kn k) s'" "ota_idle c pl w" "\<not> ow_active s"
proof -
  let ?s = "zero_writer\<lparr>ow_active := True, container_size := len\<rparr>"
  let ?t = "if kn > 0 then ?s\<lparr>authentication_key := blit (authentication_key ?s) 0 (take kn k)\<rparr> else ?s"
  have guards: "\<not> ow_active s" "kn \<le> 33" "ota_idle c pl w" "s' = ?t\<lparr>authentication_key_size := kn\<rparr>"
    using run unfolding jh_rp_ota_storage_begin_def load_state_eq [OF good] Let_def
    by (auto simp: HAL_MD5_HEX_BUF_SIZE_def ota_idle_def split: if_splits option.splits)
  then show "ota_idle c pl w" "\<not> ow_active s" by blast+
  show "writer_ok c b (take kn k) s'"
    unfolding guards(4) using guards(2) kn
    by (cases "kn = 0") (simp_all add: writer_ok_def zero_writer_def stack_context_def JH_OTA_IMAGE_HEADER_SIZE_def HAL_MD5_HEX_BUF_SIZE_def blit_def)
qed

lemma prepare_ok:
  assumes "length (ow_header s) = 160" "authentication_key_size s \<le> length (authentication_key s)" "\<not> staging_ready s"
      "length (s_buffer (ow_sha256 s)) = 64"
  obtains s' st where "prepare_staging c b s = Some (s', st)" "ow_active s' = ow_active s" "container_size s' = container_size s"
    "container_received s' = container_received s"
    "ow_header s' = ow_header s" "header_used s' = header_used s" "page_used s' = page_used s" "payload_received s' = payload_received s"
    "authentication_key s' = authentication_key s" "authentication_key_size s' = authentication_key_size s"
    "if staging_ready s' then hashing (ow_sha256 s') else ow_sha256 s' = ow_sha256 s"
    "staging_ready s' \<longrightarrow> manifest_accepted c b (take (authentication_key_size s) (authentication_key s)) (ow_manifest s') \<and>
       ow_staging s' = staging_part"
proof (cases "fst (jh_ota_image_manifest_decode (ow_header s))")
  case None
  then have "snd (jh_ota_image_manifest_decode (ow_header s)) \<noteq> HAL_OK" using decode_manifest_status by blast
  with None have "prepare_staging c b s = Some (s, snd (jh_ota_image_manifest_decode (ow_header s)))"
    by (simp add: prepare_staging_def case_prod_beta)
  then show thesis by (rule that) (use assms(3) in simp_all)
next
  case (Some m)
  note dec = decode_manifest_ok [OF Some assms(1)]
  let ?n = "authentication_key_size s" and ?key = "authentication_key s"
  have d: "jh_ota_image_manifest_decode (ow_header s) = (Some m, HAL_OK)" using Some dec(2) by (metis prod.collapse)
  let ?bad = "om_target m \<noteq> jh_ota_current_target b \<or> unat (om_program_offset m) \<noteq> HAL_RP_OTA_PROGRAM_OFFSET c \<or>
    om_payload_size m = 0 \<or> unat (om_payload_size m) > HAL_RP_OTA_SLOT_SIZE c \<or>
    container_size s \<noteq> of_nat JH_OTA_IMAGE_HEADER_SIZE + om_payload_size m"
  show thesis
  proof (cases ?bad)
    case True
    then have "prepare_staging c b s = Some (s\<lparr>ow_manifest := m\<rparr>, HAL_ECONFIG)"
      by (simp only: prepare_staging_def d Let_def split_beta fst_conv snd_conv option.case if_True) simp
    then show thesis using that assms(3) by simp
  next
    case fits: False
    let ?v = "if om_signature m = hmac (take ?n ?key) (manifest_front m) then HAL_OK else HAL_EAUTH"
    have ver: "jh_ota_image_manifest_verify m (Some ?key) ?n = Some ?v" by (rule verify_manifest [OF dec(1) assms(2)])
    let ?s = "s\<lparr>ow_manifest := m, ow_staging := staging_part\<rparr>"
    let ?t = "?s\<lparr>ow_sha256 := jh_sha256_init (ow_sha256 s), ow_page := replicate FLASH_PAGE_SIZE 0xFF, staging_ready := True\<rparr>"
    have "prepare_staging c b s = Some (if ?v = HAL_OK then (?t, HAL_OK) else (?s, ?v))"
      using fits ver by (simp add: prepare_staging_def d Let_def partitions hal_sha256_init_ex_def)
    moreover have "hashing (jh_sha256_init (ow_sha256 s))" using ctx_holds_init [OF assms(4)] by (auto simp: hashing_def)
    moreover have "manifest_accepted c b (take ?n ?key) m" if "?v = HAL_OK"
      using fits dec(1) that by (auto simp: manifest_accepted_def split: if_splits)
    ultimately show thesis using that assms(3) by (cases "?v = HAL_OK") simp_all
  qed
qed

text \<open>Writing returns, whatever is written, and keeps what has been accepted.\<close>

lemma payload_ok:
  assumes "writer_ok c b key s" "ota_good c pl w" "staging_ready s"
  obtains s' w' st where "consume_payload pl s w data = Some (s', w', st)" "writer_ok c b key s'" "upload_frame w w'"
proof -
  have "page_used s \<le> 256" "ow_staging s = staging_part" using assms(1,3) by (simp_all add: writer_ok_def)
  then obtain s' w' st where r: "consume_payload pl s w data = Some (s', w', st)" "upload_frame w w'" "kept_writer s s'" "page_used s' \<le> 256"
    using consume_frame [OF _ _ assms(2)] by blast
  then have "writer_ok c b key s'" using assms(1,3) by (simp add: writer_ok_def kept_writer_def)
  then show thesis using that r by blast
qed

lemma header_ok:
  assumes s: "writer_ok c b key s" "header_used s < 160" and chunk: "chunk \<le> 160 - header_used s" "chunk \<le> length input"
    and t: "t = s\<lparr>ow_header := blit (ow_header s) (header_used s) (take chunk input), header_used := header_used s + chunk,
      container_received := container_received s + of_nat chunk\<rparr>"
  shows "writer_ok c b key t" "\<exists>s' st. prepare_staging c b t = Some (s', st) \<and> (header_used t = 160 \<longrightarrow> writer_ok c b key s')"
proof -
  have f: "length (ow_header s) = 160" "page_used s \<le> 256" "authentication_key_size s \<le> length (authentication_key s)"
    "take (authentication_key_size s) (authentication_key s) = key" "\<not> staging_ready s" "length (s_buffer (ow_sha256 s)) = 64"
    using s by (auto simp: writer_ok_def)
  then have len: "length (ow_header t) = 160" "\<not> staging_ready t" "authentication_key_size t \<le> length (authentication_key t)"
    "length (s_buffer (ow_sha256 t)) = 64"
    using s(2) chunk unfolding t by simp_all
  show "writer_ok c b key t" using f len s(2) chunk by (simp add: writer_ok_def t)
  obtain s' st where p: "prepare_staging c b t = Some (s', st)" "ow_active s' = ow_active t" "container_size s' = container_size t"
    "container_received s' = container_received t" "ow_header s' = ow_header t" "header_used s' = header_used t"
    "page_used s' = page_used t" "payload_received s' = payload_received t" "authentication_key s' = authentication_key t" "authentication_key_size s' = authentication_key_size t"
    "if staging_ready s' then hashing (ow_sha256 s') else ow_sha256 s' = ow_sha256 t"
    "staging_ready s' \<longrightarrow> manifest_accepted c b (take (authentication_key_size t) (authentication_key t)) (ow_manifest s') \<and>
       ow_staging s' = staging_part"
    by (rule prepare_ok [OF len(1,3,2,4), where b = b])
  have "writer_ok c b key s'" if "header_used t = 160"
    using f len p(5-7,9-12) that unfolding writer_ok_def by (cases "staging_ready s'") (simp_all add: t)
  then show "\<exists>s' st. prepare_staging c b t = Some (s', st) \<and> (header_used t = 160 \<longrightarrow> writer_ok c b key s')" using p(1) by blast
qed

lemma write_ok:
  assumes s: "writer_ok c b key s" and good: "ota_good c pl w" and data: "\<forall>d. data = Some d \<longrightarrow> len \<le> length d"
  shows "\<exists>s' w' written st. jh_rp_ota_storage_write c b pl s w data len out = Some (s', w', written, st) \<and>
    writer_ok c b key s' \<and> upload_frame w w'"
proof (cases "\<not> ow_active s \<or> data = None \<or> len = 0 \<or> \<not> out \<or> len > unat (container_size s - container_received s)")
  case True
  then have "jh_rp_ota_storage_write c b pl s w data len out = Some (s, w, None, HAL_EINVAL)"
    unfolding jh_rp_ota_storage_write_def by simp
  then show ?thesis using s by simp
next
  case go: False
  let ?input = "take len (the data)"
  let ?head = "if header_used s < JH_OTA_IMAGE_HEADER_SIZE then
       let remaining = JH_OTA_IMAGE_HEADER_SIZE - header_used s; chunk = min len remaining;
           s = s\<lparr>ow_header := blit (ow_header s) (header_used s) (take chunk ?input),
                 header_used := header_used s + chunk, container_received := container_received s + of_nat chunk\<rparr>
       in if header_used s = JH_OTA_IMAGE_HEADER_SIZE
          then do { (s, status) \<leftarrow> prepare_staging c b s; Some (s, drop chunk ?input, status) }
          else Some (s, drop chunk ?input, HAL_OK)
     else Some (s, ?input, HAL_OK)"
  have "\<exists>s1 rest st1. ?head = Some (s1, rest, st1) \<and> writer_ok c b key s1"
  proof (cases "header_used s < 160")
    case False
    then show ?thesis using s by (simp add: JH_OTA_IMAGE_HEADER_SIZE_def)
  next
    case True
    define chunk where "chunk = min len (160 - header_used s)"
    define t where "t = s\<lparr>ow_header := blit (ow_header s) (header_used s) (take chunk ?input), header_used := header_used s + chunk,
      container_received := container_received s + of_nat chunk\<rparr>"
    have "length ?input = len" using go data by auto
    then have chunk: "chunk \<le> 160 - header_used s" "chunk \<le> length ?input" by (simp_all add: chunk_def)
    note h = header_ok [OF s True chunk t_def]
    obtain s' st where p: "prepare_staging c b t = Some (s', st)" "header_used t = 160 \<longrightarrow> writer_ok c b key s'" using h(2) by blast
    have "?head = (if header_used t = 160 then Some (s', drop chunk ?input, st) else Some (t, drop chunk ?input, HAL_OK))"
      using True p(1) unfolding JH_OTA_IMAGE_HEADER_SIZE_def Let_def chunk_def [symmetric] t_def [symmetric] by simp
    then show ?thesis using h(1) p(2) by (cases "header_used t = 160") simp_all
  qed
  then obtain s1 rest st1 where head: "?head = Some (s1, rest, st1)" and s1: "writer_ok c b key s1" by blast
  have run: "jh_rp_ota_storage_write c b pl s w data len out =
      (if st1 \<noteq> HAL_OK then Some (s1, w, None, st1)
       else if rest = [] then Some (s1, w, Some len, HAL_OK)
       else if \<not> staging_ready s1 \<or> payload_received s1 + of_nat (length rest) > om_payload_size (ow_manifest s1)
       then Some (s1, w, None, HAL_EOVERFLOW)
       else do {
         (s, w, status) \<leftarrow> consume_payload pl s1 w rest;
         if status \<noteq> HAL_OK then Some (s, w, None, status)
         else Some (s\<lparr>container_received := container_received s + of_nat (length rest)\<rparr>, w, Some len, HAL_OK)
       })"
    using go head unfolding jh_rp_ota_storage_write_def by (simp only: if_False Let_def) simp
  show ?thesis
  proof (cases "staging_ready s1")
    case False
    then show ?thesis unfolding run using s1 by simp
  next
    case True
    obtain s' w' st where r: "consume_payload pl s1 w rest = Some (s', w', st)" "writer_ok c b key s'" "upload_frame w w'"
      by (rule payload_ok [OF s1 good True])
    then have "writer_ok c b key (s'\<lparr>container_received := container_received s' + of_nat (length rest)\<rparr>)"
      by (simp add: writer_ok_def)
    then show ?thesis unfolding run using r s1 by simp
  qed
qed

lemma ota_session_inv:
  "ota_session c b pl key a s w \<Longrightarrow> writer_ok c b key s \<and> ota_good c pl w \<and> ota_idle c pl w \<and>
     slot_bytes c pl w JH_OTA_SWAP_SLOT_PROGRAM = a"
proof (induction rule: ota_session.induct)
  case (begun w s len k n s')
  then show ?case using session_begins [OF begun(1,3,4)] by simp
next
  case (written s w data len out s' w' written st)
  obtain s2 w2 wr2 st2 where "jh_rp_ota_storage_write c b pl s w data len out = Some (s2, w2, wr2, st2)"
    "writer_ok c b key s2" "upload_frame w w2" using write_ok [OF _ _ written(2)] written.IH by blast
  then have "writer_ok c b key s'" "upload_frame w w'" using written(3) by simp_all
  then show ?case using written.IH by (simp add: upload_frame_def ota_idle_def)
next
  case (waited s w w')
  then show ?case by (simp add: ota_good_def ota_idle_def rp_read_state_def rp_state_bytes_def slot_bytes_def)
qed

section \<open>The request\<close>

lemma slots_kept:
  "\<forall>t. \<forall>j<n. ota_sector c pl w' t j = ota_sector c pl w t j \<Longrightarrow> s \<noteq> JH_OTA_SWAP_SLOT_SCRATCH \<Longrightarrow>
   slot_bytes c pl w' s = slot_bytes c pl w s"
proof -
  assume "\<forall>t. \<forall>j<n. ota_sector c pl w' t j = ota_sector c pl w t j" and s: "s \<noteq> JH_OTA_SWAP_SLOT_SCRATCH"
  then have "map (ota_sector c pl w' s) [0..<n] = map (ota_sector c pl w s) [0..<n]" by simp
  then show ?thesis by (simp only: slot_sectors [OF s, symmetric])
qed

text \<open>What a step of the request leaves alone: the slots.\<close>

definition slots_frame :: "'w \<Rightarrow> 'w \<Rightarrow> bool" where
  "slots_frame w w' \<longleftrightarrow> later (xip pl) powered w w' \<and> ota_good c pl w' \<and>
     (\<forall>t. \<forall>j<n. ota_sector c pl w' t j = ota_sector c pl w t j)"

lemma slots_frame_trans: "slots_frame w w1 \<Longrightarrow> slots_frame w1 w2 \<Longrightarrow> slots_frame w w2"
  using later_trans [of "xip pl" powered w w1 w2] by (simp add: slots_frame_def)

lemma slots_frame_bytes:
  "slots_frame w w' \<Longrightarrow> slot_bytes c pl w' JH_OTA_SWAP_SLOT_PROGRAM = slot_bytes c pl w JH_OTA_SWAP_SLOT_PROGRAM"
  "slots_frame w w' \<Longrightarrow> slot_bytes c pl w' JH_OTA_SWAP_SLOT_STAGING = slot_bytes c pl w JH_OTA_SWAP_SLOT_STAGING"
  by (simp_all add: slots_frame_def slots_kept)

lemma write_frame:
  assumes good: "ota_good c pl w" and wf: "boot_state_wf st" and ix: "ix = 0 \<or> ix = 1"
    and run: "write_state c pl w st ix = (w', status)"
  shows "slots_frame w w'" "ota_phases c pl w' = ota_phases c pl w"
proof -
  obtain new where new: "length new = 4096" "xip pl w' = blit (xip pl w) (record_offset (other ix)) new" "later (xip pl) powered w w'"
    by (rule write_state_written [OF assms])
  note rw = record_write [OF good new(2,1)]
  have "length (xip pl w') = length (xip pl w)" using new(1,2) record_place(2) [OF good] by simp
  then show "slots_frame w w'" using new(3) rw(2) good by (simp add: slots_frame_def ota_good_def)
  show "ota_phases c pl w' = ota_phases c pl w" by (rule rw(1))
qed

text \<open>The first record, on a flash without one.\<close>

lemma record_fresh:
  assumes good: "ota_good c pl w" and none: "rp_read_state c pl w = None" and wf: "boot_state_wf st"
    and run: "write_state c pl w st 1 = (w', status)"
  shows "powered w' \<or> ota_whole c pl w' \<Longrightarrow> rp_read_state c pl w' = None \<or> rp_read_state c pl w' = Some (state_read st, 0)"
    "status = HAL_OK \<Longrightarrow> rp_read_state c pl w' = Some (state_read st, 0)"
proof -
  obtain new where new: "length new = 4096" "xip pl w' = blit (xip pl w) (record_offset (other 1)) new"
    "status = HAL_OK \<longrightarrow> take 256 new = state_record st"
    "take 256 new = rp_state_bytes c pl w (other 1) \<or> take 256 new ! 0 = 0xFF \<or>
       (\<exists>k \<le> 256. take 256 new = take k (state_record st) @ replicate (256 - k) 0xFF \<and> (powered w' \<longrightarrow> k = 256))"
    by (rule write_state_written [OF good wf _ run]) simp_all
  have o: "other 1 = 0" by simp
  let ?raw = "take 256 new"
  have raw: "length ?raw = 256" using new(1) by simp
  note rw = record_write [OF good new(2,1), unfolded o]
  have d: "fst (jh_ota_boot_state_decode (rp_state_bytes c pl w 0)) = None" "fst (jh_ota_boot_state_decode (rp_state_bytes c pl w 1)) = None"
    using none unfolding rp_read_state_def by (auto simp: jh_ota_boot_state_select_def split: option.splits if_splits)
  have b1: "rp_state_bytes c pl w' 1 = rp_state_bytes c pl w 1" by (rule rw(4)) simp
  have read: "rp_read_state c pl w' = map_option (\<lambda>s. (s, 0)) (fst (jh_ota_boot_state_decode ?raw))"
    unfolding rp_read_state_def rw(3) b1 using d(2)
    by (simp add: jh_ota_boot_state_select_def split: option.split)
  have full: "rp_read_state c pl w' = Some (state_read st, 0)" if "?raw = state_record st"
    unfolding read that decode_state_wf [OF wf] by simp
  then show "status = HAL_OK \<Longrightarrow> rp_read_state c pl w' = Some (state_read st, 0)" using new(3) by blast
  show "rp_read_state c pl w' = None \<or> rp_read_state c pl w' = Some (state_read st, 0)" if on: "powered w' \<or> ota_whole c pl w'"
  proof -
    consider "?raw = rp_state_bytes c pl w 0" | "?raw ! 0 = 0xFF"
      | k where "k \<le> 256" "?raw = take k (state_record st) @ replicate (256 - k) 0xFF" "powered w' \<longrightarrow> k = 256"
      using new(4) unfolding o by blast
    then show ?thesis
    proof cases
      case 1
      then show ?thesis unfolding read using d(1) by simp
    next
      case 2
      then show ?thesis using record_cut_short [OF wf raw, of 0] full read by auto
    next
      case (3 k)
      show ?thesis
      proof (cases "powered w'")
        case True
        then show ?thesis using 3 full wf by simp
      next
        case False
        then have "genuine ?raw" using on rw(3) by (auto simp: ota_whole_def)
        then show ?thesis using record_cut_short [OF wf raw 3(1)] 3(2) full read by auto
      qed
    qed
  qed
qed

lemma slots_frame_refl: "ota_good c pl w \<Longrightarrow> slots_frame w w"
  by (simp add: slots_frame_def)

lemma digest_returns:
  assumes "flash_offset part + part_size part \<le> length (xip pl w)"
  shows "\<exists>d st. digest_partition pl w part len = Some (d, st) \<and> (st = HAL_OK \<longrightarrow> (\<exists>x. d = Some x \<and> length x = 32))"
proof (cases "len \<noteq> 0 \<and> unat len \<le> part_size part")
  case True
  then show ?thesis using digest_ok [OF _ _ assms] by simp
next
  case False
  then have "digest_partition pl w part len = Some (None, HAL_EINVAL)" by (auto simp: digest_partition_def)
  then show ?thesis by simp
qed

lemma program_fits: "ota_good c pl w \<Longrightarrow> HAL_RP_OTA_PROGRAM_OFFSET c + HAL_RP_OTA_SLOT_SIZE c \<le> length (xip pl w)"
  using regions_fit(2) [of JH_OTA_SWAP_SLOT_PROGRAM] by (simp add: slot_region_def ota_good_def)

lemma factory_ok:
  assumes good: "ota_good c pl w" and none: "rp_read_state c pl w = None" and b: "ota_build_valid b"
  shows "\<exists>w1 r st. initialise_factory_state c b pl w = Some (w1, r, st) \<and> slots_frame w w1 \<and>
    (powered w1 \<or> ota_whole c pl w1 \<longrightarrow> ota_idle c pl w1) \<and> (st = HAL_OK \<longrightarrow> r \<noteq> None) \<and>
    (\<forall>s1 i1. r = Some (s1, i1) \<longrightarrow> rp_read_state c pl w1 = Some (s1, i1) \<and> bs_mode s1 = JH_OTA_BOOT_STABLE)"
proof -
  let ?start = "flash_binary_start b" and ?stop = "flash_binary_end b"
  let ?program = "\<lparr>flash_offset = HAL_RP_OTA_PROGRAM_OFFSET c, part_size = HAL_RP_OTA_SLOT_SIZE c\<rparr>"
  let ?st = "\<lparr>bs_sequence = 1, bs_mode = JH_OTA_BOOT_STABLE, bs_attempts = 0,
      bs_max_attempts = of_nat (HAL_RP_OTA_MAX_BOOT_ATTEMPTS b), bs_program_size = of_nat (?stop - ?start), bs_staging_size = 0,
      bs_program_generation = 0, bs_staging_generation = 0, bs_program_sha256 = replicate 32 0,
      bs_staging_sha256 = replicate 32 0, bs_program_version = blit (replicate 32 0) 0 ascii_factory,
      bs_staging_version = blit (replicate 32 0) 0 ascii_empty\<rparr>"
  have idle: "ota_idle c pl w" using none by (simp add: ota_idle_def)
  show ?thesis
  proof (cases "?start < XIP_BASE b + flash_offset ?program \<or> ?stop \<le> ?start \<or> ?stop - ?start > part_size ?program")
    case True
    then have "initialise_factory_state c b pl w = Some (w, None, HAL_ECONFIG)"
      unfolding initialise_factory_state_def partitions Let_def by simp
    then show ?thesis using slots_frame_refl [OF good] idle by simp
  next
    case fits: False
    obtain d ds where dig: "digest_partition pl w ?program (bs_program_size ?st) = Some (d, ds)"
      "ds = HAL_OK \<longrightarrow> (\<exists>x. d = Some x \<and> length x = 32)" using digest_returns [of ?program w "bs_program_size ?st"] program_fits [OF good] by auto
    show ?thesis
    proof (cases "ds = HAL_OK")
      case False
      then have "initialise_factory_state c b pl w = Some (w, None, ds)"
        using fits dig(1) unfolding initialise_factory_state_def partitions Let_def by simp
      then show ?thesis using slots_frame_refl [OF good] idle False by simp
    next
      case True
      then obtain x where x: "d = Some x" "length x = 32" using dig(2) by blast
      let ?s1 = "?st\<lparr>bs_program_sha256 := x\<rparr>"
      obtain w1 ws where wr: "write_state c pl w ?s1 1 = (w1, ws)" by fastforce
      have run: "initialise_factory_state c b pl w = Some (w1, if ws = HAL_OK then Some (?s1, 0) else None, ws)"
        using fits dig(1) True x(1) wr unfolding initialise_factory_state_def partitions Let_def by simp
      have max: "(of_nat (HAL_RP_OTA_MAX_BOOT_ATTEMPTS b) :: u8) > 0"
      proof -
        have "HAL_RP_OTA_MAX_BOOT_ATTEMPTS b < 256" "0 < HAL_RP_OTA_MAX_BOOT_ATTEMPTS b" using b by (simp_all add: ota_build_valid_def)
        then have "unat (of_nat (HAL_RP_OTA_MAX_BOOT_ATTEMPTS b) :: u8) \<noteq> 0" by (simp add: unat_of_nat)
        then show ?thesis by (simp add: word_less_nat_alt)
      qed
      have ok: "boot_state_ok ?s1"
        using max x(2) by (simp add: boot_state_ok_def blit_def ascii_factory_def ascii_empty_def)
      have stable: "bs_mode ?s1 = JH_OTA_BOOT_STABLE" by simp
      note fresh = record_fresh [OF good none boot_state_ok_wf [OF ok] wr, unfolded state_read_ok(2) [OF ok]]
      have ix: "(1 :: u8) = 0 \<or> (1 :: u8) = 1" by simp
      note fr = write_frame(1) [OF good boot_state_ok_wf [OF ok] ix wr]
      have "powered w1 \<or> ota_whole c pl w1 \<longrightarrow> ota_idle c pl w1"
        using fresh(1) stable unfolding ota_idle_def by (metis option.distinct(1) option.inject prod.inject)
      moreover have "\<forall>s1 i1. (if ws = HAL_OK then Some (?s1, 0) else None) = Some (s1, i1) \<longrightarrow>
          rp_read_state c pl w1 = Some (s1, i1) \<and> bs_mode s1 = JH_OTA_BOOT_STABLE"
        using fresh(2) stable by simp
      ultimately show ?thesis using run fr by (intro exI conjI) (assumption | simp)+
    qed
  qed
qed

lemma load_or_initialise_ok:
  assumes good: "ota_good c pl w" and idle: "ota_idle c pl w" and b: "ota_build_valid b"
  shows "\<exists>w1 r st. load_or_initialise_state c b pl w = Some (w1, r, st) \<and> slots_frame w w1 \<and>
    (powered w1 \<or> ota_whole c pl w1 \<longrightarrow> ota_idle c pl w1) \<and> (st = HAL_OK \<longrightarrow> r \<noteq> None) \<and>
    (\<forall>s1 i1. r = Some (s1, i1) \<longrightarrow> rp_read_state c pl w1 = Some (s1, i1) \<and> bs_mode s1 = JH_OTA_BOOT_STABLE)"
proof (cases "rp_read_state c pl w")
  case None
  then have "load_or_initialise_state c b pl w = initialise_factory_state c b pl w"
    by (simp add: load_or_initialise_state_def load_state_eq [OF good])
  then show ?thesis using factory_ok [OF good None b] by simp
next
  case (Some r)
  then have "load_or_initialise_state c b pl w = Some (w, Some r, HAL_OK)"
    by (simp add: load_or_initialise_state_def load_state_eq [OF good])
  then show ?thesis using slots_frame_refl [OF good] idle Some by (auto simp: ota_idle_def)
qed

text \<open>The journal is erased before the record is written.\<close>

lemma erase_journal:
  assumes good: "ota_good c pl w"
    and run: "jh_rp_flash_storage_erase pl w \<lparr>flash_offset = HAL_RP_OTA_PHASE_OFFSET c, part_size = 4096\<rparr> 0 4096 = (w', st)"
  shows "slots_frame w w'" "rp_read_state c pl w' = rp_read_state c pl w" "ota_whole c pl w' = ota_whole c pl w"
    "powered w' \<Longrightarrow> st = HAL_OK \<Longrightarrow> \<forall>p \<in> set (ota_phases c pl w'). p = kErased"
proof -
  let ?part = "\<lparr>flash_offset = HAL_RP_OTA_PHASE_OFFSET c, part_size = 4096\<rparr>"
  have len: "length (xip pl w) = PICO_FLASH_SIZE_BYTES c" using good by (simp add: ota_good_def)
  have place: "4096 dvd flash_offset ?part + 0" "(4096 :: nat) dvd 4096" "(0 :: nat) < 4096" "0 + 4096 \<le> part_size ?part"
    "flash_offset ?part + part_size ?part \<le> length (xip pl w)"
    using regions_fit(3,4) len by simp_all
  from storage_erase [OF place run] obtain new where new: "later (xip pl) powered w w'" "length new = 4096"
    "xip pl w' = blit (xip pl w) (HAL_RP_OTA_PHASE_OFFSET c + 0) new"
    "powered w' \<and> st = HAL_OK \<longrightarrow> new = replicate 4096 0xFF" by auto
  have "0 + length new \<le> 4096" using new(2) by simp
  note jw = journal_write [OF good new(3) this]
  show "rp_read_state c pl w' = rp_read_state c pl w" "ota_whole c pl w' = ota_whole c pl w" by (rule jw)+
  have "length (xip pl w') = length (xip pl w)" using new(2,3) place(5) by simp
  then show "slots_frame w w'" using new(1) jw(3) good by (simp add: slots_frame_def ota_good_def)
  show "\<forall>p \<in> set (ota_phases c pl w'). p = kErased" if "powered w'" "st = HAL_OK"
  proof -
    have "subarr (HAL_RP_OTA_PHASE_OFFSET c) 4096 (xip pl w') = replicate 4096 0xFF"
      using new(2-4) that place(5) by simp
    moreover have "ota_phases c pl w' = take n (subarr (HAL_RP_OTA_PHASE_OFFSET c) 4096 (xip pl w'))"
      using slot_size(3) by (simp add: ota_phases_def subarr_def min_def)
    ultimately show ?thesis by (simp add: kErased_def)
  qed
qed

lemma request_ok:
  assumes good: "ota_good c pl w" and idle: "ota_idle c pl w" and b: "ota_build_valid b"
    and m: "manifest_accepted c b key (ow_manifest s)"
    and img: "starts_with_image img (om_payload_size (ow_manifest s)) (om_sha256 (ow_manifest s))"
      "slot_bytes c pl w JH_OTA_SWAP_SLOT_STAGING = img" "slot_bytes c pl w JH_OTA_SWAP_SLOT_PROGRAM = a"
  shows "\<exists>s' w' st. request_swap c b pl s w = Some (s', w', st) \<and> slot_bytes c pl w' JH_OTA_SWAP_SLOT_PROGRAM = a \<and>
    (powered w' \<or> ota_whole c pl w' \<longrightarrow> ota_idle c pl w' \<or> (\<exists>s0. swap_requested c pl a img (ow_manifest s) s0 w')) \<and>
    (powered w' \<and> st = HAL_OK \<longrightarrow> (\<exists>s0. swap_requested c pl a img (ow_manifest s) s0 w'))"
proof -
  let ?m = "ow_manifest s"
  obtain w1 r st1 where 1: "load_or_initialise_state c b pl w = Some (w1, r, st1)" "slots_frame w w1"
    "powered w1 \<or> ota_whole c pl w1 \<longrightarrow> ota_idle c pl w1" "st1 = HAL_OK \<longrightarrow> r \<noteq> None"
    "\<forall>s1 i1. r = Some (s1, i1) \<longrightarrow> rp_read_state c pl w1 = Some (s1, i1) \<and> bs_mode s1 = JH_OTA_BOOT_STABLE"
    using load_or_initialise_ok [OF good idle b] by blast
  have a1: "slot_bytes c pl w1 JH_OTA_SWAP_SLOT_PROGRAM = a" using slots_frame_bytes(1) [OF 1(2)] img(3) by simp
  show ?thesis
  proof (cases "st1 = HAL_OK")
    case False
    have "request_swap c b pl s w = Some (s, w1, st1)"
      using 1(1) False by (cases r) (auto simp: request_swap_def)
    then show ?thesis using a1 1(3) False by simp
  next
    case ok: True
    then obtain s1 i1 where r: "r = Some (s1, i1)" using 1(4) by auto
    then have cur: "rp_read_state c pl w1 = Some (s1, i1)" "bs_mode s1 = JH_OTA_BOOT_STABLE" using 1(5) by blast+
    have good1: "ota_good c pl w1" using 1(2) by (simp add: slots_frame_def)
    obtain w2 st2 where 2: "jh_rp_flash_storage_erase pl w1 \<lparr>flash_offset = HAL_RP_OTA_PHASE_OFFSET c, part_size = 4096\<rparr> 0 4096 = (w2, st2)"
      by fastforce
    note ej = erase_journal [OF good1 2]
    have f2: "slots_frame w w2" by (rule slots_frame_trans [OF 1(2) ej(1)])
    have good2: "ota_good c pl w2" using f2 by (simp add: slots_frame_def)
    have cur2: "rp_read_state c pl w2 = Some (s1, i1)" using ej(2) cur(1) by simp
    have idle2: "ota_idle c pl w2" using cur2 cur(2) by (simp add: ota_idle_def)
    show ?thesis
    proof (cases "st2 = HAL_OK")
      case False
      have "request_swap c b pl s w = Some (s, w2, st2)"
        using 1(1) ok r cur(2) partitions(3) 2 False by (simp add: request_swap_def)
      then show ?thesis using slots_frame_bytes(1) [OF f2] img(3) idle2 False by simp
    next
      case erased: True
      let ?st = "s1\<lparr>bs_sequence := bs_sequence s1 + 1, bs_mode := JH_OTA_BOOT_PENDING, bs_attempts := 0,
          bs_staging_size := om_payload_size ?m, bs_staging_generation := om_generation ?m,
          bs_staging_sha256 := om_sha256 ?m, bs_staging_version := om_version ?m\<rparr>"
      obtain w3 st3 where 3: "write_state c pl w2 ?st i1 = (w3, st3)" by fastforce
      have run: "request_swap c b pl s w = Some (if st3 = HAL_OK then zero_writer else s, w3, st3)"
        using 1(1) ok r cur(2) partitions(3) 2 erased 3 by (simp add: request_swap_def Let_def)
      have ix: "i1 = 0 \<or> i1 = 1" using cur2 unfolding rp_read_state_def by (rule select_index)
      have "boot_state_ok s1" by (rule read_state_ok [OF good2 cur2])
      then have wf: "boot_state_wf ?st"
        using m by (auto simp: boot_state_wf_def boot_state_ok_def state_valid_def text_valid_last manifest_accepted_def
            manifest_ok_def manifest_valid_def)
      obtain new where new: "length new = 4096" "xip pl w3 = blit (xip pl w2) (record_offset (other i1)) new"
        "later (xip pl) powered w2 w3" "st3 = HAL_OK \<longrightarrow> take 256 new = state_record ?st"
        "take 256 new = rp_state_bytes c pl w2 (other i1) \<or> take 256 new ! 0 = 0xFF \<or>
          (\<exists>k \<le> 256. take 256 new = take k (state_record ?st) @ replicate (256 - k) 0xFF \<and> (powered w3 \<longrightarrow> k = 256))"
        by (rule write_state_written [OF good2 wf ix 3])
      have seq: "bs_sequence ?st = bs_sequence s1 + 1" by simp
      note law = record_law [OF good2 cur2 seq wf new(1,2,5)]
      note fr = write_frame [OF good2 wf ix 3]
      have f3: "slots_frame w w3" by (rule slots_frame_trans [OF f2 fr(1)])
      have requested: "\<exists>s0. swap_requested c pl a img ?m s0 w3"
        if "powered w2" "rp_read_state c pl w3 = Some (state_read ?st, i1 XOR 1)"
      proof -
        have "\<forall>p \<in> set (ota_phases c pl w3). p = kErased" using ej(4) [OF that(1) erased] fr(2) by simp
        moreover have "ota_good c pl w3" using f3 by (simp add: slots_frame_def)
        ultimately have "ota_staged c pl a img (state_read ?st) w3"
          using that(2) slots_frame_bytes [OF f3] img(2,3) by (simp add: ota_staged_def state_read_ok)
        then have "swap_requested c pl a img ?m (state_read ?st) w3"
          using img(1) by (simp add: swap_requested_def state_read_def)
        then show ?thesis by blast
      qed
      have "ota_idle c pl w3 \<or> (\<exists>s0. swap_requested c pl a img ?m s0 w3)" if on: "powered w3 \<or> ota_whole c pl w3"
      proof (cases "powered w2")
        case False
        then have "xip pl w3 = xip pl w2" using new(3) by (simp add: later_def)
        then have "rp_read_state c pl w3 = rp_read_state c pl w2" by (simp add: rp_read_state_def rp_state_bytes_def)
        then show ?thesis using idle2 by (simp add: ota_idle_def)
      next
        case True
        from law(3) [OF on] show ?thesis using requested [OF True] idle2 by (auto simp: ota_idle_def)
      qed
      moreover have "\<exists>s0. swap_requested c pl a img ?m s0 w3" if "powered w3" "st3 = HAL_OK"
      proof -
        have "powered w2" using new(3) that(1) by (simp add: later_def)
        then show ?thesis using requested law(4) new(4) that(2) by blast
      qed
      ultimately show ?thesis using run slots_frame_bytes(1) [OF f3] img(3) by simp
    qed
  qed
qed

text \<open>Finishing returns, and asks for the exchange only when the slot holds what the manifest promises.\<close>

lemma finish_ok:
  assumes sess: "ota_session c b pl key a s w" and b: "ota_build_valid b"
  shows "\<exists>s' w' st. jh_rp_ota_storage_finish c b pl s w = Some (s', w', st) \<and>
    slot_bytes c pl w' JH_OTA_SWAP_SLOT_PROGRAM = a \<and>
    (powered w' \<or> ota_whole c pl w' \<longrightarrow>
       ota_idle c pl w' \<or> (\<exists>img s0. swap_requested c pl a img (ow_manifest s) s0 w')) \<and>
    (powered w' \<and> st = HAL_OK \<longrightarrow>
       manifest_accepted c b key (ow_manifest s) \<and> (\<exists>img s0. swap_requested c pl a img (ow_manifest s) s0 w'))"
proof (cases "\<not> ow_active s \<or> \<not> staging_ready s \<or> container_received s \<noteq> container_size s \<or>
    payload_received s \<noteq> om_payload_size (ow_manifest s)")
  case True
  then have "jh_rp_ota_storage_finish c b pl s w = Some (s, w, HAL_ESTATE)" by (simp only: jh_rp_ota_storage_finish_def if_True)
  then show ?thesis using ota_session_inv [OF sess] by simp
next
  case ready: False
  let ?m = "ow_manifest s"
  have inv: "writer_ok c b key s" "ota_good c pl w" "ota_idle c pl w" "slot_bytes c pl w JH_OTA_SWAP_SLOT_PROGRAM = a"
    using ota_session_inv [OF sess] by blast+
  have s: "hashing (ow_sha256 s)" "manifest_accepted c b key ?m" "ow_staging s = staging_part" using inv(1) ready by (simp_all add: writer_ok_def)
  obtain s1 w1 st1 where 1: "flush_page pl s w = (s1, w1, st1)" by (metis prod.collapse)
  note fl = flush_frame [OF 1 s(3) inv(2)]
  have w1: "ota_good c pl w1" "ota_idle c pl w1" "slot_bytes c pl w1 JH_OTA_SWAP_SLOT_PROGRAM = a"
    using fl(1) inv(2-4) by (simp_all add: upload_frame_def ota_idle_def)
  have m1: "ow_manifest s1 = ?m" "ow_staging s1 = staging_part" "hashing (ow_sha256 s1)" using fl(2) s(1,3) by (simp_all add: kept_writer_def)
  obtain msg where "ctx_holds (ow_sha256 s1) msg" using m1(3) by (auto simp: hashing_def)
  then obtain ctx' where "jh_sha256_final (ow_sha256 s1) = Some (ctx', sha256 msg)" using final_digest by blast
  then obtain cx d st2 where 2: "hal_sha256_final_ex (Some (ow_sha256 s1)) True = Some (cx, d, st2)"
    by (cases "s_initialized (ow_sha256 s1)") (simp_all add: hal_sha256_final_ex_def)
  let ?s2 = "s1\<lparr>ow_sha256 := the cx\<rparr>"
  let ?img = "slot_bytes c pl w1 JH_OTA_SWAP_SLOT_STAGING" and ?len = "om_payload_size ?m"
  have len: "?len \<noteq> 0" "unat ?len \<le> part_size staging_part" using s(2) by (simp_all add: manifest_accepted_def)
  note dig = digest_ok [OF len staging_fits [OF w1(1)]]
  have take: "subarr (flash_offset staging_part) (unat ?len) (xip pl w1) = take (unat ?len) ?img"
    using len(2) by (simp add: slot_bytes_def slot_offset_def subarr_def min_def)
  have img_len: "unat ?len \<le> length ?img"
    using len(2) staging_fits [OF w1(1)] by (simp add: slot_bytes_def slot_offset_def)
  have run: "jh_rp_ota_storage_finish c b pl s w =
      (if st1 \<noteq> HAL_OK then Some (s1, w1, st1)
       else if st2 \<noteq> HAL_OK \<or> d \<noteq> Some (om_sha256 ?m) then Some (?s2, w1, if st2 = HAL_OK then HAL_EAUTH else st2)
       else if sha256 (take (unat ?len) ?img) \<noteq> om_sha256 ?m then Some (?s2, w1, HAL_EIO)
       else request_swap c b pl ?s2 w1)"
    using ready 1 2 m1(1,2) dig take by (simp add: jh_rp_ota_storage_finish_def Let_def)
  show ?thesis
  proof (cases "st1 \<noteq> HAL_OK \<or> st2 \<noteq> HAL_OK \<or> d \<noteq> Some (om_sha256 ?m) \<or> sha256 (take (unat ?len) ?img) \<noteq> om_sha256 ?m")
    case True
    then show ?thesis unfolding run using w1 by auto
  next
    case False
    have acc: "manifest_accepted c b key (ow_manifest ?s2)" using s(2) m1(1) by simp
    have "starts_with_image ?img (om_payload_size (ow_manifest ?s2)) (om_sha256 (ow_manifest ?s2))"
      using False len(1) img_len m1(1) by (simp add: starts_with_image_def)
    from request_ok [OF w1(1,2) b acc this refl w1(3)] obtain s' w' st where "request_swap c b pl ?s2 w1 = Some (s', w', st)"
      "slot_bytes c pl w' JH_OTA_SWAP_SLOT_PROGRAM = a"
      "powered w' \<or> ota_whole c pl w' \<longrightarrow> ota_idle c pl w' \<or> (\<exists>s0. swap_requested c pl a ?img (ow_manifest ?s2) s0 w')"
      "powered w' \<and> st = HAL_OK \<longrightarrow> (\<exists>s0. swap_requested c pl a ?img (ow_manifest ?s2) s0 w')" by blast
    moreover have "jh_rp_ota_storage_finish c b pl s w = request_swap c b pl ?s2 w1" using run False by simp
    moreover have "ow_manifest ?s2 = ?m" using m1(1) by simp
    ultimately show ?thesis using s(2) by (intro exI [of _ s'] exI [of _ w'] exI [of _ st]) (simp, blast)
  qed
qed

section \<open>The new program confirms itself\<close>

lemma confirm_inv:
  assumes inv: "ota.update_inv x y s0 w" and run: "jh_rp_ota_storage_confirm_boot c pl w = (w', st)"
  shows "powered w' \<or> ota_whole c pl w' \<Longrightarrow> ota.update_inv x y s0 w'"
    "st = HAL_OK \<Longrightarrow> \<exists>s1 i1. rp_read_state c pl w' = Some (s1, i1) \<and> bs_mode s1 = JH_OTA_BOOT_STABLE"
    "ota.progr w' = ota.progr w"
proof -
  obtain cur ix where cur: "rp_read_state c pl w = Some (cur, ix)" and max: "bs_max_attempts cur = bs_max_attempts s0"
    and uc: "ota.update_case x y s0 w cur" and good: "ota_good c pl w" using inv by (auto simp: ota.update_inv_def)
  note load = load_state_eq [OF good, unfolded cur, simplified]
  have "(powered w' \<or> ota_whole c pl w' \<longrightarrow> ota.update_inv x y s0 w') \<and> ota.progr w' = ota.progr w \<and>
     (st = HAL_OK \<longrightarrow> (\<exists>s1 i1. rp_read_state c pl w' = Some (s1, i1) \<and> bs_mode s1 = JH_OTA_BOOT_STABLE))"
  proof (cases "bs_mode cur = JH_OTA_BOOT_TRIAL")
    case False
    then have "w' = w" "st = (if bs_mode cur = JH_OTA_BOOT_STABLE then HAL_OK else HAL_ESTATE)"
      using run load by (auto simp: jh_rp_ota_storage_confirm_boot_def split: if_splits)
    then show ?thesis using inv cur by auto
  next
    case trial: True
    let ?st = "cur\<lparr>bs_sequence := bs_sequence cur + 1, bs_mode := JH_OTA_BOOT_STABLE, bs_attempts := 0\<rparr>"
    have wr: "write_state c pl w ?st ix = (w', st)" using run load trial by (simp add: jh_rp_ota_storage_confirm_boot_def)
    have ix: "ix = 0 \<or> ix = 1" using cur unfolding rp_read_state_def by (rule select_index)
    have "boot_state_ok cur" by (rule read_state_ok [OF good cur])
    then have ok: "boot_state_ok ?st" by (simp add: boot_state_ok_def)
    note wf = boot_state_ok_wf [OF ok]
    obtain new where new: "length new = 4096" "xip pl w' = blit (xip pl w) (record_offset (other ix)) new"
      "later (xip pl) powered w w'" "st = HAL_OK \<longrightarrow> take 256 new = state_record ?st"
      "take 256 new = rp_state_bytes c pl w (other ix) \<or> take 256 new ! 0 = 0xFF \<or>
        (\<exists>k \<le> 256. take 256 new = take k (state_record ?st) @ replicate (256 - k) 0xFF \<and> (powered w' \<longrightarrow> k = 256))"
      by (rule write_state_written [OF good wf ix wr])
    have seq: "bs_sequence ?st = bs_sequence cur + 1" by simp
    note law = record_law [OF good cur seq wf new(1,2,5), unfolded state_read_ok(2) [OF ok]]
    have good': "ota_good c pl w'" using write_frame(1) [OF good wf ix wr] by (simp add: slots_frame_def)
    have fr: "ota.frame w w'" using law(1,2) by (simp add: ota.frame_def)
    have same: "ota.progr w' = ota.progr w" "ota.stag w' = ota.stag w" using ota.frame_slots [OF fr] by simp_all
    have "ota.after_swap x y s0 w cur" using uc trial by (simp add: ota.update_case_def)
    then have "ota.after_swap x y s0 w' ?st" using same by (simp add: ota.after_swap_def roles_def)
    then have uc': "ota.update_case x y s0 w' ?st" by (simp add: ota.update_case_def)
    have inv': "ota.update_inv x y s0 w'" if on: "powered w' \<or> ota_whole c pl w'"
      using law(3) [OF on]
    proof
      assume "rp_read_state c pl w' = rp_read_state c pl w"
      then have "rp_read_state c pl w' = Some (cur, ix)" using cur by simp
      then show ?thesis by (rule ota.update_invI [OF good' _ max ota.frame_case [OF fr uc]])
    next
      assume "rp_read_state c pl w' = Some (?st, ix XOR 1)"
      then show ?thesis by (rule ota.update_invI [OF good' _ _ uc']) (simp add: max)
    qed
    have "\<exists>s1 i1. rp_read_state c pl w' = Some (s1, i1) \<and> bs_mode s1 = JH_OTA_BOOT_STABLE" if "st = HAL_OK"
      using law(4) new(4) that by simp
    then show ?thesis using inv' same(1) by blast
  qed
  then show "powered w' \<or> ota_whole c pl w' \<Longrightarrow> ota.update_inv x y s0 w'"
    "st = HAL_OK \<Longrightarrow> \<exists>s1 i1. rp_read_state c pl w' = Some (s1, i1) \<and> bs_mode s1 = JH_OTA_BOOT_STABLE"
    "ota.progr w' = ota.progr w" by blast+
qed

end

end
