(* ===== verification/Rp_Ota_Life.thy ===== *)
theory Rp_Ota_Life
  imports Rp_Ota_Session Rp_Boot
begin

text \<open>
  The life of an update once it is staged: resets, in any number, runs of the boot image that are cut short or not, and
  the new program that confirms itself or does not. What is launched is one of the two images; with a power supply
  that stays on the new one is launched, and replaced by the old one if it is never confirmed.
\<close>

section \<open>Resets, any number of them\<close>

text \<open>
  An update is staged. Then the boot image runs, any number of times, and the program may confirm the image. A step may
  end at any point, with what the flash holds by then, as long as no boot record that was cut short passes for a whole
  one. Between the steps everything but the flash may change, the power too.
\<close>

inductive ota_run :: "rp_config \<Rightarrow> 'w rp_platform \<Rightarrow> ('w \<Rightarrow> bool) \<Rightarrow> bytes \<Rightarrow> bytes \<Rightarrow> boot_state \<Rightarrow> 'w \<Rightarrow> bool"
  for c :: rp_config and pl :: "'w rp_platform" and powered :: "'w \<Rightarrow> bool" and a b :: bytes and s0 :: boot_state where
  staged: "ota_staged c pl a b s0 w \<Longrightarrow> ota_run c pl powered a b s0 w"
| boot: "ota_run c pl powered a b s0 w \<Longrightarrow> rp_boot_main c pl w = (w', action) \<Longrightarrow> powered w' \<or> ota_whole c pl w' \<Longrightarrow>
    ota_run c pl powered a b s0 w'"
| confirm: "ota_run c pl powered a b s0 w \<Longrightarrow> jh_rp_ota_storage_confirm_boot c pl w = (w', st) \<Longrightarrow>
    powered w' \<or> ota_whole c pl w' \<Longrightarrow> ota_run c pl powered a b s0 w'"
| power: "ota_run c pl powered a b s0 w \<Longrightarrow> xip pl w' = xip pl w \<Longrightarrow> ota_run c pl powered a b s0 w'"

inductive_cases ota_runE: "ota_run c pl powered a b s0 w"

context rp_ota
begin

lemma ota_run_inv: "ota_run c pl powered a b s0 w \<Longrightarrow> run_inv a b s0 w"
proof (induction rule: ota_run.induct)
  case (staged w)
  then show ?case by (rule staged_inv)
next
  case (boot w w' action)
  then obtain x y where "concat x = a" "concat y = b" "ota.update_inv x y s0 w" by (auto simp: run_inv_def)
  moreover from boot_fine [OF this(3) boot.hyps(2)] have "ota.update_inv x y s0 w'"
    using boot.hyps(3) by (auto simp: ota.fine_def ota.lost_def)
  ultimately show ?case unfolding run_inv_def by blast
next
  case (confirm w w' st)
  then obtain x y where "concat x = a" "concat y = b" "ota.update_inv x y s0 w" by (auto simp: run_inv_def)
  moreover from confirm_inv(1) [OF this(3) confirm.hyps(2,3)] have "ota.update_inv x y s0 w'" .
  ultimately show ?case unfolding run_inv_def by blast
next
  case (power w w')
  then show ?case using power_inv unfolding run_inv_def by blast
qed

text \<open>What is launched with the power on is one of the two images, and the new one only if it is the one that was promised.\<close>

lemma run_launches:
  assumes "ota_run c pl powered a b s0 w" "rp_boot_main c pl w = (w', JH_OTA_BOOT_ACTION_LAUNCH)" "powered w'"
  shows "slot_bytes c pl w' JH_OTA_SWAP_SLOT_PROGRAM = a \<or>
    slot_bytes c pl w' JH_OTA_SWAP_SLOT_PROGRAM = b \<and> starts_with_image b (bs_staging_size s0) (bs_staging_sha256 s0)"
proof -
  obtain x y where inv: "concat x = a" "concat y = b" "ota.update_inv x y s0 w"
    using ota_run_inv [OF assms(1)] by (auto simp: run_inv_def)
  from boot_fine [OF inv(3) assms(2)] have "ota.progr w' = x \<or> ota.progr w' = y \<and> ota.verified y s0"
    using assms(3) by (simp add: ota.fine_def)
  then show ?thesis using inv(1,2) progr_bytes [of w'] image_ok_bytes by (auto simp: ota.verified_def)
qed

lemma boot_stable:
  assumes "rp_read_state c pl w = Some (st, ix)" "bs_mode st = JH_OTA_BOOT_STABLE"
  shows "rp_boot_main c pl w = (w, JH_OTA_BOOT_ACTION_LAUNCH)"
  using assms slot_size(2) by (simp add: rp_boot_main_def jh_ota_boot_apply_def)

text \<open>A program that was confirmed is launched by every reset from then on.\<close>

lemma confirmed_stays:
  assumes run: "ota_run c pl powered a b s0 w" and conf: "jh_rp_ota_storage_confirm_boot c pl w = (w1, HAL_OK)"
    and on: "powered w1 \<or> ota_whole c pl w1" and flash: "xip pl w2 = xip pl w1"
  shows "rp_boot_main c pl w2 = (w2, JH_OTA_BOOT_ACTION_LAUNCH)"
    "slot_bytes c pl w2 JH_OTA_SWAP_SLOT_PROGRAM = slot_bytes c pl w JH_OTA_SWAP_SLOT_PROGRAM"
proof -
  obtain x y where inv: "ota.update_inv x y s0 w" using ota_run_inv [OF run] by (auto simp: run_inv_def)
  note ci = confirm_inv [OF inv conf]
  obtain s1 i1 where "rp_read_state c pl w1 = Some (s1, i1)" "bs_mode s1 = JH_OTA_BOOT_STABLE" using ci(2) by blast
  then have "rp_read_state c pl w2 = Some (s1, i1)" "bs_mode s1 = JH_OTA_BOOT_STABLE"
    using flash by (simp_all add: rp_read_state_def rp_state_bytes_def)
  then show "rp_boot_main c pl w2 = (w2, JH_OTA_BOOT_ACTION_LAUNCH)" by (rule boot_stable)
  have "slot_bytes c pl w2 JH_OTA_SWAP_SLOT_PROGRAM = slot_bytes c pl w1 JH_OTA_SWAP_SLOT_PROGRAM" using flash by (simp add: slot_bytes_def)
  then show "slot_bytes c pl w2 JH_OTA_SWAP_SLOT_PROGRAM = slot_bytes c pl w JH_OTA_SWAP_SLOT_PROGRAM"
    using ci(3) progr_bytes by metis
qed

end

section \<open>With a power supply that stays on\<close>

locale rp_ota_steady = rp_ota pl powered c + rp_steady pl powered steady
  for pl :: "'w rp_platform" and powered :: "'w \<Rightarrow> bool" and c :: rp_config and steady :: "'w \<Rightarrow> bool"

sublocale rp_ota_steady \<subseteq> ota: ota_steady "rp_boot_backend c pl" "ota_good c pl" powered "ota_whole c pl" "kSlotSectors c"
    "ota_phases c pl" "ota_sector c pl" "rp_read_state c pl" steady
proof (unfold_locales, goal_cases)
  case (1 w)
  then show ?case by (rule steady_on)
next
  case (2 w i d s w' st)
  then have run: "rp_copy_sector c pl w i d s = (w', st)" by (simp add: rp_boot_backend_def)
  then have "steady w'"
    using erase_steady program_steady 2(2) by (auto simp: rp_copy_sector_def rp_copy_sector_raw_def Let_def)
  then show ?case using copy_law(6) [OF 2(1,3,4) run] steady_on by blast
next
  case (3 w i v w' st)
  then have run: "rp_mark_phase c pl w i v = (w', st)" by (simp add: rp_boot_backend_def)
  then have steady: "steady w'" using program_steady 3(2) by (auto simp: rp_mark_phase_def Let_def)
  note law = mark_law [OF 3(1,3) run]
  have "i < length (ota_phases c pl w)" using 3(3) ota.journal [OF 3(1)] by simp
  then have "ota_phases c pl w' ! i = v" using law(6) steady_on [OF steady] 3(4) by simp
  then show ?case using law(7) steady by blast
next
  case (4 w w' st)
  then have run: "rp_erase_phase c pl w = (w', st)" by (simp add: rp_boot_backend_def)
  then have "steady w'" using erase_steady 4(2) by (auto simp: rp_erase_phase_def Let_def)
  then show ?case using erase_law_ota(5) [OF 4(1) run] steady_on by blast
next
  case (5 w bs ix w' st)
  then have run: "rp_write_state c pl w bs ix = (w', st)" by (simp add: rp_boot_backend_def)
  then have "steady w'"
    using erase_steady program_steady 5(2) encode_state [OF boot_state_ok_wf [OF 5(3)]] by (auto simp: rp_write_state_def Let_def split: if_splits)
  moreover have "powered w' \<Longrightarrow> st = HAL_OK" using state_written [OF 5(1,3) run] by blast
  ultimately show ?case using steady_on by blast
qed

section \<open>With steady power an update comes to its end\<close>

abbreviation rp_reset :: "rp_config \<Rightarrow> 'w rp_platform \<Rightarrow> 'w \<Rightarrow> 'w" where
  "rp_reset c pl w \<equiv> fst (rp_boot_main c pl w)"

text \<open>The medium while the new image is on trial, after \<open>k\<close> resets without a confirmation.\<close>

definition on_trial :: "rp_config \<Rightarrow> 'w rp_platform \<Rightarrow> nat \<Rightarrow> 'w \<Rightarrow> bool" where
  "on_trial c pl k w \<longleftrightarrow>
     (\<exists>st ix. rp_read_state c pl w = Some (st, ix) \<and> bs_mode st = JH_OTA_BOOT_TRIAL \<and> bs_attempts st = of_nat k)"

lemma attempts_left:
  assumes "k \<le> unat (m :: u8)"
  shows "of_nat k < m \<longleftrightarrow> k < unat m"
proof -
  have "unat m < 2 ^ LENGTH(8)" by (rule unsigned_less)
  with assms have "k < 2 ^ LENGTH(8)" by (rule le_less_trans)
  then have "k < 256" by simp
  then have "unat (of_nat k :: u8) = k" by (simp add: unat_of_nat)
  then show ?thesis by (simp add: word_less_nat_alt)
qed

context rp_ota_steady
begin

lemma boot_inv:
  assumes "ota.update_inv x y s0 w" "rp_boot_main c pl w = (w', action)" "steady w'"
  shows "ota.update_inv x y s0 w'"
  using boot_fine [OF assms(1,2)] steady_on [OF assms(3)] by (simp add: ota.fine_def ota.lost_def)

lemma boot_pending:
  assumes inv: "ota.update_inv x y s0 w" "steady w" "ota.verified y s0" "rp_boot_main c pl w = (w', action)"
    and st: "rp_read_state c pl w = Some (st, ix)" "bs_mode st = JH_OTA_BOOT_PENDING"
  shows "action = JH_OTA_BOOT_ACTION_LAUNCH \<and> steady w' \<and> ota.progr w' = y \<and> on_trial c pl 0 w'"
proof -
  obtain st2 ix2 st' where a: "rp_read_state c pl w = Some (st2, ix2)"
    "jh_ota_boot_apply (Some (rp_boot_backend c pl)) w (Some st2) ix2 n = (w', st', action)"
    by (rule boot_applies [OF inv(1,4)])
  then have "st2 = st" "ix2 = ix" using st(1) by simp_all
  then have run: "jh_ota_boot_apply (Some (rp_boot_backend c pl)) w (Some st) ix n = (w', st', action)" using a(2) by simp
  show ?thesis using ota.apply_pending_live [OF inv(1) st inv(3,2) run] by (auto simp: on_trial_def)
qed

lemma boot_trial:
  assumes inv: "ota.update_inv x y s0 w" "steady w" "on_trial c pl k w" "k \<le> unat (bs_max_attempts s0)"
    and run: "rp_boot_main c pl w = (w', action)"
  shows "action = JH_OTA_BOOT_ACTION_LAUNCH \<and> steady w' \<and>
    (if k < unat (bs_max_attempts s0) then ota.progr w' = y \<and> on_trial c pl (k + 1) w'
     else ota.progr w' = x \<and> (\<exists>st ix. rp_read_state c pl w' = Some (st, ix) \<and> bs_mode st = JH_OTA_BOOT_STABLE))"
proof -
  obtain st ix where st: "rp_read_state c pl w = Some (st, ix)" "bs_mode st = JH_OTA_BOOT_TRIAL" "bs_attempts st = of_nat k"
    using inv(3) by (auto simp: on_trial_def)
  obtain st2 ix2 st' where a: "rp_read_state c pl w = Some (st2, ix2)"
    "jh_ota_boot_apply (Some (rp_boot_backend c pl)) w (Some st2) ix2 n = (w', st', action)"
    by (rule boot_applies [OF inv(1) run])
  then have "st2 = st" "ix2 = ix" using st(1) by simp_all
  then have ap: "jh_ota_boot_apply (Some (rp_boot_backend c pl)) w (Some st) ix n = (w', st', action)" using a(2) by simp
  have "bs_max_attempts st = bs_max_attempts s0" using inv(1) st(1) by (auto simp: ota.update_inv_def)
  then have left: "bs_attempts st < bs_max_attempts st \<longleftrightarrow> k < unat (bs_max_attempts s0)" using attempts_left [OF inv(4)] st(3) by simp
  show ?thesis
  proof (cases "k < unat (bs_max_attempts s0)")
    case True
    then have "bs_attempts st < bs_max_attempts st" using left by simp
    from ota.apply_trial_live [OF inv(1) st(1,2) inv(2) this ap] show ?thesis
      using True st(3) by (auto simp: on_trial_def add.commute)
  next
    case False
    then have "\<not> bs_attempts st < bs_max_attempts st" using left by simp
    from ota.apply_trial_expired [OF inv(1) st(1,2) inv(2) this ap] show ?thesis using False by simp
  qed
qed

lemma trial_resets:
  assumes inv: "ota.update_inv x y s0 w" "steady w" "on_trial c pl 0 w" and k: "k \<le> unat (bs_max_attempts s0)"
  shows "ota.update_inv x y s0 ((rp_reset c pl ^^ k) w) \<and> steady ((rp_reset c pl ^^ k) w) \<and> on_trial c pl k ((rp_reset c pl ^^ k) w)"
  using k
proof (induction k)
  case (Suc k)
  let ?w = "(rp_reset c pl ^^ k) w"
  obtain w1 action where run: "rp_boot_main c pl ?w = (w1, action)" by fastforce
  have k: "k \<le> unat (bs_max_attempts s0)" "k < unat (bs_max_attempts s0)" using Suc.prems by simp_all
  have ih: "ota.update_inv x y s0 ?w" "steady ?w" "on_trial c pl k ?w" using Suc.IH k by blast+
  have "steady w1" "on_trial c pl (k + 1) w1" using boot_trial [OF ih k(1) run] k(2) by simp_all
  moreover have "ota.update_inv x y s0 w1" by (rule boot_inv [OF ih(1) run \<open>steady w1\<close>])
  ultimately show ?case using run by simp
qed (use inv in simp)

text \<open>From wherever the exchange was interrupted: the new image is launched, and again until its attempts are used up.\<close>

lemma update_lands:
  assumes run: "ota_run c pl powered a b s0 w" and w: "steady w" "rp_read_state c pl w = Some (st, ix)" "bs_mode st = JH_OTA_BOOT_PENDING"
    and b: "starts_with_image b (bs_staging_size s0) (bs_staging_sha256 s0)"
    and k: "k \<le> unat (bs_max_attempts s0) + 1" and boot: "rp_boot_main c pl ((rp_reset c pl ^^ k) w) = (w', action)"
  shows "action = JH_OTA_BOOT_ACTION_LAUNCH \<and> steady w' \<and>
    slot_bytes c pl w' JH_OTA_SWAP_SLOT_PROGRAM = (if k \<le> unat (bs_max_attempts s0) then b else a) \<and>
    (k = unat (bs_max_attempts s0) + 1 \<longrightarrow>
       (\<exists>st ix. rp_read_state c pl w' = Some (st, ix) \<and> bs_mode st = JH_OTA_BOOT_STABLE))"
proof -
  obtain x y where inv: "concat x = a" "concat y = b" "ota.update_inv x y s0 w"
    using ota_run_inv [OF run] by (auto simp: run_inv_def)
  have ver: "ota.verified y s0" using b inv(2) by (simp add: ota.verified_def image_ok_bytes)
  obtain w1 a1 where 1: "rp_boot_main c pl w = (w1, a1)" by fastforce
  note p = boot_pending [OF inv(3) w(1) ver 1 w(2,3)]
  have w1: "ota.update_inv x y s0 w1" "steady w1" "on_trial c pl 0 w1" using p boot_inv [OF inv(3) 1] by blast+
  show ?thesis
  proof (cases k)
    case 0
    then have "w' = w1" "action = a1" using boot 1 by simp_all
    then show ?thesis using p 0 progr_bytes [of w1] inv(2) by auto
  next
    case (Suc j)
    then have j: "j \<le> unat (bs_max_attempts s0)" using k by simp
    have "(rp_reset c pl ^^ k) w = (rp_reset c pl ^^ j) w1" unfolding Suc by (simp only: funpow_Suc_right comp_def 1 fst_conv)
    then have run2: "rp_boot_main c pl ((rp_reset c pl ^^ j) w1) = (w', action)" using boot by simp
    from trial_resets [OF w1 j] have "ota.update_inv x y s0 ((rp_reset c pl ^^ j) w1)" "steady ((rp_reset c pl ^^ j) w1)"
      "on_trial c pl j ((rp_reset c pl ^^ j) w1)" by blast+
    from boot_trial [OF this j run2] show ?thesis
      using Suc j progr_bytes [of w'] inv(1,2) by (auto split: if_splits)
  qed
qed

end

end
