(* ===== verification/Rp_Ota_Feed.thy ===== *)
theory Rp_Ota_Feed
  imports Rp_Ota_Life
begin

text \<open>
  An upload with a power supply that stays on: an image that was made for this program and signed with the key of the
  session is accepted, however it is cut into pieces, and finishing it asks the boot image for the exchange.
\<close>

section \<open>Operations in a partition succeed\<close>

context rp_steady
begin

lemma storage_erase_live:
  assumes on: "steady w" and place: "4096 dvd flash_offset part + offset" "4096 dvd len" "0 < len"
    and fits: "offset + len \<le> part_size part" "flash_offset part + part_size part \<le> length (xip pl w)"
  obtains w' where "jh_rp_flash_storage_erase pl w part offset len = (w', HAL_OK)" "steady w'"
    "xip pl w' = blit (xip pl w) (flash_offset part + offset) (replicate len 0xFF)"
proof -
  obtain w' st where run: "jh_rp_flash_storage_erase pl w part offset len = (w', st)" by fastforce
  have "range_valid part offset len" using place(3) fits(1) by (simp add: range_valid_iff)
  then have "rp_execute pl w ActErase (flash_offset part + offset) [] len = (w', st)"
    using run place by (simp add: jh_rp_flash_storage_erase_def Let_def FLASH_SECTOR_SIZE_def dvd_eq_mod_eq_0)
  from erase_live [OF on this] have live: "st = HAL_OK" "steady w'" by simp_all
  obtain new where "xip pl w' = blit (xip pl w) (flash_offset part + offset) new"
    "powered w' \<and> st = HAL_OK \<longrightarrow> new = replicate len 0xFF" using storage_erase [OF place fits run] by blast
  then have "xip pl w' = blit (xip pl w) (flash_offset part + offset) (replicate len 0xFF)" using live steady_on by simp
  then show thesis using that [OF run [unfolded live(1)] live(2)] by simp
qed

lemma storage_program_live:
  assumes on: "steady w" and place: "256 dvd flash_offset part + offset" "256 dvd length data" "data \<noteq> []"
    and fits: "offset + length data \<le> part_size part" "flash_offset part + part_size part \<le> length (xip pl w)"
    and erased: "subarr (flash_offset part + offset) (length data) (xip pl w) = replicate (length data) 0xFF"
  obtains w' where "jh_rp_flash_storage_program pl w part offset data = (w', HAL_OK)" "steady w'"
    "xip pl w' = blit (xip pl w) (flash_offset part + offset) data"
proof -
  let ?at = "flash_offset part + offset"
  obtain w' st where ex: "rp_execute pl w ActProgram ?at data (length data) = (w', st)" by fastforce
  have p: "?at + length data \<le> length (xip pl w)" using fits by simp
  have live: "st = HAL_OK \<and> steady w'"
    by (rule transaction_live [OF on run_operation_steady _ ex [unfolded rp_execute_def rp_transaction_def]])
      (simp_all add: run_flash_operation_def Let_def)
  then obtain k where k: "k = length data" "xip pl w' = blit (xip pl w) ?at
      (map2 (AND) (subarr ?at k (xip pl w)) (take k data) @ drop k (subarr ?at (length data) (xip pl w)))"
    using program_run [OF place(1,2) p ex] steady_on by blast
  then have x: "xip pl w' = blit (xip pl w) ?at data" using erased ones_and [of data "length data"] by simp
  have "stored_matches pl w' ?at data" using p by (simp add: stored_matches_def x)
  moreover have "range_valid part offset (length data)" using place(3) fits(1) by (cases data) (simp_all add: range_valid_iff)
  ultimately have "jh_rp_flash_storage_program pl w part offset data = (w', HAL_OK)"
    using ex live place by (simp add: jh_rp_flash_storage_program_def verified_def Let_def FLASH_PAGE_SIZE_def dvd_eq_mod_eq_0)
  then show thesis using that live x by blast
qed

end

section \<open>A page is flushed\<close>

text \<open>Pages in their sector.\<close>

lemma page_in_sector:
  assumes "256 dvd (y :: nat)"
  shows "y mod 4096 + 256 \<le> 4096" "(y + 256) mod 4096 = (if y mod 4096 = 3840 then 0 else y mod 4096 + 256)"
    "y < 4096 * k \<Longrightarrow> y + (4096 - y mod 4096) \<le> 4096 * k"
proof -
  obtain p where p: "y = 256 * p" using assms by (elim dvdE)
  have split: "256 * q mod 4096 = 256 * (q mod 16)" for q :: nat using mult_mod_right [of 256 q 16] by simp
  have m: "y mod 4096 = 256 * (p mod 16)" unfolding p by (rule split)
  have "p mod 16 < 16" by simp
  then show "y mod 4096 + 256 \<le> 4096" using m by linarith
  have "(y + 256) mod 4096 = 256 * (Suc p mod 16)" using split [of "Suc p"] by (simp add: p add.commute)
  then show "(y + 256) mod 4096 = (if y mod 4096 = 3840 then 0 else y mod 4096 + 256)" using m by (simp add: mod_Suc)
  assume "y < 4096 * k"
  then have "y div 4096 < k" by (simp add: less_mult_imp_div_less mult.commute)
  then have "4096 * (y div 4096) + 4096 \<le> 4096 * k" by simp
  then show "y + (4096 - y mod 4096) \<le> 4096 * k" using mult_div_mod_eq [of 4096 y] by linarith
qed

text \<open>The sector behind a page that was written is still erased.\<close>

definition sector_open :: "nat \<Rightarrow> nat \<Rightarrow> bytes \<Rightarrow> bool" where
  "sector_open at y x \<longleftrightarrow>
     (y mod 4096 \<noteq> 0 \<longrightarrow> subarr (at + y) (4096 - y mod 4096) x = replicate (4096 - y mod 4096) 0xFF)"

lemma sector_fill:
  assumes y: "256 dvd y" and page: "length page = 256" and fits: "at + y + (4096 - y mod 4096) \<le> length x"
    and blank: "subarr (at + y) (4096 - y mod 4096) x = replicate (4096 - y mod 4096) 0xFF"
  shows "subarr (at + y) 256 (blit x (at + y) page) = page" "sector_open at (y + 256) (blit x (at + y) page)"
    "subarr at y (blit x (at + y) page) = subarr at y x"
proof -
  let ?r = "4096 - y mod 4096"
  note pg = page_in_sector(1,2) [OF y]
  have r: "256 \<le> ?r" using pg(1) by simp
  then have len: "at + y + 256 \<le> length x" using fits by linarith
  show "subarr (at + y) 256 (blit x (at + y) page) = page" using len page by simp
  show "subarr at y (blit x (at + y) page) = subarr at y x" by (rule subarr_blit_disjoint) (use len page in simp_all)
  have "subarr (at + y + 256) (?r - 256) (blit x (at + y) page) = subarr (at + y + 256) (?r - 256) x"
    by (rule subarr_blit_disjoint) (use len page fits r in simp_all)
  also have "\<dots> = subarr 256 (?r - 256) (subarr (at + y) ?r x)" using r by (simp add: subarr_subarr)
  also have "\<dots> = replicate (?r - 256) 0xFF" unfolding blank by (simp add: subarr_def)
  finally show "sector_open at (y + 256) (blit x (at + y) page)"
    using pg(2) by (auto simp: sector_open_def add.assoc)
qed

context rp_ota_steady
begin

lemma flush_live:
  assumes on: "steady w" and good: "ota_good c pl w" and part: "ow_staging s = staging_part"
    and used: "page_used s = u" "0 < u" "u \<le> 256" and got: "unat (payload_received s) = y + u"
    and y: "256 dvd y" "y + u \<le> HAL_RP_OTA_SLOT_SIZE c" and page: "length (ow_page s) = 256"
    and blank: "sector_open (HAL_RP_OTA_STAGING_OFFSET c) y (xip pl w)"
  obtains w' where "flush_page pl s w = (s\<lparr>page_used := 0, ow_page := replicate 256 0xFF\<rparr>, w', HAL_OK)" "steady w'"
    "subarr (HAL_RP_OTA_STAGING_OFFSET c) y (xip pl w') = subarr (HAL_RP_OTA_STAGING_OFFSET c) y (xip pl w)"
    "subarr (HAL_RP_OTA_STAGING_OFFSET c + y) 256 (xip pl w') = ow_page s"
    "sector_open (HAL_RP_OTA_STAGING_OFFSET c) (y + 256) (xip pl w')"
proof -
  let ?at = "HAL_RP_OTA_STAGING_OFFSET c" and ?r = "4096 - y mod 4096"
  have slot: "HAL_RP_OTA_SLOT_SIZE c = 4096 * kSlotSectors c" using slot_size(1) by simp
  have ysec: "y + ?r \<le> HAL_RP_OTA_SLOT_SIZE c" unfolding slot by (rule page_in_sector(3) [OF y(1)]) (use y(2) used(2) slot in linarith)
  have r: "256 \<le> ?r" using page_in_sector(1) [OF y(1)] by simp
  note fits = staging_fits [OF good]
  have at: "4096 dvd ?at" using regions_fit(1) [of JH_OTA_SWAP_SLOT_STAGING] by (simp add: slot_region_def)
  then have at_page: "256 dvd ?at + y" using y(1) dvd_trans [of 256 4096 ?at] by simp
  have "unat (of_nat u :: u32) = u" using used(3) by (simp add: unat_of_nat)
  then have "of_nat u \<le> payload_received s" "unat (payload_received s - of_nat u) = unat (payload_received s) - u"
    using got by (simp_all add: word_le_nat_alt unat_sub)
  then have off: "unat (payload_received s - of_nat u) = y" using got by simp
  have y_page: "y - y mod FLASH_PAGE_SIZE = y" using y(1) by (simp add: FLASH_PAGE_SIZE_def dvd_eq_mod_eq_0)
  obtain w1 where 1: "(if y mod FLASH_SECTOR_SIZE = 0 then jh_rp_flash_storage_erase pl w staging_part y FLASH_SECTOR_SIZE else (w, HAL_OK)) = (w1, HAL_OK)"
    "steady w1" "length (xip pl w1) = length (xip pl w)" "subarr (?at + y) ?r (xip pl w1) = replicate ?r 0xFF"
    "subarr ?at y (xip pl w1) = subarr ?at y (xip pl w)"
  proof (cases "y mod 4096 = 0")
    case False
    then show thesis using that [of w] on blank by (simp add: FLASH_SECTOR_SIZE_def sector_open_def)
  next
    case True
    have p: "4096 dvd flash_offset staging_part + y" "y + 4096 \<le> part_size staging_part" using True at ysec by auto
    obtain w1 where w1: "jh_rp_flash_storage_erase pl w staging_part y 4096 = (w1, HAL_OK)" "steady w1"
      "xip pl w1 = blit (xip pl w) (flash_offset staging_part + y) (replicate 4096 0xFF)"
      by (rule storage_erase_live [OF on p(1) dvd_refl _ p(2) fits]) simp
    have len: "?at + y + 4096 \<le> length (xip pl w)" using p(2) fits by simp
    have "subarr ?at y (xip pl w1) = subarr ?at y (xip pl w)" unfolding w1(3) by (rule subarr_blit_disjoint) (use len in simp_all)
    then show thesis using that [of w1] w1 len True by (simp add: FLASH_SECTOR_SIZE_def)
  qed
  have fits1: "flash_offset staging_part + part_size staging_part \<le> length (xip pl w1)" using fits 1(3) by simp
  have erased: "subarr (?at + y) 256 (xip pl w1) = replicate 256 0xFF"
  proof -
    have "subarr (?at + y) 256 (xip pl w1) = subarr 0 256 (subarr (?at + y) ?r (xip pl w1))" using r by (simp only: subarr_subarr add_0_left add_0_right)
    then show ?thesis unfolding 1(4) using r by (simp add: min_def)
  qed
  obtain w2 where 2: "jh_rp_flash_storage_program pl w1 staging_part y (ow_page s) = (w2, HAL_OK)" "steady w2"
    "xip pl w2 = blit (xip pl w1) (?at + y) (ow_page s)"
  proof (rule storage_program_live [OF 1(2), of staging_part y "ow_page s"])
    show "256 dvd flash_offset staging_part + y" using at_page by simp
    show "256 dvd length (ow_page s)" "ow_page s \<noteq> []" using page by auto
    show "y + length (ow_page s) \<le> part_size staging_part" using page ysec r by simp
    show "flash_offset staging_part + part_size staging_part \<le> length (xip pl w1)" by (rule fits1)
    show "subarr (flash_offset staging_part + y) (length (ow_page s)) (xip pl w1) = replicate (length (ow_page s)) 0xFF"
      using erased page by simp
  qed (use that in simp)
  have "flush_page pl s w = (s\<lparr>page_used := 0, ow_page := replicate 256 0xFF\<rparr>, w2, HAL_OK)"
    using 1(1) 2(1) used(2) unfolding flush_page_def Let_def used(1) off y_page part
    by (cases "y mod FLASH_SECTOR_SIZE = 0") (simp_all add: FLASH_PAGE_SIZE_def)
  moreover have "?at + y + ?r \<le> length (xip pl w1)" using ysec fits1 by simp
  note sf = sector_fill [OF y(1) page this 1(4), folded 2(3)]
  ultimately show thesis using that 2(2) sf 1(5) by simp
qed

end

section \<open>The payload is consumed\<close>

lemma drop_piece:
  assumes "p = subarr k (length p) x"
  shows "drop j p = subarr (k + j) (length (drop j p)) x"
proof -
  have "drop j p = subarr (k + j) (length p - j) x" by (subst assms) (unfold subarr_def drop_take drop_drop, simp add: add.commute)
  then show ?thesis unfolding length_drop .
qed

text \<open>
  The writer has got \<open>j\<close> bytes of the payload: the whole pages are in the slot, the rest in the page buffer, and all of
  it in the hash.
\<close>

definition payload_fed :: "rp_config \<Rightarrow> 'w rp_platform \<Rightarrow> bytes \<Rightarrow> nat \<Rightarrow> ota_writer \<Rightarrow> 'w \<Rightarrow> bool" where
  "payload_fed c pl payload j s w \<longleftrightarrow> (\<exists>y u. j = y + u \<and> 256 dvd y \<and> u < 256 \<and> j \<le> length payload \<and>
     unat (payload_received s) = j \<and> page_used s = u \<and> ow_page s = subarr y u payload @ replicate (256 - u) 0xFF \<and>
     ctx_holds (ow_sha256 s) (take j payload) \<and> s_initialized (ow_sha256 s) \<and>
     subarr (HAL_RP_OTA_STAGING_OFFSET c) y (xip pl w) = take y payload \<and>
     sector_open (HAL_RP_OTA_STAGING_OFFSET c) y (xip pl w))"

lemma fill_page_eq:
  assumes "s_initialized (ow_sha256 s)" "chunk \<le> length data"
  shows "fill_page s data chunk =
    (s\<lparr>ow_page := blit (ow_page s) (page_used s) (take chunk data), ow_sha256 := jh_sha256_update (ow_sha256 s) (take chunk data),
       page_used := page_used s + chunk, payload_received := payload_received s + of_nat chunk\<rparr>, HAL_OK)"
  using assms by (simp add: fill_page_def hal_sha256_update_ex_def Let_def)

context rp_ota_steady
begin

lemma feed_step:
  assumes on: "steady w" and good: "ota_good c pl w" and part: "ow_staging s = staging_part"
    and fed: "payload_fed c pl payload j s w" and data: "data = subarr j (length data) payload" "data \<noteq> []"
      "j + length data \<le> length payload"
    and fits: "length payload \<le> HAL_RP_OTA_SLOT_SIZE c" "length payload < 2 ^ 32"
    and chunk: "chunk = min (length data) (256 - page_used s)"
  obtains s1 s' w' where "fill_page s data chunk = (s1, HAL_OK)"
    "(if page_used s1 = 256 then flush_page pl s1 w else (s1, w, HAL_OK)) = (s', w', HAL_OK)"
    "payload_fed c pl payload (j + chunk) s' w'" "steady w'" "upload_frame w w'" "kept_writer s s'" "0 < chunk" "chunk \<le> length data"
proof -
  let ?at = "HAL_RP_OTA_STAGING_OFFSET c"
  obtain y u where j: "j = y + u" "256 dvd y" "u < 256" "unat (payload_received s) = j" "page_used s = u"
    "ow_page s = subarr y u payload @ replicate (256 - u) 0xFF" "ctx_holds (ow_sha256 s) (take j payload)"
    "s_initialized (ow_sha256 s)" "subarr ?at y (xip pl w) = take y payload" "sector_open ?at y (xip pl w)"
    using fed unfolding payload_fed_def by blast
  have ch: "0 < chunk" "chunk \<le> length data" "chunk \<le> 256 - u" "j + chunk \<le> length payload"
    using chunk data(2,3) j(3,5) by (auto simp: min_def)
  have piece: "take chunk data = subarr j chunk payload" using ch(2) by (subst data(1)) (simp add: subarr_def min_def)
  let ?s1 = "s\<lparr>ow_page := blit (ow_page s) u (subarr j chunk payload), ow_sha256 := jh_sha256_update (ow_sha256 s) (subarr j chunk payload),
       page_used := u + chunk, payload_received := payload_received s + of_nat chunk\<rparr>"
  have fill: "fill_page s data chunk = (?s1, HAL_OK)" using fill_page_eq [OF j(8) ch(2)] by (simp add: piece j(5))
  have len: "length (subarr y u payload) = u" "length (subarr j chunk payload) = chunk" using ch(4) j(1) by simp_all
  have page: "ow_page ?s1 = subarr y (u + chunk) payload @ replicate (256 - (u + chunk)) 0xFF"
    using len ch(3) j(1) by (simp add: j(6) blit_def subarr_append)
  have hash: "ctx_holds (ow_sha256 ?s1) (take (j + chunk) payload)" "s_initialized (ow_sha256 ?s1)"
    using update_holds [OF j(7), of "subarr j chunk payload"] j(8) by (simp_all add: subarr_def take_add)
  have got: "unat (payload_received ?s1) = y + (u + chunk)"
  proof -
    have "unat (payload_received s) + chunk < 2 ^ LENGTH(32)" "chunk < 2 ^ LENGTH(32)" using j(4) ch(4) fits(2) by simp_all
    then have "unat (payload_received s + of_nat chunk) = unat (payload_received s) + chunk" by (simp add: unat_word_ariths unat_of_nat)
    then show ?thesis using j(1,4) by simp
  qed
  note kept = fill_kept(1) [OF fill]
  show thesis
  proof (cases "u + chunk = 256")
    case False
    then have "u + chunk < 256" using ch(3) j(3) by linarith
    then have "payload_fed c pl payload (j + chunk) ?s1 w"
      using j(1,2,9,10) ch(4) page hash got unfolding payload_fed_def by - (rule exI [of _ y], rule exI [of _ "u + chunk"], simp)
    then show thesis using that [OF fill, of ?s1 w] on kept ch False by simp
  next
    case True
    have slot: "y + 256 \<le> HAL_RP_OTA_SLOT_SIZE c" using ch(4) j(1) True fits(1) by linarith
    have full: "ow_page ?s1 = subarr y 256 payload" "length (ow_page ?s1) = 256" using page True ch(4) j(1) by simp_all
    have got': "unat (payload_received ?s1) = y + 256" "page_used ?s1 = 256" "ow_staging ?s1 = staging_part" using got True part by simp_all
    obtain w' where w': "flush_page pl ?s1 w = (?s1\<lparr>page_used := 0, ow_page := replicate 256 0xFF\<rparr>, w', HAL_OK)" "steady w'"
      "subarr ?at y (xip pl w') = subarr ?at y (xip pl w)" "subarr (?at + y) 256 (xip pl w') = ow_page ?s1"
      "sector_open ?at (y + 256) (xip pl w')"
      by (rule flush_live [OF on good got'(3,2) _ _ got'(1) j(2) slot full(2) j(10)]) simp_all
    let ?s2 = "?s1\<lparr>page_used := 0, ow_page := replicate 256 0xFF\<rparr>"
    have "subarr ?at (y + 256) (xip pl w') = take (y + 256) payload"
      unfolding subarr_append w'(3,4) j(9) full(1) by (simp add: take_add subarr_def)
    then have "payload_fed c pl payload (j + chunk) ?s2 w'"
      unfolding payload_fed_def using j(1,2) ch(4) hash got' True w'(5) by - (rule exI [of _ "y + 256"], rule exI [of _ 0], simp)
    moreover have "upload_frame w w'" "kept_writer ?s1 ?s2" using flush_frame [OF w'(1) got'(3) good] by blast+
    ultimately show thesis using that [OF fill, of ?s2 w'] w'(1,2) kept_writer_trans [OF kept] ch True by simp
  qed
qed

text \<open>The loop consumes it all, whatever the length.\<close>

lemma consume_live:
  assumes "steady w" "ota_good c pl w" "ow_staging s = staging_part" "payload_fed c pl payload j s w"
    and "data = subarr j (length data) payload" "j + length data \<le> length payload"
    and fits: "length payload \<le> HAL_RP_OTA_SLOT_SIZE c" "length payload < 2 ^ 32"
  shows "\<exists>s' w'. consume_payload pl s w data = Some (s', w', HAL_OK) \<and> payload_fed c pl payload (j + length data) s' w' \<and>
    steady w' \<and> upload_frame w w' \<and> kept_writer s s'"
  using assms(1-6)
proof (induction "length data" arbitrary: s w data j rule: less_induct)
  case less
  show ?case
  proof (cases "data = []")
    case True
    then have "consume_payload pl s w data = Some (s, w, HAL_OK)" by (subst consume_payload.simps) simp
    then show ?thesis using less.prems True by simp
  next
    case False
    define chunk where "chunk = min (length data) (256 - page_used s)"
    obtain s1 s2 w2 where st: "fill_page s data chunk = (s1, HAL_OK)"
      "(if page_used s1 = 256 then flush_page pl s1 w else (s1, w, HAL_OK)) = (s2, w2, HAL_OK)"
      "payload_fed c pl payload (j + chunk) s2 w2" "steady w2" "upload_frame w w2" "kept_writer s s2" "0 < chunk" "chunk \<le> length data"
      by (rule feed_step [OF less.prems(1-5) False less.prems(6) fits chunk_def])
    have unfold: "consume_payload pl s w data = consume_payload pl s2 w2 (drop chunk data)"
      using False st(1,2) by (subst consume_payload.simps) (simp add: FLASH_PAGE_SIZE_def Let_def flip: chunk_def)
    let ?rest = "drop chunk data"
    have rest: "length ?rest < length data" "?rest = subarr (j + chunk) (length ?rest) payload" "j + chunk + length ?rest \<le> length payload"
      using drop_piece [OF less.prems(5)] st(7,8) less.prems(6) by simp_all
    have good: "ota_good c pl w2" "ow_staging s2 = staging_part"
      using st(5,6) less.prems(2,3) by (simp_all add: upload_frame_def kept_writer_def)
    obtain s' w' where r: "consume_payload pl s2 w2 ?rest = Some (s', w', HAL_OK)"
      "payload_fed c pl payload (j + chunk + length ?rest) s' w'" "steady w'" "upload_frame w2 w'" "kept_writer s2 s'"
      using less.hyps [OF rest(1) st(4) good st(3) rest(2,3)] by blast
    have "j + chunk + length ?rest = j + length data" using st(8) by simp
    then show ?thesis
      using r unfold upload_frame_trans [OF st(5) r(4)] kept_writer_trans [OF st(6) r(5)] by simp
  qed
qed

section \<open>A container is written\<close>

lemma prepare_live:
  assumes m: "manifest_accepted c b key m" and s: "ow_header s = manifest_record m" "container_size s = 160 + om_payload_size m"
    "authentication_key_size s \<le> length (authentication_key s)" "take (authentication_key_size s) (authentication_key s) = key"
  shows "prepare_staging c b s = Some (s\<lparr>ow_manifest := m, ow_staging := staging_part, ow_sha256 := jh_sha256_init (ow_sha256 s),
    ow_page := replicate 256 0xFF, staging_ready := True\<rparr>, HAL_OK)"
proof -
  have ok: "manifest_ok m" "om_signature m = hmac key (manifest_front m)" "om_target m = jh_ota_current_target b"
    "unat (om_program_offset m) = HAL_RP_OTA_PROGRAM_OFFSET c" "om_payload_size m \<noteq> 0" "unat (om_payload_size m) \<le> HAL_RP_OTA_SLOT_SIZE c"
    using m by (simp_all add: manifest_accepted_def)
  have "jh_ota_image_manifest_verify m (Some (authentication_key s)) (authentication_key_size s) = Some HAL_OK"
    using verify_manifest [OF ok(1) s(3)] s(4) ok(2) by simp
  then show ?thesis
    using ok(3-6) s(2) by (simp add: prepare_staging_def s(1) decode_manifest [OF ok(1)] Let_def partitions hal_sha256_init_ex_def
        JH_OTA_IMAGE_HEADER_SIZE_def FLASH_PAGE_SIZE_def)
qed

end

text \<open>
  The writer has got \<open>k\<close> bytes of the container: of its header, which is the record of the manifest, or the header and
  some of the payload.
\<close>

definition container_fed ::
  "rp_config \<Rightarrow> 'w rp_platform \<Rightarrow> bytes \<Rightarrow> ota_manifest \<Rightarrow> bytes \<Rightarrow> nat \<Rightarrow> ota_writer \<Rightarrow> 'w \<Rightarrow> bool" where
  "container_fed c pl key m payload k s w \<longleftrightarrow> ow_active s \<and> container_size s = 160 + om_payload_size m \<and>
     unat (container_received s) = k \<and> k \<le> 160 + length payload \<and>
     authentication_key_size s \<le> length (authentication_key s) \<and> take (authentication_key_size s) (authentication_key s) = key \<and>
     (if k < 160 then \<not> staging_ready s \<and> header_used s = k \<and> length (ow_header s) = 160 \<and>
        take k (ow_header s) = take k (manifest_record m) \<and> page_used s = 0 \<and> payload_received s = 0 \<and> length (s_buffer (ow_sha256 s)) = 64
      else staging_ready s \<and> header_used s = 160 \<and> ow_manifest s = m \<and>
        ow_staging s = \<lparr>flash_offset = HAL_RP_OTA_STAGING_OFFSET c, part_size = HAL_RP_OTA_SLOT_SIZE c\<rparr> \<and>
        payload_fed c pl payload (k - 160) s w)"

text \<open>A container that fits: its manifest is accepted, and its length is the one the manifest gives.\<close>

definition container_ok :: "rp_config \<Rightarrow> ota_build \<Rightarrow> bytes \<Rightarrow> ota_manifest \<Rightarrow> bytes \<Rightarrow> bool" where
  "container_ok c b key m payload \<longleftrightarrow> manifest_accepted c b key m \<and> length payload = unat (om_payload_size m) \<and>
     160 + length payload < 2 ^ 32"

lemma payload_fed_start:
  assumes "length (s_buffer ctx) = 64" "payload_received s = 0" "page_used s = 0" "ow_page s = replicate 256 0xFF"
    "ow_sha256 s = jh_sha256_init ctx"
  shows "payload_fed c pl payload 0 s w"
proof -
  have "ctx_holds (ow_sha256 s) []" "s_initialized (ow_sha256 s)"
    using ctx_holds_init [OF assms(1)] by (simp_all add: assms(5) jh_sha256_init_def)
  then show ?thesis
    unfolding payload_fed_def by - (rule exI [of _ 0], rule exI [of _ 0], simp add: assms sector_open_def)
qed

lemma payload_fed_cong:
  "payload_fed c pl payload j (s\<lparr>container_received := r\<rparr>) w = payload_fed c pl payload j s w"
  by (simp add: payload_fed_def)

context rp_ota_steady
begin

text \<open>The header is complete, or not yet.\<close>

lemma header_live:
  assumes ok: "container_ok c b key m payload" and fed: "container_fed c pl key m payload k s w" "k < 160"
    and p: "p = subarr k (length p) (manifest_record m @ payload)" "p \<noteq> []" "k + length p \<le> 160 + length payload"
    and chunk: "chunk = min (length p) (160 - header_used s)"
    and t: "t = s\<lparr>ow_header := blit (ow_header s) (header_used s) (take chunk p), header_used := header_used s + chunk,
      container_received := container_received s + of_nat chunk\<rparr>"
  shows "header_used t = k + chunk" "0 < chunk" "chunk \<le> length p"
    "k + chunk < 160 \<Longrightarrow> container_fed c pl key m payload (k + chunk) t w \<and> chunk = length p"
    "k + chunk = 160 \<Longrightarrow> \<exists>t'. prepare_staging c b t = Some (t', HAL_OK) \<and> container_fed c pl key m payload 160 t' w"
proof -
  have f: "ow_active s" "container_size s = 160 + om_payload_size m" "unat (container_received s) = k"
    "authentication_key_size s \<le> length (authentication_key s)" "take (authentication_key_size s) (authentication_key s) = key"
    "\<not> staging_ready s" "header_used s = k" "length (ow_header s) = 160" "take k (ow_header s) = take k (manifest_record m)"
    "page_used s = 0" "payload_received s = 0" "length (s_buffer (ow_sha256 s)) = 64"
    using fed by (simp_all add: container_fed_def)
  have m: "manifest_accepted c b key m" "length (manifest_record m) = 160" using ok by (simp_all add: container_ok_def manifest_accepted_def)
  show used: "header_used t = k + chunk" using f(7) by (simp add: t)
  show ch: "0 < chunk" "chunk \<le> length p" using chunk p(2) fed(2) f(7) by (auto simp: min_def)
  have le: "k + chunk \<le> 160" using chunk f(7) fed(2) by simp
  have "take chunk p = subarr k chunk (manifest_record m @ payload)" using ch(2) by (subst p(1)) (simp add: subarr_def min_def)
  then have piece: "take chunk p = subarr k chunk (manifest_record m)" using le m(2) by (simp add: subarr_append_left)
  have head: "length (ow_header t) = 160" "take (k + chunk) (ow_header t) = take (k + chunk) (manifest_record m)"
  proof -
    have len: "length (take chunk p) = chunk" using ch(2) by simp
    show "length (ow_header t) = 160" using f(7,8) le len by (simp add: t)
    have "take (k + chunk) (ow_header t) = take k (ow_header s) @ take chunk p"
      using f(7,8) le len by (simp add: t blit_def)
    then show "take (k + chunk) (ow_header t) = take (k + chunk) (manifest_record m)"
      unfolding piece f(9) by (simp add: take_add subarr_def)
  qed
  have "unat (container_received s) + chunk < 2 ^ LENGTH(32)" "chunk < 2 ^ LENGTH(32)" using f(3) le by simp_all
  then have got: "unat (container_received t) = k + chunk" using f(3) by (simp add: t unat_word_ariths unat_of_nat)
  have bound: "k + chunk \<le> 160 + length payload" using ch(2) p(3) by linarith
  show "container_fed c pl key m payload (k + chunk) t w \<and> chunk = length p" if "k + chunk < 160"
  proof
    show "container_fed c pl key m payload (k + chunk) t w"
      using f that used head got bound by (simp add: container_fed_def) (simp add: t)
    show "chunk = length p" using chunk that f(7) by (simp add: min_def split: if_splits)
  qed
  show "\<exists>t'. prepare_staging c b t = Some (t', HAL_OK) \<and> container_fed c pl key m payload 160 t' w" if full: "k + chunk = 160"
  proof -
    have t1: "ow_header t = manifest_record m" using head m(2) full by simp
    have t2: "container_size t = 160 + om_payload_size m" "authentication_key_size t \<le> length (authentication_key t)"
      "take (authentication_key_size t) (authentication_key t) = key" using f by (simp_all add: t)
    let ?t' = "t\<lparr>ow_manifest := m, ow_staging := staging_part, ow_sha256 := jh_sha256_init (ow_sha256 t),
      ow_page := replicate 256 0xFF, staging_ready := True\<rparr>"
    have "payload_fed c pl payload 0 ?t' w" by (rule payload_fed_start [of "ow_sha256 t"]) (use f in \<open>simp_all add: t\<close>)
    then have "container_fed c pl key m payload 160 ?t' w"
      using f(1) t2 got full used by (simp add: container_fed_def) (simp add: t)
    then show ?thesis using prepare_live [OF m(1) t1 t2] by blast
  qed
qed

text \<open>What follows the header goes into the slot.\<close>

lemma rest_live:
  assumes ok: "container_ok c b key m payload" and fed: "container_fed c pl key m payload k s w" "160 \<le> k"
    and w: "steady w" "ota_good c pl w"
    and p: "p = subarr k (length p) (manifest_record m @ payload)" "k + length p \<le> 160 + length payload"
  shows "payload_received s + of_nat (length p) \<le> om_payload_size (ow_manifest s)"
    "\<exists>s' w'. consume_payload pl s w p = Some (s', w', HAL_OK) \<and> steady w' \<and> upload_frame w w' \<and>
       container_fed c pl key m payload (k + length p) (s'\<lparr>container_received := container_received s' + of_nat (length p)\<rparr>) w'"
proof -
  have m: "length (manifest_record m) = 160" "length payload = unat (om_payload_size m)" "unat (om_payload_size m) \<le> HAL_RP_OTA_SLOT_SIZE c"
    "160 + length payload < 2 ^ 32" using ok by (simp_all add: container_ok_def manifest_accepted_def)
  have f: "ow_manifest s = m" "ow_staging s = staging_part" "payload_fed c pl payload (k - 160) s w" "unat (container_received s) = k"
    using fed by (simp_all add: container_fed_def)
  have got: "unat (payload_received s) = k - 160" using f(3) by (auto simp: payload_fed_def)
  have piece: "p = subarr (k - 160) (length p) payload" using p(1) fed(2) m(1) by (simp add: subarr_append_right)
  have bound: "k - 160 + length p \<le> length payload" using p(2) fed(2) by linarith
  have "unat (payload_received s) + length p < 2 ^ LENGTH(32)" "length p < 2 ^ LENGTH(32)" using got bound m(4) by simp_all
  then have "unat (payload_received s + of_nat (length p)) = k - 160 + length p" using got by (simp add: unat_word_ariths unat_of_nat)
  then show "payload_received s + of_nat (length p) \<le> om_payload_size (ow_manifest s)" using bound m(2) f(1) by (simp add: word_le_nat_alt)
  have fits: "length payload \<le> HAL_RP_OTA_SLOT_SIZE c" "length payload < 2 ^ 32" using m by simp_all
  obtain s' w' where r: "consume_payload pl s w p = Some (s', w', HAL_OK)" "payload_fed c pl payload (k - 160 + length p) s' w'"
    "steady w'" "upload_frame w w'" "kept_writer s s'"
    using consume_live [OF w f(2,3) piece bound fits] by blast
  have "unat (container_received s) + length p < 2 ^ LENGTH(32)" "length p < 2 ^ LENGTH(32)" using f(4) p(2) m(4) by simp_all
  then have "unat (container_received s' + of_nat (length p)) = k + length p"
    using r(5) f(4) by (simp add: kept_writer_def unat_word_ariths unat_of_nat)
  moreover have "k - 160 + length p = k + length p - 160" using fed(2) by simp
  ultimately have "container_fed c pl key m payload (k + length p) (s'\<lparr>container_received := container_received s' + of_nat (length p)\<rparr>) w'"
    using fed r(2,5) p(2) by (simp add: container_fed_def payload_fed_cong kept_writer_def)
  then show "\<exists>s' w'. consume_payload pl s w p = Some (s', w', HAL_OK) \<and> steady w' \<and> upload_frame w w' \<and>
       container_fed c pl key m payload (k + length p) (s'\<lparr>container_received := container_received s' + of_nat (length p)\<rparr>) w'"
    using r by blast
qed

lemma write_live:
  assumes ok: "container_ok c b key m payload" and fed: "container_fed c pl key m payload k s w"
    and w: "steady w" "ota_good c pl w"
    and p: "p = subarr k (length p) (manifest_record m @ payload)" "p \<noteq> []" "k + length p \<le> 160 + length payload"
  shows "\<exists>s' w'. jh_rp_ota_storage_write c b pl s w (Some p) (length p) True = Some (s', w', Some (length p), HAL_OK) \<and>
    container_fed c pl key m payload (k + length p) s' w' \<and> steady w' \<and> upload_frame w w'"
proof -
  have m: "length (manifest_record m) = 160" "length payload = unat (om_payload_size m)" "160 + length payload < 2 ^ 32"
    using ok by (simp_all add: container_ok_def manifest_accepted_def)
  have f: "ow_active s" "container_size s = 160 + om_payload_size m" "unat (container_received s) = k"
    "header_used s = (if k < 160 then k else 160)" using fed by (auto simp: container_fed_def)
  have "unat (160 + om_payload_size m) = 160 + length payload" using m(2,3) by (simp add: unat_word_ariths)
  then have left: "unat (container_size s - container_received s) = 160 + length payload - k"
    using f(2,3) p(3) by (simp add: unat_sub word_le_nat_alt)
  define head where "head = (if header_used s < JH_OTA_IMAGE_HEADER_SIZE then
       let remaining = JH_OTA_IMAGE_HEADER_SIZE - header_used s; chunk = min (length p) remaining;
           s = s\<lparr>ow_header := blit (ow_header s) (header_used s) (take chunk p),
                 header_used := header_used s + chunk, container_received := container_received s + of_nat chunk\<rparr>
       in if header_used s = JH_OTA_IMAGE_HEADER_SIZE
          then do { (s, status) \<leftarrow> prepare_staging c b s; Some (s, drop chunk p, status) }
          else Some (s, drop chunk p, HAL_OK)
     else Some (s, p, HAL_OK))"
  have "\<exists>s1 rest k1. head = Some (s1, rest, HAL_OK) \<and> container_fed c pl key m payload k1 s1 w \<and> (rest \<noteq> [] \<longrightarrow> 160 \<le> k1) \<and>
      rest = subarr k1 (length rest) (manifest_record m @ payload) \<and> k1 + length rest = k + length p"
  proof (cases "k < 160")
    case False
    then have "head = Some (s, p, HAL_OK)" using f(4) by (simp add: head_def JH_OTA_IMAGE_HEADER_SIZE_def)
    then show ?thesis using fed p(1) False by (intro exI [of _ s] exI [of _ p] exI [of _ k]) simp
  next
    case True
    define chunk where "chunk = min (length p) (160 - header_used s)"
    define t where "t = s\<lparr>ow_header := blit (ow_header s) (header_used s) (take chunk p), header_used := header_used s + chunk,
      container_received := container_received s + of_nat chunk\<rparr>"
    note h = header_live [OF ok fed True p chunk_def t_def]
    have head: "head = (if k + chunk = 160 then do { (s, status) \<leftarrow> prepare_staging c b t; Some (s, drop chunk p, status) }
        else Some (t, drop chunk p, HAL_OK))"
      using True f(4) h(1) unfolding head_def JH_OTA_IMAGE_HEADER_SIZE_def Let_def chunk_def [symmetric] t_def [symmetric] by simp
    note rest = drop_piece [OF p(1), of chunk]
    have total: "k + chunk + length (drop chunk p) = k + length p" using h(3) by simp
    show ?thesis
    proof (cases "k + chunk = 160")
      case full: True
      then obtain t' where t': "prepare_staging c b t = Some (t', HAL_OK)" "container_fed c pl key m payload 160 t' w" using h(5) by blast
      then have "head = Some (t', drop chunk p, HAL_OK)" using head full by simp
      then show ?thesis using t'(2) rest [unfolded full] total [unfolded full] by blast
    next
      case False
      have "k + chunk < 160" using False True f(4) by (simp add: chunk_def)
      then have "container_fed c pl key m payload (k + chunk) t w" "chunk = length p" using h(4) by blast+
      then show ?thesis using head False by (intro exI [of _ t] exI [of _ "[]"] exI [of _ "k + chunk"]) simp
    qed
  qed
  then obtain s1 rest k1 where s1: "head = Some (s1, rest, HAL_OK)" "container_fed c pl key m payload k1 s1 w" "rest \<noteq> [] \<longrightarrow> 160 \<le> k1"
    "rest = subarr k1 (length rest) (manifest_record m @ payload)" "k1 + length rest = k + length p" by blast
  have run: "jh_rp_ota_storage_write c b pl s w (Some p) (length p) True =
      (if rest = [] then Some (s1, w, Some (length p), HAL_OK)
       else if \<not> staging_ready s1 \<or> payload_received s1 + of_nat (length rest) > om_payload_size (ow_manifest s1)
       then Some (s1, w, None, HAL_EOVERFLOW)
       else do {
         (s, w, status) \<leftarrow> consume_payload pl s1 w rest;
         if status \<noteq> HAL_OK then Some (s, w, None, status)
         else Some (s\<lparr>container_received := container_received s + of_nat (length rest)\<rparr>, w, Some (length p), HAL_OK)
       })"
  proof -
    have guard: "\<not> (\<not> ow_active s \<or> Some p = None \<or> length p = 0 \<or> \<not> True \<or> length p > unat (container_size s - container_received s))"
      using f(1) p(2,3) left by simp
    have input: "take (length p) (the (Some p)) = p" by simp
    show ?thesis unfolding jh_rp_ota_storage_write_def if_not_P [OF guard] Let_def input
      using s1(1) unfolding head_def Let_def by simp
  qed
  show ?thesis
  proof (cases "rest = []")
    case True
    then show ?thesis using run s1(2,5) w(1) by simp
  next
    case False
    then have k1: "160 \<le> k1" using s1(3) by blast
    have bound: "k1 + length rest \<le> 160 + length payload" using s1(5) p(3) by simp
    note r = rest_live [OF ok s1(2) k1 w s1(4) bound]
    have "staging_ready s1" using s1(2) k1 by (simp add: container_fed_def)
    obtain s' w' where c: "consume_payload pl s1 w rest = Some (s', w', HAL_OK)" "steady w'" "upload_frame w w'"
      "container_fed c pl key m payload (k1 + length rest) (s'\<lparr>container_received := container_received s' + of_nat (length rest)\<rparr>) w'"
      using r(2) by blast
    have "\<not> (\<not> staging_ready s1 \<or> payload_received s1 + of_nat (length rest) > om_payload_size (ow_manifest s1))"
      using r(1) \<open>staging_ready s1\<close> by (simp add: not_less)
    then show ?thesis unfolding run if_not_P [OF False] using c s1(5) by simp
  qed
qed

end

end
