(* ===== verification/Rp_Ota_Accept.thy ===== *)
theory Rp_Ota_Accept
  imports Rp_Ota_Feed
begin

text \<open>
  The whole of an upload with a power supply that stays on: begun on a device where no update is under way, fed with a
  container in any pieces, finished. The request is stored, and the boot image will make the exchange.
\<close>

section \<open>The pieces of a container\<close>

text \<open>The pieces are written one after the other, up to the first that is not taken in full.\<close>

primrec write_pieces ::
  "rp_config \<Rightarrow> ota_build \<Rightarrow> 'w rp_platform \<Rightarrow> bytes list \<Rightarrow> ota_writer \<Rightarrow> 'w \<Rightarrow> (ota_writer \<times> 'w \<times> bool) option" where
  "write_pieces c b pl [] s w = Some (s, w, True)"
| "write_pieces c b pl (p # ps) s w = do {
     (s, w, written, status) \<leftarrow> jh_rp_ota_storage_write c b pl s w (Some p) (length p) True;
     if status = HAL_OK \<and> written = Some (length p) then write_pieces c b pl ps s w else Some (s, w, False)
   }"

lemma write_pieces_session:
  "ota_session c b pl key a s w \<Longrightarrow> write_pieces c b pl ps s w = Some (s', w', ok) \<Longrightarrow> ota_session c b pl key a s' w'"
proof (induction ps arbitrary: s w)
  case (Cons p ps)
  obtain s1 w1 wr st where r: "jh_rp_ota_storage_write c b pl s w (Some p) (length p) True = Some (s1, w1, wr, st)"
    using Cons.prems(2) by (cases "jh_rp_ota_storage_write c b pl s w (Some p) (length p) True") auto
  have "ota_session c b pl key a s1 w1" by (rule ota_session.written [OF Cons.prems(1) _ r]) simp
  then show ?case using Cons.IH Cons.prems(2) r by (auto split: if_splits)
qed simp

context rp_ota_steady
begin

lemma pieces_live:
  assumes ok: "container_ok c b key m payload" and fed: "container_fed c pl key m payload k s w"
    and w: "steady w" "ota_good c pl w"
    and ps: "concat ps = drop k (manifest_record m @ payload)" "[] \<notin> set ps"
  shows "\<exists>s' w'. write_pieces c b pl ps s w = Some (s', w', True) \<and> container_fed c pl key m payload (160 + length payload) s' w' \<and>
    steady w' \<and> upload_frame w w'"
  using fed w ps
proof (induction ps arbitrary: k s w)
  case Nil
  have "length (manifest_record m) = 160" using ok by (simp add: container_ok_def manifest_accepted_def)
  moreover have "k \<le> 160 + length payload" using Nil.prems(1) by (simp add: container_fed_def)
  moreover have "160 + length payload \<le> k" using Nil.prems(4) calculation(1) by auto
  ultimately have "k = 160 + length payload" by linarith
  then show ?case using Nil.prems by simp
next
  case (Cons p ps)
  let ?all = "manifest_record m @ payload"
  have len: "length ?all = 160 + length payload" using ok by (simp add: container_ok_def manifest_accepted_def)
  have split: "p @ concat ps = drop k ?all" using Cons.prems(4) by simp
  have "length p + length (concat ps) = 160 + length payload - k" using arg_cong [OF split, of length] len by simp
  moreover have "k \<le> 160 + length payload" using Cons.prems(1) by (simp add: container_fed_def)
  ultimately have fits: "k + length p \<le> 160 + length payload" by linarith
  have piece: "p = subarr k (length p) ?all" using conjunct1 [OF split [unfolded append_eq_conv_conj]] unfolding subarr_def .
  have rest: "concat ps = drop (k + length p) ?all"
    using conjunct2 [OF split [unfolded append_eq_conv_conj]] unfolding drop_drop add.commute [of "length p"] .
  have ne: "p \<noteq> []" "[] \<notin> set ps" using Cons.prems(5) by auto
  obtain s1 w1 where 1: "jh_rp_ota_storage_write c b pl s w (Some p) (length p) True = Some (s1, w1, Some (length p), HAL_OK)"
    "container_fed c pl key m payload (k + length p) s1 w1" "steady w1" "upload_frame w w1"
    using write_live [OF ok Cons.prems(1-3) piece ne(1) fits] by blast
  have "ota_good c pl w1" using 1(4) Cons.prems(3) by (simp add: upload_frame_def)
  from Cons.IH [OF 1(2,3) this rest ne(2)] obtain s' w' where 2: "write_pieces c b pl ps s1 w1 = Some (s', w', True)"
    "container_fed c pl key m payload (160 + length payload) s' w'" "steady w'" "upload_frame w1 w'" by blast
  then show ?case using 1(1) upload_frame_trans [OF 1(4) 2(4)] by simp
qed

text \<open>The session begins.\<close>

lemma begin_live:
  assumes ok: "container_ok c b (take kn k) m payload" and good: "ota_good c pl w" and idle: "ota_idle c pl w"
    and s: "\<not> ow_active s" and k: "kn \<le> length k" "kn \<le> HAL_MD5_HEX_BUF_SIZE"
  shows "\<exists>s'. jh_rp_ota_storage_begin c pl s w (of_nat (160 + length payload)) (Some k) kn = (s', HAL_OK) \<and>
    container_fed c pl (take kn k) m payload 0 s' w"
proof -
  have m: "om_payload_size m \<noteq> 0" "length payload = unat (om_payload_size m)" "160 + length payload < 2 ^ 32"
    using ok by (simp_all add: container_ok_def manifest_accepted_def)
  have pos: "0 < length payload" using m(1,2) by (simp add: unat_gt_0)
  have len: "unat (of_nat (160 + length payload) :: u32) = 160 + length payload"
    by (rule unat_of_nat_less) (use m(3) in simp)
  have loaded: "(if rp_read_state c pl w = None then HAL_ENOENT else HAL_OK) = HAL_OK \<or>
      (if rp_read_state c pl w = None then HAL_ENOENT else HAL_OK) = HAL_ENOENT" by simp
  obtain s' where run: "jh_rp_ota_storage_begin c pl s w (of_nat (160 + length payload)) (Some k) kn = (s', HAL_OK)"
    using len pos s k(2) idle unfolding jh_rp_ota_storage_begin_def load_state_eq [OF good] Let_def
    by (cases "rp_read_state c pl w") (auto simp: ota_idle_def JH_OTA_IMAGE_HEADER_SIZE_def)
  have s': "s' = (if kn > 0 then zero_writer\<lparr>ow_active := True, container_size := of_nat (160 + length payload),
        authentication_key := blit (replicate 33 0) 0 (take kn k)\<rparr>
      else zero_writer\<lparr>ow_active := True, container_size := of_nat (160 + length payload)\<rparr>)\<lparr>authentication_key_size := kn\<rparr>"
    using run unfolding jh_rp_ota_storage_begin_def Let_def
    by (auto simp: HAL_MD5_HEX_BUF_SIZE_def zero_writer_def split: if_splits prod.splits)
  have "(of_nat (160 + length payload) :: u32) = 160 + om_payload_size m" using m(2) by simp
  then have "container_fed c pl (take kn k) m payload 0 s' w"
    using k unfolding s'
    by (cases "kn = 0") (simp_all add: container_fed_def zero_writer_def stack_context_def JH_OTA_IMAGE_HEADER_SIZE_def
        HAL_MD5_HEX_BUF_SIZE_def blit_def)
  then show ?thesis using run by blast
qed

end

section \<open>The request\<close>

text \<open>The linker placed the program in its slot, so that the first boot record can be made from it.\<close>

definition factory_fits :: "rp_config \<Rightarrow> ota_build \<Rightarrow> bool" where
  "factory_fits c b \<longleftrightarrow> XIP_BASE b + HAL_RP_OTA_PROGRAM_OFFSET c \<le> flash_binary_start b \<and>
     flash_binary_start b < flash_binary_end b \<and> flash_binary_end b - flash_binary_start b \<le> HAL_RP_OTA_SLOT_SIZE c \<and>
     flash_binary_end b - flash_binary_start b < 2 ^ 32"

context rp_ota_steady
begin

lemma write_state_live:
  assumes on: "steady w" and good: "ota_good c pl w" and wf: "boot_state_wf st" and ix: "ix = 0 \<or> ix = 1"
  obtains w' where "write_state c pl w st ix = (w', HAL_OK)" "steady w'"
proof -
  let ?at = "record_offset (other ix)" and ?data = "state_record st"
  let ?part = "\<lparr>flash_offset = ?at, part_size = 4096\<rparr>"
  have "(if ix XOR 1 = 0 then 0 else 1) = other ix" using ix by auto
  then have part: "state_partition c (ix XOR 1) = (Some ?part, HAL_OK)" using partitions(4) [of "ix XOR 1"] by simp
  have place: "4096 dvd flash_offset ?part + 0" "flash_offset ?part + part_size ?part \<le> length (xip pl w)"
    using record_place [OF good] by simp_all
  obtain w1 where 1: "jh_rp_flash_storage_erase pl w ?part 0 4096 = (w1, HAL_OK)" "steady w1"
    "xip pl w1 = blit (xip pl w) (flash_offset ?part + 0) (replicate 4096 0xFF)"
    by (rule storage_erase_live [OF on place(1) dvd_refl _ _ place(2)]) simp_all
  have dl: "length ?data = 256" using wf by simp
  have len1: "length (xip pl w1) = length (xip pl w)" using place(2) by (simp add: 1(3))
  have "subarr ?at 4096 (xip pl w1) = replicate 4096 0xFF" using place(2) by (simp add: 1(3))
  then have "take 256 (subarr ?at 4096 (xip pl w1)) = replicate 256 0xFF" by simp
  then have erased: "subarr ?at 256 (xip pl w1) = replicate 256 0xFF" by (simp add: subarr_def)
  obtain w2 where 2: "jh_rp_flash_storage_program pl w1 ?part 0 ?data = (w2, HAL_OK)" "steady w2"
  proof (rule storage_program_live [OF 1(2), of ?part 0 ?data])
    show "256 dvd flash_offset ?part + 0" using place(1) dvd_trans [of 256 4096] by auto
    show "256 dvd length ?data" "?data \<noteq> []" using dl by auto
    show "0 + length ?data \<le> part_size ?part" using dl by simp
    show "flash_offset ?part + part_size ?part \<le> length (xip pl w1)" using place(2) len1 by simp
    show "subarr (flash_offset ?part + 0) (length ?data) (xip pl w1) = replicate (length ?data) 0xFF" using erased dl by simp
  qed (use that in simp)
  have "write_state c pl w st ix = (w2, HAL_OK)"
    using part 1(1) 2(1) by (simp add: write_state_def encode_state [OF wf] FLASH_SECTOR_SIZE_def)
  then show thesis using that 2(2) by blast
qed

lemma load_live:
  assumes on: "steady w" and good: "ota_good c pl w" and b: "ota_build_valid b"
    and known: "rp_read_state c pl w \<noteq> None \<or> factory_fits c b"
  obtains w1 r where "load_or_initialise_state c b pl w = Some (w1, Some r, HAL_OK)" "steady w1"
proof (cases "rp_read_state c pl w")
  case (Some r)
  then have "load_or_initialise_state c b pl w = Some (w, Some r, HAL_OK)"
    by (simp add: load_or_initialise_state_def load_state_eq [OF good])
  then show thesis using that on by blast
next
  case None
  let ?start = "flash_binary_start b" and ?stop = "flash_binary_end b"
  let ?program = "\<lparr>flash_offset = HAL_RP_OTA_PROGRAM_OFFSET c, part_size = HAL_RP_OTA_SLOT_SIZE c\<rparr>"
  have fits: "XIP_BASE b + HAL_RP_OTA_PROGRAM_OFFSET c \<le> ?start" "?start < ?stop" "?stop - ?start \<le> HAL_RP_OTA_SLOT_SIZE c"
    "?stop - ?start < 2 ^ 32" using known None by (simp_all add: factory_fits_def)
  have size: "unat (of_nat (?stop - ?start) :: u32) = ?stop - ?start" by (rule unat_of_nat_less) (use fits(4) in simp)
  obtain d where d: "digest_partition pl w ?program (of_nat (?stop - ?start)) = Some (Some d, HAL_OK)" "length d = 32"
  proof -
    have "(of_nat (?stop - ?start) :: u32) \<noteq> 0" using size fits(2) by (metis unat_0 zero_less_diff less_numeral_extra(3))
    then show thesis using that digest_ok [of "of_nat (?stop - ?start)" ?program w] size fits(3) program_fits [OF good] by simp
  qed
  let ?st = "\<lparr>bs_sequence = 1, bs_mode = JH_OTA_BOOT_STABLE, bs_attempts = 0,
      bs_max_attempts = of_nat (HAL_RP_OTA_MAX_BOOT_ATTEMPTS b), bs_program_size = of_nat (?stop - ?start), bs_staging_size = 0,
      bs_program_generation = 0, bs_staging_generation = 0, bs_program_sha256 = d,
      bs_staging_sha256 = replicate 32 0, bs_program_version = blit (replicate 32 0) 0 ascii_factory,
      bs_staging_version = blit (replicate 32 0) 0 ascii_empty\<rparr>"
  have "HAL_RP_OTA_MAX_BOOT_ATTEMPTS b < 256" "0 < HAL_RP_OTA_MAX_BOOT_ATTEMPTS b" using b by (simp_all add: ota_build_valid_def)
  then have "unat (of_nat (HAL_RP_OTA_MAX_BOOT_ATTEMPTS b) :: u8) \<noteq> 0" by (simp add: unat_of_nat)
  then have "(of_nat (HAL_RP_OTA_MAX_BOOT_ATTEMPTS b) :: u8) > 0" by (simp add: word_less_nat_alt)
  then have wf: "boot_state_wf ?st"
    using d(2) by (intro boot_state_ok_wf) (simp add: boot_state_ok_def blit_def ascii_factory_def ascii_empty_def)
  have ix: "(1 :: u8) = 0 \<or> (1 :: u8) = 1" by simp
  obtain w1 where w1: "write_state c pl w ?st 1 = (w1, HAL_OK)" "steady w1" by (rule write_state_live [OF on good wf ix])
  have "initialise_factory_state c b pl w = Some (w1, Some (?st, 0), HAL_OK)"
    using fits(1-3) d(1) w1(1) unfolding initialise_factory_state_def partitions Let_def by simp
  then have "load_or_initialise_state c b pl w = Some (w1, Some (?st, 0), HAL_OK)"
    using None by (simp add: load_or_initialise_state_def load_state_eq [OF good])
  then show thesis using that w1(2) by blast
qed

lemma request_live:
  assumes on: "steady w" and good: "ota_good c pl w" and idle: "ota_idle c pl w" and b: "ota_build_valid b"
    and known: "rp_read_state c pl w \<noteq> None \<or> factory_fits c b" and m: "manifest_accepted c b key (ow_manifest s)"
  shows "\<exists>w'. request_swap c b pl s w = Some (zero_writer, w', HAL_OK) \<and> steady w' \<and> slots_frame w w'"
proof -
  let ?m = "ow_manifest s"
  obtain w1 r where 1: "load_or_initialise_state c b pl w = Some (w1, Some r, HAL_OK)" "steady w1" by (rule load_live [OF on good b known])
  obtain s1 i1 where r: "r = (s1, i1)" by fastforce
  have 2: "slots_frame w w1" "rp_read_state c pl w1 = Some (s1, i1)" "bs_mode s1 = JH_OTA_BOOT_STABLE"
    using load_or_initialise_ok [OF good idle b] 1(1) r by auto
  have good1: "ota_good c pl w1" using 2(1) by (simp add: slots_frame_def)
  let ?phase = "\<lparr>flash_offset = HAL_RP_OTA_PHASE_OFFSET c, part_size = 4096\<rparr>"
  have place: "4096 dvd flash_offset ?phase + 0" "flash_offset ?phase + part_size ?phase \<le> length (xip pl w1)"
    using regions_fit(3,4) good1 by (simp_all add: ota_good_def)
  obtain w2 where 3: "jh_rp_flash_storage_erase pl w1 ?phase 0 4096 = (w2, HAL_OK)" "steady w2"
    by (rule storage_erase_live [OF 1(2) place(1) dvd_refl _ _ place(2)]) simp_all
  note ej = erase_journal(1,2) [OF good1 3(1)]
  have good2: "ota_good c pl w2" and cur: "rp_read_state c pl w2 = Some (s1, i1)" using ej 2(2) by (simp_all add: slots_frame_def)
  let ?st = "s1\<lparr>bs_sequence := bs_sequence s1 + 1, bs_mode := JH_OTA_BOOT_PENDING, bs_attempts := 0,
      bs_staging_size := om_payload_size ?m, bs_staging_generation := om_generation ?m,
      bs_staging_sha256 := om_sha256 ?m, bs_staging_version := om_version ?m\<rparr>"
  have ix: "i1 = 0 \<or> i1 = 1" using cur unfolding rp_read_state_def by (rule select_index)
  have "boot_state_ok s1" by (rule read_state_ok [OF good2 cur])
  then have wf: "boot_state_wf ?st"
    using m by (auto simp: boot_state_wf_def boot_state_ok_def state_valid_def text_valid_last manifest_accepted_def
        manifest_ok_def manifest_valid_def)
  obtain w3 where 4: "write_state c pl w2 ?st i1 = (w3, HAL_OK)" "steady w3" by (rule write_state_live [OF 3(2) good2 wf ix])
  have "slots_frame w w3" by (rule slots_frame_trans [OF slots_frame_trans [OF 2(1) ej(1)] write_frame(1) [OF good2 wf ix 4(1)]])
  moreover have "request_swap c b pl s w = Some (zero_writer, w3, HAL_OK)"
    using 1(1) r 2(3) partitions(3) 3(1) 4(1) by (simp add: request_swap_def Let_def)
  ultimately show ?thesis using 4(2) by blast
qed

text \<open>Finishing flushes the last page, checks both digests and asks for the exchange.\<close>

lemma last_page_live:
  assumes ok: "container_ok c b key m payload" and fed: "container_fed c pl key m payload (160 + length payload) s w"
    and w: "steady w" "ota_good c pl w"
  obtains s' w' where "flush_page pl s w = (s', w', HAL_OK)" "steady w'" "upload_frame w w'" "ow_manifest s' = m"
    "ow_staging s' = staging_part" "ow_sha256 s' = ow_sha256 s"
    "subarr (HAL_RP_OTA_STAGING_OFFSET c) (length payload) (xip pl w') = payload"
proof -
  let ?at = "HAL_RP_OTA_STAGING_OFFSET c"
  have m: "length payload \<le> HAL_RP_OTA_SLOT_SIZE c" using ok by (simp add: container_ok_def manifest_accepted_def)
  have f: "ow_manifest s = m" "ow_staging s = staging_part" "payload_fed c pl payload (length payload) s w"
    using fed by (simp_all add: container_fed_def)
  obtain y u where j: "length payload = y + u" "256 dvd y" "u < 256" "unat (payload_received s) = length payload" "page_used s = u"
    "ow_page s = subarr y u payload @ replicate (256 - u) 0xFF" "subarr ?at y (xip pl w) = take y payload"
    "sector_open ?at y (xip pl w)" using f(3) unfolding payload_fed_def by blast
  show thesis
  proof (cases "u = 0")
    case True
    then have "flush_page pl s w = (s, w, HAL_OK)" using j(5) by (simp add: flush_page_def)
    then show thesis using that w(1) f(1,2) j(1,7) True by simp
  next
    case False
    have len: "length (ow_page s) = 256" using j(1,3) by (simp add: j(6))
    have got: "unat (payload_received s) = y + u" using j(1,4) by simp
    obtain w' where w': "flush_page pl s w = (s\<lparr>page_used := 0, ow_page := replicate 256 0xFF\<rparr>, w', HAL_OK)" "steady w'"
      "subarr ?at y (xip pl w') = subarr ?at y (xip pl w)" "subarr (?at + y) 256 (xip pl w') = ow_page s"
      by (rule flush_live [OF w f(2) j(5) _ _ got j(2) _ len j(8)]) (use False j(1,3) m in simp_all)
    have "subarr (?at + y) u (xip pl w') = take u (subarr (?at + y) 256 (xip pl w'))" using j(3) by (simp add: subarr_def min_def)
    also have "\<dots> = subarr y u payload" unfolding w'(4) j(6) using j(1) by simp
    finally have "subarr ?at (y + u) (xip pl w') = take y payload @ subarr y u payload" unfolding subarr_append w'(3) j(7) by simp
    also have "\<dots> = payload" using j(1) by (simp add: subarr_def flip: take_add)
    finally have all: "subarr ?at (length payload) (xip pl w') = payload" unfolding j(1) .
    have "upload_frame w w'" using flush_frame [OF w'(1) f(2) w(2)] by blast
    then show thesis using that [OF w'(1,2)] all f(1,2) by simp
  qed
qed

lemma finish_live:
  assumes ok: "container_ok c b key m payload" and fed: "container_fed c pl key m payload (160 + length payload) s w"
    and w: "steady w" "ota_good c pl w" and idle: "ota_idle c pl w" and b: "ota_build_valid b"
    and known: "rp_read_state c pl w \<noteq> None \<or> factory_fits c b" and sha: "om_sha256 m = sha256 payload"
  shows "\<exists>w'. jh_rp_ota_storage_finish c b pl s w = Some (zero_writer, w', HAL_OK) \<and> steady w' \<and>
    take (length payload) (slot_bytes c pl w' JH_OTA_SWAP_SLOT_STAGING) = payload"
proof -
  have m: "manifest_accepted c b key m" "om_payload_size m \<noteq> 0" "unat (om_payload_size m) = length payload"
    "length payload \<le> HAL_RP_OTA_SLOT_SIZE c" "160 + length payload < 2 ^ 32"
    using ok by (simp_all add: container_ok_def manifest_accepted_def)
  have f: "ow_active s" "staging_ready s" "ow_manifest s = m" "container_size s = 160 + om_payload_size m"
    "unat (container_received s) = 160 + length payload" "payload_fed c pl payload (length payload) s w"
    using fed by (simp_all add: container_fed_def)
  have "unat (container_size s) = 160 + length payload" using m(3,5) f(4) by (simp add: unat_word_ariths)
  then have all: "container_received s = container_size s" using f(5) by (simp add: word_unat_eq_iff)
  have "unat (payload_received s) = length payload" and ctx: "ctx_holds (ow_sha256 s) payload" "s_initialized (ow_sha256 s)"
    using f(6) by (auto simp: payload_fed_def)
  then have got: "payload_received s = om_payload_size m" using m(3) by (simp add: word_unat_eq_iff)
  obtain s1 w1 where 1: "flush_page pl s w = (s1, w1, HAL_OK)" "steady w1" "upload_frame w w1" "ow_manifest s1 = m"
    "ow_staging s1 = staging_part" "ow_sha256 s1 = ow_sha256 s" "subarr (HAL_RP_OTA_STAGING_OFFSET c) (length payload) (xip pl w1) = payload"
    by (rule last_page_live [OF ok fed w])
  have w1: "ota_good c pl w1" "ota_idle c pl w1" "rp_read_state c pl w1 \<noteq> None \<or> factory_fits c b"
    using 1(3) w(2) idle known by (simp_all add: upload_frame_def ota_idle_def)
  obtain cx where "jh_sha256_final (ow_sha256 s) = Some (cx, sha256 payload)" using final_digest [OF ctx(1)] by blast
  then have 2: "hal_sha256_final_ex (Some (ow_sha256 s1)) True = Some (Some cx, Some (om_sha256 m), HAL_OK)"
    using ctx(2) 1(6) sha by (simp add: hal_sha256_final_ex_def)
  have "digest_partition pl w1 staging_part (om_payload_size m) =
      Some (Some (sha256 (subarr (flash_offset staging_part) (unat (om_payload_size m)) (xip pl w1))), HAL_OK)"
    by (rule digest_ok [OF m(2) _ staging_fits [OF w1(1)]]) (use m(3,4) in simp)
  then have 3: "digest_partition pl w1 staging_part (om_payload_size m) = Some (Some (om_sha256 m), HAL_OK)"
    using 1(7) m(3) sha by simp
  have "manifest_accepted c b key (ow_manifest (s1\<lparr>ow_sha256 := cx\<rparr>))" using m(1) 1(4) by simp
  from request_live [OF 1(2) w1(1,2) b w1(3) this] obtain w' where 4: "request_swap c b pl (s1\<lparr>ow_sha256 := cx\<rparr>) w1 = Some (zero_writer, w', HAL_OK)"
    "steady w'" "slots_frame w1 w'" by blast
  have "jh_rp_ota_storage_finish c b pl s w = Some (zero_writer, w', HAL_OK)"
    using f(1-3) all got 1(1,4,5) 2 3 4(1) by (simp add: jh_rp_ota_storage_finish_def Let_def)
  moreover have "take (length payload) (slot_bytes c pl w' JH_OTA_SWAP_SLOT_STAGING) = payload"
    unfolding slots_frame_bytes(2) [OF 4(3)] using 1(7) m(4) by (simp add: slot_bytes_def slot_offset_def subarr_def min_def)
  ultimately show ?thesis using 4(2) by blast
qed

section \<open>From the container to the running program\<close>

lemma upload_live:
  assumes ok: "container_ok c b (take kn key) m payload" and sha: "om_sha256 m = sha256 payload"
    and dev: "steady w" "ota_good c pl w" "ota_idle c pl w" "\<not> ow_active s" "ota_build_valid b"
      "rp_read_state c pl w \<noteq> None \<or> factory_fits c b"
    and key: "kn \<le> length key" "kn \<le> HAL_MD5_HEX_BUF_SIZE"
    and ps: "concat ps = manifest_record m @ payload" "[] \<notin> set ps"
  shows "\<exists>s1 s2 w2 w3. jh_rp_ota_storage_begin c pl s w (of_nat (160 + length payload)) (Some key) kn = (s1, HAL_OK) \<and>
    write_pieces c b pl ps s1 w = Some (s2, w2, True) \<and>
    ota_session c b pl (take kn key) (slot_bytes c pl w JH_OTA_SWAP_SLOT_PROGRAM) s2 w2 \<and>
    jh_rp_ota_storage_finish c b pl s2 w2 = Some (zero_writer, w3, HAL_OK) \<and> steady w3 \<and>
    take (length payload) (slot_bytes c pl w3 JH_OTA_SWAP_SLOT_STAGING) = payload"
proof -
  obtain s1 where 1: "jh_rp_ota_storage_begin c pl s w (of_nat (160 + length payload)) (Some key) kn = (s1, HAL_OK)"
    "container_fed c pl (take kn key) m payload 0 s1 w" using begin_live [OF ok dev(2,3,4) key] by blast
  have "concat ps = drop 0 (manifest_record m @ payload)" using ps(1) by simp
  from pieces_live [OF ok 1(2) dev(1,2) this ps(2)] obtain s2 w2 where 2: "write_pieces c b pl ps s1 w = Some (s2, w2, True)"
    "container_fed c pl (take kn key) m payload (160 + length payload) s2 w2" "steady w2" "upload_frame w w2" by blast
  have w2: "ota_good c pl w2" "ota_idle c pl w2" "rp_read_state c pl w2 \<noteq> None \<or> factory_fits c b"
    using 2(4) dev(2,3,6) by (simp_all add: upload_frame_def ota_idle_def)
  obtain w3 where 3: "jh_rp_ota_storage_finish c b pl s2 w2 = Some (zero_writer, w3, HAL_OK)" "steady w3"
    "take (length payload) (slot_bytes c pl w3 JH_OTA_SWAP_SLOT_STAGING) = payload"
    using finish_live [OF ok 2(2,3) w2(1,2) dev(5) w2(3) sha] by blast
  have "ota_session c b pl (take kn key) (slot_bytes c pl w JH_OTA_SWAP_SLOT_PROGRAM) s1 w"
    by (rule ota_session.begun [OF dev(2) refl 1(1) key(1) refl])
  from write_pieces_session [OF this 2(1)] show ?thesis using 1(1) 2(1) 3 by blast
qed

lemma upload_lands:
  assumes ok: "container_ok c b (take kn key) m payload" and sha: "om_sha256 m = sha256 payload"
    and dev: "steady w" "ota_good c pl w" "ota_idle c pl w" "\<not> ow_active s" "ota_build_valid b"
      "rp_read_state c pl w \<noteq> None \<or> factory_fits c b"
    and key: "kn \<le> length key" "kn \<le> HAL_MD5_HEX_BUF_SIZE"
    and ps: "concat ps = manifest_record m @ payload" "[] \<notin> set ps"
  shows "\<exists>s1 s2 w2 w3 w4. jh_rp_ota_storage_begin c pl s w (of_nat (160 + length payload)) (Some key) kn = (s1, HAL_OK) \<and>
    write_pieces c b pl ps s1 w = Some (s2, w2, True) \<and>
    jh_rp_ota_storage_finish c b pl s2 w2 = Some (zero_writer, w3, HAL_OK) \<and>
    rp_boot_main c pl w3 = (w4, JH_OTA_BOOT_ACTION_LAUNCH) \<and> steady w4 \<and>
    take (length payload) (slot_bytes c pl w4 JH_OTA_SWAP_SLOT_PROGRAM) = payload"
proof -
  obtain s1 s2 w2 w3 where up: "jh_rp_ota_storage_begin c pl s w (of_nat (160 + length payload)) (Some key) kn = (s1, HAL_OK)"
    "write_pieces c b pl ps s1 w = Some (s2, w2, True)"
    "ota_session c b pl (take kn key) (slot_bytes c pl w JH_OTA_SWAP_SLOT_PROGRAM) s2 w2"
    "jh_rp_ota_storage_finish c b pl s2 w2 = Some (zero_writer, w3, HAL_OK)" "steady w3"
    "take (length payload) (slot_bytes c pl w3 JH_OTA_SWAP_SLOT_STAGING) = payload"
    using upload_live [OF assms] by blast
  from finish_ok [OF up(3) dev(5)] obtain img s0 where "swap_requested c pl (slot_bytes c pl w JH_OTA_SWAP_SLOT_PROGRAM) img (ow_manifest s2) s0 w3"
    using up(4) steady_on [OF up(5)] by auto
  then have st: "ota_staged c pl (slot_bytes c pl w JH_OTA_SWAP_SLOT_PROGRAM) img s0 w3"
    "starts_with_image img (bs_staging_size s0) (bs_staging_sha256 s0)" unfolding swap_requested_def by blast+
  obtain ix where rd: "rp_read_state c pl w3 = Some (s0, ix)" "bs_mode s0 = JH_OTA_BOOT_PENDING"
    and img: "img = slot_bytes c pl w3 JH_OTA_SWAP_SLOT_STAGING" using st(1) by (auto simp: ota_staged_def)
  obtain w4 action where boot: "rp_boot_main c pl ((rp_reset c pl ^^ 0) w3) = (w4, action)" by fastforce
  from update_lands [OF ota_run.staged [OF st(1)] up(5) rd st(2) _ boot]
  have "action = JH_OTA_BOOT_ACTION_LAUNCH" "steady w4" "slot_bytes c pl w4 JH_OTA_SWAP_SLOT_PROGRAM = img" by simp_all
  then show ?thesis using up boot img by (intro exI [of _ s1] exI [of _ s2] exI [of _ w2] exI [of _ w3] exI [of _ w4]) simp
qed

text \<open>A new image that runs on trial can confirm itself.\<close>

lemma pending_on_trial:
  assumes run: "ota_run c pl powered a b s0 w" and w: "steady w" "rp_read_state c pl w = Some (st, ix)" "bs_mode st = JH_OTA_BOOT_PENDING"
    and img: "starts_with_image b (bs_staging_size s0) (bs_staging_sha256 s0)"
  obtains w' where "rp_boot_main c pl w = (w', JH_OTA_BOOT_ACTION_LAUNCH)" "steady w'" "on_trial c pl 0 w'"
    "ota_run c pl powered a b s0 w'" "slot_bytes c pl w' JH_OTA_SWAP_SLOT_PROGRAM = b"
proof -
  obtain x y where inv: "concat y = b" "ota.update_inv x y s0 w" using ota_run_inv [OF run] by (auto simp: run_inv_def)
  have ver: "ota.verified y s0" using img inv(1) by (simp add: ota.verified_def image_ok_bytes)
  obtain w' action where boot: "rp_boot_main c pl w = (w', action)" by fastforce
  from boot_pending [OF inv(2) w(1) ver boot w(2,3)] have p: "action = JH_OTA_BOOT_ACTION_LAUNCH" "steady w'" "ota.progr w' = y"
    "on_trial c pl 0 w'" by blast+
  have "ota_run c pl powered a b s0 w'" by (rule ota_run.boot [OF run boot]) (use steady_on [OF p(2)] in blast)
  then show thesis using that boot p progr_bytes [of w'] inv(1) by simp
qed

lemma confirm_live:
  assumes good: "ota_good c pl w" and w: "steady w" "on_trial c pl k w"
  obtains w' where "jh_rp_ota_storage_confirm_boot c pl w = (w', HAL_OK)" "steady w'"
proof -
  obtain st ix where st: "rp_read_state c pl w = Some (st, ix)" "bs_mode st = JH_OTA_BOOT_TRIAL" using w(2) by (auto simp: on_trial_def)
  have ix: "ix = 0 \<or> ix = 1" using st(1) unfolding rp_read_state_def by (rule select_index)
  have "boot_state_ok st" by (rule read_state_ok [OF good st(1)])
  then have wf: "boot_state_wf (st\<lparr>bs_sequence := bs_sequence st + 1, bs_mode := JH_OTA_BOOT_STABLE, bs_attempts := 0\<rparr>)"
    by (intro boot_state_ok_wf) (simp add: boot_state_ok_def)
  obtain w' where "write_state c pl w (st\<lparr>bs_sequence := bs_sequence st + 1, bs_mode := JH_OTA_BOOT_STABLE, bs_attempts := 0\<rparr>) ix = (w', HAL_OK)"
    "steady w'" by (rule write_state_live [OF w(1) good wf ix])
  then show thesis using that st by (simp add: jh_rp_ota_storage_confirm_boot_def load_state_eq [OF good])
qed

end

text \<open>A container as the tool makes it: the manifest is signed and encoded.\<close>

lemma signed_container:
  assumes m: "manifest_ok m" "om_target m = jh_ota_current_target b" "unat (om_program_offset m) = HAL_RP_OTA_PROGRAM_OFFSET c"
      "unat (om_payload_size m) = length payload" "length payload \<le> HAL_RP_OTA_SLOT_SIZE c" "160 + length payload < 2 ^ 32"
    and k: "kn \<le> length key" and sign: "jh_ota_image_manifest_sign m (Some key) kn = Some (m', HAL_OK)"
    and enc: "jh_ota_image_manifest_encode m' = (Some header, HAL_OK)"
  shows "container_ok c b (take kn key) m' payload" "header = manifest_record m'" "om_sha256 m' = om_sha256 m"
proof -
  have m': "m' = m\<lparr>om_signature := hmac (take kn key) (manifest_front m)\<rparr>" using sign sign_manifest [OF m(1) k] by simp
  then have ok: "manifest_ok m'" using m(1) by (simp add: manifest_ok_def manifest_valid_def)
  have "manifest_front m' = manifest_front m" by (simp add: m' manifest_front_def)
  moreover have "om_payload_size m' \<noteq> 0" using m(1) by (auto simp: m' manifest_ok_def manifest_valid_def)
  ultimately show "container_ok c b (take kn key) m' payload"
    using ok m by (simp add: container_ok_def manifest_accepted_def) (simp add: m')
  show "header = manifest_record m'" using enc encode_manifest [OF ok] by simp
  show "om_sha256 m' = om_sha256 m" by (simp add: m')
qed

end
