(* ===== verification/Ota_Claims.thy ===== *)
theory Ota_Claims
  imports Rp_Ota_Accept
begin

text \<open>
  What the firmware update promises, for any flash that keeps the laws of \<open>rp_machine\<close>, and a device on the simulated
  flash of \<open>Rp_Boot\<close> that shows the laws and a staged update can hold.
\<close>

section \<open>A device on the simulated flash\<close>

definition sim_ota_config :: rp_config where
  "sim_ota_config = \<lparr>PICO_FLASH_SIZE_BYTES = sim_size, HAL_RP_FLASH_EEPROM_SIZE = 0, HAL_RP_FLASH_LITTLEFS_SIZE = 0,
     HAL_RP_OTA_SLOT_SIZE = 8192, HAL_RP_OTA_PROGRAM_OFFSET = 16384, HAL_RP_OTA_STAGING_OFFSET = 24576,
     HAL_RP_OTA_PHASE_OFFSET = 36864, HAL_RP_OTA_SCRATCH_OFFSET = 32768, HAL_RP_OTA_STATE_A_OFFSET = 40960,
     HAL_RP_OTA_STATE_B_OFFSET = 45056\<rparr>"

lemma sim_ota_layout: "ota_layout sim_ota_config"
  by (simp add: ota_layout_def ota_regions_def sim_ota_config_def kSlotSectors_def FLASH_SECTOR_SIZE_def sim_size_def apart_def)

interpretation device: rp_ota_steady sim_platform sim_on sim_ota_config sim_steady
  by unfold_locales (rule sim_ota_layout)

text \<open>The program slot holds ones, the staging slot twos, and the first record a state.\<close>

definition sim_device :: "boot_state \<Rightarrow> nat option \<Rightarrow> sim" where
  "sim_device st c = \<lparr>cells = \<lambda>i. if 16384 \<le> i \<and> i < 24576 then 1 else if 24576 \<le> i \<and> i < 32768 then 2
     else if 40960 \<le> i \<and> i < 41216 then state_record st ! (i - 40960) else 0xFF, charge = c\<rparr>"

definition sim_update :: boot_state where
  "sim_update = \<lparr>bs_sequence = 1, bs_mode = JH_OTA_BOOT_PENDING, bs_attempts = 0, bs_max_attempts = 3,
     bs_program_size = 4, bs_staging_size = 4, bs_program_generation = 0, bs_staging_generation = 1,
     bs_program_sha256 = sha256 (replicate 4 1), bs_staging_sha256 = sha256 (replicate 4 2),
     bs_program_version = replicate 32 0, bs_staging_version = replicate 32 0\<rparr>"

lemma sim_update_ok: "boot_state_ok sim_update"
  by (simp add: sim_update_def boot_state_ok_def)

lemma sim_read:
  assumes "off + k \<le> sim_size" "length xs = k" "\<And>i. i < k \<Longrightarrow> cells w (off + i) = xs ! i"
  shows "subarr off k (sim_xip w) = xs"
  using assms by (intro nth_equalityI) (simp_all add: nth_subarr nth_sim_xip)

lemma sim_xip_platform [simp]: "xip sim_platform = sim_xip"
  by (simp add: sim_platform_def)

lemma sim_device_read:
  assumes "boot_state_ok st"
  shows "rp_read_state sim_ota_config sim_platform (sim_device st ch) = Some (st, 0)"
proof -
  have "rp_state_bytes sim_ota_config sim_platform (sim_device st ch) 0 = state_record st"
    unfolding device.state_bytes_offset sim_xip_platform
    by (rule sim_read) (use assms in \<open>simp_all add: sim_ota_config_def sim_size_def sim_device_def\<close>)
  moreover have "rp_state_bytes sim_ota_config sim_platform (sim_device st ch) 1 = replicate 256 0xFF"
    unfolding device.state_bytes_offset sim_xip_platform
    by (rule sim_read) (simp_all add: sim_ota_config_def sim_size_def sim_device_def)
  moreover have "fst (jh_ota_boot_state_decode (replicate 256 0xFF)) = None" by (rule decode_erased) simp_all
  ultimately show ?thesis using decode_state [OF assms] by (simp add: rp_read_state_def jh_ota_boot_state_select_def)
qed

lemma sim_device_slots:
  "slot_bytes sim_ota_config sim_platform (sim_device st ch) JH_OTA_SWAP_SLOT_PROGRAM = replicate 8192 1"
  "slot_bytes sim_ota_config sim_platform (sim_device st ch) JH_OTA_SWAP_SLOT_STAGING = replicate 8192 2"
  "ota_phases sim_ota_config sim_platform (sim_device st ch) = replicate 2 0xFF"
  unfolding slot_bytes_def ota_phases_def sim_xip_platform
  by (rule sim_read; simp add: slot_offset_def sim_ota_config_def sim_size_def sim_device_def kSlotSectors_def FLASH_SECTOR_SIZE_def)+

lemma sim_device_good: "ota_good sim_ota_config sim_platform w"
  by (simp add: ota_good_def sim_ota_config_def)

lemma sim_staged:
  "ota_staged sim_ota_config sim_platform (replicate 8192 1) (replicate 8192 2) sim_update (sim_device sim_update ch)"
  using sim_device_read [OF sim_update_ok, of ch]
  by (simp add: ota_staged_def sim_device_good sim_device_slots kErased_def) (simp add: sim_update_def)

abbreviation sim_ota_run :: "sim \<Rightarrow> bool" where
  "sim_ota_run \<equiv> ota_run sim_ota_config sim_platform sim_on (replicate 8192 1) (replicate 8192 2) sim_update"

lemma sim_image: "starts_with_image (replicate 8192 2) (bs_staging_size sim_update) (bs_staging_sha256 sim_update)"
  by (simp add: starts_with_image_def sim_update_def)

text \<open>With power that stays on.\<close>

lemma sim_lands:
  assumes "k \<le> 4"
  obtains w' where
    "rp_boot_main sim_ota_config sim_platform ((rp_reset sim_ota_config sim_platform ^^ k) (sim_device sim_update None)) =
       (w', JH_OTA_BOOT_ACTION_LAUNCH)" "sim_on w'"
proof -
  let ?w = "sim_device sim_update None"
  obtain w' action where run: "rp_boot_main sim_ota_config sim_platform ((rp_reset sim_ota_config sim_platform ^^ k) ?w) = (w', action)"
    by fastforce
  have st: "sim_steady ?w" "bs_mode sim_update = JH_OTA_BOOT_PENDING" "k \<le> unat (bs_max_attempts sim_update) + 1"
    using assms by (simp_all add: sim_steady_def sim_device_def sim_update_def)
  from device.update_lands [OF ota_run.staged [OF sim_staged] st(1) sim_device_read [OF sim_update_ok] st(2) sim_image st(3) run]
  show thesis using run that sim.steady_on by blast
qed

text \<open>The device before the upload, an image, and its container in three pieces.\<close>

definition sim_stable :: boot_state where
  "sim_stable = sim_update\<lparr>bs_mode := JH_OTA_BOOT_STABLE\<rparr>"

definition sim_build :: ota_build where
  "sim_build = \<lparr>XIP_BASE = 0, flash_binary_start = 16384, flash_binary_end = 20480, HAL_RP_OTA_MAX_BOOT_ATTEMPTS = 3,
     jh_ota_current_target = 1\<rparr>"

definition sim_payload :: bytes where "sim_payload = [9, 9, 9, 9]"
definition sim_key :: bytes where "sim_key = [1, 2, 3]"

definition sim_manifest :: ota_manifest where
  "sim_manifest = \<lparr>om_target = 1, om_flags = 0, om_program_offset = 16384, om_payload_size = 4, om_generation = 2,
     om_sha256 = sha256 sim_payload, om_version = replicate 32 0, om_signature = replicate 32 0\<rparr>"

definition sim_signed :: ota_manifest where
  "sim_signed = sim_manifest\<lparr>om_signature := hmac sim_key (manifest_front sim_manifest)\<rparr>"

definition sim_pieces :: "bytes list" where
  "sim_pieces = [take 100 (manifest_record sim_signed), drop 100 (manifest_record sim_signed) @ [9], [9, 9, 9]]"

lemma sim_stable_ok: "boot_state_ok sim_stable"
  using sim_update_ok by (simp add: sim_stable_def boot_state_ok_def)

lemma sim_build_ok: "ota_build_valid sim_build"
  by (simp add: ota_build_valid_def sim_build_def)

lemma sim_manifest_ok: "manifest_ok sim_manifest"
  by (simp add: manifest_ok_def manifest_valid_def text_valid_def sim_manifest_def JH_OTA_TARGET_UNKNOWN_def JH_OTA_VERSION_TEXT_SIZE_def)

lemma sim_sign: "jh_ota_image_manifest_sign sim_manifest (Some sim_key) 3 = Some (sim_signed, HAL_OK)"
  using sign_manifest [OF sim_manifest_ok, of 3 sim_key] by (simp add: sim_signed_def sim_key_def)

lemma sim_signed_ok: "manifest_ok sim_signed"
  using sim_manifest_ok by (simp add: sim_signed_def manifest_ok_def manifest_valid_def)

lemma sim_pieces_ok: "concat sim_pieces = manifest_record sim_signed @ sim_payload" "[] \<notin> set sim_pieces"
proof -
  have "concat sim_pieces = (take 100 (manifest_record sim_signed) @ drop 100 (manifest_record sim_signed)) @ sim_payload"
    by (simp only: sim_pieces_def sim_payload_def concat.simps append_assoc append_Cons append_Nil append_Nil2)
  then show "concat sim_pieces = manifest_record sim_signed @ sim_payload" unfolding append_take_drop_id .
  have "length (manifest_record sim_signed) = 160" using sim_signed_ok by simp
  then have "manifest_record sim_signed \<noteq> []" by auto
  then show "[] \<notin> set sim_pieces" by (simp add: sim_pieces_def)
qed

lemma sim_container: "container_ok sim_ota_config sim_build (take 3 sim_key) sim_signed sim_payload"
proof -
  have fields: "om_target sim_manifest = jh_ota_current_target sim_build"
    "unat (om_program_offset sim_manifest) = HAL_RP_OTA_PROGRAM_OFFSET sim_ota_config"
    "unat (om_payload_size sim_manifest) = length sim_payload" "length sim_payload \<le> HAL_RP_OTA_SLOT_SIZE sim_ota_config"
    "160 + length sim_payload < 2 ^ 32"
    by (simp_all add: sim_manifest_def sim_build_def sim_ota_config_def sim_payload_def)
  show ?thesis
    by (rule signed_container(1) [OF sim_manifest_ok fields _ sim_sign encode_manifest [OF sim_signed_ok]]) (simp add: sim_key_def)
qed

lemma sim_ready:
  "sim_steady (sim_device sim_stable None)" "ota_idle sim_ota_config sim_platform (sim_device sim_stable ch)" "\<not> ow_active zero_writer"
  "rp_read_state sim_ota_config sim_platform (sim_device sim_stable ch) \<noteq> None"
  using sim_device_read [OF sim_stable_ok]
  by (simp_all add: sim_steady_def sim_device_def ota_idle_def zero_writer_def) (simp add: sim_stable_def)

lemma sim_uploaded:
  obtains s2 w2 w3 where "ota_session sim_ota_config sim_build sim_platform sim_key (replicate 8192 1) s2 w2"
    "jh_rp_ota_storage_finish sim_ota_config sim_build sim_platform s2 w2 = Some (zero_writer, w3, HAL_OK)" "sim_on w3"
proof -
  have key: "(3 :: nat) \<le> length sim_key" "(3 :: nat) \<le> HAL_MD5_HEX_BUF_SIZE" "take 3 sim_key = sim_key"
    by (simp_all add: sim_key_def HAL_MD5_HEX_BUF_SIZE_def)
  have sha: "om_sha256 sim_signed = sha256 sim_payload" by (simp add: sim_signed_def sim_manifest_def)
  have known: "rp_read_state sim_ota_config sim_platform (sim_device sim_stable None) \<noteq> None \<or> factory_fits sim_ota_config sim_build"
    using sim_ready(4) by blast
  note live = device.upload_live [OF sim_container sha sim_ready(1) sim_device_good sim_ready(2,3) sim_build_ok known key(1,2)
    sim_pieces_ok, unfolded key(3) sim_device_slots(1)]
  from live sim.steady_on that show thesis by blast
qed

section \<open>What is promised\<close>

text \<open>
  C3: Whatever resets and losses of power an update meets, in the middle of the exchange, of a boot record or of a
  confirmation, an image that is launched with the power on is the complete old program or the complete new image, and
  the new one only if it has the length and the hash that the boot record gives for it.
\<close>

theorem ota_launches_whole_image:
  assumes "rp_ota pl powered c" "ota_run c pl powered a b s0 w"
    and "rp_boot_main c pl w = (w', JH_OTA_BOOT_ACTION_LAUNCH)" "powered w'"
  shows "slot_bytes c pl w' JH_OTA_SWAP_SLOT_PROGRAM = a \<or>
    slot_bytes c pl w' JH_OTA_SWAP_SLOT_PROGRAM = b \<and> starts_with_image b (bs_staging_size s0) (bs_staging_sha256 s0)"
  by (rule rp_ota.run_launches [OF assms])

theorem ota_launches_whole_image_witness:
  "\<exists>w w'. sim_ota_run w \<and> rp_boot_main sim_ota_config sim_platform w = (w', JH_OTA_BOOT_ACTION_LAUNCH) \<and>
     (slot_bytes sim_ota_config sim_platform w' JH_OTA_SWAP_SLOT_PROGRAM = replicate 8192 1 \<or>
      slot_bytes sim_ota_config sim_platform w' JH_OTA_SWAP_SLOT_PROGRAM = replicate 8192 2 \<and>
        starts_with_image (replicate 8192 2) (bs_staging_size sim_update) (bs_staging_sha256 sim_update))"
proof -
  obtain w' where lands: "rp_boot_main sim_ota_config sim_platform (sim_device sim_update None) = (w', JH_OTA_BOOT_ACTION_LAUNCH)"
    "sim_on w'" using sim_lands [of 0] by auto
  have run: "sim_ota_run (sim_device sim_update None)" by (rule ota_run.staged [OF sim_staged])
  from ota_launches_whole_image [OF device.rp_ota_axioms run lands] run lands(1) show ?thesis by blast
qed

text \<open>
  C7: With a power supply that stays on, an update that is staged or was interrupted in its exchange comes to its end:
  the boot image launches the new program, launches it again at each reset until the attempts of the boot record are
  used up, and then, if it was never confirmed, puts the old program back and launches that.
\<close>

theorem ota_update_completes:
  assumes "rp_ota_steady pl powered c steady" "ota_run c pl powered a b s0 w" "steady w"
    and "rp_read_state c pl w = Some (st, ix)" "bs_mode st = JH_OTA_BOOT_PENDING"
    and "starts_with_image b (bs_staging_size s0) (bs_staging_sha256 s0)"
    and "k \<le> unat (bs_max_attempts s0) + 1" "rp_boot_main c pl ((rp_reset c pl ^^ k) w) = (w', action)"
  shows "action = JH_OTA_BOOT_ACTION_LAUNCH \<and> steady w' \<and>
    slot_bytes c pl w' JH_OTA_SWAP_SLOT_PROGRAM = (if k \<le> unat (bs_max_attempts s0) then b else a) \<and>
    (k = unat (bs_max_attempts s0) + 1 \<longrightarrow>
       (\<exists>st ix. rp_read_state c pl w' = Some (st, ix) \<and> bs_mode st = JH_OTA_BOOT_STABLE))"
  by (rule rp_ota_steady.update_lands [OF assms])

theorem ota_update_completes_witness:
  "\<exists>w'. rp_boot_main sim_ota_config sim_platform ((rp_reset sim_ota_config sim_platform ^^ 4) (sim_device sim_update None)) =
     (w', JH_OTA_BOOT_ACTION_LAUNCH) \<and> slot_bytes sim_ota_config sim_platform w' JH_OTA_SWAP_SLOT_PROGRAM = replicate 8192 1"
proof -
  let ?w = "sim_device sim_update None"
  obtain w' action where run: "rp_boot_main sim_ota_config sim_platform ((rp_reset sim_ota_config sim_platform ^^ 4) ?w) = (w', action)"
    by fastforce
  have st: "sim_steady ?w" "bs_mode sim_update = JH_OTA_BOOT_PENDING" "4 \<le> unat (bs_max_attempts sim_update) + 1"
    by (simp_all add: sim_steady_def sim_device_def sim_update_def)
  from ota_update_completes [OF device.rp_ota_steady_axioms ota_run.staged [OF sim_staged] st(1) sim_device_read [OF sim_update_ok]
      st(2) sim_image st(3) run] show ?thesis using run by (simp add: sim_update_def)
qed

text \<open>
  C4: However the pieces of an upload are cut and wherever the power is lost during it, finishing returns, the program
  slot stays as it is, and afterwards either no update is under way or one is staged as the manifest says. Success
  means that the manifest is authentic under the key of the session and meant for this program, and that the boot image
  will find the image it promises in the staging slot.
\<close>

theorem ota_finish_stages_authentic_image:
  assumes "rp_ota pl powered c" "ota_session c b pl key a s w" "ota_build_valid b"
  shows "\<exists>s' w' st. jh_rp_ota_storage_finish c b pl s w = Some (s', w', st) \<and>
    slot_bytes c pl w' JH_OTA_SWAP_SLOT_PROGRAM = a \<and>
    (powered w' \<or> ota_whole c pl w' \<longrightarrow>
       ota_idle c pl w' \<or> (\<exists>img s0. swap_requested c pl a img (ow_manifest s) s0 w')) \<and>
    (powered w' \<and> st = HAL_OK \<longrightarrow>
       manifest_accepted c b key (ow_manifest s) \<and> (\<exists>img s0. swap_requested c pl a img (ow_manifest s) s0 w'))"
  by (rule rp_ota.finish_ok [OF assms])

theorem ota_finish_stages_authentic_image_witness:
  "\<exists>s w w' img s0. ota_session sim_ota_config sim_build sim_platform sim_key (replicate 8192 1) s w \<and>
     jh_rp_ota_storage_finish sim_ota_config sim_build sim_platform s w = Some (zero_writer, w', HAL_OK) \<and>
     manifest_accepted sim_ota_config sim_build sim_key (ow_manifest s) \<and>
     swap_requested sim_ota_config sim_platform (replicate 8192 1) img (ow_manifest s) s0 w'"
proof -
  obtain s w w' where up: "ota_session sim_ota_config sim_build sim_platform sim_key (replicate 8192 1) s w"
    "jh_rp_ota_storage_finish sim_ota_config sim_build sim_platform s w = Some (zero_writer, w', HAL_OK)" "sim_on w'"
    by (rule sim_uploaded)
  from ota_finish_stages_authentic_image [OF device.rp_ota_axioms up(1) sim_build_ok]
  have "manifest_accepted sim_ota_config sim_build sim_key (ow_manifest s) \<and>
      (\<exists>img s0. swap_requested sim_ota_config sim_platform (replicate 8192 1) img (ow_manifest s) s0 w')" using up(2,3) by auto
  then show ?thesis using up(1,2) by blast
qed

text \<open>
  C8: With a power supply that stays on, an image that was made for this program and is signed with the key of the
  session is installed: the session begins on a device that runs an image and has no update under way, takes the
  container in any pieces, finishes, and the next reset launches a program slot that starts with exactly the payload.
\<close>

theorem ota_signed_image_is_installed:
  assumes "rp_ota_steady pl powered c steady"
    and "steady w" "ota_good c pl w" "ota_idle c pl w" "\<not> ow_active s" "ota_build_valid b"
    and "rp_read_state c pl w \<noteq> None \<or> factory_fits c b"
    and "manifest_ok m" "om_target m = jh_ota_current_target b" "unat (om_program_offset m) = HAL_RP_OTA_PROGRAM_OFFSET c"
    and "unat (om_payload_size m) = length payload" "length payload \<le> HAL_RP_OTA_SLOT_SIZE c" "160 + length payload < 2 ^ 32"
    and "om_sha256 m = sha256 payload" "kn \<le> length key" "kn \<le> HAL_MD5_HEX_BUF_SIZE"
    and "jh_ota_image_manifest_sign m (Some key) kn = Some (m', HAL_OK)" "jh_ota_image_manifest_encode m' = (Some header, HAL_OK)"
    and "concat pieces = header @ payload" "[] \<notin> set pieces"
  shows "\<exists>s1 s2 w2 w3 w4. jh_rp_ota_storage_begin c pl s w (of_nat (160 + length payload)) (Some key) kn = (s1, HAL_OK) \<and>
    write_pieces c b pl pieces s1 w = Some (s2, w2, True) \<and>
    jh_rp_ota_storage_finish c b pl s2 w2 = Some (zero_writer, w3, HAL_OK) \<and>
    rp_boot_main c pl w3 = (w4, JH_OTA_BOOT_ACTION_LAUNCH) \<and> steady w4 \<and>
    take (length payload) (slot_bytes c pl w4 JH_OTA_SWAP_SLOT_PROGRAM) = payload"
proof -
  note sc = signed_container [OF assms(8-13,15,17,18)]
  have sha: "om_sha256 m' = sha256 payload" and ps: "concat pieces = manifest_record m' @ payload"
    using sc(2,3) assms(14,19) by simp_all
  show ?thesis by (rule rp_ota_steady.upload_lands [OF assms(1) sc(1) sha assms(2-7,15,16) ps assms(20)])
qed

theorem ota_signed_image_is_installed_witness:
  "\<exists>s1 s2 w2 w3 w4. jh_rp_ota_storage_begin sim_ota_config sim_platform zero_writer (sim_device sim_stable None) (of_nat (160 + length sim_payload))
      (Some sim_key) 3 = (s1, HAL_OK) \<and>
    write_pieces sim_ota_config sim_build sim_platform sim_pieces s1 (sim_device sim_stable None) = Some (s2, w2, True) \<and>
    jh_rp_ota_storage_finish sim_ota_config sim_build sim_platform s2 w2 = Some (zero_writer, w3, HAL_OK) \<and>
    rp_boot_main sim_ota_config sim_platform w3 = (w4, JH_OTA_BOOT_ACTION_LAUNCH) \<and> sim_steady w4 \<and>
    take (length sim_payload) (slot_bytes sim_ota_config sim_platform w4 JH_OTA_SWAP_SLOT_PROGRAM) = sim_payload"
proof -
  have known: "rp_read_state sim_ota_config sim_platform (sim_device sim_stable None) \<noteq> None \<or> factory_fits sim_ota_config sim_build"
    using sim_ready(4) by blast
  show ?thesis
    by (rule ota_signed_image_is_installed [OF device.rp_ota_steady_axioms sim_ready(1) sim_device_good sim_ready(2,3) sim_build_ok known
          sim_manifest_ok _ _ _ _ _ _ _ _ sim_sign encode_manifest [OF sim_signed_ok] sim_pieces_ok])
      (simp_all add: sim_manifest_def sim_build_def sim_ota_config_def sim_payload_def sim_key_def HAL_MD5_HEX_BUF_SIZE_def)
qed

text \<open>
  C9: A program that was confirmed stays: after a confirmation that succeeded, every reset launches what the program
  slot held at that time, and changes nothing.
\<close>

theorem ota_confirmed_program_stays:
  assumes "rp_ota pl powered c" "ota_run c pl powered a b s0 w"
    and "jh_rp_ota_storage_confirm_boot c pl w = (w1, HAL_OK)" "powered w1 \<or> ota_whole c pl w1" "xip pl w2 = xip pl w1"
  shows "rp_boot_main c pl ((rp_reset c pl ^^ k) w2) = (w2, JH_OTA_BOOT_ACTION_LAUNCH) \<and>
    slot_bytes c pl w2 JH_OTA_SWAP_SLOT_PROGRAM = slot_bytes c pl w JH_OTA_SWAP_SLOT_PROGRAM"
proof -
  note stays = rp_ota.confirmed_stays [OF assms]
  have "(rp_reset c pl ^^ k) w2 = w2" by (induction k) (simp_all add: stays(1))
  then show ?thesis using stays by simp
qed

theorem ota_confirmed_program_stays_witness:
  "\<exists>w w1. sim_ota_run w \<and> jh_rp_ota_storage_confirm_boot sim_ota_config sim_platform w = (w1, HAL_OK) \<and>
     slot_bytes sim_ota_config sim_platform w JH_OTA_SWAP_SLOT_PROGRAM = replicate 8192 2 \<and>
     rp_boot_main sim_ota_config sim_platform ((rp_reset sim_ota_config sim_platform ^^ 7) w1) = (w1, JH_OTA_BOOT_ACTION_LAUNCH) \<and>
     slot_bytes sim_ota_config sim_platform w1 JH_OTA_SWAP_SLOT_PROGRAM = slot_bytes sim_ota_config sim_platform w JH_OTA_SWAP_SLOT_PROGRAM"
proof -
  have run: "sim_ota_run (sim_device sim_update None)" by (rule ota_run.staged [OF sim_staged])
  have st: "sim_steady (sim_device sim_update None)" "bs_mode sim_update = JH_OTA_BOOT_PENDING"
    by (simp_all add: sim_steady_def sim_device_def sim_update_def)
  obtain w where w: "sim_steady w" "on_trial sim_ota_config sim_platform 0 w" "sim_ota_run w"
    "slot_bytes sim_ota_config sim_platform w JH_OTA_SWAP_SLOT_PROGRAM = replicate 8192 2"
    by (rule device.pending_on_trial [OF run st(1) sim_device_read [OF sim_update_ok] st(2) sim_image])
  obtain w1 where w1: "jh_rp_ota_storage_confirm_boot sim_ota_config sim_platform w = (w1, HAL_OK)" "sim_steady w1"
    by (rule device.confirm_live [OF sim_device_good w(1,2)])
  have "sim_on w1 \<or> ota_whole sim_ota_config sim_platform w1" using sim.steady_on [OF w1(2)] by blast
  from ota_confirmed_program_stays [OF device.rp_ota_axioms w(3) w1(1) this refl, of 7] show ?thesis using w(3,4) w1(1) by blast
qed

end
