(* ===== verification/Spec2Isabelle.thy ===== *)
theory Spec2Isabelle
  imports Spsc_Concurrent Wg_Replay Ble_Session Calendar Serial_Frame Can_Timing Adc_Scan Gamepad_Proof Kv_Claims Ota_Claims
begin

text \<open>
  A verification of the portable core of JaszczurHAL, the hardware abstraction layer under
  \<open>src/hal\<close> (file names below are relative to that directory). The library is C and C++ that
  drivers of several boards share; what is modelled here is the part that decides something:
  rings, protocols, parsers, cryptography, time arithmetic and storage formats. Each function
  of the code is a function of the model with the same name, each enumeration and struct a
  datatype or record, each early return a branch.

  \<^bold>\<open>Conventions.\<close> Unsigned C integers are words of their width (\<open>u8\<close> to \<open>u64\<close> of theory Prelude,
  where the wrap-around matters) or \<open>nat\<close> (sizes and positions in buffers, with casts written
  out). A buffer is a list of bytes, \<open>blit\<close> writes into it; a pointer that may be null is an
  option; an out parameter is a component of the result; a callback is an argument. A \<open>hal_status_t\<close>
  is the datatype \<open>hal_status\<close>. A loop is a \<open>fun\<close> or a \<open>function\<close> with its measure; a loop
  whose end depends on data the program did not write takes fuel and has the result
  \<open>None\<close> when it runs out. Zeroing of stack buffers before return has no effect on
  results and is left out.

  \<^bold>\<open>Theories, in the order of the code's layers.\<close>

  \<^item> Prelude: machine types, status codes, lemmas on buffers and words, the collections of rules
    the others extend.
  \<^item> Endian: \<open>core/jh_endian.h\<close>; loads invert stores at every width and order.
  \<^item> Fifo, Spsc\_Ring, Spsc\_Concurrent: \<open>core/jh_spsc_ring.h\<close>. Fifo has the locale of a bounded queue
    with the theorem that a run of operations is that of the abstract queue; Spsc\_Ring has
    the code's operations and interprets the locale on them; Spsc\_Concurrent splits push and pop at
    their atomic accesses and shows by rule induction that the interleaved run transfers
    every element once, in order and untorn.
  \<^item> Sha256: \<open>security/jh_sha256.c\<close> and the hash functions of \<open>security/hal_crypto.cpp\<close>: streaming in any
    pieces equals the FIPS 180-4 digest, and HMAC equals RFC 2104.
  \<^item> Secure: zeroing and constant-time comparison.
  \<^item> Chacha20, Le\_Num, Poly1305, Poly1305\_Proof, Aead: \<open>network/wireguard/core/crypto\<close>. The limb arithmetic of
    Poly1305 is related to arithmetic modulo 2^130 - 5 with bounds that exclude overflow; decryption
    returns a plaintext exactly for packets that encryption made. The locale \<open>aead\<close> is
    interpreted on the public functions of \<open>security/hal_crypto.cpp\<close>.
  \<^item> Wg\_Replay: \<open>network/wireguard/core/wireguard_replay.h\<close>: the bitmap ring accepts exactly what an unbounded
    history of accepted numbers would.
  \<^item> Ble\_Session: \<open>bluetooth/jh_ble_stream_session.c\<close>: handshake, data frames and rejection. Entropy is a
    parameter.
  \<^item> Gamepad\_Parser, Gamepad\_Proof: \<open>bluetooth/jh_bluetooth_gamepad_parser.c\<close>: the HID descriptor parser, reports and
    the queue of snapshots; \<open>field_bytes\<close> are the indices at which a field is read, and an invariant over all reachable
    parsers shows that they are inside the report.
  \<^item> Calendar: \<open>time/jh_calendar.c\<close>: conversions between dates and epoch seconds in both directions.
  \<^item> Serial\_Frame: \<open>serial/hal_serial_frame.h\<close>: framed lines with a checksum.
  \<^item> Can\_Timing: \<open>can/jh_can_bit_timing.h\<close>: the exhaustive search for a bit timing: optimality and bounds, and two
    inputs on which the header's comments say something else than the code.
  \<^item> Adc\_Scan: \<open>analog/jh_adc_scan_ring.h\<close>: which sample frame of a DMA double buffer is the newest complete one,
    with the ring in the middle of a block, between two blocks, or changing under the reader.
  \<^item> Crc: \<open>security/hal_crc.cpp\<close>.
  \<^item> Eeprom: \<open>storage/hal_eeprom.cpp\<close>, \<open>storage/jh_eeprom_flash_provider.cpp\<close> and the interfaces of
    \<open>storage/jh_eeprom_provider.h\<close>. A table of functions is a record of functions over the provider's state; the
    application's callbacks around a write are functions on that state.
  \<^item> Kv\_Store: \<open>storage/hal_kv.cpp\<close>, its static variables as the record \<open>kv\<close>.
    Kv\_Record, Kv\_Index, Kv\_Log, Kv\_Bank and Kv\_Image relate the bytes to what they mean: records, the
    map an index stands for, the chain of committed batches in the log, a published bank and what an interrupted
    publication leaves. Kv\_Compact shows that moving the live records keeps the map.
    Kv\_Medium has the locale \<open>kv_medium\<close>, the laws a provider must keep, with the
    partial results of an interrupted write; in it Kv\_Commit and Kv\_Append show that the two ways
    to commit keep the invariant \<open>kv_ok\<close> (what is in RAM, what the next start would find, what is
    still pending), Kv\_Ops and Kv\_Exec that every request does, Kv\_Mount that a start finds what the
    invariant says, Kv\_Read that reads return the map, and what a read through to the medium checks before it returns
    a value. Kv\_Total shows that a start returns, Kv\_Run
    puts requests, formatting and restarts together in an inductive relation with the history \<open>kv_history\<close> of Kv\_Exec:
    the map last acknowledged as durable and those that were to be made durable as a whole since, so that changes deferred
    between two commits are in it all together or not at all; and Kv\_Live adds in the locale
    \<open>kv_reliable\<close> that requests succeed while the power is steady.
  \<^item> Rp\_Flash: \<open>storage/flash/jh_flash_transaction_engine.cpp\<close>, \<open>impl/rp2040/drivers/flash/rp_flash_storage.cpp\<close>
    and \<open>impl/rp2040/hal_eeprom.cpp\<close>. The flash and the steps of a transaction are the record \<open>rp_platform\<close> of
    functions; the locale \<open>rp_machine\<close> of Rp\_Program states the documented behaviour of the
    flash (an interrupted erasure leaves the region as it was or with its first byte
    erased, an interrupted page program a part from the front, a steady power does all of it). Rp\_Storage lifts this
    to partitions, Rp\_Medium shows that the provider on this backend is a \<open>kv_medium\<close>, Rp\_Live that it is
    \<open>kv_reliable\<close> while the power is steady, and Rp\_Boot that initialising the facade attaches it; a simulated
    flash with a charge that runs out shows that these laws can hold.
  \<^item> Kv\_Claims: the properties of the store and the flash, and runs on the simulated flash.
  \<^item> Bytes: pieces of a buffer next to each other, for the records of the store and of the update.
  \<^item> Ota\_Image: \<open>network/ota/jh_ota_image.cpp\<close>: the manifest of a firmware image with its keyed hash, and the boot
    state, of which the flash holds two copies.
  \<^item> Ota\_Swap: \<open>network/ota/jh_ota_swap_engine.cpp\<close>: the exchange of the program slot and the staging slot, sector by
    sector through a scratch sector, with a journal of phases, and the applier that runs at every reset. Ota\_Medium
    has the locale \<open>ota_flash\<close>, the laws of a backend over what can be observed of it (the
    journal, the sectors, the selected boot state, whether the power is on), and shows that an exchange can be resumed
    wherever it was cut short; Ota\_Boot has the invariant \<open>update_inv\<close> of the applier and what it launches, Ota\_Live
    that it comes to its end with steady power.
  \<^item> Rp\_Ota\_Boot: \<open>impl/rp2040/ota/rp_ota_boot.cpp\<close>, the boot image. Rp\_Ota\_Medium shows that its backend keeps the
    laws of \<open>ota_flash\<close> on a flash that keeps those of \<open>rp_machine\<close> and is laid out as \<open>ota_layout\<close> says;
    Rp\_Ota\_Run that what is staged satisfies the invariant.
  \<^item> Rp\_Ota\_Storage: \<open>impl/rp2040/drivers/flash/rp_ota_storage.cpp\<close>, the program's side: an image is written to the
    staging slot, the exchange is requested, and the new program confirms itself. Rp\_Ota\_Upload has the effect of each
    operation on the flash, Rp\_Ota\_Session the relation \<open>ota_session\<close> of an upload and what finishing and
    confirming do, Rp\_Ota\_Life the relation \<open>ota_run\<close> of an update over any number of resets. Rp\_Ota\_Feed and
    Rp\_Ota\_Accept show that with steady power every piece of a properly signed container is taken, that finishing it
    succeeds, and that the next reset launches it.
  \<^item> Ota\_Claims: the properties of an update, and an update on the simulated flash.

  \<^bold>\<open>How the parts meet.\<close> Ble\_Session is a client of Sha256 (transcript and key derivation), of
  Aead (sealing), of Secure (proof comparison) and of Endian. Aead is
  a client of Chacha20 and Poly1305, whose cores read and write words through Endian. WireGuard
  packets are opened by the functions of Aead and then tested by Wg\_Replay. The key-value store is a client of
  the EEPROM facade, which calls the flash provider, which calls the RP backend, which runs its operations
  as transactions; checksums are those of Crc. In an update the program (Rp\_Ota\_Storage, a client of the partitions of
  Rp\_Flash) and the boot image (Rp\_Ota\_Boot, on the raw flash) meet in the boot record of Ota\_Image, hashed
  and signed with the functions of Sha256: the one asks for the exchange, the other makes it.

  \<^bold>\<open>Bounds and fuel.\<close> The searching loops of Calendar take the year as measure, bounded by the
  configured largest year; the padding loop of Sha256 by the distance to the block end; the
  descriptor parser of Gamepad\_Parser by the bytes left, plus fuel for the repetition of
  local usages, which the limits of the code bound. The walk over the log of a bank takes the bank's size
  plus one as fuel, and a start returns for every content of the medium. The sizes of the key-value store are the
  defaults of \<open>core/hal_config.h\<close> (banks up to 4096 bytes, 256 bytes to publish, 32 keys); the page and
  sector of the RP flash are 256 and 4096 bytes. The loop that consumes the payload of an image is a partial function
  with an option as its result; it is shown to return for every writer of a session.

  \<^bold>\<open>What the flash is assumed to do.\<close> An operation of the flash that is cut short leaves only the places it was to change,
  as \<open>rp_machine\<close> says. A boot record that was cut short is rejected: \<open>ota_whole\<close> says that no record in the flash
  passes its checksum without being one the encoder wrote, which a 32-bit checksum cannot
  promise for every content and which the runs therefore name wherever the power is lost in a write.

  \<^bold>\<open>Not modelled.\<close> Drivers of displays, sensors, radios and buses (\<open>display\<close>, \<open>nfc\<close>, \<open>radio\<close>, \<open>modem\<close>,
  \<open>sensors\<close>, \<open>rtc\<close>, \<open>temperature\<close>, \<open>onewire\<close>, \<open>i2c\<close>, \<open>spi\<close>, \<open>gpio\<close>, \<open>usb\<close>, \<open>audio\<close>, \<open>input\<close>): register protocols with
  hardware whose behaviour is not in the repository; of the storage, the AT24C256 provider (a parameter of the
  facade), the locks, the progress callbacks, the fault injection that is compiled in for tests, the \<open>bool\<close>
  variants of the functions that return a status, and the file systems; of the update, the
  invitation and the transfer over the network (\<open>network/ota/jh_ota_protocol.cpp\<close>, \<open>hal_ota.cpp\<close> of the targets), the jump
  into the program and the watchdog; the platform implementations under
  \<open>impl\<close> apart from the files named above; the glue to lwIP, BTstack and FreeRTOS, third-party code
  that is not here or vendored; tables of fonts, colours and boards (\<open>display\<close>, \<open>generated\<close>, the registries of
  \<open>tools/jh\<close>), which state data and no behaviour; the command shells and the host tool \<open>tools/jh\<close>.
\<close>

end
